(* ===== verification/Prelude.thy ===== *)
theory Prelude
  imports Main "HOL-Library.Word"
begin

text \<open>
  Shared vocabulary of the development: the types that stand for the program's
  machine types (\<^verbatim>\<open>src/src/common/config.h\<close>, \<^verbatim>\<open>src/src/defs.h\<close>), the exception
  classes of \<^verbatim>\<open>src/src/errors.h\<close> as one error datatype, sequencing of fallible
  operations, little-endian images of integers (what \<^verbatim>\<open>memcpy\<close> of an integer puts into
  a buffer on the platform the code is built for) and reads and writes of byte regions.
  The read-over-write laws of regions and the round trip of the integer images are used
  by every component that lays structures out in pages or log buffers.
\<close>

named_theorems region_simps \<open>length, read-over-write and reassembly laws of byte regions\<close>
named_theorems codec_simps \<open>round trips of integer images\<close>

unbundle bit_operations_syntax

section \<open>Machine types\<close>

type_synonym byte = "8 word"
type_synonym bytes = "byte list"
type_synonym frame_id_t = nat
type_synonym page_id_t = int
type_synonym txn_id_t = int
type_synonym lsn_t = int
type_synonym timestamp_t = int

record Rid =
  page_no :: int
  slot_no :: int

datatype ColType = TYPE_INT | TYPE_FLOAT | TYPE_STRING

definition PAGE_SIZE :: nat where
  "PAGE_SIZE = 4096"

definition INVALID_PAGE_ID :: page_id_t where
  "INVALID_PAGE_ID = -1"

definition INVALID_TXN_ID :: txn_id_t where
  "INVALID_TXN_ID = -1"

definition INVALID_LSN :: lsn_t where
  "INVALID_LSN = -1"

definition LOG_BUFFER_SIZE :: nat where
  "LOG_BUFFER_SIZE = 1024 * PAGE_SIZE"

section \<open>Errors\<close>

datatype db_error =
    InternalError string
  | UnixError
  | FileNotOpenError int
  | FileNotClosedError string
  | FileExistsError string
  | FileNotFoundError string
  | RecordNotFoundError int int
  | InvalidRecordSizeError int
  | InvalidColLengthError int
  | IndexEntryNotFoundError
  | DatabaseNotFoundError string
  | DatabaseExistsError string
  | TableNotFoundError string
  | TableExistsError string
  | ColumnNotFoundError string
  | InvalidValueCountError
  | StringOverflowError
  | IncompatibleTypeError string string
  | AmbiguousColumnError string
  | PageNotExistError string int
  | AssertionFailure

text \<open>
  \<open>AssertionFailure\<close> is the outcome of a violated \<^verbatim>\<open>assert\<close>; the other constructors are
  the exception classes. \<open>and_then\<close> is the propagation of an exception through a caller
  that does not catch it.
\<close>

fun and_then :: "'e + 'a \<Rightarrow> ('a \<Rightarrow> 'e + 'b) \<Rightarrow> 'e + 'b" where
  "and_then (Inl e) f = Inl e"
| "and_then (Inr x) f = f x"

lemma and_then_Inr_iff:
  "and_then r f = Inr y \<longleftrightarrow> (\<exists>x. r = Inr x \<and> f x = Inr y)"
  by (cases r) auto

lemma and_then_Inl_iff:
  "and_then r f = Inl e \<longleftrightarrow> r = Inl e \<or> (\<exists>x. r = Inr x \<and> f x = Inl e)"
  by (cases r) auto

section \<open>Integer images\<close>

text \<open>
  \<open>le_enc n x\<close> is the \<open>n\<close>-byte little-endian two's complement image of \<open>x\<close>;
  \<open>le_dec_u\<close> and \<open>le_dec_s\<close> read an image back as an unsigned and as a signed integer.
\<close>

fun le_enc :: "nat \<Rightarrow> int \<Rightarrow> bytes" where
  "le_enc 0 x = []"
| "le_enc (Suc n) x = word_of_int x # le_enc n (x div 256)"

fun le_dec_u :: "bytes \<Rightarrow> int" where
  "le_dec_u [] = 0"
| "le_dec_u (b # bs) = uint b + 256 * le_dec_u bs"

definition le_dec_s :: "bytes \<Rightarrow> int" where
  "le_dec_s bs =
     (let u = le_dec_u bs; m = 256 ^ length bs
      in if m \<le> 2 * u then u - m else u)"

definition in_u :: "nat \<Rightarrow> int \<Rightarrow> bool" where
  "in_u n x \<longleftrightarrow> 0 \<le> x \<and> x < 256 ^ n"

definition in_s :: "nat \<Rightarrow> int \<Rightarrow> bool" where
  "in_s n x \<longleftrightarrow> - (256 ^ n) \<le> 2 * x \<and> 2 * x < 256 ^ n"

lemma length_le_enc [simp]: "length (le_enc n x) = n"
  by (induction n arbitrary: x) auto

lemma uint_word8_of_int: "uint (word_of_int x :: byte) = x mod 256"
  by (simp add: uint_word_of_int)

lemma le_dec_u_bounds: "0 \<le> le_dec_u bs \<and> le_dec_u bs < 256 ^ length bs"
proof (induction bs)
  case Nil
  show ?case by simp
next
  case (Cons b bs)
  have "uint b < 256" and "0 \<le> uint b"
    using uint_lt2p [of b] by simp_all
  with Cons show ?case by simp
qed

lemma le_dec_u_enc_mod: "le_dec_u (le_enc n x) = x mod 256 ^ n"
proof (induction n arbitrary: x)
  case 0
  show ?case by simp
next
  case (Suc n)
  have "le_dec_u (le_enc (Suc n) x) = x mod 256 + 256 * (x div 256 mod 256 ^ n)"
    using Suc by (simp add: uint_word8_of_int)
  also have "\<dots> = x mod (256 * 256 ^ n)"
    by (simp add: mod_mult2_eq' zmod_zmult2_eq)
  finally show ?case by simp
qed

lemma le_dec_u_enc [codec_simps]: "in_u n x \<Longrightarrow> le_dec_u (le_enc n x) = x"
  by (simp add: le_dec_u_enc_mod in_u_def)

lemma le_dec_s_enc [codec_simps]:
  assumes "in_s n x"
  shows "le_dec_s (le_enc n x) = x"
proof (cases "0 \<le> x")
  case True
  with assms have "x mod 256 ^ n = x" and "\<not> (256::int) ^ n \<le> 2 * x"
    by (simp_all add: in_s_def)
  then show ?thesis by (simp add: le_dec_s_def le_dec_u_enc_mod)
next
  case False
  with assms have "(x + 256 ^ n) mod 256 ^ n = x + 256 ^ n"
    by (intro mod_pos_pos_trivial) (simp_all add: in_s_def)
  then have *: "x mod 256 ^ n = x + 256 ^ n" by simp
  from assms have "256 ^ n \<le> 2 * (x + 256 ^ n)" by (simp add: in_s_def)
  then show ?thesis by (simp add: le_dec_s_def le_dec_u_enc_mod *)
qed

lemma le_enc_dec_u: "le_enc (length bs) (le_dec_u bs) = bs"
proof (induction bs)
  case Nil
  show ?case by simp
next
  case (Cons b bs)
  have b: "uint b < 256" "0 \<le> uint b" using uint_lt2p [of b] by simp_all
  have "(word_of_int (uint b + 256 * le_dec_u bs) :: byte) = b"
  proof -
    have "uint (word_of_int (uint b + 256 * le_dec_u bs) :: byte) = uint b"
      using b by (subst uint_word8_of_int) simp
    then show ?thesis by (simp only: word_uint_eq_iff)
  qed
  moreover have "(uint b + 256 * le_dec_u bs) div 256 = le_dec_u bs"
    using b by (simp add: div_add1_eq)
  ultimately show ?case using Cons by simp
qed

text \<open>
  Big-endian images are built by shifting and masking a word, and read back by an accumulating
  loop \<open>v = (v << 8) | byte\<close>; both are related to the little-endian images above.
\<close>

definition be_acc :: "'a::len word \<Rightarrow> bytes \<Rightarrow> 'a word" where
  "be_acc = foldl (\<lambda>v b. push_bit 8 v OR ucast b)"

lemma shift_or_byte: "push_bit 8 v OR ucast (b::byte) = v * 256 + (ucast b :: 'a::len word)"
proof -
  have "push_bit 8 v + ucast b = push_bit 8 v OR (ucast b :: 'a word)"
    by (rule disjunctive_add) (auto simp: bit_simps dest: bit_imp_le_length)
  then show ?thesis by (simp add: push_bit_eq_mult)
qed

lemma le_dec_u_snoc: "le_dec_u (bs @ [b]) = le_dec_u bs + 256 ^ length bs * uint b"
  by (induction bs) (auto simp: algebra_simps)

lemma be_acc_val: "be_acc (word_of_int w) bs = (word_of_int (w * 256 ^ length bs + le_dec_u (rev bs)) :: 'a::len word)"
proof (induction bs arbitrary: w)
  case Nil
  show ?case by (simp add: be_acc_def)
next
  case (Cons b bs)
  have "push_bit 8 (word_of_int w) OR ucast b = (word_of_int (w * 256 + uint b) :: 'a word)"
    unfolding shift_or_byte by (simp only: ucast_eq of_int_add of_int_mult of_int_numeral)
  then have "be_acc (word_of_int w :: 'a word) (b # bs) = be_acc (word_of_int (w * 256 + uint b)) bs"
    by (simp add: be_acc_def)
  also have "\<dots> = word_of_int ((w * 256 + uint b) * 256 ^ length bs + le_dec_u (rev bs))"
    by (rule Cons.IH)
  finally show ?case by (simp add: le_dec_u_snoc algebra_simps)
qed

lemma low_byte_image: "(ucast (drop_bit k (v :: 'a::len word) AND 0xff) :: byte) = word_of_int (uint v div 2 ^ k)"
proof (rule bit_word_eqI)
  fix n assume n: "n < LENGTH(8)"
  have m: "(0xff :: 'a word) = mask 8" by (simp add: mask_eq_exp_minus_1)
  have "bit (ucast (drop_bit k v AND 0xff) :: byte) n \<longleftrightarrow> bit v (k + n)"
    unfolding m using n by (auto simp: bit_simps dest: bit_imp_le_length)
  also have "\<dots> \<longleftrightarrow> bit (word_of_int (uint v div 2 ^ k) :: byte) n"
    unfolding drop_bit_eq_div [symmetric] using n
    by (auto simp: bit_simps add.commute dest: bit_imp_le_length)
  finally show "bit (ucast (drop_bit k v AND 0xff) :: byte) n = bit (word_of_int (uint v div 2 ^ k) :: byte) n" .
qed
lemma le_enc_nth: "le_enc n x = map (\<lambda>i. word_of_int (x div 256 ^ i)) [0..<n]"
proof (induction n arbitrary: x)
  case (Suc n)
  have "map (\<lambda>i. word_of_int (x div 256 ^ i)) [0..<Suc n] = (word_of_int x :: byte) # map (\<lambda>i. word_of_int (x div 256 ^ Suc i)) [0..<n]"
    by (simp add: map_upt_Suc del: upt_Suc)
  then show ?case using Suc by (simp add: zdiv_zmult2_eq)
qed simp
lemma be_image_acc:
  assumes "8 * n = LENGTH('a::len)"
  shows "be_acc 0 (rev (le_enc n (uint (v :: 'a word)))) = v"
proof -
  have "(256::int) ^ n = 2 ^ LENGTH('a)" using power_mult [of "2::int" 8 n] assms by simp
  then have "le_dec_u (le_enc n (uint v)) = uint v"
    using uint_lt2p [of v] by (simp add: le_dec_u_enc_mod)
  then show ?thesis using be_acc_val [where 'a = 'a, of 0 "rev (le_enc n (uint v))"] by simp
qed

section \<open>Byte regions\<close>

definition rd :: "nat \<Rightarrow> nat \<Rightarrow> bytes \<Rightarrow> bytes" where
  "rd off n d = take n (drop off d)"

definition wr :: "nat \<Rightarrow> bytes \<Rightarrow> bytes \<Rightarrow> bytes" where
  "wr off bs d = take off d @ bs @ drop (off + length bs) d"

lemma length_rd [simp]: "off + n \<le> length d \<Longrightarrow> length (rd off n d) = n"
  by (simp add: rd_def)

lemma length_wr [simp]: "off + length bs \<le> length d \<Longrightarrow> length (wr off bs d) = length d"
  by (simp add: wr_def)

lemma nth_wr:
  assumes "off + length bs \<le> length d" and "i < length d"
  shows "wr off bs d ! i = (if off \<le> i \<and> i < off + length bs then bs ! (i - off) else d ! i)"
  using assms by (auto simp: wr_def nth_append)

lemma nth_rd: "off + n \<le> length d \<Longrightarrow> i < n \<Longrightarrow> rd off n d ! i = d ! (off + i)"
  by (simp add: rd_def)

lemma rd_wr_same [region_simps]:
  "off + length bs \<le> length d \<Longrightarrow> n = length bs \<Longrightarrow> rd off n (wr off bs d) = bs"
  by (simp add: rd_def wr_def)

lemma rd_wr_other [region_simps]:
  assumes "off + length bs \<le> length d" and "o' + n \<le> off \<or> off + length bs \<le> o'"
  shows "rd o' n (wr off bs d) = rd o' n d"
proof (cases "o' + n \<le> off")
  case True
  have "take off (wr off bs d) = take off d"
    using assms(1) by (simp add: wr_def)
  then have "take n (drop o' (take off (wr off bs d))) = take n (drop o' (take off d))"
    by simp
  moreover have "take n (drop o' (take off e)) = take n (drop o' e)" for e :: bytes
    using True by (simp add: drop_take min_def)
  ultimately show ?thesis by (simp add: rd_def)
next
  case False
  with assms(2) have o: "off + length bs \<le> o'" by simp
  then have "drop o' (wr off bs d) = drop o' d"
    using assms(1) by (simp add: wr_def)
  then show ?thesis by (simp add: rd_def)
qed

lemma wr_rd_id: "off + n \<le> length d \<Longrightarrow> wr off (rd off n d) d = d"
  by (simp add: wr_def rd_def add.commute flip: drop_drop)

text \<open>A region inside a region: the slot of a page, the bit of a bitmap.\<close>

lemma rd_rd: "rd o' n' (rd off n d) = rd (off + o') (min n' (n - o')) d"
  by (simp add: rd_def drop_take add.commute min.commute)

end
