(* ===== verification/Bitmap.thy ===== *)
theory Bitmap
  imports Prelude
begin

text \<open>
  The slot bitmap of a record page, \<^verbatim>\<open>src/src/record/bitmap.h\<close>: one bit per slot, most
  significant bit of a byte first. A C \<^verbatim>\<open>char\<close> is an 8-bit word here; the integer promotions
  of the source do not change whether a masked byte is zero. Positions are the non-negative
  \<^verbatim>\<open>int\<close>s the callers pass; \<^verbatim>\<open>curr\<close> of \<open>next_bit\<close> is an \<^verbatim>\<open>int\<close> because scans start
  at -1. The contract that a bitmap is a set of positions is the locale \<open>slot_set\<close>,
  interpreted on the byte-level operations.
\<close>

section \<open>Operations\<close>

definition BITMAP_WIDTH :: nat where
  "BITMAP_WIDTH = 8"

definition BITMAP_HIGHEST_BIT :: byte where
  "BITMAP_HIGHEST_BIT = 0x80"

definition get_bucket :: "nat \<Rightarrow> nat" where
  "get_bucket pos = pos div BITMAP_WIDTH"

definition get_bit :: "nat \<Rightarrow> byte" where
  "get_bit pos = drop_bit (pos mod BITMAP_WIDTH) BITMAP_HIGHEST_BIT"

definition bm_init :: "nat \<Rightarrow> bytes" where
  "bm_init n = replicate n 0"

definition bm_set :: "bytes \<Rightarrow> nat \<Rightarrow> bytes" where
  "bm_set bm pos = bm[get_bucket pos := bm ! get_bucket pos OR get_bit pos]"

definition bm_reset :: "bytes \<Rightarrow> nat \<Rightarrow> bytes" where
  "bm_reset bm pos = bm[get_bucket pos := bm ! get_bucket pos AND NOT (get_bit pos)]"

definition is_set :: "bytes \<Rightarrow> nat \<Rightarrow> bool" where
  "is_set bm pos \<longleftrightarrow> bm ! get_bucket pos AND get_bit pos \<noteq> 0"

text \<open>The \<^verbatim>\<open>for\<close> loop of \<open>next_bit\<close>, entered with its counter at \<open>i\<close>.\<close>

function next_bit_loop :: "bool \<Rightarrow> bytes \<Rightarrow> nat \<Rightarrow> nat \<Rightarrow> nat" where
  "next_bit_loop b bm max_n i =
     (if i < max_n
      then if is_set bm i = b then i else next_bit_loop b bm max_n (Suc i)
      else max_n)"
  by pat_completeness auto
termination
  by (relation "measure (\<lambda>(b, bm, max_n, i). max_n - i)") auto

declare next_bit_loop.simps [simp del]

definition next_bit :: "bool \<Rightarrow> bytes \<Rightarrow> nat \<Rightarrow> int \<Rightarrow> nat" where
  "next_bit b bm max_n cur = next_bit_loop b bm max_n (nat (cur + 1))"

definition first_bit :: "bool \<Rightarrow> bytes \<Rightarrow> nat \<Rightarrow> nat" where
  "first_bit b bm max_n = next_bit b bm max_n (-1)"

section \<open>Bit-level facts\<close>

lemma get_bit_bit: "n < 8 \<Longrightarrow> bit (get_bit pos) n \<longleftrightarrow> n = 7 - pos mod 8"
proof -
  assume n: "n < 8"
  have "BITMAP_HIGHEST_BIT = 2 ^ 7"
    by (simp add: BITMAP_HIGHEST_BIT_def)
  then have hb: "bit BITMAP_HIGHEST_BIT k \<longleftrightarrow> k = 7" for k
    unfolding \<open>BITMAP_HIGHEST_BIT = 2 ^ 7\<close> bit_exp_iff by auto
  have "bit (get_bit pos) n \<longleftrightarrow> pos mod 8 + n = 7"
    using n by (simp add: get_bit_def BITMAP_WIDTH_def bit_drop_bit_eq hb)
  also have "\<dots> \<longleftrightarrow> n = 7 - pos mod 8"
    using mod_less_divisor [of 8 pos] by auto
  finally show ?thesis .
qed

lemma is_set_bit: "is_set bm pos \<longleftrightarrow> bit (bm ! (pos div 8)) (7 - pos mod 8)"
proof -
  have "bm ! get_bucket pos AND get_bit pos \<noteq> 0
      \<longleftrightarrow> (\<exists>n<8. bit (bm ! (pos div 8)) n \<and> bit (get_bit pos) n)"
    by (auto simp: get_bucket_def BITMAP_WIDTH_def bit_eq_iff bit_and_iff)
  also have "\<dots> \<longleftrightarrow> bit (bm ! (pos div 8)) (7 - pos mod 8)"
    by (auto simp: get_bit_bit intro!: exI [of _ "7 - pos mod 8"])
  finally show ?thesis by (simp add: is_set_def)
qed

lemma pos_eq_split: "(p::nat) = q \<longleftrightarrow> p div 8 = q div 8 \<and> 7 - p mod 8 = 7 - q mod 8"
proof
  assume *: "p div 8 = q div 8 \<and> 7 - p mod 8 = 7 - q mod 8"
  have "p mod 8 < 8" "q mod 8 < 8" by simp_all
  with * have "p mod 8 = q mod 8" by arith
  with * show "p = q" by (metis div_mult_mod_eq)
qed simp

lemma length_bm_set [simp]: "length (bm_set bm pos) = length bm"
  by (simp add: bm_set_def)

lemma length_bm_reset [simp]: "length (bm_reset bm pos) = length bm"
  by (simp add: bm_reset_def)

lemma length_bm_init [simp]: "length (bm_init n) = n"
  by (simp add: bm_init_def)

lemma is_set_bm_set [simp]:
  assumes "pos < 8 * length bm"
  shows "is_set (bm_set bm pos) q \<longleftrightarrow> q = pos \<or> is_set bm q"
proof -
  have "pos div 8 < length bm" using assms by (simp add: div_less_iff_less_mult mult.commute)
  then show ?thesis
    unfolding is_set_bit pos_eq_split [of q pos]
    by (auto simp: bm_set_def get_bucket_def BITMAP_WIDTH_def nth_list_update bit_or_iff get_bit_bit)
qed

lemma is_set_bm_reset [simp]:
  assumes "pos < 8 * length bm"
  shows "is_set (bm_reset bm pos) q \<longleftrightarrow> q \<noteq> pos \<and> is_set bm q"
proof -
  have "pos div 8 < length bm" using assms by (simp add: div_less_iff_less_mult mult.commute)
  then show ?thesis
    unfolding is_set_bit pos_eq_split [of q pos]
    by (auto simp: bm_reset_def get_bucket_def BITMAP_WIDTH_def nth_list_update bit_and_iff
        bit_not_iff get_bit_bit)
qed

lemma is_set_bm_init [simp]: "pos < 8 * n \<Longrightarrow> \<not> is_set (bm_init n) pos"
  by (simp add: is_set_bit bm_init_def div_less_iff_less_mult mult.commute)

section \<open>The scan\<close>

lemma next_bit_loop_spec:
  assumes "i \<le> max_n"
  shows "i \<le> next_bit_loop b bm max_n i \<and> next_bit_loop b bm max_n i \<le> max_n
    \<and> (\<forall>j. i \<le> j \<and> j < next_bit_loop b bm max_n i \<longrightarrow> is_set bm j \<noteq> b)
    \<and> (next_bit_loop b bm max_n i < max_n \<longrightarrow> is_set bm (next_bit_loop b bm max_n i) = b)"
  using assms
proof (induction b bm max_n i rule: next_bit_loop.induct)
  case (1 b bm max_n i)
  show ?case
  proof (cases "i < max_n \<and> is_set bm i \<noteq> b")
    case True
    let ?r = "next_bit_loop b bm max_n (Suc i)"
    have eq: "next_bit_loop b bm max_n i = ?r"
      using True by (simp add: next_bit_loop.simps [of b bm max_n i])
    have "Suc i \<le> ?r \<and> ?r \<le> max_n \<and> (\<forall>j. Suc i \<le> j \<and> j < ?r \<longrightarrow> is_set bm j \<noteq> b)
      \<and> (?r < max_n \<longrightarrow> is_set bm ?r = b)"
      using 1 True by simp
    moreover have "is_set bm j \<noteq> b" if "i \<le> j" "j < ?r" for j
      using that True calculation by (cases "j = i") auto
    ultimately show ?thesis unfolding eq by auto
  next
    case False
    then show ?thesis using 1 by (auto simp: next_bit_loop.simps [of b bm max_n i])
  qed
qed

lemma next_bit_loop_beyond: "max_n \<le> i \<Longrightarrow> next_bit_loop b bm max_n i = max_n"
  by (simp add: next_bit_loop.simps)

lemma next_bit_le: "next_bit b bm max_n c \<le> max_n"
  using next_bit_loop_spec next_bit_loop_beyond unfolding next_bit_def
  by (metis nle_le)

lemma next_bit_hit: "next_bit b bm max_n c < max_n \<Longrightarrow> is_set bm (next_bit b bm max_n c) = b"
  using next_bit_loop_spec [of "nat (c + 1)" max_n b bm] next_bit_loop_beyond [of max_n "nat (c + 1)" b bm]
  unfolding next_bit_def by (metis nat_le_linear nat_neq_iff)

lemma next_bit_gt: "next_bit b bm max_n c < max_n \<Longrightarrow> c < int (next_bit b bm max_n c)"
  using next_bit_loop_spec [of "nat (c + 1)" max_n b bm] next_bit_loop_beyond [of max_n "nat (c + 1)" b bm]
  unfolding next_bit_def by (cases "nat (c + 1) \<le> max_n") auto

lemma next_bit_skips:
  "c < int j \<Longrightarrow> j < next_bit b bm max_n c \<Longrightarrow> is_set bm j \<noteq> b"
  using next_bit_loop_spec [of "nat (c + 1)" max_n b bm] next_bit_loop_beyond [of max_n "nat (c + 1)" b bm]
    next_bit_le [of b bm max_n c]
  unfolding next_bit_def by (cases "nat (c + 1) \<le> max_n") auto

section \<open>A bitmap is a set of slots\<close>

locale slot_set =
  fixes mem :: "'b \<Rightarrow> nat \<Rightarrow> bool"
    and ins :: "'b \<Rightarrow> nat \<Rightarrow> 'b"
    and del :: "'b \<Rightarrow> nat \<Rightarrow> 'b"
    and cap :: "'b \<Rightarrow> nat"
  assumes mem_ins: "p < cap b \<Longrightarrow> mem (ins b p) q \<longleftrightarrow> q = p \<or> mem b q"
    and mem_del: "p < cap b \<Longrightarrow> mem (del b p) q \<longleftrightarrow> q \<noteq> p \<and> mem b q"
    and cap_ins: "cap (ins b p) = cap b"
    and cap_del: "cap (del b p) = cap b"
begin

definition used :: "'b \<Rightarrow> nat \<Rightarrow> nat set" where
  "used b n = {p. p < n \<and> mem b p}"

lemma finite_used [simp]: "finite (used b n)"
  by (simp add: used_def)

lemma used_ins: "p < cap b \<Longrightarrow> p < n \<Longrightarrow> used (ins b p) n = insert p (used b n)"
  by (auto simp: used_def mem_ins)

lemma used_del: "p < cap b \<Longrightarrow> used (del b p) n = used b n - {p}"
  by (auto simp: used_def mem_del)

lemma card_used_ins: "p < cap b \<Longrightarrow> p < n \<Longrightarrow> \<not> mem b p \<Longrightarrow> card (used (ins b p) n) = Suc (card (used b n))"
  by (subst used_ins) (auto simp: used_def)

lemma card_used_del:
  assumes "p < cap b" "p < n" "mem b p"
  shows "Suc (card (used (del b p) n)) = card (used b n)"
proof -
  have "p \<in> used b n" using assms by (simp add: used_def)
  then show ?thesis unfolding used_del [OF assms(1)]
    by (metis card_Suc_Diff1 finite_used)
qed

lemma card_used_le: "card (used b n) \<le> n"
proof -
  have "card (used b n) \<le> card {..<n}" by (rule card_mono) (auto simp: used_def)
  then show ?thesis by simp
qed

lemma card_used_full: "card (used b n) = n \<longleftrightarrow> (\<forall>p<n. mem b p)"
proof
  assume "card (used b n) = n"
  then have "used b n = {..<n}"
    by (intro card_subset_eq) (auto simp: used_def)
  then show "\<forall>p<n. mem b p" by (auto simp: used_def)
next
  assume "\<forall>p<n. mem b p"
  then have "used b n = {..<n}" by (auto simp: used_def)
  then show "card (used b n) = n" by simp
qed

end

definition bm_capacity :: "bytes \<Rightarrow> nat" where
  "bm_capacity bm = 8 * length bm"

interpretation bm: slot_set is_set bm_set bm_reset bm_capacity
  by unfold_locales (simp_all add: bm_capacity_def)

lemma bm_used_init: "n \<le> 8 * m \<Longrightarrow> bm.used (bm_init m) n = {}"
  by (auto simp: bm.used_def)

section \<open>Properties\<close>

text \<open>
  C14: on a position inside the bitmap, \<open>bm_set\<close> adds exactly that position to the set of
  marked slots and \<open>bm_reset\<close> removes exactly it: no neighbouring slot is disturbed by the
  mask arithmetic.
\<close>

theorem bitmap_set_reset_exact:
  assumes "pos < bm_capacity bm"
  shows "{q. is_set (bm_set bm pos) q} = insert pos {q. is_set bm q}
    \<and> {q. is_set (bm_reset bm pos) q} = {q. is_set bm q} - {pos}"
  using bm.mem_ins [OF assms] bm.mem_del [OF assms] by auto

theorem bitmap_set_reset_exact_witness:
  "{q. is_set (bm_set [0, 0] 9) q} = insert 9 {q. is_set [0, 0] q}
    \<and> {q. is_set (bm_reset [0, 0] 9) q} = {q. is_set [0, 0] q} - {9}"
  by (rule bitmap_set_reset_exact) (simp add: bm_capacity_def)

text \<open>
  \<open>next_bit\<close> returns the first position after \<open>curr\<close> and below \<open>max_n\<close> whose bit has
  the wanted value, and \<open>max_n\<close> exactly when there is none.
\<close>

theorem next_bit_first:
  "next_bit b bm max_n cur =
     (if \<exists>j<max_n. cur < int j \<and> is_set bm j = b
      then LEAST j. cur < int j \<and> is_set bm j = b
      else max_n)"
proof (cases "next_bit b bm max_n cur < max_n")
  case True
  let ?r = "next_bit b bm max_n cur"
  have r: "cur < int ?r" "is_set bm ?r = b"
    using True by (simp_all add: next_bit_gt next_bit_hit)
  have "(LEAST j. cur < int j \<and> is_set bm j = b) = ?r"
    using r next_bit_skips by (intro Least_equality) (auto simp: not_less [symmetric])
  with True r show ?thesis by auto
next
  case False
  then have "next_bit b bm max_n cur = max_n"
    using next_bit_le [of b bm max_n cur] by simp
  moreover from this have "\<not> (\<exists>j<max_n. cur < int j \<and> is_set bm j = b)"
    using next_bit_skips [of cur _ b bm max_n] by auto
  ultimately show ?thesis by (simp only: if_False)
qed

end
