(* ===== verification/Lru_Replacer.thy ===== *)
theory Lru_Replacer
  imports Prelude
begin

text \<open>
  The replacement policy: the abstract class \<^verbatim>\<open>Replacer\<close> (\<^verbatim>\<open>src/src/replacer/replacer.h\<close>)
  is the locale \<open>replacer\<close>, its implementation \<^verbatim>\<open>LRUReplacer\<close>
  (\<^verbatim>\<open>src/src/replacer/lru_replacer.h\<close>, \<^verbatim>\<open>lru_replacer.cpp\<close>) the record \<open>lru\<close> with one definition
  per method. The \<^verbatim>\<open>std::list\<close> holds nodes, each a node identity and a frame, and the hash table maps a
  frame to the identity of its node: that is what the source's list iterators are. Each method
  runs under \<^verbatim>\<open>latch_\<close>, so a call is one atomic step.
\<close>

section \<open>State and operations\<close>

record lru =
  LRUlist :: "(nat \<times> frame_id_t) list"
  LRUhash :: "frame_id_t \<rightharpoonup> nat"
  max_size :: nat
  next_node :: nat

definition lru_new :: "nat \<Rightarrow> lru" where
  "lru_new num_pages =
     \<lparr>LRUlist = [], LRUhash = Map.empty, max_size = num_pages, next_node = 0\<rparr>"

definition victim :: "lru \<Rightarrow> frame_id_t option \<times> lru" where
  "victim r =
     (if LRUlist r = [] then (None, r)
      else let f = snd (last (LRUlist r))
           in (Some f, r\<lparr>LRUlist := butlast (LRUlist r), LRUhash := (LRUhash r)(f := None)\<rparr>))"

definition pin :: "lru \<Rightarrow> frame_id_t \<Rightarrow> lru" where
  "pin r f =
     (case LRUhash r f of
        None \<Rightarrow> r
      | Some it \<Rightarrow> r\<lparr>LRUlist := filter (\<lambda>n. fst n \<noteq> it) (LRUlist r),
                     LRUhash := (LRUhash r)(f := None)\<rparr>)"

definition unpin :: "lru \<Rightarrow> frame_id_t \<Rightarrow> lru" where
  "unpin r f =
     (if LRUhash r f \<noteq> None then r
      else if max_size r \<le> length (LRUlist r) then r
      else r\<lparr>LRUlist := (next_node r, f) # LRUlist r,
             LRUhash := (LRUhash r)(f \<mapsto> next_node r),
             next_node := Suc (next_node r)\<rparr>)"

definition lru_size :: "lru \<Rightarrow> nat" where
  "lru_size r = length (LRUlist r)"

section \<open>Invariant and abstraction\<close>

text \<open>
  The list and the hash table describe the same frames: a frame is in the table with a node
  exactly when that node of the list holds it. \<open>frames\<close> is the eviction order, the most
  recently released frame first.
\<close>

definition lru_inv :: "lru \<Rightarrow> bool" where
  "lru_inv r \<longleftrightarrow> distinct (map fst (LRUlist r))
     \<and> (\<forall>i f. LRUhash r f = Some i \<longleftrightarrow> (i, f) \<in> set (LRUlist r))
     \<and> (\<forall>n \<in> set (LRUlist r). fst n < next_node r)
     \<and> length (LRUlist r) \<le> max_size r"

definition frames :: "lru \<Rightarrow> frame_id_t list" where
  "frames r = map snd (LRUlist r)"

lemma lru_inv_distinct_snd:
  assumes "lru_inv r"
  shows "distinct (frames r)"
proof -
  have d: "distinct (map fst (LRUlist r))"
    and h: "\<And>i f. (i, f) \<in> set (LRUlist r) \<Longrightarrow> LRUhash r f = Some i"
    using assms by (simp_all add: lru_inv_def)
  have "inj_on snd (set (LRUlist r))"
    by (rule inj_onI) (metis h option.inject prod.collapse)
  moreover have "distinct (LRUlist r)" using d by (simp add: distinct_map)
  ultimately show ?thesis by (simp add: frames_def distinct_map)
qed

lemma hash_iff_frames: "lru_inv r \<Longrightarrow> LRUhash r f \<noteq> None \<longleftrightarrow> f \<in> set (frames r)"
  by (force simp: lru_inv_def frames_def)

lemma lru_inv_new: "lru_inv (lru_new n)"
  by (simp add: lru_inv_def lru_new_def)

lemma frames_new [simp]: "frames (lru_new n) = []"
  by (simp add: frames_def lru_new_def)

lemma max_size_ops [simp]:
  "max_size (pin r f) = max_size r" "max_size (unpin r f) = max_size r"
  "max_size (snd (victim r)) = max_size r" "max_size (lru_new n) = n"
  by (simp_all add: pin_def unpin_def victim_def lru_new_def Let_def split: option.splits)

lemma lru_inv_unpin: "lru_inv r \<Longrightarrow> lru_inv (unpin r f)"
  by (auto simp: lru_inv_def unpin_def)

lemma frames_unpin:
  "lru_inv r \<Longrightarrow> frames (unpin r f) =
     (if f \<in> set (frames r) \<or> max_size r \<le> length (frames r) then frames r else f # frames r)"
  using hash_iff_frames [of r f] by (auto simp: unpin_def frames_def)

lemma pin_nodes:
  assumes "lru_inv r" and "LRUhash r f = Some it"
  shows "filter (\<lambda>n. fst n \<noteq> it) (LRUlist r) = filter (\<lambda>n. snd n \<noteq> f) (LRUlist r)"
proof (rule filter_cong [OF refl])
  fix n assume n: "n \<in> set (LRUlist r)"
  have itf: "(it, f) \<in> set (LRUlist r)" and hn: "LRUhash r (snd n) = Some (fst n)"
    using assms n by (auto simp: lru_inv_def)
  have "inj_on fst (set (LRUlist r))" using assms(1) by (simp add: lru_inv_def distinct_map)
  then have "fst n = it \<Longrightarrow> n = (it, f)" using n itf by (metis fst_conv inj_onD)
  then show "(fst n \<noteq> it) = (snd n \<noteq> f)" using hn assms(2) by (metis option.inject snd_conv)
qed

lemma lru_inv_pin: "lru_inv r \<Longrightarrow> lru_inv (pin r f)"
proof (cases "LRUhash r f")
  case (Some it)
  assume inv: "lru_inv r"
  have len: "length (filter P (LRUlist r)) \<le> max_size r" for P
    using inv le_trans [OF length_filter_le] by (auto simp: lru_inv_def)
  have eq: "pin r f = r\<lparr>LRUlist := filter (\<lambda>n. snd n \<noteq> f) (LRUlist r), LRUhash := (LRUhash r)(f := None)\<rparr>"
    using Some by (simp add: pin_def pin_nodes [OF inv Some])
  show ?thesis unfolding eq
    using inv len by (auto simp: lru_inv_def distinct_map_filter)
qed (simp add: pin_def)

lemma frames_pin: "lru_inv r \<Longrightarrow> frames (pin r f) = filter (\<lambda>g. g \<noteq> f) (frames r)"
proof (cases "LRUhash r f")
  case None
  assume "lru_inv r"
  with None have "f \<notin> set (frames r)" using hash_iff_frames by blast
  then have "filter (\<lambda>g. g \<noteq> f) (frames r) = frames r" by (auto simp: filter_id_conv)
  with None show ?thesis by (simp add: pin_def)
next
  case (Some it)
  assume "lru_inv r"
  with Some show ?thesis
    by (simp add: pin_def frames_def filter_map comp_def pin_nodes [OF _ Some])
qed

lemma fst_victim: "fst (victim r) = (if frames r = [] then None else Some (last (frames r)))"
  by (simp add: victim_def frames_def last_map Let_def)

lemma frames_victim: "frames (snd (victim r)) = butlast (frames r)"
  by (simp add: victim_def frames_def map_butlast Let_def)

lemma lru_inv_victim:
  assumes inv: "lru_inv r"
  shows "lru_inv (snd (victim r))"
proof (cases "LRUlist r" rule: rev_cases)
  case (snoc ys y)
  have "distinct (frames r)" by (rule lru_inv_distinct_snd [OF inv])
  then have "snd y \<notin> snd ` set ys" using snoc by (simp add: frames_def)
  then have new: "(i, snd y) \<notin> set ys" for i by (metis image_eqI snd_conv)
  have eq: "snd (victim r) = r\<lparr>LRUlist := ys, LRUhash := (LRUhash r)(snd y := None)\<rparr>"
    using snoc by (simp add: victim_def Let_def)
  have "LRUhash r f = Some i \<longleftrightarrow> (i, f) \<in> insert y (set ys)" for i f
    using inv snoc by (simp add: lru_inv_def)
  then have "((LRUhash r)(snd y := None)) f = Some i \<longleftrightarrow> (i, f) \<in> set ys" for i f
    using new by (cases "f = snd y") auto
  with inv snoc show ?thesis unfolding eq by (simp add: lru_inv_def)
qed (use inv in \<open>simp add: victim_def\<close>)

lemma lru_size_frames: "lru_size r = length (frames r)"
  by (simp add: lru_size_def frames_def)

section \<open>The Replacer interface\<close>

locale replacer =
  fixes victim_op :: "'s \<Rightarrow> frame_id_t option \<times> 's"
    and pin_op :: "'s \<Rightarrow> frame_id_t \<Rightarrow> 's"
    and unpin_op :: "'s \<Rightarrow> frame_id_t \<Rightarrow> 's"
    and size_op :: "'s \<Rightarrow> nat"
    and order :: "'s \<Rightarrow> frame_id_t list"
    and capacity :: "'s \<Rightarrow> nat"
    and invar :: "'s \<Rightarrow> bool"
  assumes invar_victim: "invar s \<Longrightarrow> invar (snd (victim_op s))"
    and invar_pin: "invar s \<Longrightarrow> invar (pin_op s f)"
    and invar_unpin: "invar s \<Longrightarrow> invar (unpin_op s f)"
    and order_distinct: "invar s \<Longrightarrow> distinct (order s)"
    and victim_result: "invar s \<Longrightarrow>
      fst (victim_op s) = (if order s = [] then None else Some (last (order s)))"
    and victim_order: "invar s \<Longrightarrow> order (snd (victim_op s)) = butlast (order s)"
    and pin_order: "invar s \<Longrightarrow> order (pin_op s f) = filter (\<lambda>g. g \<noteq> f) (order s)"
    and unpin_order: "invar s \<Longrightarrow> order (unpin_op s f) =
      (if f \<in> set (order s) \<or> capacity s \<le> length (order s) then order s else f # order s)"
    and size_order: "invar s \<Longrightarrow> size_op s = length (order s)"
    and capacity_pin: "capacity (pin_op s f) = capacity s"
    and capacity_unpin: "capacity (unpin_op s f) = capacity s"
    and capacity_victim: "capacity (snd (victim_op s)) = capacity s"
begin

lemma victim_member: "invar s \<Longrightarrow> fst (victim_op s) = Some f \<Longrightarrow> f \<in> set (order s)"
  by (auto simp: victim_result split: if_splits)

lemma victim_removed:
  assumes "invar s" and "fst (victim_op s) = Some f"
  shows "set (order (snd (victim_op s))) = set (order s) - {f}"
proof (cases "order s" rule: rev_cases)
  case Nil
  with assms show ?thesis by (simp add: victim_result)
next
  case (snoc ys y)
  with assms order_distinct [OF assms(1)] show ?thesis
    by (auto simp: victim_result victim_order)
qed

lemma victim_None_iff: "invar s \<Longrightarrow> fst (victim_op s) = None \<longleftrightarrow> order s = []"
  by (simp add: victim_result)

lemma pin_set: "invar s \<Longrightarrow> set (order (pin_op s f)) = set (order s) - {f}"
  by (auto simp: pin_order)

lemma unpin_set:
  "invar s \<Longrightarrow> length (order s) < capacity s \<Longrightarrow> set (order (unpin_op s f)) = insert f (set (order s))"
  by (auto simp: unpin_order)

lemma pinned_not_victim: "invar s \<Longrightarrow> fst (victim_op (pin_op s f)) \<noteq> Some f"
  using victim_member [of "pin_op s f" f] by (auto simp: invar_pin pin_set)

end

interpretation lru: replacer victim pin unpin lru_size frames max_size lru_inv
  by unfold_locales
    (simp_all add: lru_inv_victim lru_inv_pin lru_inv_unpin lru_inv_distinct_snd fst_victim
      frames_victim frames_pin frames_unpin lru_size_frames)

section \<open>Least recently used\<close>

text \<open>
  A run of calls with a clock: \<open>stamp\<close> records, for every frame, the time of the call that
  last made it evictable.
\<close>

datatype lru_call = Pin frame_id_t | Unpin frame_id_t | Victim

record clocked =
  repl :: lru
  stamp :: "frame_id_t \<Rightarrow> nat"
  clock :: nat

fun lru_call_step :: "clocked \<Rightarrow> lru_call \<Rightarrow> clocked" where
  "lru_call_step c (Pin f) = c\<lparr>repl := pin (repl c) f, clock := Suc (clock c)\<rparr>"
| "lru_call_step c (Unpin f) =
     c\<lparr>repl := unpin (repl c) f, clock := Suc (clock c),
       stamp := (if f \<in> set (frames (repl c)) then stamp c
                 else (stamp c)(f := clock c))\<rparr>"
| "lru_call_step c Victim = c\<lparr>repl := snd (victim (repl c)), clock := Suc (clock c)\<rparr>"

definition lru_calls :: "nat \<Rightarrow> lru_call list \<Rightarrow> clocked" where
  "lru_calls n cs = foldl lru_call_step \<lparr>repl = lru_new n, stamp = (\<lambda>_. 0), clock = 0\<rparr> cs"

definition aged :: "clocked \<Rightarrow> bool" where
  "aged c \<longleftrightarrow> lru_inv (repl c)
     \<and> sorted_wrt (\<lambda>f g. stamp c g < stamp c f) (frames (repl c))
     \<and> (\<forall>f \<in> set (frames (repl c)). stamp c f < clock c)"

lemma sorted_wrt_butlast: "sorted_wrt P xs \<Longrightarrow> sorted_wrt P (butlast xs)"
  by (simp add: butlast_conv_take sorted_wrt_take)

lemma aged_step: "aged c \<Longrightarrow> aged (lru_call_step c call)"
proof (cases call)
  case (Pin f)
  assume "aged c"
  with Pin show ?thesis
    by (auto simp: aged_def lru_inv_pin frames_pin sorted_wrt_filter less_SucI)
next
  case (Unpin f)
  assume a: "aged c"
  show ?thesis
  proof (cases "f \<in> set (frames (repl c)) \<or> max_size (repl c) \<le> length (frames (repl c))")
    case True
    have "sorted_wrt (\<lambda>x y. ((stamp c)(f := clock c)) y < ((stamp c)(f := clock c)) x) (frames (repl c))"
      if "f \<notin> set (frames (repl c))"
      using a that by (auto simp: aged_def intro: sorted_wrt_mono_rel [rotated])
    with a True Unpin show ?thesis
      by (auto simp: aged_def lru_inv_unpin frames_unpin less_SucI)
  next
    case False
    have "sorted_wrt (\<lambda>x y. ((stamp c)(f := clock c)) y < ((stamp c)(f := clock c)) x) (frames (repl c))"
      using a False by (auto simp: aged_def intro: sorted_wrt_mono_rel [rotated])
    with a False Unpin show ?thesis
      by (auto simp: aged_def lru_inv_unpin frames_unpin less_SucI)
  qed
next
  case Victim
  assume "aged c"
  with Victim show ?thesis
    by (auto simp: aged_def lru_inv_victim frames_victim sorted_wrt_butlast less_SucI
        dest: in_set_butlastD)
qed

lemma aged_calls: "aged (lru_calls n cs)"
proof -
  have "aged (foldl lru_call_step c cs)" if "aged c" for c
    using that by (induction cs arbitrary: c) (auto simp: aged_step)
  then show ?thesis by (simp add: lru_calls_def aged_def lru_inv_new)
qed

lemma aged_last_oldest:
  assumes "aged c" and "frames (repl c) \<noteq> []" and "f \<in> set (frames (repl c))"
  shows "stamp c (last (frames (repl c))) \<le> stamp c f"
proof (cases "frames (repl c)" rule: rev_cases)
  case (snoc ys y)
  with assms show ?thesis by (auto simp: aged_def sorted_wrt_append less_imp_le)
qed (use assms in simp)

section \<open>Properties\<close>

text \<open>
  C9: after any sequence of calls on a new replacer, the frame \<open>victim\<close> returns was evictable, became
  evictable no later than every other evictable frame, and is not evictable afterwards.
\<close>

theorem victim_is_least_recent:
  assumes "c = lru_calls n cs" and "fst (victim (repl c)) = Some f"
  shows "f \<in> set (frames (repl c))
    \<and> {g \<in> set (frames (repl c)). stamp c g < stamp c f} = {}
    \<and> f \<notin> set (frames (snd (victim (repl c))))"
proof -
  have a: "aged c" unfolding assms(1) by (rule aged_calls)
  then have inv: "lru_inv (repl c)" by (simp add: aged_def)
  show ?thesis
    using lru.victim_member [OF inv assms(2)] lru.victim_removed [OF inv assms(2)]
      aged_last_oldest [OF a] assms(2)
    by (auto simp: fst_victim not_less split: if_splits)
qed

theorem victim_is_least_recent_witness:
  "let c = lru_calls 3 [Unpin 5, Unpin 7, Pin 5, Unpin 5] in
     fst (victim (repl c)) = Some 7 \<and> 7 \<in> set (frames (repl c))
     \<and> {g \<in> set (frames (repl c)). stamp c g < stamp c 7} = {}
     \<and> 7 \<notin> set (frames (snd (victim (repl c))))"
proof -
  have v: "fst (victim (repl (lru_calls 3 [Unpin 5, Unpin 7, Pin 5, Unpin 5]))) = Some 7"
    by (simp add: lru_calls_def lru_new_def unpin_def pin_def victim_def)
  show ?thesis using v victim_is_least_recent [OF refl v] by (simp add: Let_def)
qed

text \<open>
  The list and the hash table of the replacer stay consistent, duplicate-free and within the
  configured capacity under every sequence of calls, and \<open>victim\<close> fails only on an empty replacer.
\<close>

theorem lru_calls_consistent:
  "lru_inv (repl (lru_calls n cs)) \<and> distinct (frames (repl (lru_calls n cs)))
    \<and> lru_size (repl (lru_calls n cs)) \<le> max_size (repl (lru_calls n cs))
    \<and> (fst (victim (repl (lru_calls n cs))) = None \<longleftrightarrow> lru_size (repl (lru_calls n cs)) = 0)"
proof -
  have inv: "lru_inv (repl (lru_calls n cs))" using aged_calls by (simp add: aged_def)
  then show ?thesis
    using lru.order_distinct [OF inv] lru.victim_None_iff [OF inv] lru.size_order [OF inv]
    by (simp add: lru_inv_def lru_size_def)
qed

end
