(* ===== verification/Wire_Protocol.thy ===== *)
theory Wire_Protocol
  imports Prelude
begin

text \<open>
  The wire protocol codec, \<^verbatim>\<open>src/src/common/wire_protocol.h\<close>: big-endian primitives appended to a
  buffer, the bounds-checked \<^verbatim>\<open>Reader\<close>, the socket loops \<^verbatim>\<open>read_exact\<close> and \<^verbatim>\<open>write_all_bytes\<close>, and
  frames. A \<^verbatim>\<open>std::string\<close> buffer is a byte list. A socket is the list of what successive
  \<^verbatim>\<open>read\<close> and \<^verbatim>\<open>write\<close> calls on it will report: data in chunks of any size, \<^verbatim>\<open>EINTR\<close>, a failure;
  an exhausted receiving side is a closed peer, an exhausted sending side never returns.
\<close>

section \<open>Constants and primitives\<close>

definition TAG_EXEC_STREAM :: byte where "TAG_EXEC_STREAM = 0x20"
definition TAG_PREPARE_SET :: byte where "TAG_PREPARE_SET = 0x21"
definition TAG_EXEC_BATCH :: byte where "TAG_EXEC_BATCH = 0x22"
definition TAG_META :: byte where "TAG_META = 0x01"
definition TAG_ROW :: byte where "TAG_ROW = 0x02"
definition TAG_COMMAND_OK :: byte where "TAG_COMMAND_OK = 0x10"
definition TAG_ERROR :: byte where "TAG_ERROR = 0x13"

definition SQLTYPE_INT32 :: byte where "SQLTYPE_INT32 = 1"
definition SQLTYPE_FLOAT32 :: byte where "SQLTYPE_FLOAT32 = 2"
definition SQLTYPE_CHAR :: byte where "SQLTYPE_CHAR = 3"

definition MAX_PAYLOAD_BYTES :: nat where "MAX_PAYLOAD_BYTES = 2 ^ 20"
definition MAX_DIAGNOSTIC_BYTES :: nat where "MAX_DIAGNOSTIC_BYTES = 64 * 2 ^ 10"

datatype wire_error = WireProtocolError string

fun coltype_to_sqltype :: "ColType \<Rightarrow> byte" where
  "coltype_to_sqltype TYPE_INT = SQLTYPE_INT32"
| "coltype_to_sqltype TYPE_FLOAT = SQLTYPE_FLOAT32"
| "coltype_to_sqltype TYPE_STRING = SQLTYPE_CHAR"

definition sqltype_to_coltype :: "byte \<Rightarrow> wire_error + ColType" where
  "sqltype_to_coltype t =
     (if t = SQLTYPE_INT32 then Inr TYPE_INT
      else if t = SQLTYPE_FLOAT32 then Inr TYPE_FLOAT
      else if t = SQLTYPE_CHAR then Inr TYPE_STRING
      else Inl (WireProtocolError ''unknown SQL type tag''))"

definition put_u8 :: "bytes \<Rightarrow> byte \<Rightarrow> bytes" where
  "put_u8 buf v = buf @ [v]"

definition put_u16 :: "bytes \<Rightarrow> 16 word \<Rightarrow> bytes" where
  "put_u16 buf v = buf @ [ucast (drop_bit 8 v AND 0xff), ucast (v AND 0xff)]"

definition put_u32 :: "bytes \<Rightarrow> 32 word \<Rightarrow> bytes" where
  "put_u32 buf v = buf @ map (\<lambda>i. ucast (drop_bit (i * 8) v AND 0xff)) [3, 2, 1, 0]"

definition put_u64 :: "bytes \<Rightarrow> 64 word \<Rightarrow> bytes" where
  "put_u64 buf v = buf @ map (\<lambda>i. ucast (drop_bit (i * 8) v AND 0xff)) [7, 6, 5, 4, 3, 2, 1, 0]"

definition put_i32 :: "bytes \<Rightarrow> int \<Rightarrow> bytes" where
  "put_i32 buf v = put_u32 buf (word_of_int v)"

definition put_bytes :: "bytes \<Rightarrow> bytes \<Rightarrow> bytes" where
  "put_bytes buf s = buf @ s"

definition put_column_def :: "bytes \<Rightarrow> bytes \<Rightarrow> ColType \<Rightarrow> bytes" where
  "put_column_def buf name type =
     put_u8 (put_bytes (put_u16 buf (word_of_nat (length name))) name) (coltype_to_sqltype type)"

definition truncate_diag :: "bytes \<Rightarrow> bytes" where
  "truncate_diag s =
     (if length s \<le> MAX_DIAGNOSTIC_BYTES then s else take MAX_DIAGNOSTIC_BYTES s)"

section \<open>Reader\<close>

record reader =
  rdata :: bytes
  rpos :: nat

definition need :: "reader \<Rightarrow> nat \<Rightarrow> bool" where
  "need r n \<longleftrightarrow> rpos r + n \<le> length (rdata r)"

definition truncated :: wire_error where
  "truncated = WireProtocolError ''truncated frame payload''"

definition rd_u8 :: "reader \<Rightarrow> wire_error + byte \<times> reader" where
  "rd_u8 r =
     (if need r 1 then Inr (rdata r ! rpos r, r\<lparr>rpos := rpos r + 1\<rparr>) else Inl truncated)"

definition rd_u16 :: "reader \<Rightarrow> wire_error + 16 word \<times> reader" where
  "rd_u16 r =
     (if need r 2
      then Inr (push_bit 8 (ucast (rdata r ! rpos r)) OR ucast (rdata r ! (rpos r + 1)),
                r\<lparr>rpos := rpos r + 2\<rparr>)
      else Inl truncated)"

definition rd_u32 :: "reader \<Rightarrow> wire_error + 32 word \<times> reader" where
  "rd_u32 r =
     (if need r 4
      then Inr (foldl (\<lambda>v i. push_bit 8 v OR ucast (rdata r ! (rpos r + i))) 0 [0, 1, 2, 3],
                r\<lparr>rpos := rpos r + 4\<rparr>)
      else Inl truncated)"

definition rd_i32 :: "reader \<Rightarrow> wire_error + int \<times> reader" where
  "rd_i32 r = and_then (rd_u32 r) (\<lambda>(v, r'). Inr (sint v, r'))"

definition rd_bytes :: "reader \<Rightarrow> nat \<Rightarrow> wire_error + bytes \<times> reader" where
  "rd_bytes r n =
     (if need r n then Inr (rd (rpos r) n (rdata r), r\<lparr>rpos := rpos r + n\<rparr>) else Inl truncated)"

definition at_end :: "reader \<Rightarrow> bool" where
  "at_end r \<longleftrightarrow> rpos r = length (rdata r)"

definition remaining :: "reader \<Rightarrow> nat" where
  "remaining r = length (rdata r) - rpos r"

section \<open>Socket loops\<close>

datatype recv = Data bytes | Eintr | Fail

datatype read_result = Got bytes | Interrupted | Failed

fun sock_read :: "recv list \<Rightarrow> nat \<Rightarrow> read_result \<times> recv list" where
  "sock_read [] n = (Got [], [])"
| "sock_read (Data c # es) n = (Got (take n c), if n < length c then Data (drop n c) # es else es)"
| "sock_read (Eintr # es) n = (Interrupted, es)"
| "sock_read (Fail # es) n = (Failed, es)"

text \<open>
  \<open>read_exact es n buf\<close> is the loop entered with \<open>buf\<close> already read (\<^verbatim>\<open>off\<close> is its length). The
  result is the filled buffer, or \<open>None\<close> for the \<^verbatim>\<open>false\<close> of the source.
\<close>

function read_exact :: "recv list \<Rightarrow> nat \<Rightarrow> bytes \<Rightarrow> bytes option \<times> recv list" where
  "read_exact es n buf =
     (if length buf < n
      then case sock_read es (n - length buf) of
             (Failed, es') \<Rightarrow> (None, es')
           | (Interrupted, es') \<Rightarrow> read_exact es' n buf
           | (Got c, es') \<Rightarrow> if c = [] then (None, es') else read_exact es' n (buf @ c)
      else (Some buf, es))"
  by pat_completeness auto

lemma sock_read_measure:
  "sock_read es k = (Interrupted, es') \<Longrightarrow> length es' < length es"
  "sock_read es k = (Got c, es') \<Longrightarrow> length es' \<le> length es"
  by (cases "(es, k)" rule: sock_read.cases; auto)+

termination read_exact
  by (relation "measure (\<lambda>(es, n, buf). length es + (n - length buf))")
    (auto dest: sock_read_measure [OF sym] simp: neq_Nil_conv intro: add_le_less_mono)

declare read_exact.simps [simp del]

datatype send = Accept nat | WEintr | WFail

fun write_all_bytes :: "send list \<Rightarrow> bytes \<Rightarrow> bytes \<Rightarrow> (bool \<times> bytes \<times> send list) option" where
  "write_all_bytes es out [] = Some (True, out, es)"
| "write_all_bytes [] out (b # bs) = None"
| "write_all_bytes (WEintr # es) out (b # bs) = write_all_bytes es out (b # bs)"
| "write_all_bytes (WFail # es) out (b # bs) = Some (False, out, es)"
| "write_all_bytes (Accept k # es) out (b # bs) =
     write_all_bytes es (out @ take k (b # bs)) (drop k (b # bs))"

section \<open>Frames\<close>

record FrameHeader =
  payload_bytes :: "32 word"
  tag :: byte
  flags :: byte

definition read_frame_header :: "recv list \<Rightarrow> (wire_error + FrameHeader option) \<times> recv list" where
  "read_frame_header es =
     (case read_exact es 8 [] of
        (None, es') \<Rightarrow> (Inr None, es')
      | (Some hdr, es') \<Rightarrow>
          (and_then (rd_u32 \<lparr>rdata = hdr, rpos = 0\<rparr>) (\<lambda>(pb, r).
             and_then (rd_u8 r) (\<lambda>(t, r).
               and_then (rd_u8 r) (\<lambda>(fl, r).
                 and_then (rd_u16 r) (\<lambda>(reserved, r).
                   if reserved \<noteq> 0 then Inl (WireProtocolError ''nonzero reserved field'')
                   else Inr (Some \<lparr>payload_bytes = pb, tag = t, flags = fl\<rparr>))))), es'))"

definition read_payload :: "recv list \<Rightarrow> 32 word \<Rightarrow> (wire_error + bytes option) \<times> recv list" where
  "read_payload es pb =
     (if MAX_PAYLOAD_BYTES < unat pb then (Inl (WireProtocolError ''payload exceeds 1 MiB''), es)
      else if pb = 0 then (Inr (Some []), es)
      else case read_exact es (unat pb) [] of (r, es') \<Rightarrow> (Inr r, es'))"

definition frame_header_bytes :: "byte \<Rightarrow> bytes \<Rightarrow> bytes" where
  "frame_header_bytes t payload =
     put_u16 (put_u8 (put_u8 (put_u32 [] (word_of_nat (length payload))) t) 0) 0"

definition send_frame :: "send list \<Rightarrow> bytes \<Rightarrow> byte \<Rightarrow> bytes \<Rightarrow> (bool \<times> bytes \<times> send list) option" where
  "send_frame es out t payload =
     (case write_all_bytes es out (frame_header_bytes t payload) of
        None \<Rightarrow> None
      | Some (False, out', es') \<Rightarrow> Some (False, out', es')
      | Some (True, out', es') \<Rightarrow>
          if payload = [] then Some (True, out', es') else write_all_bytes es' out' payload)"

section \<open>Encode/decode contracts\<close>

lemma put_u16_image: "put_u16 buf v = buf @ rev (le_enc 2 (uint v))"
  unfolding put_u16_def using low_byte_image [of 0 v] low_byte_image [of 8 v]
  by (simp add: numeral_2_eq_2)

lemma put_u32_image: "put_u32 buf v = buf @ rev (le_enc 4 (uint v))"
  by (simp add: put_u32_def low_byte_image le_enc_nth upt_rec power_mult [symmetric]
      flip: power_mult)

lemma put_u64_image: "put_u64 buf v = buf @ rev (le_enc 8 (uint v))"
  by (simp add: put_u64_def low_byte_image le_enc_nth upt_rec flip: power_mult)

lemma rd_u16_acc: "need r 2 \<Longrightarrow> rd_u16 r = Inr (be_acc 0 (rd (rpos r) 2 (rdata r)), r\<lparr>rpos := rpos r + 2\<rparr>)"
  by (simp add: rd_u16_def need_def rd_def be_acc_def numeral_2_eq_2 take_Suc_conv_app_nth)

lemma rd_u32_acc: "need r 4 \<Longrightarrow> rd_u32 r = Inr (be_acc 0 (rd (rpos r) 4 (rdata r)), r\<lparr>rpos := rpos r + 4\<rparr>)"
  by (simp add: rd_u32_def need_def rd_def be_acc_def eval_nat_numeral take_Suc_conv_app_nth)

lemma rd_append [simp]: "rd (length pre) (length xs) (pre @ xs @ post) = xs"
  by (simp add: rd_def)

text \<open>
  A wire codec: an image of every admissible value, and a reader operation that recovers the value
  from its image wherever it stands in a payload and leaves the cursor right after it.
\<close>

locale wire_codec =
  fixes img :: "'v \<Rightarrow> bytes"
    and get :: "reader \<Rightarrow> wire_error + 'v \<times> reader"
    and ok :: "'v \<Rightarrow> bool"
  assumes get_img: "ok v \<Longrightarrow>
    get \<lparr>rdata = pre @ img v @ post, rpos = length pre\<rparr>
      = Inr (v, \<lparr>rdata = pre @ img v @ post, rpos = length pre + length (img v)\<rparr>)"
begin

lemma get_start:
  "ok v \<Longrightarrow> get \<lparr>rdata = img v @ post, rpos = 0\<rparr>
     = Inr (v, \<lparr>rdata = img v @ post, rpos = length (img v)\<rparr>)"
  using get_img [of v "[]"] by simp

text \<open>A sequence of values decodes to itself, one \<open>get\<close> after the other.\<close>

primrec get_many :: "nat \<Rightarrow> reader \<Rightarrow> wire_error + 'v list \<times> reader" where
  "get_many 0 r = Inr ([], r)"
| "get_many (Suc n) r = and_then (get r) (\<lambda>(v, r').
     and_then (get_many n r') (\<lambda>(vs, r''). Inr (v # vs, r'')))"

lemma get_many_img:
  assumes "list_all ok vs"
  shows "get_many (length vs) \<lparr>rdata = pre @ concat (map img vs) @ post, rpos = length pre\<rparr>
    = Inr (vs, \<lparr>rdata = pre @ concat (map img vs) @ post, rpos = length pre + length (concat (map img vs))\<rparr>)"
  using assms
proof (induction vs arbitrary: pre)
  case (Cons v vs)
  have "get_many (length vs) \<lparr>rdata = (pre @ img v) @ concat (map img vs) @ post, rpos = length (pre @ img v)\<rparr>
    = Inr (vs, \<lparr>rdata = (pre @ img v) @ concat (map img vs) @ post,
                rpos = length (pre @ img v) + length (concat (map img vs))\<rparr>)"
    using Cons by (intro Cons.IH) simp
  moreover have "get \<lparr>rdata = pre @ img v @ concat (map img vs) @ post, rpos = length pre\<rparr>
    = Inr (v, \<lparr>rdata = pre @ img v @ concat (map img vs) @ post, rpos = length pre + length (img v)\<rparr>)"
    using Cons.prems by (intro get_img) simp
  ultimately show ?case by (simp add: add.assoc)
qed simp

end

lemma need_mid: "need \<lparr>rdata = pre @ xs @ post, rpos = length pre\<rparr> (length xs)"
  by (simp add: need_def)

interpretation u8: wire_codec "put_u8 []" rd_u8 "\<lambda>_. True"
  by unfold_locales (simp add: put_u8_def rd_u8_def need_def)

interpretation u16: wire_codec "put_u16 []" rd_u16 "\<lambda>_. True"
proof
  fix v :: "16 word" and pre post
  let ?i = "rev (le_enc 2 (uint v))"
  have "need \<lparr>rdata = pre @ ?i @ post, rpos = length pre\<rparr> 2" using need_mid [of pre ?i post] by simp
  moreover have "rd (length pre) 2 (pre @ ?i @ post) = ?i" using rd_append [of pre ?i post] by simp
  ultimately show "rd_u16 \<lparr>rdata = pre @ put_u16 [] v @ post, rpos = length pre\<rparr>
    = Inr (v, \<lparr>rdata = pre @ put_u16 [] v @ post, rpos = length pre + length (put_u16 [] v)\<rparr>)"
    by (simp add: put_u16_image rd_u16_acc be_image_acc)
qed

interpretation u32: wire_codec "put_u32 []" rd_u32 "\<lambda>_. True"
proof
  fix v :: "32 word" and pre post
  let ?i = "rev (le_enc 4 (uint v))"
  have "need \<lparr>rdata = pre @ ?i @ post, rpos = length pre\<rparr> 4" using need_mid [of pre ?i post] by simp
  moreover have "rd (length pre) 4 (pre @ ?i @ post) = ?i" using rd_append [of pre ?i post] by simp
  ultimately show "rd_u32 \<lparr>rdata = pre @ put_u32 [] v @ post, rpos = length pre\<rparr>
    = Inr (v, \<lparr>rdata = pre @ put_u32 [] v @ post, rpos = length pre + length (put_u32 [] v)\<rparr>)"
    by (simp add: put_u32_image rd_u32_acc be_image_acc)
qed

definition int32 :: "int \<Rightarrow> bool" where
  "int32 v \<longleftrightarrow> - (2 ^ 31) \<le> v \<and> v < 2 ^ 31"

lemma sint_word32: "int32 v \<Longrightarrow> sint (word_of_int v :: 32 word) = v"
  by (simp add: int32_def int_word_sint)

interpretation i32: wire_codec "put_i32 []" rd_i32 int32
proof
  fix v pre post assume "int32 v"
  then show "rd_i32 \<lparr>rdata = pre @ put_i32 [] v @ post, rpos = length pre\<rparr>
    = Inr (v, \<lparr>rdata = pre @ put_i32 [] v @ post, rpos = length pre + length (put_i32 [] v)\<rparr>)"
    by (simp add: put_i32_def rd_i32_def u32.get_img sint_word32)
qed

section \<open>Reassembly\<close>

text \<open>What a peer has sent before the connection ends or fails, whatever the chunk boundaries.\<close>

fun stream :: "recv list \<Rightarrow> bytes" where
  "stream [] = []"
| "stream (Data c # es) = (if c = [] then [] else c @ stream es)"
| "stream (Eintr # es) = stream es"
| "stream (Fail # es) = []"

lemma sock_read_stream:
  assumes "0 < k"
  shows "case sock_read es k of
      (Failed, es') \<Rightarrow> stream es = []
    | (Interrupted, es') \<Rightarrow> stream es' = stream es
    | (Got c, es') \<Rightarrow> (c = [] \<longleftrightarrow> stream es = []) \<and> length c \<le> k
        \<and> (c \<noteq> [] \<longrightarrow> stream es = c @ stream es')"
  using assms by (cases "(es, k)" rule: sock_read.cases) auto

lemma read_exact_stream:
  assumes "length buf \<le> n"
  shows "fst (read_exact es n buf) =
      (if n \<le> length buf + length (stream es) then Some (take n (buf @ stream es)) else None)
    \<and> (n \<le> length buf + length (stream es) \<longrightarrow>
        stream (snd (read_exact es n buf)) = drop (n - length buf) (stream es))"
  using assms
proof (induction es n buf rule: read_exact.induct)
  case (1 es n buf)
  show ?case
  proof (cases "length buf < n")
    case True
    obtain r es' where r: "sock_read es (n - length buf) = (r, es')" by fastforce
    note step = sock_read_stream [of "n - length buf" es, unfolded r]
      and unf = read_exact.simps [of es n buf]
    show ?thesis
    proof (cases r)
      case (Got c)
      then show ?thesis
        using 1 True r step by (cases "c = []") (auto simp: unf)
    next
      case Interrupted
      then show ?thesis using 1 True r step by (auto simp: unf)
    next
      case Failed
      then show ?thesis using 1 True r step by (auto simp: unf)
    qed
  next
    case False
    with 1 show ?thesis by (simp add: read_exact.simps [of es n buf])
  qed
qed

lemma read_exact_prefix:
  assumes "stream es = xs @ rest"
  shows "\<exists>es'. read_exact es (length xs) [] = (Some xs, es') \<and> stream es' = rest"
  using read_exact_stream [of "[]" "length xs" es] assms
  by (cases "read_exact es (length xs) []") auto

lemma write_all_bytes_out:
  "write_all_bytes es out bs = Some (True, out', es') \<Longrightarrow> out' = out @ bs"
  by (induction es out bs arbitrary: out' es' rule: write_all_bytes.induct) auto

lemma send_frame_out:
  "send_frame es out t payload = Some (True, out', es') \<Longrightarrow>
     out' = out @ frame_header_bytes t payload @ payload"
  by (auto simp: send_frame_def dest!: write_all_bytes_out split: option.splits bool.splits prod.splits if_splits)

lemma frame_header_image:
  "frame_header_bytes t payload =
     put_u32 [] (word_of_nat (length payload)) @ put_u8 [] t @ put_u8 [] 0 @ put_u16 [] 0"
  by (simp add: frame_header_bytes_def put_u8_def put_u16_def put_u32_def)

lemma length_frame_header: "length (frame_header_bytes t payload) = 8"
  by (simp add: frame_header_bytes_def put_u8_def put_u16_def put_u32_def)

lemma read_frame_header_image:
  assumes "stream es = frame_header_bytes t payload @ rest"
  shows "\<exists>es'. read_frame_header es =
      (Inr (Some \<lparr>payload_bytes = word_of_nat (length payload), tag = t, flags = 0\<rparr>), es')
    \<and> stream es' = rest"
proof -
  let ?w = "word_of_nat (length payload) :: 32 word"
  obtain es' where es': "read_exact es 8 [] = (Some (frame_header_bytes t payload), es')" "stream es' = rest"
    using read_exact_prefix [OF assms] by (auto simp: length_frame_header)
  have len: "length (put_u32 [] ?w) = 4" "length (put_u8 [] x) = 1" for x
    by (simp_all add: put_u32_def put_u8_def)
  have "rd_u32 \<lparr>rdata = frame_header_bytes t payload, rpos = 0\<rparr>
      = Inr (?w, \<lparr>rdata = frame_header_bytes t payload, rpos = 4\<rparr>)"
    unfolding frame_header_image using u32.get_start [where v = ?w] by (simp add: len)
  moreover have "rd_u8 \<lparr>rdata = frame_header_bytes t payload, rpos = 4\<rparr>
      = Inr (t, \<lparr>rdata = frame_header_bytes t payload, rpos = 5\<rparr>)"
    unfolding frame_header_image using u8.get_img [where v = t and pre = "put_u32 [] ?w"] by (simp add: len)
  moreover have "rd_u8 \<lparr>rdata = frame_header_bytes t payload, rpos = 5\<rparr>
      = Inr (0, \<lparr>rdata = frame_header_bytes t payload, rpos = 6\<rparr>)"
    unfolding frame_header_image using u8.get_img [where v = 0 and pre = "put_u32 [] ?w @ put_u8 [] t"] by (simp add: len)
  moreover have "rd_u16 \<lparr>rdata = frame_header_bytes t payload, rpos = 6\<rparr>
      = Inr (0, \<lparr>rdata = frame_header_bytes t payload, rpos = 8\<rparr>)"
    unfolding frame_header_image using u16.get_img [where v = 0 and pre = "put_u32 [] ?w @ put_u8 [] t @ put_u8 [] 0" and post = "[]"]
    by (simp add: len put_u16_def)
  ultimately show ?thesis using es' by (simp add: read_frame_header_def)
qed

section \<open>Properties\<close>

text \<open>
  C13: a frame that \<open>send_frame\<close> reports as sent, received over a connection that delivers the sent
  bytes in chunks of any size with any interruptions, is read back by \<open>read_frame_header\<close>
  and \<open>read_payload\<close> as the same tag, zero flags and the same payload, and the bytes after it
  are left for the next frame.
\<close>

theorem frame_roundtrip:
  assumes "send_frame es out t payload = Some (True, out @ sent, es')"
    and "length payload \<le> MAX_PAYLOAD_BYTES"
    and "stream rs = sent @ rest"
  shows "\<exists>rs' rs''. read_frame_header rs
        = (Inr (Some \<lparr>payload_bytes = word_of_nat (length payload), tag = t, flags = 0\<rparr>), rs')
      \<and> read_payload rs' (word_of_nat (length payload)) = (Inr (Some payload), rs'')
      \<and> stream rs'' = rest"
proof -
  let ?w = "word_of_nat (length payload) :: 32 word"
  have "stream rs = frame_header_bytes t payload @ payload @ rest"
    using send_frame_out [OF assms(1)] assms(3) by simp
  then obtain rs' where rs': "read_frame_header rs
      = (Inr (Some \<lparr>payload_bytes = ?w, tag = t, flags = 0\<rparr>), rs')" "stream rs' = payload @ rest"
    using read_frame_header_image [of rs t payload "payload @ rest"] by auto
  have w: "unat ?w = length payload"
    using assms(2) by (simp add: unat_of_nat MAX_PAYLOAD_BYTES_def)
  then have w0: "?w = 0 \<longleftrightarrow> payload = []" by (metis length_0_conv unat_eq_zero)
  obtain rs'' where "read_exact rs' (length payload) [] = (Some payload, rs'')" "stream rs'' = rest"
    using read_exact_prefix [OF rs'(2)] by auto
  then have "\<exists>rs''. read_payload rs' ?w = (Inr (Some payload), rs'') \<and> stream rs'' = rest"
    using assms(2) w w0 rs'(2) by (cases "payload = []") (auto simp: read_payload_def)
  with rs'(1) show ?thesis by blast
qed

theorem frame_roundtrip_witness:
  "\<exists>rs' rs''. read_frame_header [Data [0, 0], Eintr, Data [0, 2, 0x10, 0, 0, 0, 9], Data [7, 1]]
        = (Inr (Some \<lparr>payload_bytes = word_of_nat (length [9, 7 :: byte]), tag = TAG_COMMAND_OK, flags = 0\<rparr>), rs')
      \<and> read_payload rs' (word_of_nat (length [9, 7 :: byte])) = (Inr (Some [9, 7]), rs'')
      \<and> stream rs'' = [1]"
proof (rule frame_roundtrip)
  show "send_frame [Accept 3, WEintr, Accept 9, Accept 4] [] TAG_COMMAND_OK [9, 7]
      = Some (True, [] @ [0, 0, 0, 2, 0x10, 0, 0, 0, 9, 7], [])"
    by (simp add: send_frame_def frame_header_bytes_def put_u8_def put_u16_def put_u32_def
        TAG_COMMAND_OK_def)
qed (simp_all add: MAX_PAYLOAD_BYTES_def)

text \<open>
  \<open>read_exact\<close> always returns; it delivers the first \<open>n\<close> bytes the peer sent, independently of
  chunking and interruptions, exactly when the peer sent that many before closing or failing.
\<close>

theorem read_exact_reassembles:
  "fst (read_exact es n []) = (if n \<le> length (stream es) then Some (take n (stream es)) else None)"
  using read_exact_stream [of "[]" n es] by simp

text \<open>A column definition in a result header decodes to the column's name and type when the name fits the 16-bit length field.\<close>

lemma column_def_roundtrip:
  assumes "length name < 2 ^ 16"
  shows "and_then (rd_u16 \<lparr>rdata = put_column_def [] name type @ rest, rpos = 0\<rparr>) (\<lambda>(n, r).
           and_then (rd_bytes r (unat n)) (\<lambda>(s, r).
             and_then (rd_u8 r) (\<lambda>(t, r).
               and_then (sqltype_to_coltype t) (\<lambda>ty. Inr (s, ty, drop (rpos r) (rdata r))))))
         = Inr (name, type, rest)"
proof -
  let ?n = "word_of_nat (length name) :: 16 word"
  let ?d = "put_column_def [] name type @ rest"
  have d: "?d = put_u16 [] ?n @ name @ put_u8 [] (coltype_to_sqltype type) @ rest"
    by (simp add: put_column_def_def put_u8_def put_bytes_def put_u16_def)
  have n: "unat ?n = length name" using assms by (simp add: unat_of_nat)
  have len: "length (put_u16 [] ?n) = 2" "length (put_u8 [] b) = 1" for b
    by (simp_all add: put_u16_def put_u8_def)
  have "rd_u16 \<lparr>rdata = ?d, rpos = 0\<rparr> = Inr (?n, \<lparr>rdata = ?d, rpos = 2\<rparr>)"
    unfolding d using u16.get_start [where v = ?n] by (simp add: len)
  moreover have "rd_bytes \<lparr>rdata = ?d, rpos = 2\<rparr> (length name)
      = Inr (name, \<lparr>rdata = ?d, rpos = 2 + length name\<rparr>)"
    unfolding d using rd_append [of "put_u16 [] ?n" name] by (simp add: rd_bytes_def need_def len)
  moreover have "rd_u8 \<lparr>rdata = ?d, rpos = 2 + length name\<rparr>
      = Inr (coltype_to_sqltype type, \<lparr>rdata = ?d, rpos = 3 + length name\<rparr>)"
    unfolding d using u8.get_img [where v = "coltype_to_sqltype type" and pre = "put_u16 [] ?n @ name" and post = rest] by (simp add: len)
  moreover have "sqltype_to_coltype (coltype_to_sqltype type) = Inr type"
    by (cases type) (simp_all add: sqltype_to_coltype_def SQLTYPE_INT32_def SQLTYPE_FLOAT32_def SQLTYPE_CHAR_def)
  moreover have "drop (3 + length name) ?d = rest" unfolding d by (simp add: len)
  ultimately show ?thesis by (simp add: n)
qed

end
