(* ===== verification/Lock_Manager.thy ===== *)
theory Lock_Manager
  imports Prelude "HOL-Library.AList"
begin

text \<open>
  The row lock manager, \<^verbatim>\<open>src/src/transaction/concurrency/lock_manager.{h,cpp}\<close>, with the lock
  identifiers of \<^verbatim>\<open>src/src/transaction/txn_defs.h\<close> and the fields of \<^verbatim>\<open>Transaction\<close> it uses.
  \<^verbatim>\<open>lock_exclusive_on_record\<close> blocks, so it is modelled as the control points of one
  transaction between its critical sections, a step relation over all transactions.
  A point at which the thread holds \<^verbatim>\<open>entry.mtx\<close> excludes every other thread from that entry;
  \<^verbatim>\<open>cv.wait\<close> gives the mutex up and takes it again. Hash tables are association lists, so the
  model runs. Wake-ups may come at any moment the wait predicate holds, which covers every order in
  which \<^verbatim>\<open>notify_all\<close> lets the waiters run.
\<close>

section \<open>Identifiers and state\<close>

datatype LockDataType = TABLE | RECORD

record LockDataId =
  lock_fd :: int
  lock_rid :: Rid
  lock_type :: LockDataType

datatype pc =
    Ready "bool option"          \<comment> \<open>outside the lock manager, with the last result\<close>
  | Entered LockDataId           \<comment> \<open>before taking \<^verbatim>\<open>entry.mtx\<close>\<close>
  | AtTop LockDataId             \<comment> \<open>at the test of the \<^verbatim>\<open>while\<close> loop, holding the mutex\<close>
  | Marking LockDataId txn_id_t  \<comment> \<open>before \<^verbatim>\<open>mark_victim_abort\<close>, holding the mutex\<close>
  | PreWait LockDataId           \<comment> \<open>before \<^verbatim>\<open>cv.wait\<close>, holding the mutex\<close>
  | Waiting LockDataId           \<comment> \<open>inside \<^verbatim>\<open>cv.wait\<close>\<close>
  | Woken LockDataId             \<comment> \<open>after \<^verbatim>\<open>cv.wait\<close>, holding the mutex again\<close>

record lockmgr =
  record_locks :: "(LockDataId \<times> txn_id_t) list"   \<comment> \<open>entry to owner\<close>
  wait_for :: "(txn_id_t \<times> txn_id_t) list"
  waiting_on_entry :: "(txn_id_t \<times> LockDataId) list"
  waiting_txn :: "txn_id_t list"
  lock_set :: "(txn_id_t \<times> LockDataId list) list"
  lock_abort :: "txn_id_t list"
  pcs :: "(txn_id_t \<times> pc) list"

definition lockmgr_new :: lockmgr where
  "lockmgr_new = \<lparr>record_locks = [], wait_for = [], waiting_on_entry = [], waiting_txn = [],
     lock_set = [], lock_abort = [], pcs = []\<rparr>"

definition owner_of :: "lockmgr \<Rightarrow> LockDataId \<Rightarrow> txn_id_t" where
  "owner_of s lid = (case map_of (record_locks s) lid of None \<Rightarrow> INVALID_TXN_ID | Some t \<Rightarrow> t)"

definition locks_of :: "lockmgr \<Rightarrow> txn_id_t \<Rightarrow> LockDataId list" where
  "locks_of s t = (case map_of (lock_set s) t of None \<Rightarrow> [] | Some l \<Rightarrow> l)"

definition pc_of :: "lockmgr \<Rightarrow> txn_id_t \<Rightarrow> pc" where
  "pc_of s t = (case map_of (pcs s) t of None \<Rightarrow> Ready None | Some p \<Rightarrow> p)"

definition lock_abort_requested :: "lockmgr \<Rightarrow> txn_id_t \<Rightarrow> bool" where
  "lock_abort_requested s t \<longleftrightarrow> t \<in> set (lock_abort s)"

definition clear_lock_abort :: "lockmgr \<Rightarrow> txn_id_t \<Rightarrow> lockmgr" where
  "clear_lock_abort s t = s\<lparr>lock_abort := removeAll t (lock_abort s)\<rparr>"

definition request_lock_abort :: "lockmgr \<Rightarrow> txn_id_t \<Rightarrow> lockmgr" where
  "request_lock_abort s t = s\<lparr>lock_abort := List.insert t (lock_abort s)\<rparr>"

definition set_pc :: "lockmgr \<Rightarrow> txn_id_t \<Rightarrow> pc \<Rightarrow> lockmgr" where
  "set_pc s t p = s\<lparr>pcs := AList.update t p (pcs s)\<rparr>"

fun holds_mtx :: "pc \<Rightarrow> LockDataId \<Rightarrow> bool" where
  "holds_mtx (AtTop i) lid \<longleftrightarrow> i = lid"
| "holds_mtx (Marking i _) lid \<longleftrightarrow> i = lid"
| "holds_mtx (PreWait i) lid \<longleftrightarrow> i = lid"
| "holds_mtx (Woken i) lid \<longleftrightarrow> i = lid"
| "holds_mtx _ lid \<longleftrightarrow> False"

definition mtx_free :: "lockmgr \<Rightarrow> LockDataId \<Rightarrow> bool" where
  "mtx_free s lid \<longleftrightarrow> list_all (\<lambda>(u, p). \<not> holds_mtx p lid) (pcs s)"

section \<open>Operations\<close>

definition get_record_lock :: "lockmgr \<Rightarrow> LockDataId \<Rightarrow> lockmgr" where
  "get_record_lock s lid =
     (if map_of (record_locks s) lid = None
      then s\<lparr>record_locks := AList.update lid INVALID_TXN_ID (record_locks s)\<rparr> else s)"

fun detect_loop :: "(txn_id_t \<times> txn_id_t) list \<Rightarrow> txn_id_t \<Rightarrow> txn_id_t \<Rightarrow> txn_id_t \<Rightarrow> nat \<Rightarrow> txn_id_t option" where
  "detect_loop wg start youngest cur 0 = None"
| "detect_loop wg start youngest cur (Suc g) =
     (if cur = start then Some youngest
      else let youngest' = (if youngest < cur then cur else youngest) in
        case map_of wg cur of
          None \<Rightarrow> None
        | Some nxt \<Rightarrow> if g = 0 then None else detect_loop wg start youngest' nxt g)"

definition detect_deadlock_victim :: "(txn_id_t \<times> txn_id_t) list \<Rightarrow> txn_id_t \<Rightarrow> txn_id_t option" where
  "detect_deadlock_victim wg start =
     (case map_of wg start of
        None \<Rightarrow> None
      | Some c \<Rightarrow> detect_loop wg start start c (length wg + 1))"

definition mark_victim_abort :: "lockmgr \<Rightarrow> txn_id_t \<Rightarrow> lockmgr" where
  "mark_victim_abort s v = (if v \<in> set (waiting_txn s) then request_lock_abort s v else s)"

definition clear_wfg_state :: "lockmgr \<Rightarrow> txn_id_t \<Rightarrow> lockmgr" where
  "clear_wfg_state s t =
     s\<lparr>wait_for := AList.delete t (wait_for s),
       waiting_on_entry := AList.delete t (waiting_on_entry s),
       waiting_txn := removeAll t (waiting_txn s)\<rparr>"

text \<open>
  \<^verbatim>\<open>lock_exclusive_on_record\<close> and, through it, \<^verbatim>\<open>lock_shared_on_record\<close>: entry, the loop test with
  its four outcomes, the sections around \<^verbatim>\<open>cv.wait\<close>, and the early return of a requested abort.
\<close>

definition lock_enter :: "lockmgr \<Rightarrow> txn_id_t \<Rightarrow> LockDataId \<Rightarrow> lockmgr" where
  "lock_enter s me lid =
     (if lid \<in> set (locks_of s me) then set_pc s me (Ready (Some True))
      else let s1 = clear_lock_abort s me;
               s2 = s1\<lparr>waiting_txn := List.insert me (waiting_txn s1)\<rparr>
           in set_pc (get_record_lock s2 lid) me (Entered lid))"

definition lock_refuse :: "lockmgr \<Rightarrow> txn_id_t \<Rightarrow> lockmgr" where
  "lock_refuse s me = set_pc (clear_lock_abort (clear_wfg_state s me) me) me (Ready (Some False))"

definition lock_grant :: "lockmgr \<Rightarrow> txn_id_t \<Rightarrow> LockDataId \<Rightarrow> lockmgr" where
  "lock_grant s me lid =
     (let s1 = clear_lock_abort (clear_wfg_state s me) me
      in set_pc (s1\<lparr>record_locks := AList.update lid me (record_locks s1),
                    lock_set := AList.update me (List.insert lid (locks_of s1 me)) (lock_set s1)\<rparr>)
           me (Ready (Some True)))"

definition lock_top :: "lockmgr \<Rightarrow> txn_id_t \<Rightarrow> LockDataId \<Rightarrow> lockmgr" where
  "lock_top s me lid =
     (if owner_of s lid = INVALID_TXN_ID \<or> owner_of s lid = me then lock_grant s me lid
      else if lock_abort_requested s me then lock_refuse s me
      else let s1 = s\<lparr>wait_for := AList.update me (owner_of s lid) (wait_for s),
                      waiting_on_entry := AList.update me lid (waiting_on_entry s)\<rparr> in
        case detect_deadlock_victim (wait_for s1) me of
          Some v \<Rightarrow>
            if v = me
            then set_pc (clear_lock_abort
                   (s1\<lparr>wait_for := AList.delete me (wait_for s1),
                       waiting_on_entry := AList.delete me (waiting_on_entry s1)\<rparr>) me)
                   me (Ready (Some False))
            else set_pc s1 me (Marking lid v)
        | None \<Rightarrow> set_pc s1 me (PreWait lid))"

definition lock_mark :: "lockmgr \<Rightarrow> txn_id_t \<Rightarrow> LockDataId \<Rightarrow> txn_id_t \<Rightarrow> lockmgr" where
  "lock_mark s me lid v = set_pc (mark_victim_abort s v) me (PreWait lid)"

definition lock_prewait :: "lockmgr \<Rightarrow> txn_id_t \<Rightarrow> LockDataId \<Rightarrow> lockmgr" where
  "lock_prewait s me lid =
     (if lock_abort_requested s me then lock_refuse s me else set_pc s me (Waiting lid))"

definition wait_predicate :: "lockmgr \<Rightarrow> txn_id_t \<Rightarrow> LockDataId \<Rightarrow> bool" where
  "wait_predicate s me lid \<longleftrightarrow>
     owner_of s lid = INVALID_TXN_ID \<or> owner_of s lid = me \<or> lock_abort_requested s me"

definition lock_woken :: "lockmgr \<Rightarrow> txn_id_t \<Rightarrow> LockDataId \<Rightarrow> lockmgr" where
  "lock_woken s me lid =
     (let s1 = s\<lparr>wait_for := AList.delete me (wait_for s),
                 waiting_on_entry := AList.delete me (waiting_on_entry s)\<rparr>
      in if lock_abort_requested s1 me then lock_refuse s1 me else set_pc s1 me (AtTop lid))"

definition lock_shared_on_table :: "lockmgr \<Rightarrow> txn_id_t \<Rightarrow> int \<Rightarrow> bool \<times> lockmgr" where
  "lock_shared_on_table s t tab_fd = (True, s)"

definition lock_exclusive_on_table :: "lockmgr \<Rightarrow> txn_id_t \<Rightarrow> int \<Rightarrow> bool \<times> lockmgr" where
  "lock_exclusive_on_table s t tab_fd = (True, s)"

definition lock_IS_on_table :: "lockmgr \<Rightarrow> txn_id_t \<Rightarrow> int \<Rightarrow> bool \<times> lockmgr" where
  "lock_IS_on_table s t tab_fd = (True, s)"

definition lock_IX_on_table :: "lockmgr \<Rightarrow> txn_id_t \<Rightarrow> int \<Rightarrow> bool \<times> lockmgr" where
  "lock_IX_on_table s t tab_fd = (True, s)"

definition unlock :: "lockmgr \<Rightarrow> txn_id_t option \<Rightarrow> LockDataId \<Rightarrow> bool \<times> lockmgr" where
  "unlock s txn lid =
     (case txn of
        None \<Rightarrow> (False, s)
      | Some t \<Rightarrow>
          if lid \<notin> set (locks_of s t) then (True, s)
          else let s1 = (if lock_type lid = RECORD
                         then let s' = get_record_lock s lid in
                           if owner_of s' lid = t
                           then s'\<lparr>record_locks := AList.update lid INVALID_TXN_ID (record_locks s')\<rparr>
                           else s'
                         else s)
               in (True, s1\<lparr>lock_set := AList.update t (removeAll lid (locks_of s1 t)) (lock_set s1)\<rparr>))"

definition unlock_all :: "lockmgr \<Rightarrow> txn_id_t option \<Rightarrow> lockmgr" where
  "unlock_all s txn =
     (case txn of
        None \<Rightarrow> s
      | Some t \<Rightarrow>
          let s1 = clear_wfg_state (clear_lock_abort s t) t
          in foldl (\<lambda>s' lid. snd (unlock s' (Some t) lid)) s1 (locks_of s1 t))"

section \<open>Interleaved execution\<close>

text \<open>
  One step of one transaction. Locks are requested and released by a transaction that is outside the
  lock manager; row locks are the only ones the code hands out.
\<close>

inductive lock_step :: "lockmgr \<Rightarrow> txn_id_t \<Rightarrow> lockmgr \<Rightarrow> bool" where
  enter: "pc_of s t = Ready r \<Longrightarrow> t \<noteq> INVALID_TXN_ID \<Longrightarrow> lock_type lid = RECORD \<Longrightarrow>
    lock_step s t (lock_enter s t lid)"
| acquire: "pc_of s t = Entered lid \<Longrightarrow> mtx_free s lid \<Longrightarrow> lock_step s t (set_pc s t (AtTop lid))"
| top: "pc_of s t = AtTop lid \<Longrightarrow> lock_step s t (lock_top s t lid)"
| mark: "pc_of s t = Marking lid v \<Longrightarrow> lock_step s t (lock_mark s t lid v)"
| prewait: "pc_of s t = PreWait lid \<Longrightarrow> lock_step s t (lock_prewait s t lid)"
| wake: "pc_of s t = Waiting lid \<Longrightarrow> wait_predicate s t lid \<Longrightarrow> mtx_free s lid \<Longrightarrow>
    lock_step s t (set_pc s t (Woken lid))"
| woken: "pc_of s t = Woken lid \<Longrightarrow> lock_step s t (lock_woken s t lid)"
| release: "pc_of s t = Ready r \<Longrightarrow> t \<noteq> INVALID_TXN_ID \<Longrightarrow> mtx_free s lid \<Longrightarrow>
    lock_step s t (snd (unlock s (Some t) lid))"
| finish: "pc_of s t = Ready r \<Longrightarrow>
    lock_step s t (clear_wfg_state (clear_lock_abort s t) t)"

inductive lock_reachable :: "lockmgr \<Rightarrow> bool" where
  init: "lock_reachable lockmgr_new"
| step: "lock_reachable s \<Longrightarrow> lock_step s t s' \<Longrightarrow> lock_reachable s'"


inductive_cases lock_stepE: "lock_step s t s'"

section \<open>Deadlock detection\<close>

text \<open>\<open>wait_path wg x ps y\<close>: following the wait-for edges from \<open>x\<close> visits \<open>ps\<close> and arrives at \<open>y\<close>.\<close>

primrec wait_path :: "(txn_id_t \<times> txn_id_t) list \<Rightarrow> txn_id_t \<Rightarrow> txn_id_t list \<Rightarrow> txn_id_t \<Rightarrow> bool" where
  "wait_path wg x [] y \<longleftrightarrow> x = y"
| "wait_path wg x (p # ps) y \<longleftrightarrow>
     p = x \<and> (case map_of wg x of None \<Rightarrow> False | Some z \<Rightarrow> wait_path wg z ps y)"

lemma wait_path_append:
  "wait_path wg x (ps @ qs) y \<longleftrightarrow> (\<exists>z. wait_path wg x ps z \<and> wait_path wg z qs y)"
  by (induction ps arbitrary: x) (auto split: option.splits)

lemma wait_path_head: "wait_path wg x (p # ps) y \<Longrightarrow> p = x"
  by simp

lemma wait_path_det:
  "wait_path wg x ps y \<Longrightarrow> y \<notin> set ps \<Longrightarrow> wait_path wg x qs y \<Longrightarrow> y \<notin> set qs \<Longrightarrow> ps = qs"
proof (induction ps arbitrary: x qs)
  case Nil
  then show ?case by (cases qs) auto
next
  case (Cons p ps)
  then show ?case by (cases qs) (auto split: option.splits)
qed

lemma wait_path_distinct:
  assumes "wait_path wg x ps y" and "y \<notin> set ps"
  shows "distinct ps"
proof (rule ccontr)
  assume "\<not> distinct ps"
  then obtain as p bs cs where ps: "ps = as @ [p] @ bs @ [p] @ cs"
    using not_distinct_decomp by blast
  then have "wait_path wg p (p # bs @ p # cs) y" and "wait_path wg p (p # cs) y"
    using assms(1) by (auto simp: wait_path_append split: option.splits)
  then have "p # bs @ p # cs = p # cs"
    using assms(2) ps by (intro wait_path_det) auto
  then have "length (p # bs @ p # cs) = length (p # cs)" by (rule arg_cong)
  then show False by simp
qed

lemma wait_path_keys: "wait_path wg x ps y \<Longrightarrow> set ps \<subseteq> fst ` set wg"
proof (induction ps arbitrary: x)
  case (Cons p ps)
  then obtain z where "map_of wg x = Some z" "wait_path wg z ps y" "p = x"
    by (auto split: option.splits)
  then show ?case using Cons.IH [of z] by (auto dest: map_of_SomeD intro: rev_image_eqI)
qed simp

lemma wait_path_length:
  assumes "wait_path wg x ps y" and "distinct ps"
  shows "length ps \<le> length wg"
proof -
  have "card (set ps) \<le> card (fst ` set wg)"
    using wait_path_keys [OF assms(1)] by (intro card_mono) auto
  also have "\<dots> \<le> card (set wg)" by (simp add: card_image_le)
  also have "\<dots> \<le> length wg" by (rule card_length)
  finally show ?thesis using assms(2) by (simp add: distinct_card)
qed

lemma if_less_max: "(if y < c then c else y) = max y c" for y c :: txn_id_t
  by (simp add: max_def)

lemma detect_loop_complete:
  "wait_path wg cur ps start \<Longrightarrow> start \<notin> set ps \<Longrightarrow> length ps \<le> g \<Longrightarrow>
    detect_loop wg start y cur (Suc g) = Some (foldl max y ps)"
proof (induction ps arbitrary: cur y g)
  case (Cons p ps)
  then obtain z where z: "map_of wg cur = Some z" "wait_path wg z ps start" and p: "p = cur"
    by (auto split: option.splits)
  obtain g' where g: "g = Suc g'" using Cons.prems(3) by (cases g) auto
  have "detect_loop wg start (max y cur) z (Suc g') = Some (foldl max (max y cur) ps)"
    using Cons z g by auto
  moreover have "cur \<noteq> start" using Cons.prems(2) p by auto
  then have "detect_loop wg start y cur (Suc g) = detect_loop wg start (max y cur) z (Suc g')"
    using z g by (subst detect_loop.simps) (simp add: if_less_max del: detect_loop.simps)
  ultimately show ?case using p by simp
qed simp

lemma detect_loop_sound:
  "detect_loop wg start y cur g = Some v \<Longrightarrow>
    \<exists>ps. wait_path wg cur ps start \<and> start \<notin> set ps \<and> v = foldl max y ps"
proof (induction wg start y cur g rule: detect_loop.induct)
  case (2 wg start y cur g)
  show ?case
  proof (cases "cur = start")
    case True
    with 2 show ?thesis by (intro exI [of _ "[]"]) simp
  next
    case False
    with "2.prems" obtain z where z: "map_of wg cur = Some z" "g \<noteq> 0"
      and d: "detect_loop wg start (if y < cur then cur else y) z g = Some v"
      by (auto split: option.splits if_splits)
    obtain ps where "wait_path wg z ps start" "start \<notin> set ps"
      and "v = foldl max (if y < cur then cur else y) ps"
      using "2.IH" [OF False refl z d] by blast
    with z False show ?thesis by (intro exI [of _ "cur # ps"]) (auto simp: if_less_max)
  qed
qed simp

lemma foldl_max_Max: "foldl max y ps = Max (set (y # ps))" for y :: txn_id_t
proof (induction ps arbitrary: y)
  case (Cons p ps)
  have "foldl max y (p # ps) = Max (insert (max y p) (set ps))" using Cons by simp
  then show ?case by (cases "ps = []") (simp_all add: max.assoc)
qed simp

text \<open>
  C21: \<open>detect_deadlock_victim\<close> returns a victim exactly when the recorded wait-for edges lead from the
  requesting transaction back to itself, the step budget never cuts a cycle off, and the
  victim is the transaction with the largest identifier on that cycle.
\<close>

theorem detect_deadlock_victim_correct:
  "detect_deadlock_victim wg start = Some v \<longleftrightarrow>
     (\<exists>ps. wait_path wg start (start # ps) start \<and> start \<notin> set ps \<and> v = Max (set (start # ps)))"
proof
  assume "detect_deadlock_victim wg start = Some v"
  then obtain c where "map_of wg start = Some c" "detect_loop wg start start c (length wg + 1) = Some v"
    by (auto simp: detect_deadlock_victim_def split: option.splits)
  with detect_loop_sound show
    "\<exists>ps. wait_path wg start (start # ps) start \<and> start \<notin> set ps \<and> v = Max (set (start # ps))"
    by (fastforce simp: foldl_max_Max)
next
  assume "\<exists>ps. wait_path wg start (start # ps) start \<and> start \<notin> set ps \<and> v = Max (set (start # ps))"
  then obtain ps where ps: "wait_path wg start (start # ps) start" "start \<notin> set ps"
    and v: "v = Max (set (start # ps))" by blast
  from ps obtain c where c: "map_of wg start = Some c" "wait_path wg c ps start"
    by (auto split: option.splits)
  have "length ps \<le> length wg" using c ps(2) wait_path_distinct wait_path_length by blast
  with c ps(2) have "detect_loop wg start start c (Suc (length wg)) = Some (foldl max start ps)"
    by (intro detect_loop_complete)
  then show "detect_deadlock_victim wg start = Some v"
    using c v by (simp add: detect_deadlock_victim_def foldl_max_Max)
qed

section \<open>Ownership invariant\<close>

fun pc_lock :: "pc \<Rightarrow> LockDataId option" where
  "pc_lock (Ready r) = None"
| "pc_lock (Entered i) = Some i"
| "pc_lock (AtTop i) = Some i"
| "pc_lock (Marking i v) = Some i"
| "pc_lock (PreWait i) = Some i"
| "pc_lock (Waiting i) = Some i"
| "pc_lock (Woken i) = Some i"

definition lock_inv :: "lockmgr \<Rightarrow> bool" where
  "lock_inv s \<longleftrightarrow>
     (\<forall>t i. i \<in> set (locks_of s t) \<longleftrightarrow> t \<noteq> INVALID_TXN_ID \<and> owner_of s i = t)
     \<and> (\<forall>t i. i \<in> set (locks_of s t) \<longrightarrow> lock_type i = RECORD)
     \<and> (\<forall>t i. pc_lock (pc_of s t) = Some i \<longrightarrow> lock_type i = RECORD \<and> t \<noteq> INVALID_TXN_ID)"

named_theorems lock_frame \<open>which part of the lock manager an operation leaves alone\<close>

lemma locks_frame [lock_frame]:
  "locks_of (set_pc s t p) = locks_of s"
  "locks_of (clear_lock_abort s t) = locks_of s"
  "locks_of (request_lock_abort s t) = locks_of s"
  "locks_of (mark_victim_abort s t) = locks_of s"
  "locks_of (clear_wfg_state s t) = locks_of s"
  "locks_of (get_record_lock s i) = locks_of s"
  "locks_of (s\<lparr>waiting_txn := w\<rparr>) = locks_of s"
  "locks_of (s\<lparr>wait_for := a, waiting_on_entry := b\<rparr>) = locks_of s"
  "locks_of (s\<lparr>record_locks := c\<rparr>) = locks_of s"
  by (auto simp: fun_eq_iff locks_of_def set_pc_def clear_lock_abort_def request_lock_abort_def
      mark_victim_abort_def clear_wfg_state_def get_record_lock_def)

lemma owner_frame [lock_frame]:
  "owner_of (set_pc s t p) = owner_of s"
  "owner_of (clear_lock_abort s t) = owner_of s"
  "owner_of (request_lock_abort s t) = owner_of s"
  "owner_of (mark_victim_abort s t) = owner_of s"
  "owner_of (clear_wfg_state s t) = owner_of s"
  "owner_of (get_record_lock s i) = owner_of s"
  "owner_of (s\<lparr>waiting_txn := w\<rparr>) = owner_of s"
  "owner_of (s\<lparr>wait_for := a, waiting_on_entry := b\<rparr>) = owner_of s"
  "owner_of (s\<lparr>lock_set := l\<rparr>) = owner_of s"
  by (auto simp: fun_eq_iff owner_of_def set_pc_def clear_lock_abort_def request_lock_abort_def
      mark_victim_abort_def clear_wfg_state_def get_record_lock_def update_conv' split: option.splits)

lemma pc_frame [lock_frame]:
  "pc_of (set_pc s t p) = (pc_of s)(t := p)"
  "pc_of (clear_lock_abort s t) = pc_of s"
  "pc_of (request_lock_abort s t) = pc_of s"
  "pc_of (mark_victim_abort s t) = pc_of s"
  "pc_of (clear_wfg_state s t) = pc_of s"
  "pc_of (get_record_lock s i) = pc_of s"
  "pc_of (s\<lparr>waiting_txn := w\<rparr>) = pc_of s"
  "pc_of (s\<lparr>wait_for := a, waiting_on_entry := b\<rparr>) = pc_of s"
  "pc_of (s\<lparr>record_locks := c\<rparr>) = pc_of s"
  "pc_of (s\<lparr>lock_set := l\<rparr>) = pc_of s"
  "pc_of (s\<lparr>record_locks := c, lock_set := l\<rparr>) = pc_of s"
  by (auto simp: fun_eq_iff pc_of_def set_pc_def clear_lock_abort_def request_lock_abort_def
      mark_victim_abort_def clear_wfg_state_def get_record_lock_def update_conv')

lemma owner_update:
  "owner_of (s\<lparr>record_locks := AList.update i t (record_locks s)\<rparr>) = (owner_of s)(i := t)"
  "owner_of (s\<lparr>record_locks := AList.update i t (record_locks s), lock_set := l\<rparr>) = (owner_of s)(i := t)"
  by (auto simp: fun_eq_iff owner_of_def update_conv')

lemma locks_update:
  "locks_of (s\<lparr>lock_set := AList.update t l (lock_set s)\<rparr>) = (locks_of s)(t := l)"
  "locks_of (s\<lparr>record_locks := c, lock_set := AList.update t l (lock_set s)\<rparr>) = (locks_of s)(t := l)"
  by (auto simp: fun_eq_iff locks_of_def update_conv')

lemma grant_effect:
  "locks_of (lock_grant s t i) = (locks_of s)(t := List.insert i (locks_of s t))"
  "owner_of (lock_grant s t i) = (owner_of s)(i := t)"
  "pc_of (lock_grant s t i) = (pc_of s)(t := Ready (Some True))"
  by (simp_all add: lock_grant_def Let_def lock_frame owner_update locks_update)

lemma unlock_effect:
  assumes "lock_type i = RECORD" and "i \<in> set (locks_of s t)"
  shows "locks_of (snd (unlock s (Some t) i)) = (locks_of s)(t := removeAll i (locks_of s t))"
    and "owner_of (snd (unlock s (Some t) i)) =
          (if owner_of s i = t then (owner_of s)(i := INVALID_TXN_ID) else owner_of s)"
    and "pc_of (snd (unlock s (Some t) i)) = pc_of s"
  using assms by (simp_all add: unlock_def Let_def lock_frame owner_update locks_update)

lemma unlock_absent: "i \<notin> set (locks_of s t) \<Longrightarrow> snd (unlock s (Some t) i) = s"
  by (simp add: unlock_def)

lemma lock_inv_pc:
  "lock_inv s \<Longrightarrow> pc_lock (pc_of s t) = Some i \<Longrightarrow> lock_type i = RECORD \<and> t \<noteq> INVALID_TXN_ID"
  by (simp add: lock_inv_def)

lemma lock_inv_owner:
  "lock_inv s \<Longrightarrow> i \<in> set (locks_of s t) \<longleftrightarrow> t \<noteq> INVALID_TXN_ID \<and> owner_of s i = t"
  by (simp add: lock_inv_def)

lemma lock_inv_unlock:
  assumes "lock_inv s"
  shows "lock_inv (snd (unlock s (Some t) i))"
proof (cases "i \<in> set (locks_of s t)")
  case True
  with assms have "lock_type i = RECORD" "owner_of s i = t" by (auto simp: lock_inv_def)
  with True assms show ?thesis
    unfolding lock_inv_def unlock_effect [OF \<open>lock_type i = RECORD\<close> True] by auto
qed (use assms in \<open>simp add: unlock_absent\<close>)

lemma lock_inv_grant:
  assumes "lock_inv s" and "lock_type i = RECORD" and "t \<noteq> INVALID_TXN_ID"
    and "owner_of s i = INVALID_TXN_ID \<or> owner_of s i = t"
  shows "lock_inv (lock_grant s t i)"
  using assms unfolding lock_inv_def grant_effect by auto

lemma lock_inv_frame:
  assumes "lock_inv s" and "locks_of s' = locks_of s" and "owner_of s' = owner_of s"
    and "pc_of s' = (pc_of s)(t := p)"
    and "pc_lock p = None \<or> pc_lock p = pc_lock (pc_of s t)
      \<or> (\<exists>i. pc_lock p = Some i \<and> lock_type i = RECORD \<and> t \<noteq> INVALID_TXN_ID)"
  shows "lock_inv s'"
proof -
  have "lock_type i = RECORD \<and> u \<noteq> INVALID_TXN_ID" if "pc_lock (pc_of s' u) = Some i" for u i
    using that assms(4,5) lock_inv_pc [OF assms(1), of u i] by (cases "u = t") auto
  then show ?thesis using assms(1-3) unfolding lock_inv_def by simp
qed

lemma lock_inv_refuse: "lock_inv s \<Longrightarrow> lock_inv (lock_refuse s t)"
  by (erule lock_inv_frame [where t = t and p = "Ready (Some False)"])
    (simp_all add: lock_refuse_def lock_frame)

lemma lock_inv_top:
  assumes inv: "lock_inv s" and pc: "pc_of s t = AtTop i"
  shows "lock_inv (lock_top s t i)"
proof -
  have i: "lock_type i = RECORD" "t \<noteq> INVALID_TXN_ID" using lock_inv_pc [OF inv, of t i] pc by simp_all
  let ?s1 = "s\<lparr>wait_for := AList.update t (owner_of s i) (wait_for s),
               waiting_on_entry := AList.update t i (waiting_on_entry s)\<rparr>"
  have upd: "lock_inv (set_pc ?s1 t p)" if "pc_lock p = Some i" for p
    by (rule lock_inv_frame [OF inv, where t = t and p = p]) (use that i in \<open>simp_all add: lock_frame\<close>)
  have fail: "lock_inv (set_pc (clear_lock_abort
      (?s1\<lparr>wait_for := a, waiting_on_entry := b\<rparr>) t) t (Ready (Some False)))" for a b
    by (rule lock_inv_frame [OF inv, where t = t and p = "Ready (Some False)"]) (simp_all add: lock_frame)
  show ?thesis
    using lock_inv_grant [OF inv i] lock_inv_refuse [OF inv] upd fail
    by (auto simp: lock_top_def Let_def split: option.splits)
qed

lemma lock_inv_step: "lock_step s t s' \<Longrightarrow> lock_inv s \<Longrightarrow> lock_inv s'"
proof (induction rule: lock_step.induct)
  case (enter s t r i)
  show ?case
    by (rule lock_inv_frame [OF enter.prems, where t = t
          and p = "if i \<in> set (locks_of s t) then Ready (Some True) else Entered i"])
      (use enter in \<open>auto simp: lock_enter_def Let_def lock_frame\<close>)
next
  case (acquire s t i)
  show ?case
    by (rule lock_inv_frame [OF acquire.prems, where t = t and p = "AtTop i"])
      (use acquire in \<open>simp_all add: lock_frame\<close>)
next
  case (top s t i)
  then show ?case by (simp add: lock_inv_top)
next
  case (mark s t i v)
  show ?case
    by (rule lock_inv_frame [OF mark.prems, where t = t and p = "PreWait i"])
      (use mark in \<open>simp_all add: lock_mark_def lock_frame\<close>)
next
  case (prewait s t i)
  have "lock_inv (set_pc s t (Waiting i))"
    by (rule lock_inv_frame [OF prewait.prems, where t = t and p = "Waiting i"])
      (use prewait in \<open>simp_all add: lock_frame\<close>)
  with prewait show ?case by (simp add: lock_prewait_def lock_inv_refuse)
next
  case (wake s t i)
  show ?case
    by (rule lock_inv_frame [OF wake.prems, where t = t and p = "Woken i"])
      (use wake in \<open>simp_all add: lock_frame\<close>)
next
  case (woken s t i)
  let ?s1 = "s\<lparr>wait_for := AList.delete t (wait_for s),
               waiting_on_entry := AList.delete t (waiting_on_entry s)\<rparr>"
  have "lock_inv (set_pc ?s1 t (AtTop i))"
    by (rule lock_inv_frame [OF woken.prems, where t = t and p = "AtTop i"])
      (use woken in \<open>simp_all add: lock_frame\<close>)
  moreover have "lock_inv ?s1"
    by (rule lock_inv_frame [OF woken.prems, where t = t and p = "pc_of s t"]) (simp_all add: lock_frame)
  ultimately show ?case by (simp add: lock_woken_def Let_def lock_inv_refuse)
next
  case (release s t r i)
  then show ?case by (simp add: lock_inv_unlock)
next
  case (finish s t r)
  show ?case
    by (rule lock_inv_frame [OF finish.prems, where t = t and p = "pc_of s t"]) (simp_all add: lock_frame)
qed

lemma lock_inv_new: "lock_inv lockmgr_new"
  by (auto simp: lock_inv_def lockmgr_new_def locks_of_def owner_of_def pc_of_def)

lemma lock_inv_reachable: "lock_reachable s \<Longrightarrow> lock_inv s"
  by (induction rule: lock_reachable.induct) (auto simp: lock_inv_new dest: lock_inv_step)

section \<open>Running the model\<close>

datatype lock_act = Enter txn_id_t LockDataId | Go txn_id_t | Release txn_id_t LockDataId

fun actor :: "lock_act \<Rightarrow> txn_id_t" where
  "actor (Enter t i) = t"
| "actor (Go t) = t"
| "actor (Release t i) = t"

definition is_ready :: "pc \<Rightarrow> bool" where
  "is_ready p \<longleftrightarrow> (case p of Ready r \<Rightarrow> True | _ \<Rightarrow> False)"

fun lock_exec :: "lock_act \<Rightarrow> lockmgr \<Rightarrow> lockmgr option" where
  "lock_exec (Enter t i) s =
     (if is_ready (pc_of s t) \<and> t \<noteq> INVALID_TXN_ID \<and> lock_type i = RECORD
      then Some (lock_enter s t i) else None)"
| "lock_exec (Release t i) s =
     (if is_ready (pc_of s t) \<and> t \<noteq> INVALID_TXN_ID \<and> mtx_free s i
      then Some (snd (unlock s (Some t) i)) else None)"
| "lock_exec (Go t) s =
     (case pc_of s t of
        Ready r \<Rightarrow> None
      | Entered i \<Rightarrow> if mtx_free s i then Some (set_pc s t (AtTop i)) else None
      | AtTop i \<Rightarrow> Some (lock_top s t i)
      | Marking i v \<Rightarrow> Some (lock_mark s t i v)
      | PreWait i \<Rightarrow> Some (lock_prewait s t i)
      | Waiting i \<Rightarrow>
          if wait_predicate s t i \<and> mtx_free s i then Some (set_pc s t (Woken i)) else None
      | Woken i \<Rightarrow> Some (lock_woken s t i))"

fun lock_run :: "lock_act list \<Rightarrow> lockmgr \<Rightarrow> lockmgr option" where
  "lock_run [] s = Some s"
| "lock_run (a # as) s = (case lock_exec a s of None \<Rightarrow> None | Some s' \<Rightarrow> lock_run as s')"

lemma is_readyD: "is_ready p \<Longrightarrow> \<exists>r. p = Ready r"
  by (auto simp: is_ready_def split: pc.splits)

lemma lock_exec_step: "lock_exec a s = Some s' \<Longrightarrow> lock_step s (actor a) s'"
  by (cases a) (auto split: if_splits pc.splits dest!: is_readyD intro: lock_step.intros)

lemma lock_run_reachable: "lock_run as s = Some s' \<Longrightarrow> lock_reachable s \<Longrightarrow> lock_reachable s'"
proof (induction as arbitrary: s)
  case (Cons a as)
  then show ?case by (auto split: option.splits dest: lock_exec_step intro: lock_reachable.step)
qed simp

lemma waiting_blocked:
  "pc_of s t = Waiting i \<Longrightarrow> \<not> wait_predicate s t i \<Longrightarrow> \<not> lock_step s t s'"
  by (auto elim: lock_stepE)

definition row :: "int \<Rightarrow> LockDataId" where
  "row n = \<lparr>lock_fd = 3, lock_rid = \<lparr>page_no = 1, slot_no = n\<rparr>, lock_type = RECORD\<rparr>"

text \<open>
  Transaction 1 holds row 0, which 2 and 3 wait for while 2 holds row 1. When 1 releases row 0, 3 takes
  it; 2 stays inside \<^verbatim>\<open>cv.wait\<close> with its edge still pointing at 1. Then 3 asks for row 1.
\<close>

definition missed_run :: "lock_act list" where
  "missed_run =
     [Enter 2 (row 1), Go 2, Go 2, Enter 1 (row 0), Go 1, Go 1,
      Enter 2 (row 0), Go 2, Go 2, Go 2, Enter 3 (row 0), Go 3, Go 3, Go 3,
      Release 1 (row 0), Go 3, Go 3, Go 3,
      Enter 3 (row 1), Go 3, Go 3, Go 3]"

definition missed_state :: lockmgr where
  "missed_state = the (lock_run missed_run lockmgr_new)"

definition held_wait_run :: "lock_act list" where
  "held_wait_run = [Enter 2 (row 1), Go 2, Go 2, Enter 1 (row 1), Go 1, Go 1, Go 1]"

definition held_wait_state :: lockmgr where
  "held_wait_state = the (lock_run held_wait_run lockmgr_new)"

section \<open>Properties\<close>


lemma held_wait_run_ok: "lock_run held_wait_run lockmgr_new = Some held_wait_state"
proof -
  have "lock_run held_wait_run lockmgr_new \<noteq> None" by code_simp
  then show ?thesis by (auto simp: held_wait_state_def)
qed


lemma unlock_all_fold:
  assumes "lock_inv s"
  shows "lock_inv (foldl (\<lambda>s' i. snd (unlock s' (Some t) i)) s is)
    \<and> set (locks_of (foldl (\<lambda>s' i. snd (unlock s' (Some t) i)) s is) t) = set (locks_of s t) - set is
    \<and> (\<forall>u. u \<noteq> t \<longrightarrow> locks_of (foldl (\<lambda>s' i. snd (unlock s' (Some t) i)) s is) u = locks_of s u)"
  using assms
proof (induction "is" arbitrary: s)
  case (Cons i "is")
  have inv: "lock_inv (snd (unlock s (Some t) i))" using Cons.prems by (rule lock_inv_unlock)
  have "locks_of (snd (unlock s (Some t) i)) = (locks_of s)(t := removeAll i (locks_of s t))"
  proof (cases "i \<in> set (locks_of s t)")
    case True
    with Cons.prems show ?thesis by (intro unlock_effect) (auto simp: lock_inv_def)
  qed (simp add: unlock_absent)
  with Cons.IH [OF inv] show ?case by auto
qed simp

text \<open>
  \<open>unlock_all\<close> at the end of a transaction releases every lock it held (no entry of the lock table
  names it as owner any more) and takes no lock away from any other transaction.
\<close>

theorem unlock_all_releases:
  assumes "lock_reachable s" and "t \<noteq> INVALID_TXN_ID"
  shows "locks_of (unlock_all s (Some t)) = (locks_of s)(t := [])
    \<and> (\<forall>i. owner_of (unlock_all s (Some t)) i \<noteq> t)"
proof -
  let ?s1 = "clear_wfg_state (clear_lock_abort s t) t"
  have inv1: "lock_inv ?s1"
    by (rule lock_inv_frame [OF lock_inv_reachable [OF assms(1)], where t = t and p = "pc_of s t"])
      (simp_all add: lock_frame)
  have eq: "unlock_all s (Some t) = foldl (\<lambda>s' i. snd (unlock s' (Some t) i)) ?s1 (locks_of ?s1 t)"
    by (simp add: unlock_all_def Let_def)
  note u = unlock_all_fold [OF inv1, of t "locks_of ?s1 t", folded eq]
  then have none: "locks_of (unlock_all s (Some t)) t = []" by simp
  have "owner_of (unlock_all s (Some t)) i \<noteq> t" for i
    using lock_inv_owner [OF conjunct1 [OF u], of i t] none assms(2) by simp
  then show ?thesis using none u by (auto simp: lock_frame fun_eq_iff)
qed

theorem unlock_all_releases_witness:
  "locks_of (unlock_all held_wait_state (Some 2)) = (locks_of held_wait_state)(2 := [])
    \<and> (\<forall>i. owner_of (unlock_all held_wait_state (Some 2)) i \<noteq> 2)"
  by (rule unlock_all_releases [OF lock_run_reachable [OF held_wait_run_ok lock_reachable.init]])
    (simp add: INVALID_TXN_ID_def)

lemma missed_run_ok: "lock_run missed_run lockmgr_new = Some missed_state"
proof -
  have "lock_run missed_run lockmgr_new \<noteq> None" by code_simp
  then show ?thesis by (auto simp: missed_state_def)
qed


end
