(* ===== verification/Disk_Manager.thy ===== *)
theory Disk_Manager
  imports Prelude "HOL-Library.Sublist"
begin

text \<open>
  The disk manager, \<^verbatim>\<open>src/src/storage/disk_manager.{h,cpp}\<close>, over a model of the POSIX calls it makes:
  regular files by path, the table of open descriptors (\<^verbatim>\<open>open\<close> returns the lowest free one),
  \<^verbatim>\<open>pread\<close>, \<^verbatim>\<open>pwrite\<close> and \<^verbatim>\<open>ftruncate\<close> with zero fill, and for the log file the image that the last
  \<^verbatim>\<open>fdatasync\<close> made durable. A \<^verbatim>\<open>pwrite\<close> to an open regular file transfers the whole request; a short
  \<^verbatim>\<open>pread\<close> happens at the end of the file and overwrites only the front of the buffer.
  Directory commands (\<^verbatim>\<open>create_dir\<close>, \<^verbatim>\<open>destroy_dir\<close>, \<^verbatim>\<open>is_dir\<close>) run shell commands and are left out.
\<close>

section \<open>The operating system's files\<close>

record disk =
  fs :: "(string \<times> bytes) list"
  os_open :: "(int \<times> string) list"
  path2fd :: "string \<rightharpoonup> int"
  fd2path :: "int \<rightharpoonup> string"
  fd2pageno :: "int \<Rightarrow> page_id_t"
  log_fd :: int
  log_prealloc_end :: int
  log_synced :: bytes

definition LOG_FILE_NAME :: string where
  "LOG_FILE_NAME = ''db.log''"

definition MAX_FD :: int where
  "MAX_FD = 8192"

definition LOG_PREALLOC_CHUNK :: int where
  "LOG_PREALLOC_CHUNK = 16 * 2 ^ 20"

definition file_of :: "disk \<Rightarrow> int \<Rightarrow> bytes option" where
  "file_of d fd = (case map_of (os_open d) fd of None \<Rightarrow> None | Some p \<Rightarrow> map_of (fs d) p)"

definition set_file :: "disk \<Rightarrow> int \<Rightarrow> bytes \<Rightarrow> disk" where
  "set_file d fd c =
     (case map_of (os_open d) fd of
        None \<Rightarrow> d
      | Some p \<Rightarrow> d\<lparr>fs := map (\<lambda>(q, c'). (q, if q = p then c else c')) (fs d)\<rparr>)"

definition put_at :: "nat \<Rightarrow> bytes \<Rightarrow> bytes \<Rightarrow> bytes" where
  "put_at off bs c =
     take off (c @ replicate (off - length c) 0) @ bs @ drop (off + length bs) c"

text \<open>The calls return the number of bytes transferred, -1 for an error.\<close>

definition pwrite :: "disk \<Rightarrow> int \<Rightarrow> bytes \<Rightarrow> int \<Rightarrow> int \<times> disk" where
  "pwrite d fd bs pos =
     (case file_of d fd of
        None \<Rightarrow> (-1, d)
      | Some c \<Rightarrow> if pos < 0 then (-1, d)
                  else (int (length bs), if bs = [] then d else set_file d fd (put_at (nat pos) bs c)))"

definition pread :: "disk \<Rightarrow> int \<Rightarrow> bytes \<Rightarrow> nat \<Rightarrow> int \<Rightarrow> int \<times> bytes" where
  "pread d fd buf n pos =
     (case file_of d fd of
        None \<Rightarrow> (-1, buf)
      | Some c \<Rightarrow> if pos < 0 then (-1, buf)
                  else let got = rd (nat pos) n c in (int (length got), wr 0 got buf))"

definition ftruncate :: "disk \<Rightarrow> int \<Rightarrow> int \<Rightarrow> int \<times> disk" where
  "ftruncate d fd len =
     (case file_of d fd of
        None \<Rightarrow> (-1, d)
      | Some c \<Rightarrow> if len < 0 then (-1, d)
                  else (0, set_file d fd (take (nat len) c @ replicate (nat len - length c) 0)))"

definition lowest_free_fd :: "disk \<Rightarrow> int" where
  "lowest_free_fd d =
     int (hd (filter (\<lambda>n. int n \<notin> fst ` set (os_open d)) [3..<4 + length (os_open d)]))"

section \<open>Pages\<close>

definition disk_new :: "(string \<times> bytes) list \<Rightarrow> disk" where
  "disk_new files = \<lparr>fs = files, os_open = [], path2fd = Map.empty, fd2path = Map.empty,
     fd2pageno = (\<lambda>_. 0), log_fd = -1, log_prealloc_end = 0, log_synced = []\<rparr>"

definition write_page :: "disk \<Rightarrow> int \<Rightarrow> page_id_t \<Rightarrow> bytes \<Rightarrow> db_error option \<times> disk" where
  "write_page d fd pno bs =
     (let pos = pno * int PAGE_SIZE; (n, d') = pwrite d fd bs pos
      in if n \<noteq> int (length bs) then (Some (InternalError ''DiskManager::write_page Error''), d')
         else (None, d'))"

definition read_page :: "disk \<Rightarrow> int \<Rightarrow> page_id_t \<Rightarrow> bytes \<Rightarrow> nat \<Rightarrow> db_error option \<times> bytes" where
  "read_page d fd pno buf n =
     (let pos = pno * int PAGE_SIZE; (k, buf') = pread d fd buf n pos
      in if k \<noteq> int n then (Some (InternalError ''DiskManager::read_page Error''), buf')
         else (None, buf'))"

definition allocate_page :: "disk \<Rightarrow> int \<Rightarrow> db_error + page_id_t \<times> disk" where
  "allocate_page d fd =
     (if 0 \<le> fd \<and> fd < MAX_FD
      then Inr (fd2pageno d fd, d\<lparr>fd2pageno := (fd2pageno d)(fd := fd2pageno d fd + 1)\<rparr>)
      else Inl AssertionFailure)"

definition set_fd2pageno :: "disk \<Rightarrow> int \<Rightarrow> page_id_t \<Rightarrow> disk" where
  "set_fd2pageno d fd n = d\<lparr>fd2pageno := (fd2pageno d)(fd := n)\<rparr>"

definition get_fd2pageno :: "disk \<Rightarrow> int \<Rightarrow> page_id_t" where
  "get_fd2pageno d fd = fd2pageno d fd"

section \<open>Files\<close>

definition is_file :: "disk \<Rightarrow> string \<Rightarrow> bool" where
  "is_file d path \<longleftrightarrow> map_of (fs d) path \<noteq> None"

definition create_file :: "disk \<Rightarrow> string \<Rightarrow> db_error + disk" where
  "create_file d path =
     (if is_file d path then Inl (FileExistsError path)
      else Inr (d\<lparr>fs := (path, []) # fs d\<rparr>))"

definition destroy_file :: "disk \<Rightarrow> string \<Rightarrow> db_error + disk" where
  "destroy_file d path =
     (if path2fd d path \<noteq> None then Inl (FileNotClosedError path)
      else if \<not> is_file d path then Inl (FileNotFoundError path)
      else Inr (d\<lparr>fs := filter (\<lambda>(p, _). p \<noteq> path) (fs d)\<rparr>))"

definition open_file :: "disk \<Rightarrow> string \<Rightarrow> db_error + int \<times> disk" where
  "open_file d path =
     (if \<not> is_file d path then Inl (FileNotFoundError path)
      else case path2fd d path of
        Some fd \<Rightarrow> Inr (fd, d)
      | None \<Rightarrow>
          let fd = lowest_free_fd d
          in Inr (fd, d\<lparr>os_open := (fd, path) # os_open d, path2fd := (path2fd d)(path \<mapsto> fd),
                        fd2path := (fd2path d)(fd \<mapsto> path)\<rparr>))"

definition close_file :: "disk \<Rightarrow> int \<Rightarrow> db_error + disk" where
  "close_file d fd =
     (case fd2path d fd of
        None \<Rightarrow> Inl (FileNotOpenError fd)
      | Some path \<Rightarrow>
          if map_of (os_open d) fd = None then Inl UnixError
          else Inr (d\<lparr>os_open := filter (\<lambda>(f, _). f \<noteq> fd) (os_open d),
                      path2fd := (path2fd d)(path := None), fd2path := (fd2path d)(fd := None)\<rparr>))"

text \<open>The size comes back through a 32-bit \<^verbatim>\<open>int\<close>.\<close>

definition get_file_size :: "disk \<Rightarrow> string \<Rightarrow> int" where
  "get_file_size d path =
     (case map_of (fs d) path of
        None \<Rightarrow> -1
      | Some c \<Rightarrow> sint (word_of_nat (length c) :: 32 word))"

definition get_file_name :: "disk \<Rightarrow> int \<Rightarrow> db_error + string" where
  "get_file_name d fd = (case fd2path d fd of None \<Rightarrow> Inl (FileNotOpenError fd) | Some p \<Rightarrow> Inr p)"

definition get_file_fd :: "disk \<Rightarrow> string \<Rightarrow> db_error + int \<times> disk" where
  "get_file_fd d path = (case path2fd d path of None \<Rightarrow> open_file d path | Some fd \<Rightarrow> Inr (fd, d))"

section \<open>Log file\<close>

definition open_log :: "disk \<Rightarrow> db_error + disk" where
  "open_log d =
     (if log_fd d = -1
      then and_then (open_file d LOG_FILE_NAME) (\<lambda>(fd, d').
             let n = get_file_size d' LOG_FILE_NAME; d'' = d'\<lparr>log_fd := fd\<rparr>
             in Inr (if 0 < n then d''\<lparr>log_prealloc_end := n\<rparr> else d''))
      else Inr d)"

definition ensure_log_capacity :: "disk \<Rightarrow> int \<Rightarrow> db_error + disk" where
  "ensure_log_capacity d need_end =
     and_then (open_log d) (\<lambda>d.
       if need_end \<le> log_prealloc_end d then Inr d
       else let new_end = (need_end div LOG_PREALLOC_CHUNK + 1) * LOG_PREALLOC_CHUNK;
                (rc, d') = ftruncate d (log_fd d) new_end
            in if rc \<noteq> 0 then Inl UnixError else Inr (d'\<lparr>log_prealloc_end := new_end\<rparr>))"

definition reset_log_prealloc :: "disk \<Rightarrow> int \<Rightarrow> db_error + disk" where
  "reset_log_prealloc d sz =
     (if log_fd d = -1 \<and> \<not> is_file d LOG_FILE_NAME then Inr d
      else and_then (if log_fd d = -1
                     then and_then (open_file d LOG_FILE_NAME) (\<lambda>(fd, d'). Inr (d'\<lparr>log_fd := fd\<rparr>))
                     else Inr d)
             (\<lambda>d. let (rc, d') = ftruncate d (log_fd d) sz
                  in if rc \<noteq> 0 then Inl UnixError else Inr (d'\<lparr>log_prealloc_end := sz\<rparr>)))"

definition write_log :: "disk \<Rightarrow> bytes \<Rightarrow> int \<Rightarrow> db_error + disk" where
  "write_log d bs off =
     and_then (open_log d) (\<lambda>d.
       and_then (ensure_log_capacity d (off + int (length bs))) (\<lambda>d.
         if bs = [] then Inr d
         else let (n, d') = pwrite d (log_fd d) bs off
              in if n < 0 then Inl UnixError else Inr d'))"

definition sync_log :: "disk \<Rightarrow> db_error + disk" where
  "sync_log d =
     (if log_fd d = -1 then Inr d
      else case file_of d (log_fd d) of
        None \<Rightarrow> Inl UnixError
      | Some c \<Rightarrow> Inr (d\<lparr>log_synced := c\<rparr>))"

text \<open>
  \<open>read_log\<close> returns the number of bytes read (-1 past the end) and the bytes. The \<^verbatim>\<open>min\<close> and the
  subtraction are on \<^verbatim>\<open>int\<close>s; a failed \<^verbatim>\<open>assert\<close> on the byte count is an error.
\<close>

definition read_log :: "disk \<Rightarrow> int \<Rightarrow> int \<Rightarrow> db_error + int \<times> bytes \<times> disk" where
  "read_log d sz off =
     and_then (open_log d) (\<lambda>d.
       let file_size = get_file_size d LOG_FILE_NAME
       in if file_size < off then Inr (-1, [], d)
          else let sz' = min sz (file_size - off)
               in if sz' = 0 then Inr (0, [], d)
                  else let (k, bs) = pread d (log_fd d) (replicate (nat sz') 0) (nat sz') off
                       in if k \<noteq> sz' then Inl AssertionFailure else Inr (k, bs, d))"

section \<open>Facts about files\<close>

lemma map_of_replace:
  "map_of (map (\<lambda>(q, c'). (q, if q = p then c else c')) xs) =
     (\<lambda>q. if q = p \<and> map_of xs q \<noteq> None then Some c else map_of xs q)"
  by (induction xs) (auto simp: fun_eq_iff)

lemma set_file_frame [simp]:
  "os_open (set_file d fd c) = os_open d" "path2fd (set_file d fd c) = path2fd d"
  "fd2path (set_file d fd c) = fd2path d" "fd2pageno (set_file d fd c) = fd2pageno d"
  "log_fd (set_file d fd c) = log_fd d" "log_prealloc_end (set_file d fd c) = log_prealloc_end d"
  "log_synced (set_file d fd c) = log_synced d"
  by (simp_all add: set_file_def split: option.splits)

lemma map_of_fs_set_file:
  "map_of (fs (set_file d fd c)) p =
     (if map_of (os_open d) fd = Some p \<and> map_of (fs d) p \<noteq> None then Some c else map_of (fs d) p)"
  by (auto simp: set_file_def map_of_replace split: option.splits)

lemma file_of_set_file:
  assumes "file_of d fd = Some c0"
  shows "file_of (set_file d fd c) g =
    (if map_of (os_open d) g = map_of (os_open d) fd then Some c else file_of d g)"
  using assms by (auto simp: file_of_def map_of_fs_set_file split: option.splits)

lemma length_put_at: "length (put_at off bs c) = max (length c) (off + length bs)"
  by (auto simp: put_at_def max_def)

lemma rd_put_at_same: "rd off (length bs) (put_at off bs c) = bs"
  by (simp add: rd_def put_at_def)

lemma rd_put_at_other:
  assumes "o' + n \<le> off \<or> off + length bs \<le> o'" and "o' + n \<le> length c"
  shows "rd o' n (put_at off bs c) = rd o' n c"
proof (cases "off \<le> length c")
  case True
  have eq: "put_at off bs c = take off c @ bs @ drop (off + length bs) c"
    using True by (simp add: put_at_def)
  show ?thesis
  proof (cases "o' + n \<le> off")
    case True
    then have le: "n \<le> off - o'" by arith
    have "take n (drop o' (take off c)) = take n (drop o' c)" using le by (simp add: drop_take)
    with le \<open>off \<le> length c\<close> show ?thesis by (simp add: rd_def eq)
  next
    case False
    then have "drop o' (put_at off bs c) = drop o' c"
      using assms True by (simp add: eq)
    then show ?thesis by (simp add: rd_def)
  qed
next
  case False
  then have "put_at off bs c = c @ replicate (off - length c) 0 @ bs"
    by (simp add: put_at_def)
  with assms(2) show ?thesis by (simp add: rd_def)
qed

section \<open>Descriptor tables\<close>

text \<open>
  The two maps of the disk manager and the system's descriptor table agree, every open descriptor
  refers to an existing file, and no file is open under two descriptors.
\<close>

definition disk_inv :: "disk \<Rightarrow> bool" where
  "disk_inv d \<longleftrightarrow>
     distinct (map fst (fs d)) \<and> distinct (map fst (os_open d))
     \<and> (\<forall>fd p. map_of (os_open d) fd = Some p \<longrightarrow> 0 \<le> fd)
     \<and> (\<forall>fd p. map_of (os_open d) fd = Some p \<longrightarrow> map_of (fs d) p \<noteq> None)
     \<and> (\<forall>fd p. fd2path d fd = Some p \<longleftrightarrow> map_of (os_open d) fd = Some p)
     \<and> (\<forall>fd p. path2fd d p = Some fd \<longleftrightarrow> map_of (os_open d) fd = Some p)"

lemma disk_inv_new: "distinct (map fst files) \<Longrightarrow> disk_inv (disk_new files)"
  by (simp add: disk_inv_def disk_new_def)

lemma disk_invI:
  assumes "distinct (map fst (fs d))" and "distinct (map fst (os_open d))"
    and "\<And>fd p. map_of (os_open d) fd = Some p \<Longrightarrow> 0 \<le> fd"
    and "\<And>fd p. map_of (os_open d) fd = Some p \<Longrightarrow> map_of (fs d) p \<noteq> None"
    and "\<And>fd p. fd2path d fd = Some p \<longleftrightarrow> map_of (os_open d) fd = Some p"
    and "\<And>fd p. path2fd d p = Some fd \<longleftrightarrow> map_of (os_open d) fd = Some p"
  shows "disk_inv d"
  unfolding disk_inv_def using assms by blast

lemma disk_inv_fs: "disk_inv d \<Longrightarrow> distinct (map fst (fs d))"
  and disk_inv_os: "disk_inv d \<Longrightarrow> distinct (map fst (os_open d))"
  and disk_inv_fd: "disk_inv d \<Longrightarrow> map_of (os_open d) fd = Some p \<Longrightarrow> 0 \<le> fd"
  and disk_inv_file: "disk_inv d \<Longrightarrow> map_of (os_open d) fd = Some p \<Longrightarrow> map_of (fs d) p \<noteq> None"
  and disk_inv_fd2path: "disk_inv d \<Longrightarrow> fd2path d fd = Some p \<longleftrightarrow> map_of (os_open d) fd = Some p"
  and disk_inv_path2fd: "disk_inv d \<Longrightarrow> path2fd d p = Some fd \<longleftrightarrow> map_of (os_open d) fd = Some p"
  unfolding disk_inv_def by blast+

lemma disk_inv_inj:
  "disk_inv d \<Longrightarrow> map_of (os_open d) fd = Some p \<Longrightarrow> map_of (os_open d) fd' = Some p \<Longrightarrow> fd = fd'"
  using disk_inv_path2fd [of d p fd] disk_inv_path2fd [of d p fd'] by simp

lemma map_of_filter_neq: "map_of (filter (\<lambda>(f, _). f \<noteq> k) xs) = (map_of xs)(k := None)"
  by (induction xs) (auto simp: fun_eq_iff)

lemma lowest_free_fd_fresh: "map_of (os_open d) (lowest_free_fd d) = None"
proof -
  let ?K = "fst ` set (os_open d)"
  let ?l = "filter (\<lambda>n. int n \<notin> ?K) [3..<4 + length (os_open d)]"
  have "?l \<noteq> []"
  proof
    assume "?l = []"
    then have "int ` {3..<4 + length (os_open d)} \<subseteq> ?K" by (auto simp: filter_empty_conv)
    then have "card (int ` {3..<4 + length (os_open d)}) \<le> card ?K" by (intro card_mono) auto
    moreover have "card (int ` {3..<4 + length (os_open d)}) = Suc (length (os_open d))"
      by (subst card_image) auto
    moreover have "card ?K \<le> length (os_open d)"
      using card_image_le [of "set (os_open d)" fst] card_length [of "os_open d"] by simp
    ultimately show False by simp
  qed
  then have "hd ?l \<in> set ?l" by (rule hd_in_set)
  then show ?thesis by (simp add: lowest_free_fd_def map_of_eq_None_iff)
qed

lemma lowest_free_fd_ge: "0 \<le> lowest_free_fd d"
  by (simp add: lowest_free_fd_def)

lemma disk_inv_create:
  assumes "disk_inv d" and "create_file d p = Inr d'"
  shows "disk_inv d'"
proof -
  have d': "d' = d\<lparr>fs := (p, []) # fs d\<rparr>" and p: "map_of (fs d) p = None"
    using assms(2) by (auto simp: create_file_def is_file_def split: if_splits)
  show ?thesis
  proof (rule disk_invI)
    show "map_of (fs d') q \<noteq> None" if "map_of (os_open d') fd = Some q" for fd q
      using that disk_inv_file [OF assms(1), of fd q] by (simp add: d')
    show "0 \<le> fd" if "map_of (os_open d') fd = Some q" for fd q
      using that disk_inv_fd [OF assms(1), of fd q] by (simp add: d')
  qed (use assms(1) p in \<open>simp_all add: d' disk_inv_fs disk_inv_os disk_inv_fd2path disk_inv_path2fd
         map_of_eq_None_iff del: map_of_eq_Some_iff\<close>)
qed

lemma disk_inv_destroy:
  assumes "disk_inv d" and "destroy_file d p = Inr d'"
  shows "disk_inv d'"
proof -
  have d': "d' = d\<lparr>fs := filter (\<lambda>(q, _). q \<noteq> p) (fs d)\<rparr>" and p: "path2fd d p = None"
    using assms(2) by (auto simp: destroy_file_def split: if_splits)
  have ne: "q \<noteq> p" if "map_of (os_open d) fd = Some q" for fd q
    using disk_inv_path2fd [OF assms(1), of q fd] that p by auto
  show ?thesis unfolding d'
  proof (rule disk_invI)
    show "distinct (map fst (fs (d\<lparr>fs := filter (\<lambda>(q, _). q \<noteq> p) (fs d)\<rparr>)))"
      using disk_inv_fs [OF assms(1)] by (simp add: distinct_map_filter)
  next
    fix fd q
    assume "map_of (os_open (d\<lparr>fs := filter (\<lambda>(q, _). q \<noteq> p) (fs d)\<rparr>)) fd = Some q"
    then have "map_of (os_open d) fd = Some q" by simp
    then show "map_of (fs (d\<lparr>fs := filter (\<lambda>(q, _). q \<noteq> p) (fs d)\<rparr>)) q \<noteq> None"
      using ne disk_inv_file [OF assms(1)] by (simp add: map_of_filter_neq del: map_of_eq_Some_iff)
  qed (use assms(1) in \<open>simp_all add: disk_inv_os disk_inv_fd2path disk_inv_path2fd disk_inv_fd del: map_of_eq_Some_iff\<close>)
qed

lemma disk_inv_open:
  assumes inv: "disk_inv d" and op: "open_file d p = Inr (fd, d')"
  shows "disk_inv d' \<and> map_of (os_open d') fd = Some p"
proof (cases "path2fd d p")
  case (Some g)
  then have "fd = g \<and> d' = d" using op by (simp add: open_file_def split: if_splits)
  with Some inv show ?thesis by (simp add: disk_inv_path2fd del: map_of_eq_Some_iff)
next
  case None
  have fd: "fd = lowest_free_fd d" and ex: "map_of (fs d) p \<noteq> None"
    and d': "d' = d\<lparr>os_open := (fd, p) # os_open d, path2fd := (path2fd d)(p \<mapsto> fd),
                    fd2path := (fd2path d)(fd \<mapsto> p)\<rparr>"
    using op None by (auto simp: open_file_def is_file_def Let_def split: if_splits)
  have fresh: "map_of (os_open d) fd = None" unfolding fd by (rule lowest_free_fd_fresh)
  then have nk: "fd \<notin> fst ` set (os_open d)" by (simp add: map_of_eq_None_iff)
  have np: "map_of (os_open d) g \<noteq> Some p" for g
    using disk_inv_path2fd [OF inv, of p g] None by simp
  have "((path2fd d)(p \<mapsto> fd)) q = Some g \<longleftrightarrow> map_of ((fd, p) # os_open d) g = Some q" for q g
    using disk_inv_path2fd [OF inv, of q g] np [of g] fresh by auto
  moreover have "((fd2path d)(fd \<mapsto> p)) g = Some q \<longleftrightarrow> map_of ((fd, p) # os_open d) g = Some q" for q g
    using disk_inv_fd2path [OF inv, of g q] by auto
  moreover have "map_of (fs d) q \<noteq> None" if "map_of ((fd, p) # os_open d) g = Some q" for g q
    using that ex disk_inv_file [OF inv, of g q] by (cases "g = fd") auto
  moreover have "0 \<le> g" if "map_of ((fd, p) # os_open d) g = Some q" for g q
    using that lowest_free_fd_ge [of d] disk_inv_fd [OF inv, of g q] by (cases "g = fd") (auto simp: fd)
  ultimately have "disk_inv d'"
    unfolding d' by (intro disk_invI) (use inv nk in \<open>simp_all add: disk_inv_fs disk_inv_os\<close>)
  then show ?thesis by (simp add: d')
qed

lemma disk_inv_close:
  assumes inv: "disk_inv d" and cl: "close_file d fd = Inr d'"
  shows "disk_inv d'"
proof -
  obtain p where p: "fd2path d fd = Some p"
    and d': "d' = d\<lparr>os_open := filter (\<lambda>(f, _). f \<noteq> fd) (os_open d),
                    path2fd := (path2fd d)(p := None), fd2path := (fd2path d)(fd := None)\<rparr>"
    using cl by (auto simp: close_file_def split: option.splits if_splits)
  have op: "map_of (os_open d) fd = Some p" using disk_inv_fd2path [OF inv, of fd p] p by simp
  have inj: "g = fd" if "map_of (os_open d) g = Some p" for g using disk_inv_inj [OF inv that op] .
  have os: "map_of (os_open d') = (map_of (os_open d))(fd := None)" by (simp add: d' map_of_filter_neq)
  show ?thesis
  proof (rule disk_invI)
    fix g q
    show "path2fd d' q = Some g \<longleftrightarrow> map_of (os_open d') g = Some q"
    proof (cases "q = p")
      case True
      then show ?thesis using inj [of g] unfolding os by (auto simp: d')
    next
      case False
      then have "map_of (os_open d) fd \<noteq> Some q" using op by simp
      then have "((map_of (os_open d))(fd := None)) g = Some q \<longleftrightarrow> map_of (os_open d) g = Some q"
        by auto
      then show ?thesis using disk_inv_path2fd [OF inv, of q g] False unfolding os by (simp add: d')
    qed
    show "fd2path d' g = Some q \<longleftrightarrow> map_of (os_open d') g = Some q"
      using disk_inv_fd2path [OF inv, of g q] unfolding os by (simp add: d')
    show "map_of (fs d') q \<noteq> None" if "map_of (os_open d') g = Some q"
      using that disk_inv_file [OF inv, of g q] unfolding os by (simp add: d' split: if_splits)
    show "0 \<le> g" if "map_of (os_open d') g = Some q"
      using that disk_inv_fd [OF inv, of g q] unfolding os by (simp split: if_splits)
  qed (use inv in \<open>simp_all add: d' disk_inv_fs disk_inv_os distinct_map_filter\<close>)
qed

lemma disk_inv_set_file: "disk_inv d \<Longrightarrow> disk_inv (set_file d fd c)"
proof (rule disk_invI)
  assume inv: "disk_inv d"
  have "fst \<circ> (\<lambda>(q, c'). (q, if q = p then c else c')) = (fst :: string \<times> bytes \<Rightarrow> string)" for p
    by (auto simp: fun_eq_iff)
  then have "map fst (fs (set_file d fd c)) = map fst (fs d)"
    by (simp add: set_file_def split: option.splits)
  then show "distinct (map fst (fs (set_file d fd c)))" using disk_inv_fs [OF inv] by simp
  show "map_of (fs (set_file d fd c)) q \<noteq> None" if "map_of (os_open (set_file d fd c)) g = Some q" for g q
    using that disk_inv_file [OF inv, of g q] by (simp add: map_of_fs_set_file)
qed (simp_all add: disk_inv_os disk_inv_fd2path disk_inv_path2fd disk_inv_fd del: map_of_eq_Some_iff)

lemma disk_inv_pwrite: "disk_inv d \<Longrightarrow> disk_inv (snd (pwrite d fd bs pos))"
  by (auto simp: pwrite_def disk_inv_set_file split: option.splits)

lemma disk_inv_write_page: "disk_inv d \<Longrightarrow> disk_inv (snd (write_page d fd pno bs))"
  using disk_inv_pwrite [of d fd bs "pno * int PAGE_SIZE"]
  by (auto simp: write_page_def Let_def split: prod.splits)

section \<open>Pages on disk\<close>

definition disk_page :: "disk \<Rightarrow> int \<Rightarrow> page_id_t \<Rightarrow> bytes option" where
  "disk_page d fd pno =
     (case file_of d fd of
        None \<Rightarrow> None
      | Some c \<Rightarrow> if 0 \<le> pno \<and> (nat pno + 1) * PAGE_SIZE \<le> length c
                  then Some (rd (nat pno * PAGE_SIZE) PAGE_SIZE c) else None)"

lemma page_offset: "0 \<le> pno \<Longrightarrow> nat (pno * int PAGE_SIZE) = nat pno * PAGE_SIZE"
  by (simp add: nat_mult_distrib)

lemma PAGE_SIZE_pos [simp]: "0 < PAGE_SIZE"
  by (simp add: PAGE_SIZE_def)

lemma rd_short: "length (rd off n c) = n \<longleftrightarrow> n = 0 \<or> off + n \<le> length c"
  by (auto simp: rd_def)

lemma wr_whole: "length bs = length buf \<Longrightarrow> wr 0 bs buf = bs"
  by (simp add: wr_def)

lemma read_page_ok:
  assumes "length buf = PAGE_SIZE" and "disk_page d fd pno = Some x"
  shows "read_page d fd pno buf PAGE_SIZE = (None, x)"
  using assms
  by (auto simp: read_page_def pread_def disk_page_def Let_def page_offset wr_whole mult_less_0_iff
      algebra_simps split: option.splits if_splits)

lemma read_page_fail:
  assumes "disk_page d fd pno = None"
  shows "fst (read_page d fd pno buf PAGE_SIZE) = Some (InternalError ''DiskManager::read_page Error'')"
proof -
  have neg: "pno * int PAGE_SIZE < 0 \<longleftrightarrow> pno < 0" by (simp add: mult_less_0_iff)
  show ?thesis
    using assms rd_short [of "nat pno * PAGE_SIZE" PAGE_SIZE]
    by (auto simp: read_page_def pread_def disk_page_def Let_def page_offset neg algebra_simps
        split: option.splits if_splits)
qed

lemma write_page_ok:
  assumes "file_of d fd \<noteq> None" and "0 \<le> pno" and "length bs = PAGE_SIZE"
  shows "write_page d fd pno bs =
    (None, set_file d fd (put_at (nat pno * PAGE_SIZE) bs (the (file_of d fd))))"
proof -
  have "bs \<noteq> []" using assms(3) PAGE_SIZE_pos by (metis length_0_conv less_irrefl)
  then show ?thesis
    using assms by (auto simp: write_page_def pwrite_def page_offset Let_def mult_less_0_iff)
qed

lemma disk_page_write_same:
  assumes "file_of d fd = Some c" and "0 \<le> pno" and "length bs = PAGE_SIZE"
  shows "disk_page (set_file d fd (put_at (nat pno * PAGE_SIZE) bs c)) fd pno = Some bs"
  using assms rd_put_at_same [of "nat pno * PAGE_SIZE" bs c]
  by (simp add: disk_page_def file_of_set_file length_put_at)

lemma page_regions_disjoint: "p \<noteq> q \<Longrightarrow> p * s + s \<le> q * s \<or> q * s + s \<le> (p::nat) * s"
proof -
  assume "p \<noteq> q"
  then have "Suc p \<le> q \<or> Suc q \<le> p" by arith
  then have "Suc p * s \<le> q * s \<or> Suc q * s \<le> p * s" using mult_le_mono1 by blast
  then show ?thesis by (simp add: add.commute)
qed

lemma disk_page_write_other:
  assumes inv: "disk_inv d" and f: "file_of d fd = Some c" and "0 \<le> pno" and "length bs = PAGE_SIZE"
    and other: "(g, q) \<noteq> (fd, pno)" and pg: "disk_page d g q = Some x"
  shows "disk_page (set_file d fd (put_at (nat pno * PAGE_SIZE) bs c)) g q = Some x"
proof (cases "g = fd")
  case True
  have q: "0 \<le> q" "(nat q + 1) * PAGE_SIZE \<le> length c" "x = rd (nat q * PAGE_SIZE) PAGE_SIZE c"
    using pg f True by (auto simp: disk_page_def split: if_splits)
  have "nat q \<noteq> nat pno" using other True q(1) assms(3) by auto
  then have "rd (nat q * PAGE_SIZE) PAGE_SIZE (put_at (nat pno * PAGE_SIZE) bs c) = x"
    unfolding q(3) using page_regions_disjoint [of "nat q" "nat pno" PAGE_SIZE] q(2) assms(4)
    by (intro rd_put_at_other) (auto simp: algebra_simps)
  with q True f show ?thesis by (simp add: disk_page_def file_of_set_file length_put_at)
next
  case False
  have "map_of (os_open d) g \<noteq> map_of (os_open d) fd"
    using False f disk_inv_inj [OF inv] by (auto simp: file_of_def split: option.splits)
  with pg f show ?thesis by (simp add: disk_page_def file_of_set_file)
qed

section \<open>The log file as a device\<close>

text \<open>
  What the log manager relies on: a write at the end of a known prefix extends the prefix and
  leaves the durable image alone, a sync makes the whole content durable.
\<close>

locale log_device =
  fixes wlog :: "'d \<Rightarrow> bytes \<Rightarrow> int \<Rightarrow> 'e + 'd" and slog :: "'d \<Rightarrow> 'e + 'd"
    and content :: "'d \<Rightarrow> bytes" and durable :: "'d \<Rightarrow> bytes" and ready :: "'d \<Rightarrow> bool" and opened :: "'d \<Rightarrow> bool"
  assumes write_law: "ready d \<Longrightarrow> prefix p (content d) \<Longrightarrow>
      \<exists>d'. wlog d bs (int (length p)) = Inr d' \<and> ready d' \<and> opened d' \<and> prefix (p @ bs) (content d')
        \<and> durable d' = durable d"
    and sync_law: "ready d \<Longrightarrow> opened d \<Longrightarrow>
      \<exists>d'. slog d = Inr d' \<and> ready d' \<and> opened d' \<and> content d' = content d \<and> durable d' = content d"
begin

lemma writeE:
  assumes "ready d" and "prefix p (content d)" and "off = int (length p)"
  obtains d' where "wlog d bs off = Inr d'" and "ready d'" and "opened d'"
    and "prefix (p @ bs) (content d')" and "durable d' = durable d"
  using write_law [OF assms(1,2), of bs] assms(3) by blast

lemma syncE:
  assumes "ready d" and "opened d" and "prefix p (content d)"
  obtains d' where "slog d = Inr d'" and "ready d'" and "opened d'" and "prefix p (content d')"
    and "prefix p (durable d')"
  using sync_law [OF assms(1,2)] assms(3) by auto

lemma append_durable:
  assumes "ready d" and "prefix p (content d)"
  shows "\<exists>d1 d2 d3. wlog d h (int (length p)) = Inr d1 \<and> wlog d1 b (int (length (p @ h))) = Inr d2
    \<and> slog d2 = Inr d3 \<and> ready d3 \<and> prefix (p @ h @ b) (durable d3)"
proof -
  obtain d1 where 1: "wlog d h (int (length p)) = Inr d1" "ready d1" "prefix (p @ h) (content d1)"
    using writeE [OF assms refl] by metis
  obtain d2 where 2: "wlog d1 b (int (length (p @ h))) = Inr d2" "ready d2" "opened d2"
      "prefix ((p @ h) @ b) (content d2)"
    using writeE [OF 1(2,3) refl] by metis
  then show ?thesis using 1 syncE [OF 2(2,3,4)] by (metis append.assoc)
qed

end

definition log_content :: "disk \<Rightarrow> bytes" where
  "log_content d = (case map_of (fs d) LOG_FILE_NAME of None \<Rightarrow> [] | Some c \<Rightarrow> c)"

definition log_ready :: "disk \<Rightarrow> bool" where
  "log_ready d \<longleftrightarrow> disk_inv d \<and> is_file d LOG_FILE_NAME
     \<and> (log_fd d = -1 \<or> map_of (os_open d) (log_fd d) = Some LOG_FILE_NAME)"

definition log_opened :: "disk \<Rightarrow> bool" where
  "log_opened d \<longleftrightarrow> log_fd d \<noteq> -1 \<and> map_of (os_open d) (log_fd d) = Some LOG_FILE_NAME"

lemma disk_inv_log_fields:
  "disk_inv (d\<lparr>log_fd := n\<rparr>) = disk_inv d" "disk_inv (d\<lparr>log_prealloc_end := k\<rparr>) = disk_inv d"
  "disk_inv (d\<lparr>log_synced := c\<rparr>) = disk_inv d"
  by (simp_all add: disk_inv_def)

lemma open_file_frame:
  "open_file d p = Inr (fd, d') \<Longrightarrow> fs d' = fs d \<and> log_synced d' = log_synced d \<and> log_prealloc_end d' = log_prealloc_end d"
  by (auto simp: open_file_def Let_def split: if_splits option.splits)

lemma open_log_ready:
  assumes "log_ready d"
  shows "\<exists>d'. open_log d = Inr d' \<and> disk_inv d' \<and> log_opened d' \<and> fs d' = fs d \<and> log_synced d' = log_synced d"
proof (cases "log_fd d = -1")
  case False
  with assms show ?thesis by (simp add: open_log_def log_ready_def log_opened_def del: map_of_eq_Some_iff)
next
  case True
  obtain fd d' where op: "open_file d LOG_FILE_NAME = Inr (fd, d')"
    using assms by (cases "path2fd d LOG_FILE_NAME") (auto simp: open_file_def log_ready_def Let_def)
  have "disk_inv d'" "map_of (os_open d') fd = Some LOG_FILE_NAME"
    using disk_inv_open [OF _ op] assms by (simp_all add: log_ready_def del: map_of_eq_Some_iff)
  moreover have "fd \<noteq> -1" using disk_inv_fd [OF calculation] by simp
  ultimately show ?thesis
    using open_file_frame [OF op] True op
    by (simp add: open_log_def Let_def log_opened_def disk_inv_log_fields del: map_of_eq_Some_iff)
qed

lemma log_opened_file: "disk_inv d \<Longrightarrow> log_opened d \<Longrightarrow> file_of d (log_fd d) = Some (log_content d)"
  using disk_inv_file [of d "log_fd d" LOG_FILE_NAME]
  by (auto simp: log_opened_def file_of_def log_content_def)

lemma log_content_set_file:
  "disk_inv d \<Longrightarrow> log_opened d \<Longrightarrow> log_content (set_file d (log_fd d) c) = c"
  using log_opened_file [of d]
  by (auto simp: log_content_def map_of_fs_set_file log_opened_def file_of_def split: option.splits)

lemma ftruncate_log:
  assumes "disk_inv d" and "log_opened d" and "prefix p (log_content d)" and "int (length p) \<le> n"
  shows "\<exists>d'. ftruncate d (log_fd d) n = (0, d') \<and> disk_inv d' \<and> log_opened d' \<and> log_fd d' = log_fd d
    \<and> prefix p (log_content d') \<and> log_synced d' = log_synced d"
proof -
  let ?c = "take (nat n) (log_content d) @ replicate (nat n - length (log_content d)) 0"
  have "ftruncate d (log_fd d) n = (0, set_file d (log_fd d) ?c)"
    using log_opened_file [OF assms(1,2)] assms(4) by (simp add: ftruncate_def)
  moreover have "prefix p ?c"
    using assms(3,4) by (auto simp: prefix_def take_append)
  ultimately show ?thesis
    using assms(1,2) by (simp add: disk_inv_set_file log_content_set_file log_opened_def)
qed

lemma ensure_log_capacity_log:
  assumes "disk_inv d" and "log_opened d" and "prefix p (log_content d)" and "int (length p) \<le> n"
  shows "\<exists>d'. ensure_log_capacity d n = Inr d' \<and> disk_inv d' \<and> log_opened d' \<and> prefix p (log_content d')
    \<and> log_synced d' = log_synced d"
proof -
  have ready: "log_ready d"
    using assms(1,2) disk_inv_file [OF assms(1), of "log_fd d"]
    by (auto simp: log_ready_def log_opened_def is_file_def)
  obtain e where e: "open_log d = Inr e" "disk_inv e" "log_opened e" "fs e = fs d" "log_synced e = log_synced d"
    using open_log_ready [OF ready] by blast
  have pe: "prefix p (log_content e)" using assms(3) e(4) by (simp add: log_content_def)
  have "n < (n div LOG_PREALLOC_CHUNK + 1) * LOG_PREALLOC_CHUNK"
    by (simp add: LOG_PREALLOC_CHUNK_def) 
  then have "int (length p) \<le> (n div LOG_PREALLOC_CHUNK + 1) * LOG_PREALLOC_CHUNK" using assms(4) by simp
  from ftruncate_log [OF e(2,3) pe this] obtain d' where
    "ftruncate e (log_fd e) ((n div LOG_PREALLOC_CHUNK + 1) * LOG_PREALLOC_CHUNK) = (0, d')"
    "disk_inv d'" "log_opened d'" "prefix p (log_content d')" "log_synced d' = log_synced e" by blast
  then show ?thesis
    using e pe
    by (auto simp: ensure_log_capacity_def Let_def disk_inv_log_fields log_opened_def log_content_def)
qed

lemma prefix_put_at: "prefix p c \<Longrightarrow> prefix (p @ bs) (put_at (length p) bs c)"
  by (auto simp: put_at_def prefix_def)

interpretation disk_log: log_device write_log sync_log log_content log_synced log_ready log_opened
proof unfold_locales
  fix d :: disk and p bs :: bytes
  assume rdy: "log_ready d" and p: "prefix p (log_content d)"
  obtain d1 where 1: "open_log d = Inr d1" "disk_inv d1" "log_opened d1" "fs d1 = fs d" "log_synced d1 = log_synced d"
    using open_log_ready [OF rdy] by blast
  have p1: "prefix p (log_content d1)" using p 1(4) by (simp add: log_content_def)
  obtain d2 where 2: "ensure_log_capacity d1 (int (length p) + int (length bs)) = Inr d2" "disk_inv d2" "log_opened d2"
      "prefix p (log_content d2)" "log_synced d2 = log_synced d1"
    using ensure_log_capacity_log [OF 1(2,3) p1, of "int (length p) + int (length bs)"] by auto
  let ?e = "if bs = [] then d2 else set_file d2 (log_fd d2) (put_at (length p) bs (log_content d2))"
  have w: "write_log d bs (int (length p)) = Inr ?e"
    using 1(1) 2(1) log_opened_file [OF 2(2,3)] by (simp add: write_log_def pwrite_def)
  have "disk_inv ?e" "log_opened ?e"
    using 2 by (simp_all add: disk_inv_set_file log_opened_def)
  moreover have "log_ready ?e"
    using calculation disk_inv_file [OF calculation(1), of "log_fd ?e"]
    by (auto simp: log_ready_def log_opened_def is_file_def)
  moreover have "prefix (p @ bs) (log_content ?e)"
    using 2(2-4) by (simp add: log_content_set_file prefix_put_at)
  ultimately show "\<exists>d'. write_log d bs (int (length p)) = Inr d' \<and> log_ready d' \<and> log_opened d'
      \<and> prefix (p @ bs) (log_content d') \<and> log_synced d' = log_synced d"
    using w 1(5) 2(5) by (intro exI [of _ ?e]) simp
next
  fix d
  assume "log_ready d" and "log_opened d"
  then show "\<exists>d'. sync_log d = Inr d' \<and> log_ready d' \<and> log_opened d' \<and> log_content d' = log_content d
      \<and> log_synced d' = log_content d"
    using log_opened_file [of d] 
    by (auto simp: sync_log_def log_ready_def log_opened_def log_content_def disk_inv_log_fields is_file_def)
qed

section \<open>Properties\<close>

datatype disk_call = Create string | Destroy string | Open string | Close int | Write int page_id_t bytes

fun disk_call_step :: "disk \<Rightarrow> disk_call \<Rightarrow> disk" where
  "disk_call_step d (Create p) = (case create_file d p of Inl e \<Rightarrow> d | Inr d' \<Rightarrow> d')"
| "disk_call_step d (Destroy p) = (case destroy_file d p of Inl e \<Rightarrow> d | Inr d' \<Rightarrow> d')"
| "disk_call_step d (Open p) = (case open_file d p of Inl e \<Rightarrow> d | Inr (fd, d') \<Rightarrow> d')"
| "disk_call_step d (Close fd) = (case close_file d fd of Inl e \<Rightarrow> d | Inr d' \<Rightarrow> d')"
| "disk_call_step d (Write fd p bs) = snd (write_page d fd p bs)"

lemma disk_call_step_inv: "disk_inv d \<Longrightarrow> disk_inv (disk_call_step d c)"
  by (cases c) (auto split: sum.splits dest: disk_inv_create disk_inv_destroy disk_inv_open
      disk_inv_close simp: disk_inv_write_page)

text \<open>
  Under any sequence of file and page calls the tables \<^verbatim>\<open>path2fd_\<close> and \<^verbatim>\<open>fd2path_\<close> stay inverse
  to each other and equal to the system's table of open descriptors, and no open file is removed.
\<close>

theorem disk_tables_consistent:
  assumes "distinct (map fst files)"
  shows "disk_inv (foldl disk_call_step (disk_new files) cs)"
proof -
  have "disk_inv (foldl disk_call_step d cs)" if "disk_inv d" for d
    using that by (induction cs arbitrary: d) (auto simp: disk_call_step_inv)
  then show ?thesis using disk_inv_new [OF assms] by blast
qed

theorem disk_tables_consistent_witness:
  "disk_inv (foldl disk_call_step (disk_new [(''t'', [])]) [Open ''t'', Destroy ''t'', Create ''u'', Open ''u'', Close 3])"
  by (rule disk_tables_consistent) simp

text \<open>
  C12: a page that \<open>write_page\<close> stores is what \<open>read_page\<close> returns for it, and every other
  page of every open file that could be read before reads the same afterwards.
\<close>

theorem page_write_read:
  assumes "disk_inv d" and "file_of d fd \<noteq> None" and "0 \<le> pno"
    and "length bs = PAGE_SIZE" and "length buf = PAGE_SIZE"
  shows "fst (write_page d fd pno bs) = None
    \<and> read_page (snd (write_page d fd pno bs)) fd pno buf PAGE_SIZE = (None, bs)
    \<and> {(g, q, x). (g, q) \<noteq> (fd, pno) \<and> read_page d g q buf PAGE_SIZE = (None, x)}
        \<subseteq> {(g, q, x). read_page (snd (write_page d fd pno bs)) g q buf PAGE_SIZE = (None, x)}"
proof -
  obtain c where c: "file_of d fd = Some c" using assms(2) by blast
  have w: "write_page d fd pno bs = (None, set_file d fd (put_at (nat pno * PAGE_SIZE) bs c))"
    using write_page_ok [OF assms(2-4)] c by simp
  have "read_page (snd (write_page d fd pno bs)) g q buf PAGE_SIZE = (None, x)"
    if "(g, q) \<noteq> (fd, pno)" "read_page d g q buf PAGE_SIZE = (None, x)" for g q x
  proof (cases "disk_page d g q")
    case None
    with that read_page_fail [of d g q buf] show ?thesis by simp
  next
    case (Some y)
    with that(2) read_page_ok [OF assms(5) Some] have "y = x" by simp
    then show ?thesis
      using disk_page_write_other [OF assms(1) c assms(3,4) that(1) Some] assms(5)
      by (simp add: w read_page_ok)
  qed
  then show ?thesis
    using disk_page_write_same [OF c assms(3,4)] assms(5) by (auto simp: w read_page_ok)
qed

definition disk_example :: disk where
  "disk_example = disk_call_step (disk_new [(''t'', [])]) (Open ''t'')"

lemma disk_example_ok: "disk_inv disk_example \<and> file_of disk_example 3 = Some []"
proof
  show "disk_inv disk_example"
    unfolding disk_example_def by (intro disk_call_step_inv disk_inv_new) simp
  show "file_of disk_example 3 = Some []" by code_simp
qed

theorem page_write_read_witness:
  "read_page (snd (write_page disk_example 3 2 (replicate PAGE_SIZE 7))) 3 2 (replicate PAGE_SIZE 0) PAGE_SIZE
     = (None, replicate PAGE_SIZE 7)"
  using page_write_read [of disk_example 3 2 "replicate PAGE_SIZE 7" "replicate PAGE_SIZE 0"]
    disk_example_ok by simp

end
