(* ===== verification/Log_Codec.thy ===== *)
theory Log_Codec
  imports Prelude
begin

text \<open>
  The log records of \<^verbatim>\<open>src/src/recovery/log_manager.h\<close> and the constants and checksum of
  \<^verbatim>\<open>src/src/recovery/log_defs.h\<close>. The class hierarchy \<^verbatim>\<open>LogRecord\<close> is a record with extensions; the
  virtual \<^verbatim>\<open>serialize\<close> is a sequence of writes into a buffer at an offset, \<^verbatim>\<open>deserialize\<close> a sequence of
  reads that yields \<open>None\<close> where the code would read outside the buffer. \<open>wal_byte_diff\<close> and the constructor
  of \<^verbatim>\<open>UpdateDeltaLogRecord\<close> follow their loops.
\<close>

unbundle bit_operations_syntax

section \<open>Constants and checksum\<close>

definition OFFSET_LOG_TYPE :: nat where "OFFSET_LOG_TYPE = 0"
definition OFFSET_LSN :: nat where "OFFSET_LSN = 4"
definition OFFSET_LOG_TOT_LEN :: nat where "OFFSET_LOG_TOT_LEN = OFFSET_LSN + 4"
definition OFFSET_LOG_TID :: nat where "OFFSET_LOG_TID = OFFSET_LOG_TOT_LEN + 4"
definition OFFSET_PREV_LSN :: nat where "OFFSET_PREV_LSN = OFFSET_LOG_TID + 8"
definition OFFSET_LOG_DATA :: nat where "OFFSET_LOG_DATA = OFFSET_PREV_LSN + 4"
definition LOG_HEADER_SIZE :: nat where "LOG_HEADER_SIZE = OFFSET_LOG_DATA"

definition WAL_BATCH_MAGIC :: int where "WAL_BATCH_MAGIC = 0x574C4247"
definition WAL_BATCH_HDR_SIZE :: nat where "WAL_BATCH_HDR_SIZE = 12"

lemmas log_offsets = OFFSET_LOG_TYPE_def OFFSET_LSN_def OFFSET_LOG_TOT_LEN_def OFFSET_LOG_TID_def
  OFFSET_PREV_LSN_def OFFSET_LOG_DATA_def LOG_HEADER_SIZE_def

text \<open>
  One round of the table construction, the 256 entries, and the loop over the data. \<open>crc32_bitwise\<close>
  is the reference definition of CRC-32: bit by bit, with no table.
\<close>

definition crc_bit :: "32 word \<Rightarrow> 32 word" where
  "crc_bit c = (if c AND 1 \<noteq> 0 then 0xEDB88320 XOR drop_bit 1 c else drop_bit 1 c)"

definition crc_table :: "32 word list" where
  "crc_table = map (\<lambda>i. (crc_bit ^^ 8) (word_of_nat i)) [0..<256]"

definition crc_step :: "32 word \<Rightarrow> byte \<Rightarrow> 32 word" where
  "crc_step crc b = crc_table ! unat ((crc XOR ucast b) AND 0xFF) XOR drop_bit 8 crc"

definition wal_crc32 :: "bytes \<Rightarrow> 32 word" where
  "wal_crc32 d = foldl crc_step 0xFFFFFFFF d XOR 0xFFFFFFFF"

definition crc32_bitwise :: "bytes \<Rightarrow> 32 word" where
  "crc32_bitwise d = NOT (foldl (\<lambda>c b. (crc_bit ^^ 8) (c XOR ucast b)) (NOT 0) d)"

section \<open>Log records\<close>

datatype LogType = UPDATE | INSERT | DELETE | Begin | Commit | ABORT | CKPT | UPDATE_DELTA

fun log_type_code :: "LogType \<Rightarrow> int" where
  "log_type_code UPDATE = 0"
| "log_type_code INSERT = 1"
| "log_type_code DELETE = 2"
| "log_type_code Begin = 3"
| "log_type_code Commit = 4"
| "log_type_code ABORT = 5"
| "log_type_code CKPT = 6"
| "log_type_code UPDATE_DELTA = 7"

record LogRecord =
  log_type :: int
  lsn :: lsn_t
  log_tot_len :: int
  log_tid :: txn_id_t
  prev_lsn :: lsn_t

record InsertLogRecord = LogRecord +
  insert_value :: bytes
  insert_rid :: Rid
  insert_tab :: bytes

record DeleteLogRecord = LogRecord +
  delete_value :: bytes
  delete_rid :: Rid
  delete_tab :: bytes

record UpdateLogRecord = LogRecord +
  old_value :: bytes
  new_value :: bytes
  update_rid :: Rid
  update_tab :: bytes

record WalDiffRange =
  r_off :: int
  r_len :: int

record UpdateDeltaLogRecord = LogRecord +
  delta_rid :: Rid
  delta_tab :: bytes
  delta_ranges :: "(WalDiffRange \<times> bytes \<times> bytes) list"

definition header_of :: "LogType \<Rightarrow> txn_id_t \<Rightarrow> LogRecord" where
  "header_of t txn = \<lparr>log_type = log_type_code t, lsn = INVALID_LSN,
     log_tot_len = int LOG_HEADER_SIZE, log_tid = txn, prev_lsn = INVALID_LSN\<rparr>"

definition BeginLogRecord :: "txn_id_t \<Rightarrow> LogRecord" where
  "BeginLogRecord txn = header_of Begin txn"

definition CommitLogRecord :: "txn_id_t \<Rightarrow> LogRecord" where
  "CommitLogRecord txn = header_of Commit txn"

definition AbortLogRecord :: "txn_id_t \<Rightarrow> LogRecord" where
  "AbortLogRecord txn = header_of ABORT txn"

definition CkptLogRecord :: LogRecord where
  "CkptLogRecord = header_of CKPT INVALID_TXN_ID"

definition new_InsertLogRecord :: "txn_id_t \<Rightarrow> bytes \<Rightarrow> Rid \<Rightarrow> bytes \<Rightarrow> InsertLogRecord" where
  "new_InsertLogRecord txn v r tab = \<lparr>log_type = log_type_code INSERT, lsn = INVALID_LSN,
     log_tot_len = int LOG_HEADER_SIZE + 4 + int (length v) + 8 + (8 + int (length tab)),
     log_tid = txn, prev_lsn = INVALID_LSN, insert_value = v, insert_rid = r, insert_tab = tab\<rparr>"

definition new_DeleteLogRecord :: "txn_id_t \<Rightarrow> bytes \<Rightarrow> Rid \<Rightarrow> bytes \<Rightarrow> DeleteLogRecord" where
  "new_DeleteLogRecord txn v r tab = \<lparr>log_type = log_type_code DELETE, lsn = INVALID_LSN,
     log_tot_len = int LOG_HEADER_SIZE + (4 + int (length v) + 8) + (8 + int (length tab)),
     log_tid = txn, prev_lsn = INVALID_LSN, delete_value = v, delete_rid = r, delete_tab = tab\<rparr>"

definition new_UpdateLogRecord :: "txn_id_t \<Rightarrow> bytes \<Rightarrow> bytes \<Rightarrow> Rid \<Rightarrow> bytes \<Rightarrow> UpdateLogRecord" where
  "new_UpdateLogRecord txn ov nv r tab = \<lparr>log_type = log_type_code UPDATE, lsn = INVALID_LSN,
     log_tot_len = int LOG_HEADER_SIZE + (4 + int (length ov)) + (4 + int (length nv)) + 8
       + (8 + int (length tab)),
     log_tid = txn, prev_lsn = INVALID_LSN, old_value = ov, new_value = nv, update_rid = r,
     update_tab = tab\<rparr>"

subsection \<open>Serialization\<close>

text \<open>\<open>put off bs buf\<close> is a \<^verbatim>\<open>memcpy\<close> to the offset, returning the advanced offset with the buffer.\<close>

definition put :: "bytes \<Rightarrow> nat \<times> bytes \<Rightarrow> nat \<times> bytes" where
  "put bs ob = (fst ob + length bs, wr (fst ob) bs (snd ob))"

definition enc_rid :: "Rid \<Rightarrow> bytes" where
  "enc_rid r = le_enc 4 (page_no r) @ le_enc 4 (slot_no r)"

definition serialize :: "('a) LogRecord_scheme \<Rightarrow> nat \<Rightarrow> bytes \<Rightarrow> bytes" where
  "serialize r dest buf =
     wr (dest + OFFSET_PREV_LSN) (le_enc 4 (prev_lsn r))
      (wr (dest + OFFSET_LOG_TID) (le_enc 8 (log_tid r))
       (wr (dest + OFFSET_LOG_TOT_LEN) (le_enc 4 (log_tot_len r))
        (wr (dest + OFFSET_LSN) (le_enc 4 (lsn r))
         (wr (dest + OFFSET_LOG_TYPE) (le_enc 4 (log_type r)) buf))))"

definition serialize_insert :: "InsertLogRecord \<Rightarrow> nat \<Rightarrow> bytes \<Rightarrow> bytes" where
  "serialize_insert r dest buf =
     snd (put (insert_tab r)
      (put (le_enc 8 (int (length (insert_tab r))))
       (put (enc_rid (insert_rid r))
        (put (insert_value r)
         (put (le_enc 4 (int (length (insert_value r))))
          (dest + OFFSET_LOG_DATA, serialize r dest buf))))))"

definition serialize_delete :: "DeleteLogRecord \<Rightarrow> nat \<Rightarrow> bytes \<Rightarrow> bytes" where
  "serialize_delete r dest buf =
     snd (put (delete_tab r)
      (put (le_enc 8 (int (length (delete_tab r))))
       (put (enc_rid (delete_rid r))
        (put (delete_value r)
         (put (le_enc 4 (int (length (delete_value r))))
          (dest + OFFSET_LOG_DATA, serialize r dest buf))))))"

definition serialize_update :: "UpdateLogRecord \<Rightarrow> nat \<Rightarrow> bytes \<Rightarrow> bytes" where
  "serialize_update r dest buf =
     snd (put (update_tab r)
      (put (le_enc 8 (int (length (update_tab r))))
       (put (enc_rid (update_rid r))
        (put (new_value r)
         (put (le_enc 4 (int (length (new_value r))))
          (put (old_value r)
           (put (le_enc 4 (int (length (old_value r))))
            (dest + OFFSET_LOG_DATA, serialize r dest buf))))))))"

definition put_range :: "WalDiffRange \<times> bytes \<times> bytes \<Rightarrow> nat \<times> bytes \<Rightarrow> nat \<times> bytes" where
  "put_range rg ob =
     (case rg of (r, ov, nv) \<Rightarrow>
        put (take (nat (r_len r)) nv)
         (put (take (nat (r_len r)) ov) (put (le_enc 2 (r_len r)) (put (le_enc 2 (r_off r)) ob))))"

definition serialize_delta :: "UpdateDeltaLogRecord \<Rightarrow> nat \<Rightarrow> bytes \<Rightarrow> bytes" where
  "serialize_delta r dest buf =
     snd (fold put_range (delta_ranges r)
      (put (le_enc 1 (int (length (delta_ranges r))))
       (put (enc_rid (delta_rid r))
        (put (delta_tab r)
         (put (le_enc 1 (int (length (delta_tab r))))
          (dest + OFFSET_LOG_DATA, serialize r dest buf))))))"

subsection \<open>Deserialization\<close>

text \<open>A read at an offset; a read past the end of the buffer has no defined result.\<close>

definition get :: "nat \<Rightarrow> nat \<Rightarrow> bytes \<Rightarrow> bytes option" where
  "get off n src = (if off + n \<le> length src then Some (rd off n src) else None)"

definition dec_rid :: "bytes \<Rightarrow> Rid" where
  "dec_rid bs = \<lparr>page_no = le_dec_s (rd 0 4 bs), slot_no = le_dec_s (rd 4 4 bs)\<rparr>"

definition deserialize :: "bytes \<Rightarrow> LogRecord option" where
  "deserialize src =
     (if length src < LOG_HEADER_SIZE then None
      else Some \<lparr>log_type = le_dec_s (rd OFFSET_LOG_TYPE 4 src), lsn = le_dec_s (rd OFFSET_LSN 4 src),
                 log_tot_len = le_dec_u (rd OFFSET_LOG_TOT_LEN 4 src),
                 log_tid = le_dec_s (rd OFFSET_LOG_TID 8 src),
                 prev_lsn = le_dec_s (rd OFFSET_PREV_LSN 4 src)\<rparr>)"

definition rm_deserialize :: "nat \<Rightarrow> bytes \<Rightarrow> bytes option" where
  "rm_deserialize off src =
     Option.bind (get off 4 src) (\<lambda>s.
       let sz = le_dec_s s in if sz < 0 then None else get (off + 4) (nat sz) src)"

definition get_tab :: "nat \<Rightarrow> bytes \<Rightarrow> bytes option" where
  "get_tab off src = Option.bind (get off 8 src) (\<lambda>s. get (off + 8) (nat (le_dec_u s)) src)"

definition deserialize_insert :: "bytes \<Rightarrow> InsertLogRecord option" where
  "deserialize_insert src =
     Option.bind (deserialize src) (\<lambda>h.
     Option.bind (rm_deserialize OFFSET_LOG_DATA src) (\<lambda>v.
       let off = OFFSET_LOG_DATA + length v + 4 in
     Option.bind (get off 8 src) (\<lambda>rb.
     Option.bind (get_tab (off + 8) src) (\<lambda>t.
       Some (LogRecord.extend h \<lparr>insert_value = v, insert_rid = dec_rid rb, insert_tab = t\<rparr>)))))"

definition deserialize_delete :: "bytes \<Rightarrow> DeleteLogRecord option" where
  "deserialize_delete src =
     Option.bind (deserialize src) (\<lambda>h.
     Option.bind (rm_deserialize OFFSET_LOG_DATA src) (\<lambda>v.
       let off = OFFSET_LOG_DATA + 4 + length v in
     Option.bind (get off 8 src) (\<lambda>rb.
     Option.bind (get_tab (off + 8) src) (\<lambda>t.
       Some (LogRecord.extend h \<lparr>delete_value = v, delete_rid = dec_rid rb, delete_tab = t\<rparr>)))))"

definition deserialize_update :: "bytes \<Rightarrow> UpdateLogRecord option" where
  "deserialize_update src =
     Option.bind (deserialize src) (\<lambda>h.
     Option.bind (rm_deserialize OFFSET_LOG_DATA src) (\<lambda>ov.
       let off = OFFSET_LOG_DATA + 4 + length ov in
     Option.bind (rm_deserialize off src) (\<lambda>nv.
       let off = off + (4 + length nv) in
     Option.bind (get off 8 src) (\<lambda>rb.
     Option.bind (get_tab (off + 8) src) (\<lambda>t.
       Some (LogRecord.extend h
         \<lparr>old_value = ov, new_value = nv, update_rid = dec_rid rb, update_tab = t\<rparr>))))))"

text \<open>
  The arrays of \<^verbatim>\<open>UpdateDeltaLogRecord\<close> have eight elements; a larger count in the input would write
  past them, which has no defined result either.
\<close>

fun get_ranges :: "nat \<Rightarrow> nat \<Rightarrow> bytes \<Rightarrow> (WalDiffRange \<times> bytes \<times> bytes) list option" where
  "get_ranges 0 off src = Some []"
| "get_ranges (Suc k) off src =
     Option.bind (get off 2 src) (\<lambda>ob.
     Option.bind (get (off + 2) 2 src) (\<lambda>lb.
       let len = nat (le_dec_u lb) in
     Option.bind (get (off + 4) len src) (\<lambda>ov.
     Option.bind (get (off + 4 + len) len src) (\<lambda>nv.
     Option.bind (get_ranges k (off + 4 + len + len) src) (\<lambda>rs.
       Some ((\<lparr>r_off = le_dec_u ob, r_len = le_dec_u lb\<rparr>, ov, nv) # rs))))))"

definition MAX_RANGES :: nat where "MAX_RANGES = 8"

definition deserialize_delta :: "bytes \<Rightarrow> UpdateDeltaLogRecord option" where
  "deserialize_delta src =
     Option.bind (deserialize src) (\<lambda>h.
     Option.bind (get OFFSET_LOG_DATA 1 src) (\<lambda>tb.
       let tlen = nat (le_dec_u tb); off = OFFSET_LOG_DATA + 1 in
     Option.bind (get off tlen src) (\<lambda>t.
     Option.bind (get (off + tlen) 8 src) (\<lambda>rb.
     Option.bind (get (off + tlen + 8) 1 src) (\<lambda>nb.
       let n = nat (le_dec_u nb) in
       if MAX_RANGES < n then None
       else Option.bind (get_ranges n (off + tlen + 8 + 1) src) (\<lambda>rs.
         Some (LogRecord.extend h \<lparr>delta_rid = dec_rid rb, delta_tab = t, delta_ranges = rs\<rparr>)))))))"

subsection \<open>Dynamic dispatch\<close>

text \<open>
  A log record of any class. The virtual calls select the class's own functions; a reader selects the
  class by the type field, as the two passes of recovery do.
\<close>

datatype any_log =
    HdrLog LogRecord
  | InsertLog InsertLogRecord
  | DeleteLog DeleteLogRecord
  | UpdateLog UpdateLogRecord
  | DeltaLog UpdateDeltaLogRecord

fun serialize_any :: "any_log \<Rightarrow> nat \<Rightarrow> bytes \<Rightarrow> bytes" where
  "serialize_any (HdrLog r) = serialize r"
| "serialize_any (InsertLog r) = serialize_insert r"
| "serialize_any (DeleteLog r) = serialize_delete r"
| "serialize_any (UpdateLog r) = serialize_update r"
| "serialize_any (DeltaLog r) = serialize_delta r"

fun tot_len_any :: "any_log \<Rightarrow> int" where
  "tot_len_any (HdrLog r) = log_tot_len r"
| "tot_len_any (InsertLog r) = log_tot_len r"
| "tot_len_any (DeleteLog r) = log_tot_len r"
| "tot_len_any (UpdateLog r) = log_tot_len r"
| "tot_len_any (DeltaLog r) = log_tot_len r"

fun set_lsn_any :: "lsn_t \<Rightarrow> any_log \<Rightarrow> any_log" where
  "set_lsn_any n (HdrLog r) = HdrLog (r\<lparr>lsn := n\<rparr>)"
| "set_lsn_any n (InsertLog r) = InsertLog (r\<lparr>lsn := n\<rparr>)"
| "set_lsn_any n (DeleteLog r) = DeleteLog (r\<lparr>lsn := n\<rparr>)"
| "set_lsn_any n (UpdateLog r) = UpdateLog (r\<lparr>lsn := n\<rparr>)"
| "set_lsn_any n (DeltaLog r) = DeltaLog (r\<lparr>lsn := n\<rparr>)"

definition deserialize_any :: "bytes \<Rightarrow> any_log option" where
  "deserialize_any src =
     (if length src < LOG_HEADER_SIZE then None
      else let t = le_dec_s (rd OFFSET_LOG_TYPE 4 src)
           in if t = log_type_code INSERT then map_option InsertLog (deserialize_insert src)
              else if t = log_type_code DELETE then map_option DeleteLog (deserialize_delete src)
              else if t = log_type_code UPDATE then map_option UpdateLog (deserialize_update src)
              else if t = log_type_code UPDATE_DELTA then map_option DeltaLog (deserialize_delta src)
              else map_option HdrLog (deserialize src))"

subsection \<open>Byte differences\<close>

function skip_same :: "bytes \<Rightarrow> bytes \<Rightarrow> nat \<Rightarrow> nat \<Rightarrow> nat" where
  "skip_same a b n i = (if i < n \<and> a ! i = b ! i then skip_same a b n (i + 1) else i)"
  by pat_completeness auto
termination by (relation "measure (\<lambda>(a, b, n, i). n - i)") auto

function look_diff :: "bytes \<Rightarrow> bytes \<Rightarrow> nat \<Rightarrow> nat \<Rightarrow> nat option" where
  "look_diff a b gap_end look =
     (if look < gap_end then if a ! look \<noteq> b ! look then Some look else look_diff a b gap_end (look + 1)
      else None)"
  by pat_completeness auto
termination by (relation "measure (\<lambda>(a, b, g, i). g - i)") auto

declare skip_same.simps [simp del] look_diff.simps [simp del]

lemma look_diff_bounds: "look_diff a b g i = Some k \<Longrightarrow> i \<le> k \<and> k < g \<and> a ! k \<noteq> b ! k"
proof (induction a b g i rule: look_diff.induct)
  case (1 a b g i)
  then show ?case by (subst (asm) look_diff.simps) (fastforce split: if_splits)
qed

text \<open>\<open>gap\<close> is the end of the look-ahead window, eight bytes or the end of the row.\<close>

function extend_diff :: "bytes \<Rightarrow> bytes \<Rightarrow> nat \<Rightarrow> nat \<Rightarrow> nat" where
  "extend_diff a b n e =
     (if e < n
      then if a ! e \<noteq> b ! e then extend_diff a b n (e + 1)
           else case look_diff a b (if e + 8 < n then e + 8 else n) e of
                  None \<Rightarrow> e
                | Some look \<Rightarrow> extend_diff a b n (look + 1)
      else e)"
  by pat_completeness auto
termination
  by (relation "measure (\<lambda>(a, b, n, e). n - e)") (auto dest!: look_diff_bounds)

declare extend_diff.simps [simp del]

lemma skip_same_ge: "i \<le> skip_same a b n i"
proof (induction a b n i rule: skip_same.induct)
  case (1 a b n i)
  then show ?case
    by (cases "i < n \<and> a ! i = b ! i") (auto simp: skip_same.simps [of a b n i])
qed

lemma extend_diff_ge: "e \<le> extend_diff a b n e"
proof (induction a b n e rule: extend_diff.induct)
  case (1 a b n e)
  show ?case
  proof (cases "look_diff a b (if e + 8 < n then e + 8 else n) e")
    case None
    with 1(1) show ?thesis by (auto simp: extend_diff.simps [of a b n e])
  next
    case (Some k)
    with look_diff_bounds [OF Some] 1 show ?thesis
      by (cases "e < n"; cases "a ! e = b ! e") (simp_all add: extend_diff.simps [of a b n e])
  qed
qed

function diff_loop :: "bytes \<Rightarrow> bytes \<Rightarrow> nat \<Rightarrow> nat \<Rightarrow> WalDiffRange list \<Rightarrow> WalDiffRange list option" where
  "diff_loop a b n i out =
     (if i < n
      then let start = skip_same a b n i
           in if n \<le> start then Some out
              else let e = extend_diff a b n (start + 1)
                   in if 8 \<le> length out then None
                      else diff_loop a b n e
                             (out @ [\<lparr>r_off = int start mod 65536, r_len = int (e - start) mod 65536\<rparr>])
      else Some out)"
  by pat_completeness auto
termination
proof (relation "measure (\<lambda>(a, b, n, i, out). n - i)", goal_cases)
  case (2 a b n i out x xa)
  then have "Suc x \<le> xa" using extend_diff_ge [of "x + 1" a b n] by simp
  moreover have "i \<le> x" using skip_same_ge [of i a b n] 2 by simp
  ultimately show ?case using 2 by simp
qed simp

declare diff_loop.simps [simp del]

definition wal_byte_diff :: "bytes \<Rightarrow> bytes \<Rightarrow> nat \<Rightarrow> WalDiffRange list option" where
  "wal_byte_diff a b n = diff_loop a b n 0 []"

text \<open>
  The constructor from the two row images. The record is left without ranges when there is no
  difference, when there are more than eight ranges, and when the saving is below a third.
\<close>

definition delta_payload :: "bytes \<Rightarrow> WalDiffRange list \<Rightarrow> int" where
  "delta_payload tab diffs = 1 + int (length tab) + 8 + 1 + (\<Sum>d\<leftarrow>diffs. 4 + 2 * r_len d)"

definition full_payload :: "bytes \<Rightarrow> nat \<Rightarrow> int" where
  "full_payload tab rec_size = 2 * 4 + 2 * int rec_size + 8 + 8 + int (length tab)"

definition new_UpdateDeltaLogRecord ::
    "txn_id_t \<Rightarrow> bytes \<Rightarrow> bytes \<Rightarrow> nat \<Rightarrow> Rid \<Rightarrow> bytes \<Rightarrow> UpdateDeltaLogRecord" where
  "new_UpdateDeltaLogRecord txn ov nv rec_size r table_name =
     (let tab = take 255 table_name;
          empty = \<lparr>log_type = log_type_code UPDATE_DELTA, lsn = INVALID_LSN,
                   log_tot_len = int LOG_HEADER_SIZE, log_tid = txn, prev_lsn = INVALID_LSN,
                   delta_rid = r, delta_tab = tab, delta_ranges = []\<rparr>
      in case wal_byte_diff ov nv rec_size of
           None \<Rightarrow> empty
         | Some diffs \<Rightarrow>
             if diffs = [] then empty
             else if full_payload tab rec_size * 2 div 3 \<le> delta_payload tab diffs then empty
             else empty\<lparr>log_tot_len := int LOG_HEADER_SIZE + delta_payload tab diffs,
                        delta_ranges := map (\<lambda>d. (d, rd (nat (r_off d)) (nat (r_len d)) ov,
                                                      rd (nat (r_off d)) (nat (r_len d)) nv)) diffs\<rparr>)"

definition useful :: "UpdateDeltaLogRecord \<Rightarrow> bool" where
  "useful r \<longleftrightarrow> 0 < length (delta_ranges r)"

text \<open>Applying one side of the ranges to a row, as the redo and the undo pass do it.\<close>

definition apply_range :: "WalDiffRange \<Rightarrow> bytes \<Rightarrow> bytes \<Rightarrow> bytes" where
  "apply_range rg v buf =
     (if int (length buf) < r_off rg + r_len rg then buf
      else wr (nat (r_off rg)) (take (nat (r_len rg)) v) buf)"

definition apply_new_ranges :: "(WalDiffRange \<times> bytes \<times> bytes) list \<Rightarrow> bytes \<Rightarrow> bytes" where
  "apply_new_ranges rs buf = foldl (\<lambda>d (rg, ov, nv). apply_range rg nv d) buf rs"

definition apply_old_ranges :: "(WalDiffRange \<times> bytes \<times> bytes) list \<Rightarrow> bytes \<Rightarrow> bytes" where
  "apply_old_ranges rs buf = foldl (\<lambda>d (rg, ov, nv). apply_range rg ov d) buf rs"

subsection \<open>The log buffer\<close>

record LogBuffer =
  buffer :: bytes
  offset :: nat

definition log_buffer_new :: LogBuffer where
  "log_buffer_new = \<lparr>buffer = replicate (LOG_BUFFER_SIZE + 1) 0, offset = 0\<rparr>"

definition is_full :: "LogBuffer \<Rightarrow> int \<Rightarrow> bool" where
  "is_full lb append_size \<longleftrightarrow> int (offset lb) + append_size > int LOG_BUFFER_SIZE"

section \<open>Checksum\<close>

lemma xor_cancel: "x XOR y = 0 \<longleftrightarrow> x = (y :: 'a::len word)"
  by (metis xor.assoc xor.left_neutral xor.right_neutral xor_self_eq)

lemma xor_inj_right: "c XOR x = c XOR y \<Longrightarrow> x = (y :: 'a::len word)"
  by (metis xor.assoc xor.left_neutral xor_self_eq)

lemma crc_bit_even: "\<not> bit c 0 \<Longrightarrow> crc_bit c = drop_bit 1 c"
  and crc_bit_odd: "bit c 0 \<Longrightarrow> crc_bit c = 0xEDB88320 XOR drop_bit 1 c"
  by (simp_all add: crc_bit_def and_one_eq odd_iff_mod_2_eq_one bit_0)

lemma crc_bit_xor: "crc_bit (x XOR y) = crc_bit x XOR crc_bit y"
proof -
  have d: "drop_bit 1 (x XOR y) = drop_bit 1 x XOR drop_bit 1 y" by simp
  have b: "bit (x XOR y) 0 \<longleftrightarrow> bit x 0 \<noteq> bit y 0" by (simp add: bit_xor_iff)
  have c: "p XOR u XOR (p XOR v) = u XOR v" for p u v :: "32 word"
    by (metis xor.assoc xor.left_commute xor_self_eq xor.right_neutral)
  show ?thesis
    using d b by (cases "bit x 0"; cases "bit y 0")
      (simp_all add: crc_bit_even crc_bit_odd c xor.assoc xor.left_commute)
qed

lemma crc_bits_xor: "(crc_bit ^^ n) (x XOR y) = (crc_bit ^^ n) x XOR (crc_bit ^^ n) y"
  by (induction n) (simp_all add: crc_bit_xor)

lemma crc_bits_shift:
  assumes "\<And>i. i < n \<Longrightarrow> \<not> bit x i"
  shows "(crc_bit ^^ n) x = drop_bit n x"
  using assms
proof (induction n)
  case (Suc n)
  have "\<not> bit (drop_bit n x) 0" using Suc.prems [of n] by (simp add: bit_drop_bit_eq)
  then have "crc_bit (drop_bit n x) = drop_bit (Suc n) x" by (simp add: crc_bit_even add.commute)
  then show ?case using Suc by simp
qed simp

lemma crc_bit_inj: "crc_bit x = crc_bit y \<Longrightarrow> x = y"
proof -
  assume eq: "crc_bit x = crc_bit y"
  have high: "\<not> bit (drop_bit 1 w) 31" for w :: "32 word"
    by (auto simp: bit_drop_bit_eq dest: bit_imp_le_length)
  let ?z = "x XOR y"
  have z: "crc_bit ?z = 0" using eq by (simp add: crc_bit_xor)
  have top: "bit (crc_bit ?z) 31 \<longleftrightarrow> bit ?z 0"
  proof (cases "bit ?z 0")
    case True
    have "bit (0xEDB88320 :: 32 word) 31" by simp
    then show ?thesis
      unfolding crc_bit_odd [OF True] bit_xor_iff [of "0xEDB88320"] using high [of ?z] True by blast
  next
    case False
    then show ?thesis unfolding crc_bit_even [OF False] using high by blast
  qed
  then have even: "\<not> bit ?z 0" using z by simp
  then have "drop_bit 1 ?z = 0" using z crc_bit_even by metis
  then have "\<not> bit ?z (Suc i)" for i
    by (metis bit_0_eq bit_drop_bit_eq bot_apply plus_1_eq_Suc bot_bool_def comp_apply)
  then have "?z = 0" using even by (intro bit_word_eqI) (metis bit_0_eq bot_apply bot_bool_def not0_implies_Suc)
  then show "x = y" by (simp add: xor_cancel)
qed

lemma crc_table_nth: "unat (x AND 0xFF) < 256 \<and> crc_table ! unat (x AND 0xFF) = (crc_bit ^^ 8) (x AND 0xFF)"
proof -
  have "x AND 0xFF \<le> 0xFF" by (rule word_and_le1)
  then have "unat (x AND 0xFF) < 256" by (simp add: word_le_nat_alt)
  then show ?thesis by (simp add: crc_table_def)
qed

lemma crc_step_bitwise: "crc_step c b = (crc_bit ^^ 8) (c XOR ucast b)"
proof -
  let ?x = "c XOR ucast b"
  let ?h = "?x AND NOT 0xFF"
  have m: "(0xFF :: 32 word) = mask 8" by (simp add: mask_eq_exp_minus_1)
  have split: "?x = (?x AND 0xFF) XOR ?h"
    by (rule bit_word_eqI) (auto simp: bit_simps)
  have low: "\<not> bit ?h i" if "i < 8" for i using that by (simp add: m bit_simps)
  have "(crc_bit ^^ 8) ?h = drop_bit 8 ?h" using low by (rule crc_bits_shift)
  also have "\<dots> = drop_bit 8 c"
    unfolding m by (rule bit_word_eqI) (auto simp: bit_simps dest: bit_imp_le_length)
  finally have h: "(crc_bit ^^ 8) ?h = drop_bit 8 c" .
  have "(crc_bit ^^ 8) ?x = (crc_bit ^^ 8) (?x AND 0xFF) XOR (crc_bit ^^ 8) ?h"
    using split crc_bits_xor by metis
  then show ?thesis unfolding h crc_step_def using crc_table_nth [of ?x] by simp
qed

lemma crc_bits_inj: "(crc_bit ^^ n) x = (crc_bit ^^ n) y \<Longrightarrow> x = y"
  by (induction n) (auto dest: crc_bit_inj)

lemma crc_step_inj_state: "crc_step c b = crc_step c' b \<Longrightarrow> c = c'"
  unfolding crc_step_bitwise by (drule crc_bits_inj) (metis xor.commute xor_inj_right)

lemma crc_step_inj_byte: "crc_step c b = crc_step c b' \<Longrightarrow> b = b'"
proof -
  assume "crc_step c b = crc_step c b'"
  then have "c XOR ucast b = c XOR ucast b'"
    unfolding crc_step_bitwise by (rule crc_bits_inj)
  then have "(ucast b :: 32 word) = ucast b'" by (rule xor_inj_right)
  then have "uint (ucast b :: 32 word) = uint (ucast b' :: 32 word)" by simp
  moreover have "uint x mod 4294967296 = uint x" for x :: byte
    using uint_lt2p [of x] by (intro mod_pos_pos_trivial) simp_all
  ultimately show ?thesis by (simp add: unsigned_ucast_eq word_uint_eq_iff take_bit_eq_mod)
qed

lemma crc_foldl_inj: "foldl crc_step c bs = foldl crc_step c' bs \<Longrightarrow> c = c'"
  by (induction bs arbitrary: c c') (auto dest: crc_step_inj_state)

section \<open>Buffers\<close>

lemma wr_append:
  assumes "off + length a + length b \<le> length d"
  shows "wr (off + length a) b (wr off a d) = wr off (a @ b) d"
  using assms by (simp add: wr_def add.assoc add.commute [of "length b"])

lemma wr_append':
  assumes "off + length a + length b \<le> length d" and "o' = off + length a"
  shows "wr o' b (wr off a d) = wr off (a @ b) d"
  using wr_append [OF assms(1)] assms(2) by simp

text \<open>A buffer into which \<open>a\<close> has been written from \<open>off\<close> on, with the offset behind it.\<close>

definition written :: "nat \<Rightarrow> bytes \<Rightarrow> bytes \<Rightarrow> nat \<times> bytes" where
  "written off a d = (off + length a, wr off a d)"

lemma put_written:
  "off + length a + length b \<le> length d \<Longrightarrow> put b (written off a d) = written off (a @ b) d"
  by (simp add: put_def written_def wr_append add.assoc)

lemma snd_written: "snd (written off a d) = wr off a d"
  by (simp add: written_def)

definition hdr_image :: "'a LogRecord_scheme \<Rightarrow> bytes" where
  "hdr_image r = le_enc 4 (log_type r) @ le_enc 4 (lsn r) @ le_enc 4 (log_tot_len r)
     @ le_enc 8 (log_tid r) @ le_enc 4 (prev_lsn r)"

lemma length_hdr_image [simp]: "length (hdr_image r) = LOG_HEADER_SIZE"
  by (simp add: hdr_image_def log_offsets)

lemma serialize_image:
  assumes "dest + LOG_HEADER_SIZE \<le> length buf"
  shows "serialize r dest buf = wr dest (hdr_image r) buf"
  using assms
  by (simp add: serialize_def hdr_image_def log_offsets wr_append' del: append_assoc flip: append_assoc)

text \<open>What remains to be read of a buffer from an offset on.\<close>

definition rest_at :: "bytes \<Rightarrow> nat \<Rightarrow> bytes \<Rightarrow> bool" where
  "rest_at src off rest \<longleftrightarrow> off \<le> length src \<and> drop off src = rest"

lemma rest_at_get:
  assumes "rest_at src off (a @ rest)" and "n = length a"
  shows "get off n src = Some a"
proof -
  have "length (drop off src) = length a + length rest" using assms by (simp add: rest_at_def)
  then have "off + n \<le> length src" using assms by (simp only: rest_at_def length_drop) linarith
  with assms show ?thesis by (simp add: get_def rest_at_def rd_def)
qed

lemma rest_at_next:
  assumes "rest_at src off (a @ rest)" and "o' = off + length a"
  shows "rest_at src o' rest"
proof -
  have d: "drop off src = a @ rest" and "off \<le> length src" using assms by (simp_all add: rest_at_def)
  have "length (drop off src) = length a + length rest" unfolding d by simp
  then have "off + length a \<le> length src" using \<open>off \<le> length src\<close> by simp
  moreover have "drop (off + length a) src = rest"
    using arg_cong [OF d, of "drop (length a)"] by (simp add: add.commute)
  ultimately show ?thesis using assms(2) by (simp add: rest_at_def)
qed

lemma rest_at_self: "rest_at src 0 src"
  by (simp add: rest_at_def)

section \<open>Round trips of the records\<close>

text \<open>
  The contract between a record class and its users: writing a record puts its image, of
  \<^verbatim>\<open>log_tot_len_\<close> bytes, at the destination and changes nothing else; reading from a buffer that starts
  with the image gives the record back.
\<close>

locale log_codec =
  fixes ser :: "'r \<Rightarrow> nat \<Rightarrow> bytes \<Rightarrow> bytes" and deser :: "bytes \<Rightarrow> 'r option"
    and image :: "'r \<Rightarrow> bytes" and tot_len :: "'r \<Rightarrow> int" and fits :: "'r \<Rightarrow> bool"
  assumes ser_image: "fits r \<Longrightarrow> dest + length (image r) \<le> length buf \<Longrightarrow> ser r dest buf = wr dest (image r) buf"
    and deser_image: "fits r \<Longrightarrow> deser (image r @ rest) = Some r"
    and len_image: "fits r \<Longrightarrow> int (length (image r)) = tot_len r"
begin

lemma ser_deser:
  assumes "fits r" and "int dest + tot_len r \<le> int (length buf)"
  shows "deser (drop dest (ser r dest buf)) = Some r"
proof -
  have le: "dest + length (image r) \<le> length buf" using assms len_image [OF assms(1)] by simp
  then have "drop dest (ser r dest buf) = image r @ drop (dest + length (image r)) buf"
    using ser_image [OF assms(1) le] by (simp add: wr_def)
  then show ?thesis using deser_image [OF assms(1)] by simp
qed

lemma ser_frame:
  assumes "fits r" and "int dest + tot_len r \<le> int (length buf)"
  shows "length (ser r dest buf) = length buf \<and> take dest (ser r dest buf) = take dest buf
    \<and> drop (dest + nat (tot_len r)) (ser r dest buf) = drop (dest + nat (tot_len r)) buf"
proof -
  have le: "dest + length (image r) \<le> length buf" and n: "nat (tot_len r) = length (image r)"
    using assms len_image [OF assms(1)] by simp_all
  show ?thesis unfolding n ser_image [OF assms(1) le] using le by (simp add: wr_def)
qed

end

definition hdr_fits :: "'a LogRecord_scheme \<Rightarrow> bool" where
  "hdr_fits r \<longleftrightarrow> in_s 4 (log_type r) \<and> in_s 4 (lsn r) \<and> in_u 4 (log_tot_len r)
     \<and> in_s 8 (log_tid r) \<and> in_s 4 (prev_lsn r)"

definition rid_fits :: "Rid \<Rightarrow> bool" where
  "rid_fits r \<longleftrightarrow> in_s 4 (page_no r) \<and> in_s 4 (slot_no r)"

lemma deserialize_hdr_image:
  assumes "hdr_fits r"
  shows "deserialize (hdr_image r @ rest) = Some (LogRecord.truncate r)"
proof -
  have 0: "rest_at (hdr_image r @ rest) 0 (hdr_image r @ rest)" by (rule rest_at_self)
  let ?s = "hdr_image r @ rest"
  have r0: "rd 0 4 ?s = le_enc 4 (log_type r)" by (simp add: hdr_image_def rd_def)
  have r1: "rd 4 4 ?s = le_enc 4 (lsn r)" by (simp add: hdr_image_def rd_def)
  have r2: "rd 8 4 ?s = le_enc 4 (log_tot_len r)" by (simp add: hdr_image_def rd_def)
  have r3: "rd 12 8 ?s = le_enc 8 (log_tid r)" by (simp add: hdr_image_def rd_def)
  have r4: "rd 20 4 ?s = le_enc 4 (prev_lsn r)" by (simp add: hdr_image_def rd_def)
  show ?thesis
    using assms
    by (simp add: deserialize_def log_offsets r0 r1 r2 r3 r4 hdr_fits_def codec_simps LogRecord.truncate_def)
qed

lemma dec_enc_rid: "rid_fits r \<Longrightarrow> dec_rid (enc_rid r) = r"
  by (simp add: dec_rid_def enc_rid_def rid_fits_def rd_def codec_simps)

lemma length_enc_rid [simp]: "length (enc_rid r) = 8"
  by (simp add: enc_rid_def)

lemma rm_deserialize_at:
  assumes "rest_at src off (le_enc 4 (int (length v)) @ v @ rest)" and "in_s 4 (int (length v))"
  shows "rm_deserialize off src = Some v"
proof -
  have "get off 4 src = Some (le_enc 4 (int (length v)))" using rest_at_get [OF assms(1)] by simp
  moreover have "rest_at src (off + 4) (v @ rest)" using rest_at_next [OF assms(1)] by simp
  then have "get (off + 4) (length v) src = Some v" by (rule rest_at_get) simp
  ultimately show ?thesis using assms(2) by (simp add: rm_deserialize_def codec_simps)
qed

lemma get_tab_at:
  assumes "rest_at src off (le_enc 8 (int (length t)) @ t @ rest)" and "in_u 8 (int (length t))"
  shows "get_tab off src = Some t"
proof -
  have "get off 8 src = Some (le_enc 8 (int (length t)))" using rest_at_get [OF assms(1)] by simp
  moreover have "rest_at src (off + 8) (t @ rest)" using rest_at_next [OF assms(1)] by simp
  then have "get (off + 8) (length t) src = Some t" by (rule rest_at_get) simp
  ultimately show ?thesis using assms(2) by (simp add: get_tab_def codec_simps)
qed

lemma truncate_extend:
  "LogRecord.extend (LogRecord.truncate r) (LogRecord.more r) = r"
  by (cases r) (simp add: LogRecord.extend_def LogRecord.truncate_def)

lemma serialize_written:
  "dest + LOG_HEADER_SIZE \<le> length buf \<Longrightarrow>
     (dest + OFFSET_LOG_DATA, serialize r dest buf) = written dest (hdr_image r) buf"
  by (simp add: serialize_image written_def LOG_HEADER_SIZE_def)

lemmas serialize_simps = serialize_written put_written snd_written

definition insert_image :: "InsertLogRecord \<Rightarrow> bytes" where
  "insert_image r = hdr_image r @ le_enc 4 (int (length (insert_value r))) @ insert_value r
     @ enc_rid (insert_rid r) @ le_enc 8 (int (length (insert_tab r))) @ insert_tab r"

definition delete_image :: "DeleteLogRecord \<Rightarrow> bytes" where
  "delete_image r = hdr_image r @ le_enc 4 (int (length (delete_value r))) @ delete_value r
     @ enc_rid (delete_rid r) @ le_enc 8 (int (length (delete_tab r))) @ delete_tab r"

definition update_image :: "UpdateLogRecord \<Rightarrow> bytes" where
  "update_image r = hdr_image r @ le_enc 4 (int (length (old_value r))) @ old_value r
     @ le_enc 4 (int (length (new_value r))) @ new_value r
     @ enc_rid (update_rid r) @ le_enc 8 (int (length (update_tab r))) @ update_tab r"

definition hdr_only_fits :: "LogRecord \<Rightarrow> bool" where
  "hdr_only_fits r \<longleftrightarrow> hdr_fits r \<and> log_tot_len r = int LOG_HEADER_SIZE"

definition insert_fits :: "InsertLogRecord \<Rightarrow> bool" where
  "insert_fits r \<longleftrightarrow> hdr_fits r \<and> rid_fits (insert_rid r) \<and> in_s 4 (int (length (insert_value r)))
     \<and> in_u 8 (int (length (insert_tab r)))
     \<and> log_tot_len r = int (LOG_HEADER_SIZE + 20 + length (insert_value r) + length (insert_tab r))"

definition delete_fits :: "DeleteLogRecord \<Rightarrow> bool" where
  "delete_fits r \<longleftrightarrow> hdr_fits r \<and> rid_fits (delete_rid r) \<and> in_s 4 (int (length (delete_value r)))
     \<and> in_u 8 (int (length (delete_tab r)))
     \<and> log_tot_len r = int (LOG_HEADER_SIZE + 20 + length (delete_value r) + length (delete_tab r))"

definition update_fits :: "UpdateLogRecord \<Rightarrow> bool" where
  "update_fits r \<longleftrightarrow> hdr_fits r \<and> rid_fits (update_rid r) \<and> in_s 4 (int (length (old_value r)))
     \<and> in_s 4 (int (length (new_value r))) \<and> in_u 8 (int (length (update_tab r)))
     \<and> log_tot_len r = int (LOG_HEADER_SIZE + 24 + length (old_value r) + length (new_value r)
         + length (update_tab r))"

interpretation hdr_log: log_codec serialize deserialize hdr_image log_tot_len hdr_only_fits
proof unfold_locales
  fix r :: LogRecord and dest buf rest
  assume fits: "hdr_only_fits r"
  show "dest + length (hdr_image r) \<le> length buf \<Longrightarrow> serialize r dest buf = wr dest (hdr_image r) buf"
    by (simp add: serialize_image)
  have "LogRecord.truncate r = r" by (cases r) (simp add: LogRecord.truncate_def)
  then show "deserialize (hdr_image r @ rest) = Some r"
    using deserialize_hdr_image [of r rest] fits by (simp add: hdr_only_fits_def)
  show "int (length (hdr_image r)) = log_tot_len r" using fits by (simp add: hdr_only_fits_def)
qed

lemma insert_ext:
  "LogRecord.extend (LogRecord.truncate r)
     \<lparr>insert_value = insert_value r, insert_rid = insert_rid r, insert_tab = insert_tab r\<rparr> = r"
  and delete_ext:
  "LogRecord.extend (LogRecord.truncate r')
     \<lparr>delete_value = delete_value r', delete_rid = delete_rid r', delete_tab = delete_tab r'\<rparr> = r'"
  and update_ext:
  "LogRecord.extend (LogRecord.truncate u)
     \<lparr>old_value = old_value u, new_value = new_value u, update_rid = update_rid u, update_tab = update_tab u\<rparr> = u"
  and delta_ext:
  "LogRecord.extend (LogRecord.truncate w)
     \<lparr>delta_rid = delta_rid w, delta_tab = delta_tab w, delta_ranges = delta_ranges w\<rparr> = w"
  by (simp_all add: LogRecord.extend_def LogRecord.truncate_def)

interpretation insert_log: log_codec serialize_insert deserialize_insert insert_image log_tot_len insert_fits
proof unfold_locales
  fix r dest buf rest
  assume fits: "insert_fits r"
  show "dest + length (insert_image r) \<le> length buf \<Longrightarrow> serialize_insert r dest buf = wr dest (insert_image r) buf"
    by (simp add: serialize_insert_def serialize_simps insert_image_def)
  let ?src = "insert_image r @ rest" and ?v = "insert_value r" and ?t = "insert_tab r"
  have 0: "rest_at ?src OFFSET_LOG_DATA (le_enc 4 (int (length ?v)) @ ?v @ enc_rid (insert_rid r)
      @ le_enc 8 (int (length ?t)) @ ?t @ rest)"
    by (simp add: rest_at_def insert_image_def LOG_HEADER_SIZE_def)
  have 1: "rest_at ?src (OFFSET_LOG_DATA + length ?v + 4) (enc_rid (insert_rid r) @ le_enc 8 (int (length ?t)) @ ?t @ rest)"
    using rest_at_next [OF rest_at_next [OF 0 refl] refl] by (simp add: add.commute add.left_commute)
  have 2: "rest_at ?src (OFFSET_LOG_DATA + length ?v + 4 + 8) (le_enc 8 (int (length ?t)) @ ?t @ rest)"
    by (rule rest_at_next [OF 1]) simp
  have h: "deserialize ?src = Some (LogRecord.truncate r)"
    using deserialize_hdr_image [of r] fits by (simp add: insert_image_def insert_fits_def)
  have "rm_deserialize OFFSET_LOG_DATA ?src = Some ?v"
    by (rule rm_deserialize_at [OF 0]) (use fits in \<open>simp add: insert_fits_def\<close>)
  moreover have "get (OFFSET_LOG_DATA + length ?v + 4) 8 ?src = Some (enc_rid (insert_rid r))"
    by (rule rest_at_get [OF 1]) simp
  moreover have "get_tab (OFFSET_LOG_DATA + length ?v + 4 + 8) ?src = Some ?t"
    by (rule get_tab_at [OF 2]) (use fits in \<open>simp add: insert_fits_def\<close>)
  ultimately show "deserialize_insert ?src = Some r"
    using h fits unfolding deserialize_insert_def Let_def
    by (simp add: dec_enc_rid insert_fits_def insert_ext)
  show "int (length (insert_image r)) = log_tot_len r"
    using fits by (simp add: insert_fits_def insert_image_def)
qed

interpretation delete_log: log_codec serialize_delete deserialize_delete delete_image log_tot_len delete_fits
proof unfold_locales
  fix r dest buf rest
  assume fits: "delete_fits r"
  show "dest + length (delete_image r) \<le> length buf \<Longrightarrow> serialize_delete r dest buf = wr dest (delete_image r) buf"
    by (simp add: serialize_delete_def serialize_simps delete_image_def)
  let ?src = "delete_image r @ rest" and ?v = "delete_value r" and ?t = "delete_tab r"
  have 0: "rest_at ?src OFFSET_LOG_DATA (le_enc 4 (int (length ?v)) @ ?v @ enc_rid (delete_rid r)
      @ le_enc 8 (int (length ?t)) @ ?t @ rest)"
    by (simp add: rest_at_def delete_image_def LOG_HEADER_SIZE_def)
  have 1: "rest_at ?src (OFFSET_LOG_DATA + 4 + length ?v) (enc_rid (delete_rid r) @ le_enc 8 (int (length ?t)) @ ?t @ rest)"
    using rest_at_next [OF rest_at_next [OF 0 refl] refl] by simp
  have 2: "rest_at ?src (OFFSET_LOG_DATA + 4 + length ?v + 8) (le_enc 8 (int (length ?t)) @ ?t @ rest)"
    by (rule rest_at_next [OF 1]) simp
  have h: "deserialize ?src = Some (LogRecord.truncate r)"
    using deserialize_hdr_image [of r] fits by (simp add: delete_image_def delete_fits_def)
  have "rm_deserialize OFFSET_LOG_DATA ?src = Some ?v"
    by (rule rm_deserialize_at [OF 0]) (use fits in \<open>simp add: delete_fits_def\<close>)
  moreover have "get (OFFSET_LOG_DATA + 4 + length ?v) 8 ?src = Some (enc_rid (delete_rid r))"
    by (rule rest_at_get [OF 1]) simp
  moreover have "get_tab (OFFSET_LOG_DATA + 4 + length ?v + 8) ?src = Some ?t"
    by (rule get_tab_at [OF 2]) (use fits in \<open>simp add: delete_fits_def\<close>)
  ultimately show "deserialize_delete ?src = Some r"
    using h fits unfolding deserialize_delete_def Let_def
    by (simp add: dec_enc_rid delete_fits_def delete_ext)
  show "int (length (delete_image r)) = log_tot_len r"
    using fits by (simp add: delete_fits_def delete_image_def)
qed

interpretation update_log: log_codec serialize_update deserialize_update update_image log_tot_len update_fits
proof unfold_locales
  fix r dest buf rest
  assume fits: "update_fits r"
  show "dest + length (update_image r) \<le> length buf \<Longrightarrow> serialize_update r dest buf = wr dest (update_image r) buf"
    by (simp add: serialize_update_def serialize_simps update_image_def)
  let ?src = "update_image r @ rest" and ?o = "old_value r" and ?n = "new_value r" and ?t = "update_tab r"
  let ?off = "OFFSET_LOG_DATA + 4 + length ?o"
  let ?off2 = "?off + (4 + length ?n)"
  have 0: "rest_at ?src OFFSET_LOG_DATA (le_enc 4 (int (length ?o)) @ ?o @ le_enc 4 (int (length ?n)) @ ?n
      @ enc_rid (update_rid r) @ le_enc 8 (int (length ?t)) @ ?t @ rest)"
    by (simp add: rest_at_def update_image_def LOG_HEADER_SIZE_def)
  have 1: "rest_at ?src ?off (le_enc 4 (int (length ?n)) @ ?n @ enc_rid (update_rid r)
      @ le_enc 8 (int (length ?t)) @ ?t @ rest)"
    using rest_at_next [OF rest_at_next [OF 0 refl] refl] by simp
  have 2: "rest_at ?src ?off2 (enc_rid (update_rid r) @ le_enc 8 (int (length ?t)) @ ?t @ rest)"
    using rest_at_next [OF rest_at_next [OF 1 refl] refl] by (simp add: add.assoc)
  have 3: "rest_at ?src (?off2 + 8) (le_enc 8 (int (length ?t)) @ ?t @ rest)"
    by (rule rest_at_next [OF 2]) simp
  have h: "deserialize ?src = Some (LogRecord.truncate r)"
    using deserialize_hdr_image [of r] fits by (simp add: update_image_def update_fits_def)
  have "rm_deserialize OFFSET_LOG_DATA ?src = Some ?o"
    by (rule rm_deserialize_at [OF 0]) (use fits in \<open>simp add: update_fits_def\<close>)
  moreover have "rm_deserialize ?off ?src = Some ?n"
    by (rule rm_deserialize_at [OF 1]) (use fits in \<open>simp add: update_fits_def\<close>)
  moreover have "get ?off2 8 ?src = Some (enc_rid (update_rid r))"
    by (rule rest_at_get [OF 2]) simp
  moreover have "get_tab (?off2 + 8) ?src = Some ?t"
    by (rule get_tab_at [OF 3]) (use fits in \<open>simp add: update_fits_def\<close>)
  ultimately show "deserialize_update ?src = Some r"
    using h fits unfolding deserialize_update_def Let_def
    by (simp add: dec_enc_rid update_fits_def update_ext)
  show "int (length (update_image r)) = log_tot_len r"
    using fits by (simp add: update_fits_def update_image_def)
qed

subsection \<open>Delta records\<close>

fun range_image :: "WalDiffRange \<times> bytes \<times> bytes \<Rightarrow> bytes" where
  "range_image (r, ov, nv) = le_enc 2 (r_off r) @ le_enc 2 (r_len r) @ ov @ nv"

fun range_fits :: "WalDiffRange \<times> bytes \<times> bytes \<Rightarrow> bool" where
  "range_fits (r, ov, nv) \<longleftrightarrow> in_u 2 (r_off r) \<and> in_u 2 (r_len r)
     \<and> int (length ov) = r_len r \<and> int (length nv) = r_len r"

definition delta_image :: "UpdateDeltaLogRecord \<Rightarrow> bytes" where
  "delta_image r = hdr_image r @ le_enc 1 (int (length (delta_tab r))) @ delta_tab r
     @ enc_rid (delta_rid r) @ le_enc 1 (int (length (delta_ranges r))) @ concat (map range_image (delta_ranges r))"

definition delta_fits :: "UpdateDeltaLogRecord \<Rightarrow> bool" where
  "delta_fits r \<longleftrightarrow> hdr_fits r \<and> rid_fits (delta_rid r) \<and> in_u 1 (int (length (delta_tab r)))
     \<and> length (delta_ranges r) \<le> MAX_RANGES \<and> list_all range_fits (delta_ranges r)
     \<and> log_tot_len r = int LOG_HEADER_SIZE + delta_payload (delta_tab r) (map fst (delta_ranges r))"

lemma put_range_written:
  assumes "range_fits rg" and "off + length a + length (range_image rg) \<le> length d"
  shows "put_range rg (written off a d) = written off (a @ range_image rg) d"
proof -
  obtain r ov nv where rg: "rg = (r, ov, nv)" by (cases rg)
  have "nat (r_len r) = length ov" "nat (r_len r) = length nv"
    using assms(1) by (auto simp: rg)
  with assms(2) show ?thesis by (simp add: put_range_def rg put_written)
qed

lemma put_ranges_written:
  assumes "list_all range_fits rs" and "off + length a + length (concat (map range_image rs)) \<le> length d"
  shows "fold put_range rs (written off a d) = written off (a @ concat (map range_image rs)) d"
  using assms by (induction rs arbitrary: a) (simp_all add: put_range_written)

lemma get_ranges_at:
  assumes "list_all range_fits rs" and "rest_at src off (concat (map range_image rs) @ rest)"
  shows "get_ranges (length rs) off src = Some rs"
  using assms
proof (induction rs arbitrary: off)
  case (Cons rg rs)
  obtain r ov nv where rg: "rg = (r, ov, nv)" by (cases rg)
  have u: "in_u 2 (r_off r)" "in_u 2 (r_len r)" "nat (r_len r) = length ov" "length nv = length ov"
    using Cons.prems(1) by (auto simp: rg)
  let ?tl = "concat (map range_image rs) @ rest"
  have 0: "rest_at src off (le_enc 2 (r_off r) @ le_enc 2 (r_len r) @ ov @ nv @ ?tl)"
    using Cons.prems(2) by (simp add: rg)
  have 1: "rest_at src (off + 2) (le_enc 2 (r_len r) @ ov @ nv @ ?tl)" by (rule rest_at_next [OF 0]) simp
  have 2: "rest_at src (off + 4) (ov @ nv @ ?tl)" by (rule rest_at_next [OF 1]) simp
  have 3: "rest_at src (off + 4 + length ov) (nv @ ?tl)" by (rule rest_at_next [OF 2]) simp
  have 4: "rest_at src (off + 4 + length ov + length ov) ?tl" by (rule rest_at_next [OF 3]) (simp add: u)
  have "get_ranges (length rs) (off + 4 + length ov + length ov) src = Some rs"
    using Cons.IH [OF _ 4] Cons.prems(1) by simp
  moreover have "get off 2 src = Some (le_enc 2 (r_off r))" by (rule rest_at_get [OF 0]) simp
  moreover have "get (off + 2) 2 src = Some (le_enc 2 (r_len r))" by (rule rest_at_get [OF 1]) simp
  moreover have "get (off + 4) (length ov) src = Some ov" by (rule rest_at_get [OF 2]) simp
  moreover have "get (off + 4 + length ov) (length ov) src = Some nv" by (rule rest_at_get [OF 3]) (simp add: u)
  ultimately show ?case using u by (simp add: rg codec_simps Let_def)
qed simp

lemma length_range_images:
  "list_all range_fits rs \<Longrightarrow> int (length (concat (map range_image rs))) = (\<Sum>d\<leftarrow>map fst rs. 4 + 2 * r_len d)"
  by (induction rs) auto

interpretation delta_log: log_codec serialize_delta deserialize_delta delta_image log_tot_len delta_fits
proof unfold_locales
  fix r dest buf rest
  assume fits: "delta_fits r"
  have rf: "list_all range_fits (delta_ranges r)" using fits by (simp add: delta_fits_def)
  show "dest + length (delta_image r) \<le> length buf \<Longrightarrow> serialize_delta r dest buf = wr dest (delta_image r) buf"
    using rf by (simp add: serialize_delta_def serialize_simps put_ranges_written delta_image_def)
  let ?src = "delta_image r @ rest" and ?t = "delta_tab r" and ?rs = "delta_ranges r"
  let ?tl = "concat (map range_image ?rs) @ rest"
  have 0: "rest_at ?src OFFSET_LOG_DATA (le_enc 1 (int (length ?t)) @ ?t @ enc_rid (delta_rid r)
      @ le_enc 1 (int (length ?rs)) @ ?tl)"
    by (simp add: rest_at_def delta_image_def LOG_HEADER_SIZE_def)
  have 1: "rest_at ?src (OFFSET_LOG_DATA + 1) (?t @ enc_rid (delta_rid r) @ le_enc 1 (int (length ?rs)) @ ?tl)"
    by (rule rest_at_next [OF 0]) simp
  have 2: "rest_at ?src (OFFSET_LOG_DATA + 1 + length ?t) (enc_rid (delta_rid r) @ le_enc 1 (int (length ?rs)) @ ?tl)"
    by (rule rest_at_next [OF 1]) simp
  have 3: "rest_at ?src (OFFSET_LOG_DATA + 1 + length ?t + 8) (le_enc 1 (int (length ?rs)) @ ?tl)"
    by (rule rest_at_next [OF 2]) simp
  have 4: "rest_at ?src (OFFSET_LOG_DATA + 1 + length ?t + 8 + 1) ?tl"
    by (rule rest_at_next [OF 3]) simp
  have n: "length ?rs \<le> MAX_RANGES" "in_u 1 (int (length ?rs))" "in_u 1 (int (length ?t))"
    using fits by (simp_all add: delta_fits_def MAX_RANGES_def in_u_def)
  have h: "deserialize ?src = Some (LogRecord.truncate r)"
    using deserialize_hdr_image [of r] fits by (simp add: delta_image_def delta_fits_def)
  have g0: "get OFFSET_LOG_DATA 1 ?src = Some (le_enc 1 (int (length ?t)))" by (rule rest_at_get [OF 0]) simp
  have g1: "get (OFFSET_LOG_DATA + 1) (length ?t) ?src = Some ?t" by (rule rest_at_get [OF 1]) simp
  have g2: "get (OFFSET_LOG_DATA + 1 + length ?t) 8 ?src = Some (enc_rid (delta_rid r))"
    by (rule rest_at_get [OF 2]) simp
  have g3: "get (OFFSET_LOG_DATA + 1 + length ?t + 8) 1 ?src = Some (le_enc 1 (int (length ?rs)))"
    by (rule rest_at_get [OF 3]) simp
  have g4: "get_ranges (length ?rs) (OFFSET_LOG_DATA + 1 + length ?t + 8 + 1) ?src = Some ?rs"
    by (rule get_ranges_at [OF rf 4])
  have d: "nat (le_dec_u (le_enc 1 (int (length ?t)))) = length ?t"
    "nat (le_dec_u (le_enc 1 (int (length ?rs)))) = length ?rs"
    using n by (simp_all only: le_dec_u_enc nat_int)
  have rid: "dec_rid (enc_rid (delta_rid r)) = delta_rid r"
    using fits by (simp add: dec_enc_rid delta_fits_def)
  show "deserialize_delta ?src = Some r"
    using n(1) unfolding deserialize_delta_def Let_def
    by (simp only: h g0 g1 g2 g3 g4 d rid bind.bind_lunit delta_ext flip: not_less) simp
  show "int (length (delta_image r)) = log_tot_len r"
    using fits length_range_images [OF rf] by (simp add: delta_fits_def delta_image_def delta_payload_def)
qed

subsection \<open>Differences cover every changed byte\<close>

lemma skip_same_spec:
  "i \<le> n \<Longrightarrow> skip_same a b n i \<le> n \<and> (\<forall>k. i \<le> k \<and> k < skip_same a b n i \<longrightarrow> a ! k = b ! k)"
proof (induction a b n i rule: skip_same.induct)
  case (1 a b n i)
  show ?case
  proof (cases "i < n \<and> a ! i = b ! i")
    case True
    with 1 have "skip_same a b n (i + 1) \<le> n"
      and "\<forall>k. i + 1 \<le> k \<and> k < skip_same a b n (i + 1) \<longrightarrow> a ! k = b ! k" by auto
    then show ?thesis
      using True skip_same.simps [of a b n i]
      by simp (metis Suc_leI le_neq_implies_less)
  next
    case False
    then have "skip_same a b n i = i" using skip_same.simps [of a b n i] by auto
    then show ?thesis using 1 by auto
  qed
qed

lemma extend_diff_le: "e \<le> n \<Longrightarrow> extend_diff a b n e \<le> n"
proof (induction a b n e rule: extend_diff.induct)
  case (1 a b n e)
  show ?case
  proof (cases "look_diff a b (if e + 8 < n then e + 8 else n) e")
    case None
    with 1(1,3) show ?thesis by (auto simp: extend_diff.simps [of a b n e])
  next
    case (Some k)
    then have "k + 1 \<le> n" using look_diff_bounds [OF Some] by (auto split: if_splits)
    with Some 1 show ?thesis
      using extend_diff.simps [of a b n e] by (cases "e < n"; cases "a ! e = b ! e") simp_all
  qed
qed

definition covered :: "WalDiffRange list \<Rightarrow> nat \<Rightarrow> bool" where
  "covered rs k \<longleftrightarrow> (\<exists>r\<in>set rs. r_off r \<le> int k \<and> int k < r_off r + r_len r)"

definition range_in :: "nat \<Rightarrow> WalDiffRange \<Rightarrow> bool" where
  "range_in n r \<longleftrightarrow> 0 \<le> r_off r \<and> 0 \<le> r_len r \<and> r_off r + r_len r \<le> int n"

lemma diff_loop_spec:
  assumes "diff_loop a b n i out = Some res" and "i \<le> n" and "n < 65536" and "length out \<le> 8"
  shows "\<exists>rs. res = out @ rs \<and> length res \<le> 8 \<and> list_all (range_in n) rs
    \<and> (\<forall>k. i \<le> k \<and> k < n \<and> \<not> covered rs k \<longrightarrow> a ! k = b ! k)"
  using assms
proof (induction a b n i out rule: diff_loop.induct)
  case (1 a b n i out)
  let ?s = "skip_same a b n i"
  let ?e = "extend_diff a b n (?s + 1)"
  have s: "?s \<le> n" "\<forall>k. i \<le> k \<and> k < ?s \<longrightarrow> a ! k = b ! k" using skip_same_spec [OF 1(3)] by auto
  show ?case
  proof (cases "i < n \<and> ?s < n")
    case False
    then have "res = out" using 1(2) diff_loop.simps [of a b n i out] by (auto simp: Let_def split: if_splits)
    moreover have "a ! k = b ! k" if "i \<le> k" "k < n" for k
      using that s False by (meson le_trans less_le_trans not_le order_less_le_trans)
    ultimately show ?thesis using 1(5) by simp
  next
    case True
    let ?r = "\<lparr>r_off = int ?s mod 65536, r_len = int (?e - ?s) mod 65536\<rparr>"
    have e: "?e \<le> n" "?s < ?e" using True extend_diff_le extend_diff_ge [of "?s + 1" a b n] by simp_all
    have len: "length out < 8" and rec: "diff_loop a b n ?e (out @ [?r]) = Some res"
      using 1(2) True diff_loop.simps [of a b n i out] by (auto simp: Let_def split: if_splits)
    obtain rs where rs: "res = (out @ [?r]) @ rs" "length res \<le> 8" "list_all (range_in n) rs"
      "\<forall>k. ?e \<le> k \<and> k < n \<and> \<not> covered rs k \<longrightarrow> a ! k = b ! k"
      using 1(1) [of ?s ?e] True len rec e 1(4) by fastforce
    have r: "r_off ?r = int ?s" "r_len ?r = int ?e - int ?s" using True e 1(4) by (simp_all add: of_nat_diff)
    have "range_in n ?r" using r e True by (simp add: range_in_def)
    moreover have "a ! k = b ! k" if k: "i \<le> k" "k < n" "\<not> covered (?r # rs) k" for k
    proof -
      have "\<not> covered rs k" "k < ?s \<or> ?e \<le> k"
        using k(3) r e unfolding covered_def by (auto simp del: select_convs) 
      then show ?thesis using s rs(4) k by blast
    qed
    ultimately show ?thesis using rs by (intro exI [of _ "?r # rs"]) simp
  qed
qed

lemma apply_side:
  assumes "list_all (range_in (length d)) rs" and "length v = length d"
  shows "length (foldl (\<lambda>d r. apply_range r (rd (nat (r_off r)) (nat (r_len r)) v) d) d rs) = length d
    \<and> (\<forall>k < length d. foldl (\<lambda>d r. apply_range r (rd (nat (r_off r)) (nat (r_len r)) v) d) d rs ! k =
         (if covered rs k then v ! k else d ! k))"
  using assms
proof (induction rs arbitrary: d)
  case Nil
  show ?case by (simp add: covered_def)
next
  case (Cons r rs)
  let ?d = "apply_range r (rd (nat (r_off r)) (nat (r_len r)) v) d"
  have r: "0 \<le> r_off r" "0 \<le> r_len r" "nat (r_off r) + nat (r_len r) \<le> length d"
    "\<not> int (length d) < r_off r + r_len r"
    using Cons.prems(1) by (auto simp: range_in_def)
  have lv: "length (rd (nat (r_off r)) (nat (r_len r)) v) = nat (r_len r)"
    using r(3) Cons.prems(2) by simp
  then have d: "?d = wr (nat (r_off r)) (rd (nat (r_off r)) (nat (r_len r)) v) d"
    using r(4) by (simp add: apply_range_def)
  have ld: "length ?d = length d" unfolding d using lv r(3) by simp
  have nth: "?d ! k = (if covered [r] k then v ! k else d ! k)" if "k < length d" for k
  proof -
    have "nat (r_off r) \<le> k \<and> k < nat (r_off r) + nat (r_len r) \<longleftrightarrow> covered [r] k"
      using r(1,2) by (auto simp: covered_def)
    then show ?thesis
      unfolding d using lv r Cons.prems(2) that
      by (subst nth_wr) (auto simp: nth_rd)
  qed
  have ih: "length (foldl (\<lambda>d r. apply_range r (rd (nat (r_off r)) (nat (r_len r)) v) d) ?d rs) = length d
    \<and> (\<forall>k < length d. foldl (\<lambda>d r. apply_range r (rd (nat (r_off r)) (nat (r_len r)) v) d) ?d rs ! k =
         (if covered rs k then v ! k else ?d ! k))"
    using Cons.IH [of ?d] Cons.prems ld by simp
  then show ?case using nth by (auto simp: covered_def)
qed

lemma apply_ranges_fold:
  fixes ds :: "WalDiffRange list" and ov nv :: bytes
  defines "rs \<equiv> map (\<lambda>d. (d, rd (nat (r_off d)) (nat (r_len d)) ov, rd (nat (r_off d)) (nat (r_len d)) nv)) ds"
  shows "apply_new_ranges rs d = foldl (\<lambda>d r. apply_range r (rd (nat (r_off r)) (nat (r_len r)) nv) d) d ds"
    and "apply_old_ranges rs d = foldl (\<lambda>d r. apply_range r (rd (nat (r_off r)) (nat (r_len r)) ov) d) d ds"
  unfolding rs_def apply_new_ranges_def apply_old_ranges_def by (induction ds arbitrary: d) simp_all

lemma new_delta_useful:
  assumes "useful (new_UpdateDeltaLogRecord txn ov nv n r tab)"
  obtains ds where "wal_byte_diff ov nv n = Some ds"
    and "delta_ranges (new_UpdateDeltaLogRecord txn ov nv n r tab) =
      map (\<lambda>d. (d, rd (nat (r_off d)) (nat (r_len d)) ov, rd (nat (r_off d)) (nat (r_len d)) nv)) ds"
    and "log_tot_len (new_UpdateDeltaLogRecord txn ov nv n r tab) =
      int LOG_HEADER_SIZE + delta_payload (take 255 tab) ds"
  using assms that
  by (auto simp: useful_def new_UpdateDeltaLogRecord_def Let_def split: option.splits if_splits)

lemma wal_byte_diff_spec:
  assumes "wal_byte_diff a b n = Some ds" and "n < 65536"
  shows "length ds \<le> 8 \<and> list_all (range_in n) ds \<and> (\<forall>k<n. \<not> covered ds k \<longrightarrow> a ! k = b ! k)"
  using diff_loop_spec [of a b n 0 "[]" ds] assms by (auto simp: wal_byte_diff_def)

lemma delta_side:
  assumes ds: "wal_byte_diff a b n = Some ds" and len: "length a = n" "length b = n" "length d = n" "n < 65536"
    and d: "\<And>k. k < n \<Longrightarrow> d ! k = a ! k \<or> d ! k = b ! k" and v: "v = a \<or> v = b"
  shows "foldl (\<lambda>d r. apply_range r (rd (nat (r_off r)) (nat (r_len r)) v) d) d ds = v"
proof -
  have sp: "list_all (range_in (length d)) ds" "\<forall>k<n. \<not> covered ds k \<longrightarrow> a ! k = b ! k"
    using wal_byte_diff_spec [OF ds len(4)] len(3) by simp_all
  have lv: "length v = length d" using v len by auto
  show ?thesis
  proof (rule nth_equalityI)
    fix k assume k: "k < length (foldl (\<lambda>d r. apply_range r (rd (nat (r_off r)) (nat (r_len r)) v) d) d ds)"
    then have "k < n" using apply_side [OF sp(1) lv] len by simp
    then show "foldl (\<lambda>d r. apply_range r (rd (nat (r_off r)) (nat (r_len r)) v) d) d ds ! k = v ! k"
      using apply_side [OF sp(1) lv] sp(2) d [of k] v len by auto
  qed (use apply_side [OF sp(1) lv] lv in simp)
qed

lemma new_delta_fits:
  assumes us: "useful (new_UpdateDeltaLogRecord txn ov nv n r tab)" and len: "length ov = n" "length nv = n" "n < 65536"
    and "in_s 8 txn" and "rid_fits r"
  shows "delta_fits (new_UpdateDeltaLogRecord txn ov nv n r tab)"
proof -
  let ?R = "new_UpdateDeltaLogRecord txn ov nv n r tab"
  obtain ds where ds: "wal_byte_diff ov nv n = Some ds"
    and rs: "delta_ranges ?R =
      map (\<lambda>d. (d, rd (nat (r_off d)) (nat (r_len d)) ov, rd (nat (r_off d)) (nat (r_len d)) nv)) ds"
    and tot: "log_tot_len ?R = int LOG_HEADER_SIZE + delta_payload (take 255 tab) ds"
    using new_delta_useful [OF us] .
  have sp: "length ds \<le> 8" "list_all (range_in n) ds" using wal_byte_diff_spec [OF ds len(3)] by simp_all
  have fit: "range_fits (d, rd (nat (r_off d)) (nat (r_len d)) ov, rd (nat (r_off d)) (nat (r_len d)) nv)"
    if "range_in n d" for d
    using that len by (auto simp: range_in_def in_u_def)
  have fields: "log_type ?R = 7" "lsn ?R = -1" "log_tid ?R = txn" "prev_lsn ?R = -1" "delta_rid ?R = r"
    "delta_tab ?R = take 255 tab"
    by (simp_all add: new_UpdateDeltaLogRecord_def Let_def INVALID_LSN_def split: option.splits)
  have sum: "0 \<le> (\<Sum>d\<leftarrow>xs. 4 + 2 * r_len d) \<and> (\<Sum>d\<leftarrow>xs. 4 + 2 * r_len d) \<le> int (length xs) * 131076"
    if "list_all (range_in n) xs" for xs
    using that len by (induction xs) (auto simp: range_in_def)
  have "(\<Sum>d\<leftarrow>ds. 4 + 2 * r_len d) \<le> 8 * 131076" using sum [OF sp(2)] sp(1) by linarith
  then have "in_u 4 (log_tot_len ?R)"
    unfolding tot delta_payload_def using sum [OF sp(2)] by (simp add: in_u_def log_offsets)
  then have "hdr_fits ?R" using assms(5) by (simp add: hdr_fits_def fields in_s_def)
  moreover have "list_all range_fits (delta_ranges ?R)"
    unfolding rs using sp(2) fit by (auto simp: list_all_iff simp del: range_fits.simps)
  ultimately show ?thesis
    using assms(6) sp(1) tot by (simp add: delta_fits_def fields rs in_u_def MAX_RANGES_def comp_def)
qed

section \<open>Any record\<close>

fun image_any :: "any_log \<Rightarrow> bytes" where
  "image_any (HdrLog r) = hdr_image r"
| "image_any (InsertLog r) = insert_image r"
| "image_any (DeleteLog r) = delete_image r"
| "image_any (UpdateLog r) = update_image r"
| "image_any (DeltaLog r) = delta_image r"

fun fits_any :: "any_log \<Rightarrow> bool" where
  "fits_any (HdrLog r) \<longleftrightarrow> hdr_only_fits r \<and> log_type r \<in> {3, 4, 5, 6}"
| "fits_any (InsertLog r) \<longleftrightarrow> insert_fits r \<and> log_type r = log_type_code INSERT"
| "fits_any (DeleteLog r) \<longleftrightarrow> delete_fits r \<and> log_type r = log_type_code DELETE"
| "fits_any (UpdateLog r) \<longleftrightarrow> update_fits r \<and> log_type r = log_type_code UPDATE"
| "fits_any (DeltaLog r) \<longleftrightarrow> delta_fits r \<and> log_type r = log_type_code UPDATE_DELTA"

lemma type_of_image:
  "in_s 4 (log_type r) \<Longrightarrow> le_dec_s (rd OFFSET_LOG_TYPE 4 (hdr_image r @ rest)) = log_type r"
  by (simp add: hdr_image_def rd_def OFFSET_LOG_TYPE_def codec_simps)

lemma hdr_fits_type: "hdr_fits r \<Longrightarrow> in_s 4 (log_type r)"
  by (simp add: hdr_fits_def)

lemma deserialize_any_image:
  assumes "fits_any r"
  shows "deserialize_any (image_any r @ rest) = Some r"
proof (cases r)
  case (HdrLog h)
  then have h: "hdr_fits h" "hdr_only_fits h" "log_type h \<in> {3, 4, 5, 6}"
    using assms by (simp_all add: hdr_only_fits_def)
  show ?thesis
    using h hdr_log.deser_image [OF h(2), of rest]
    by (auto simp: HdrLog deserialize_any_def Let_def type_of_image [OF hdr_fits_type])
next
  case (InsertLog x)
  then have h: "hdr_fits x" "insert_fits x" "log_type x = 1" using assms by (simp_all add: insert_fits_def)
  have "insert_image x = hdr_image x @ drop LOG_HEADER_SIZE (insert_image x)" by (simp add: insert_image_def)
  then have "le_dec_s (rd OFFSET_LOG_TYPE 4 (insert_image x @ rest)) = 1"
    using type_of_image [OF hdr_fits_type [OF h(1)]] h(3) by (metis append.assoc)
  then show ?thesis using insert_log.deser_image [OF h(2), of rest]
    by (simp add: InsertLog deserialize_any_def insert_image_def)
next
  case (DeleteLog x)
  then have h: "hdr_fits x" "delete_fits x" "log_type x = 2" using assms by (simp_all add: delete_fits_def)
  have "delete_image x = hdr_image x @ drop LOG_HEADER_SIZE (delete_image x)" by (simp add: delete_image_def)
  then have "le_dec_s (rd OFFSET_LOG_TYPE 4 (delete_image x @ rest)) = 2"
    using type_of_image [OF hdr_fits_type [OF h(1)]] h(3) by (metis append.assoc)
  then show ?thesis using delete_log.deser_image [OF h(2), of rest]
    by (simp add: DeleteLog deserialize_any_def delete_image_def)
next
  case (UpdateLog x)
  then have h: "hdr_fits x" "update_fits x" "log_type x = 0" using assms by (simp_all add: update_fits_def)
  have "update_image x = hdr_image x @ drop LOG_HEADER_SIZE (update_image x)" by (simp add: update_image_def)
  then have "le_dec_s (rd OFFSET_LOG_TYPE 4 (update_image x @ rest)) = 0"
    using type_of_image [OF hdr_fits_type [OF h(1)]] h(3) by (metis append.assoc)
  then show ?thesis using update_log.deser_image [OF h(2), of rest]
    by (simp add: UpdateLog deserialize_any_def update_image_def)
next
  case (DeltaLog x)
  then have h: "hdr_fits x" "delta_fits x" "log_type x = 7" using assms by (simp_all add: delta_fits_def)
  have "delta_image x = hdr_image x @ drop LOG_HEADER_SIZE (delta_image x)" by (simp add: delta_image_def)
  then have "le_dec_s (rd OFFSET_LOG_TYPE 4 (delta_image x @ rest)) = 7"
    using type_of_image [OF hdr_fits_type [OF h(1)]] h(3) by (metis append.assoc)
  then show ?thesis using delta_log.deser_image [OF h(2), of rest]
    by (simp add: DeltaLog deserialize_any_def delta_image_def)
qed

interpretation any_log: log_codec serialize_any deserialize_any image_any tot_len_any fits_any
proof unfold_locales
  fix r dest buf rest
  assume fits: "fits_any r"
  show "dest + length (image_any r) \<le> length buf \<Longrightarrow> serialize_any r dest buf = wr dest (image_any r) buf"
    using fits by (cases r) (simp_all add: serialize_image insert_log.ser_image delete_log.ser_image
        update_log.ser_image delta_log.ser_image)
  show "deserialize_any (image_any r @ rest) = Some r" by (rule deserialize_any_image [OF fits])
  show "int (length (image_any r)) = tot_len_any r"
    using fits by (cases r) (simp_all add: insert_log.len_image delete_log.len_image
        update_log.len_image delta_log.len_image hdr_only_fits_def)
qed

section \<open>Properties\<close>

text \<open>
  C25: serializing a log record of any class into a buffer with room for its \<^verbatim>\<open>log_tot_len_\<close> bytes
  changes only those bytes, and deserializing there, choosing the class by the type field, gives the
  record back.
\<close>

theorem log_record_roundtrip:
  assumes "fits_any r" and "int dest + tot_len_any r \<le> int (length buf)"
  shows "deserialize_any (drop dest (serialize_any r dest buf)) = Some r
    \<and> length (serialize_any r dest buf) = length buf
    \<and> take dest (serialize_any r dest buf) = take dest buf
    \<and> drop (dest + nat (tot_len_any r)) (serialize_any r dest buf) = drop (dest + nat (tot_len_any r)) buf"
  using any_log.ser_deser [OF assms] any_log.ser_frame [OF assms] by blast

theorem log_record_roundtrip_witness:
  "deserialize_any (drop 3 (serialize_any
      (InsertLog (new_InsertLogRecord 9 [1, 2, 3] \<lparr>page_no = 5, slot_no = 6\<rparr> [116])) 3 (replicate 80 0)))
    = Some (InsertLog (new_InsertLogRecord 9 [1, 2, 3] \<lparr>page_no = 5, slot_no = 6\<rparr> [116]))"
  using log_record_roundtrip
    [of "InsertLog (new_InsertLogRecord 9 [1, 2, 3] \<lparr>page_no = 5, slot_no = 6\<rparr> [116])" 3 "replicate 80 0"]
  by (simp add: new_InsertLogRecord_def insert_fits_def hdr_fits_def rid_fits_def in_s_def in_u_def
      INVALID_LSN_def log_offsets)

text \<open>
  C27: a delta record kept for a row of at most 65535 bytes has at most eight ranges and an
  accurate length, and on any row image in which each byte is the old or the new one, its new ranges
  give the new row and its old ranges give the old row, so redo and undo are idempotent.
\<close>

theorem delta_redo_undo:
  assumes "useful (new_UpdateDeltaLogRecord txn ov nv n r tab)"
    and "length ov = n" and "length nv = n" and "length d = n" and "n < 65536"
    and "\<And>k. k < n \<Longrightarrow> d ! k = ov ! k \<or> d ! k = nv ! k"
    and "in_s 8 txn" and "rid_fits r"
  shows "apply_new_ranges (delta_ranges (new_UpdateDeltaLogRecord txn ov nv n r tab)) d = nv
    \<and> apply_old_ranges (delta_ranges (new_UpdateDeltaLogRecord txn ov nv n r tab)) d = ov
    \<and> fits_any (DeltaLog (new_UpdateDeltaLogRecord txn ov nv n r tab))"
proof -
  obtain ds where ds: "wal_byte_diff ov nv n = Some ds"
    and rs: "delta_ranges (new_UpdateDeltaLogRecord txn ov nv n r tab) =
      map (\<lambda>d. (d, rd (nat (r_off d)) (nat (r_len d)) ov, rd (nat (r_off d)) (nat (r_len d)) nv)) ds"
    using new_delta_useful [OF assms(1)] .
  have "log_type (new_UpdateDeltaLogRecord txn ov nv n r tab) = 7"
    by (simp add: new_UpdateDeltaLogRecord_def Let_def split: option.splits)
  then show ?thesis
    unfolding rs apply_ranges_fold using delta_side [OF ds assms(2-6)] new_delta_fits [OF assms(1-3,5,7,8)]
    by simp
qed

theorem delta_redo_undo_witness:
  "apply_new_ranges (delta_ranges (new_UpdateDeltaLogRecord 1 (replicate 40 0) ((replicate 40 0)[5 := 1, 20 := 2])
      40 \<lparr>page_no = 1, slot_no = 0\<rparr> [116])) ((replicate 40 0)[20 := 2]) = (replicate 40 0)[5 := 1, 20 := 2]"
proof (rule delta_redo_undo [THEN conjunct1])
  show "useful (new_UpdateDeltaLogRecord 1 (replicate 40 0) ((replicate 40 0)[5 := 1, 20 := 2])
      40 \<lparr>page_no = 1, slot_no = 0\<rparr> [116])" by code_simp
qed (simp_all add: nth_list_update in_s_def rid_fits_def)

text \<open>
  C28: the table-driven checksum of a log batch equals the bitwise definition of CRC-32.
\<close>

theorem wal_crc32_bitwise: "wal_crc32 d = crc32_bitwise d"
proof -
  have "crc_step = (\<lambda>c b. (crc_bit ^^ 8) (c XOR ucast b))" by (intro ext) (rule crc_step_bitwise)
  moreover have "(0xFFFFFFFF :: 32 word) = NOT 0" by simp
  moreover have "x XOR NOT 0 = NOT x" for x :: "32 word" by (rule bit_word_eqI) (simp add: bit_simps)
  ultimately show ?thesis by (simp only: wal_crc32_def crc32_bitwise_def)
qed



end
