(* ===== verification/Log_Manager.thy ===== *)
theory Log_Manager
  imports Log_Codec Disk_Manager
begin

text \<open>
  The log manager, \<^verbatim>\<open>src/src/recovery/log_manager.cpp\<close>: double-buffered group commit. Threads that
  append records, threads that wait for their records to become durable and the flush worker
  interleave at the points where the code releases a mutex; each atomic stretch is one step. A
  step that is not enabled leaves the state alone, so that a run is a list of events.

  The fields \<open>synced\<close>, \<open>inflight\<close>, \<open>pending\<close> and \<open>returned\<close> are history variables, which no operation
  reads: the batches that were synced, the records in the buffer being flushed, the records in the
  active buffer, and the positions whose waiters returned while the log was not being stopped.
  Waiting threads are lists: appenders with their record, committers with their position.
\<close>

section \<open>Statistics\<close>

record WalStats =
  n_fsync :: "64 word"
  fsync_us_total :: "64 word"
  fsync_us_max :: "64 word"
  n_bytes :: "64 word"
  n_batches :: "64 word"
  n_commit_waits :: "64 word"
  lat_bucket :: "64 word list"

definition wal_stats_new :: WalStats where
  "wal_stats_new = \<lparr>n_fsync = 0, fsync_us_total = 0, fsync_us_max = 0, n_bytes = 0, n_batches = 0,
     n_commit_waits = 0, lat_bucket = replicate 6 0\<rparr>"

definition record_fsync_latency :: "64 word \<Rightarrow> WalStats \<Rightarrow> WalStats" where
  "record_fsync_latency us s =
     (let bucket = (if us < 1000 then 0 else if us < 5000 then 1 else if us < 10000 then 2
                    else if us < 20000 then 3 else if us < 50000 then 4 else 5)
      in s\<lparr>n_fsync := n_fsync s + 1, fsync_us_total := fsync_us_total s + us,
           fsync_us_max := max (fsync_us_max s) us,
           lat_bucket := (lat_bucket s)[bucket := lat_bucket s ! bucket + 1]\<rparr>)"

section \<open>State\<close>

datatype worker_pc =
    W_Idle
  | W_Loop bool
  | W_Gather
  | W_After
  | W_Header nat int int lsn_t
  | W_Body nat int int lsn_t
  | W_Sync nat lsn_t
  | W_Persist nat lsn_t
  | W_Relock nat
  | W_Exit
  | W_Crashed

record logmgr =
  global_lsn :: lsn_t
  stop :: bool
  flush_requested :: bool
  bufs :: "nat \<Rightarrow> LogBuffer"
  active :: nat
  persist_lsn :: lsn_t
  requested_lsn :: lsn_t
  space_waiters :: int
  total_offset :: int
  group_commit_window_us :: int
  gc_waiters :: int
  gc_bytes :: int
  persist_waiters :: int
  wal_stats :: WalStats
  log_disk :: disk
  worker :: worker_pc
  append_wait :: "any_log list"
  persist_request :: "(bool \<times> lsn_t) list"
  persist_wait :: "(bool \<times> lsn_t) list"
  overrun :: bool
  synced :: "any_log list list"
  inflight :: "any_log list"
  pending :: "any_log list"
  returned :: "lsn_t set"

text \<open>
  The constructor, and \<open>init_offset\<close>, which recovery calls before the first record is appended.
  \<open>env\<close> gives the value that \<^verbatim>\<open>strtol\<close> reads from an environment variable.
\<close>

definition log_manager_new :: "(string \<Rightarrow> int option) \<Rightarrow> disk \<Rightarrow> logmgr" where
  "log_manager_new env d =
     \<lparr>global_lsn = 0, stop = False, flush_requested = False, bufs = (\<lambda>_. log_buffer_new), active = 0,
      persist_lsn = INVALID_LSN, requested_lsn = INVALID_LSN, space_waiters = 0, total_offset = 0,
      group_commit_window_us =
        (case env ''RMDB_GROUP_COMMIT_WINDOW_US'' of Some v \<Rightarrow> if 0 \<le> v then v else 0 | None \<Rightarrow> 0),
      gc_waiters = (case env ''RMDB_GC_WAITERS'' of Some v \<Rightarrow> if 0 \<le> v \<and> v \<le> 1024 then v else 0 | None \<Rightarrow> 0),
      gc_bytes = (case env ''RMDB_GC_BYTES'' of Some v \<Rightarrow> if 0 \<le> v \<and> v \<le> 2 ^ 30 then v else 0 | None \<Rightarrow> 0),
      persist_waiters = 0, wal_stats = wal_stats_new, log_disk = d, worker = W_Idle, append_wait = [],
      persist_request = [], persist_wait = [], overrun = False, synced = [], inflight = [], pending = [],
      returned = {}\<rparr>"

definition init_offset :: "int \<Rightarrow> logmgr \<Rightarrow> logmgr" where
  "init_offset disk_bytes s = s\<lparr>total_offset := disk_bytes\<rparr>"

definition cur_offset :: "logmgr \<Rightarrow> int" where
  "cur_offset s = total_offset s"

definition active_buf :: "logmgr \<Rightarrow> LogBuffer" where
  "active_buf s = bufs s (active s)"

section \<open>Appending\<close>

text \<open>
  The tail of \<open>add_log_to_buffer\<close>, after the wait for space. A record that does not fit the array
  (possible only when the loop was left because of \<^verbatim>\<open>stop_\<close>) would be written past its end; the run
  is then undefined, recorded in \<open>overrun\<close>.
\<close>

definition append_record :: "any_log \<Rightarrow> logmgr \<Rightarrow> logmgr" where
  "append_record r s =
     (let len = tot_len_any r; b = active_buf s; r' = set_lsn_any (global_lsn s) r
      in if int (LOG_BUFFER_SIZE + 1) < int (offset b) + len then s\<lparr>overrun := True\<rparr>
         else s\<lparr>global_lsn := global_lsn s + 1,
                bufs := (bufs s)(active s := \<lparr>buffer = serialize_any r' (offset b) (buffer b),
                                              offset = nat (int (offset b) + len)\<rparr>),
                total_offset := total_offset s + len,
                pending := pending s @ [r']\<rparr>)"

definition add_log_to_buffer :: "any_log \<Rightarrow> logmgr \<Rightarrow> logmgr" where
  "add_log_to_buffer r s =
     (if is_full (active_buf s) (tot_len_any r)
      then s\<lparr>flush_requested := True, space_waiters := space_waiters s + 1,
             append_wait := append_wait s @ [r]\<rparr>
      else append_record r s)"

definition resume_append :: "nat \<Rightarrow> logmgr \<Rightarrow> logmgr" where
  "resume_append i s =
     (if i < length (append_wait s)
         \<and> (\<not> is_full (active_buf s) (tot_len_any (append_wait s ! i)) \<or> stop s)
      then append_record (append_wait s ! i)
             (s\<lparr>space_waiters := space_waiters s - 1,
                append_wait := take i (append_wait s) @ drop (Suc i) (append_wait s)\<rparr>)
      else s)"

section \<open>Waiting for durability\<close>

text \<open>
  The first critical section of \<open>flush_log_to_disk\<close> and \<open>wait_for_persist\<close> (the flag tells them
  apart: only the second counts its waits), \<open>request_flush\<close>, and the return from the wait.
\<close>

definition note_return :: "lsn_t \<Rightarrow> logmgr \<Rightarrow> logmgr" where
  "note_return t s = (if t \<le> persist_lsn s then s\<lparr>returned := insert t (returned s)\<rparr> else s)"

definition wait_for_persist :: "lsn_t \<Rightarrow> logmgr \<Rightarrow> logmgr" where
  "wait_for_persist t s =
     (if t \<le> persist_lsn s then note_return t s
      else s\<lparr>wal_stats := (wal_stats s)\<lparr>n_commit_waits := n_commit_waits (wal_stats s) + 1\<rparr>,
             persist_waiters := persist_waiters s + 1,
             requested_lsn := (if requested_lsn s < t then t else requested_lsn s),
             persist_request := persist_request s @ [(True, t)]\<rparr>)"

definition flush_log_to_disk :: "logmgr \<Rightarrow> logmgr" where
  "flush_log_to_disk s =
     (let t = global_lsn s - 1
      in if t \<le> persist_lsn s then note_return t s
         else s\<lparr>requested_lsn := (if requested_lsn s < t then t else requested_lsn s),
                persist_request := persist_request s @ [(False, t)]\<rparr>)"

definition request_flush :: "nat \<Rightarrow> logmgr \<Rightarrow> logmgr" where
  "request_flush i s =
     (if i < length (persist_request s)
      then s\<lparr>flush_requested := True,
             persist_request := take i (persist_request s) @ drop (Suc i) (persist_request s),
             persist_wait := persist_wait s @ [persist_request s ! i]\<rparr>
      else s)"

definition persist_return :: "nat \<Rightarrow> logmgr \<Rightarrow> logmgr" where
  "persist_return i s =
     (if i < length (persist_wait s) \<and> (snd (persist_wait s ! i) \<le> persist_lsn s \<or> stop s)
      then note_return (snd (persist_wait s ! i))
             (s\<lparr>persist_waiters := persist_waiters s - (if fst (persist_wait s ! i) then 1 else 0),
                persist_wait := take i (persist_wait s) @ drop (Suc i) (persist_wait s)\<rparr>)
      else s)"

section \<open>The flush worker\<close>

definition thresh_met :: "logmgr \<Rightarrow> bool" where
  "thresh_met s \<longleftrightarrow> 0 < space_waiters s \<or> stop s
     \<or> 0 < gc_waiters s \<and> gc_waiters s \<le> persist_waiters s
     \<or> 0 < gc_bytes s \<and> gc_bytes s \<le> int (offset (active_buf s))"

definition swap_buffers :: "logmgr \<Rightarrow> logmgr" where
  "swap_buffers s =
     (let fl = active s; batch_bytes = int (offset (bufs s fl))
      in s\<lparr>active := (if fl = 0 then 1 else 0),
           total_offset := total_offset s + int WAL_BATCH_HDR_SIZE,
           worker := W_Header fl batch_bytes (total_offset s - batch_bytes) (global_lsn s - 1),
           inflight := pending s, pending := []\<rparr>)"

definition batch_header :: "bytes \<Rightarrow> bytes" where
  "batch_header body = le_enc 4 WAL_BATCH_MAGIC @ le_enc 4 (int (length body))
     @ le_enc 4 (uint (wal_crc32 body))"

definition worker_loop :: "bool \<Rightarrow> logmgr \<Rightarrow> logmgr" where
  "worker_loop first_round s =
     (if offset (active_buf s) = 0 then s\<lparr>worker := W_After\<rparr>
      else let need_flush = (persist_lsn s < requested_lsn s);
               p3_on = (0 < gc_waiters s \<or> 0 < gc_bytes s);
               calm = (first_round \<and> need_flush \<and> space_waiters s = 0 \<and> \<not> stop s)
           in if \<not> need_flush \<and> space_waiters s = 0 \<and> \<not> stop s then s\<lparr>worker := W_After\<rparr>
              else if calm \<and> p3_on
              then if thresh_met s then swap_buffers s else s\<lparr>worker := W_Gather\<rparr>
              else if calm \<and> 0 < group_commit_window_us s then s\<lparr>worker := W_Gather\<rparr>
              else swap_buffers s)"

definition write_part :: "bytes \<Rightarrow> int \<Rightarrow> worker_pc \<Rightarrow> logmgr \<Rightarrow> logmgr" where
  "write_part bs off next_pc s =
     (case write_log (log_disk s) bs off of
        Inl e \<Rightarrow> s\<lparr>worker := W_Crashed\<rparr>
      | Inr d \<Rightarrow> s\<lparr>log_disk := d, worker := next_pc\<rparr>)"

text \<open>One step of \<open>flush_worker\<close>; \<open>us\<close> is the measured duration of an \<^verbatim>\<open>fdatasync\<close>.\<close>

fun flush_worker :: "64 word \<Rightarrow> logmgr \<Rightarrow> worker_pc \<Rightarrow> logmgr" where
  "flush_worker us s W_Idle =
     (if stop s \<or> flush_requested s then s\<lparr>flush_requested := False, worker := W_Loop True\<rparr> else s)"
| "flush_worker us s (W_Loop first_round) = worker_loop first_round s"
| "flush_worker us s W_Gather = s\<lparr>worker := W_Loop False\<rparr>"
| "flush_worker us s W_After = s\<lparr>worker := (if stop s then W_Exit else W_Idle)\<rparr>"
| "flush_worker us s (W_Header fl bb boff t) =
     write_part (batch_header (take (nat bb) (buffer (bufs s fl)))) boff (W_Body fl bb boff t) s"
| "flush_worker us s (W_Body fl bb boff t) =
     write_part (take (nat bb) (buffer (bufs s fl))) (boff + int WAL_BATCH_HDR_SIZE) (W_Sync fl t)
       (s\<lparr>wal_stats := (wal_stats s)\<lparr>n_bytes := n_bytes (wal_stats s) + word_of_int (bb + int WAL_BATCH_HDR_SIZE),
                                    n_batches := n_batches (wal_stats s) + 1\<rparr>\<rparr>)"
| "flush_worker us s (W_Sync fl t) =
     (case sync_log (log_disk s) of
        Inl e \<Rightarrow> s\<lparr>worker := W_Crashed\<rparr>
      | Inr d \<Rightarrow> s\<lparr>log_disk := d, wal_stats := record_fsync_latency us (wal_stats s),
                   worker := W_Persist fl t, synced := synced s @ [inflight s], inflight := []\<rparr>)"
| "flush_worker us s (W_Persist fl t) = s\<lparr>persist_lsn := t, worker := W_Relock fl\<rparr>"
| "flush_worker us s (W_Relock fl) =
     s\<lparr>bufs := (bufs s)(fl := (bufs s fl)\<lparr>offset := 0\<rparr>), worker := W_Loop False\<rparr>"
| "flush_worker us s W_Exit = s"
| "flush_worker us s W_Crashed = s"

section \<open>Runs\<close>

text \<open>
  Appended records are those the constructors build, positions waited for are those that
  \<open>add_log_to_buffer\<close> returned, and a run covers the \<open>2 ^ 31\<close> positions of the 32-bit counter.
\<close>

datatype log_event =
    Append any_log
  | ResumeAppend nat
  | WaitForPersist lsn_t
  | FlushLogToDisk
  | RequestFlush nat
  | PersistReturn nat
  | Worker "64 word"
  | StopLog

fun log_step :: "log_event \<Rightarrow> logmgr \<Rightarrow> logmgr" where
  "log_step (Append r) s = (if fits_any r \<and> global_lsn s < 2 ^ 31 then add_log_to_buffer r s else s)"
| "log_step (ResumeAppend i) s = (if global_lsn s < 2 ^ 31 then resume_append i s else s)"
| "log_step (WaitForPersist t) s = (if t < global_lsn s then wait_for_persist t s else s)"
| "log_step FlushLogToDisk s = flush_log_to_disk s"
| "log_step (RequestFlush i) s = request_flush i s"
| "log_step (PersistReturn i) s = persist_return i s"
| "log_step (Worker us) s = flush_worker us s (worker s)"
| "log_step StopLog s = s\<lparr>stop := True, flush_requested := True\<rparr>"

definition log_exec :: "logmgr \<Rightarrow> log_event \<Rightarrow> logmgr" where
  "log_exec s e = (if overrun s then s else log_step e s)"

definition log_run :: "log_event list \<Rightarrow> logmgr \<Rightarrow> logmgr" where
  "log_run es s = foldl log_exec s es"

section \<open>Invariant\<close>

definition images :: "any_log list \<Rightarrow> bytes" where
  "images rs = concat (map image_any rs)"

definition batch_frame :: "any_log list \<Rightarrow> bytes" where
  "batch_frame rs = batch_header (images rs) @ images rs"

definition batch_frames :: "any_log list list \<Rightarrow> bytes" where
  "batch_frames bs = concat (map batch_frame bs)"

fun lsn_any :: "any_log \<Rightarrow> lsn_t" where
  "lsn_any (HdrLog r) = lsn r"
| "lsn_any (InsertLog r) = lsn r"
| "lsn_any (DeleteLog r) = lsn r"
| "lsn_any (UpdateLog r) = lsn r"
| "lsn_any (DeltaLog r) = lsn r"

definition other :: "nat \<Rightarrow> nat" where
  "other i = (if i = 0 then 1 else 0)"

definition history :: "logmgr \<Rightarrow> any_log list" where
  "history s = concat (synced s) @ inflight s @ pending s"

definition buf_holds :: "LogBuffer \<Rightarrow> any_log list \<Rightarrow> bool" where
  "buf_holds b rs \<longleftrightarrow> length (buffer b) = LOG_BUFFER_SIZE + 1 \<and> offset b \<le> LOG_BUFFER_SIZE + 1
     \<and> offset b = length (images rs) \<and> take (offset b) (buffer b) = images rs"

definition writing :: "worker_pc \<Rightarrow> bool" where
  "writing pc = (case pc of W_Header _ _ _ _ \<Rightarrow> True | W_Body _ _ _ _ \<Rightarrow> True | W_Sync _ _ \<Rightarrow> True | _ \<Rightarrow> False)"

definition bufs_inv :: "logmgr \<Rightarrow> bool" where
  "bufs_inv s \<longleftrightarrow> active s \<in> {0, 1} \<and> buf_holds (bufs s (active s)) (pending s)
     \<and> length (buffer (bufs s (other (active s)))) = LOG_BUFFER_SIZE + 1
     \<and> (if writing (worker s) then buf_holds (bufs s (other (active s))) (inflight s) \<and> inflight s \<noteq> []
        else inflight s = [])"

definition offset_inv :: "bytes \<Rightarrow> logmgr \<Rightarrow> bool" where
  "offset_inv p0 s \<longleftrightarrow> total_offset s = int (length (p0 @ batch_frames (synced s))) + int (length (images (pending s)))
     + (if writing (worker s) then int (length (batch_frame (inflight s))) else 0)"

definition history_inv :: "logmgr \<Rightarrow> bool" where
  "history_inv s \<longleftrightarrow> global_lsn s = int (length (history s)) \<and> global_lsn s \<le> 2 ^ 31
     \<and> map lsn_any (history s) = map int [0..<length (history s)]
     \<and> list_all fits_any (history s) \<and> list_all fits_any (append_wait s)"

definition disk_prefix_inv :: "bytes \<Rightarrow> logmgr \<Rightarrow> bool" where
  "disk_prefix_inv p0 s \<longleftrightarrow> log_ready (log_disk s) \<and> prefix (p0 @ batch_frames (synced s)) (log_content (log_disk s))
     \<and> prefix (p0 @ batch_frames (synced s)) (log_synced (log_disk s))"

definition synced_count :: "logmgr \<Rightarrow> int" where
  "synced_count s = int (length (concat (synced s)))"

text \<open>What holds at each point of the worker; \<open>e\<close> is the end of the synced part of the log.\<close>

fun worker_inv :: "bytes \<Rightarrow> logmgr \<Rightarrow> worker_pc \<Rightarrow> bool" where
  "worker_inv p0 s (W_Header fl bb boff t) \<longleftrightarrow> fl = other (active s) \<and> bb = int (length (images (inflight s)))
     \<and> boff = int (length (p0 @ batch_frames (synced s))) \<and> t = synced_count s + int (length (inflight s)) - 1
     \<and> persist_lsn s = synced_count s - 1"
| "worker_inv p0 s (W_Body fl bb boff t) \<longleftrightarrow> fl = other (active s) \<and> bb = int (length (images (inflight s)))
     \<and> boff = int (length (p0 @ batch_frames (synced s))) \<and> t = synced_count s + int (length (inflight s)) - 1
     \<and> prefix (p0 @ batch_frames (synced s) @ batch_header (images (inflight s))) (log_content (log_disk s))
     \<and> persist_lsn s = synced_count s - 1"
| "worker_inv p0 s (W_Sync fl t) \<longleftrightarrow> fl = other (active s) \<and> t = synced_count s + int (length (inflight s)) - 1
     \<and> log_opened (log_disk s)
     \<and> prefix (p0 @ batch_frames (synced s) @ batch_frame (inflight s)) (log_content (log_disk s))
     \<and> persist_lsn s = synced_count s - 1"
| "worker_inv p0 s (W_Persist fl t) \<longleftrightarrow> fl = other (active s) \<and> t = synced_count s - 1
     \<and> persist_lsn s \<le> synced_count s - 1"
| "worker_inv p0 s (W_Relock fl) \<longleftrightarrow> fl = other (active s) \<and> persist_lsn s = synced_count s - 1"
| "worker_inv p0 s W_Crashed \<longleftrightarrow> False"
| "worker_inv p0 s W_Exit \<longleftrightarrow> offset (bufs s (other (active s))) = 0 \<and> persist_lsn s = synced_count s - 1 \<and> stop s"
| "worker_inv p0 s _ \<longleftrightarrow> offset (bufs s (other (active s))) = 0 \<and> persist_lsn s = synced_count s - 1"

definition waits_inv :: "logmgr \<Rightarrow> bool" where
  "waits_inv s \<longleftrightarrow> requested_lsn s < global_lsn s
     \<and> (\<forall>w \<in> set (persist_request s @ persist_wait s). snd w \<le> requested_lsn s)
     \<and> (worker s \<in> {W_Idle, W_After} \<and> persist_lsn s < requested_lsn s \<longrightarrow>
          flush_requested s \<or> persist_request s \<noteq> [])
     \<and> (\<forall>t \<in> returned s. t \<le> persist_lsn s)"

definition log_inv :: "bytes \<Rightarrow> logmgr \<Rightarrow> bool" where
  "log_inv p0 s \<longleftrightarrow> bufs_inv s \<and> offset_inv p0 s \<and> history_inv s \<and> disk_prefix_inv p0 s
     \<and> worker_inv p0 s (worker s) \<and> waits_inv s"

lemma log_invD:
  assumes "log_inv p0 s"
  shows "bufs_inv s" "offset_inv p0 s" "history_inv s" "disk_prefix_inv p0 s"
    "worker_inv p0 s (worker s)" "waits_inv s"
  using assms by (simp_all add: log_inv_def)

lemma log_invI:
  "bufs_inv s \<Longrightarrow> offset_inv p0 s \<Longrightarrow> history_inv s \<Longrightarrow> disk_prefix_inv p0 s \<Longrightarrow>
     worker_inv p0 s (worker s) \<Longrightarrow> waits_inv s \<Longrightarrow> log_inv p0 s"
  by (simp add: log_inv_def)

lemma other_simps [simp]: "other 0 = Suc 0" "other (Suc 0) = 0" "other i \<noteq> i" "i \<noteq> other i" "i \<in> {0, 1} \<Longrightarrow> other (other i) = i" "other i \<in> {0, 1}"
  by (auto simp: other_def)

lemma images_simps [simp]: "images [] = []" "images (rs @ rs') = images rs @ images rs'" "images [r] = image_any r"
  by (simp_all add: images_def)

lemma frames_simps [simp]: "batch_frames [] = []" "batch_frames (bs @ bs') = batch_frames bs @ batch_frames bs'" "batch_frames [b] = batch_frame b"
  by (simp_all add: batch_frames_def)

lemma length_batch_frame [simp]: "length (batch_frame rs) = WAL_BATCH_HDR_SIZE + length (images rs)"
  by (simp add: batch_frame_def batch_header_def WAL_BATCH_HDR_SIZE_def)

lemma image_any_ge: "fits_any r \<Longrightarrow> LOG_HEADER_SIZE \<le> length (image_any r)"
  by (cases r) (simp_all add: insert_image_def delete_image_def update_image_def delta_image_def)

lemma images_empty_iff: "list_all fits_any rs \<Longrightarrow> images rs = [] \<longleftrightarrow> rs = []"
proof (cases rs)
  case (Cons r rs')
  assume "list_all fits_any rs"
  then have "LOG_HEADER_SIZE \<le> length (image_any r)" using Cons by (simp add: image_any_ge)
  then have "image_any r \<noteq> []" by (auto simp: log_offsets)
  then show ?thesis by (simp add: Cons images_def)
qed simp

lemma set_lsn_fits:
  assumes "fits_any r" and "0 \<le> n" and "n < 2 ^ 31"
  shows "fits_any (set_lsn_any n r) \<and> lsn_any (set_lsn_any n r) = n \<and> tot_len_any (set_lsn_any n r) = tot_len_any r"
proof -
  have "in_s 4 n" using assms(2,3) by (simp add: in_s_def)
  then show ?thesis
    using assms(1)
    by (cases r) (auto simp: hdr_only_fits_def insert_fits_def delete_fits_def update_fits_def
        delta_fits_def hdr_fits_def)
qed

lemma buf_holds_append:
  assumes "buf_holds b rs" and "fits_any r" and "int (offset b) + tot_len_any r \<le> int (LOG_BUFFER_SIZE + 1)"
  shows "buf_holds \<lparr>buffer = serialize_any r (offset b) (buffer b), offset = nat (int (offset b) + tot_len_any r)\<rparr> (rs @ [r])"
proof -
  have len: "int (length (image_any r)) = tot_len_any r" using any_log.len_image [OF assms(2)] .
  have b: "length (buffer b) = LOG_BUFFER_SIZE + 1" "offset b = length (images rs)"
    "take (offset b) (buffer b) = images rs" using assms(1) unfolding buf_holds_def by blast+
  have le: "offset b + length (image_any r) \<le> length (buffer b)" using assms(3) len b(1) by linarith
  have n: "nat (int (offset b) + tot_len_any r) = offset b + length (image_any r)" using len by linarith
  have "serialize_any r (offset b) (buffer b) = wr (offset b) (image_any r) (buffer b)"
    using any_log.ser_image [OF assms(2) le] .
  then show ?thesis
    using b le unfolding buf_holds_def n by (simp add: wr_def)
qed

subsection \<open>Preservation\<close>

lemma log_inv_init:
  assumes "log_ready d" and "prefix p0 (log_content d)" and "prefix p0 (log_synced d)"
  shows "log_inv p0 (init_offset (int (length p0)) (log_manager_new env d))"
  using assms
  by (intro log_invI) (simp_all add: init_offset_def log_manager_new_def bufs_inv_def buf_holds_def
      log_buffer_new_def writing_def offset_inv_def history_inv_def history_def disk_prefix_inv_def
      waits_inv_def synced_count_def INVALID_LSN_def)

text \<open>Changes of the waiting threads and flags only.\<close>

lemma log_inv_waits:
  assumes "log_inv p0 s" and "waits_inv s'"
    and "global_lsn s' = global_lsn s" "bufs s' = bufs s" "active s' = active s" "persist_lsn s' = persist_lsn s"
      "total_offset s' = total_offset s" "log_disk s' = log_disk s" "worker s' = worker s"
      "list_all fits_any (append_wait s')" "synced s' = synced s" "inflight s' = inflight s" "pending s' = pending s"
      "stop s \<Longrightarrow> stop s'"
  shows "log_inv p0 s'"
proof -
  have "worker_inv p0 s' (worker s) = worker_inv p0 s (worker s) \<or> worker s = W_Exit"
    by (cases "worker s") (simp_all add: assms synced_count_def)
  moreover have "worker_inv p0 s W_Exit \<longrightarrow> worker_inv p0 s' W_Exit"
    using assms(14) by (simp add: assms(3-13) synced_count_def)
  ultimately have "worker_inv p0 s' (worker s')" using log_invD(5) [OF assms(1)] assms(9) by metis
  then show ?thesis
    using log_invD(1-4) [OF assms(1)] assms(2,10)
    by (intro log_invI) (simp_all add: bufs_inv_def offset_inv_def history_inv_def history_def
        disk_prefix_inv_def assms(3-13))
qed

lemma history_app_wait: "log_inv p0 s \<Longrightarrow> list_all fits_any (append_wait s)"
  by (simp add: log_inv_def history_inv_def)

lemma append_record_inv:
  assumes inv: "log_inv p0 s" and fits: "fits_any r" and lsn: "global_lsn s < 2 ^ 31"
  shows "log_inv p0 (append_record r s)"
proof (cases "int (LOG_BUFFER_SIZE + 1) < int (offset (active_buf s)) + tot_len_any r")
  case True
  then have "append_record r s = s\<lparr>overrun := True\<rparr>" by (simp add: append_record_def)
  then show ?thesis
    using log_inv_waits [OF inv, of "s\<lparr>overrun := True\<rparr>"] history_app_wait [OF inv] log_invD(6) [OF inv]
    by (simp add: waits_inv_def)
next
  case False
  let ?r = "set_lsn_any (global_lsn s) r"
  let ?b = "\<lparr>buffer = serialize_any ?r (offset (active_buf s)) (buffer (active_buf s)),
      offset = nat (int (offset (active_buf s)) + tot_len_any ?r)\<rparr>"
  have g: "global_lsn s = int (length (history s))" using log_invD(3) [OF inv] by (simp add: history_inv_def)
  then have r: "fits_any ?r" "lsn_any ?r = global_lsn s" "tot_len_any ?r = tot_len_any r"
    using set_lsn_fits [OF fits _ lsn] by simp_all
  define s' where "s' = append_record r s"
  have s': "s' = s\<lparr>global_lsn := global_lsn s + 1, bufs := (bufs s)(active s := ?b),
      total_offset := total_offset s + tot_len_any r, pending := pending s @ [?r]\<rparr>"
    using False by (simp add: s'_def append_record_def Let_def r(3))
  have "buf_holds ?b (pending s @ [?r])"
    using buf_holds_append [OF _ r(1)] log_invD(1) [OF inv] False
    by (simp add: bufs_inv_def active_buf_def r(3))
  then have 1: "bufs_inv s'" using log_invD(1) [OF inv] by (simp add: bufs_inv_def s')
  have 2: "offset_inv p0 s'"
    using log_invD(2) [OF inv] any_log.len_image [OF r(1)] by (simp add: offset_inv_def s' r(3))
  have 3: "history_inv s'"
    using log_invD(3) [OF inv] lsn r g by (simp add: history_inv_def history_def s')
  have 4: "disk_prefix_inv p0 s'" using log_invD(4) [OF inv] by (simp add: disk_prefix_inv_def s')
  have "worker_inv p0 s' pc = worker_inv p0 s pc" for pc
    using log_invD(1) [OF inv] by (cases pc) (simp_all add: s' synced_count_def)
  then have 5: "worker_inv p0 s' (worker s')" using log_invD(5) [OF inv] by (simp add: s')
  have 6: "waits_inv s'" using log_invD(6) [OF inv] by (simp add: waits_inv_def s')
  show ?thesis using log_invI [OF 1 2 3 4 5 6] by (simp add: s'_def)
qed

lemma add_log_inv:
  assumes "log_inv p0 s" and "fits_any r" and "global_lsn s < 2 ^ 31"
  shows "log_inv p0 (add_log_to_buffer r s)"
proof (cases "is_full (active_buf s) (tot_len_any r)")
  case True
  then show ?thesis
    unfolding add_log_to_buffer_def if_P [OF True]
    using history_app_wait [OF assms(1)] log_invD(6) [OF assms(1)] assms(2)
    by (intro log_inv_waits [OF assms(1)]) (simp_all add: waits_inv_def)
next
  case False
  then show ?thesis using append_record_inv [OF assms] by (simp add: add_log_to_buffer_def)
qed

lemma list_all_remove: "list_all P xs \<Longrightarrow> list_all P (take i xs @ drop (Suc i) xs)"
  by (auto simp: list_all_iff dest: in_set_takeD in_set_dropD)

lemma resume_append_inv:
  assumes inv: "log_inv p0 s" and lsn: "global_lsn s < 2 ^ 31"
  shows "log_inv p0 (resume_append i s)"
proof (cases "i < length (append_wait s) \<and> (\<not> is_full (active_buf s) (tot_len_any (append_wait s ! i)) \<or> stop s)")
  case True
  let ?s = "s\<lparr>space_waiters := space_waiters s - 1,
    append_wait := take i (append_wait s) @ drop (Suc i) (append_wait s)\<rparr>"
  have "log_inv p0 ?s"
    using list_all_remove [OF history_app_wait [OF inv], of i] log_invD(6) [OF inv]
    by (intro log_inv_waits [OF inv]) (simp_all add: waits_inv_def)
  moreover have "fits_any (append_wait s ! i)"
    using history_app_wait [OF inv] True by (simp add: list_all_length)
  ultimately have "log_inv p0 (append_record (append_wait s ! i) ?s)"
    using lsn by (intro append_record_inv) simp_all
  then show ?thesis unfolding resume_append_def if_P [OF True] .
next
  case False
  then show ?thesis using inv unfolding resume_append_def by (simp only: if_False)
qed

lemma note_return_inv:
  assumes "log_inv p0 s"
  shows "log_inv p0 (note_return t s)"
proof (cases "t \<le> persist_lsn s")
  case True
  then show ?thesis
    unfolding note_return_def if_P [OF True]
    using log_invD(6) [OF assms] history_app_wait [OF assms]
    by (intro log_inv_waits [OF assms]) (simp_all add: waits_inv_def)
next
  case False
  then show ?thesis using assms by (simp add: note_return_def)
qed

lemma waits_inv_request:
  assumes "waits_inv s" and "t < global_lsn s" and "persist_lsn s < t"
  shows "waits_inv (s\<lparr>wal_stats := ws, persist_waiters := pw,
      requested_lsn := (if requested_lsn s < t then t else requested_lsn s),
      persist_request := persist_request s @ [(b, t)]\<rparr>)"
proof -
  have "requested_lsn s < global_lsn s"
    and "\<forall>w \<in> set (persist_request s @ persist_wait s). snd w \<le> requested_lsn s"
    and "\<forall>x \<in> returned s. x \<le> persist_lsn s"
    using assms(1) by (simp_all add: waits_inv_def)
  then show ?thesis using assms(2) by (cases "requested_lsn s < t") (force simp: waits_inv_def)+
qed

lemma wait_for_persist_inv:
  assumes "log_inv p0 s" and "t < global_lsn s"
  shows "log_inv p0 (wait_for_persist t s)"
proof (cases "t \<le> persist_lsn s")
  case True
  then show ?thesis using note_return_inv [OF assms(1)] by (simp add: wait_for_persist_def)
next
  case False
  then show ?thesis
    unfolding wait_for_persist_def if_not_P [OF False]
    using waits_inv_request [OF log_invD(6) [OF assms(1)] assms(2)] history_app_wait [OF assms(1)]
    by (intro log_inv_waits [OF assms(1)]) simp_all
qed

lemma flush_log_to_disk_inv:
  assumes "log_inv p0 s"
  shows "log_inv p0 (flush_log_to_disk s)"
proof (cases "global_lsn s - 1 \<le> persist_lsn s")
  case True
  then show ?thesis using note_return_inv [OF assms(1)] by (simp add: flush_log_to_disk_def Let_def)
next
  case False
  let ?t = "global_lsn s - 1"
  have "waits_inv (s\<lparr>requested_lsn := (if requested_lsn s < ?t then ?t else requested_lsn s),
      persist_request := persist_request s @ [(False, ?t)]\<rparr>)"
    using waits_inv_request [OF log_invD(6) [OF assms(1)], where t = ?t and ws = "wal_stats s"
        and pw = "persist_waiters s" and b = False] False
    by simp
  then show ?thesis
    unfolding flush_log_to_disk_def Let_def if_not_P [OF False] using history_app_wait [OF assms(1)]
    by (intro log_inv_waits [OF assms(1)]) simp_all
qed

lemma set_remove: "set (take i xs @ drop (Suc i) xs) \<subseteq> set xs"
  by (auto dest: in_set_takeD in_set_dropD)

lemma request_flush_inv:
  assumes "log_inv p0 s"
  shows "log_inv p0 (request_flush i s)"
proof (cases "i < length (persist_request s)")
  case True
  let ?s = "s\<lparr>flush_requested := True,
    persist_request := take i (persist_request s) @ drop (Suc i) (persist_request s),
    persist_wait := persist_wait s @ [persist_request s ! i]\<rparr>"
  have "set (persist_request ?s @ persist_wait ?s) \<subseteq> set (persist_request s @ persist_wait s)"
    using True set_remove [of i "persist_request s"] by auto
  then have "waits_inv ?s" using log_invD(6) [OF assms] unfolding waits_inv_def by auto
  then show ?thesis
    unfolding request_flush_def if_P [OF True] using history_app_wait [OF assms]
    by (intro log_inv_waits [OF assms]) simp_all
next
  case False
  then show ?thesis using assms by (simp add: request_flush_def)
qed

lemma persist_return_inv:
  assumes "log_inv p0 s"
  shows "log_inv p0 (persist_return i s)"
proof (cases "i < length (persist_wait s) \<and> (snd (persist_wait s ! i) \<le> persist_lsn s \<or> stop s)")
  case True
  let ?s = "s\<lparr>persist_waiters := persist_waiters s - (if fst (persist_wait s ! i) then 1 else 0),
    persist_wait := take i (persist_wait s) @ drop (Suc i) (persist_wait s)\<rparr>"
  have "waits_inv ?s"
    using log_invD(6) [OF assms] set_remove [of i "persist_wait s"] unfolding waits_inv_def by auto
  then have "log_inv p0 ?s"
    using history_app_wait [OF assms] by (intro log_inv_waits [OF assms]) simp_all
  then show ?thesis unfolding persist_return_def if_P [OF True] by (rule note_return_inv)
next
  case False
  then show ?thesis using assms unfolding persist_return_def by (simp only: if_False)
qed

lemma stop_inv:
  assumes "log_inv p0 s"
  shows "log_inv p0 (s\<lparr>stop := True, flush_requested := True\<rparr>)"
  using history_app_wait [OF assms] log_invD(6) [OF assms]
  by (intro log_inv_waits [OF assms]) (simp_all add: waits_inv_def)

subsubsection \<open>The worker\<close>

text \<open>Moves of the worker that touch neither buffers nor disk.\<close>

definition resting :: "worker_pc \<Rightarrow> bool" where
  "resting pc \<longleftrightarrow> pc \<in> {W_Idle, W_Loop True, W_Loop False, W_Gather, W_After}"

lemma resting_inv:
  "resting pc \<Longrightarrow> \<not> writing pc"
  "resting pc \<Longrightarrow> worker_inv p0 s pc \<longleftrightarrow> offset (bufs s (other (active s))) = 0 \<and> persist_lsn s = synced_count s - 1"
  by (auto simp: resting_def writing_def)

lemma worker_move_inv:
  assumes inv: "log_inv p0 s" and "resting (worker s)"
    and pc: "resting pc \<or> pc = W_Exit \<and> stop s"
    and w: "pc \<in> {W_Idle, W_After} \<Longrightarrow> persist_lsn s < requested_lsn s \<Longrightarrow> fr \<or> persist_request s \<noteq> []"
  shows "log_inv p0 (s\<lparr>flush_requested := fr, worker := pc\<rparr>)"
proof (rule log_invI)
  let ?s = "s\<lparr>flush_requested := fr, worker := pc\<rparr>"
  have nw: "\<not> writing (worker s)" "\<not> writing pc"
    using assms(2) pc resting_inv(1) by (auto simp: writing_def)
  show "bufs_inv ?s" using log_invD(1) [OF inv] nw by (simp add: bufs_inv_def)
  show "offset_inv p0 ?s" using log_invD(2) [OF inv] nw by (simp add: offset_inv_def)
  show "history_inv ?s" using log_invD(3) [OF inv] by (simp add: history_inv_def history_def)
  show "disk_prefix_inv p0 ?s" using log_invD(4) [OF inv] by (simp add: disk_prefix_inv_def)
  have "offset (bufs s (other (active s))) = 0 \<and> persist_lsn s = synced_count s - 1"
    using log_invD(5) [OF inv] resting_inv(2) [OF assms(2)] by blast
  then show "worker_inv p0 ?s (worker ?s)"
    using pc by (auto simp: resting_def synced_count_def)
  show "waits_inv ?s" using log_invD(6) [OF inv] w unfolding waits_inv_def by simp
qed

lemma all_synced:
  assumes inv: "log_inv p0 s" and "resting (worker s)" and "offset (active_buf s) = 0"
  shows "persist_lsn s = global_lsn s - 1"
proof -
  have nw: "\<not> writing (worker s)" using resting_inv(1) [OF assms(2)] .
  then have "inflight s = []" using log_invD(1) [OF inv] by (simp add: bufs_inv_def)
  moreover have "images (pending s) = []"
    using log_invD(1) [OF inv] assms(3) by (simp add: bufs_inv_def buf_holds_def active_buf_def)
  then have "pending s = []"
    using log_invD(3) [OF inv] images_empty_iff by (simp add: history_inv_def history_def)
  ultimately have "global_lsn s = synced_count s"
    using log_invD(3) [OF inv] by (simp add: history_inv_def history_def synced_count_def)
  then show ?thesis using log_invD(5) [OF inv] resting_inv(2) [OF assms(2)] by simp
qed

lemma swap_inv:
  assumes inv: "log_inv p0 s" and rest: "resting (worker s)" and ne: "offset (active_buf s) \<noteq> 0"
  shows "log_inv p0 (swap_buffers s)"
proof -
  define s' where "s' = swap_buffers s"
  have ac: "active s \<in> {0, 1}" and act: "buf_holds (bufs s (active s)) (pending s)"
    and len: "length (buffer (bufs s (other (active s)))) = LOG_BUFFER_SIZE + 1" and inf: "inflight s = []"
    using log_invD(1) [OF inv] resting_inv(1) [OF rest] by (simp_all add: bufs_inv_def)
  have o0: "offset (bufs s (other (active s))) = 0" and pl: "persist_lsn s = synced_count s - 1"
    using log_invD(5) [OF inv] resting_inv(2) [OF rest] by blast+
  have off: "offset (bufs s (active s)) = length (images (pending s))" using act by (simp add: buf_holds_def)
  then have ne': "pending s \<noteq> []" using ne by (auto simp: active_buf_def)
  let ?pc = "W_Header (active s) (int (length (images (pending s))))
      (total_offset s - int (length (images (pending s)))) (global_lsn s - 1)"
  have s': "s' = s\<lparr>active := other (active s), total_offset := total_offset s + int WAL_BATCH_HDR_SIZE,
      worker := ?pc, inflight := pending s, pending := []\<rparr>"
    by (simp add: s'_def swap_buffers_def Let_def other_def off)
  have tot: "total_offset s = int (length (p0 @ batch_frames (synced s))) + int (length (images (pending s)))"
    using log_invD(2) [OF inv] resting_inv(1) [OF rest] by (simp add: offset_inv_def)
  have g: "global_lsn s = synced_count s + int (length (pending s))"
    using log_invD(3) [OF inv] inf by (simp add: history_inv_def history_def synced_count_def)
  have "log_inv p0 s'"
  proof (rule log_invI)
    have "buf_holds (bufs s (other (active s))) []" using len o0 by (simp add: buf_holds_def)
    then show "bufs_inv s'"
      using ac act len ne' by (auto simp: bufs_inv_def s' writing_def buf_holds_def)
    show "offset_inv p0 s'" using tot by (simp add: offset_inv_def s' writing_def)
    show "history_inv s'" using log_invD(3) [OF inv] inf by (simp add: history_inv_def history_def s')
    show "disk_prefix_inv p0 s'" using log_invD(4) [OF inv] by (simp add: disk_prefix_inv_def s')
    show "worker_inv p0 s' (worker s')" using ac tot g pl by (simp add: s' synced_count_def)
    show "waits_inv s'" using log_invD(6) [OF inv] by (simp add: waits_inv_def s')
  qed
  then show ?thesis by (simp add: s'_def)
qed

lemma worker_loop_inv:
  assumes inv: "log_inv p0 s" and pc: "worker s = W_Loop first"
  shows "log_inv p0 (worker_loop first s)"
proof -
  have rest: "resting (worker s)" by (simp add: pc resting_def)
  have move: "log_inv p0 (s\<lparr>worker := pc\<rparr>)"
    if "pc = W_Gather \<or> pc = W_After \<and> \<not> persist_lsn s < requested_lsn s" for pc
    using worker_move_inv [OF inv rest, of pc "flush_requested s"] that by (auto simp: resting_def)
  show ?thesis
  proof (cases "offset (active_buf s) = 0")
    case True
    then have "\<not> persist_lsn s < requested_lsn s"
      using all_synced [OF inv rest] log_invD(6) [OF inv] by (simp add: waits_inv_def)
    then show ?thesis using True move [of W_After] by (simp add: worker_loop_def)
  next
    case False
    note swap = swap_inv [OF inv rest False]
    show ?thesis
      using False swap move [of W_After] move [of W_Gather]
      by (simp add: worker_loop_def Let_def)
  qed
qed

lemma writing_buffer:
  assumes "log_inv p0 s" and "writing (worker s)" and "fl = other (active s)" and "bb = int (length (images (inflight s)))"
  shows "take (nat bb) (buffer (bufs s fl)) = images (inflight s)"
proof -
  have "buf_holds (bufs s fl) (inflight s)" using log_invD(1) [OF assms(1)] assms(2,3) by (simp add: bufs_inv_def)
  then show ?thesis unfolding assms(4) buf_holds_def nat_int by metis
qed

lemma writing_simps [simp]:
  "writing (W_Header fl bb boff t)" "writing (W_Body fl bb boff t)" "writing (W_Sync fl t)"
  "\<not> writing (W_Persist fl t)" "\<not> writing (W_Relock fl)"
  by (simp_all add: writing_def)

lemma length_batch_header [simp]: "length (batch_header bs) = WAL_BATCH_HDR_SIZE"
  by (simp add: batch_header_def WAL_BATCH_HDR_SIZE_def)

lemma worker_disk_inv:
  assumes inv: "log_inv p0 s" and wr: "writing (worker s)" "writing pc"
    and d: "log_ready d" "prefix (p0 @ batch_frames (synced s)) (log_content d)" "log_synced d = log_synced (log_disk s)"
    and pc: "worker_inv p0 (s\<lparr>wal_stats := ws, log_disk := d\<rparr>) pc"
  shows "log_inv p0 (s\<lparr>wal_stats := ws, log_disk := d, worker := pc\<rparr>)"
proof (rule log_invI)
  let ?s = "s\<lparr>wal_stats := ws, log_disk := d, worker := pc\<rparr>"
  show "bufs_inv ?s" using log_invD(1) [OF inv] wr by (simp add: bufs_inv_def)
  show "offset_inv p0 ?s" using log_invD(2) [OF inv] wr by (simp add: offset_inv_def)
  show "history_inv ?s" using log_invD(3) [OF inv] by (simp add: history_inv_def history_def)
  show "disk_prefix_inv p0 ?s" using log_invD(4) [OF inv] d by (simp add: disk_prefix_inv_def)
  show "worker_inv p0 ?s (worker ?s)" using pc by (cases pc) (simp_all add: synced_count_def)
  show "waits_inv ?s" using log_invD(6) [OF inv] wr by (auto simp: waits_inv_def writing_def)
qed

lemma worker_header_inv:
  assumes inv: "log_inv p0 s" and pc: "worker s = W_Header fl bb boff t"
  shows "log_inv p0 (flush_worker us s (worker s))
    \<and> worker (flush_worker us s (worker s)) = W_Body fl bb boff t"
proof -
  have w: "fl = other (active s)" "bb = int (length (images (inflight s)))"
    "boff = int (length (p0 @ batch_frames (synced s)))" "worker_inv p0 s (W_Header fl bb boff t)"
    using log_invD(5) [OF inv] by (simp_all add: pc)
  have b: "take (nat bb) (buffer (bufs s fl)) = images (inflight s)"
    by (rule writing_buffer [OF inv]) (simp_all add: pc w)
  obtain d where d: "write_log (log_disk s) (batch_header (images (inflight s))) boff = Inr d" "log_ready d"
      "prefix ((p0 @ batch_frames (synced s)) @ batch_header (images (inflight s))) (log_content d)"
      "log_synced d = log_synced (log_disk s)"
    using disk_log.writeE [OF _ _ w(3)] log_invD(4) [OF inv] unfolding disk_prefix_inv_def by metis
  have p: "prefix (p0 @ batch_frames (synced s)) (log_content d)" using d(3) append_prefixD by blast
  have "log_inv p0 (s\<lparr>wal_stats := wal_stats s, log_disk := d, worker := W_Body fl bb boff t\<rparr>)"
    by (rule worker_disk_inv [OF inv _ _ d(2) p d(4)]) (use w d(3) in \<open>simp_all add: pc synced_count_def\<close>)
  then show ?thesis unfolding pc by (simp add: b write_part_def d(1))
qed

lemma worker_body_inv:
  assumes inv: "log_inv p0 s" and pc: "worker s = W_Body fl bb boff t"
  shows "log_inv p0 (flush_worker us s (worker s)) \<and> worker (flush_worker us s (worker s)) = W_Sync fl t"
proof -
  let ?h = "batch_header (images (inflight s))"
  have w: "fl = other (active s)" "bb = int (length (images (inflight s)))"
    "boff = int (length (p0 @ batch_frames (synced s)))" "worker_inv p0 s (W_Body fl bb boff t)"
    using log_invD(5) [OF inv] by (simp_all add: pc)
  have b: "take (nat bb) (buffer (bufs s fl)) = images (inflight s)"
    by (rule writing_buffer [OF inv]) (simp_all add: pc w)
  have pre: "prefix (p0 @ batch_frames (synced s) @ ?h) (log_content (log_disk s))" and rdy: "log_ready (log_disk s)"
    using w(4) log_invD(4) [OF inv] by (simp_all add: disk_prefix_inv_def)
  have off: "boff + int WAL_BATCH_HDR_SIZE = int (length (p0 @ batch_frames (synced s) @ ?h))" by (simp add: w(3))
  obtain d where d: "write_log (log_disk s) (images (inflight s)) (boff + int WAL_BATCH_HDR_SIZE) = Inr d"
      "log_ready d" "log_opened d" "prefix ((p0 @ batch_frames (synced s) @ ?h) @ images (inflight s)) (log_content d)"
      "log_synced d = log_synced (log_disk s)"
    using disk_log.writeE [OF rdy pre off] by metis
  have "prefix ((p0 @ batch_frames (synced s)) @ batch_frame (inflight s)) (log_content d)"
    using d(4) by (simp add: batch_frame_def)
  then have p: "prefix (p0 @ batch_frames (synced s)) (log_content d)" using append_prefixD by blast
  let ?ws = "(wal_stats s)\<lparr>n_bytes := n_bytes (wal_stats s) + word_of_int (bb + int WAL_BATCH_HDR_SIZE),
    n_batches := n_batches (wal_stats s) + 1\<rparr>"
  have "log_inv p0 (s\<lparr>wal_stats := ?ws, log_disk := d, worker := W_Sync fl t\<rparr>)"
    by (rule worker_disk_inv [OF inv _ _ d(2) p d(5)])
      (use w d(3,4) in \<open>simp_all add: pc synced_count_def batch_frame_def\<close>)
  then show ?thesis unfolding pc by (simp add: b write_part_def d(1))
qed

lemma worker_sync_inv:
  assumes inv: "log_inv p0 s" and pc: "worker s = W_Sync fl t"
  shows "log_inv p0 (flush_worker us s (worker s)) \<and> worker (flush_worker us s (worker s)) = W_Persist fl t
    \<and> t = global_lsn s - 1 - int (length (pending s))"
proof -
  have w: "fl = other (active s)" "t = synced_count s + int (length (inflight s)) - 1" "log_opened (log_disk s)"
    "prefix (p0 @ batch_frames (synced s) @ batch_frame (inflight s)) (log_content (log_disk s))"
    "persist_lsn s = synced_count s - 1"
    using log_invD(5) [OF inv] by (simp_all add: pc)
  have rdy: "log_ready (log_disk s)" using log_invD(4) [OF inv] by (simp add: disk_prefix_inv_def)
  obtain d where d: "sync_log (log_disk s) = Inr d" "log_ready d"
      "prefix (p0 @ batch_frames (synced s) @ batch_frame (inflight s)) (log_content d)"
      "prefix (p0 @ batch_frames (synced s) @ batch_frame (inflight s)) (log_synced d)"
    using disk_log.syncE [OF rdy w(3,4)] by metis
  let ?s = "s\<lparr>log_disk := d, wal_stats := record_fsync_latency us (wal_stats s), worker := W_Persist fl t,
    synced := synced s @ [inflight s], inflight := []\<rparr>"
  have "log_inv p0 ?s"
  proof (rule log_invI)
    show "bufs_inv ?s" using log_invD(1) [OF inv] by (simp add: bufs_inv_def pc)
    show "offset_inv p0 ?s" using log_invD(2) [OF inv] by (simp add: offset_inv_def pc)
    show "history_inv ?s" using log_invD(3) [OF inv] by (simp add: history_inv_def history_def)
    show "disk_prefix_inv p0 ?s" using d by (simp add: disk_prefix_inv_def)
    show "worker_inv p0 ?s (worker ?s)" using w by (simp add: synced_count_def)
    show "waits_inv ?s" using log_invD(6) [OF inv] by (simp add: waits_inv_def)
  qed
  moreover have "t = global_lsn s - 1 - int (length (pending s))"
    using w(2) log_invD(3) [OF inv] by (simp add: history_inv_def history_def synced_count_def)
  ultimately show ?thesis unfolding pc by (simp add: d(1))
qed

lemma worker_persist_inv:
  assumes inv: "log_inv p0 s" and pc: "worker s = W_Persist fl t"
  shows "log_inv p0 (flush_worker us s (worker s))"
proof -
  have w: "fl = other (active s)" "t = synced_count s - 1" "persist_lsn s \<le> synced_count s - 1"
    using log_invD(5) [OF inv] by (simp_all add: pc)
  let ?s = "s\<lparr>persist_lsn := t, worker := W_Relock fl\<rparr>"
  have "log_inv p0 ?s"
  proof (rule log_invI)
    show "bufs_inv ?s" using log_invD(1) [OF inv] by (simp add: bufs_inv_def pc)
    show "offset_inv p0 ?s" using log_invD(2) [OF inv] by (simp add: offset_inv_def pc)
    show "history_inv ?s" using log_invD(3) [OF inv] by (simp add: history_inv_def history_def)
    show "disk_prefix_inv p0 ?s" using log_invD(4) [OF inv] by (simp add: disk_prefix_inv_def)
    show "worker_inv p0 ?s (worker ?s)" using w by (simp add: synced_count_def)
    show "waits_inv ?s" using log_invD(6) [OF inv] w by (force simp: waits_inv_def)
  qed
  then show ?thesis by (simp add: pc)
qed

lemma worker_relock_inv:
  assumes inv: "log_inv p0 s" and pc: "worker s = W_Relock fl"
  shows "log_inv p0 (flush_worker us s (worker s))"
proof -
  have w: "fl = other (active s)" "persist_lsn s = synced_count s - 1"
    using log_invD(5) [OF inv] by (simp_all add: pc)
  let ?s = "s\<lparr>bufs := (bufs s)(fl := (bufs s fl)\<lparr>offset := 0\<rparr>), worker := W_Loop False\<rparr>"
  have nw: "\<not> writing (W_Loop False)" by (simp add: writing_def)
  have "log_inv p0 ?s"
  proof (rule log_invI)
    show "bufs_inv ?s" using log_invD(1) [OF inv] nw by (simp add: bufs_inv_def pc w(1))
    show "offset_inv p0 ?s" using log_invD(2) [OF inv] nw by (simp add: offset_inv_def pc)
    show "history_inv ?s" using log_invD(3) [OF inv] by (simp add: history_inv_def history_def)
    show "disk_prefix_inv p0 ?s" using log_invD(4) [OF inv] by (simp add: disk_prefix_inv_def)
    show "worker_inv p0 ?s (worker ?s)" using w by (simp add: synced_count_def)
    show "waits_inv ?s" using log_invD(6) [OF inv] by (simp add: waits_inv_def)
  qed
  then show ?thesis by (simp add: pc)
qed

lemma flush_worker_inv:
  assumes inv: "log_inv p0 s"
  shows "log_inv p0 (flush_worker us s (worker s))"
proof (cases "worker s")
  case W_Idle
  have "log_inv p0 (s\<lparr>flush_requested := False, worker := W_Loop True\<rparr>)"
    by (rule worker_move_inv [OF inv]) (simp_all add: W_Idle resting_def)
  then show ?thesis using inv by (simp add: W_Idle)
next
  case (W_Loop first)
  then show ?thesis using worker_loop_inv [OF inv W_Loop] by simp
next
  case W_Gather
  have "log_inv p0 (s\<lparr>flush_requested := flush_requested s, worker := W_Loop False\<rparr>)"
    by (rule worker_move_inv [OF inv]) (simp_all add: W_Gather resting_def)
  then show ?thesis by (simp add: W_Gather)
next
  case W_After
  have "log_inv p0 (s\<lparr>flush_requested := flush_requested s, worker := if stop s then W_Exit else W_Idle\<rparr>)"
    by (rule worker_move_inv [OF inv]) (use log_invD(6) [OF inv] in \<open>auto simp: W_After resting_def waits_inv_def\<close>)
  then show ?thesis by (simp add: W_After)
next
  case (W_Header fl bb boff t)
  then show ?thesis using worker_header_inv [OF inv W_Header] by simp
next
  case (W_Body fl bb boff t)
  then show ?thesis using worker_body_inv [OF inv W_Body] by simp
next
  case (W_Sync fl t)
  then show ?thesis using worker_sync_inv [OF inv W_Sync] by simp
next
  case (W_Persist fl t)
  then show ?thesis using worker_persist_inv [OF inv W_Persist] by simp
next
  case (W_Relock fl)
  then show ?thesis using worker_relock_inv [OF inv W_Relock] by simp
next
  case W_Exit
  then show ?thesis using inv by simp
next
  case W_Crashed
  then show ?thesis using inv by simp
qed

lemma log_exec_inv: "log_inv p0 s \<Longrightarrow> log_inv p0 (log_exec s e)"
  by (cases e) (simp_all add: log_exec_def add_log_inv resume_append_inv wait_for_persist_inv
      flush_log_to_disk_inv request_flush_inv persist_return_inv flush_worker_inv stop_inv)

lemma log_run_inv: "log_inv p0 s \<Longrightarrow> log_inv p0 (log_run es s)"
  by (induction es arbitrary: s) (simp_all add: log_run_def log_exec_inv)

subsection \<open>Progress\<close>

text \<open>An upper bound on the steps the worker needs until the position \<open>t\<close> is durable.\<close>

fun flush_rank :: "lsn_t \<Rightarrow> worker_pc \<Rightarrow> nat" where
  "flush_rank t (W_Header fl bb boff t') = (if t \<le> t' then 4 else 10)"
| "flush_rank t (W_Body fl bb boff t') = (if t \<le> t' then 3 else 9)"
| "flush_rank t (W_Sync fl t') = (if t \<le> t' then 2 else 8)"
| "flush_rank t (W_Persist fl t') = (if t \<le> t' then 1 else 7)"
| "flush_rank t (W_Relock fl) = 6"
| "flush_rank t (W_Loop first) = (if first then 7 else 5)"
| "flush_rank t W_Gather = 6"
| "flush_rank t W_Idle = 8"
| "flush_rank t W_After = 9"
| "flush_rank t _ = 0"

definition wanted :: "lsn_t \<Rightarrow> logmgr \<Rightarrow> bool" where
  "wanted t s \<longleftrightarrow> \<not> overrun s \<and> \<not> stop s \<and> persist_request s = [] \<and> t \<le> requested_lsn s"

lemma flush_worker_wanted: "wanted t s \<Longrightarrow> wanted t (flush_worker us s (worker s))"
  by (cases "worker s") (simp_all add: wanted_def worker_loop_def Let_def swap_buffers_def write_part_def
      split: sum.splits)

lemma flush_worker_rank:
  fixes us :: "64 word" and s :: logmgr
  assumes inv: "log_inv p0 s" and w: "wanted t s" and need: "persist_lsn s < t"
  defines "s' \<equiv> flush_worker us s (worker s)"
  shows "t \<le> persist_lsn s' \<or> flush_rank t (worker s') < flush_rank t (worker s)"
proof (cases "worker s")
  case W_Idle
  have "persist_lsn s < requested_lsn s" using need w by (simp add: wanted_def)
  then have "flush_requested s" using log_invD(6) [OF inv] w W_Idle by (simp add: waits_inv_def wanted_def)
  then show ?thesis by (simp add: s'_def W_Idle)
next
  case (W_Loop first)
  have rest: "resting (worker s)" by (simp add: W_Loop resting_def)
  have nf: "persist_lsn s < requested_lsn s" using need w by (simp add: wanted_def)
  have g: "requested_lsn s < global_lsn s" using log_invD(6) [OF inv] by (simp add: waits_inv_def)
  then have "offset (active_buf s) \<noteq> 0" using all_synced [OF inv rest] nf by auto
  moreover have "flush_rank t (worker (swap_buffers s)) = 4"
    using g w by (simp add: swap_buffers_def Let_def wanted_def)
  ultimately show ?thesis
    using nf by (cases first) (simp_all add: s'_def W_Loop worker_loop_def Let_def)
next
  case (W_Header fl bb boff t')
  then show ?thesis using worker_header_inv [OF inv W_Header, of us] by (simp add: s'_def)
next
  case (W_Body fl bb boff t')
  then show ?thesis using worker_body_inv [OF inv W_Body, of us] by (simp add: s'_def)
next
  case (W_Sync fl t')
  then show ?thesis using worker_sync_inv [OF inv W_Sync, of us] by (simp add: s'_def)
qed (use log_invD(5) [OF inv] w in \<open>simp_all add: s'_def wanted_def\<close>)

lemma worker_reaches:
  assumes "log_inv p0 s" and "wanted t s"
  shows "\<exists>n \<le> flush_rank t (worker s). t \<le> persist_lsn (log_run (replicate n (Worker us)) s)"
  using assms
proof (induction "flush_rank t (worker s)" arbitrary: s rule: less_induct)
  case less
  show ?case
  proof (cases "t \<le> persist_lsn s")
    case True
    then show ?thesis by (intro exI [of _ 0]) (simp add: log_run_def)
  next
    case False
    let ?s = "flush_worker us s (worker s)"
    have ex: "log_run (replicate (Suc n) (Worker us)) s = log_run (replicate n (Worker us)) ?s" for n
      using less.prems(2) by (simp add: log_run_def log_exec_def wanted_def)
    have inv: "log_inv p0 ?s" "wanted t ?s"
      using flush_worker_inv [OF less.prems(1)] flush_worker_wanted [OF less.prems(2)] by simp_all
    have alt: "t \<le> persist_lsn ?s \<or> flush_rank t (worker ?s) < flush_rank t (worker s)"
      using flush_worker_rank [OF less.prems] False by simp
    have pos: "0 < flush_rank t (worker s)"
      using log_invD(5) [OF less.prems(1)] less.prems(2) by (cases "worker s") (simp_all add: wanted_def)
    show ?thesis
    proof (cases "t \<le> persist_lsn ?s")
      case True
      then have "t \<le> persist_lsn (log_run (replicate (Suc 0) (Worker us)) s)"
        unfolding ex by (simp add: log_run_def)
      then show ?thesis using pos by (intro exI [of _ "Suc 0"]) simp
    next
      case False
      with alt have lt: "flush_rank t (worker ?s) < flush_rank t (worker s)" by simp
      then obtain n where "n \<le> flush_rank t (worker ?s)" "t \<le> persist_lsn (log_run (replicate n (Worker us)) ?s)"
        using less.hyps [OF lt inv] by blast
      then show ?thesis using lt by (intro exI [of _ "Suc n"]) (simp only: ex, simp)
    qed
  qed
qed

lemma flush_rank_bound: "flush_rank t pc \<le> 10"
  by (cases pc) simp_all

section \<open>Properties\<close>


definition log_disk_example :: disk where
  "log_disk_example = disk_new [(LOG_FILE_NAME, [])]"

lemma log_disk_example_ok:
  "log_ready log_disk_example" "prefix [] (log_content log_disk_example)" "prefix [] (log_synced log_disk_example)"
  by (simp_all add: log_ready_def log_disk_example_def disk_inv_def disk_new_def is_file_def)

definition log_run_synced :: logmgr where
  "log_run_synced = log_run [Append (HdrLog (CommitLogRecord 7)), WaitForPersist 0, RequestFlush 0,
       Worker 3, Worker 3, Worker 3, Worker 3, Worker 3, Worker 3, PersistReturn 0]
     (init_offset (int (length ([] :: bytes))) (log_manager_new (\<lambda>_. None) log_disk_example))"




text \<open>
  C23: group commit makes progress. While the log is not being stopped and no flush request is
  under way, ten steps of the worker suffice to make any position durable that a committer waits for.
\<close>

theorem commit_wait_ends:
  assumes "log_ready d" and "prefix p0 (log_content d)" and "prefix p0 (log_synced d)"
    and "s = log_run es (init_offset (int (length p0)) (log_manager_new env d))"
    and "i < length (persist_wait s)" and "persist_request s = []" and "\<not> stop s" and "\<not> overrun s"
  shows "\<exists>n. n \<le> 10 \<and> snd (persist_wait s ! i) \<le> persist_lsn (log_run (replicate n (Worker us)) s)"
proof -
  have inv: "log_inv p0 s" unfolding assms(4) by (rule log_run_inv [OF log_inv_init [OF assms(1-3)]])
  have "persist_wait s ! i \<in> set (persist_request s @ persist_wait s)" using assms(5) by simp
  then have "snd (persist_wait s ! i) \<le> requested_lsn s"
    using log_invD(6) [OF inv] unfolding waits_inv_def by blast
  then have "wanted (snd (persist_wait s ! i)) s" using assms(6-8) by (simp add: wanted_def)
  then show ?thesis
    using worker_reaches [OF inv, of "snd (persist_wait s ! i)" us] flush_rank_bound le_trans by blast
qed

definition log_run_example :: logmgr where
  "log_run_example = log_run [Append (HdrLog (CommitLogRecord 7)), WaitForPersist 0, RequestFlush 0]
     (init_offset (int (length ([] :: bytes))) (log_manager_new (\<lambda>_. None) log_disk_example))"

lemma log_run_example_waits:
  "persist_wait log_run_example = [(True, 0)] \<and> persist_request log_run_example = []
    \<and> \<not> stop log_run_example \<and> \<not> overrun log_run_example"
  by (simp add: log_run_example_def log_run_def log_exec_def init_offset_def log_manager_new_def
      add_log_to_buffer_def append_record_def wait_for_persist_def request_flush_def is_full_def
      active_buf_def log_buffer_new_def CommitLogRecord_def header_of_def hdr_only_fits_def hdr_fits_def
      in_s_def in_u_def log_offsets LOG_BUFFER_SIZE_def PAGE_SIZE_def INVALID_LSN_def Let_def)

theorem commit_wait_ends_witness:
  "\<exists>n. n \<le> 10 \<and> 0 \<le> persist_lsn (log_run (replicate n (Worker 5)) log_run_example)"
  using commit_wait_ends [OF log_disk_example_ok log_run_example_def, of 0 5] log_run_example_waits by simp

end
