(* ===== verification/Buffer_Pool.thy ===== *)
theory Buffer_Pool
  imports Disk_Manager Lru_Replacer
begin

text \<open>
  The buffer pool, \<^verbatim>\<open>src/src/storage/buffer_pool_manager.{h,cpp}\<close> with \<^verbatim>\<open>src/src/storage/page.h\<close>:
  frames with their pages, 64 shards each with a page table, an LRU replacer and free frames, and the
  flags for frames and pages in transfer. Each method is the sequence of its critical sections;
  \<open>fetch_page\<close> and \<open>delete_page\<close> are split where the code releases the shard's latch before it writes an
  old page, so that another call can be placed between the parts. The iteration order of a
  hash table is the order of an association list.

  Of the log the pool uses only \<^verbatim>\<open>flush_log_to_disk\<close>. \<open>wal_lsn\<close> is the position of the last log
  record, \<open>wal_persist\<close> the last durable one, and \<open>page_outs\<close>, which no operation reads,
  records for each page written the two positions at that moment.
\<close>

unbundle bit_operations_syntax

section \<open>Data\<close>

record PageId =
  pg_fd :: int
  pg_no :: page_id_t

record page =
  pg_id :: PageId
  pg_data :: bytes
  is_dirty :: bool
  pin_count :: int

record bpm_shard =
  page_table :: "(64 word \<times> frame_id_t) list"
  page_io_inflight :: "64 word list"
  sh_repl :: lru
  free_frames :: "frame_id_t list"

record bpm =
  pool_size :: nat
  pages :: "frame_id_t \<Rightarrow> page"
  shards :: "nat \<Rightarrow> bpm_shard"
  frame_io_inflight :: "frame_id_t \<Rightarrow> bool"
  bp_disk :: disk
  wal_lsn :: lsn_t
  wal_persist :: lsn_t
  page_outs :: "(PageId \<times> lsn_t \<times> lsn_t) list"

definition BPM_NSHARDS :: nat where
  "BPM_NSHARDS = 64"

definition NO_PAGE :: PageId where
  "NO_PAGE = \<lparr>pg_fd = -1, pg_no = INVALID_PAGE_ID\<rparr>"

definition zero_page :: bytes where
  "zero_page = replicate PAGE_SIZE 0"

definition page_new :: page where
  "page_new = \<lparr>pg_id = \<lparr>pg_fd = 0, pg_no = INVALID_PAGE_ID\<rparr>, pg_data = zero_page, is_dirty = False, pin_count = 0\<rparr>"

definition page_id_less :: "PageId \<Rightarrow> PageId \<Rightarrow> bool" where
  "page_id_less p x \<longleftrightarrow> (if pg_fd p < pg_fd x then True else pg_no p < pg_no x)"

definition page_key :: "PageId \<Rightarrow> 64 word" where
  "page_key p = push_bit 32 (ucast (word_of_int (pg_fd p) :: 32 word)) OR ucast (word_of_int (pg_no p) :: 32 word)"

definition key_page :: "64 word \<Rightarrow> PageId" where
  "key_page k = \<lparr>pg_fd = sint (ucast (drop_bit 32 k) :: 32 word), pg_no = sint (ucast k :: 32 word)\<rparr>"

text \<open>The hash is computed in \<^verbatim>\<open>int\<close> and converted to \<^verbatim>\<open>size_t\<close>.\<close>

definition page_id_hash :: "PageId \<Rightarrow> 64 word" where
  "page_id_hash p = scast (push_bit 16 (word_of_int (pg_fd p) :: 32 word) OR word_of_int (pg_no p))"

definition shard_of_page :: "PageId \<Rightarrow> nat" where
  "shard_of_page p = unat (page_id_hash p) mod BPM_NSHARDS"

definition bpm_new :: "nat \<Rightarrow> disk \<Rightarrow> bpm" where
  "bpm_new n d =
     \<lparr>pool_size = n, pages = (\<lambda>_. page_new),
      shards = (\<lambda>s. \<lparr>page_table = [], page_io_inflight = [], sh_repl = lru_new n,
                     free_frames = filter (\<lambda>i. i mod BPM_NSHARDS = s) [0..<n]\<rparr>),
      frame_io_inflight = (\<lambda>_. False), bp_disk = d, wal_lsn = -1, wal_persist = -1, page_outs = []\<rparr>"

subsection \<open>Access to the parts\<close>

definition upd_page :: "frame_id_t \<Rightarrow> (page \<Rightarrow> page) \<Rightarrow> bpm \<Rightarrow> bpm" where
  "upd_page f g s = s\<lparr>pages := (pages s)(f := g (pages s f))\<rparr>"

definition upd_shard :: "nat \<Rightarrow> (bpm_shard \<Rightarrow> bpm_shard) \<Rightarrow> bpm \<Rightarrow> bpm" where
  "upd_shard i g s = s\<lparr>shards := (shards s)(i := g (shards s i))\<rparr>"

definition set_io :: "frame_id_t \<Rightarrow> bool \<Rightarrow> bpm \<Rightarrow> bpm" where
  "set_io f b s = s\<lparr>frame_io_inflight := (frame_io_inflight s)(f := b)\<rparr>"

definition tab_erase :: "64 word \<Rightarrow> bpm_shard \<Rightarrow> bpm_shard" where
  "tab_erase k sh = sh\<lparr>page_table := filter (\<lambda>e. fst e \<noteq> k) (page_table sh)\<rparr>"

definition tab_put :: "64 word \<Rightarrow> frame_id_t \<Rightarrow> bpm_shard \<Rightarrow> bpm_shard" where
  "tab_put k f sh = sh\<lparr>page_table := (k, f) # filter (\<lambda>e. fst e \<noteq> k) (page_table sh)\<rparr>"

definition inflight_insert :: "64 word \<Rightarrow> bpm_shard \<Rightarrow> bpm_shard" where
  "inflight_insert k sh = sh\<lparr>page_io_inflight := k # page_io_inflight sh\<rparr>"

definition inflight_erase :: "64 word \<Rightarrow> bpm_shard \<Rightarrow> bpm_shard" where
  "inflight_erase k sh = sh\<lparr>page_io_inflight := filter (\<lambda>x. x \<noteq> k) (page_io_inflight sh)\<rparr>"

definition free_frame :: "frame_id_t \<Rightarrow> bpm \<Rightarrow> bpm" where
  "free_frame f = upd_shard (f mod BPM_NSHARDS) (\<lambda>sh. sh\<lparr>free_frames := free_frames sh @ [f]\<rparr>)"

definition lookup :: "bpm \<Rightarrow> PageId \<Rightarrow> frame_id_t option" where
  "lookup s p = map_of (page_table (shards s (shard_of_page p))) (page_key p)"

definition flush_log :: "bpm \<Rightarrow> bpm" where
  "flush_log s = s\<lparr>wal_persist := max (wal_persist s) (wal_lsn s)\<rparr>"

definition write_out :: "PageId \<Rightarrow> bytes \<Rightarrow> bpm \<Rightarrow> db_error option \<times> bpm" where
  "write_out p bs s =
     (case write_page (bp_disk s) (pg_fd p) (pg_no p) bs of
        (e, d) \<Rightarrow> (e, s\<lparr>bp_disk := d, page_outs := page_outs s @ [(p, wal_lsn s, wal_persist s)]\<rparr>))"

section \<open>Frames for new pages\<close>

fun reserve_scan :: "nat list \<Rightarrow> bpm \<Rightarrow> (frame_id_t \<times> PageId \<times> bool \<times> bpm) option" where
  "reserve_scan [] s = None"
| "reserve_scan (i # is) s =
     (case free_frames (shards s i) of
        f # rest \<Rightarrow>
          Some (f, NO_PAGE, False,
                set_io f True (upd_page f (\<lambda>p. p\<lparr>pin_count := 1\<rparr>)
                  (upd_shard i (\<lambda>sh. sh\<lparr>free_frames := rest\<rparr>) s)))
      | [] \<Rightarrow>
          (case victim (sh_repl (shards s i)) of
             (None, r) \<Rightarrow> reserve_scan is (upd_shard i (\<lambda>sh. sh\<lparr>sh_repl := r\<rparr>) s)
           | (Some f, r) \<Rightarrow>
               let v = pages s f; s1 = upd_shard i (\<lambda>sh. sh\<lparr>sh_repl := r\<rparr>) s;
                   s2 = (if pg_no (pg_id v) \<noteq> INVALID_PAGE_ID
                         then upd_shard i (tab_erase (page_key (pg_id v))) s1 else s1)
               in Some (f, pg_id v, is_dirty v, set_io f True (upd_page f (\<lambda>p. p\<lparr>pin_count := 1\<rparr>) s2))))"

definition reserve_victim :: "nat \<Rightarrow> bpm \<Rightarrow> (frame_id_t \<times> PageId \<times> bool \<times> bpm) option" where
  "reserve_victim pref s = reserve_scan (map (\<lambda>k. (pref + k) mod BPM_NSHARDS) [0..<BPM_NSHARDS]) s"

section \<open>Fetching\<close>

text \<open>
  The loop up to the point where a frame is pinned or reserved. \<open>Blocked\<close> stands for the two waits:
  the caller tries again when the transfer it waits for has ended.
\<close>

datatype fetch_result =
    Hit frame_id_t
  | Blocked
  | NoFrame
  | Reserved frame_id_t PageId bool

definition fetch_start :: "PageId \<Rightarrow> bpm \<Rightarrow> fetch_result \<times> bpm" where
  "fetch_start pid s =
     (let key = page_key pid; si = shard_of_page pid
      in if key \<in> set (page_io_inflight (shards s si)) then (Blocked, s)
         else case lookup s pid of
           Some f \<Rightarrow>
             if 0 < pin_count (pages s f)
             then (Hit f, upd_page f (\<lambda>p. p\<lparr>pin_count := pin_count p + 1\<rparr>) s)
             else if pg_id (pages s f) \<noteq> pid \<or> frame_io_inflight s f then (Blocked, s)
             else (Hit f,
               upd_page f (\<lambda>p. p\<lparr>pin_count := pin_count p + 1\<rparr>)
                 (if pin_count (pages s f) = 0
                  then upd_shard si (\<lambda>sh. sh\<lparr>sh_repl := pin (sh_repl sh) f\<rparr>) s else s))
         | None \<Rightarrow>
             let s1 = upd_shard si (inflight_insert key) s
             in case reserve_victim si s1 of
                  None \<Rightarrow> (NoFrame, upd_shard si (inflight_erase key) s1)
                | Some (f, old, need, s2) \<Rightarrow> (Reserved f old need, s2))"

definition fetch_fail :: "PageId \<Rightarrow> frame_id_t \<Rightarrow> bpm \<Rightarrow> bpm" where
  "fetch_fail pid f s =
     upd_shard (shard_of_page pid) (inflight_erase (page_key pid))
      (set_io f False
       (free_frame f (upd_page f (\<lambda>p. p\<lparr>pg_id := NO_PAGE, pin_count := 0, is_dirty := False\<rparr>) s)))"

definition fetch_publish :: "PageId \<Rightarrow> frame_id_t \<Rightarrow> bpm \<Rightarrow> bpm" where
  "fetch_publish pid f s =
     set_io f False
      (upd_shard (shard_of_page pid) (inflight_erase (page_key pid))
       (upd_shard (shard_of_page pid) (tab_put (page_key pid) f)
        (upd_page f (\<lambda>p. p\<lparr>pg_id := pid, is_dirty := False\<rparr>) s)))"

definition flush_old :: "PageId \<Rightarrow> bool \<Rightarrow> frame_id_t \<Rightarrow> bpm \<Rightarrow> db_error option \<times> bpm" where
  "flush_old old need f s =
     (if need then write_out old (pg_data (pages s f)) (flush_log s) else (None, s))"

definition fetch_finish :: "PageId \<Rightarrow> frame_id_t \<Rightarrow> PageId \<Rightarrow> bool \<Rightarrow> bpm \<Rightarrow> (db_error + frame_id_t option) \<times> bpm" where
  "fetch_finish pid f old need s =
     (case flush_old old need f s of
        (Some e, s1) \<Rightarrow> (Inl e, fetch_fail pid f s1)
      | (None, s1) \<Rightarrow>
          (case read_page (bp_disk s1) (pg_fd pid) (pg_no pid) (pg_data (pages s1 f)) PAGE_SIZE of
             (e, bs) \<Rightarrow>
               let s2 = upd_page f (\<lambda>p. p\<lparr>pg_data := bs\<rparr>) s1
               in case e of
                    Some err \<Rightarrow> (Inl err, fetch_fail pid f s2)
                  | None \<Rightarrow> (Inr (Some f), fetch_publish pid f s2)))"

text \<open>A fetch that no other thread interrupts; \<open>None\<close> is a wait that would not end.\<close>

definition fetch_page :: "PageId \<Rightarrow> bpm \<Rightarrow> ((db_error + frame_id_t option) \<times> bpm) option" where
  "fetch_page pid s =
     (case fetch_start pid s of
        (Hit f, s1) \<Rightarrow> Some (Inr (Some f), s1)
      | (Blocked, s1) \<Rightarrow> None
      | (NoFrame, s1) \<Rightarrow> Some (Inr None, s1)
      | (Reserved f old need, s1) \<Rightarrow> Some (fetch_finish pid f old need s1))"

section \<open>The other operations\<close>

definition mark_dirty :: "frame_id_t \<Rightarrow> bpm \<Rightarrow> bpm" where
  "mark_dirty f = upd_page f (\<lambda>p. p\<lparr>is_dirty := True\<rparr>)"

text \<open>A caller's change of the bytes of a pinned page through \<^verbatim>\<open>get_data()\<close>.\<close>

definition set_data :: "frame_id_t \<Rightarrow> bytes \<Rightarrow> bpm \<Rightarrow> bpm" where
  "set_data f bs = upd_page f (\<lambda>p. p\<lparr>pg_data := bs\<rparr>)"

definition unpin_page :: "PageId \<Rightarrow> bool \<Rightarrow> bpm \<Rightarrow> bool \<times> bpm" where
  "unpin_page pid dirty s =
     (case lookup s pid of
        None \<Rightarrow> (False, s)
      | Some f \<Rightarrow>
          let s1 = (if dirty then upd_page f (\<lambda>p. p\<lparr>is_dirty := True\<rparr>) s else s)
          in if pin_count (pages s1 f) \<le> 0 then (False, s1)
             else let s2 = upd_page f (\<lambda>p. p\<lparr>pin_count := pin_count p - 1\<rparr>) s1
                  in (True, if pin_count (pages s2 f) = 0
                            then upd_shard (shard_of_page pid) (\<lambda>sh. sh\<lparr>sh_repl := unpin (sh_repl sh) f\<rparr>) s2
                            else s2))"

definition flush_page :: "PageId \<Rightarrow> bpm \<Rightarrow> (db_error + bool) \<times> bpm" where
  "flush_page pid s =
     (case lookup s pid of
        None \<Rightarrow> (Inr False, s)
      | Some f \<Rightarrow>
          (case write_out pid (pg_data (pages s f)) (flush_log s) of
             (Some e, s1) \<Rightarrow> (Inl e, s1)
           | (None, s1) \<Rightarrow> (Inr True, upd_page f (\<lambda>p. p\<lparr>is_dirty := False\<rparr>) s1)))"

definition new_page :: "int \<Rightarrow> bpm \<Rightarrow> (db_error + (frame_id_t \<times> PageId) option) \<times> bpm" where
  "new_page fd s =
     (case allocate_page (bp_disk s) fd of
        Inl e \<Rightarrow> (Inl e, s)
      | Inr (pno, d) \<Rightarrow>
          let pid = \<lparr>pg_fd = fd, pg_no = pno\<rparr>; si = shard_of_page pid; s0 = s\<lparr>bp_disk := d\<rparr>
          in case reserve_victim si s0 of
               None \<Rightarrow> (Inr None, s0)
             | Some (f, old, need, s1) \<Rightarrow>
                 (case flush_old old need f s1 of
                    (Some e, s2) \<Rightarrow> (Inl e, s2)
                  | (None, s2) \<Rightarrow>
                      (Inr (Some (f, pid)),
                       set_io f False
                        (upd_shard si (tab_put (page_key pid) f)
                         (upd_page f (\<lambda>p. \<lparr>pg_id = pid, pg_data = zero_page, is_dirty = False, pin_count = 1\<rparr>) s2)))))"

datatype delete_result = Deleted | Busy | Removed frame_id_t "(PageId \<times> bytes) option"

definition delete_start :: "PageId \<Rightarrow> bpm \<Rightarrow> delete_result \<times> bpm" where
  "delete_start pid s =
     (case lookup s pid of
        None \<Rightarrow> (Deleted, s)
      | Some f \<Rightarrow>
          if pin_count (pages s f) \<noteq> 0 then (Busy, s)
          else (Removed f (if is_dirty (pages s f) then Some (pg_id (pages s f), pg_data (pages s f)) else None),
                upd_page f (\<lambda>p. \<lparr>pg_id = NO_PAGE, pg_data = zero_page, is_dirty = False, pin_count = 0\<rparr>)
                 (upd_shard (shard_of_page pid)
                   (\<lambda>sh. tab_erase (page_key pid) (sh\<lparr>sh_repl := pin (sh_repl sh) f\<rparr>)) s)))"

definition delete_page :: "PageId \<Rightarrow> bpm \<Rightarrow> (db_error + bool) \<times> bpm" where
  "delete_page pid s =
     (case delete_start pid s of
        (Deleted, s1) \<Rightarrow> (Inr True, s1)
      | (Busy, s1) \<Rightarrow> (Inr False, s1)
      | (Removed f None, s1) \<Rightarrow> (Inr True, free_frame f s1)
      | (Removed f (Some (p, bs)), s1) \<Rightarrow>
          (case write_out p bs (flush_log s1) of
             (Some e, s2) \<Rightarrow> (Inl e, s2)
           | (None, s2) \<Rightarrow> (Inr True, free_frame f s2)))"

fun flush_entries :: "int \<Rightarrow> (64 word \<times> frame_id_t) list \<Rightarrow> bpm \<Rightarrow> db_error option \<times> bpm" where
  "flush_entries fd [] s = (None, s)"
| "flush_entries fd ((k, f) # es) s =
     (if pg_fd (key_page k) \<noteq> fd then flush_entries fd es s
      else case write_out (key_page k) (pg_data (pages s f)) s of
             (Some e, s1) \<Rightarrow> (Some e, s1)
           | (None, s1) \<Rightarrow> flush_entries fd es (upd_page f (\<lambda>p. p\<lparr>is_dirty := False\<rparr>) s1))"

fun flush_shards :: "int \<Rightarrow> nat list \<Rightarrow> bpm \<Rightarrow> db_error option \<times> bpm" where
  "flush_shards fd [] s = (None, s)"
| "flush_shards fd (i # is) s =
     (case flush_entries fd (page_table (shards s i)) s of
        (Some e, s1) \<Rightarrow> (Some e, s1)
      | (None, s1) \<Rightarrow> flush_shards fd is s1)"

definition flush_all_pages :: "int \<Rightarrow> bpm \<Rightarrow> db_error option \<times> bpm" where
  "flush_all_pages fd s = flush_shards fd [0..<BPM_NSHARDS] (flush_log s)"

fun delete_entries ::
    "int \<Rightarrow> nat \<Rightarrow> (64 word \<times> frame_id_t) list \<Rightarrow> frame_id_t list \<Rightarrow> bpm \<Rightarrow> (db_error + frame_id_t list) \<times> bpm" where
  "delete_entries fd i [] freed s = (Inr freed, s)"
| "delete_entries fd i ((k, f) # es) freed s =
     (if pg_fd (key_page k) \<noteq> fd then delete_entries fd i es freed s
      else case (if is_dirty (pages s f) then write_out (key_page k) (pg_data (pages s f)) s else (None, s)) of
             (Some e, s1) \<Rightarrow> (Inl e, s1)
           | (None, s1) \<Rightarrow>
               delete_entries fd i es (freed @ [f])
                 (upd_shard i (tab_erase k)
                   (upd_page f (\<lambda>p. \<lparr>pg_id = NO_PAGE, pg_data = zero_page, is_dirty = False, pin_count = 0\<rparr>)
                     (upd_shard i (\<lambda>sh. sh\<lparr>sh_repl := pin (sh_repl sh) f\<rparr>) s1))))"

fun delete_shards :: "int \<Rightarrow> nat list \<Rightarrow> frame_id_t list \<Rightarrow> bpm \<Rightarrow> (db_error + frame_id_t list) \<times> bpm" where
  "delete_shards fd [] freed s = (Inr freed, s)"
| "delete_shards fd (i # is) freed s =
     (case delete_entries fd i (page_table (shards s i)) freed s of
        (Inl e, s1) \<Rightarrow> (Inl e, s1)
      | (Inr freed', s1) \<Rightarrow> delete_shards fd is freed' s1)"

definition delete_all_pages :: "int \<Rightarrow> bpm \<Rightarrow> db_error option \<times> bpm" where
  "delete_all_pages fd s =
     (case delete_shards fd [0..<BPM_NSHARDS] [] (flush_log s) of
        (Inl e, s1) \<Rightarrow> (Some e, s1)
      | (Inr freed, s1) \<Rightarrow> (None, fold free_frame freed s1))"

section \<open>The page cleaner\<close>

text \<open>
  One round of the cleaner's inner loop is two critical sections with the write between them:
  choose an unpinned dirty page of a shard and copy it, then clear the dirty flag when the page
  is still there, unpinned and dirty.
\<close>

definition cleaner_pick :: "nat \<Rightarrow> bpm \<Rightarrow> (frame_id_t \<times> PageId \<times> bytes) option" where
  "cleaner_pick i s =
     (case filter (\<lambda>(k, f). pin_count (pages s f) = 0 \<and> is_dirty (pages s f) \<and> \<not> frame_io_inflight s f)
             (page_table (shards s i)) of
        [] \<Rightarrow> None
      | (k, f) # _ \<Rightarrow> Some (f, pg_id (pages s f), pg_data (pages s f)))"

definition cleaner_write :: "PageId \<Rightarrow> bytes \<Rightarrow> bpm \<Rightarrow> db_error option \<times> bpm" where
  "cleaner_write pid bs s = write_out pid bs (flush_log s)"

definition cleaner_clear :: "frame_id_t \<Rightarrow> PageId \<Rightarrow> bpm \<Rightarrow> bpm" where
  "cleaner_clear f pid s =
     (if pin_count (pages s f) = 0 \<and> pg_id (pages s f) = pid \<and> is_dirty (pages s f)
      then upd_page f (\<lambda>p. p\<lparr>is_dirty := False\<rparr>) s else s)"

definition CLEANER_BATCH :: nat where
  "CLEANER_BATCH = 256"

definition total_free :: "bpm \<Rightarrow> nat" where
  "total_free s = (\<Sum>i\<leftarrow>[0..<BPM_NSHARDS]. length (free_frames (shards s i)))"

text \<open>The inner loop on one shard: \<open>n\<close> bounds the pages still to be flushed in this batch.\<close>

fun cleaner_shard :: "nat \<Rightarrow> nat \<Rightarrow> bpm \<Rightarrow> db_error + nat \<times> bpm" where
  "cleaner_shard 0 i s = Inr (0, s)"
| "cleaner_shard (Suc n) i s =
     (case cleaner_pick i s of
        None \<Rightarrow> Inr (Suc n, s)
      | Some (f, pid, bs) \<Rightarrow>
          (case cleaner_write pid bs s of
             (Some e, s1) \<Rightarrow> Inl e
           | (None, s1) \<Rightarrow> cleaner_shard n i (cleaner_clear f pid s1)))"

fun cleaner_shards :: "nat \<Rightarrow> nat list \<Rightarrow> bpm \<Rightarrow> db_error + bpm" where
  "cleaner_shards n [] s = Inr s"
| "cleaner_shards n (i # is) s =
     (if n = 0 then Inr s else and_then (cleaner_shard n i s) (\<lambda>(n', s'). cleaner_shards n' is s'))"

definition cleaner_round :: "nat \<Rightarrow> bpm \<Rightarrow> db_error + bpm" where
  "cleaner_round next_shard s =
     (if pool_size s div 16 \<le> total_free s then Inr s
      else cleaner_shards CLEANER_BATCH (map (\<lambda>k. (next_shard + k) mod BPM_NSHARDS) [0..<BPM_NSHARDS]) s)"

section \<open>Page keys\<close>

definition pid_range :: "PageId \<Rightarrow> bool" where
  "pid_range p \<longleftrightarrow> in_s 4 (pg_fd p) \<and> in_s 4 (pg_no p)"

lemma sint_word32_of_int: "in_s 4 x \<Longrightarrow> sint (word_of_int x :: 32 word) = x"
proof -
  assume "in_s 4 x"
  then have "- (2 ^ 31) \<le> x" "x < 2 ^ 31" by (simp_all add: in_s_def)
  then show ?thesis by (simp add: int_word_sint)
qed

lemma key_high: "(ucast (drop_bit 32 (push_bit 32 (ucast a) OR ucast b :: 64 word)) :: 32 word) = a" for a b :: "32 word"
  by (rule bit_word_eqI) (auto simp: bit_simps dest: bit_imp_le_length)

lemma key_low: "(ucast (push_bit 32 (ucast a) OR ucast b :: 64 word) :: 32 word) = b" for a b :: "32 word"
  by (rule bit_word_eqI) (auto simp: bit_simps dest: bit_imp_le_length)

lemma key_page_key: "pid_range p \<Longrightarrow> key_page (page_key p) = p"
  unfolding key_page_def page_key_def key_high key_low by (simp add: pid_range_def sint_word32_of_int)

lemma page_key_inj: "pid_range p \<Longrightarrow> pid_range q \<Longrightarrow> page_key p = page_key q \<longleftrightarrow> p = q"
  by (metis key_page_key)

lemma shard_of_page_less [simp]: "shard_of_page p < BPM_NSHARDS"
  by (simp add: shard_of_page_def BPM_NSHARDS_def)

section \<open>Invariant\<close>

text \<open>
  \<open>X\<close> are the pages whose holders have changed them without marking them yet, \<open>Y\<close> the frames
  reserved for a transfer. Outside of \<open>X\<close> a clean page of the pool equals the page on disk; the replacer
  of a shard holds exactly the unpinned resident frames of that shard; free and reserved
  frames hold no resident page.
\<close>

definition pid_ok :: "disk \<Rightarrow> PageId \<Rightarrow> bool" where
  "pid_ok d p \<longleftrightarrow> pid_range p \<and> 0 \<le> pg_no p \<and> file_of d (pg_fd p) \<noteq> None"

definition resident :: "bpm \<Rightarrow> frame_id_t \<Rightarrow> bool" where
  "resident s f \<longleftrightarrow> lookup s (pg_id (pages s f)) = Some f"

definition entry_ok :: "bpm \<Rightarrow> nat \<Rightarrow> 64 word \<times> frame_id_t \<Rightarrow> bool" where
  "entry_ok s i e \<longleftrightarrow> snd e < pool_size s \<and> fst e = page_key (pg_id (pages s (snd e)))
     \<and> shard_of_page (pg_id (pages s (snd e))) = i \<and> pid_ok (bp_disk s) (pg_id (pages s (snd e)))
     \<and> 0 \<le> pin_count (pages s (snd e))"

definition tabs_ok :: "bpm \<Rightarrow> bool" where
  "tabs_ok s \<longleftrightarrow> (\<forall>i < BPM_NSHARDS. distinct (map fst (page_table (shards s i)))
     \<and> list_all (entry_ok s i) (page_table (shards s i)))"

definition repl_ok :: "bpm \<Rightarrow> bool" where
  "repl_ok s \<longleftrightarrow> (\<forall>i < BPM_NSHARDS. lru_inv (sh_repl (shards s i)) \<and> max_size (sh_repl (shards s i)) = pool_size s
     \<and> set (frames (sh_repl (shards s i))) =
         {f. resident s f \<and> shard_of_page (pg_id (pages s f)) = i \<and> pin_count (pages s f) = 0})"

definition free_ok :: "frame_id_t set \<Rightarrow> bpm \<Rightarrow> bool" where
  "free_ok Y s \<longleftrightarrow> (\<forall>i < BPM_NSHARDS. distinct (free_frames (shards s i))
     \<and> (\<forall>f \<in> set (free_frames (shards s i)). f < pool_size s \<and> f mod BPM_NSHARDS = i \<and> \<not> resident s f \<and> f \<notin> Y))
     \<and> (\<forall>f \<in> Y. f < pool_size s \<and> \<not> resident s f)"

definition data_ok :: "bpm \<Rightarrow> bool" where
  "data_ok s \<longleftrightarrow> disk_inv (bp_disk s) \<and> (\<forall>f. length (pg_data (pages s f)) = PAGE_SIZE)"

definition clean_ok :: "PageId set \<Rightarrow> bpm \<Rightarrow> bool" where
  "clean_ok X s \<longleftrightarrow> (\<forall>f. resident s f \<longrightarrow>
       (if pg_id (pages s f) \<in> X then 0 < pin_count (pages s f)
        else is_dirty (pages s f)
          \<or> disk_page (bp_disk s) (pg_fd (pg_id (pages s f))) (pg_no (pg_id (pages s f))) = Some (pg_data (pages s f))))"

definition io_ok :: "frame_id_t set \<Rightarrow> bpm \<Rightarrow> bool" where
  "io_ok Y s \<longleftrightarrow> (\<forall>f. frame_io_inflight s f \<longrightarrow> f \<in> Y)"

definition bpm_inv :: "PageId set \<Rightarrow> frame_id_t set \<Rightarrow> bpm \<Rightarrow> bool" where
  "bpm_inv X Y s \<longleftrightarrow> tabs_ok s \<and> repl_ok s \<and> free_ok Y s \<and> data_ok s \<and> clean_ok X s \<and> io_ok Y s"

text \<open>The content of a page as the callers of the pool see it.\<close>

definition page_view :: "bpm \<Rightarrow> PageId \<Rightarrow> bytes option" where
  "page_view s p = (case lookup s p of
       Some f \<Rightarrow> Some (pg_data (pages s f))
     | None \<Rightarrow> disk_page (bp_disk s) (pg_fd p) (pg_no p))"

text \<open>How often the callers hold a page.\<close>

definition pins :: "bpm \<Rightarrow> PageId \<Rightarrow> int" where
  "pins s p = (case lookup s p of Some f \<Rightarrow> pin_count (pages s f) | None \<Rightarrow> 0)"

lemma bpm_invD:
  assumes "bpm_inv X Y s"
  shows "tabs_ok s" "repl_ok s" "free_ok Y s" "data_ok s" "clean_ok X s" "io_ok Y s"
  using assms by (simp_all add: bpm_inv_def)

lemma bpm_invI:
  "tabs_ok s \<Longrightarrow> repl_ok s \<Longrightarrow> free_ok Y s \<Longrightarrow> data_ok s \<Longrightarrow> clean_ok X s \<Longrightarrow> io_ok Y s \<Longrightarrow> bpm_inv X Y s"
  by (simp add: bpm_inv_def)

lemma tabs_okE:
  assumes "tabs_ok s" and "i < BPM_NSHARDS" and "(k, f) \<in> set (page_table (shards s i))"
  shows "f < pool_size s" "k = page_key (pg_id (pages s f))" "shard_of_page (pg_id (pages s f)) = i"
    "pid_ok (bp_disk s) (pg_id (pages s f))" "0 \<le> pin_count (pages s f)" "resident s f"
proof -
  have e: "entry_ok s i (k, f)" and d: "distinct (map fst (page_table (shards s i)))"
    using assms by (auto simp: tabs_ok_def list_all_iff)
  then show "f < pool_size s" "k = page_key (pg_id (pages s f))" "shard_of_page (pg_id (pages s f)) = i"
    "pid_ok (bp_disk s) (pg_id (pages s f))" "0 \<le> pin_count (pages s f)"
    by (simp_all add: entry_ok_def)
  then show "resident s f"
    using d assms(3) by (simp add: resident_def lookup_def map_of_is_SomeI)
qed

lemma lookup_Some:
  assumes "tabs_ok s" and "lookup s p = Some f"
  shows "f < pool_size s" "page_key (pg_id (pages s f)) = page_key p" "pid_ok (bp_disk s) (pg_id (pages s f))"
    "0 \<le> pin_count (pages s f)" "resident s f" "shard_of_page (pg_id (pages s f)) = shard_of_page p"
proof -
  have "(page_key p, f) \<in> set (page_table (shards s (shard_of_page p)))"
    using assms(2) by (simp add: lookup_def map_of_SomeD)
  note t = tabs_okE [OF assms(1) shard_of_page_less this]
  show "f < pool_size s" "page_key (pg_id (pages s f)) = page_key p" "pid_ok (bp_disk s) (pg_id (pages s f))"
    "0 \<le> pin_count (pages s f)" "resident s f" "shard_of_page (pg_id (pages s f)) = shard_of_page p"
    using t by simp_all
qed

lemma lookup_pid:
  assumes "tabs_ok s" and "lookup s p = Some f" and "pid_range p"
  shows "pg_id (pages s f) = p"
  using lookup_Some [OF assms(1,2)] page_key_inj assms(3) by (auto simp: pid_ok_def)

lemma resident_ok:
  assumes "tabs_ok s" and "resident s f"
  shows "f < pool_size s" "pid_ok (bp_disk s) (pg_id (pages s f))" "0 \<le> pin_count (pages s f)"
    "pid_range (pg_id (pages s f))"
  using lookup_Some [OF assms(1), of "pg_id (pages s f)" f] assms(2) by (simp_all add: resident_def pid_ok_def)

lemma resident_inj:
  assumes "resident s f" and "resident s g" and "pg_id (pages s f) = pg_id (pages s g)"
  shows "f = g"
  using assms by (simp add: resident_def)

subsection \<open>Changes of one page\<close>

lemma upd_page_simps [simp]:
  "pool_size (upd_page f g s) = pool_size s" "shards (upd_page f g s) = shards s"
  "frame_io_inflight (upd_page f g s) = frame_io_inflight s" "bp_disk (upd_page f g s) = bp_disk s"
  "pages (upd_page f g s) = (pages s)(f := g (pages s f))" "lookup (upd_page f g s) p = lookup s p"
  "page_outs (upd_page f g s) = page_outs s" "wal_lsn (upd_page f g s) = wal_lsn s"
  "wal_persist (upd_page f g s) = wal_persist s"
  by (simp_all add: upd_page_def lookup_def)

lemma resident_upd_page:
  "pg_id (g (pages s f)) = pg_id (pages s f) \<Longrightarrow> resident (upd_page f g s) h \<longleftrightarrow> resident s h"
  by (simp add: resident_def)

lemma tabs_ok_upd_page:
  assumes "tabs_ok s" and "pg_id (g (pages s f)) = pg_id (pages s f)"
    and "resident s f \<Longrightarrow> 0 \<le> pin_count (g (pages s f))"
  shows "tabs_ok (upd_page f g s)"
proof -
  have "entry_ok (upd_page f g s) i e" if "i < BPM_NSHARDS" "e \<in> set (page_table (shards s i))" for i e
  proof -
    obtain k h where e: "e = (k, h)" by (cases e)
    note t = tabs_okE [OF assms(1) that(1), of k h]
    show ?thesis using t that(2) assms(2,3) by (cases "h = f") (simp_all add: e entry_ok_def)
  qed
  then show ?thesis using assms(1) by (auto simp: tabs_ok_def list_all_iff)
qed

lemma bpm_inv_upd_page:
  assumes inv: "bpm_inv X Y s" and id: "pg_id (g (pages s f)) = pg_id (pages s f)"
    and len: "length (pg_data (g (pages s f))) = PAGE_SIZE"
    and pin: "pin_count (g (pages s f)) = pin_count (pages s f)"
    and cl: "resident s f \<Longrightarrow> if pg_id (pages s f) \<in> X' then 0 < pin_count (pages s f) else is_dirty (g (pages s f))
        \<or> disk_page (bp_disk s) (pg_fd (pg_id (pages s f))) (pg_no (pg_id (pages s f))) = Some (pg_data (g (pages s f)))"
    and X: "\<And>h. resident s h \<Longrightarrow> h \<noteq> f \<Longrightarrow> pg_id (pages s h) \<in> X' \<longleftrightarrow> pg_id (pages s h) \<in> X"
  shows "bpm_inv X' Y (upd_page f g s)"
proof (rule bpm_invI)
  let ?s = "upd_page f g s"
  have res: "resident ?s h \<longleftrightarrow> resident s h" for h by (rule resident_upd_page [of g s f h, OF id])
  have pid: "pg_id (pages ?s h) = pg_id (pages s h)" and pc: "pin_count (pages ?s h) = pin_count (pages s h)" for h
    using id pin by simp_all
  show "tabs_ok ?s"
    by (rule tabs_ok_upd_page [of s g f, OF bpm_invD(1) [OF inv] id]) (use resident_ok(3) [OF bpm_invD(1) [OF inv]] pin in simp)
  show "repl_ok ?s" using bpm_invD(2) [OF inv] unfolding repl_ok_def res pid pc by simp
  show "free_ok Y ?s" using bpm_invD(3) [OF inv] unfolding free_ok_def res by simp
  show "data_ok ?s" using bpm_invD(4) [OF inv] len by (simp add: data_ok_def)
  show "io_ok Y ?s" using bpm_invD(6) [OF inv] by (simp add: io_ok_def)
  show "clean_ok X' ?s"
    unfolding clean_ok_def res
  proof (intro allI impI)
    fix h assume h: "resident s h"
    show "if pg_id (pages ?s h) \<in> X' then 0 < pin_count (pages ?s h)
      else is_dirty (pages ?s h) \<or> disk_page (bp_disk ?s) (pg_fd (pg_id (pages ?s h))) (pg_no (pg_id (pages ?s h))) = Some (pg_data (pages ?s h))"
    proof (cases "h = f")
      case True
      then show ?thesis using cl h id pin by simp
    next
      case False
      then show ?thesis using bpm_invD(5) [OF inv] h X [OF h False] by (simp add: clean_ok_def)
    qed
  qed
qed

subsection \<open>Pinning and unpinning\<close>

lemma upd_shard_simps [simp]:
  "pool_size (upd_shard i g s) = pool_size s" "pages (upd_shard i g s) = pages s"
  "frame_io_inflight (upd_shard i g s) = frame_io_inflight s" "bp_disk (upd_shard i g s) = bp_disk s"
  "shards (upd_shard i g s) = (shards s)(i := g (shards s i))"
  "page_outs (upd_shard i g s) = page_outs s" "wal_lsn (upd_shard i g s) = wal_lsn s"
  "wal_persist (upd_shard i g s) = wal_persist s"
  by (simp_all add: upd_shard_def)

lemma lookup_upd_shard_same_table:
  "page_table (g (shards s i)) = page_table (shards s i) \<Longrightarrow> lookup (upd_shard i g s) p = lookup s p"
  by (simp add: lookup_def)

definition set_pin :: "frame_id_t \<Rightarrow> int \<Rightarrow> lru \<Rightarrow> bpm \<Rightarrow> bpm" where
  "set_pin f b r s = upd_page f (\<lambda>p. p\<lparr>pin_count := b\<rparr>)
     (upd_shard (shard_of_page (pg_id (pages s f))) (\<lambda>sh. sh\<lparr>sh_repl := r\<rparr>) s)"

lemma set_pin_simps [simp]:
  "pool_size (set_pin f b r s) = pool_size s" "bp_disk (set_pin f b r s) = bp_disk s"
  "frame_io_inflight (set_pin f b r s) = frame_io_inflight s"
  "pages (set_pin f b r s) = (pages s)(f := (pages s f)\<lparr>pin_count := b\<rparr>)"
  "lookup (set_pin f b r s) p = lookup s p"
  "page_table (shards (set_pin f b r s) i) = page_table (shards s i)"
  "free_frames (shards (set_pin f b r s) i) = free_frames (shards s i)"
  "page_io_inflight (shards (set_pin f b r s) i) = page_io_inflight (shards s i)"
  "sh_repl (shards (set_pin f b r s) i) = (if i = shard_of_page (pg_id (pages s f)) then r else sh_repl (shards s i))"
  "page_outs (set_pin f b r s) = page_outs s" "wal_lsn (set_pin f b r s) = wal_lsn s"
  "wal_persist (set_pin f b r s) = wal_persist s"
  by (simp_all add: set_pin_def lookup_def)

lemma resident_set_pin [simp]: "resident (set_pin f b r s) h \<longleftrightarrow> resident s h"
  by (simp add: resident_def)

lemma bpm_inv_set_pin:
  assumes inv: "bpm_inv X Y s" and res: "resident s f" and b: "0 \<le> b" "pg_id (pages s f) \<in> X \<Longrightarrow> 0 < b"
    and r: "lru_inv r" "max_size r = pool_size s"
      "set (frames r) = (if b = 0 then insert f (set (frames (sh_repl (shards s (shard_of_page (pg_id (pages s f)))))))
         else set (frames (sh_repl (shards s (shard_of_page (pg_id (pages s f)))))) - {f})"
  shows "bpm_inv X Y (set_pin f b r s)"
proof (rule bpm_invI)
  let ?s = "set_pin f b r s" and ?i = "shard_of_page (pg_id (pages s f))"
  have id: "pg_id (pages ?s h) = pg_id (pages s h)" for h by simp
  have "tabs_ok (upd_page f (\<lambda>p. p\<lparr>pin_count := b\<rparr>) s)"
    using b(1) by (intro tabs_ok_upd_page bpm_invD(1) [OF inv]) simp_all
  then show "tabs_ok ?s" by (simp add: tabs_ok_def list_all_iff entry_ok_def)
  show "repl_ok ?s"
  proof (unfold repl_ok_def, intro allI impI)
    fix i assume i: "i < BPM_NSHARDS"
    have old: "lru_inv (sh_repl (shards s i))" "max_size (sh_repl (shards s i)) = pool_size s"
      "set (frames (sh_repl (shards s i))) = {h. resident s h \<and> shard_of_page (pg_id (pages s h)) = i \<and> pin_count (pages s h) = 0}"
      using bpm_invD(2) [OF inv] i by (simp_all add: repl_ok_def)
    have "set (frames (sh_repl (shards ?s i))) = {h. resident ?s h \<and> shard_of_page (pg_id (pages ?s h)) = i \<and> pin_count (pages ?s h) = 0}"
    proof (cases "i = ?i")
      case True
      then show ?thesis using r(3) old(3) res by (cases "b = 0") (auto simp: True [symmetric])
    next
      case False
      then show ?thesis using old(3) by auto
    qed
    then show "lru_inv (sh_repl (shards ?s i)) \<and> max_size (sh_repl (shards ?s i)) = pool_size ?s
      \<and> set (frames (sh_repl (shards ?s i))) = {h. resident ?s h \<and> shard_of_page (pg_id (pages ?s h)) = i \<and> pin_count (pages ?s h) = 0}"
      using r old by simp
  qed
  show "free_ok Y ?s" using bpm_invD(3) [OF inv] by (simp add: free_ok_def)
  show "data_ok ?s" using bpm_invD(4) [OF inv] by (simp add: data_ok_def)
  show "io_ok Y ?s" using bpm_invD(6) [OF inv] by (simp add: io_ok_def)
  show "clean_ok X ?s" using bpm_invD(5) [OF inv] b res by (simp add: clean_ok_def)
qed

lemma repl_room:
  assumes "bpm_inv X Y s" and "resident s f" and "pin_count (pages s f) \<noteq> 0" and "i < BPM_NSHARDS"
  shows "length (frames (sh_repl (shards s i))) < pool_size s"
proof -
  let ?r = "sh_repl (shards s i)"
  have r: "lru_inv ?r" "set (frames ?r) = {h. resident s h \<and> shard_of_page (pg_id (pages s h)) = i \<and> pin_count (pages s h) = 0}"
    using bpm_invD(2) [OF assms(1)] assms(4) by (simp_all add: repl_ok_def)
  have "length (frames ?r) = card (set (frames ?r))" using lru_inv_distinct_snd [OF r(1)] by (simp add: distinct_card)
  moreover have "set (frames ?r) \<subset> {..<pool_size s}"
    using r(2) assms(2,3) resident_ok(1) [OF bpm_invD(1) [OF assms(1)]] by auto
  then have "card (set (frames ?r)) < card {..<pool_size s}" by (intro psubset_card_mono) auto
  ultimately show ?thesis by simp
qed

lemma repl_pinned:
  assumes "bpm_inv X Y s" and "pin_count (pages s f) \<noteq> 0" and "i < BPM_NSHARDS"
  shows "f \<notin> set (frames (sh_repl (shards s i)))"
  using bpm_invD(2) [OF assms(1)] assms(2,3) by (simp add: repl_ok_def)

lemma repl_facts:
  assumes "bpm_inv X Y s" and "i < BPM_NSHARDS"
  shows "lru_inv (sh_repl (shards s i))" "max_size (sh_repl (shards s i)) = pool_size s"
  using bpm_invD(2) [OF assms(1)] assms(2) by (simp_all add: repl_ok_def)

text \<open>A fetch of a resident page.\<close>

lemma fetch_start_hit:
  assumes inv: "bpm_inv X Y s" and lk: "lookup s p = Some f" and p: "pid_range p"
    and io: "page_key p \<notin> set (page_io_inflight (shards s (shard_of_page p)))" and Y: "f \<notin> Y"
  shows "\<exists>s'. fetch_start p s = (Hit f, s') \<and> bpm_inv X Y s' \<and> (\<forall>q. lookup s' q = lookup s q)
    \<and> pages s' = (pages s)(f := (pages s f)\<lparr>pin_count := pin_count (pages s f) + 1\<rparr>)
    \<and> bp_disk s' = bp_disk s \<and> (\<forall>i. page_io_inflight (shards s' i) = page_io_inflight (shards s i))
    \<and> page_outs s' = page_outs s \<and> wal_lsn s' = wal_lsn s"
proof -
  let ?i = "shard_of_page p" and ?n = "pin_count (pages s f)"
  have id: "pg_id (pages s f) = p" by (rule lookup_pid [OF bpm_invD(1) [OF inv] lk p])
  have res: "resident s f" and n: "0 \<le> ?n" using lookup_Some [OF bpm_invD(1) [OF inv] lk] by simp_all
  have nio: "\<not> frame_io_inflight s f" using bpm_invD(6) [OF inv] Y by (auto simp: io_ok_def)
  have r: "lru_inv (sh_repl (shards s ?i))" "max_size (sh_repl (shards s ?i)) = pool_size s"
    using repl_facts [OF inv] by simp_all
  show ?thesis
  proof (cases "0 < ?n")
    case True
    let ?s = "set_pin f (?n + 1) (sh_repl (shards s ?i)) s"
    have "bpm_inv X Y ?s"
      using True r repl_pinned [OF inv, of f ?i] by (intro bpm_inv_set_pin [OF inv res]) (simp_all add: id)
    moreover have "fetch_start p s = (Hit f, ?s)"
      using True io by (simp add: fetch_start_def lk set_pin_def id upd_shard_def upd_page_def)
    ultimately show ?thesis by (intro exI [of _ ?s]) simp
  next
    case False
    then have 0: "?n = 0" using n by simp
    let ?s = "set_pin f (?n + 1) (pin (sh_repl (shards s ?i)) f) s"
    have "bpm_inv X Y ?s"
      using r 0 by (intro bpm_inv_set_pin [OF inv res]) (simp_all add: id lru.pin_set lru_inv_pin)
    moreover have "fetch_start p s = (Hit f, ?s)"
      using 0 io nio by (simp add: fetch_start_def lk set_pin_def id)
    ultimately show ?thesis by (intro exI [of _ ?s]) simp
  qed
qed

lemma resident_X_removed:
  assumes "resident s f" and "resident s h" and "h \<noteq> f"
  shows "pg_id (pages s h) \<in> X - {pg_id (pages s f)} \<longleftrightarrow> pg_id (pages s h) \<in> X"
  using resident_inj [OF assms(2,1)] assms(3) by auto

lemma page_view_upd_page:
  assumes "tabs_ok s" and "resident s f" and "pid_range q" and "pg_id (g (pages s f)) = pg_id (pages s f)"
  shows "page_view (upd_page f g s) q =
    (if q = pg_id (pages s f) then Some (pg_data (g (pages s f))) else page_view s q)"
proof (cases "lookup s q")
  case None
  then have "q \<noteq> pg_id (pages s f)" using assms(2) by (auto simp: resident_def)
  then show ?thesis by (simp add: page_view_def None)
next
  case (Some h)
  have id: "pg_id (pages s h) = q" by (rule lookup_pid [OF assms(1) Some assms(3)])
  have "h = f \<longleftrightarrow> q = pg_id (pages s f)"
  proof
    assume "h = f"
    then show "q = pg_id (pages s f)" using id by simp
  next
    assume "q = pg_id (pages s f)"
    then show "h = f" using assms(2) Some by (simp add: resident_def)
  qed
  then show ?thesis by (simp add: page_view_def Some)
qed

lemma set_data_inv:
  assumes inv: "bpm_inv X Y s" and lk: "lookup s p = Some f" and p: "pid_range p" and pin: "0 < pin_count (pages s f)"
    and len: "length bs = PAGE_SIZE"
  shows "bpm_inv (insert p X) Y (set_data f bs s)"
    and "pid_range q \<Longrightarrow> page_view (set_data f bs s) q = (if q = p then Some bs else page_view s q)"
    and "lookup (set_data f bs s) q' = lookup s q'"
    and "pages (set_data f bs s) = (pages s)(f := (pages s f)\<lparr>pg_data := bs\<rparr>)"
proof -
  have id: "pg_id (pages s f) = p" by (rule lookup_pid [OF bpm_invD(1) [OF inv] lk p])
  have res: "resident s f" using lookup_Some [OF bpm_invD(1) [OF inv] lk] by simp
  show "bpm_inv (insert p X) Y (set_data f bs s)"
    unfolding set_data_def
  proof (rule bpm_inv_upd_page [OF inv])
    show "pg_id (pages s h) \<in> insert p X \<longleftrightarrow> pg_id (pages s h) \<in> X" if "resident s h" "h \<noteq> f" for h
      using resident_inj [OF that(1) res] that(2) id by auto
  qed (use id len pin in simp_all)
  show "page_view (set_data f bs s) q = (if q = p then Some bs else page_view s q)" if "pid_range q"
    unfolding set_data_def using page_view_upd_page [OF bpm_invD(1) [OF inv] res that] id by simp
qed (simp_all add: set_data_def)

text \<open>Releasing a page: what a holder changed it has to mark.\<close>

lemma unpin_page_inv:
  assumes inv: "bpm_inv X Y s" and lk: "lookup s p = Some f" and p: "pid_range p" and pin: "0 < pin_count (pages s f)"
    and X: "\<not> dirty \<Longrightarrow> p \<in> X \<Longrightarrow> 1 < pin_count (pages s f)"
  shows "fst (unpin_page p dirty s)"
    and "bpm_inv (if dirty then X - {p} else X) Y (snd (unpin_page p dirty s))"
    and "lookup (snd (unpin_page p dirty s)) q' = lookup s q'"
    and "pages (snd (unpin_page p dirty s)) =
      (pages s)(f := (pages s f)\<lparr>is_dirty := dirty \<or> is_dirty (pages s f), pin_count := pin_count (pages s f) - 1\<rparr>)"
    and "bp_disk (snd (unpin_page p dirty s)) = bp_disk s"
    and "page_io_inflight (shards (snd (unpin_page p dirty s)) i) = page_io_inflight (shards s i)"
proof -
  let ?s1 = "if dirty then upd_page f (\<lambda>p. p\<lparr>is_dirty := True\<rparr>) s else s"
  let ?n = "pin_count (pages s f)" and ?X = "if dirty then X - {p} else X"
  let ?r = "if ?n = 1 then unpin (sh_repl (shards s (shard_of_page p))) f else sh_repl (shards s (shard_of_page p))"
  have id: "pg_id (pages s f) = p" by (rule lookup_pid [OF bpm_invD(1) [OF inv] lk p])
  have res: "resident s f" using lookup_Some [OF bpm_invD(1) [OF inv] lk] by simp
  have inv1: "bpm_inv ?X Y ?s1"
  proof (cases dirty)
    case True
    have "bpm_inv (X - {p}) Y (upd_page f (\<lambda>p. p\<lparr>is_dirty := True\<rparr>) s)"
      by (rule bpm_inv_upd_page [OF inv])
        (use id bpm_invD(4) [OF inv] resident_X_removed [OF res] in \<open>auto simp: data_ok_def\<close>)
    then show ?thesis using True by simp
  qed (use inv in simp)
  have res1: "resident ?s1 f" using res by (simp add: resident_upd_page)
  have id1: "pg_id (pages ?s1 f) = p" and n1: "pin_count (pages ?s1 f) = ?n" and sh1: "shards ?s1 = shards s"
    and ps: "pool_size ?s1 = pool_size s" using id by simp_all
  have room: "length (frames (sh_repl (shards s (shard_of_page p)))) < pool_size s"
    using repl_room [OF inv res _ shard_of_page_less] pin by simp
  have "bpm_inv ?X Y (set_pin f (?n - 1) ?r ?s1)"
  proof (rule bpm_inv_set_pin [OF inv1 res1])
    show "0 \<le> ?n - 1" using pin by simp
    show "pg_id (pages ?s1 f) \<in> ?X \<Longrightarrow> 0 < ?n - 1" using X id1 by (auto split: if_splits)
    show "lru_inv ?r" "max_size ?r = pool_size ?s1"
      using repl_facts [OF inv, of "shard_of_page p"] ps by (simp_all add: lru_inv_unpin)
    show "set (frames ?r) = (if ?n - 1 = 0
        then insert f (set (frames (sh_repl (shards ?s1 (shard_of_page (pg_id (pages ?s1 f)))))))
        else set (frames (sh_repl (shards ?s1 (shard_of_page (pg_id (pages ?s1 f)))))) - {f})"
      unfolding id1 sh1
      using repl_pinned [OF inv, of f "shard_of_page p"] pin room repl_facts [OF inv, of "shard_of_page p"]
      by (simp add: lru.unpin_set)
  qed
  moreover have un: "unpin_page p dirty s = (True, set_pin f (?n - 1) ?r ?s1)"
    using pin id by (simp add: unpin_page_def lk Let_def set_pin_def upd_page_def upd_shard_def fun_upd_idem)
  ultimately show "fst (unpin_page p dirty s)" "bpm_inv ?X Y (snd (unpin_page p dirty s))" by simp_all
  show "lookup (snd (unpin_page p dirty s)) q' = lookup s q'" "bp_disk (snd (unpin_page p dirty s)) = bp_disk s"
    "page_io_inflight (shards (snd (unpin_page p dirty s)) i) = page_io_inflight (shards s i)"
    unfolding un by simp_all
  show "pages (snd (unpin_page p dirty s)) =
      (pages s)(f := (pages s f)\<lparr>is_dirty := dirty \<or> is_dirty (pages s f), pin_count := ?n - 1\<rparr>)"
    unfolding un by (cases dirty) (auto simp: fun_eq_iff)
qed

lemma page_view_cong:
  assumes "lookup s' p = lookup s p" and "\<And>f. lookup s p = Some f \<Longrightarrow> pg_data (pages s' f) = pg_data (pages s f)"
    and "lookup s p = None \<Longrightarrow> disk_page (bp_disk s') (pg_fd p) (pg_no p) = disk_page (bp_disk s) (pg_fd p) (pg_no p)"
  shows "page_view s' p = page_view s p"
  using assms by (cases "lookup s p") (simp_all add: page_view_def)

subsection \<open>Reserving a frame\<close>

lemma set_io_simps [simp]:
  "pool_size (set_io f b s) = pool_size s" "pages (set_io f b s) = pages s" "shards (set_io f b s) = shards s"
  "bp_disk (set_io f b s) = bp_disk s" "frame_io_inflight (set_io f b s) = (frame_io_inflight s)(f := b)"
  "lookup (set_io f b s) p = lookup s p" "resident (set_io f b s) h = resident s h"
  "page_outs (set_io f b s) = page_outs s" "wal_lsn (set_io f b s) = wal_lsn s"
  "wal_persist (set_io f b s) = wal_persist s"
  by (simp_all add: set_io_def lookup_def resident_def)

lemma free_okD:
  assumes "free_ok Y s" and "i < BPM_NSHARDS" and "f \<in> set (free_frames (shards s i))"
  shows "f < pool_size s" "f mod BPM_NSHARDS = i" "\<not> resident s f" "f \<notin> Y"
  using assms by (simp_all add: free_ok_def)

lemma free_ok_distinct: "free_ok Y s \<Longrightarrow> i < BPM_NSHARDS \<Longrightarrow> distinct (free_frames (shards s i))"
  by (simp add: free_ok_def)

lemma free_ok_reserved: "free_ok Y s \<Longrightarrow> f \<in> Y \<Longrightarrow> f < pool_size s \<and> \<not> resident s f"
  by (simp add: free_ok_def)

lemma free_okI:
  assumes "\<And>i. i < BPM_NSHARDS \<Longrightarrow> distinct (free_frames (shards s i))"
    and "\<And>i f. i < BPM_NSHARDS \<Longrightarrow> f \<in> set (free_frames (shards s i)) \<Longrightarrow>
      f < pool_size s \<and> f mod BPM_NSHARDS = i \<and> \<not> resident s f \<and> f \<notin> Y"
    and "\<And>f. f \<in> Y \<Longrightarrow> f < pool_size s \<and> \<not> resident s f"
  shows "free_ok Y s"
  using assms by (simp add: free_ok_def)

lemma reserve_free_inv:
  assumes inv: "bpm_inv X Y s" and i: "i < BPM_NSHARDS" and fr: "free_frames (shards s i) = f # rest"
  defines "s' \<equiv> set_io f True (upd_page f (\<lambda>p. p\<lparr>pin_count := 1\<rparr>) (upd_shard i (\<lambda>sh. sh\<lparr>free_frames := rest\<rparr>) s))"
  shows "bpm_inv X (insert f Y) s'" "\<not> resident s f" "f < pool_size s" "f \<notin> Y" "lookup s' q = lookup s q"
proof -
  note fo = bpm_invD(3) [OF inv]
  have fi: "f \<in> set (free_frames (shards s i))" by (simp add: fr)
  show nr: "\<not> resident s f" and lt: "f < pool_size s" and nY: "f \<notin> Y" using free_okD [OF fo i fi] by simp_all
  have fm: "f mod BPM_NSHARDS = i" using free_okD [OF fo i fi] by simp
  show lk: "lookup s' q = lookup s q" for q by (simp add: s'_def lookup_def)
  have res: "resident s' h = resident s h" for h using lk nr by (simp add: resident_def s'_def)
  have pg: "pages s' = (pages s)(f := (pages s f)\<lparr>pin_count := 1\<rparr>)" and bd: "bp_disk s' = bp_disk s"
    and ps: "pool_size s' = pool_size s" by (simp_all add: s'_def)
  have tb: "page_table (shards s' j) = page_table (shards s j)" and rp: "sh_repl (shards s' j) = sh_repl (shards s j)"
    and ff: "free_frames (shards s' j) = (if j = i then rest else free_frames (shards s j))" for j
    by (simp_all add: s'_def)
  show "bpm_inv X (insert f Y) s'"
  proof (rule bpm_invI)
    have "entry_ok s' j e" if "j < BPM_NSHARDS" "e \<in> set (page_table (shards s j))" for j e
    proof -
      obtain k h where e: "e = (k, h)" by (cases e)
      have "h \<noteq> f" using nr tabs_okE(6) [OF bpm_invD(1) [OF inv] that(1), of k h] that(2) e by auto
      then show ?thesis using tabs_okE [OF bpm_invD(1) [OF inv] that(1), of k h] that(2) by (simp add: e entry_ok_def pg bd ps)
    qed
    then show "tabs_ok s'" using bpm_invD(1) [OF inv] by (simp add: tabs_ok_def tb list_all_iff)
    have "{h. resident s' h \<and> shard_of_page (pg_id (pages s' h)) = j \<and> pin_count (pages s' h) = 0}
      = {h. resident s h \<and> shard_of_page (pg_id (pages s h)) = j \<and> pin_count (pages s h) = 0}" for j
      using nr by (auto simp: res pg)
    then show "repl_ok s'" using bpm_invD(2) [OF inv] by (simp add: repl_ok_def rp ps)
    have sub: "g \<in> set (free_frames (shards s j)) \<and> g \<noteq> f"
      if "j < BPM_NSHARDS" "g \<in> set (free_frames (shards s' j))" for g j
    proof (cases "j = i")
      case True
      then show ?thesis using free_ok_distinct [OF fo i] that(2) by (auto simp: ff fr)
    next
      case False
      then show ?thesis using free_okD(2) [OF fo that(1), of f] fm that(2) by (auto simp: ff)
    qed
    show "free_ok (insert f Y) s'"
    proof (rule free_okI)
      show "distinct (free_frames (shards s' j))" if "j < BPM_NSHARDS" for j
        using free_ok_distinct [OF fo that] by (cases "j = i") (simp_all add: ff fr)
      show "g < pool_size s' \<and> g mod BPM_NSHARDS = j \<and> \<not> resident s' g \<and> g \<notin> insert f Y"
        if "j < BPM_NSHARDS" "g \<in> set (free_frames (shards s' j))" for j g
        using sub [OF that] free_okD [OF fo that(1), of g] by (simp add: res ps)
      show "g < pool_size s' \<and> \<not> resident s' g" if "g \<in> insert f Y" for g
        using that free_ok_reserved [OF fo, of g] lt nr by (auto simp: res ps)
    qed
    show "data_ok s'" using bpm_invD(4) [OF inv] by (simp add: data_ok_def pg bd)
    show "io_ok (insert f Y) s'" using bpm_invD(6) [OF inv] by (simp add: io_ok_def s'_def)
    have "pages s' h = pages s h" if "resident s h" for h using that nr by (auto simp: pg)
    then show "clean_ok X s'" using bpm_invD(5) [OF inv] by (simp add: clean_ok_def res bd)
  qed
qed

lemma map_of_tab_erase:
  "map_of (page_table (tab_erase k sh)) k' = (if k' = k then None else map_of (page_table sh) k')"
proof -
  have "map_of (filter (\<lambda>e. fst e \<noteq> k) xs) k' = (if k' = k then None else map_of xs k')" for xs :: "(64 word \<times> nat) list"
    by (induction xs) auto
  then show ?thesis by (simp add: tab_erase_def)
qed

lemma victim_frame:
  assumes inv: "bpm_inv X Y s" and i: "i < BPM_NSHARDS" and v: "victim (sh_repl (shards s i)) = (Some f, r)"
  shows "resident s f" "shard_of_page (pg_id (pages s f)) = i" "pin_count (pages s f) = 0" "pg_id (pages s f) \<notin> X"
    "lru_inv r" "max_size r = pool_size s" "set (frames r) = set (frames (sh_repl (shards s i))) - {f}"
proof -
  note r = repl_facts [OF inv i]
  have "f \<in> set (frames (sh_repl (shards s i)))" using lru.victim_member [OF r(1), of f] v by simp
  then show res: "resident s f" and "shard_of_page (pg_id (pages s f)) = i" and p0: "pin_count (pages s f) = 0"
    using bpm_invD(2) [OF inv] i by (simp_all add: repl_ok_def)
  show "pg_id (pages s f) \<notin> X" using bpm_invD(5) [OF inv] res p0 by (auto simp: clean_ok_def split: if_splits)
  show "lru_inv r" "max_size r = pool_size s" "set (frames r) = set (frames (sh_repl (shards s i))) - {f}"
    using lru_inv_victim [OF r(1)] max_size_ops(3) [of "sh_repl (shards s i)"] r(2)
      lru.victim_removed [OF r(1), of f] v by simp_all
qed

lemma detach_inv:
  assumes inv: "bpm_inv X Y s" and i: "i < BPM_NSHARDS"
    and vf: "resident s f" "shard_of_page (pg_id (pages s f)) = i" "pin_count (pages s f) = 0" "pg_id (pages s f) \<notin> X"
      "lru_inv r" "max_size r = pool_size s" "set (frames r) = set (frames (sh_repl (shards s i))) - {f}"
  defines "s' \<equiv> set_io f True (upd_page f (\<lambda>p. p\<lparr>pin_count := 1\<rparr>)
    (upd_shard i (tab_erase (page_key (pg_id (pages s f)))) (upd_shard i (\<lambda>sh. sh\<lparr>sh_repl := r\<rparr>) s)))"
  shows "bpm_inv X (insert f Y) s'"
    and "pid_range q \<Longrightarrow> lookup s' q = (if q = pg_id (pages s f) then None else lookup s q)"
proof -
  note fo = bpm_invD(3) [OF inv]
  let ?v = "pg_id (pages s f)"
  note rok = resident_ok [OF bpm_invD(1) [OF inv]]
  have vr: "pid_range ?v" using rok(4) [OF vf(1)] .
  have lk0: "lookup s' q = (if page_key q = page_key ?v \<and> shard_of_page q = i then None else lookup s q)" for q
    by (simp add: s'_def lookup_def map_of_tab_erase)
  show lk: "lookup s' q = (if q = ?v then None else lookup s q)" if "pid_range q" for q
    using lk0 [of q] page_key_inj [OF that vr] vf(2) by auto
  have pg: "pages s' = (pages s)(f := (pages s f)\<lparr>pin_count := 1\<rparr>)" and bd: "bp_disk s' = bp_disk s"
    and ps: "pool_size s' = pool_size s" by (simp_all add: s'_def)
  have idp: "pg_id (pages s' h) = pg_id (pages s h)" for h by (simp add: pg)
  have res: "resident s' h \<longleftrightarrow> resident s h \<and> h \<noteq> f" for h
  proof (cases "resident s h")
    case True
    then show ?thesis
      using lk [OF rok(4) [OF True]] resident_inj [OF True vf(1)] unfolding resident_def idp by auto
  next
    case False
    then show ?thesis using lk0 [of "pg_id (pages s h)"] unfolding resident_def idp by (simp split: if_splits)
  qed
  have tb: "set (page_table (shards s' j)) \<subseteq> set (page_table (shards s j))"
    and td: "distinct (map fst (page_table (shards s j))) \<Longrightarrow> distinct (map fst (page_table (shards s' j)))"
    and ff: "free_frames (shards s' j) = free_frames (shards s j)"
    and rp: "sh_repl (shards s' j) = (if j = i then r else sh_repl (shards s j))" for j
    by (auto simp: s'_def tab_erase_def distinct_map_filter)
  show "bpm_inv X (insert f Y) s'"
  proof (rule bpm_invI)
    have td0: "distinct (map fst (page_table (shards s j)))" if "j < BPM_NSHARDS" for j
      using bpm_invD(1) [OF inv] that by (simp add: tabs_ok_def)
    have "entry_ok s' j e" if j: "j < BPM_NSHARDS" "e \<in> set (page_table (shards s' j))" for j e
    proof -
      obtain k h where e: "e = (k, h)" by (cases e)
      have eh: "(k, h) \<in> set (page_table (shards s j))" using j tb e by auto
      show ?thesis using tabs_okE [OF bpm_invD(1) [OF inv] j(1) eh] by (cases "h = f") (simp_all add: e entry_ok_def pg bd ps)
    qed
    then show "tabs_ok s'" using td0 td by (simp add: tabs_ok_def list_all_iff)
    show "repl_ok s'"
    proof (unfold repl_ok_def, intro allI impI)
      fix j assume j: "j < BPM_NSHARDS"
      have old: "set (frames (sh_repl (shards s j))) = {h. resident s h \<and> shard_of_page (pg_id (pages s h)) = j \<and> pin_count (pages s h) = 0}"
        using bpm_invD(2) [OF inv] j by (simp add: repl_ok_def)
      have "set (frames (sh_repl (shards s' j))) = set (frames (sh_repl (shards s j))) - {f}"
        using vf(7) vf(2) old by (cases "j = i") (auto simp: rp)
      also have "\<dots> = {h. resident s' h \<and> shard_of_page (pg_id (pages s' h)) = j \<and> pin_count (pages s' h) = 0}"
        unfolding old res by (auto simp: pg)
      finally show "lru_inv (sh_repl (shards s' j)) \<and> max_size (sh_repl (shards s' j)) = pool_size s'
        \<and> set (frames (sh_repl (shards s' j))) = {h. resident s' h \<and> shard_of_page (pg_id (pages s' h)) = j \<and> pin_count (pages s' h) = 0}"
        using repl_facts [OF inv j] vf(5,6) by (simp add: rp ps)
    qed
    show "free_ok (insert f Y) s'"
    proof (rule free_okI)
      show "distinct (free_frames (shards s' j))" if "j < BPM_NSHARDS" for j
        using free_ok_distinct [OF fo that] by (simp add: ff)
      show "g < pool_size s' \<and> g mod BPM_NSHARDS = j \<and> \<not> resident s' g \<and> g \<notin> insert f Y"
        if "j < BPM_NSHARDS" "g \<in> set (free_frames (shards s' j))" for j g
        using free_okD [OF fo that(1), of g] that(2) vf(1) by (auto simp: res ps ff)
      show "g < pool_size s' \<and> \<not> resident s' g" if "g \<in> insert f Y" for g
        using that free_ok_reserved [OF fo, of g] rok(1) [OF vf(1)] by (auto simp: res ps)
    qed
    show "data_ok s'" using bpm_invD(4) [OF inv] by (simp add: data_ok_def pg bd)
    show "io_ok (insert f Y) s'" using bpm_invD(6) [OF inv] by (simp add: io_ok_def s'_def)
    show "clean_ok X s'" using bpm_invD(5) [OF inv] by (simp add: clean_ok_def res bd pg)
  qed
qed

lemma reserve_scan_inv:
  assumes "bpm_inv X {} s" and "list_all (\<lambda>i. i < BPM_NSHARDS) is" and "reserve_scan is s = Some (f, old, need, s')"
  shows "bpm_inv X {f} s' \<and> f < pool_size s \<and> bp_disk s' = bp_disk s \<and> pool_size s' = pool_size s
    \<and> pages s' = (pages s)(f := (pages s f)\<lparr>pin_count := 1\<rparr>)
    \<and> (\<forall>i. page_io_inflight (shards s' i) = page_io_inflight (shards s i))
    \<and> page_outs s' = page_outs s \<and> wal_lsn s' = wal_lsn s \<and> wal_persist s' = wal_persist s
    \<and> (if resident s f then old = pg_id (pages s f) \<and> need = is_dirty (pages s f) \<and> pg_id (pages s f) \<notin> X
          \<and> pin_count (pages s f) = 0 \<and> (\<forall>q. pid_range q \<longrightarrow> lookup s' q = (if q = old then None else lookup s q))
        else \<not> need \<and> (\<forall>q. pid_range q \<longrightarrow> lookup s' q = lookup s q))"
  using assms
proof (induction "is" arbitrary: s)
  case (Cons i "is")
  have i: "i < BPM_NSHARDS" using Cons.prems(2) by simp
  show ?case
  proof (cases "free_frames (shards s i)")
    case (Cons g rest)
    note rf = reserve_free_inv [OF Cons.prems(1) i Cons]
    show ?thesis using rf Cons.prems(3) by (auto simp: Cons)
  next
    case Nil
    show ?thesis
    proof (cases "victim (sh_repl (shards s i))")
      case (Pair a r)
      show ?thesis
      proof (cases a)
        case None
        have "LRUlist (sh_repl (shards s i)) = []" using Pair None by (simp add: victim_def Let_def split: if_splits)
        then have "r = sh_repl (shards s i)" using Pair by (simp add: victim_def)
        then have "upd_shard i (\<lambda>sh. sh\<lparr>sh_repl := r\<rparr>) s = s" by (simp add: upd_shard_def)
        then show ?thesis using Cons.IH [OF Cons.prems(1)] Cons.prems(2,3) Nil Pair None by simp
      next
        case (Some g)
        note v = Pair [unfolded Some]
        note vf = victim_frame [OF Cons.prems(1) i v]
        have "pg_no (pg_id (pages s g)) \<noteq> INVALID_PAGE_ID"
          using resident_ok(2) [OF bpm_invD(1) [OF Cons.prems(1)] vf(1)] by (auto simp: pid_ok_def INVALID_PAGE_ID_def)
        then show ?thesis
          using Cons.prems(3) Nil v detach_inv [OF Cons.prems(1) i vf] vf
            resident_ok(1) [OF bpm_invD(1) [OF Cons.prems(1)] vf(1)]
          by (auto simp: Let_def tab_erase_def)
      qed
    qed
  qed
qed simp

subsection \<open>Writing pages out\<close>

lemma flush_log_simps [simp]:
  "pool_size (flush_log s) = pool_size s" "pages (flush_log s) = pages s" "shards (flush_log s) = shards s"
  "bp_disk (flush_log s) = bp_disk s" "frame_io_inflight (flush_log s) = frame_io_inflight s"
  "lookup (flush_log s) p = lookup s p" "resident (flush_log s) f = resident s f" "page_view (flush_log s) p = page_view s p"
  "page_outs (flush_log s) = page_outs s" "wal_lsn (flush_log s) = wal_lsn s" "wal_lsn s \<le> wal_persist (flush_log s)"
  by (simp_all add: flush_log_def lookup_def resident_def page_view_def split: option.splits)

lemma bpm_inv_flush_log [simp]: "bpm_inv X Y (flush_log s) = bpm_inv X Y s"
  by (simp add: bpm_inv_def tabs_ok_def repl_ok_def free_ok_def data_ok_def clean_ok_def io_ok_def
      entry_ok_def list_all_iff)

lemma write_page_disk:
  assumes "disk_inv d" and "pid_ok d p" and "length bs = PAGE_SIZE"
  obtains d' where "write_page d (pg_fd p) (pg_no p) bs = (None, d')" "disk_inv d'"
    "disk_page d' (pg_fd p) (pg_no p) = Some bs"
    "\<And>q x. q \<noteq> p \<Longrightarrow> disk_page d (pg_fd q) (pg_no q) = Some x \<Longrightarrow> disk_page d' (pg_fd q) (pg_no q) = Some x"
    "\<And>g. file_of d' g = None \<longleftrightarrow> file_of d g = None" "fd2pageno d' = fd2pageno d"
proof -
  have f: "file_of d (pg_fd p) \<noteq> None" and n: "0 \<le> pg_no p" using assms(2) by (simp_all add: pid_ok_def)
  obtain c where c: "file_of d (pg_fd p) = Some c" using f by blast
  let ?d = "set_file d (pg_fd p) (put_at (nat (pg_no p) * PAGE_SIZE) bs c)"
  have w: "write_page d (pg_fd p) (pg_no p) bs = (None, ?d)" using write_page_ok [OF f n assms(3)] c by simp
  have other: "disk_page ?d (pg_fd q) (pg_no q) = Some x"
    if "q \<noteq> p" "disk_page d (pg_fd q) (pg_no q) = Some x" for q x
  proof -
    have "(pg_fd q, pg_no q) \<noteq> (pg_fd p, pg_no p)" using that(1) by (metis PageId.surjective old.unit.exhaust prod.inject)
    then show ?thesis using disk_page_write_other [OF assms(1) c n assms(3) _ that(2)] by blast
  qed
  have fo: "file_of ?d g = None \<longleftrightarrow> file_of d g = None" for g
    using c by (auto simp: file_of_set_file [OF c]) (simp add: file_of_def)
  show thesis
    by (rule that [OF w disk_inv_set_file [OF assms(1)] disk_page_write_same [OF c n assms(3)] other fo]) simp_all
qed

definition view_le :: "bpm \<Rightarrow> bpm \<Rightarrow> bool" where
  "view_le s s' \<longleftrightarrow> (\<forall>q x. pid_range q \<longrightarrow> page_view s q = Some x \<longrightarrow> page_view s' q = Some x)"

lemma view_le_refl [simp]: "view_le s s"
  by (simp add: view_le_def)

lemma view_le_trans: "view_le s t \<Longrightarrow> view_le t u \<Longrightarrow> view_le s u"
  by (simp add: view_le_def)

lemma view_leD: "view_le s s' \<Longrightarrow> pid_range q \<Longrightarrow> page_view s q = Some x \<Longrightarrow> page_view s' q = Some x"
  by (simp add: view_le_def)

text \<open>\<open>out_ok\<close>: no page went out before the log records appended by then were durable.\<close>

definition out_ok :: "bpm \<Rightarrow> bool" where
  "out_ok s \<longleftrightarrow> list_all (\<lambda>(p, n, m). n \<le> m) (page_outs s)"

definition wrote :: "PageId \<Rightarrow> bytes \<Rightarrow> bpm \<Rightarrow> bpm \<Rightarrow> bool" where
  "wrote p bs s s' \<longleftrightarrow> pages s' = pages s \<and> shards s' = shards s \<and> pool_size s' = pool_size s
     \<and> frame_io_inflight s' = frame_io_inflight s \<and> disk_page (bp_disk s') (pg_fd p) (pg_no p) = Some bs
     \<and> (\<forall>q x. q \<noteq> p \<longrightarrow> disk_page (bp_disk s) (pg_fd q) (pg_no q) = Some x \<longrightarrow> disk_page (bp_disk s') (pg_fd q) (pg_no q) = Some x)
     \<and> (\<forall>q. pid_ok (bp_disk s') q = pid_ok (bp_disk s) q)
     \<and> wal_lsn s' = wal_lsn s \<and> wal_persist s' = wal_persist s
     \<and> (wal_lsn s \<le> wal_persist s \<longrightarrow> out_ok s \<longrightarrow> out_ok s') \<and> fd2pageno (bp_disk s') = fd2pageno (bp_disk s)"

lemma wroteD:
  assumes "wrote p bs s s'"
  shows "pages s' = pages s" "shards s' = shards s" "pool_size s' = pool_size s"
    "frame_io_inflight s' = frame_io_inflight s" "disk_page (bp_disk s') (pg_fd p) (pg_no p) = Some bs"
    "q \<noteq> p \<Longrightarrow> disk_page (bp_disk s) (pg_fd q) (pg_no q) = Some x \<Longrightarrow> disk_page (bp_disk s') (pg_fd q) (pg_no q) = Some x"
    "pid_ok (bp_disk s') q = pid_ok (bp_disk s) q" "wal_lsn s' = wal_lsn s" "wal_persist s' = wal_persist s"
    "wal_lsn s \<le> wal_persist s \<Longrightarrow> out_ok s \<Longrightarrow> out_ok s'" "fd2pageno (bp_disk s') = fd2pageno (bp_disk s)"
    "lookup s' q = lookup s q" "resident s' f = resident s f"
  using assms by (auto simp: wrote_def lookup_def resident_def)

lemma wrote_view:
  assumes "wrote p bs s s'" and "\<forall>f. lookup s p = Some f \<longrightarrow> pg_data (pages s f) = bs"
  shows "page_view s q = Some x \<Longrightarrow> q \<noteq> p \<Longrightarrow> page_view s' q = Some x" and "page_view s' p = Some bs"
proof -
  show "page_view s' q = Some x" if "page_view s q = Some x" "q \<noteq> p"
    using that wroteD(1,12) [OF assms(1)] wroteD(6) [OF assms(1) that(2), of x]
    by (simp add: page_view_def split: option.splits)
  show "page_view s' p = Some bs"
    using wroteD(1,5,12) [OF assms(1)] assms(2) by (simp add: page_view_def split: option.splits)
qed

lemma write_out_inv:
  assumes inv: "bpm_inv X Y s" and p: "pid_ok (bp_disk s) p" and len: "length bs = PAGE_SIZE"
    and same: "\<forall>f. lookup s p = Some f \<longrightarrow> pg_data (pages s f) = bs"
  shows "\<exists>s'. write_out p bs s = (None, s') \<and> bpm_inv X Y s' \<and> wrote p bs s s'"
proof -
  obtain d where w: "write_page (bp_disk s) (pg_fd p) (pg_no p) bs = (None, d)" "disk_inv d"
      "disk_page d (pg_fd p) (pg_no p) = Some bs"
      "\<And>q x. q \<noteq> p \<Longrightarrow> disk_page (bp_disk s) (pg_fd q) (pg_no q) = Some x \<Longrightarrow> disk_page d (pg_fd q) (pg_no q) = Some x"
      "\<And>g. file_of d g = None \<longleftrightarrow> file_of (bp_disk s) g = None" "fd2pageno d = fd2pageno (bp_disk s)"
    using write_page_disk [OF _ p len] bpm_invD(4) [OF inv] by (auto simp: data_ok_def)
  let ?s = "s\<lparr>bp_disk := d, page_outs := page_outs s @ [(p, wal_lsn s, wal_persist s)]\<rparr>"
  have lk: "lookup ?s q = lookup s q" and rs: "resident ?s f = resident s f" for q f
    by (simp_all add: lookup_def resident_def)
  have po: "pid_ok d q = pid_ok (bp_disk s) q" for q using w(5) by (simp add: pid_ok_def)
  have "bpm_inv X Y ?s"
  proof (rule bpm_invI)
    show "tabs_ok ?s" using bpm_invD(1) [OF inv] by (simp add: tabs_ok_def entry_ok_def list_all_iff po)
    show "repl_ok ?s" using bpm_invD(2) [OF inv] by (simp add: repl_ok_def rs)
    show "free_ok Y ?s" using bpm_invD(3) [OF inv] by (simp add: free_ok_def rs)
    show "data_ok ?s" using bpm_invD(4) [OF inv] w(2) by (simp add: data_ok_def)
    show "io_ok Y ?s" using bpm_invD(6) [OF inv] by (simp add: io_ok_def)
    show "clean_ok X ?s"
    proof (unfold clean_ok_def rs, intro allI impI)
      fix f assume r: "resident s f"
      have "pg_id (pages s f) = p \<Longrightarrow> pg_data (pages s f) = bs" using r same by (auto simp: resident_def)
      then show "if pg_id (pages ?s f) \<in> X then 0 < pin_count (pages ?s f)
        else is_dirty (pages ?s f) \<or> disk_page (bp_disk ?s) (pg_fd (pg_id (pages ?s f))) (pg_no (pg_id (pages ?s f))) = Some (pg_data (pages ?s f))"
        using bpm_invD(5) [OF inv, unfolded clean_ok_def, rule_format, OF r] w(3) w(4) [of "pg_id (pages s f)"]
        by (cases "pg_id (pages s f) = p") (auto split: if_splits)
    qed
  qed
  moreover have "wrote p bs s ?s"
    using w(3,4,6) po by (simp add: wrote_def out_ok_def)
  ultimately show ?thesis using w(1) by (intro exI [of _ ?s]) (simp add: write_out_def)
qed

subsection \<open>Publishing a frame\<close>

lemma length_zero_page [simp]: "length zero_page = PAGE_SIZE"
  by (simp add: zero_page_def)

lemma map_of_tab_put:
  "map_of (page_table (tab_put k f sh)) k' = (if k' = k then Some f else map_of (page_table sh) k')"
proof -
  have "map_of (filter (\<lambda>e. fst e \<noteq> k) xs) k' = (if k' = k then None else map_of xs k')" for xs :: "(64 word \<times> nat) list"
    by (induction xs) auto
  then show ?thesis by (simp add: tab_put_def)
qed

text \<open>A reserved frame becomes the frame of a page that is not resident; \<open>g\<close> sets up its fields.\<close>

lemma publish_inv:
  assumes inv: "bpm_inv X {f} s" and p: "pid_ok (bp_disk s) p" and np: "lookup s p = None"
    and g: "pg_id (g (pages s f)) = p" "pin_count (g (pages s f)) = 1" "length (pg_data (g (pages s f))) = PAGE_SIZE"
    and cl: "p \<in> X \<or> is_dirty (g (pages s f)) \<or> disk_page (bp_disk s) (pg_fd p) (pg_no p) = Some (pg_data (g (pages s f)))"
    and s': "s' = set_io f False (upd_shard (shard_of_page p) (tab_put (page_key p) f) (upd_page f g s))"
  shows "bpm_inv X {} s'" and "pid_range q \<Longrightarrow> lookup s' q = (if q = p then Some f else lookup s q)"
    and "pages s' = (pages s)(f := g (pages s f))"
proof -
  note fo = bpm_invD(3) [OF inv]
  have pr: "pid_range p" using p by (simp add: pid_ok_def)
  have nr: "\<not> resident s f" and lt: "f < pool_size s" using free_ok_reserved [OF fo] by simp_all
  note rok = resident_ok [OF bpm_invD(1) [OF inv]]
  have lk0: "lookup s' q = (if page_key q = page_key p \<and> shard_of_page q = shard_of_page p then Some f else lookup s q)" for q
    by (simp add: s' lookup_def map_of_tab_put)
  show lk: "lookup s' q = (if q = p then Some f else lookup s q)" if "pid_range q" for q
    using lk0 [of q] page_key_inj [OF that pr] by auto
  show pg: "pages s' = (pages s)(f := g (pages s f))" by (simp add: s')
  have bd: "bp_disk s' = bp_disk s" and ps: "pool_size s' = pool_size s" by (simp_all add: s')
  have nd: "pg_id (pages s h) \<noteq> p" if "resident s h" for h using that np by (auto simp: resident_def)
  have res: "resident s' h \<longleftrightarrow> h = f \<or> resident s h" for h
  proof (cases "h = f")
    case True
    then show ?thesis using lk [OF pr] by (simp add: resident_def pg g)
  next
    case False
    have "lookup s' (pg_id (pages s h)) = Some h \<longleftrightarrow> lookup s (pg_id (pages s h)) = Some h"
    proof (cases "page_key (pg_id (pages s h)) = page_key p \<and> shard_of_page (pg_id (pages s h)) = shard_of_page p")
      case True
      then have "lookup s (pg_id (pages s h)) = lookup s p" by (simp add: lookup_def)
      then show ?thesis using lk0 [of "pg_id (pages s h)"] True False np by auto
    next
      case False
      then show ?thesis using lk0 [of "pg_id (pages s h)"] by (simp only: if_False)
    qed
    then show ?thesis using False by (simp add: resident_def pg)
  qed
  have tb: "e \<in> set (page_table (shards s' j)) \<Longrightarrow> e = (page_key p, f) \<and> j = shard_of_page p \<or> e \<in> set (page_table (shards s j))"
    and td: "distinct (map fst (page_table (shards s j))) \<Longrightarrow> distinct (map fst (page_table (shards s' j)))"
    and ff: "free_frames (shards s' j) = free_frames (shards s j)"
    and rp: "sh_repl (shards s' j) = sh_repl (shards s j)" for e j
    by (auto simp: s' tab_put_def distinct_map_filter split: if_splits)
  show "bpm_inv X {} s'"
  proof (rule bpm_invI)
    have td0: "distinct (map fst (page_table (shards s j)))" if "j < BPM_NSHARDS" for j
      using bpm_invD(1) [OF inv] that by (simp add: tabs_ok_def)
    have "entry_ok s' j e" if j: "j < BPM_NSHARDS" "e \<in> set (page_table (shards s' j))" for j e
      using tb [OF j(2)]
    proof
      assume "e = (page_key p, f) \<and> j = shard_of_page p"
      then show ?thesis using p g lt by (simp add: entry_ok_def pg bd ps)
    next
      assume eh: "e \<in> set (page_table (shards s j))"
      obtain k h where e: "e = (k, h)" by (cases e)
      note t = tabs_okE [OF bpm_invD(1) [OF inv] j(1) eh [unfolded e]]
      have "h \<noteq> f" using t(6) nr by auto
      then show ?thesis using t by (simp add: e entry_ok_def pg bd ps)
    qed
    then show "tabs_ok s'" using td0 td by (simp add: tabs_ok_def list_all_iff)
    have "{h. resident s' h \<and> shard_of_page (pg_id (pages s' h)) = j \<and> pin_count (pages s' h) = 0}
      = {h. resident s h \<and> shard_of_page (pg_id (pages s h)) = j \<and> pin_count (pages s h) = 0}" for j
      unfolding res using nr g(2) by (auto simp: pg)
    then show "repl_ok s'" using bpm_invD(2) [OF inv] by (simp add: repl_ok_def rp ps)
    show "free_ok {} s'"
    proof (rule free_okI)
      show "distinct (free_frames (shards s' j))" if "j < BPM_NSHARDS" for j
        using free_ok_distinct [OF fo that] by (simp add: ff)
      show "h < pool_size s' \<and> h mod BPM_NSHARDS = j \<and> \<not> resident s' h \<and> h \<notin> {}"
        if "j < BPM_NSHARDS" "h \<in> set (free_frames (shards s' j))" for j h
        using free_okD [OF fo that(1), of h] that(2) by (auto simp: res ps ff)
    qed simp
    show "data_ok s'" using bpm_invD(4) [OF inv] g(3) by (simp add: data_ok_def pg bd)
    show "io_ok {} s'" using bpm_invD(6) [OF inv] by (auto simp: io_ok_def s')
    have "pages s' h = pages s h" if "resident s h" for h using that nr by (auto simp: pg)
    then show "clean_ok X s'" using bpm_invD(5) [OF inv] g cl by (auto simp: clean_ok_def res bd pg)
  qed
qed

subsection \<open>Giving a frame back\<close>

lemma no_page_range: "pid_range NO_PAGE"
  by (simp add: pid_range_def NO_PAGE_def INVALID_PAGE_ID_def in_s_def)

lemma lookup_NO_PAGE:
  assumes "tabs_ok s"
  shows "lookup s NO_PAGE = None"
proof (rule ccontr)
  assume "lookup s NO_PAGE \<noteq> None"
  then obtain f where f: "lookup s NO_PAGE = Some f" by blast
  have "pg_id (pages s f) = NO_PAGE" by (rule lookup_pid [OF assms f no_page_range])
  then show False using lookup_Some(3) [OF assms f] by (simp add: pid_ok_def NO_PAGE_def INVALID_PAGE_ID_def)
qed

lemma free_frame_simps [simp]:
  "pool_size (free_frame f s) = pool_size s" "pages (free_frame f s) = pages s"
  "frame_io_inflight (free_frame f s) = frame_io_inflight s" "bp_disk (free_frame f s) = bp_disk s"
  "page_table (shards (free_frame f s) i) = page_table (shards s i)"
  "sh_repl (shards (free_frame f s) i) = sh_repl (shards s i)"
  "page_io_inflight (shards (free_frame f s) i) = page_io_inflight (shards s i)"
  "free_frames (shards (free_frame f s) i) = free_frames (shards s i) @ (if i = f mod BPM_NSHARDS then [f] else [])"
  "lookup (free_frame f s) p = lookup s p" "resident (free_frame f s) h = resident s h"
  "page_outs (free_frame f s) = page_outs s" "wal_lsn (free_frame f s) = wal_lsn s"
  "wal_persist (free_frame f s) = wal_persist s"
  by (simp_all add: free_frame_def lookup_def resident_def)

lemma page_view_free_frame [simp]: "page_view (free_frame f s) p = page_view s p"
  by (simp add: page_view_def split: option.splits)

lemma release_frame_inv:
  assumes inv: "bpm_inv X (insert f Y) s" and fY: "f \<notin> Y" and io: "\<not> frame_io_inflight s f"
    and nf: "\<And>i. i < BPM_NSHARDS \<Longrightarrow> f \<notin> set (free_frames (shards s i))"
  shows "bpm_inv X Y (free_frame f s)"
proof (rule bpm_invI)
  let ?s = "free_frame f s"
  note fo = bpm_invD(3) [OF inv]
  have nr: "\<not> resident s f" "f < pool_size s" using free_ok_reserved [OF fo, of f] by simp_all
  show "tabs_ok ?s" using bpm_invD(1) [OF inv] by (simp add: tabs_ok_def list_all_iff entry_ok_def)
  show "repl_ok ?s" using bpm_invD(2) [OF inv] by (simp add: repl_ok_def)
  show "free_ok Y ?s"
  proof (rule free_okI)
    show "distinct (free_frames (shards ?s i))" if "i < BPM_NSHARDS" for i
      using free_ok_distinct [OF fo that] nf [OF that] by auto
    show "h < pool_size ?s \<and> h mod BPM_NSHARDS = i \<and> \<not> resident ?s h \<and> h \<notin> Y"
      if "i < BPM_NSHARDS" "h \<in> set (free_frames (shards ?s i))" for i h
      using free_okD [OF fo that(1), of h] that(2) nr fY by (auto split: if_splits)
    show "h < pool_size ?s \<and> \<not> resident ?s h" if "h \<in> Y" for h using free_ok_reserved [OF fo, of h] that by simp
  qed
  show "data_ok ?s" using bpm_invD(4) [OF inv] by (simp add: data_ok_def)
  show "clean_ok X ?s" using bpm_invD(5) [OF inv] by (simp add: clean_ok_def)
  show "io_ok Y ?s" using bpm_invD(6) [OF inv] io by (auto simp: io_ok_def)
qed

lemma reserved_not_free:
  assumes "bpm_inv X (insert f Y) s" and "i < BPM_NSHARDS"
  shows "f \<notin> set (free_frames (shards s i))"
  using free_okD(4) [OF bpm_invD(3) [OF assms(1)] assms(2)] by auto

text \<open>A reserved frame may change its fields and its transfer flag freely.\<close>

lemma reserved_page_inv:
  assumes inv: "bpm_inv X (insert f Y) s" and len: "length (pg_data (g (pages s f))) = PAGE_SIZE"
    and np: "lookup s (pg_id (g (pages s f))) \<noteq> Some f"
  shows "bpm_inv X (insert f Y) (set_io f b (upd_page f g s))"
proof -
  let ?s = "set_io f b (upd_page f g s)"
  have nr: "\<not> resident s f" using free_ok_reserved [OF bpm_invD(3) [OF inv], of f] by simp
  have res: "resident ?s h = resident s h" for h
    using nr np by (cases "h = f") (simp_all add: resident_def)
  have pg: "pages ?s h = pages s h" if "resident s h" for h using that nr by auto
  show ?thesis
  proof (rule bpm_invI)
    have "entry_ok ?s i e" if i: "i < BPM_NSHARDS" "e \<in> set (page_table (shards s i))" for i e
    proof -
      obtain k h where e: "e = (k, h)" by (cases e)
      note t = tabs_okE [OF bpm_invD(1) [OF inv] i(1) i(2) [unfolded e]]
      show ?thesis using t pg [OF t(6)] by (simp add: e entry_ok_def del: upd_page_simps(5) fun_upd_apply)
    qed
    then show "tabs_ok ?s" using bpm_invD(1) [OF inv] by (simp add: tabs_ok_def list_all_iff)
    have "{h. resident ?s h \<and> shard_of_page (pg_id (pages ?s h)) = j \<and> pin_count (pages ?s h) = 0}
      = {h. resident s h \<and> shard_of_page (pg_id (pages s h)) = j \<and> pin_count (pages s h) = 0}" for j
      unfolding res using nr by auto
    then show "repl_ok ?s" using bpm_invD(2) [OF inv] by (simp add: repl_ok_def)
    show "free_ok (insert f Y) ?s" using bpm_invD(3) [OF inv] unfolding free_ok_def res by simp
    show "data_ok ?s" using bpm_invD(4) [OF inv] len by (simp add: data_ok_def)
    show "io_ok (insert f Y) ?s" using bpm_invD(6) [OF inv] by (auto simp: io_ok_def)
    show "clean_ok X ?s"
      using bpm_invD(5) [OF inv] pg unfolding clean_ok_def res by (simp del: upd_page_simps(5) fun_upd_apply)
  qed
qed

subsection \<open>Fetching a page\<close>

definition quiet :: "bpm \<Rightarrow> bool" where
  "quiet s \<longleftrightarrow> (\<forall>i. page_io_inflight (shards s i) = [])"

definition pool_ok :: "PageId set \<Rightarrow> bpm \<Rightarrow> bool" where
  "pool_ok X s \<longleftrightarrow> bpm_inv X {} s \<and> quiet s \<and> out_ok s"

lemma inflight_frame:
  "bpm_inv X Y (upd_shard i (inflight_insert k) s) = bpm_inv X Y s"
  "bpm_inv X Y (upd_shard i (inflight_erase k) s) = bpm_inv X Y s"
  "lookup (upd_shard i (inflight_insert k) s) p = lookup s p"
  "lookup (upd_shard i (inflight_erase k) s) p = lookup s p"
  "resident (upd_shard i (inflight_insert k) s) f = resident s f"
  "resident (upd_shard i (inflight_erase k) s) f = resident s f"
proof -
  have l: "lookup (upd_shard i (inflight_insert k) s) p = lookup s p"
    "lookup (upd_shard i (inflight_erase k) s) p = lookup s p" for p
    by (simp_all add: lookup_def inflight_insert_def inflight_erase_def)
  then have r: "resident (upd_shard i (inflight_insert k) s) f = resident s f"
    "resident (upd_shard i (inflight_erase k) s) f = resident s f" for f
    by (simp_all add: resident_def)
  have t: "page_table (shards (upd_shard i (inflight_insert k) s) j) = page_table (shards s j)"
    "page_table (shards (upd_shard i (inflight_erase k) s) j) = page_table (shards s j)"
    "sh_repl (shards (upd_shard i (inflight_insert k) s) j) = sh_repl (shards s j)"
    "sh_repl (shards (upd_shard i (inflight_erase k) s) j) = sh_repl (shards s j)"
    "free_frames (shards (upd_shard i (inflight_insert k) s) j) = free_frames (shards s j)"
    "free_frames (shards (upd_shard i (inflight_erase k) s) j) = free_frames (shards s j)" for j
    by (simp_all add: inflight_insert_def inflight_erase_def)
  show "bpm_inv X Y (upd_shard i (inflight_insert k) s) = bpm_inv X Y s"
    "bpm_inv X Y (upd_shard i (inflight_erase k) s) = bpm_inv X Y s"
    by (simp_all add: bpm_inv_def tabs_ok_def repl_ok_def free_ok_def data_ok_def clean_ok_def io_ok_def
        entry_ok_def list_all_iff r t del: upd_shard_simps(5))
  show "lookup (upd_shard i (inflight_insert k) s) p = lookup s p"
    "lookup (upd_shard i (inflight_erase k) s) p = lookup s p"
    "resident (upd_shard i (inflight_insert k) s) f = resident s f"
    "resident (upd_shard i (inflight_erase k) s) f = resident s f" by (rule l r)+
qed

lemma reserve_list_ok: "list_all (\<lambda>i. i < BPM_NSHARDS) (map (\<lambda>k. (pref + k) mod BPM_NSHARDS) [0..<BPM_NSHARDS])"
  by (simp add: list_all_iff BPM_NSHARDS_def)

lemmas reserve_ok = reserve_scan_inv [OF _ reserve_list_ok, folded reserve_victim_def]

lemma page_view_detached:
  assumes "lookup s' q = (if q = old then None else lookup s q)" and "\<And>f. pg_data (pages s' f) = pg_data (pages s f)"
    and "bp_disk s' = bp_disk s" and "q \<noteq> old"
  shows "page_view s' q = page_view s q"
  using assms by (simp add: page_view_def split: option.splits)

text \<open>No page outside \<open>D\<close> became resident.\<close>

definition from_table :: "PageId set \<Rightarrow> bpm \<Rightarrow> bpm \<Rightarrow> bool" where
  "from_table D s s' \<longleftrightarrow> (\<forall>q g. pid_range q \<longrightarrow> q \<notin> D \<longrightarrow> lookup s' q = Some g \<longrightarrow> lookup s q = Some g)"

lemma from_tableD: "from_table D s s' \<Longrightarrow> pid_range q \<Longrightarrow> q \<notin> D \<Longrightarrow> lookup s' q = Some g \<Longrightarrow> lookup s q = Some g"
  by (simp add: from_table_def)

lemma from_table_trans: "from_table D s s' \<Longrightarrow> from_table D s' s'' \<Longrightarrow> from_table D s s''"
  unfolding from_table_def by blast

lemma from_table_same: "(\<And>q. lookup s' q = lookup s q) \<Longrightarrow> from_table D s s'"
  by (simp add: from_table_def)

text \<open>After the old page of a reserved frame is written, every page reads as before the reservation.\<close>

definition evicted :: "frame_id_t \<Rightarrow> bpm \<Rightarrow> bpm \<Rightarrow> bool" where
  "evicted f s s2 \<longleftrightarrow> (\<forall>i. page_io_inflight (shards s2 i) = page_io_inflight (shards s i)) \<and> view_le s s2
     \<and> pages s2 = (pages s)(f := (pages s f)\<lparr>pin_count := 1\<rparr>) \<and> f < pool_size s
     \<and> (\<forall>q. pid_range q \<longrightarrow> lookup s q = None \<longrightarrow> lookup s2 q = None)
     \<and> (\<forall>q. pid_ok (bp_disk s2) q = pid_ok (bp_disk s) q) \<and> wal_lsn s2 = wal_lsn s
     \<and> (\<forall>q g. pid_range q \<longrightarrow> lookup s q = Some g \<longrightarrow> 0 < pin_count (pages s g) \<longrightarrow> lookup s2 q = Some g \<and> g \<noteq> f)
     \<and> fd2pageno (bp_disk s2) = fd2pageno (bp_disk s) \<and> pool_size s2 = pool_size s
     \<and> from_table {} s s2 \<and> f \<notin> {g. resident s2 g}"

lemma flush_old_inv:
  assumes inv: "bpm_inv X {} s" and oo: "out_ok s" and rv: "reserve_victim i s = Some (f, old, need, s1)"
  shows "\<exists>s2. flush_old old need f s1 = (None, s2) \<and> bpm_inv X {f} s2 \<and> out_ok s2 \<and> evicted f s s2"
proof -
  note r = reserve_ok [OF inv rv]
  have inv1: "bpm_inv X {f} s1" and bd: "bp_disk s1 = bp_disk s" and pg: "pages s1 = (pages s)(f := (pages s f)\<lparr>pin_count := 1\<rparr>)"
    and fl: "\<And>i. page_io_inflight (shards s1 i) = page_io_inflight (shards s i)" and lt: "f < pool_size s"
    and w: "page_outs s1 = page_outs s" "wal_lsn s1 = wal_lsn s" "pool_size s1 = pool_size s"
    using r by simp_all
  have oo1: "out_ok s1" using oo w by (simp add: out_ok_def)
  have dat: "pg_data (pages s1 h) = pg_data (pages s h)" for h by (simp add: pg)
  have gone: "lookup s1 q = None" if "pid_range q" "lookup s q = None" for q
    using r that by (simp split: if_splits)
  have pinned: "lookup s1 q = Some g \<and> g \<noteq> f" if "pid_range q" "lookup s q = Some g" "0 < pin_count (pages s g)" for q g
  proof (cases "resident s f")
    case True
    then have "g \<noteq> f" using r that(3) by auto
    moreover have "q \<noteq> old" using r True calculation that(2) by (auto simp: resident_def)
    ultimately show ?thesis using r True that by auto
  next
    case False
    then have "lookup s1 q = lookup s q" using r that(1) by auto
    moreover have "resident s g" using lookup_Some(5) [OF bpm_invD(1) [OF inv] that(2)] .
    ultimately show ?thesis using that(2) False by auto
  qed
  have stays: "from_table {} s s1"
  proof (cases "resident s f")
    case True
    then have "lookup s1 q = (if q = old then None else lookup s q)" if "pid_range q" for q using r that by simp
    then show ?thesis by (simp add: from_table_def split: if_splits)
  next
    case False
    then have "lookup s1 q = lookup s q" if "pid_range q" for q using r that by simp
    then show ?thesis by (simp add: from_table_def)
  qed
  have nres: "\<not> resident s1 f" using free_ok_reserved [OF bpm_invD(3) [OF inv1], of f] by simp
  show ?thesis
  proof (cases need)
    case False
    have "page_view s1 q = Some x" if q: "pid_range q" "page_view s q = Some x" for q x
    proof (cases "resident s f")
      case True
      then have o: "old = pg_id (pages s f)" "lookup s1 q = (if q = old then None else lookup s q)"
        "lookup s old = Some f" using r q(1) by (simp_all add: resident_def)
      show ?thesis
      proof (cases "q = old")
        case True
        have "disk_page (bp_disk s) (pg_fd old) (pg_no old) = Some (pg_data (pages s f))"
          using bpm_invD(5) [OF inv] \<open>resident s f\<close> r False by (auto simp: clean_ok_def)
        then show ?thesis using q(2) o True bd by (simp add: page_view_def)
      next
        case False
        then show ?thesis using page_view_detached [OF o(2) dat bd] q(2) by simp
      qed
    next
      case False
      then have "lookup s1 q = lookup s q" using r q(1) by simp
      then show ?thesis using q(2) dat bd by (simp add: page_view_def split: option.splits)
    qed
    then have "view_le s s1" by (simp add: view_le_def)
    then have "evicted f s s1" unfolding evicted_def using fl pg gone lt pinned stays nres bd w by simp
    then show ?thesis using False inv1 oo1 by (simp add: flush_old_def)
  next
    case True
    have res: "resident s f" using r True by (simp split: if_splits)
    then have o: "old = pg_id (pages s f)" "lookup s old = Some f" using r by (simp_all add: resident_def)
    note rok = resident_ok [OF bpm_invD(1) [OF inv] res]
    have lk: "lookup s1 q = (if q = old then None else lookup s q)" if "pid_range q" for q
      using r res that by simp
    have no: "lookup (flush_log s1) old = None" using lk [of old] rok(4) o by simp
    have fi: "bpm_inv X {f} (flush_log s1)" "pid_ok (bp_disk (flush_log s1)) old"
      "length (pg_data (pages s1 f)) = PAGE_SIZE"
      using inv1 rok(2) bd o bpm_invD(4) [OF inv1] by (simp_all add: data_ok_def)
    have same: "\<forall>g. lookup (flush_log s1) old = Some g \<longrightarrow> pg_data (pages (flush_log s1) g) = pg_data (pages s1 f)"
      using no by simp
    obtain s2 where s2: "write_out old (pg_data (pages s1 f)) (flush_log s1) = (None, s2)" "bpm_inv X {f} s2"
        "wrote old (pg_data (pages s1 f)) (flush_log s1) s2"
      using write_out_inv [OF fi(1,2,3) same] by blast
    note wd = wroteD [OF s2(3)] and wv = wrote_view [OF s2(3) same]
    have "page_view s2 q = Some x" if q: "pid_range q" "page_view s q = Some x" for q x
    proof (cases "q = old")
      case True
      then show ?thesis using wv(2) q(2) o(2) dat by (simp add: page_view_def)
    next
      case False
      then show ?thesis using wv(1) [OF _ False] page_view_detached [OF lk [OF q(1)] dat bd False] q(2) by simp
    qed
    then have "view_le s s2" by (simp add: view_le_def)
    moreover have "out_ok s2" using wd(10) oo1 by (simp add: out_ok_def)
    moreover have stays2: "from_table {} s s2" using stays wd(12) by (simp add: from_table_def)
    moreover have "evicted f s s2"
      unfolding evicted_def using calculation(1) wd fl pg gone lt pinned stays2 nres bd w by simp
    ultimately show ?thesis using s2 True by (simp add: flush_old_def)
  qed
qed

lemma evictedD:
  assumes "evicted f s s2"
  shows "page_io_inflight (shards s2 i) = page_io_inflight (shards s i)" "view_le s s2"
    "pages s2 = (pages s)(f := (pages s f)\<lparr>pin_count := 1\<rparr>)" "f < pool_size s"
    "pid_range q \<Longrightarrow> lookup s q = None \<Longrightarrow> lookup s2 q = None" "pid_ok (bp_disk s2) q = pid_ok (bp_disk s) q"
    "pid_range q \<Longrightarrow> lookup s q = Some g \<Longrightarrow> 0 < pin_count (pages s g) \<Longrightarrow> lookup s2 q = Some g \<and> g \<noteq> f"
    "fd2pageno (bp_disk s2) = fd2pageno (bp_disk s)" "pool_size s2 = pool_size s" "wal_lsn s2 = wal_lsn s"
    "from_table {} s s2" "\<not> resident s2 f"
  using assms unfolding evicted_def by blast+

lemma upd_shard_twice: "upd_shard i g (upd_shard i h s) = upd_shard i (\<lambda>sh. g (h sh)) s"
  by (simp add: upd_shard_def)

lemma inflight_undo:
  assumes "quiet s"
  shows "upd_shard i (inflight_erase k) (upd_shard i (inflight_insert k) s) = s"
proof -
  have e: "page_io_inflight (shards s i) = []" using assms by (simp add: quiet_def)
  have "inflight_erase k (inflight_insert k (shards s i)) = shards s i"
    using e by (cases "shards s i") (simp add: inflight_erase_def inflight_insert_def)
  then show ?thesis by (simp add: upd_shard_def)
qed

text \<open>The result of reading a page that is not resident into a reserved frame.\<close>

lemma publish_fetch_inv:
  assumes inv: "bpm_inv X {f} s" and p: "pid_ok (bp_disk s) p" and np: "lookup s p = None"
    and x: "disk_page (bp_disk s) (pg_fd p) (pg_no p) = Some x" and pin: "pin_count (pages s f) = 1"
  defines "s' \<equiv> fetch_publish p f (upd_page f (\<lambda>q. q\<lparr>pg_data := x\<rparr>) s)"
  shows "bpm_inv X {} s'" "pid_range q \<Longrightarrow> lookup s' q = (if q = p then Some f else lookup s q)"
    "pages s' = (pages s)(f := (pages s f)\<lparr>pg_data := x, pg_id := p, is_dirty := False\<rparr>)" "bp_disk s' = bp_disk s"
    "page_outs s' = page_outs s" "wal_lsn s' = wal_lsn s"
    "page_io_inflight (shards s' i) = (if i = shard_of_page p then filter (\<lambda>k. k \<noteq> page_key p) (page_io_inflight (shards s i))
       else page_io_inflight (shards s i))"
proof -
  let ?g = "\<lambda>q. q\<lparr>pg_data := x, pg_id := p, is_dirty := False\<rparr>"
  let ?t = "set_io f False (upd_shard (shard_of_page p) (tab_put (page_key p) f) (upd_page f ?g s))"
  have eq: "s' = upd_shard (shard_of_page p) (inflight_erase (page_key p)) ?t"
    by (simp add: s'_def fetch_publish_def upd_page_def upd_shard_def set_io_def)
  have len: "length x = PAGE_SIZE" using x by (auto simp: disk_page_def split: option.splits if_splits)
  note pb = publish_inv [OF inv p np, where g = ?g and s' = ?t]
  have t: "bpm_inv X {} ?t" using pb(1) pin len x by simp
  then show "bpm_inv X {} s'" unfolding eq inflight_frame by simp
  show "lookup s' q = (if q = p then Some f else lookup s q)" if "pid_range q"
    unfolding eq inflight_frame using pb(2) [OF _ _ _ _ _ that] pin len x by simp
  show "pages s' = (pages s)(f := (pages s f)\<lparr>pg_data := x, pg_id := p, is_dirty := False\<rparr>)" "bp_disk s' = bp_disk s"
    "page_outs s' = page_outs s" "wal_lsn s' = wal_lsn s"
    "page_io_inflight (shards s' i) = (if i = shard_of_page p then filter (\<lambda>k. k \<noteq> page_key p) (page_io_inflight (shards s i))
       else page_io_inflight (shards s i))"
    unfolding eq by (simp_all add: inflight_erase_def tab_put_def)
qed

definition fetched :: "PageId \<Rightarrow> frame_id_t \<Rightarrow> bpm \<Rightarrow> bpm \<Rightarrow> bool" where
  "fetched p f s s' \<longleftrightarrow> lookup s' p = Some f \<and> 0 < pin_count (pages s' f)
     \<and> page_view s' p = page_view s p \<and> view_le s s'
     \<and> (\<forall>q g. pid_range q \<longrightarrow> lookup s q = Some g \<longrightarrow> 0 < pin_count (pages s g) \<longrightarrow>
          lookup s' q = Some g \<and> pin_count (pages s' g) = pin_count (pages s g) + (if q = p then 1 else 0))
     \<and> (lookup s p = None \<or> pin_count (pages s f) = 0 \<longrightarrow> pin_count (pages s' f) = 1)
     \<and> (\<forall>q. pid_ok (bp_disk s') q = pid_ok (bp_disk s) q) \<and> wal_lsn s' = wal_lsn s
     \<and> fd2pageno (bp_disk s') = fd2pageno (bp_disk s)
     \<and> from_table {p} s s'
     \<and> (\<forall>q. pid_range q \<longrightarrow> pins s' q = pins s q + (if q = p then 1 else 0))"

text \<open>Reserving a frame changes no page's pins, and publishing it pins the new page once.\<close>

lemma evicted_pins:
  assumes ev: "evicted f s s2" and inv: "bpm_inv X Y s" and inv2: "bpm_inv X Z s2" and q: "pid_range q"
  shows "pins s2 q = pins s q"
proof (cases "lookup s q")
  case None
  then show ?thesis using evictedD(5) [OF ev q] by (simp add: pins_def)
next
  case (Some g)
  have n: "0 \<le> pin_count (pages s g)" using lookup_Some(4) [OF bpm_invD(1) [OF inv] Some] .
  show ?thesis
  proof (cases "lookup s2 q")
    case None
    then have "pin_count (pages s g) = 0" using evictedD(7) [OF ev q Some] n by fastforce
    then show ?thesis using None Some by (simp add: pins_def)
  next
    case (Some h)
    have "lookup s q = Some h" using from_tableD [OF evictedD(11) [OF ev] q _ Some] by simp
    moreover have "h \<noteq> f" using evictedD(12) [OF ev] lookup_Some(5) [OF bpm_invD(1) [OF inv2] Some] by blast
    ultimately show ?thesis using Some evictedD(3) [OF ev] by (simp add: pins_def)
  qed
qed

lemma fetch_page_ok:
  assumes ok: "pool_ok X s" and p: "pid_ok (bp_disk s) p" and x: "page_view s p = Some x"
  shows "\<exists>r s'. fetch_page p s = Some (Inr r, s') \<and> pool_ok X s'
    \<and> (case r of Some f \<Rightarrow> fetched p f s s' | None \<Rightarrow> s' = s)"
proof -
  have inv: "bpm_inv X {} s" and q: "quiet s" and oo: "out_ok s" using ok by (simp_all add: pool_ok_def)
  have pr: "pid_range p" using p by (simp add: pid_ok_def)
  have io: "page_key p \<notin> set (page_io_inflight (shards s (shard_of_page p)))" using q by (simp add: quiet_def)
  show ?thesis
  proof (cases "lookup s p")
    case (Some f)
    obtain s' where s': "fetch_start p s = (Hit f, s')" "bpm_inv X {} s'" "\<forall>q. lookup s' q = lookup s q"
        "pages s' = (pages s)(f := (pages s f)\<lparr>pin_count := pin_count (pages s f) + 1\<rparr>)" "bp_disk s' = bp_disk s"
        "\<forall>i. page_io_inflight (shards s' i) = page_io_inflight (shards s i)" "page_outs s' = page_outs s" "wal_lsn s' = wal_lsn s"
      using fetch_start_hit [OF inv Some pr io] by auto
    have v: "page_view s' r = page_view s r" for r
      using s' by (simp add: page_view_def split: option.splits)
    have n: "0 \<le> pin_count (pages s f)" using lookup_Some(4) [OF bpm_invD(1) [OF inv] Some] .
    have gf: "g = f \<longleftrightarrow> r = p" if "pid_range r" "lookup s r = Some g" for r g
    proof
      assume "g = f"
      then show "r = p"
        using lookup_pid [OF bpm_invD(1) [OF inv] that(2,1)] lookup_pid [OF bpm_invD(1) [OF inv] Some pr] by simp
    next
      assume "r = p"
      then show "g = f" using that(2) Some by simp
    qed
    have "fetched p f s s'"
      unfolding fetched_def using s' Some n v gf by (auto simp: view_le_def pins_def from_table_def split: option.splits)
    moreover have "pool_ok X s'" using s' q oo by (simp add: pool_ok_def quiet_def out_ok_def)
    ultimately show ?thesis using s'(1) by (intro exI [of _ "Some f"] exI [of _ s']) (simp add: fetch_page_def)
  next
    case None
    let ?s = "upd_shard (shard_of_page p) (inflight_insert (page_key p)) s"
    have i1: "bpm_inv X {} ?s" "out_ok ?s" using inv oo by (simp_all add: inflight_frame out_ok_def)
    show ?thesis
    proof (cases "reserve_victim (shard_of_page p) ?s")
      case None
      then have "fetch_start p s = (NoFrame, s)"
        using \<open>lookup s p = None\<close> io inflight_undo [OF q] by (simp add: fetch_start_def Let_def)
      then show ?thesis using ok by (intro exI [of _ None] exI [of _ s]) (simp add: fetch_page_def)
    next
      case (Some a)
      obtain f old need s1 where a: "a = (f, old, need, s1)" by (cases a)
      obtain s2 where s2: "flush_old old need f s1 = (None, s2)" "bpm_inv X {f} s2" "out_ok s2" "evicted f ?s s2"
        using flush_old_inv [OF i1 Some [unfolded a]] by blast
      note ev = evictedD [OF s2(4)]
      have v: "page_view ?s r = page_view s r" for r by (simp add: page_view_def inflight_frame split: option.splits)
      have lkp: "lookup s2 p = None" using ev(5) [OF pr] \<open>lookup s p = None\<close> by (simp add: inflight_frame)
      have dp: "disk_page (bp_disk s2) (pg_fd p) (pg_no p) = Some x"
        using view_leD [OF ev(2) pr] x lkp v by (simp add: page_view_def)
      have pok: "pid_ok (bp_disk s2) p" using ev(6) p by simp
      have pin: "pin_count (pages s2 f) = 1" using ev(3) by simp
      have len: "length (pg_data (pages s2 f)) = PAGE_SIZE"
        using bpm_invD(4) [OF s2(2)] unfolding data_ok_def by blast
      let ?t = "fetch_publish p f (upd_page f (\<lambda>q. q\<lparr>pg_data := x\<rparr>) s2)"
      note pb = publish_fetch_inv [OF s2(2) pok lkp dp pin]
      have run: "fetch_page p s = Some (Inr (Some f), ?t)"
        using \<open>lookup s p = None\<close> io Some a s2(1) read_page_ok [OF len dp]
        by (simp add: fetch_page_def fetch_start_def Let_def fetch_finish_def)
      have fr: "lookup s2 q = Some g \<Longrightarrow> g \<noteq> f" for q g
        using lookup_Some(5) [OF bpm_invD(1) [OF s2(2)]] free_ok_reserved [OF bpm_invD(3) [OF s2(2)]] by auto
      have vt: "page_view ?t r = page_view s2 r" if "pid_range r" for r
        using pb(2) [OF that] pb(3,4) dp lkp fr by (auto simp: page_view_def split: option.splits)
      have qt: "quiet ?t"
        unfolding quiet_def using pb(7) ev(1) q by (auto simp: quiet_def inflight_insert_def)
      have "pool_ok X ?t" using pb(1,5) qt s2(3) by (simp add: pool_ok_def out_ok_def)
      moreover have "fetched p f s ?t"
      proof -
        have pv: "page_view ?t p = Some x" using vt [OF pr] dp lkp by (simp add: page_view_def)
        have vl: "view_le s ?t" using ev(2) v vt by (simp add: view_le_def)
        have others: "lookup ?t r = Some g \<and> pin_count (pages ?t g) = pin_count (pages s g) + (if r = p then 1 else 0)"
          if "pid_range r" "lookup s r = Some g" "0 < pin_count (pages s g)" for r g
          using ev(7) [OF that(1)] that pb(2) [OF that(1)] pb(3) ev(3) \<open>lookup s p = None\<close> by (auto simp: inflight_frame)
        have ps: "pins ?t r = pins s r + (if r = p then 1 else 0)" if "pid_range r" for r
        proof (cases "r = p")
          case False
          have "pins ?t r = pins s2 r" using pb(2) [OF that] pb(3) fr False by (auto simp: pins_def split: option.splits)
          also have "pins s2 r = pins ?s r" by (rule evicted_pins [OF s2(4) i1(1) s2(2) that])
          finally show ?thesis using False by (simp add: pins_def inflight_frame split: option.splits)
        qed (use pb(2) [OF pr] pb(3) pin \<open>lookup s p = None\<close> in \<open>simp add: pins_def\<close>)
        have "from_table {p} s2 ?t" using pb(2) by (simp add: from_table_def)
        moreover have "from_table {p} s s2" using ev(11) by (simp add: from_table_def inflight_frame)
        ultimately have bk: "from_table {p} s ?t" using from_table_trans by blast
        show ?thesis
          unfolding fetched_def using pb(2) [OF pr] pb(3,4,6) pv vl others ps bk pin x ev(6,8,10) by simp
      qed
      ultimately show ?thesis using run by (intro exI [of _ "Some f"] exI [of _ ?t]) simp
    qed
  qed
qed

subsection \<open>The other operations\<close>

lemma pool_ok_flush_log [simp]: "pool_ok X (flush_log s) = pool_ok X s"
  by (simp add: pool_ok_def quiet_def out_ok_def)

text \<open>Writing the frame of a resident page out and clearing its dirty flag.\<close>

definition cleaned :: "PageId \<Rightarrow> bpm \<Rightarrow> bpm \<Rightarrow> bool" where
  "cleaned p s s' \<longleftrightarrow> view_le s s' \<and> (\<forall>q. lookup s' q = lookup s q)
     \<and> (\<forall>q. pid_ok (bp_disk s') q = pid_ok (bp_disk s) q)
     \<and> (\<forall>f. pin_count (pages s' f) = pin_count (pages s f) \<and> pg_id (pages s' f) = pg_id (pages s f)
          \<and> pg_data (pages s' f) = pg_data (pages s f))
     \<and> shards s' = shards s \<and> wal_lsn s' = wal_lsn s \<and> wal_persist s' = wal_persist s \<and> pool_size s' = pool_size s
     \<and> disk_page (bp_disk s') (pg_fd p) (pg_no p) = page_view s p
     \<and> (\<forall>q x. q \<noteq> p \<longrightarrow> disk_page (bp_disk s) (pg_fd q) (pg_no q) = Some x \<longrightarrow> disk_page (bp_disk s') (pg_fd q) (pg_no q) = Some x)
     \<and> frame_io_inflight s' = frame_io_inflight s"

lemma cleanedD:
  assumes "cleaned p s s'"
  shows "view_le s s'" "lookup s' q = lookup s q" "pid_ok (bp_disk s') q = pid_ok (bp_disk s) q"
    "pin_count (pages s' f) = pin_count (pages s f)" "pg_id (pages s' f) = pg_id (pages s f)"
    "pg_data (pages s' f) = pg_data (pages s f)" "shards s' = shards s" "wal_lsn s' = wal_lsn s"
    "wal_persist s' = wal_persist s" "pool_size s' = pool_size s"
    "disk_page (bp_disk s') (pg_fd p) (pg_no p) = page_view s p"
    "q \<noteq> p \<Longrightarrow> disk_page (bp_disk s) (pg_fd q) (pg_no q) = Some x \<Longrightarrow> disk_page (bp_disk s') (pg_fd q) (pg_no q) = Some x"
    "frame_io_inflight s' = frame_io_inflight s"
  using assms unfolding cleaned_def by blast+

lemma flush_frame_ok:
  assumes ok: "pool_ok X s" and pr: "pid_range p" and lk: "lookup s p = Some f" and wal: "wal_lsn s \<le> wal_persist s"
  shows "\<exists>s1. write_out p (pg_data (pages s f)) s = (None, s1) \<and> pages s1 = pages s
    \<and> pool_ok X (upd_page f (\<lambda>p. p\<lparr>is_dirty := False\<rparr>) s1) \<and> cleaned p s (upd_page f (\<lambda>p. p\<lparr>is_dirty := False\<rparr>) s1)"
proof -
  have inv: "bpm_inv X {} s" and q: "quiet s" and oo: "out_ok s" using ok by (simp_all add: pool_ok_def)
  note lf = lookup_Some [OF bpm_invD(1) [OF inv] lk]
  have id: "pg_id (pages s f) = p" by (rule lookup_pid [OF bpm_invD(1) [OF inv] lk pr])
  let ?bs = "pg_data (pages s f)"
  have len: "length ?bs = PAGE_SIZE" using bpm_invD(4) [OF inv] by (simp add: data_ok_def)
  have same: "\<forall>g. lookup s p = Some g \<longrightarrow> pg_data (pages s g) = ?bs" using lk by simp
  obtain s1 where s1: "write_out p ?bs s = (None, s1)" "bpm_inv X {} s1" "wrote p ?bs s s1"
    using write_out_inv [OF inv _ len same] lf(3) id by auto
  note wd = wroteD [OF s1(3)]
  let ?s = "upd_page f (\<lambda>p. p\<lparr>is_dirty := False\<rparr>) s1"
  have res1: "resident s1 f" using lf(5) wd(13) by simp
  have "bpm_inv X {} ?s"
  proof (rule bpm_inv_upd_page [OF s1(2)])
    show "if pg_id (pages s1 f) \<in> X then 0 < pin_count (pages s1 f) else is_dirty ((pages s1 f)\<lparr>is_dirty := False\<rparr>)
      \<or> disk_page (bp_disk s1) (pg_fd (pg_id (pages s1 f))) (pg_no (pg_id (pages s1 f))) = Some (pg_data ((pages s1 f)\<lparr>is_dirty := False\<rparr>))"
      using bpm_invD(5) [OF s1(2), unfolded clean_ok_def, rule_format, OF res1] wd(1,5) id by (simp split: if_splits)
  qed (use bpm_invD(4) [OF s1(2)] in \<open>simp_all add: data_ok_def\<close>)
  moreover have "quiet ?s" "out_ok ?s" using q wd(2,10) oo wal by (simp_all add: quiet_def out_ok_def)
  ultimately have pok: "pool_ok X ?s" by (simp add: pool_ok_def)
  have vp: "page_view s p = Some ?bs" using lk by (simp add: page_view_def)
  have v: "view_le s ?s"
  proof (unfold view_le_def, intro allI impI)
    fix q x assume qx: "pid_range q" "page_view s q = Some x"
    have "page_view s1 q = Some x"
      using wrote_view [OF s1(3) same] qx vp by (cases "q = p") simp_all
    then show "page_view ?s q = Some x" by (auto simp: page_view_def split: option.splits)
  qed
  have "cleaned p s ?s" unfolding cleaned_def using v wd vp by simp
  then show ?thesis using s1(1) pok wd(1) by blast
qed

lemma cleaned_flush_log: "cleaned p (flush_log s) s' \<Longrightarrow> view_le s s' \<and> disk_page (bp_disk s') (pg_fd p) (pg_no p) = page_view s p"
  by (simp add: cleaned_def view_le_def)

lemma flush_page_ok:
  assumes ok: "pool_ok X s" and pr: "pid_range p"
  shows "\<exists>b s'. flush_page p s = (Inr b, s') \<and> pool_ok X s' \<and> view_le s s'
    \<and> (\<forall>q. pid_ok (bp_disk s') q = pid_ok (bp_disk s) q) \<and> (\<forall>f. pin_count (pages s' f) = pin_count (pages s f))
    \<and> (b \<longrightarrow> disk_page (bp_disk s') (pg_fd p) (pg_no p) = page_view s p) \<and> (\<forall>q. lookup s' q = lookup s q)"
proof (cases "lookup s p")
  case None
  then show ?thesis using ok by (intro exI [of _ False] exI [of _ s]) (simp add: flush_page_def)
next
  case (Some f)
  obtain s1 where s1: "write_out p (pg_data (pages (flush_log s) f)) (flush_log s) = (None, s1)"
      "pool_ok X (upd_page f (\<lambda>p. p\<lparr>is_dirty := False\<rparr>) s1)" "cleaned p (flush_log s) (upd_page f (\<lambda>p. p\<lparr>is_dirty := False\<rparr>) s1)"
    using flush_frame_ok [of X "flush_log s" p f] ok pr Some by auto
  have "flush_page p s = (Inr True, upd_page f (\<lambda>p. p\<lparr>is_dirty := False\<rparr>) s1)"
    using s1(1) Some by (simp add: flush_page_def)
  then show ?thesis
    using s1(2) cleaned_flush_log [OF s1(3)] cleanedD(2,3,4) [OF s1(3)]
    by (intro exI [of _ True] exI [of _ "upd_page f (\<lambda>p. p\<lparr>is_dirty := False\<rparr>) s1"]) simp
qed

lemma new_page_ok:
  assumes ok: "pool_ok X s" and fd: "0 \<le> fd" "fd < MAX_FD"
    and p: "p = \<lparr>pg_fd = fd, pg_no = fd2pageno (bp_disk s) fd\<rparr>" "pid_ok (bp_disk s) p" "lookup s p = None"
  shows "\<exists>r s'. new_page fd s = (Inr r, s')
    \<and> (case r of None \<Rightarrow> pool_ok X s' \<and> view_le s s' \<and> (\<forall>q. lookup s' q = lookup s q \<and> pins s' q = pins s q)
       | Some (f, p') \<Rightarrow> p' = p \<and> pool_ok (insert p X) s' \<and> lookup s' p = Some f \<and> pin_count (pages s' f) = 1
           \<and> page_view s' p = Some zero_page
           \<and> (\<forall>q x. pid_range q \<longrightarrow> q \<noteq> p \<longrightarrow> page_view s q = Some x \<longrightarrow> page_view s' q = Some x)
           \<and> (\<forall>q g. pid_range q \<longrightarrow> lookup s q = Some g \<longrightarrow> 0 < pin_count (pages s g) \<longrightarrow>
                lookup s' q = Some g \<and> pin_count (pages s' g) = pin_count (pages s g))
           \<and> from_table {p} s s' \<and> (\<forall>q. pid_range q \<longrightarrow> pins s' q = (if q = p then 1 else pins s q)))
    \<and> fd2pageno (bp_disk s') = (fd2pageno (bp_disk s))(fd := fd2pageno (bp_disk s) fd + 1)
    \<and> (\<forall>q. pid_ok (bp_disk s') q = pid_ok (bp_disk s) q)"
proof -
  have inv: "bpm_inv X {} s" and q: "quiet s" and oo: "out_ok s" using ok by (simp_all add: pool_ok_def)
  have pr: "pid_range p" using p(2) by (simp add: pid_ok_def)
  let ?d = "(bp_disk s)\<lparr>fd2pageno := (fd2pageno (bp_disk s))(fd := fd2pageno (bp_disk s) fd + 1)\<rparr>"
  let ?s = "s\<lparr>bp_disk := ?d\<rparr>"
  have al: "allocate_page (bp_disk s) fd = Inr (pg_no p, ?d)" using fd p(1) by (simp add: allocate_page_def)
  have fo: "file_of ?d = file_of (bp_disk s)" by (simp add: fun_eq_iff file_of_def split: option.splits)
  have dp: "disk_page ?d g n = disk_page (bp_disk s) g n" for g n by (simp add: disk_page_def fo)
  have po: "pid_ok ?d r = pid_ok (bp_disk s) r" for r by (simp add: pid_ok_def fo)
  have di: "disk_inv ?d = disk_inv (bp_disk s)" by (simp add: disk_inv_def)
  have lk: "lookup ?s r = lookup s r" and rs: "resident ?s f = resident s f" for r f by (simp_all add: lookup_def resident_def)
  have vw: "page_view ?s r = page_view s r" for r by (simp add: page_view_def lk dp split: option.splits)
  have i1: "bpm_inv X {} ?s"
    using inv by (simp add: bpm_inv_def tabs_ok_def repl_ok_def free_ok_def data_ok_def clean_ok_def io_ok_def
        entry_ok_def list_all_iff rs dp po di)
  have o1: "out_ok ?s" using oo by (simp add: out_ok_def)
  have pid: "\<lparr>pg_fd = fd, pg_no = pg_no p\<rparr> = p" using p(1) by simp
  show ?thesis
  proof (cases "reserve_victim (shard_of_page p) ?s")
    case None
    have "pool_ok X ?s" "view_le s ?s" using i1 o1 q vw by (simp_all add: pool_ok_def quiet_def view_le_def)
    then show ?thesis
      using None al pid po lk by (intro exI [of _ None] exI [of _ ?s]) (simp add: new_page_def Let_def pins_def split: option.splits)
  next
    case (Some a)
    obtain f old need s1 where a: "a = (f, old, need, s1)" by (cases a)
    obtain s2 where s2: "flush_old old need f s1 = (None, s2)" "bpm_inv X {f} s2" "out_ok s2" "evicted f ?s s2"
      using flush_old_inv [OF i1 o1 Some [unfolded a]] by blast
    note ev = evictedD [OF s2(4)]
    let ?g = "\<lambda>q. \<lparr>pg_id = p, pg_data = zero_page, is_dirty = False, pin_count = 1\<rparr>"
    let ?t = "set_io f False (upd_shard (shard_of_page p) (tab_put (page_key p) f) (upd_page f ?g s2))"
    have lkp: "lookup s2 p = None" using ev(5) [OF pr] p(3) lk by simp
    have pok: "pid_ok (bp_disk s2) p" using ev(6) p(2) po by simp
    have "clean_ok (insert p X) s2"
    proof -
      have "pg_id (pages s2 h) \<noteq> p" if "resident s2 h" for h using that lkp by (auto simp: resident_def)
      then show ?thesis using bpm_invD(5) [OF s2(2)] by (simp add: clean_ok_def)
    qed
    then have i2: "bpm_inv (insert p X) {f} s2" using s2(2) by (simp add: bpm_inv_def)
    note pb = publish_inv [OF i2 pok lkp, where g = ?g and s' = ?t, simplified]
    have run: "new_page fd s = (Inr (Some (f, p)), ?t)"
      using al pid Some a s2(1) by (simp add: new_page_def Let_def)
    have fr: "lookup s2 r = Some g \<Longrightarrow> g \<noteq> f" for r g
      using lookup_Some(5) [OF bpm_invD(1) [OF s2(2)]] free_ok_reserved [OF bpm_invD(3) [OF s2(2)]] by auto
    have "pool_ok (insert p X) ?t"
      using pb(1) ev(1) q s2(3) by (simp add: pool_ok_def quiet_def out_ok_def tab_put_def)
    moreover have "page_view ?t p = Some zero_page" using pb(2) [OF pr] by (simp add: page_view_def)
    moreover have "page_view ?t r = Some x" if "pid_range r" "r \<noteq> p" "page_view s r = Some x" for r x
      using view_leD [OF ev(2) that(1)] that vw pb(2) [OF that(1)] fr [of r] by (auto simp: page_view_def split: option.splits)
    moreover have "lookup ?t r = Some g \<and> pin_count (pages ?t g) = pin_count (pages s g)"
      if "pid_range r" "lookup s r = Some g" "0 < pin_count (pages s g)" for r g
      using ev(7) [OF that(1), of g] that lk pb(2) [OF that(1)] ev(3) p(3) by (auto simp: lk)
    moreover have "from_table {p} s ?t"
    proof -
      have "from_table {p} s2 ?t" using pb(2) by (simp add: from_table_def)
      moreover have "from_table {p} s s2" using ev(11) lk by (simp add: from_table_def)
      ultimately show ?thesis using from_table_trans by blast
    qed
    moreover have "pins ?t r = (if r = p then 1 else pins s r)" if "pid_range r" for r
    proof (cases "r = p")
      case False
      have "pins ?t r = pins s2 r" using pb(2) [OF that] fr False by (auto simp: pins_def split: option.splits)
      also have "pins s2 r = pins ?s r" by (rule evicted_pins [OF s2(4) i1 s2(2) that])
      finally show ?thesis using False lk by (simp add: pins_def split: option.splits)
    qed (use pb(2) [OF pr] in \<open>simp add: pins_def\<close>)
    ultimately show ?thesis
      using run pb(2) [OF pr] ev(6,8) po by (intro exI [of _ "Some (f, p)"] exI [of _ ?t]) simp
  qed
qed

lemma detached_state:
  assumes "quiet s"
  shows "quiet (set_io f b (upd_page f g (upd_shard i (\<lambda>sh. tab_erase k (sh\<lparr>sh_repl := r\<rparr>)) s)))"
  using assms by (simp add: quiet_def tab_erase_def)

text \<open>Taking an unpinned page out of the pool: its frame is reserved and blank.\<close>

lemma delete_start_inv:
  assumes inv: "bpm_inv X {} s" and q: "quiet s" and lk: "lookup s p = Some f" and pr: "pid_range p"
    and pin: "pin_count (pages s f) = 0"
  shows "\<exists>s1. delete_start p s = (Removed f (if is_dirty (pages s f) then Some (p, pg_data (pages s f)) else None), s1)
    \<and> bpm_inv X {f} s1 \<and> \<not> frame_io_inflight s1 f \<and> quiet s1 \<and> page_outs s1 = page_outs s \<and> bp_disk s1 = bp_disk s
    \<and> (\<forall>r. pid_range r \<longrightarrow> lookup s1 r = (if r = p then None else lookup s r))
    \<and> (\<forall>h. h \<noteq> f \<longrightarrow> pages s1 h = pages s h) \<and> p \<notin> X"
proof -
  note lf = lookup_Some [OF bpm_invD(1) [OF inv] lk]
  have id: "pg_id (pages s f) = p" by (rule lookup_pid [OF bpm_invD(1) [OF inv] lk pr])
  have nX: "pg_id (pages s f) \<notin> X" using bpm_invD(5) [OF inv] lf(5) pin by (auto simp: clean_ok_def split: if_splits)
  let ?i = "shard_of_page p"
  note rf = repl_facts [OF inv, of ?i]
  let ?r = "pin (sh_repl (shards s ?i)) f"
  have dt: "bpm_inv X {f} (set_io f True (upd_page f (\<lambda>p. p\<lparr>pin_count := 1\<rparr>)
      (upd_shard ?i (tab_erase (page_key p)) (upd_shard ?i (\<lambda>sh. sh\<lparr>sh_repl := ?r\<rparr>) s))))"
    and lk1: "pid_range r \<Longrightarrow> lookup (set_io f True (upd_page f (\<lambda>p. p\<lparr>pin_count := 1\<rparr>)
      (upd_shard ?i (tab_erase (page_key p)) (upd_shard ?i (\<lambda>sh. sh\<lparr>sh_repl := ?r\<rparr>) s)))) r = (if r = p then None else lookup s r)" for r
    using detach_inv [OF inv, of ?i f ?r] lf(5) pin nX rf by (simp_all add: id lru_inv_pin lru.pin_set)
  let ?s0 = "set_io f True (upd_page f (\<lambda>p. p\<lparr>pin_count := 1\<rparr>)
      (upd_shard ?i (tab_erase (page_key p)) (upd_shard ?i (\<lambda>sh. sh\<lparr>sh_repl := ?r\<rparr>) s)))"
  let ?g = "\<lambda>p. \<lparr>pg_id = NO_PAGE, pg_data = zero_page, is_dirty = False, pin_count = 0\<rparr>"
  have "lookup ?s0 (pg_id (?g (pages ?s0 f))) \<noteq> Some f"
    using lk1 [OF no_page_range] lookup_NO_PAGE [OF bpm_invD(1) [OF inv]] by (simp split: if_splits)
  moreover have "length (pg_data (?g (pages ?s0 f))) = PAGE_SIZE" by (simp add: zero_page_def)
  ultimately have i1: "bpm_inv X {f} (set_io f False (upd_page f ?g ?s0))"
    using reserved_page_inv [of X f "{}" ?s0 ?g False] dt by blast
  have nio: "\<not> frame_io_inflight s f" using bpm_invD(6) [OF inv] by (simp add: io_ok_def)
  let ?s1 = "upd_page f ?g (upd_shard ?i (\<lambda>sh. tab_erase (page_key p) (sh\<lparr>sh_repl := ?r\<rparr>)) s)"
  have io0: "(frame_io_inflight s)(f := False) = frame_io_inflight s" using nio by (simp add: fun_upd_idem)
  have eq: "set_io f False (upd_page f ?g ?s0) = ?s1"
    by (simp add: set_io_def upd_page_def upd_shard_def io0)
  have "delete_start p s = (Removed f (if is_dirty (pages s f) then Some (p, pg_data (pages s f)) else None), ?s1)"
    using lk pin id by (simp add: delete_start_def)
  moreover have "lookup ?s1 r = (if r = p then None else lookup s r)" if "pid_range r" for r
  proof -
    have "lookup ?s1 r = lookup ?s0 r" by (simp add: lookup_def)
    then show ?thesis using lk1 [OF that] by simp
  qed
  ultimately show ?thesis
    using i1 [unfolded eq] nio q nX id by (intro exI [of _ ?s1]) (simp add: quiet_def tab_erase_def)
qed

lemma delete_page_ok:
  assumes ok: "pool_ok X s" and pr: "pid_range p"
  shows "\<exists>b s'. delete_page p s = (Inr b, s') \<and> pool_ok X s' \<and> view_le s s'
    \<and> (if b then lookup s' p = None else s' = s \<and> (\<exists>f. lookup s p = Some f \<and> pin_count (pages s f) \<noteq> 0))"
proof -
  have inv: "bpm_inv X {} s" and q: "quiet s" and oo: "out_ok s" using ok by (simp_all add: pool_ok_def)
  show ?thesis
  proof (cases "lookup s p")
    case None
    then show ?thesis using ok
      by (intro exI [of _ True] exI [of _ s]) (simp add: delete_page_def delete_start_def)
  next
    case (Some f)
    note lf = lookup_Some [OF bpm_invD(1) [OF inv] Some]
    have id: "pg_id (pages s f) = p" by (rule lookup_pid [OF bpm_invD(1) [OF inv] Some pr])
    have len: "length (pg_data (pages s f)) = PAGE_SIZE" using bpm_invD(4) [OF inv] by (simp add: data_ok_def)
    show ?thesis
    proof (cases "pin_count (pages s f) = 0")
      case False
      then show ?thesis using Some ok
        by (intro exI [of _ False] exI [of _ s]) (simp add: delete_page_def delete_start_def)
    next
      case True
      obtain s1 where s1: "delete_start p s = (Removed f (if is_dirty (pages s f) then Some (p, pg_data (pages s f)) else None), s1)"
          "bpm_inv X {f} s1" "\<not> frame_io_inflight s1 f" "quiet s1" "page_outs s1 = page_outs s" "bp_disk s1 = bp_disk s"
          "\<forall>r. pid_range r \<longrightarrow> lookup s1 r = (if r = p then None else lookup s r)"
          "\<forall>h. h \<noteq> f \<longrightarrow> pages s1 h = pages s h" "p \<notin> X"
        using delete_start_inv [OF inv q Some pr True] by blast
      have data: "pg_data (pages s1 h) = pg_data (pages s h)" if "pid_range r" "lookup s r = Some h" "r \<noteq> p" for r h
        using s1(8) lookup_pid [OF bpm_invD(1) [OF inv] that(2,1)] id that(3) by auto
      have vp: "page_view s p = Some (pg_data (pages s f))" using Some by (simp add: page_view_def)
      have v1: "page_view s1 r = Some x" if "pid_range r" "r \<noteq> p" "page_view s r = Some x" for r x
        using that s1(6,7) data [OF that(1) _ that(2)] by (auto simp: page_view_def split: option.splits)
      have lkp: "lookup s1 p = None" using s1(7) pr by simp
      show ?thesis
      proof (cases "is_dirty (pages s f)")
        case False
        have "disk_page (bp_disk s) (pg_fd p) (pg_no p) = Some (pg_data (pages s f))"
          using bpm_invD(5) [OF inv] lf(5) False s1(9) id by (auto simp: clean_ok_def)
        then have "page_view s1 p = Some (pg_data (pages s f))" using lkp s1(6) by (simp add: page_view_def)
        then have v: "view_le s (free_frame f s1)"
          unfolding view_le_def page_view_free_frame using v1 vp by (metis option.inject)
        have "bpm_inv X {} (free_frame f s1)"
          using release_frame_inv [OF s1(2)] s1(3) reserved_not_free [OF s1(2)] by simp
        then show ?thesis
          using s1 False v lkp oo
          by (intro exI [of _ True] exI [of _ "free_frame f s1"])
            (simp add: delete_page_def pool_ok_def quiet_def out_ok_def)
      next
        case True
        have same: "\<forall>g. lookup (flush_log s1) p = Some g \<longrightarrow> pg_data (pages (flush_log s1) g) = pg_data (pages s f)"
          using lkp by simp
        obtain s2 where s2: "write_out p (pg_data (pages s f)) (flush_log s1) = (None, s2)" "bpm_inv X {f} s2"
            "wrote p (pg_data (pages s f)) (flush_log s1) s2"
          using write_out_inv [OF _ _ len same, of X "{f}"] s1(2,6) lf(3) id by auto
        note wd = wroteD [OF s2(3)] and wv = wrote_view [OF s2(3) same]
        have "page_view s2 r = Some x" if "pid_range r" "page_view s r = Some x" for r x
          using that v1 [OF that(1)] wv vp by (cases "r = p") simp_all
        then have v: "view_le s (free_frame f s2)" by (simp add: view_le_def)
        have "bpm_inv X {} (free_frame f s2)"
          using release_frame_inv [OF s2(2)] s1(3) wd(4) reserved_not_free [OF s2(2)] by simp
        then show ?thesis
          using s1 s2(1) True v lkp oo wd
          by (intro exI [of _ True] exI [of _ "free_frame f s2"])
            (simp add: delete_page_def pool_ok_def quiet_def out_ok_def)
      qed
    qed
  qed
qed



text \<open>Loops over the page tables.\<close>

definition entries_of :: "bpm \<Rightarrow> (64 word \<times> frame_id_t) list \<Rightarrow> bool" where
  "entries_of s es \<longleftrightarrow> list_all (\<lambda>e. pid_range (key_page (fst e)) \<and> lookup s (key_page (fst e)) = Some (snd e)) es"

lemma entries_of_table:
  assumes "tabs_ok s" and "i < BPM_NSHARDS"
  shows "entries_of s (page_table (shards s i))"
proof -
  have "pid_range (key_page k) \<and> lookup s (key_page k) = Some f" if e: "(k, f) \<in> set (page_table (shards s i))" for k f
  proof -
    note t = tabs_okE [OF assms e]
    have "key_page k = pg_id (pages s f)" using t(2,4) key_page_key by (simp add: pid_ok_def)
    then show ?thesis using t(4,6) by (simp add: resident_def pid_ok_def)
  qed
  then show ?thesis by (auto simp: entries_of_def list_all_iff)
qed

definition same_pages :: "bpm \<Rightarrow> bpm \<Rightarrow> bool" where
  "same_pages s s' \<longleftrightarrow> view_le s s' \<and> (\<forall>q. lookup s' q = lookup s q) \<and> shards s' = shards s
     \<and> (\<forall>q. pid_ok (bp_disk s') q = pid_ok (bp_disk s) q) \<and> wal_lsn s' = wal_lsn s \<and> wal_persist s' = wal_persist s
     \<and> (\<forall>f. pin_count (pages s' f) = pin_count (pages s f))"

definition on_disk :: "bpm \<Rightarrow> PageId \<Rightarrow> bool" where
  "on_disk s q \<longleftrightarrow> page_view s q \<noteq> None \<and> disk_page (bp_disk s) (pg_fd q) (pg_no q) = page_view s q"

lemma same_pages_refl: "same_pages s s"
  by (simp add: same_pages_def)

lemma same_pages_trans: "same_pages s t \<Longrightarrow> same_pages t u \<Longrightarrow> same_pages s u"
  unfolding same_pages_def using view_le_trans by auto

lemma cleaned_same_pages: "cleaned p s s' \<Longrightarrow> same_pages s s'"
  by (simp add: cleaned_def same_pages_def)

lemma cleaned_on_disk:
  assumes "cleaned p s s'" and "pid_range q" and "page_view s p \<noteq> None" and "q = p \<or> on_disk s q"
  shows "on_disk s' q"
proof (cases "q = p")
  case True
  then obtain x where x: "page_view s p = Some x" using assms(3) by blast
  then have "page_view s' p = Some x" using view_leD [OF cleanedD(1) [OF assms(1)]] assms(2) True by simp
  then show ?thesis using cleanedD(11) [OF assms(1)] x True by (simp add: on_disk_def)
next
  case False
  then obtain x where x: "page_view s q = Some x" "disk_page (bp_disk s) (pg_fd q) (pg_no q) = Some x"
    using assms(4) by (auto simp: on_disk_def)
  then show ?thesis
    using view_leD [OF cleanedD(1) [OF assms(1)] assms(2) x(1)] cleanedD(12) [OF assms(1) False x(2)]
    by (simp add: on_disk_def)
qed

lemma flush_entries_ok:
  assumes "pool_ok X s" and "entries_of s es" and "wal_lsn s \<le> wal_persist s"
  shows "\<exists>s'. flush_entries fd es s = (None, s') \<and> pool_ok X s' \<and> same_pages s s'
    \<and> (\<forall>q. pid_range q \<longrightarrow> on_disk s q \<or> pg_fd q = fd \<and> q \<in> key_page ` fst ` set es \<longrightarrow> on_disk s' q)"
  using assms
proof (induction es arbitrary: s)
  case Nil
  then show ?case by (simp add: same_pages_refl)
next
  case (Cons e es)
  obtain k f where e: "e = (k, f)" by (cases e)
  show ?case
  proof (cases "pg_fd (key_page k) = fd")
    case False
    then show ?thesis using Cons.IH [OF Cons.prems(1) _ Cons.prems(3)] Cons.prems(2)
      by (auto simp: e entries_of_def)
  next
    case True
    have kp: "pid_range (key_page k)" "lookup s (key_page k) = Some f" using Cons.prems(2) by (simp_all add: e entries_of_def)
    obtain s1 where s1: "write_out (key_page k) (pg_data (pages s f)) s = (None, s1)"
        "pool_ok X (upd_page f (\<lambda>p. p\<lparr>is_dirty := False\<rparr>) s1)" "cleaned (key_page k) s (upd_page f (\<lambda>p. p\<lparr>is_dirty := False\<rparr>) s1)"
      using flush_frame_ok [OF Cons.prems(1) kp Cons.prems(3)] by blast
    let ?t = "upd_page f (\<lambda>p. p\<lparr>is_dirty := False\<rparr>) s1"
    have "entries_of ?t es" "wal_lsn ?t \<le> wal_persist ?t"
      using Cons.prems(2,3) cleanedD(2,8,9) [OF s1(3)] by (simp_all add: entries_of_def e)
    then obtain s' where s': "flush_entries fd es ?t = (None, s')" "pool_ok X s'" "same_pages ?t s'"
        "\<forall>q. pid_range q \<longrightarrow> on_disk ?t q \<or> pg_fd q = fd \<and> q \<in> key_page ` fst ` set es \<longrightarrow> on_disk s' q"
      using Cons.IH [OF s1(2)] by blast
    have "on_disk s' q" if "pid_range q" "on_disk s q \<or> pg_fd q = fd \<and> q \<in> key_page ` fst ` set (e # es)" for q
    proof -
      have "page_view s (key_page k) \<noteq> None" using kp(2) by (simp add: page_view_def)
      then have "on_disk ?t q \<or> pg_fd q = fd \<and> q \<in> key_page ` fst ` set es"
        using that cleaned_on_disk [OF s1(3) that(1)] by (auto simp: e)
      then show ?thesis using s'(4) that(1) by blast
    qed
    then show ?thesis
      using s' s1(1) True same_pages_trans [OF cleaned_same_pages [OF s1(3)] s'(3)] by (simp add: e)
  qed
qed

lemma flush_shards_ok:
  assumes "pool_ok X s" and "list_all (\<lambda>i. i < BPM_NSHARDS) is" and "wal_lsn s \<le> wal_persist s"
  shows "\<exists>s'. flush_shards fd is s = (None, s') \<and> pool_ok X s' \<and> same_pages s s'
    \<and> (\<forall>q. pid_range q \<longrightarrow> on_disk s q \<or> pg_fd q = fd \<and> shard_of_page q \<in> set is \<and> lookup s q \<noteq> None \<longrightarrow> on_disk s' q)"
  using assms
proof (induction "is" arbitrary: s)
  case Nil
  then show ?case by (simp add: same_pages_refl)
next
  case (Cons i "is")
  have i: "i < BPM_NSHARDS" using Cons.prems(2) by simp
  have tb: "tabs_ok s" using Cons.prems(1) by (simp add: pool_ok_def bpm_inv_def)
  obtain t where t: "flush_entries fd (page_table (shards s i)) s = (None, t)" "pool_ok X t" "same_pages s t"
      "\<forall>q. pid_range q \<longrightarrow> on_disk s q \<or> pg_fd q = fd \<and> q \<in> key_page ` fst ` set (page_table (shards s i)) \<longrightarrow> on_disk t q"
    using flush_entries_ok [OF Cons.prems(1) entries_of_table [OF tb i] Cons.prems(3)] by blast
  have "wal_lsn t \<le> wal_persist t" using t(3) Cons.prems(3) by (simp add: same_pages_def)
  then obtain s' where s': "flush_shards fd is t = (None, s')" "pool_ok X s'" "same_pages t s'"
      "\<forall>q. pid_range q \<longrightarrow> on_disk t q \<or> pg_fd q = fd \<and> shard_of_page q \<in> set is \<and> lookup t q \<noteq> None \<longrightarrow> on_disk s' q"
    using Cons.IH [OF t(2)] Cons.prems(2) by auto
  have "on_disk s' q"
    if q: "pid_range q" "on_disk s q \<or> pg_fd q = fd \<and> shard_of_page q \<in> set (i # is) \<and> lookup s q \<noteq> None" for q
  proof -
    have "q \<in> key_page ` fst ` set (page_table (shards s i))" if r: "shard_of_page q = i" "lookup s q \<noteq> None"
    proof -
      obtain f where "lookup s q = Some f" using r(2) by blast
      then have "(page_key q, f) \<in> set (page_table (shards s i))" using r(1) by (auto simp: lookup_def dest: map_of_SomeD)
      then show ?thesis using key_page_key [OF q(1)] by force
    qed
    moreover have "lookup t q = lookup s q" using t(3) by (simp add: same_pages_def)
    ultimately show ?thesis using q t(4) s'(4) by auto
  qed
  then show ?case using s' t(1) same_pages_trans [OF t(3) s'(3)] by simp
qed

lemma flush_all_pages_ok:
  assumes "pool_ok X s"
  shows "\<exists>s'. flush_all_pages fd s = (None, s') \<and> pool_ok X s' \<and> view_le s s'
    \<and> (\<forall>q. pid_range q \<longrightarrow> pg_fd q = fd \<longrightarrow> lookup s q \<noteq> None \<longrightarrow> on_disk s' q)
    \<and> (\<forall>q. lookup s' q = lookup s q) \<and> (\<forall>q. pid_ok (bp_disk s') q = pid_ok (bp_disk s) q)
    \<and> (\<forall>f. pin_count (pages s' f) = pin_count (pages s f))"
proof -
  obtain s' where s': "flush_shards fd [0..<BPM_NSHARDS] (flush_log s) = (None, s')" "pool_ok X s'" "same_pages (flush_log s) s'"
      "\<forall>q. pid_range q \<longrightarrow> on_disk (flush_log s) q \<or> pg_fd q = fd \<and> shard_of_page q \<in> set [0..<BPM_NSHARDS]
         \<and> lookup (flush_log s) q \<noteq> None \<longrightarrow> on_disk s' q"
    using flush_shards_ok [of X "flush_log s" "[0..<BPM_NSHARDS]" fd] assms by (auto simp: list_all_iff)
  then show ?thesis by (simp add: flush_all_pages_def same_pages_def view_le_def)
qed

text \<open>The cleaner, when no other thread runs between its two sections.\<close>

lemma cleaner_step_ok:
  assumes ok: "pool_ok X s" and i: "i < BPM_NSHARDS" and pk: "cleaner_pick i s = Some (f, p, bs)"
  shows "\<exists>s1. cleaner_write p bs s = (None, s1) \<and> pool_ok X (cleaner_clear f p s1) \<and> view_le s (cleaner_clear f p s1)"
proof -
  have inv: "bpm_inv X {} s" using ok by (simp add: pool_ok_def)
  obtain k rest where fl: "filter (\<lambda>(k, f). pin_count (pages s f) = 0 \<and> is_dirty (pages s f) \<and> \<not> frame_io_inflight s f)
      (page_table (shards s i)) = (k, f) # rest" "p = pg_id (pages s f)" "bs = pg_data (pages s f)"
    using pk by (auto simp: cleaner_pick_def split: list.splits)
  have "(k, f) \<in> set (filter (\<lambda>(k, f). pin_count (pages s f) = 0 \<and> is_dirty (pages s f) \<and> \<not> frame_io_inflight s f)
      (page_table (shards s i)))" by (simp add: fl(1))
  then have e: "(k, f) \<in> set (page_table (shards s i))" "pin_count (pages s f) = 0" "is_dirty (pages s f)" by simp_all
  note t = tabs_okE [OF bpm_invD(1) [OF inv] i e(1)]
  have lk: "lookup (flush_log s) p = Some f" and pr: "pid_range p" using t(4,6) fl(2) by (simp_all add: resident_def pid_ok_def)
  obtain s1 where s1: "write_out p (pg_data (pages (flush_log s) f)) (flush_log s) = (None, s1)" "pages s1 = pages (flush_log s)"
      "pool_ok X (upd_page f (\<lambda>p. p\<lparr>is_dirty := False\<rparr>) s1)" "cleaned p (flush_log s) (upd_page f (\<lambda>p. p\<lparr>is_dirty := False\<rparr>) s1)"
    using flush_frame_ok [of X "flush_log s" p f] ok pr lk by auto
  have "cleaner_clear f p s1 = upd_page f (\<lambda>p. p\<lparr>is_dirty := False\<rparr>) s1"
    using s1(2) e fl(2) by (simp add: cleaner_clear_def)
  then show ?thesis using s1 fl(3) cleaned_flush_log [OF s1(4)] by (simp add: cleaner_write_def)
qed

lemma cleaner_shard_ok:
  assumes "pool_ok X s" and "i < BPM_NSHARDS"
  shows "\<exists>n' s'. cleaner_shard n i s = Inr (n', s') \<and> pool_ok X s' \<and> view_le s s'"
  using assms(1)
proof (induction n arbitrary: s)
  case (Suc n)
  show ?case
  proof (cases "cleaner_pick i s")
    case None
    then show ?thesis using Suc.prems by simp
  next
    case (Some a)
    obtain f p bs where a: "a = (f, p, bs)" by (cases a)
    obtain s1 where s1: "cleaner_write p bs s = (None, s1)" "pool_ok X (cleaner_clear f p s1)" "view_le s (cleaner_clear f p s1)"
      using cleaner_step_ok [OF Suc.prems assms(2) Some [unfolded a]] by blast
    then show ?thesis using Suc.IH [OF s1(2)] Some a view_le_trans [OF s1(3)] by fastforce
  qed
qed simp

lemma cleaner_shards_ok:
  assumes "pool_ok X s" and "list_all (\<lambda>i. i < BPM_NSHARDS) is"
  shows "\<exists>s'. cleaner_shards n is s = Inr s' \<and> pool_ok X s' \<and> view_le s s'"
  using assms
proof (induction "is" arbitrary: n s)
  case (Cons i "is")
  obtain n' t where t: "cleaner_shard n i s = Inr (n', t)" "pool_ok X t" "view_le s t"
    using cleaner_shard_ok [OF Cons.prems(1), of i n] Cons.prems(2) by auto
  then show ?case using Cons.IH [OF t(2), of n'] Cons.prems view_le_trans [OF t(3)] by auto
qed simp

lemma cleaner_round_ok:
  "pool_ok X s \<Longrightarrow> \<exists>s'. cleaner_round j s = Inr s' \<and> pool_ok X s' \<and> view_le s s'"
  using cleaner_shards_ok [OF _ reserve_list_ok, of X s CLEANER_BATCH j] by (simp add: cleaner_round_def)

end
