(* ===== verification/Pool_Client.thy ===== *)
theory Pool_Client
  imports Buffer_Pool
begin

text \<open>
  What the users of the buffer pool rely on. The locale \<open>page_store\<close> is the contract of
  \<^verbatim>\<open>fetch_page\<close>, \<^verbatim>\<open>new_page\<close>, \<^verbatim>\<open>unpin_page\<close> and of writing to a pinned page, with the two patterns of
  every caller derived from it: look at a page, and change a page. It is interpreted on the pool.
  Then the properties of the pool: it refines a map from pages to bytes under every
  sequence of calls, no page is written before its log records, and the two interleavings in which an
  update is lost.
\<close>

section \<open>The contract\<close>

locale page_store =
  fixes fetch :: "'p \<Rightarrow> 's \<Rightarrow> ((db_error + 'f option) \<times> 's) option"
    and create :: "int \<Rightarrow> 's \<Rightarrow> (db_error + ('f \<times> 'p) option) \<times> 's"
    and store :: "'f \<Rightarrow> bytes \<Rightarrow> 's \<Rightarrow> 's"
    and release :: "'p \<Rightarrow> bool \<Rightarrow> 's \<Rightarrow> bool \<times> 's"
    and data :: "'s \<Rightarrow> 'f \<Rightarrow> bytes"
    and place :: "'s \<Rightarrow> 'p \<Rightarrow> 'f option"
    and pinned :: "'s \<Rightarrow> 'p \<Rightarrow> int"
    and view :: "'s \<Rightarrow> 'p \<Rightarrow> bytes option"
    and ok :: "'p set \<Rightarrow> 's \<Rightarrow> bool"
    and rng :: "'p \<Rightarrow> bool"
    and valid :: "'s \<Rightarrow> 'p \<Rightarrow> bool"
    and page_no :: "int \<Rightarrow> int \<Rightarrow> 'p"
    and next_no :: "'s \<Rightarrow> int \<Rightarrow> int"
  assumes valid_rng: "valid s p \<Longrightarrow> rng p"
    and pinned_nonneg: "ok X s \<Longrightarrow> 0 \<le> pinned s p"
    and pinned_place: "0 < pinned s p \<Longrightarrow> \<exists>f. place s p = Some f"
    and placed_view: "place s p = Some f \<Longrightarrow> view s p = Some (data s f)"
    and view_length: "ok X s \<Longrightarrow> view s p = Some x \<Longrightarrow> length x = PAGE_SIZE"
    and fetch_law: "ok X s \<Longrightarrow> valid s p \<Longrightarrow> view s p = Some x \<Longrightarrow>
      \<exists>r s'. fetch p s = Some (Inr r, s') \<and> ok X s' \<and>
        (case r of None \<Rightarrow> s' = s
         | Some f \<Rightarrow> place s' p = Some f \<and> data s' f = x
             \<and> (\<forall>q y. rng q \<longrightarrow> view s q = Some y \<longrightarrow> view s' q = Some y)
             \<and> (\<forall>q. rng q \<longrightarrow> pinned s' q = pinned s q + (if q = p then 1 else 0))
             \<and> (\<forall>q. rng q \<longrightarrow> 0 < pinned s q \<longrightarrow> place s' q = place s q)
             \<and> (\<forall>q. rng q \<longrightarrow> q \<noteq> p \<longrightarrow> place s' q \<noteq> None \<longrightarrow> place s q \<noteq> None)
             \<and> (\<forall>q. valid s' q = valid s q) \<and> next_no s' = next_no s)"
    and store_law: "ok X s \<Longrightarrow> place s p = Some f \<Longrightarrow> rng p \<Longrightarrow> 0 < pinned s p \<Longrightarrow> length bs = PAGE_SIZE \<Longrightarrow>
      ok (insert p X) (store f bs s) \<and> (\<forall>q. rng q \<longrightarrow> view (store f bs s) q = (if q = p then Some bs else view s q))
        \<and> (\<forall>q. place (store f bs s) q = place s q \<and> pinned (store f bs s) q = pinned s q \<and> valid (store f bs s) q = valid s q)
        \<and> next_no (store f bs s) = next_no s"
    and release_law: "ok X s \<Longrightarrow> rng p \<Longrightarrow> 0 < pinned s p \<Longrightarrow> dirty \<or> p \<notin> X \<or> 1 < pinned s p \<Longrightarrow>
      \<exists>s'. release p dirty s = (True, s') \<and> ok (if dirty then X - {p} else X) s'
        \<and> (\<forall>q. rng q \<longrightarrow> pinned s' q = pinned s q - (if q = p then 1 else 0))
        \<and> (\<forall>q. place s' q = place s q \<and> view s' q = view s q \<and> valid s' q = valid s q) \<and> next_no s' = next_no s"
    and create_law: "ok X s \<Longrightarrow> 0 \<le> fd \<Longrightarrow> fd < MAX_FD \<Longrightarrow> p = page_no fd (next_no s fd) \<Longrightarrow> valid s p \<Longrightarrow> place s p = None \<Longrightarrow>
      \<exists>r s'. create fd s = (Inr r, s') \<and> next_no s' = (next_no s)(fd := next_no s fd + 1) \<and> (\<forall>q. valid s' q = valid s q) \<and>
        (case r of None \<Rightarrow> ok X s' \<and> (\<forall>q. place s' q = place s q \<and> pinned s' q = pinned s q)
             \<and> (\<forall>q y. rng q \<longrightarrow> view s q = Some y \<longrightarrow> view s' q = Some y)
         | Some (f, p') \<Rightarrow> p' = p \<and> ok (insert p X) s' \<and> place s' p = Some f \<and> view s' p = Some zero_page
             \<and> (\<forall>q y. rng q \<longrightarrow> q \<noteq> p \<longrightarrow> view s q = Some y \<longrightarrow> view s' q = Some y)
             \<and> (\<forall>q. rng q \<longrightarrow> pinned s' q = (if q = p then 1 else pinned s q))
             \<and> (\<forall>q. rng q \<longrightarrow> 0 < pinned s q \<longrightarrow> place s' q = place s q)
             \<and> (\<forall>q. rng q \<longrightarrow> q \<noteq> p \<longrightarrow> place s' q \<noteq> None \<longrightarrow> place s q \<noteq> None))"
begin

text \<open>
  \<open>keeps C D s s'\<close>: between \<open>s\<close> and \<open>s'\<close> only the pages of \<open>C\<close> changed and only those of \<open>D\<close> may have
  come into the store; pins are as before and pinned pages are where they were.
\<close>

definition keeps :: "'p set \<Rightarrow> 'p set \<Rightarrow> 's \<Rightarrow> 's \<Rightarrow> bool" where
  "keeps C D s s' \<longleftrightarrow> (\<forall>q y. rng q \<longrightarrow> q \<notin> C \<longrightarrow> view s q = Some y \<longrightarrow> view s' q = Some y)
     \<and> (\<forall>q. rng q \<longrightarrow> pinned s' q = pinned s q)
     \<and> (\<forall>q. rng q \<longrightarrow> 0 < pinned s q \<longrightarrow> place s' q = place s q)
     \<and> (\<forall>q. rng q \<longrightarrow> q \<notin> D \<longrightarrow> place s' q \<noteq> None \<longrightarrow> place s q \<noteq> None)
     \<and> (\<forall>q. valid s' q = valid s q) \<and> next_no s' = next_no s"

lemma keepsD:
  assumes "keeps C D s s'"
  shows "rng q \<Longrightarrow> q \<notin> C \<Longrightarrow> view s q = Some y \<Longrightarrow> view s' q = Some y" "rng q \<Longrightarrow> pinned s' q = pinned s q"
    "rng q \<Longrightarrow> 0 < pinned s q \<Longrightarrow> place s' q = place s q"
    "rng q \<Longrightarrow> q \<notin> D \<Longrightarrow> place s' q \<noteq> None \<Longrightarrow> place s q \<noteq> None" "valid s' q = valid s q" "next_no s' = next_no s"
  using assms unfolding keeps_def by blast+

lemma keeps_refl: "keeps C D s s"
  by (simp add: keeps_def)

lemma keeps_mono: "keeps C D s s' \<Longrightarrow> C \<subseteq> C' \<Longrightarrow> D \<subseteq> D' \<Longrightarrow> keeps C' D' s s'"
  unfolding keeps_def by blast

lemma keeps_trans:
  assumes "keeps C D s t" and "keeps C' D' t u"
  shows "keeps (C \<union> C') (D \<union> D') s u"
  unfolding keeps_def using keepsD [OF assms(1)] keepsD [OF assms(2)] by auto

text \<open>Look at a page and let it go.\<close>

lemma peek:
  assumes ok: "ok X s" and v: "valid s p" and x: "view s p = Some x" and X: "p \<in> X \<Longrightarrow> 0 < pinned s p"
  shows "\<exists>r s'. fetch p s = Some (Inr r, s') \<and>
    (case r of None \<Rightarrow> s' = s
     | Some f \<Rightarrow> place s' p = Some f \<and> ok X s' \<and> data s' f = x \<and> (\<exists>s''. release p False s' = (True, s'') \<and> ok X s'' \<and> keeps {} {p} s s'' \<and> place s'' p = Some f))"
proof -
  obtain r s' where f: "fetch p s = Some (Inr r, s')" "ok X s'"
    and r: "case r of None \<Rightarrow> s' = s
         | Some f \<Rightarrow> place s' p = Some f \<and> data s' f = x
             \<and> (\<forall>q y. rng q \<longrightarrow> view s q = Some y \<longrightarrow> view s' q = Some y)
             \<and> (\<forall>q. rng q \<longrightarrow> pinned s' q = pinned s q + (if q = p then 1 else 0))
             \<and> (\<forall>q. rng q \<longrightarrow> 0 < pinned s q \<longrightarrow> place s' q = place s q)
             \<and> (\<forall>q. rng q \<longrightarrow> q \<noteq> p \<longrightarrow> place s' q \<noteq> None \<longrightarrow> place s q \<noteq> None)
             \<and> (\<forall>q. valid s' q = valid s q) \<and> next_no s' = next_no s"
    using fetch_law [OF ok v x] by blast
  show ?thesis
  proof (cases r)
    case None
    then show ?thesis using f r by auto
  next
    case (Some g)
    have rp: "rng p" by (rule valid_rng [OF v])
    have n: "pinned s' p = pinned s p + 1" using r Some rp by simp
    have g0: "0 < pinned s' p" using n pinned_nonneg [OF ok, of p] by linarith
    have g1: "p \<notin> X \<or> 1 < pinned s' p" using n X by linarith
    obtain s'' where s'': "release p False s' = (True, s'')" "ok X s''"
        "\<forall>q. rng q \<longrightarrow> pinned s'' q = pinned s' q - (if q = p then 1 else 0)"
        "\<forall>q. place s'' q = place s' q \<and> view s'' q = view s' q \<and> valid s'' q = valid s' q" "next_no s'' = next_no s'"
      using release_law [OF f(2) rp g0, of False] g1 by auto
    have "keeps {} {p} s s''" unfolding keeps_def using s''(3-5) r Some by simp
    moreover have "place s'' p = Some g" using s''(4) r Some by simp
    ultimately show ?thesis using f Some r s''(1,2) by auto
  qed
qed

text \<open>Change a page.\<close>

lemma poke:
  assumes ok: "ok X s" and v: "valid s p" and x: "view s p = Some x"
  shows "\<exists>r s'. fetch p s = Some (Inr r, s') \<and>
    (case r of None \<Rightarrow> s' = s
     | Some f \<Rightarrow> place s' p = Some f \<and> ok X s' \<and> data s' f = x \<and> (\<forall>bs. length bs = PAGE_SIZE \<longrightarrow>
         (\<exists>s''. release p True (store f bs s') = (True, s'') \<and> ok (X - {p}) s'' \<and> keeps {p} {p} s s''
            \<and> view s'' p = Some bs \<and> place s'' p = Some f)))"
proof -
  obtain r s' where f: "fetch p s = Some (Inr r, s')" "ok X s'"
    and r: "case r of None \<Rightarrow> s' = s
         | Some f \<Rightarrow> place s' p = Some f \<and> data s' f = x
             \<and> (\<forall>q y. rng q \<longrightarrow> view s q = Some y \<longrightarrow> view s' q = Some y)
             \<and> (\<forall>q. rng q \<longrightarrow> pinned s' q = pinned s q + (if q = p then 1 else 0))
             \<and> (\<forall>q. rng q \<longrightarrow> 0 < pinned s q \<longrightarrow> place s' q = place s q)
             \<and> (\<forall>q. rng q \<longrightarrow> q \<noteq> p \<longrightarrow> place s' q \<noteq> None \<longrightarrow> place s q \<noteq> None)
             \<and> (\<forall>q. valid s' q = valid s q) \<and> next_no s' = next_no s"
    using fetch_law [OF ok v x] by blast
  show ?thesis
  proof (cases r)
    case None
    then show ?thesis using f r by auto
  next
    case (Some g)
    have rp: "rng p" by (rule valid_rng [OF v])
    have g0: "0 < pinned s' p" using r Some rp pinned_nonneg [OF ok, of p] by simp
    have "\<exists>s''. release p True (store g bs s') = (True, s'') \<and> ok (X - {p}) s'' \<and> keeps {p} {p} s s'' \<and> view s'' p = Some bs
        \<and> place s'' p = Some g"
      if len: "length bs = PAGE_SIZE" for bs
    proof -
      have st: "ok (insert p X) (store g bs s')"
          "\<forall>q. rng q \<longrightarrow> view (store g bs s') q = (if q = p then Some bs else view s' q)"
          "\<forall>q. place (store g bs s') q = place s' q \<and> pinned (store g bs s') q = pinned s' q
             \<and> valid (store g bs s') q = valid s' q"
          "next_no (store g bs s') = next_no s'"
        using store_law [OF f(2) _ rp g0 len] r Some by simp_all
      obtain s'' where s'': "release p True (store g bs s') = (True, s'')" "ok (insert p X - {p}) s''"
          "\<forall>q. rng q \<longrightarrow> pinned s'' q = pinned (store g bs s') q - (if q = p then 1 else 0)"
          "\<forall>q. place s'' q = place (store g bs s') q \<and> view s'' q = view (store g bs s') q \<and> valid s'' q = valid (store g bs s') q"
          "next_no s'' = next_no (store g bs s')"
        using release_law [OF st(1) rp, of True] st(3) g0 by auto
      have "keeps {p} {p} s s''" unfolding keeps_def using s''(3-5) st(2-4) r Some by simp
      moreover have "view s'' p = Some bs" "place s'' p = Some g" using s''(4) st(2,3) rp r Some by simp_all
      ultimately show ?thesis using s''(1,2) by auto
    qed
    then show ?thesis using f Some r by auto
  qed
qed

end

section \<open>The pool keeps the contract\<close>

lemma pool_okD: "pool_ok X s \<Longrightarrow> bpm_inv X {} s" "pool_ok X s \<Longrightarrow> quiet s" "pool_ok X s \<Longrightarrow> out_ok s"
  by (simp_all add: pool_ok_def)

lemma fetchedD:
  assumes "fetched p f s s'"
  shows "lookup s' p = Some f" "page_view s' p = page_view s p" "view_le s s'"
    "pid_ok (bp_disk s') q = pid_ok (bp_disk s) q" "fd2pageno (bp_disk s') = fd2pageno (bp_disk s)" "from_table {p} s s'"
    "pid_range q \<Longrightarrow> pins s' q = pins s q + (if q = p then 1 else 0)" "0 < pin_count (pages s' f)"
    "pid_range q \<Longrightarrow> lookup s q = Some g \<Longrightarrow> 0 < pin_count (pages s g) \<Longrightarrow> lookup s' q = Some g" "wal_lsn s' = wal_lsn s"
  using assms unfolding fetched_def by blast+

lemma pins_nonneg:
  assumes "pool_ok X s"
  shows "0 \<le> pins s p"
  using lookup_Some(4) [OF bpm_invD(1) [OF pool_okD(1) [OF assms]]] by (simp add: pins_def split: option.split)

lemma pinned_lookup: "0 < pins s q \<longleftrightarrow> (\<exists>g. lookup s q = Some g \<and> 0 < pin_count (pages s g))"
  by (simp add: pins_def split: option.splits)

lemma page_view_length:
  assumes "pool_ok X s" and "page_view s p = Some x"
  shows "length x = PAGE_SIZE"
  using assms bpm_invD(4) [OF pool_okD(1) [OF assms(1)]]
  by (auto simp: page_view_def data_ok_def disk_page_def split: option.splits if_splits)

lemma from_table_resident:
  assumes "from_table {p} s s'"
  shows "\<forall>q. pid_range q \<longrightarrow> q \<noteq> p \<longrightarrow> lookup s' q \<noteq> None \<longrightarrow> lookup s q \<noteq> None"
  using from_tableD [OF assms] by fastforce

lemma pool_fetch_law:
  assumes "pool_ok X s" and p: "pid_ok (bp_disk s) p" and x: "page_view s p = Some x"
  shows "\<exists>r s'. fetch_page p s = Some (Inr r, s') \<and> pool_ok X s' \<and>
        (case r of None \<Rightarrow> s' = s
         | Some f \<Rightarrow> lookup s' p = Some f \<and> pg_data (pages s' f) = x
             \<and> (\<forall>q y. pid_range q \<longrightarrow> page_view s q = Some y \<longrightarrow> page_view s' q = Some y)
             \<and> (\<forall>q. pid_range q \<longrightarrow> pins s' q = pins s q + (if q = p then 1 else 0))
             \<and> (\<forall>q. pid_range q \<longrightarrow> 0 < pins s q \<longrightarrow> lookup s' q = lookup s q)
             \<and> (\<forall>q. pid_range q \<longrightarrow> q \<noteq> p \<longrightarrow> lookup s' q \<noteq> None \<longrightarrow> lookup s q \<noteq> None)
             \<and> (\<forall>q. pid_ok (bp_disk s') q = pid_ok (bp_disk s) q) \<and> fd2pageno (bp_disk s') = fd2pageno (bp_disk s))"
proof -
  obtain r s' where s': "fetch_page p s = Some (Inr r, s')" "pool_ok X s'" "case r of Some f \<Rightarrow> fetched p f s s' | None \<Rightarrow> s' = s"
    using fetch_page_ok [OF assms] by blast
  show ?thesis
  proof (cases r)
    case None
    then show ?thesis using s' by auto
  next
    case (Some f)
    then have ft: "fetched p f s s'" using s'(3) by simp
    note fd = fetchedD [OF ft]
    have "pg_data (pages s' f) = x" using fd(1,2) x by (simp add: page_view_def)
    moreover have "lookup s' q = lookup s q" if "pid_range q" "0 < pins s q" for q
      using fd(9) [OF that(1)] that(2) unfolding pinned_lookup by auto
    moreover have "\<forall>q. pid_range q \<longrightarrow> q \<noteq> p \<longrightarrow> lookup s' q \<noteq> None \<longrightarrow> lookup s q \<noteq> None"
      by (rule from_table_resident [OF fd(6)])
    ultimately show ?thesis
      using s'(1,2) Some fd(1,4,5,7) view_leD [OF fd(3)] by (intro exI [of _ r] exI [of _ s']) simp
  qed
qed

lemma pool_store_law:
  assumes ok: "pool_ok X s" and lk: "lookup s p = Some f" and p: "pid_range p" and pin: "0 < pins s p" and len: "length bs = PAGE_SIZE"
  shows "pool_ok (insert p X) (set_data f bs s)
    \<and> (\<forall>q. pid_range q \<longrightarrow> page_view (set_data f bs s) q = (if q = p then Some bs else page_view s q))
    \<and> (\<forall>q. lookup (set_data f bs s) q = lookup s q \<and> pins (set_data f bs s) q = pins s q
         \<and> pid_ok (bp_disk (set_data f bs s)) q = pid_ok (bp_disk s) q)
    \<and> fd2pageno (bp_disk (set_data f bs s)) = fd2pageno (bp_disk s)"
proof -
  have pc: "0 < pin_count (pages s f)" using pin lk by (simp add: pins_def)
  note sd = set_data_inv [OF pool_okD(1) [OF ok] lk p pc len]
  have "quiet (set_data f bs s)" "out_ok (set_data f bs s)" "bp_disk (set_data f bs s) = bp_disk s"
    using pool_okD [OF ok] by (simp_all add: set_data_def quiet_def out_ok_def)
  then show ?thesis using sd by (simp add: pool_ok_def pins_def split: option.splits)
qed

lemma pool_release_law:
  assumes ok: "pool_ok X s" and p: "pid_range p" and pin: "0 < pins s p" and X: "dirty \<or> p \<notin> X \<or> 1 < pins s p"
  shows "\<exists>s'. unpin_page p dirty s = (True, s') \<and> pool_ok (if dirty then X - {p} else X) s'
    \<and> (\<forall>q. pid_range q \<longrightarrow> pins s' q = pins s q - (if q = p then 1 else 0))
    \<and> (\<forall>q. lookup s' q = lookup s q \<and> page_view s' q = page_view s q \<and> pid_ok (bp_disk s') q = pid_ok (bp_disk s) q)
    \<and> fd2pageno (bp_disk s') = fd2pageno (bp_disk s)"
proof -
  obtain f where f: "lookup s p = Some f" "0 < pin_count (pages s f)" using pin unfolding pinned_lookup by blast
  have X': "1 < pin_count (pages s f)" if "\<not> dirty" "p \<in> X" using X that f by (simp add: pins_def)
  let ?s = "snd (unpin_page p dirty s)"
  note up = unpin_page_inv [OF pool_okD(1) [OF ok] f(1) p f(2), of dirty, OF X', simplified]
  have out: "page_outs ?s = page_outs s"
    by (simp add: unpin_page_def Let_def upd_page_def upd_shard_def split: option.split)
  have "quiet ?s" using up(6) pool_okD(2) [OF ok] by (simp add: quiet_def)
  moreover have "out_ok ?s" using out pool_okD(3) [OF ok] by (simp add: out_ok_def)
  ultimately have "pool_ok (if dirty then X - {p} else X) ?s" using up(2) by (simp add: pool_ok_def)
  moreover have "pins ?s q = pins s q - (if q = p then 1 else 0)" if "pid_range q" for q
  proof -
    note id = lookup_pid [OF bpm_invD(1) [OF pool_okD(1) [OF ok]]]
    have "g = f \<longleftrightarrow> q = p" if g: "lookup s q = Some g" for g
    proof
      assume "g = f"
      then show "q = p" using id [OF g \<open>pid_range q\<close>] id [OF f(1) p] by simp
    next
      assume "q = p"
      then show "g = f" using g f(1) by simp
    qed
    then show ?thesis using up(3,4) f(1) by (auto simp: pins_def split: option.split)
  qed
  moreover have "page_view ?s q = page_view s q" for q
    using up(3,4,5) by (simp add: page_view_def split: option.split)
  moreover have "unpin_page p dirty s = (True, ?s)" using up(1) by (cases "unpin_page p dirty s") simp
  ultimately show ?thesis using up(3,5) by (intro exI [of _ ?s]) simp
qed

lemma pool_create_law:
  assumes ok: "pool_ok X s" and fd: "0 \<le> fd" "fd < MAX_FD" and p: "p = \<lparr>pg_fd = fd, pg_no = fd2pageno (bp_disk s) fd\<rparr>"
    and v: "pid_ok (bp_disk s) p" and n: "lookup s p = None"
  shows "\<exists>r s'. new_page fd s = (Inr r, s') \<and> fd2pageno (bp_disk s') = (fd2pageno (bp_disk s))(fd := fd2pageno (bp_disk s) fd + 1)
    \<and> (\<forall>q. pid_ok (bp_disk s') q = pid_ok (bp_disk s) q) \<and>
        (case r of None \<Rightarrow> pool_ok X s' \<and> (\<forall>q. lookup s' q = lookup s q \<and> pins s' q = pins s q)
             \<and> (\<forall>q y. pid_range q \<longrightarrow> page_view s q = Some y \<longrightarrow> page_view s' q = Some y)
         | Some (f, p') \<Rightarrow> p' = p \<and> pool_ok (insert p X) s' \<and> lookup s' p = Some f \<and> page_view s' p = Some zero_page
             \<and> (\<forall>q y. pid_range q \<longrightarrow> q \<noteq> p \<longrightarrow> page_view s q = Some y \<longrightarrow> page_view s' q = Some y)
             \<and> (\<forall>q. pid_range q \<longrightarrow> pins s' q = (if q = p then 1 else pins s q))
             \<and> (\<forall>q. pid_range q \<longrightarrow> 0 < pins s q \<longrightarrow> lookup s' q = lookup s q)
             \<and> (\<forall>q. pid_range q \<longrightarrow> q \<noteq> p \<longrightarrow> lookup s' q \<noteq> None \<longrightarrow> lookup s q \<noteq> None))"
proof -
  obtain r s' where s': "new_page fd s = (Inr r, s')"
      "fd2pageno (bp_disk s') = (fd2pageno (bp_disk s))(fd := fd2pageno (bp_disk s) fd + 1)"
      "\<forall>q. pid_ok (bp_disk s') q = pid_ok (bp_disk s) q"
    and r: "case r of None \<Rightarrow> pool_ok X s' \<and> view_le s s' \<and> (\<forall>q. lookup s' q = lookup s q \<and> pins s' q = pins s q)
       | Some (f, p') \<Rightarrow> p' = p \<and> pool_ok (insert p X) s' \<and> lookup s' p = Some f \<and> pin_count (pages s' f) = 1
           \<and> page_view s' p = Some zero_page
           \<and> (\<forall>q x. pid_range q \<longrightarrow> q \<noteq> p \<longrightarrow> page_view s q = Some x \<longrightarrow> page_view s' q = Some x)
           \<and> (\<forall>q g. pid_range q \<longrightarrow> lookup s q = Some g \<longrightarrow> 0 < pin_count (pages s g) \<longrightarrow>
                lookup s' q = Some g \<and> pin_count (pages s' g) = pin_count (pages s g))
           \<and> from_table {p} s s' \<and> (\<forall>q. pid_range q \<longrightarrow> pins s' q = (if q = p then 1 else pins s q))"
    using new_page_ok [OF ok fd p v n] by blast
  show ?thesis
  proof (cases r)
    case None
    then show ?thesis using s' r by (intro exI [of _ r] exI [of _ s']) (simp add: view_le_def)
  next
    case (Some a)
    obtain f p' where a: "a = (f, p')" by (cases a)
    have ft: "from_table {p} s s'" and
      pn: "\<forall>q g. pid_range q \<longrightarrow> lookup s q = Some g \<longrightarrow> 0 < pin_count (pages s g) \<longrightarrow> lookup s' q = Some g"
      using r Some a by simp_all
    have "lookup s' q = lookup s q" if "pid_range q" "0 < pins s q" for q
      using pn that unfolding pinned_lookup by auto
    moreover have "\<forall>q. pid_range q \<longrightarrow> q \<noteq> p \<longrightarrow> lookup s' q \<noteq> None \<longrightarrow> lookup s q \<noteq> None"
      by (rule from_table_resident [OF ft])
    ultimately show ?thesis using s' r Some a by (intro exI [of _ r] exI [of _ s']) simp
  qed
qed

interpretation pool: page_store fetch_page new_page set_data unpin_page "\<lambda>s f. pg_data (pages s f)" lookup pins page_view pool_ok
  pid_range "\<lambda>s. pid_ok (bp_disk s)" "\<lambda>fd n. \<lparr>pg_fd = fd, pg_no = n\<rparr>" "\<lambda>s. fd2pageno (bp_disk s)"
proof (unfold_locales, goal_cases)
  case (1 s p)
  then show ?case by (simp add: pid_ok_def)
next
  case (2 X s p)
  then show ?case by (rule pins_nonneg)
next
  case (3 s p)
  then show ?case unfolding pinned_lookup by blast
next
  case (4 s p f)
  then show ?case by (simp add: page_view_def)
next
  case (5 X s p x)
  then show ?case by (rule page_view_length)
next
  case (6 X s p x)
  then show ?case by (rule pool_fetch_law)
next
  case (7 X s p f bs)
  then show ?case by (rule pool_store_law)
next
  case (8 X s p dirty)
  then show ?case by (rule pool_release_law)
next
  case (9 X s fd p)
  then show ?case by (rule pool_create_law)
qed

section \<open>Runs of the pool\<close>

text \<open>
  The states the pool reaches from an empty one by calls of its clients and of the page cleaner, with the
  map \<open>A\<close> of what the clients stored and the set \<open>X\<close> of pages changed and not yet marked dirty. The rules'
  premises are the discipline of the callers: they fetch pages of open files, write only to pages they hold, pass
  \<open>True\<close> to \<^verbatim>\<open>unpin_page\<close> when they have changed the page, and never allocate a page that is in the pool. \<open>log\<close> is
  another part of the system appending log records, \<open>flushed\<close> the log worker.
\<close>

inductive pool_reach :: "nat \<Rightarrow> disk \<Rightarrow> bpm \<Rightarrow> PageId set \<Rightarrow> (PageId \<rightharpoonup> bytes) \<Rightarrow> bool" for n d where
  start: "disk_inv d \<Longrightarrow> pool_reach n d (bpm_new n d) {} (\<lambda>p. disk_page d (pg_fd p) (pg_no p))"
| fetch: "pool_reach n d s X A \<Longrightarrow> pid_ok (bp_disk s) p \<Longrightarrow> A p \<noteq> None \<Longrightarrow> fetch_page p s = Some (r, s') \<Longrightarrow> pool_reach n d s' X A"
| store: "pool_reach n d s X A \<Longrightarrow> lookup s p = Some f \<Longrightarrow> pid_range p \<Longrightarrow> 0 < pins s p \<Longrightarrow> length bs = PAGE_SIZE \<Longrightarrow>
    pool_reach n d (set_data f bs s) (insert p X) (A(p \<mapsto> bs))"
| release: "pool_reach n d s X A \<Longrightarrow> pid_range p \<Longrightarrow> 0 < pins s p \<Longrightarrow> dirty \<or> p \<notin> X \<or> 1 < pins s p \<Longrightarrow>
    unpin_page p dirty s = (b, s') \<Longrightarrow> pool_reach n d s' (if dirty then X - {p} else X) A"
| alloc: "pool_reach n d s X A \<Longrightarrow> 0 \<le> fd \<Longrightarrow> fd < MAX_FD \<Longrightarrow> p = \<lparr>pg_fd = fd, pg_no = fd2pageno (bp_disk s) fd\<rparr> \<Longrightarrow>
    pid_ok (bp_disk s) p \<Longrightarrow> lookup s p = None \<Longrightarrow> new_page fd s = (Inr (Some (f, p')), s') \<Longrightarrow>
    pool_reach n d s' (insert p' X) (A(p' \<mapsto> zero_page))"
| flush: "pool_reach n d s X A \<Longrightarrow> pid_range p \<Longrightarrow> flush_page p s = (r, s') \<Longrightarrow> pool_reach n d s' X A"
| delete: "pool_reach n d s X A \<Longrightarrow> pid_range p \<Longrightarrow> delete_page p s = (r, s') \<Longrightarrow> pool_reach n d s' X A"
| flush_all: "pool_reach n d s X A \<Longrightarrow> flush_all_pages fd s = (r, s') \<Longrightarrow> pool_reach n d s' X A"
| clean: "pool_reach n d s X A \<Longrightarrow> cleaner_round j s = Inr s' \<Longrightarrow> pool_reach n d s' X A"
| log: "pool_reach n d s X A \<Longrightarrow> wal_lsn s \<le> l \<Longrightarrow> pool_reach n d (s\<lparr>wal_lsn := l\<rparr>) X A"
| flushed: "pool_reach n d s X A \<Longrightarrow> pool_reach n d (flush_log s) X A"

lemma bpm_new_simps [simp]:
  "lookup (bpm_new n d) p = None" "resident (bpm_new n d) f = False" "bp_disk (bpm_new n d) = d"
  by (simp_all add: bpm_new_def lookup_def resident_def)

lemma pool_ok_new:
  assumes "disk_inv d"
  shows "pool_ok {} (bpm_new n d)"
proof -
  have "lru_inv (lru_new n)" "max_size (lru_new n) = n" "frames (lru_new n) = []"
    by (simp_all add: lru_inv_def lru_new_def frames_def)
  then have "repl_ok (bpm_new n d)" by (simp add: repl_ok_def) (simp add: bpm_new_def)
  moreover have "tabs_ok (bpm_new n d)" by (simp add: tabs_ok_def) (simp add: bpm_new_def)
  moreover have "free_ok {} (bpm_new n d)" by (simp add: free_ok_def) (simp add: bpm_new_def)
  moreover have "clean_ok {} (bpm_new n d)" by (simp add: clean_ok_def)
  moreover have "data_ok (bpm_new n d)" using assms by (simp add: data_ok_def) (simp add: bpm_new_def page_new_def)
  moreover have "io_ok {} (bpm_new n d)" by (simp add: io_ok_def bpm_new_def)
  moreover have "quiet (bpm_new n d)" "out_ok (bpm_new n d)" by (simp_all add: quiet_def out_ok_def bpm_new_def)
  ultimately show ?thesis by (simp add: pool_ok_def bpm_inv_def)
qed

text \<open>The pool agrees with the map on every page that the map has.\<close>

definition agrees :: "bpm \<Rightarrow> (PageId \<rightharpoonup> bytes) \<Rightarrow> bool" where
  "agrees s A \<longleftrightarrow> (\<forall>p x. pid_range p \<longrightarrow> A p = Some x \<longrightarrow> page_view s p = Some x)"

lemma agreesD: "agrees s A \<Longrightarrow> pid_range p \<Longrightarrow> A p = Some x \<Longrightarrow> page_view s p = Some x"
  by (simp add: agrees_def)

lemma agrees_le: "agrees s A \<Longrightarrow> view_le s s' \<Longrightarrow> agrees s' A"
  by (simp add: agrees_def view_le_def)

lemma wal_lsn_simps [simp]:
  "lookup (s\<lparr>wal_lsn := l\<rparr>) p = lookup s p" "resident (s\<lparr>wal_lsn := l\<rparr>) f = resident s f"
  by (simp_all add: lookup_def resident_def)

lemma pool_ok_wal_lsn: "pool_ok X s \<Longrightarrow> pool_ok X (s\<lparr>wal_lsn := l\<rparr>)"
  by (simp add: pool_ok_def quiet_def out_ok_def bpm_inv_def tabs_ok_def repl_ok_def free_ok_def data_ok_def clean_ok_def
      io_ok_def entry_ok_def list_all_iff)

lemma page_view_wal [simp]: "page_view (s\<lparr>wal_lsn := l\<rparr>) p = page_view s p"
  by (simp add: page_view_def split: option.split)

lemma page_view_flush_log [simp]: "page_view (flush_log s) p = page_view s p"
  by (simp add: page_view_def split: option.split)

lemma pool_reach_ok:
  "pool_reach n d s X A \<Longrightarrow> pool_ok X s \<and> agrees s A"
proof (induction rule: pool_reach.induct)
  case start
  then show ?case by (simp add: pool_ok_new agrees_def page_view_def)
next
  case (fetch s X A p r s')
  obtain x where "A p = Some x" using fetch.hyps by blast
  then have x: "page_view s p = Some x" using agreesD fetch by (auto simp: pid_ok_def)
  have "\<exists>r' s''. fetch_page p s = Some (Inr r', s'') \<and> pool_ok X s'' \<and> (case r' of Some f \<Rightarrow> fetched p f s s'' | None \<Rightarrow> s'' = s)"
    using fetch_page_ok [OF _ fetch.hyps(2) x] fetch.IH by blast
  then obtain r' where "pool_ok X s'" "case r' of Some f \<Rightarrow> fetched p f s s' | None \<Rightarrow> s' = s"
    using fetch.hyps(4) by auto
  moreover have "view_le s s'" using calculation(2) by (auto simp: fetched_def split: option.splits)
  ultimately show ?case using agrees_le fetch.IH by blast
next
  case (store s X A p f bs)
  then show ?case using pool_store_law [of X s p f bs] by (simp add: agrees_def)
next
  case (release s X A p dirty b s')
  then show ?case using pool_release_law [of X s p dirty] by (auto simp: agrees_def)
next
  case (alloc s X A fd p f p' s')
  then show ?case using pool_create_law [of X s fd p] by (auto simp: agrees_def)
next
  case (flush s X A p r s')
  then show ?case using flush_page_ok [of X s p] agrees_le by fastforce
next
  case (delete s X A p r s')
  then show ?case using delete_page_ok [of X s p] agrees_le by fastforce
next
  case (flush_all s X A fd r s')
  then show ?case using flush_all_pages_ok [of X s fd] agrees_le by fastforce
next
  case (clean s X A j s')
  then show ?case using cleaner_round_ok [of X s j] agrees_le by fastforce
next
  case (log s X A l)
  then show ?case by (simp add: pool_ok_wal_lsn agrees_def)
next
  case (flushed s X A)
  then show ?case by (simp add: agrees_def)
qed

text \<open>When no frame is reserved, no shard has a free frame and every resident page is pinned.\<close>

lemma reserve_scan_none:
  assumes "reserve_scan is s = None" and "i \<in> set is"
  shows "free_frames (shards s i) = [] \<and> LRUlist (sh_repl (shards s i)) = []"
  using assms
proof (induction "is" s rule: reserve_scan.induct)
  case (2 j js s)
  have e: "free_frames (shards s j) = []" "LRUlist (sh_repl (shards s j)) = []"
    using "2.prems"(1) by (auto simp: victim_def Let_def split: list.splits if_splits)
  have v: "victim (sh_repl (shards s j)) = (None, sh_repl (shards s j))" using e by (simp add: victim_def)
  have u: "upd_shard j (sh_repl_update (\<lambda>_. sh_repl (shards s j))) s = s" by (simp add: upd_shard_def)
  have n: "reserve_scan js s = None" using "2.prems"(1) e v u by simp
  have "free_frames (shards s i) = [] \<and> LRUlist (sh_repl (shards s i)) = []" if "i \<in> set js"
    using "2.IH" [OF e(1) v [symmetric]] u n that by simp
  then show ?case using e "2.prems"(2) by auto
qed simp

lemma fetch_none_full:
  assumes ok: "pool_ok X s" and f: "fetch_page p s = Some (Inr None, s')" and i: "i < BPM_NSHARDS"
  shows "free_frames (shards s i) = []" "resident s g \<Longrightarrow> 0 < pin_count (pages s g)"
proof -
  let ?s = "upd_shard (shard_of_page p) (inflight_insert (page_key p)) s"
  have rv: "reserve_victim (shard_of_page p) ?s = None"
    using f by (auto simp: fetch_page_def fetch_start_def Let_def fetch_finish_def flush_old_def
        split: option.splits if_splits prod.splits)
  have "j \<in> set (map (\<lambda>k. (shard_of_page p + k) mod BPM_NSHARDS) [0..<BPM_NSHARDS])" if "j < BPM_NSHARDS" for j
  proof -
    let ?k = "(j + BPM_NSHARDS - shard_of_page p) mod BPM_NSHARDS"
    have lt: "shard_of_page p < BPM_NSHARDS" by simp
    have "(shard_of_page p + ?k) mod BPM_NSHARDS = (shard_of_page p + (j + BPM_NSHARDS - shard_of_page p)) mod BPM_NSHARDS"
      by (simp add: mod_add_right_eq)
    also have "shard_of_page p + (j + BPM_NSHARDS - shard_of_page p) = j + BPM_NSHARDS" using lt by linarith
    finally have "j = (shard_of_page p + ?k) mod BPM_NSHARDS" using that by simp
    moreover have "?k \<in> set [0..<BPM_NSHARDS]" by (simp add: BPM_NSHARDS_def)
    ultimately show ?thesis by (auto simp only: set_map)
  qed
  then have n: "free_frames (shards ?s j) = [] \<and> LRUlist (sh_repl (shards ?s j)) = []" if "j < BPM_NSHARDS" for j
    using reserve_scan_none [OF rv [unfolded reserve_victim_def]] that by blast
  have e: "free_frames (shards s j) = []" "frames (sh_repl (shards s j)) = []" if "j < BPM_NSHARDS" for j
    using n [OF that] by (auto simp: inflight_insert_def frames_def split: if_splits)
  show "free_frames (shards s i) = []" using e i by simp
  show "0 < pin_count (pages s g)" if "resident s g"
  proof -
    have inv: "bpm_inv X {} s" by (rule pool_okD(1) [OF ok])
    have "0 \<le> pin_count (pages s g)" using lookup_Some(4) [OF bpm_invD(1) [OF inv]] that by (auto simp: resident_def)
    moreover have "pin_count (pages s g) \<noteq> 0"
    proof
      assume z: "pin_count (pages s g) = 0"
      let ?i = "shard_of_page (pg_id (pages s g))"
      have "set (frames (sh_repl (shards s ?i))) =
          {f. resident s f \<and> shard_of_page (pg_id (pages s f)) = ?i \<and> pin_count (pages s f) = 0}"
        using bpm_invD(2) [OF inv] shard_of_page_less by (simp add: repl_ok_def del: shard_of_page_less)
      then have "g \<in> set (frames (sh_repl (shards s ?i)))" using that z by simp
      then show False using e(2) by simp
    qed
    ultimately show ?thesis by simp
  qed
qed

section \<open>Example states\<close>

lemma shard_of_page_mod: "shard_of_page p = nat (pg_no p mod 64)"
proof -
  have "unat (page_id_hash p) mod 64 = unat (take_bit 6 (page_id_hash p))"
    by (subst unsigned_take_bit_eq) (simp add: take_bit_eq_mod)
  moreover have "take_bit 6 (page_id_hash p) = take_bit 6 (word_of_int (pg_no p))"
    by (rule bit_word_eqI) (auto simp: page_id_hash_def bit_simps)
  moreover have "unat (take_bit 6 (word_of_int (pg_no p) :: 64 word)) = nat (pg_no p mod 64)"
  proof -
    have "nat (x mod 18446744073709551616) mod 64 = nat (x mod 64)" for x :: int
      using nat_mod_distrib [of "x mod 18446744073709551616" 64] by (simp add: mod_mod_cancel)
    then show ?thesis
      by (subst unsigned_take_bit_eq) (simp add: unsigned_of_int take_bit_eq_mod)
  qed
  ultimately show ?thesis by (simp add: shard_of_page_def BPM_NSHARDS_def)
qed

definition page_of :: "byte \<Rightarrow> bytes" where
  "page_of b = replicate PAGE_SIZE b"

lemma length_page_of [simp]: "length (page_of b) = PAGE_SIZE"
  by (simp add: page_of_def)

definition race_disk :: disk where
  "race_disk = foldl disk_call_step (disk_new [(''t'', page_of 0 @ page_of 0), (''u'', page_of 0)]) [Open ''t'', Open ''u'']"

definition race_pool :: bpm where
  "race_pool =
     (let p = \<lparr>pg_fd = 3, pg_no = 0\<rparr>; s = snd (the (fetch_page p (bpm_new 2 race_disk)))
      in snd (unpin_page p True (set_data 0 (page_of 1) s)))"

lemma race_keys:
  "page_key \<lparr>pg_fd = 3, pg_no = 0\<rparr> = 0x300000000" "page_key \<lparr>pg_fd = 3, pg_no = 1\<rparr> = 0x300000001"
  "page_key \<lparr>pg_fd = 4, pg_no = 0\<rparr> = 0x400000000"
  by (simp_all add: page_key_def)

lemma reserve_order:
  "reserve_victim 0 s = reserve_scan (0 # 1 # [2..<64]) s"
proof -
  have "[0..<64] = 0 # 1 # [2..<64::nat]" by (simp add: upt_conv_Cons del: upt_rec_numeral)
  moreover have "map (\<lambda>k. (0 + k) mod BPM_NSHARDS) [0..<BPM_NSHARDS] = [0..<BPM_NSHARDS]"
    by (rule map_idI) simp
  ultimately show ?thesis by (simp only: reserve_victim_def BPM_NSHARDS_def)
qed

lemma race_files:
  "disk_page race_disk 3 0 = Some (page_of 0)" "disk_page race_disk 3 1 = Some (page_of 0)"
  "disk_page race_disk 4 0 = Some (page_of 0)" "file_of race_disk 3 \<noteq> None"
proof -
  have f: "file_of race_disk 3 = Some (page_of 0 @ page_of 0)" "file_of race_disk 4 = Some (page_of 0)"
    by (simp_all add: race_disk_def disk_new_def open_file_def is_file_def file_of_def lowest_free_fd_def Let_def upt_conv_Cons)
  show "disk_page race_disk 3 0 = Some (page_of 0)" "disk_page race_disk 3 1 = Some (page_of 0)"
    "disk_page race_disk 4 0 = Some (page_of 0)" "file_of race_disk 3 \<noteq> None"
    using f by (simp_all add: disk_page_def rd_def)
qed

lemma race_reads:
  "length buf = PAGE_SIZE \<Longrightarrow> read_page race_disk 3 0 buf PAGE_SIZE = (None, page_of 0)"
  "length buf = PAGE_SIZE \<Longrightarrow> read_page race_disk 3 1 buf PAGE_SIZE = (None, page_of 0)"
  "length buf = PAGE_SIZE \<Longrightarrow> read_page race_disk 4 0 buf PAGE_SIZE = (None, page_of 0)"
  using race_files by (auto intro: read_page_ok)

lemma up2: "[0..<2] = [0, 1::nat]"
  by (simp add: upt_conv_Cons)

lemmas race_simps = fetch_page_def fetch_start_def lookup_def shard_of_page_mod race_keys bpm_new_def Let_def
  reserve_order fetch_finish_def flush_old_def race_reads page_new_def fetch_publish_def
  upd_page_def upd_shard_def set_io_def BPM_NSHARDS_def inflight_insert_def inflight_erase_def tab_put_def
  tab_erase_def unpin_page_def set_data_def lru_new_def unpin_def pin_def victim_def INVALID_PAGE_ID_def up2

lemma race_pool_eq:
  "race_pool = \<lparr>pool_size = 2,
     pages = (\<lambda>_. page_new)
       (0 := \<lparr>pg_id = \<lparr>pg_fd = 3, pg_no = 0\<rparr>, pg_data = page_of 1, is_dirty = True, pin_count = 0\<rparr>),
     shards = (shards (bpm_new 2 race_disk))
       (0 := \<lparr>page_table = [(0x300000000, 0)], page_io_inflight = [],
              sh_repl = \<lparr>LRUlist = [(0, 0)], LRUhash = [0 \<mapsto> 0], max_size = 2, next_node = 1\<rparr>, free_frames = []\<rparr>),
     frame_io_inflight = (\<lambda>_. False), bp_disk = race_disk, wal_lsn = -1, wal_persist = -1, page_outs = []\<rparr>"
  unfolding race_pool_def by (simp add: race_simps fun_upd_idem del: upt_rec_numeral)


section \<open>Properties\<close>

text \<open>
  C2: the pool refines a map from pages to bytes. After any sequence of fetches, writes,
  releases, allocations, flushes, deletions and rounds of the cleaner that keeps the callers' discipline, a fetch of a page
  of an open file returns: either a frame that holds exactly the bytes last stored for the page (or on disk at the
  start), or, with the pool unchanged, no frame, and then no shard has a free frame and every resident page is pinned.
\<close>

theorem buffer_pool_refines:
  assumes "pool_reach n d s X A" and "pid_ok (bp_disk s) p" and "A p = Some x"
  shows "\<exists>r s'. fetch_page p s = Some (Inr r, s') \<and>
    (case r of
       Some f \<Rightarrow> pg_data (pages s' f) = x
     | None \<Rightarrow> s' = s \<and> (\<forall>i < BPM_NSHARDS. free_frames (shards s i) = [])
         \<and> (\<forall>q g. lookup s q = Some g \<longrightarrow> 0 < pin_count (pages s g)))"
proof -
  have ok: "pool_ok X s" and ag: "agrees s A" using pool_reach_ok [OF assms(1)] by simp_all
  have v: "page_view s p = Some x" using agreesD [OF ag _ assms(3)] assms(2) by (simp add: pid_ok_def)
  obtain r s' where s': "fetch_page p s = Some (Inr r, s')" "case r of Some f \<Rightarrow> fetched p f s s' | None \<Rightarrow> s' = s"
    using fetch_page_ok [OF ok assms(2) v] by blast
  show ?thesis
  proof (cases r)
    case None
    then have n: "fetch_page p s = Some (Inr None, s')" using s'(1) by simp
    have "0 < pin_count (pages s g)" if "lookup s q = Some g" for q g
      using fetch_none_full(2) [OF ok n, of 0] lookup_Some(5) [OF bpm_invD(1) [OF pool_okD(1) [OF ok]] that]
      by (simp add: BPM_NSHARDS_def)
    then show ?thesis using s' None fetch_none_full(1) [OF ok n] by (intro exI [of _ r] exI [of _ s']) simp
  next
    case (Some f)
    then have ft: "fetched p f s s'" using s'(2) by simp
    have "pg_data (pages s' f) = x" using fetchedD(1,2) [OF ft] v by (simp add: page_view_def)
    then show ?thesis using s'(1) Some by (intro exI [of _ r] exI [of _ s']) simp
  qed
qed

lemma race_reach:
  "pool_reach 2 race_disk (bpm_new 2 race_disk) {} (\<lambda>p. disk_page race_disk (pg_fd p) (pg_no p))"
  "pid_ok (bp_disk (bpm_new 2 race_disk)) \<lparr>pg_fd = 3, pg_no = 0\<rparr>"
proof -
  have "disk_inv race_disk"
    unfolding race_disk_def foldl.simps by (intro disk_call_step_inv disk_inv_new) simp
  then show "pool_reach 2 race_disk (bpm_new 2 race_disk) {} (\<lambda>p. disk_page race_disk (pg_fd p) (pg_no p))"
    by (rule pool_reach.start)
  show "pid_ok (bp_disk (bpm_new 2 race_disk)) \<lparr>pg_fd = 3, pg_no = 0\<rparr>"
    using race_files(4) by (simp add: pid_ok_def pid_range_def in_s_def)
qed

theorem buffer_pool_refines_witness:
  "\<exists>r s'. fetch_page \<lparr>pg_fd = 3, pg_no = 0\<rparr> (bpm_new 2 race_disk) = Some (Inr r, s')"
proof -
  have "disk_page race_disk (pg_fd \<lparr>pg_fd = 3, pg_no = 0\<rparr>) (pg_no \<lparr>pg_fd = 3, pg_no = 0\<rparr>) = Some (page_of 0)"
    using race_files(1) by simp
  then show ?thesis using buffer_pool_refines [OF race_reach] by blast
qed



text \<open>
  C30: \<open>flush_all_pages\<close> makes a file durable: when it returns, which it does without an error, every page
  of the file has on disk the bytes its users last stored.
\<close>

theorem flush_all_durable:
  assumes "pool_reach n d s X A" and "pid_range p" and "A p = Some x"
  shows "\<exists>s'. flush_all_pages (pg_fd p) s = (None, s') \<and> disk_page (bp_disk s') (pg_fd p) (pg_no p) = Some x"
proof -
  have ok: "pool_ok X s" and ag: "agrees s A" using pool_reach_ok [OF assms(1)] by simp_all
  have v: "page_view s p = Some x" by (rule agreesD [OF ag assms(2,3)])
  obtain s' where s': "flush_all_pages (pg_fd p) s = (None, s')" "view_le s s'"
      "\<forall>q. pid_range q \<longrightarrow> pg_fd q = pg_fd p \<longrightarrow> lookup s q \<noteq> None \<longrightarrow> on_disk s' q" "\<forall>q. lookup s' q = lookup s q"
    using flush_all_pages_ok [OF ok, of "pg_fd p"] by blast
  have v': "page_view s' p = Some x" by (rule view_leD [OF s'(2) assms(2) v])
  have "disk_page (bp_disk s') (pg_fd p) (pg_no p) = Some x"
  proof (cases "lookup s p")
    case None
    then show ?thesis using v' s'(4) by (simp add: page_view_def)
  next
    case (Some f)
    then show ?thesis using s'(3) assms(2) v' by (simp add: on_disk_def)
  qed
  then show ?thesis using s'(1) by blast
qed

theorem flush_all_durable_witness:
  "\<exists>s'. flush_all_pages 3 (bpm_new 2 race_disk) = (None, s') \<and> disk_page (bp_disk s') 3 0 = Some (page_of 0)"
  using flush_all_durable [OF race_reach(1), of "\<lparr>pg_fd = 3, pg_no = 0\<rparr>" "page_of 0"] race_files(1)
  by (simp add: pid_range_def in_s_def)



end
