(* ===== verification/Record_File.thy ===== *)
theory Record_File
  imports Pool_Client Bitmap
begin

text \<open>
  Table data files, \<^verbatim>\<open>src/src/record/\<close>: file and page headers (\<^verbatim>\<open>rm_defs.h\<close>), the file manager
  (\<^verbatim>\<open>rm_manager.h\<close>), the file handle with its cached insert page, the slot reservations and the list of pages with
  free space (\<^verbatim>\<open>rm_file_handle.{h,cpp}\<close>) and the scan (\<^verbatim>\<open>rm_scan.cpp\<close>). A page holds the log position (4 bytes), the
  page header (8 bytes), the slot bitmap and the slots; the definitions read and write these bytes of the
  buffer pool's frames. An operation takes the handle and the pool and returns an error or a
  value with both updated; \<open>None\<close> is a wait in the pool that does not end. The handle's latch makes each operation atomic.

  The three pointers \<^verbatim>\<open>cached_insert_hdr_\<close>, \<^verbatim>\<open>cached_insert_bitmap_\<close> and \<^verbatim>\<open>cached_insert_slots_\<close> point into one frame and
  are set and cleared together: they are the field \<open>cached_insert_ptrs\<close>.
\<close>

section \<open>Headers and page layout\<close>

record RmFileHdr =
  record_size :: int
  num_pages :: int
  num_records_per_page :: int
  first_free_page_no :: int
  bitmap_size :: int

record RmFileHandle =
  rm_fd :: int
  file_hdr :: RmFileHdr
  cached_insert_page_no :: int
  cached_insert_page :: "frame_id_t option"
  cached_insert_ptrs :: "frame_id_t option"
  reserved_inserts :: "64 word set"

definition RM_NO_PAGE :: int where
  "RM_NO_PAGE = -1"

definition RM_FILE_HDR_PAGE :: int where
  "RM_FILE_HDR_PAGE = 0"

definition RM_FIRST_RECORD_PAGE :: int where
  "RM_FIRST_RECORD_PAGE = 1"

definition RM_MAX_RECORD_SIZE :: int where
  "RM_MAX_RECORD_SIZE = 512"

definition OFFSET_PAGE_HDR :: nat where
  "OFFSET_PAGE_HDR = 4"

text \<open>\<^verbatim>\<open>struct RmPageHdr { int next_free_page_no; int num_records; }\<close> in the bytes of a page.\<close>

definition next_free_page_no :: "bytes \<Rightarrow> int" where
  "next_free_page_no d = le_dec_s (rd OFFSET_PAGE_HDR 4 d)"

definition set_next_free_page_no :: "int \<Rightarrow> bytes \<Rightarrow> bytes" where
  "set_next_free_page_no n d = wr OFFSET_PAGE_HDR (le_enc 4 n) d"

definition num_records :: "bytes \<Rightarrow> int" where
  "num_records d = le_dec_s (rd (OFFSET_PAGE_HDR + 4) 4 d)"

definition set_num_records :: "int \<Rightarrow> bytes \<Rightarrow> bytes" where
  "set_num_records n d = wr (OFFSET_PAGE_HDR + 4) (le_enc 4 n) d"

definition bitmap_off :: nat where
  "bitmap_off = OFFSET_PAGE_HDR + 8"

definition bitmap_of :: "RmFileHdr \<Rightarrow> bytes \<Rightarrow> bytes" where
  "bitmap_of h d = rd bitmap_off (nat (bitmap_size h)) d"

definition set_bitmap :: "bytes \<Rightarrow> bytes \<Rightarrow> bytes" where
  "set_bitmap bm d = wr bitmap_off bm d"

definition get_slot :: "RmFileHdr \<Rightarrow> int \<Rightarrow> nat" where
  "get_slot h k = bitmap_off + nat (bitmap_size h) + nat (k * record_size h)"

definition slot_data :: "RmFileHdr \<Rightarrow> int \<Rightarrow> bytes \<Rightarrow> bytes" where
  "slot_data h k d = rd (get_slot h k) (nat (record_size h)) d"

definition set_slot :: "RmFileHdr \<Rightarrow> int \<Rightarrow> bytes \<Rightarrow> bytes \<Rightarrow> bytes" where
  "set_slot h k buf d = wr (get_slot h k) (take (nat (record_size h)) buf) d"

definition slot_used :: "RmFileHdr \<Rightarrow> bytes \<Rightarrow> int \<Rightarrow> bool" where
  "slot_used h d k \<longleftrightarrow> is_set (bitmap_of h d) (nat k)"

text \<open>What every insertion does to a page: the slot, its bit, the count.\<close>

definition put_record :: "RmFileHdr \<Rightarrow> int \<Rightarrow> bytes \<Rightarrow> bytes \<Rightarrow> bytes" where
  "put_record h k buf d =
     (let d1 = set_slot h k buf d; d2 = set_bitmap (bm_set (bitmap_of h d1) (nat k)) d1
      in set_num_records (num_records d2 + 1) d2)"

section \<open>Operations on handle and pool\<close>

type_synonym 'a rm = "RmFileHandle \<times> bpm \<Rightarrow> ((db_error + 'a) \<times> (RmFileHandle \<times> bpm)) option"

definition rm_return :: "'a \<Rightarrow> 'a rm" where
  "rm_return x st = Some (Inr x, st)"

definition rm_throw :: "db_error \<Rightarrow> 'a rm" where
  "rm_throw e st = Some (Inl e, st)"

definition rm_bind :: "'a rm \<Rightarrow> ('a \<Rightarrow> 'b rm) \<Rightarrow> 'b rm" where
  "rm_bind m k st =
     (case m st of
        None \<Rightarrow> None
      | Some (Inl e, st') \<Rightarrow> Some (Inl e, st')
      | Some (Inr x, st') \<Rightarrow> k x st')"

definition rm_get :: "(RmFileHandle \<Rightarrow> 'a) \<Rightarrow> 'a rm" where
  "rm_get g = (\<lambda>(f, s). Some (Inr (g f), (f, s)))"

definition rm_upd :: "(RmFileHandle \<Rightarrow> RmFileHandle) \<Rightarrow> unit rm" where
  "rm_upd g = (\<lambda>(f, s). Some (Inr (), (g f, s)))"

definition rm_data :: "frame_id_t \<Rightarrow> bytes rm" where
  "rm_data fr = (\<lambda>(f, s). Some (Inr (pg_data (pages s fr)), (f, s)))"

definition rm_store :: "frame_id_t \<Rightarrow> bytes \<Rightarrow> unit rm" where
  "rm_store fr bs = (\<lambda>(f, s). Some (Inr (), (f, set_data fr bs s)))"

definition rm_page_id :: "frame_id_t \<Rightarrow> PageId rm" where
  "rm_page_id fr = (\<lambda>(f, s). Some (Inr (pg_id (pages s fr)), (f, s)))"

definition rm_unpin :: "PageId \<Rightarrow> bool \<Rightarrow> unit rm" where
  "rm_unpin p dirty = (\<lambda>(f, s). Some (Inr (), (f, snd (unpin_page p dirty s))))"

definition rm_pid :: "RmFileHandle \<Rightarrow> int \<Rightarrow> PageId" where
  "rm_pid f n = \<lparr>pg_fd = rm_fd f, pg_no = n\<rparr>"

definition rid_key :: "Rid \<Rightarrow> 64 word" where
  "rid_key rid = push_bit 32 (word_of_int (page_no rid)) OR ucast (word_of_int (slot_no rid) :: 32 word)"

definition set_hdr :: "(RmFileHdr \<Rightarrow> RmFileHdr) \<Rightarrow> RmFileHandle \<Rightarrow> RmFileHandle" where
  "set_hdr g f = f\<lparr>file_hdr := g (file_hdr f)\<rparr>"

definition drop_cache :: "RmFileHandle \<Rightarrow> RmFileHandle" where
  "drop_cache f = f\<lparr>cached_insert_page := None, cached_insert_page_no := -1, cached_insert_ptrs := None\<rparr>"

definition fill_cache :: "frame_id_t \<Rightarrow> int \<Rightarrow> RmFileHandle \<Rightarrow> RmFileHandle" where
  "fill_cache fr n f = f\<lparr>cached_insert_page := Some fr, cached_insert_page_no := n, cached_insert_ptrs := Some fr\<rparr>"

subsection \<open>Pages\<close>

definition fetch_page_handle :: "int \<Rightarrow> frame_id_t rm" where
  "fetch_page_handle n = (\<lambda>(f, s).
     if num_pages (file_hdr f) \<le> n \<or> n < 0 then Some (Inl (PageNotExistError '''' n), (f, s))
     else case fetch_page (rm_pid f n) s of
       None \<Rightarrow> None
     | Some (Inl e, s') \<Rightarrow> Some (Inl e, (f, s'))
     | Some (Inr None, s') \<Rightarrow> Some (Inl (PageNotExistError '''' n), (f, s'))
     | Some (Inr (Some fr), s') \<Rightarrow> Some (Inr fr, (f, s')))"

definition create_new_page_handle :: "frame_id_t rm" where
  "create_new_page_handle = (\<lambda>(f, s).
     case new_page (rm_fd f) s of
       (Inl e, s') \<Rightarrow> Some (Inl e, (f, s'))
     | (Inr None, s') \<Rightarrow> Some (Inl (InternalError ''RmFileHandle::create_new_page_handle: new_page failed''), (f, s'))
     | (Inr (Some (fr, pid)), s') \<Rightarrow>
         let d = pg_data (pages s' fr); h = file_hdr f;
             d' = set_bitmap (bm_init (nat (bitmap_size h))) (set_next_free_page_no RM_NO_PAGE (set_num_records 0 d))
         in Some (Inr fr, (set_hdr (\<lambda>h. h\<lparr>num_pages := num_pages h + 1\<rparr>) f, set_data fr d' s')))"

definition create_page_handle :: "frame_id_t rm" where
  "create_page_handle =
     rm_bind (rm_get (\<lambda>f. first_free_page_no (file_hdr f))) (\<lambda>n.
       if n = RM_NO_PAGE
       then rm_bind create_new_page_handle (\<lambda>fr. rm_bind (rm_page_id fr) (\<lambda>pid.
              rm_bind (rm_upd (set_hdr (\<lambda>h. h\<lparr>first_free_page_no := pg_no pid\<rparr>))) (\<lambda>_. rm_return fr)))
       else fetch_page_handle n)"

text \<open>\<open>release_page_handle\<close> on the bytes of the page and on the handle.\<close>

definition release_page_handle :: "frame_id_t \<Rightarrow> unit rm" where
  "release_page_handle fr =
     rm_bind (rm_get (\<lambda>f. first_free_page_no (file_hdr f))) (\<lambda>n.
     rm_bind (rm_data fr) (\<lambda>d.
     rm_bind (rm_store fr (set_next_free_page_no n d)) (\<lambda>_.
     rm_bind (rm_page_id fr) (\<lambda>pid.
     rm_upd (set_hdr (\<lambda>h. h\<lparr>first_free_page_no := pg_no pid\<rparr>))))))"

subsection \<open>Records\<close>

definition is_record :: "Rid \<Rightarrow> bool rm" where
  "is_record rid =
     rm_bind (rm_get (\<lambda>f. f)) (\<lambda>f.
     rm_bind (fetch_page_handle (page_no rid)) (\<lambda>fr.
     rm_bind (rm_data fr) (\<lambda>d.
     rm_bind (rm_unpin (rm_pid f (page_no rid)) False) (\<lambda>_.
     rm_return (slot_used (file_hdr f) d (slot_no rid))))))"

definition get_record :: "Rid \<Rightarrow> bytes rm" where
  "get_record rid =
     rm_bind (rm_get (\<lambda>f. f)) (\<lambda>f.
     rm_bind (fetch_page_handle (page_no rid)) (\<lambda>fr.
     rm_bind (rm_data fr) (\<lambda>d.
       if \<not> slot_used (file_hdr f) d (slot_no rid)
       then rm_bind (rm_unpin (rm_pid f (page_no rid)) False) (\<lambda>_.
              rm_throw (RecordNotFoundError (page_no rid) (slot_no rid)))
       else rm_bind (rm_unpin (rm_pid f (page_no rid)) False) (\<lambda>_.
              rm_return (slot_data (file_hdr f) (slot_no rid) d)))))"

text \<open>The loop of \<open>find_free_slot_on_cached_page\<close>, entered with the last candidate \<open>k\<close>.\<close>

function free_slot_loop :: "RmFileHdr \<Rightarrow> 64 word set \<Rightarrow> int \<Rightarrow> bytes \<Rightarrow> int \<Rightarrow> int" where
  "free_slot_loop h res p bm k =
     (let j = int (next_bit False bm (nat (num_records_per_page h)) k)
      in if num_records_per_page h \<le> j then -1
         else if rid_key \<lparr>page_no = p, slot_no = j\<rparr> \<notin> res then j
         else free_slot_loop h res p bm j)"
  by pat_completeness auto

termination
proof (relation "measure (\<lambda>(h, res, p, bm, k). nat (num_records_per_page h - k))", goal_cases)
  case (2 h res p bm k j)
  let ?r = "next_bit False bm (nat (num_records_per_page h)) k"
  have "?r < nat (num_records_per_page h)" using 2 by linarith
  from next_bit_gt [OF this] have "k < int ?r" .
  then show ?case using 2 by auto
qed simp

declare free_slot_loop.simps [simp del]

definition find_free_slot_on_cached_page :: "RmFileHandle \<Rightarrow> bpm \<Rightarrow> int" where
  "find_free_slot_on_cached_page f s =
     (case cached_insert_ptrs f of
        None \<Rightarrow> -1
      | Some fr \<Rightarrow>
          if cached_insert_page_no f < 0 then -1
          else free_slot_loop (file_hdr f) (reserved_inserts f) (cached_insert_page_no f)
                 (bitmap_of (file_hdr f) (pg_data (pages s fr))) (-1))"

definition rm_find_free :: "int rm" where
  "rm_find_free = (\<lambda>(f, s). Some (Inr (find_free_slot_on_cached_page f s), (f, s)))"

text \<open>
  \<open>ensure_insert_page_cached\<close>: release a cached page that has no free slot, try the head of the free list, else
  take a new page and put it at the head of the list. A page from the list that has no unreserved slot is
  released with its pointers left behind.
\<close>

definition release_cached :: "unit rm" where
  "release_cached =
     rm_bind (rm_get cached_insert_page) (\<lambda>c.
       case c of
         None \<Rightarrow> rm_return ()
       | Some fr \<Rightarrow> rm_bind (rm_page_id fr) (\<lambda>pid. rm_bind (rm_unpin pid True) (\<lambda>_. rm_upd drop_cache)))"

definition cache_new_page :: "unit rm" where
  "cache_new_page =
     rm_bind create_new_page_handle (\<lambda>fr.
     rm_bind (rm_page_id fr) (\<lambda>pid.
     rm_bind (rm_upd (fill_cache fr (pg_no pid))) (\<lambda>_.
     rm_bind (rm_get (\<lambda>f. first_free_page_no (file_hdr f))) (\<lambda>n.
     rm_bind (rm_data fr) (\<lambda>d.
     rm_bind (rm_store fr (set_next_free_page_no n d)) (\<lambda>_.
     rm_upd (set_hdr (\<lambda>h. h\<lparr>first_free_page_no := pg_no pid\<rparr>))))))))"

definition ensure_insert_page_cached :: "unit rm" where
  "ensure_insert_page_cached =
     rm_bind rm_find_free (\<lambda>k.
       if 0 \<le> k then rm_return ()
       else
         rm_bind release_cached (\<lambda>_.
         rm_bind (rm_get (\<lambda>f. first_free_page_no (file_hdr f))) (\<lambda>n.
           if n \<noteq> RM_NO_PAGE
           then rm_bind (fetch_page_handle n) (\<lambda>fr.
                rm_bind (rm_page_id fr) (\<lambda>pid.
                rm_bind (rm_upd (fill_cache fr (pg_no pid))) (\<lambda>_.
                rm_bind rm_find_free (\<lambda>k.
                  if 0 \<le> k then rm_return ()
                  else rm_bind (rm_unpin pid True) (\<lambda>_.
                       rm_bind (rm_upd (\<lambda>f. f\<lparr>cached_insert_page := None, cached_insert_page_no := -1\<rparr>)) (\<lambda>_.
                       cache_new_page))))))
           else cache_new_page)))"

text \<open>The end of an insertion into the cached page: a page that became full leaves the list and the cache.\<close>

definition cached_put :: "int \<Rightarrow> bytes \<Rightarrow> unit rm" where
  "cached_put k buf =
     rm_bind (rm_get (\<lambda>f. f)) (\<lambda>f.
       case cached_insert_ptrs f of
         None \<Rightarrow> rm_throw AssertionFailure
       | Some fr \<Rightarrow>
           rm_bind (rm_data fr) (\<lambda>d.
           let d' = put_record (file_hdr f) k buf d
           in rm_bind (rm_store fr d') (\<lambda>_.
              if num_records d' = num_records_per_page (file_hdr f)
              then rm_bind (rm_upd (set_hdr (\<lambda>h. h\<lparr>first_free_page_no := next_free_page_no d'\<rparr>))) (\<lambda>_. release_cached)
              else rm_return ())))"

definition insert_record :: "bytes \<Rightarrow> Rid rm" where
  "insert_record buf =
     rm_bind ensure_insert_page_cached (\<lambda>_.
     rm_bind rm_find_free (\<lambda>k.
       if k < 0 then rm_throw (InternalError ''RmFileHandle::insert_record: no free slot'')
       else rm_bind (rm_get cached_insert_page_no) (\<lambda>n.
            rm_bind (cached_put k buf) (\<lambda>_. rm_return \<lparr>page_no = n, slot_no = k\<rparr>))))"

definition reserve_insert_slot :: "Rid rm" where
  "reserve_insert_slot =
     rm_bind ensure_insert_page_cached (\<lambda>_.
     rm_bind rm_find_free (\<lambda>k.
       if k < 0 then rm_throw (InternalError ''RmFileHandle::reserve_insert_slot: no free slot'')
       else rm_bind (rm_get cached_insert_page_no) (\<lambda>n.
            rm_bind (rm_upd (\<lambda>f. f\<lparr>reserved_inserts := insert (rid_key \<lparr>page_no = n, slot_no = k\<rparr>) (reserved_inserts f)\<rparr>)) (\<lambda>_.
            rm_return \<lparr>page_no = n, slot_no = k\<rparr>))))"

definition insert_record_at :: "Rid \<Rightarrow> bytes \<Rightarrow> unit rm" where
  "insert_record_at rid buf =
     rm_bind (rm_get (\<lambda>f. f)) (\<lambda>f.
     rm_bind (fetch_page_handle (page_no rid)) (\<lambda>fr.
     rm_bind (rm_data fr) (\<lambda>d.
     let d' = put_record (file_hdr f) (slot_no rid) buf d
     in rm_bind (rm_store fr d') (\<lambda>_.
        rm_bind (if num_records d' = num_records_per_page (file_hdr f)
                 then rm_upd (set_hdr (\<lambda>h. h\<lparr>first_free_page_no := next_free_page_no d'\<rparr>)) else rm_return ()) (\<lambda>_.
        rm_unpin (rm_pid f (page_no rid)) True)))))"

definition publish_insert_slot :: "Rid \<Rightarrow> bytes \<Rightarrow> unit rm" where
  "publish_insert_slot rid buf =
     rm_bind (rm_get (\<lambda>f. f)) (\<lambda>f.
       if rid_key rid \<notin> reserved_inserts f
       then rm_throw (InternalError ''RmFileHandle::publish_insert_slot: rid not reserved'')
       else
         rm_bind (rm_upd (\<lambda>f. f\<lparr>reserved_inserts := reserved_inserts f - {rid_key rid}\<rparr>)) (\<lambda>_.
           if cached_insert_page_no f = page_no rid \<and> cached_insert_ptrs f \<noteq> None
           then cached_put (slot_no rid) buf
           else insert_record_at rid buf))"

definition cancel_insert_slot :: "Rid \<Rightarrow> unit rm" where
  "cancel_insert_slot rid = rm_upd (\<lambda>f. f\<lparr>reserved_inserts := reserved_inserts f - {rid_key rid}\<rparr>)"

definition delete_record :: "Rid \<Rightarrow> unit rm" where
  "delete_record rid =
     rm_bind (rm_get (\<lambda>f. f)) (\<lambda>f.
     rm_bind (fetch_page_handle (page_no rid)) (\<lambda>fr.
     rm_bind (rm_data fr) (\<lambda>d.
       if \<not> slot_used (file_hdr f) d (slot_no rid)
       then rm_bind (rm_unpin (rm_pid f (page_no rid)) False) (\<lambda>_.
              rm_throw (RecordNotFoundError (page_no rid) (slot_no rid)))
       else
         let was_full = (num_records d = num_records_per_page (file_hdr f));
             d1 = set_bitmap (bm_reset (bitmap_of (file_hdr f) d) (nat (slot_no rid))) d;
             d2 = set_num_records (num_records d1 - 1) d1
         in rm_bind (rm_store fr d2) (\<lambda>_.
            rm_bind (if was_full then release_page_handle fr else rm_return ()) (\<lambda>_.
            rm_unpin (rm_pid f (page_no rid)) True)))))"

definition update_record :: "Rid \<Rightarrow> bytes \<Rightarrow> unit rm" where
  "update_record rid buf =
     rm_bind (rm_get (\<lambda>f. f)) (\<lambda>f.
     rm_bind (fetch_page_handle (page_no rid)) (\<lambda>fr.
     rm_bind (rm_data fr) (\<lambda>d.
       if \<not> slot_used (file_hdr f) d (slot_no rid)
       then rm_bind (rm_unpin (rm_pid f (page_no rid)) False) (\<lambda>_.
              rm_throw (RecordNotFoundError (page_no rid) (slot_no rid)))
       else rm_bind (rm_store fr (set_slot (file_hdr f) (slot_no rid) buf d)) (\<lambda>_.
              rm_unpin (rm_pid f (page_no rid)) True))))"

section \<open>The scan\<close>

text \<open>\<^verbatim>\<open>RmScan::next\<close> from the position \<open>rid\<close>.\<close>

function rm_scan_next :: "Rid \<Rightarrow> RmFileHandle \<Rightarrow> bpm \<Rightarrow> ((db_error + Rid) \<times> bpm) option" where
  "rm_scan_next rid f s =
     (if num_pages (file_hdr f) \<le> page_no rid then Some (Inr rid, s)
      else case fetch_page_handle (page_no rid) (f, s) of
        None \<Rightarrow> None
      | Some (Inl e, _, s') \<Rightarrow> Some (Inl e, s')
      | Some (Inr fr, _, s') \<Rightarrow>
          let k = int (next_bit True (bitmap_of (file_hdr f) (pg_data (pages s' fr)))
                    (nat (num_records_per_page (file_hdr f))) (slot_no rid));
              s'' = snd (unpin_page (rm_pid f (page_no rid)) False s')
          in if k < num_records_per_page (file_hdr f) then Some (Inr (rid\<lparr>slot_no := k\<rparr>), s'')
             else rm_scan_next \<lparr>page_no = page_no rid + 1, slot_no = -1\<rparr> f s'')"
  by pat_completeness auto

termination
  by (relation "measure (\<lambda>(rid, f, s). nat (num_pages (file_hdr f) - page_no rid))") auto

declare rm_scan_next.simps [simp del]

definition rm_scan_new :: "RmFileHandle \<Rightarrow> bpm \<Rightarrow> ((db_error + Rid) \<times> bpm) option" where
  "rm_scan_new f s = rm_scan_next \<lparr>page_no = RM_FIRST_RECORD_PAGE, slot_no = -1\<rparr> f s"

definition rm_scan_is_end :: "RmFileHandle \<Rightarrow> Rid \<Rightarrow> bool" where
  "rm_scan_is_end f rid \<longleftrightarrow> num_pages (file_hdr f) \<le> page_no rid"

section \<open>The file manager\<close>

definition enc_file_hdr :: "RmFileHdr \<Rightarrow> bytes" where
  "enc_file_hdr h = le_enc 4 (record_size h) @ le_enc 4 (num_pages h) @ le_enc 4 (num_records_per_page h)
     @ le_enc 4 (first_free_page_no h) @ le_enc 4 (bitmap_size h)"

definition dec_file_hdr :: "bytes \<Rightarrow> RmFileHdr" where
  "dec_file_hdr d = \<lparr>record_size = le_dec_s (rd 0 4 d), num_pages = le_dec_s (rd 4 4 d),
     num_records_per_page = le_dec_s (rd 8 4 d), first_free_page_no = le_dec_s (rd 12 4 d), bitmap_size = le_dec_s (rd 16 4 d)\<rparr>"

definition sizeof_RmFileHdr :: nat where
  "sizeof_RmFileHdr = 20"

definition records_per_page :: "int \<Rightarrow> int" where
  "records_per_page rs = (int BITMAP_WIDTH * (int PAGE_SIZE - 1 - int sizeof_RmFileHdr) + 1) div (1 + rs * int BITMAP_WIDTH)"

definition new_file_hdr :: "int \<Rightarrow> RmFileHdr" where
  "new_file_hdr rs = \<lparr>record_size = rs, num_pages = 1, num_records_per_page = records_per_page rs,
     first_free_page_no = RM_NO_PAGE, bitmap_size = (records_per_page rs + int BITMAP_WIDTH - 1) div int BITMAP_WIDTH\<rparr>"

definition rm_create_file :: "string \<Rightarrow> int \<Rightarrow> disk \<Rightarrow> db_error option \<times> disk" where
  "rm_create_file name rs d =
     (if rs < 1 \<or> RM_MAX_RECORD_SIZE < rs then (Some (InvalidRecordSizeError rs), d)
      else case create_file d name of
        Inl e \<Rightarrow> (Some e, d)
      | Inr d1 \<Rightarrow>
          (case open_file d1 name of
             Inl e \<Rightarrow> (Some e, d1)
           | Inr (fd, d2) \<Rightarrow>
               (case write_page d2 fd RM_FILE_HDR_PAGE (enc_file_hdr (new_file_hdr rs)) of
                  (Some e, d3) \<Rightarrow> (Some e, d3)
                | (None, d3) \<Rightarrow> (case close_file d3 fd of Inl e \<Rightarrow> (Some e, d3) | Inr d4 \<Rightarrow> (None, d4)))))"

definition rm_destroy_file :: "string \<Rightarrow> disk \<Rightarrow> db_error + disk" where
  "rm_destroy_file name d = destroy_file d name"

text \<open>The constructor of the handle reads the file header and sets the next page number; the bytes are
  read into a header that starts uninitialised, \<open>junk\<close>.\<close>

definition rm_handle_new :: "int \<Rightarrow> bytes \<Rightarrow> disk \<Rightarrow> (db_error + RmFileHandle) \<times> disk" where
  "rm_handle_new fd junk d =
     (case read_page d fd RM_FILE_HDR_PAGE junk sizeof_RmFileHdr of
        (Some e, _) \<Rightarrow> (Inl e, d)
      | (None, bs) \<Rightarrow>
          (Inr \<lparr>rm_fd = fd, file_hdr = dec_file_hdr bs, cached_insert_page_no = -1, cached_insert_page = None,
                cached_insert_ptrs = None, reserved_inserts = {}\<rparr>,
           set_fd2pageno d fd (num_pages (dec_file_hdr bs))))"

definition rm_open_file :: "string \<Rightarrow> bytes \<Rightarrow> disk \<Rightarrow> (db_error + RmFileHandle) \<times> disk" where
  "rm_open_file name junk d =
     (case open_file d name of
        Inl e \<Rightarrow> (Inl e, d)
      | Inr (fd, d1) \<Rightarrow> rm_handle_new fd junk d1)"

definition rm_close_file :: "RmFileHandle \<Rightarrow> bpm \<Rightarrow> db_error option \<times> bpm" where
  "rm_close_file f s =
     (case write_page (bp_disk s) (rm_fd f) RM_FILE_HDR_PAGE (enc_file_hdr (file_hdr f)) of
        (Some e, d) \<Rightarrow> (Some e, s\<lparr>bp_disk := d\<rparr>)
      | (None, d) \<Rightarrow>
          (case flush_all_pages (rm_fd f) (s\<lparr>bp_disk := d\<rparr>) of
             (Some e, s1) \<Rightarrow> (Some e, s1)
           | (None, s1) \<Rightarrow>
               (case close_file (bp_disk s1) (rm_fd f) of
                  Inl e \<Rightarrow> (Some e, s1)
                | Inr d' \<Rightarrow> (None, s1\<lparr>bp_disk := d'\<rparr>))))"

section \<open>Layout\<close>

text \<open>A header as \<^verbatim>\<open>create_file\<close> computes it.\<close>

definition hdr_ok :: "RmFileHdr \<Rightarrow> bool" where
  "hdr_ok h \<longleftrightarrow> 1 \<le> record_size h \<and> record_size h \<le> RM_MAX_RECORD_SIZE
     \<and> num_records_per_page h = records_per_page (record_size h)
     \<and> bitmap_size h = (num_records_per_page h + 7) div 8"

lemma hdr_okD:
  assumes "hdr_ok h"
  shows "1 \<le> record_size h" "record_size h \<le> 512" "0 < num_records_per_page h" "num_records_per_page h \<le> 4096"
    "0 < bitmap_size h" "num_records_per_page h \<le> 8 * bitmap_size h"
    "12 + bitmap_size h + num_records_per_page h * record_size h \<le> 4096"
proof -
  let ?r = "record_size h" and ?n = "num_records_per_page h" and ?b = "bitmap_size h"
  have r: "1 \<le> ?r" "?r \<le> 512" using assms by (simp_all add: hdr_ok_def RM_MAX_RECORD_SIZE_def)
  have n: "?n = 32601 div (1 + ?r * 8)" and b: "?b = (?n + 7) div 8"
    using assms by (simp_all add: hdr_ok_def records_per_page_def BITMAP_WIDTH_def PAGE_SIZE_def sizeof_RmFileHdr_def)
  have le: "?n * (1 + ?r * 8) \<le> 32601" using r n pos_mod_sign [of "1 + ?r * 8" 32601] by (simp add: minus_mod_eq_div_mult [symmetric])
  have "1 + ?r * 8 \<le> 32601" using r by simp
  then have pos: "0 < ?n" using n r pos_imp_zdiv_pos_iff [of "1 + ?r * 8" 32601] by simp
  have "?n \<le> ?n * ?r" using pos r by simp
  moreover have eq: "?n * (1 + ?r * 8) = ?n + 8 * (?n * ?r)" by (simp add: algebra_simps)
  ultimately have "9 * ?n \<le> 32601" using le by linarith
  moreover have "8 * ?b \<le> ?n + 7" "?n \<le> 8 * ?b" using b by simp_all
  ultimately show "1 \<le> ?r" "?r \<le> 512" "0 < ?n" "?n \<le> 4096" "0 < ?b" "?n \<le> 8 * ?b" "12 + ?b + ?n * ?r \<le> 4096"
    using r pos le eq by linarith+
qed

lemma bitmap_fits:
  assumes "hdr_ok h"
  shows "12 + nat (bitmap_size h) \<le> 4096"
proof -
  have "0 \<le> num_records_per_page h * record_size h" using hdr_okD(1,3) [OF assms] by simp
  then show ?thesis using hdr_okD(5,7) [OF assms] by linarith
qed

lemma slot_bounds:
  assumes h: "hdr_ok h" and k: "0 \<le> k" "k < num_records_per_page h"
  shows "get_slot h k + nat (record_size h) \<le> PAGE_SIZE" "bitmap_off + nat (bitmap_size h) \<le> get_slot h k"
    and "0 \<le> j \<Longrightarrow> j < num_records_per_page h \<Longrightarrow> j \<noteq> k \<Longrightarrow>
      get_slot h j + nat (record_size h) \<le> get_slot h k \<or> get_slot h k + nat (record_size h) \<le> get_slot h j"
proof -
  note hd = hdr_okD [OF h]
  have step: "nat (i * record_size h) + nat (record_size h) \<le> nat (m * record_size h)" if "0 \<le> i" "i < m" for i m :: int
  proof -
    have "(i + 1) * record_size h \<le> m * record_size h" using that hd(1) by (intro mult_right_mono) auto
    then have "i * record_size h + record_size h \<le> m * record_size h" by (simp add: algebra_simps)
    moreover have "0 \<le> i * record_size h" using that hd(1) by simp
    ultimately show ?thesis using hd(1) by linarith
  qed
  have "0 \<le> num_records_per_page h * record_size h" using hd(1,3) by simp
  then show "get_slot h k + nat (record_size h) \<le> PAGE_SIZE"
    using step [OF k] hd(7,5) unfolding get_slot_def bitmap_off_def OFFSET_PAGE_HDR_def PAGE_SIZE_def by linarith
  show "bitmap_off + nat (bitmap_size h) \<le> get_slot h k" by (simp add: get_slot_def)
  show "get_slot h j + nat (record_size h) \<le> get_slot h k \<or> get_slot h k + nat (record_size h) \<le> get_slot h j"
    if "0 \<le> j" "j < num_records_per_page h" "j \<noteq> k"
    using step [of j k] step [of k j] that k unfolding get_slot_def by linarith
qed

subsection \<open>Reading over writing\<close>

definition page_ok :: "RmFileHdr \<Rightarrow> bytes \<Rightarrow> bool" where
  "page_ok h d \<longleftrightarrow> length d = PAGE_SIZE
     \<and> num_records d = int (card (bm.used (bitmap_of h d) (nat (num_records_per_page h))))"

definition row :: "RmFileHdr \<Rightarrow> bytes \<Rightarrow> int \<Rightarrow> bytes option" where
  "row h d k = (if 0 \<le> k \<and> k < num_records_per_page h \<and> slot_used h d k then Some (slot_data h k d) else None)"

lemma layout_consts: "OFFSET_PAGE_HDR = 4" "bitmap_off = 12" "PAGE_SIZE = 4096"
  by (simp_all add: OFFSET_PAGE_HDR_def bitmap_off_def PAGE_SIZE_def)

lemma set_header_simps:
  assumes len: "length d = PAGE_SIZE"
  shows "length (set_next_free_page_no n d) = PAGE_SIZE" "length (set_num_records n d) = PAGE_SIZE"
    "in_s 4 n \<Longrightarrow> next_free_page_no (set_next_free_page_no n d) = n" "in_s 4 n \<Longrightarrow> num_records (set_num_records n d) = n"
    "num_records (set_next_free_page_no n d) = num_records d" "next_free_page_no (set_num_records n d) = next_free_page_no d"
    "bitmap_of h (set_next_free_page_no n d) = bitmap_of h d" "bitmap_of h (set_num_records n d) = bitmap_of h d"
    "slot_data h k (set_next_free_page_no n d) = slot_data h k d" "slot_data h k (set_num_records n d) = slot_data h k d"
  using len unfolding set_next_free_page_no_def set_num_records_def next_free_page_no_def num_records_def bitmap_of_def
    slot_data_def get_slot_def layout_consts
  by (simp_all add: region_simps codec_simps)

lemma set_bitmap_simps:
  assumes h: "hdr_ok h" and len: "length d = PAGE_SIZE" and bm: "length b = nat (bitmap_size h)"
  shows "length (set_bitmap b d) = PAGE_SIZE" "bitmap_of h (set_bitmap b d) = b"
    "num_records (set_bitmap b d) = num_records d" "next_free_page_no (set_bitmap b d) = next_free_page_no d"
    "slot_data h k (set_bitmap b d) = slot_data h k d"
proof -
  note le = bitmap_fits [OF h]
  show "length (set_bitmap b d) = PAGE_SIZE" "bitmap_of h (set_bitmap b d) = b"
    "num_records (set_bitmap b d) = num_records d" "next_free_page_no (set_bitmap b d) = next_free_page_no d"
    "slot_data h k (set_bitmap b d) = slot_data h k d"
    using le len bm unfolding set_bitmap_def next_free_page_no_def num_records_def bitmap_of_def slot_data_def get_slot_def layout_consts
    by (simp_all add: region_simps)
qed

lemma length_bitmap_of:
  assumes "hdr_ok h" and "length d = PAGE_SIZE"
  shows "length (bitmap_of h d) = nat (bitmap_size h)"
  using bitmap_fits [OF assms(1)] assms(2) by (simp add: bitmap_of_def layout_consts)

lemma set_slot_simps:
  assumes h: "hdr_ok h" and len: "length d = PAGE_SIZE" and k: "0 \<le> k" "k < num_records_per_page h"
    and buf: "length buf = nat (record_size h)"
  shows "length (set_slot h k buf d) = PAGE_SIZE" "bitmap_of h (set_slot h k buf d) = bitmap_of h d"
    "num_records (set_slot h k buf d) = num_records d" "next_free_page_no (set_slot h k buf d) = next_free_page_no d"
    "0 \<le> j \<Longrightarrow> j < num_records_per_page h \<Longrightarrow> slot_data h j (set_slot h k buf d) = (if j = k then buf else slot_data h j d)"
proof -
  note sb = slot_bounds [OF h k]
  show "length (set_slot h k buf d) = PAGE_SIZE" using sb(1) len buf by (simp add: set_slot_def)
  show "bitmap_of h (set_slot h k buf d) = bitmap_of h d"
    unfolding bitmap_of_def set_slot_def using sb(1,2) len buf by (intro rd_wr_other) auto
  show "num_records (set_slot h k buf d) = num_records d"
    unfolding num_records_def set_slot_def using sb(1,2) len buf
    by (intro arg_cong [of _ _ le_dec_s] rd_wr_other) (auto simp: layout_consts)
  show "next_free_page_no (set_slot h k buf d) = next_free_page_no d"
    unfolding next_free_page_no_def set_slot_def using sb(1,2) len buf
    by (intro arg_cong [of _ _ le_dec_s] rd_wr_other) (auto simp: layout_consts)
  show "slot_data h j (set_slot h k buf d) = (if j = k then buf else slot_data h j d)"
    if j: "0 \<le> j" "j < num_records_per_page h"
  proof (cases "j = k")
    case True
    then show ?thesis using sb(1) len buf by (simp add: slot_data_def set_slot_def region_simps)
  next
    case False
    then have "slot_data h j (set_slot h k buf d) = slot_data h j d"
      unfolding slot_data_def set_slot_def using sb(1) sb(3) [OF j] len buf by (intro rd_wr_other) auto
    then show ?thesis using False by simp
  qed
qed

lemma page_okD:
  assumes "page_ok h d" and "hdr_ok h"
  shows "length d = PAGE_SIZE" "num_records d = int (card (bm.used (bitmap_of h d) (nat (num_records_per_page h))))"
    "0 \<le> num_records d" "num_records d \<le> num_records_per_page h"
  using assms bm.card_used_le [of "bitmap_of h d" "nat (num_records_per_page h)"] hdr_okD(3) [OF assms(2)]
  by (auto simp: page_ok_def)

lemma slot_cap:
  assumes "hdr_ok h" and "length d = PAGE_SIZE" and "0 \<le> k" "k < num_records_per_page h"
  shows "nat k < 8 * length (bitmap_of h d)" "nat k < nat (num_records_per_page h)"
  using assms hdr_okD(5,6) [OF assms(1)] by (simp_all add: length_bitmap_of)

lemma page_count_in_s:
  assumes "hdr_ok h" and "page_ok h d"
  shows "in_s 4 (num_records d + 1)" "in_s 4 (num_records d - 1)"
  using page_okD(3,4) [OF assms(2,1)] hdr_okD(4) [OF assms(1)] by (simp_all add: in_s_def)

text \<open>The three changes of a page by the record operations.\<close>

lemma put_record_ok:
  assumes h: "hdr_ok h" and p: "page_ok h d" and k: "0 \<le> k" "k < num_records_per_page h"
    and free: "\<not> slot_used h d k" and buf: "length buf = nat (record_size h)"
  shows "page_ok h (put_record h k buf d)" "num_records (put_record h k buf d) = num_records d + 1"
    "next_free_page_no (put_record h k buf d) = next_free_page_no d"
    "row h (put_record h k buf d) j = (if j = k then Some buf else row h d j)"
    "0 \<le> j \<Longrightarrow> j < num_records_per_page h \<Longrightarrow> slot_used h (put_record h k buf d) j \<longleftrightarrow> j = k \<or> slot_used h d j"
proof -
  note pd = page_okD [OF p h]
  let ?d1 = "set_slot h k buf d"
  note s1 = set_slot_simps [OF h pd(1) k buf]
  let ?b = "bm_set (bitmap_of h d) (nat k)"
  have lb: "length ?b = nat (bitmap_size h)" using length_bitmap_of [OF h pd(1)] by simp
  let ?d2 = "set_bitmap ?b ?d1"
  note s2 = set_bitmap_simps [OF h s1(1) lb]
  have eq: "put_record h k buf d = set_num_records (num_records d + 1) ?d2"
    by (simp add: put_record_def s1(2,3) s2(3))
  note s3 = set_header_simps [OF s2(1)]
  note cap = slot_cap [OF h pd(1) k]
  have cap': "nat k < bm_capacity (bitmap_of h d)" using cap(1) by (simp add: bm_capacity_def)
  have used: "bitmap_of h (put_record h k buf d) = ?b" by (simp add: eq s3 s2(2))
  have fr: "\<not> is_set (bitmap_of h d) (nat k)" using free by (simp add: slot_used_def)
  show nr: "num_records (put_record h k buf d) = num_records d + 1"
    using s3(4) page_count_in_s [OF h p] by (simp add: eq)
  have "card (bm.used ?b (nat (num_records_per_page h))) = Suc (card (bm.used (bitmap_of h d) (nat (num_records_per_page h))))"
    by (rule bm.card_used_ins [OF cap' cap(2) fr])
  then show "page_ok h (put_record h k buf d)"
    using nr pd(2) used s3(2) by (simp add: page_ok_def eq)
  show "next_free_page_no (put_record h k buf d) = next_free_page_no d" by (simp add: eq s3(6) s2(4) s1(4))
  show us: "slot_used h (put_record h k buf d) j \<longleftrightarrow> j = k \<or> slot_used h d j" if "0 \<le> j" "j < num_records_per_page h" for j
  proof -
    have "nat j = nat k \<longleftrightarrow> j = k" using that(1) k(1) by (rule eq_nat_nat_iff)
    then show ?thesis using is_set_bm_set [OF cap(1), of "nat j"] by (simp add: slot_used_def used)
  qed
  show "row h (put_record h k buf d) j = (if j = k then Some buf else row h d j)"
    using us [of j] k s1(5) [of j] by (auto simp: row_def eq s3(10) s2(5))
qed

lemma clear_record_ok:
  assumes h: "hdr_ok h" and p: "page_ok h d" and k: "0 \<le> k" "k < num_records_per_page h" and used: "slot_used h d k"
  defines "d2 \<equiv> set_num_records (num_records (set_bitmap (bm_reset (bitmap_of h d) (nat k)) d) - 1)
    (set_bitmap (bm_reset (bitmap_of h d) (nat k)) d)"
  shows "page_ok h d2" "num_records d2 = num_records d - 1" "next_free_page_no d2 = next_free_page_no d"
    "row h d2 j = (if j = k then None else row h d j)" "length d2 = PAGE_SIZE"
proof -
  note pd = page_okD [OF p h]
  let ?b = "bm_reset (bitmap_of h d) (nat k)"
  have lb: "length ?b = nat (bitmap_size h)" using length_bitmap_of [OF h pd(1)] by simp
  note s2 = set_bitmap_simps [OF h pd(1) lb]
  have eq: "d2 = set_num_records (num_records d - 1) (set_bitmap ?b d)" by (simp add: d2_def s2(3))
  note s3 = set_header_simps [OF s2(1)]
  note cap = slot_cap [OF h pd(1) k]
  have cap': "nat k < bm_capacity (bitmap_of h d)" using cap(1) by (simp add: bm_capacity_def)
  have bm: "bitmap_of h d2 = ?b" by (simp add: eq s3 s2(2))
  show nr: "num_records d2 = num_records d - 1" using s3(4) page_count_in_s [OF h p] by (simp add: eq)
  have "Suc (card (bm.used ?b (nat (num_records_per_page h)))) = card (bm.used (bitmap_of h d) (nat (num_records_per_page h)))"
    by (rule bm.card_used_del [OF cap' cap(2)]) (use used in \<open>simp add: slot_used_def\<close>)
  then show "page_ok h d2" using nr pd(2) bm s3(2) by (simp add: page_ok_def eq)
  show "next_free_page_no d2 = next_free_page_no d" by (simp add: eq s3(6) s2(4))
  show "length d2 = PAGE_SIZE" by (simp add: eq s3(2))
  have "slot_used h d2 j \<longleftrightarrow> j \<noteq> k \<and> slot_used h d j" if "0 \<le> j" "j < num_records_per_page h"
  proof -
    have "nat j = nat k \<longleftrightarrow> j = k" using that(1) k(1) by (rule eq_nat_nat_iff)
    then show ?thesis using is_set_bm_reset [OF cap(1), of "nat j"] by (simp add: slot_used_def bm)
  qed
  then show "row h d2 j = (if j = k then None else row h d j)" by (auto simp: row_def eq s3(10) s2(5))
qed

lemma set_slot_ok:
  assumes h: "hdr_ok h" and p: "page_ok h d" and k: "0 \<le> k" "k < num_records_per_page h" and used: "slot_used h d k"
    and buf: "length buf = nat (record_size h)"
  shows "page_ok h (set_slot h k buf d)" "row h (set_slot h k buf d) j = (if j = k then Some buf else row h d j)"
    "next_free_page_no (set_slot h k buf d) = next_free_page_no d"
proof -
  note s = set_slot_simps [OF h page_okD(1) [OF p h] k buf]
  show "page_ok h (set_slot h k buf d)" using p s(1-3) by (simp add: page_ok_def)
  show "next_free_page_no (set_slot h k buf d) = next_free_page_no d" by (rule s(4))
  show "row h (set_slot h k buf d) j = (if j = k then Some buf else row h d j)"
    using used k s(2) s(5) [of j] by (cases "j = k") (simp_all add: row_def slot_used_def)
qed

lemma set_next_free_ok:
  assumes "hdr_ok h" and "page_ok h d"
  shows "page_ok h (set_next_free_page_no n d)" "row h (set_next_free_page_no n d) j = row h d j"
  using set_header_simps [OF page_okD(1) [OF assms(2,1)]] assms(2) by (simp_all add: page_ok_def row_def slot_used_def)

end
