(* ===== verification/Record_Store.thy ===== *)
theory Record_Store
  imports Record_File
begin

text \<open>
  Correctness of the table files: the invariant of a file handle over the buffer pool's contract, what each
  record operation does to the rows of the file on every branch, and the properties.
\<close>

section \<open>The invariant\<close>

definition cache_set :: "RmFileHandle \<Rightarrow> PageId set" where
  "cache_set f = (case cached_insert_page f of None \<Rightarrow> {} | Some _ \<Rightarrow> {rm_pid f (cached_insert_page_no f)})"

text \<open>A link of the free list: the end of the list, or a page of the file.\<close>

definition link_ok :: "RmFileHdr \<Rightarrow> int \<Rightarrow> bool" where
  "link_ok h n \<longleftrightarrow> n = RM_NO_PAGE \<or> 1 \<le> n \<and> n < num_pages h"

definition in_file :: "RmFileHandle \<Rightarrow> int \<Rightarrow> bool" where
  "in_file f n \<longleftrightarrow> 1 \<le> n \<and> n < num_pages (file_hdr f)"

definition valid_rid :: "RmFileHandle \<Rightarrow> Rid \<Rightarrow> bool" where
  "valid_rid f rid \<longleftrightarrow> in_file f (page_no rid) \<and> 0 \<le> slot_no rid \<and> slot_no rid < num_records_per_page (file_hdr f)"

definition page_in :: "RmFileHandle \<Rightarrow> bpm \<Rightarrow> int \<Rightarrow> bytes \<Rightarrow> bool" where
  "page_in f s n d \<longleftrightarrow> page_view s (rm_pid f n) = Some d \<and> page_ok (file_hdr f) d \<and> link_ok (file_hdr f) (next_free_page_no d)"

definition base_ok :: "RmFileHandle \<Rightarrow> bool" where
  "base_ok f \<longleftrightarrow> hdr_ok (file_hdr f) \<and> 0 \<le> rm_fd f \<and> rm_fd f < MAX_FD \<and> 1 \<le> num_pages (file_hdr f)
     \<and> num_pages (file_hdr f) < 2 ^ 31 \<and> link_ok (file_hdr f) (first_free_page_no (file_hdr f))"

definition cache_ok :: "RmFileHandle \<Rightarrow> bpm \<Rightarrow> bool" where
  "cache_ok f s \<longleftrightarrow>
     (case cached_insert_page f of
        None \<Rightarrow> cached_insert_page_no f = -1
      | Some fr \<Rightarrow> in_file f (cached_insert_page_no f) \<and> cached_insert_ptrs f = Some fr
          \<and> lookup s (rm_pid f (cached_insert_page_no f)) = Some fr \<and> 0 < pins s (rm_pid f (cached_insert_page_no f)))"

definition rows :: "RmFileHandle \<Rightarrow> bpm \<Rightarrow> Rid \<Rightarrow> bytes option" where
  "rows f s rid =
     (if in_file f (page_no rid)
      then case page_view s (rm_pid f (page_no rid)) of Some d \<Rightarrow> row (file_hdr f) d (slot_no rid) | None \<Rightarrow> None
      else None)"

definition res_ok :: "RmFileHandle \<Rightarrow> bpm \<Rightarrow> bool" where
  "res_ok f s \<longleftrightarrow> (\<forall>k \<in> reserved_inserts f. \<exists>rid. k = rid_key rid \<and> valid_rid f rid \<and> rows f s rid = None)"

definition store_ok :: "RmFileHandle \<Rightarrow> bpm \<Rightarrow> bool" where
  "store_ok f s \<longleftrightarrow> fd2pageno (bp_disk s) (rm_fd f) = num_pages (file_hdr f) \<and> file_of (bp_disk s) (rm_fd f) \<noteq> None
     \<and> (\<forall>n. in_file f n \<longrightarrow> (\<exists>d. page_in f s n d))
     \<and> (\<forall>n. in_s 4 n \<longrightarrow> lookup s (rm_pid f n) \<noteq> None \<longrightarrow> n < num_pages (file_hdr f))"

definition file_inv :: "PageId set \<Rightarrow> RmFileHandle \<Rightarrow> bpm \<Rightarrow> bool" where
  "file_inv X f s \<longleftrightarrow> base_ok f \<and> store_ok f s \<and> cache_ok f s \<and> res_ok f s
     \<and> pool_ok (X \<union> cache_set f) s \<and> (\<forall>p \<in> X. pg_fd p \<noteq> rm_fd f)"

lemma file_invD:
  assumes "file_inv X f s"
  shows "base_ok f" "store_ok f s" "cache_ok f s" "res_ok f s" "pool_ok (X \<union> cache_set f) s" "p \<in> X \<Longrightarrow> pg_fd p \<noteq> rm_fd f"
  using assms by (simp_all add: file_inv_def)

lemma base_okD:
  assumes "base_ok f"
  shows "hdr_ok (file_hdr f)" "0 \<le> rm_fd f" "rm_fd f < MAX_FD" "1 \<le> num_pages (file_hdr f)" "num_pages (file_hdr f) < 2 ^ 31"
    "link_ok (file_hdr f) (first_free_page_no (file_hdr f))"
  using assms by (simp_all add: base_ok_def)

lemma store_okD:
  assumes "store_ok f s"
  shows "fd2pageno (bp_disk s) (rm_fd f) = num_pages (file_hdr f)" "file_of (bp_disk s) (rm_fd f) \<noteq> None"
    "in_file f n \<Longrightarrow> \<exists>d. page_in f s n d" "in_s 4 n \<Longrightarrow> lookup s (rm_pid f n) \<noteq> None \<Longrightarrow> n < num_pages (file_hdr f)"
  using assms by (simp_all add: store_ok_def)

lemma page_inD:
  assumes "page_in f s n d"
  shows "page_view s (rm_pid f n) = Some d" "page_ok (file_hdr f) d" "link_ok (file_hdr f) (next_free_page_no d)"
  using assms by (simp_all add: page_in_def)

lemma rm_pid_simps [simp]: "pg_fd (rm_pid f n) = rm_fd f" "pg_no (rm_pid f n) = n" "rm_pid f n = rm_pid f m \<longleftrightarrow> n = m"
  by (simp_all add: rm_pid_def)

lemma rm_pid_range:
  assumes "base_ok f" and "0 \<le> n" "n \<le> num_pages (file_hdr f)"
  shows "pid_range (rm_pid f n)" "in_s 4 n"
  using assms base_okD(2,3,5) [OF assms(1)] by (simp_all add: pid_range_def in_s_def MAX_FD_def)

lemma rm_pid_ok:
  assumes "base_ok f" and "store_ok f s" and "0 \<le> n" "n \<le> num_pages (file_hdr f)"
  shows "pid_ok (bp_disk s) (rm_pid f n)"
  using rm_pid_range [OF assms(1,3,4)] store_okD(2) [OF assms(2)] assms(3) by (simp add: pid_ok_def)

lemma in_fileD: "in_file f n \<Longrightarrow> 0 \<le> n \<and> n \<le> num_pages (file_hdr f) \<and> n < num_pages (file_hdr f) \<and> 1 \<le> n"
  by (simp add: in_file_def)

text \<open>A pinned page may always be counted among the changed ones.\<close>

lemma pool_ok_insert:
  assumes "pool_ok X s" and "0 < pins s p" and "pid_range p"
  shows "pool_ok (insert p X) s"
proof -
  have "pin_count (pages s f) = pins s (pg_id (pages s f))" if "resident s f" for f
    using that by (simp add: resident_def pins_def)
  then have "clean_ok (insert p X) s"
    using assms(2) bpm_invD(5) [OF pool_okD(1) [OF assms(1)]] by (auto simp: clean_ok_def)
  then show ?thesis using assms(1) by (simp add: pool_ok_def bpm_inv_def)
qed

subsection \<open>Steps of the pool under the handle\<close>

lemma rows_page:
  assumes "in_file f (page_no rid)" and "page_view s (rm_pid f (page_no rid)) = Some d"
  shows "rows f s rid = row (file_hdr f) d (slot_no rid)"
  using assms by (simp add: rows_def)

text \<open>Like \<open>pool.keeps\<close>, without the pins.\<close>

definition pool_ext :: "PageId set \<Rightarrow> PageId set \<Rightarrow> bpm \<Rightarrow> bpm \<Rightarrow> bool" where
  "pool_ext C D s s' \<longleftrightarrow> (\<forall>q y. pid_range q \<longrightarrow> q \<notin> C \<longrightarrow> page_view s q = Some y \<longrightarrow> page_view s' q = Some y)
     \<and> (\<forall>q. pid_range q \<longrightarrow> q \<notin> D \<longrightarrow> lookup s' q \<noteq> None \<longrightarrow> lookup s q \<noteq> None)
     \<and> (\<forall>q. pid_ok (bp_disk s') q = pid_ok (bp_disk s) q) \<and> fd2pageno (bp_disk s') = fd2pageno (bp_disk s)"

lemma pool_extD:
  assumes "pool_ext C D s s'"
  shows "pid_range q \<Longrightarrow> q \<notin> C \<Longrightarrow> page_view s q = Some y \<Longrightarrow> page_view s' q = Some y"
    "pid_range q \<Longrightarrow> q \<notin> D \<Longrightarrow> lookup s' q \<noteq> None \<Longrightarrow> lookup s q \<noteq> None"
    "pid_ok (bp_disk s') q = pid_ok (bp_disk s) q" "fd2pageno (bp_disk s') = fd2pageno (bp_disk s)"
  using assms unfolding pool_ext_def by blast+

lemma keeps_ext: "pool.keeps C D s s' \<Longrightarrow> pool_ext C D s s'"
  unfolding pool_ext_def using pool.keepsD [of C D s s'] by blast

lemma store_ok_keeps:
  assumes b: "base_ok f" and st: "store_ok f s" and k: "pool_ext {rm_pid f n} {rm_pid f n} s s'" and n: "in_file f n"
    and d: "page_in f s' n d"
  shows "store_ok f s'"
proof -
  note kd = pool_extD [OF k] and sd = store_okD [OF st]
  have "pid_ok (bp_disk s') (rm_pid f 0)" using kd(3) rm_pid_ok [OF b st, of 0] base_okD(4) [OF b] by simp
  then have fo: "file_of (bp_disk s') (rm_fd f) \<noteq> None" by (simp add: pid_ok_def)
  have pg: "\<exists>d. page_in f s' m d" if m: "in_file f m" for m
  proof (cases "m = n")
    case False
    obtain e where e: "page_in f s m e" using sd(3) [OF m] by blast
    have "pid_range (rm_pid f m)" using rm_pid_range [OF b] in_fileD [OF m] by simp
    then have "page_view s' (rm_pid f m) = Some e" using kd(1) [of "rm_pid f m"] page_inD(1) [OF e] False by simp
    then show ?thesis using page_inD(2,3) [OF e] by (auto simp: page_in_def)
  qed (use d in blast)
  have "m < num_pages (file_hdr f)" if m: "in_s 4 m" "lookup s' (rm_pid f m) \<noteq> None" for m
  proof (cases "m = n")
    case True
    then show ?thesis using n by (simp add: in_file_def)
  next
    case False
    have "pid_range (rm_pid f m)" using rm_pid_range(1) [OF b, of 0] base_okD(4) [OF b] m(1) by (simp add: pid_range_def)
    then have "lookup s (rm_pid f m) \<noteq> None" using kd(2) [of "rm_pid f m"] m(2) False by simp
    then show ?thesis using sd(4) [OF m(1)] by simp
  qed
  then show ?thesis unfolding store_ok_def using sd(1) kd(4) fo pg by (simp add: fun_eq_iff)
qed

lemma cache_ok_keeps:
  assumes b: "base_ok f" and c: "cache_ok f s" and k: "pool.keeps C D s s'"
  shows "cache_ok f s'"
proof (cases "cached_insert_page f")
  case None
  then show ?thesis using c by (simp add: cache_ok_def)
next
  case (Some fr)
  let ?p = "rm_pid f (cached_insert_page_no f)"
  have i: "in_file f (cached_insert_page_no f)" "0 < pins s ?p" using c Some by (simp_all add: cache_ok_def)
  have "pid_range ?p" using rm_pid_range [OF b] in_fileD [OF i(1)] by simp
  then have "lookup s' ?p = lookup s ?p" "pins s' ?p = pins s ?p" using pool.keepsD(2,3) [OF k] i(2) by simp_all
  then show ?thesis using c Some by (simp add: cache_ok_def)
qed

text \<open>
  A step that changed at most page \<open>n\<close>, to a sound page whose used slots are not reserved, keeps the
  invariant; the rows of the other pages are as before.
\<close>

lemma rows_keeps:
  assumes b: "base_ok f" and st: "store_ok f s" and k: "pool_ext {rm_pid f n} D s s'" and r: "page_no rid \<noteq> n"
  shows "rows f s' rid = rows f s rid"
proof (cases "in_file f (page_no rid)")
  case True
  obtain e where e: "page_in f s (page_no rid) e" using store_okD(3) [OF st True] by blast
  have "pid_range (rm_pid f (page_no rid))" using rm_pid_range [OF b] in_fileD [OF True] by simp
  then have "page_view s' (rm_pid f (page_no rid)) = Some e" using pool_extD(1) [OF k] page_inD(1) [OF e] r by simp
  then show ?thesis using page_inD(1) [OF e] True by (simp add: rows_def)
qed (simp add: rows_def)

lemma file_inv_step:
  assumes inv: "file_inv X f s" and n: "in_file f n" and k: "pool.keeps {rm_pid f n} {rm_pid f n} s s'"
    and d: "page_in f s' n d" and ok: "pool_ok (X \<union> cache_set f - {rm_pid f n}) s' \<or> pool_ok (X \<union> cache_set f) s'"
    and res: "\<forall>rid. page_no rid = n \<longrightarrow> rid_key rid \<in> reserved_inserts f \<longrightarrow> valid_rid f rid \<longrightarrow> row (file_hdr f) d (slot_no rid) = None"
  shows "file_inv X f s'"
proof -
  note b = file_invD(1) [OF inv] and st = file_invD(2) [OF inv]
  have pr: "pid_range (rm_pid f n)" using rm_pid_range [OF b] in_fileD [OF n] by simp
  have c: "cache_ok f s'" by (rule cache_ok_keeps [OF b file_invD(3) [OF inv] k])
  have "pool_ok (X \<union> cache_set f) s'"
  proof (cases "rm_pid f n \<in> cache_set f")
    case True
    then have "0 < pins s' (rm_pid f n)" using c by (auto simp: cache_set_def cache_ok_def split: option.splits)
    then have "pool_ok (insert (rm_pid f n) (X \<union> cache_set f - {rm_pid f n})) s'" if "pool_ok (X \<union> cache_set f - {rm_pid f n}) s'"
      using pool_ok_insert [OF that _ pr] by simp
    moreover have "insert (rm_pid f n) (X \<union> cache_set f - {rm_pid f n}) = X \<union> cache_set f" using True by auto
    ultimately show ?thesis using ok by auto
  next
    case False
    have "rm_pid f n \<notin> X" using file_invD(6) [OF inv, of "rm_pid f n"] by auto
    then have "X \<union> cache_set f - {rm_pid f n} = X \<union> cache_set f" using False by blast
    then show ?thesis using ok by simp
  qed
  moreover have "res_ok f s'"
    unfolding res_ok_def
  proof
    fix key assume key: "key \<in> reserved_inserts f"
    then obtain rid where rid: "key = rid_key rid" "valid_rid f rid" "rows f s rid = None"
      using file_invD(4) [OF inv] by (auto simp: res_ok_def)
    have "rows f s' rid = None"
    proof (cases "page_no rid = n")
      case True
      then show ?thesis using res rid key n page_inD(1) [OF d] by (simp add: rows_def)
    next
      case False
      then show ?thesis using rows_keeps [OF b st keeps_ext [OF k]] rid(3) by simp
    qed
    then show "\<exists>rid. key = rid_key rid \<and> valid_rid f rid \<and> rows f s' rid = None" using rid(1,2) by blast
  qed
  ultimately show ?thesis
    unfolding file_inv_def using b store_ok_keeps [OF b st keeps_ext [OF k] n d] c file_invD(6) [OF inv] by simp
qed

subsection \<open>Fetching a page of the file\<close>

text \<open>The pool has no frame for page \<open>n\<close>.\<close>

definition no_frame :: "RmFileHandle \<Rightarrow> int \<Rightarrow> bpm \<Rightarrow> bool" where
  "no_frame f n s \<longleftrightarrow> fetch_page (rm_pid f n) s = Some (Inr None, s)"

lemma cached_pinned:
  assumes "file_inv X f s" and "rm_pid f n \<in> X \<union> cache_set f"
  shows "0 < pins s (rm_pid f n)"
  using file_invD(3) [OF assms(1)] file_invD(6) [OF assms(1), of "rm_pid f n"] assms(2)
  by (auto simp: cache_set_def cache_ok_def split: option.splits)

lemma fetch_handle_none:
  assumes "no_frame f n s" and "in_file f n"
  shows "fetch_page_handle n (f, s) = Some (Inl (PageNotExistError '''' n), (f, s))"
  using assms by (simp add: fetch_page_handle_def no_frame_def in_file_def)

lemma fetch_handle_outside:
  "\<not> (0 \<le> n \<and> n < num_pages (file_hdr f)) \<Longrightarrow> fetch_page_handle n (f, s) = Some (Inl (PageNotExistError '''' n), (f, s))"
  by (auto simp: fetch_page_handle_def)

lemma row_reserved:
  assumes inv: "file_inv X f s" and n: "in_file f (page_no rid)" and key: "rid_key rid \<in> reserved_inserts f" and v: "valid_rid f rid"
    and d: "page_view s (rm_pid f (page_no rid)) = Some d"
    and inj: "\<And>r. rid_key r = rid_key rid \<Longrightarrow> valid_rid f r \<Longrightarrow> r = rid"
  shows "row (file_hdr f) d (slot_no rid) = None"
proof -
  obtain r where "rid_key rid = rid_key r" "valid_rid f r" "rows f s r = None"
    using file_invD(4) [OF inv] key by (auto simp: res_ok_def)
  moreover from this have "r = rid" using inj by metis
  ultimately show ?thesis using n d by (simp add: rows_def)
qed

lemma rid_key_eq:
  assumes "in_s 4 (page_no r)" "in_s 4 (slot_no r)" "in_s 4 (page_no r')" "in_s 4 (slot_no r')" and "rid_key r = rid_key r'"
  shows "r = r'"
proof -
  have key: "rid_key x = page_key \<lparr>pg_fd = page_no x, pg_no = slot_no x\<rparr>" for x
  proof -
    have "push_bit 32 (word_of_int (page_no x) :: 64 word) = push_bit 32 (ucast (word_of_int (page_no x) :: 32 word))"
      by (rule bit_word_eqI) (auto simp: bit_simps)
    then show ?thesis by (simp add: rid_key_def page_key_def)
  qed
  have "page_key \<lparr>pg_fd = page_no r, pg_no = slot_no r\<rparr> = page_key \<lparr>pg_fd = page_no r', pg_no = slot_no r'\<rparr>"
    using assms(5) by (simp add: key)
  then have "\<lparr>pg_fd = page_no r, pg_no = slot_no r\<rparr> = \<lparr>pg_fd = page_no r', pg_no = slot_no r'\<rparr>"
    using assms(1-4) page_key_inj [of "\<lparr>pg_fd = page_no r, pg_no = slot_no r\<rparr>" "\<lparr>pg_fd = page_no r', pg_no = slot_no r'\<rparr>"]
    by (simp add: pid_range_def)
  then show ?thesis by simp
qed

lemma valid_rid_in_s:
  assumes "base_ok f" and "valid_rid f r"
  shows "in_s 4 (page_no r)" "in_s 4 (slot_no r)"
  using assms base_okD(5) [OF assms(1)] hdr_okD(4) [OF base_okD(1) [OF assms(1)]]
  by (simp_all add: valid_rid_def in_file_def in_s_def)

lemma valid_rid_key_inj:
  assumes "base_ok f" and "valid_rid f r" "valid_rid f r'" and "rid_key r = rid_key r'"
  shows "r = r'"
  using rid_key_eq assms(4) valid_rid_in_s [OF assms(1,2)] valid_rid_in_s [OF assms(1,3)] by blast

lemma reserved_rows:
  assumes inv: "file_inv X f s" and d: "page_in f s n d" and n: "in_file f n"
  shows "\<forall>rid. page_no rid = n \<longrightarrow> rid_key rid \<in> reserved_inserts f \<longrightarrow> valid_rid f rid \<longrightarrow> row (file_hdr f) d (slot_no rid) = None"
proof (intro allI impI)
  fix rid assume r: "page_no rid = n" "rid_key rid \<in> reserved_inserts f" "valid_rid f rid"
  show "row (file_hdr f) d (slot_no rid) = None"
    by (rule row_reserved [OF inv _ r(2,3)])
      (use n r page_inD(1) [OF d] valid_rid_key_inj [OF file_invD(1) [OF inv]] in auto)
qed

text \<open>Between \<open>s\<close> and \<open>s'\<close> one page of the file was fetched, perhaps changed, and released.\<close>

definition visited :: "RmFileHandle \<Rightarrow> int \<Rightarrow> bpm \<Rightarrow> bpm \<Rightarrow> bool" where
  "visited f n s s' \<longleftrightarrow> pool.keeps {rm_pid f n} {rm_pid f n} s s' \<and> lookup s' (rm_pid f n) \<noteq> None"

lemma fetch_peek:
  assumes inv: "file_inv X f s" and n: "in_file f n" and d: "page_in f s n d" and fr: "\<not> no_frame f n s"
  shows "\<exists>fr s1 s2. fetch_page_handle n (f, s) = Some (Inr fr, (f, s1)) \<and> pg_data (pages s1 fr) = d
    \<and> unpin_page (rm_pid f n) False s1 = (True, s2) \<and> file_inv X f s2 \<and> (\<forall>rid. rows f s2 rid = rows f s rid)
    \<and> page_in f s2 n d \<and> pool.keeps {} {rm_pid f n} s s2 \<and> visited f n s s2"
proof -
  note b = file_invD(1) [OF inv] and st = file_invD(2) [OF inv]
  have v: "pid_ok (bp_disk s) (rm_pid f n)" using rm_pid_ok [OF b st] in_fileD [OF n] by simp
  obtain r s1 where r: "fetch_page (rm_pid f n) s = Some (Inr r, s1)"
    "case r of None \<Rightarrow> s1 = s
     | Some g \<Rightarrow> lookup s1 (rm_pid f n) = Some g \<and> pool_ok (X \<union> cache_set f) s1 \<and> pg_data (pages s1 g) = d
        \<and> (\<exists>s2. unpin_page (rm_pid f n) False s1 = (True, s2) \<and> pool_ok (X \<union> cache_set f) s2
        \<and> pool.keeps {} {rm_pid f n} s s2 \<and> lookup s2 (rm_pid f n) = Some g)"
    using pool.peek [OF file_invD(5) [OF inv] v page_inD(1) [OF d] cached_pinned [OF inv]] by blast
  then obtain g where g: "r = Some g" using fr by (cases r) (auto simp: no_frame_def)
  then obtain s2 where s2: "unpin_page (rm_pid f n) False s1 = (True, s2)" "pool_ok (X \<union> cache_set f) s2"
      "pool.keeps {} {rm_pid f n} s s2" "lookup s2 (rm_pid f n) = Some g" and dat: "pg_data (pages s1 g) = d"
    using r by auto
  have k: "pool.keeps {rm_pid f n} {rm_pid f n} s s2" by (rule pool.keeps_mono [OF s2(3)]) auto
  have pr: "pid_range (rm_pid f n)" using v by (simp add: pid_ok_def)
  have d2: "page_in f s2 n d" using pool.keepsD(1) [OF s2(3) pr] d by (simp add: page_in_def)
  have i2: "file_inv X f s2"
    by (rule file_inv_step [OF inv n k d2]) (use s2(2) reserved_rows [OF inv d n] in auto)
  have "rows f s2 rid = rows f s rid" for rid
  proof (cases "page_no rid = n")
    case True
    then show ?thesis using page_inD(1) [OF d] page_inD(1) [OF d2] by (simp add: rows_def)
  qed (rule rows_keeps [OF b st keeps_ext [OF k]])
  moreover have "fetch_page_handle n (f, s) = Some (Inr g, (f, s1))"
    using r(1) g in_fileD [OF n] by (simp add: fetch_page_handle_def)
  moreover have "visited f n s s2" using k s2(4) by (simp add: visited_def)
  ultimately show ?thesis using s2(1-3) i2 d2 dat by blast
qed

text \<open>The new content of a page is sound for the file.\<close>

definition good_page :: "RmFileHandle \<Rightarrow> int \<Rightarrow> bytes \<Rightarrow> bool" where
  "good_page f n d \<longleftrightarrow> page_ok (file_hdr f) d \<and> link_ok (file_hdr f) (next_free_page_no d)
     \<and> (\<forall>rid. page_no rid = n \<longrightarrow> rid_key rid \<in> reserved_inserts f \<longrightarrow> valid_rid f rid \<longrightarrow> row (file_hdr f) d (slot_no rid) = None)"

definition row_change :: "RmFileHandle \<Rightarrow> int \<Rightarrow> bytes \<Rightarrow> bpm \<Rightarrow> bpm \<Rightarrow> bool" where
  "row_change f n d s s' \<longleftrightarrow>
     (\<forall>rid. rows f s' rid = (if page_no rid = n then row (file_hdr f) d (slot_no rid) else rows f s rid))"

lemma fetch_poke:
  assumes inv: "file_inv X f s" and n: "in_file f n" and d: "page_in f s n d" and fr: "\<not> no_frame f n s"
  shows "\<exists>fr s1. fetch_page_handle n (f, s) = Some (Inr fr, (f, s1)) \<and> pg_data (pages s1 fr) = d \<and> pg_id (pages s1 fr) = rm_pid f n
    \<and> (\<exists>s2. unpin_page (rm_pid f n) False s1 = (True, s2) \<and> file_inv X f s2 \<and> (\<forall>rid. rows f s2 rid = rows f s rid)
        \<and> visited f n s s2)
    \<and> (\<forall>d'. good_page f n d' \<longrightarrow> (\<exists>s2. unpin_page (rm_pid f n) True (set_data fr d' s1) = (True, s2)
        \<and> file_inv X f s2 \<and> row_change f n d' s s2 \<and> visited f n s s2))"
proof -
  note b = file_invD(1) [OF inv] and st = file_invD(2) [OF inv]
  have v: "pid_ok (bp_disk s) (rm_pid f n)" using rm_pid_ok [OF b st] in_fileD [OF n] by simp
  have pr: "pid_range (rm_pid f n)" using v by (simp add: pid_ok_def)
  obtain r s1 where r: "fetch_page (rm_pid f n) s = Some (Inr r, s1)"
    "case r of None \<Rightarrow> s1 = s
     | Some g \<Rightarrow> lookup s1 (rm_pid f n) = Some g \<and> pool_ok (X \<union> cache_set f) s1 \<and> pg_data (pages s1 g) = d
        \<and> (\<forall>bs. length bs = PAGE_SIZE \<longrightarrow> (\<exists>s2. unpin_page (rm_pid f n) True (set_data g bs s1) = (True, s2)
            \<and> pool_ok (X \<union> cache_set f - {rm_pid f n}) s2 \<and> pool.keeps {rm_pid f n} {rm_pid f n} s s2
            \<and> page_view s2 (rm_pid f n) = Some bs \<and> lookup s2 (rm_pid f n) = Some g))"
    using pool.poke [OF file_invD(5) [OF inv] v page_inD(1) [OF d]] by blast
  then obtain g where g: "r = Some g" using fr by (cases r) (auto simp: no_frame_def)
  then have lk: "lookup s1 (rm_pid f n) = Some g" "pool_ok (X \<union> cache_set f) s1" "pg_data (pages s1 g) = d"
    and pk: "\<And>bs. length bs = PAGE_SIZE \<Longrightarrow> \<exists>s2. unpin_page (rm_pid f n) True (set_data g bs s1) = (True, s2)
            \<and> pool_ok (X \<union> cache_set f - {rm_pid f n}) s2 \<and> pool.keeps {rm_pid f n} {rm_pid f n} s s2
            \<and> page_view s2 (rm_pid f n) = Some bs \<and> lookup s2 (rm_pid f n) = Some g"
    using r by auto
  have id: "pg_id (pages s1 g) = rm_pid f n" by (rule lookup_pid [OF bpm_invD(1) [OF pool_okD(1) [OF lk(2)]] lk(1) pr])
  have fh: "fetch_page_handle n (f, s) = Some (Inr g, (f, s1))"
    using r(1) g in_fileD [OF n] by (simp add: fetch_page_handle_def)
  have ch: "\<exists>s2. unpin_page (rm_pid f n) True (set_data g d' s1) = (True, s2) \<and> file_inv X f s2 \<and> row_change f n d' s s2
      \<and> visited f n s s2"
    if gd: "good_page f n d'" for d'
  proof -
    have len: "length d' = PAGE_SIZE" using gd by (simp add: good_page_def page_ok_def)
    obtain s2 where s2: "unpin_page (rm_pid f n) True (set_data g d' s1) = (True, s2)"
        "pool_ok (X \<union> cache_set f - {rm_pid f n}) s2" "pool.keeps {rm_pid f n} {rm_pid f n} s s2"
        "page_view s2 (rm_pid f n) = Some d'" "lookup s2 (rm_pid f n) = Some g"
      using pk [OF len] by blast
    have d2: "page_in f s2 n d'" using s2(4) gd by (simp add: page_in_def good_page_def)
    have "file_inv X f s2"
      by (rule file_inv_step [OF inv n s2(3) d2]) (use s2(2) gd in \<open>auto simp: good_page_def\<close>)
    moreover have "row_change f n d' s s2"
      unfolding row_change_def using rows_keeps [OF b st keeps_ext [OF s2(3)]] n s2(4) by (simp add: rows_def)
    moreover have "visited f n s s2" using s2(3,5) by (simp add: visited_def)
    ultimately show ?thesis using s2(1) by blast
  qed
  have "\<exists>s2. unpin_page (rm_pid f n) False s1 = (True, s2) \<and> file_inv X f s2 \<and> (\<forall>rid. rows f s2 rid = rows f s rid)
      \<and> visited f n s s2"
    using fetch_peek [OF inv n d fr] fh by auto
  then show ?thesis using fh lk(3) id ch by blast
qed

section \<open>The record operations\<close>

lemmas rm_simps = rm_bind_def rm_return_def rm_throw_def rm_get_def rm_upd_def rm_data_def rm_store_def rm_page_id_def rm_unpin_def

definition same_rows :: "RmFileHandle \<Rightarrow> bpm \<Rightarrow> RmFileHandle \<Rightarrow> bpm \<Rightarrow> bool" where
  "same_rows f s f' s' \<longleftrightarrow> (\<forall>rid. rows f' s' rid = rows f s rid)"

definition rows_upd :: "RmFileHandle \<Rightarrow> bpm \<Rightarrow> RmFileHandle \<Rightarrow> bpm \<Rightarrow> Rid \<Rightarrow> bytes option \<Rightarrow> bool" where
  "rows_upd f s f' s' rid v \<longleftrightarrow> (\<forall>r. rows f' s' r = (if r = rid then v else rows f s r))"

lemma set_data_twice [simp]: "set_data fr d (set_data fr d' s) = set_data fr d s"
  by (simp add: set_data_def upd_page_def)

lemma set_data_page [simp]: "pg_data (pages (set_data fr d s) fr) = d" "pg_id (pages (set_data fr d s) g) = pg_id (pages s g)"
  by (simp_all add: set_data_def upd_page_def)

lemma valid_ridD:
  assumes "valid_rid f rid"
  shows "in_file f (page_no rid)" "0 \<le> slot_no rid" "slot_no rid < num_records_per_page (file_hdr f)"
  using assms by (simp_all add: valid_rid_def)

lemma rid_page:
  assumes inv: "file_inv X f s" and v: "valid_rid f rid"
  obtains d where "page_in f s (page_no rid) d" "rows f s rid = row (file_hdr f) d (slot_no rid)"
    "slot_used (file_hdr f) d (slot_no rid) \<longleftrightarrow> rows f s rid \<noteq> None"
    "rows f s rid \<noteq> None \<Longrightarrow> rows f s rid = Some (slot_data (file_hdr f) (slot_no rid) d)"
proof -
  obtain d where d: "page_in f s (page_no rid) d" using store_okD(3) [OF file_invD(2) [OF inv] valid_ridD(1) [OF v]] by blast
  then have "rows f s rid = row (file_hdr f) d (slot_no rid)" using valid_ridD(1) [OF v] by (simp add: rows_def page_in_def)
  moreover from this have "slot_used (file_hdr f) d (slot_no rid) \<longleftrightarrow> rows f s rid \<noteq> None"
    "rows f s rid \<noteq> None \<Longrightarrow> rows f s rid = Some (slot_data (file_hdr f) (slot_no rid) d)"
    using valid_ridD(2,3) [OF v] by (simp_all add: row_def split: if_splits)
  ultimately show ?thesis using that d by blast
qed

lemma get_record_ok:
  assumes inv: "file_inv X f s" and v: "valid_rid f rid"
  shows "if no_frame f (page_no rid) s then get_record rid (f, s) = Some (Inl (PageNotExistError '''' (page_no rid)), (f, s))
    else \<exists>s'. get_record rid (f, s) = Some (case rows f s rid of Some x \<Rightarrow> Inr x
          | None \<Rightarrow> Inl (RecordNotFoundError (page_no rid) (slot_no rid)), (f, s')) \<and> file_inv X f s' \<and> same_rows f s f s' \<and> visited f (page_no rid) s s'"
proof (cases "no_frame f (page_no rid) s")
  case True
  then show ?thesis using fetch_handle_none [OF True valid_ridD(1) [OF v]] by (simp add: get_record_def rm_simps)
next
  case False
  obtain d where d: "page_in f s (page_no rid) d" and u: "slot_used (file_hdr f) d (slot_no rid) \<longleftrightarrow> rows f s rid \<noteq> None"
    and dat: "rows f s rid \<noteq> None \<Longrightarrow> rows f s rid = Some (slot_data (file_hdr f) (slot_no rid) d)"
    using rid_page [OF inv v] by metis
  obtain fr s1 s2 where s: "fetch_page_handle (page_no rid) (f, s) = Some (Inr fr, (f, s1))" "pg_data (pages s1 fr) = d"
      "unpin_page (rm_pid f (page_no rid)) False s1 = (True, s2)" "file_inv X f s2" "\<forall>rid. rows f s2 rid = rows f s rid"
      "visited f (page_no rid) s s2"
    using fetch_peek [OF inv valid_ridD(1) [OF v] d False] by blast
  have "get_record rid (f, s) = Some (case rows f s rid of Some x \<Rightarrow> Inr x
          | None \<Rightarrow> Inl (RecordNotFoundError (page_no rid) (slot_no rid)), (f, s2))"
  proof (cases "rows f s rid")
    case None
    then show ?thesis using s u by (simp add: get_record_def rm_simps)
  next
    case (Some x)
    then show ?thesis using s u dat by (simp add: get_record_def rm_simps)
  qed
  then show ?thesis using False s(4-6) by (auto simp: same_rows_def)
qed

lemma is_record_ok:
  assumes inv: "file_inv X f s" and v: "valid_rid f rid" and nf: "\<not> no_frame f (page_no rid) s"
  shows "\<exists>s'. is_record rid (f, s) = Some (Inr (rows f s rid \<noteq> None), (f, s')) \<and> file_inv X f s' \<and> same_rows f s f s'
    \<and> visited f (page_no rid) s s'"
proof -
  obtain d where d: "page_in f s (page_no rid) d" and u: "slot_used (file_hdr f) d (slot_no rid) \<longleftrightarrow> rows f s rid \<noteq> None"
    using rid_page [OF inv v] by metis
  obtain fr s1 s2 where s: "fetch_page_handle (page_no rid) (f, s) = Some (Inr fr, (f, s1))" "pg_data (pages s1 fr) = d"
      "unpin_page (rm_pid f (page_no rid)) False s1 = (True, s2)" "file_inv X f s2" "\<forall>rid. rows f s2 rid = rows f s rid"
      "visited f (page_no rid) s s2"
    using fetch_peek [OF inv valid_ridD(1) [OF v] d nf] by blast
  then show ?thesis using u by (simp add: is_record_def rm_simps same_rows_def)
qed

lemma row_change_upd:
  assumes rc: "row_change f n d' s s'" and n: "in_file f n" and d: "page_in f s n d"
    and r: "\<forall>j. row (file_hdr f) d' j = (if j = k then v else row (file_hdr f) d j)"
  shows "rows_upd f s f s' \<lparr>page_no = n, slot_no = k\<rparr> v"
  unfolding rows_upd_def
proof
  fix rid :: Rid
  show "rows f s' rid = (if rid = \<lparr>page_no = n, slot_no = k\<rparr> then v else rows f s rid)"
  proof (cases "page_no rid = n")
    case True
    then have "rows f s rid = row (file_hdr f) d (slot_no rid)" using n page_inD(1) [OF d] by (simp add: rows_def)
    moreover have "rid = \<lparr>page_no = n, slot_no = k\<rparr> \<longleftrightarrow> slot_no rid = k" using True by (cases rid) auto
    ultimately show ?thesis using rc r True by (simp add: row_change_def)
  next
    case False
    then show ?thesis using rc by (auto simp: row_change_def)
  qed
qed

lemma used_not_reserved:
  assumes inv: "file_inv X f s" and v: "valid_rid f rid" and u: "rows f s rid \<noteq> None"
  shows "rid_key rid \<notin> reserved_inserts f"
proof
  assume "rid_key rid \<in> reserved_inserts f"
  then obtain r where r: "rid_key rid = rid_key r" "valid_rid f r" "rows f s r = None"
    using file_invD(4) [OF inv] by (auto simp: res_ok_def)
  then have "rid = r" using valid_rid_key_inj [OF file_invD(1) [OF inv] v] by simp
  then show False using u r(3) by simp
qed

lemma good_page_upd:
  assumes inv: "file_inv X f s" and d: "page_in f s n d" and n: "in_file f n" and ok: "page_ok (file_hdr f) d'"
    and r: "\<forall>j. row (file_hdr f) d' j = (if j = k then v else row (file_hdr f) d j)"
    and v: "v = None \<or> rid_key \<lparr>page_no = n, slot_no = k\<rparr> \<notin> reserved_inserts f"
    and l: "link_ok (file_hdr f) (next_free_page_no d')"
  shows "good_page f n d'"
proof -
  have "row (file_hdr f) d' (slot_no rid) = None" if rid: "page_no rid = n" "rid_key rid \<in> reserved_inserts f" "valid_rid f rid" for rid
  proof (cases "slot_no rid = k")
    case True
    then have "rid = \<lparr>page_no = n, slot_no = k\<rparr>" using rid(1) by (cases rid) simp
    then have "v = None" using v rid(2) by simp
    then show ?thesis using r True by simp
  next
    case False
    then show ?thesis using r reserved_rows [OF inv d n] rid by simp
  qed
  then show ?thesis using ok l by (simp add: good_page_def)
qed

lemma rid_eta [simp]: "\<lparr>page_no = page_no rid, slot_no = slot_no rid\<rparr> = (rid :: Rid)"
  by simp

lemma update_record_ok:
  assumes inv: "file_inv X f s" and v: "valid_rid f rid" and nf: "\<not> no_frame f (page_no rid) s"
    and buf: "length buf = nat (record_size (file_hdr f))"
  shows "\<exists>s'. update_record rid buf (f, s) =
      Some (if rows f s rid = None then Inl (RecordNotFoundError (page_no rid) (slot_no rid)) else Inr (), (f, s'))
    \<and> file_inv X f s' \<and> (if rows f s rid = None then same_rows f s f s' else rows_upd f s f s' rid (Some buf))
    \<and> visited f (page_no rid) s s'"
proof -
  have h: "hdr_ok (file_hdr f)" by (rule base_okD(1) [OF file_invD(1) [OF inv]])
  note k = valid_ridD [OF v]
  obtain d where d: "page_in f s (page_no rid) d" and u: "slot_used (file_hdr f) d (slot_no rid) \<longleftrightarrow> rows f s rid \<noteq> None"
    using rid_page [OF inv v] by metis
  obtain fr s1 where s: "fetch_page_handle (page_no rid) (f, s) = Some (Inr fr, (f, s1))" "pg_data (pages s1 fr) = d"
    and undo: "\<exists>s2. unpin_page (rm_pid f (page_no rid)) False s1 = (True, s2) \<and> file_inv X f s2 \<and> (\<forall>rid. rows f s2 rid = rows f s rid)
        \<and> visited f (page_no rid) s s2"
    and put: "\<And>d'. good_page f (page_no rid) d' \<Longrightarrow> \<exists>s2. unpin_page (rm_pid f (page_no rid)) True (set_data fr d' s1) = (True, s2)
        \<and> file_inv X f s2 \<and> row_change f (page_no rid) d' s s2 \<and> visited f (page_no rid) s s2"
    using fetch_poke [OF inv k(1) d nf] by blast
  show ?thesis
  proof (cases "rows f s rid = None")
    case True
    then show ?thesis using undo s u by (auto simp: update_record_def rm_simps same_rows_def)
  next
    case False
    then have us: "slot_used (file_hdr f) d (slot_no rid)" using u by simp
    note ss = set_slot_ok [OF h page_inD(2) [OF d] k(2,3) us buf]
    have "rid_key rid \<notin> reserved_inserts f" by (rule used_not_reserved [OF inv v False])
    then have "good_page f (page_no rid) (set_slot (file_hdr f) (slot_no rid) buf d)"
      by (intro good_page_upd [OF inv d k(1) ss(1), of "slot_no rid" "Some buf"]) (simp_all add: ss(2,3) page_inD(3) [OF d])
    then obtain s2 where s2: "unpin_page (rm_pid f (page_no rid)) True (set_data fr (set_slot (file_hdr f) (slot_no rid) buf d) s1) = (True, s2)"
        "file_inv X f s2" "row_change f (page_no rid) (set_slot (file_hdr f) (slot_no rid) buf d) s s2"
        "visited f (page_no rid) s s2"
      using put by blast
    have "rows_upd f s f s2 \<lparr>page_no = page_no rid, slot_no = slot_no rid\<rparr> (Some buf)"
      by (rule row_change_upd [OF s2(3) k(1) d]) (simp add: ss(2))
    then show ?thesis using s s2(1,2,4) False us by (simp add: update_record_def rm_simps)
  qed
qed

subsection \<open>The head of the free list\<close>

abbreviation set_first_free :: "int \<Rightarrow> RmFileHandle \<Rightarrow> RmFileHandle" where
  "set_first_free n f \<equiv> set_hdr (\<lambda>h. h\<lparr>first_free_page_no := n\<rparr>) f"

lemma first_free_layout [simp]:
  "hdr_ok (h\<lparr>first_free_page_no := n\<rparr>) = hdr_ok h" "link_ok (h\<lparr>first_free_page_no := n\<rparr>) m = link_ok h m"
  "page_ok (h\<lparr>first_free_page_no := n\<rparr>) d = page_ok h d" "row (h\<lparr>first_free_page_no := n\<rparr>) d k = row h d k"
  "bitmap_of (h\<lparr>first_free_page_no := n\<rparr>) d = bitmap_of h d" "slot_used (h\<lparr>first_free_page_no := n\<rparr>) d k = slot_used h d k"
  by (simp_all add: hdr_ok_def link_ok_def page_ok_def bitmap_of_def row_def slot_used_def slot_data_def get_slot_def)

lemma set_first_free_simps [simp]:
  "file_hdr (set_hdr g f) = g (file_hdr f)" "rm_pid (set_hdr g f) n = rm_pid f n" "rm_fd (set_hdr g f) = rm_fd f"
  "cached_insert_page (set_hdr g f) = cached_insert_page f" "cached_insert_page_no (set_hdr g f) = cached_insert_page_no f"
  "cached_insert_ptrs (set_hdr g f) = cached_insert_ptrs f" "reserved_inserts (set_hdr g f) = reserved_inserts f"
  "cache_set (set_hdr g f) = cache_set f"
  by (simp_all add: set_hdr_def rm_pid_def cache_set_def split: option.split)

lemma first_free_frame [simp]:
  "in_file (set_first_free n f) m = in_file f m" "valid_rid (set_first_free n f) rid = valid_rid f rid"
  "page_in (set_first_free n f) s m d = page_in f s m d" "rows (set_first_free n f) s rid = rows f s rid"
  "res_ok (set_first_free n f) s = res_ok f s" "store_ok (set_first_free n f) s = store_ok f s"
  "cache_ok (set_first_free n f) s = cache_ok f s"
  by (simp_all add: in_file_def valid_rid_def page_in_def rows_def res_ok_def store_ok_def cache_ok_def split: option.split)

lemma file_inv_first_free:
  assumes "file_inv X f s" and "link_ok (file_hdr f) n"
  shows "file_inv X (set_first_free n f) s"
proof -
  have "base_ok (set_first_free n f)" using file_invD(1) [OF assms(1)] assms(2) by (simp add: base_ok_def)
  then show ?thesis using assms(1) by (simp add: file_inv_def)
qed

lemma in_file_link: "in_file f n \<Longrightarrow> link_ok (file_hdr f) n"
  by (simp add: in_file_def link_ok_def)

lemma link_in_file: "link_ok (file_hdr f) n \<Longrightarrow> n \<noteq> RM_NO_PAGE \<Longrightarrow> in_file f n"
  by (simp add: in_file_def link_ok_def)

lemma link_in_s: "base_ok f \<Longrightarrow> link_ok (file_hdr f) n \<Longrightarrow> in_s 4 n"
  using base_okD(5) [of f] by (auto simp: link_ok_def in_s_def RM_NO_PAGE_def)

text \<open>Handles that differ at most in the head of the free list.\<close>

definition handle_same :: "RmFileHandle \<Rightarrow> RmFileHandle \<Rightarrow> bool" where
  "handle_same f f' \<longleftrightarrow> (\<exists>n. f' = set_first_free n f) \<or> f' = f"

lemma delete_record_ok:
  assumes inv: "file_inv X f s" and v: "valid_rid f rid" and nf: "\<not> no_frame f (page_no rid) s"
  shows "\<exists>f' s'. delete_record rid (f, s) =
      Some (if rows f s rid = None then Inl (RecordNotFoundError (page_no rid) (slot_no rid)) else Inr (), (f', s'))
    \<and> file_inv X f' s' \<and> (if rows f s rid = None then same_rows f s f' s' else rows_upd f s f' s' rid None)
    \<and> visited f (page_no rid) s s' \<and> handle_same f f'"
proof -
  have b: "base_ok f" by (rule file_invD(1) [OF inv])
  have h: "hdr_ok (file_hdr f)" by (rule base_okD(1) [OF b])
  note k = valid_ridD [OF v]
  obtain d where d: "page_in f s (page_no rid) d" and u: "slot_used (file_hdr f) d (slot_no rid) \<longleftrightarrow> rows f s rid \<noteq> None"
    using rid_page [OF inv v] by metis
  obtain fr s1 where s: "fetch_page_handle (page_no rid) (f, s) = Some (Inr fr, (f, s1))" "pg_data (pages s1 fr) = d"
      "pg_id (pages s1 fr) = rm_pid f (page_no rid)"
    and undo: "\<exists>s2. unpin_page (rm_pid f (page_no rid)) False s1 = (True, s2) \<and> file_inv X f s2 \<and> (\<forall>rid. rows f s2 rid = rows f s rid)
        \<and> visited f (page_no rid) s s2"
    and put: "\<And>d'. good_page f (page_no rid) d' \<Longrightarrow> \<exists>s2. unpin_page (rm_pid f (page_no rid)) True (set_data fr d' s1) = (True, s2)
        \<and> file_inv X f s2 \<and> row_change f (page_no rid) d' s s2 \<and> visited f (page_no rid) s s2"
    using fetch_poke [OF inv k(1) d nf] by blast
  show ?thesis
  proof (cases "rows f s rid = None")
    case True
    then show ?thesis using undo s u by (auto simp: delete_record_def rm_simps same_rows_def handle_same_def)
  next
    case False
    then have us: "slot_used (file_hdr f) d (slot_no rid)" using u by simp
    let ?d1 = "set_bitmap (bm_reset (bitmap_of (file_hdr f) d) (nat (slot_no rid))) d"
    let ?d2 = "set_num_records (num_records ?d1 - 1) ?d1"
    note cr = clear_record_ok [OF h page_inD(2) [OF d] k(2,3) us]
    let ?full = "num_records d = num_records_per_page (file_hdr f)"
    let ?d3 = "if ?full then set_next_free_page_no (first_free_page_no (file_hdr f)) ?d2 else ?d2"
    have ok3: "page_ok (file_hdr f) ?d3" using cr(1) set_next_free_ok(1) [OF h cr(1)] by simp
    have row3: "\<forall>j. row (file_hdr f) ?d3 j = (if j = slot_no rid then None else row (file_hdr f) d j)"
      using cr(4) set_next_free_ok(2) [OF h cr(1)] by simp
    have l3: "link_ok (file_hdr f) (next_free_page_no ?d3)"
      using cr(3) page_inD(3) [OF d] set_header_simps(3) [OF cr(5) link_in_s [OF b base_okD(6) [OF b]]] base_okD(6) [OF b] by simp
    have "good_page f (page_no rid) ?d3"
      by (rule good_page_upd [OF inv d k(1) ok3 row3 _ l3]) simp
    then obtain s2 where s2: "unpin_page (rm_pid f (page_no rid)) True (set_data fr ?d3 s1) = (True, s2)"
        "file_inv X f s2" "row_change f (page_no rid) ?d3 s s2" "visited f (page_no rid) s s2"
      using put by blast
    have ru: "rows_upd f s f s2 \<lparr>page_no = page_no rid, slot_no = slot_no rid\<rparr> None"
      by (rule row_change_upd [OF s2(3) k(1) d row3])
    let ?f = "if ?full then set_first_free (page_no rid) f else f"
    have "delete_record rid (f, s) = Some (Inr (), (?f, s2))"
      using s s2(1) us by (cases ?full) (simp_all add: delete_record_def rm_simps release_page_handle_def Let_def)
    moreover have "file_inv X ?f s2" using s2(2) file_inv_first_free [OF s2(2) in_file_link [OF k(1)]] by simp
    moreover have "rows_upd f s ?f s2 rid None" "handle_same f ?f" using ru by (auto simp: rows_upd_def handle_same_def)
    ultimately show ?thesis using False s2(4) by (intro exI [of _ ?f] exI [of _ s2]) simp
  qed
qed

lemma insert_record_at_ok:
  assumes inv: "file_inv X f s" and v: "valid_rid f rid" and nf: "\<not> no_frame f (page_no rid) s"
    and free: "rows f s rid = None" and res: "rid_key rid \<notin> reserved_inserts f" and buf: "length buf = nat (record_size (file_hdr f))"
  shows "\<exists>f' s'. insert_record_at rid buf (f, s) = Some (Inr (), (f', s')) \<and> file_inv X f' s' \<and> rows_upd f s f' s' rid (Some buf)
    \<and> reserved_inserts f' = reserved_inserts f \<and> visited f (page_no rid) s s' \<and> handle_same f f'"
proof -
  have b: "base_ok f" by (rule file_invD(1) [OF inv])
  have h: "hdr_ok (file_hdr f)" by (rule base_okD(1) [OF b])
  note k = valid_ridD [OF v]
  obtain d where d: "page_in f s (page_no rid) d" and u: "slot_used (file_hdr f) d (slot_no rid) \<longleftrightarrow> rows f s rid \<noteq> None"
    using rid_page [OF inv v] by metis
  have us: "\<not> slot_used (file_hdr f) d (slot_no rid)" using u free by simp
  obtain fr s1 where s: "fetch_page_handle (page_no rid) (f, s) = Some (Inr fr, (f, s1))" "pg_data (pages s1 fr) = d"
    and put: "\<And>d'. good_page f (page_no rid) d' \<Longrightarrow> \<exists>s2. unpin_page (rm_pid f (page_no rid)) True (set_data fr d' s1) = (True, s2)
        \<and> file_inv X f s2 \<and> row_change f (page_no rid) d' s s2 \<and> visited f (page_no rid) s s2"
    using fetch_poke [OF inv k(1) d nf] by blast
  let ?d = "put_record (file_hdr f) (slot_no rid) buf d"
  note pr = put_record_ok [OF h page_inD(2) [OF d] k(2,3) us buf]
  have "good_page f (page_no rid) ?d"
    by (intro good_page_upd [OF inv d k(1) pr(1), of "slot_no rid" "Some buf"])
      (use res page_inD(3) [OF d] in \<open>simp_all add: pr(3,4)\<close>)
  then obtain s2 where s2: "unpin_page (rm_pid f (page_no rid)) True (set_data fr ?d s1) = (True, s2)"
      "file_inv X f s2" "row_change f (page_no rid) ?d s s2" "visited f (page_no rid) s s2"
    using put by blast
  have ru: "rows_upd f s f s2 \<lparr>page_no = page_no rid, slot_no = slot_no rid\<rparr> (Some buf)"
    by (rule row_change_upd [OF s2(3) k(1) d]) (simp add: pr(4))
  let ?f = "if num_records ?d = num_records_per_page (file_hdr f) then set_first_free (next_free_page_no ?d) f else f"
  have "insert_record_at rid buf (f, s) = Some (Inr (), (?f, s2))"
    using s s2(1) by (simp add: insert_record_at_def rm_simps Let_def)
  moreover have "file_inv X ?f s2" using s2(2) file_inv_first_free [OF s2(2), of "next_free_page_no ?d"] page_inD(3) [OF d] pr(3) by simp
  moreover have "rows_upd f s ?f s2 rid (Some buf)" "handle_same f ?f" using ru by (auto simp: rows_upd_def handle_same_def)
  ultimately show ?thesis using s2(4) by (intro exI [of _ ?f] exI [of _ s2]) simp
qed

subsection \<open>The cached insert page\<close>

text \<open>Handles that differ only in the cached page.\<close>

definition same_file :: "RmFileHandle \<Rightarrow> RmFileHandle \<Rightarrow> bool" where
  "same_file f f' \<longleftrightarrow> rm_fd f' = rm_fd f \<and> file_hdr f' = file_hdr f \<and> reserved_inserts f' = reserved_inserts f"

lemma same_file_frame:
  assumes "same_file f f'"
  shows "rm_pid f' n = rm_pid f n" "in_file f' n = in_file f n" "valid_rid f' rid = valid_rid f rid" "page_in f' s n d = page_in f s n d"
    "rows f' s rid = rows f s rid" "res_ok f' s = res_ok f s" "store_ok f' s = store_ok f s" "base_ok f' = base_ok f"
proof -
  have e: "rm_fd f' = rm_fd f" "file_hdr f' = file_hdr f" "reserved_inserts f' = reserved_inserts f"
    using assms by (simp_all add: same_file_def)
  show p: "rm_pid f' n = rm_pid f n" and i: "in_file f' n = in_file f n" and v: "valid_rid f' rid = valid_rid f rid" for n rid
    using e by (simp_all add: rm_pid_def in_file_def valid_rid_def)
  show g: "page_in f' s n d = page_in f s n d" for n using e by (simp add: page_in_def p)
  show r: "rows f' s rid = rows f s rid" for rid by (simp add: rows_def p i e(2) split: option.split)
  show "res_ok f' s = res_ok f s" using e(3) by (simp add: res_ok_def v r)
  show "store_ok f' s = store_ok f s"
    using e by (simp add: store_ok_def p i page_in_def)
  show "base_ok f' = base_ok f" using e by (simp add: base_ok_def)
qed

lemma same_file_cache [simp]: "same_file f (drop_cache f)" "same_file f (fill_cache fr n f)"
  by (simp_all add: same_file_def drop_cache_def fill_cache_def)

lemma free_slot_loop_spec:
  assumes "-1 \<le> k"
  shows "if free_slot_loop h res p bm k = -1
    then \<forall>j. k < j \<longrightarrow> j < num_records_per_page h \<longrightarrow> \<not> is_set bm (nat j) \<longrightarrow> rid_key \<lparr>page_no = p, slot_no = j\<rparr> \<in> res
    else k < free_slot_loop h res p bm k \<and> free_slot_loop h res p bm k < num_records_per_page h
      \<and> \<not> is_set bm (nat (free_slot_loop h res p bm k)) \<and> rid_key \<lparr>page_no = p, slot_no = free_slot_loop h res p bm k\<rparr> \<notin> res"
  using assms
proof (induction h res p bm k rule: free_slot_loop.induct)
  case (1 h res p bm k)
  let ?n = "num_records_per_page h"
  let ?r = "next_bit False bm (nat ?n) k"
  have skip: "is_set bm (nat j)" if "k < j" "j < int ?r" for j
  proof -
    have z: "int (nat j) = j" using that(1) "1.prems" by simp
    have "k < int (nat j)" "nat j < ?r" using z that by linarith+
    from next_bit_skips [OF this] show ?thesis by simp
  qed
  show ?case
  proof (cases "?n \<le> int ?r")
    case True
    then have "free_slot_loop h res p bm k = -1" by (subst free_slot_loop.simps) (simp add: Let_def)
    moreover have "\<not> (k < j \<and> j < ?n \<and> \<not> is_set bm (nat j))" for j using skip [of j] True by auto
    ultimately show ?thesis by simp
  next
    case False
    then have lt: "?r < nat ?n" by linarith
    have g: "k < int ?r" and h: "\<not> is_set bm ?r" using next_bit_gt [OF lt] next_bit_hit [OF lt] by simp_all
    show ?thesis
    proof (cases "rid_key \<lparr>page_no = p, slot_no = int ?r\<rparr> \<notin> res")
      case True
      then have "free_slot_loop h res p bm k = int ?r" using False by (subst free_slot_loop.simps) (simp add: Let_def)
      then show ?thesis using g h False True by simp
    next
      case res: False
      then have eq: "free_slot_loop h res p bm k = free_slot_loop h res p bm (int ?r)"
        using False by (subst free_slot_loop.simps) (simp add: Let_def)
      have ih: "if free_slot_loop h res p bm (int ?r) = -1
        then \<forall>j. int ?r < j \<longrightarrow> j < ?n \<longrightarrow> \<not> is_set bm (nat j) \<longrightarrow> rid_key \<lparr>page_no = p, slot_no = j\<rparr> \<in> res
        else int ?r < free_slot_loop h res p bm (int ?r) \<and> free_slot_loop h res p bm (int ?r) < ?n
          \<and> \<not> is_set bm (nat (free_slot_loop h res p bm (int ?r)))
          \<and> rid_key \<lparr>page_no = p, slot_no = free_slot_loop h res p bm (int ?r)\<rparr> \<notin> res"
        using "1.IH" [OF refl] False res by simp
      show ?thesis
      proof (cases "free_slot_loop h res p bm (int ?r) = -1")
        case True
        have "rid_key \<lparr>page_no = p, slot_no = j\<rparr> \<in> res" if "k < j" "j < ?n" "\<not> is_set bm (nat j)" for j
        proof (cases "j = int ?r")
          case True
          then show ?thesis using res by simp
        next
          case False
          then have "int ?r < j" using skip [OF that(1)] that(3) by force
          then show ?thesis using ih True that(2,3) by simp
        qed
        then show ?thesis using True eq by simp
      next
        case False
        then show ?thesis using ih eq g by simp
      qed
    qed
  qed
qed

lemma free_slot_loop_hdr:
  "num_records_per_page h' = num_records_per_page h \<Longrightarrow> free_slot_loop h' R p bm k = free_slot_loop h R p bm k"
proof (induction h R p bm k rule: free_slot_loop.induct)
  case (1 h R p bm k)
  show ?case
    by (subst (1 2) free_slot_loop.simps) (use 1 in \<open>simp add: Let_def\<close>)
qed

lemma free_slot_loop_fields [simp]:
  "free_slot_loop (h\<lparr>num_pages := n\<rparr>) R p bm k = free_slot_loop h R p bm k"
  "free_slot_loop (h\<lparr>first_free_page_no := n\<rparr>) R p bm k = free_slot_loop h R p bm k"
  by (rule free_slot_loop_hdr, simp)+

lemma cachedD:
  assumes inv: "file_inv X f s" and c: "cached_insert_page f = Some fr"
  shows "in_file f (cached_insert_page_no f)" "cached_insert_ptrs f = Some fr"
    "lookup s (rm_pid f (cached_insert_page_no f)) = Some fr" "0 < pins s (rm_pid f (cached_insert_page_no f))"
    "pid_range (rm_pid f (cached_insert_page_no f))" "pg_id (pages s fr) = rm_pid f (cached_insert_page_no f)"
    "\<exists>d. page_in f s (cached_insert_page_no f) d \<and> pg_data (pages s fr) = d"
    "cache_set f = {rm_pid f (cached_insert_page_no f)}"
proof -
  show i: "in_file f (cached_insert_page_no f)" "cached_insert_ptrs f = Some fr" and
    lk: "lookup s (rm_pid f (cached_insert_page_no f)) = Some fr" and "0 < pins s (rm_pid f (cached_insert_page_no f))"
    using file_invD(3) [OF inv] c by (simp_all add: cache_ok_def)
  show pr: "pid_range (rm_pid f (cached_insert_page_no f))" using rm_pid_range [OF file_invD(1) [OF inv]] in_fileD [OF i(1)] by simp
  show "pg_id (pages s fr) = rm_pid f (cached_insert_page_no f)"
    by (rule lookup_pid [OF bpm_invD(1) [OF pool_okD(1) [OF file_invD(5) [OF inv]]] lk pr])
  obtain d where d: "page_in f s (cached_insert_page_no f) d" using store_okD(3) [OF file_invD(2) [OF inv] i(1)] by blast
  then show "\<exists>d. page_in f s (cached_insert_page_no f) d \<and> pg_data (pages s fr) = d"
    using page_inD(1) [OF d] lk by (simp add: page_view_def)
  show "cache_set f = {rm_pid f (cached_insert_page_no f)}" using c by (simp add: cache_set_def)
qed

text \<open>What the search for a free slot of the cached page returns.\<close>

lemma find_free_ok:
  assumes inv: "file_inv X f s" and c: "cached_insert_page f = Some fr" and k: "find_free_slot_on_cached_page f s = k" "0 \<le> k"
  shows "valid_rid f \<lparr>page_no = cached_insert_page_no f, slot_no = k\<rparr>" "rows f s \<lparr>page_no = cached_insert_page_no f, slot_no = k\<rparr> = None"
    "rid_key \<lparr>page_no = cached_insert_page_no f, slot_no = k\<rparr> \<notin> reserved_inserts f"
proof -
  note cd = cachedD [OF inv c]
  obtain d where d: "page_in f s (cached_insert_page_no f) d" "pg_data (pages s fr) = d" using cd(7) by blast
  have eq: "k = free_slot_loop (file_hdr f) (reserved_inserts f) (cached_insert_page_no f) (bitmap_of (file_hdr f) d) (-1)"
    using k(1) cd(1,2) d(2) by (auto simp: find_free_slot_on_cached_page_def in_file_def)
  have sp: "k < num_records_per_page (file_hdr f)" "\<not> is_set (bitmap_of (file_hdr f) d) (nat k)"
    "rid_key \<lparr>page_no = cached_insert_page_no f, slot_no = k\<rparr> \<notin> reserved_inserts f"
    using free_slot_loop_spec [of "-1" "file_hdr f" "reserved_inserts f" "cached_insert_page_no f" "bitmap_of (file_hdr f) d"] k(2)
    by (auto simp: eq [symmetric] split: if_splits)
  show "valid_rid f \<lparr>page_no = cached_insert_page_no f, slot_no = k\<rparr>" using cd(1) k(2) sp(1) by (simp add: valid_rid_def)
  show "rows f s \<lparr>page_no = cached_insert_page_no f, slot_no = k\<rparr> = None"
    using cd(1) page_inD(1) [OF d(1)] sp(2) by (simp add: rows_def row_def slot_used_def)
  show "rid_key \<lparr>page_no = cached_insert_page_no f, slot_no = k\<rparr> \<notin> reserved_inserts f" by (rule sp(3))
qed

lemma find_free_uncached: "cached_insert_page_no f = -1 \<Longrightarrow> find_free_slot_on_cached_page f s = -1"
  by (simp add: find_free_slot_on_cached_page_def split: option.split)

text \<open>Letting the cached page go.\<close>

lemma uncache_ok:
  assumes inv: "file_inv X f s" and c: "cached_insert_page f = Some fr" and sf: "same_file f f'"
    and n: "cached_insert_page f' = None" "cached_insert_page_no f' = -1"
  shows "\<exists>s'. unpin_page (rm_pid f (cached_insert_page_no f)) True s = (True, s') \<and> file_inv X f' s' \<and> same_rows f s f' s'"
proof -
  note cd = cachedD [OF inv c]
  let ?p = "rm_pid f (cached_insert_page_no f)"
  have nX: "?p \<notin> X" using file_invD(6) [OF inv, of ?p] by auto
  obtain s' where s': "unpin_page ?p True s = (True, s')" "pool_ok (X \<union> cache_set f - {?p}) s'"
      "\<forall>q. lookup s' q = lookup s q \<and> page_view s' q = page_view s q \<and> pid_ok (bp_disk s') q = pid_ok (bp_disk s) q"
      "fd2pageno (bp_disk s') = fd2pageno (bp_disk s)"
    using pool_release_law [OF file_invD(5) [OF inv] cd(5,4), of True] by auto
  obtain d where d: "page_in f s (cached_insert_page_no f) d" using cd(7) by blast
  have d': "page_in f s' (cached_insert_page_no f) d" using d s'(3) by (simp add: page_in_def)
  have ext: "pool_ext {?p} {?p} s s'" using s'(3,4) by (simp add: pool_ext_def)
  have rw: "rows f s' rid = rows f s rid" for rid using s'(3) by (simp add: rows_def)
  have st: "store_ok f s'" by (rule store_ok_keeps [OF file_invD(1,2) [OF inv] ext cd(1) d'])
  have rs: "res_ok f s'" using file_invD(4) [OF inv] by (simp add: res_ok_def rw)
  have "X \<union> cache_set f - {?p} = X" using nX cd(8) by auto
  then have "file_inv X f' s'"
    unfolding file_inv_def using s'(2) st rs file_invD(1) [OF inv] file_invD(6) [OF inv] n sf
    by (simp add: same_file_frame [OF sf] cache_ok_def cache_set_def) (simp add: same_file_def)
  then show ?thesis using s'(1) rw by (auto simp: same_rows_def same_file_frame [OF sf])
qed

lemma release_cached_ok:
  assumes inv: "file_inv X f s"
  shows "\<exists>f' s'. release_cached (f, s) = Some (Inr (), (f', s')) \<and> file_inv X f' s' \<and> same_rows f s f' s' \<and> same_file f f'
    \<and> cached_insert_page f' = None \<and> cached_insert_page_no f' = -1"
proof (cases "cached_insert_page f")
  case None
  then show ?thesis using inv file_invD(3) [OF inv]
    by (auto simp: release_cached_def rm_simps same_rows_def same_file_def cache_ok_def)
next
  case (Some fr)
  obtain s' where s': "unpin_page (rm_pid f (cached_insert_page_no f)) True s = (True, s')" "file_inv X (drop_cache f) s'"
      "same_rows f s (drop_cache f) s'"
    using uncache_ok [OF inv Some, of "drop_cache f"] by (auto simp: drop_cache_def same_file_def)
  then show ?thesis using Some cachedD(6) [OF inv Some]
    by (intro exI [of _ "drop_cache f"] exI [of _ s']) (simp add: release_cached_def rm_simps, simp add: drop_cache_def)
qed

text \<open>Caching a page of the file.\<close>

lemma fill_cache_simps [simp]:
  "cached_insert_page (fill_cache fr n f) = Some fr" "cached_insert_page_no (fill_cache fr n f) = n"
  "cached_insert_ptrs (fill_cache fr n f) = Some fr" "file_hdr (fill_cache fr n f) = file_hdr f" "rm_fd (fill_cache fr n f) = rm_fd f"
  "reserved_inserts (fill_cache fr n f) = reserved_inserts f" "cache_set (fill_cache fr n f) = {rm_pid f n}"
  by (simp_all add: fill_cache_def cache_set_def rm_pid_def)

lemma file_inv_fill:
  assumes b: "base_ok f" and st: "store_ok f s" and rs: "res_ok f s" and n: "in_file f n"
    and lk: "lookup s (rm_pid f n) = Some fr" and pin: "0 < pins s (rm_pid f n)" and ok: "pool_ok (insert (rm_pid f n) X) s"
    and X: "\<forall>p \<in> X. pg_fd p \<noteq> rm_fd f"
  shows "file_inv X (fill_cache fr n f) s"
proof -
  note sf = same_file_frame [OF same_file_cache(2) [of f fr n]]
  show ?thesis unfolding file_inv_def using b st rs n lk pin ok X by (simp add: sf cache_ok_def)
qed

lemma cache_fetch_ok:
  assumes inv: "file_inv X f s" and c: "cached_insert_page f = None" and n: "in_file f n" and nf: "\<not> no_frame f n s"
  shows "\<exists>fr s1. fetch_page_handle n (f, s) = Some (Inr fr, (f, s1)) \<and> pg_id (pages s1 fr) = rm_pid f n
    \<and> file_inv X (fill_cache fr n f) s1 \<and> same_rows f s (fill_cache fr n f) s1"
proof -
  note b = file_invD(1) [OF inv] and st = file_invD(2) [OF inv]
  have v: "pid_ok (bp_disk s) (rm_pid f n)" using rm_pid_ok [OF b st] in_fileD [OF n] by simp
  have pr: "pid_range (rm_pid f n)" using v by (simp add: pid_ok_def)
  obtain d where d: "page_in f s n d" using store_okD(3) [OF st n] by blast
  have ok: "pool_ok X s" using file_invD(5) [OF inv] c by (simp add: cache_set_def)
  obtain r s1 where r: "fetch_page (rm_pid f n) s = Some (Inr r, s1)" "pool_ok X s1" and
    rr: "case r of None \<Rightarrow> s1 = s
         | Some g \<Rightarrow> lookup s1 (rm_pid f n) = Some g \<and> pg_data (pages s1 g) = d
             \<and> (\<forall>q y. pid_range q \<longrightarrow> page_view s q = Some y \<longrightarrow> page_view s1 q = Some y)
             \<and> (\<forall>q. pid_range q \<longrightarrow> pins s1 q = pins s q + (if q = rm_pid f n then 1 else 0))
             \<and> (\<forall>q. pid_range q \<longrightarrow> 0 < pins s q \<longrightarrow> lookup s1 q = lookup s q)
             \<and> (\<forall>q. pid_range q \<longrightarrow> q \<noteq> rm_pid f n \<longrightarrow> lookup s1 q \<noteq> None \<longrightarrow> lookup s q \<noteq> None)
             \<and> (\<forall>q. pid_ok (bp_disk s1) q = pid_ok (bp_disk s) q) \<and> fd2pageno (bp_disk s1) = fd2pageno (bp_disk s)"
    using pool_fetch_law [OF ok v page_inD(1) [OF d]] by blast
  obtain g where g: "r = Some g" using r rr nf by (cases r) (auto simp: no_frame_def)
  have lk: "lookup s1 (rm_pid f n) = Some g"
    and vw: "\<forall>q y. pid_range q \<longrightarrow> page_view s q = Some y \<longrightarrow> page_view s1 q = Some y"
    and pn: "\<forall>q. pid_range q \<longrightarrow> pins s1 q = pins s q + (if q = rm_pid f n then 1 else 0)"
    and rs: "\<forall>q. pid_range q \<longrightarrow> q \<noteq> rm_pid f n \<longrightarrow> lookup s1 q \<noteq> None \<longrightarrow> lookup s q \<noteq> None"
    and vd: "\<forall>q. pid_ok (bp_disk s1) q = pid_ok (bp_disk s) q" "fd2pageno (bp_disk s1) = fd2pageno (bp_disk s)"
    using rr g by simp_all
  have ext: "pool_ext {rm_pid f n} {rm_pid f n} s s1" unfolding pool_ext_def using vw rs vd by blast
  have d1: "page_in f s1 n d" using d vw pr by (simp add: page_in_def)
  have rows: "rows f s1 rid = rows f s rid" for rid
  proof (cases "page_no rid = n")
    case True
    then show ?thesis using page_inD(1) [OF d] page_inD(1) [OF d1] by (simp add: rows_def)
  qed (rule rows_keeps [OF b st ext])
  have pin: "0 < pins s1 (rm_pid f n)" using pn pr pins_nonneg [OF ok, of "rm_pid f n"] by simp
  have "res_ok f s1" using file_invD(4) [OF inv] by (simp add: res_ok_def rows)
  then have "file_inv X (fill_cache g n f) s1"
    using file_inv_fill [OF b store_ok_keeps [OF b st ext n d1] _ n lk pin pool_ok_insert [OF r(2) pin pr]] file_invD(6) [OF inv] by blast
  moreover have "pg_id (pages s1 g) = rm_pid f n" by (rule lookup_pid [OF bpm_invD(1) [OF pool_okD(1) [OF r(2)]] lk pr])
  moreover have "fetch_page_handle n (f, s) = Some (Inr g, (f, s1))"
    using r(1) g in_fileD [OF n] by (simp add: fetch_page_handle_def)
  ultimately show ?thesis using rows same_file_frame(5) [OF same_file_cache(2)] by (auto simp: same_rows_def)
qed

text \<open>Writing to the cached page.\<close>

lemma cached_store_ok:
  assumes inv: "file_inv X f s" and c: "cached_insert_page f = Some fr" and gd: "good_page f (cached_insert_page_no f) d'"
  shows "file_inv X f (set_data fr d' s) \<and> row_change f (cached_insert_page_no f) d' s (set_data fr d' s)"
proof -
  note b = file_invD(1) [OF inv] and st = file_invD(2) [OF inv] and cd = cachedD [OF inv c]
  let ?n = "cached_insert_page_no f" and ?s = "set_data fr d' s"
  have len: "length d' = PAGE_SIZE" using gd by (simp add: good_page_def page_ok_def)
  have sl: "pool_ok (insert (rm_pid f ?n) (X \<union> cache_set f)) ?s"
      "\<And>q. pid_range q \<Longrightarrow> page_view ?s q = (if q = rm_pid f ?n then Some d' else page_view s q)"
      "\<And>q. lookup ?s q = lookup s q \<and> pins ?s q = pins s q \<and> pid_ok (bp_disk ?s) q = pid_ok (bp_disk s) q"
      "fd2pageno (bp_disk ?s) = fd2pageno (bp_disk s)"
    using pool_store_law [OF file_invD(5) [OF inv] cd(3,5,4) len] by simp_all
  have k: "pool.keeps {rm_pid f ?n} {rm_pid f ?n} s ?s"
    unfolding pool.keeps_def using sl by simp
  have d': "page_in f ?s ?n d'" using sl(2) [OF cd(5)] gd by (simp add: page_in_def good_page_def)
  have "insert (rm_pid f ?n) (X \<union> cache_set f) = X \<union> cache_set f" using cd(8) by auto
  then have "file_inv X f ?s"
    using file_inv_step [OF inv cd(1) k d'] sl(1) gd by (simp add: good_page_def)
  moreover have "row_change f ?n d' s ?s"
    unfolding row_change_def using rows_keeps [OF b st keeps_ext [OF k]] cd(1) page_inD(1) [OF d'] by (simp add: rows_def)
  ultimately show ?thesis by blast
qed

lemma cached_put_ok:
  assumes inv: "file_inv X f s" and c: "cached_insert_page f = Some fr" and v: "valid_rid f rid" and n: "page_no rid = cached_insert_page_no f"
    and free: "rows f s rid = None" and res: "rid_key rid \<notin> reserved_inserts f" and buf: "length buf = nat (record_size (file_hdr f))"
  shows "\<exists>f' s'. cached_put (slot_no rid) buf (f, s) = Some (Inr (), (f', s')) \<and> file_inv X f' s' \<and> rows_upd f s f' s' rid (Some buf)
    \<and> valid_rid f' rid \<and> reserved_inserts f' = reserved_inserts f"
proof -
  have h: "hdr_ok (file_hdr f)" by (rule base_okD(1) [OF file_invD(1) [OF inv]])
  note cd = cachedD [OF inv c] and k = valid_ridD [OF v]
  obtain d where d: "page_in f s (page_no rid) d" "pg_data (pages s fr) = d" using cd(7) n by auto
  have us: "\<not> slot_used (file_hdr f) d (slot_no rid)"
    using free k page_inD(1) [OF d(1)] by (simp add: rows_def row_def split: if_splits)
  let ?d = "put_record (file_hdr f) (slot_no rid) buf d"
  note pr = put_record_ok [OF h page_inD(2) [OF d(1)] k(2,3) us buf]
  have "good_page f (page_no rid) ?d"
    by (intro good_page_upd [OF inv d(1) k(1) pr(1), of "slot_no rid" "Some buf"])
      (use res page_inD(3) [OF d(1)] in \<open>simp_all add: pr(3,4)\<close>)
  then have s1: "file_inv X f (set_data fr ?d s)" "row_change f (page_no rid) ?d s (set_data fr ?d s)"
    using cached_store_ok [OF inv c] n by simp_all
  have ru: "rows_upd f s f (set_data fr ?d s) \<lparr>page_no = page_no rid, slot_no = slot_no rid\<rparr> (Some buf)"
    by (rule row_change_upd [OF s1(2) k(1) d(1)]) (simp add: pr(4))
  show ?thesis
  proof (cases "num_records ?d = num_records_per_page (file_hdr f)")
    case False
    then show ?thesis using s1(1) ru v cd(2) d(2)
      by (intro exI [of _ f] exI [of _ "set_data fr ?d s"]) (simp add: cached_put_def rm_simps Let_def)
  next
    case True
    let ?f = "set_first_free (next_free_page_no ?d) f"
    have i1: "file_inv X ?f (set_data fr ?d s)" using file_inv_first_free [OF s1(1)] page_inD(3) [OF d(1)] pr(3) by simp
    obtain f' s' where r: "release_cached (?f, set_data fr ?d s) = Some (Inr (), (f', s'))" "file_inv X f' s'"
        "same_rows ?f (set_data fr ?d s) f' s'" "same_file ?f f'"
      using release_cached_ok [OF i1] by blast
    have "cached_put (slot_no rid) buf (f, s) = Some (Inr (), (f', s'))"
      using True cd(2) d(2) r(1) by (simp add: cached_put_def rm_simps Let_def)
    moreover have "rows_upd f s f' s' rid (Some buf)" using ru r(3) by (simp add: rows_upd_def same_rows_def)
    moreover have "valid_rid f' rid" "reserved_inserts f' = reserved_inserts f"
      using v same_file_frame(3) [OF r(4)] r(4) by (simp_all add: same_file_def)
    ultimately show ?thesis using r(2) by blast
  qed
qed

text \<open>A new page.\<close>

abbreviation more_pages :: "RmFileHandle \<Rightarrow> RmFileHandle" where
  "more_pages f \<equiv> set_hdr (\<lambda>h. h\<lparr>num_pages := num_pages h + 1\<rparr>) f"

lemma num_pages_layout [simp]:
  "hdr_ok (h\<lparr>num_pages := n\<rparr>) = hdr_ok h" "page_ok (h\<lparr>num_pages := n\<rparr>) d = page_ok h d" "row (h\<lparr>num_pages := n\<rparr>) d k = row h d k"
  "bitmap_of (h\<lparr>num_pages := n\<rparr>) d = bitmap_of h d"
  by (simp_all add: hdr_ok_def page_ok_def bitmap_of_def row_def slot_used_def slot_data_def get_slot_def)

definition blank_page :: "RmFileHdr \<Rightarrow> int \<Rightarrow> bytes" where
  "blank_page h n = set_next_free_page_no n
     (set_bitmap (bm_init (nat (bitmap_size h))) (set_next_free_page_no RM_NO_PAGE (set_num_records 0 zero_page)))"

lemma blank_page_ok:
  assumes h: "hdr_ok h" and n: "in_s 4 n"
  shows "page_ok h (blank_page h n)" "row h (blank_page h n) k = None" "next_free_page_no (blank_page h n) = n"
    "bitmap_of h (blank_page h n) = bm_init (nat (bitmap_size h))"
proof -
  have z: "length zero_page = PAGE_SIZE" by simp
  note s1 = set_header_simps [OF z] and s2 = set_header_simps [OF s1(2) [of 0]]
  have lb: "length (bm_init (nat (bitmap_size h))) = nat (bitmap_size h)" by simp
  note s3 = set_bitmap_simps [OF h s2(1) [of RM_NO_PAGE] lb] and s4 = set_header_simps [OF s3(1)]
  have nr: "num_records (blank_page h n) = 0"
    using s1(4) [of 0] by (simp add: blank_page_def s4(5) s3(3) s2(5) in_s_def)
  show bm: "bitmap_of h (blank_page h n) = bm_init (nat (bitmap_size h))" by (simp add: blank_page_def s4(7) s3(2))
  have "nat (num_records_per_page h) \<le> 8 * nat (bitmap_size h)" using hdr_okD(5,6) [OF h] by linarith
  then have "bm.used (bm_init (nat (bitmap_size h))) (nat (num_records_per_page h)) = {}" by (rule bm_used_init)
  then show "page_ok h (blank_page h n)" using nr bm by (simp add: page_ok_def blank_page_def s4(1))
  show "row h (blank_page h n) k = None"
    using hdr_okD(6) [OF h] by (auto simp: row_def slot_used_def bm nat_less_iff)
  show "next_free_page_no (blank_page h n) = n" using n by (simp add: blank_page_def s4(3))
qed

lemma fresh_key:
  assumes b: "base_ok f" and rs: "res_ok f s" and k: "0 \<le> k" "k < num_records_per_page (file_hdr f)"
  shows "rid_key \<lparr>page_no = num_pages (file_hdr f), slot_no = k\<rparr> \<notin> reserved_inserts f"
proof
  let ?r = "\<lparr>page_no = num_pages (file_hdr f), slot_no = k\<rparr>"
  assume "rid_key ?r \<in> reserved_inserts f"
  then obtain rid where r: "rid_key ?r = rid_key rid" "valid_rid f rid" using rs by (auto simp: res_ok_def)
  have "in_s 4 (page_no ?r)" "in_s 4 (slot_no ?r)"
    using base_okD(4,5) [OF b] k hdr_okD(4) [OF base_okD(1) [OF b]] by (simp_all add: in_s_def)
  then have "?r = rid" using rid_key_eq [OF _ _ valid_rid_in_s [OF b r(2)] r(1)] by blast
  then show False using r(2) by (auto simp: valid_rid_def in_file_def)
qed

lemma more_pages_frame:
  assumes "base_ok f"
  shows "in_file (more_pages f) m \<longleftrightarrow> in_file f m \<or> m = num_pages (file_hdr f)"
    "link_ok (file_hdr f) m \<Longrightarrow> link_ok (file_hdr (more_pages f)) m"
  using base_okD(4) [OF assms] by (auto simp: in_file_def link_ok_def)

text \<open>
  The state after a page was created and its content, linked to \<open>m\<close>, was stored in frame \<open>g\<close>: the file has one more page, which is
  empty and pinned, and all other pages are as before.
\<close>

definition grown :: "PageId set \<Rightarrow> RmFileHandle \<Rightarrow> int \<Rightarrow> frame_id_t \<Rightarrow> bpm \<Rightarrow> bpm \<Rightarrow> bool" where
  "grown X f m g s s' \<longleftrightarrow>
     (let n = num_pages (file_hdr f); p = rm_pid f n
      in base_ok (more_pages f) \<and> in_file (more_pages f) n \<and> store_ok (more_pages f) s' \<and> res_ok (more_pages f) s'
         \<and> (\<forall>rid. rows (more_pages f) s' rid = rows f s rid) \<and> pool_ok (insert p X) s' \<and> lookup s' p = Some g
         \<and> pg_data (pages s' g) = blank_page (file_hdr f) m
         \<and> (\<forall>q y. pid_range q \<longrightarrow> q \<noteq> p \<longrightarrow> page_view s q = Some y \<longrightarrow> page_view s' q = Some y)
         \<and> (\<forall>q. pid_range q \<longrightarrow> pins s' q = (if q = p then 1 else pins s q))
         \<and> (\<forall>q. pid_range q \<longrightarrow> q \<noteq> p \<longrightarrow> lookup s' q \<noteq> None \<longrightarrow> lookup s q \<noteq> None)
         \<and> (\<forall>q. pid_ok (bp_disk s') q = pid_ok (bp_disk s) q)
         \<and> fd2pageno (bp_disk s') = (fd2pageno (bp_disk s))(rm_fd f := fd2pageno (bp_disk s) (rm_fd f) + 1))"

lemma grownD:
  assumes "grown X f m g s s'"
  shows "base_ok (more_pages f)" "in_file (more_pages f) (num_pages (file_hdr f))" "store_ok (more_pages f) s'"
    "res_ok (more_pages f) s'" "rows (more_pages f) s' rid = rows f s rid" "pool_ok (insert (rm_pid f (num_pages (file_hdr f))) X) s'"
    "lookup s' (rm_pid f (num_pages (file_hdr f))) = Some g" "pg_data (pages s' g) = blank_page (file_hdr f) m"
    "pid_range q \<Longrightarrow> q \<noteq> rm_pid f (num_pages (file_hdr f)) \<Longrightarrow> page_view s q = Some y \<Longrightarrow> page_view s' q = Some y"
    "pid_range q \<Longrightarrow> pins s' q = (if q = rm_pid f (num_pages (file_hdr f)) then 1 else pins s q)"
    "pid_range q \<Longrightarrow> q \<noteq> rm_pid f (num_pages (file_hdr f)) \<Longrightarrow> lookup s' q \<noteq> None \<Longrightarrow> lookup s q \<noteq> None"
    "pid_ok (bp_disk s') q = pid_ok (bp_disk s) q"
    "fd2pageno (bp_disk s') = (fd2pageno (bp_disk s))(rm_fd f := fd2pageno (bp_disk s) (rm_fd f) + 1)"
  using assms unfolding grown_def Let_def by blast+

lemma grown_store:
  assumes inv: "file_inv X f s" and big: "num_pages (file_hdr f) + 1 < 2 ^ 31"
    and n: "n = num_pages (file_hdr f)" and d: "page_view s' (rm_pid f n) = Some d" "page_ok (file_hdr f) d" "link_ok (file_hdr f) (next_free_page_no d)"
    and old: "\<And>q y. pid_range q \<Longrightarrow> q \<noteq> rm_pid f n \<Longrightarrow> page_view s q = Some y \<Longrightarrow> page_view s' q = Some y"
    and res: "\<And>q. pid_range q \<Longrightarrow> q \<noteq> rm_pid f n \<Longrightarrow> lookup s' q \<noteq> None \<Longrightarrow> lookup s q \<noteq> None"
    and dk: "\<And>q. pid_ok (bp_disk s') q = pid_ok (bp_disk s) q" "fd2pageno (bp_disk s') (rm_fd f) = n + 1"
  shows "base_ok (more_pages f)" "store_ok (more_pages f) s'"
proof -
  note b = file_invD(1) [OF inv] and st = file_invD(2) [OF inv] and sd = store_okD [OF st]
  show "base_ok (more_pages f)" using b big more_pages_frame(2) [OF b base_okD(6) [OF b]] by (simp add: base_ok_def)
  have pr: "pid_range (rm_pid f n)" using rm_pid_range [OF b, of n] base_okD(4) [OF b] n by simp
  have v: "pid_ok (bp_disk s) (rm_pid f n)" using rm_pid_ok [OF b st, of n] base_okD(4) [OF b] n by simp
  show "store_ok (more_pages f) s'"
    unfolding store_ok_def
  proof (intro conjI allI impI)
    show "fd2pageno (bp_disk s') (rm_fd (more_pages f)) = num_pages (file_hdr (more_pages f))" using dk(2) n by simp
    show "file_of (bp_disk s') (rm_fd (more_pages f)) \<noteq> None" using dk(1) [of "rm_pid f n"] v by (simp add: pid_ok_def)
    fix m
    show "\<exists>d. page_in (more_pages f) s' m d" if m: "in_file (more_pages f) m"
    proof (cases "m = n")
      case True
      have "page_in (more_pages f) s' n d" unfolding page_in_def using d more_pages_frame(2) [OF b] by simp
      then show ?thesis using True by blast
    next
      case False
      then have m': "in_file f m" using m more_pages_frame(1) [OF b] n by simp
      obtain e where e: "page_in f s m e" using sd(3) [OF m'] by blast
      have "page_view s' (rm_pid f m) = Some e"
        using old page_inD(1) [OF e] rm_pid_range(1) [OF b] in_fileD [OF m'] False by simp
      then have "page_in (more_pages f) s' m e" unfolding page_in_def using page_inD(2,3) [OF e] more_pages_frame(2) [OF b] by simp
      then show ?thesis by blast
    qed
    show "m < num_pages (file_hdr (more_pages f))" if m: "in_s 4 m" "lookup s' (rm_pid (more_pages f) m) \<noteq> None"
    proof (cases "m = n")
      case False
      have "pid_range (rm_pid f m)" using pr m(1) by (simp add: pid_range_def)
      then have "lookup s (rm_pid f m) \<noteq> None" using res m(2) False by simp
      then show ?thesis using sd(4) [OF m(1)] by simp
    qed (simp add: n)
  qed
qed

lemma rows_other_pages:
  assumes b: "base_ok f" and st: "store_ok f s"
    and old: "\<And>q y. pid_range q \<Longrightarrow> q \<noteq> rm_pid f (num_pages (file_hdr f)) \<Longrightarrow> page_view s q = Some y \<Longrightarrow> page_view t q = Some y"
  shows "rows f t rid = rows f s rid"
proof (cases "in_file f (page_no rid)")
  case True
  have rng: "pid_range (rm_pid f (page_no rid))" using rm_pid_range [OF b] in_fileD [OF True] by simp
  obtain e where "page_in f s (page_no rid) e" using store_okD(3) [OF st True] by blast
  then have "page_view s (rm_pid f (page_no rid)) = Some e" by (rule page_inD(1))
  moreover from this have "page_view t (rm_pid f (page_no rid)) = Some e" using old rng in_fileD [OF True] by simp
  ultimately show ?thesis by (simp add: rows_def)
qed (simp add: rows_def)

lemma new_page_grown:
  assumes inv: "file_inv X f s" and c: "cached_insert_page f = None" and big: "num_pages (file_hdr f) + 1 < 2 ^ 31"
  shows "\<exists>r s1. new_page (rm_fd f) s = (Inr r, s1) \<and>
    (case r of None \<Rightarrow> \<forall>rid. rows f s1 rid = rows f s rid
     | Some (g, p) \<Rightarrow> p = rm_pid f (num_pages (file_hdr f)) \<and> pg_data (pages s1 g) = zero_page \<and> pg_id (pages s1 g) = p
         \<and> (\<forall>m. link_ok (file_hdr f) m \<longrightarrow> grown X f m g s (set_data g (blank_page (file_hdr f) m) s1)))"
proof -
  note b = file_invD(1) [OF inv] and st = file_invD(2) [OF inv] and sd = store_okD [OF st]
  let ?n = "num_pages (file_hdr f)" and ?h = "file_hdr f"
  let ?p = "rm_pid f ?n"
  have h: "hdr_ok ?h" by (rule base_okD(1) [OF b])
  have v: "pid_ok (bp_disk s) ?p" using rm_pid_ok [OF b st, of ?n] base_okD(4) [OF b] by simp
  have pr: "pid_range ?p" "in_s 4 ?n" using rm_pid_range [OF b, of ?n] base_okD(4) [OF b] by simp_all
  have pe: "?p = \<lparr>pg_fd = rm_fd f, pg_no = fd2pageno (bp_disk s) (rm_fd f)\<rparr>" using sd(1) by (simp add: rm_pid_def)
  have nl: "lookup s ?p = None" using sd(4) [OF pr(2)] by fastforce
  have ok: "pool_ok X s" using file_invD(5) [OF inv] c by (simp add: cache_set_def)
  obtain r s1 where r: "new_page (rm_fd f) s = (Inr r, s1)"
      "fd2pageno (bp_disk s1) = (fd2pageno (bp_disk s))(rm_fd f := fd2pageno (bp_disk s) (rm_fd f) + 1)"
      "\<forall>q. pid_ok (bp_disk s1) q = pid_ok (bp_disk s) q" and
    rr: "case r of None \<Rightarrow> pool_ok X s1 \<and> (\<forall>q. lookup s1 q = lookup s q \<and> pins s1 q = pins s q)
             \<and> (\<forall>q y. pid_range q \<longrightarrow> page_view s q = Some y \<longrightarrow> page_view s1 q = Some y)
         | Some (g, p') \<Rightarrow> p' = ?p \<and> pool_ok (insert ?p X) s1 \<and> lookup s1 ?p = Some g \<and> page_view s1 ?p = Some zero_page
             \<and> (\<forall>q y. pid_range q \<longrightarrow> q \<noteq> ?p \<longrightarrow> page_view s q = Some y \<longrightarrow> page_view s1 q = Some y)
             \<and> (\<forall>q. pid_range q \<longrightarrow> pins s1 q = (if q = ?p then 1 else pins s q))
             \<and> (\<forall>q. pid_range q \<longrightarrow> 0 < pins s q \<longrightarrow> lookup s1 q = lookup s q)
             \<and> (\<forall>q. pid_range q \<longrightarrow> q \<noteq> ?p \<longrightarrow> lookup s1 q \<noteq> None \<longrightarrow> lookup s q \<noteq> None)"
    using pool_create_law [OF ok base_okD(2,3) [OF b] pe v nl] by blast
  show ?thesis
  proof (cases r)
    case None
    then show ?thesis using rows_other_pages [OF b st, of s1] rr r(1) by auto
  next
    case (Some a)
    obtain g where a: "a = (g, ?p)" using rr Some by (cases a) simp
    have ok1: "pool_ok (insert ?p X) s1" and lk1: "lookup s1 ?p = Some g" and v1: "page_view s1 ?p = Some zero_page"
      and old1: "\<forall>q y. pid_range q \<longrightarrow> q \<noteq> ?p \<longrightarrow> page_view s q = Some y \<longrightarrow> page_view s1 q = Some y"
      and pin1: "\<forall>q. pid_range q \<longrightarrow> pins s1 q = (if q = ?p then 1 else pins s q)"
      and rs1: "\<forall>q. pid_range q \<longrightarrow> q \<noteq> ?p \<longrightarrow> lookup s1 q \<noteq> None \<longrightarrow> lookup s q \<noteq> None"
      using rr Some a by simp_all
    have dat: "pg_data (pages s1 g) = zero_page" using v1 lk1 by (simp add: page_view_def)
    have id: "pg_id (pages s1 g) = ?p" by (rule lookup_pid [OF bpm_invD(1) [OF pool_okD(1) [OF ok1]] lk1 pr(1)])
    have "grown X f m g s (set_data g (blank_page ?h m) s1)" if m: "link_ok ?h m" for m
    proof -
      let ?d = "blank_page ?h m" and ?s = "set_data g (blank_page ?h m) s1"
      note bp = blank_page_ok [OF h link_in_s [OF b m]]
      have len: "length ?d = PAGE_SIZE" using bp(1) by (simp add: page_ok_def)
      have sl: "pool_ok (insert ?p X) ?s" "\<And>q. pid_range q \<Longrightarrow> page_view ?s q = (if q = ?p then Some ?d else page_view s1 q)"
        "\<And>q. lookup ?s q = lookup s1 q \<and> pins ?s q = pins s1 q \<and> pid_ok (bp_disk ?s) q = pid_ok (bp_disk s1) q"
        "fd2pageno (bp_disk ?s) = fd2pageno (bp_disk s1)"
        using pool_store_law [OF ok1 lk1 pr(1) _ len] pin1 pr(1) by simp_all
      have old2: "\<And>q y. pid_range q \<Longrightarrow> q \<noteq> ?p \<Longrightarrow> page_view s q = Some y \<Longrightarrow> page_view ?s q = Some y" using sl(2) old1 by simp
      have rs2: "\<And>q. pid_range q \<Longrightarrow> q \<noteq> ?p \<Longrightarrow> lookup ?s q \<noteq> None \<Longrightarrow> lookup s q \<noteq> None" using rs1 sl(3) by simp
      have dk: "\<And>q. pid_ok (bp_disk ?s) q = pid_ok (bp_disk s) q" "fd2pageno (bp_disk ?s) (rm_fd f) = ?n + 1"
        using sl(3,4) r(2,3) sd(1) by simp_all
      have pv: "page_view ?s ?p = Some ?d" using sl(2) [OF pr(1)] by simp
      have lm: "link_ok ?h (next_free_page_no ?d)" using bp(3) m by simp
      note gs = grown_store [OF inv big refl pv bp(1) lm old2 rs2 dk]
      have in1: "in_file (more_pages f) ?n" using more_pages_frame(1) [OF b] by simp
      have rows1: "rows (more_pages f) ?s rid = rows f s rid" for rid
      proof (cases "page_no rid = ?n")
        case True
        have "rows (more_pages f) ?s rid = None" using True in1 pv bp(2) by (simp add: rows_def)
        moreover have "rows f s rid = None" using True by (simp add: rows_def in_file_def)
        ultimately show ?thesis by simp
      next
        case False
        then have "rows (more_pages f) ?s rid = rows f ?s rid" using more_pages_frame(1) [OF b] by (simp add: rows_def split: option.split)
        moreover have "rows f ?s rid = rows f s rid" by (rule rows_other_pages [OF b st]) (rule old2)
        ultimately show ?thesis by (rule trans)
      qed
      have res1: "res_ok (more_pages f) ?s"
        using file_invD(4) [OF inv] more_pages_frame(1) [OF b] unfolding res_ok_def rows1 by (auto simp: valid_rid_def)
      show ?thesis
        unfolding grown_def Let_def
      proof (intro conjI)
        show "lookup ?s ?p = Some g" using sl(3) lk1 by simp
        show "pg_data (pages ?s g) = ?d" by simp
        show "\<forall>q y. pid_range q \<longrightarrow> q \<noteq> ?p \<longrightarrow> page_view s q = Some y \<longrightarrow> page_view ?s q = Some y" using old2 by blast
        show "\<forall>q. pid_range q \<longrightarrow> pins ?s q = (if q = ?p then 1 else pins s q)" using sl(3) pin1 by metis
        show "\<forall>q. pid_range q \<longrightarrow> q \<noteq> ?p \<longrightarrow> lookup ?s q \<noteq> None \<longrightarrow> lookup s q \<noteq> None" using rs2 by blast
        show "fd2pageno (bp_disk ?s) = (fd2pageno (bp_disk s))(rm_fd f := fd2pageno (bp_disk s) (rm_fd f) + 1)" using sl(4) r(2) by metis
      qed (use gs in1 res1 rows1 sl(1) dk(1) in blast)+
    qed
    then show ?thesis using r(1) Some a dat id by auto
  qed
qed

lemma cache_new_page_ok:
  assumes inv: "file_inv X f s" and c: "cached_insert_page f = None" and big: "num_pages (file_hdr f) + 1 < 2 ^ 31"
  shows "\<exists>r f' s'. cache_new_page (f, s) = Some (r, (f', s')) \<and> same_rows f s f' s' \<and>
    (case r of
       Inl e \<Rightarrow> e = InternalError ''RmFileHandle::create_new_page_handle: new_page failed''
     | Inr _ \<Rightarrow> file_inv X f' s' \<and> (\<exists>fr. cached_insert_page f' = Some fr) \<and> 0 \<le> find_free_slot_on_cached_page f' s'
         \<and> reserved_inserts f' = reserved_inserts f \<and> record_size (file_hdr f') = record_size (file_hdr f))"
proof -
  note b = file_invD(1) [OF inv]
  let ?n = "num_pages (file_hdr f)" and ?h = "file_hdr f" and ?ff = "first_free_page_no (file_hdr f)"
  let ?p = "rm_pid f ?n"
  have h: "hdr_ok ?h" and ff: "link_ok ?h ?ff" by (rule base_okD(1,6) [OF b])+
  have pr: "pid_range ?p" using rm_pid_range [OF b, of ?n] base_okD(4) [OF b] by simp
  obtain r s1 where r: "new_page (rm_fd f) s = (Inr r, s1)" and
    rr: "case r of None \<Rightarrow> \<forall>rid. rows f s1 rid = rows f s rid
     | Some (g, p) \<Rightarrow> p = ?p \<and> pg_data (pages s1 g) = zero_page \<and> pg_id (pages s1 g) = p
         \<and> (\<forall>m. link_ok ?h m \<longrightarrow> grown X f m g s (set_data g (blank_page ?h m) s1))"
    using new_page_grown [OF inv c big] by blast
  show ?thesis
  proof (cases r)
    case None
    then have "cache_new_page (f, s) = Some (Inl (InternalError ''RmFileHandle::create_new_page_handle: new_page failed''), (f, s1))"
      using r(1) by (simp add: cache_new_page_def create_new_page_handle_def rm_simps)
    then show ?thesis using rr None by (auto simp: same_rows_def)
  next
    case (Some a)
    obtain g where a: "a = (g, ?p)" using rr Some by (cases a) simp
    let ?d = "blank_page ?h ?ff" and ?s = "set_data g (blank_page ?h ?ff) s1"
    have dat: "pg_data (pages s1 g) = zero_page" and id: "pg_id (pages s1 g) = ?p" and gr: "grown X f ?ff g s ?s"
      using rr Some a ff by simp_all
    note bp = blank_page_ok [OF h link_in_s [OF b ff]] and gd = grownD [OF gr]
    let ?f1 = "more_pages f"
    let ?f = "set_first_free ?n (fill_cache g ?n ?f1)"
    have run: "cache_new_page (f, s) = Some (Inr (), (?f, ?s))"
      using r(1) Some a id dat
      by (simp add: cache_new_page_def create_new_page_handle_def rm_simps Let_def blank_page_def)
    have pin: "0 < pins ?s ?p" using gd(10) [OF pr] by simp
    have "file_inv X (fill_cache g ?n ?f1) ?s"
      using file_inv_fill [OF gd(1,3,4,2), of g X] gd(6,7) pin file_invD(6) [OF inv] by simp
    then have i: "file_inv X ?f ?s" by (rule file_inv_first_free) (use gd(2) in \<open>simp add: in_file_def link_ok_def\<close>)
    have "0 \<le> find_free_slot_on_cached_page ?f ?s"
    proof -
      let ?r = "free_slot_loop ?h (reserved_inserts f) ?n (bitmap_of ?h ?d) (-1)"
      have "find_free_slot_on_cached_page ?f ?s = ?r"
        using base_okD(4) [OF b] by (simp add: find_free_slot_on_cached_page_def)
      moreover have "?r \<noteq> -1"
      proof
        assume "?r = -1"
        then have "rid_key \<lparr>page_no = ?n, slot_no = 0\<rparr> \<in> reserved_inserts f"
          using free_slot_loop_spec [of "-1" ?h "reserved_inserts f" ?n "bitmap_of ?h ?d"] hdr_okD(3,5) [OF h] by (simp add: bp(4))
        then show False using fresh_key [OF b file_invD(4) [OF inv], of 0] hdr_okD(3) [OF h] by simp
      qed
      ultimately show ?thesis
        using free_slot_loop_spec [of "-1" ?h "reserved_inserts f" ?n "bitmap_of ?h ?d"] by auto
    qed
    moreover have "same_rows f s ?f ?s"
      using gd(5) same_file_frame(5) [OF same_file_cache(2)] by (simp add: same_rows_def)
    ultimately show ?thesis using run i by (intro exI [of _ "Inr ()"] exI [of _ ?f] exI [of _ ?s]) simp
  qed
qed

subsection \<open>Insertion\<close>

definition insert_failure :: "db_error \<Rightarrow> bool" where
  "insert_failure e \<longleftrightarrow> (\<exists>n. e = PageNotExistError '''' n) \<or> e = InternalError ''RmFileHandle::create_new_page_handle: new_page failed''"

text \<open>After \<open>ensure_insert_page_cached\<close> a page with an unreserved free slot is cached, or the pool had no frame.\<close>

lemma same_rows_trans: "same_rows f s g t \<Longrightarrow> same_rows g t f' s' \<Longrightarrow> same_rows f s f' s'"
  by (simp add: same_rows_def)

definition ready :: "PageId set \<Rightarrow> RmFileHandle \<Rightarrow> RmFileHandle \<Rightarrow> bpm \<Rightarrow> bool" where
  "ready X f f' s' \<longleftrightarrow> file_inv X f' s' \<and> (\<exists>fr. cached_insert_page f' = Some fr) \<and> 0 \<le> find_free_slot_on_cached_page f' s'
     \<and> reserved_inserts f' = reserved_inserts f \<and> record_size (file_hdr f') = record_size (file_hdr f)"

lemma cache_new_page_ready:
  assumes inv: "file_inv X g t" and c: "cached_insert_page g = None" and big: "num_pages (file_hdr g) + 1 < 2 ^ 31" and sf: "same_file f g"
  shows "\<exists>r f' s'. cache_new_page (g, t) = Some (r, (f', s')) \<and> same_rows g t f' s' \<and>
    (case r of Inl e \<Rightarrow> insert_failure e | Inr _ \<Rightarrow> ready X f f' s')"
proof -
  obtain r f' s' where r: "cache_new_page (g, t) = Some (r, (f', s'))" "same_rows g t f' s'" and
    rr: "case r of
       Inl e \<Rightarrow> e = InternalError ''RmFileHandle::create_new_page_handle: new_page failed''
     | Inr _ \<Rightarrow> file_inv X f' s' \<and> (\<exists>fr. cached_insert_page f' = Some fr) \<and> 0 \<le> find_free_slot_on_cached_page f' s'
         \<and> reserved_inserts f' = reserved_inserts g \<and> record_size (file_hdr f') = record_size (file_hdr g)"
    using cache_new_page_ok [OF inv c big] by blast
  then show ?thesis using sf by (cases r) (auto simp: insert_failure_def ready_def same_file_def)
qed

lemma ensure_insert_page_cached_ok:
  assumes inv: "file_inv X f s" and big: "num_pages (file_hdr f) + 1 < 2 ^ 31"
  shows "\<exists>r f' s'. ensure_insert_page_cached (f, s) = Some (r, (f', s')) \<and> same_rows f s f' s' \<and>
    (case r of Inl e \<Rightarrow> insert_failure e | Inr _ \<Rightarrow> ready X f f' s')"
proof (cases "0 \<le> find_free_slot_on_cached_page f s")
  case True
  then obtain fr where "cached_insert_page f = Some fr"
    using file_invD(3) [OF inv] find_free_uncached [of f s] by (auto simp: cache_ok_def split: option.splits)
  then have "ready X f f s" using inv True by (simp add: ready_def)
  then show ?thesis using True
    by (intro exI [of _ "Inr ()"] exI [of _ f] exI [of _ s]) (simp add: ensure_insert_page_cached_def rm_find_free_def rm_simps same_rows_def)
next
  case False
  obtain f1 s1 where r1: "release_cached (f, s) = Some (Inr (), (f1, s1))" "file_inv X f1 s1" "same_rows f s f1 s1" "same_file f f1"
      "cached_insert_page f1 = None" "cached_insert_page_no f1 = -1"
    using release_cached_ok [OF inv] by blast
  let ?n = "first_free_page_no (file_hdr f)"
  have h1: "file_hdr f1 = file_hdr f" using r1(4) by (simp add: same_file_def)
  show ?thesis
  proof (cases "?n = RM_NO_PAGE")
    case True
    obtain r f' s' where "cache_new_page (f1, s1) = Some (r, (f', s'))" "same_rows f1 s1 f' s'"
        "case r of Inl e \<Rightarrow> insert_failure e | Inr _ \<Rightarrow> ready X f f' s'"
      using cache_new_page_ready [OF r1(2,5) _ r1(4)] big h1 by auto
    moreover from this(1) have "ensure_insert_page_cached (f, s) = Some (r, (f', s'))"
      using False True r1(1) h1 by (simp add: ensure_insert_page_cached_def rm_find_free_def rm_simps)
    ultimately show ?thesis using same_rows_trans [OF r1(3)] by blast
  next
    case nn: False
    have i1: "in_file f1 ?n" using link_in_file [of f1 ?n] base_okD(6) [OF file_invD(1) [OF inv]] h1 nn by simp
    show ?thesis
    proof (cases "no_frame f1 ?n s1")
      case True
      then have "ensure_insert_page_cached (f, s) = Some (Inl (PageNotExistError '''' ?n), (f1, s1))"
        using False nn r1(1) h1 fetch_handle_none [OF True i1] by (simp add: ensure_insert_page_cached_def rm_find_free_def rm_simps)
      then show ?thesis using r1(3) by (auto simp: insert_failure_def)
    next
      case nf: False
      obtain fr s2 where c2: "fetch_page_handle ?n (f1, s1) = Some (Inr fr, (f1, s2))" "pg_id (pages s2 fr) = rm_pid f1 ?n"
          "file_inv X (fill_cache fr ?n f1) s2" "same_rows f1 s1 (fill_cache fr ?n f1) s2"
        using cache_fetch_ok [OF r1(2,5) i1 nf] by blast
      let ?f2 = "fill_cache fr ?n f1"
      have sr2: "same_rows f s ?f2 s2" by (rule same_rows_trans [OF r1(3) c2(4)])
      show ?thesis
      proof (cases "0 \<le> find_free_slot_on_cached_page ?f2 s2")
        case True
        have "ready X f ?f2 s2" using c2(3) True r1(4) by (simp add: ready_def same_file_def)
        moreover have "ensure_insert_page_cached (f, s) = Some (Inr (), (?f2, s2))"
          using False nn r1(1) h1 c2(1,2) True by (simp add: ensure_insert_page_cached_def rm_find_free_def rm_simps)
        ultimately show ?thesis using sr2 by auto
      next
        case full: False
        let ?f3 = "?f2\<lparr>cached_insert_page := None, cached_insert_page_no := -1\<rparr>"
        have sf3: "same_file ?f2 ?f3" by (simp add: same_file_def)
        obtain s3 where s3: "unpin_page (rm_pid ?f2 ?n) True s2 = (True, s3)" "file_inv X ?f3 s3" "same_rows ?f2 s2 ?f3 s3"
          using uncache_ok [OF c2(3) _ sf3] by auto
        have sf: "same_file f ?f3" using r1(4) by (simp add: same_file_def)
        have big3: "num_pages (file_hdr ?f3) + 1 < 2 ^ 31" using big h1 by simp
        obtain r f' s' where cn: "cache_new_page (?f3, s3) = Some (r, (f', s'))" "same_rows ?f3 s3 f' s'"
            "case r of Inl e \<Rightarrow> insert_failure e | Inr _ \<Rightarrow> ready X f f' s'"
          using cache_new_page_ready [OF s3(2) _ big3 sf] by auto
        have u: "snd (unpin_page (rm_pid f1 ?n) True s2) = s3" using s3(1) by (simp add: rm_pid_def)
        have "ensure_insert_page_cached (f, s) = Some (r, (f', s'))"
          using False nn r1(1) h1 c2(1,2) full u cn(1)
          by (simp add: ensure_insert_page_cached_def rm_find_free_def rm_simps)
        then show ?thesis using same_rows_trans [OF same_rows_trans [OF sr2 s3(3)] cn(2)] cn(3) by blast
      qed
    qed
  qed
qed

lemma insert_record_ok:
  assumes inv: "file_inv X f s" and big: "num_pages (file_hdr f) + 1 < 2 ^ 31" and buf: "length buf = nat (record_size (file_hdr f))"
  shows "\<exists>r f' s'. insert_record buf (f, s) = Some (r, (f', s')) \<and>
    (case r of Inl e \<Rightarrow> insert_failure e \<and> same_rows f s f' s'
     | Inr rid \<Rightarrow> file_inv X f' s' \<and> valid_rid f' rid \<and> rows f s rid = None \<and> rid_key rid \<notin> reserved_inserts f
         \<and> rows_upd f s f' s' rid (Some buf) \<and> reserved_inserts f' = reserved_inserts f)"
proof -
  obtain r f1 s1 where e: "ensure_insert_page_cached (f, s) = Some (r, (f1, s1))" "same_rows f s f1 s1"
      "case r of Inl e \<Rightarrow> insert_failure e | Inr _ \<Rightarrow> ready X f f1 s1"
    using ensure_insert_page_cached_ok [OF inv big] by blast
  show ?thesis
  proof (cases r)
    case (Inl er)
    then show ?thesis using e by (intro exI [of _ "Inl er"] exI [of _ f1] exI [of _ s1]) (simp add: insert_record_def rm_simps)
  next
    case (Inr u)
    let ?k = "find_free_slot_on_cached_page f1 s1"
    have i1: "file_inv X f1 s1" "0 \<le> ?k" "reserved_inserts f1 = reserved_inserts f" "record_size (file_hdr f1) = record_size (file_hdr f)"
      using e(3) Inr by (simp_all add: ready_def)
    obtain fr where c: "cached_insert_page f1 = Some fr" using e(3) Inr by (auto simp: ready_def)
    let ?rid = "\<lparr>page_no = cached_insert_page_no f1, slot_no = ?k\<rparr>"
    note ff = find_free_ok [OF i1(1) c refl i1(2)]
    obtain f2 s2 where p: "cached_put (slot_no ?rid) buf (f1, s1) = Some (Inr (), (f2, s2))" "file_inv X f2 s2"
        "rows_upd f1 s1 f2 s2 ?rid (Some buf)" "valid_rid f2 ?rid" "reserved_inserts f2 = reserved_inserts f1"
      using cached_put_ok [OF i1(1) c ff(1) _ ff(2,3), of buf] buf i1(4) by auto
    have "insert_record buf (f, s) = Some (Inr ?rid, (f2, s2))"
      using e(1) Inr i1(2) p(1) by (simp add: insert_record_def rm_find_free_def rm_simps)
    moreover have "rows f s ?rid = None" "rows_upd f s f2 s2 ?rid (Some buf)"
      using ff(2) p(3) e(2) by (simp_all add: same_rows_def rows_upd_def)
    ultimately show ?thesis using p(2,4,5) ff(3) i1(3)
      by (intro exI [of _ "Inr ?rid"] exI [of _ f2] exI [of _ s2]) simp
  qed
qed

lemma file_inv_reserved:
  assumes inv: "file_inv X f s" and R: "\<forall>k \<in> R. \<exists>rid. k = rid_key rid \<and> valid_rid f rid \<and> rows f s rid = None"
  shows "file_inv X (f\<lparr>reserved_inserts := R\<rparr>) s" "rows (f\<lparr>reserved_inserts := R\<rparr>) s rid = rows f s rid"
    "valid_rid (f\<lparr>reserved_inserts := R\<rparr>) rid = valid_rid f rid"
proof -
  let ?f = "f\<lparr>reserved_inserts := R\<rparr>"
  have p: "rm_pid ?f n = rm_pid f n" "in_file ?f n = in_file f n" for n by (simp_all add: rm_pid_def in_file_def)
  show r: "rows ?f s rid = rows f s rid" and v: "valid_rid ?f rid = valid_rid f rid" for rid
    by (simp_all add: rows_def p valid_rid_def split: option.split)
  have "base_ok ?f = base_ok f" "store_ok ?f s = store_ok f s" "cache_ok ?f s = cache_ok f s" "cache_set ?f = cache_set f"
    by (simp_all add: base_ok_def store_ok_def page_in_def cache_ok_def cache_set_def p split: option.split)
  moreover have "res_ok ?f s" using R by (simp add: res_ok_def r v)
  ultimately show "file_inv X ?f s" using inv by (simp add: file_inv_def)
qed

lemma reserve_insert_slot_ok:
  assumes inv: "file_inv X f s" and big: "num_pages (file_hdr f) + 1 < 2 ^ 31"
  shows "\<exists>r f' s'. reserve_insert_slot (f, s) = Some (r, (f', s')) \<and> same_rows f s f' s' \<and>
    (case r of Inl e \<Rightarrow> insert_failure e
     | Inr rid \<Rightarrow> file_inv X f' s' \<and> valid_rid f' rid \<and> rows f s rid = None \<and> rid_key rid \<notin> reserved_inserts f
         \<and> reserved_inserts f' = insert (rid_key rid) (reserved_inserts f))"
proof -
  obtain r f1 s1 where e: "ensure_insert_page_cached (f, s) = Some (r, (f1, s1))" "same_rows f s f1 s1"
      "case r of Inl e \<Rightarrow> insert_failure e | Inr _ \<Rightarrow> ready X f f1 s1"
    using ensure_insert_page_cached_ok [OF inv big] by blast
  show ?thesis
  proof (cases r)
    case (Inl er)
    then show ?thesis using e by (intro exI [of _ "Inl er"] exI [of _ f1] exI [of _ s1]) (simp add: reserve_insert_slot_def rm_simps)
  next
    case (Inr u)
    let ?k = "find_free_slot_on_cached_page f1 s1"
    have i1: "file_inv X f1 s1" "0 \<le> ?k" "reserved_inserts f1 = reserved_inserts f" using e(3) Inr by (simp_all add: ready_def)
    obtain fr where c: "cached_insert_page f1 = Some fr" using e(3) Inr by (auto simp: ready_def)
    let ?rid = "\<lparr>page_no = cached_insert_page_no f1, slot_no = ?k\<rparr>"
    note ff = find_free_ok [OF i1(1) c refl i1(2)]
    let ?f = "f1\<lparr>reserved_inserts := insert (rid_key ?rid) (reserved_inserts f1)\<rparr>"
    have R: "\<forall>k \<in> insert (rid_key ?rid) (reserved_inserts f1). \<exists>rid. k = rid_key rid \<and> valid_rid f1 rid \<and> rows f1 s1 rid = None"
    proof
      fix k assume "k \<in> insert (rid_key ?rid) (reserved_inserts f1)"
      then consider "k = rid_key ?rid" | "k \<in> reserved_inserts f1" by blast
      then show "\<exists>rid. k = rid_key rid \<and> valid_rid f1 rid \<and> rows f1 s1 rid = None"
      proof cases
        case 1
        then show ?thesis using ff(1,2) by blast
      next
        case 2
        then show ?thesis using file_invD(4) [OF i1(1)] by (simp add: res_ok_def)
      qed
    qed
    note fr = file_inv_reserved [OF i1(1) R]
    have "reserve_insert_slot (f, s) = Some (Inr ?rid, (?f, s1))"
      using e(1) Inr i1(2) by (simp add: reserve_insert_slot_def rm_find_free_def rm_simps)
    moreover have "same_rows f s ?f s1" using e(2) fr(2) by (simp add: same_rows_def)
    moreover have "rows f s ?rid = None" using ff(2) e(2) by (simp add: same_rows_def)
    ultimately show ?thesis using fr(1) fr(3) ff(1,3) i1(3)
      by (intro exI [of _ "Inr ?rid"] exI [of _ ?f] exI [of _ s1]) simp
  qed
qed

lemma publish_insert_slot_ok:
  assumes inv: "file_inv X f s" and v: "valid_rid f rid" and res: "rid_key rid \<in> reserved_inserts f"
    and nf: "cached_insert_page_no f = page_no rid \<or> \<not> no_frame f (page_no rid) s" and buf: "length buf = nat (record_size (file_hdr f))"
  shows "\<exists>f' s'. publish_insert_slot rid buf (f, s) = Some (Inr (), (f', s')) \<and> file_inv X f' s' \<and> rows f s rid = None
    \<and> rows_upd f s f' s' rid (Some buf) \<and> reserved_inserts f' = reserved_inserts f - {rid_key rid}"
proof -
  let ?f = "f\<lparr>reserved_inserts := reserved_inserts f - {rid_key rid}\<rparr>"
  have R: "\<forall>k \<in> reserved_inserts f - {rid_key rid}. \<exists>rid. k = rid_key rid \<and> valid_rid f rid \<and> rows f s rid = None"
    using file_invD(4) [OF inv] by (simp add: res_ok_def)
  note fr = file_inv_reserved [OF inv R]
  have free: "rows f s rid = None"
  proof (rule ccontr)
    assume "rows f s rid \<noteq> None"
    then show False using used_not_reserved [OF inv v] res by blast
  qed
  have pid: "rm_pid ?f n = rm_pid f n" for n by (simp add: rm_pid_def)
  show ?thesis
  proof (cases "cached_insert_page_no f = page_no rid")
    case True
    then have "cached_insert_page_no f \<noteq> -1" using v by (auto simp: valid_rid_def in_file_def)
    then obtain g where c: "cached_insert_page f = Some g"
      using file_invD(3) [OF inv] by (auto simp: cache_ok_def split: option.splits)
    then have ptr: "cached_insert_ptrs f \<noteq> None" using cachedD(2) [OF inv c] by simp
    obtain f' s' where p: "cached_put (slot_no rid) buf (?f, s) = Some (Inr (), (f', s'))" "file_inv X f' s'"
        "rows_upd ?f s f' s' rid (Some buf)" "reserved_inserts f' = reserved_inserts ?f"
      using cached_put_ok [OF fr(1), of g rid buf] c True v free buf by (auto simp: fr(2,3))
    then show ?thesis using res True ptr free
      by (intro exI [of _ f'] exI [of _ s']) (simp add: publish_insert_slot_def rm_simps rows_upd_def fr(2))
  next
    case False
    then have nf': "\<not> no_frame ?f (page_no rid) s" using nf by (simp add: no_frame_def pid)
    obtain f' s' where p: "insert_record_at rid buf (?f, s) = Some (Inr (), (f', s'))" "file_inv X f' s'"
        "rows_upd ?f s f' s' rid (Some buf)" "reserved_inserts f' = reserved_inserts ?f"
      using insert_record_at_ok [OF fr(1) _ nf', of buf] v free buf by (auto simp: fr(2,3))
    then show ?thesis using res False free
      by (intro exI [of _ f'] exI [of _ s']) (simp add: publish_insert_slot_def rm_simps rows_upd_def fr(2))
  qed
qed

section \<open>The scan\<close>

definition rid_after :: "Rid \<Rightarrow> Rid \<Rightarrow> bool" where
  "rid_after a b \<longleftrightarrow> page_no a < page_no b \<or> page_no a = page_no b \<and> slot_no a < slot_no b"

text \<open>\<open>rid'\<close> is the first record after \<open>rid\<close>, or the end when there is none.\<close>

definition next_row :: "RmFileHandle \<Rightarrow> bpm \<Rightarrow> Rid \<Rightarrow> Rid \<Rightarrow> bool" where
  "next_row f s rid rid' \<longleftrightarrow>
     (if rm_scan_is_end f rid' then \<forall>r. rid_after rid r \<longrightarrow> rows f s r = None
      else rows f s rid' \<noteq> None \<and> rid_after rid rid' \<and> (\<forall>r. rid_after rid r \<longrightarrow> rid_after r rid' \<longrightarrow> rows f s r = None))"

lemma rows_bounds:
  assumes "rows f s r \<noteq> None"
  shows "in_file f (page_no r)" "0 \<le> slot_no r" "slot_no r < num_records_per_page (file_hdr f)"
  using assms by (auto simp: rows_def row_def split: if_splits option.splits)

lemma rows_bit:
  assumes "page_in f s n d" and "in_file f n" and "0 \<le> k" "k < num_records_per_page (file_hdr f)"
  shows "rows f s \<lparr>page_no = n, slot_no = k\<rparr> \<noteq> None \<longleftrightarrow> is_set (bitmap_of (file_hdr f) d) (nat k)"
  using assms page_inD(1) [OF assms(1)] by (simp add: rows_def row_def slot_used_def)

text \<open>The two outcomes of looking at one page.\<close>

lemma page_hit:
  assumes d: "page_in f s (page_no rid) d" and n: "in_file f (page_no rid)" and h: "hdr_ok (file_hdr f)" and k: "-1 \<le> slot_no rid"
    and hit: "int (next_bit True (bitmap_of (file_hdr f) d) (nat (num_records_per_page (file_hdr f))) (slot_no rid))
      < num_records_per_page (file_hdr f)"
  shows "next_row f s rid (rid\<lparr>slot_no := int (next_bit True (bitmap_of (file_hdr f) d)
    (nat (num_records_per_page (file_hdr f))) (slot_no rid))\<rparr>)"
proof -
  let ?bm = "bitmap_of (file_hdr f) d" and ?N = "nat (num_records_per_page (file_hdr f))"
  let ?r = "next_bit True ?bm ?N (slot_no rid)"
  let ?rid = "rid\<lparr>slot_no := int ?r\<rparr>"
  have lt: "?r < ?N" using hit by linarith
  have used: "rows f s ?rid \<noteq> None"
  proof -
    have "is_set ?bm ?r" using next_bit_hit [OF lt] by simp
    then have "rows f s \<lparr>page_no = page_no rid, slot_no = int ?r\<rparr> \<noteq> None" using rows_bit [OF d n, of "int ?r"] hit by simp
    moreover have "?rid = \<lparr>page_no = page_no rid, slot_no = int ?r\<rparr>" by (cases rid) simp
    ultimately show ?thesis by metis
  qed
  have after: "rid_after rid ?rid" using next_bit_gt [OF lt] by (simp add: rid_after_def)
  have "rows f s r = None" if r: "rid_after rid r" "rid_after r ?rid" for r
  proof (rule ccontr)
    assume u: "rows f s r \<noteq> None"
    note rb = rows_bounds [OF u]
    have p: "page_no r = page_no rid" "slot_no rid < slot_no r" "slot_no r < int ?r" using r by (auto simp: rid_after_def)
    have z: "int (nat (slot_no r)) = slot_no r" using rb(2) by simp
    have "slot_no rid < int (nat (slot_no r))" "nat (slot_no r) < ?r" using z p by linarith+
    from next_bit_skips [OF this] have "\<not> is_set ?bm (nat (slot_no r))" by simp
    moreover have "r = \<lparr>page_no = page_no rid, slot_no = slot_no r\<rparr>" using p(1) by (cases r) simp
    ultimately show False using u rows_bit [OF d n rb(2,3)] by metis
  qed
  then show ?thesis using used after n by (simp add: next_row_def rm_scan_is_end_def in_file_def)
qed

lemma page_miss:
  assumes d: "page_in f s (page_no rid) d" and n: "in_file f (page_no rid)" and k: "-1 \<le> slot_no rid"
    and miss: "\<not> int (next_bit True (bitmap_of (file_hdr f) d) (nat (num_records_per_page (file_hdr f))) (slot_no rid))
      < num_records_per_page (file_hdr f)"
    and r: "rid_after rid r" "rows f s r \<noteq> None"
  shows "rid_after \<lparr>page_no = page_no rid + 1, slot_no = -1\<rparr> r"
proof -
  let ?bm = "bitmap_of (file_hdr f) d" and ?N = "nat (num_records_per_page (file_hdr f))"
  let ?q = "next_bit True ?bm ?N (slot_no rid)"
  note rb = rows_bounds [OF r(2)]
  have "page_no r \<noteq> page_no rid"
  proof
    assume p: "page_no r = page_no rid"
    have z: "int (nat (slot_no r)) = slot_no r" using rb(2) by simp
    have "slot_no rid < slot_no r" using r(1) p by (simp add: rid_after_def)
    then have "slot_no rid < int (nat (slot_no r))" "nat (slot_no r) < ?q" using z rb(3) miss by linarith+
    from next_bit_skips [OF this] have "\<not> is_set ?bm (nat (slot_no r))" by simp
    moreover have "r = \<lparr>page_no = page_no rid, slot_no = slot_no r\<rparr>" using p by (cases r) simp
    ultimately show False using r(2) rows_bit [OF d n rb(2,3)] by metis
  qed
  then show ?thesis using r(1) rb(2) by (auto simp: rid_after_def)
qed

lemma rm_scan_next_ok:
  assumes "file_inv X f s" and "1 \<le> page_no rid" and "-1 \<le> slot_no rid"
  shows "\<exists>r s'. rm_scan_next rid f s = Some (r, s') \<and>
    (case r of Inl e \<Rightarrow> \<exists>n. e = PageNotExistError '''' n
     | Inr rid' \<Rightarrow> file_inv X f s' \<and> same_rows f s f s' \<and> next_row f s rid rid')"
  using assms
proof (induction rid f s rule: rm_scan_next.induct)
  case (1 rid f s)
  note inv = "1.prems"(1)
  show ?case
  proof (cases "num_pages (file_hdr f) \<le> page_no rid")
    case True
    have "rows f s r = None" if "rid_after rid r" for r
    proof -
      have "\<not> in_file f (page_no r)" using that True by (auto simp: rid_after_def in_file_def)
      then show ?thesis by (simp add: rows_def)
    qed
    then have "next_row f s rid rid" using True by (simp add: next_row_def rm_scan_is_end_def)
    then show ?thesis using True inv by (subst rm_scan_next.simps) (simp add: same_rows_def)
  next
    case False
    then have n: "in_file f (page_no rid)" using "1.prems"(2) by (simp add: in_file_def)
    have h: "hdr_ok (file_hdr f)" by (rule base_okD(1) [OF file_invD(1) [OF inv]])
    show ?thesis
    proof (cases "no_frame f (page_no rid) s")
      case True
      then show ?thesis using fetch_handle_none [OF True n] False by (subst rm_scan_next.simps) simp
    next
      case nf: False
      obtain d where d: "page_in f s (page_no rid) d" using store_okD(3) [OF file_invD(2) [OF inv] n] by blast
      obtain fr s1 s2 where s: "fetch_page_handle (page_no rid) (f, s) = Some (Inr fr, (f, s1))" "pg_data (pages s1 fr) = d"
          "unpin_page (rm_pid f (page_no rid)) False s1 = (True, s2)" "file_inv X f s2" "\<forall>rid. rows f s2 rid = rows f s rid"
        using fetch_peek [OF inv n d nf] by blast
      let ?k = "int (next_bit True (bitmap_of (file_hdr f) d) (nat (num_records_per_page (file_hdr f))) (slot_no rid))"
      show ?thesis
      proof (cases "?k < num_records_per_page (file_hdr f)")
        case True
        have "rm_scan_next rid f s = Some (Inr (rid\<lparr>slot_no := ?k\<rparr>), s2)"
          using False s True by (subst rm_scan_next.simps) (simp add: Let_def)
        then show ?thesis using page_hit [OF d n h "1.prems"(3) True] s(4,5)
          by (intro exI [of _ "Inr (rid\<lparr>slot_no := ?k\<rparr>)"] exI [of _ s2]) (simp add: same_rows_def)
      next
        case miss: False
        let ?rid = "\<lparr>page_no = page_no rid + 1, slot_no = -1\<rparr>"
        have eq: "rm_scan_next rid f s = rm_scan_next ?rid f s2"
          using False s miss by (subst rm_scan_next.simps) (simp add: Let_def)
        have u: "snd (unpin_page (rm_pid f (page_no rid)) False s1) = s2" using s(3) by simp
        have "\<exists>r s'. rm_scan_next ?rid f s2 = Some (r, s') \<and>
            (case r of Inl e \<Rightarrow> \<exists>n. e = PageNotExistError '''' n
             | Inr rid' \<Rightarrow> file_inv X f s' \<and> same_rows f s2 f s' \<and> next_row f s2 ?rid rid')"
          using "1.IH" [OF False s(1) refl refl refl refl refl, unfolded u] s(2,4) miss "1.prems"(2) by simp
        then obtain r s' where r: "rm_scan_next ?rid f s2 = Some (r, s')" and
          rr: "case r of Inl e \<Rightarrow> \<exists>n. e = PageNotExistError '''' n
             | Inr rid' \<Rightarrow> file_inv X f s' \<and> same_rows f s2 f s' \<and> next_row f s2 ?rid rid'" by blast
        have sr: "rows f s2 x = rows f s x" for x using s(5) by simp
        have up: "next_row f s rid rid'" if "next_row f s2 ?rid rid'" for rid'
        proof (cases "rm_scan_is_end f rid'")
          case True
          have "rows f s x = None" if x: "rid_after rid x" for x
          proof (rule ccontr)
            assume u: "rows f s x \<noteq> None"
            from page_miss [OF d n "1.prems"(3) miss x u] show False
              using \<open>next_row f s2 ?rid rid'\<close> True u by (simp add: next_row_def sr)
          qed
          then show ?thesis using True by (simp add: next_row_def)
        next
          case ne: False
          have "rows f s x = None" if x: "rid_after rid x" "rid_after x rid'" for x
          proof (rule ccontr)
            assume u: "rows f s x \<noteq> None"
            from page_miss [OF d n "1.prems"(3) miss x(1) u] show False
              using \<open>next_row f s2 ?rid rid'\<close> ne u x(2) by (simp add: next_row_def sr)
          qed
          moreover have "rid_after rid rid'" "rows f s rid' \<noteq> None"
            using that ne by (auto simp: next_row_def rid_after_def sr)
          ultimately show ?thesis using ne by (simp add: next_row_def)
        qed
        show ?thesis using eq r rr up s(5) by (intro exI [of _ r] exI [of _ s']) (auto simp: same_rows_def split: sum.splits)
      qed
    qed
  qed
qed

section \<open>Runs of a table file\<close>

text \<open>
  The states of a handle and the pool under the record operations, with the map \<open>M\<close> of the records. The premises are
  the callers' discipline: records have the size of the file and row identifiers are in range, and only reserved slots are
  published. An insertion that found no frame for a new page is not part of a run (see \<open>lost_page_number\<close>).
\<close>

inductive rm_reach :: "PageId set \<Rightarrow> RmFileHandle \<Rightarrow> bpm \<Rightarrow> (Rid \<rightharpoonup> bytes) \<Rightarrow> bool" for X where
  start: "file_inv X f s \<Longrightarrow> rm_reach X f s (rows f s)"
| get: "rm_reach X f s M \<Longrightarrow> valid_rid f rid \<Longrightarrow> get_record rid (f, s) = Some (r, (f', s')) \<Longrightarrow> rm_reach X f' s' M"
| insert: "rm_reach X f s M \<Longrightarrow> num_pages (file_hdr f) + 1 < 2 ^ 31 \<Longrightarrow> length buf = nat (record_size (file_hdr f)) \<Longrightarrow>
    insert_record buf (f, s) = Some (Inr rid, (f', s')) \<Longrightarrow> rm_reach X f' s' (M(rid \<mapsto> buf))"
| reserve: "rm_reach X f s M \<Longrightarrow> num_pages (file_hdr f) + 1 < 2 ^ 31 \<Longrightarrow> reserve_insert_slot (f, s) = Some (Inr rid, (f', s')) \<Longrightarrow>
    rm_reach X f' s' M"
| publish: "rm_reach X f s M \<Longrightarrow> valid_rid f rid \<Longrightarrow> rid_key rid \<in> reserved_inserts f \<Longrightarrow>
    cached_insert_page_no f = page_no rid \<or> \<not> no_frame f (page_no rid) s \<Longrightarrow> length buf = nat (record_size (file_hdr f)) \<Longrightarrow>
    publish_insert_slot rid buf (f, s) = Some (r, (f', s')) \<Longrightarrow> rm_reach X f' s' (M(rid \<mapsto> buf))"
| cancel: "rm_reach X f s M \<Longrightarrow> cancel_insert_slot rid (f, s) = Some (r, (f', s')) \<Longrightarrow> rm_reach X f' s' M"
| update: "rm_reach X f s M \<Longrightarrow> valid_rid f rid \<Longrightarrow> length buf = nat (record_size (file_hdr f)) \<Longrightarrow>
    update_record rid buf (f, s) = Some (r, (f', s')) \<Longrightarrow> rm_reach X f' s' (case r of Inl e \<Rightarrow> M | Inr _ \<Rightarrow> M(rid \<mapsto> buf))"
| delete: "rm_reach X f s M \<Longrightarrow> valid_rid f rid \<Longrightarrow>
    delete_record rid (f, s) = Some (r, (f', s')) \<Longrightarrow> rm_reach X f' s' (case r of Inl e \<Rightarrow> M | Inr _ \<Rightarrow> M(rid := None))"
| scan: "rm_reach X f s M \<Longrightarrow> 1 \<le> page_no rid \<Longrightarrow> -1 \<le> slot_no rid \<Longrightarrow> rm_scan_next rid f s = Some (Inr rid', s') \<Longrightarrow> rm_reach X f s' M"

lemma no_frame_fails:
  assumes "no_frame f (page_no rid) s" and "valid_rid f rid"
  shows "get_record rid (f, s) = Some (Inl (PageNotExistError '''' (page_no rid)), (f, s))"
    "update_record rid buf (f, s) = Some (Inl (PageNotExistError '''' (page_no rid)), (f, s))"
    "delete_record rid (f, s) = Some (Inl (PageNotExistError '''' (page_no rid)), (f, s))"
  using fetch_handle_none [OF assms(1) valid_ridD(1) [OF assms(2)]]
  by (simp_all add: get_record_def update_record_def delete_record_def rm_simps)

lemma same_rows_eq: "same_rows f s f' s' \<Longrightarrow> rows f' s' = rows f s"
  by (simp add: same_rows_def fun_eq_iff)

lemma rows_upd_eq: "rows_upd f s f' s' rid v \<Longrightarrow> rows f' s' = (rows f s)(rid := v)"
  by (simp add: rows_upd_def fun_eq_iff)

lemma rm_reach_ok: "rm_reach X f s M \<Longrightarrow> file_inv X f s \<and> rows f s = M"
proof (induction rule: rm_reach.induct)
  case (start f s)
  then show ?case by simp
next
  case (get f s M rid r f' s')
  then show ?case
    using get_record_ok [of X f s rid] no_frame_fails(1) [of f rid s] same_rows_eq by (cases "no_frame f (page_no rid) s") fastforce+
next
  case (insert f s M buf rid f' s')
  then show ?case using insert_record_ok [of X f s buf] rows_upd_eq by fastforce
next
  case (reserve f s M rid f' s')
  then show ?case using reserve_insert_slot_ok [of X f s] same_rows_eq by fastforce
next
  case (publish f s M rid buf r f' s')
  then show ?case using publish_insert_slot_ok [of X f s rid buf] rows_upd_eq by fastforce
next
  case (cancel f s M rid r f' s')
  have R: "\<forall>k \<in> reserved_inserts f - {rid_key rid}. \<exists>rid. k = rid_key rid \<and> valid_rid f rid \<and> rows f s rid = None"
    using file_invD(4) [of X f s] cancel.IH by (simp add: res_ok_def)
  have "f' = f\<lparr>reserved_inserts := reserved_inserts f - {rid_key rid}\<rparr>" "s' = s"
    using cancel.hyps(2) by (auto simp: cancel_insert_slot_def rm_simps)
  moreover have i: "file_inv X f s" using cancel.IH by simp
  ultimately show ?case using file_inv_reserved(1) [OF i R] file_inv_reserved(2) [OF i R] cancel.IH by (simp add: fun_eq_iff)
next
  case (update f s M rid buf r f' s')
  show ?case
  proof (cases "no_frame f (page_no rid) s")
    case True
    then show ?thesis using no_frame_fails(2) [OF True update.hyps(2), of buf] update by auto
  next
    case False
    obtain t where t: "update_record rid buf (f, s) =
        Some (if rows f s rid = None then Inl (RecordNotFoundError (page_no rid) (slot_no rid)) else Inr (), (f, t))"
      "file_inv X f t" "if rows f s rid = None then same_rows f s f t else rows_upd f s f t rid (Some buf)"
      using update_record_ok [OF _ update.hyps(2) False update.hyps(3)] update.IH by blast
    then show ?thesis using update.hyps(4) update.IH same_rows_eq [of f s f t] rows_upd_eq [of f s f t rid "Some buf"]
      by (cases "rows f s rid = None") auto
  qed
next
  case (delete f s M rid r f' s')
  show ?case
  proof (cases "no_frame f (page_no rid) s")
    case True
    then show ?thesis using no_frame_fails(3) [OF True delete.hyps(2)] delete by auto
  next
    case False
    obtain g t where t: "delete_record rid (f, s) =
        Some (if rows f s rid = None then Inl (RecordNotFoundError (page_no rid) (slot_no rid)) else Inr (), (g, t))"
      "file_inv X g t" "if rows f s rid = None then same_rows f s g t else rows_upd f s g t rid None"
      using delete_record_ok [OF _ delete.hyps(2) False] delete.IH by blast
    then show ?thesis using delete.hyps(3) delete.IH same_rows_eq [of f s g t] rows_upd_eq [of f s g t rid None]
      by (cases "rows f s rid = None") auto
  qed
next
  case (scan f s M rid rid' s')
  then show ?case using rm_scan_next_ok [of X f s rid] same_rows_eq by fastforce
qed

section \<open>Creating and opening a file\<close>

lemma enc_file_hdr_roundtrip:
  assumes "in_s 4 (record_size h)" "in_s 4 (num_pages h)" "in_s 4 (num_records_per_page h)" "in_s 4 (first_free_page_no h)" "in_s 4 (bitmap_size h)"
  shows "dec_file_hdr (enc_file_hdr h) = h" "length (enc_file_hdr h) = sizeof_RmFileHdr"
  using assms by (simp_all add: dec_file_hdr_def enc_file_hdr_def rd_def sizeof_RmFileHdr_def codec_simps)

lemma new_file_hdr_ok:
  assumes "1 \<le> rs" "rs \<le> RM_MAX_RECORD_SIZE"
  shows "hdr_ok (new_file_hdr rs)" "dec_file_hdr (enc_file_hdr (new_file_hdr rs)) = new_file_hdr rs"
    "length (enc_file_hdr (new_file_hdr rs)) = sizeof_RmFileHdr"
proof -
  show h: "hdr_ok (new_file_hdr rs)" using assms by (simp add: hdr_ok_def new_file_hdr_def BITMAP_WIDTH_def algebra_simps)
  have r: "in_s 4 (record_size (new_file_hdr rs))" "in_s 4 (num_pages (new_file_hdr rs))" "in_s 4 (num_records_per_page (new_file_hdr rs))"
    "in_s 4 (first_free_page_no (new_file_hdr rs))" "in_s 4 (bitmap_size (new_file_hdr rs))"
    using hdr_okD [OF h] bitmap_fits [OF h] by (simp_all add: in_s_def) (simp_all add: new_file_hdr_def RM_NO_PAGE_def)
  show "dec_file_hdr (enc_file_hdr (new_file_hdr rs)) = new_file_hdr rs" "length (enc_file_hdr (new_file_hdr rs)) = sizeof_RmFileHdr"
    using enc_file_hdr_roundtrip [OF r] by simp_all
qed

lemma open_existing:
  assumes d: "disk_inv d" and c: "map_of (fs d) name = Some c" and n: "path2fd d name = None"
  shows "\<exists>d'. open_file d name = Inr (lowest_free_fd d, d') \<and> file_of d' (lowest_free_fd d) = Some c \<and> disk_inv d'
    \<and> os_open d' = (lowest_free_fd d, name) # os_open d \<and> fd2path d' (lowest_free_fd d) = Some name \<and> map_of (os_open d') (lowest_free_fd d) = Some name \<and> fs d' = fs d"
proof -
  let ?fd = "lowest_free_fd d"
  let ?d = "d\<lparr>os_open := (?fd, name) # os_open d, path2fd := (path2fd d)(name \<mapsto> ?fd), fd2path := (fd2path d)(?fd \<mapsto> name)\<rparr>"
  have o: "open_file d name = Inr (?fd, ?d)" using c n by (simp add: open_file_def is_file_def Let_def)
  have "disk_inv ?d" using disk_inv_open [OF d o] by simp
  then show ?thesis using o c by (simp add: file_of_def)
qed

lemma create_file_written:
  assumes d: "disk_inv d" and n: "\<not> is_file d name" and rs: "1 \<le> rs" "rs \<le> RM_MAX_RECORD_SIZE"
  shows "\<exists>d'. rm_create_file name rs d = (None, d') \<and> disk_inv d' \<and> map_of (fs d') name = Some (enc_file_hdr (new_file_hdr rs))
    \<and> path2fd d' name = None \<and> os_open d' = os_open d"
proof -
  let ?bs = "enc_file_hdr (new_file_hdr rs)"
  have ne: "?bs \<noteq> []" using new_file_hdr_ok(3) [OF rs] by (auto simp: sizeof_RmFileHdr_def)
  let ?d1 = "d\<lparr>fs := (name, []) # fs d\<rparr>"
  have c1: "create_file d name = Inr ?d1" using n by (simp add: create_file_def)
  have i1: "disk_inv ?d1" by (rule disk_inv_create [OF d c1])
  have pn: "path2fd ?d1 name = None"
  proof (rule ccontr)
    assume "path2fd ?d1 name \<noteq> None"
    then obtain fd where "path2fd d name = Some fd" by auto
    then show False using disk_inv_path2fd [OF d] disk_inv_file [OF d] n unfolding is_file_def by blast
  qed
  let ?fd = "lowest_free_fd ?d1"
  obtain d2 where d2: "open_file ?d1 name = Inr (?fd, d2)" "file_of d2 ?fd = Some []" "disk_inv d2" "fd2path d2 ?fd = Some name"
      "map_of (os_open d2) ?fd = Some name" "fs d2 = fs ?d1" "os_open d2 = (?fd, name) # os_open ?d1"
    using open_existing [OF i1 _ pn, of "[]"] by auto
  let ?d3 = "set_file d2 ?fd ?bs"
  have w: "write_page d2 ?fd RM_FILE_HDR_PAGE ?bs = (None, ?d3)"
    using d2(2) ne by (simp add: write_page_def pwrite_def RM_FILE_HDR_PAGE_def put_at_def Let_def)
  have i3: "disk_inv ?d3" by (rule disk_inv_set_file [OF d2(3)])
  have f3: "map_of (fs ?d3) name = Some ?bs" using d2(5,6) by (simp add: set_file_def)
  have o3: "fd2path ?d3 ?fd = Some name" "map_of (os_open ?d3) ?fd = Some name" using d2(4,5) by simp_all
  let ?d4 = "?d3\<lparr>os_open := filter (\<lambda>(f, _). f \<noteq> ?fd) (os_open ?d3), path2fd := (path2fd ?d3)(name := None), fd2path := (fd2path ?d3)(?fd := None)\<rparr>"
  have c4: "close_file ?d3 ?fd = Inr ?d4" using o3 by (simp add: close_file_def)
  have i4: "disk_inv ?d4" by (rule disk_inv_close [OF i3 c4])
  have "rm_create_file name rs d = (None, ?d4)"
    using rs c1 d2(1) w c4 by (simp add: rm_create_file_def)
  moreover have "map_of (fs ?d4) name = Some ?bs" using f3 by simp
  moreover have "filter (\<lambda>(f, _). f \<noteq> ?fd) (os_open d) = os_open d"
    using lowest_free_fd_fresh [of ?d1] by (force simp: filter_id_conv map_of_eq_None_iff)
  then have "os_open ?d4 = os_open d" using d2(7) by simp
  ultimately show ?thesis using i4 by (intro exI [of _ ?d4]) simp
qed

lemma file_inv_empty:
  assumes d: "disk_inv d" and f: "file_of d (rm_fd f) \<noteq> None" "fd2pageno d (rm_fd f) = 1" "0 \<le> rm_fd f" "rm_fd f < MAX_FD"
    and h: "hdr_ok (file_hdr f)" "num_pages (file_hdr f) = 1" "first_free_page_no (file_hdr f) = RM_NO_PAGE"
    and c: "cached_insert_page f = None" "cached_insert_page_no f = -1" "reserved_inserts f = {}"
  shows "file_inv {} f (bpm_new n d)"
proof -
  have "base_ok f" using f h by (simp add: base_ok_def link_ok_def)
  moreover have none: "\<not> in_file f m" for m using h(2) by (simp add: in_file_def)
  have "store_ok f (bpm_new n d)" using f h(2) by (simp add: store_ok_def none)
  moreover have "cache_ok f (bpm_new n d)" "res_ok f (bpm_new n d)" "cache_set f = {}" using c by (simp_all add: cache_ok_def res_ok_def cache_set_def)
  ultimately show ?thesis using pool_ok_new [OF d, of n] by (simp add: file_inv_def)
qed

lemma create_open_ok:
  assumes d: "disk_inv d" and n: "\<not> is_file d name" and rs: "1 \<le> rs" "rs \<le> RM_MAX_RECORD_SIZE" and j: "length junk = sizeof_RmFileHdr"
  shows "\<exists>d' f d''. rm_create_file name rs d = (None, d') \<and> rm_open_file name junk d' = (Inr f, d'') \<and> file_hdr f = new_file_hdr rs
    \<and> (rm_fd f < MAX_FD \<longrightarrow> file_inv {} f (bpm_new k d'')) \<and> rm_fd f = lowest_free_fd d"
proof -
  let ?bs = "enc_file_hdr (new_file_hdr rs)"
  obtain d' where c: "rm_create_file name rs d = (None, d')" "disk_inv d'" "map_of (fs d') name = Some ?bs" "path2fd d' name = None" "os_open d' = os_open d"
    using create_file_written [OF d n rs] by blast
  let ?fd = "lowest_free_fd d'"
  obtain d1 where o: "open_file d' name = Inr (?fd, d1)" "file_of d1 ?fd = Some ?bs" "disk_inv d1" "map_of (os_open d1) ?fd = Some name"
    using open_existing [OF c(2-4)] by blast
  note h = new_file_hdr_ok [OF rs]
  let ?f = "\<lparr>rm_fd = ?fd, file_hdr = new_file_hdr rs, cached_insert_page_no = -1, cached_insert_page = None,
                cached_insert_ptrs = None, reserved_inserts = {}\<rparr>"
  let ?d2 = "set_fd2pageno d1 ?fd 1"
  have r: "read_page d1 ?fd RM_FILE_HDR_PAGE junk sizeof_RmFileHdr = (None, ?bs)"
    using o(2) h(3) j by (simp add: read_page_def pread_def RM_FILE_HDR_PAGE_def rd_def wr_def Let_def)
  have np: "num_pages (new_file_hdr rs) = 1" "first_free_page_no (new_file_hdr rs) = RM_NO_PAGE" by (simp_all add: new_file_hdr_def)
  have op: "rm_open_file name junk d' = (Inr ?f, ?d2)"
    using o(1) r h(2) np by (simp add: rm_open_file_def rm_handle_new_def)
  have i2: "disk_inv ?d2" using o(3) by (simp add: set_fd2pageno_def disk_inv_def del: map_of_eq_Some_iff)
  have f0: "0 \<le> ?fd" by (rule disk_inv_fd [OF o(3,4)])
  have "file_inv {} ?f (bpm_new k ?d2)" if "?fd < MAX_FD"
  proof (rule file_inv_empty [OF i2])
    show "file_of ?d2 (rm_fd ?f) \<noteq> None" using o(2) by (simp add: set_fd2pageno_def file_of_def split: option.splits)
    show "fd2pageno ?d2 (rm_fd ?f) = 1" by (simp add: set_fd2pageno_def)
  qed (use that f0 h(1) np in simp_all)
  moreover have "?fd = lowest_free_fd d" using c(5) by (simp add: lowest_free_fd_def)
  ultimately show ?thesis using c(1) op by (intro exI [of _ d'] exI [of _ ?f] exI [of _ ?d2]) simp
qed

section \<open>An example file\<close>

definition ex_hdr :: RmFileHdr where
  "ex_hdr = (new_file_hdr 8)\<lparr>num_pages := 2, first_free_page_no := 1\<rparr>"

definition ex_page :: bytes where
  "ex_page = put_record ex_hdr 0 [1, 2, 3, 4, 5, 6, 7, 8] (blank_page ex_hdr RM_NO_PAGE)"

definition ex_disk :: disk where
  "ex_disk = (disk_new [(''t'', zero_page @ ex_page)])\<lparr>os_open := [(3, ''t'')], path2fd := [''t'' \<mapsto> 3],
     fd2path := [3 \<mapsto> ''t''], fd2pageno := (\<lambda>_. 0)(3 := 2)\<rparr>"

definition ex_file :: RmFileHandle where
  "ex_file = \<lparr>rm_fd = 3, file_hdr = ex_hdr, cached_insert_page_no = -1, cached_insert_page = None,
     cached_insert_ptrs = None, reserved_inserts = {}\<rparr>"

lemma ex_page_ok:
  "hdr_ok ex_hdr" "page_ok ex_hdr ex_page" "next_free_page_no ex_page = RM_NO_PAGE" "length ex_page = PAGE_SIZE"
  "row ex_hdr ex_page j = (if j = 0 then Some [1, 2, 3, 4, 5, 6, 7, 8] else None)" "num_pages ex_hdr = 2" "record_size ex_hdr = 8"
proof -
  have "hdr_ok (new_file_hdr 8)" by (rule new_file_hdr_ok) (simp_all add: RM_MAX_RECORD_SIZE_def)
  then show h: "hdr_ok ex_hdr" by (simp add: ex_hdr_def)
  show "num_pages ex_hdr = 2" and rs: "record_size ex_hdr = 8" by (simp_all add: ex_hdr_def new_file_hdr_def)
  note b = blank_page_ok [OF h, of RM_NO_PAGE]
  have n: "in_s 4 RM_NO_PAGE" by (simp add: in_s_def RM_NO_PAGE_def)
  have "\<not> slot_used ex_hdr (blank_page ex_hdr RM_NO_PAGE) 0"
    using b(2) [OF n, of 0] hdr_okD(3) [OF h] by (auto simp: row_def)
  note p = put_record_ok [OF h b(1) [OF n] order_refl hdr_okD(3) [OF h] this, of "[1, 2, 3, 4, 5, 6, 7, 8]"]
  show pg: "page_ok ex_hdr ex_page" using p(1) by (simp add: ex_page_def rs)
  show "length ex_page = PAGE_SIZE" by (rule page_okD(1) [OF pg h])
  show "next_free_page_no ex_page = RM_NO_PAGE" using p(3) b(3) [OF n] by (simp add: ex_page_def rs)
  show "row ex_hdr ex_page j = (if j = 0 then Some [1, 2, 3, 4, 5, 6, 7, 8] else None)"
    using p(4) [of j] b(2) [OF n] by (simp add: ex_page_def rs)
qed

lemma ex_file_inv:
  "file_inv {} ex_file (bpm_new n ex_disk)"
  "rows ex_file (bpm_new n ex_disk) \<lparr>page_no = 1, slot_no = 0\<rparr> = Some [1, 2, 3, 4, 5, 6, 7, 8]"
  "valid_rid ex_file \<lparr>page_no = 1, slot_no = 0\<rparr>"
proof -
  let ?s = "bpm_new n ex_disk"
  note e = ex_page_ok
  have d: "disk_inv ex_disk" by (rule disk_invI) (auto simp: ex_disk_def disk_new_def split: if_splits)
  have f: "file_of ex_disk 3 = Some (zero_page @ ex_page)" by (simp add: ex_disk_def disk_new_def file_of_def)
  have l: "lookup ?s p = None" for p by (simp add: lookup_def bpm_new_def)
  have bd: "bp_disk ?s = ex_disk" by (simp add: bpm_new_def)
  have v: "page_view ?s (rm_pid ex_file 1) = Some ex_page"
    using f e(4) by (simp add: page_view_def l disk_page_def bd rm_pid_def ex_file_def rd_def)
  have b: "base_ok ex_file"
    using e(1,6) by (simp add: base_ok_def ex_file_def link_ok_def MAX_FD_def) (simp add: ex_hdr_def)
  have n1: "in_file ex_file m \<longleftrightarrow> m = 1" for m using e(6) by (auto simp: in_file_def ex_file_def)
  have pg: "page_in ex_file ?s 1 ex_page" using v e(2,3) by (simp add: page_in_def ex_file_def link_ok_def)
  have "fd2pageno (bp_disk ?s) 3 = 2" by (simp add: bd ex_disk_def)
  moreover have "rm_fd ex_file = 3" "num_pages (file_hdr ex_file) = 2" using e(6) by (simp_all add: ex_file_def)
  ultimately have st: "store_ok ex_file ?s" using pg f by (auto simp: store_ok_def n1 bd l)
  have "cache_ok ex_file ?s" "res_ok ex_file ?s" "cache_set ex_file = {}"
    by (simp_all add: cache_ok_def res_ok_def cache_set_def ex_file_def)
  then show "file_inv {} ex_file ?s" using b st pool_ok_new [OF d, of n] by (simp add: file_inv_def)
  show "rows ex_file ?s \<lparr>page_no = 1, slot_no = 0\<rparr> = Some [1, 2, 3, 4, 5, 6, 7, 8]"
    using v e(5) by (simp add: rows_def n1) (simp add: ex_file_def)
  show "valid_rid ex_file \<lparr>page_no = 1, slot_no = 0\<rparr>"
    using hdr_okD(3) [OF e(1)] by (simp add: valid_rid_def n1) (simp add: ex_file_def)
qed

section \<open>Properties\<close>







text \<open>
  C35: the record layout fits the page. For every record size \<open>create_file\<close> accepts, a page has at least one slot; each slot
  lies between the bitmap and the end of the page, two slots do not overlap, and the bitmap
  has a bit for each slot.\<close>

theorem record_page_fits:
  assumes "1 \<le> rs" and "rs \<le> RM_MAX_RECORD_SIZE"
  shows "0 < num_records_per_page (new_file_hdr rs) \<and> num_records_per_page (new_file_hdr rs) \<le> 8 * bitmap_size (new_file_hdr rs) \<and>
    (\<forall>k. 0 \<le> k \<and> k < num_records_per_page (new_file_hdr rs) \<longrightarrow>
       bitmap_off + nat (bitmap_size (new_file_hdr rs)) \<le> get_slot (new_file_hdr rs) k
       \<and> get_slot (new_file_hdr rs) k + nat rs \<le> PAGE_SIZE
       \<and> (\<forall>j. 0 \<le> j \<and> j < k \<longrightarrow> get_slot (new_file_hdr rs) j + nat rs \<le> get_slot (new_file_hdr rs) k))"
proof -
  let ?h = "new_file_hdr rs"
  note h = new_file_hdr_ok(1) [OF assms]
  have rs: "record_size ?h = rs" by (simp add: new_file_hdr_def)
  have "get_slot ?h j + nat rs \<le> get_slot ?h k" if "0 \<le> j" "j < k" for j k
  proof -
    have "j * rs + rs \<le> k * rs" using that mult_right_mono [of "j + 1" k rs] assms(1) by (simp add: algebra_simps)
    moreover have "0 \<le> j * rs" using that assms(1) by simp
    ultimately have "nat (j * rs) + nat rs \<le> nat (k * rs)" using assms(1) by linarith
    then show ?thesis using rs by (simp add: get_slot_def)
  qed
  then show ?thesis using hdr_okD(3,6) [OF h] slot_bounds(1,2) [OF h] rs by simp
qed

theorem record_page_fits_witness:
  "0 < num_records_per_page (new_file_hdr 512) \<and> get_slot (new_file_hdr 512) 1 + 512 \<le> PAGE_SIZE"
proof -
  have "num_records_per_page (new_file_hdr 512) = 7"
    by (simp add: new_file_hdr_def records_per_page_def BITMAP_WIDTH_def PAGE_SIZE_def sizeof_RmFileHdr_def)
  then show ?thesis using record_page_fits [of 512] by (auto simp: RM_MAX_RECORD_SIZE_def dest: spec [of _ 1])
qed

text \<open>
  C36: creating a table file and opening it. On a name that is not taken, \<open>create_file\<close> succeeds and the handle \<open>open_file\<close> then gives has the
  header that was written; the new file satisfies the invariant of the record operations and has no row.\<close>

theorem create_open_fresh:
  assumes "disk_inv d" and "\<not> is_file d name" and "1 \<le> rs" and "rs \<le> RM_MAX_RECORD_SIZE"
    and "length junk = sizeof_RmFileHdr" and "lowest_free_fd d < MAX_FD"
  shows "\<exists>d' f d''. rm_create_file name rs d = (None, d') \<and> rm_open_file name junk d' = (Inr f, d'')
    \<and> file_hdr f = new_file_hdr rs \<and> file_inv {} f (bpm_new k d'') \<and> (\<forall>rid. rows f (bpm_new k d'') rid = None)"
proof -
  obtain d' f d'' where c: "rm_create_file name rs d = (None, d')" "rm_open_file name junk d' = (Inr f, d'')"
      "file_hdr f = new_file_hdr rs" "file_inv {} f (bpm_new k d'')"
    using create_open_ok [OF assms(1-5), of k] assms(6) by auto
  have "\<not> in_file f n" for n using c(3) by (simp add: in_file_def new_file_hdr_def)
  then have "rows f (bpm_new k d'') rid = None" for rid by (simp add: rows_def)
  then show ?thesis using c by blast
qed

theorem create_open_fresh_witness:
  "\<exists>d' f d''. rm_create_file ''t'' 8 (disk_new []) = (None, d') \<and> rm_open_file ''t'' (replicate 20 0) d' = (Inr f, d'')
    \<and> file_hdr f = new_file_hdr 8"
proof -
  have "lowest_free_fd (disk_new []) = 3" by (simp add: lowest_free_fd_def disk_new_def)
  then have "lowest_free_fd (disk_new []) < MAX_FD" by (simp add: MAX_FD_def)
  moreover have "\<not> is_file (disk_new []) ''t''" by (simp add: is_file_def disk_new_def)
  moreover have "disk_inv (disk_new [])" by (rule disk_inv_new) simp
  moreover have "length (replicate 20 0) = sizeof_RmFileHdr" by (simp add: sizeof_RmFileHdr_def)
  ultimately show ?thesis
    using create_open_fresh [of "disk_new []" "''t''" 8 "replicate 20 0"] by (simp add: RM_MAX_RECORD_SIZE_def) blast
qed

text \<open>
  C40: a lost page number. When the pool has no frame, \<open>create_new_page_handle\<close> fails after \<open>allocate_page\<close> took
  a page number, and the file header still counts the old pages. The next page created for the file then
  has the number of pages as its number, and every later access to it fails with \<^verbatim>\<open>PageNotExistError\<close>: a record inserted there is
  acknowledged and cannot be read.\<close>

theorem lost_page_number:
  assumes "file_inv X f s"
    and "create_new_page_handle (f, s) = Some (Inl (InternalError ''RmFileHandle::create_new_page_handle: new_page failed''), (f1, s1))"
    and "fd2pageno (bp_disk s2) (rm_fd f) = fd2pageno (bp_disk s1) (rm_fd f)"
    and "create_new_page_handle (f1, s2) = Some (Inr fr, (f2, s3))"
  shows "pg_no (pg_id (pages s3 fr)) = num_pages (file_hdr f2)
    \<and> fetch_page_handle (pg_no (pg_id (pages s3 fr))) (f2, t) =
      Some (Inl (PageNotExistError '''' (pg_no (pg_id (pages s3 fr)))), (f2, t))"
proof -
  have st: "fd2pageno (bp_disk s) (rm_fd f) = num_pages (file_hdr f)" using file_invD(2) [OF assms(1)] by (simp add: store_ok_def)
  have fd: "0 \<le> rm_fd f \<and> rm_fd f < MAX_FD" using file_invD(1) [OF assms(1)] by (simp add: base_ok_def)
  have fl: "flush_old p q g t \<noteq> (Some (InternalError ''RmFileHandle::create_new_page_handle: new_page failed''), s1)" for p q g t
    by (auto simp: flush_old_def write_out_def write_page_def Let_def split: if_splits prod.splits)
  have one: "f1 = f \<and> fd2pageno (bp_disk s1) (rm_fd f) = num_pages (file_hdr f) + 1"
    using assms(2) st fd unfolding create_new_page_handle_def new_page_def
    by (auto simp: allocate_page_def Let_def fl split: sum.splits option.splits prod.splits)
  have "pg_no (pg_id (pages s3 fr)) = num_pages (file_hdr f) + 1 \<and> num_pages (file_hdr f2) = num_pages (file_hdr f) + 1"
    using assms(3,4) one fd unfolding create_new_page_handle_def new_page_def
    by (auto simp: allocate_page_def Let_def set_hdr_def set_io_def upd_shard_def upd_page_def set_data_def
        split: sum.splits option.splits prod.splits)
  then show ?thesis by (simp add: fetch_page_handle_def)
qed

theorem lost_page_number_witness:
  "\<exists>fr f2 s3. create_new_page_handle (ex_file, bpm_new 4 (ex_disk\<lparr>fd2pageno := (fd2pageno ex_disk)(3 := 3)\<rparr>)) = Some (Inr fr, (f2, s3))
    \<and> num_pages (file_hdr f2) = 3 \<and> fetch_page_handle 3 (f2, s3) = Some (Inl (PageNotExistError '''' 3), (f2, s3))"
proof -
  let ?d = "ex_disk\<lparr>fd2pageno := (fd2pageno ex_disk)(3 := 3)\<rparr>"
  have fd: "rm_fd ex_file = 3" "fd2pageno ex_disk 3 = 2" "fd2pageno ?d 3 = 3" by (simp_all add: ex_file_def ex_disk_def)
  have none: "reserve_scan is (bpm_new 0 d) = None" for "is" d
    by (induction "is") (simp_all add: bpm_new_def lru_new_def victim_def upd_shard_def fun_upd_idem)
  have "reserve_victim i (bpm_new 0 d) = None" for i d by (simp add: reserve_victim_def none)
  moreover have "(bpm_new 0 ex_disk)\<lparr>bp_disk := d\<rparr> = bpm_new 0 d" for d by (simp add: bpm_new_def)
  moreover have bd: "bp_disk (bpm_new k d) = d" for k d by (simp add: bpm_new_def)
  ultimately have 1: "create_new_page_handle (ex_file, bpm_new 0 ex_disk) =
      Some (Inl (InternalError ''RmFileHandle::create_new_page_handle: new_page failed''), (ex_file, bpm_new 0 ?d))"
    using fd by (simp add: create_new_page_handle_def new_page_def allocate_page_def MAX_FD_def Let_def)
  let ?s = "bpm_new 4 (?d\<lparr>fd2pageno := (fd2pageno ?d)(3 := 4)\<rparr>)"
  have "[0..<64] = 0 # [1..<64::nat]" by (simp add: upt_conv_Cons del: upt_rec_numeral)
  then have "reserve_victim 3 ?s = reserve_scan (3 # map (\<lambda>k. (3 + k) mod BPM_NSHARDS) [1..<64]) ?s"
    by (simp add: reserve_victim_def BPM_NSHARDS_def del: upt_rec_numeral)
  moreover have "free_frames (shards ?s 3) = [3]" by (simp add: bpm_new_def BPM_NSHARDS_def upt_conv_Cons)
  ultimately have "\<exists>s'. reserve_victim 3 ?s = Some (3, NO_PAGE, False, s')" by simp
  moreover have "(bpm_new 4 ?d)\<lparr>bp_disk := d\<rparr> = bpm_new 4 d" for d by (simp add: bpm_new_def)
  ultimately obtain f2 s3 where 2: "create_new_page_handle (ex_file, bpm_new 4 ?d) = Some (Inr 3, (f2, s3))"
      "num_pages (file_hdr f2) = num_pages (file_hdr ex_file) + 1"
    using fd bd by (auto simp: create_new_page_handle_def new_page_def allocate_page_def MAX_FD_def Let_def set_hdr_def
        flush_old_def shard_of_page_mod)
  have "num_pages (file_hdr f2) = 3" using 2(2) ex_page_ok(6) by (simp add: ex_file_def)
  then show ?thesis using lost_page_number [OF ex_file_inv(1) 1 _ 2(1), of s3] 2(1) by (auto simp: bd fd(3))
qed

end
