(* ===== verification/Row_Values.thy ===== *)
theory Row_Values
  imports Prelude
begin

text \<open>
  Values inside rows. Columns and tables as \<^verbatim>\<open>src/src/system/sm_meta.h\<close> describes them, predicates as in
  \<^verbatim>\<open>src/src/common/common.h\<close>, 32-bit integers and IEEE single precision numbers in the bytes of a row, the
  comparison \<open>ser_cmp\<close>, and the functions of the anonymous namespace of
  \<^verbatim>\<open>src/src/transaction/transaction_manager.cpp\<close> that compute the bytes of an update:
  \<open>rebase_write_delta\<close> and the column patches.

  Every finite single precision number is a whole multiple of \<open>2 ^ -149\<close>, so a number is a
  sign and a natural magnitude in that unit, addition is exact integer addition, and \<open>f_mag\<close> rounds
  the result to nearest with ties to even. The bits of a not-a-number result are those of the default
  quiet one. Signed 32-bit overflow, which the language leaves open, wraps around.
\<close>

section \<open>Tables, columns, predicates\<close>

record ColMeta =
  cm_tab :: string
  cm_name :: string
  cm_type :: ColType
  cm_len :: nat
  cm_offset :: nat

record IndexMeta =
  im_tab :: string
  col_tot_len :: nat
  im_cols :: "ColMeta list"

record TabMeta =
  tm_name :: string
  tm_cols :: "ColMeta list"
  tm_indexes :: "IndexMeta list"

datatype CompOp = OP_EQ | OP_NE | OP_LT | OP_GT | OP_LE | OP_GE

record Condition =
  lhs_tab :: string
  lhs_col :: string
  cond_op :: CompOp
  is_rhs_val :: bool
  rhs_col :: string
  rhs_raw :: bytes   \<comment> \<open>\<^verbatim>\<open>rhs_val.raw->data\<close>\<close>

section \<open>Numbers in rows\<close>

definition i32_at :: "nat \<Rightarrow> bytes \<Rightarrow> 32 word" where
  "i32_at off d = word_of_int (le_dec_u (rd off 4 d))"

definition put_i32 :: "nat \<Rightarrow> 32 word \<Rightarrow> bytes \<Rightarrow> bytes" where
  "put_i32 off w d = wr off (le_enc 4 (uint w)) d"

lemma length_put_i32 [simp]: "off + 4 \<le> length d \<Longrightarrow> length (put_i32 off w d) = length d"
  by (simp add: put_i32_def)

lemma i32_put [simp]: "off + 4 \<le> length d \<Longrightarrow> i32_at off (put_i32 off w d) = w"
proof -
  assume "off + 4 \<le> length d"
  moreover have "uint w mod 4294967296 = uint w" using uint_lt2p [of w] by simp
  ultimately show ?thesis by (simp add: i32_at_def put_i32_def region_simps le_dec_u_enc_mod)
qed

lemma i32_put_other:
  "off + 4 \<le> length d \<Longrightarrow> o' + 4 \<le> off \<or> off + 4 \<le> o' \<Longrightarrow> i32_at o' (put_i32 off w d) = i32_at o' d"
  by (simp add: i32_at_def put_i32_def region_simps)

lemma put_i32_at: "off + 4 \<le> length d \<Longrightarrow> put_i32 off (i32_at off d) d = d"
proof -
  assume o: "off + 4 \<le> length d"
  have "le_dec_u (rd off 4 d) < 256 ^ 4" using le_dec_u_bounds [of "rd off 4 d"] o by simp
  then have "uint (i32_at off d) = le_dec_u (rd off 4 d)"
    using le_dec_u_bounds [of "rd off 4 d"] by (simp add: i32_at_def uint_word_of_int)
  then show ?thesis using le_enc_dec_u [of "rd off 4 d"] o by (simp add: put_i32_def wr_rd_id)
qed

datatype fval = NaN | Infinite bool | Finite bool nat

definition f_dec :: "32 word \<Rightarrow> fval" where
  "f_dec w =
     (let s = bit w 31; e = unat (drop_bit 23 w AND 0xff); m = unat (w AND 0x7fffff)
      in if e = 255 then (if m = 0 then Infinite s else NaN)
         else if e = 0 then Finite s m else Finite s ((2 ^ 23 + m) * 2 ^ (e - 1)))"

fun bitlen :: "nat \<Rightarrow> nat" where
  "bitlen n = (if n = 0 then 0 else Suc (bitlen (n div 2)))"

declare bitlen.simps [simp del]

text \<open>The bits of a magnitude below the sign bit, rounded.\<close>

definition f_mag :: "nat \<Rightarrow> nat" where
  "f_mag n =
     (if n < 2 ^ 24 then n
      else let k = bitlen n - 24; q = n div 2 ^ k; r = n mod 2 ^ k;
               q' = (if 2 ^ k < 2 * r \<or> 2 * r = 2 ^ k \<and> odd q then q + 1 else q)
           in min (k * 2 ^ 23 + q') 0x7f800000)"

definition f_sign :: "bool \<Rightarrow> 32 word" where
  "f_sign s = (if s then 0x80000000 else 0)"

fun f_enc :: "fval \<Rightarrow> 32 word" where
  "f_enc NaN = 0x7fc00000"
| "f_enc (Infinite s) = f_sign s OR 0x7f800000"
| "f_enc (Finite s n) = f_sign s OR of_nat (f_mag n)"

definition f_int :: "bool \<Rightarrow> nat \<Rightarrow> int" where
  "f_int s n = (if s then - int n else int n)"

fun fv_add :: "fval \<Rightarrow> fval \<Rightarrow> fval" where
  "fv_add (Finite s m) (Finite t n) =
     (let x = f_int s m + f_int t n in if x = 0 then Finite (s \<and> t) 0 else Finite (x < 0) (nat \<bar>x\<bar>))"
| "fv_add (Infinite s) (Infinite t) = (if s = t then Infinite s else NaN)"
| "fv_add (Infinite s) (Finite _ _) = Infinite s"
| "fv_add (Finite _ _) (Infinite t) = Infinite t"
| "fv_add NaN _ = NaN"
| "fv_add _ NaN = NaN"

definition f_add :: "32 word \<Rightarrow> 32 word \<Rightarrow> 32 word" where
  "f_add a b = f_enc (fv_add (f_dec a) (f_dec b))"

definition f_neg :: "32 word \<Rightarrow> 32 word" where
  "f_neg a = a XOR 0x80000000"

definition f_sub :: "32 word \<Rightarrow> 32 word \<Rightarrow> 32 word" where
  "f_sub a b = f_add a (f_neg b)"

fun fv_lt :: "fval \<Rightarrow> fval \<Rightarrow> bool" where
  "fv_lt NaN _ = False"
| "fv_lt _ NaN = False"
| "fv_lt (Infinite s) (Infinite t) = (s \<and> \<not> t)"
| "fv_lt (Infinite s) (Finite _ _) = s"
| "fv_lt (Finite _ _) (Infinite t) = (\<not> t)"
| "fv_lt (Finite s m) (Finite t n) = (f_int s m < f_int t n)"

definition f_lt :: "32 word \<Rightarrow> 32 word \<Rightarrow> bool" where
  "f_lt a b = fv_lt (f_dec a) (f_dec b)"

text \<open>\<open>memcmp\<close> of the first \<open>n\<close> bytes; past the end of a buffer the bytes are not compared.\<close>

fun memcmp :: "nat \<Rightarrow> bytes \<Rightarrow> bytes \<Rightarrow> int" where
  "memcmp (Suc n) (a # as) (b # bs) = (if a < b then -1 else if b < a then 1 else memcmp n as bs)"
| "memcmp _ _ _ = 0"

definition ser_cmp :: "bytes \<Rightarrow> bytes \<Rightarrow> nat \<Rightarrow> ColType \<Rightarrow> CompOp \<Rightarrow> bool" where
  "ser_cmp a b n type op =
     (let cmp = (case type of
            TYPE_INT \<Rightarrow> (let ia = sint (i32_at 0 a); ib = sint (i32_at 0 b) in if ia < ib then -1 else if ib < ia then 1 else 0)
          | TYPE_FLOAT \<Rightarrow> (let fa = i32_at 0 a; fb = i32_at 0 b in if f_lt fa fb then -1 else if f_lt fb fa then 1 else 0)
          | TYPE_STRING \<Rightarrow> memcmp n a b)
      in case op of
           OP_EQ \<Rightarrow> cmp = 0 | OP_NE \<Rightarrow> cmp \<noteq> 0 | OP_LT \<Rightarrow> cmp < 0
         | OP_GT \<Rightarrow> 0 < cmp | OP_LE \<Rightarrow> cmp \<le> 0 | OP_GE \<Rightarrow> 0 \<le> cmp)"

section \<open>Updates\<close>

text \<open>The loop of \<open>rebase_write_delta\<close> over the columns, with the flag \<^verbatim>\<open>any\<close> and the row so far.\<close>

definition rebase_col :: "nat \<Rightarrow> bytes \<Rightarrow> bytes \<Rightarrow> bytes \<Rightarrow> bool \<times> bytes \<Rightarrow> ColMeta \<Rightarrow> bool \<times> bytes" where
  "rebase_col len old_rec new_rec latest_rec = (\<lambda>(any, out) col.
     let off = cm_offset col; cl = cm_len col
     in if len < off + cl \<or> rd off cl old_rec = rd off cl new_rec then (any, out)
        else (True,
          if cm_type col = TYPE_INT \<and> cl = 4
          then put_i32 off (i32_at off latest_rec + (i32_at off new_rec - i32_at off old_rec)) out
          else if cm_type col = TYPE_FLOAT \<and> cl = 4
          then put_i32 off (f_add (i32_at off latest_rec) (f_sub (i32_at off new_rec) (i32_at off old_rec))) out
          else wr off (rd off cl new_rec) out))"

definition rebase_write_delta :: "TabMeta \<Rightarrow> bytes \<Rightarrow> bytes \<Rightarrow> bytes \<Rightarrow> nat \<Rightarrow> bool \<times> bytes" where
  "rebase_write_delta meta old_rec new_rec latest_rec len =
     (if take len old_rec = take len new_rec then (False, take len latest_rec)
      else foldl (rebase_col len old_rec new_rec latest_rec) (False, take len latest_rec) (tm_cols meta))"

record MvccColPatch =
  p_offset :: nat
  p_len :: nat
  p_type :: ColType
  is_arith :: bool
  arith_neg :: bool
  p_rhs_col :: string
  abs_value :: bytes
  arith_rhs_i :: "32 word"
  arith_rhs_f :: "32 word"

definition find_col_meta :: "TabMeta \<Rightarrow> string \<Rightarrow> ColMeta option" where
  "find_col_meta meta name = find (\<lambda>c. cm_name c = name) (tm_cols meta)"

definition apply_col_patch_abs :: "MvccColPatch \<Rightarrow> bytes \<Rightarrow> bytes" where
  "apply_col_patch_abs p dest =
     (if p_len p \<le> length (abs_value p) then wr (p_offset p) (take (p_len p) (abs_value p)) dest else dest)"

definition patch_delta_i :: "MvccColPatch \<Rightarrow> 32 word" where
  "patch_delta_i p = (if arith_neg p then - arith_rhs_i p else arith_rhs_i p)"

definition patch_delta_f :: "MvccColPatch \<Rightarrow> 32 word" where
  "patch_delta_f p = (if arith_neg p then f_neg (arith_rhs_f p) else arith_rhs_f p)"

text \<open>Both functions give whether the patch applies, and the row after it.\<close>

definition apply_col_patch_from_visible :: "MvccColPatch \<Rightarrow> bytes \<Rightarrow> bytes \<Rightarrow> nat \<Rightarrow> TabMeta \<Rightarrow> bool \<times> bytes" where
  "apply_col_patch_from_visible p visible dest len meta =
     (if len < p_offset p + p_len p then (False, dest)
      else if \<not> is_arith p then (True, apply_col_patch_abs p dest)
      else case find_col_meta meta (p_rhs_col p) of
        None \<Rightarrow> (False, dest)
      | Some rcol \<Rightarrow>
          if p_type p = TYPE_FLOAT \<and> cm_type rcol = TYPE_FLOAT \<and> p_len p = 4 \<and> cm_len rcol = 4
          then (True, put_i32 (p_offset p) (f_add (i32_at (cm_offset rcol) visible) (patch_delta_f p)) dest)
          else if p_type p = TYPE_INT \<and> cm_type rcol = TYPE_INT \<and> p_len p = 4 \<and> cm_len rcol = 4
          then (True, put_i32 (p_offset p) (i32_at (cm_offset rcol) visible + patch_delta_i p) dest)
          else (False, dest))"

definition apply_col_patch_rebase :: "MvccColPatch \<Rightarrow> bytes \<Rightarrow> bytes \<Rightarrow> bytes \<Rightarrow> nat \<Rightarrow> bool \<times> bytes" where
  "apply_col_patch_rebase p visible latest dest len =
     (let off = p_offset p; ov = i32_at off visible; l = i32_at off latest
      in if len < off + p_len p then (False, dest)
         else if \<not> is_arith p then
           (True,
            if p_type p = TYPE_INT \<and> p_len p = 4 \<and> p_len p \<le> length (abs_value p)
            then put_i32 off (l + (i32_at 0 (abs_value p) - ov)) dest
            else if p_type p = TYPE_FLOAT \<and> p_len p = 4 \<and> p_len p \<le> length (abs_value p)
            then put_i32 off (f_add l (f_sub (i32_at 0 (abs_value p)) ov)) dest
            else apply_col_patch_abs p dest)
         else if p_type p = TYPE_INT \<and> p_len p = 4
         then (True, put_i32 off (l + ((ov + patch_delta_i p) - ov)) dest)
         else if p_type p = TYPE_FLOAT \<and> p_len p = 4
         then (True, put_i32 off (f_add l (f_sub (f_add ov (patch_delta_f p)) ov)) dest)
         else (False, dest))"

text \<open>The loop over the patches stops at the first one that does not apply.\<close>

fun apply_patches :: "(MvccColPatch \<Rightarrow> bytes \<Rightarrow> bool \<times> bytes) \<Rightarrow> MvccColPatch list \<Rightarrow> bytes \<Rightarrow> bool \<times> bytes" where
  "apply_patches f [] dest = (True, dest)"
| "apply_patches f (p # ps) dest =
     (case f p dest of (False, d) \<Rightarrow> (False, d) | (True, d) \<Rightarrow> apply_patches f ps d)"

section \<open>Shape of the results\<close>

lemma wr_ne: "d \<noteq> [] \<Longrightarrow> wr off bs d \<noteq> []"
  by (cases off; cases bs) (auto simp: wr_def)

lemma put_i32_ne: "d \<noteq> [] \<Longrightarrow> put_i32 off w d \<noteq> []"
  by (simp add: put_i32_def wr_ne)

lemma rebase_fold_ne: "out \<noteq> [] \<Longrightarrow> snd (foldl (rebase_col len old new latest) (any, out) cols) \<noteq> []"
proof (induction cols arbitrary: any out)
  case (Cons c cols)
  obtain a x where r: "rebase_col len old new latest (any, out) c = (a, x)" by (cases "rebase_col len old new latest (any, out) c")
  have "snd (rebase_col len old new latest (any, out) c) \<noteq> []"
    using Cons.prems by (simp add: rebase_col_def Let_def wr_ne put_i32_ne)
  then show ?case using Cons.IH [of x a] r by simp
qed simp

lemma rebase_ne: "length latest = len \<Longrightarrow> 0 < len \<Longrightarrow> snd (rebase_write_delta meta old new latest len) \<noteq> []"
  using rebase_fold_ne [of "take len latest" len old new latest False "tm_cols meta"]
  by (cases latest) (simp_all add: rebase_write_delta_def take_Cons')

lemma apply_patches_ne:
  assumes "\<And>p d. d \<noteq> [] \<Longrightarrow> snd (f p d) \<noteq> []" and "d \<noteq> []"
  shows "snd (apply_patches f ps d) \<noteq> []"
  using assms(2)
proof (induction ps arbitrary: d)
  case (Cons p ps)
  obtain ok x where r: "f p d = (ok, x)" by (cases "f p d")
  then have "x \<noteq> []" using assms(1) [OF Cons.prems, of p] by simp
  then show ?case using Cons.IH [of x] r by (cases ok) simp_all
qed simp

lemma patch_ne:
  "d \<noteq> [] \<Longrightarrow> snd (apply_col_patch_from_visible p v d len meta) \<noteq> []"
  "d \<noteq> [] \<Longrightarrow> snd (apply_col_patch_rebase p v l d len) \<noteq> []"
proof -
  assume d: "d \<noteq> []"
  have a: "apply_col_patch_abs p d \<noteq> []" using d by (simp add: apply_col_patch_abs_def wr_ne)
  show "snd (apply_col_patch_from_visible p v d len meta) \<noteq> []"
    using d a put_i32_ne [OF d] by (auto simp: apply_col_patch_from_visible_def split: option.splits)
  show "snd (apply_col_patch_rebase p v l d len) \<noteq> []"
    using d a put_i32_ne [OF d] by (auto simp: apply_col_patch_rebase_def Let_def)
qed

section \<open>Concurrent updates of different columns\<close>

text \<open>The columns of a table lie side by side inside its rows.\<close>

definition apart :: "ColMeta \<Rightarrow> ColMeta \<Rightarrow> bool" where
  "apart a b \<longleftrightarrow> cm_offset a + cm_len a \<le> cm_offset b \<or> cm_offset b + cm_len b \<le> cm_offset a"

definition cols_laid_out :: "nat \<Rightarrow> ColMeta list \<Rightarrow> bool" where
  "cols_laid_out len cols \<longleftrightarrow> list_all (\<lambda>c. cm_offset c + cm_len c \<le> len) cols \<and> sorted_wrt apart cols"

text \<open>The bytes of one column after the rebase.\<close>

definition rebased :: "bytes \<Rightarrow> bytes \<Rightarrow> bytes \<Rightarrow> ColMeta \<Rightarrow> bytes" where
  "rebased old_rec new_rec latest_rec c =
     (let off = cm_offset c; o' = i32_at off old_rec; n = i32_at off new_rec; l = i32_at off latest_rec
      in if rd off (cm_len c) old_rec = rd off (cm_len c) new_rec then rd off (cm_len c) latest_rec
         else if cm_type c = TYPE_INT \<and> cm_len c = 4 then le_enc 4 (uint (l + (n - o')))
         else if cm_type c = TYPE_FLOAT \<and> cm_len c = 4 then le_enc 4 (uint (f_add l (f_sub n o')))
         else rd off (cm_len c) new_rec)"

lemma rebase_col_row:
  assumes "length out = len" "length old = len" "length new = len" "length latest = len" "cm_offset c + cm_len c \<le> len"
    and "rd (cm_offset c) (cm_len c) out = rd (cm_offset c) (cm_len c) latest"
  shows "length (snd (rebase_col len old new latest (a, out) c)) = len"
    "rd (cm_offset c) (cm_len c) (snd (rebase_col len old new latest (a, out) c)) = rebased old new latest c"
    "apart c d \<Longrightarrow> cm_offset d + cm_len d \<le> len
      \<Longrightarrow> rd (cm_offset d) (cm_len d) (snd (rebase_col len old new latest (a, out) c)) = rd (cm_offset d) (cm_len d) out"
  using assms by (auto simp: rebase_col_def rebased_def Let_def put_i32_def apart_def region_simps)

lemma rebase_fold:
  fixes a
  assumes "length out = len" "length old = len" "length new = len" "length latest = len" "cols_laid_out len cols"
    and "\<And>c. c \<in> set cols \<Longrightarrow> rd (cm_offset c) (cm_len c) out = rd (cm_offset c) (cm_len c) latest"
  defines "res \<equiv> snd (foldl (rebase_col len old new latest) (a, out) cols)"
  shows "length res = len \<and> (\<forall>c \<in> set cols. rd (cm_offset c) (cm_len c) res = rebased old new latest c)
    \<and> (\<forall>d. (\<forall>c \<in> set cols. apart c d) \<longrightarrow> cm_offset d + cm_len d \<le> len \<longrightarrow> rd (cm_offset d) (cm_len d) res = rd (cm_offset d) (cm_len d) out)"
  using assms(1-6) unfolding res_def
proof (induction cols arbitrary: a out)
  case (Cons c cols)
  obtain b x where r: "rebase_col len old new latest (a, out) c = (b, x)" by (cases "rebase_col len old new latest (a, out) c")
  have in_len: "cm_offset c + cm_len c \<le> len" "\<forall>d \<in> set cols. apart c d" "cols_laid_out len cols" "\<forall>d \<in> set cols. cm_offset d + cm_len d \<le> len"
    using Cons.prems(5) by (auto simp: cols_laid_out_def list_all_iff)
  have lc: "rd (cm_offset c) (cm_len c) out = rd (cm_offset c) (cm_len c) latest" using Cons.prems(6) by simp
  have x: "length x = len" "rd (cm_offset c) (cm_len c) x = rebased old new latest c"
    "\<And>d. apart c d \<Longrightarrow> cm_offset d + cm_len d \<le> len \<Longrightarrow> rd (cm_offset d) (cm_len d) x = rd (cm_offset d) (cm_len d) out"
    using rebase_col_row [OF Cons.prems(1-4) in_len(1) lc] r by (metis snd_conv)+
  have "\<And>d. d \<in> set cols \<Longrightarrow> rd (cm_offset d) (cm_len d) x = rd (cm_offset d) (cm_len d) latest"
    using x(3) in_len Cons.prems(6) by simp
  note ih = Cons.IH [OF x(1) Cons.prems(2-4) in_len(3) this, of b]
  have "\<forall>d \<in> set cols. apart d c" using in_len(2) by (auto simp: apart_def)
  then show ?case using ih x r in_len(1) by simp
qed simp

text \<open>
  C10: \<^verbatim>\<open>rebase_write_delta\<close> moves an update that a transaction computed from an old row to the newest committed row without losing
  either: a column the transaction did not change keeps its committed value, a 32-bit integer or float column gets the committed value plus the
  transaction's own difference, any other changed column gets the transaction's value.
\<close>

theorem rebase_columns:
  assumes "length old = len" "length new = len" "length latest = len" "cols_laid_out len (tm_cols meta)" "c \<in> set (tm_cols meta)" "old \<noteq> new"
  shows "length (snd (rebase_write_delta meta old new latest len)) = len
    \<and> rd (cm_offset c) (cm_len c) (snd (rebase_write_delta meta old new latest len)) = rebased old new latest c"
  using rebase_fold [of latest len old new latest "tm_cols meta" False] assms by (simp add: rebase_write_delta_def)

text \<open>Two counters: the transaction read (10, 20) and stored (10, 25), meanwhile (13, 21) was committed; (13, 26) results.\<close>

definition two_counters :: TabMeta where
  "two_counters = \<lparr>tm_name = ''c'', tm_cols = [\<lparr>cm_tab = ''c'', cm_name = ''a'', cm_type = TYPE_INT, cm_len = 4, cm_offset = 0\<rparr>,
     \<lparr>cm_tab = ''c'', cm_name = ''b'', cm_type = TYPE_INT, cm_len = 4, cm_offset = 4\<rparr>], tm_indexes = []\<rparr>"

theorem rebase_columns_witness:
  "rd 4 4 (snd (rebase_write_delta two_counters [10, 0, 0, 0, 20, 0, 0, 0] [10, 0, 0, 0, 25, 0, 0, 0] [13, 0, 0, 0, 21, 0, 0, 0] 8)) = [26, 0, 0, 0]"
proof -
  have "le_enc 4 26 = [26, 0, 0, 0]" by (simp add: le_enc_nth upt_rec)
  then show ?thesis
    using rebase_columns [of "[10, 0, 0, 0, 20, 0, 0, 0]" 8 "[10, 0, 0, 0, 25, 0, 0, 0]" "[13, 0, 0, 0, 21, 0, 0, 0]" two_counters
      "\<lparr>cm_tab = ''c'', cm_name = ''b'', cm_type = TYPE_INT, cm_len = 4, cm_offset = 4\<rparr>"]
    by (simp add: two_counters_def cols_laid_out_def apart_def rebased_def i32_at_def rd_def Let_def)
qed

end
