(* ===== verification/Txn_State.thy ===== *)
theory Txn_State
  imports Row_Values Lock_Manager Log_Codec
begin

text \<open>
  The state of the transaction manager (\<^verbatim>\<open>src/src/transaction/transaction_manager.h\<close>) and of its
  transactions (\<^verbatim>\<open>transaction.h\<close>, \<^verbatim>\<open>txn_defs.h\<close>), and the small operations on it.

  A pair of table and row key belongs to exactly one of the 64 shards, so the shards' maps are one map over such pairs here; the
  shard mutex makes an operation on one chain atomic. The table files appear as the maps of rows they refine
  (theory \<^verbatim>\<open>Record_Store\<close>), the indexes as maps from keys to record ids with the unique-key
  behaviour of \<^verbatim>\<open>insert_entry\<close> and \<^verbatim>\<open>delete_entry\<close>, the log as the records appended so far and
  the number of those known durable (theory \<^verbatim>\<open>Log_Manager\<close>). \<^verbatim>\<open>std::multiset\<close> of active read
  timestamps is a sorted list. The tables, files and indexes that a transaction wrote to exist while it
  runs: dropping a table under a running transaction is outside the model.
\<close>

section \<open>Transactions\<close>

datatype TransactionState = DEFAULT | GROWING | SHRINKING | COMMITTED | ABORTED

datatype IsolationLevel = READ_UNCOMMITTED | REPEATABLE_READ | READ_COMMITTED | SERIALIZABLE | SNAPSHOT_ISOLATION

datatype WType = INSERT_TUPLE | DELETE_TUPLE | UPDATE_TUPLE

record WriteRecord =
  wtype :: WType
  w_tab :: string
  w_rid :: Rid
  w_record :: bytes   \<comment> \<open>empty for a record of the constructor for insertions\<close>

record SiOverlay =
  ov_data :: bytes
  ov_deleted :: bool

type_synonym row_key = "string \<times> 64 word"

record Transaction =
  txn_mode :: bool
  t_state :: TransactionState
  isolation_level :: IsolationLevel
  t_prev_lsn :: lsn_t
  start_ts :: timestamp_t
  read_ts :: timestamp_t
  t_commit_ts :: timestamp_t
  write_set :: "WriteRecord list"
  si_overlay :: "(row_key \<times> SiOverlay) list"
  t_del_keys :: "(string \<times> bytes) list"
  written_tabs :: "string list"

definition INVALID_TS :: timestamp_t where
  "INVALID_TS = -1"

definition new_Transaction :: "timestamp_t \<Rightarrow> timestamp_t \<Rightarrow> Transaction" where
  "new_Transaction start rts = \<lparr>txn_mode = False, t_state = DEFAULT, isolation_level = SERIALIZABLE, t_prev_lsn = INVALID_LSN,
     start_ts = start, read_ts = rts, t_commit_ts = INVALID_TS, write_set = [], si_overlay = [], t_del_keys = [], written_tabs = []\<rparr>"

section \<open>Versions\<close>

record MvccVer =
  ver_data :: bytes
  ver_cts :: timestamp_t
  ver_deleted :: bool
  writer_txn :: txn_id_t

record MvccChain =
  hist :: "MvccVer list"
  ch_writer :: txn_id_t
  writer_del :: bool
  writer_data :: bytes
  hold_writer_to_commit :: bool

definition new_chain :: MvccChain where
  "new_chain = \<lparr>hist = [], ch_writer = INVALID_TXN_ID, writer_del = False, writer_data = [], hold_writer_to_commit = False\<rparr>"

definition mvcc_key :: "Rid \<Rightarrow> 64 word" where
  "mvcc_key rid = push_bit 32 (word_of_int (page_no rid)) OR ucast (word_of_int (slot_no rid) :: 32 word)"

definition mvcc_rid :: "64 word \<Rightarrow> Rid" where
  "mvcc_rid k = \<lparr>page_no = sint (ucast (drop_bit 32 k) :: 32 word), slot_no = sint (ucast (k AND 0xffffffff) :: 32 word)\<rparr>"

abbreviation row_key_of :: "string \<Rightarrow> Rid \<Rightarrow> row_key" where
  "row_key_of tab rid \<equiv> (tab, mvcc_key rid)"

lemma mvcc_rid_key:
  assumes "in_s 4 (page_no rid)" and "in_s 4 (slot_no rid)"
  shows "mvcc_rid (mvcc_key rid) = rid"
proof -
  let ?p = "word_of_int (page_no rid) :: 64 word" and ?s = "word_of_int (slot_no rid) :: 32 word"
  have ff: "(0xffffffff :: 64 word) = mask 32" by (simp add: mask_eq_exp_minus_1)
  have "ucast (drop_bit 32 (mvcc_key rid)) = (word_of_int (page_no rid) :: 32 word)"
    by (rule bit_word_eqI) (auto simp: mvcc_key_def bit_simps dest: bit_imp_le_length)
  moreover have "(ucast (mvcc_key rid AND 0xffffffff) :: 32 word) = ?s"
    unfolding ff by (rule bit_word_eqI) (auto simp: mvcc_key_def bit_simps dest: bit_imp_le_length)
  moreover have "sint (word_of_int x :: 32 word) = x" if "in_s 4 x" for x
    using that by (simp add: signed_of_int in_s_def signed_take_bit_int_eq_self)
  ultimately show ?thesis using assms by (cases rid) (simp add: mvcc_rid_def)
qed

record DelKeyState =
  dk_writers :: "txn_id_t set"
  last_del_cts :: timestamp_t

record WriteActivity =
  wa_writers :: int
  last_cts :: timestamp_t

section \<open>Serializable transactions\<close>

record SerInfo =
  s_read_ts :: timestamp_t
  s_commit_ts :: timestamp_t
  s_committed :: bool
  read_rids :: "row_key list"
  read_preds :: "(string \<times> Condition list) list"
  in_rw :: "txn_id_t set"
  out_rw :: "txn_id_t set"

definition new_SerInfo :: SerInfo where
  "new_SerInfo = \<lparr>s_read_ts = 0, s_commit_ts = 0, s_committed = False, read_rids = [], read_preds = [], in_rw = {}, out_rw = {}\<rparr>"

record SerCompiledCond =
  cc_lhs_off :: nat
  cc_lhs_len :: nat
  cc_type :: ColType
  cc_op :: CompOp
  cc_rhs_is_val :: bool
  cc_rhs_off :: nat
  cc_rhs_val :: bytes

section \<open>The transaction manager\<close>

record tm =
  txn_map :: "txn_id_t \<rightharpoonup> Transaction"
  next_txn_id :: txn_id_t
  next_timestamp :: timestamp_t
  last_commit_ts :: timestamp_t
  active_rts :: "timestamp_t list"
  active_explicit_count :: int
  any_mvcc_dirty :: bool
  mvcc_dirty :: "string set"
  chains :: "row_key \<rightharpoonup> MvccChain"        \<comment> \<open>\<^verbatim>\<open>mvcc_shard_data_[].store\<close>\<close>
  pending :: "row_key \<rightharpoonup> txn_id_t"
  del_keys :: "string \<Rightarrow> (bytes \<times> DelKeyState) list"
  write_activity :: "string \<rightharpoonup> WriteActivity"
  recent_writes :: "string \<Rightarrow> 64 word list"
  ser :: "(txn_id_t \<times> SerInfo) list"
  ser_rid_readers :: "row_key \<Rightarrow> txn_id_t list"
  ser_pred_readers :: "string \<Rightarrow> (txn_id_t \<times> SerCompiledCond list list) list"
  db_tabs :: "string \<rightharpoonup> TabMeta"            \<comment> \<open>\<^verbatim>\<open>sm_manager_->db_\<close>\<close>
  fhs :: "string \<rightharpoonup> (Rid \<rightharpoonup> bytes)"         \<comment> \<open>\<^verbatim>\<open>sm_manager_->fhs_\<close>\<close>
  ihs :: "string \<rightharpoonup> (bytes \<rightharpoonup> Rid)"         \<comment> \<open>\<^verbatim>\<open>sm_manager_->ihs_\<close>\<close>
  locks :: lockmgr
  wal :: "LogRecord list"
  wal_durable :: nat

definition tm_new :: "(string \<rightharpoonup> TabMeta) \<Rightarrow> (string \<rightharpoonup> (Rid \<rightharpoonup> bytes)) \<Rightarrow> (string \<rightharpoonup> (bytes \<rightharpoonup> Rid)) \<Rightarrow> tm" where
  "tm_new db heap ix = \<lparr>txn_map = Map.empty, next_txn_id = 0, next_timestamp = 0, last_commit_ts = 0, active_rts = [],
     active_explicit_count = 0, any_mvcc_dirty = False, mvcc_dirty = {}, chains = Map.empty, pending = Map.empty,
     del_keys = (\<lambda>_. []), write_activity = Map.empty, recent_writes = (\<lambda>_. []), ser = [], ser_rid_readers = (\<lambda>_. []),
     ser_pred_readers = (\<lambda>_. []), db_tabs = db, fhs = heap, ihs = ix, locks = lockmgr_new, wal = [], wal_durable = 0\<rparr>"

text \<open>Access to a transaction object, and the chain a write creates when there is none.\<close>

definition txn_of :: "tm \<Rightarrow> txn_id_t \<Rightarrow> Transaction" where
  "txn_of s t = the (txn_map s t)"

definition upd_txn :: "txn_id_t \<Rightarrow> (Transaction \<Rightarrow> Transaction) \<Rightarrow> tm \<Rightarrow> tm" where
  "upd_txn t g s = s\<lparr>txn_map := (txn_map s)(t := map_option g (txn_map s t))\<rparr>"

definition chain_of :: "tm \<Rightarrow> row_key \<Rightarrow> MvccChain" where
  "chain_of s k = (case chains s k of None \<Rightarrow> new_chain | Some ch \<Rightarrow> ch)"

definition set_chain :: "row_key \<Rightarrow> MvccChain \<Rightarrow> tm \<Rightarrow> tm" where
  "set_chain k ch s = s\<lparr>chains := (chains s)(k \<mapsto> ch)\<rparr>"

definition put_si_overlay :: "row_key \<Rightarrow> SiOverlay \<Rightarrow> Transaction \<Rightarrow> Transaction" where
  "put_si_overlay k ov t = t\<lparr>si_overlay := AList.update k ov (si_overlay t)\<rparr>"

definition get_si_overlay :: "row_key \<Rightarrow> Transaction \<Rightarrow> SiOverlay option" where
  "get_si_overlay k t = map_of (si_overlay t) k"

definition add_written_tab :: "string \<Rightarrow> Transaction \<Rightarrow> bool \<times> Transaction" where
  "add_written_tab tab t =
     (if tab \<in> set (written_tabs t) then (False, t) else (True, t\<lparr>written_tabs := tab # written_tabs t\<rparr>))"

definition add_del_key :: "string \<Rightarrow> bytes \<Rightarrow> Transaction \<Rightarrow> Transaction" where
  "add_del_key tab key t = t\<lparr>t_del_keys := t_del_keys t @ [(tab, key)]\<rparr>"

definition append_write_record :: "WriteRecord \<Rightarrow> Transaction \<Rightarrow> Transaction" where
  "append_write_record w t = t\<lparr>write_set := write_set t @ [w]\<rparr>"

definition recent_writes_add :: "string \<Rightarrow> 64 word \<Rightarrow> tm \<Rightarrow> tm" where
  "recent_writes_add tab k s = s\<lparr>recent_writes := (recent_writes s)(tab := List.insert k (recent_writes s tab))\<rparr>"

definition activity_of :: "tm \<Rightarrow> string \<Rightarrow> WriteActivity" where
  "activity_of s tab = (case write_activity s tab of None \<Rightarrow> \<lparr>wa_writers = 0, last_cts = 0\<rparr> | Some a \<Rightarrow> a)"

definition note_table_write :: "txn_id_t \<Rightarrow> string \<Rightarrow> tm \<Rightarrow> tm" where
  "note_table_write t tab s =
     (case txn_map s t of
        None \<Rightarrow> s
      | Some tr \<Rightarrow>
          (case add_written_tab tab tr of
             (False, _) \<Rightarrow> s
           | (True, tr') \<Rightarrow>
               s\<lparr>txn_map := (txn_map s)(t \<mapsto> tr'),
                 write_activity := (write_activity s)(tab \<mapsto> (activity_of s tab)\<lparr>wa_writers := wa_writers (activity_of s tab) + 1\<rparr>)\<rparr>))"

definition ser_needs_read_check :: "txn_id_t \<Rightarrow> string \<Rightarrow> tm \<Rightarrow> bool" where
  "ser_needs_read_check t tab s =
     (case write_activity s tab of
        None \<Rightarrow> False
      | Some a \<Rightarrow> 0 < wa_writers a \<or> read_ts (txn_of s t) < last_cts a)"

definition mark_dirty_tab :: "string \<Rightarrow> tm \<Rightarrow> tm" where
  "mark_dirty_tab tab s = s\<lparr>mvcc_dirty := insert tab (mvcc_dirty s), any_mvcc_dirty := True\<rparr>"

definition table_is_dirty :: "string \<Rightarrow> tm \<Rightarrow> bool" where
  "table_is_dirty tab s = (if \<not> any_mvcc_dirty s then False else tab \<in> mvcc_dirty s)"

definition mvcc_should_version :: "tm \<Rightarrow> bool" where
  "mvcc_should_version s \<longleftrightarrow> 0 < active_explicit_count s"

definition uses_si_fast_path :: "txn_id_t option \<Rightarrow> tm \<Rightarrow> bool" where
  "uses_si_fast_path t s =
     (case t of
        None \<Rightarrow> False
      | Some i \<Rightarrow> txn_mode (txn_of s i) \<and> active_explicit_count s \<le> 1 \<and> \<not> any_mvcc_dirty s
          \<and> isolation_level (txn_of s i) \<noteq> SERIALIZABLE)"

definition needs_versioning :: "txn_id_t option \<Rightarrow> string \<Rightarrow> tm \<Rightarrow> bool" where
  "needs_versioning t tab s =
     (if uses_si_fast_path t s then False
      else if (case t of None \<Rightarrow> False | Some i \<Rightarrow> txn_mode (txn_of s i)) then True
      else if 0 < active_explicit_count s then True
      else if \<not> any_mvcc_dirty s then False
      else table_is_dirty tab s)"

definition is_ser :: "txn_id_t option \<Rightarrow> tm \<Rightarrow> bool" where
  "is_ser t s = (case t of None \<Rightarrow> False | Some i \<Rightarrow> txn_mode (txn_of s i) \<and> isolation_level (txn_of s i) = SERIALIZABLE)"

definition mvcc_other_writer :: "string \<Rightarrow> Rid \<Rightarrow> txn_id_t \<Rightarrow> tm \<Rightarrow> bool" where
  "mvcc_other_writer tab rid me s =
     (let k = row_key_of tab rid
      in if (case pending s k of None \<Rightarrow> False | Some w \<Rightarrow> w \<noteq> INVALID_TXN_ID \<and> w \<noteq> me) then True
         else case chains s k of
           None \<Rightarrow> False
         | Some ch \<Rightarrow> ch_writer ch \<noteq> INVALID_TXN_ID \<and> ch_writer ch \<noteq> me)"

section \<open>Table files and indexes as the transaction manager uses them\<close>

definition heap_at :: "tm \<Rightarrow> string \<Rightarrow> Rid \<Rightarrow> bytes option" where
  "heap_at s tab rid = (case fhs s tab of None \<Rightarrow> None | Some m \<Rightarrow> m rid)"

definition set_heap :: "string \<Rightarrow> Rid \<Rightarrow> bytes option \<Rightarrow> tm \<Rightarrow> tm" where
  "set_heap tab rid v s = s\<lparr>fhs := (fhs s)(tab := map_option (\<lambda>m. m(rid := v)) (fhs s tab))\<rparr>"

definition heap_update :: "string \<Rightarrow> Rid \<Rightarrow> bytes \<Rightarrow> tm \<Rightarrow> db_error option \<times> tm" where
  "heap_update tab rid d s =
     (if heap_at s tab rid = None then (Some (RecordNotFoundError (page_no rid) (slot_no rid)), s)
      else (None, set_heap tab rid (Some d) s))"

definition get_index_name :: "string \<Rightarrow> ColMeta list \<Rightarrow> string" where
  "get_index_name filename cols = foldl (\<lambda>n c. n @ ''_'' @ cm_name c) filename cols @ ''.idx''"

definition index_key :: "IndexMeta \<Rightarrow> bytes \<Rightarrow> bytes" where
  "index_key ix d = concat (map (\<lambda>c. rd (cm_offset c) (cm_len c) d) (im_cols ix))"

definition ix_delete_entry :: "string \<Rightarrow> bytes \<Rightarrow> tm \<Rightarrow> tm" where
  "ix_delete_entry name key s = s\<lparr>ihs := (ihs s)(name := map_option (\<lambda>m. m(key := None)) (ihs s name))\<rparr>"

definition ix_insert_entry :: "string \<Rightarrow> bytes \<Rightarrow> Rid \<Rightarrow> tm \<Rightarrow> tm" where
  "ix_insert_entry name key rid s =
     s\<lparr>ihs := (ihs s)(name := map_option (\<lambda>m. if m key = None then m(key \<mapsto> rid) else m) (ihs s name))\<rparr>"

definition ix_get_value :: "string \<Rightarrow> bytes \<Rightarrow> tm \<Rightarrow> Rid option" where
  "ix_get_value name key s = (case ihs s name of None \<Rightarrow> None | Some m \<Rightarrow> m key)"

text \<open>The two index repairs of a rollback, one step per index of the table.\<close>

definition rollback_index_step :: "string \<Rightarrow> Rid \<Rightarrow> WType \<Rightarrow> bytes \<Rightarrow> bytes \<Rightarrow> tm \<Rightarrow> IndexMeta \<Rightarrow> tm" where
  "rollback_index_step tab rid wt old_data new_data s ix =
     (let name = get_index_name tab (im_cols ix); old_key = index_key ix old_data; new_key = index_key ix new_data
      in if wt = INSERT_TUPLE then ix_delete_entry name new_key s
         else if wt = UPDATE_TUPLE \<and> old_data \<noteq> [] \<and> new_data \<noteq> [] \<and> old_key \<noteq> new_key
         then ix_insert_entry name old_key rid (ix_delete_entry name new_key s)
         else s)"

definition indexes_of :: "tm \<Rightarrow> string \<Rightarrow> IndexMeta list" where
  "indexes_of s tab = (case db_tabs s tab of None \<Rightarrow> [] | Some m \<Rightarrow> tm_indexes m)"

definition rollback_index_on_abort :: "string \<Rightarrow> Rid \<Rightarrow> WType \<Rightarrow> bytes \<Rightarrow> bytes \<Rightarrow> tm \<Rightarrow> tm" where
  "rollback_index_on_abort tab rid wt old_data new_data s =
     foldl (rollback_index_step tab rid wt old_data new_data) s (indexes_of s tab)"

definition restore_index_step :: "string \<Rightarrow> Rid \<Rightarrow> bytes \<Rightarrow> tm \<Rightarrow> IndexMeta \<Rightarrow> tm" where
  "restore_index_step tab rid d s ix =
     (let name = get_index_name tab (im_cols ix); key = index_key ix d
      in if ix_get_value name key s = None then ix_insert_entry name key rid s else s)"

definition restore_index_if_missing :: "string \<Rightarrow> Rid \<Rightarrow> bytes \<Rightarrow> tm \<Rightarrow> tm" where
  "restore_index_if_missing tab rid d s =
     (if d = [] then s else foldl (restore_index_step tab rid d) s (indexes_of s tab))"

end
