(* ===== verification/Ssi.thy ===== *)
theory Ssi
  imports Txn_State
begin

text \<open>
  The checks for serializable transactions, \<^verbatim>\<open>ser_*\<close> in \<^verbatim>\<open>src/src/transaction/transaction_manager.cpp\<close>:
  what a transaction read is recorded as row keys and predicates; a write that another transaction's
  reads cover, and a read that misses another transaction's write, add an rw edge from reader to writer; an edge
  that completes a dangerous structure makes the transaction abort. Each function runs under \<^verbatim>\<open>ser_latch_\<close>.

  The theory shows that precompiled predicates decide like the predicates they come from, that the reverse indexes give exactly the
  transactions whose recorded reads cover a write, and that the two sides of the rw graph mirror each other.
\<close>

section \<open>Predicates\<close>

definition meta_of :: "tm \<Rightarrow> string \<Rightarrow> TabMeta" where
  "meta_of s tab = (case db_tabs s tab of None \<Rightarrow> \<lparr>tm_name = tab, tm_cols = [], tm_indexes = []\<rparr> | Some m \<Rightarrow> m)"

definition find_lhs :: "TabMeta \<Rightarrow> Condition \<Rightarrow> ColMeta option" where
  "find_lhs meta c = find (\<lambda>m. cm_name m = lhs_col c \<and> (lhs_tab c = [] \<or> cm_tab m = lhs_tab c)) (tm_cols meta)"

definition find_rhs :: "TabMeta \<Rightarrow> Condition \<Rightarrow> ColMeta option" where
  "find_rhs meta c = find (\<lambda>m. cm_name m = rhs_col c) (tm_cols meta)"

fun matches_conds :: "TabMeta \<Rightarrow> bytes \<Rightarrow> Condition list \<Rightarrow> bool" where
  "matches_conds meta d [] = True"
| "matches_conds meta d (c # cs) =
     (case find_lhs meta c of
        None \<Rightarrow> False
      | Some l \<Rightarrow>
          if is_rhs_val c
          then (if ser_cmp (drop (cm_offset l) d) (rhs_raw c) (cm_len l) (cm_type l) (cond_op c) then matches_conds meta d cs else False)
          else (case find_rhs meta c of
                  None \<Rightarrow> False
                | Some r \<Rightarrow>
                    if ser_cmp (drop (cm_offset l) d) (drop (cm_offset r) d) (cm_len l) (cm_type l) (cond_op c)
                    then matches_conds meta d cs else False))"

definition ser_record_matches :: "tm \<Rightarrow> string \<Rightarrow> bytes \<Rightarrow> Condition list \<Rightarrow> bool" where
  "ser_record_matches s tab d conds = (if conds = [] then True else matches_conds (meta_of s tab) d conds)"

fun compile_conds :: "TabMeta \<Rightarrow> Condition list \<Rightarrow> SerCompiledCond list option" where
  "compile_conds meta [] = Some []"
| "compile_conds meta (c # cs) =
     (case find_lhs meta c of
        None \<Rightarrow> None
      | Some l \<Rightarrow>
          let cc = \<lparr>cc_lhs_off = cm_offset l, cc_lhs_len = cm_len l, cc_type = cm_type l, cc_op = cond_op c,
                    cc_rhs_is_val = is_rhs_val c, cc_rhs_off = 0, cc_rhs_val = []\<rparr>
          in if is_rhs_val c
             then map_option ((#) (cc\<lparr>cc_rhs_val := take (cm_len l) (rhs_raw c)\<rparr>)) (compile_conds meta cs)
             else (case find_rhs meta c of
                     None \<Rightarrow> None
                   | Some r \<Rightarrow> map_option ((#) (cc\<lparr>cc_rhs_off := cm_offset r\<rparr>)) (compile_conds meta cs)))"

definition ser_compile_pred :: "tm \<Rightarrow> string \<Rightarrow> Condition list \<Rightarrow> SerCompiledCond list option" where
  "ser_compile_pred s tab conds = compile_conds (meta_of s tab) conds"

definition ser_compiled_match :: "bytes \<Rightarrow> SerCompiledCond list \<Rightarrow> bool" where
  "ser_compiled_match d cs =
     list_all (\<lambda>c. ser_cmp (drop (cc_lhs_off c) d) (if cc_rhs_is_val c then cc_rhs_val c else drop (cc_rhs_off c) d)
       (cc_lhs_len c) (cc_type c) (cc_op c)) cs"

section \<open>Recorded reads\<close>

definition ser_of :: "tm \<Rightarrow> txn_id_t \<Rightarrow> SerInfo" where
  "ser_of s t = (case map_of (ser s) t of None \<Rightarrow> new_SerInfo | Some i \<Rightarrow> i)"

definition ser_put :: "txn_id_t \<Rightarrow> SerInfo \<Rightarrow> tm \<Rightarrow> tm" where
  "ser_put t i s = s\<lparr>ser := AList.update t i (ser s)\<rparr>"

definition ser_record_read :: "txn_id_t \<Rightarrow> string \<Rightarrow> Rid \<Rightarrow> tm \<Rightarrow> tm" where
  "ser_record_read t tab rid s =
     (let k = row_key_of tab rid; i = ser_of s t;
          s1 = ser_put t (i\<lparr>s_read_ts := read_ts (txn_of s t), read_rids := read_rids i @ [k]\<rparr>) s
      in s1\<lparr>ser_rid_readers := (ser_rid_readers s1)(k := List.insert t (ser_rid_readers s1 k))\<rparr>)"

definition preds_of :: "tm \<Rightarrow> string \<Rightarrow> txn_id_t \<Rightarrow> SerCompiledCond list list" where
  "preds_of s tab t = (case map_of (ser_pred_readers s tab) t of None \<Rightarrow> [] | Some x \<Rightarrow> x)"

definition ser_record_pred :: "txn_id_t \<Rightarrow> string \<Rightarrow> Condition list \<Rightarrow> tm \<Rightarrow> tm" where
  "ser_record_pred t tab conds s =
     (let i = ser_of s t;
          s1 = ser_put t (i\<lparr>s_read_ts := read_ts (txn_of s t), read_preds := read_preds i @ [(tab, conds)]\<rparr>) s
      in case ser_compile_pred s1 tab conds of
           None \<Rightarrow> s1
         | Some cc \<Rightarrow> s1\<lparr>ser_pred_readers := (ser_pred_readers s1)(tab := AList.update t (preds_of s1 tab t @ [cc]) (ser_pred_readers s1 tab))\<rparr>)"

definition ser_unindex :: "txn_id_t \<Rightarrow> SerInfo \<Rightarrow> tm \<Rightarrow> tm" where
  "ser_unindex t i s =
     (let s1 = foldl (\<lambda>s k. s\<lparr>ser_rid_readers := (ser_rid_readers s)(k := removeAll t (ser_rid_readers s k))\<rparr>) s (read_rids i)
      in foldl (\<lambda>s (tab, _). s\<lparr>ser_pred_readers := (ser_pred_readers s)(tab := AList.delete t (ser_pred_readers s tab))\<rparr>) s1 (read_preds i))"

section \<open>The end of a transaction\<close>

text \<open>Removing an entry: its edges at the other ends, its index entries, itself.\<close>

definition unlink_entry :: "txn_id_t \<Rightarrow> SerInfo \<Rightarrow> txn_id_t \<times> SerInfo \<Rightarrow> txn_id_t \<times> SerInfo" where
  "unlink_entry t i = (\<lambda>(u, j).
     let j1 = (if u \<in> in_rw i then j\<lparr>out_rw := out_rw j - {t}\<rparr> else j)
     in (u, if u \<in> out_rw i then j1\<lparr>in_rw := in_rw j1 - {t}\<rparr> else j1))"

definition ser_drop :: "txn_id_t \<Rightarrow> tm \<Rightarrow> tm" where
  "ser_drop t s =
     (let i = ser_of s t; s1 = ser_unindex t i (s\<lparr>ser := map (unlink_entry t i) (ser s)\<rparr>)
      in s1\<lparr>ser := AList.delete t (ser s1)\<rparr>)"

definition ser_gc_step :: "timestamp_t \<Rightarrow> tm \<Rightarrow> txn_id_t \<Rightarrow> tm" where
  "ser_gc_step wm s t = (if s_committed (ser_of s t) \<and> s_commit_ts (ser_of s t) \<le> wm then ser_drop t s else s)"

definition rts_watermark :: "tm \<Rightarrow> timestamp_t" where
  "rts_watermark s = (case active_rts s of [] \<Rightarrow> last_commit_ts s | w # _ \<Rightarrow> w)"

definition ser_finish :: "txn_id_t \<Rightarrow> bool \<Rightarrow> timestamp_t \<Rightarrow> tm \<Rightarrow> tm" where
  "ser_finish t committed cts s =
     (case map_of (ser s) t of
        None \<Rightarrow> s
      | Some i \<Rightarrow>
          let s1 = (if committed then ser_put t (i\<lparr>s_committed := True, s_commit_ts := cts\<rparr>) s else ser_drop t s)
          in if 512 < length (ser s1) then foldl (ser_gc_step (rts_watermark s1)) s1 (map fst (ser s1)) else s1)"

section \<open>Dangerous structures\<close>

definition ser_overlap :: "txn_id_t \<Rightarrow> txn_id_t \<Rightarrow> tm \<Rightarrow> bool" where
  "ser_overlap a b s =
     (case (map_of (ser s) a, map_of (ser s) b) of
        (Some A, Some B) \<Rightarrow>
          if s_committed A \<and> s_commit_ts A \<le> s_read_ts B then False
          else if s_committed B \<and> s_commit_ts B \<le> s_read_ts A then False
          else True
      | _ \<Rightarrow> True)"

definition ser_dangerous :: "txn_id_t \<Rightarrow> txn_id_t \<Rightarrow> txn_id_t \<Rightarrow> tm \<Rightarrow> bool" where
  "ser_dangerous tin tpiv tout s =
     (if \<not> ser_overlap tin tpiv s \<or> \<not> ser_overlap tpiv tout s then False
      else if tin = tout then True
      else case map_of (ser s) tout of
        None \<Rightarrow> False
      | Some io \<Rightarrow>
          if \<not> s_committed io then False
          else case map_of (ser s) tin of
            None \<Rightarrow> True
          | Some ii \<Rightarrow> if \<not> s_committed ii then True else s_commit_ts io < s_commit_ts ii)"

definition ser_add_edge :: "txn_id_t \<Rightarrow> txn_id_t \<Rightarrow> tm \<Rightarrow> bool \<times> tm" where
  "ser_add_edge reader wtr s =
     (if reader = wtr then (False, s)
      else
        let s1 = ser_put wtr ((ser_of s wtr)\<lparr>in_rw := insert reader (in_rw (ser_of s wtr))\<rparr>) s;
            s2 = ser_put reader ((ser_of s1 reader)\<lparr>out_rw := insert wtr (out_rw (ser_of s1 reader))\<rparr>) s1
        in if \<exists>y \<in> out_rw (ser_of s2 wtr). ser_dangerous reader wtr y s2 then (True, s2)
           else (\<exists>x \<in> in_rw (ser_of s2 reader). ser_dangerous x reader wtr s2, s2))"

definition edge_step :: "(txn_id_t \<Rightarrow> tm \<Rightarrow> bool) \<Rightarrow> (txn_id_t \<Rightarrow> tm \<Rightarrow> bool \<times> tm) \<Rightarrow> bool \<times> tm \<Rightarrow> txn_id_t \<Rightarrow> bool \<times> tm" where
  "edge_step guard add = (\<lambda>(dangerous, s) t.
     if guard t s then (case add t s of (b, s') \<Rightarrow> (dangerous \<or> b, s')) else (dangerous, s))"

section \<open>Checks\<close>

definition ser_touch :: "txn_id_t \<Rightarrow> tm \<Rightarrow> tm" where
  "ser_touch me s = ser_put me ((ser_of s me)\<lparr>s_read_ts := read_ts (txn_of s me)\<rparr>) s"

definition write_hits :: "txn_id_t \<Rightarrow> string \<Rightarrow> Rid \<Rightarrow> bytes option \<Rightarrow> tm \<Rightarrow> txn_id_t list" where
  "write_hits me tab rid data s =
     (let hits = filter (\<lambda>t. t \<noteq> me) (ser_rid_readers s (row_key_of tab rid))
      in case data of
           None \<Rightarrow> hits
         | Some d \<Rightarrow> hits @ map fst (filter (\<lambda>(t, ccs). t \<noteq> me \<and> t \<notin> set hits \<and> list_ex (ser_compiled_match d) ccs) (ser_pred_readers s tab)))"

definition ser_write_check :: "txn_id_t \<Rightarrow> string \<Rightarrow> Rid \<Rightarrow> bytes option \<Rightarrow> tm \<Rightarrow> bool \<times> tm" where
  "ser_write_check me tab rid data s =
     (let s1 = ser_touch me s
      in foldl (edge_step (\<lambda>t s. ser_overlap t me s) (\<lambda>t. ser_add_edge t me)) (False, s1) (write_hits me tab rid data s1))"

text \<open>The writers a read of a chain does not see: the pending one, and those of versions after the snapshot.\<close>

definition chain_writers :: "txn_id_t \<Rightarrow> timestamp_t \<Rightarrow> MvccChain \<Rightarrow> txn_id_t list" where
  "chain_writers me rts ch =
     (if ch_writer ch \<noteq> INVALID_TXN_ID \<and> ch_writer ch \<noteq> me then [ch_writer ch] else []) @
     map writer_txn (filter (\<lambda>v. rts < ver_cts v \<and> writer_txn v \<noteq> INVALID_TXN_ID \<and> writer_txn v \<noteq> me) (hist ch))"

definition known_overlap :: "txn_id_t \<Rightarrow> txn_id_t \<Rightarrow> tm \<Rightarrow> bool" where
  "known_overlap me w s \<longleftrightarrow> map_of (ser s) w \<noteq> None \<and> ser_overlap me w s"

definition ser_read_check :: "txn_id_t \<Rightarrow> string \<Rightarrow> Rid \<Rightarrow> tm \<Rightarrow> bool \<times> tm" where
  "ser_read_check me tab rid s =
     (if \<not> ser_needs_read_check me tab s then (False, s)
      else let s1 = ser_touch me s
           in case chains s1 (row_key_of tab rid) of
                None \<Rightarrow> (False, s1)
              | Some ch \<Rightarrow> foldl (edge_step (known_overlap me) (ser_add_edge me)) (False, s1) (chain_writers me (read_ts (txn_of s1 me)) ch))"

definition pred_writers :: "txn_id_t \<Rightarrow> timestamp_t \<Rightarrow> SerCompiledCond list \<Rightarrow> MvccChain \<Rightarrow> txn_id_t list" where
  "pred_writers me rts cc ch =
     (if ch_writer ch \<noteq> INVALID_TXN_ID \<and> ch_writer ch \<noteq> me \<and> \<not> writer_del ch \<and> writer_data ch \<noteq> []
         \<and> ser_compiled_match (writer_data ch) cc then [ch_writer ch] else []) @
     map writer_txn (filter (\<lambda>v. rts < ver_cts v \<and> \<not> ver_deleted v \<and> ver_data v \<noteq> [] \<and> writer_txn v \<noteq> INVALID_TXN_ID
         \<and> writer_txn v \<noteq> me \<and> ser_compiled_match (ver_data v) cc) (hist ch))"

definition chain_cold :: "timestamp_t \<Rightarrow> MvccChain option \<Rightarrow> bool" where
  "chain_cold wm c =
     (case c of
        None \<Rightarrow> True
      | Some ch \<Rightarrow> ch_writer ch = INVALID_TXN_ID \<and> (hist ch = [] \<or> ver_cts (last (hist ch)) \<le> wm))"

definition ser_read_pred_check :: "txn_id_t \<Rightarrow> string \<Rightarrow> Condition list \<Rightarrow> tm \<Rightarrow> bool \<times> tm" where
  "ser_read_pred_check me tab conds s =
     (if \<not> ser_needs_read_check me tab s then (False, s)
      else case ser_compile_pred s tab conds of
        None \<Rightarrow> (False, s)
      | Some cc \<Rightarrow>
          let keys = recent_writes s tab; wm = rts_watermark s;
              hit_writers = concat (map (\<lambda>k. case chains s (tab, k) of None \<Rightarrow> [] | Some ch \<Rightarrow> pred_writers me (read_ts (txn_of s me)) cc ch) keys);
              s1 = s\<lparr>recent_writes := (recent_writes s)(tab := filter (\<lambda>k. \<not> chain_cold wm (chains s (tab, k))) keys)\<rparr>
          in if keys = [] then (False, s)
             else foldl (edge_step (known_overlap me) (ser_add_edge me)) (False, s1) hit_writers)"

section \<open>Compiled predicates\<close>

definition cols_ok :: "TabMeta \<Rightarrow> bool" where
  "cols_ok meta \<longleftrightarrow> list_all (\<lambda>c. cm_type c \<noteq> TYPE_STRING \<longrightarrow> cm_len c = 4) (tm_cols meta)"

lemma memcmp_take: "memcmp n a (take n b) = memcmp n a b"
  by (induction n a b rule: memcmp.induct) auto

lemma i32_at_take: "4 \<le> n \<Longrightarrow> i32_at 0 (take n b) = i32_at 0 b"
  by (simp add: i32_at_def rd_def min_def)

lemma ser_cmp_take:
  assumes "t = TYPE_STRING \<or> n = 4"
  shows "ser_cmp a (take n b) n t op = ser_cmp a b n t op"
  using assms by (cases t) (auto simp: ser_cmp_def memcmp_take i32_at_take)

lemma find_lhs_ok:
  assumes "cols_ok meta" and "find_lhs meta c = Some l"
  shows "cm_type l = TYPE_STRING \<or> cm_len l = 4"
  using assms by (auto simp: cols_ok_def find_lhs_def find_Some_iff list_all_length)

lemma compile_matches:
  assumes "cols_ok meta"
  shows "matches_conds meta d conds = (case compile_conds meta conds of None \<Rightarrow> False | Some cs \<Rightarrow> ser_compiled_match d cs)"
proof (induction conds)
  case Nil
  show ?case by (simp add: ser_compiled_match_def)
next
  case (Cons c cs)
  then show ?case
    using find_lhs_ok [OF assms, of c]
    by (auto simp: ser_compiled_match_def ser_cmp_take Let_def split: option.splits)
qed

section \<open>The reverse indexes\<close>

text \<open>What the indexes should hold: the transactions whose recorded reads name the row, and their compiled predicates on the table.\<close>

definition compiled_preds :: "tm \<Rightarrow> string \<Rightarrow> SerInfo \<Rightarrow> SerCompiledCond list list" where
  "compiled_preds s tab i = List.map_filter (\<lambda>(t, conds). if t = tab then ser_compile_pred s tab conds else None) (read_preds i)"

definition ser_inv :: "tm \<Rightarrow> bool" where
  "ser_inv s \<longleftrightarrow> distinct (map fst (ser s))
     \<and> (\<forall>tab. distinct (map fst (ser_pred_readers s tab)))
     \<and> (\<forall>k t. t \<in> set (ser_rid_readers s k) \<longleftrightarrow> k \<in> set (read_rids (ser_of s t)))
     \<and> (\<forall>tab t. preds_of s tab t = compiled_preds s tab (ser_of s t))
     \<and> (\<forall>t u. t \<in> in_rw (ser_of s u) \<longleftrightarrow> u \<in> out_rw (ser_of s t))
     \<and> (\<forall>t. t \<notin> in_rw (ser_of s t))"

lemma ser_invD:
  assumes "ser_inv s"
  shows "distinct (map fst (ser s))" "distinct (map fst (ser_pred_readers s tab))"
    "t \<in> set (ser_rid_readers s k) \<longleftrightarrow> k \<in> set (read_rids (ser_of s t))"
    "preds_of s tab t = compiled_preds s tab (ser_of s t)"
    "t \<in> in_rw (ser_of s u) \<longleftrightarrow> u \<in> out_rw (ser_of s t)" "t \<notin> in_rw (ser_of s t)"
  using assms unfolding ser_inv_def by blast+

lemma ser_invI:
  assumes "distinct (map fst (ser s))" "\<And>tab. distinct (map fst (ser_pred_readers s tab))"
    "\<And>k t. t \<in> set (ser_rid_readers s k) \<longleftrightarrow> k \<in> set (read_rids (ser_of s t))"
    "\<And>tab t. preds_of s tab t = compiled_preds s tab (ser_of s t)"
    "\<And>t u. t \<in> in_rw (ser_of s u) \<longleftrightarrow> u \<in> out_rw (ser_of s t)" "\<And>t. t \<notin> in_rw (ser_of s t)"
  shows "ser_inv s"
  using assms unfolding ser_inv_def by blast

lemma ser_of_put [simp]: "ser_of (ser_put t i s) u = (if u = t then i else ser_of s u)"
  by (simp add: ser_of_def ser_put_def update_conv)

lemma ser_put_simps [simp]:
  "ser_rid_readers (ser_put t i s) = ser_rid_readers s" "ser_pred_readers (ser_put t i s) = ser_pred_readers s"
  "preds_of (ser_put t i s) tab u = preds_of s tab u" "meta_of (ser_put t i s) = meta_of s"
  "txn_of (ser_put t i s) = txn_of s" "chains (ser_put t i s) = chains s"
  by (simp_all add: ser_put_def preds_of_def meta_of_def txn_of_def fun_eq_iff)

lemma distinct_ser_put: "distinct (map fst (ser s)) \<Longrightarrow> distinct (map fst (ser (ser_put t i s)))"
  by (simp add: ser_put_def distinct_update)

lemma compiled_preds_cong:
  assumes "meta_of s' = meta_of s" and "read_preds i' = read_preds i"
  shows "compiled_preds s' tab i' = compiled_preds s tab i"
proof -
  have "ser_compile_pred s' = ser_compile_pred s" using assms(1) by (simp add: ser_compile_pred_def fun_eq_iff)
  then show ?thesis using assms(2) by (simp add: compiled_preds_def cong: if_cong)
qed

text \<open>A change of an entry that keeps its recorded reads and its edges keeps the invariant; so does every operation below.\<close>

lemma ser_inv_put:
  assumes s: "ser_inv s" and i: "read_rids i = read_rids (ser_of s t)" "read_preds i = read_preds (ser_of s t)"
      "in_rw i = in_rw (ser_of s t)" "out_rw i = out_rw (ser_of s t)"
  shows "ser_inv (ser_put t i s)"
proof (rule ser_invI)
  fix tab u
  show "preds_of (ser_put t i s) tab u = compiled_preds (ser_put t i s) tab (ser_of (ser_put t i s) u)"
    using ser_invD(4) [OF s, of tab u] i(2)
      compiled_preds_cong [of "ser_put t i s" s "ser_of (ser_put t i s) u" "ser_of s u" tab] by (auto split: if_splits)
qed (use ser_invD [OF s] i distinct_ser_put in auto)

lemma ser_inv_touch: "ser_inv s \<Longrightarrow> ser_inv (ser_touch t s)"
  unfolding ser_touch_def by (rule ser_inv_put) simp_all

lemma ser_inv_read:
  assumes s: "ser_inv s"
  shows "ser_inv (ser_record_read t tab rid s)"
proof -
  let ?k = "row_key_of tab rid" and ?s = "ser_record_read t tab rid s"
  have of: "ser_of ?s u = (if u = t then (ser_of s t)\<lparr>s_read_ts := read_ts (txn_of s t), read_rids := read_rids (ser_of s t) @ [?k]\<rparr> else ser_of s u)" for u
    by (simp add: ser_record_read_def Let_def ser_of_def ser_put_def update_conv)
  have rd: "set (ser_rid_readers ?s k) = (if k = ?k then insert t (set (ser_rid_readers s k)) else set (ser_rid_readers s k))" for k
    by (simp add: ser_record_read_def Let_def)
  have pr: "ser_pred_readers ?s = ser_pred_readers s" "preds_of ?s = preds_of s" "meta_of ?s = meta_of s"
    by (simp_all add: ser_record_read_def Let_def preds_of_def meta_of_def fun_eq_iff ser_put_def)
  show ?thesis
  proof (rule ser_invI)
    show "distinct (map fst (ser ?s))"
      using distinct_update [OF ser_invD(1) [OF s]] by (simp add: ser_record_read_def Let_def ser_put_def)
    show "preds_of ?s tb u = compiled_preds ?s tb (ser_of ?s u)" for tb u
      using ser_invD(4) [OF s, of tb u] compiled_preds_cong [OF pr(3), of "ser_of ?s u" "ser_of s u" tb] by (simp add: pr of)
    show "u \<in> set (ser_rid_readers ?s k) \<longleftrightarrow> k \<in> set (read_rids (ser_of ?s u))" for k u
      using ser_invD(3) [OF s] by (auto simp: rd of)
  qed (use ser_invD [OF s] of pr in auto)
qed

lemma map_filter_append: "List.map_filter f (xs @ ys) = List.map_filter f xs @ List.map_filter f ys"
  by (simp add: map_filter_def)

lemma ser_inv_pred:
  assumes s: "ser_inv s"
  shows "ser_inv (ser_record_pred t tab conds s)"
proof -
  let ?s = "ser_record_pred t tab conds s"
  have of: "ser_of ?s u = (if u = t then (ser_of s t)\<lparr>s_read_ts := read_ts (txn_of s t), read_preds := read_preds (ser_of s t) @ [(tab, conds)]\<rparr> else ser_of s u)" for u
    by (simp add: ser_record_pred_def Let_def ser_of_def ser_put_def update_conv split: option.splits)
  have me: "meta_of ?s = meta_of s" and rd: "ser_rid_readers ?s = ser_rid_readers s"
    by (simp_all add: ser_record_pred_def Let_def meta_of_def fun_eq_iff ser_put_def split: option.splits)
  have pr: "preds_of ?s tb u = (if tb = tab \<and> u = t
      then preds_of s tb u @ (case ser_compile_pred s tab conds of None \<Rightarrow> [] | Some c \<Rightarrow> [c]) else preds_of s tb u)" for tb u
    by (simp add: ser_record_pred_def Let_def preds_of_def ser_put_def update_conv ser_compile_pred_def meta_of_def split: option.splits)
  show ?thesis
  proof (rule ser_invI)
    show "distinct (map fst (ser ?s))" "distinct (map fst (ser_pred_readers ?s tb))" for tb
      using distinct_update [OF ser_invD(1) [OF s]] ser_invD(2) [OF s] distinct_update [OF ser_invD(2) [OF s]]
      by (simp_all add: ser_record_pred_def Let_def ser_put_def split: option.splits)
    show "preds_of ?s tb u = compiled_preds ?s tb (ser_of ?s u)" for tb u
      using ser_invD(4) [OF s, of tb u] compiled_preds_cong [OF me refl, of tb "ser_of ?s u"]
      by (auto simp: pr of compiled_preds_def map_filter_append List.map_filter_simps split: option.splits)
  qed (use ser_invD [OF s] of rd in auto)
qed

lemma unindex_rids:
  fixes ks :: "row_key list" and s :: tm and t :: txn_id_t
  defines "f \<equiv> \<lambda>s k. s\<lparr>ser_rid_readers := (ser_rid_readers s)(k := removeAll t (ser_rid_readers s k))\<rparr>"
  shows "set (ser_rid_readers (foldl f s ks) k) = set (ser_rid_readers s k) - (if k \<in> set ks then {t} else {})"
    "ser_pred_readers (foldl f s ks) = ser_pred_readers s" "ser (foldl f s ks) = ser s" "db_tabs (foldl f s ks) = db_tabs s"
  unfolding f_def by (induction ks arbitrary: s) auto

lemma unindex_preds:
  fixes ps :: "(string \<times> Condition list) list" and s :: tm and t :: txn_id_t
  defines "f \<equiv> \<lambda>s (tab, _). s\<lparr>ser_pred_readers := (ser_pred_readers s)(tab := AList.delete t (ser_pred_readers s tab))\<rparr>"
  shows "ser_pred_readers (foldl f s ps) tab = (if tab \<in> fst ` set ps then AList.delete t (ser_pred_readers s tab) else ser_pred_readers s tab)"
    "ser_rid_readers (foldl f s ps) = ser_rid_readers s" "ser (foldl f s ps) = ser s" "db_tabs (foldl f s ps) = db_tabs s"
  unfolding f_def by (induction ps arbitrary: s) (auto simp: delete_idem)

lemma ser_unindex_simps:
  "set (ser_rid_readers (ser_unindex t i s) k) = set (ser_rid_readers s k) - (if k \<in> set (read_rids i) then {t} else {})"
  "ser_pred_readers (ser_unindex t i s) tab =
     (if tab \<in> fst ` set (read_preds i) then AList.delete t (ser_pred_readers s tab) else ser_pred_readers s tab)"
  "ser (ser_unindex t i s) = ser s" "db_tabs (ser_unindex t i s) = db_tabs s"
  by (simp_all add: ser_unindex_def Let_def unindex_rids unindex_preds)

lemma map_of_unlink: "map_of (map (unlink_entry t i) xs) u = map_option (\<lambda>j. snd (unlink_entry t i (u, j))) (map_of xs u)"
  by (induction xs) (auto simp: unlink_entry_def Let_def)

lemma compiled_preds_none: "tab \<notin> fst ` set (read_preds i) \<Longrightarrow> compiled_preds s tab i = []"
  by (auto simp: compiled_preds_def map_filter_def filter_empty_conv image_iff split: if_splits)

lemma new_SerInfo_simps [simp]:
  "read_rids new_SerInfo = []" "read_preds new_SerInfo = []" "in_rw new_SerInfo = {}" "out_rw new_SerInfo = {}" "s_committed new_SerInfo = False"
  by (simp_all add: new_SerInfo_def)

lemma compiled_preds_new [simp]: "compiled_preds s tab new_SerInfo = []"
  by (rule compiled_preds_none) simp

lemma ser_of_drop:
  "ser_of (ser_drop t s) u = (if u = t then new_SerInfo else snd (unlink_entry t (ser_of s t) (u, ser_of s u)))"
proof -
  have "ser (ser_drop t s) = AList.delete t (map (unlink_entry t (ser_of s t)) (ser s))"
    by (simp add: ser_drop_def Let_def ser_unindex_simps)
  then have e: "map_of (ser (ser_drop t s)) u =
      (if u = t then None else map_option (\<lambda>j. snd (unlink_entry t (ser_of s t) (u, j))) (map_of (ser s) u))"
    by (simp add: delete_conv map_of_unlink)
  have "snd (unlink_entry t i (u, new_SerInfo)) = new_SerInfo" for i by (simp add: unlink_entry_def Let_def new_SerInfo_def)
  then show ?thesis using e by (auto simp: ser_of_def [of "ser_drop t s"] ser_of_def [of s u] split: option.splits)
qed

lemma ser_inv_drop:
  assumes s: "ser_inv s"
  shows "ser_inv (ser_drop t s)"
proof -
  let ?s = "ser_drop t s" and ?i = "ser_of s t"
  note of = ser_of_drop [of t s]
  have me: "meta_of ?s = meta_of s" by (simp add: ser_drop_def Let_def meta_of_def ser_unindex_simps(4) fun_eq_iff)
  have rds: "read_rids (ser_of ?s u) = (if u = t then [] else read_rids (ser_of s u))"
      "read_preds (ser_of ?s u) = (if u = t then [] else read_preds (ser_of s u))"
      "in_rw (ser_of ?s u) = (if u = t then {} else in_rw (ser_of s u) - (if u \<in> out_rw ?i then {t} else {}))"
      "out_rw (ser_of ?s u) = (if u = t then {} else out_rw (ser_of s u) - (if u \<in> in_rw ?i then {t} else {}))" for u
    by (auto simp: of unlink_entry_def Let_def)
  show ?thesis
  proof (rule ser_invI)
    show "distinct (map fst (ser ?s))"
      using ser_invD(1) [OF s] by (simp add: ser_drop_def Let_def ser_unindex_simps distinct_delete o_def unlink_entry_def case_prod_unfold)
    show "distinct (map fst (ser_pred_readers ?s tab))" for tab
      using ser_invD(2) [OF s] by (simp add: ser_drop_def Let_def ser_unindex_simps distinct_delete)
    show "u \<in> set (ser_rid_readers ?s k) \<longleftrightarrow> k \<in> set (read_rids (ser_of ?s u))" for k u
    proof -
      have "set (ser_rid_readers ?s k) = set (ser_rid_readers s k) - (if k \<in> set (read_rids ?i) then {t} else {})"
        by (simp add: ser_drop_def Let_def ser_unindex_simps)
      then show ?thesis using ser_invD(3) [OF s, of u k] by (auto simp: rds)
    qed
    have "preds_of ?s tab t = []" for tab
    proof (cases "tab \<in> fst ` set (read_preds ?i)")
      case True
      then show ?thesis by (simp add: preds_of_def ser_drop_def Let_def ser_unindex_simps delete_conv)
    next
      case False
      then show ?thesis using ser_invD(4) [OF s, of tab t] compiled_preds_none [OF False, of s]
        by (simp add: preds_of_def ser_drop_def Let_def ser_unindex_simps)
    qed
    moreover have "preds_of ?s tab u = preds_of s tab u" if "u \<noteq> t" for tab u
      using that by (simp add: preds_of_def ser_drop_def Let_def ser_unindex_simps delete_conv)
    ultimately show "preds_of ?s tab u = compiled_preds ?s tab (ser_of ?s u)" for tab u
      using ser_invD(4) [OF s, of tab u] compiled_preds_cong [OF me, of "ser_of ?s u" "ser_of s u" tab]
      by (cases "u = t") (simp_all add: rds compiled_preds_none)
    show "u \<in> in_rw (ser_of ?s v) \<longleftrightarrow> v \<in> out_rw (ser_of ?s u)" for u v
      using ser_invD(5) [OF s] by (auto simp: rds)
    show "u \<notin> in_rw (ser_of ?s u)" for u using ser_invD(6) [OF s, of u] by (auto simp: rds)
  qed
qed

lemma ser_inv_gc: "ser_inv s \<Longrightarrow> ser_inv (foldl (ser_gc_step wm) s ts)"
  by (induction ts arbitrary: s) (simp_all add: ser_gc_step_def ser_inv_drop)

lemma ser_inv_finish:
  assumes "ser_inv s"
  shows "ser_inv (ser_finish t c cts s)"
proof (cases "map_of (ser s) t")
  case (Some i)
  then have "ser_of s t = i" by (simp add: ser_of_def)
  then have "ser_inv (ser_put t (i\<lparr>s_committed := True, s_commit_ts := cts\<rparr>) s)" by (intro ser_inv_put [OF assms]) simp_all
  then show ?thesis using Some ser_inv_drop [OF assms] ser_inv_gc by (simp add: ser_finish_def Let_def)
qed (simp add: ser_finish_def assms)

lemma ser_inv_edge:
  assumes s: "ser_inv s"
  shows "ser_inv (snd (ser_add_edge r w s))"
proof (cases "r = w")
  case False
  let ?s1 = "ser_put w ((ser_of s w)\<lparr>in_rw := insert r (in_rw (ser_of s w))\<rparr>) s"
  let ?s = "ser_put r ((ser_of ?s1 r)\<lparr>out_rw := insert w (out_rw (ser_of ?s1 r))\<rparr>) ?s1"
  have e: "snd (ser_add_edge r w s) = ?s" using False by (simp add: ser_add_edge_def Let_def)
  have "ser_inv ?s"
  proof (rule ser_invI)
    show "distinct (map fst (ser ?s))" using ser_invD(1) [OF s] by (intro distinct_ser_put)
    show "preds_of ?s tab u = compiled_preds ?s tab (ser_of ?s u)" for tab u
      using ser_invD(4) [OF s, of tab u] compiled_preds_cong [of ?s s "ser_of ?s u" "ser_of s u" tab] by (auto split: if_splits)
  qed (use ser_invD [OF s] False in \<open>auto split: if_splits\<close>)
  then show ?thesis by (simp only: e)
qed (simp add: ser_add_edge_def s)

lemma ser_inv_edges:
  assumes "ser_inv s" and "\<And>t s. ser_inv s \<Longrightarrow> ser_inv (snd (add t s))"
  shows "ser_inv (snd (foldl (edge_step g add) (b, s) ts))"
  using assms(1)
proof (induction ts arbitrary: b s)
  case (Cons t ts)
  have "edge_step g add (b, s) t = (if g t s then (b \<or> fst (add t s), snd (add t s)) else (b, s))"
    by (simp add: edge_step_def case_prod_unfold)
  then show ?case using Cons.IH [OF Cons.prems] Cons.IH [OF assms(2) [OF Cons.prems]] by simp
qed simp

lemma ser_inv_frame:
  assumes "ser_inv s" "ser s' = ser s" "ser_rid_readers s' = ser_rid_readers s" "ser_pred_readers s' = ser_pred_readers s" "db_tabs s' = db_tabs s"
  shows "ser_inv s'"
proof -
  have e: "ser_of s' = ser_of s" "preds_of s' = preds_of s" "meta_of s' = meta_of s"
    using assms(2-5) by (simp_all add: fun_eq_iff ser_of_def preds_of_def meta_of_def)
  show ?thesis
  proof (rule ser_invI)
    show "preds_of s' tab u = compiled_preds s' tab (ser_of s' u)" for tab u
      using ser_invD(4) [OF assms(1), of tab u] compiled_preds_cong [OF e(3) refl, of tab "ser_of s u"] by (simp add: e)
  qed (use ser_invD [OF assms(1)] e assms in auto)
qed

lemma ser_inv_checks:
  assumes "ser_inv s"
  shows "ser_inv (snd (ser_write_check t tab rid d s))" "ser_inv (snd (ser_read_check t tab rid s))"
    "ser_inv (snd (ser_read_pred_check t tab conds s))"
proof -
  note e = ser_inv_edges [OF _ ser_inv_edge]
  show "ser_inv (snd (ser_write_check t tab rid d s))" "ser_inv (snd (ser_read_check t tab rid s))"
    by (auto simp: ser_write_check_def ser_read_check_def Let_def assms split: option.splits intro!: e ser_inv_touch)
  show "ser_inv (snd (ser_read_pred_check t tab conds s))"
    by (auto simp: ser_read_pred_check_def Let_def assms split: option.splits intro!: e ser_inv_frame [OF assms])
qed

section \<open>Properties\<close>

text \<open>The states of the checks: any sequence of recorded reads, checks and ends of transactions, between changes of the rest of the state.\<close>

inductive ser_reach :: "tm \<Rightarrow> bool" where
  start: "ser s = [] \<Longrightarrow> ser_rid_readers s = (\<lambda>_. []) \<Longrightarrow> ser_pred_readers s = (\<lambda>_. []) \<Longrightarrow> ser_reach s"
| other: "ser_reach s \<Longrightarrow> ser s' = ser s \<Longrightarrow> ser_rid_readers s' = ser_rid_readers s \<Longrightarrow>
    ser_pred_readers s' = ser_pred_readers s \<Longrightarrow> db_tabs s' = db_tabs s \<Longrightarrow> ser_reach s'"
| record_read: "ser_reach s \<Longrightarrow> ser_reach (ser_record_read t tab rid s)"
| record_pred: "ser_reach s \<Longrightarrow> ser_reach (ser_record_pred t tab conds s)"
| finish: "ser_reach s \<Longrightarrow> ser_reach (ser_finish t c cts s)"
| write_check: "ser_reach s \<Longrightarrow> ser_reach (snd (ser_write_check t tab rid d s))"
| read_check: "ser_reach s \<Longrightarrow> ser_reach (snd (ser_read_check t tab rid s))"
| read_pred_check: "ser_reach s \<Longrightarrow> ser_reach (snd (ser_read_pred_check t tab conds s))"

lemma ser_reach_inv: "ser_reach s \<Longrightarrow> ser_inv s"
proof (induction rule: ser_reach.induct)
  case (start s)
  have "ser_of s t = new_SerInfo" for t by (simp add: ser_of_def start)
  then show ?case by (intro ser_invI) (simp_all add: start preds_of_def)
next
  case (other s s')
  then show ?case by (intro ser_inv_frame [of s s'])
qed (simp_all add: ser_inv_read ser_inv_pred ser_inv_finish ser_inv_checks)

text \<open>
  C16: precompiled predicates. A predicate whose columns are resolved once, when it is recorded, accepts exactly the rows that
  \<open>ser_record_matches\<close> accepts; a predicate that cannot be compiled accepts no row.\<close>

theorem ser_compiled_equiv:
  assumes "list_all (\<lambda>c. cm_type c \<noteq> TYPE_STRING \<longrightarrow> cm_len c = 4) (tm_cols (meta_of s tab))"
  shows "ser_record_matches s tab d conds =
    (case ser_compile_pred s tab conds of None \<Rightarrow> False | Some cs \<Rightarrow> ser_compiled_match d cs)"
  using compile_matches [of "meta_of s tab" d conds] assms
  by (auto simp: cols_ok_def ser_record_matches_def ser_compile_pred_def ser_compiled_match_def)

definition ex_tab :: TabMeta where
  "ex_tab = \<lparr>tm_name = ''t'', tm_cols = [\<lparr>cm_tab = ''t'', cm_name = ''a'', cm_type = TYPE_INT, cm_len = 4, cm_offset = 0\<rparr>,
     \<lparr>cm_tab = ''t'', cm_name = ''b'', cm_type = TYPE_INT, cm_len = 4, cm_offset = 4\<rparr>], tm_indexes = []\<rparr>"

definition ex_tm :: tm where
  "ex_tm = tm_new [''t'' \<mapsto> ex_tab] [''t'' \<mapsto> Map.empty] Map.empty"

definition ex_cond :: Condition where
  "ex_cond = \<lparr>lhs_tab = ''t'', lhs_col = ''b'', cond_op = OP_EQ, is_rhs_val = True, rhs_col = [], rhs_raw = [2, 0, 0, 0]\<rparr>"

lemma ex_meta: "meta_of ex_tm ''t'' = ex_tab"
  by (simp add: meta_of_def ex_tm_def tm_new_def)

lemma ex_match: "ser_record_matches ex_tm ''t'' [1, 0, 0, 0, 2, 0, 0, 0] [ex_cond]"
  unfolding ser_record_matches_def ex_meta
  by (simp add: ex_tab_def ex_cond_def find_lhs_def ser_cmp_def i32_at_def rd_def numeral_eq_Suc)

theorem ser_compiled_equiv_witness:
  "\<exists>cs. ser_compile_pred ex_tm ''t'' [ex_cond] = Some cs \<and> ser_compiled_match [1, 0, 0, 0, 2, 0, 0, 0] cs"
  using ser_compiled_equiv [of ex_tm "''t''" "[1, 0, 0, 0, 2, 0, 0, 0]" "[ex_cond]"] ex_match
  by (auto simp: ex_meta ex_tab_def split: option.splits)

text \<open>
  C11: the reverse indexes are exact. In every reachable state the transactions \<open>ser_write_check\<close> finds through
  its indexes are exactly the other transactions that recorded a read of the row, or a predicate on the table that
  the written bytes satisfy: the same set a scan of all recorded reads would give.\<close>

theorem ser_hits_exact:
  assumes "ser_reach s" and "list_all (\<lambda>c. cm_type c \<noteq> TYPE_STRING \<longrightarrow> cm_len c = 4) (tm_cols (meta_of s tab))"
  shows "set (write_hits me tab rid (Some d) s) =
    {t. t \<noteq> me \<and> (row_key_of tab rid \<in> set (read_rids (ser_of s t))
       \<or> (\<exists>conds. (tab, conds) \<in> set (read_preds (ser_of s t)) \<and> ser_record_matches s tab d conds))}"
proof -
  note inv = ser_invD [OF ser_reach_inv [OF assms(1)]]
  have cm: "ser_record_matches s tab d conds \<longleftrightarrow> (\<exists>cs. ser_compile_pred s tab conds = Some cs \<and> ser_compiled_match d cs)" for conds
    using compile_matches [of "meta_of s tab" d conds] assms(2)
    by (auto simp: cols_ok_def ser_record_matches_def ser_compile_pred_def ser_compiled_match_def split: option.splits)
  have ex: "list_ex (ser_compiled_match d) (preds_of s tab t) \<longleftrightarrow>
      (\<exists>conds. (tab, conds) \<in> set (read_preds (ser_of s t)) \<and> ser_record_matches s tab d conds)" for t
    unfolding inv(4) by (force simp: compiled_preds_def list_ex_iff map_filter_def cm split: if_splits)
  have pr: "(\<exists>ccs. (t, ccs) \<in> set (ser_pred_readers s tab) \<and> list_ex (ser_compiled_match d) ccs) \<longleftrightarrow>
      list_ex (ser_compiled_match d) (preds_of s tab t)" for t
  proof (cases "map_of (ser_pred_readers s tab) t")
    case None
    then have "(t, ccs) \<notin> set (ser_pred_readers s tab)" for ccs by (force simp: map_of_eq_None_iff)
    then show ?thesis using None by (simp add: preds_of_def)
  next
    case (Some x)
    have "ccs = x" if "(t, ccs) \<in> set (ser_pred_readers s tab)" for ccs
      using map_of_is_SomeI [OF inv(2) that] Some by simp
    moreover have "preds_of s tab t = x" using Some by (simp add: preds_of_def)
    ultimately show ?thesis using map_of_SomeD [OF Some] by blast
  qed
  have "t \<in> set (write_hits me tab rid (Some d) s) \<longleftrightarrow> t \<noteq> me \<and> (t \<in> set (ser_rid_readers s (row_key_of tab rid))
      \<or> (\<exists>ccs. (t, ccs) \<in> set (ser_pred_readers s tab) \<and> list_ex (ser_compiled_match d) ccs))" for t
    unfolding write_hits_def Let_def by force
  then show ?thesis unfolding pr ex inv(3) by blast
qed

theorem ser_hits_exact_witness:
  "set (write_hits 7 ''t'' \<lparr>page_no = 1, slot_no = 0\<rparr> (Some [1, 0, 0, 0, 2, 0, 0, 0]) (ser_record_pred 5 ''t'' [ex_cond] ex_tm)) = {5}"
proof -
  let ?s = "ser_record_pred 5 ''t'' [ex_cond] ex_tm"
  have "ser_reach ex_tm" by (rule ser_reach.start) (simp_all add: ex_tm_def tm_new_def)
  then have r: "ser_reach ?s" by (rule ser_reach.record_pred)
  have db: "db_tabs ?s = db_tabs ex_tm" by (simp add: ser_record_pred_def Let_def ser_put_def split: option.splits)
  then have m: "meta_of ?s ''t'' = ex_tab" using ex_meta by (simp add: meta_of_def)
  have of: "ser_of ?s t = (if t = 5 then new_SerInfo\<lparr>s_read_ts := read_ts (txn_of ex_tm 5), read_preds := [(''t'', [ex_cond])]\<rparr> else new_SerInfo)" for t
    by (simp add: ser_record_pred_def Let_def ser_of_def ser_put_def update_conv split: option.splits)
      (simp add: ex_tm_def tm_new_def)
  have "ser_record_matches ?s ''t'' [1, 0, 0, 0, 2, 0, 0, 0] [ex_cond]"
    using ex_match by (simp add: ser_record_matches_def m ex_meta)
  then show ?thesis
    using ser_hits_exact [OF r, of "''t''" 7 "\<lparr>page_no = 1, slot_no = 0\<rparr>" "[1, 0, 0, 0, 2, 0, 0, 0]"]
    by (auto simp: m ex_tab_def of)
qed

text \<open>
  C17: the rw graph. In every reachable state the edges at a reader and at a writer mirror each other, no
  transaction has an edge to itself, and a removed transaction is in no edge.\<close>

theorem ser_edges_mirrored:
  assumes "ser_reach s"
  shows "(t \<in> in_rw (ser_of s u) \<longleftrightarrow> u \<in> out_rw (ser_of s t)) \<and> t \<notin> in_rw (ser_of s t) \<and> t \<notin> out_rw (ser_of s t)
    \<and> (map_of (ser s) t = None \<longrightarrow> t \<notin> in_rw (ser_of s u) \<and> t \<notin> out_rw (ser_of s u))"
proof -
  note inv = ser_invD(5,6) [OF ser_reach_inv [OF assms]]
  have "in_rw (ser_of s t) = {} \<and> out_rw (ser_of s t) = {}" if "map_of (ser s) t = None" using that by (simp add: ser_of_def)
  then show ?thesis using inv(1) [of t u] inv(1) [of t t] inv(1) [of u t] inv(2) [of t] by auto
qed

theorem ser_edges_mirrored_witness:
  "5 \<in> in_rw (ser_of (snd (ser_write_check 7 ''t'' \<lparr>page_no = 1, slot_no = 0\<rparr> None (ser_record_read 5 ''t'' \<lparr>page_no = 1, slot_no = 0\<rparr> ex_tm))) 7)
   \<and> 7 \<in> out_rw (ser_of (snd (ser_write_check 7 ''t'' \<lparr>page_no = 1, slot_no = 0\<rparr> None (ser_record_read 5 ''t'' \<lparr>page_no = 1, slot_no = 0\<rparr> ex_tm))) 5)"
proof -
  let ?s = "snd (ser_write_check 7 ''t'' \<lparr>page_no = 1, slot_no = 0\<rparr> None (ser_record_read 5 ''t'' \<lparr>page_no = 1, slot_no = 0\<rparr> ex_tm))"
  have "ser_reach ex_tm" by (rule ser_reach.start) (simp_all add: ex_tm_def tm_new_def)
  then have r: "ser_reach ?s" by (intro ser_reach.write_check ser_reach.record_read)
  have "5 \<in> in_rw (ser_of ?s 7)"
    by (simp add: ser_write_check_def ser_record_read_def ser_touch_def write_hits_def edge_step_def ser_add_edge_def ser_overlap_def
        ser_of_def ser_put_def Let_def ex_tm_def tm_new_def new_SerInfo_def)
  then show ?thesis using ser_edges_mirrored [OF r, of 5 7] by simp
qed

end
