(* ===== verification/Mvcc.thy ===== *)
theory Mvcc
  imports Ssi
begin

text \<open>
  Multi-version concurrency control, \<^verbatim>\<open>src/src/transaction/transaction_manager.cpp\<close>: reads of a snapshot,
  uncommitted writes on the version chain of a row, their transfer to a private overlay at
  the end of a statement, commit, rollback and the removal of old versions. An operation on one chain holds its
  shard's mutex and is one step; \<open>tm_commit\<close> and \<open>tm_abort\<close> are composed of such steps, which are separate definitions.
  The result of a write is the code's \<^verbatim>\<open>false\<close>, after which the caller aborts, the row the write stored, or
  \<open>Undefined\<close> where the code follows a null pointer or reads past the end of a string.
\<close>

section \<open>Start of a transaction\<close>

definition insert_rts :: "timestamp_t \<Rightarrow> tm \<Rightarrow> tm" where
  "insert_rts r s = s\<lparr>active_rts := insort r (active_rts s)\<rparr>"

definition tm_begin :: "txn_id_t option \<Rightarrow> tm \<Rightarrow> txn_id_t \<times> tm" where
  "tm_begin txn s =
     (case txn of
        None \<Rightarrow>
          let t = next_txn_id s; tr = new_Transaction (next_timestamp s) (last_commit_ts s);
              s1 = s\<lparr>next_txn_id := t + 1, next_timestamp := next_timestamp s + 1\<rparr>; s2 = insert_rts (read_ts tr) s1
          in (t, s2\<lparr>txn_map := (txn_map s2)(t \<mapsto> tr)\<rparr>)
      | Some t \<Rightarrow> (t, insert_rts (read_ts (txn_of s t)) s))"

text \<open>\<^verbatim>\<open>BEGIN\<close> makes the transaction explicit; \<open>reap\<close> frees one that ended.\<close>

definition set_explicit :: "txn_id_t \<Rightarrow> tm \<Rightarrow> tm" where
  "set_explicit t s = (upd_txn t (\<lambda>tr. tr\<lparr>txn_mode := True\<rparr>) s)\<lparr>active_explicit_count := active_explicit_count s + 1\<rparr>"

definition reap :: "txn_id_t \<Rightarrow> tm \<Rightarrow> tm" where
  "reap t s =
     (case txn_map s t of
        None \<Rightarrow> s
      | Some tr \<Rightarrow> if t_state tr \<noteq> COMMITTED \<and> t_state tr \<noteq> ABORTED then s else s\<lparr>txn_map := (txn_map s)(t := None)\<rparr>)"

section \<open>Reads\<close>

definition visible_ver :: "timestamp_t \<Rightarrow> MvccVer list \<Rightarrow> bytes option" where
  "visible_ver rts vs =
     (case find (\<lambda>v. ver_cts v \<le> rts) (rev vs) of
        None \<Rightarrow> None
      | Some v \<Rightarrow> if ver_deleted v then None else Some (ver_data v))"

definition mvcc_read :: "txn_id_t \<Rightarrow> string \<Rightarrow> Rid \<Rightarrow> bytes \<Rightarrow> tm \<Rightarrow> bytes option" where
  "mvcc_read t tab rid heap_data s =
     (let k = row_key_of tab rid; rts = read_ts (txn_of s t)
      in if \<not> any_mvcc_dirty s then Some heap_data
         else case get_si_overlay k (txn_of s t) of
           Some ov \<Rightarrow> if ov_deleted ov then None else Some (ov_data ov)
         | None \<Rightarrow>
             (case chains s k of
                None \<Rightarrow> Some heap_data
              | Some ch \<Rightarrow>
                  if ch_writer ch = t then (if writer_del ch then None else Some (writer_data ch))
                  else if ch_writer ch = INVALID_TXN_ID \<and> hist ch \<noteq> [] \<and> ver_cts (last (hist ch)) \<le> rts
                  then (if ver_deleted (last (hist ch)) then None else Some (ver_data (last (hist ch))))
                  else visible_ver rts (hist ch)))"

section \<open>Writes\<close>

datatype write_result = Refused | Stored bytes | Undefined

text \<open>The beginning of every write: the table's activity, the set of recent writes, the dirty mark, the chain.\<close>

definition write_enter :: "txn_id_t \<Rightarrow> string \<Rightarrow> Rid \<Rightarrow> tm \<Rightarrow> tm" where
  "write_enter t tab rid s =
     (let k = row_key_of tab rid; s1 = mark_dirty_tab tab (recent_writes_add tab (mvcc_key rid) (note_table_write t tab s))
      in set_chain k (chain_of s1 k) s1)"

definition mvcc_insert :: "txn_id_t \<Rightarrow> string \<Rightarrow> Rid \<Rightarrow> bytes \<Rightarrow> tm \<Rightarrow> tm" where
  "mvcc_insert t tab rid data s =
     (let k = row_key_of tab rid; s1 = write_enter t tab rid s; ch = chain_of s1 k
      in upd_txn t (append_write_record \<lparr>wtype = INSERT_TUPLE, w_tab = tab, w_rid = rid, w_record = []\<rparr>)
           (set_chain k (ch\<lparr>hist := [], ch_writer := t, writer_del := False, writer_data := data\<rparr>) s1))"

definition write_blocked :: "txn_id_t \<Rightarrow> row_key \<Rightarrow> tm \<Rightarrow> bool" where
  "write_blocked t k s \<longleftrightarrow>
     (case pending s k of None \<Rightarrow> False | Some w \<Rightarrow> w \<noteq> t)
     \<or> ch_writer (chain_of s k) \<noteq> INVALID_TXN_ID \<and> ch_writer (chain_of s k) \<noteq> t"

definition first_touch :: "txn_id_t \<Rightarrow> string \<Rightarrow> Rid \<Rightarrow> tm \<Rightarrow> bool" where
  "first_touch t tab rid s \<longleftrightarrow>
     ch_writer (chain_of s (row_key_of tab rid)) \<noteq> t \<and> get_si_overlay (row_key_of tab rid) (txn_of s t) = None
     \<and> \<not> list_ex (\<lambda>w. w_tab w = tab \<and> w_rid w = rid) (write_set (txn_of s t))"

text \<open>The first write of an untracked row keeps the row it saw as a version with timestamp 0.\<close>

definition with_base :: "txn_id_t \<Rightarrow> row_key \<Rightarrow> bytes \<Rightarrow> tm \<Rightarrow> MvccChain \<Rightarrow> MvccChain" where
  "with_base t k old s ch =
     (if hist ch = [] \<and> ch_writer ch = INVALID_TXN_ID \<and> get_si_overlay k (txn_of s t) = None
      then ch\<lparr>hist := [\<lparr>ver_data = old, ver_cts = 0, ver_deleted = False, writer_txn = INVALID_TXN_ID\<rparr>]\<rparr> else ch)"

definition newer_version :: "txn_id_t \<Rightarrow> MvccChain \<Rightarrow> tm \<Rightarrow> bool" where
  "newer_version t ch s \<longleftrightarrow> hist ch \<noteq> [] \<and> read_ts (txn_of s t) < ver_cts (last (hist ch))"

definition del_key_of :: "tm \<Rightarrow> string \<Rightarrow> bytes \<Rightarrow> DelKeyState" where
  "del_key_of s tab kb = (case map_of (del_keys s tab) kb of None \<Rightarrow> \<lparr>dk_writers = {}, last_del_cts = 0\<rparr> | Some d \<Rightarrow> d)"

definition set_del_key :: "string \<Rightarrow> bytes \<Rightarrow> DelKeyState \<Rightarrow> tm \<Rightarrow> tm" where
  "set_del_key tab kb d s = s\<lparr>del_keys := (del_keys s)(tab := AList.update kb d (del_keys s tab))\<rparr>"

definition note_del_key :: "txn_id_t \<Rightarrow> string \<Rightarrow> bytes \<Rightarrow> nat \<Rightarrow> tm \<Rightarrow> tm" where
  "note_del_key t tab old len s =
     (case tm_cols (meta_of s tab) of
        [] \<Rightarrow> s
      | c # _ \<Rightarrow>
          if cm_offset c + cm_len c \<le> len
          then let kb = rd (cm_offset c) (cm_len c) old; d = del_key_of s tab kb
               in upd_txn t (add_del_key tab kb) (set_del_key tab kb (d\<lparr>dk_writers := insert t (dk_writers d)\<rparr>) s)
          else s)"

definition mvcc_write :: "txn_id_t \<Rightarrow> string \<Rightarrow> Rid \<Rightarrow> bytes \<Rightarrow> bytes option \<Rightarrow> nat \<Rightarrow> bool \<Rightarrow> tm \<Rightarrow> write_result \<times> tm" where
  "mvcc_write t tab rid old new len is_delete s =
     (let k = row_key_of tab rid; s1 = write_enter t tab rid s; ch = chain_of s1 k;
          stale = ch_writer ch = INVALID_TXN_ID \<and> newer_version t ch s1;
          newd = (case new of None \<Rightarrow> [] | Some d \<Rightarrow> d);
          rb = rebase_write_delta (meta_of s1 tab) old newd (ver_data (last (hist ch))) len
      in if write_blocked t k s1 then (Refused, s1)
         else if stale \<and> (ver_deleted (last (hist ch)) \<or> length (ver_data (last (hist ch))) \<noteq> len) then (Refused, s1)
         else if stale \<and> new = None then (Undefined, s1)
         else if stale \<and> \<not> fst rb then (Refused, s1)
         else
           let ch1 = (with_base t k (take len old) s1 ch)\<lparr>ch_writer := t, writer_del := is_delete,
                       writer_data := if is_delete then [] else take len (if stale then snd rb else newd)\<rparr>;
               s2 = set_chain k ch1 s1;
               s3 = (if is_delete then note_del_key t tab old len s2 else s2);
               s4 = (if first_touch t tab rid s1
                     then upd_txn t (append_write_record
                       \<lparr>wtype = if is_delete then DELETE_TUPLE else UPDATE_TUPLE, w_tab = tab, w_rid = rid, w_record = take len old\<rparr>) s3
                     else s3)
           in (Stored (writer_data ch1), s4))"

definition mvcc_write_col_delta ::
    "txn_id_t \<Rightarrow> string \<Rightarrow> Rid \<Rightarrow> bytes \<Rightarrow> nat \<Rightarrow> nat \<Rightarrow> ColType \<Rightarrow> 32 word \<Rightarrow> 32 word \<Rightarrow> tm \<Rightarrow> write_result \<times> tm" where
  "mvcc_write_col_delta t tab rid visible len off type delta_f delta_i s =
     (let k = row_key_of tab rid; s1 = write_enter t tab rid s; ch = chain_of s1 k; ch1 = with_base t k (take len visible) s1 ch;
          reuse = (ch_writer ch1 = t);
          base = (if \<not> reuse \<and> newer_version t ch1 s1 then ver_data (last (hist ch1)) else visible);
          row = (if reuse \<and> writer_data ch1 \<noteq> [] then writer_data ch1 else take len base);
          ch2 = ch1\<lparr>ch_writer := t, writer_del := False, hold_writer_to_commit := True\<rparr>
      in if write_blocked t k s1 then (Refused, s1)
         else if type = TYPE_STRING \<or> len < off + 4 then (Refused, set_chain k ch2 s1)
         else if \<not> (reuse \<and> writer_data ch1 \<noteq> []) \<and> length base < len then (Undefined, set_chain k ch2 s1)
         else
           let w = (if type = TYPE_FLOAT then f_add (i32_at off row) delta_f else i32_at off row + delta_i);
               ch3 = ch2\<lparr>writer_data := put_i32 off w row\<rparr>; s2 = set_chain k ch3 s1;
               s3 = (if first_touch t tab rid s1
                     then upd_txn t (append_write_record \<lparr>wtype = UPDATE_TUPLE, w_tab = tab, w_rid = rid, w_record = take len visible\<rparr>) s2
                     else s2)
           in (Stored (writer_data ch3), s3))"

definition mvcc_write_col_patch :: "txn_id_t \<Rightarrow> string \<Rightarrow> Rid \<Rightarrow> bytes \<Rightarrow> nat \<Rightarrow> MvccColPatch list \<Rightarrow> tm \<Rightarrow> write_result \<times> tm" where
  "mvcc_write_col_patch t tab rid visible len patches s =
     (if patches = [] then (Refused, s)
      else
        let k = row_key_of tab rid; s1 = write_enter t tab rid s; ch = chain_of s1 k; ch1 = with_base t k (take len visible) s1 ch;
            sb = set_chain k ch1 s1; reuse = (ch_writer ch1 = t); stale = (\<not> reuse \<and> newer_version t ch1 s1);
            latest = ver_data (last (hist ch1));
            start = (if reuse \<and> writer_data ch1 \<noteq> [] then writer_data ch1 else take len (if stale then latest else visible))
        in if write_blocked t k s1 then (Refused, s1)
           else if stale \<and> (ver_deleted (last (hist ch1)) \<or> length latest \<noteq> len) then (Refused, sb)
           else
             let (ok, row) = apply_patches
                   (\<lambda>p d. if stale then apply_col_patch_rebase p visible latest d len
                          else apply_col_patch_from_visible p visible d len (meta_of s1 tab)) patches start;
                 s2 = set_chain k (ch1\<lparr>ch_writer := t, writer_del := False, writer_data := row\<rparr>) s1
             in if \<not> ok then (Refused, s2)
                else (Stored row,
                  if first_touch t tab rid s1
                  then upd_txn t (append_write_record \<lparr>wtype = UPDATE_TUPLE, w_tab = tab, w_rid = rid, w_record = take len visible\<rparr>) s2
                  else s2))"

definition mvcc_insert_key_conflict :: "txn_id_t \<Rightarrow> string \<Rightarrow> bytes \<Rightarrow> nat \<Rightarrow> nat \<Rightarrow> tm \<Rightarrow> bool" where
  "mvcc_insert_key_conflict t tab rec key_off key_len s =
     (case map_of (del_keys s tab) (rd key_off key_len rec) of
        None \<Rightarrow> False
      | Some st \<Rightarrow> if \<exists>w \<in> dk_writers st. w \<noteq> t then True else read_ts (txn_of s t) < last_del_cts st)"

section \<open>The end of a statement\<close>

definition release_write :: "txn_id_t \<Rightarrow> tm \<Rightarrow> WriteRecord \<Rightarrow> tm" where
  "release_write t s w =
     (let k = row_key_of (w_tab w) (w_rid w)
      in case chains s k of
           None \<Rightarrow> s
         | Some ch \<Rightarrow>
             if ch_writer ch \<noteq> t \<or> hold_writer_to_commit ch then s
             else (set_chain k (ch\<lparr>ch_writer := INVALID_TXN_ID, writer_del := False, writer_data := []\<rparr>)
                    (upd_txn t (put_si_overlay k \<lparr>ov_data = writer_data ch, ov_deleted = writer_del ch\<rparr>) s))
                    \<lparr>pending := (pending s)(k \<mapsto> t)\<rparr>)"

definition release_statement_writes :: "txn_id_t \<Rightarrow> tm \<Rightarrow> tm" where
  "release_statement_writes t s =
     (case txn_map s t of
        None \<Rightarrow> s
      | Some tr \<Rightarrow> if \<not> txn_mode tr then s else foldl (release_write t) s (write_set tr))"

definition clear_pending :: "txn_id_t \<Rightarrow> tm \<Rightarrow> row_key \<Rightarrow> tm" where
  "clear_pending t s k = (if pending s k = Some t then s\<lparr>pending := (pending s)(k := None)\<rparr> else s)"

definition clear_pending_si_for_txn :: "txn_id_t \<Rightarrow> tm \<Rightarrow> tm" where
  "clear_pending_si_for_txn t s =
     (case txn_map s t of
        None \<Rightarrow> s
      | Some tr \<Rightarrow> foldl (clear_pending t) (foldl (clear_pending t) s (map fst (si_overlay tr)))
                    (map (\<lambda>w. row_key_of (w_tab w) (w_rid w)) (write_set tr)))"

definition restore_writer :: "txn_id_t \<Rightarrow> tm \<Rightarrow> row_key \<times> SiOverlay \<Rightarrow> tm" where
  "restore_writer t s = (\<lambda>(k, ov).
     (set_chain k ((chain_of s k)\<lparr>ch_writer := t, writer_del := ov_deleted ov, writer_data := ov_data ov\<rparr>) s)
       \<lparr>pending := (pending s)(k := None)\<rparr>)"

definition restore_writers_from_overlays :: "txn_id_t \<Rightarrow> tm \<Rightarrow> tm" where
  "restore_writers_from_overlays t s =
     (case txn_map s t of None \<Rightarrow> s | Some tr \<Rightarrow> foldl (restore_writer t) s (si_overlay tr))"

section \<open>Commit\<close>

text \<open>The newest version at or below the watermark is the oldest one kept.\<close>

fun keep_from :: "timestamp_t \<Rightarrow> MvccVer list \<Rightarrow> MvccVer list" where
  "keep_from wm [] = []"
| "keep_from wm (v # vs) = (if list_ex (\<lambda>v. ver_cts v \<le> wm) vs then keep_from wm vs else v # vs)"

definition erase_chain :: "row_key \<Rightarrow> tm \<Rightarrow> tm" where
  "erase_chain k s = s\<lparr>chains := (chains s)(k := None)\<rparr>"

definition prune_mvcc_after_commit :: "row_key \<Rightarrow> timestamp_t \<Rightarrow> timestamp_t \<Rightarrow> tm \<Rightarrow> tm" where
  "prune_mvcc_after_commit k wm cts s =
     (case chains s k of
        None \<Rightarrow> s
      | Some ch \<Rightarrow>
          if length (hist ch) \<le> 1
          then (if ch_writer ch = INVALID_TXN_ID \<and> hist ch \<noteq> [] \<and> 0 < cts \<and> cts \<le> wm then erase_chain k s else s)
          else
            let vs = keep_from wm (hist ch)
            in if ch_writer ch = INVALID_TXN_ID \<and> vs \<noteq> [] \<and> 0 < cts \<and> cts \<le> wm
               then (if length vs = 1 then erase_chain k s else set_chain k (ch\<lparr>hist := [last vs]\<rparr>) s)
               else set_chain k (ch\<lparr>hist := vs\<rparr>) s)"

definition commit_write :: "txn_id_t \<Rightarrow> timestamp_t \<Rightarrow> timestamp_t \<Rightarrow> db_error option \<times> tm \<Rightarrow> WriteRecord \<Rightarrow> db_error option \<times> tm" where
  "commit_write t cts wm = (\<lambda>(err, s) w.
     let k = row_key_of (w_tab w) (w_rid w)
     in if err \<noteq> None then (err, s)
        else case chains s k of
          None \<Rightarrow> (None, s)
        | Some ch \<Rightarrow>
            if ch_writer ch \<noteq> t then (None, s)
            else
              let v = \<lparr>ver_data = if writer_del ch then [] else writer_data ch, ver_cts = cts, ver_deleted = writer_del ch, writer_txn = t\<rparr>;
                  ch1 = ch\<lparr>hist := hist ch @ [v]\<rparr>; s1 = set_chain k ch1 s;
                  (e, s2) = (if writer_del ch then (None, if heap_at s1 (w_tab w) (w_rid w) \<noteq> None then set_heap (w_tab w) (w_rid w) None s1 else s1)
                             else if writer_data ch \<noteq> [] then heap_update (w_tab w) (w_rid w) (writer_data ch) s1
                             else (None, s1))
              in if e \<noteq> None then (e, s2)
                 else (None, prune_mvcc_after_commit k wm cts
                        (set_chain k (ch1\<lparr>ch_writer := INVALID_TXN_ID, writer_data := [], hold_writer_to_commit := False\<rparr>) s2)))"

definition end_activity :: "timestamp_t \<Rightarrow> tm \<Rightarrow> string \<Rightarrow> tm" where
  "end_activity cts s tab =
     (let a = activity_of s tab; a1 = (if last_cts a < cts then a\<lparr>last_cts := cts\<rparr> else a)
      in s\<lparr>write_activity := (write_activity s)(tab \<mapsto> if 0 < wa_writers a1 then a1\<lparr>wa_writers := wa_writers a1 - 1\<rparr> else a1)\<rparr>)"

definition commit_del_key :: "txn_id_t \<Rightarrow> timestamp_t \<Rightarrow> timestamp_t \<Rightarrow> tm \<Rightarrow> string \<times> bytes \<Rightarrow> tm" where
  "commit_del_key t cts wm s = (\<lambda>(tab, kb).
     let d = del_key_of s tab kb; d1 = d\<lparr>dk_writers := dk_writers d - {t}, last_del_cts := max (last_del_cts d) cts\<rparr>;
         s1 = set_del_key tab kb d1 s
     in if 8192 < length (del_keys s1 tab)
        then s1\<lparr>del_keys := (del_keys s1)(tab := filter (\<lambda>(_, d). \<not> (dk_writers d = {} \<and> last_del_cts d \<le> wm)) (del_keys s1 tab))\<rparr>
        else s1)"

definition recycle_chain :: "timestamp_t \<Rightarrow> tm \<Rightarrow> WriteRecord \<Rightarrow> tm" where
  "recycle_chain wm s w =
     (let k = row_key_of (w_tab w) (w_rid w)
      in case chains s k of
           None \<Rightarrow> s
         | Some ch \<Rightarrow>
             if ch_writer ch \<noteq> INVALID_TXN_ID \<or> length (hist ch) \<noteq> 1 \<or> ver_deleted (hd (hist ch)) \<or> wm < ver_cts (hd (hist ch)) then s
             else if pending s k \<noteq> None then s
             else erase_chain k s)"

definition remove_rts :: "timestamp_t \<Rightarrow> tm \<Rightarrow> tm" where
  "remove_rts r s = s\<lparr>active_rts := remove1 r (active_rts s)\<rparr>"

text \<open>Up to the versions: the overlays, the commit timestamp, the watermark, the end for the serializable checks.\<close>

definition commit_prepare :: "txn_id_t \<Rightarrow> tm \<Rightarrow> timestamp_t \<times> timestamp_t \<times> tm" where
  "commit_prepare t s =
     (let tr = txn_of s t; s1 = restore_writers_from_overlays t s; stamp = (write_set tr \<noteq> [] \<or> txn_mode tr);
          cts = (if stamp then last_commit_ts s1 + 1 else 0);
          s2 = (if stamp then upd_txn t (\<lambda>tr. tr\<lparr>t_commit_ts := cts\<rparr>) (s1\<lparr>last_commit_ts := cts\<rparr>) else s1);
          s3 = remove_rts (read_ts tr) s2; wm = (case active_rts s3 of [] \<Rightarrow> cts | w # _ \<Rightarrow> w);
          s4 = (if is_ser (Some t) s3 then ser_finish t True cts s3 else s3)
      in (cts, wm, s4))"

definition commit_marks :: "txn_id_t \<Rightarrow> timestamp_t \<Rightarrow> timestamp_t \<Rightarrow> tm \<Rightarrow> tm" where
  "commit_marks t cts wm s =
     (let tr = txn_of s t; s1 = foldl (end_activity cts) s (written_tabs tr);
          s2 = foldl (commit_del_key t cts wm) s1 (t_del_keys tr);
          s3 = foldl (recycle_chain wm) (upd_txn t (\<lambda>tr. tr\<lparr>written_tabs := [], t_del_keys := []\<rparr>) s2) (write_set tr)
      in if write_set tr = [] then s3
         else let d = mvcc_dirty s3 \<union> w_tab ` set (write_set tr) in s3\<lparr>mvcc_dirty := d, any_mvcc_dirty := (d \<noteq> {})\<rparr>)"

definition end_explicit :: "txn_id_t \<Rightarrow> tm \<Rightarrow> tm" where
  "end_explicit t s =
     (if txn_mode (txn_of s t) \<and> 0 < active_explicit_count s then s\<lparr>active_explicit_count := active_explicit_count s - 1\<rparr> else s)"

definition append_log :: "LogRecord \<Rightarrow> tm \<Rightarrow> tm" where
  "append_log r s = s\<lparr>wal := wal s @ [r]\<rparr>"

text \<open>After the versions: the log record, the locks, the wait for the log, the end of the transaction object.\<close>

definition commit_finish :: "txn_id_t \<Rightarrow> bool \<Rightarrow> bool \<Rightarrow> tm \<Rightarrow> tm" where
  "commit_finish t logged had_writes s =
     (let tr = txn_of s t; need = (logged \<and> (had_writes \<or> txn_mode tr \<or> t_prev_lsn tr \<noteq> INVALID_LSN));
          s1 = upd_txn t (\<lambda>tr. tr\<lparr>write_set := []\<rparr>) s;
          s2 = (if need then append_log (CommitLogRecord t) s1 else s1);
          s3 = s2\<lparr>locks := unlock_all (locks s2) (Some t)\<rparr>;
          s4 = (if need then s3\<lparr>wal_durable := max (wal_durable s3) (length (wal s2))\<rparr> else s3);
          s5 = clear_pending_si_for_txn t (end_explicit t s4)
      in upd_txn t (\<lambda>tr. tr\<lparr>si_overlay := [], t_state := COMMITTED\<rparr>) s5)"

definition tm_commit :: "txn_id_t \<Rightarrow> bool \<Rightarrow> tm \<Rightarrow> db_error option \<times> tm" where
  "tm_commit t logged s =
     (case txn_map s t of
        None \<Rightarrow> (None, s)
      | Some tr \<Rightarrow>
          if t_state tr = COMMITTED \<or> t_state tr = ABORTED then (None, s)
          else
            let (cts, wm, s1) = commit_prepare t s; (e, s2) = foldl (commit_write t cts wm) (None, s1) (write_set tr)
            in if e \<noteq> None then (e, s2)
               else (None, commit_finish t logged (write_set tr \<noteq> []) (commit_marks t cts wm s2)))"

section \<open>Rollback\<close>

definition old_bytes_of :: "WriteRecord \<Rightarrow> row_key \<Rightarrow> tm \<Rightarrow> bytes" where
  "old_bytes_of w k s =
     (if w_record w \<noteq> [] then w_record w
      else case chains s k of None \<Rightarrow> [] | Some ch \<Rightarrow> if hist ch = [] then [] else ver_data (last (hist ch)))"

definition physical_undo_write_record :: "WriteRecord \<Rightarrow> tm \<Rightarrow> tm" where
  "physical_undo_write_record w s =
     (let tab = w_tab w; rid = w_rid w; k = row_key_of tab rid; cur = heap_at s tab rid; old = old_bytes_of w k s
      in case wtype w of
           INSERT_TUPLE \<Rightarrow>
             let new = (if w_record w \<noteq> [] then w_record w else case cur of None \<Rightarrow> [] | Some d \<Rightarrow> d);
                 s1 = (if new \<noteq> [] then rollback_index_on_abort tab rid INSERT_TUPLE [] new s else s)
             in mark_dirty_tab tab (set_chain k ((chain_of s1 k)\<lparr>hist := [], ch_writer := INVALID_TXN_ID, writer_del := False, writer_data := []\<rparr>) s1)
         | UPDATE_TUPLE \<Rightarrow>
             if old = [] then s
             else (case cur of
                     None \<Rightarrow> s
                   | Some d \<Rightarrow>
                       let s1 = (if d \<noteq> old then set_heap tab rid (Some old) s else s)
                       in if d \<noteq> [] then rollback_index_on_abort tab rid UPDATE_TUPLE old d s1 else s1)
         | DELETE_TUPLE \<Rightarrow>
             if old = [] then s else set_heap tab rid (Some old) (restore_index_if_missing tab rid old s))"

text \<open>The undo of one write that is on the version chain.\<close>

definition mvcc_undo :: "WriteRecord \<Rightarrow> MvccChain \<Rightarrow> tm \<Rightarrow> tm" where
  "mvcc_undo w ch s =
     (let tab = w_tab w; rid = w_rid w; k = row_key_of tab rid; wt = wtype w;
          upd = (wt = UPDATE_TUPLE \<and> hist ch \<noteq> [] \<and> \<not> writer_del ch);
          old = (if upd then ver_data (last (hist ch)) else []);
          new = (if wt = INSERT_TUPLE \<or> upd then writer_data ch else []);
          s1 = set_chain k (ch\<lparr>ch_writer := INVALID_TXN_ID, writer_data := [], writer_del := False, hold_writer_to_commit := False\<rparr>) s
      in if hist ch = []
         then
           let new1 = (if new = [] \<and> wt = INSERT_TUPLE \<and> writer_del ch then (case heap_at s1 tab rid of None \<Rightarrow> [] | Some d \<Rightarrow> d) else new)
           in if new1 \<noteq> [] then rollback_index_on_abort tab rid INSERT_TUPLE old new1 s1 else s1
         else
           let lst = last (hist ch); live = (\<not> ver_deleted lst \<and> ver_data lst \<noteq> []);
               s2 = (if live \<and> heap_at s1 tab rid \<noteq> None then set_heap tab rid (Some (ver_data lst)) s1 else s1)
           in if wt = UPDATE_TUPLE \<and> old \<noteq> [] \<and> new \<noteq> [] then rollback_index_on_abort tab rid UPDATE_TUPLE old new s2
              else if wt = DELETE_TUPLE \<and> live then restore_index_if_missing tab rid (ver_data lst) s2
              else s2)"

definition abort_write :: "txn_id_t \<Rightarrow> row_key set \<times> tm \<Rightarrow> WriteRecord \<Rightarrow> row_key set \<times> tm" where
  "abort_write t = (\<lambda>(undone, s) w.
     let k = row_key_of (w_tab w) (w_rid w)
     in case chains s k of
          Some ch \<Rightarrow>
            if ch_writer ch = t then (insert k undone, mvcc_undo w ch s)
            else if k \<in> undone then (undone, s) else (undone, physical_undo_write_record w s)
        | None \<Rightarrow> if k \<in> undone then (undone, s) else (undone, physical_undo_write_record w s))"

definition abort_activity :: "tm \<Rightarrow> string \<Rightarrow> tm" where
  "abort_activity s tab =
     (case write_activity s tab of
        None \<Rightarrow> s
      | Some a \<Rightarrow> if 0 < wa_writers a then s\<lparr>write_activity := (write_activity s)(tab \<mapsto> a\<lparr>wa_writers := wa_writers a - 1\<rparr>)\<rparr> else s)"

definition abort_del_key :: "txn_id_t \<Rightarrow> tm \<Rightarrow> string \<times> bytes \<Rightarrow> tm" where
  "abort_del_key t s = (\<lambda>(tab, kb).
     case map_of (del_keys s tab) kb of
       None \<Rightarrow> s
     | Some d \<Rightarrow>
         let d1 = d\<lparr>dk_writers := dk_writers d - {t}\<rparr>
         in if dk_writers d1 = {} \<and> last_del_cts d1 = 0
            then s\<lparr>del_keys := (del_keys s)(tab := AList.delete kb (del_keys s tab))\<rparr>
            else set_del_key tab kb d1 s)"

definition abort_undo :: "txn_id_t \<Rightarrow> tm \<Rightarrow> tm" where
  "abort_undo t s =
     upd_txn t (\<lambda>tr. tr\<lparr>write_set := []\<rparr>)
       (snd (foldl (abort_write t) ({}, restore_writers_from_overlays t s) (rev (write_set (txn_of s t)))))"

definition abort_finish :: "txn_id_t \<Rightarrow> bool \<Rightarrow> bool \<Rightarrow> tm \<Rightarrow> tm" where
  "abort_finish t logged had_writes s =
     (let tr = txn_of s t; s1 = remove_rts (read_ts tr) s;
          s2 = (if is_ser (Some t) s1 then ser_finish t False 0 s1 else s1);
          s3 = (if logged \<and> had_writes then append_log (AbortLogRecord t) s2 else s2);
          s4 = foldl abort_activity s3 (written_tabs tr);
          s5 = foldl (abort_del_key t) s4 (t_del_keys tr);
          s6 = clear_pending_si_for_txn t (end_explicit t (upd_txn t (\<lambda>tr. tr\<lparr>written_tabs := [], t_del_keys := []\<rparr>) s5));
          s7 = s6\<lparr>locks := unlock_all (locks s6) (Some t)\<rparr>
      in upd_txn t (\<lambda>tr. tr\<lparr>si_overlay := [], t_state := ABORTED\<rparr>) s7)"

definition tm_abort :: "txn_id_t \<Rightarrow> bool \<Rightarrow> tm \<Rightarrow> tm" where
  "tm_abort t logged s =
     (case txn_map s t of
        None \<Rightarrow> s
      | Some tr \<Rightarrow>
          if t_state tr = COMMITTED \<or> t_state tr = ABORTED then s
          else abort_finish t logged (write_set tr \<noteq> []) (abort_undo t s))"

end
