(* ===== verification/Mvcc_Core.thy ===== *)
theory Mvcc_Core
  imports Mvcc "HOL-Library.Multiset"
begin

text \<open>
  The part of the transaction manager's state that decides what transactions see: for each
  transaction whether it ended, its snapshot, its overlay and its write set; the timestamps; the version chains, the pending
  marks and the rows of the table files. Statistics, serializable checks, deleted keys, indexes, locks and log are
  left out. Each operation of theory \<^verbatim>\<open>Mvcc\<close> gets a lemma that says what it does to this part.
\<close>

record ctxn =
  x_done :: bool
  x_read :: timestamp_t
  x_ov :: "(row_key \<times> SiOverlay) list"
  x_ws :: "WriteRecord list"

record core =
  c_txn :: "txn_id_t \<rightharpoonup> ctxn"
  c_next :: txn_id_t
  c_last :: timestamp_t
  c_rts :: "timestamp_t list"
  c_dirty :: bool
  c_chains :: "row_key \<rightharpoonup> MvccChain"
  c_pend :: "row_key \<rightharpoonup> txn_id_t"
  c_heap :: "string \<Rightarrow> Rid \<rightharpoonup> bytes"

definition ctxn_of :: "Transaction \<Rightarrow> ctxn" where
  "ctxn_of tr = \<lparr>x_done = (t_state tr = COMMITTED \<or> t_state tr = ABORTED), x_read = read_ts tr, x_ov = si_overlay tr, x_ws = write_set tr\<rparr>"

definition core_of :: "tm \<Rightarrow> core" where
  "core_of s = \<lparr>c_txn = (\<lambda>t. map_option ctxn_of (txn_map s t)), c_next = next_txn_id s, c_last = last_commit_ts s, c_rts = active_rts s,
     c_dirty = any_mvcc_dirty s, c_chains = chains s, c_pend = pending s, c_heap = heap_at s\<rparr>"

lemma core_of_simps [simp]:
  "c_txn (core_of s) t = map_option ctxn_of (txn_map s t)" "c_next (core_of s) = next_txn_id s" "c_last (core_of s) = last_commit_ts s"
  "c_rts (core_of s) = active_rts s" "c_dirty (core_of s) = any_mvcc_dirty s" "c_chains (core_of s) = chains s"
  "c_pend (core_of s) = pending s" "c_heap (core_of s) = heap_at s"
  by (simp_all add: core_of_def)

section \<open>Operations without effect on this part\<close>

lemma heap_at_frame: "fhs s' = fhs s \<Longrightarrow> heap_at s' = heap_at s"
  by (simp add: heap_at_def fun_eq_iff)

lemma core_eqI:
  assumes "\<And>t. map_option ctxn_of (txn_map s' t) = map_option ctxn_of (txn_map s t)" "next_txn_id s' = next_txn_id s"
    "last_commit_ts s' = last_commit_ts s" "active_rts s' = active_rts s" "any_mvcc_dirty s' = any_mvcc_dirty s" "chains s' = chains s"
    "pending s' = pending s" "fhs s' = fhs s"
  shows "core_of s' = core_of s"
  using assms heap_at_frame [OF assms(8)] by (simp add: core_of_def)

lemma core_upd_txn:
  assumes "\<And>tr. ctxn_of (g tr) = ctxn_of tr"
  shows "core_of (upd_txn t g s) = core_of s"
  by (rule core_eqI) (auto simp: upd_txn_def option.map_comp o_def assms)

lemma core_fields [simp]:
  "core_of (s\<lparr>recent_writes := a\<rparr>) = core_of s" "core_of (s\<lparr>write_activity := b\<rparr>) = core_of s" "core_of (s\<lparr>del_keys := c\<rparr>) = core_of s"
  "core_of (s\<lparr>ser := d\<rparr>) = core_of s" "core_of (s\<lparr>ser_rid_readers := e\<rparr>) = core_of s" "core_of (s\<lparr>ser_pred_readers := f\<rparr>) = core_of s"
  "core_of (s\<lparr>ihs := g\<rparr>) = core_of s" "core_of (s\<lparr>locks := h\<rparr>) = core_of s" "core_of (s\<lparr>wal := i\<rparr>) = core_of s"
  "core_of (s\<lparr>wal_durable := j\<rparr>) = core_of s" "core_of (s\<lparr>active_explicit_count := k\<rparr>) = core_of s"
  "core_of (s\<lparr>mvcc_dirty := l\<rparr>) = core_of s" "core_of (s\<lparr>next_timestamp := m\<rparr>) = core_of s"
  by (rule core_eqI; simp)+

lemma foldl_core: "(\<And>s x. core_of (f s x) = core_of s) \<Longrightarrow> core_of (foldl f s xs) = core_of s"
  by (induction xs arbitrary: s) simp_all

lemma core_note [simp]: "core_of (note_table_write t tab s) = core_of s"
  by (rule core_eqI) (auto simp: note_table_write_def add_written_tab_def ctxn_of_def split: option.splits prod.splits if_splits)

lemma core_ser_simps [simp]:
  "core_of (recent_writes_add tab k s) = core_of s" "core_of (ser_put t i s) = core_of s" "core_of (ser_touch t s) = core_of s"
  "core_of (ser_record_read t tab rid s) = core_of s" "core_of (ser_record_pred t tab conds s) = core_of s"
  by (simp_all add: recent_writes_add_def ser_put_def ser_touch_def ser_record_read_def ser_record_pred_def Let_def split: option.splits)

lemma core_unindex [simp]: "core_of (ser_unindex t i s) = core_of s"
proof -
  have 1: "core_of (foldl (\<lambda>s k. s\<lparr>ser_rid_readers := (ser_rid_readers s)(k := removeAll t (ser_rid_readers s k))\<rparr>) s ks) = core_of s" for s ks
    by (rule foldl_core) simp
  have 2: "core_of (foldl (\<lambda>s (tab, _). s\<lparr>ser_pred_readers := (ser_pred_readers s)(tab := AList.delete t (ser_pred_readers s tab))\<rparr>) s ps) = core_of s"
    for s and ps :: "(string \<times> Condition list) list"
    by (rule foldl_core) (simp add: case_prod_unfold)
  show ?thesis by (simp add: ser_unindex_def Let_def 1 2)
qed

lemma core_drop [simp]: "core_of (ser_drop t s) = core_of s" "core_of (ser_gc_step wm s t) = core_of s"
  by (simp_all add: ser_drop_def Let_def ser_gc_step_def)

lemma core_finish [simp]: "core_of (ser_finish t c cts s) = core_of s"
proof -
  have "core_of (foldl (ser_gc_step wm) s ts) = core_of s" for wm s ts by (rule foldl_core) simp
  then show ?thesis by (simp add: ser_finish_def Let_def split: option.splits)
qed

lemma core_edge [simp]: "core_of (snd (ser_add_edge a b s)) = core_of s"
  by (simp add: ser_add_edge_def Let_def)

lemma core_edges: "(\<And>t s. core_of (snd (add t s)) = core_of s) \<Longrightarrow> core_of (snd (foldl (edge_step g add) (b, s) ts)) = core_of s"
proof (induction ts arbitrary: b s)
  case (Cons t ts)
  have "edge_step g add (b, s) t = (if g t s then (b \<or> fst (add t s), snd (add t s)) else (b, s))"
    by (simp add: edge_step_def case_prod_unfold)
  then show ?case using Cons by simp
qed simp

lemma core_checks [simp]:
  "core_of (snd (ser_write_check t tab rid d s)) = core_of s" "core_of (snd (ser_read_check t tab rid s)) = core_of s"
  "core_of (snd (ser_read_pred_check t tab conds s)) = core_of s"
  by (auto simp: ser_write_check_def ser_read_check_def ser_read_pred_check_def Let_def core_edges split: option.splits)

lemma core_index_steps [simp]:
  "core_of (ix_delete_entry n k s) = core_of s" "core_of (ix_insert_entry n k r s) = core_of s"
  "core_of (rollback_index_step tab rid wt a b s ix) = core_of s" "core_of (restore_index_step tab rid a s ix) = core_of s"
  by (simp_all add: ix_delete_entry_def ix_insert_entry_def rollback_index_step_def restore_index_step_def Let_def)

lemma core_index [simp]:
  "core_of (rollback_index_on_abort tab rid wt a b s) = core_of s" "core_of (restore_index_if_missing tab rid a s) = core_of s"
  by (simp_all add: rollback_index_on_abort_def restore_index_if_missing_def foldl_core)

lemma core_marks_simps [simp]:
  "core_of (set_del_key tab kb d s) = core_of s" "core_of (end_activity cts s tab) = core_of s" "core_of (abort_activity s tab) = core_of s"
  "core_of (commit_del_key t cts wm s x) = core_of s" "core_of (abort_del_key t s x) = core_of s" "core_of (append_log r s) = core_of s"
  "core_of (end_explicit t s) = core_of s"
  by (simp_all add: set_del_key_def end_activity_def abort_activity_def commit_del_key_def abort_del_key_def append_log_def end_explicit_def
      Let_def case_prod_unfold split: option.splits)

lemma core_note_del [simp]: "core_of (note_del_key t tab old len s) = core_of s"
proof -
  have "core_of (upd_txn t (add_del_key a b) s) = core_of s" for a b s by (rule core_upd_txn) (simp add: ctxn_of_def add_del_key_def)
  then show ?thesis by (simp add: note_del_key_def Let_def split: list.splits)
qed

lemma core_explicit [simp]: "core_of (set_explicit t s) = core_of s"
proof -
  have "core_of (upd_txn t (\<lambda>tr. tr\<lparr>txn_mode := True\<rparr>) s) = core_of s" by (rule core_upd_txn) (simp add: ctxn_of_def)
  then show ?thesis by (simp add: set_explicit_def)
qed

section \<open>Effects\<close>

definition put_chain :: "row_key \<Rightarrow> MvccChain \<Rightarrow> core \<Rightarrow> core" where
  "put_chain k ch c = c\<lparr>c_chains := (c_chains c)(k \<mapsto> ch)\<rparr>"

definition upd_x :: "txn_id_t \<Rightarrow> (ctxn \<Rightarrow> ctxn) \<Rightarrow> core \<Rightarrow> core" where
  "upd_x t g c = c\<lparr>c_txn := (c_txn c)(t := map_option g (c_txn c t))\<rparr>"

definition c_chain :: "core \<Rightarrow> row_key \<Rightarrow> MvccChain" where
  "c_chain c k = (case c_chains c k of None \<Rightarrow> new_chain | Some ch \<Rightarrow> ch)"

definition ovl :: "core \<Rightarrow> txn_id_t \<Rightarrow> (row_key \<times> SiOverlay) list" where
  "ovl c t = (case c_txn c t of None \<Rightarrow> [] | Some x \<Rightarrow> x_ov x)"

definition wset :: "core \<Rightarrow> txn_id_t \<Rightarrow> WriteRecord list" where
  "wset c t = (case c_txn c t of None \<Rightarrow> [] | Some x \<Rightarrow> x_ws x)"

definition rts :: "core \<Rightarrow> txn_id_t \<Rightarrow> timestamp_t" where
  "rts c t = (case c_txn c t of None \<Rightarrow> 0 | Some x \<Rightarrow> x_read x)"

lemma chain_of_core: "chain_of s k = c_chain (core_of s) k"
  by (simp add: chain_of_def c_chain_def)

lemma c_chain_simps [simp]:
  "c_chain (put_chain k ch c) j = (if j = k then ch else c_chain c j)" "c_chain (c\<lparr>c_dirty := b\<rparr>) j = c_chain c j"
  "c_chain (upd_x t g c) j = c_chain c j"
  by (simp_all add: c_chain_def put_chain_def upd_x_def)

lemma core_set_chain [simp]: "core_of (set_chain k ch s) = put_chain k ch (core_of s)"
  using heap_at_frame [of "set_chain k ch s" s] by (simp add: core_of_def set_chain_def put_chain_def)

lemma core_upd_txn_x:
  assumes "\<And>tr. ctxn_of (g tr) = h (ctxn_of tr)"
  shows "core_of (upd_txn t g s) = upd_x t h (core_of s)"
  using assms heap_at_frame [of "upd_txn t g s" s]
  by (simp add: core_of_def upd_txn_def upd_x_def option.map_comp o_def fun_eq_iff)

lemma core_append_write [simp]: "core_of (upd_txn t (append_write_record w) s) = upd_x t (\<lambda>x. x\<lparr>x_ws := x_ws x @ [w]\<rparr>) (core_of s)"
  by (rule core_upd_txn_x) (simp add: ctxn_of_def append_write_record_def)

lemma core_dirty [simp]: "core_of (mark_dirty_tab tab s) = (core_of s)\<lparr>c_dirty := True\<rparr>"
  using heap_at_frame [of "mark_dirty_tab tab s" s] by (simp add: core_of_def mark_dirty_tab_def)

lemma core_enter: "core_of (write_enter t tab rid s) =
    put_chain (row_key_of tab rid) (chain_of s (row_key_of tab rid)) ((core_of s)\<lparr>c_dirty := True\<rparr>)"
  by (simp add: write_enter_def Let_def chain_of_core)

lemma heap_at_set:
  assumes "v = None \<or> fhs s tab \<noteq> None"
  shows "heap_at (set_heap tab rid v s) = (heap_at s)(tab := (heap_at s tab)(rid := v))"
  using assms by (auto simp: heap_at_def set_heap_def fun_eq_iff split: option.splits)

lemma core_set_heap:
  assumes "v = None \<or> fhs s tab \<noteq> None"
  shows "core_of (set_heap tab rid v s) = (core_of s)\<lparr>c_heap := (c_heap (core_of s))(tab := (c_heap (core_of s) tab)(rid := v))\<rparr>"
  using heap_at_set [OF assms, of rid] by (simp add: core_of_def set_heap_def)

lemma heap_at_table: "heap_at s tab rid \<noteq> None \<Longrightarrow> fhs s tab \<noteq> None"
  by (auto simp: heap_at_def split: option.splits)

lemma core_txn_fields:
  assumes "core_of s' = c" and "c_txn c t = Some x"
  shows "read_ts (txn_of s' t) = x_read x" "si_overlay (txn_of s' t) = x_ov x" "write_set (txn_of s' t) = x_ws x"
    "get_si_overlay k (txn_of s' t) = map_of (x_ov x) k"
proof -
  have "map_option ctxn_of (txn_map s' t) = Some x" using assms by auto
  then obtain tr where "txn_map s' t = Some tr" "ctxn_of tr = x" by auto
  then show "read_ts (txn_of s' t) = x_read x" "si_overlay (txn_of s' t) = x_ov x" "write_set (txn_of s' t) = x_ws x"
    "get_si_overlay k (txn_of s' t) = map_of (x_ov x) k"
    by (auto simp: txn_of_def ctxn_of_def get_si_overlay_def)
qed

text \<open>A write that takes the chain of a row for transaction \<open>u\<close>.\<close>

definition base_hist :: "txn_id_t \<Rightarrow> row_key \<Rightarrow> bytes \<Rightarrow> core \<Rightarrow> MvccVer list" where
  "base_hist u k old c =
     (if hist (c_chain c k) = [] \<and> ch_writer (c_chain c k) = INVALID_TXN_ID \<and> map_of (ovl c u) k = None
      then [\<lparr>ver_data = old, ver_cts = 0, ver_deleted = False, writer_txn = INVALID_TXN_ID\<rparr>] else hist (c_chain c k))"

definition grab :: "txn_id_t \<Rightarrow> string \<Rightarrow> Rid \<Rightarrow> bytes \<Rightarrow> core \<Rightarrow> MvccChain \<Rightarrow> WriteRecord list \<Rightarrow> core \<Rightarrow> bool" where
  "grab u tab rid old c ch W c' \<longleftrightarrow>
     (let k = row_key_of tab rid
      in (c_pend c k = None \<or> c_pend c k = Some u) \<and> (ch_writer (c_chain c k) = INVALID_TXN_ID \<or> ch_writer (c_chain c k) = u)
         \<and> hist ch = base_hist u k old c \<and> ch_writer ch = u \<and> (\<forall>w \<in> set W. w_tab w = tab \<and> w_rid w = rid)
         \<and> c' = upd_x u (\<lambda>x. x\<lparr>x_ws := x_ws x @ W\<rparr>) (put_chain k ch (c\<lparr>c_dirty := True\<rparr>)))"

lemma upd_x_ws_Nil [simp]: "upd_x u (\<lambda>x. x) c = c"
proof -
  have "map_option (\<lambda>x. x) y = y" for y :: "ctxn option" by (cases y) simp_all
  then show ?thesis by (simp add: upd_x_def)
qed

lemma blocked_core:
  assumes "core_of s1 = put_chain k (chain_of s k) ((core_of s)\<lparr>c_dirty := True\<rparr>)"
  shows "write_blocked u k s1 \<longleftrightarrow> \<not> ((c_pend (core_of s) k = None \<or> c_pend (core_of s) k = Some u)
    \<and> (ch_writer (c_chain (core_of s) k) = INVALID_TXN_ID \<or> ch_writer (c_chain (core_of s) k) = u))"
proof -
  have "pending s1 = c_pend (core_of s1)" "chain_of s1 k = chain_of s k" by (simp, simp add: chain_of_core [of s1] assms)
  then have "pending s1 k = pending s k" "chain_of s1 k = c_chain (core_of s) k" by (simp_all add: assms put_chain_def chain_of_core)
  then show ?thesis by (auto simp: write_blocked_def split: option.splits)
qed

lemma base_core:
  assumes "core_of s1 = put_chain k (chain_of s k) ((core_of s)\<lparr>c_dirty := True\<rparr>)" and "c_txn (core_of s) u = Some x"
  shows "hist (with_base u k old s1 (chain_of s k)) = base_hist u k old (core_of s)"
    "ch_writer (with_base u k old s1 (chain_of s k)) = ch_writer (c_chain (core_of s) k)"
    "writer_data (with_base u k old s1 (chain_of s k)) = writer_data (c_chain (core_of s) k)"
    "writer_del (with_base u k old s1 (chain_of s k)) = writer_del (c_chain (core_of s) k)"
    "chain_of s1 k = chain_of s k"
proof -
  have x: "c_txn (core_of s1) u = Some x" using assms by (simp add: put_chain_def del: core_of_simps)
  have "get_si_overlay k (txn_of s1 u) = map_of (ovl (core_of s) u) k"
    using core_txn_fields(4) [OF refl x, of k] assms(2) by (simp add: ovl_def del: core_of_simps)
  then show "hist (with_base u k old s1 (chain_of s k)) = base_hist u k old (core_of s)"
    by (simp add: with_base_def base_hist_def chain_of_core)
qed (simp_all add: with_base_def chain_of_core assms(1))

text \<open>The three writes. A stored row takes the chain; a refused write changes nothing but the marks on a row that is already tracked,
  or takes the chain without a row.\<close>

definition refused :: "txn_id_t \<Rightarrow> string \<Rightarrow> Rid \<Rightarrow> bytes \<Rightarrow> core \<Rightarrow> core \<Rightarrow> bool" where
  "refused u tab rid old c c' \<longleftrightarrow>
     c' = put_chain (row_key_of tab rid) (c_chain c (row_key_of tab rid)) (c\<lparr>c_dirty := True\<rparr>)
       \<and> (hist (c_chain c (row_key_of tab rid)) \<noteq> [] \<or> c_pend c (row_key_of tab rid) \<noteq> None
          \<or> ch_writer (c_chain c (row_key_of tab rid)) \<noteq> INVALID_TXN_ID)
     \<or> (\<exists>ch. grab u tab rid old c ch [] c') \<or> c' = c"

lemma first_touch_core:
  "core_of (if b then upd_txn u (append_write_record w) s else s) = upd_x u (\<lambda>x. x\<lparr>x_ws := x_ws x @ (if b then [w] else [])\<rparr>) (core_of s)"
  by simp

lemma put_chain_twice [simp]: "put_chain k a (put_chain k b c) = put_chain k a c"
  by (simp add: put_chain_def)

lemma blocked_refused:
  assumes "core_of s1 = put_chain (row_key_of tab rid) (chain_of s (row_key_of tab rid)) ((core_of s)\<lparr>c_dirty := True\<rparr>)"
    and "write_blocked u (row_key_of tab rid) s1"
  shows "refused u tab rid old (core_of s) (core_of s1)"
  using assms(2) unfolding blocked_core [OF assms(1)] by (auto simp: refused_def assms(1) chain_of_core)

lemma mvcc_write_core:
  assumes w: "mvcc_write u tab rid old new len del s = (r, s')" and x: "c_txn (core_of s) u = Some x"
    and len: "0 < len" "del \<or> (\<exists>d. new = Some d \<and> length d = len)" "length old = len"
  shows "case r of
      Stored y \<Rightarrow> \<exists>ch W. grab u tab rid old (core_of s) ch W (core_of s') \<and> (writer_del ch \<or> writer_data ch \<noteq> [])
    | Refused \<Rightarrow> refused u tab rid old (core_of s) (core_of s') | Undefined \<Rightarrow> True"
proof -
  let ?k = "row_key_of tab rid" and ?s1 = "write_enter u tab rid s"
  note e = core_enter [of u tab rid s] and b = base_core [OF core_enter [of u tab rid s] x]
  define newd where "newd = (case new of None \<Rightarrow> [] | Some d \<Rightarrow> d)"
  define stale where "stale = (ch_writer (chain_of s ?k) = INVALID_TXN_ID \<and> newer_version u (chain_of s ?k) ?s1)"
  define rb where "rb = rebase_write_delta (meta_of ?s1 tab) old newd (ver_data (last (hist (chain_of s ?k)))) len"
  define ch1 where "ch1 = (with_base u ?k (take len old) ?s1 (chain_of s ?k))\<lparr>ch_writer := u, writer_del := del,
      writer_data := if del then [] else take len (if stale then snd rb else newd)\<rparr>"
  have e1: "core_of ?s1 = put_chain ?k (c_chain (core_of s) ?k) (core_of s\<lparr>c_dirty := True\<rparr>)" by (simp add: e chain_of_core)
  have st: "refused u tab rid old (core_of s) (core_of ?s1)" if stale
    using that by (auto simp: refused_def e1 stale_def newer_version_def chain_of_core)
  have bl: "refused u tab rid old (core_of s) (core_of ?s1)" if "write_blocked u ?k ?s1" by (rule blocked_refused [OF e that])
  have ne: "del \<or> writer_data ch1 \<noteq> []" if "stale \<Longrightarrow> length (ver_data (last (hist (chain_of s ?k)))) = len"
    using len that rebase_ne [of "ver_data (last (hist (chain_of s ?k)))" len] by (auto simp: ch1_def rb_def newd_def)
  have gr: "grab u tab rid old (core_of s) ch1 W (upd_x u (\<lambda>x. x\<lparr>x_ws := x_ws x @ W\<rparr>) (put_chain ?k ch1 (core_of s\<lparr>c_dirty := True\<rparr>)))"
    if "\<not> write_blocked u ?k ?s1" "\<forall>w \<in> set W. w_tab w = tab \<and> w_rid w = rid" for W
    using that b(1) [of old] len(3) unfolding blocked_core [OF e] by (simp add: grab_def Let_def ch1_def)
  define W where "W = (if first_touch u tab rid ?s1
      then [\<lparr>wtype = if del then DELETE_TUPLE else UPDATE_TUPLE, w_tab = tab, w_rid = rid, w_record = take len old\<rparr>] else [])"
  let ?c' = "upd_x u (\<lambda>x. x\<lparr>x_ws := x_ws x @ W\<rparr>) (put_chain ?k ch1 (core_of s\<lparr>c_dirty := True\<rparr>))"
  have "(r, core_of s') = (if write_blocked u ?k ?s1 then (Refused, core_of ?s1)
      else if stale \<and> (ver_deleted (last (hist (chain_of s ?k))) \<or> length (ver_data (last (hist (chain_of s ?k)))) \<noteq> len) then (Refused, core_of ?s1)
      else if stale \<and> new = None then (Undefined, core_of ?s1) else if stale \<and> \<not> fst rb then (Refused, core_of ?s1)
      else (Stored (writer_data ch1), ?c'))"
    using w [symmetric] unfolding mvcc_write_def Let_def b(5) newd_def [symmetric] rb_def [symmetric] stale_def [symmetric] ch1_def [symmetric]
    by (auto simp: W_def e1 split: if_splits)
  then show ?thesis using st bl gr [of W] ne by (auto simp: W_def ch1_def split: if_splits)
qed

lemma grabI:
  assumes "\<not> write_blocked u (row_key_of tab rid) s1"
    and "core_of s1 = put_chain (row_key_of tab rid) (chain_of s (row_key_of tab rid)) ((core_of s)\<lparr>c_dirty := True\<rparr>)"
    and "hist ch = base_hist u (row_key_of tab rid) old (core_of s)" "ch_writer ch = u" "\<forall>w \<in> set W. w_tab w = tab \<and> w_rid w = rid"
    and "c' = upd_x u (\<lambda>x. x\<lparr>x_ws := x_ws x @ W\<rparr>) (put_chain (row_key_of tab rid) ch (core_of s\<lparr>c_dirty := True\<rparr>))"
  shows "grab u tab rid old (core_of s) ch W c'"
  using assms unfolding blocked_core [OF assms(2)] by (simp add: grab_def Let_def)

lemma mvcc_write_col_delta_core:
  assumes w: "mvcc_write_col_delta u tab rid visible len off type df di s = (r, s')" and x: "c_txn (core_of s) u = Some x"
    and len: "length visible = len"
  shows "case r of
      Stored y \<Rightarrow> \<exists>ch W. grab u tab rid visible (core_of s) ch W (core_of s') \<and> (writer_del ch \<or> writer_data ch \<noteq> [])
    | Refused \<Rightarrow> refused u tab rid visible (core_of s) (core_of s') | Undefined \<Rightarrow> True"
proof -
  let ?k = "row_key_of tab rid" and ?s1 = "write_enter u tab rid s"
  note e = core_enter [of u tab rid s] and b = base_core [OF core_enter [of u tab rid s] x]
  define ch1 where "ch1 = with_base u ?k (take len visible) ?s1 (chain_of s ?k)"
  define base where "base = (if \<not> ch_writer ch1 = u \<and> newer_version u ch1 ?s1 then ver_data (last (hist ch1)) else visible)"
  define rw where "rw = (if ch_writer ch1 = u \<and> writer_data ch1 \<noteq> [] then writer_data ch1 else take len base)"
  define ch2 where "ch2 = ch1\<lparr>ch_writer := u, writer_del := False, hold_writer_to_commit := True\<rparr>"
  define v where "v = (if type = TYPE_FLOAT then f_add (i32_at off rw) df else i32_at off rw + di)"
  define ch3 where "ch3 = ch2\<lparr>writer_data := put_i32 off v rw\<rparr>"
  define W where "W = (if first_touch u tab rid ?s1 then [\<lparr>wtype = UPDATE_TUPLE, w_tab = tab, w_rid = rid, w_record = take len visible\<rparr>] else [])"
  let ?c = "\<lambda>W ch. upd_x u (\<lambda>x. x\<lparr>x_ws := x_ws x @ W\<rparr>) (put_chain ?k ch (core_of s\<lparr>c_dirty := True\<rparr>))"
  have bad: "\<not> (type = TYPE_STRING \<or> len < off + 4) \<Longrightarrow> \<not> (\<not> (ch_writer ch1 = u \<and> writer_data ch1 \<noteq> []) \<and> length base < len) \<Longrightarrow> rw \<noteq> []"
    by (auto simp: rw_def)
  have "(r, core_of s') = (if write_blocked u ?k ?s1 then (Refused, core_of ?s1)
      else if type = TYPE_STRING \<or> len < off + 4 then (Refused, ?c [] ch2)
      else if \<not> (ch_writer ch1 = u \<and> writer_data ch1 \<noteq> []) \<and> length base < len then (Undefined, ?c [] ch2)
      else (Stored (writer_data ch3), ?c W ch3))"
    using w [symmetric] unfolding mvcc_write_col_delta_def Let_def b(5) ch1_def [symmetric] base_def [symmetric] rw_def [symmetric] ch2_def [symmetric]
      v_def [symmetric] ch3_def [symmetric]
    by (auto simp: W_def e chain_of_core split: if_splits)
  moreover have "grab u tab rid visible (core_of s) ch2 [] (?c [] ch2)" "grab u tab rid visible (core_of s) ch3 W (?c W ch3)" if "\<not> write_blocked u ?k ?s1"
    using b(1) [of visible] len(1) by (auto intro!: grabI [OF that e] simp: ch2_def ch3_def ch1_def W_def)
  ultimately show ?thesis
    using blocked_refused [OF e, of u visible] bad put_i32_ne [of rw off v] by (auto simp: refused_def ch3_def split: if_splits)
qed

lemma mvcc_write_col_patch_core:
  assumes w: "mvcc_write_col_patch u tab rid visible len patches s = (r, s')" and x: "c_txn (core_of s) u = Some x"
    and len: "length visible = len" "0 < len" "0 \<le> x_read x"
  shows "case r of
      Stored y \<Rightarrow> \<exists>ch W. grab u tab rid visible (core_of s) ch W (core_of s') \<and> (writer_del ch \<or> writer_data ch \<noteq> [])
    | Refused \<Rightarrow> refused u tab rid visible (core_of s) (core_of s') | Undefined \<Rightarrow> True"
proof (cases "patches = []")
  case True
  then show ?thesis using w by (auto simp: mvcc_write_col_patch_def refused_def)
next
  case False
  let ?k = "row_key_of tab rid" and ?s1 = "write_enter u tab rid s"
  note e = core_enter [of u tab rid s] and b = base_core [OF core_enter [of u tab rid s] x]
  define ch1 where "ch1 = with_base u ?k (take len visible) ?s1 (chain_of s ?k)"
  define stale where "stale = (\<not> ch_writer ch1 = u \<and> newer_version u ch1 ?s1)"
  define latest where "latest = ver_data (last (hist ch1))"
  define start where "start = (if ch_writer ch1 = u \<and> writer_data ch1 \<noteq> [] then writer_data ch1 else take len (if stale then latest else visible))"
  define f where "f = (\<lambda>p d. if stale then apply_col_patch_rebase p visible latest d len
                          else apply_col_patch_from_visible p visible d len (meta_of ?s1 tab))"
  define ok where "ok = fst (apply_patches f patches start)"
  define rw where "rw = snd (apply_patches f patches start)"
  define ch2 where "ch2 = ch1\<lparr>ch_writer := u, writer_del := False, writer_data := rw\<rparr>"
  define W where "W = (if first_touch u tab rid ?s1 then [\<lparr>wtype = UPDATE_TUPLE, w_tab = tab, w_rid = rid, w_record = take len visible\<rparr>] else [])"
  let ?c = "\<lambda>W ch. upd_x u (\<lambda>x. x\<lparr>x_ws := x_ws x @ W\<rparr>) (put_chain ?k ch (core_of s\<lparr>c_dirty := True\<rparr>))"
  have f_ne: "d \<noteq> [] \<Longrightarrow> snd (f p d) \<noteq> []" for p d by (simp add: f_def patch_ne)
  have ne: "rw \<noteq> []" if "\<not> (stale \<and> (ver_deleted (last (hist ch1)) \<or> length latest \<noteq> len))"
  proof -
    have "start \<noteq> []" using that len by (auto simp: start_def)
    then show ?thesis unfolding rw_def using apply_patches_ne [of f start patches] f_ne by blast
  qed
  have same: "put_chain ?k ch1 (core_of s\<lparr>c_dirty := True\<rparr>) = put_chain ?k (c_chain (core_of s) ?k) (core_of s\<lparr>c_dirty := True\<rparr>)
      \<and> hist (c_chain (core_of s) ?k) \<noteq> []" if stale
  proof -
    have "c_txn (core_of ?s1) u = Some x" using x by (simp add: e put_chain_def del: core_of_simps)
    then have "0 \<le> read_ts (txn_of ?s1 u)" using core_txn_fields(1) [OF refl] len(3) by simp
    then have "ch1 = chain_of s ?k" using that by (auto simp: ch1_def with_base_def stale_def newer_version_def split: if_splits)
    then show ?thesis using that by (simp add: stale_def newer_version_def chain_of_core)
  qed
  have "(r, core_of s') = (if write_blocked u ?k ?s1 then (Refused, core_of ?s1)
      else if stale \<and> (ver_deleted (last (hist ch1)) \<or> length latest \<noteq> len) then (Refused, ?c [] ch1)
      else if \<not> ok then (Refused, ?c [] ch2) else (Stored rw, ?c W ch2))"
    using w [symmetric] False unfolding mvcc_write_col_patch_def Let_def b(5) ch1_def [symmetric] stale_def [symmetric] latest_def [symmetric]
      start_def [symmetric] f_def [symmetric] case_prod_unfold ok_def [symmetric] rw_def [symmetric] ch2_def [symmetric]
    by (auto simp: W_def e chain_of_core split: if_splits)
  moreover have "grab u tab rid visible (core_of s) ch2 [] (?c [] ch2)" "grab u tab rid visible (core_of s) ch2 W (?c W ch2)" if "\<not> write_blocked u ?k ?s1"
    using b(1) [of visible] len(1) by (auto intro!: grabI [OF that e] simp: ch2_def ch1_def W_def)
  ultimately show ?thesis
    using blocked_refused [OF e, of u visible] ne same by (auto simp: refused_def ch2_def split: if_splits)
qed

section \<open>Loops\<close>

lemma foldl_fuse: "(\<And>s x. h (f s x) = g (h s) x) \<Longrightarrow> h (foldl f s xs) = foldl g (h s) xs"
  by (induction xs arbitrary: s) simp_all

abbreviation wkey :: "WriteRecord \<Rightarrow> row_key" where
  "wkey w \<equiv> row_key_of (w_tab w) (w_rid w)"

definition c_release :: "txn_id_t \<Rightarrow> core \<Rightarrow> WriteRecord \<Rightarrow> core" where
  "c_release u c w =
     (case c_chains c (wkey w) of
        None \<Rightarrow> c
      | Some ch \<Rightarrow>
          if ch_writer ch \<noteq> u \<or> hold_writer_to_commit ch then c
          else (upd_x u (\<lambda>x. x\<lparr>x_ov := AList.update (wkey w) \<lparr>ov_data = writer_data ch, ov_deleted = writer_del ch\<rparr> (x_ov x)\<rparr>)
                 (put_chain (wkey w) (ch\<lparr>ch_writer := INVALID_TXN_ID, writer_del := False, writer_data := []\<rparr>) c))
                 \<lparr>c_pend := (c_pend c)(wkey w \<mapsto> u)\<rparr>)"

lemma core_pend: "core_of (s\<lparr>pending := p\<rparr>) = (core_of s)\<lparr>c_pend := p\<rparr>"
  using heap_at_frame [of "s\<lparr>pending := p\<rparr>" s] by (simp add: core_of_def)

lemma core_release: "core_of (release_write u s w) = c_release u (core_of s) w"
proof -
  have "core_of (upd_txn u (put_si_overlay k ov) s) = upd_x u (\<lambda>x. x\<lparr>x_ov := AList.update k ov (x_ov x)\<rparr>) (core_of s)" for k ov s
    by (rule core_upd_txn_x) (simp add: ctxn_of_def put_si_overlay_def)
  then show ?thesis
    by (auto simp: release_write_def c_release_def Let_def core_pend put_chain_def upd_x_def split: option.splits)
qed

lemma core_release_all:
  assumes "txn_map s u = Some tr"
  shows "core_of (release_statement_writes u s) = (if txn_mode tr then foldl (c_release u) (core_of s) (wset (core_of s) u) else core_of s)"
  using foldl_fuse [of core_of "release_write u" "c_release u" s "write_set tr"] core_release assms
  by (simp add: release_statement_writes_def wset_def ctxn_of_def)

definition c_restore :: "txn_id_t \<Rightarrow> core \<Rightarrow> row_key \<times> SiOverlay \<Rightarrow> core" where
  "c_restore u c = (\<lambda>(k, ov).
     (put_chain k ((c_chain c k)\<lparr>ch_writer := u, writer_del := ov_deleted ov, writer_data := ov_data ov\<rparr>) c)\<lparr>c_pend := (c_pend c)(k := None)\<rparr>)"

lemma core_restore: "core_of (restore_writers_from_overlays u s) = foldl (c_restore u) (core_of s) (ovl (core_of s) u)"
proof -
  have "core_of (restore_writer u s x) = c_restore u (core_of s) x" for s x
    by (auto simp: restore_writer_def c_restore_def core_pend chain_of_core put_chain_def split: prod.splits)
  then have "core_of (foldl (restore_writer u) s xs) = foldl (c_restore u) (core_of s) xs" for xs by (rule foldl_fuse)
  then show ?thesis by (simp add: restore_writers_from_overlays_def ovl_def ctxn_of_def split: option.splits)
qed

definition c_erase :: "row_key \<Rightarrow> core \<Rightarrow> core" where
  "c_erase k c = c\<lparr>c_chains := (c_chains c)(k := None)\<rparr>"

lemma core_erase [simp]: "core_of (erase_chain k s) = c_erase k (core_of s)"
  using heap_at_frame [of "erase_chain k s" s] by (simp add: core_of_def erase_chain_def c_erase_def)

definition c_prune :: "row_key \<Rightarrow> timestamp_t \<Rightarrow> timestamp_t \<Rightarrow> core \<Rightarrow> core" where
  "c_prune k wm cts c =
     (case c_chains c k of
        None \<Rightarrow> c
      | Some ch \<Rightarrow>
          if length (hist ch) \<le> 1
          then (if ch_writer ch = INVALID_TXN_ID \<and> hist ch \<noteq> [] \<and> 0 < cts \<and> cts \<le> wm then c_erase k c else c)
          else
            let vs = keep_from wm (hist ch)
            in if ch_writer ch = INVALID_TXN_ID \<and> vs \<noteq> [] \<and> 0 < cts \<and> cts \<le> wm
               then (if length vs = 1 then c_erase k c else put_chain k (ch\<lparr>hist := [last vs]\<rparr>) c)
               else put_chain k (ch\<lparr>hist := vs\<rparr>) c)"

lemma core_prune: "core_of (prune_mvcc_after_commit k wm cts s) = c_prune k wm cts (core_of s)"
  by (auto simp: prune_mvcc_after_commit_def c_prune_def Let_def split: option.splits)

definition new_ver :: "txn_id_t \<Rightarrow> timestamp_t \<Rightarrow> MvccChain \<Rightarrow> MvccVer" where
  "new_ver u cts ch = \<lparr>ver_data = if writer_del ch then [] else writer_data ch, ver_cts = cts, ver_deleted = writer_del ch, writer_txn = u\<rparr>"

definition c_push :: "txn_id_t \<Rightarrow> timestamp_t \<Rightarrow> timestamp_t \<Rightarrow> core \<Rightarrow> WriteRecord \<Rightarrow> core" where
  "c_push u cts wm c w =
     (case c_chains c (wkey w) of
        None \<Rightarrow> c
      | Some ch \<Rightarrow>
          if ch_writer ch \<noteq> u then c
          else c_prune (wkey w) wm cts
            (put_chain (wkey w) (ch\<lparr>hist := hist ch @ [new_ver u cts ch], ch_writer := INVALID_TXN_ID, writer_data := [], hold_writer_to_commit := False\<rparr>)
              (if \<not> writer_del ch \<and> writer_data ch = [] then c
               else c\<lparr>c_heap := (c_heap c)(w_tab w := (c_heap c (w_tab w))(w_rid w := if writer_del ch then None else Some (writer_data ch)))\<rparr>)))"

lemma put_chain_heap: "put_chain k ch (c\<lparr>c_heap := h\<rparr>) = (put_chain k ch c)\<lparr>c_heap := h\<rparr>"
  by (simp add: put_chain_def)

lemma heap_gone: "heap_at s tab rid = None \<Longrightarrow> (heap_at s)(tab := (heap_at s tab)(rid := None)) = heap_at s"
  by (auto simp: fun_eq_iff)

lemma core_push:
  assumes "commit_write u cts wm (None, s) w = (None, s')"
  shows "core_of s' = c_push u cts wm (core_of s) w"
proof (cases "chains s (wkey w)")
  case None
  then show ?thesis using assms by (simp add: commit_write_def c_push_def Let_def)
next
  case (Some ch)
  show ?thesis
  proof (cases "ch_writer ch = u")
    case False
    then show ?thesis using assms Some by (simp add: commit_write_def c_push_def Let_def)
  next
    case True
    let ?s1 = "set_chain (wkey w) (ch\<lparr>hist := hist ch @ [new_ver u cts ch]\<rparr>) s"
    have h1: "heap_at ?s1 = heap_at s" by (rule heap_at_frame) (simp add: set_chain_def)
    have hs: "core_of (set_heap (w_tab w) (w_rid w) v ?s1) = (put_chain (wkey w) (ch\<lparr>hist := hist ch @ [new_ver u cts ch]\<rparr>) (core_of s))
        \<lparr>c_heap := (heap_at s)(w_tab w := (heap_at s (w_tab w))(w_rid w := v))\<rparr>" if "heap_at s (w_tab w) (w_rid w) \<noteq> None" for v
    proof -
      have "fhs ?s1 (w_tab w) \<noteq> None" using heap_at_table [OF that] by (simp add: set_chain_def)
      then show ?thesis using core_set_heap [of v ?s1 "w_tab w" "w_rid w"] h1 by (simp add: put_chain_def)
    qed
    have gone: "(put_chain k x (core_of s))\<lparr>c_heap := (heap_at s)(w_tab w := (heap_at s (w_tab w))(w_rid w := None))\<rparr> = put_chain k x (core_of s)"
      if "heap_at s (w_tab w) (w_rid w) = None" for k x
      unfolding heap_gone [OF that] by (simp add: put_chain_def core_of_def)
    show ?thesis
      using assms Some
      by (auto simp: True commit_write_def c_push_def Let_def new_ver_def [symmetric] h1 hs heap_update_def core_prune put_chain_heap gone split: if_splits)
  qed
qed

lemma commit_loop_error: "foldl (commit_write u cts wm) (Some e, s) ws = (Some e, s)"
  by (induction ws) (simp_all add: commit_write_def Let_def)

lemma core_push_all:
  "foldl (commit_write u cts wm) (None, s) ws = (None, s') \<Longrightarrow> core_of s' = foldl (c_push u cts wm) (core_of s) ws"
proof (induction ws arbitrary: s)
  case (Cons w ws)
  obtain e s1 where w: "commit_write u cts wm (None, s) w = (e, s1)" by (cases "commit_write u cts wm (None, s) w")
  have "e = None" using Cons.prems w commit_loop_error by (cases e) auto
  then show ?case using Cons.IH [of s1] Cons.prems w core_push by simp
qed simp

definition c_recycle :: "timestamp_t \<Rightarrow> core \<Rightarrow> WriteRecord \<Rightarrow> core" where
  "c_recycle wm c w =
     (case c_chains c (wkey w) of
        None \<Rightarrow> c
      | Some ch \<Rightarrow>
          if ch_writer ch \<noteq> INVALID_TXN_ID \<or> length (hist ch) \<noteq> 1 \<or> ver_deleted (hd (hist ch)) \<or> wm < ver_cts (hd (hist ch)) then c
          else if c_pend c (wkey w) \<noteq> None then c
          else c_erase (wkey w) c)"

lemma core_recycle: "core_of (recycle_chain wm s w) = c_recycle wm (core_of s) w"
  by (auto simp: recycle_chain_def c_recycle_def Let_def split: option.splits)

definition c_undo :: "txn_id_t \<Rightarrow> core \<Rightarrow> WriteRecord \<Rightarrow> core" where
  "c_undo u c w =
     (case c_chains c (wkey w) of
        None \<Rightarrow> c
      | Some ch \<Rightarrow>
          if ch_writer ch \<noteq> u then c
          else let c1 = put_chain (wkey w) (ch\<lparr>ch_writer := INVALID_TXN_ID, writer_data := [], writer_del := False, hold_writer_to_commit := False\<rparr>) c;
                   v = last (hist ch)
               in if hist ch \<noteq> [] \<and> \<not> ver_deleted v \<and> ver_data v \<noteq> [] \<and> c_heap c (w_tab w) (w_rid w) \<noteq> None
                  then c1\<lparr>c_heap := (c_heap c)(w_tab w := (c_heap c (w_tab w))(w_rid w \<mapsto> ver_data v))\<rparr> else c1)"

lemma core_undo:
  assumes "chains s (wkey w) = Some ch" and "ch_writer ch = u"
  shows "core_of (mvcc_undo w ch s) = c_undo u (core_of s) w"
proof -
  let ?ch = "ch\<lparr>ch_writer := INVALID_TXN_ID, writer_data := [], writer_del := False, hold_writer_to_commit := False\<rparr>"
  let ?s1 = "set_chain (wkey w) ?ch s"
  have h1: "heap_at ?s1 = heap_at s" by (rule heap_at_frame) (simp add: set_chain_def)
  have hs: "core_of (set_heap (w_tab w) (w_rid w) (Some d) ?s1) = (put_chain (wkey w) ?ch (core_of s))
        \<lparr>c_heap := (heap_at s)(w_tab w := (heap_at s (w_tab w))(w_rid w \<mapsto> d))\<rparr>" if "heap_at s (w_tab w) (w_rid w) \<noteq> None" for d
  proof -
    have "fhs ?s1 (w_tab w) \<noteq> None" using heap_at_table [OF that] by (simp add: set_chain_def)
    then show ?thesis using core_set_heap [of "Some d" ?s1 "w_tab w" "w_rid w"] h1 by (simp add: put_chain_def)
  qed
  show ?thesis
    using assms(1) by (auto simp: mvcc_undo_def c_undo_def Let_def assms(2) h1 hs split: if_splits)
qed

lemma core_abort_write:
  assumes "(\<exists>ch. chains s (wkey w) = Some ch \<and> ch_writer ch = u) \<or> wkey w \<in> un"
  shows "core_of (snd (abort_write u (un, s) w)) = c_undo u (core_of s) w"
    "(\<exists>ch. chains s (wkey w) = Some ch \<and> ch_writer ch = u) \<Longrightarrow> fst (abort_write u (un, s) w) = insert (wkey w) un"
    "un \<subseteq> fst (abort_write u (un, s) w)"
  using assms core_undo [of s w _ u] by (auto simp: abort_write_def c_undo_def Let_def split: option.splits)

lemma c_undo_chains: "wkey w' \<noteq> wkey w \<Longrightarrow> c_chains (c_undo u c w) (wkey w') = c_chains c (wkey w')"
  by (auto simp: c_undo_def put_chain_def Let_def split: option.splits)

lemma core_undo_all:
  assumes "\<forall>w \<in> set ws. (\<exists>ch. chains s (wkey w) = Some ch \<and> ch_writer ch = u) \<or> wkey w \<in> un"
  shows "core_of (snd (foldl (abort_write u) (un, s) ws)) = foldl (c_undo u) (core_of s) ws"
  using assms
proof (induction ws arbitrary: un s)
  case (Cons w ws)
  let ?un = "fst (abort_write u (un, s) w)" and ?s = "snd (abort_write u (un, s) w)"
  note a = core_abort_write [of s w u un]
  have w: "(\<exists>ch. chains s (wkey w) = Some ch \<and> ch_writer ch = u) \<or> wkey w \<in> un" using Cons.prems by simp
  have in_un: "wkey w \<in> ?un" using w a by blast
  have "(\<exists>ch. chains ?s (wkey w') = Some ch \<and> ch_writer ch = u) \<or> wkey w' \<in> ?un" if "w' \<in> set ws" for w'
  proof (cases "wkey w' = wkey w")
    case True
    then show ?thesis using in_un by simp
  next
    case False
    have "chains ?s (wkey w') = chains s (wkey w')"
      using c_undo_chains [OF False, of u "core_of s"] a(1) [OF w] by (metis core_of_simps(6))
    then show ?thesis using Cons.prems that a(3) [OF w] by auto
  qed
  then have "core_of (snd (foldl (abort_write u) (?un, ?s) ws)) = foldl (c_undo u) (core_of ?s) ws" using Cons.IH by blast
  then show ?case using a(1) [OF w] by simp
qed simp

lemma clear_pending_none: "\<forall>k. pending s k \<noteq> Some u \<Longrightarrow> clear_pending_si_for_txn u s = s"
proof -
  assume p: "\<forall>k. pending s k \<noteq> Some u"
  have "foldl (clear_pending u) s ks = s" for ks by (induction ks) (simp_all add: clear_pending_def p)
  then show ?thesis by (simp add: clear_pending_si_for_txn_def split: option.splits)
qed

lemma core_begin:
  assumes "tm_begin None s = (u, s')"
  shows "u = next_txn_id s" "core_of s' = (core_of s)\<lparr>c_next := u + 1, c_rts := insort (last_commit_ts s) (active_rts s),
    c_txn := (c_txn (core_of s))(u \<mapsto> \<lparr>x_done = False, x_read = last_commit_ts s, x_ov = [], x_ws = []\<rparr>)\<rparr>"
  using assms heap_at_frame [of s' s]
  by (auto simp: tm_begin_def Let_def insert_rts_def core_of_def new_Transaction_def ctxn_of_def fun_eq_iff)

section \<open>Commit and rollback\<close>

definition c_end :: "txn_id_t \<Rightarrow> core \<Rightarrow> core" where
  "c_end u c = upd_x u (\<lambda>x. x\<lparr>x_ws := [], x_ov := [], x_done := True\<rparr>) c"

definition c_unregister :: "txn_id_t \<Rightarrow> core \<Rightarrow> core" where
  "c_unregister u c = c\<lparr>c_rts := remove1 (rts c u) (c_rts c)\<rparr>"

lemma upd_x_upd_x: "upd_x u g (upd_x u h c) = upd_x u (\<lambda>x. g (h x)) c"
  by (simp add: upd_x_def option.map_comp o_def)

lemma foldl_txn: "(\<And>c x. c_txn (f c x) = c_txn c) \<Longrightarrow> c_txn (foldl f c xs) = c_txn c"
  by (induction xs arbitrary: c) simp_all

lemma c_txn_steps [simp]:
  "c_txn (put_chain k ch c) = c_txn c" "c_txn (c_restore u c x) = c_txn c" "c_txn (c_prune k wm cts c) = c_txn c"
  "c_txn (c_push u cts wm c w) = c_txn c" "c_txn (c_recycle wm c w) = c_txn c" "c_txn (c_undo u c w) = c_txn c"
  by (auto simp: put_chain_def c_restore_def c_prune_def c_push_def c_recycle_def c_undo_def c_erase_def Let_def split: option.splits prod.splits)

definition commit_stamp :: "tm \<Rightarrow> txn_id_t \<Rightarrow> bool" where
  "commit_stamp s u \<longleftrightarrow> write_set (txn_of s u) \<noteq> [] \<or> txn_mode (txn_of s u)"

lemma core_prepare:
  assumes x: "txn_map s u = Some tr" and p: "commit_prepare u s = (cts, wm, s')"
  defines "c \<equiv> core_of s"
  shows "cts = (if commit_stamp s u then c_last c + 1 else 0)"
    "core_of s' = c_unregister u ((foldl (c_restore u) c (ovl c u))\<lparr>c_last := if commit_stamp s u then cts else c_last c\<rparr>)"
    "wm = (case c_rts (core_of s') of [] \<Rightarrow> cts | w # _ \<Rightarrow> w)"
proof -
  let ?s1 = "restore_writers_from_overlays u s"
  have c1: "core_of ?s1 = foldl (c_restore u) c (ovl c u)" by (simp add: core_restore c_def)
  have tx: "c_txn (core_of ?s1) = c_txn c" by (simp add: c1 foldl_txn)
  have last_eq: "c_last (foldl (c_restore u) d xs) = c_last d" "c_rts (foldl (c_restore u) d xs) = c_rts d" for d xs
    by (induction xs arbitrary: d) (auto simp: c_restore_def put_chain_def)
  have l1: "last_commit_ts ?s1 = c_last c" "active_rts ?s1 = c_rts c" using last_eq c1 by (metis core_of_simps(3), metis core_of_simps(4))
  have rt: "rts (core_of ?s1) u = read_ts tr" "rts c u = read_ts tr" using tx x by (simp_all add: rts_def c_def ctxn_of_def)
  let ?st = "commit_stamp s u"
  have st: "?st = (write_set tr \<noteq> [] \<or> txn_mode tr)" using x by (simp add: commit_stamp_def txn_of_def)
  let ?cts = "if ?st then last_commit_ts ?s1 + 1 else 0"
  let ?s2 = "if ?st then upd_txn u (\<lambda>tr. tr\<lparr>t_commit_ts := ?cts\<rparr>) (?s1\<lparr>last_commit_ts := ?cts\<rparr>) else ?s1"
  let ?s3 = "remove_rts (read_ts tr) ?s2"
  have pp: "cts = ?cts" "wm = (case active_rts ?s3 of [] \<Rightarrow> ?cts | w # _ \<Rightarrow> w)" "s' = (if is_ser (Some u) ?s3 then ser_finish u True ?cts ?s3 else ?s3)"
    using p x st by (auto simp: commit_prepare_def Let_def txn_of_def)
  have up: "core_of (upd_txn u (\<lambda>tr. tr\<lparr>t_commit_ts := a\<rparr>) d) = core_of d" for a d by (rule core_upd_txn) (simp add: ctxn_of_def)
  have c2: "core_of ?s2 = (core_of ?s1)\<lparr>c_last := if ?st then ?cts else c_last c\<rparr>"
  proof (cases ?st)
    case True
    have "core_of (?s1\<lparr>last_commit_ts := ?cts\<rparr>) = (core_of ?s1)\<lparr>c_last := ?cts\<rparr>"
      using heap_at_frame [of "?s1\<lparr>last_commit_ts := ?cts\<rparr>" ?s1] by (simp add: core_of_def)
    then show ?thesis using True up by simp
  next
    case False
    then show ?thesis using l1 by (simp add: core_of_def)
  qed
  have c3: "core_of ?s3 = (core_of ?s2)\<lparr>c_rts := remove1 (read_ts tr) (c_rts (core_of ?s2))\<rparr>"
    using heap_at_frame [of ?s3 ?s2] by (simp add: core_of_def remove_rts_def)
  have cs: "core_of s' = core_of ?s3" by (simp add: pp(3))
  show "cts = (if ?st then c_last c + 1 else 0)" using pp(1) l1 by simp
  show "core_of s' = c_unregister u ((foldl (c_restore u) c (ovl c u))\<lparr>c_last := if ?st then cts else c_last c\<rparr>)"
    using cs c3 c2 rt c1 pp(1) by (simp add: c_unregister_def rts_def del: core_of_simps)
  have "c_rts (core_of s') = active_rts ?s3" by (simp only: cs core_of_simps)
  then show "wm = (case c_rts (core_of s') of [] \<Rightarrow> cts | w # _ \<Rightarrow> w)" by (simp only: pp(1,2))
qed

lemma core_marks:
  assumes "c_txn (core_of s) u = Some x"
  shows "core_of (commit_marks u cts wm s) =
    (let c = foldl (c_recycle wm) (core_of s) (x_ws x) in c\<lparr>c_dirty := c_dirty c \<or> x_ws x \<noteq> []\<rparr>)"
proof -
  have ws: "write_set (txn_of s u) = x_ws x" by (rule core_txn_fields(3) [OF refl assms])
  have up: "core_of (upd_txn u (\<lambda>tr. tr\<lparr>written_tabs := [], t_del_keys := []\<rparr>) d) = core_of d" for d
    by (rule core_upd_txn) (simp add: ctxn_of_def)
  let ?s2 = "foldl (commit_del_key u cts wm) (foldl (end_activity cts) s (written_tabs (txn_of s u))) (t_del_keys (txn_of s u))"
  let ?s3 = "foldl (recycle_chain wm) (upd_txn u (\<lambda>tr. tr\<lparr>written_tabs := [], t_del_keys := []\<rparr>) ?s2) (x_ws x)"
  have "core_of ?s2 = core_of s" by (simp add: foldl_core)
  then have c3: "core_of ?s3 = foldl (c_recycle wm) (core_of s) (x_ws x)"
    using foldl_fuse [of core_of "recycle_chain wm" "c_recycle wm", OF core_recycle] up by simp
  have d: "core_of (s\<lparr>mvcc_dirty := a, any_mvcc_dirty := b\<rparr>) = (core_of s)\<lparr>c_dirty := b\<rparr>" for s a b
    using heap_at_frame [of "s\<lparr>mvcc_dirty := a, any_mvcc_dirty := b\<rparr>" s] by (simp add: core_of_def)
  show ?thesis
  proof (cases "x_ws x = []")
    case True
    then show ?thesis using c3 by (simp add: commit_marks_def Let_def ws core_of_def)
  next
    case False
    then show ?thesis using c3 by (simp add: commit_marks_def Let_def ws d)
  qed
qed

lemma core_commit_finish:
  assumes "\<forall>k. c_pend (core_of s) k \<noteq> Some u"
  shows "core_of (commit_finish u l h s) = c_end u (core_of s)"
proof -
  let ?need = "l \<and> (h \<or> txn_mode (txn_of s u) \<or> t_prev_lsn (txn_of s u) \<noteq> INVALID_LSN)"
  let ?s1 = "upd_txn u (\<lambda>tr. tr\<lparr>write_set := []\<rparr>) s"
  let ?s2 = "if ?need then append_log (CommitLogRecord u) ?s1 else ?s1"
  let ?s3 = "?s2\<lparr>locks := unlock_all (locks ?s2) (Some u)\<rparr>"
  let ?s4 = "if ?need then ?s3\<lparr>wal_durable := max (wal_durable ?s3) (length (wal ?s2))\<rparr> else ?s3"
  have c1: "core_of ?s1 = upd_x u (\<lambda>x. x\<lparr>x_ws := []\<rparr>) (core_of s)" by (rule core_upd_txn_x) (simp add: ctxn_of_def)
  have c5: "core_of (end_explicit u ?s4) = upd_x u (\<lambda>x. x\<lparr>x_ws := []\<rparr>) (core_of s)" by (simp add: c1)
  have "\<forall>k. pending (end_explicit u ?s4) k \<noteq> Some u"
    using assms c5 core_of_simps(7) [of "end_explicit u ?s4"] by (simp add: upd_x_def)
  then have "clear_pending_si_for_txn u (end_explicit u ?s4) = end_explicit u ?s4" by (rule clear_pending_none)
  then have "commit_finish u l h s = upd_txn u (\<lambda>tr. tr\<lparr>si_overlay := [], t_state := COMMITTED\<rparr>) (end_explicit u ?s4)"
    by (simp only: commit_finish_def Let_def)
  moreover have "core_of (upd_txn u (\<lambda>tr. tr\<lparr>si_overlay := [], t_state := COMMITTED\<rparr>) d) =
      upd_x u (\<lambda>x. x\<lparr>x_ov := [], x_done := True\<rparr>) (core_of d)" for d
    by (rule core_upd_txn_x) (simp add: ctxn_of_def)
  ultimately show ?thesis using c5 by (simp add: upd_x_upd_x c_end_def)
qed

lemma core_commit:
  assumes x: "c_txn (core_of s) u = Some x" "\<not> x_done x" and t: "tm_commit u l s = (None, s')"
    and p: "commit_prepare u s = (cts, wm, s1)"
  defines "c2 \<equiv> foldl (c_push u cts wm) (core_of s1) (x_ws x)"
  defines "c3 \<equiv> foldl (c_recycle wm) c2 (x_ws x)"
  assumes n: "\<forall>k. c_pend c3 k \<noteq> Some u"
  shows "core_of s' = c_end u (c3\<lparr>c_dirty := c_dirty c3 \<or> x_ws x \<noteq> []\<rparr>)"
proof -
  obtain tr where tr: "txn_map s u = Some tr" "ctxn_of tr = x" using x by auto
  have ws: "write_set tr = x_ws x" and st: "\<not> (t_state tr = COMMITTED \<or> t_state tr = ABORTED)"
    using tr(2) x(2) by (auto simp: ctxn_of_def)
  obtain e s2 where f: "foldl (commit_write u cts wm) (None, s1) (x_ws x) = (e, s2)" by (cases "foldl (commit_write u cts wm) (None, s1) (x_ws x)")
  have e: "e = None" and s': "s' = commit_finish u l (x_ws x \<noteq> []) (commit_marks u cts wm s2)"
    using t tr(1) st p f by (auto simp: tm_commit_def ws split: if_splits)
  have c2: "core_of s2 = c2" using core_push_all [of u cts wm s1 "x_ws x" s2] f e by (simp add: c2_def)
  have t1: "c_txn (core_of s1) = c_txn (core_of s)"
    using core_prepare(2) [OF tr(1) p] by (simp add: c_unregister_def foldl_txn)
  have "c_txn c2 u = Some x" using t1 x(1) by (simp add: c2_def foldl_txn)
  then have m: "core_of (commit_marks u cts wm s2) = c3\<lparr>c_dirty := c_dirty c3 \<or> x_ws x \<noteq> []\<rparr>"
    using core_marks [of s2 u x cts wm] c2 by (simp add: c3_def Let_def)
  show ?thesis unfolding s' using core_commit_finish [of "commit_marks u cts wm s2" u] n m by simp
qed

lemma core_abort:
  assumes x: "c_txn (core_of s) u = Some x" "\<not> x_done x"
  defines "c1 \<equiv> foldl (c_restore u) (core_of s) (x_ov x)"
  assumes w: "\<forall>w \<in> set (x_ws x). \<exists>ch. c_chains c1 (wkey w) = Some ch \<and> ch_writer ch = u"
  defines "c2 \<equiv> foldl (c_undo u) c1 (rev (x_ws x))"
  assumes n: "\<forall>k. c_pend c2 k \<noteq> Some u"
  shows "core_of (tm_abort u l s) = c_end u (c_unregister u c2)"
proof -
  obtain tr where tr: "txn_map s u = Some tr" "ctxn_of tr = x" using x by auto
  have ws: "write_set tr = x_ws x" and st: "\<not> (t_state tr = COMMITTED \<or> t_state tr = ABORTED)"
    using tr(2) x(2) by (auto simp: ctxn_of_def)
  have tx: "txn_of s u = tr" using tr(1) by (simp add: txn_of_def)
  let ?s1 = "restore_writers_from_overlays u s"
  have c1: "core_of ?s1 = c1" using tr by (simp add: core_restore c1_def ovl_def ctxn_of_def)
  let ?s2 = "snd (foldl (abort_write u) ({}, ?s1) (rev (x_ws x)))"
  have c2: "core_of ?s2 = c2"
    using core_undo_all [of "rev (x_ws x)" ?s1 u "{}"] w c1 core_of_simps(6) [of ?s1] by (simp add: c2_def)
  have up: "core_of (upd_txn u (\<lambda>tr. tr\<lparr>written_tabs := [], t_del_keys := []\<rparr>) d) = core_of d" for d
    by (rule core_upd_txn) (simp add: ctxn_of_def)
  let ?s3 = "upd_txn u (\<lambda>tr. tr\<lparr>write_set := []\<rparr>) ?s2"
  have au: "abort_undo u s = ?s3" by (simp add: abort_undo_def tx ws)
  have c3: "core_of ?s3 = upd_x u (\<lambda>x. x\<lparr>x_ws := []\<rparr>) c2" unfolding c2 [symmetric] by (rule core_upd_txn_x) (simp add: ctxn_of_def)
  have t2: "c_txn c2 = c_txn (core_of s)" by (simp add: c2_def c1_def foldl_txn)
  have "c_txn (core_of ?s3) u = Some (x\<lparr>x_ws := []\<rparr>)" using x(1) t2 by (simp add: c3 upd_x_def del: core_of_simps)
  then have rd: "read_ts (txn_of ?s3 u) = x_read x" using core_txn_fields(1) [OF refl] by simp
  let ?s4 = "remove_rts (x_read x) ?s3"
  have c4: "core_of ?s4 = (core_of ?s3)\<lparr>c_rts := remove1 (x_read x) (c_rts (core_of ?s3))\<rparr>"
    using heap_at_frame [of ?s4 ?s3] by (simp add: core_of_def remove_rts_def)
  let ?s5 = "if is_ser (Some u) ?s4 then ser_finish u False 0 ?s4 else ?s4"
  let ?s6 = "if l \<and> x_ws x \<noteq> [] then append_log (AbortLogRecord u) ?s5 else ?s5"
  let ?s7 = "foldl (abort_del_key u) (foldl abort_activity ?s6 (written_tabs (txn_of ?s3 u))) (t_del_keys (txn_of ?s3 u))"
  let ?s8 = "end_explicit u (upd_txn u (\<lambda>tr. tr\<lparr>written_tabs := [], t_del_keys := []\<rparr>) ?s7)"
  have c8: "core_of ?s8 = core_of ?s4" by (simp add: up foldl_core)
  have "\<forall>k. pending ?s8 k \<noteq> Some u"
    using n c8 c4 c3 core_of_simps(7) [of ?s8] by (simp add: upd_x_def)
  then have cl: "clear_pending_si_for_txn u ?s8 = ?s8" by (rule clear_pending_none)
  have "tm_abort u l s = upd_txn u (\<lambda>tr. tr\<lparr>si_overlay := [], t_state := ABORTED\<rparr>) (?s8\<lparr>locks := unlock_all (locks ?s8) (Some u)\<rparr>)"
    using tr(1) st by (simp only: tm_abort_def option.case if_False ws au abort_finish_def Let_def rd cl)
  moreover have "core_of (upd_txn u (\<lambda>tr. tr\<lparr>si_overlay := [], t_state := ABORTED\<rparr>) d) =
      upd_x u (\<lambda>x. x\<lparr>x_ov := [], x_done := True\<rparr>) (core_of d)" for d
    by (rule core_upd_txn_x) (simp add: ctxn_of_def)
  moreover have "core_of (?s8\<lparr>locks := unlock_all (locks ?s8) (Some u)\<rparr>) = core_of ?s4" by (simp only: core_fields c8)
  ultimately have "core_of (tm_abort u l s) = upd_x u (\<lambda>x. x\<lparr>x_ov := [], x_done := True\<rparr>) (core_of ?s4)" by (simp only:)
  moreover have "rts c2 u = x_read x" using t2 x(1) by (simp add: rts_def del: core_of_simps)
  ultimately show ?thesis by (simp add: c4 c3 c_end_def c_unregister_def upd_x_def option.map_comp o_def del: core_of_simps)
qed

end
