(* ===== verification/Mvcc_Snapshot.thy ===== *)
theory Mvcc_Snapshot
  imports Mvcc_Core
begin

text \<open>
  What a transaction sees of a row, and that the operations of other transactions do not change it. The invariant says how
  version chains, table files, overlays, pending marks and write sets belong together; \<open>A\<close> is the set of
  transactions whose read timestamp is registered.
\<close>

definition rid_ok :: "Rid \<Rightarrow> bool" where
  "rid_ok rid \<longleftrightarrow> in_s 4 (page_no rid) \<and> in_s 4 (slot_no rid)"

lemma key_inj: "rid_ok a \<Longrightarrow> rid_ok b \<Longrightarrow> mvcc_key a = mvcc_key b \<longleftrightarrow> a = b"
  using mvcc_rid_key by (metis rid_ok_def)

definition view :: "core \<Rightarrow> txn_id_t \<Rightarrow> string \<Rightarrow> Rid \<Rightarrow> bytes option" where
  "view c t tab rid =
     (case map_of (ovl c t) (row_key_of tab rid) of
        Some ov \<Rightarrow> if ov_deleted ov then None else Some (ov_data ov)
      | None \<Rightarrow>
          (case c_chains c (row_key_of tab rid) of
             None \<Rightarrow> c_heap c tab rid
           | Some ch \<Rightarrow>
               if ch_writer ch = t then (if writer_del ch then None else Some (writer_data ch))
               else visible_ver (rts c t) (hist ch)))"

definition cell_ok :: "timestamp_t \<Rightarrow> MvccChain option \<Rightarrow> bytes option \<Rightarrow> bool" where
  "cell_ok lc co h \<longleftrightarrow>
     (case co of
        None \<Rightarrow> True
      | Some ch \<Rightarrow> sorted (map ver_cts (hist ch)) \<and> (\<forall>v \<in> set (hist ch). ver_cts v \<le> lc)
          \<and> (hist ch \<noteq> [] \<longrightarrow> h = (if ver_deleted (last (hist ch)) then None else Some (ver_data (last (hist ch))))))"

definition reg :: "txn_id_t set \<Rightarrow> core \<Rightarrow> bool" where
  "reg A c \<longleftrightarrow> finite A \<and> sorted (c_rts c) \<and> mset (c_rts c) = image_mset (rts c) (mset_set A)
     \<and> (\<forall>t \<in> A. 0 \<le> t \<and> 0 \<le> rts c t \<and> rts c t \<le> c_last c \<and> c_txn c t \<noteq> None)
     \<and> 0 \<le> c_last c \<and> 0 \<le> c_next c \<and> (\<forall>t. c_txn c t \<noteq> None \<longrightarrow> t < c_next c)"

definition cells :: "core \<Rightarrow> bool" where
  "cells c \<longleftrightarrow> (\<forall>tab rid. rid_ok rid \<longrightarrow> cell_ok (c_last c) (c_chains c (row_key_of tab rid)) (c_heap c tab rid))
     \<and> (\<forall>k ch. c_chains c k = Some ch \<longrightarrow> ch_writer ch < c_next c) \<and> (\<not> c_dirty c \<longrightarrow> c_chains c = Map.empty)"

definition pends :: "txn_id_t set \<Rightarrow> core \<Rightarrow> bool" where
  "pends A c \<longleftrightarrow> (\<forall>k w. c_pend c k = Some w \<longrightarrow> w \<in> A \<and> map_of (ovl c w) k \<noteq> None
     \<and> (\<exists>ch. c_chains c k = Some ch \<and> (ch_writer ch = INVALID_TXN_ID \<or> ch_writer ch = w)))"

definition ovs :: "txn_id_t set \<Rightarrow> core \<Rightarrow> bool" where
  "ovs A c \<longleftrightarrow> (\<forall>t \<in> A. distinct (map fst (ovl c t)) \<and> (\<forall>k. map_of (ovl c t) k \<noteq> None \<longrightarrow> c_pend c k = Some t))"

definition holds :: "core \<Rightarrow> txn_id_t \<Rightarrow> row_key \<Rightarrow> bool" where
  "holds c t k \<longleftrightarrow> (\<exists>ch. c_chains c k = Some ch \<and> ch_writer ch = t)"

definition recs :: "txn_id_t set \<Rightarrow> core \<Rightarrow> bool" where
  "recs A c \<longleftrightarrow> (\<forall>t \<in> A. \<forall>w \<in> set (wset c t). rid_ok (w_rid w) \<and> (map_of (ovl c t) (wkey w) \<noteq> None \<or> holds c t (wkey w)))"

definition inv0 :: "txn_id_t set \<Rightarrow> core \<Rightarrow> bool" where
  "inv0 A c \<longleftrightarrow> reg A c \<and> cells c \<and> pends A c \<and> ovs A c \<and> recs A c"

text \<open>Uncommitted rows of registered transactions are not empty.\<close>

definition full :: "txn_id_t set \<Rightarrow> core \<Rightarrow> bool" where
  "full A c \<longleftrightarrow> (\<forall>t \<in> A. (\<forall>k ch. c_chains c k = Some ch \<longrightarrow> ch_writer ch = t \<longrightarrow> writer_del ch \<or> writer_data ch \<noteq> [])
     \<and> (\<forall>k ov. map_of (ovl c t) k = Some ov \<longrightarrow> ov_deleted ov \<or> ov_data ov \<noteq> []))"

lemma fullD:
  assumes "full A c" and "t \<in> A"
  shows "c_chains c k = Some ch \<Longrightarrow> ch_writer ch = t \<Longrightarrow> writer_del ch \<or> writer_data ch \<noteq> []"
    "map_of (ovl c t) k = Some ov \<Longrightarrow> ov_deleted ov \<or> ov_data ov \<noteq> []"
  using assms unfolding full_def by blast+

lemma full_mono: "full B c \<Longrightarrow> A \<subseteq> B \<Longrightarrow> full A c"
  unfolding full_def by blast

definition stable :: "txn_id_t set \<Rightarrow> core \<Rightarrow> core \<Rightarrow> bool" where
  "stable A c c' \<longleftrightarrow> (\<forall>t \<in> A. rts c' t = rts c t \<and> (\<forall>tab rid. rid_ok rid \<longrightarrow> view c' t tab rid = view c t tab rid))"

lemma stable_refl: "stable A c c" by (simp add: stable_def)

lemma stable_trans: "stable A a b \<Longrightarrow> stable A b c \<Longrightarrow> stable A a c" by (simp add: stable_def)

lemma stable_mono: "stable B a b \<Longrightarrow> A \<subseteq> B \<Longrightarrow> stable A a b" by (auto simp: stable_def)

lemma inv0D:
  assumes "inv0 A c"
  shows "reg A c" "cells c" "pends A c" "ovs A c" "recs A c"
  using assms by (simp_all add: inv0_def)

lemma regD:
  assumes "reg A c"
  shows "finite A" "sorted (c_rts c)" "mset (c_rts c) = image_mset (rts c) (mset_set A)" "t \<in> A \<Longrightarrow> 0 \<le> t" "t \<in> A \<Longrightarrow> 0 \<le> rts c t"
    "t \<in> A \<Longrightarrow> rts c t \<le> c_last c" "t \<in> A \<Longrightarrow> c_txn c t \<noteq> None" "0 \<le> c_last c" "0 \<le> c_next c" "c_txn c t \<noteq> None \<Longrightarrow> t < c_next c"
    "t \<in> A \<Longrightarrow> t \<noteq> INVALID_TXN_ID"
  using assms by (auto simp: reg_def INVALID_TXN_ID_def)

lemma reg_frame:
  assumes "reg A c" and "c_rts c' = c_rts c" "c_last c \<le> c_last c'" "c_next c' = c_next c" "\<And>t. rts c' t = rts c t"
    "\<And>t. c_txn c' t = None \<longleftrightarrow> c_txn c t = None"
  shows "reg A c'"
proof -
  have e: "rts c' = rts c" using assms(5) by auto
  note r = regD [OF assms(1)]
  have "0 \<le> t \<and> 0 \<le> rts c t \<and> rts c t \<le> c_last c' \<and> c_txn c' t \<noteq> None" if "t \<in> A" for t
    using r(4-7) [OF that] assms(3,6) by simp
  moreover have "t < c_next c" if "c_txn c' t \<noteq> None" for t using that r(10) assms(6) by simp
  ultimately show ?thesis unfolding reg_def e using r(1,2,3,8,9) assms(2-4) by simp
qed

lemma cellsD:
  assumes "cells c"
  shows "rid_ok rid \<Longrightarrow> cell_ok (c_last c) (c_chains c (row_key_of tab rid)) (c_heap c tab rid)"
    "c_chains c k = Some ch \<Longrightarrow> ch_writer ch < c_next c" "\<not> c_dirty c \<Longrightarrow> c_chains c = Map.empty"
  using assms unfolding cells_def by blast+

lemma pendsD:
  assumes "pends A c" and "c_pend c k = Some w"
  shows "w \<in> A" "map_of (ovl c w) k \<noteq> None" "\<exists>ch. c_chains c k = Some ch \<and> (ch_writer ch = INVALID_TXN_ID \<or> ch_writer ch = w)"
  using assms unfolding pends_def by blast+

lemma ovsD:
  assumes "ovs A c" and "t \<in> A"
  shows "distinct (map fst (ovl c t))" "map_of (ovl c t) k \<noteq> None \<Longrightarrow> c_pend c k = Some t"
  using assms unfolding ovs_def by blast+

lemma recsD:
  assumes "recs A c" and "t \<in> A" and "w \<in> set (wset c t)"
  shows "rid_ok (w_rid w)" "map_of (ovl c t) (wkey w) \<noteq> None \<or> holds c t (wkey w)"
  using assms unfolding recs_def by blast+

section \<open>Versions and snapshots\<close>

lemma visible_ver_append: "r < ver_cts v \<Longrightarrow> visible_ver r (vs @ [v]) = visible_ver r vs"
  by (simp add: visible_ver_def)

lemma visible_ver_Nil [simp]: "visible_ver r [] = None"
  by (simp add: visible_ver_def)

lemma visible_ver_snoc: "ver_cts v \<le> r \<Longrightarrow> visible_ver r (vs @ [v]) = (if ver_deleted v then None else Some (ver_data v))"
  by (simp add: visible_ver_def)

lemma find_append: "find P (xs @ ys) = (case find P xs of None \<Rightarrow> find P ys | Some x \<Rightarrow> Some x)"
  by (induction xs) auto

lemma visible_ver_Cons: "list_ex (\<lambda>v. ver_cts v \<le> r) vs \<Longrightarrow> visible_ver r (v # vs) = visible_ver r vs"
  by (auto simp: visible_ver_def find_append list_ex_iff find_None_iff split: option.splits)

lemma visible_keep_from: "wm \<le> r \<Longrightarrow> visible_ver r (keep_from wm vs) = visible_ver r vs"
proof (induction vs)
  case (Cons v vs)
  have "list_ex (\<lambda>v. ver_cts v \<le> r) vs" if "list_ex (\<lambda>v. ver_cts v \<le> wm) vs"
    using that Cons.prems by (force simp: list_ex_iff)
  then show ?case using Cons visible_ver_Cons by simp
qed simp

lemma keep_from_suffix: "\<exists>ys. vs = ys @ keep_from wm vs"
proof (induction vs)
  case (Cons v vs)
  then show ?case by (auto intro: exI [of _ "v # ys" for ys])
qed simp

lemma keep_from_ne: "vs \<noteq> [] \<Longrightarrow> keep_from wm vs \<noteq> []"
proof (induction vs)
  case (Cons v vs)
  then show ?case by (cases vs) simp_all
qed simp

lemma keep_from_cell:
  assumes "cell_ok lc (Some ch) h"
  shows "cell_ok lc (Some (ch\<lparr>hist := keep_from wm (hist ch)\<rparr>)) h"
proof (cases "hist ch = []")
  case True
  then show ?thesis using assms by (simp add: cell_ok_def)
next
  case False
  obtain ys where y: "hist ch = ys @ keep_from wm (hist ch)" using keep_from_suffix [of "hist ch" wm] by blast
  let ?ks = "keep_from wm (hist ch)"
  have ne: "?ks \<noteq> []" by (rule keep_from_ne [OF False])
  have c: "sorted (map ver_cts (hist ch))" "\<forall>v \<in> set (hist ch). ver_cts v \<le> lc"
      "h = (if ver_deleted (last (hist ch)) then None else Some (ver_data (last (hist ch))))"
    using assms False by (simp_all add: cell_ok_def)
  have l: "last (hist ch) = last ?ks" using arg_cong [OF y, of last] ne by simp
  have s: "sorted (map ver_cts ?ks)" using c(1) arg_cong [OF y, of "\<lambda>x. sorted (map ver_cts x)"] by (simp add: sorted_append)
  have b: "\<forall>v \<in> set ?ks. ver_cts v \<le> lc" using c(2) arg_cong [OF y, of set] by auto
  show ?thesis unfolding cell_ok_def using c(3) l s b by simp
qed

lemma view_eqI:
  assumes "ovl c' t = ovl c t" "rts c' t = rts c t" "c_chains c' (row_key_of tab rid) = c_chains c (row_key_of tab rid)"
    "c_heap c' tab rid = c_heap c tab rid"
  shows "view c' t tab rid = view c t tab rid"
  unfolding view_def assms ..

text \<open>A change of one chain and of the row behind it leaves the other rows alone.\<close>

lemma stable_cell:
  assumes r: "rid_ok rid" and t: "\<And>t. t \<in> A \<Longrightarrow> ovl c' t = ovl c t" "\<And>t. t \<in> A \<Longrightarrow> rts c' t = rts c t"
    and k: "\<And>j. j \<noteq> row_key_of tab rid \<Longrightarrow> c_chains c' j = c_chains c j" "\<And>tb rd. (tb, rd) \<noteq> (tab, rid) \<Longrightarrow> c_heap c' tb rd = c_heap c tb rd"
    and v: "\<And>t. t \<in> A \<Longrightarrow> view c' t tab rid = view c t tab rid"
  shows "stable A c c'"
  unfolding stable_def
proof (intro ballI conjI allI impI)
  fix u tb rd assume u: "u \<in> A" and rd: "rid_ok rd"
  show "view c' u tb rd = view c u tb rd"
  proof (cases "(tb, rd) = (tab, rid)")
    case True
    then show ?thesis using v [OF u] by simp
  next
    case False
    then have "row_key_of tb rd \<noteq> row_key_of tab rid" using key_inj [OF rd r] by auto
    then show ?thesis using t [OF u] k False by (intro view_eqI) auto
  qed
qed (use t in auto)

lemma cells_cell:
  assumes s: "cells c" and r: "rid_ok rid"
    and k: "\<And>j. j \<noteq> row_key_of tab rid \<Longrightarrow> c_chains c' j = c_chains c j" "\<And>tb rd. (tb, rd) \<noteq> (tab, rid) \<Longrightarrow> c_heap c' tb rd = c_heap c tb rd"
    and n: "c_last c' = c_last c" "c_next c' = c_next c" "c_dirty c' \<or> (c_chains c' (row_key_of tab rid) = None \<and> c_dirty c' = c_dirty c)"
    and v: "cell_ok (c_last c) (c_chains c' (row_key_of tab rid)) (c_heap c' tab rid)"
      "\<And>ch. c_chains c' (row_key_of tab rid) = Some ch \<Longrightarrow> ch_writer ch < c_next c"
  shows "cells c'"
  unfolding cells_def
proof (intro conjI allI impI)
  fix tb rd assume rd: "rid_ok rd"
  show "cell_ok (c_last c') (c_chains c' (row_key_of tb rd)) (c_heap c' tb rd)"
  proof (cases "(tb, rd) = (tab, rid)")
    case True
    then show ?thesis using v(1) n by simp
  next
    case False
    then have "row_key_of tb rd \<noteq> row_key_of tab rid" using key_inj [OF rd r] by auto
    then show ?thesis using k False cellsD(1) [OF s rd, of tb] n by auto
  qed
next
  fix j ch assume "c_chains c' j = Some ch"
  then show "ch_writer ch < c_next c'" using k(1) [of j] cellsD(2) [OF s, of j ch] v(2) n by (cases "j = row_key_of tab rid") auto
next
  assume "\<not> c_dirty c'"
  then show "c_chains c' = Map.empty" using n(3) cellsD(3) [OF s] k(1) by (metis ext)
qed

section \<open>A write\<close>

lemma put_chain_simps [simp]:
  "c_next (put_chain k ch c) = c_next c" "c_last (put_chain k ch c) = c_last c" "c_rts (put_chain k ch c) = c_rts c" "c_dirty (put_chain k ch c) = c_dirty c"
  "c_chains (put_chain k ch c) j = (if j = k then Some ch else c_chains c j)" "c_pend (put_chain k ch c) = c_pend c" "c_heap (put_chain k ch c) = c_heap c"
  "ovl (put_chain k ch c) t = ovl c t" "wset (put_chain k ch c) t = wset c t" "rts (put_chain k ch c) t = rts c t"
  by (simp_all add: put_chain_def ovl_def wset_def rts_def)

lemma upd_x_simps [simp]:
  "c_next (upd_x u g c) = c_next c" "c_last (upd_x u g c) = c_last c" "c_rts (upd_x u g c) = c_rts c" "c_dirty (upd_x u g c) = c_dirty c"
  "c_chains (upd_x u g c) = c_chains c" "c_pend (upd_x u g c) = c_pend c" "c_heap (upd_x u g c) = c_heap c"
  "c_txn (upd_x u g c) t = None \<longleftrightarrow> c_txn c t = None"
  by (auto simp: upd_x_def)

lemma upd_x_other [simp]:
  "t \<noteq> u \<Longrightarrow> ovl (upd_x u g c) t = ovl c t" "t \<noteq> u \<Longrightarrow> wset (upd_x u g c) t = wset c t" "t \<noteq> u \<Longrightarrow> rts (upd_x u g c) t = rts c t"
  by (simp_all add: upd_x_def ovl_def wset_def rts_def)

lemma upd_x_ws [simp]:
  "ovl (upd_x u (\<lambda>x. x\<lparr>x_ws := x_ws x @ W\<rparr>) c) t = ovl c t" "rts (upd_x u (\<lambda>x. x\<lparr>x_ws := x_ws x @ W\<rparr>) c) t = rts c t"
  by (auto simp: upd_x_def ovl_def rts_def split: option.splits)

lemma wset_upd_x_ws: "set (wset (upd_x u (\<lambda>x. x\<lparr>x_ws := x_ws x @ W\<rparr>) c) t) \<subseteq> set (wset c t) \<union> (if t = u then set W else {})"
  by (cases "c_txn c u") (auto simp: upd_x_def wset_def)

lemma dirty_frame [simp]:
  "ovl (c\<lparr>c_dirty := b\<rparr>) t = ovl c t" "wset (c\<lparr>c_dirty := b\<rparr>) t = wset c t" "rts (c\<lparr>c_dirty := b\<rparr>) t = rts c t"
  by (simp_all add: ovl_def wset_def rts_def)

text \<open>What the caller of a write knows: the row is in the table file, the transaction sees it, and \<open>old\<close> is the row itself when it has no chain.\<close>

definition seen :: "core \<Rightarrow> txn_id_t \<Rightarrow> string \<Rightarrow> Rid \<Rightarrow> bytes \<Rightarrow> bool" where
  "seen c u tab rid old \<longleftrightarrow> rid_ok rid \<and> view c u tab rid \<noteq> None \<and> (c_chains c (row_key_of tab rid) = None \<longrightarrow> c_heap c tab rid = Some old)"

lemma c_chain_None: "c_chains c k = None \<Longrightarrow> c_chain c k = new_chain"
  and c_chain_Some: "c_chains c k = Some ch \<Longrightarrow> c_chain c k = ch"
  by (simp_all add: c_chain_def)

lemma new_chain_simps [simp]: "hist new_chain = []" "ch_writer new_chain = INVALID_TXN_ID" "writer_data new_chain = []" "\<not> writer_del new_chain"
  by (simp_all add: new_chain_def)

lemma seen_base:
  assumes "seen c u tab rid old" and "u \<noteq> INVALID_TXN_ID"
  shows "base_hist u (row_key_of tab rid) old c =
    (case c_chains c (row_key_of tab rid) of
       None \<Rightarrow> if map_of (ovl c u) (row_key_of tab rid) = None
               then [\<lparr>ver_data = old, ver_cts = 0, ver_deleted = False, writer_txn = INVALID_TXN_ID\<rparr>] else []
     | Some ch \<Rightarrow> hist ch)"
proof (cases "c_chains c (row_key_of tab rid)")
  case None
  then show ?thesis by (simp add: base_hist_def c_chain_None)
next
  case (Some ch)
  have "\<not> (hist ch = [] \<and> ch_writer ch = INVALID_TXN_ID \<and> map_of (ovl c u) (row_key_of tab rid) = None)"
    using assms Some by (auto simp: seen_def view_def split: option.splits)
  then show ?thesis using Some by (auto simp: base_hist_def c_chain_Some)
qed

lemma inv0_grab:
  assumes i: "inv0 A c" and u: "u \<in> A" and s: "seen c u tab rid old" and g: "grab u tab rid old c ch W c'"
  shows "inv0 A c'" "stable (A - {u}) c c'" "full (A - {u}) c \<Longrightarrow> full (A - {u}) c'"
    "full A c \<Longrightarrow> writer_del ch \<or> writer_data ch \<noteq> [] \<Longrightarrow> full A c'"
proof -
  let ?k = "row_key_of tab rid"
  note r = regD [OF inv0D(1) [OF i]] and pd = pendsD [OF inv0D(3) [OF i]] and od = ovsD [OF inv0D(4) [OF i]] and rd = recsD [OF inv0D(5) [OF i]]
  have rid: "rid_ok rid" using s by (simp add: seen_def)
  have uv: "u \<noteq> INVALID_TXN_ID" by (rule r(11) [OF u])
  have g': "c_pend c ?k = None \<or> c_pend c ?k = Some u" "ch_writer (c_chain c ?k) = INVALID_TXN_ID \<or> ch_writer (c_chain c ?k) = u"
      "hist ch = base_hist u ?k old c" "ch_writer ch = u" "\<forall>w \<in> set W. w_tab w = tab \<and> w_rid w = rid"
      "c' = upd_x u (\<lambda>x. x\<lparr>x_ws := x_ws x @ W\<rparr>) (put_chain ?k ch (c\<lparr>c_dirty := True\<rparr>))"
    using g by (simp_all add: grab_def Let_def)
  have f: "c_rts c' = c_rts c" "c_last c' = c_last c" "c_next c' = c_next c" "c_dirty c'" "c_pend c' = c_pend c" "c_heap c' = c_heap c"
      "ovl c' t = ovl c t" "rts c' t = rts c t" "c_chains c' j = (if j = ?k then Some ch else c_chains c j)" "c_txn c' t = None \<longleftrightarrow> c_txn c t = None"
      "set (wset c' t) \<subseteq> set (wset c t) \<union> (if t = u then set W else {})" for t j
    using wset_upd_x_ws [of u W "put_chain ?k ch (c\<lparr>c_dirty := True\<rparr>)" t] by (simp_all add: g'(6))
  have none_ov: "map_of (ovl c t) ?k = None" if "t \<in> A" "t \<noteq> u" for t
    using od(2) [OF that(1), of ?k] g'(1) that(2) by (cases "map_of (ovl c t) ?k") auto
  have old: "c_chains c ?k = None \<Longrightarrow> map_of (ovl c u) ?k = None" using od(2) [OF u, of ?k] pd(3) by fastforce
  have h: "hist ch = (case c_chains c ?k of None \<Rightarrow> [\<lparr>ver_data = old, ver_cts = 0, ver_deleted = False, writer_txn = INVALID_TXN_ID\<rparr>] | Some x \<Rightarrow> hist x)"
    using g'(3) seen_base [OF s uv] old by (simp split: option.splits)
  have wo: "\<not> holds c t ?k" if "t \<in> A" "t \<noteq> u" for t
    using g'(2) that r(11) [OF that(1)] by (auto simp: holds_def c_chain_def)
  show "stable (A - {u}) c c'"
  proof (rule stable_cell [OF rid])
    fix t assume t: "t \<in> A - {u}"
    show "view c' t tab rid = view c t tab rid"
    proof (cases "c_chains c ?k")
      case None
      then show ?thesis using t none_ov [of t] s r(5) [of t] h g'(4) by (auto simp: view_def f seen_def visible_ver_def)
    next
      case (Some x)
      then show ?thesis using t none_ov [of t] h g'(4) wo [of t] by (auto simp: view_def f holds_def)
    qed
  qed (simp_all add: f)
  have cell: "cell_ok (c_last c) (Some ch) (c_heap c tab rid)"
    using h cellsD(1) [OF inv0D(2) [OF i] rid, of tab] s r(8) by (cases "c_chains c ?k") (simp_all add: cell_ok_def seen_def)
  have "cells c'"
  proof (rule cells_cell [OF inv0D(2) [OF i] rid, of tab])
    show "cell_ok (c_last c) (c_chains c' ?k) (c_heap c' tab rid)" using cell by (simp add: f)
    show "\<And>x. c_chains c' ?k = Some x \<Longrightarrow> ch_writer x < c_next c" using g'(4) r(10) [OF r(7) [OF u]] by (auto simp: f)
  qed (simp_all add: f)
  moreover have "reg A c'" by (rule reg_frame [OF inv0D(1) [OF i]]) (simp_all add: f)
  moreover have "pends A c'"
    unfolding pends_def
  proof (intro allI impI)
    fix k w assume "c_pend c' k = Some w"
    then have p: "c_pend c k = Some w" by (simp add: f)
    show "w \<in> A \<and> map_of (ovl c' w) k \<noteq> None \<and> (\<exists>ch. c_chains c' k = Some ch \<and> (ch_writer ch = INVALID_TXN_ID \<or> ch_writer ch = w))"
      using pd [OF p] g'(1,4) p by (cases "k = ?k") (auto simp: f)
  qed
  moreover have "ovs A c'" using inv0D(4) [OF i] by (simp add: ovs_def f)
  moreover have "recs A c'"
    unfolding recs_def
  proof (intro ballI)
    fix t w assume t: "t \<in> A" and w: "w \<in> set (wset c' t)"
    show "rid_ok (w_rid w) \<and> (map_of (ovl c' t) (wkey w) \<noteq> None \<or> holds c' t (wkey w))"
    proof (cases "w \<in> set (wset c t)")
      case True
      have "holds c' t (wkey w)" if "holds c t (wkey w)"
        using that wo [OF t] g'(4) by (cases "wkey w = ?k"; cases "t = u") (auto simp: holds_def f)
      then show ?thesis using rd [OF t True] by (auto simp: f)
    next
      case False
      then have "w \<in> set W" "t = u" using w f(11) [of t] by (auto split: if_splits)
      then show ?thesis using g'(4,5) rid by (auto simp: holds_def f)
    qed
  qed
  ultimately show "inv0 A c'" by (simp add: inv0_def)
  show "full (A - {u}) c'" if "full (A - {u}) c"
    using that g'(4) by (auto simp: full_def f split: if_splits)
  show "full A c'" if "full A c" "writer_del ch \<or> writer_data ch \<noteq> []"
    using that g'(4) by (auto simp: full_def f split: if_splits)
qed

section \<open>Refused writes, released writes, insertions, new transactions\<close>

lemma inv0_mark:
  assumes i: "inv0 A c"
  shows "inv0 A (c\<lparr>c_dirty := True\<rparr>)" "stable A c (c\<lparr>c_dirty := True\<rparr>)" "full B c \<Longrightarrow> full B (c\<lparr>c_dirty := True\<rparr>)"
proof -
  have "reg A (c\<lparr>c_dirty := True\<rparr>)" by (rule reg_frame [OF inv0D(1) [OF i]]) simp_all
  moreover have "cells (c\<lparr>c_dirty := True\<rparr>)" using inv0D(2) [OF i] by (simp add: cells_def)
  moreover have "pends A (c\<lparr>c_dirty := True\<rparr>)" using inv0D(3) [OF i] by (simp add: pends_def)
  moreover have "ovs A (c\<lparr>c_dirty := True\<rparr>)" using inv0D(4) [OF i] by (simp add: ovs_def)
  moreover have "recs A (c\<lparr>c_dirty := True\<rparr>)" using inv0D(5) [OF i] by (simp add: recs_def holds_def)
  ultimately show "inv0 A (c\<lparr>c_dirty := True\<rparr>)" by (simp add: inv0_def)
  have "view (c\<lparr>c_dirty := True\<rparr>) t tab rid = view c t tab rid" for t tab rid by (rule view_eqI) simp_all
  then show "stable A c (c\<lparr>c_dirty := True\<rparr>)" by (simp add: stable_def)
  show "full B c \<Longrightarrow> full B (c\<lparr>c_dirty := True\<rparr>)" by (simp add: full_def)
qed

lemma put_same: "c_chains c k = Some ch \<Longrightarrow> put_chain k ch c = c"
  by (simp add: put_chain_def fun_upd_idem)

lemma inv0_refused:
  assumes i: "inv0 A c" and u: "u \<in> A" and s: "seen c u tab rid old" and r: "refused u tab rid old c c'" and f: "full (A - {u}) c"
  shows "inv0 A c' \<and> stable (A - {u}) c c' \<and> full (A - {u}) c'"
proof -
  let ?k = "row_key_of tab rid"
  consider (mark) "c' = put_chain ?k (c_chain c ?k) (c\<lparr>c_dirty := True\<rparr>)"
      "hist (c_chain c ?k) \<noteq> [] \<or> c_pend c ?k \<noteq> None \<or> ch_writer (c_chain c ?k) \<noteq> INVALID_TXN_ID"
    | (grab) ch where "grab u tab rid old c ch [] c'" | (same) "c' = c"
    using r unfolding refused_def by blast
  then show ?thesis
  proof cases
    case mark
    have "c_chains c ?k \<noteq> None"
    proof
      assume n: "c_chains c ?k = None"
      then have "c_pend c ?k \<noteq> None" using mark(2) by (simp add: c_chain_None)
      then show False using pendsD(3) [OF inv0D(3) [OF i]] n by fastforce
    qed
    then have "c' = c\<lparr>c_dirty := True\<rparr>" using mark(1) by (auto simp: c_chain_Some put_chain_def fun_upd_idem)
    then show ?thesis using inv0_mark [OF i] f stable_mono [of A c c' "A - {u}"] by auto
  next
    case grab
    then show ?thesis using inv0_grab(1-3) [OF i u s grab] f by blast
  next
    case same
    then show ?thesis using i f stable_refl by simp
  qed
qed

lemma upd_x_ov:
  assumes "c_txn c u \<noteq> None"
  shows "ovl (upd_x u (\<lambda>x. x\<lparr>x_ov := g (x_ov x)\<rparr>) c) t = (if t = u then g (ovl c u) else ovl c t)"
    "wset (upd_x u (\<lambda>x. x\<lparr>x_ov := g (x_ov x)\<rparr>) c) t = wset c t" "rts (upd_x u (\<lambda>x. x\<lparr>x_ov := g (x_ov x)\<rparr>) c) t = rts c t"
  using assms by (auto simp: upd_x_def ovl_def wset_def rts_def split: option.splits)

lemma pend_frame [simp]:
  "ovl (c\<lparr>c_pend := p\<rparr>) t = ovl c t" "wset (c\<lparr>c_pend := p\<rparr>) t = wset c t" "rts (c\<lparr>c_pend := p\<rparr>) t = rts c t"
  by (simp_all add: ovl_def wset_def rts_def)

lemma inv0_release:
  assumes i: "inv0 A c" and fl: "full A c" and u: "u \<in> A" and w: "rid_ok (w_rid w)"
  shows "inv0 A (c_release u c w) \<and> full A (c_release u c w) \<and> stable (A - {u}) c (c_release u c w)"
proof -
  let ?k = "wkey w" and ?c = "c_release u c w"
  note r = regD [OF inv0D(1) [OF i]] and pd = pendsD [OF inv0D(3) [OF i]] and od = ovsD [OF inv0D(4) [OF i]] and rd = recsD [OF inv0D(5) [OF i]]
  show ?thesis
  proof (cases "\<exists>ch. c_chains c ?k = Some ch \<and> ch_writer ch = u \<and> \<not> hold_writer_to_commit ch")
    case False
    then have "?c = c" by (auto simp: c_release_def split: option.splits)
    then show ?thesis using i fl stable_refl by simp
  next
    case True
    then obtain ch where ch: "c_chains c ?k = Some ch" "ch_writer ch = u" "\<not> hold_writer_to_commit ch" by blast
    let ?ov = "\<lparr>ov_data = writer_data ch, ov_deleted = writer_del ch\<rparr>"
    let ?ch = "ch\<lparr>ch_writer := INVALID_TXN_ID, writer_del := False, writer_data := []\<rparr>"
    have un: "u \<noteq> INVALID_TXN_ID" "c_txn c u \<noteq> None" using r(7,11) [OF u] by simp_all
    have eq: "?c = (upd_x u (\<lambda>x. x\<lparr>x_ov := AList.update ?k ?ov (x_ov x)\<rparr>) (put_chain ?k ?ch c))\<lparr>c_pend := (c_pend c)(?k \<mapsto> u)\<rparr>"
      using ch by (simp add: c_release_def)
    have f: "c_rts ?c = c_rts c" "c_last ?c = c_last c" "c_next ?c = c_next c" "c_dirty ?c = c_dirty c" "c_pend ?c = (c_pend c)(?k \<mapsto> u)" "c_heap ?c = c_heap c"
        "ovl ?c t = (if t = u then AList.update ?k ?ov (ovl c u) else ovl c t)" "rts ?c t = rts c t" "wset ?c t = wset c t"
        "c_chains ?c j = (if j = ?k then Some ?ch else c_chains c j)" "c_txn ?c t = None \<longleftrightarrow> c_txn c t = None" for t j
      using upd_x_ov [of "put_chain ?k ?ch c" u "AList.update ?k ?ov"] un(2) by (simp_all add: eq)
    have mo: "map_of (ovl ?c t) j = (if t = u \<and> j = ?k then Some ?ov else map_of (ovl c t) j)" for t j by (simp add: f update_conv)
    have pk: "c_pend c ?k = None \<or> c_pend c ?k = Some u" using pd(3) [of ?k] ch(1,2) un(1) by (cases "c_pend c ?k") auto
    have none_ov: "map_of (ovl c t) ?k = None" if "t \<in> A" "t \<noteq> u" for t
      using od(2) [OF that(1), of ?k] pk that(2) by (cases "map_of (ovl c t) ?k") auto
    have "stable (A - {u}) c ?c"
    proof (rule stable_cell [OF w])
      show "view ?c t (w_tab w) (w_rid w) = view c t (w_tab w) (w_rid w)" if "t \<in> A - {u}" for t
        using that none_ov [of t] ch r(11) [of t] by (auto simp: view_def mo f)
    qed (simp_all add: f)
    moreover have "cells ?c"
    proof (rule cells_cell [OF inv0D(2) [OF i] w])
      show "cell_ok (c_last c) (c_chains ?c ?k) (c_heap ?c (w_tab w) (w_rid w))"
        using cellsD(1) [OF inv0D(2) [OF i] w, of "w_tab w"] ch by (simp add: f cell_ok_def)
      show "\<And>x. c_chains ?c ?k = Some x \<Longrightarrow> ch_writer x < c_next c" using r(9) by (auto simp: f INVALID_TXN_ID_def)
      show "c_dirty ?c \<or> (c_chains ?c ?k = None \<and> c_dirty ?c = c_dirty c)" using cellsD(3) [OF inv0D(2) [OF i]] ch(1) by (cases "c_dirty c") (auto simp: f)
    qed (simp_all add: f)
    moreover have "reg A ?c" by (rule reg_frame [OF inv0D(1) [OF i]]) (simp_all add: f)
    moreover have "pends A ?c"
      unfolding pends_def
    proof (intro allI impI)
      fix k v assume p: "c_pend ?c k = Some v"
      show "v \<in> A \<and> map_of (ovl ?c v) k \<noteq> None \<and> (\<exists>ch. c_chains ?c k = Some ch \<and> (ch_writer ch = INVALID_TXN_ID \<or> ch_writer ch = v))"
      proof (cases "k = ?k")
        case True
        then have v: "v = u" using p by (simp add: f(5))
        show ?thesis unfolding v True using u by (simp add: f(10) mo)
      next
        case False
        then have "c_pend c k = Some v" using p by (simp add: f)
        then show ?thesis using pd [of k v] False by (simp add: f(10) mo)
      qed
    qed
    moreover have "ovs A ?c"
      unfolding ovs_def
    proof (intro ballI conjI allI impI)
      fix t assume t: "t \<in> A"
      show "distinct (map fst (ovl ?c t))" using od(1) [OF t] distinct_update [OF od(1) [OF u]] by (simp add: f)
      fix k assume k: "map_of (ovl ?c t) k \<noteq> None"
      show "c_pend ?c k = Some t"
      proof (cases "k = ?k")
        case True
        then have "t = u" using k none_ov [OF t] by (auto simp: mo split: if_splits)
        then show ?thesis using True by (simp add: f)
      next
        case False
        then show ?thesis using k od(2) [OF t, of k] by (simp add: mo f(5))
      qed
    qed
    moreover have "recs A ?c"
      unfolding recs_def
    proof (intro ballI)
      fix t v assume t: "t \<in> A" and v: "v \<in> set (wset ?c t)"
      have v': "v \<in> set (wset c t)" using v by (simp add: f)
      show "rid_ok (w_rid v) \<and> (map_of (ovl ?c t) (wkey v) \<noteq> None \<or> holds ?c t (wkey v))"
      proof (cases "wkey v = ?k")
        case False
        then show ?thesis using rd [OF t v'] by (auto simp: mo holds_def f(10))
      next
        case True
        have "\<not> holds c t ?k" if "t \<noteq> u" using that ch by (auto simp: holds_def)
        then show ?thesis using rd [OF t v'] True by (cases "t = u") (auto simp: mo)
      qed
    qed
    moreover have "full A ?c"
      unfolding full_def
    proof (intro ballI conjI allI impI)
      fix t assume t: "t \<in> A"
      have fl': "\<And>k x. c_chains c k = Some x \<Longrightarrow> ch_writer x = t \<Longrightarrow> writer_del x \<or> writer_data x \<noteq> []"
          "\<And>k v. map_of (ovl c t) k = Some v \<Longrightarrow> ov_deleted v \<or> ov_data v \<noteq> []"
        using fl t unfolding full_def by blast+
      show "writer_del x \<or> writer_data x \<noteq> []" if "c_chains ?c k = Some x" "ch_writer x = t" for k x
        using that fl'(1) [of k x] r(11) [OF t] by (auto simp: f(10) split: if_splits)
      show "ov_deleted v \<or> ov_data v \<noteq> []" if "map_of (ovl ?c t) k = Some v" for k v
        using that fl'(2) [of k v] fl'(1) [of ?k ch] ch by (auto simp: mo split: if_splits)
    qed
    ultimately show ?thesis by (simp add: inv0_def)
  qed
qed

lemma inv0_release_all:
  assumes "inv0 A c" "full A c" "u \<in> A" "\<forall>w \<in> set ws. rid_ok (w_rid w)"
  shows "inv0 A (foldl (c_release u) c ws) \<and> full A (foldl (c_release u) c ws) \<and> stable (A - {u}) c (foldl (c_release u) c ws)"
  using assms
proof (induction ws arbitrary: c)
  case (Cons w ws)
  have 1: "inv0 A (c_release u c w)" "full A (c_release u c w)" "stable (A - {u}) c (c_release u c w)"
    using inv0_release [OF Cons.prems(1-3), of w] Cons.prems(4) by simp_all
  then show ?case using Cons.IH [OF 1(1,2) Cons.prems(3)] Cons.prems(4) stable_trans by fastforce
qed (simp add: stable_refl)

lemma heap_frame [simp]:
  "ovl (c\<lparr>c_heap := h\<rparr>) t = ovl c t" "wset (c\<lparr>c_heap := h\<rparr>) t = wset c t" "rts (c\<lparr>c_heap := h\<rparr>) t = rts c t"
  by (simp_all add: ovl_def wset_def rts_def)

text \<open>An insertion into a slot that is empty and has no chain, with its publication in the table file.\<close>

definition c_insert :: "txn_id_t \<Rightarrow> string \<Rightarrow> Rid \<Rightarrow> bytes \<Rightarrow> core \<Rightarrow> core" where
  "c_insert u tab rid data c =
     (upd_x u (\<lambda>x. x\<lparr>x_ws := x_ws x @ [\<lparr>wtype = INSERT_TUPLE, w_tab = tab, w_rid = rid, w_record = []\<rparr>]\<rparr>)
       (put_chain (row_key_of tab rid) (new_chain\<lparr>ch_writer := u, writer_data := data\<rparr>) (c\<lparr>c_dirty := True\<rparr>)))
       \<lparr>c_heap := (c_heap c)(tab := (c_heap c tab)(rid \<mapsto> data))\<rparr>"

lemma core_insert:
  assumes "chains s (row_key_of tab rid) = None" and "fhs s tab \<noteq> None"
  shows "core_of (set_heap tab rid (Some data) (mvcc_insert u tab rid data s)) = c_insert u tab rid data (core_of s)"
proof -
  let ?s1 = "write_enter u tab rid s" and ?k = "row_key_of tab rid"
  have "c_chain (core_of ?s1) ?k = new_chain" using assms(1) by (simp add: core_enter chain_of_def)
  then have ch: "chain_of ?s1 ?k = new_chain" by (simp add: chain_of_core)
  have nc: "new_chain\<lparr>hist := [], ch_writer := u, writer_del := False, writer_data := data\<rparr> = new_chain\<lparr>ch_writer := u, writer_data := data\<rparr>"
    by (simp add: new_chain_def)
  have c1: "core_of (mvcc_insert u tab rid data s) =
      upd_x u (\<lambda>x. x\<lparr>x_ws := x_ws x @ [\<lparr>wtype = INSERT_TUPLE, w_tab = tab, w_rid = rid, w_record = []\<rparr>]\<rparr>)
        (put_chain ?k (new_chain\<lparr>ch_writer := u, writer_data := data\<rparr>) ((core_of s)\<lparr>c_dirty := True\<rparr>))"
    by (simp add: mvcc_insert_def Let_def ch nc core_enter)
  have "fhs (mvcc_insert u tab rid data s) = fhs s"
    by (simp add: mvcc_insert_def Let_def upd_txn_def set_chain_def write_enter_def mark_dirty_tab_def recent_writes_add_def note_table_write_def
        split: option.splits prod.splits bool.splits)
  then show ?thesis using core_set_heap [of "Some data" "mvcc_insert u tab rid data s" tab rid] assms(2) c1 by (simp add: c_insert_def)
qed

lemma inv0_insert:
  assumes i: "inv0 A c" and u: "u \<in> A" and k: "c_chains c (row_key_of tab rid) = None" "c_heap c tab rid = None" "rid_ok rid" "data \<noteq> []"
  shows "inv0 A (c_insert u tab rid data c)" "stable (A - {u}) c (c_insert u tab rid data c)" "full A c \<Longrightarrow> full A (c_insert u tab rid data c)"
proof -
  let ?k = "row_key_of tab rid" and ?c = "c_insert u tab rid data c" and ?ch = "new_chain\<lparr>ch_writer := u, writer_data := data\<rparr>"
  let ?w = "\<lparr>wtype = INSERT_TUPLE, w_tab = tab, w_rid = rid, w_record = []\<rparr>"
  note r = regD [OF inv0D(1) [OF i]] and pd = pendsD [OF inv0D(3) [OF i]] and od = ovsD [OF inv0D(4) [OF i]] and rd = recsD [OF inv0D(5) [OF i]]
  have f: "c_rts ?c = c_rts c" "c_last ?c = c_last c" "c_next ?c = c_next c" "c_dirty ?c" "c_pend ?c = c_pend c"
      "c_heap ?c = (c_heap c)(tab := (c_heap c tab)(rid \<mapsto> data))"
      "ovl ?c t = ovl c t" "rts ?c t = rts c t" "c_chains ?c j = (if j = ?k then Some ?ch else c_chains c j)" "c_txn ?c t = None \<longleftrightarrow> c_txn c t = None" for t j
    by (simp_all add: c_insert_def)
  have fw: "set (wset ?c t) \<subseteq> set (wset c t) \<union> (if t = u then {?w} else {})" for t
    using wset_upd_x_ws [of u "[?w]" "put_chain ?k ?ch (c\<lparr>c_dirty := True\<rparr>)" t] unfolding c_insert_def heap_frame by (auto split: if_splits)
  have pk: "c_pend c ?k = None" using pd(3) [of ?k] k(1) by (cases "c_pend c ?k") auto
  have none_ov: "map_of (ovl c t) ?k = None" if "t \<in> A" for t using od(2) [OF that, of ?k] pk by (cases "map_of (ovl c t) ?k") auto
  show "stable (A - {u}) c ?c"
  proof (rule stable_cell [OF k(3)])
    show "view ?c t tab rid = view c t tab rid" if "t \<in> A - {u}" for t
      using that none_ov [of t] k(1,2) by (auto simp: view_def f)
  qed (auto simp: f)
  have "cells ?c"
  proof (rule cells_cell [OF inv0D(2) [OF i] k(3), of tab])
    show "cell_ok (c_last c) (c_chains ?c ?k) (c_heap ?c tab rid)" by (simp add: f cell_ok_def)
    show "\<And>x. c_chains ?c ?k = Some x \<Longrightarrow> ch_writer x < c_next c" using r(10) [OF r(7) [OF u]] by (auto simp: f)
  qed (auto simp: f)
  moreover have "reg A ?c" by (rule reg_frame [OF inv0D(1) [OF i]]) (simp_all add: f)
  moreover have "pends A ?c"
    unfolding pends_def
  proof (intro allI impI)
    fix j v assume "c_pend ?c j = Some v"
    then have p: "c_pend c j = Some v" by (simp add: f)
    then have "j \<noteq> ?k" using pk by auto
    then show "v \<in> A \<and> map_of (ovl ?c v) j \<noteq> None \<and> (\<exists>ch. c_chains ?c j = Some ch \<and> (ch_writer ch = INVALID_TXN_ID \<or> ch_writer ch = v))"
      using pd [OF p] by (simp add: f)
  qed
  moreover have "ovs A ?c" using inv0D(4) [OF i] by (simp add: ovs_def f)
  moreover have "recs A ?c"
    unfolding recs_def
  proof (intro ballI)
    fix t w assume t: "t \<in> A" and w: "w \<in> set (wset ?c t)"
    show "rid_ok (w_rid w) \<and> (map_of (ovl ?c t) (wkey w) \<noteq> None \<or> holds ?c t (wkey w))"
    proof (cases "w \<in> set (wset c t)")
      case True
      have "wkey w \<noteq> ?k" using rd(2) [OF t True] none_ov [OF t] k(1) by (auto simp: holds_def)
      then show ?thesis using rd [OF t True] by (auto simp: f(7,9) holds_def)
    next
      case False
      then have "w = ?w" "t = u" using w fw [of t] by (auto split: if_splits)
      then show ?thesis using k(3) by (simp add: holds_def f)
    qed
  qed
  ultimately show "inv0 A ?c" by (simp add: inv0_def)
  show "full A ?c" if "full A c" using that k(4) by (auto simp: full_def f(7,9) split: if_splits)
qed

definition c_begin :: "core \<Rightarrow> core" where
  "c_begin c = c\<lparr>c_next := c_next c + 1, c_rts := insort (c_last c) (c_rts c),
     c_txn := (c_txn c)(c_next c \<mapsto> \<lparr>x_done = False, x_read = c_last c, x_ov = [], x_ws = []\<rparr>)\<rparr>"

lemma core_begin': "tm_begin None s = (u, s') \<Longrightarrow> u = c_next (core_of s) \<and> core_of s' = c_begin (core_of s)"
  using core_begin [of s u s'] by (simp add: c_begin_def)

lemma inv0_begin:
  assumes i: "inv0 A c"
  shows "inv0 (insert (c_next c) A) (c_begin c)" "stable A c (c_begin c)" "full A c \<Longrightarrow> full (insert (c_next c) A) (c_begin c)" "c_next c \<notin> A"
proof -
  let ?u = "c_next c" and ?c = "c_begin c"
  note r = regD [OF inv0D(1) [OF i]] and pd = pendsD [OF inv0D(3) [OF i]] and od = ovsD [OF inv0D(4) [OF i]] and rd = recsD [OF inv0D(5) [OF i]]
  show nu: "?u \<notin> A" using r(7,10) by blast
  have f: "ovl ?c t = (if t = ?u then [] else ovl c t)" "wset ?c t = (if t = ?u then [] else wset c t)" "rts ?c t = (if t = ?u then c_last c else rts c t)"
      "c_chains ?c = c_chains c" "c_pend ?c = c_pend c" "c_heap ?c = c_heap c" "c_last ?c = c_last c" "c_next ?c = ?u + 1" "c_dirty ?c = c_dirty c"
      "c_txn ?c t = None \<longleftrightarrow> t \<noteq> ?u \<and> c_txn c t = None" for t
    by (auto simp: c_begin_def ovl_def wset_def rts_def)
  have ne: "t \<noteq> ?u" if "t \<in> A" for t using that nu by auto
  show "stable A c ?c" unfolding stable_def using ne by (auto simp: f(3) intro!: view_eqI) (auto simp: f)
  have "image_mset (rts ?c) (mset_set A) = image_mset (rts c) (mset_set A)" using ne r(1) by (intro image_mset_cong) (auto simp: f(3))
  moreover have "mset (c_rts ?c) = add_mset (c_last c) (mset (c_rts c))" by (simp add: c_begin_def)
  moreover have "rts ?c ?u = c_last c" by (simp add: f(3))
  ultimately have m: "mset (c_rts ?c) = image_mset (rts ?c) (mset_set (insert ?u A))" using r(1,3) nu by simp
  have srt: "sorted (c_rts ?c)" using r(2) by (simp add: c_begin_def sorted_insort)
  have "0 \<le> t \<and> 0 \<le> rts ?c t \<and> rts ?c t \<le> c_last ?c \<and> c_txn ?c t \<noteq> None" if "t \<in> insert ?u A" for t
    using that r(4-7) [of t] r(8,9) ne [of t] by (auto simp: f)
  moreover have "t < c_next ?c" if "c_txn ?c t \<noteq> None" for t using that r(10) [of t] by (cases "t = ?u") (auto simp: f)
  ultimately have "reg (insert ?u A) ?c" unfolding reg_def using r(1,8,9) m srt by (simp add: f(7,8))
  moreover have "cells ?c"
  proof -
    have "ch_writer ch < ?u + 1" if "c_chains c k = Some ch" for k ch using cellsD(2) [OF inv0D(2) [OF i] that] by simp
    then show ?thesis unfolding cells_def f using cellsD(1,3) [OF inv0D(2) [OF i]] by blast
  qed
  moreover have "pends (insert ?u A) ?c" using inv0D(3) [OF i] ne unfolding pends_def by (auto simp: f)
  moreover have "ovs (insert ?u A) ?c" using inv0D(4) [OF i] ne unfolding ovs_def by (simp add: f)
  moreover have "recs (insert ?u A) ?c" using inv0D(5) [OF i] ne unfolding recs_def by (simp add: f holds_def)
  ultimately show "inv0 (insert ?u A) ?c" by (simp add: inv0_def)
  have "ch_writer ch \<noteq> ?u" if "c_chains c k = Some ch" for k ch using cellsD(2) [OF inv0D(2) [OF i] that] by simp
  then show "full (insert ?u A) ?c" if "full A c" using that ne unfolding full_def by (auto simp: f)
qed

section \<open>Commit\<close>

lemma restore_fold:
  "distinct (map fst xs) \<Longrightarrow> c_chains (foldl (c_restore u) c xs) k =
     (case map_of xs k of None \<Rightarrow> c_chains c k | Some ov \<Rightarrow> Some ((c_chain c k)\<lparr>ch_writer := u, writer_del := ov_deleted ov, writer_data := ov_data ov\<rparr>))"
  "c_pend (foldl (c_restore u) c xs) k = (if map_of xs k = None then c_pend c k else None)"
  "c_next (foldl (c_restore u) c xs) = c_next c" "c_last (foldl (c_restore u) c xs) = c_last c" "c_rts (foldl (c_restore u) c xs) = c_rts c"
  "c_dirty (foldl (c_restore u) c xs) = c_dirty c" "c_heap (foldl (c_restore u) c xs) = c_heap c"
proof -
  have k: "k \<noteq> a \<Longrightarrow> c_chain (c_restore u c (a, v)) k = c_chain c k" for c a v k
    by (simp add: c_restore_def c_chain_def)
  show "distinct (map fst xs) \<Longrightarrow> c_chains (foldl (c_restore u) c xs) k =
     (case map_of xs k of None \<Rightarrow> c_chains c k | Some ov \<Rightarrow> Some ((c_chain c k)\<lparr>ch_writer := u, writer_del := ov_deleted ov, writer_data := ov_data ov\<rparr>))"
  proof (induction xs arbitrary: c)
    case (Cons x xs)
    obtain a v where x: "x = (a, v)" by (cases x)
    have d: "distinct (map fst xs)" "map_of xs a = None" using Cons.prems x by (auto simp: map_of_eq_None_iff)
    show ?case
    proof (cases "k = a")
      case True
      then show ?thesis using Cons.IH [OF d(1), of "c_restore u c x"] d(2) x by (simp add: c_restore_def)
    next
      case False
      then show ?thesis using Cons.IH [OF d(1), of "c_restore u c x"] x k [OF False]
        by (simp split: option.splits) (simp add: c_restore_def)
    qed
  qed simp
  show "c_pend (foldl (c_restore u) c xs) k = (if map_of xs k = None then c_pend c k else None)"
    by (induction xs arbitrary: c) (auto simp: c_restore_def split: prod.splits if_splits)
  show "c_next (foldl (c_restore u) c xs) = c_next c" "c_last (foldl (c_restore u) c xs) = c_last c" "c_rts (foldl (c_restore u) c xs) = c_rts c"
    "c_dirty (foldl (c_restore u) c xs) = c_dirty c" "c_heap (foldl (c_restore u) c xs) = c_heap c"
    by (induction xs arbitrary: c) (auto simp: c_restore_def split: prod.splits)
qed

lemma txn_frame:
  assumes "c_txn c' = c_txn c"
  shows "ovl c' t = ovl c t" "wset c' t = wset c t" "rts c' t = rts c t"
  using assms by (simp_all add: ovl_def wset_def rts_def)

lemma inv0_restore:
  assumes i: "inv0 A c" and u: "u \<in> A" and l: "c_last c \<le> l"
  defines "d \<equiv> c_unregister u ((foldl (c_restore u) c (ovl c u))\<lparr>c_last := l\<rparr>)"
  shows "inv0 (A - {u}) d" "stable (A - {u}) c d" "full (A - {u}) c \<Longrightarrow> full (A - {u}) d" "c_pend d k \<noteq> Some u" "c_txn d = c_txn c" "c_last d = l"
    "w \<in> set (wset c u) \<Longrightarrow> holds d u (wkey w)" "full A c \<Longrightarrow> c_chains d j = Some ch \<Longrightarrow> ch_writer ch = u \<Longrightarrow> writer_del ch \<or> writer_data ch \<noteq> []"
    "mset (c_rts d) = image_mset (rts c) (mset_set (A - {u}))"
proof -
  note r = regD [OF inv0D(1) [OF i]] and pd = pendsD [OF inv0D(3) [OF i]] and od = ovsD [OF inv0D(4) [OF i]] and rd = recsD [OF inv0D(5) [OF i]]
  let ?ov = "map_of (ovl c u)"
  have tx: "c_txn d = c_txn c" by (simp add: d_def c_unregister_def foldl_txn)
  note tf = txn_frame [OF tx]
  have ch: "c_chains d j = (case ?ov j of None \<Rightarrow> c_chains c j
      | Some v \<Rightarrow> Some ((c_chain c j)\<lparr>ch_writer := u, writer_del := ov_deleted v, writer_data := ov_data v\<rparr>))" for j
    using restore_fold(1) [OF od(1) [OF u], of u c j] by (simp add: d_def c_unregister_def)
  have pn: "c_pend d j = (if ?ov j = None then c_pend c j else None)" for j by (simp add: d_def c_unregister_def restore_fold(2))
  have f: "c_next d = c_next c" "c_last d = l" "c_dirty d = c_dirty c" "c_heap d = c_heap c" by (simp_all add: d_def c_unregister_def restore_fold)
  have rt: "c_rts d = remove1 (rts c u) (c_rts c)"
    using txn_frame(3) [of "(foldl (c_restore u) c (ovl c u))\<lparr>c_last := l\<rparr>" c u] by (simp add: d_def c_unregister_def restore_fold foldl_txn)
  have ex: "\<exists>x. c_chains c j = Some x \<and> hist (c_chain c j) = hist x \<and> (ch_writer x = INVALID_TXN_ID \<or> ch_writer x = u)" if "?ov j \<noteq> None" for j
    using pd(3) [OF od(2) [OF u that]] c_chain_Some by fastforce
  have none_ov: "map_of (ovl c t) j = None" if "t \<in> A" "t \<noteq> u" "?ov j \<noteq> None" for t j
    using od(2) [OF that(1), of j] od(2) [OF u that(3)] that(2) by (cases "map_of (ovl c t) j") auto
  show "c_txn d = c_txn c" "c_last d = l" by (rule tx, rule f)
  show pu: "c_pend d k \<noteq> Some u" for k
  proof
    assume "c_pend d k = Some u"
    then have "?ov k = None" "c_pend c k = Some u" by (auto simp: pn split: if_splits)
    then show False using pd(2) by auto
  qed
  have v: "view d t tab rid = view c t tab rid" if t: "t \<in> A - {u}" for t tab rid
  proof (cases "?ov (row_key_of tab rid)")
    case None
    then show ?thesis by (intro view_eqI) (simp_all add: tf ch f)
  next
    case (Some v)
    obtain x where x: "c_chains c (row_key_of tab rid) = Some x" "hist (c_chain c (row_key_of tab rid)) = hist x" "ch_writer x = INVALID_TXN_ID \<or> ch_writer x = u"
      using ex [of "row_key_of tab rid"] Some by auto
    then show ?thesis using t none_ov [of t "row_key_of tab rid"] Some r(11) [of t] by (auto simp: view_def tf ch)
  qed
  show "stable (A - {u}) c d" by (simp add: stable_def tf(3) v)
  have mA: "mset_set A = add_mset u (mset_set (A - {u}))" using r(1) u by (rule mset_set.remove)
  have ms: "mset (c_rts d) = image_mset (rts c) (mset_set (A - {u}))" unfolding rt using r(3) mA by simp
  then show "mset (c_rts d) = image_mset (rts c) (mset_set (A - {u}))" .
  have rc: "rts d = rts c" by (rule ext) (simp add: tf)
  have in_A: "0 \<le> t \<and> 0 \<le> rts c t \<and> rts c t \<le> l \<and> c_txn c t \<noteq> None" if "t \<in> A" for t using r(4-7) [OF that] l by simp
  have "sorted (c_rts d)" unfolding rt by (rule sorted_remove1 [OF r(2)])
  then have "reg (A - {u}) d"
    unfolding reg_def rc f(1,2) tx using r(1,8,9) ms l in_A r(10) by (simp add: order_trans [OF r(8) l])
  moreover have "cells d"
    unfolding cells_def
  proof (intro conjI allI impI)
    fix tab rid assume "rid_ok rid"
    then have "cell_ok (c_last c) (c_chains c (row_key_of tab rid)) (c_heap c tab rid)" by (rule cellsD(1) [OF inv0D(2) [OF i]])
    then show "cell_ok (c_last d) (c_chains d (row_key_of tab rid)) (c_heap d tab rid)"
      using ex [of "row_key_of tab rid"] l by (fastforce simp: ch f cell_ok_def split: option.splits)
  next
    fix j x assume "c_chains d j = Some x"
    then show "ch_writer x < c_next d" using cellsD(2) [OF inv0D(2) [OF i], of j x] r(10) [OF r(7) [OF u]] by (auto simp: ch f split: option.splits)
  next
    assume "\<not> c_dirty d"
    then have "c_chains c = Map.empty" using cellsD(3) [OF inv0D(2) [OF i]] by (simp add: f)
    then show "c_chains d = Map.empty" using ex by (fastforce simp: ch fun_eq_iff split: option.splits)
  qed
  moreover have "pends (A - {u}) d"
    unfolding pends_def
  proof (intro allI impI)
    fix j w assume p: "c_pend d j = Some w"
    then have "?ov j = None" "c_pend c j = Some w" by (auto simp: pn split: if_splits)
    then show "w \<in> A - {u} \<and> map_of (ovl d w) j \<noteq> None \<and> (\<exists>ch. c_chains d j = Some ch \<and> (ch_writer ch = INVALID_TXN_ID \<or> ch_writer ch = w))"
      using pd [of j w] pu [of j] p by (auto simp: tf ch)
  qed
  moreover have "ovs (A - {u}) d"
    unfolding ovs_def
  proof (intro ballI conjI allI impI)
    fix t assume t: "t \<in> A - {u}"
    then show "distinct (map fst (ovl d t))" using od(1) [of t] by (simp add: tf)
    fix j assume "map_of (ovl d t) j \<noteq> None"
    then show "c_pend d j = Some t" using t od(2) [of t j] none_ov [of t j] by (cases "?ov j") (auto simp: tf pn)
  qed
  moreover have "recs (A - {u}) d"
    unfolding recs_def
  proof (intro ballI)
    fix t w assume t: "t \<in> A - {u}" and w: "w \<in> set (wset d t)"
    then have w': "t \<in> A" "w \<in> set (wset c t)" by (simp_all add: tf)
    have "?ov (wkey w) = None" if "holds c t (wkey w)"
      using ex [of "wkey w"] that t r(11) [OF w'(1)] by (cases "?ov (wkey w)") (auto simp: holds_def)
    then show "rid_ok (w_rid w) \<and> (map_of (ovl d t) (wkey w) \<noteq> None \<or> holds d t (wkey w))"
      using recsD [OF inv0D(5) [OF i] w'] by (auto simp: tf holds_def ch)
  qed
  ultimately show "inv0 (A - {u}) d" by (simp add: inv0_def)
  show "full (A - {u}) d" if "full (A - {u}) c"
    using that unfolding full_def by (auto simp: ch tf split: option.splits)
  show "holds d u (wkey w)" if "w \<in> set (wset c u)"
    using recsD(2) [OF inv0D(5) [OF i] u that] by (auto simp: holds_def ch split: option.splits)
  show "writer_del ch' \<or> writer_data ch' \<noteq> []" if "full A c" "c_chains d j = Some ch'" "ch_writer ch' = u" for j ch'
    using fullD [OF that(1) u, of j] that(2,3) by (cases "?ov j") (auto simp: ch)
qed

text \<open>
  A change of the chain of one row that no registered transaction holds and nobody marked as pending, and of the
  row behind it. Push, recycling and undo are of this form.
\<close>

definition snap :: "timestamp_t \<Rightarrow> MvccChain option \<Rightarrow> bytes option \<Rightarrow> bytes option" where
  "snap r co h = (case co of None \<Rightarrow> h | Some ch \<Rightarrow> visible_ver r (hist ch))"

lemma inv0_cell:
  assumes i: "inv0 A c" and rid: "rid_ok rid" and k: "k = row_key_of tab rid"
    and same: "c_txn c' = c_txn c" "c_next c' = c_next c" "c_last c' = c_last c" "c_rts c' = c_rts c" "c_pend c' = c_pend c" "c_dirty c' = c_dirty c"
    and other: "\<And>j. j \<noteq> k \<Longrightarrow> c_chains c' j = c_chains c j" "\<And>tb rd. (tb, rd) \<noteq> (tab, rid) \<Longrightarrow> c_heap c' tb rd = c_heap c tb rd"
    and had: "c_chains c k = Some ch" "ch_writer ch \<notin> A" and pend: "c_pend c k = None"
    and cell: "cell_ok (c_last c) (c_chains c' k) (c_heap c' tab rid)"
    and wr': "\<And>ch'. c_chains c' k = Some ch' \<Longrightarrow> ch_writer ch' = INVALID_TXN_ID"
    and snap: "\<And>t. t \<in> A \<Longrightarrow> snap (rts c t) (c_chains c' k) (c_heap c' tab rid) = visible_ver (rts c t) (hist ch)"
  shows "inv0 A c'" "stable A c c'" "full A c \<Longrightarrow> full A c'"
proof -
  note r = regD [OF inv0D(1) [OF i]] and pd = pendsD [OF inv0D(3) [OF i]] and od = ovsD [OF inv0D(4) [OF i]] and rd = recsD [OF inv0D(5) [OF i]]
  note tf = txn_frame [OF same(1)]
  have none_ov: "map_of (ovl c t) k = None" if "t \<in> A" for t using od(2) [OF that, of k] pend by (cases "map_of (ovl c t) k") auto
  have "view c' t tab rid = view c t tab rid" if t: "t \<in> A" for t
  proof -
    have "view c' t tab rid = snap (rts c t) (c_chains c' k) (c_heap c' tab rid)"
      unfolding view_def snap_def tf k [symmetric] using none_ov [OF t] wr' r(11) [OF t] by (auto split: option.split)
    moreover have "view c t tab rid = visible_ver (rts c t) (hist ch)"
      unfolding view_def k [symmetric] using none_ov [OF t] had t by auto
    ultimately show ?thesis using snap [OF t] by simp
  qed
  then show st: "stable A c c'" using stable_cell [OF rid, of A c' c tab] other tf unfolding k by blast
  have "c_dirty c" using cellsD(3) [OF inv0D(2) [OF i]] had(1) by (cases "c_dirty c") auto
  then have "cells c'"
    using cells_cell [OF inv0D(2) [OF i] rid, of tab c'] other same cell wr' r(9) unfolding k by (fastforce simp: INVALID_TXN_ID_def)
  moreover have "reg A c'" by (rule reg_frame [OF inv0D(1) [OF i]]) (simp_all add: same tf)
  moreover have "pends A c'"
    unfolding pends_def
  proof (intro allI impI)
    fix j v assume "c_pend c' j = Some v"
    then have p: "c_pend c j = Some v" by (simp add: same)
    then have "j \<noteq> k" using pend by auto
    then show "v \<in> A \<and> map_of (ovl c' v) j \<noteq> None \<and> (\<exists>ch. c_chains c' j = Some ch \<and> (ch_writer ch = INVALID_TXN_ID \<or> ch_writer ch = v))"
      using pd [OF p] other(1) [of j] by (simp add: tf)
  qed
  moreover have "ovs A c'" using inv0D(4) [OF i] by (simp add: ovs_def tf same)
  moreover have "recs A c'"
    unfolding recs_def
  proof (intro ballI)
    fix t w assume t: "t \<in> A" and "w \<in> set (wset c' t)"
    then have w: "w \<in> set (wset c t)" by (simp add: tf)
    have "wkey w \<noteq> k" using rd(2) [OF t w] none_ov [OF t] had t by (auto simp: holds_def)
    then show "rid_ok (w_rid w) \<and> (map_of (ovl c' t) (wkey w) \<noteq> None \<or> holds c' t (wkey w))"
      using rd [OF t w] other(1) [of "wkey w"] by (simp add: tf holds_def)
  qed
  ultimately show "inv0 A c'" by (simp add: inv0_def)
  show "full A c'" if fl: "full A c"
    unfolding full_def
  proof (intro ballI conjI allI impI)
    fix t assume t: "t \<in> A"
    show "writer_del x \<or> writer_data x \<noteq> []" if "c_chains c' j = Some x" "ch_writer x = t" for j x
      using fullD(1) [OF fl t, of j x] that other(1) [of j] wr' [of x] r(11) [OF t] by (cases "j = k") auto
    show "ov_deleted v \<or> ov_data v \<noteq> []" if "map_of (ovl c' t) j = Some v" for j v using fullD(2) [OF fl t] that by (simp add: tf)
  qed
qed

lemma pend_free:
  assumes "inv0 A c" "u \<notin> A" "u \<noteq> INVALID_TXN_ID" "c_chains c k = Some ch" "ch_writer ch = u"
  shows "c_pend c k = None"
  using pendsD [OF inv0D(3) [OF assms(1)], of k] assms(2-) by (cases "c_pend c k") auto

text \<open>A transaction that is no longer registered, with commit timestamp and watermark.\<close>

definition ending :: "txn_id_t set \<Rightarrow> txn_id_t \<Rightarrow> timestamp_t \<Rightarrow> timestamp_t \<Rightarrow> core \<Rightarrow> bool" where
  "ending A u cts wm c \<longleftrightarrow> u \<notin> A \<and> u \<noteq> INVALID_TXN_ID \<and> cts = c_last c \<and> (\<forall>t \<in> A. rts c t < cts \<and> wm \<le> rts c t)
     \<and> (\<forall>k ch. c_chains c k = Some ch \<longrightarrow> ch_writer ch = u \<longrightarrow> writer_del ch \<or> writer_data ch \<noteq> [])"

lemma keep_from_last: "vs \<noteq> [] \<Longrightarrow> last (keep_from wm vs) = last vs"
  using keep_from_suffix [of vs wm] keep_from_ne [of vs wm] by (metis last_appendR)

lemma prune_form:
  fixes c k ch cts wm
  defines "d \<equiv> c_prune k wm cts (put_chain k ch c)"
  assumes "hist ch \<noteq> []" "ch_writer ch = INVALID_TXN_ID"
  shows "d = c_erase k (put_chain k ch c) \<and> cts \<le> wm
    \<or> (\<exists>vs. d = put_chain k (ch\<lparr>hist := vs\<rparr>) c \<and> (vs = hist ch \<or> vs = keep_from wm (hist ch) \<or> vs = [last (hist ch)] \<and> cts \<le> wm))"
proof -
  have pp: "put_chain k a (put_chain k b d) = put_chain k a d" for a b d by (simp add: put_chain_def)
  have self: "put_chain k ch c = put_chain k (ch\<lparr>hist := hist ch\<rparr>) c" by simp
  note kf = keep_from_ne [OF assms(2), of wm] keep_from_last [OF assms(2), of wm]
  consider "d = c_erase k (put_chain k ch c)" "cts \<le> wm" | "d = put_chain k ch c" | "d = put_chain k (ch\<lparr>hist := keep_from wm (hist ch)\<rparr>) c"
    | "d = put_chain k (ch\<lparr>hist := [last (hist ch)]\<rparr>) c" "cts \<le> wm"
  proof -
    have "d = (if length (hist ch) \<le> 1 then if 0 < cts \<and> cts \<le> wm then c_erase k (put_chain k ch c) else put_chain k ch c
        else if 0 < cts \<and> cts \<le> wm
        then if length (keep_from wm (hist ch)) = 1 then c_erase k (put_chain k ch c) else put_chain k (ch\<lparr>hist := [last (hist ch)]\<rparr>) c
        else put_chain k (ch\<lparr>hist := keep_from wm (hist ch)\<rparr>) c)"
      using assms(2,3) kf by (simp add: d_def c_prune_def Let_def pp)
    then show thesis using that by presburger
  qed
  then show ?thesis using self by cases blast+
qed

lemma erase_simps [simp]:
  "c_chains (c_erase k c) j = (if j = k then None else c_chains c j)" "c_next (c_erase k c) = c_next c" "c_last (c_erase k c) = c_last c"
  "c_rts (c_erase k c) = c_rts c" "c_pend (c_erase k c) = c_pend c" "c_dirty (c_erase k c) = c_dirty c" "c_heap (c_erase k c) = c_heap c"
  "c_txn (c_erase k c) = c_txn c"
  by (simp_all add: c_erase_def)

lemma last_cell: "cell_ok lc (Some ch) h \<Longrightarrow> hist ch \<noteq> [] \<Longrightarrow> cell_ok lc (Some (ch\<lparr>hist := [last (hist ch)]\<rparr>)) h"
  by (auto simp: cell_ok_def)

lemma push_cell:
  assumes "cell_ok lc (Some ch) h"
  shows "cell_ok lc (Some (ch\<lparr>hist := hist ch @ [new_ver u lc ch], ch_writer := w, writer_data := d, hold_writer_to_commit := b\<rparr>))
    (if writer_del ch then None else Some (writer_data ch))"
  using assms by (auto simp: cell_ok_def new_ver_def sorted_append)

lemma inv0_push:
  assumes i: "inv0 A c" and e: "ending A u cts wm c" and w: "rid_ok (w_rid w)"
  defines "d \<equiv> c_push u cts wm c w"
  shows "inv0 A d" "stable A c d" "full A c \<Longrightarrow> full A d" "ending A u cts wm d" "c_pend d = c_pend c"
proof -
  let ?k = "wkey w"
  note en = e [unfolded ending_def]
  have "inv0 A d \<and> stable A c d \<and> (full A c \<longrightarrow> full A d) \<and> ending A u cts wm d \<and> c_pend d = c_pend c"
  proof (cases "\<exists>ch. c_chains c ?k = Some ch \<and> ch_writer ch = u")
    case False
    then have "d = c" by (auto simp: d_def c_push_def split: option.splits)
    then show ?thesis using i e stable_refl by simp
  next
    case True
    then obtain ch where ch: "c_chains c ?k = Some ch" "ch_writer ch = u" by blast
    let ?ch = "ch\<lparr>hist := hist ch @ [new_ver u cts ch], ch_writer := INVALID_TXN_ID, writer_data := [], hold_writer_to_commit := False\<rparr>"
    let ?h = "if writer_del ch then None else Some (writer_data ch)"
    let ?c1 = "c\<lparr>c_heap := (c_heap c)(w_tab w := (c_heap c (w_tab w))(w_rid w := ?h))\<rparr>"
    have fl: "writer_del ch \<or> writer_data ch \<noteq> []" using en ch by blast
    have d: "d = c_prune ?k wm cts (put_chain ?k ?ch ?c1)" using ch fl by (auto simp: d_def c_push_def)
    have v: "visible_ver (rts c t) (hist ch @ [new_ver u cts ch]) = visible_ver (rts c t) (hist ch)" if "t \<in> A" for t
      using en that by (intro visible_ver_append) (auto simp: new_ver_def)
    have ck: "cell_ok cts (Some ?ch) ?h"
      using push_cell [of cts ch "c_heap c (w_tab w) (w_rid w)"] cellsD(1) [OF inv0D(2) [OF i] w, of "w_tab w"] ch en by simp
    have pn: "c_pend c ?k = None" using pend_free [OF i] en ch by blast
    have ne: "hist ?ch \<noteq> []" "ch_writer ?ch = INVALID_TXN_ID" by simp_all
    have A0: "A = {}" if "cts \<le> wm" using en that by (fastforce simp: ending_def)
    have same: "c_txn d = c_txn c" "c_next d = c_next c" "c_last d = c_last c" "c_rts d = c_rts c" "c_pend d = c_pend c" "c_dirty d = c_dirty c"
        "j \<noteq> ?k \<Longrightarrow> c_chains d j = c_chains c j" "c_heap d = c_heap ?c1" for j
      using prune_form [OF ne, of ?k wm cts ?c1] unfolding d by (auto simp: put_chain_def)
    have cell: "cell_ok cts (c_chains d ?k) ?h" and free: "c_chains d ?k = Some x \<Longrightarrow> ch_writer x = INVALID_TXN_ID" for x
      using prune_form [OF ne, of ?k wm cts ?c1] ck keep_from_cell [OF ck, of wm] last_cell [OF ck] unfolding d by (auto simp: cell_ok_def)
    have sn: "snap (rts c t) (c_chains d ?k) ?h = visible_ver (rts c t) (hist ch)" if t: "t \<in> A" for t
      using prune_form [OF ne, of ?k wm cts ?c1] v [OF t] A0 t visible_keep_from [of wm "rts c t" "hist ?ch"] en unfolding d by (auto simp: snap_def)
    have wA: "ch_writer ch \<notin> A" using ch en by simp
    have hp: "c_heap d (w_tab w) (w_rid w) = ?h" by (simp add: same)
    note cell' = inv0_cell [OF i w refl same(1-6) _ _ ch(1) wA pn]
    have hp2: "(tb, rd) \<noteq> (w_tab w, w_rid w) \<Longrightarrow> c_heap d tb rd = c_heap c tb rd" for tb rd by (auto simp: same)
    have cl: "cell_ok (c_last c) (c_chains d ?k) (c_heap d (w_tab w) (w_rid w))" using cell en hp by simp
    have sn': "snap (rts c t) (c_chains d ?k) (c_heap d (w_tab w) (w_rid w)) = visible_ver (rts c t) (hist ch)" if "t \<in> A" for t
      using sn [OF that] hp by simp
    have "writer_del x \<or> writer_data x \<noteq> []" if x: "c_chains d j = Some x" "ch_writer x = u" for j x
    proof (cases "j = ?k")
      case True
      then show ?thesis using x free [of x] en by simp
    next
      case False
      then have "c_chains c j = Some x" using x same(7) by simp
      then show ?thesis using x(2) en by blast
    qed
    then have "ending A u cts wm d" unfolding ending_def txn_frame(3) [OF same(1)] same(3) using en by blast
    then show ?thesis using cell' [OF same(7) hp2 cl free sn'] same(5) by blast
  qed
  then show "inv0 A d" "stable A c d" "full A c \<Longrightarrow> full A d" "ending A u cts wm d" "c_pend d = c_pend c" by simp_all
qed

lemma inv0_push_all:
  assumes "inv0 A c" "full A c" "ending A u cts wm c" "\<forall>w \<in> set ws. rid_ok (w_rid w)"
  defines "d \<equiv> foldl (c_push u cts wm) c ws"
  shows "inv0 A d \<and> full A d \<and> stable A c d"
  using assms(1-4) unfolding d_def
proof (induction ws arbitrary: c)
  case (Cons w ws)
  note p = inv0_push [OF Cons.prems(1,3), of w]
  have "inv0 A (foldl (c_push u cts wm) (c_push u cts wm c w) ws) \<and> full A (foldl (c_push u cts wm) (c_push u cts wm c w) ws)
      \<and> stable A (c_push u cts wm c w) (foldl (c_push u cts wm) (c_push u cts wm c w) ws)"
    using Cons.prems p by (intro Cons.IH) simp_all
  then show ?case using p(2) Cons.prems(4) stable_trans by fastforce
qed (simp add: stable_refl)

lemma inv0_recycle:
  assumes i: "inv0 A c" and w: "rid_ok (w_rid w)" and wm: "\<forall>t \<in> A. wm \<le> rts c t"
  defines "d \<equiv> c_recycle wm c w"
  shows "inv0 A d" "stable A c d" "full A c \<Longrightarrow> full A d"
proof -
  let ?k = "wkey w"
  have "inv0 A d \<and> stable A c d \<and> (full A c \<longrightarrow> full A d)"
  proof (cases "d = c")
    case True
    then show ?thesis using i stable_refl by simp
  next
    case False
    then obtain ch where ch: "c_chains c ?k = Some ch" "ch_writer ch = INVALID_TXN_ID" "length (hist ch) = 1" "\<not> ver_deleted (hd (hist ch))"
        "ver_cts (hd (hist ch)) \<le> wm" "c_pend c ?k = None" "d = c_erase ?k c"
      by (auto simp: d_def c_recycle_def split: option.splits if_splits)
    obtain v where v: "hist ch = [v]" using ch(3) by (auto simp: length_Suc_conv)
    have "cell_ok (c_last c) (Some ch) (c_heap c (w_tab w) (w_rid w))" using cellsD(1) [OF inv0D(2) [OF i] w, of "w_tab w"] ch(1) by simp
    then have hp: "c_heap c (w_tab w) (w_rid w) = Some (ver_data v)" using v ch(4) by (simp add: cell_ok_def)
    have wA: "ch_writer ch \<notin> A" using ch(2) regD(11) [OF inv0D(1) [OF i]] by auto
    have sn: "snap (rts c t) (c_chains d ?k) (c_heap d (w_tab w) (w_rid w)) = visible_ver (rts c t) (hist ch)" if "t \<in> A" for t
      using wm that ch(4,5,7) v hp by (force simp: snap_def visible_ver_def)
    show ?thesis using inv0_cell [OF i w refl _ _ _ _ _ _ _ _ ch(1) wA ch(6), of d] ch(7) sn by (simp add: cell_ok_def)
  qed
  then show "inv0 A d" "stable A c d" "full A c \<Longrightarrow> full A d" by simp_all
qed

lemma inv0_recycle_all:
  assumes "inv0 A c" "full A c" "\<forall>w \<in> set ws. rid_ok (w_rid w)" "\<forall>t \<in> A. wm \<le> rts c t"
  shows "inv0 A (foldl (c_recycle wm) c ws) \<and> full A (foldl (c_recycle wm) c ws) \<and> stable A c (foldl (c_recycle wm) c ws)"
  using assms
proof (induction ws arbitrary: c)
  case (Cons w ws)
  note p = inv0_recycle [OF Cons.prems(1), of w wm]
  have "rts (c_recycle wm c w) t = rts c t" for t by (rule txn_frame(3)) simp
  then have "inv0 A (foldl (c_recycle wm) (c_recycle wm c w) ws) \<and> full A (foldl (c_recycle wm) (c_recycle wm c w) ws)
      \<and> stable A (c_recycle wm c w) (foldl (c_recycle wm) (c_recycle wm c w) ws)"
    using Cons.prems p by (intro Cons.IH) simp_all
  then show ?case using p(2) Cons.prems(3,4) stable_trans by fastforce
qed (simp add: stable_refl)

lemma inv0_undo:
  assumes i: "inv0 A c" and u: "u \<notin> A" "u \<noteq> INVALID_TXN_ID" and w: "rid_ok (w_rid w)"
  defines "d \<equiv> c_undo u c w"
  shows "inv0 A d \<and> stable A c d \<and> (full A c \<longrightarrow> full A d)"
proof (cases "\<exists>ch. c_chains c (wkey w) = Some ch \<and> ch_writer ch = u")
  case False
  then have "d = c" by (auto simp: d_def c_undo_def split: option.splits)
  then show ?thesis using i stable_refl by simp
next
  case True
  then obtain ch where ch: "c_chains c (wkey w) = Some ch" "ch_writer ch = u" by blast
  let ?ch = "ch\<lparr>ch_writer := INVALID_TXN_ID, writer_data := [], writer_del := False, hold_writer_to_commit := False\<rparr>"
  have co: "cell_ok (c_last c) (Some ch) (c_heap c (w_tab w) (w_rid w))" using cellsD(1) [OF inv0D(2) [OF i] w, of "w_tab w"] ch(1) by simp
  have "(c_heap c)(w_tab w := (c_heap c (w_tab w))(w_rid w \<mapsto> ver_data (last (hist ch)))) = c_heap c"
    if "hist ch \<noteq> []" "\<not> ver_deleted (last (hist ch))"
    using co that by (auto simp: cell_ok_def fun_eq_iff)
  then have d: "d = put_chain (wkey w) ?ch c" using ch by (auto simp: d_def c_undo_def Let_def put_chain_def)
  have wA: "ch_writer ch \<notin> A" using ch u by simp
  show ?thesis
    using inv0_cell [OF i w refl _ _ _ _ _ _ _ _ ch(1) wA pend_free [OF i u ch], of d] co
    by (simp add: d cell_ok_def snap_def)
qed

lemma inv0_undo_all:
  assumes "inv0 A c" "full A c" "u \<notin> A" "u \<noteq> INVALID_TXN_ID" "\<forall>w \<in> set ws. rid_ok (w_rid w)"
  shows "inv0 A (foldl (c_undo u) c ws) \<and> full A (foldl (c_undo u) c ws) \<and> stable A c (foldl (c_undo u) c ws)"
  using assms
proof (induction ws arbitrary: c)
  case (Cons w ws)
  have p: "inv0 A (c_undo u c w)" "stable A c (c_undo u c w)" "full A (c_undo u c w)" using inv0_undo [OF Cons.prems(1,3,4), of w] Cons.prems by simp_all
  then show ?case using Cons.IH [OF p(1,3)] Cons.prems stable_trans by fastforce
qed (simp add: stable_refl)

lemma inv0_end:
  assumes i: "inv0 A c" and u: "u \<notin> A"
  shows "inv0 A (c_end u c)" "stable A c (c_end u c)" "full A c \<Longrightarrow> full A (c_end u c)"
proof -
  have ne: "t \<noteq> u" if "t \<in> A" for t using that u by auto
  note s = upd_x_simps [of u "\<lambda>x. x\<lparr>x_ws := [], x_ov := [], x_done := True\<rparr>" c] and o = upd_x_other [of _ u "\<lambda>x. x\<lparr>x_ws := [], x_ov := [], x_done := True\<rparr>" c]
  note r = regD [OF inv0D(1) [OF i]] and pd = pendsD [OF inv0D(3) [OF i]]
  show "stable A c (c_end u c)" unfolding stable_def c_end_def using ne by (auto simp: o intro!: view_eqI)
  have "rts (c_end u c) t = rts c t" for t by (auto simp: c_end_def rts_def upd_x_def split: option.splits)
  then have "reg A (c_end u c)" by (intro reg_frame [OF inv0D(1) [OF i]]) (simp_all add: c_end_def)
  moreover have "cells (c_end u c)" using inv0D(2) [OF i] unfolding cells_def by (simp add: c_end_def)
  moreover have "pends A (c_end u c)" unfolding pends_def c_end_def s using pd ne by (metis o(1))
  moreover have "ovs A (c_end u c)" using inv0D(4) [OF i] ne unfolding ovs_def c_end_def by (simp add: o)
  moreover have "recs A (c_end u c)" using inv0D(5) [OF i] ne unfolding recs_def c_end_def holds_def by (simp add: o)
  ultimately show "inv0 A (c_end u c)" by (simp add: inv0_def)
  show "full A (c_end u c)" if "full A c" using that ne unfolding full_def c_end_def by (simp add: o)
qed

section \<open>Commit and rollback as a whole\<close>

lemma pend_steps [simp]:
  "c_pend (c_push u cts wm c w) = c_pend c" "c_pend (c_recycle wm c w) = c_pend c" "c_pend (c_undo u c w) = c_pend c"
  by (auto simp: c_push_def c_prune_def c_recycle_def c_undo_def Let_def split: option.splits)

lemma foldl_pend: "(\<And>c x. c_pend (f c x) = c_pend c) \<Longrightarrow> c_pend (foldl f c xs) = c_pend c"
  by (induction xs arbitrary: c) simp_all

lemma watermark_le:
  assumes "sorted xs" "mset xs = image_mset f (mset_set A)" "finite A" "t \<in> A"
  shows "(case xs of [] \<Rightarrow> cts | w # _ \<Rightarrow> w) \<le> f t"
proof -
  have "f t \<in> set xs" using assms by (metis finite_set_mset_mset_set image_eqI set_image_mset set_mset_mset)
  then show ?thesis using assms(1) by (cases xs) auto
qed

lemma end_txn: "c_txn a = c_txn b \<Longrightarrow> c_txn (c_end u a) = c_txn (c_end u b)"
  by (simp add: c_end_def upd_x_def)

lemma inv0_commit:
  assumes i: "inv0 A (core_of s)" and fl: "full A (core_of s)" and u: "u \<in> A"
    and x: "c_txn (core_of s) u = Some x" "\<not> x_done x" and t: "tm_commit u l s = (None, s')"
  shows "inv0 (A - {u}) (core_of s') \<and> full (A - {u}) (core_of s') \<and> stable (A - {u}) (core_of s) (core_of s')
    \<and> c_txn (core_of s') = c_txn (c_end u (core_of s))"
proof -
  let ?c = "core_of s" and ?A = "A - {u}"
  obtain cts wm s1 where p: "commit_prepare u s = (cts, wm, s1)" by (cases "commit_prepare u s")
  obtain tr where tr: "txn_map s u = Some tr" "ctxn_of tr = x" using x by auto
  have tr': "txn_of s u = tr" "write_set tr = x_ws x" "wset ?c u = x_ws x" using tr by (auto simp: txn_of_def ctxn_of_def wset_def)
  note cp = core_prepare [OF tr(1) p]
  let ?l = "if commit_stamp s u then cts else c_last ?c"
  have l: "c_last ?c \<le> ?l" using cp(1) by simp
  define d where "d = core_of s1"
  have d: "d = c_unregister u ((foldl (c_restore u) ?c (ovl ?c u))\<lparr>c_last := ?l\<rparr>)" by (simp add: d_def cp(2))
  note rs = inv0_restore [OF i u l, folded d]
  have fA: "full ?A ?c" by (rule full_mono [OF fl]) simp
  have ru: "rid_ok (w_rid w)" if "w \<in> set (x_ws x)" for w using recsD(1) [OF inv0D(5) [OF i] u] that tr' by simp
  have un: "u \<noteq> INVALID_TXN_ID" by (rule regD(11) [OF inv0D(1) [OF i] u])
  have rr: "rts d t = rts ?c t" for t by (rule txn_frame(3) [OF rs(5)])
  define c2 where "c2 = foldl (c_push u cts wm) d (x_ws x)"
  define c3 where "c3 = foldl (c_recycle wm) c2 (x_ws x)"
  have wm: "wm \<le> rts d t" if "t \<in> ?A" for t
    using watermark_le [OF regD(2) [OF inv0D(1) [OF rs(1)]] _ _ that] rs(9) regD(1) [OF inv0D(1) [OF rs(1)]] rr cp(3) by (simp add: d_def)
  have c2: "inv0 ?A c2 \<and> full ?A c2 \<and> stable ?A d c2"
  proof (cases "x_ws x = []")
    case True
    then show ?thesis using rs(1) rs(3) [OF fA] stable_refl by (simp add: c2_def)
  next
    case False
    then have st: "commit_stamp s u" by (simp add: commit_stamp_def tr')
    have "rts d t < cts" if "t \<in> ?A" for t using regD(6) [OF inv0D(1) [OF i], of t] that cp(1) st by (simp add: rr)
    moreover have "writer_del ch \<or> writer_data ch \<noteq> []" if "c_chains d j = Some ch" "ch_writer ch = u" for j ch by (rule rs(8) [OF fl that])
    ultimately have "ending ?A u cts wm d" unfolding ending_def using un wm rs(6) st by simp
    then show ?thesis unfolding c2_def using inv0_push_all [OF rs(1) rs(3) [OF fA]] ru by blast
  qed
  have "rts c2 t = rts d t" for t unfolding c2_def by (rule txn_frame(3)) (simp add: foldl_txn)
  then have c3: "inv0 ?A c3 \<and> full ?A c3 \<and> stable ?A c2 c3"
    unfolding c3_def using c2 ru wm by (intro inv0_recycle_all) simp_all
  have "c_pend c3 = c_pend d" by (simp add: c3_def c2_def foldl_pend)
  then have n: "\<forall>k. c_pend c3 k \<noteq> Some u" using rs(4) by simp
  have s': "core_of s' = c_end u (c3\<lparr>c_dirty := c_dirty c3 \<or> x_ws x \<noteq> []\<rparr>)"
    using core_commit [OF x t p] n by (simp add: c3_def c2_def d_def)
  define c4 where "c4 = c3\<lparr>c_dirty := c_dirty c3 \<or> x_ws x \<noteq> []\<rparr>"
  have c4: "inv0 ?A c4" "stable ?A c3 c4" "full ?A c4"
  proof -
    have "c4 = c3 \<or> c4 = c3\<lparr>c_dirty := True\<rparr>" by (cases "c_dirty c3 \<or> x_ws x \<noteq> []") (simp_all add: c4_def)
    then have "inv0 ?A c4 \<and> stable ?A c3 c4 \<and> full ?A c4" using inv0_mark [of ?A c3] c3 stable_refl by metis
    then show "inv0 ?A c4" "stable ?A c3 c4" "full ?A c4" by simp_all
  qed
  have uA: "u \<notin> ?A" by simp
  have "stable ?A ?c (c_end u c4)"
    using rs(2) c2 c3 c4(2) inv0_end(2) [OF c4(1) uA] stable_trans by metis
  moreover have "c_txn (c_end u c4) = c_txn (c_end u ?c)" by (rule end_txn) (simp add: c4_def c3_def c2_def foldl_txn rs(5) del: core_of_simps)
  ultimately show ?thesis unfolding s' c4_def [symmetric] using inv0_end [OF c4(1) uA] c4(3) by blast
qed

lemma unregister_undo: "c_unregister u (foldl (c_undo u) c ws) = foldl (c_undo u) (c_unregister u c) ws"
proof -
  have 1: "c_undo u (c\<lparr>c_rts := r\<rparr>) w = (c_undo u c w)\<lparr>c_rts := r\<rparr>" for c r w
    by (auto simp: c_undo_def put_chain_def Let_def split: option.splits)
  have 2: "foldl (c_undo u) (c\<lparr>c_rts := r\<rparr>) ws = (foldl (c_undo u) c ws)\<lparr>c_rts := r\<rparr>" for c r by (induction ws arbitrary: c) (simp_all add: 1)
  have 3: "c_rts (c_undo u c w) = c_rts c" for c w by (auto simp: c_undo_def put_chain_def Let_def split: option.splits)
  have 4: "c_rts (foldl (c_undo u) c ws) = c_rts c" by (induction ws arbitrary: c) (simp_all add: 3)
  have 5: "rts (foldl (c_undo u) c ws) u = rts c u" by (rule txn_frame(3)) (simp add: foldl_txn)
  show ?thesis by (simp add: c_unregister_def 2 4 5)
qed

lemma inv0_abort:
  assumes i: "inv0 A (core_of s)" and fl: "full (A - {u}) (core_of s)" and u: "u \<in> A" and x: "c_txn (core_of s) u = Some x" "\<not> x_done x"
  shows "inv0 (A - {u}) (core_of (tm_abort u l s)) \<and> full (A - {u}) (core_of (tm_abort u l s)) \<and> stable (A - {u}) (core_of s) (core_of (tm_abort u l s))
    \<and> c_txn (core_of (tm_abort u l s)) = c_txn (c_end u (core_of s))"
proof -
  let ?c = "core_of s" and ?A = "A - {u}"
  have ov: "ovl ?c u = x_ov x" "wset ?c u = x_ws x" using x by (auto simp: ovl_def wset_def)
  define c1 where "c1 = foldl (c_restore u) ?c (x_ov x)"
  define d where "d = c_unregister u c1"
  have "c1\<lparr>c_last := c_last ?c\<rparr> = c1" by (simp add: c1_def restore_fold(4) [of u "core_of s" "x_ov x", symmetric] del: core_of_simps)
  then have d: "d = c_unregister u ((foldl (c_restore u) ?c (ovl ?c u))\<lparr>c_last := c_last ?c\<rparr>)" by (simp add: d_def c1_def ov)
  note rs = inv0_restore [OF i u order_refl, folded d]
  have ru: "\<forall>w \<in> set (rev (x_ws x)). rid_ok (w_rid w)" using recsD(1) [OF inv0D(5) [OF i] u] ov(2) by simp
  have un: "u \<notin> ?A" "u \<noteq> INVALID_TXN_ID" using regD(11) [OF inv0D(1) [OF i] u] by auto
  have w: "\<forall>w \<in> set (x_ws x). \<exists>ch. c_chains c1 (wkey w) = Some ch \<and> ch_writer ch = u"
    using rs(7) unfolding ov(2) holds_def by (simp add: d_def c_unregister_def)
  define c2 where "c2 = foldl (c_undo u) c1 (rev (x_ws x))"
  have n: "\<forall>k. c_pend c2 k \<noteq> Some u" using rs(4) by (simp add: c2_def foldl_pend d_def c_unregister_def)
  have e: "core_of (tm_abort u l s) = c_end u (foldl (c_undo u) d (rev (x_ws x)))"
    using core_abort [OF x, folded c1_def, OF w, folded c2_def, OF n] by (simp add: d_def c2_def unregister_undo)
  define c4 where "c4 = foldl (c_undo u) d (rev (x_ws x))"
  have st: "inv0 ?A c4" "full ?A c4" "stable ?A d c4" unfolding c4_def using inv0_undo_all [OF rs(1) rs(3) [OF fl] un ru] by simp_all
  have "stable ?A ?c (c_end u c4)" by (rule stable_trans [OF rs(2) stable_trans [OF st(3) inv0_end(2) [OF st(1) un(1)]]])
  moreover have "c_txn (c_end u c4) = c_txn (c_end u ?c)" by (rule end_txn) (simp add: c4_def foldl_txn rs(5) del: core_of_simps)
  ultimately show ?thesis unfolding e c4_def [symmetric] using inv0_end(1,3) [OF st(1) un(1)] st(2) by blast
qed

end
