(* ===== verification/Snapshot_Isolation.thy ===== *)
theory Snapshot_Isolation
  imports Mvcc_Snapshot
begin

text \<open>
  Runs of versioned transactions and what they see. A step is one operation of theory \<^verbatim>\<open>Mvcc\<close>, by the transaction
  it names, with what the executors guarantee when they call it: the row of an update or a deletion is one the transaction
  reads, an insertion has a fresh slot and publishes its row, a write that is refused is followed by the rollback
  that the executors' exception causes. Writes that bypass the version chains (\<open>uses_si_fast_path\<close>) are not steps.
\<close>

definition running :: "tm \<Rightarrow> txn_id_t set" where
  "running s = {t. \<exists>tr. txn_map s t = Some tr \<and> t_state tr \<noteq> COMMITTED \<and> t_state tr \<noteq> ABORTED}"

definition reads_row :: "tm \<Rightarrow> txn_id_t \<Rightarrow> string \<Rightarrow> Rid \<Rightarrow> bytes \<Rightarrow> bool" where
  "reads_row s u tab rid old \<longleftrightarrow> rid_ok rid \<and>
     (\<exists>h v. heap_at s tab rid = Some h \<and> mvcc_read u tab rid h s = Some v \<and> (old = h \<or> old = v))"

inductive write_step :: "txn_id_t \<Rightarrow> tm \<Rightarrow> write_result \<Rightarrow> tm \<Rightarrow> bool" where
  full_row: "reads_row s u tab rid old \<Longrightarrow> old \<noteq> [] \<Longrightarrow> del \<or> (\<exists>d. new = Some d \<and> length d = length old)
    \<Longrightarrow> mvcc_write u tab rid old new (length old) del s = (r, s') \<Longrightarrow> write_step u s r s'"
| col_delta: "reads_row s u tab rid vis
    \<Longrightarrow> mvcc_write_col_delta u tab rid vis (length vis) off type df di s = (r, s') \<Longrightarrow> write_step u s r s'"
| col_patch: "reads_row s u tab rid vis \<Longrightarrow> vis \<noteq> []
    \<Longrightarrow> mvcc_write_col_patch u tab rid vis (length vis) patches s = (r, s') \<Longrightarrow> write_step u s r s'"

inductive tm_step :: "txn_id_t \<Rightarrow> tm \<Rightarrow> tm \<Rightarrow> bool" where
  start: "tm_begin None s = (u, s') \<Longrightarrow> tm_step u s s'"
| explicit: "u \<in> running s \<Longrightarrow> tm_step u s (set_explicit u s)"
| insertion: "u \<in> running s \<Longrightarrow> chains s (row_key_of tab rid) = None \<Longrightarrow> fhs s tab \<noteq> None \<Longrightarrow> heap_at s tab rid = None \<Longrightarrow> rid_ok rid
    \<Longrightarrow> data \<noteq> [] \<Longrightarrow> tm_step u s (set_heap tab rid (Some data) (mvcc_insert u tab rid data s))"
| stored: "u \<in> running s \<Longrightarrow> write_step u s (Stored y) s' \<Longrightarrow> tm_step u s s'"
| refused: "u \<in> running s \<Longrightarrow> write_step u s Refused s' \<Longrightarrow> tm_step u s (tm_abort u logged s')"
| statement_end: "u \<in> running s \<Longrightarrow> tm_step u s (release_statement_writes u s)"
| ser_read: "tm_step u s (ser_record_read u tab rid s)"
| ser_pred: "tm_step u s (ser_record_pred u tab conds s)"
| ser_check_read: "tm_step u s (snd (ser_read_check u tab rid s))"
| ser_check_pred: "tm_step u s (snd (ser_read_pred_check u tab conds s))"
| ser_check_write: "tm_step u s (snd (ser_write_check u tab rid data s))"
| committed: "u \<in> running s \<Longrightarrow> tm_commit u logged s = (None, s') \<Longrightarrow> tm_step u s s'"
| aborted: "u \<in> running s \<Longrightarrow> tm_step u s (tm_abort u logged s)"
| freed: "tm_step u s (reap u s)"

inductive tm_reach :: "tm \<Rightarrow> bool" where
  init: "tm_reach (tm_new db heap ix)"
| step: "tm_reach s \<Longrightarrow> tm_step u s s' \<Longrightarrow> tm_reach s'"

inductive others_run :: "txn_id_t \<Rightarrow> tm \<Rightarrow> tm \<Rightarrow> bool" for t where
  here: "others_run t s s"
| more: "others_run t s s' \<Longrightarrow> tm_step u s' s'' \<Longrightarrow> u \<noteq> t \<Longrightarrow> others_run t s s''"

section \<open>The invariant of a run\<close>

definition si_inv :: "tm \<Rightarrow> bool" where
  "si_inv s \<longleftrightarrow> inv0 (running s) (core_of s) \<and> full (running s) (core_of s)"

definition c_running :: "core \<Rightarrow> txn_id_t set" where
  "c_running c = {t. \<exists>x. c_txn c t = Some x \<and> \<not> x_done x}"

lemma running_core: "running s = c_running (core_of s)"
  by (auto simp: running_def c_running_def ctxn_of_def)

lemma c_runningI: "c_txn c t = Some x \<Longrightarrow> \<not> x_done x \<Longrightarrow> t \<in> c_running c"
  by (auto simp: c_running_def)

lemma running_done_frame:
  assumes "\<And>t. map_option x_done (c_txn c' t) = map_option x_done (c_txn c t)"
  shows "c_running c' = c_running c"
proof -
  have "(\<exists>x. c_txn c' t = Some x \<and> \<not> x_done x) \<longleftrightarrow> (\<exists>x. c_txn c t = Some x \<and> \<not> x_done x)" for t
    using assms [of t] by (cases "c_txn c t"; cases "c_txn c' t") auto
  then show ?thesis by (simp add: c_running_def)
qed

lemma running_upd_x: "(\<And>x. x_done (g x) = x_done x) \<Longrightarrow> c_running (upd_x u g c) = c_running c"
  by (rule running_done_frame) (simp add: upd_x_def option.map_comp o_def)

lemma running_frames [simp]:
  "c_running (c\<lparr>c_dirty := b\<rparr>) = c_running c" "c_running (c\<lparr>c_pend := p\<rparr>) = c_running c" "c_running (c\<lparr>c_heap := h\<rparr>) = c_running c"
  "c_running (put_chain k ch c) = c_running c" "c_running (c\<lparr>c_last := l\<rparr>) = c_running c" "c_running (c\<lparr>c_rts := r\<rparr>) = c_running c"
  by (simp_all add: c_running_def put_chain_def)

lemma running_end: "c_running (c_end u c) = c_running c - {u}"
  by (auto simp: c_running_def c_end_def upd_x_def split: if_splits)

lemma running_txn: "c_txn c' = c_txn c \<Longrightarrow> c_running c' = c_running c"
  by (simp add: c_running_def)

section \<open>What \<open>mvcc_read\<close> returns\<close>

lemma read_view:
  assumes i: "inv0 A (core_of s)" and t: "t \<in> A" and h: "heap_at s tab rid = Some h"
  shows "mvcc_read t tab rid h s = view (core_of s) t tab rid"
proof -
  let ?k = "row_key_of tab rid" and ?c = "core_of s"
  have "c_txn ?c t \<noteq> None" by (rule regD(7) [OF inv0D(1) [OF i] t])
  then obtain x where x: "c_txn ?c t = Some x" by blast
  have ov: "get_si_overlay ?k (txn_of s t) = map_of (ovl ?c t) ?k" "read_ts (txn_of s t) = rts ?c t"
    using core_txn_fields [OF refl x] x by (simp_all add: ovl_def rts_def del: core_of_simps)
  have fast: "visible_ver r vs = (if ver_deleted (last vs) then None else Some (ver_data (last vs)))" if "vs \<noteq> []" "ver_cts (last vs) \<le> r" for r vs
    using visible_ver_snoc [of "last vs" r "butlast vs"] that by simp
  show ?thesis
  proof (cases "any_mvcc_dirty s")
    case False
    then have n: "chains s = Map.empty" using cellsD(3) [OF inv0D(2) [OF i]] by simp
    have "map_of (ovl ?c t) ?k = None"
      using ovsD(2) [OF inv0D(4) [OF i] t, of ?k] pendsD(3) [OF inv0D(3) [OF i], of ?k t] n by (cases "map_of (ovl ?c t) ?k") auto
    then show ?thesis using False n h by (simp add: mvcc_read_def view_def Let_def)
  next
    case True
    then show ?thesis using h fast by (auto simp: mvcc_read_def view_def Let_def ov split: option.splits)
  qed
qed

lemma reads_seen:
  assumes "inv0 A (core_of s)" "u \<in> A" "reads_row s u tab rid old"
  shows "seen (core_of s) u tab rid old"
proof -
  obtain h v where h: "rid_ok rid" "heap_at s tab rid = Some h" "mvcc_read u tab rid h s = Some v" "old = h \<or> old = v"
    using assms(3) by (auto simp: reads_row_def)
  have v: "view (core_of s) u tab rid = Some v" using read_view [OF assms(1,2) h(2)] h(3) by simp
  have "v = h" if n: "chains s (row_key_of tab rid) = None"
  proof -
    have "map_of (ovl (core_of s) u) (row_key_of tab rid) = None"
      using ovsD(2) [OF inv0D(4) [OF assms(1)] assms(2)] pendsD(3) [OF inv0D(3) [OF assms(1)]] n
      by (cases "map_of (ovl (core_of s) u) (row_key_of tab rid)") fastforce+
    then show ?thesis using v n h(2) by (simp add: view_def)
  qed
  then show ?thesis using h v by (auto simp: seen_def)
qed

section \<open>Every step keeps the invariant and the views of the other transactions\<close>

definition safe_step :: "txn_id_t \<Rightarrow> tm \<Rightarrow> tm \<Rightarrow> bool" where
  "safe_step u s s' \<longleftrightarrow> si_inv s' \<and> stable (running s - {u}) (core_of s) (core_of s') \<and> running s - {u} \<subseteq> running s'"

lemma safe_same: "si_inv s \<Longrightarrow> core_of s' = core_of s \<Longrightarrow> safe_step u s s'"
  by (simp add: safe_step_def si_inv_def running_core stable_refl)

lemma safeI:
  assumes "inv0 A (core_of s')" "full A (core_of s')" "stable (c_running (core_of s) - {u}) (core_of s) (core_of s')"
    "c_running (core_of s') = A" "c_running (core_of s) - {u} \<subseteq> A"
  shows "safe_step u s s'"
  using assms by (simp add: safe_step_def si_inv_def running_core)

lemma grab_running: "grab u tab rid old c ch W c' \<Longrightarrow> c_running c' = c_running c"
  by (simp add: grab_def Let_def running_upd_x)

lemma refused_running: "refused u tab rid old c c' \<Longrightarrow> c_running c' = c_running c"
  by (auto simp: refused_def dest: grab_running)

text \<open>A write either takes the chain of a row the transaction sees, or is refused.\<close>

lemma write_step_core:
  assumes w: "write_step u s r s'" and i: "inv0 A (core_of s)" and u: "u \<in> A"
  shows "\<exists>tab rid old. seen (core_of s) u tab rid old \<and>
    (case r of
       Stored y \<Rightarrow> \<exists>ch W. grab u tab rid old (core_of s) ch W (core_of s') \<and> (writer_del ch \<or> writer_data ch \<noteq> [])
     | Refused \<Rightarrow> refused u tab rid old (core_of s) (core_of s') | Undefined \<Rightarrow> True)"
proof -
  obtain x where x: "c_txn (core_of s) u = Some x" using regD(7) [OF inv0D(1) [OF i] u] by blast
  have xr: "0 \<le> x_read x" using regD(5) [OF inv0D(1) [OF i] u] x by (simp add: rts_def del: core_of_simps)
  from w show ?thesis
  proof cases
    case (full_row tab rid old del new)
    have "0 < length old" using full_row(2) by simp
    then show ?thesis using reads_seen [OF i u full_row(1)] mvcc_write_core [OF full_row(4) x _ full_row(3) refl] by blast
  next
    case (col_delta tab rid vis off type df di)
    then show ?thesis using reads_seen [OF i u col_delta(1)] mvcc_write_col_delta_core [OF col_delta(2) x refl] by blast
  next
    case (col_patch tab rid vis patches)
    have "0 < length vis" using col_patch(2) by simp
    then show ?thesis using reads_seen [OF i u col_patch(1)] mvcc_write_col_patch_core [OF col_patch(3) x refl _ xr] by blast
  qed
qed

lemma safe_stored:
  assumes "si_inv s" "u \<in> running s" "write_step u s (Stored y) s'"
  shows "safe_step u s s'"
proof -
  note i = assms(1) [unfolded si_inv_def running_core, THEN conjunct1] and f = assms(1) [unfolded si_inv_def running_core, THEN conjunct2]
  have u: "u \<in> c_running (core_of s)" using assms(2) by (simp add: running_core)
  obtain tab rid old ch W where g: "seen (core_of s) u tab rid old" "grab u tab rid old (core_of s) ch W (core_of s')" "writer_del ch \<or> writer_data ch \<noteq> []"
    using write_step_core [OF assms(3) i u] by auto
  note g' = inv0_grab [OF i u g(1,2)]
  show ?thesis by (rule safeI [OF g'(1) g'(4) [OF f g(3)] g'(2) grab_running [OF g(2)]]) simp
qed

lemma running_not_done:
  assumes "u \<in> c_running c"
  obtains x where "c_txn c u = Some x" "\<not> x_done x"
  using assms by (auto simp: c_running_def)

lemma safe_abort:
  assumes i: "inv0 (c_running (core_of s)) (core_of s)" and f: "full (c_running (core_of s) - {u}) (core_of s)" and u: "u \<in> c_running (core_of s)"
  shows "safe_step u s (tm_abort u l s)"
proof -
  obtain x where x: "c_txn (core_of s) u = Some x" "\<not> x_done x" using running_not_done [OF u] .
  note a = inv0_abort [OF i f u x, of l]
  have "c_running (core_of (tm_abort u l s)) = c_running (core_of s) - {u}" using a running_end running_txn by metis
  then show ?thesis using a by (intro safeI) auto
qed

lemma safe_commit:
  assumes "si_inv s" "u \<in> running s" "tm_commit u l s = (None, s')"
  shows "safe_step u s s'"
proof -
  note i = assms(1) [unfolded si_inv_def running_core, THEN conjunct1] and f = assms(1) [unfolded si_inv_def running_core, THEN conjunct2]
  have u: "u \<in> c_running (core_of s)" using assms(2) by (simp add: running_core)
  obtain x where x: "c_txn (core_of s) u = Some x" "\<not> x_done x" using running_not_done [OF u] .
  note a = inv0_commit [OF i f u x assms(3)]
  have "c_running (core_of s') = c_running (core_of s) - {u}" using a running_end running_txn by metis
  then show ?thesis using a by (intro safeI) auto
qed

lemma safe_refused:
  assumes "si_inv s" "u \<in> running s" "write_step u s Refused s'"
  shows "safe_step u s (tm_abort u l s')"
proof -
  let ?A = "c_running (core_of s)"
  note i = assms(1) [unfolded si_inv_def running_core, THEN conjunct1] and f = assms(1) [unfolded si_inv_def running_core, THEN conjunct2]
  have u: "u \<in> ?A" using assms(2) by (simp add: running_core)
  obtain tab rid old where g: "seen (core_of s) u tab rid old" "refused u tab rid old (core_of s) (core_of s')"
    using write_step_core [OF assms(3) i u] by auto
  have r: "inv0 ?A (core_of s')" "stable (?A - {u}) (core_of s) (core_of s')" "full (?A - {u}) (core_of s')"
    using inv0_refused [OF i u g] full_mono [OF f, of "?A - {u}"] by auto
  have e: "c_running (core_of s') = ?A" by (rule refused_running [OF g(2)])
  have "safe_step u s' (tm_abort u l s')" using safe_abort [of s' u l] r u e by simp
  then show ?thesis using r(2) e stable_trans by (auto simp: safe_step_def running_core)
qed

lemma release_running: "c_running (foldl (c_release u) c ws) = c_running c"
proof (induction ws arbitrary: c)
  case (Cons w ws)
  have "c_running (c_release u c w) = c_running c"
    by (auto simp: c_release_def running_upd_x split: option.splits)
  then show ?case using Cons by simp
qed simp

lemma safe_release:
  assumes "si_inv s" "u \<in> running s"
  shows "safe_step u s (release_statement_writes u s)"
proof -
  note i = assms(1) [unfolded si_inv_def running_core, THEN conjunct1] and f = assms(1) [unfolded si_inv_def running_core, THEN conjunct2]
  have u: "u \<in> c_running (core_of s)" using assms(2) by (simp add: running_core)
  obtain tr where tr: "txn_map s u = Some tr" using assms(2) by (auto simp: running_def)
  have "\<forall>w \<in> set (wset (core_of s) u). rid_ok (w_rid w)" using recsD(1) [OF inv0D(5) [OF i] u] by simp
  note r = inv0_release_all [OF i f u this]
  show ?thesis
  proof (cases "txn_mode tr")
    case True
    then have e: "core_of (release_statement_writes u s) = foldl (c_release u) (core_of s) (wset (core_of s) u)" using core_release_all [OF tr] by simp
    show ?thesis using r unfolding e [symmetric] by (intro safeI) (auto simp: e release_running)
  next
    case False
    then show ?thesis using core_release_all [OF tr] assms(1) by (intro safe_same) simp_all
  qed
qed

lemma safe_begin:
  assumes "si_inv s" "tm_begin None s = (u, s')"
  shows "safe_step u s s'"
proof -
  let ?A = "c_running (core_of s)"
  note i = assms(1) [unfolded si_inv_def running_core, THEN conjunct1] and f = assms(1) [unfolded si_inv_def running_core, THEN conjunct2]
  have b: "u = c_next (core_of s)" "core_of s' = c_begin (core_of s)" using core_begin' [OF assms(2)] by simp_all
  note r = inv0_begin [OF i]
  have "c_running (c_begin c) = insert (c_next c) (c_running c)" for c by (auto simp: c_begin_def c_running_def)
  then show ?thesis using r(1) r(3) [OF f] stable_mono [OF r(2)] b by (intro safeI [of "insert u ?A"]) auto
qed

lemma safe_insert:
  assumes "si_inv s" "u \<in> running s" "chains s (row_key_of tab rid) = None" "fhs s tab \<noteq> None" "heap_at s tab rid = None" "rid_ok rid" "data \<noteq> []"
  shows "safe_step u s (set_heap tab rid (Some data) (mvcc_insert u tab rid data s))"
proof -
  note i = assms(1) [unfolded si_inv_def running_core, THEN conjunct1] and f = assms(1) [unfolded si_inv_def running_core, THEN conjunct2]
  have u: "u \<in> c_running (core_of s)" using assms(2) by (simp add: running_core)
  note e = core_insert [OF assms(3,4), of data u]
  have k: "c_chains (core_of s) (row_key_of tab rid) = None" "c_heap (core_of s) tab rid = None" using assms(3,5) by simp_all
  note r = inv0_insert [OF i u k assms(6,7)]
  have "c_running (c_insert u tab rid data c) = c_running c" for c by (simp add: c_insert_def running_upd_x)
  then show ?thesis using r(1,2) r(3) [OF f] by (intro safeI [of "c_running (core_of s)"]) (simp_all add: e del: core_of_simps)
qed

lemma safe_reap:
  assumes "si_inv s"
  shows "safe_step u s (reap u s)"
proof (cases "reap u s = s")
  case True
  then show ?thesis using assms by (intro safe_same) simp_all
next
  case False
  let ?A = "c_running (core_of s)" and ?c = "core_of s" and ?d = "core_of (reap u s)"
  note i = assms [unfolded si_inv_def running_core, THEN conjunct1] and f = assms [unfolded si_inv_def running_core, THEN conjunct2]
  have d: "?d = ?c\<lparr>c_txn := (c_txn ?c)(u := None)\<rparr>" and u: "u \<notin> ?A"
    using False heap_at_frame [of "reap u s" s] by (auto simp: reap_def core_of_def c_running_def ctxn_of_def fun_eq_iff split: option.splits if_splits)
  have ne: "t \<noteq> u" if "t \<in> ?A" for t using that u by auto
  have o: "ovl ?d t = ovl ?c t" "wset ?d t = wset ?c t" "rts ?d t = rts ?c t" "c_txn ?d t = c_txn ?c t" if "t \<noteq> u" for t
    unfolding d using that by (simp_all add: ovl_def wset_def rts_def)
  have s: "c_chains ?d = c_chains ?c" "c_pend ?d = c_pend ?c" "c_heap ?d = c_heap ?c" "c_last ?d = c_last ?c" "c_next ?d = c_next ?c"
      "c_rts ?d = c_rts ?c" "c_dirty ?d = c_dirty ?c" unfolding d by simp_all
  note r = regD [OF inv0D(1) [OF i]] and pd = pendsD [OF inv0D(3) [OF i]]
  have m: "image_mset (rts ?d) (mset_set ?A) = image_mset (rts ?c) (mset_set ?A)" using ne r(1) o by (intro image_mset_cong) auto
  have "c_txn ?c t \<noteq> None" if "c_txn ?d t \<noteq> None" for t using that unfolding d by (cases "t = u") auto
  then have "t < c_next ?c" if "c_txn ?d t \<noteq> None" for t using r(10) that by blast
  then have "reg ?A ?d" unfolding reg_def s m using r(1-3,8,9) r(4-7) ne o by (simp del: core_of_simps)
  moreover have "cells ?d" using inv0D(2) [OF i] unfolding cells_def s .
  moreover have "pends ?A ?d" unfolding pends_def s using pd ne o(1) by metis
  moreover have "ovs ?A ?d" using inv0D(4) [OF i] ne unfolding ovs_def s by (simp add: o del: core_of_simps)
  moreover have "recs ?A ?d" using inv0D(5) [OF i] ne unfolding recs_def holds_def s by (simp add: o del: core_of_simps)
  ultimately have "inv0 ?A ?d" by (simp add: inv0_def)
  moreover have "full ?A ?d" using f ne unfolding full_def s by (simp add: o del: core_of_simps)
  moreover have "stable (?A - {u}) ?c ?d" unfolding stable_def using ne o s by (auto intro!: view_eqI simp del: core_of_simps)
  moreover have "c_running ?d = ?A" using u unfolding d c_running_def by auto
  ultimately show ?thesis by (intro safeI) auto
qed

theorem step_safe:
  assumes "tm_step u s s'" "si_inv s"
  shows "safe_step u s s'"
  using assms
  by cases (auto intro: safe_begin safe_insert safe_stored safe_refused safe_release safe_commit safe_reap safe_same
      intro!: safe_abort simp: running_core si_inv_def full_mono)

lemma reach_inv: "tm_reach s \<Longrightarrow> si_inv s"
proof (induction rule: tm_reach.induct)
  case (init db heap ix)
  have "running (tm_new db heap ix) = {}" by (simp add: running_def tm_new_def)
  moreover have "reg {} c" if "c_rts c = []" "c_last c = 0" "c_next c = 0" "c_txn c = Map.empty" for c using that by (simp add: reg_def)
  ultimately show ?case
    by (simp add: si_inv_def inv0_def cells_def cell_ok_def pends_def ovs_def recs_def full_def) (simp add: tm_new_def core_of_def)
next
  case (step s u s')
  then show ?case using step_safe by (simp add: safe_step_def)
qed

lemma others_safe:
  assumes "others_run t s s'" "si_inv s" "t \<in> running s"
  shows "si_inv s' \<and> t \<in> running s' \<and> stable {t} (core_of s) (core_of s')"
  using assms
proof (induction rule: others_run.induct)
  case (here s)
  then show ?case using stable_refl by blast
next
  case (more s s' u s'')
  then have h: "si_inv s'" "t \<in> running s'" "stable {t} (core_of s) (core_of s')" by blast+
  have u: "si_inv s''" "stable (running s' - {u}) (core_of s') (core_of s'')" "running s' - {u} \<subseteq> running s''"
    using step_safe [OF more.hyps(2) h(1)] by (simp_all add: safe_step_def)
  have "{t} \<subseteq> running s' - {u}" using h(2) more.hyps(3) by simp
  then have "stable {t} (core_of s') (core_of s'')" "t \<in> running s''" using stable_mono [OF u(2)] u(3) by auto
  then show ?case using u(1) stable_trans [OF h(3)] by simp
qed


text \<open>A table with one row, two transactions; the second one inserts a row.\<close>

definition si_ex0 :: tm where
  "si_ex0 = tm_new Map.empty [''t'' \<mapsto> [\<lparr>page_no = 1, slot_no = 0\<rparr> \<mapsto> [7]]] Map.empty"

definition si_ex :: tm where
  "si_ex = snd (tm_begin None (snd (tm_begin None si_ex0)))"

lemma si_ex_reach: "tm_reach si_ex"
proof -
  have "tm_step (fst (tm_begin None s)) s (snd (tm_begin None s))" for s by (rule tm_step.start) simp
  then show ?thesis unfolding si_ex_def si_ex0_def by (intro tm_reach.step [OF tm_reach.step [OF tm_reach.init]])
qed

lemma si_ex_fields:
  "running si_ex = {0, 1}" "chains si_ex = Map.empty" "fhs si_ex = [''t'' \<mapsto> [\<lparr>page_no = 1, slot_no = 0\<rparr> \<mapsto> [7]]]"
  by (auto simp: running_def si_ex_def si_ex0_def tm_begin_def tm_new_def Let_def insert_rts_def new_Transaction_def)


section \<open>A second update of the same row\<close>

text \<open>
  A row that the transaction wrote in an earlier statement is in its overlay. An update by \<^verbatim>\<open>mvcc_write_col_delta\<close> sets
  \<^verbatim>\<open>hold_writer_to_commit\<close>, so the end of the statement does not bring the new row into the overlay.
\<close>

lemma col_delta_held:
  assumes "mvcc_write_col_delta t tab rid vis len off type df di s = (Stored y, s')"
  shows "\<exists>ch. chains s' (row_key_of tab rid) = Some ch \<and> ch_writer ch = t \<and> hold_writer_to_commit ch \<and> writer_data ch = y"
  using assms by (auto simp: mvcc_write_col_delta_def Let_def upd_txn_def set_chain_def split: if_splits)

lemma release_held:
  fixes ws
  assumes "map_of (ovl c t) k = Some ov" "distinct (map fst (ovl c t))" "c_chains c k = Some ch" "hold_writer_to_commit ch" "c_dirty c"
  defines "d \<equiv> foldl (c_release t) c ws"
  shows "map_of (ovl d t) k = Some ov \<and> distinct (map fst (ovl d t)) \<and> c_chains d k = Some ch \<and> c_dirty d"
  using assms(1-5) unfolding d_def
proof (induction ws arbitrary: c)
  case (Cons w ws)
  let ?c = "c_release t c w"
  have "map_of (ovl ?c t) k = Some ov \<and> distinct (map fst (ovl ?c t)) \<and> c_chains ?c k = Some ch \<and> c_dirty ?c"
  proof (cases "\<exists>x. c_chains c (wkey w) = Some x \<and> ch_writer x = t \<and> \<not> hold_writer_to_commit x")
    case False
    then have "?c = c" by (auto simp: c_release_def split: option.splits)
    then show ?thesis using Cons.prems by simp
  next
    case True
    then obtain x where x: "c_chains c (wkey w) = Some x" "ch_writer x = t" "\<not> hold_writer_to_commit x" by blast
    have ne: "k \<noteq> wkey w" using x Cons.prems(3,4) by auto
    have "c_txn c t \<noteq> None" using Cons.prems(1) by (auto simp: ovl_def split: option.splits)
    then have "ovl ?c t = AList.update (wkey w) \<lparr>ov_data = writer_data x, ov_deleted = writer_del x\<rparr> (ovl c t)"
      using x by (auto simp: c_release_def ovl_def upd_x_def put_chain_def)
    then show ?thesis using Cons.prems ne x by (simp add: update_conv distinct_update) (simp add: c_release_def)
  qed
  then show ?case using Cons.IH [of ?c] Cons.prems(4) by simp
qed simp

text \<open>
  C18: After a statement has put a row of an explicit transaction into its overlay, an update of that row with \<^verbatim>\<open>mvcc_write_col_delta\<close>
  reports success with the new row \<open>y\<close>, but is lost: after the statement the transaction still reads the row of its
  earlier statement, and commit takes that row from the overlay as the one to write.
\<close>

theorem own_update_lost:
  assumes o: "get_si_overlay (row_key_of tab rid) (txn_of s t) = Some ov" "\<not> ov_deleted ov" "distinct (map fst (si_overlay (txn_of s t)))"
    and t: "txn_map s t = Some tr" and w: "mvcc_write_col_delta t tab rid vis (length vis) off type df di s = (Stored y, s')"
  defines "e \<equiv> release_statement_writes t s'"
  shows "mvcc_read t tab rid h e = Some (ov_data ov)
    \<and> writer_data (chain_of (restore_writers_from_overlays t e) (row_key_of tab rid)) = ov_data ov"
proof -
  let ?k = "row_key_of tab rid" and ?c = "core_of s'" and ?e = "core_of e"
  have x: "c_txn (core_of s) t = Some (ctxn_of tr)" using t by simp
  obtain ch W where g: "grab t tab rid vis (core_of s) ch W ?c" using mvcc_write_col_delta_core [OF w x refl] by auto
  have o': "map_of (ovl ?c t) ?k = Some ov" "distinct (map fst (ovl ?c t))" "c_dirty ?c"
    using g o t by (simp_all add: grab_def Let_def ovl_def [of "core_of s"] txn_of_def ctxn_of_def get_si_overlay_def del: core_of_simps(2-))
  obtain ch' where ch: "c_chains ?c ?k = Some ch'" "hold_writer_to_commit ch'" using col_delta_held [OF w] by auto
  obtain tr' where tr': "txn_map s' t = Some tr'" using o'(1) by (auto simp: ovl_def split: option.splits)
  have e: "map_of (ovl ?e t) ?k = Some ov" "distinct (map fst (ovl ?e t))" "c_chains ?e ?k = Some ch'" "c_dirty ?e"
    using release_held [OF o'(1,2) ch o'(3), of "wset ?c t"] core_release_all [OF tr'] o' ch unfolding e_def by (auto split: if_splits)
  obtain x' where x': "c_txn ?e t = Some x'" using e(1) by (auto simp: ovl_def split: option.splits)
  have ov: "get_si_overlay ?k (txn_of e t) = Some ov" using core_txn_fields(4) [OF refl x', of ?k] e(1) x' by (simp add: ovl_def del: core_of_simps)
  have "c_chains (core_of (restore_writers_from_overlays t e)) ?k = Some ((c_chain ?e ?k)\<lparr>ch_writer := t, writer_del := ov_deleted ov, writer_data := ov_data ov\<rparr>)"
    unfolding core_restore using restore_fold(1) [OF e(2), of t ?e ?k] e(1) by simp
  then have "writer_data (chain_of (restore_writers_from_overlays t e) ?k) = ov_data ov" by (simp add: chain_of_def)
  then show ?thesis using ov o(2) e(4) by (simp add: mvcc_read_def Let_def)
qed

text \<open>An explicit transaction inserts a counter with value 5 and adds 1 to it in its next statement.\<close>

definition lost_ex :: tm where
  "lost_ex = release_statement_writes 1 (mvcc_insert 1 ''t'' \<lparr>page_no = 1, slot_no = 1\<rparr> [5, 0, 0, 0] (set_explicit 1 si_ex))"

lemmas ex_defs = lost_ex_def si_ex_def si_ex0_def tm_begin_def tm_new_def Let_def insert_rts_def new_Transaction_def set_explicit_def upd_txn_def
  mvcc_insert_def write_enter_def mark_dirty_tab_def recent_writes_add_def note_table_write_def add_written_tab_def activity_of_def set_chain_def chain_of_def
  new_chain_def append_write_record_def release_statement_writes_def release_write_def put_si_overlay_def get_si_overlay_def txn_of_def INVALID_TXN_ID_def

theorem own_update_lost_witness:
  "mvcc_read 1 ''t'' \<lparr>page_no = 1, slot_no = 1\<rparr> [5, 0, 0, 0] (release_statement_writes 1
     (snd (mvcc_write_col_delta 1 ''t'' \<lparr>page_no = 1, slot_no = 1\<rparr> [5, 0, 0, 0] 4 0 TYPE_INT 0 1 lost_ex))) = Some [5, 0, 0, 0]"
proof -
  let ?r = "\<lparr>page_no = 1, slot_no = 1\<rparr>"
  let ?w = "mvcc_write_col_delta 1 ''t'' ?r [5, 0, 0, 0] 4 0 TYPE_INT 0 1 lost_ex"
  have tr: "si_overlay (txn_of lost_ex 1) = [(row_key_of ''t'' ?r, \<lparr>ov_data = [5, 0, 0, 0], ov_deleted = False\<rparr>)] \<and> txn_map lost_ex 1 \<noteq> None"
    by (simp add: ex_defs)
  have "\<exists>y. fst ?w = Stored y" by (simp add: mvcc_write_col_delta_def with_base_def newer_version_def write_blocked_def ex_defs)
  then obtain y where y: "?w = (Stored y, snd ?w)" by (metis prod.collapse)
  obtain tr where t: "txn_map lost_ex 1 = Some tr" using tr by blast
  have l: "length [5 :: byte, 0, 0, 0] = 4" by simp
  have w: "mvcc_write_col_delta 1 ''t'' ?r [5, 0, 0, 0] (length [5 :: byte, 0, 0, 0]) 0 TYPE_INT 0 1 lost_ex = (Stored y, snd ?w)" unfolding l by (rule y)
  show ?thesis using own_update_lost [OF _ _ _ t w, of "\<lparr>ov_data = [5, 0, 0, 0], ov_deleted = False\<rparr>"] tr by (simp add: get_si_overlay_def)
qed

section \<open>Serializable reads of released writes\<close>

lemma release_other: "wkey w \<noteq> k \<Longrightarrow> c_chains (c_release t c w) k = c_chains c k"
  by (auto simp: c_release_def split: option.splits)

lemma release_frees:
  assumes "c_chains c k = Some ch" "ch_writer ch = t" "\<not> hold_writer_to_commit ch" "t \<noteq> INVALID_TXN_ID" "k \<in> wkey ` set ws"
  shows "c_chains (foldl (c_release t) c ws) k = Some (ch\<lparr>ch_writer := INVALID_TXN_ID, writer_del := False, writer_data := []\<rparr>)"
  using assms
proof (induction ws arbitrary: c)
  case (Cons w ws)
  let ?ch = "ch\<lparr>ch_writer := INVALID_TXN_ID, writer_del := False, writer_data := []\<rparr>"
  have keep: "c_chains (foldl (c_release t) c ws) k = Some ?ch" if "c_chains c k = Some ?ch" for c ws
    using that assms(4)
  proof (induction ws arbitrary: c)
    case (Cons w ws)
    have "c_chains (c_release t c w) k = Some ?ch"
    proof (cases "wkey w = k")
      case True
      then show ?thesis using Cons.prems by (auto simp: c_release_def)
    next
      case False
      then show ?thesis using Cons.prems release_other by simp
    qed
    then show ?case using Cons.IH [of "c_release t c w"] Cons.prems(2) by simp
  qed simp
  show ?case
  proof (cases "wkey w = k")
    case True
    then have "c_chains (c_release t c w) k = Some ?ch" using Cons.prems by (auto simp: c_release_def)
    then show ?thesis using keep by simp
  next
    case False
    then show ?thesis using Cons release_other [OF False] by auto
  qed
qed simp

text \<open>
  C20: The check of a serializable read against a concurrent uncommitted write works only until the writer's statement ends. While the writer is
  on the chain, the read of the row makes the reader depend on it; after \<^verbatim>\<open>release_statement_writes\<close> has moved the same uncommitted write to the
  writer's overlay, the read reports no danger and adds no dependency to any transaction.
\<close>

theorem ser_released_write_missed:
  assumes w: "txn_map s w = Some tr" "txn_mode tr" "w \<noteq> INVALID_TXN_ID" "rec \<in> set (write_set tr)" "w_tab rec = tab" "w_rid rec = rid"
    and ch: "chains s (row_key_of tab rid) = Some ch" "ch_writer ch = w" "\<not> hold_writer_to_commit ch"
    and me: "me \<noteq> w" "txn_map s me \<noteq> None" "ser_needs_read_check me tab s" "\<forall>v \<in> set (hist ch). ver_cts v \<le> read_ts (txn_of s me)"
    and ov: "known_overlap me w (ser_touch me s)"
  shows "w \<in> out_rw (ser_of (snd (ser_read_check me tab rid s)) me)
    \<and> (let s' = release_statement_writes w s; (dangerous, s'') = ser_read_check me tab rid s'
       in \<not> dangerous \<and> (\<forall>t. in_rw (ser_of s'' t) = in_rw (ser_of s' t) \<and> out_rw (ser_of s'' t) = out_rw (ser_of s' t)))"
proof
  let ?k = "row_key_of tab rid" and ?s' = "release_statement_writes w s"
  have "chain_writers me (read_ts (txn_of s me)) ch = [w]" using ch(2) me(1,4) w(3) by (auto simp: chain_writers_def filter_empty_conv)
  then have "ser_read_check me tab rid s = (let (d, s') = ser_add_edge me w (ser_touch me s) in (d, s'))"
    using me(3) ch(1) ov by (simp add: ser_read_check_def ser_touch_def edge_step_def)
  moreover have "w \<in> out_rw (ser_of (snd (ser_add_edge me w c)) me)" for c using me(1) by (simp add: ser_add_edge_def Let_def)
  ultimately show "w \<in> out_rw (ser_of (snd (ser_read_check me tab rid s)) me)" by (simp add: case_prod_unfold)
  have k: "?k \<in> wkey ` set (wset (core_of s) w)" using w(1,4-6) by (auto simp: wset_def ctxn_of_def)
  have "c_chains (core_of ?s') ?k = Some (ch\<lparr>ch_writer := INVALID_TXN_ID, writer_del := False, writer_data := []\<rparr>)"
    using release_frees [OF _ ch(2,3) w(3) k] core_release_all [OF w(1)] w(2) ch(1) by (simp del: core_of_simps(1-5))
  then have c': "chains ?s' ?k = Some (ch\<lparr>ch_writer := INVALID_TXN_ID, writer_del := False, writer_data := []\<rparr>)" by simp
  have "c_txn (c_release w c x) me = c_txn c me" for c x using me(1) by (auto simp: c_release_def upd_x_def split: option.splits)
  then have "c_txn (foldl (c_release w) c ws) me = c_txn c me" for c ws by (induction ws arbitrary: c) simp_all
  then have "c_txn (core_of ?s') me = c_txn (core_of s) me" using core_release_all [OF w(1)] by (simp del: core_of_simps)
  then have "read_ts (txn_of ?s' me) = read_ts (txn_of s me)" using me(2) by (auto simp: txn_of_def ctxn_of_def)
  then have "chain_writers me (read_ts (txn_of ?s' me)) (ch\<lparr>ch_writer := INVALID_TXN_ID, writer_del := False, writer_data := []\<rparr>) = []"
    using me(4) by (auto simp: chain_writers_def filter_empty_conv)
  then have "ser_read_check me tab rid ?s' = (False, if ser_needs_read_check me tab ?s' then ser_touch me ?s' else ?s')"
    using c' by (simp add: ser_read_check_def ser_touch_def)
  then show "let s' = ?s'; (dangerous, s'') = ser_read_check me tab rid s'
      in \<not> dangerous \<and> (\<forall>t. in_rw (ser_of s'' t) = in_rw (ser_of s' t) \<and> out_rw (ser_of s'' t) = out_rw (ser_of s' t))"
    by (simp add: ser_touch_def)
qed

text \<open>Transaction 1 has inserted a row, transaction 0 reads it, both of them known to the checks.\<close>

definition missed_ex :: tm where
  "missed_ex = ser_touch 1 (mvcc_insert 1 ''t'' \<lparr>page_no = 1, slot_no = 1\<rparr> [5, 0, 0, 0] (set_explicit 1 si_ex))"

theorem ser_released_write_missed_witness:
  "\<not> fst (ser_read_check 0 ''t'' \<lparr>page_no = 1, slot_no = 1\<rparr> (release_statement_writes 1 missed_ex))
   \<and> 1 \<in> out_rw (ser_of (snd (ser_read_check 0 ''t'' \<lparr>page_no = 1, slot_no = 1\<rparr> missed_ex)) 0)"
proof -
  let ?r = "\<lparr>page_no = 1, slot_no = 1\<rparr>"
  have "\<exists>tr ch. txn_map missed_ex 1 = Some tr \<and> txn_mode tr \<and> write_set tr = [\<lparr>wtype = INSERT_TUPLE, w_tab = ''t'', w_rid = ?r, w_record = []\<rparr>]
      \<and> chains missed_ex (row_key_of ''t'' ?r) = Some ch \<and> ch_writer ch = 1 \<and> \<not> hold_writer_to_commit ch \<and> hist ch = []"
    by (simp add: missed_ex_def ser_touch_def ser_put_def ex_defs)
  then obtain tr ch where tr: "txn_map missed_ex 1 = Some tr" "txn_mode tr" "write_set tr = [\<lparr>wtype = INSERT_TUPLE, w_tab = ''t'', w_rid = ?r, w_record = []\<rparr>]"
      "chains missed_ex (row_key_of ''t'' ?r) = Some ch" "ch_writer ch = 1" "\<not> hold_writer_to_commit ch" "hist ch = []" by blast
  have m: "txn_map missed_ex 0 \<noteq> None" "ser_needs_read_check 0 ''t'' missed_ex" "known_overlap 0 1 (ser_touch 0 missed_ex)"
    by (simp_all add: missed_ex_def ser_touch_def ser_put_def ser_needs_read_check_def known_overlap_def ser_overlap_def ser_of_def new_SerInfo_def ex_defs)
  show ?thesis
    using ser_released_write_missed [OF tr(1,2) _ _ _ _ tr(4-6), of "\<lparr>wtype = INSERT_TUPLE, w_tab = ''t'', w_rid = ?r, w_record = []\<rparr>" 0] tr m
    by (simp add: Let_def case_prod_unfold INVALID_TXN_ID_def)
qed

end
