(* ===== verification/Recovery_Scan.thy ===== *)
theory Recovery_Scan
  imports Log_Manager
begin

text \<open>
  Reading the log after a crash, \<^verbatim>\<open>src/src/recovery/log_recovery.cpp\<close>: the rolling read buffer, single records, framed
  batches with their checksum, and the two nested loops over batches and records that analysis and redo share. A record whose
  fields point past its own end, or a length of two gigabytes or more, which the cast to \<^verbatim>\<open>int\<close> makes negative, has no
  defined result, \<open>BadRecord\<close>; an exception of a callee is \<open>Raised\<close>, a wait in the buffer pool that does not end \<open>Waits\<close>.
\<close>

section \<open>The reader\<close>

datatype rec_error = Raised db_error | BadRecord | Waits

definition raised :: "db_error + 'a \<Rightarrow> rec_error + 'a" where
  "raised x = (case x of Inl e \<Rightarrow> Inl (Raised e) | Inr y \<Rightarrow> Inr y)"

record log_reader =
  rc_disk :: disk
  rdbuf :: bytes
  rdbuf_cap :: nat
  rdbuf_start :: int
  rdbuf_len :: int
  log_end :: int

definition i32 :: "int \<Rightarrow> int" where
  "i32 x = sint (word_of_int x :: 32 word)"

definition ensure_bytes :: "int \<Rightarrow> int \<Rightarrow> log_reader \<Rightarrow> rec_error + bytes option \<times> log_reader" where
  "ensure_bytes off need r =
     (if off < rdbuf_start r \<or> rdbuf_start r + rdbuf_len r < off + need
      then
        let cap = max (max (rdbuf_cap r) (2 ^ 20)) (nat need); r1 = r\<lparr>rdbuf_cap := cap\<rparr>;
            take_n = min (log_end r - off) (int cap)
        in if take_n < need then Inr (None, r1)
           else and_then (raised (read_log (rc_disk r) (i32 take_n) (i32 off))) (\<lambda>(n, bs, d).
             let r2 = r1\<lparr>rc_disk := d, rdbuf := bs, rdbuf_start := off, rdbuf_len := n\<rparr>
             in if n < need then Inr (None, r2) else Inr (Some (rd 0 (nat need) bs), r2))
      else Inr (Some (rd (nat (off - rdbuf_start r)) (nat need) (rdbuf r)), r))"

definition read_one :: "int \<Rightarrow> log_reader \<Rightarrow> rec_error + int \<times> bytes \<times> log_reader" where
  "read_one off r =
     (if log_end r < off + int LOG_HEADER_SIZE then Inr (0, [], r)
      else and_then (ensure_bytes off (int LOG_HEADER_SIZE) r) (\<lambda>(hdr, r).
        case hdr of
          None \<Rightarrow> Inr (0, [], r)
        | Some h \<Rightarrow>
            let tot = le_dec_u (rd OFFSET_LOG_TOT_LEN 4 h)
            in if tot < int LOG_HEADER_SIZE \<or> log_end r < off + tot then Inr (0, [], r)
               else and_then (ensure_bytes off (i32 tot) r) (\<lambda>(rec, r).
                 case rec of
                   None \<Rightarrow> Inr (0, [], r)
                 | Some bs \<Rightarrow> if int (length bs) < tot then Inl BadRecord else Inr (i32 tot, bs, r))))"

text \<open>The result of \<open>read_batch\<close> is the span, the offset and the length of the body.\<close>

definition read_batch :: "int \<Rightarrow> log_reader \<Rightarrow> rec_error + int \<times> int \<times> int \<times> log_reader" where
  "read_batch off r =
     (if log_end r < off + int WAL_BATCH_HDR_SIZE then Inr (0, 0, 0, r)
      else and_then (ensure_bytes off (int WAL_BATCH_HDR_SIZE) r) (\<lambda>(hdr, r).
        case hdr of
          None \<Rightarrow> Inr (0, 0, 0, r)
        | Some h \<Rightarrow>
            let magic = le_dec_u (rd 0 4 h); blen = le_dec_u (rd 4 4 h); expect_crc = le_dec_u (rd 8 4 h)
            in if magic \<noteq> WAL_BATCH_MAGIC \<or> blen = 0 then Inr (0, 0, 0, r)
               else if log_end r < off + int WAL_BATCH_HDR_SIZE + blen then Inr (0, 0, 0, r)
               else and_then (ensure_bytes (off + int WAL_BATCH_HDR_SIZE) (i32 blen) r) (\<lambda>(body, r).
                 case body of
                   None \<Rightarrow> Inr (0, 0, 0, r)
                 | Some b \<Rightarrow>
                     if int (length b) < blen then Inl BadRecord
                     else if uint (wal_crc32 b) \<noteq> expect_crc then Inr (0, 0, 0, r)
                     else Inr (int WAL_BATCH_HDR_SIZE + i32 blen, off + int WAL_BATCH_HDR_SIZE, blen, r))))"

section \<open>The loops\<close>

lemma ensure_bytes_end: "ensure_bytes off need r = Inr (x, r') \<Longrightarrow> log_end r' = log_end r"
  by (auto simp: ensure_bytes_def Let_def and_then_Inr_iff split: if_splits prod.splits)

lemma i32_id: "0 \<le> x \<Longrightarrow> x < 2 ^ 31 \<Longrightarrow> i32 x = x"
  by (simp add: i32_def signed_of_int signed_take_bit_int_eq_self)

lemma i32_le: "0 \<le> x \<Longrightarrow> i32 x \<le> x"
proof (cases "x < 2 ^ 31")
  case False
  have "i32 x < 2 ^ 31" using sint_lt [of "word_of_int x :: 32 word"] by (simp add: i32_def)
  with False show ?thesis by linarith
qed (simp add: i32_id)

lemma read_one_progress:
  assumes "read_one off r = Inr (n, bs, r')"
  shows "log_end r' = log_end r \<and> (0 < n \<longrightarrow> off + n \<le> log_end r)"
proof (cases "log_end r < off + int LOG_HEADER_SIZE")
  case True
  with assms show ?thesis by (simp add: read_one_def)
next
  case False
  with assms obtain hdr r1 where 1: "ensure_bytes off (int LOG_HEADER_SIZE) r = Inr (hdr, r1)"
    by (auto simp: read_one_def Let_def and_then_Inr_iff)
  note e1 = ensure_bytes_end [OF 1]
  show ?thesis
  proof (cases hdr)
    case None
    with assms False 1 e1 show ?thesis by (simp add: read_one_def)
  next
    case (Some h)
    let ?tot = "le_dec_u (rd OFFSET_LOG_TOT_LEN 4 h)"
    have tot: "i32 ?tot \<le> ?tot" using le_dec_u_bounds by (simp add: i32_le)
    show ?thesis
    proof (cases "?tot < int LOG_HEADER_SIZE \<or> log_end r1 < off + ?tot")
      case True
      with assms False 1 e1 Some show ?thesis by (simp add: read_one_def)
    next
      case ok: False
      with assms False 1 Some obtain rec r2 where 2: "ensure_bytes off (i32 ?tot) r1 = Inr (rec, r2)"
        by (auto simp: read_one_def Let_def and_then_Inr_iff)
      note e2 = ensure_bytes_end [OF 2]
      from assms False 1 Some ok 2 e1 e2 tot show ?thesis
        by (cases rec) (auto simp: read_one_def Let_def split: if_splits)
    qed
  qed
qed

lemma read_batch_progress:
  assumes "read_batch off r = Inr (n, bo, bl, r')"
  shows "log_end r' = log_end r \<and> (0 < n \<longrightarrow> off + n \<le> log_end r)"
proof (cases "log_end r < off + int WAL_BATCH_HDR_SIZE")
  case True
  with assms show ?thesis by (simp add: read_batch_def)
next
  case False
  with assms obtain hdr r1 where 1: "ensure_bytes off (int WAL_BATCH_HDR_SIZE) r = Inr (hdr, r1)"
    by (auto simp: read_batch_def Let_def and_then_Inr_iff)
  note e1 = ensure_bytes_end [OF 1]
  show ?thesis
  proof (cases hdr)
    case None
    with assms False 1 e1 show ?thesis by (simp add: read_batch_def)
  next
    case (Some h)
    let ?bl = "le_dec_u (rd 4 4 h)"
    have bl: "i32 ?bl \<le> ?bl" using le_dec_u_bounds by (simp add: i32_le)
    show ?thesis
    proof (cases "le_dec_u (rd 0 4 h) \<noteq> WAL_BATCH_MAGIC \<or> ?bl = 0 \<or> log_end r1 < off + int WAL_BATCH_HDR_SIZE + ?bl")
      case True
      with assms False 1 e1 Some show ?thesis by (auto simp: read_batch_def Let_def split: if_splits)
    next
      case ok: False
      with assms False 1 Some obtain body r2 where 2: "ensure_bytes (off + int WAL_BATCH_HDR_SIZE) (i32 ?bl) r1 = Inr (body, r2)"
        by (auto simp: read_batch_def Let_def and_then_Inr_iff)
      note e2 = ensure_bytes_end [OF 2]
      from assms False 1 Some ok 2 e1 e2 bl show ?thesis
        by (cases body) (auto simp: read_batch_def Let_def split: if_splits)
    qed
  qed
qed

text \<open>
  The loops of \<open>analyze\<close> and \<open>redo\<close>, with the body of the loop as an argument. The condition \<^verbatim>\<open>pos < log_end_\<close> that \<open>redo\<close>
  adds is implied by the first test of \<open>read_one\<close> and \<open>read_batch\<close>. While the records of a batch are read, the end of the log is
  the end of the batch.
\<close>

function scan_records :: "(bytes \<Rightarrow> 'a \<Rightarrow> rec_error + 'a) \<Rightarrow> int \<Rightarrow> log_reader \<Rightarrow> 'a \<Rightarrow> rec_error + int \<times> log_reader \<times> 'a" where
  "scan_records f pos r a =
     (case read_one pos r of
        Inl e \<Rightarrow> Inl e
      | Inr (n, bs, r') \<Rightarrow>
          if 0 < n
          then case f bs a of Inl e \<Rightarrow> Inl e | Inr a' \<Rightarrow> scan_records f (pos + n) r' a'
          else Inr (pos, r', a))"
  by pat_completeness auto
termination
  by (relation "measure (\<lambda>(f, pos, r, a). nat (log_end r - pos))") (auto dest!: read_one_progress)

function scan_batches :: "(bytes \<Rightarrow> 'a \<Rightarrow> rec_error + 'a) \<Rightarrow> int \<Rightarrow> log_reader \<Rightarrow> 'a \<Rightarrow> rec_error + int \<times> log_reader \<times> 'a" where
  "scan_batches f pos r a =
     (case read_batch pos r of
        Inl e \<Rightarrow> Inl e
      | Inr (n, body_off, body_len, r') \<Rightarrow>
          if 0 < n
          then case scan_records f body_off (r'\<lparr>log_end := body_off + body_len\<rparr>) a of
                 Inl e \<Rightarrow> Inl e
               | Inr (_, r'', a') \<Rightarrow> scan_batches f (pos + n) (r''\<lparr>log_end := log_end r'\<rparr>) a'
          else Inr (pos, r', a))"
  by pat_completeness auto
termination
  by (relation "measure (\<lambda>(f, pos, r, a). nat (log_end r - pos))") (auto dest!: read_batch_progress)

declare scan_records.simps [simp del] scan_batches.simps [simp del]

section \<open>What the reader returns\<close>

text \<open>
  The reader reads the log of the disk: its buffer holds a part of it, and no offset leaves the range of an \<^verbatim>\<open>int\<close>.
\<close>

definition reader_ok :: "log_reader \<Rightarrow> bool" where
  "reader_ok r \<longleftrightarrow> log_ready (rc_disk r) \<and> log_end r \<le> int (length (log_content (rc_disk r)))
     \<and> int (length (log_content (rc_disk r))) < 2 ^ 31 \<and> rdbuf_cap r < 2 ^ 31
     \<and> 0 \<le> rdbuf_start r \<and> rdbuf_start r + rdbuf_len r \<le> int (length (log_content (rc_disk r)))
     \<and> (0 < rdbuf_len r \<longrightarrow> rdbuf r = rd (nat (rdbuf_start r)) (nat (rdbuf_len r)) (log_content (rc_disk r)))"

definition same_log :: "log_reader \<Rightarrow> log_reader \<Rightarrow> bool" where
  "same_log r r' \<longleftrightarrow> log_content (rc_disk r') = log_content (rc_disk r) \<and> log_end r' = log_end r \<and> reader_ok r'"

lemma read_log_ready:
  assumes "log_ready d" and "0 \<le> off" and "0 < sz" and "off + sz \<le> int (length (log_content d))"
    and "int (length (log_content d)) < 2 ^ 31"
  shows "\<exists>d'. read_log d sz off = Inr (sz, rd (nat off) (nat sz) (log_content d), d') \<and> log_ready d' \<and> log_content d' = log_content d"
proof -
  obtain e where e: "open_log d = Inr e" "disk_inv e" "log_opened e" "fs e = fs d"
    using open_log_ready [OF assms(1)] by blast
  have c: "log_content e = log_content d" using e(4) by (simp add: log_content_def)
  have "is_file e LOG_FILE_NAME" using assms(1) e(4) by (simp add: log_ready_def is_file_def)
  then have rdy: "log_ready e" using e by (simp add: log_ready_def log_opened_def)
  have sz: "get_file_size e LOG_FILE_NAME = int (length (log_content e))"
    using \<open>is_file e LOG_FILE_NAME\<close> assms(5) i32_id [of "int (length (log_content e))"]
    by (auto simp: get_file_size_def i32_def e(4) log_content_def is_file_def split: option.splits)
  have p: "pread e (log_fd e) (replicate (nat sz) 0) (nat sz) off = (sz, rd (nat off) (nat sz) (log_content d))"
    using log_opened_file [OF e(2,3)] assms c by (simp add: pread_def Let_def wr_def)
  show ?thesis
    using e(1) sz p assms rdy c by (simp add: read_log_def Let_def min_def)
qed

lemma same_log_refill:
  assumes "reader_ok r" and "log_ready d" and "log_content d = log_content (rc_disk r)" and "0 \<le> off"
    and "off + t \<le> int (length (log_content (rc_disk r)))" and "cap < 2 ^ 31"
  shows "same_log r (r\<lparr>rdbuf_cap := cap, rc_disk := d, rdbuf := rd (nat off) (nat t) (log_content (rc_disk r)),
           rdbuf_start := off, rdbuf_len := t\<rparr>)"
  using assms by (simp add: same_log_def reader_ok_def)

lemma ensure_bytes_ok:
  assumes "reader_ok r" and "0 \<le> off" and "0 < need" and "off + need \<le> log_end r"
  shows "\<exists>r'. ensure_bytes off need r = Inr (Some (rd (nat off) (nat need) (log_content (rc_disk r))), r') \<and> same_log r r'"
proof (cases "off < rdbuf_start r \<or> rdbuf_start r + rdbuf_len r < off + need")
  case False
  then have "0 < rdbuf_len r" using assms(3) by linarith
  then have b: "rdbuf r = rd (nat (rdbuf_start r)) (nat (rdbuf_len r)) (log_content (rc_disk r))"
    using assms(1) by (simp add: reader_ok_def)
  have "nat (rdbuf_start r) + nat (off - rdbuf_start r) = nat off"
    using False assms by (simp add: reader_ok_def nat_add_distrib [symmetric])
  moreover have m: "min (nat need) (nat (rdbuf_len r) - nat (off - rdbuf_start r)) = nat need"
    using False by linarith
  ultimately have "rd (nat (off - rdbuf_start r)) (nat need) (rdbuf r) = rd (nat off) (nat need) (log_content (rc_disk r))"
    unfolding b rd_rd using False m by simp
  then show ?thesis using False assms(1) by (simp add: ensure_bytes_def same_log_def)
next
  case True
  let ?cap = "max (max (rdbuf_cap r) (2 ^ 20)) (nat need)" and ?c = "log_content (rc_disk r)"
  let ?t = "min (log_end r - off) (int ?cap)"
  have t: "need \<le> ?t" "0 < ?t" "off + ?t \<le> int (length ?c)" "?t < 2 ^ 31" "off < 2 ^ 31" "?cap < 2 ^ 31"
  proof -
    have r: "log_end r \<le> int (length ?c)" "int (length ?c) < 2 ^ 31" "rdbuf_cap r < 2 ^ 31"
      using assms(1) by (simp_all add: reader_ok_def)
    have n: "need < 2 ^ 31" using r assms by linarith
    have "nat need < 2 ^ 31" using n assms(3) by (simp add: nat_less_iff)
    then show cap: "?cap < 2 ^ 31" using r(3) by simp
    have "need \<le> int ?cap" by simp
    then show t: "need \<le> ?t" using assms(4) by simp
    then show "0 < ?t" using assms(3) by linarith
    show "off + ?t \<le> int (length ?c)" "?t < 2 ^ 31" "off < 2 ^ 31"
      using r assms(2-4) min.cobounded1 [of "log_end r - off" "int ?cap"] by linarith+
  qed
  obtain d' where d': "read_log (rc_disk r) ?t off = Inr (?t, rd (nat off) (nat ?t) ?c, d')" "log_ready d'" "log_content d' = ?c"
    using read_log_ready [OF _ assms(2) t(2,3)] assms(1) unfolding reader_ok_def by blast
  have i: "i32 ?t = ?t" "i32 off = off" by (rule i32_id; use t assms(2) in \<open>linarith\<close>)+
  have s: "rd 0 (nat need) (rd (nat off) (nat ?t) ?c) = rd (nat off) (nat need) ?c"
    unfolding rd_rd using nat_mono [OF t(1)] by (simp only: add_0_right diff_zero min_absorb1)
  let ?r = "r\<lparr>rdbuf_cap := ?cap, rc_disk := d', rdbuf := rd (nat off) (nat ?t) ?c, rdbuf_start := off, rdbuf_len := ?t\<rparr>"
  have "\<not> ?t < need" using t(1) by (simp only: not_less)
  then have "ensure_bytes off need r = Inr (Some (rd (nat off) (nat need) ?c), ?r)"
    unfolding ensure_bytes_def Let_def i d'(1) raised_def sum.case and_then.simps prod.case s using True by (simp only: if_True if_False)
  moreover have "same_log r ?r" by (rule same_log_refill [OF assms(1) d'(2,3) assms(2) t(3,6)])
  ultimately show ?thesis by blast
qed

text \<open>What lies at an offset of a log that ends at \<open>e\<close>.\<close>

definition one_at :: "bytes \<Rightarrow> int \<Rightarrow> int \<Rightarrow> bytes option" where
  "one_at c e off =
     (let tot = le_dec_u (rd (nat off + OFFSET_LOG_TOT_LEN) 4 c)
      in if e < off + int LOG_HEADER_SIZE \<or> tot < int LOG_HEADER_SIZE \<or> e < off + tot then None
         else Some (rd (nat off) (nat tot) c))"

definition batch_at :: "bytes \<Rightarrow> int \<Rightarrow> int \<Rightarrow> bytes option" where
  "batch_at c e off =
     (let blen = le_dec_u (rd (nat off + 4) 4 c); body = rd (nat off + WAL_BATCH_HDR_SIZE) (nat blen) c
      in if e < off + int WAL_BATCH_HDR_SIZE \<or> le_dec_u (rd (nat off) 4 c) \<noteq> WAL_BATCH_MAGIC \<or> blen = 0
            \<or> e < off + int WAL_BATCH_HDR_SIZE + blen \<or> uint (wal_crc32 body) \<noteq> le_dec_u (rd (nat off + 8) 4 c)
         then None else Some body)"

lemma same_log_trans: "same_log r r' \<Longrightarrow> same_log r' r'' \<Longrightarrow> same_log r r''"
  by (simp add: same_log_def)

lemma same_logD: "same_log r r' \<Longrightarrow> reader_ok r' \<and> log_end r' = log_end r \<and> log_content (rc_disk r') = log_content (rc_disk r)"
  by (simp add: same_log_def)

lemma read_one_ok:
  assumes "reader_ok r" and "0 \<le> off"
  shows "\<exists>r'. same_log r r' \<and> read_one off r = Inr (case one_at (log_content (rc_disk r)) (log_end r) off of
           None \<Rightarrow> (0, [], r') | Some bs \<Rightarrow> (int (length bs), bs, r'))"
proof (cases "log_end r < off + int LOG_HEADER_SIZE")
  case True
  with assms show ?thesis by (intro exI [of _ r]) (simp add: read_one_def one_at_def same_log_def)
next
  case False
  let ?c = "log_content (rc_disk r)"
  obtain r1 where 1: "ensure_bytes off (int LOG_HEADER_SIZE) r = Inr (Some (rd (nat off) LOG_HEADER_SIZE ?c), r1)" "same_log r r1"
    using ensure_bytes_ok [OF assms, of "int LOG_HEADER_SIZE"] False by (auto simp: log_offsets)
  let ?tot = "le_dec_u (rd (nat off + OFFSET_LOG_TOT_LEN) 4 ?c)"
  have h: "rd OFFSET_LOG_TOT_LEN 4 (rd (nat off) LOG_HEADER_SIZE ?c) = rd (nat off + OFFSET_LOG_TOT_LEN) 4 ?c"
    by (simp add: rd_rd log_offsets)
  show ?thesis
  proof (cases "?tot < int LOG_HEADER_SIZE \<or> log_end r < off + ?tot")
    case True
    with 1 False same_logD [OF 1(2)] show ?thesis
      by (intro exI [of _ r1]) (auto simp: read_one_def one_at_def Let_def h)
  next
    case ok: False
    have e: "log_end r < 2 ^ 31" "log_end r \<le> int (length ?c)" using assms by (auto simp: reader_ok_def)
    have i: "i32 ?tot = ?tot" "0 < ?tot" using ok e assms(2) by (auto simp: log_offsets intro!: i32_id)
    have l: "int (length (rd (nat off) (nat ?tot) ?c)) = ?tot" using ok e i assms(2) by (subst length_rd) auto
    obtain r2 where 2: "ensure_bytes off ?tot r1 = Inr (Some (rd (nat off) (nat ?tot) ?c), r2)" "same_log r1 r2"
      using ensure_bytes_ok [of r1 off ?tot] same_logD [OF 1(2)] ok i assms(2) by auto
    show ?thesis
    proof (intro exI [of _ r2] conjI)
      have "one_at ?c (log_end r) off = Some (rd (nat off) (nat ?tot) ?c)"
        using False ok unfolding one_at_def Let_def by simp
      moreover have "read_one off r = Inr (?tot, rd (nat off) (nat ?tot) ?c, r2)"
        unfolding read_one_def Let_def using False ok same_logD [OF 1(2)] l
        by (simp only: 1(1) 2(1) h i if_False if_True and_then.simps prod.case option.case de_Morgan_disj simp_thms less_irrefl)
      ultimately show "read_one off r = Inr (case one_at ?c (log_end r) off of
           None \<Rightarrow> (0, [], r2) | Some bs \<Rightarrow> (int (length bs), bs, r2))"
        by (simp only: option.case l)
    qed (rule same_log_trans [OF 1(2) 2(2)])
  qed
qed

lemma read_batch_ok:
  assumes "reader_ok r" and "0 \<le> off"
  shows "\<exists>r'. same_log r r' \<and> read_batch off r = Inr (case batch_at (log_content (rc_disk r)) (log_end r) off of
           None \<Rightarrow> (0, 0, 0, r')
         | Some b \<Rightarrow> (int WAL_BATCH_HDR_SIZE + int (length b), off + int WAL_BATCH_HDR_SIZE, int (length b), r'))"
proof (cases "log_end r < off + int WAL_BATCH_HDR_SIZE")
  case True
  with assms show ?thesis by (intro exI [of _ r]) (simp add: read_batch_def batch_at_def same_log_def Let_def)
next
  case False
  let ?c = "log_content (rc_disk r)" and ?W = "int WAL_BATCH_HDR_SIZE"
  obtain r1 where 1: "ensure_bytes off ?W r = Inr (Some (rd (nat off) WAL_BATCH_HDR_SIZE ?c), r1)" "same_log r r1"
    using ensure_bytes_ok [OF assms, of ?W] False by (auto simp: WAL_BATCH_HDR_SIZE_def)
  let ?bl = "le_dec_u (rd (nat off + 4) 4 ?c)"
  have h: "rd 0 4 (rd (nat off) WAL_BATCH_HDR_SIZE ?c) = rd (nat off) 4 ?c"
    "rd 4 4 (rd (nat off) WAL_BATCH_HDR_SIZE ?c) = rd (nat off + 4) 4 ?c"
    "rd 8 4 (rd (nat off) WAL_BATCH_HDR_SIZE ?c) = rd (nat off + 8) 4 ?c"
    by (simp_all add: rd_rd WAL_BATCH_HDR_SIZE_def)
  show ?thesis
  proof (cases "le_dec_u (rd (nat off) 4 ?c) \<noteq> WAL_BATCH_MAGIC \<or> ?bl = 0 \<or> log_end r < off + ?W + ?bl")
    case True
    with 1 False same_logD [OF 1(2)] show ?thesis
      by (intro exI [of _ r1]) (auto simp: read_batch_def batch_at_def Let_def h)
  next
    case ok: False
    have e: "log_end r < 2 ^ 31" "log_end r \<le> int (length ?c)" using assms by (auto simp: reader_ok_def)
    have pos: "0 < ?bl" using ok le_dec_u_bounds [of "rd (nat off + 4) 4 ?c"] by linarith
    have i: "i32 ?bl = ?bl" using ok e assms(2) pos by (auto intro!: i32_id)
    have n: "nat (off + ?W) = nat off + WAL_BATCH_HDR_SIZE" using assms(2) by (simp add: nat_add_distrib)
    have l: "int (length (rd (nat off + WAL_BATCH_HDR_SIZE) (nat ?bl) ?c)) = ?bl"
      using ok e pos assms(2) by (subst length_rd) auto
    obtain r2 where 2: "ensure_bytes (off + ?W) ?bl r1 = Inr (Some (rd (nat off + WAL_BATCH_HDR_SIZE) (nat ?bl) ?c), r2)" "same_log r1 r2"
      using ensure_bytes_ok [of r1 "off + ?W" ?bl] same_logD [OF 1(2)] ok pos assms(2) n by auto
    show ?thesis
    proof (intro exI [of _ r2] conjI)
      let ?b = "rd (nat off + WAL_BATCH_HDR_SIZE) (nat ?bl) ?c"
      have "batch_at ?c (log_end r) off = (if uint (wal_crc32 ?b) \<noteq> le_dec_u (rd (nat off + 8) 4 ?c) then None else Some ?b)"
        using False ok unfolding batch_at_def Let_def by simp
      moreover have "read_batch off r = (if uint (wal_crc32 ?b) \<noteq> le_dec_u (rd (nat off + 8) 4 ?c) then Inr (0, 0, 0, r2)
          else Inr (?W + ?bl, off + ?W, ?bl, r2))"
        unfolding read_batch_def Let_def using False ok same_logD [OF 1(2)] l
        by (simp only: 1(1) 2(1) h i if_False if_True and_then.simps prod.case option.case de_Morgan_disj simp_thms less_irrefl)
      ultimately show "read_batch off r = Inr (case batch_at ?c (log_end r) off of None \<Rightarrow> (0, 0, 0, r2)
          | Some b \<Rightarrow> (?W + int (length b), off + ?W, int (length b), r2))"
        by (cases "uint (wal_crc32 ?b) = le_dec_u (rd (nat off + 8) 4 ?c)") (simp_all only: simp_thms if_True if_False option.case l)
    qed (rule same_log_trans [OF 1(2) 2(2)])
  qed
qed

section \<open>Scanning a well-formed log\<close>

text \<open>The effect of a loop body on a list of records, the first exception ending the loop.\<close>

primrec each :: "('b \<Rightarrow> 'a \<Rightarrow> rec_error + 'a) \<Rightarrow> 'b list \<Rightarrow> 'a \<Rightarrow> rec_error + 'a" where
  "each f [] a = Inr a"
| "each f (x # xs) a = and_then (f x a) (each f xs)"

lemma each_append: "each f (xs @ ys) a = and_then (each f xs a) (each f ys)"
proof (induction xs arbitrary: a)
  case (Cons x xs)
  then show ?case by (cases "f x a") simp_all
qed simp

lemma rd_middle: "rd (length p + k) n (p @ m @ q) = rd k n (m @ q)"
  by (simp add: rd_def)

lemma rd_front: "k + n \<le> length m \<Longrightarrow> rd k n (m @ q) = rd k n m"
  by (simp add: rd_def)

lemma rd_all [simp]: "rd 0 (length m) m = m"
  by (simp add: rd_def)

lemma tot_len_hdr_image: "hdr_fits h \<Longrightarrow> le_dec_u (rd OFFSET_LOG_TOT_LEN 4 (hdr_image h @ rest)) = log_tot_len h"
  by (simp add: hdr_image_def rd_def log_offsets codec_simps hdr_fits_def)

lemmas tot_len_hdr_only = tot_len_hdr_image [of _ "[]", simplified]

lemma tot_len_image:
  assumes "fits_any r"
  shows "le_dec_u (rd OFFSET_LOG_TOT_LEN 4 (image_any r)) = int (length (image_any r))"
proof -
  have "le_dec_u (rd OFFSET_LOG_TOT_LEN 4 (image_any r)) = tot_len_any r"
    using assms
    by (cases r) (auto simp: tot_len_hdr_image tot_len_hdr_only insert_image_def delete_image_def update_image_def delta_image_def
        hdr_only_fits_def insert_fits_def delete_fits_def update_fits_def delta_fits_def)
  then show ?thesis using any_log.len_image [OF assms] by simp
qed

lemma one_at_image:
  assumes "fits_any r" and "int (length p + length (image_any r)) \<le> e"
  shows "one_at (p @ image_any r @ q) e (int (length p)) = Some (image_any r)"
proof -
  have ge: "LOG_HEADER_SIZE \<le> length (image_any r)" by (rule image_any_ge [OF assms(1)])
  then have "OFFSET_LOG_TOT_LEN + 4 \<le> length (image_any r)" by (simp add: log_offsets)
  then have "le_dec_u (rd (length p + OFFSET_LOG_TOT_LEN) 4 (p @ image_any r @ q)) = int (length (image_any r))"
    by (simp add: rd_middle rd_front tot_len_image [OF assms(1)])
  moreover have "rd (length p) (length (image_any r)) (p @ image_any r @ q) = image_any r"
    using rd_middle [of p 0] by (simp add: rd_front)
  ultimately show ?thesis using assms(2) ge by (simp add: one_at_def)
qed

lemma one_at_end: "e \<le> off \<Longrightarrow> one_at c e off = None"
  by (simp add: one_at_def log_offsets)

lemma scan_records_images:
  assumes "reader_ok r" and "log_content (rc_disk r) = p @ images rs @ q" and "list_all fits_any rs"
    and "log_end r = int (length (p @ images rs))" and "each f (map image_any rs) a = Inr a'"
  shows "\<exists>r'. scan_records f (int (length p)) r a = Inr (log_end r, r', a') \<and> same_log r r'"
  using assms
proof (induction rs arbitrary: p r a)
  case Nil
  then show ?case using read_one_ok [of r "int (length p)"]
    by (auto simp: scan_records.simps [of f "int (length p)"] one_at_end)
next
  case (Cons x rs)
  have x: "fits_any x" and rs: "list_all fits_any rs" using Cons.prems(3) by simp_all
  have c: "log_content (rc_disk r) = p @ image_any x @ images rs @ q" using Cons.prems(2) by (simp add: images_def)
  have e: "log_end r = int (length ((p @ image_any x) @ images rs))" using Cons.prems(4) by (simp add: images_def)
  have o: "one_at (log_content (rc_disk r)) (log_end r) (int (length p)) = Some (image_any x)"
    unfolding c by (rule one_at_image [OF x]) (simp add: e)
  obtain r1 where r1: "same_log r r1" "read_one (int (length p)) r = Inr (int (length (image_any x)), image_any x, r1)"
    using read_one_ok [OF Cons.prems(1), of "int (length p)"] unfolding o by auto
  obtain a1 where a1: "f (image_any x) a = Inr a1" "each f (map image_any rs) a1 = Inr a'"
    using Cons.prems(5) by (auto simp: and_then_Inr_iff)
  have "image_any x \<noteq> []" using image_any_ge [OF x] by (auto simp: log_offsets)
  then have "scan_records f (int (length p)) r a = scan_records f (int (length (p @ image_any x))) r1 a1"
    by (subst scan_records.simps) (simp add: r1(2) a1(1))
  moreover have "\<exists>r'. scan_records f (int (length (p @ image_any x))) r1 a1 = Inr (log_end r1, r', a') \<and> same_log r1 r'"
    using Cons.IH [of r1 "p @ image_any x" a1] same_logD [OF r1(1)] c e rs a1(2) by simp
  ultimately show ?case using r1(1) same_log_trans [OF r1(1)] same_logD [OF r1(1)] by auto
qed

lemma batch_at_frame:
  assumes "images rs \<noteq> []" and "int (length (images rs)) < 2 ^ 32" and "int (length (p @ batch_frame rs)) \<le> e"
  shows "batch_at (p @ batch_frame rs @ q) e (int (length p)) = Some (images rs)"
proof -
  let ?c = "p @ batch_frame rs @ q" and ?b = "images rs"
  have f: "batch_frame rs = le_enc 4 WAL_BATCH_MAGIC @ le_enc 4 (int (length ?b)) @ le_enc 4 (uint (wal_crc32 ?b)) @ ?b"
    by (simp add: batch_frame_def batch_header_def)
  have "in_u 4 (uint (wal_crc32 ?b))" using uint_lt2p [of "wal_crc32 ?b"] by (simp add: in_u_def)
  moreover have "in_u 4 (int (length ?b))" "in_u 4 WAL_BATCH_MAGIC" using assms(2) by (simp_all add: in_u_def WAL_BATCH_MAGIC_def)
  ultimately have w: "le_dec_u (rd (length p) 4 ?c) = WAL_BATCH_MAGIC" "le_dec_u (rd (length p + 4) 4 ?c) = int (length ?b)"
      "le_dec_u (rd (length p + 8) 4 ?c) = uint (wal_crc32 ?b)"
    using rd_middle [of p 0 4] by (simp_all add: f rd_middle rd_def codec_simps)
  have "rd (length p + WAL_BATCH_HDR_SIZE) (length ?b) ?c = ?b"
    by (simp add: f rd_def WAL_BATCH_HDR_SIZE_def)
  then show ?thesis using assms w by (simp add: batch_at_def)
qed

definition batches_fit :: "any_log list list \<Rightarrow> bool" where
  "batches_fit bs \<longleftrightarrow> (\<forall>b \<in> set bs. b \<noteq> [] \<and> list_all fits_any b)"

lemma reader_ok_set_end: "reader_ok r \<Longrightarrow> e \<le> int (length (log_content (rc_disk r))) \<Longrightarrow> reader_ok (r\<lparr>log_end := e\<rparr>)"
  by (simp add: reader_ok_def)

lemma scan_one_batch:
  assumes "reader_ok r" and "log_content (rc_disk r) = p @ batch_frame b @ q" and "b \<noteq> []" and "list_all fits_any b"
    and "int (length (p @ batch_frame b)) \<le> log_end r" and "each f (map image_any b) a = Inr a1"
  shows "\<exists>r'. scan_batches f (int (length p)) r a = scan_batches f (int (length (p @ batch_frame b))) r' a1 \<and> same_log r r'"
proof -
  let ?W = "int WAL_BATCH_HDR_SIZE" and ?c = "log_content (rc_disk r)"
  have im: "images b \<noteq> []" using assms(3,4) by (simp add: images_empty_iff)
  have "int (length ?c) < 2 ^ 31" using assms(1) by (simp add: reader_ok_def)
  then have "int (length (images b)) < 2 ^ 32" using assms(2) by simp
  then have o: "batch_at ?c (log_end r) (int (length p)) = Some (images b)"
    unfolding assms(2) using im assms(5) by (intro batch_at_frame)
  obtain r1 where r1: "same_log r r1" "read_batch (int (length p)) r
      = Inr (?W + int (length (images b)), int (length p) + ?W, int (length (images b)), r1)"
    using read_batch_ok [OF assms(1), of "int (length p)"] unfolding o by auto
  let ?e = "int (length p) + ?W + int (length (images b))"
  have e: "?e \<le> int (length ?c)" by (simp add: assms(2))
  let ?r1 = "r1\<lparr>log_end := ?e\<rparr>"
  have "\<exists>r'. scan_records f (int (length (p @ batch_header (images b)))) ?r1 a = Inr (log_end ?r1, r', a1) \<and> same_log ?r1 r'"
  proof (rule scan_records_images)
    show "reader_ok ?r1" using same_logD [OF r1(1)] e by (simp add: reader_ok_set_end)
    show "log_content (rc_disk ?r1) = (p @ batch_header (images b)) @ images b @ q"
      using same_logD [OF r1(1)] assms(2) by (simp add: batch_frame_def)
  qed (use assms(4,6) in \<open>simp_all add: batch_header_def WAL_BATCH_HDR_SIZE_def\<close>)
  then obtain r2 where r2: "scan_records f (int (length p) + ?W) ?r1 a = Inr (?e, r2, a1)" "same_log ?r1 r2"
    by (auto simp: batch_header_def WAL_BATCH_HDR_SIZE_def add.assoc)
  have "same_log r (r2\<lparr>log_end := log_end r1\<rparr>)"
    using r1(1) r2(2) by (auto simp: same_log_def reader_ok_def)
  moreover have "scan_batches f (int (length p)) r a = scan_batches f (int (length p) + (?W + int (length (images b)))) (r2\<lparr>log_end := log_end r1\<rparr>) a1"
  proof -
    have "0 < ?W + int (length (images b))" by (simp add: WAL_BATCH_HDR_SIZE_def)
    then show ?thesis by (subst scan_batches.simps) (simp only: r1(2) r2(1) sum.case prod.case if_True)
  qed
  ultimately show ?thesis by (auto simp: add.assoc)
qed

text \<open>
  A scan of a log that holds framed batches and then something that is not a valid batch runs the loop body on every record, in
  order, and stops at the end of the last batch.
\<close>

lemma scan_batches_frames:
  assumes "reader_ok r" and "log_content (rc_disk r) = p @ batch_frames bs @ q" and "batches_fit bs"
    and "int (length (p @ batch_frames bs)) \<le> log_end r"
    and "batch_at (log_content (rc_disk r)) (log_end r) (int (length (p @ batch_frames bs))) = None"
    and "each f (map image_any (concat bs)) a = Inr a'"
  shows "\<exists>r'. scan_batches f (int (length p)) r a = Inr (int (length (p @ batch_frames bs)), r', a') \<and> same_log r r'"
  using assms
proof (induction bs arbitrary: p r a)
  case Nil
  then show ?case using read_batch_ok [of r "int (length p)"]
    by (auto simp: scan_batches.simps [of f "int (length p)"])
next
  case (Cons b bs)
  have fr: "batch_frames (b # bs) = batch_frame b @ batch_frames bs" by (simp add: batch_frames_def)
  have b: "b \<noteq> []" "list_all fits_any b" "batches_fit bs" using Cons.prems(3) by (simp_all add: batches_fit_def)
  obtain a1 where a1: "each f (map image_any b) a = Inr a1" "each f (map image_any (concat bs)) a1 = Inr a'"
    using Cons.prems(6) by (auto simp: each_append and_then_Inr_iff)
  obtain r1 where r1: "scan_batches f (int (length p)) r a = scan_batches f (int (length (p @ batch_frame b))) r1 a1" "same_log r r1"
    using scan_one_batch [OF Cons.prems(1) _ b(1,2) _ a1(1), of p "batch_frames bs @ q"] Cons.prems(2,4) fr by auto
  have "\<exists>r'. scan_batches f (int (length (p @ batch_frame b))) r1 a1 = Inr (int (length ((p @ batch_frame b) @ batch_frames bs)), r', a') \<and> same_log r1 r'"
    using Cons.prems(2,4,5) same_logD [OF r1(2)] b(3) a1(2)
    by (intro Cons.IH) (simp_all add: fr add.assoc)
  then show ?case using r1(1) same_log_trans [OF r1(2)] fr by (auto simp: add.assoc)
qed

end
