(* ===== verification/Recovery_Tables.thy ===== *)
theory Recovery_Tables
  imports Record_Store Recovery_Scan
begin

text \<open>
  What recovery does to the table files, \<^verbatim>\<open>src/src/recovery/log_recovery.cpp\<close>: extending a file to a page number and the three
  idempotent operations on a record id, on the open files of \<^verbatim>\<open>SmManager\<close> over one buffer pool. The files with different
  descriptors do not disturb each other, and a pool in which nothing is pinned always has a frame, so that every operation
  returns and its effect is the expected change of one row of one table.
\<close>

section \<open>Operations on one file\<close>

type_synonym 'a rc = "RmFileHandle \<times> bpm \<Rightarrow> rec_error + 'a \<times> (RmFileHandle \<times> bpm)"

definition rc_return :: "'a \<Rightarrow> 'a rc" where
  "rc_return x st = Inr (x, st)"

definition rc_bind :: "'a rc \<Rightarrow> ('a \<Rightarrow> 'b rc) \<Rightarrow> 'b rc" where
  "rc_bind m k st = and_then (m st) (\<lambda>(x, st'). k x st')"

definition lift_rm :: "'a rm \<Rightarrow> 'a rc" where
  "lift_rm m st =
     (case m st of
        None \<Rightarrow> Inl Waits
      | Some (Inl e, _) \<Rightarrow> Inl (Raised e)
      | Some (Inr x, st') \<Rightarrow> Inr (x, st'))"

text \<open>The callees copy \<^verbatim>\<open>record_size\<close> bytes from the pointer they get; a shorter row image is read past its end.\<close>

definition need_row :: "bytes \<Rightarrow> unit rc" where
  "need_row data = (\<lambda>(f, s). if int (length data) < record_size (file_hdr f) then Inl BadRecord else Inr ((), (f, s)))"

lemma create_new_page_handle_num_pages:
  "create_new_page_handle (f, s) = Some (Inr fr, (f', s')) \<Longrightarrow> num_pages (file_hdr f') = num_pages (file_hdr f) + 1"
  by (auto simp: create_new_page_handle_def Let_def set_hdr_def split: prod.splits sum.splits option.splits)

function ensure_pages :: "int \<Rightarrow> unit rc" where
  "ensure_pages n (f, s) =
     (if num_pages (file_hdr f) \<le> n
      then case create_new_page_handle (f, s) of
             None \<Rightarrow> Inl Waits
           | Some (Inl e, _) \<Rightarrow> Inl (Raised e)
           | Some (Inr fr, (f', s')) \<Rightarrow> ensure_pages n (f', snd (unpin_page (pg_id (pages s' fr)) True s'))
      else Inr ((), (f, s)))"
  by pat_completeness auto
termination
  by (relation "measure (\<lambda>(n, (f, s)). nat (n + 1 - num_pages (file_hdr f)))") (auto dest!: create_new_page_handle_num_pages)

declare ensure_pages.simps [simp del]

definition put_row :: "Rid \<Rightarrow> bytes \<Rightarrow> unit rc" where
  "put_row rid data =
     rc_bind (lift_rm (is_record rid)) (\<lambda>b.
     rc_bind (need_row data) (\<lambda>_.
       if b then lift_rm (update_record rid data) else lift_rm (insert_record_at rid data)))"

definition apply_insert :: "Rid \<Rightarrow> bytes \<Rightarrow> unit rc" where
  "apply_insert rid data = rc_bind (ensure_pages (page_no rid)) (\<lambda>_. put_row rid data)"

definition apply_update :: "Rid \<Rightarrow> bytes \<Rightarrow> unit rc" where
  "apply_update rid data = rc_bind (ensure_pages (page_no rid)) (\<lambda>_. put_row rid data)"

definition apply_delete :: "Rid \<Rightarrow> unit rc" where
  "apply_delete rid =
     rc_bind (ensure_pages (page_no rid)) (\<lambda>_.
     rc_bind (lift_rm (is_record rid)) (\<lambda>b.
       if b then lift_rm (delete_record rid) else rc_return ()))"

text \<open>The branches \<^verbatim>\<open>UPDATE_DELTA\<close> of the two passes, with the new row as a function of the old one; the result tells whether there was a row.\<close>

definition apply_patch :: "Rid \<Rightarrow> (bytes \<Rightarrow> bytes) \<Rightarrow> bool rc" where
  "apply_patch rid g =
     rc_bind (ensure_pages (page_no rid)) (\<lambda>_.
     rc_bind (lift_rm (is_record rid)) (\<lambda>b.
       if b
       then rc_bind (lift_rm (get_record rid)) (\<lambda>cur. rc_bind (apply_update rid (g cur)) (\<lambda>_. rc_return True))
       else rc_return False))"

text \<open>The branch \<^verbatim>\<open>DELETE\<close> of the undo pass.\<close>

definition apply_restore :: "Rid \<Rightarrow> bytes \<Rightarrow> unit rc" where
  "apply_restore rid data =
     rc_bind (ensure_pages (page_no rid)) (\<lambda>_.
     rc_bind (lift_rm (is_record rid)) (\<lambda>b.
       if b then rc_return () else rc_bind (need_row data) (\<lambda>_. lift_rm (insert_record_at rid data))))"

section \<open>A pool with nothing pinned\<close>

text \<open>No page is held, and some shard has a free frame or one to evict.\<close>

definition has_frame :: "bpm \<Rightarrow> bool" where
  "has_frame s \<longleftrightarrow> (\<exists>i < BPM_NSHARDS. free_frames (shards s i) \<noteq> [] \<or> LRUlist (sh_repl (shards s i)) \<noteq> [])"

definition idle :: "bpm \<Rightarrow> bool" where
  "idle s \<longleftrightarrow> (\<forall>q. pid_range q \<longrightarrow> pins s q = 0) \<and> has_frame s"

lemma reserve_scan_some:
  assumes "\<exists>i \<in> set is. free_frames (shards s i) \<noteq> [] \<or> LRUlist (sh_repl (shards s i)) \<noteq> []"
  shows "reserve_scan is s \<noteq> None"
  using assms
proof (induction "is" arbitrary: s)
  case (Cons i "is")
  show ?case
  proof (cases "free_frames (shards s i)")
    case Nil
    obtain v r where v: "victim (sh_repl (shards s i)) = (v, r)" by (cases "victim (sh_repl (shards s i))")
    show ?thesis
    proof (cases v)
      case None
      then have e: "LRUlist (sh_repl (shards s i)) = []" "r = sh_repl (shards s i)"
        using v by (simp_all add: victim_def Let_def split: if_splits)
      then have "shards (upd_shard i (\<lambda>sh. sh\<lparr>sh_repl := r\<rparr>) s) j = shards s j" for j by (simp add: upd_shard_def)
      then show ?thesis using Cons.IH [of "upd_shard i (\<lambda>sh. sh\<lparr>sh_repl := r\<rparr>) s"] Cons.prems Nil v None e(1) by auto
    qed (simp add: Nil v Let_def)
  qed simp
qed simp

lemma reserve_victim_some:
  assumes "has_frame s"
  shows "reserve_victim k s \<noteq> None"
proof -
  obtain i where i: "i < BPM_NSHARDS" "free_frames (shards s i) \<noteq> [] \<or> LRUlist (sh_repl (shards s i)) \<noteq> []"
    using assms by (auto simp: has_frame_def)
  let ?m = "k mod BPM_NSHARDS"
  let ?j = "if ?m \<le> i then i - ?m else i + BPM_NSHARDS - ?m"
  have m: "?m < BPM_NSHARDS" by (simp add: BPM_NSHARDS_def)
  have "(k + ?j) mod BPM_NSHARDS = (?m + ?j) mod BPM_NSHARDS" by (simp only: mod_add_left_eq)
  also have "\<dots> = i"
  proof (cases "?m \<le> i")
    case False
    then have "?m + ?j = i + BPM_NSHARDS" using m by simp
    then show ?thesis using i(1) by simp
  qed (use i(1) in simp)
  finally have "?j < BPM_NSHARDS \<and> (k + ?j) mod BPM_NSHARDS = i" using i(1) m by auto
  then have "i \<in> set (map (\<lambda>j. (k + j) mod BPM_NSHARDS) [0..<BPM_NSHARDS])" by (auto intro!: image_eqI [of _ _ ?j])
  then show ?thesis unfolding reserve_victim_def using i(2) by (intro reserve_scan_some) blast
qed

lemma idle_no_frame:
  assumes "pool_ok X s" and "idle s"
  shows "\<not> no_frame f n s"
proof
  assume nf: "no_frame f n s"
  let ?p = "rm_pid f n"
  let ?s = "upd_shard (shard_of_page ?p) (inflight_insert (page_key ?p)) s"
  have "free_frames (shards ?s i) = free_frames (shards s i)" "sh_repl (shards ?s i) = sh_repl (shards s i)" for i
    by (simp_all add: inflight_insert_def upd_shard_def)
  then have "has_frame ?s" using assms(2) by (simp add: idle_def has_frame_def)
  then obtain g old need s2 where r: "reserve_victim (shard_of_page ?p) ?s = Some (g, old, need, s2)"
    using reserve_victim_some [of ?s "shard_of_page ?p"] by auto
  show False
    using nf r by (auto simp: no_frame_def fetch_page_def fetch_start_def fetch_finish_def Let_def split: option.splits if_splits prod.splits)
qed

lemma idle_new_page:
  assumes "idle s" and "new_page fd s = (Inr r, s')"
  shows "r \<noteq> None"
proof
  assume "r = None"
  then obtain pno d where "allocate_page (bp_disk s) fd = Inr (pno, d)"
      "reserve_victim (shard_of_page \<lparr>pg_fd = fd, pg_no = pno\<rparr>) (s\<lparr>bp_disk := d\<rparr>) = None"
    using assms(2) by (auto simp: new_page_def Let_def split: sum.splits option.splits prod.splits)
  moreover have "has_frame (s\<lparr>bp_disk := d\<rparr>)" for d using assms(1) by (simp add: idle_def has_frame_def)
  ultimately show False using reserve_victim_some by blast
qed

lemma resident_idle:
  assumes "pool_ok X s" and "\<And>q. pid_range q \<Longrightarrow> pins s q = 0" and "pid_range p" and "lookup s p \<noteq> None"
  shows "idle s"
proof -
  obtain g where g: "lookup s p = Some g" using assms(4) by blast
  have inv: "bpm_inv X {} s" by (rule pool_okD(1) [OF assms(1)])
  have pid: "pg_id (pages s g) = p" by (rule lookup_pid [OF bpm_invD(1) [OF inv] g assms(3)])
  have "resident s g" "pin_count (pages s g) = 0" using g pid assms(2) [OF assms(3)] by (simp_all add: resident_def pins_def)
  then have "g \<in> set (frames (sh_repl (shards s (shard_of_page p))))"
    using bpm_invD(2) [OF inv] pid by (simp add: repl_ok_def)
  then have "LRUlist (sh_repl (shards s (shard_of_page p))) \<noteq> []" by (auto simp: frames_def)
  then show ?thesis unfolding idle_def has_frame_def using assms(2) shard_of_page_less by blast
qed

lemma visited_idle:
  assumes "visited f n s s'" and "idle s" and "file_inv X f s'" and "pid_range (rm_pid f n)"
  shows "idle s'"
proof (rule resident_idle [OF file_invD(5) [OF assms(3)] _ assms(4)])
  show "pins s' q = 0" if "pid_range q" for q
    using pool.keepsD(2) [of "{rm_pid f n}" "{rm_pid f n}" s s' q] assms(1,2) that by (simp add: visited_def idle_def)
qed (use assms(1) in \<open>simp add: visited_def\<close>)

section \<open>Files do not disturb each other\<close>

text \<open>What a step on the file with descriptor \<open>fd\<close> leaves alone.\<close>

definition others_kept :: "int \<Rightarrow> bpm \<Rightarrow> bpm \<Rightarrow> bool" where
  "others_kept fd s s' \<longleftrightarrow> (\<forall>q y. pid_range q \<longrightarrow> pg_fd q \<noteq> fd \<longrightarrow> page_view s q = Some y \<longrightarrow> page_view s' q = Some y)
     \<and> (\<forall>q. pid_range q \<longrightarrow> pg_fd q \<noteq> fd \<longrightarrow> lookup s' q \<noteq> None \<longrightarrow> lookup s q \<noteq> None)
     \<and> (\<forall>q. pid_ok (bp_disk s') q = pid_ok (bp_disk s) q)
     \<and> (\<forall>k. k \<noteq> fd \<longrightarrow> fd2pageno (bp_disk s') k = fd2pageno (bp_disk s) k)"

lemma others_keptD:
  assumes "others_kept fd s s'"
  shows "pid_range q \<Longrightarrow> pg_fd q \<noteq> fd \<Longrightarrow> page_view s q = Some y \<Longrightarrow> page_view s' q = Some y"
    "pid_range q \<Longrightarrow> pg_fd q \<noteq> fd \<Longrightarrow> lookup s' q \<noteq> None \<Longrightarrow> lookup s q \<noteq> None"
    "pid_ok (bp_disk s') q = pid_ok (bp_disk s) q" "k \<noteq> fd \<Longrightarrow> fd2pageno (bp_disk s') k = fd2pageno (bp_disk s) k"
  using assms unfolding others_kept_def by blast+

lemma others_kept_refl: "others_kept fd s s"
  by (simp add: others_kept_def)

lemma others_kept_trans:
  assumes "others_kept fd s t" and "others_kept fd t u"
  shows "others_kept fd s u"
  unfolding others_kept_def
proof (intro conjI allI impI)
  show "page_view u q = Some y" if "pid_range q" "pg_fd q \<noteq> fd" "page_view s q = Some y" for q y
    by (rule others_keptD(1) [OF assms(2) that(1,2) others_keptD(1) [OF assms(1) that]])
  show "lookup s q \<noteq> None" if "pid_range q" "pg_fd q \<noteq> fd" "lookup u q \<noteq> None" for q
    by (rule others_keptD(2) [OF assms(1) that(1,2) others_keptD(2) [OF assms(2) that]])
  show "pid_ok (bp_disk u) q = pid_ok (bp_disk s) q" for q by (simp only: others_keptD(3) [OF assms(2)] others_keptD(3) [OF assms(1)])
  show "fd2pageno (bp_disk u) k = fd2pageno (bp_disk s) k" if "k \<noteq> fd" for k
    by (simp only: others_keptD(4) [OF assms(2) that] others_keptD(4) [OF assms(1) that])
qed

lemma visited_others: "visited f n s s' \<Longrightarrow> others_kept (rm_fd f) s s'"
proof -
  assume "visited f n s s'"
  then have k: "pool.keeps {rm_pid f n} {rm_pid f n} s s'" by (simp add: visited_def)
  have n: "q \<noteq> rm_pid f n" if "pg_fd q \<noteq> rm_fd f" for q using that by auto
  show ?thesis
    unfolding others_kept_def
  proof (intro conjI allI impI)
    show "page_view s' q = Some y" if "pid_range q" "pg_fd q \<noteq> rm_fd f" "page_view s q = Some y" for q y
      by (rule pool.keepsD(1) [OF k that(1) _ that(3)]) (use n [OF that(2)] in simp)
    show "lookup s q \<noteq> None" if "pid_range q" "pg_fd q \<noteq> rm_fd f" "lookup s' q \<noteq> None" for q
      by (rule pool.keepsD(4) [OF k that(1) _ that(3)]) (use n [OF that(2)] in simp)
    show "pid_ok (bp_disk s') q = pid_ok (bp_disk s) q" for q by (rule pool.keepsD(5) [OF k])
    show "fd2pageno (bp_disk s') j = fd2pageno (bp_disk s) j" for j by (simp only: pool.keepsD(6) [OF k])
  qed
qed

lemma file_inv_others:
  assumes g: "file_inv {} g s" and c: "cached_insert_page g = None" and fd: "rm_fd g \<noteq> fd"
    and k: "others_kept fd s s'" and ok: "pool_ok {} s'"
  shows "file_inv {} g s' \<and> (\<forall>rid. rows g s' rid = rows g s rid)"
proof -
  note b = file_invD(1) [OF g] and st = file_invD(2) [OF g] and sd = store_okD [OF file_invD(2) [OF g]] and kd = others_keptD [OF k]
  have rng: "pid_range (rm_pid g n)" if "in_file g n" for n using rm_pid_range [OF b] in_fileD [OF that] by simp
  have pv: "page_view s' (rm_pid g n) = Some d" if "in_file g n" "page_view s (rm_pid g n) = Some d" for n d
    using kd(1) [OF rng] that fd by simp
  have rows: "rows g s' rid = rows g s rid" for rid
  proof (cases "in_file g (page_no rid)")
    case True
    then obtain d where "page_view s (rm_pid g (page_no rid)) = Some d" using sd(3) page_inD(1) by blast
    then show ?thesis using pv True by (simp add: rows_def)
  qed (simp add: rows_def)
  have "store_ok g s'"
    unfolding store_ok_def
  proof (intro conjI allI impI)
    show "fd2pageno (bp_disk s') (rm_fd g) = num_pages (file_hdr g)" using kd(4) fd sd(1) by simp
    have "pid_ok (bp_disk s) (rm_pid g 0)" using rm_pid_ok [OF b st, of 0] base_okD(4) [OF b] by simp
    then have "pid_ok (bp_disk s') (rm_pid g 0)" using kd(3) by simp
    then show "file_of (bp_disk s') (rm_fd g) \<noteq> None" by (simp add: pid_ok_def)
    show "\<exists>d. page_in g s' n d" if n: "in_file g n" for n
      using sd(3) [OF n] pv [OF n] by (auto simp: page_in_def)
    show "n < num_pages (file_hdr g)" if n: "in_s 4 n" "lookup s' (rm_pid g n) \<noteq> None" for n
    proof -
      have "pid_range (rm_pid g n)" using n(1) base_okD(2,3) [OF b] by (simp add: pid_range_def in_s_def MAX_FD_def)
      then have "lookup s (rm_pid g n) \<noteq> None" using kd(2) n(2) fd by simp
      then show ?thesis using sd(4) n(1) by blast
    qed
  qed
  moreover have "res_ok g s'" using file_invD(4) [OF g] by (simp add: res_ok_def rows)
  moreover have "cache_ok g s'" using file_invD(3) [OF g] c by (simp add: cache_ok_def)
  ultimately show ?thesis using b c ok rows by (simp add: file_inv_def cache_set_def)
qed

section \<open>One file\<close>

text \<open>The files as recovery has them: no cached page and no reservations yet, and an idle pool.\<close>

definition file_ready :: "RmFileHandle \<Rightarrow> bpm \<Rightarrow> bool" where
  "file_ready f s \<longleftrightarrow> file_inv {} f s \<and> cached_insert_page f = None \<and> reserved_inserts f = {} \<and> idle s"

definition file_step :: "RmFileHandle \<Rightarrow> bpm \<Rightarrow> RmFileHandle \<Rightarrow> bpm \<Rightarrow> bool" where
  "file_step f s f' s' \<longleftrightarrow> file_ready f' s' \<and> others_kept (rm_fd f) s s' \<and> rm_fd f' = rm_fd f
     \<and> record_size (file_hdr f') = record_size (file_hdr f) \<and> num_records_per_page (file_hdr f') = num_records_per_page (file_hdr f)
     \<and> num_pages (file_hdr f) \<le> num_pages (file_hdr f')"

lemma file_readyD:
  assumes "file_ready f s"
  shows "file_inv {} f s" "cached_insert_page f = None" "reserved_inserts f = {}" "idle s" "pool_ok {} s"
  using assms file_invD(5) [of "{}" f s] by (simp_all add: file_ready_def cache_set_def)

lemma file_stepD:
  assumes "file_step f s f' s'"
  shows "file_ready f' s'" "others_kept (rm_fd f) s s'" "rm_fd f' = rm_fd f" "record_size (file_hdr f') = record_size (file_hdr f)"
    "num_records_per_page (file_hdr f') = num_records_per_page (file_hdr f)" "num_pages (file_hdr f) \<le> num_pages (file_hdr f')"
  using assms by (simp_all add: file_step_def)

lemma file_step_trans:
  assumes "file_step f s f1 s1" and "file_step f1 s1 f2 s2"
  shows "file_step f s f2 s2"
  using file_stepD [OF assms(1)] file_stepD [OF assms(2)] others_kept_trans [of "rm_fd f" s s1 s2] by (simp add: file_step_def)

lemma file_step_refl: "file_ready f s \<Longrightarrow> file_step f s f s"
  by (simp add: file_step_def others_kept_refl)

lemma file_step_rid: "file_step f s f' s' \<Longrightarrow> valid_rid f rid \<Longrightarrow> valid_rid f' rid"
  using file_stepD(5,6) [of f s f' s'] by (simp add: valid_rid_def in_file_def)

lemma visited_step:
  assumes "file_ready f s" and "visited f (page_no rid) s s'" and "file_inv {} f' s'" and "handle_same f f'" and "valid_rid f rid"
  shows "file_step f s f' s'"
proof -
  have n: "pid_range (rm_pid f (page_no rid))"
    using rm_pid_range [OF file_invD(1) [OF file_readyD(1) [OF assms(1)]]] in_fileD [OF valid_ridD(1) [OF assms(5)]] by simp
  have pid: "rm_pid f' m = rm_pid f m" for m using assms(4) by (auto simp: handle_same_def)
  have "visited f' (page_no rid) s s'" using assms(2) by (simp add: visited_def pid)
  then have "idle s'" by (rule visited_idle [OF _ file_readyD(4) [OF assms(1)] assms(3)]) (simp add: pid n)
  then show ?thesis using assms(3,4) visited_others [OF assms(2)] file_readyD(2,3) [OF assms(1)]
    by (auto simp: file_step_def file_ready_def handle_same_def)
qed

subsection \<open>More pages\<close>

lemma blank_page_unlinked:
  assumes "hdr_ok h"
  shows "set_bitmap (bm_init (nat (bitmap_size h))) (set_next_free_page_no RM_NO_PAGE (set_num_records 0 zero_page)) = blank_page h RM_NO_PAGE"
proof -
  let ?e = "set_next_free_page_no RM_NO_PAGE (set_num_records 0 zero_page)"
  let ?d = "set_bitmap (bm_init (nat (bitmap_size h))) ?e"
  have z: "length zero_page = PAGE_SIZE" by simp
  have e: "length ?e = PAGE_SIZE" by (rule set_header_simps(1) [OF set_header_simps(2) [OF z]])
  have b: "length (bm_init (nat (bitmap_size h))) = nat (bitmap_size h)" by simp
  have d: "length ?d = PAGE_SIZE" by (rule set_bitmap_simps(1) [OF assms e b])
  have bs: "0 \<le> bitmap_size h" "bitmap_size h \<le> 4084"
    using hdr_okD(3,5,7) [OF assms] mult_nonneg_nonneg [of "num_records_per_page h" "record_size h"] hdr_okD(1) [OF assms] by linarith+
  have "rd OFFSET_PAGE_HDR 4 ?d = rd OFFSET_PAGE_HDR 4 ?e"
    unfolding set_bitmap_def using e bs by (intro rd_wr_other) (auto simp: OFFSET_PAGE_HDR_def bitmap_off_def PAGE_SIZE_def)
  also have "\<dots> = le_enc 4 RM_NO_PAGE"
    unfolding set_next_free_page_no_def using set_header_simps(2) [OF z, of 0]
    by (intro rd_wr_same) (simp_all add: OFFSET_PAGE_HDR_def PAGE_SIZE_def)
  finally have "wr OFFSET_PAGE_HDR (le_enc 4 RM_NO_PAGE) ?d = ?d"
    using wr_rd_id [of OFFSET_PAGE_HDR 4 ?d] d by (simp add: OFFSET_PAGE_HDR_def PAGE_SIZE_def)
  then show ?thesis by (simp add: blank_page_def set_next_free_page_no_def)
qed

lemma grow_page:
  assumes r: "file_ready f s" and big: "num_pages (file_hdr f) + 1 < 2 ^ 31"
  shows "\<exists>fr s1. create_new_page_handle (f, s) = Some (Inr fr, (more_pages f, s1))
    \<and> (\<exists>s2. unpin_page (pg_id (pages s1 fr)) True s1 = (True, s2) \<and> file_step f s (more_pages f) s2
        \<and> (\<forall>rid. rows (more_pages f) s2 rid = rows f s rid))"
proof -
  note inv = file_readyD(1) [OF r] and b = file_invD(1) [OF file_readyD(1) [OF r]]
  let ?n = "num_pages (file_hdr f)" and ?h = "file_hdr f"
  let ?p = "rm_pid f ?n"
  have pr: "pid_range ?p" using rm_pid_range [OF b, of ?n] base_okD(4) [OF b] by simp
  obtain q s0 where q: "new_page (rm_fd f) s = (Inr q, s0)" and
    qq: "case q of None \<Rightarrow> \<forall>rid. rows f s0 rid = rows f s rid
     | Some (g, p) \<Rightarrow> p = ?p \<and> pg_data (pages s0 g) = zero_page \<and> pg_id (pages s0 g) = p
         \<and> (\<forall>m. link_ok ?h m \<longrightarrow> grown {} f m g s (set_data g (blank_page ?h m) s0))"
    using new_page_grown [OF inv file_readyD(2) [OF r] big] by blast
  obtain a where a: "q = Some a" using idle_new_page [OF file_readyD(4) [OF r] q] by blast
  obtain g where g: "a = (g, ?p)" using qq a by (cases a) simp
  let ?s = "set_data g (blank_page ?h RM_NO_PAGE) s0" and ?f = "more_pages f"
  have "link_ok ?h RM_NO_PAGE" by (simp add: link_ok_def)
  then have gr: "grown {} f RM_NO_PAGE g s ?s" and dat: "pg_data (pages s0 g) = zero_page" and id: "pg_id (pages s0 g) = ?p"
    using qq a g by simp_all
  note gd = grownD [OF gr]
  have run: "create_new_page_handle (f, s) = Some (Inr g, (?f, ?s))"
    using q a g dat blank_page_unlinked [OF base_okD(1) [OF b]] by (simp add: create_new_page_handle_def Let_def)
  have pid: "pg_id (pages ?s g) = ?p" using id by simp
  have pin: "pins ?s ?p = 1" using gd(10) [OF pr] by simp
  obtain s2 where s2: "unpin_page ?p True ?s = (True, s2)" "pool_ok {} s2"
      "\<And>q. pid_range q \<Longrightarrow> pins s2 q = pins ?s q - (if q = ?p then 1 else 0)"
      "\<And>q. lookup s2 q = lookup ?s q" "\<And>q. page_view s2 q = page_view ?s q" "\<And>q. pid_ok (bp_disk s2) q = pid_ok (bp_disk ?s) q"
      "fd2pageno (bp_disk s2) = fd2pageno (bp_disk ?s)"
    using pool_release_law [OF gd(6) pr, of True] pin by auto
  have ext: "pool_ext {} {} ?s s2" by (simp add: pool_ext_def s2(4-7))
  have rows2: "rows ?f s2 rid = rows f s rid" for rid
  proof -
    have "rows ?f s2 rid = rows ?f ?s rid" by (simp only: rows_def s2(5))
    then show ?thesis using gd(5) by (rule trans)
  qed
  have pin_n: "page_in ?f s2 ?n (blank_page ?h RM_NO_PAGE)"
  proof -
    have "page_view s2 (rm_pid ?f ?n) = Some (blank_page ?h RM_NO_PAGE)"
      unfolding s2(5) using gd(7,8) by (simp add: page_view_def)
    then show ?thesis using store_okD(3) [OF gd(3,2)] s2(5) by (auto simp: page_in_def)
  qed
  have st2: "store_ok ?f s2"
    by (rule store_ok_keeps [OF gd(1,3) _ gd(2) pin_n]) (use ext in \<open>simp add: pool_ext_def\<close>)
  have inv2: "file_inv {} ?f s2"
    using gd(1) st2 s2(2) file_readyD(2,3) [OF r] file_invD(3) [OF inv]
    by (simp add: file_inv_def res_ok_def cache_ok_def cache_set_def)
  have pins2: "pins s2 q = 0" if "pid_range q" for q
    using s2(3) [OF that] gd(10) [OF that] file_readyD(4) [OF r] that by (simp add: idle_def)
  have "idle s2" by (rule resident_idle [OF s2(2) pins2 pr]) (simp_all add: s2(4) gd(7))
  moreover have "others_kept (rm_fd f) s s2"
    unfolding others_kept_def
  proof (intro conjI allI impI)
    fix q y assume q: "pid_range q" "pg_fd q \<noteq> rm_fd f"
    then have ne: "q \<noteq> ?p" by auto
    show "page_view s2 q = Some y" if "page_view s q = Some y" using gd(9) [OF q(1) ne that] s2(5) by simp
    show "lookup s q \<noteq> None" if "lookup s2 q \<noteq> None" by (rule gd(11) [OF q(1) ne]) (use that s2(4) in simp)
  next
    show "pid_ok (bp_disk s2) q = pid_ok (bp_disk s) q" for q using s2(6) gd(12) by simp
    show "fd2pageno (bp_disk s2) k = fd2pageno (bp_disk s) k" if "k \<noteq> rm_fd f" for k using s2(7) gd(13) that by simp
  qed
  ultimately have "file_step f s ?f s2"
    using inv2 file_readyD(2,3) [OF r] by (simp add: file_step_def file_ready_def)
  then show ?thesis using run pid s2(1) rows2 by (intro exI [of _ g] exI [of _ ?s]) simp
qed

lemma ensure_pages_ok:
  assumes "file_ready f s" and "n + 1 < 2 ^ 31"
  shows "\<exists>f' s'. ensure_pages n (f, s) = Inr ((), (f', s')) \<and> file_step f s f' s' \<and> (\<forall>rid. rows f' s' rid = rows f s rid)
    \<and> n < num_pages (file_hdr f')"
  using assms
proof (induction "nat (n + 1 - num_pages (file_hdr f))" arbitrary: f s rule: less_induct)
  case less
  show ?case
  proof (cases "num_pages (file_hdr f) \<le> n")
    case True
    then have "num_pages (file_hdr f) + 1 < 2 ^ 31" using less.prems(2) by linarith
    then obtain fr s1 s2 where g: "create_new_page_handle (f, s) = Some (Inr fr, (more_pages f, s1))"
        "unpin_page (pg_id (pages s1 fr)) True s1 = (True, s2)" "file_step f s (more_pages f) s2"
        "\<forall>rid. rows (more_pages f) s2 rid = rows f s rid"
      using grow_page [OF less.prems(1)] by blast
    have "\<exists>f' s'. ensure_pages n (more_pages f, s2) = Inr ((), (f', s')) \<and> file_step (more_pages f) s2 f' s'
        \<and> (\<forall>rid. rows f' s' rid = rows (more_pages f) s2 rid) \<and> n < num_pages (file_hdr f')"
      by (rule less.hyps [OF _ file_stepD(1) [OF g(3)] less.prems(2)]) (use True in simp)
    moreover have "ensure_pages n (f, s) = ensure_pages n (more_pages f, s2)"
      using True g(1,2) by (simp add: ensure_pages.simps [of n f s])
    ultimately show ?thesis using g(4) file_step_trans [OF g(3)] by auto
  next
    case False
    then show ?thesis using file_step_refl [OF less.prems(1)] by (simp add: ensure_pages.simps [of n f s])
  qed
qed

subsection \<open>The operations\<close>

lemmas rc_simps = rc_bind_def rc_return_def lift_rm_def

lemma handle_same_refl [simp]: "handle_same f f"
  by (simp add: handle_same_def)

text \<open>The page of a record id may lie past the end of the file; the slot must be one of a page.\<close>

definition slot_rid :: "RmFileHandle \<Rightarrow> Rid \<Rightarrow> bool" where
  "slot_rid f rid \<longleftrightarrow> 1 \<le> page_no rid \<and> page_no rid + 1 < 2 ^ 31 \<and> 0 \<le> slot_no rid
     \<and> slot_no rid < num_records_per_page (file_hdr f)"

lemma file_step_slot: "file_step f s f' s' \<Longrightarrow> slot_rid f' rid = slot_rid f rid"
  using file_stepD(5) [of f s f' s'] by (simp add: slot_rid_def)

lemma prepared:
  assumes "file_ready f s" and "slot_rid f rid"
  obtains f1 s1 s2 where "ensure_pages (page_no rid) (f, s) = Inr ((), (f1, s1))"
    "is_record rid (f1, s1) = Some (Inr (rows f s rid \<noteq> None), (f1, s2))" "file_step f s f1 s2" "valid_rid f1 rid"
    "\<And>r. rows f1 s2 r = rows f s r"
proof -
  obtain f1 s1 where e: "ensure_pages (page_no rid) (f, s) = Inr ((), (f1, s1))" "file_step f s f1 s1"
      "\<forall>r. rows f1 s1 r = rows f s r" "page_no rid < num_pages (file_hdr f1)"
    using ensure_pages_ok [OF assms(1), of "page_no rid"] assms(2) by (auto simp: slot_rid_def)
  note r1 = file_stepD(1) [OF e(2)]
  have v: "valid_rid f1 rid"
    using e(4) assms(2) file_stepD(5) [OF e(2)] by (simp add: valid_rid_def in_file_def slot_rid_def)
  obtain s2 where i: "is_record rid (f1, s1) = Some (Inr (rows f1 s1 rid \<noteq> None), (f1, s2))" "file_inv {} f1 s2"
      "same_rows f1 s1 f1 s2" "visited f1 (page_no rid) s1 s2"
    using is_record_ok [OF file_readyD(1) [OF r1] v idle_no_frame [OF file_readyD(5,4) [OF r1]]] by blast
  have "file_step f s f1 s2" by (rule file_step_trans [OF e(2) visited_step [OF r1 i(4,2) handle_same_refl v]])
  then show ?thesis using that e(1,3) i(1,3) v by (simp add: same_rows_def)
qed

lemma put_row_ok:
  assumes "file_ready f s" and "valid_rid f rid" and "length data = nat (record_size (file_hdr f))"
  shows "\<exists>f' s'. put_row rid data (f, s) = Inr ((), (f', s')) \<and> file_step f s f' s' \<and> rows_upd f s f' s' rid (Some data)"
proof -
  obtain s1 where i: "is_record rid (f, s) = Some (Inr (rows f s rid \<noteq> None), (f, s1))" "file_inv {} f s1"
      "same_rows f s f s1" "visited f (page_no rid) s s1"
    using is_record_ok [OF file_readyD(1) [OF assms(1)] assms(2) idle_no_frame [OF file_readyD(5,4) [OF assms(1)]]] by blast
  have st: "file_step f s f s1" by (rule visited_step [OF assms(1) i(4,2) handle_same_refl assms(2)])
  note r1 = file_stepD(1) [OF st]
  have nf: "\<not> no_frame f (page_no rid) s1" by (rule idle_no_frame [OF file_readyD(5,4) [OF r1]])
  have nr: "need_row data (f, s1) = Inr ((), (f, s1))" using assms(3) by (simp add: need_row_def)
  have same: "rows f s1 r = rows f s r" for r using i(3) by (simp add: same_rows_def)
  show ?thesis
  proof (cases "rows f s rid")
    case (Some x)
    obtain s2 where u: "update_record rid data (f, s1) = Some (Inr (), (f, s2))" "file_inv {} f s2"
        "rows_upd f s1 f s2 rid (Some data)" "visited f (page_no rid) s1 s2"
      using update_record_ok [OF i(2) assms(2) nf assms(3)] same Some by auto
    have "file_step f s f s2" by (rule file_step_trans [OF st visited_step [OF r1 u(4,2) handle_same_refl assms(2)]])
    then show ?thesis using u i(1) nr same Some by (simp add: put_row_def rows_upd_def rc_simps)
  next
    case None
    obtain f2 s2 where u: "insert_record_at rid data (f, s1) = Some (Inr (), (f2, s2))" "file_inv {} f2 s2"
        "rows_upd f s1 f2 s2 rid (Some data)" "visited f (page_no rid) s1 s2" "handle_same f f2"
      using insert_record_at_ok [OF i(2) assms(2) nf _ _ assms(3)] same None file_readyD(3) [OF assms(1)] by auto
    have "file_step f s f2 s2" by (rule file_step_trans [OF st visited_step [OF r1 u(4,2,5) assms(2)]])
    then show ?thesis using u i(1) nr same None by (simp add: put_row_def rows_upd_def rc_simps)
  qed
qed

lemma apply_update_ok:
  assumes "file_ready f s" and "slot_rid f rid" and "length data = nat (record_size (file_hdr f))"
  shows "\<exists>f' s'. apply_update rid data (f, s) = Inr ((), (f', s')) \<and> file_step f s f' s' \<and> rows_upd f s f' s' rid (Some data)"
proof -
  obtain f1 s1 where e: "ensure_pages (page_no rid) (f, s) = Inr ((), (f1, s1))" "file_step f s f1 s1"
      "\<forall>r. rows f1 s1 r = rows f s r" "page_no rid < num_pages (file_hdr f1)"
    using ensure_pages_ok [OF assms(1), of "page_no rid"] assms(2) by (auto simp: slot_rid_def)
  have v: "valid_rid f1 rid"
    using e(4) assms(2) file_stepD(5) [OF e(2)] by (simp add: valid_rid_def in_file_def slot_rid_def)
  obtain f' s' where p: "put_row rid data (f1, s1) = Inr ((), (f', s'))" "file_step f1 s1 f' s'" "rows_upd f1 s1 f' s' rid (Some data)"
    using put_row_ok [OF file_stepD(1) [OF e(2)] v] assms(3) [folded file_stepD(4) [OF e(2)]] by blast
  have "rows_upd f s f' s' rid (Some data)" using p(3) e(3) by (simp add: rows_upd_def)
  then show ?thesis using e(1) p(1) file_step_trans [OF e(2) p(2)] by (simp add: apply_update_def rc_simps)
qed

lemma apply_insert_update: "apply_insert = apply_update"
  by (intro ext) (simp add: apply_insert_def apply_update_def)

lemma apply_delete_ok:
  assumes "file_ready f s" and "slot_rid f rid"
  shows "\<exists>f' s'. apply_delete rid (f, s) = Inr ((), (f', s')) \<and> file_step f s f' s' \<and> rows_upd f s f' s' rid None"
proof -
  obtain f1 s1 s2 where e: "ensure_pages (page_no rid) (f, s) = Inr ((), (f1, s1))"
    "is_record rid (f1, s1) = Some (Inr (rows f s rid \<noteq> None), (f1, s2))" "file_step f s f1 s2" "valid_rid f1 rid"
    "\<And>r. rows f1 s2 r = rows f s r"
    using prepared [OF assms] by blast
  note r2 = file_stepD(1) [OF e(3)]
  show ?thesis
  proof (cases "rows f s rid")
    case None
    then have "apply_delete rid (f, s) = Inr ((), (f1, s2))" using e(1,2) by (simp add: apply_delete_def rc_simps)
    then show ?thesis using e(3,5) None by (auto simp: rows_upd_def)
  next
    case (Some x)
    obtain f' s' where d: "delete_record rid (f1, s2) = Some (Inr (), (f', s'))" "file_inv {} f' s'"
        "rows_upd f1 s2 f' s' rid None" "visited f1 (page_no rid) s2 s'" "handle_same f1 f'"
      using delete_record_ok [OF file_readyD(1) [OF r2] e(4) idle_no_frame [OF file_readyD(5,4) [OF r2]]] e(5) Some by auto
    have "file_step f s f' s'" by (rule file_step_trans [OF e(3) visited_step [OF r2 d(4,2,5) e(4)]])
    then show ?thesis using e d Some by (simp add: apply_delete_def rows_upd_def rc_simps)
  qed
qed

lemma apply_restore_ok:
  assumes "file_ready f s" and "slot_rid f rid" and "length data = nat (record_size (file_hdr f))"
  shows "\<exists>f' s'. apply_restore rid data (f, s) = Inr ((), (f', s')) \<and> file_step f s f' s'
    \<and> rows_upd f s f' s' rid (case rows f s rid of None \<Rightarrow> Some data | Some x \<Rightarrow> Some x)"
proof -
  obtain f1 s1 s2 where e: "ensure_pages (page_no rid) (f, s) = Inr ((), (f1, s1))"
    "is_record rid (f1, s1) = Some (Inr (rows f s rid \<noteq> None), (f1, s2))" "file_step f s f1 s2" "valid_rid f1 rid"
    "\<And>r. rows f1 s2 r = rows f s r"
    using prepared [OF assms(1,2)] by blast
  note r2 = file_stepD(1) [OF e(3)]
  show ?thesis
  proof (cases "rows f s rid")
    case (Some x)
    then have "apply_restore rid data (f, s) = Inr ((), (f1, s2))" using e(1,2) by (simp add: apply_restore_def rc_simps)
    then show ?thesis using e(3,5) Some by (auto simp: rows_upd_def)
  next
    case None
    have l: "length data = nat (record_size (file_hdr f1))" using assms(3) file_stepD(4) [OF e(3)] by simp
    have nr: "need_row data (f1, s2) = Inr ((), (f1, s2))" using l by (simp add: need_row_def)
    obtain f' s' where d: "insert_record_at rid data (f1, s2) = Some (Inr (), (f', s'))" "file_inv {} f' s'"
        "rows_upd f1 s2 f' s' rid (Some data)" "visited f1 (page_no rid) s2 s'" "handle_same f1 f'"
      using insert_record_at_ok [OF file_readyD(1) [OF r2] e(4) idle_no_frame [OF file_readyD(5,4) [OF r2]] _ _ l] e(5) None
        file_readyD(3) [OF r2] by auto
    have "file_step f s f' s'" by (rule file_step_trans [OF e(3) visited_step [OF r2 d(4,2,5) e(4)]])
    then show ?thesis using e d None nr by (simp add: apply_restore_def rows_upd_def rc_simps)
  qed
qed

lemma apply_patch_ok:
  assumes "file_ready f s" and "slot_rid f rid"
    and "\<And>x. rows f s rid = Some x \<Longrightarrow> length (g x) = nat (record_size (file_hdr f))"
  shows "\<exists>f' s'. apply_patch rid g (f, s) = Inr (rows f s rid \<noteq> None, (f', s')) \<and> file_step f s f' s'
    \<and> rows_upd f s f' s' rid (map_option g (rows f s rid))"
proof -
  obtain f1 s1 s2 where e: "ensure_pages (page_no rid) (f, s) = Inr ((), (f1, s1))"
    "is_record rid (f1, s1) = Some (Inr (rows f s rid \<noteq> None), (f1, s2))" "file_step f s f1 s2" "valid_rid f1 rid"
    "\<And>r. rows f1 s2 r = rows f s r"
    using prepared [OF assms(1,2)] by blast
  note r2 = file_stepD(1) [OF e(3)]
  show ?thesis
  proof (cases "rows f s rid")
    case None
    then have "apply_patch rid g (f, s) = Inr (False, (f1, s2))" using e(1,2) by (simp add: apply_patch_def rc_simps)
    then show ?thesis using e(3,5) None by (auto simp: rows_upd_def)
  next
    case (Some x)
    obtain s3 where gr: "get_record rid (f1, s2) = Some (Inr x, (f1, s3))" "file_inv {} f1 s3" "same_rows f1 s2 f1 s3"
        "visited f1 (page_no rid) s2 s3"
      using get_record_ok [OF file_readyD(1) [OF r2] e(4)] idle_no_frame [OF file_readyD(5,4) [OF r2]] e(5) Some by auto
    have st: "file_step f s f1 s3" by (rule file_step_trans [OF e(3) visited_step [OF r2 gr(4,2) handle_same_refl e(4)]])
    obtain f' s' where u: "apply_update rid (g x) (f1, s3) = Inr ((), (f', s'))" "file_step f1 s3 f' s'" "rows_upd f1 s3 f' s' rid (Some (g x))"
      using apply_update_ok [OF file_stepD(1) [OF st], of rid "g x"] assms(2) file_step_slot [OF st] assms(3) [OF Some] file_stepD(4) [OF st] by auto
    have "rows_upd f s f' s' rid (Some (g x))" using u(3) gr(3) e(5) by (simp add: rows_upd_def same_rows_def)
    then show ?thesis using e(1,2) gr(1) u(1) file_step_trans [OF st u(2)] Some by (simp add: apply_patch_def rc_simps)
  qed
qed

end
