(* ===== verification/Recovery_Values.thy ===== *)
theory Recovery_Values
  imports Log_Codec
begin

text \<open>
  What undo and redo do to the value of one row, and why the row ends with its last committed value. The argument is about the bytes: redo of a
  whole row forgets what was there before; when only deltas were committed, every byte that undo leaves is the byte of some
  committed version, and a byte that differs between two versions is written by a committed delta.
\<close>

section \<open>The effect of one record\<close>

fun tid_any :: "any_log \<Rightarrow> txn_id_t" where
  "tid_any (HdrLog r) = log_tid r"
| "tid_any (InsertLog r) = log_tid r"
| "tid_any (DeleteLog r) = log_tid r"
| "tid_any (UpdateLog r) = log_tid r"
| "tid_any (DeltaLog r) = log_tid r"

text \<open>The table and the record id of an operation; a value is the bytes of the row, or \<open>None\<close> for an empty slot.\<close>

fun cell_of :: "any_log \<Rightarrow> (bytes \<times> Rid) option" where
  "cell_of (HdrLog r) = None"
| "cell_of (InsertLog r) = Some (insert_tab r, insert_rid r)"
| "cell_of (DeleteLog r) = Some (delete_tab r, delete_rid r)"
| "cell_of (UpdateLog r) = Some (update_tab r, update_rid r)"
| "cell_of (DeltaLog r) = Some (delta_tab r, delta_rid r)"

fun redo_val :: "any_log \<Rightarrow> bytes option \<Rightarrow> bytes option" where
  "redo_val (HdrLog r) v = v"
| "redo_val (InsertLog r) v = Some (insert_value r)"
| "redo_val (DeleteLog r) v = None"
| "redo_val (UpdateLog r) v = Some (new_value r)"
| "redo_val (DeltaLog r) v = map_option (apply_new_ranges (delta_ranges r)) v"

fun undo_val :: "any_log \<Rightarrow> bytes option \<Rightarrow> bytes option" where
  "undo_val (HdrLog r) v = v"
| "undo_val (InsertLog r) v = None"
| "undo_val (DeleteLog r) v = (case v of None \<Rightarrow> Some (delete_value r) | Some x \<Rightarrow> Some x)"
| "undo_val (UpdateLog r) v = Some (old_value r)"
| "undo_val (DeltaLog r) v = map_option (apply_old_ranges (delta_ranges r)) v"

text \<open>The old image of the record is the value \<open>v\<close>.\<close>

fun old_ok :: "any_log \<Rightarrow> bytes option \<Rightarrow> bool" where
  "old_ok (HdrLog r) v \<longleftrightarrow> False"
| "old_ok (InsertLog r) v \<longleftrightarrow> v = None"
| "old_ok (DeleteLog r) v \<longleftrightarrow> v = Some (delete_value r)"
| "old_ok (UpdateLog r) v \<longleftrightarrow> v = Some (old_value r)"
| "old_ok (DeltaLog r) v \<longleftrightarrow> (case v of None \<Rightarrow> False | Some x \<Rightarrow> list_all (\<lambda>(rg, ov, nv). range_in (length x) rg
     \<and> ov = rd (nat (r_off rg)) (nat (r_len rg)) x \<and> length nv = nat (r_len rg)) (delta_ranges r))"

text \<open>
  A history of one row from its value \<open>v\<close> at the start of the log: \<open>redo_step\<close> is the committed value after one more
  record, \<open>chained\<close> says that each record's old image is the committed value before it, and \<open>seen\<close> are the values the row had
  on the way, those of transactions that did not commit included. One of them is on disk after a crash.
\<close>

definition redo_step :: "txn_id_t set \<Rightarrow> any_log \<Rightarrow> bytes option \<Rightarrow> bytes option" where
  "redo_step C r v = (if tid_any r \<in> C then redo_val r v else v)"

definition committed_value :: "txn_id_t set \<Rightarrow> any_log list \<Rightarrow> bytes option \<Rightarrow> bytes option" where
  "committed_value C rs v = fold (redo_step C) rs v"

fun chained :: "txn_id_t set \<Rightarrow> bytes option \<Rightarrow> any_log list \<Rightarrow> bool" where
  "chained C v [] \<longleftrightarrow> True"
| "chained C v (r # rs) \<longleftrightarrow> old_ok r v \<and> chained C (redo_step C r v) rs"

fun seen :: "txn_id_t set \<Rightarrow> bytes option \<Rightarrow> any_log list \<Rightarrow> bytes option set" where
  "seen C v [] = {v}"
| "seen C v (r # rs) = {v, redo_val r v} \<union> seen C (redo_step C r v) rs"

section \<open>Bytes of a patched row\<close>

lemma apply_range_nth:
  assumes "range_in (length d) rg" and "length v = nat (r_len rg)"
  shows "length (apply_range rg v d) = length d"
    "k < length d \<Longrightarrow> apply_range rg v d ! k = (if covered [rg] k then v ! (k - nat (r_off rg)) else d ! k)"
proof -
  have r: "0 \<le> r_off rg" "0 \<le> r_len rg" "nat (r_off rg) + length v \<le> length d" "\<not> int (length d) < r_off rg + r_len rg"
    using assms by (auto simp: range_in_def)
  then have a: "apply_range rg v d = wr (nat (r_off rg)) v d" using assms(2) by (simp add: apply_range_def)
  show "length (apply_range rg v d) = length d" unfolding a using r(3) by simp
  have c: "nat (r_off rg) \<le> k \<and> k < nat (r_off rg) + length v \<longleftrightarrow> covered [rg] k"
    using r(1,2) assms(2) by (auto simp: covered_def)
  show "apply_range rg v d ! k = (if covered [rg] k then v ! (k - nat (r_off rg)) else d ! k)" if "k < length d"
    unfolding a using r(3) that c by (simp add: nth_wr)
qed

lemma new_ranges_nth:
  assumes "list_all (\<lambda>(rg, ov, nv). range_in (length x) rg \<and> length nv = nat (r_len rg)) rs" and "length y = length x"
  shows "length (apply_new_ranges rs x) = length x
    \<and> (\<forall>k < length x. apply_new_ranges rs x ! k = (if covered (map fst rs) k then apply_new_ranges rs y ! k else x ! k))"
  using assms
proof (induction rs arbitrary: x y)
  case Nil
  show ?case by (simp add: apply_new_ranges_def covered_def)
next
  case (Cons a rs)
  obtain rg ov nv where a: "a = (rg, ov, nv)" by (cases a)
  have h: "range_in (length x) rg" "length nv = nat (r_len rg)" "range_in (length y) rg" using Cons.prems by (simp_all add: a)
  let ?x = "apply_range rg nv x" and ?y = "apply_range rg nv y"
  note ax = apply_range_nth [OF h(1,2)] and ay = apply_range_nth [OF h(3,2)]
  have ih: "length (apply_new_ranges rs ?x) = length ?x
    \<and> (\<forall>k < length ?x. apply_new_ranges rs ?x ! k = (if covered (map fst rs) k then apply_new_ranges rs ?y ! k else ?x ! k))"
    using Cons.IH [of ?x ?y] Cons.prems ax(1) ay(1) by simp
  have ihy: "\<forall>k < length ?y. apply_new_ranges rs ?y ! k = (if covered (map fst rs) k then apply_new_ranges rs ?x ! k else ?y ! k)"
    using Cons.IH [of ?y ?x] Cons.prems ax(1) ay(1) by simp
  have st: "apply_new_ranges (a # rs) z = apply_new_ranges rs (apply_range rg nv z)" for z by (simp add: a apply_new_ranges_def)
  have cv: "covered (map fst (a # rs)) k \<longleftrightarrow> covered [rg] k \<or> covered (map fst rs) k" for k by (auto simp: a covered_def)
  show ?case
  proof (intro conjI allI impI)
    show "length (apply_new_ranges (a # rs) x) = length x" using ih ax(1) by (simp add: st)
    fix k assume k: "k < length x"
    then have ky: "k < length y" using Cons.prems(2) by simp
    show "apply_new_ranges (a # rs) x ! k = (if covered (map fst (a # rs)) k then apply_new_ranges (a # rs) y ! k else x ! k)"
    proof (cases "covered (map fst rs) k")
      case True
      have "apply_new_ranges rs ?x ! k = apply_new_ranges rs ?y ! k" using ih k ax(1) True by simp
      then show ?thesis unfolding st cv using True by simp
    next
      case False
      have "apply_new_ranges rs ?x ! k = ?x ! k" using ih k ax(1) False by simp
      moreover have "apply_new_ranges rs ?y ! k = ?y ! k" using ihy ky ay(1) False by simp
      ultimately show ?thesis unfolding st cv using False ax(2) [OF k] ay(2) [OF ky] by simp
    qed
  qed
qed

lemma old_ranges_nth:
  assumes "list_all (\<lambda>(rg, ov, nv). range_in (length x) rg \<and> ov = rd (nat (r_off rg)) (nat (r_len rg)) x) rs" and "length y = length x"
  shows "length (apply_old_ranges rs y) = length y
    \<and> (\<forall>k < length y. apply_old_ranges rs y ! k = (if covered (map fst rs) k then x ! k else y ! k))"
proof -
  have eq: "apply_old_ranges rs z = foldl (\<lambda>d r. apply_range r (rd (nat (r_off r)) (nat (r_len r)) x) d) z (map fst rs)" for z
    using assms(1)
  proof (induction rs arbitrary: z)
    case (Cons a rs)
    obtain rg ov nv where a: "a = (rg, ov, nv)" by (cases a)
    then have "apply_old_ranges (a # rs) z = apply_old_ranges rs (apply_range rg ov z)" by (simp add: apply_old_ranges_def)
    also have "\<dots> = foldl (\<lambda>d r. apply_range r (rd (nat (r_off r)) (nat (r_len r)) x) d) (apply_range rg ov z) (map fst rs)"
      by (rule Cons.IH) (use Cons.prems in simp)
    finally show ?case using Cons.prems a by simp
  qed (simp add: apply_old_ranges_def)
  have "list_all (range_in (length y)) (map fst rs)" using assms by (induction rs) auto
  then show ?thesis unfolding eq by (rule apply_side) (simp add: assms(2))
qed

section \<open>A row ends with its last committed value\<close>

definition whole :: "any_log \<Rightarrow> bool" where
  "whole r = (case r of DeltaLog _ \<Rightarrow> False | HdrLog _ \<Rightarrow> False | _ \<Rightarrow> True)"

lemma redo_whole: "whole r \<Longrightarrow> redo_val r u = redo_val r v"
  by (cases r) (simp_all add: whole_def)

text \<open>After the redo of a whole row nothing of the value before it is left.\<close>

lemma committed_value_whole:
  assumes "\<exists>r \<in> set rs. tid_any r \<in> C \<and> whole r"
  shows "committed_value C rs u = committed_value C rs v"
  using assms
proof (induction rs arbitrary: u v)
  case (Cons r rs)
  show ?case
  proof (cases "\<exists>r \<in> set rs. tid_any r \<in> C \<and> whole r")
    case True
    then show ?thesis using Cons.IH [of "redo_step C r u" "redo_step C r v"] by (simp add: committed_value_def)
  next
    case False
    then have "tid_any r \<in> C" "whole r" using Cons.prems by auto
    then show ?thesis using redo_whole [of r u v] by (simp add: committed_value_def redo_step_def)
  qed
qed simp

text \<open>\<open>versions\<close> are the committed values on the way.\<close>

fun versions :: "txn_id_t set \<Rightarrow> bytes option \<Rightarrow> any_log list \<Rightarrow> bytes option set" where
  "versions C v [] = {v}"
| "versions C v (r # rs) = insert v (versions C (redo_step C r v) rs)"

definition delta_cover :: "txn_id_t set \<Rightarrow> any_log list \<Rightarrow> nat \<Rightarrow> bool" where
  "delta_cover C rs k \<longleftrightarrow> (\<exists>r. DeltaLog r \<in> set rs \<and> log_tid r \<in> C \<and> covered (map fst (delta_ranges r)) k)"

definition deltas_only :: "txn_id_t set \<Rightarrow> any_log list \<Rightarrow> bool" where
  "deltas_only C rs \<longleftrightarrow> (\<forall>r \<in> set rs. tid_any r \<in> C \<longrightarrow> \<not> whole r)"

lemma old_ok_delta:
  assumes "old_ok (DeltaLog r) (Some x)" and "length y = length x"
  shows "length (apply_new_ranges (delta_ranges r) y) = length y"
    "k < length y \<Longrightarrow> \<not> covered (map fst (delta_ranges r)) k \<Longrightarrow> apply_new_ranges (delta_ranges r) y ! k = y ! k"
    "k < length y \<Longrightarrow> covered (map fst (delta_ranges r)) k \<Longrightarrow>
       apply_new_ranges (delta_ranges r) y ! k = apply_new_ranges (delta_ranges r) x ! k"
    "length (apply_old_ranges (delta_ranges r) y) = length y"
    "k < length y \<Longrightarrow> apply_old_ranges (delta_ranges r) y ! k = (if covered (map fst (delta_ranges r)) k then x ! k else y ! k)"
proof -
  have n: "list_all (\<lambda>(rg, ov, nv). range_in (length y) rg \<and> length nv = nat (r_len rg)) (delta_ranges r)"
    using assms by (auto simp: list_all_iff)
  have o: "list_all (\<lambda>(rg, ov, nv). range_in (length x) rg \<and> ov = rd (nat (r_off rg)) (nat (r_len rg)) x) (delta_ranges r)"
    using assms by (auto simp: list_all_iff)
  note nn = new_ranges_nth [OF n assms(2) [symmetric]] and oo = old_ranges_nth [OF o assms(2)]
  show "length (apply_new_ranges (delta_ranges r) y) = length y"
    "k < length y \<Longrightarrow> \<not> covered (map fst (delta_ranges r)) k \<Longrightarrow> apply_new_ranges (delta_ranges r) y ! k = y ! k"
    "k < length y \<Longrightarrow> covered (map fst (delta_ranges r)) k \<Longrightarrow>
       apply_new_ranges (delta_ranges r) y ! k = apply_new_ranges (delta_ranges r) x ! k"
    using nn by (simp_all only: if_True if_False simp_thms)
  show "length (apply_old_ranges (delta_ranges r) y) = length y"
    "k < length y \<Longrightarrow> apply_old_ranges (delta_ranges r) y ! k = (if covered (map fst (delta_ranges r)) k then x ! k else y ! k)"
    using oo by blast+
qed

lemma old_ok_Some:
  assumes "old_ok r (Some x)"
  obtains d where "r = DeltaLog d" | d where "r = UpdateLog d" "old_value d = x" | d where "r = DeleteLog d" "delete_value d = x"
  using assms by (cases r) auto

text \<open>One more record of a history with committed deltas only: the row stays, with its length.\<close>

lemma redo_step_delta:
  assumes "old_ok r (Some x)" and "tid_any r \<in> C \<longrightarrow> \<not> whole r"
  obtains y where "redo_step C r (Some x) = Some y" "length y = length x"
    "\<And>k. k < length x \<Longrightarrow> \<not> delta_cover C [r] k \<Longrightarrow> y ! k = x ! k"
proof (cases "tid_any r \<in> C")
  case False
  then show ?thesis using that [of x] by (simp add: redo_step_def)
next
  case True
  then obtain d where d: "r = DeltaLog d" using assms by (auto elim!: old_ok_Some simp: whole_def)
  note o = old_ok_delta [OF assms(1) [unfolded d] refl]
  show ?thesis
    using that [of "apply_new_ranges (delta_ranges d) x"] o True d by (auto simp: redo_step_def delta_cover_def)
qed

lemma delta_cover_Cons: "delta_cover C (r # rs) k \<longleftrightarrow> delta_cover C [r] k \<or> delta_cover C rs k"
  by (auto simp: delta_cover_def)

lemma versions_delta:
  assumes "chained C (Some x) rs" and "deltas_only C rs" and "w \<in> versions C (Some x) rs"
  shows "\<exists>y. w = Some y \<and> length y = length x \<and> (\<forall>k < length x. \<not> delta_cover C rs k \<longrightarrow> y ! k = x ! k)"
  using assms
proof (induction rs arbitrary: x)
  case (Cons r rs)
  obtain z where z: "redo_step C r (Some x) = Some z" "length z = length x"
      "\<And>k. k < length x \<Longrightarrow> \<not> delta_cover C [r] k \<Longrightarrow> z ! k = x ! k"
    using redo_step_delta [of r x C] Cons.prems by (auto simp: deltas_only_def)
  show ?case
  proof (cases "w = Some x")
    case False
    then have "w \<in> versions C (Some z) rs" using Cons.prems(3) z(1) by simp
    moreover have "chained C (Some z) rs" "deltas_only C rs" using Cons.prems(1,2) z(1) by (simp_all add: deltas_only_def)
    ultimately obtain y where y: "w = Some y" "length y = length z" "\<And>k. k < length z \<Longrightarrow> \<not> delta_cover C rs k \<Longrightarrow> y ! k = z ! k"
      using Cons.IH [of z] by blast
    have "y ! k = x ! k" if "k < length x" "\<not> delta_cover C (r # rs) k" for k
      using that y(3) [of k] z(3) [of k] z(2) by (simp add: delta_cover_Cons [of C r rs])
    then show ?thesis using y(1,2) z(2) by simp
  qed simp
qed simp

lemma chained_old:
  assumes "chained C v rs" and "r \<in> set rs"
  shows "\<exists>w \<in> versions C v rs. old_ok r w"
  using assms by (induction rs arbitrary: v) auto

lemma versions_self: "v \<in> versions C v rs"
  by (cases rs) simp_all

lemma seen_cases:
  assumes "chained C v rs" and "d \<in> seen C v rs"
  shows "d \<in> versions C v rs \<or> (\<exists>r \<in> set rs. \<exists>w \<in> versions C v rs. tid_any r \<notin> C \<and> old_ok r w \<and> d = redo_val r w)"
  using assms
proof (induction rs arbitrary: v)
  case (Cons r rs)
  consider "d = v" | "d = redo_val r v" | "d \<in> seen C (redo_step C r v) rs" using Cons.prems(2) by auto
  then show ?case
  proof cases
    case 2
    show ?thesis
    proof (cases "tid_any r \<in> C")
      case True
      then show ?thesis using 2 versions_self [of "redo_val r v" C rs] by (simp add: redo_step_def)
    qed (use 2 Cons.prems(1) in auto)
  next
    case 3
    then show ?thesis using Cons.IH [of "redo_step C r v"] Cons.prems(1) by auto
  qed simp
qed simp

text \<open>Outside \<open>S\<close>, each byte is that of a committed version.\<close>

definition mixed :: "bytes option set \<Rightarrow> nat \<Rightarrow> nat set \<Rightarrow> bytes option \<Rightarrow> bool" where
  "mixed V n S u \<longleftrightarrow> (\<exists>x. u = Some x \<and> length x = n \<and> (\<forall>k < n. k \<notin> S \<longrightarrow> (\<exists>y. Some y \<in> V \<and> x ! k = y ! k)))"

lemma mixedI: "length x = n \<Longrightarrow> (\<And>k. k < n \<Longrightarrow> k \<notin> S \<Longrightarrow> \<exists>y. Some y \<in> V \<and> x ! k = y ! k) \<Longrightarrow> mixed V n S (Some x)"
  by (simp add: mixed_def)

lemma undo_mixed:
  assumes "mixed V n S u" and "Some x \<in> V" and "length x = n" and "old_ok r (Some x)"
  shows "mixed V n S (undo_val r u)"
proof -
  obtain z where z: "u = Some z" "length z = n" "\<And>k. k < n \<Longrightarrow> k \<notin> S \<Longrightarrow> \<exists>y. Some y \<in> V \<and> z ! k = y ! k"
    using assms(1) by (auto simp: mixed_def)
  from assms(4) show ?thesis
  proof (cases rule: old_ok_Some)
    case (1 d)
    have zx: "length z = length x" using z(2) assms(3) by simp
    note o = old_ok_delta(4,5) [OF assms(4) [unfolded 1] zx]
    show ?thesis unfolding 1 z(1) undo_val.simps option.map
    proof (rule mixedI)
      show "length (apply_old_ranges (delta_ranges d) z) = n" using o(1) z(2) by simp
      fix k assume "k < n" "k \<notin> S"
      then show "\<exists>y. Some y \<in> V \<and> apply_old_ranges (delta_ranges d) z ! k = y ! k"
        using o(2) [of k] z(2) z(3) [of k] assms(2) by (cases "covered (map fst (delta_ranges d)) k") auto
    qed
  qed (use z assms(2,3) in \<open>auto simp: mixed_def\<close>)
qed

lemma fold_undo_mixed:
  assumes "mixed V n S u" and "\<And>r. r \<in> set U \<Longrightarrow> \<exists>x. Some x \<in> V \<and> length x = n \<and> old_ok r (Some x)"
  shows "mixed V n S (fold undo_val U u)"
  using assms
proof (induction U arbitrary: u)
  case (Cons r U)
  have "\<exists>x. Some x \<in> V \<and> length x = n \<and> old_ok r (Some x)" by (rule Cons.prems(2)) simp
  then have "mixed V n S (undo_val r u)" using undo_mixed [OF Cons.prems(1)] by blast
  then show ?case using Cons.IH Cons.prems(2) by simp
qed simp

text \<open>The undo of the operation whose value was on disk.\<close>

lemma undo_own:
  assumes r: "old_ok r (Some x)" and V: "Some x \<in> V" "length x = n" and U: "r \<in> set U"
    and all: "\<And>r. r \<in> set U \<Longrightarrow> \<exists>x. Some x \<in> V \<and> length x = n \<and> old_ok r (Some x)"
  shows "mixed V n {} (fold undo_val U (redo_val r (Some x)))"
proof -
  obtain U1 U2 where s: "U = U1 @ r # U2" using split_list [OF U] by blast
  let ?u = "fold undo_val U1 (redo_val r (Some x))"
  have x: "mixed V n {} (Some x)" using V by (auto simp: mixed_def)
  from r have "mixed V n {} (undo_val r ?u)"
  proof (cases rule: old_ok_Some)
    case (1 d)
    note o = old_ok_delta [OF r [unfolded 1] refl]
    have "mixed V n {k. covered (map fst (delta_ranges d)) k} (redo_val r (Some x))"
      unfolding 1 redo_val.simps option.map by (rule mixedI) (use o(1,2) V in auto)
    then have "mixed V n {k. covered (map fst (delta_ranges d)) k} ?u" by (rule fold_undo_mixed) (use all s in simp)
    then obtain z where z: "?u = Some z" "length z = n" "\<And>k. k < n \<Longrightarrow> \<not> covered (map fst (delta_ranges d)) k \<Longrightarrow> \<exists>y. Some y \<in> V \<and> z ! k = y ! k"
      by (auto simp: mixed_def)
    have zx: "length z = length x" using z(2) V(2) by simp
    note p = old_ok_delta(4,5) [OF r [unfolded 1] zx]
    show ?thesis unfolding z(1) unfolding 1 undo_val.simps option.map
    proof (rule mixedI)
      show "length (apply_old_ranges (delta_ranges d) z) = n" using p(1) z(2) by simp
      fix k assume "k < n"
      then show "\<exists>y. Some y \<in> V \<and> apply_old_ranges (delta_ranges d) z ! k = y ! k"
        using p(2) [of k] z(2) z(3) [of k] V(1) by (cases "covered (map fst (delta_ranges d)) k") auto
    qed
  next
    case (2 d)
    then show ?thesis using x by simp
  next
    case (3 d)
    have "fold undo_val U1 None = None \<or> mixed V n {} (fold undo_val U1 None)"
    proof -
      have "w = None \<or> mixed V n {} w \<Longrightarrow> (\<And>r. r \<in> set U' \<Longrightarrow> r \<in> set U) \<Longrightarrow> fold undo_val U' w = None \<or> mixed V n {} (fold undo_val U' w)" for U' w
      proof (induction U' arbitrary: w)
        case (Cons q U')
        obtain y where y: "Some y \<in> V" "length y = n" "old_ok q (Some y)" using all Cons.prems(2) by (metis list.set_intros(1))
        have my: "mixed V n {} (Some y)" using y by (auto simp: mixed_def)
        have "undo_val q w = None \<or> mixed V n {} (undo_val q w)"
        proof (cases "w = None")
          case True
          from y(3) show ?thesis by (cases rule: old_ok_Some) (use True my in auto)
        next
          case False
          then show ?thesis using Cons.prems(1) undo_mixed [OF _ y] by blast
        qed
        then show ?case using Cons.IH Cons.prems(2) by simp
      qed simp
      then show ?thesis using s by auto
    qed
    then show ?thesis using 3 x by (auto simp: mixed_def)
  qed
  then have "mixed V n {} (fold undo_val U2 (undo_val r ?u))" by (rule fold_undo_mixed) (use all s in simp)
  then show ?thesis by (simp add: s)
qed

lemma redo_deltas:
  assumes "chained C (Some v) rs" and "deltas_only C rs" and "length x = length v"
    and "\<And>k. k < length v \<Longrightarrow> x ! k = v ! k \<or> delta_cover C rs k"
  shows "committed_value C rs (Some x) = committed_value C rs (Some v)"
  using assms
proof (induction rs arbitrary: v x)
  case Nil
  then have "x = v" by (auto intro!: nth_equalityI simp: delta_cover_def)
  then show ?case by simp
next
  case (Cons r rs)
  have rest: "chained C (redo_step C r (Some v)) rs" "deltas_only C rs" "old_ok r (Some v)" "tid_any r \<in> C \<Longrightarrow> \<not> whole r"
    using Cons.prems(1,2) by (simp_all add: deltas_only_def)
  show ?case
  proof (cases "tid_any r \<in> C")
    case False
    have "x ! k = v ! k \<or> delta_cover C rs k" if "k < length v" for k
      using Cons.prems(4) [OF that] False by (auto simp: delta_cover_def)
    then have "committed_value C rs (Some x) = committed_value C rs (Some v)"
      using Cons.IH [of v x] rest False Cons.prems(3) by (simp add: redo_step_def)
    then show ?thesis using False by (simp add: committed_value_def redo_step_def)
  next
    case True
    then obtain d where d: "r = DeltaLog d" using rest(3,4) by (auto elim!: old_ok_Some simp: whole_def)
    note ov = old_ok_delta [OF rest(3) [unfolded d] refl] and ox = old_ok_delta [OF rest(3) [unfolded d] Cons.prems(3)]
    let ?v = "apply_new_ranges (delta_ranges d) v" and ?x = "apply_new_ranges (delta_ranges d) x"
    have "?x ! k = ?v ! k \<or> delta_cover C rs k" if "k < length ?v" for k
    proof (cases "covered (map fst (delta_ranges d)) k")
      case True
      then show ?thesis using ox(3) that ov(1) Cons.prems(3) by simp
    next
      case False
      have k: "k < length v" using that ov(1) by simp
      have "delta_cover C (r # rs) k = delta_cover C rs k" using False by (auto simp: delta_cover_def d)
      then show ?thesis using Cons.prems(4) [OF k] ox(2) [of k] ov(2) [of k] False k Cons.prems(3) by simp
    qed
    then have "committed_value C rs (Some ?x) = committed_value C rs (Some ?v)"
      using Cons.IH [of ?v ?x] rest(1,2) True d ov(1) ox(1) Cons.prems(3) by (simp add: redo_step_def)
    then show ?thesis using True d by (simp add: committed_value_def redo_step_def)
  qed
qed

lemma committed_value_none:
  assumes "chained C None rs" and "deltas_only C rs" and "d \<in> seen C None rs" and "set U \<subseteq> set rs"
    and "\<And>r. r \<in> set rs \<Longrightarrow> tid_any r \<notin> C \<Longrightarrow> r \<in> set U"
  shows "fold undo_val U d = None \<and> (\<forall>r \<in> set rs. tid_any r \<notin> C)"
proof -
  have all: "(\<forall>r \<in> set rs. tid_any r \<notin> C \<and> (\<exists>i. r = InsertLog i)) \<and> versions C None rs = {None}"
    using assms(1,2)
  proof (induction rs)
    case (Cons r rs)
    obtain i where i: "r = InsertLog i" using Cons.prems(1) by (cases r) auto
    then have n: "tid_any r \<notin> C" using Cons.prems(2) by (auto simp: deltas_only_def whole_def)
    then show ?case using Cons i by (simp add: redo_step_def deltas_only_def)
  qed simp
  have stay: "fold undo_val U' None = None" if "set U' \<subseteq> set rs" for U'
    using that
  proof (induction U')
    case (Cons r U')
    then obtain i where "r = InsertLog i" using all by auto
    then show ?case using Cons by simp
  qed simp
  have "fold undo_val U d = None"
  proof (cases "d = None")
    case False
    then obtain r where r: "r \<in> set rs" using seen_cases [OF assms(1,3)] all by auto
    then obtain U1 U2 where s: "U = U1 @ r # U2" using assms(5) all split_list by metis
    obtain i where "r = InsertLog i" using r all by blast
    then show ?thesis using stay [of U2] assms(4) s by simp
  qed (use stay assms(4) in simp)
  then show ?thesis using all by blast
qed

text \<open>
  Undo of the operations that did not commit (and perhaps of some that did) and redo of the committed ones give the
  last committed value, whatever value the row had on disk.
\<close>

lemma recovered_value:
  assumes chain: "chained C v rs" and d: "d \<in> seen C v rs" and U: "set U \<subseteq> set rs"
    and losers: "\<And>r. r \<in> set rs \<Longrightarrow> tid_any r \<notin> C \<Longrightarrow> r \<in> set U"
  shows "committed_value C rs (fold undo_val U d) = committed_value C rs v"
proof (cases "deltas_only C rs")
  case False
  then show ?thesis by (intro committed_value_whole) (auto simp: deltas_only_def)
next
  case only: True
  show ?thesis
  proof (cases v)
    case None
    note n = committed_value_none [OF chain [unfolded None] only d [unfolded None] U losers]
    show ?thesis using n None by simp
  next
    case (Some x)
    let ?V = "versions C v rs"
    have ver: "\<exists>y. w = Some y \<and> length y = length x \<and> (\<forall>k < length x. \<not> delta_cover C rs k \<longrightarrow> y ! k = x ! k)" if "w \<in> ?V" for w
      using versions_delta [OF chain [unfolded Some] only] that Some by simp
    have all: "\<exists>y. Some y \<in> ?V \<and> length y = length x \<and> old_ok r (Some y)" if "r \<in> set U" for r
      using chained_old [OF chain] ver U that by blast
    have m: "mixed ?V (length x) {} (fold undo_val U d)"
    proof (cases "d \<in> ?V")
      case True
      then have "mixed ?V (length x) {} d" using ver [OF True] by (auto simp: mixed_def)
      then show ?thesis by (rule fold_undo_mixed) (rule all)
    next
      case False
      then obtain r w where r: "r \<in> set rs" "w \<in> ?V" "tid_any r \<notin> C" "old_ok r w" "d = redo_val r w"
        using seen_cases [OF chain d] by blast
      obtain y where y: "w = Some y" "length y = length x" using ver [OF r(2)] by blast
      show ?thesis unfolding r(5) y(1) by (rule undo_own [OF _ _ y(2)]) (use r y losers all in auto)
    qed
    then obtain z where z: "fold undo_val U d = Some z" "length z = length x" "\<And>k. k < length x \<Longrightarrow> \<exists>y. Some y \<in> ?V \<and> z ! k = y ! k"
      by (auto simp: mixed_def)
    have "z ! k = x ! k \<or> delta_cover C rs k" if k: "k < length x" for k
    proof -
      obtain y where y: "Some y \<in> ?V" "z ! k = y ! k" using z(3) [OF k] by blast
      then show ?thesis using ver [OF y(1)] k by auto
    qed
    then show ?thesis unfolding z(1) unfolding Some by (rule redo_deltas [OF chain [unfolded Some] only z(2)])
  qed
qed

end
