(* ===== verification/Log_Recovery.thy ===== *)
theory Log_Recovery
  imports Recovery_Tables Recovery_Values
begin

text \<open>
  Crash recovery, \<^verbatim>\<open>src/src/recovery/log_recovery.{h,cpp}\<close>: \<open>analyze\<close> collects the committed transactions and the operations of the
  others, \<open>redo\<close> first takes those back (\<open>undo_pass\<close>) and then repeats the operations of the committed ones in log order. The files are
  those of \<open>Record_File\<close> over the buffer pool, the log is read by \<open>Recovery_Scan\<close>. The log file and the table files are
  different files of the disk manager; the reader has the disk manager's view of the log and the pool its view of the tables.

  The state before recovery is a disk image in which each row has one of the values it had in memory since the
  start of the log, committed or not. The theorems show that recovery returns on every log the log manager writes, that it
  performs the abstract undo and redo on the rows of the tables, and that it leaves in each row the value of the last
  committed operation, provided that each record's old image is the committed row it was applied to.
\<close>

section \<open>State\<close>

record PendingOp =
  op_type :: LogType
  op_table :: bytes
  op_rid :: Rid
  old_data :: bytes
  new_data :: bytes
  op_ranges :: "(WalDiffRange \<times> bytes \<times> bytes) list"

text \<open>\<open>fhs\<close> are the open files of \<^verbatim>\<open>SmManager\<close>; \<open>uncommitted\<close> is the ordered map \<^verbatim>\<open>std::map\<close> as the list of its entries.\<close>

record rec_mgr =
  fhs :: "bytes \<rightharpoonup> RmFileHandle"
  rc_pool :: bpm
  start_offset :: int
  use_batch :: bool
  committed :: "txn_id_t set"
  uncommitted :: "(txn_id_t \<times> PendingOp list) list"
  touched :: bool

section \<open>Analysis\<close>

fun push_op :: "txn_id_t \<Rightarrow> 'a \<Rightarrow> (txn_id_t \<times> 'a list) list \<Rightarrow> (txn_id_t \<times> 'a list) list" where
  "push_op t p [] = [(t, [p])]"
| "push_op t p ((u, ps) # m) =
     (if t = u then (u, ps @ [p]) # m else if t < u then (t, [p]) # (u, ps) # m else (u, ps) # push_op t p m)"

definition insert_op :: "InsertLogRecord \<Rightarrow> PendingOp" where
  "insert_op lr = \<lparr>op_type = INSERT, op_table = insert_tab lr, op_rid = insert_rid lr, old_data = [],
     new_data = insert_value lr, op_ranges = []\<rparr>"

definition delete_op :: "DeleteLogRecord \<Rightarrow> PendingOp" where
  "delete_op lr = \<lparr>op_type = DELETE, op_table = delete_tab lr, op_rid = delete_rid lr, old_data = delete_value lr,
     new_data = [], op_ranges = []\<rparr>"

definition update_op :: "UpdateLogRecord \<Rightarrow> PendingOp" where
  "update_op lr = \<lparr>op_type = UPDATE, op_table = update_tab lr, op_rid = update_rid lr, old_data = old_value lr,
     new_data = new_value lr, op_ranges = []\<rparr>"

definition delta_op :: "UpdateDeltaLogRecord \<Rightarrow> PendingOp" where
  "delta_op lr = \<lparr>op_type = UPDATE_DELTA, op_table = delta_tab lr, op_rid = delta_rid lr, old_data = [],
     new_data = [], op_ranges = delta_ranges lr\<rparr>"

definition push_pending :: "txn_id_t \<Rightarrow> PendingOp \<Rightarrow> rec_mgr \<Rightarrow> rec_mgr" where
  "push_pending t p m = m\<lparr>uncommitted := push_op t p (uncommitted m)\<rparr>"

text \<open>The lambda \<open>handle_rec\<close>: the switch on the record, and the record read from the bytes.\<close>

fun note_log :: "any_log \<Rightarrow> rec_mgr \<Rightarrow> rec_mgr" where
  "note_log (HdrLog h) m =
     (if log_type h = log_type_code Commit
      then m\<lparr>committed := insert (log_tid h) (committed m),
             uncommitted := filter (\<lambda>e. fst e \<noteq> log_tid h) (uncommitted m)\<rparr>
      else m)"
| "note_log (InsertLog lr) m = push_pending (log_tid lr) (insert_op lr) m"
| "note_log (DeleteLog lr) m = push_pending (log_tid lr) (delete_op lr) m"
| "note_log (UpdateLog lr) m = push_pending (log_tid lr) (update_op lr) m"
| "note_log (DeltaLog lr) m = push_pending (log_tid lr) (delta_op lr) m"

definition handle_rec :: "bytes \<Rightarrow> rec_mgr \<Rightarrow> rec_error + rec_mgr" where
  "handle_rec data m = (case deserialize_any data of None \<Rightarrow> Inl BadRecord | Some r \<Rightarrow> Inr (note_log r m))"

definition RESTART_FILE :: string where
  "RESTART_FILE = ''db.restart''"

definition restart_offset :: "disk \<Rightarrow> int \<Rightarrow> int" where
  "restart_offset d e =
     (case map_of (fs d) RESTART_FILE of
        None \<Rightarrow> 0
      | Some c \<Rightarrow> let off = le_dec_s (take 8 c) in if 8 \<le> length c \<and> 0 \<le> off \<and> off \<le> e then off else 0)"

text \<open>The probe for the magic number of a batch at the start offset.\<close>

definition probe_batch :: "int \<Rightarrow> log_reader \<Rightarrow> rec_error + bool \<times> log_reader" where
  "probe_batch start r =
     (if start + int WAL_BATCH_HDR_SIZE \<le> log_end r
      then and_then (ensure_bytes start (int WAL_BATCH_HDR_SIZE) r) (\<lambda>(peek, r).
             Inr (case peek of None \<Rightarrow> False | Some p \<Rightarrow> le_dec_u (rd 0 4 p) = WAL_BATCH_MAGIC, r))
      else Inr (False, r))"

definition analyze :: "log_reader \<Rightarrow> rec_mgr \<Rightarrow> rec_error + log_reader \<times> rec_mgr" where
  "analyze r m =
     (let m = m\<lparr>committed := {}, uncommitted := [], touched := False, use_batch := False\<rparr>
      in if \<not> is_file (rc_disk r) LOG_FILE_NAME then Inr (r\<lparr>log_end := 0\<rparr>, m)
         else
           let r = r\<lparr>log_end := get_file_size (rc_disk r) LOG_FILE_NAME\<rparr>;
               start = restart_offset (rc_disk r) (log_end r);
               m = m\<lparr>start_offset := start\<rparr>
           in and_then (probe_batch start r) (\<lambda>(b, r).
                let m = m\<lparr>use_batch := b\<rparr>
                in and_then (if b then scan_batches handle_rec start r m else scan_records handle_rec start r m) (\<lambda>(pos, r, m).
                     Inr (r\<lparr>log_end := pos\<rparr>, m))))"

section \<open>Redo and undo\<close>

text \<open>\<open>table_fh\<close> and the work on the file it gives; a record of a table that is not open is skipped.\<close>

definition on_table :: "bytes \<Rightarrow> bool rc \<Rightarrow> rec_mgr \<Rightarrow> rec_error + rec_mgr" where
  "on_table tab work m =
     (case fhs m tab of
        None \<Rightarrow> Inr m
      | Some f \<Rightarrow> and_then (work (f, rc_pool m)) (\<lambda>(t, f', s').
          Inr (m\<lparr>fhs := (fhs m)(tab \<mapsto> f'), rc_pool := s', touched := touched m \<or> t\<rparr>)))"

definition then_touch :: "'a rc \<Rightarrow> bool rc" where
  "then_touch w = rc_bind w (\<lambda>_. rc_return True)"

fun redo_log :: "any_log \<Rightarrow> rec_mgr \<Rightarrow> rec_error + rec_mgr" where
  "redo_log (HdrLog h) m = Inr m"
| "redo_log (InsertLog lr) m = on_table (insert_tab lr) (then_touch (apply_insert (insert_rid lr) (insert_value lr))) m"
| "redo_log (DeleteLog lr) m = on_table (delete_tab lr) (then_touch (apply_delete (delete_rid lr))) m"
| "redo_log (UpdateLog lr) m = on_table (update_tab lr) (then_touch (apply_update (update_rid lr) (new_value lr))) m"
| "redo_log (DeltaLog lr) m = on_table (delta_tab lr) (apply_patch (delta_rid lr) (apply_new_ranges (delta_ranges lr))) m"

definition redo_one :: "bytes \<Rightarrow> rec_mgr \<Rightarrow> rec_error + rec_mgr" where
  "redo_one data m =
     (if le_dec_s (rd OFFSET_LOG_TID 8 data) \<notin> committed m then Inr m
      else case deserialize_any data of None \<Rightarrow> Inl BadRecord | Some r \<Rightarrow> redo_log r m)"

definition undo_one :: "PendingOp \<Rightarrow> rec_mgr \<Rightarrow> rec_error + rec_mgr" where
  "undo_one p m =
     on_table (op_table p)
       (case op_type p of
          INSERT \<Rightarrow> then_touch (apply_delete (op_rid p))
        | UPDATE \<Rightarrow> then_touch (apply_update (op_rid p) (old_data p))
        | UPDATE_DELTA \<Rightarrow> then_touch (apply_patch (op_rid p) (apply_old_ranges (op_ranges p)))
        | DELETE \<Rightarrow> then_touch (apply_restore (op_rid p) (old_data p))
        | _ \<Rightarrow> rc_return True) m"

definition undo_list :: "(txn_id_t \<times> PendingOp list) list \<Rightarrow> PendingOp list" where
  "undo_list u = concat (map (\<lambda>(t, ps). rev ps) u)"

definition undo_pass :: "rec_mgr \<Rightarrow> rec_error + rec_mgr" where
  "undo_pass m = and_then (each undo_one (undo_list (uncommitted m)) m) (\<lambda>m. Inr (m\<lparr>uncommitted := []\<rparr>))"

definition redo :: "log_reader \<Rightarrow> rec_mgr \<Rightarrow> rec_error + log_reader \<times> rec_mgr" where
  "redo r m =
     and_then (undo_pass m) (\<lambda>m.
       if committed m = {} then Inr (r, m)
       else and_then (if use_batch m then scan_batches redo_one (start_offset m) r m else scan_records redo_one (start_offset m) r m)
              (\<lambda>(_, r, m). Inr (r, m)))"

text \<open>The two phases as the server runs them at start.\<close>

definition recover :: "log_reader \<Rightarrow> rec_mgr \<Rightarrow> rec_error + log_reader \<times> rec_mgr" where
  "recover r m = and_then (analyze r m) (\<lambda>(r, m). redo r m)"

section \<open>The tables as a map\<close>

definition tab_rows :: "rec_mgr \<Rightarrow> bytes \<times> Rid \<Rightarrow> bytes option" where
  "tab_rows m c = (case fhs m (fst c) of None \<Rightarrow> None | Some f \<Rightarrow> rows f (rc_pool m) (snd c))"

text \<open>Row size and slots per page of a table, which recovery does not change.\<close>

definition shape :: "rec_mgr \<Rightarrow> bytes \<Rightarrow> (int \<times> int) option" where
  "shape m tab = map_option (\<lambda>f. (record_size (file_hdr f), num_records_per_page (file_hdr f))) (fhs m tab)"

definition mgr_ok :: "rec_mgr \<Rightarrow> bool" where
  "mgr_ok m \<longleftrightarrow> (\<forall>tab f. fhs m tab = Some f \<longrightarrow> file_ready f (rc_pool m))
     \<and> (\<forall>tab tab' f f'. fhs m tab = Some f \<longrightarrow> fhs m tab' = Some f' \<longrightarrow> tab \<noteq> tab' \<longrightarrow> rm_fd f \<noteq> rm_fd f')"

text \<open>A record id that a table of this shape can have, and a row image of its size.\<close>

definition fits_cell :: "(bytes \<Rightarrow> (int \<times> int) option) \<Rightarrow> bytes \<Rightarrow> Rid \<Rightarrow> bool" where
  "fits_cell sh tab rid \<longleftrightarrow> (case sh tab of None \<Rightarrow> True
     | Some (_, per_page) \<Rightarrow> 1 \<le> page_no rid \<and> page_no rid + 1 < 2 ^ 31 \<and> 0 \<le> slot_no rid \<and> slot_no rid < per_page)"

definition fits_row :: "(bytes \<Rightarrow> (int \<times> int) option) \<Rightarrow> bytes \<Rightarrow> bytes \<Rightarrow> bool" where
  "fits_row sh tab x \<longleftrightarrow> (case sh tab of None \<Rightarrow> True | Some (sz, _) \<Rightarrow> int (length x) = sz)"

fun fits_tables :: "(bytes \<Rightarrow> (int \<times> int) option) \<Rightarrow> any_log \<Rightarrow> bool" where
  "fits_tables sh (HdrLog h) \<longleftrightarrow> True"
| "fits_tables sh (InsertLog r) \<longleftrightarrow> fits_cell sh (insert_tab r) (insert_rid r) \<and> fits_row sh (insert_tab r) (insert_value r)"
| "fits_tables sh (DeleteLog r) \<longleftrightarrow> fits_cell sh (delete_tab r) (delete_rid r) \<and> fits_row sh (delete_tab r) (delete_value r)"
| "fits_tables sh (UpdateLog r) \<longleftrightarrow> fits_cell sh (update_tab r) (update_rid r) \<and> fits_row sh (update_tab r) (old_value r)
     \<and> fits_row sh (update_tab r) (new_value r)"
| "fits_tables sh (DeltaLog r) \<longleftrightarrow> fits_cell sh (delta_tab r) (delta_rid r)
     \<and> list_all (\<lambda>(rg, ov, nv). 0 \<le> r_off rg \<and> 0 \<le> r_len rg) (delta_ranges r)"

lemma mgr_okD:
  assumes "mgr_ok m" and "fhs m tab = Some f"
  shows "file_ready f (rc_pool m)" "fhs m tab' = Some f' \<Longrightarrow> tab \<noteq> tab' \<Longrightarrow> rm_fd f \<noteq> rm_fd f'"
  using assms unfolding mgr_ok_def by blast+

lemma shape_known: "fhs m tab = Some f \<Longrightarrow> shape m tab = Some (record_size (file_hdr f), num_records_per_page (file_hdr f))"
  by (simp add: shape_def)

lemma fits_known:
  assumes "fhs m tab = Some f"
  shows "fits_cell (shape m) tab rid \<longleftrightarrow> slot_rid f rid" "fits_row (shape m) tab x \<Longrightarrow> length x = nat (record_size (file_hdr f))"
  by (auto simp: fits_cell_def fits_row_def shape_known [OF assms] slot_rid_def)

lemma bookkeeping [simp]:
  "tab_rows (m\<lparr>uncommitted := u\<rparr>) = tab_rows m" "shape (m\<lparr>uncommitted := u\<rparr>) = shape m" "mgr_ok (m\<lparr>uncommitted := u\<rparr>) = mgr_ok m"
  "tab_rows (m\<lparr>committed := c\<rparr>) = tab_rows m" "shape (m\<lparr>committed := c\<rparr>) = shape m" "mgr_ok (m\<lparr>committed := c\<rparr>) = mgr_ok m"
  "tab_rows (m\<lparr>touched := t\<rparr>) = tab_rows m" "shape (m\<lparr>touched := t\<rparr>) = shape m" "mgr_ok (m\<lparr>touched := t\<rparr>) = mgr_ok m"
  "tab_rows (m\<lparr>use_batch := b\<rparr>) = tab_rows m" "shape (m\<lparr>use_batch := b\<rparr>) = shape m" "mgr_ok (m\<lparr>use_batch := b\<rparr>) = mgr_ok m"
  "tab_rows (m\<lparr>start_offset := k\<rparr>) = tab_rows m" "shape (m\<lparr>start_offset := k\<rparr>) = shape m" "mgr_ok (m\<lparr>start_offset := k\<rparr>) = mgr_ok m"
  by (simp_all add: fun_eq_iff tab_rows_def shape_def mgr_ok_def split: option.split)

text \<open>One row of one table changes; the rest of the manager's state is as before.\<close>

definition row_set :: "rec_mgr \<Rightarrow> bytes \<Rightarrow> Rid \<Rightarrow> bytes option \<Rightarrow> rec_mgr \<Rightarrow> bool" where
  "row_set m tab rid v m' \<longleftrightarrow> mgr_ok m' \<and> tab_rows m' = (tab_rows m)((tab, rid) := v) \<and> shape m' = shape m
     \<and> start_offset m' = start_offset m \<and> use_batch m' = use_batch m \<and> committed m' = committed m \<and> uncommitted m' = uncommitted m"

lemma on_table_ok:
  assumes ok: "mgr_ok m" and f: "fhs m tab = Some f" and w: "work (f, rc_pool m) = Inr (t, (f', s'))"
    and st: "file_step f (rc_pool m) f' s'" and ru: "rows_upd f (rc_pool m) f' s' rid v"
  shows "\<exists>m'. on_table tab work m = Inr m' \<and> row_set m tab rid v m'"
proof -
  let ?m = "m\<lparr>fhs := (fhs m)(tab \<mapsto> f'), rc_pool := s', touched := touched m \<or> t\<rparr>"
  have run: "on_table tab work m = Inr ?m" using f w by (simp add: on_table_def)
  note sd = file_stepD [OF st]
  have other: "file_ready g s' \<and> (\<forall>r. rows g s' r = rows g (rc_pool m) r)" if g: "fhs m tab' = Some g" "tab' \<noteq> tab" for tab' g
  proof -
    note gr = mgr_okD(1) [OF ok g(1)]
    have fd: "rm_fd g \<noteq> rm_fd f" using mgr_okD(2) [OF ok g(1) f] g(2) by blast
    have "file_inv {} g s' \<and> (\<forall>r. rows g s' r = rows g (rc_pool m) r)"
      by (rule file_inv_others [OF file_readyD(1,2) [OF gr] fd sd(2) file_readyD(5) [OF sd(1)]])
    then show ?thesis using file_readyD(2,3) [OF gr] file_readyD(4) [OF sd(1)] by (simp add: file_ready_def)
  qed
  have "file_ready g s'" if "fhs ?m tab' = Some g" for tab' g
    using that other [of tab' g] sd(1) by (cases "tab' = tab") auto
  moreover have "rm_fd g \<noteq> rm_fd g'" if h: "fhs ?m t1 = Some g" "fhs ?m t2 = Some g'" "t1 \<noteq> t2" for t1 t2 g g'
  proof -
    have old: "\<exists>g0. fhs m u = Some g0 \<and> rm_fd g0 = rm_fd h" if "fhs ?m u = Some h" for u h
      using that f sd(3) by (cases "u = tab") auto
    obtain g0 g0' where "fhs m t1 = Some g0" "fhs m t2 = Some g0'" "rm_fd g0 = rm_fd g" "rm_fd g0' = rm_fd g'"
      using old [OF h(1)] old [OF h(2)] by blast
    then show ?thesis using mgr_okD(2) [OF ok _ _ h(3)] by metis
  qed
  ultimately have ok': "mgr_ok ?m" unfolding mgr_ok_def by simp
  have "tab_rows ?m c = ((tab_rows m)((tab, rid) := v)) c" for c
  proof (cases "fst c = tab")
    case True
    then show ?thesis using ru f by (cases c) (auto simp: tab_rows_def rows_upd_def)
  next
    case False
    then show ?thesis using other [of "fst c"] by (cases c) (auto simp: tab_rows_def split: option.split)
  qed
  moreover have "shape ?m = shape m" using f sd(4,5) by (auto simp: shape_def)
  ultimately have "row_set m tab rid v ?m" using ok' by (auto simp: row_set_def)
  then show ?thesis using run by blast
qed

lemma on_table_none: "fhs m tab = None \<Longrightarrow> on_table tab work m = Inr m"
  by (simp add: on_table_def)

section \<open>Steps of the passes\<close>

text \<open>The effect of one step on the tables, as a function on the map; tables that are not open are skipped.\<close>

definition on_cell :: "(bytes \<Rightarrow> (int \<times> int) option) \<Rightarrow> any_log \<Rightarrow> (bytes option \<Rightarrow> bytes option) \<Rightarrow>
    (bytes \<times> Rid \<Rightarrow> bytes option) \<Rightarrow> bytes \<times> Rid \<Rightarrow> bytes option" where
  "on_cell sh r g A = (case cell_of r of None \<Rightarrow> A | Some c \<Rightarrow> if sh (fst c) = None then A else A(c := g (A c)))"

definition mgr_step :: "rec_mgr \<Rightarrow> (bytes \<times> Rid \<Rightarrow> bytes option) \<Rightarrow> rec_mgr \<Rightarrow> bool" where
  "mgr_step m A m' \<longleftrightarrow> mgr_ok m' \<and> tab_rows m' = A \<and> shape m' = shape m
     \<and> start_offset m' = start_offset m \<and> use_batch m' = use_batch m \<and> committed m' = committed m \<and> uncommitted m' = uncommitted m"

lemma mgr_step_refl: "mgr_ok m \<Longrightarrow> mgr_step m (tab_rows m) m"
  by (simp add: mgr_step_def)

lemma row_set_step:
  assumes "row_set m tab rid v m'" and "cell_of r = Some (tab, rid)" and "fhs m tab = Some f" and "v = g (rows f (rc_pool m) rid)"
  shows "mgr_step m (on_cell (shape m) r g (tab_rows m)) m'"
  using assms by (simp add: row_set_def mgr_step_def on_cell_def shape_known tab_rows_def)

lemma skipped_step:
  assumes "mgr_ok m" and "cell_of r = Some (tab, rid)" and "fhs m tab = None"
  shows "mgr_step m (on_cell (shape m) r g (tab_rows m)) m"
  using assms by (simp add: mgr_step_def on_cell_def shape_def)

lemma length_rows:
  assumes "file_inv X f s" and "rows f s rid = Some x"
  shows "length x = nat (record_size (file_hdr f))"
proof -
  have h: "hdr_ok (file_hdr f)" by (rule base_okD(1) [OF file_invD(1) [OF assms(1)]])
  have n: "in_file f (page_no rid)" using assms(2) by (simp add: rows_def split: if_splits)
  obtain d where d: "page_in f s (page_no rid) d" using store_okD(3) [OF file_invD(2) [OF assms(1)] n] by blast
  then have "row (file_hdr f) d (slot_no rid) = Some x" using assms(2) n by (simp add: rows_def page_in_def)
  then have k: "0 \<le> slot_no rid" "slot_no rid < num_records_per_page (file_hdr f)" and x: "x = slot_data (file_hdr f) (slot_no rid) d"
    by (simp_all add: row_def split: if_splits)
  let ?h = "file_hdr f"
  have len: "length d = PAGE_SIZE" using page_inD(2) [OF d] by (simp add: page_ok_def)
  have "(slot_no rid + 1) * record_size ?h \<le> num_records_per_page ?h * record_size ?h"
    using k hdr_okD(1) [OF h] by (intro mult_right_mono) simp_all
  then have "12 + bitmap_size ?h + slot_no rid * record_size ?h + record_size ?h \<le> 4096"
    using hdr_okD(7) [OF h] by (simp add: algebra_simps)
  moreover have "0 \<le> slot_no rid * record_size ?h" using k hdr_okD(1) [OF h] by simp
  ultimately have "get_slot ?h (slot_no rid) + nat (record_size ?h) \<le> length d"
    using hdr_okD(1,5) [OF h] by (simp add: get_slot_def len PAGE_SIZE_def bitmap_off_def OFFSET_PAGE_HDR_def)
  then show ?thesis by (simp add: x slot_data_def)
qed

lemma length_apply_range: "0 \<le> r_off rg \<Longrightarrow> 0 \<le> r_len rg \<Longrightarrow> length (apply_range rg v d) = length d"
  by (auto simp: apply_range_def intro!: length_wr)

lemma length_apply_ranges:
  assumes "list_all (\<lambda>(rg, ov, nv). 0 \<le> r_off rg \<and> 0 \<le> r_len rg) rs"
  shows "length (apply_new_ranges rs d) = length d" "length (apply_old_ranges rs d) = length d"
  using assms unfolding apply_new_ranges_def apply_old_ranges_def
  by (induction rs arbitrary: d) (auto simp: length_apply_range)

lemma patch_step:
  assumes ok: "mgr_ok m" and f: "fhs m tab = Some f" and c: "cell_of r = Some (tab, rid)" and s: "slot_rid f rid"
    and g: "\<And>d. length (g d) = length d" and w: "w = apply_patch rid g \<or> w = then_touch (apply_patch rid g)"
  shows "\<exists>m'. on_table tab w m = Inr m' \<and> mgr_step m (on_cell (shape m) r (map_option g) (tab_rows m)) m'"
proof -
  note fr = mgr_okD(1) [OF ok f]
  have l: "length (g x) = nat (record_size (file_hdr f))" if "rows f (rc_pool m) rid = Some x" for x
    using length_rows [OF file_readyD(1) [OF fr] that] g by simp
  obtain f' s' where p: "apply_patch rid g (f, rc_pool m) = Inr (rows f (rc_pool m) rid \<noteq> None, (f', s'))" "file_step f (rc_pool m) f' s'"
      "rows_upd f (rc_pool m) f' s' rid (map_option g (rows f (rc_pool m) rid))"
    using apply_patch_ok [OF fr s, of g] l by blast
  obtain t where "w (f, rc_pool m) = Inr (t, (f', s'))" using w p(1) by (auto simp: then_touch_def rc_simps)
  then show ?thesis using on_table_ok [OF ok f _ p(2,3)] row_set_step [OF _ c f] by blast
qed

lemma touch_step:
  assumes ok: "mgr_ok m" and f: "fhs m tab = Some f" and c: "cell_of r = Some (tab, rid)"
    and w: "\<exists>f' s'. w (f, rc_pool m) = Inr ((), (f', s')) \<and> file_step f (rc_pool m) f' s' \<and> rows_upd f (rc_pool m) f' s' rid (g (rows f (rc_pool m) rid))"
  shows "\<exists>m'. on_table tab (then_touch w) m = Inr m' \<and> mgr_step m (on_cell (shape m) r g (tab_rows m)) m'"
proof -
  obtain f' s' where p: "w (f, rc_pool m) = Inr ((), (f', s'))" "file_step f (rc_pool m) f' s'"
      "rows_upd f (rc_pool m) f' s' rid (g (rows f (rc_pool m) rid))"
    using w by blast
  have "then_touch w (f, rc_pool m) = Inr (True, (f', s'))" using p(1) by (simp add: then_touch_def rc_simps)
  then show ?thesis using on_table_ok [OF ok f _ p(2,3)] row_set_step [OF _ c f] by blast
qed

lemma redo_log_ok:
  assumes ok: "mgr_ok m" and fit: "fits_tables (shape m) r"
  shows "\<exists>m'. redo_log r m = Inr m' \<and> mgr_step m (on_cell (shape m) r (redo_val r) (tab_rows m)) m'"
proof (cases "cell_of r")
  case None
  then obtain h where "r = HdrLog h" by (cases r) simp_all
  then show ?thesis using mgr_step_refl [OF ok] by (simp add: on_cell_def)
next
  case (Some c)
  obtain tab rid where c: "cell_of r = Some (tab, rid)" using Some by (cases c) simp
  show ?thesis
  proof (cases "fhs m tab")
    case None
    then have "redo_log r m = Inr m" using c by (cases r) (simp_all add: on_table_none)
    then show ?thesis using skipped_step [OF ok c None] by blast
  next
    case (Some f)
    note fr = mgr_okD(1) [OF ok Some] and fk = fits_known [OF Some]
    show ?thesis
    proof (cases r)
      case (DeltaLog d)
      have "redo_val r = map_option (apply_new_ranges (delta_ranges d))" by (simp add: DeltaLog fun_eq_iff)
      then show ?thesis
        using patch_step [OF ok Some c, of "apply_new_ranges (delta_ranges d)"] fit c fk length_apply_ranges(1) by (simp add: DeltaLog)
    next
      case (InsertLog d)
      have "\<exists>m'. on_table tab (then_touch (apply_insert rid (insert_value d))) m = Inr m'
          \<and> mgr_step m (on_cell (shape m) r (redo_val r) (tab_rows m)) m'"
        by (rule touch_step [OF ok Some c]) (use apply_update_ok [OF fr] fit c fk in \<open>simp add: InsertLog apply_insert_update\<close>)
      then show ?thesis using c by (simp add: InsertLog)
    next
      case (DeleteLog d)
      have "\<exists>m'. on_table tab (then_touch (apply_delete rid)) m = Inr m' \<and> mgr_step m (on_cell (shape m) r (redo_val r) (tab_rows m)) m'"
        by (rule touch_step [OF ok Some c]) (use apply_delete_ok [OF fr] fit c fk in \<open>simp add: DeleteLog\<close>)
      then show ?thesis using c by (simp add: DeleteLog)
    next
      case (UpdateLog d)
      have "\<exists>m'. on_table tab (then_touch (apply_update rid (new_value d))) m = Inr m'
          \<and> mgr_step m (on_cell (shape m) r (redo_val r) (tab_rows m)) m'"
        by (rule touch_step [OF ok Some c]) (use apply_update_ok [OF fr] fit c fk in \<open>simp add: UpdateLog\<close>)
      then show ?thesis using c by (simp add: UpdateLog)
    qed (use c in simp)
  qed
qed

fun op_of :: "any_log \<Rightarrow> PendingOp option" where
  "op_of (HdrLog r) = None"
| "op_of (InsertLog r) = Some (insert_op r)"
| "op_of (DeleteLog r) = Some (delete_op r)"
| "op_of (UpdateLog r) = Some (update_op r)"
| "op_of (DeltaLog r) = Some (delta_op r)"

definition undo_log :: "any_log \<Rightarrow> rec_mgr \<Rightarrow> rec_error + rec_mgr" where
  "undo_log r m = (case op_of r of None \<Rightarrow> Inr m | Some p \<Rightarrow> undo_one p m)"

lemma undo_log_ok:
  assumes ok: "mgr_ok m" and fit: "fits_tables (shape m) r"
  shows "\<exists>m'. undo_log r m = Inr m' \<and> mgr_step m (on_cell (shape m) r (undo_val r) (tab_rows m)) m'"
proof (cases "cell_of r")
  case None
  then obtain h where "r = HdrLog h" by (cases r) simp_all
  then show ?thesis using mgr_step_refl [OF ok] by (simp add: on_cell_def undo_log_def)
next
  case (Some c)
  obtain tab rid where c: "cell_of r = Some (tab, rid)" using Some by (cases c) simp
  show ?thesis
  proof (cases "fhs m tab")
    case None
    then have "undo_log r m = Inr m"
      using c by (cases r) (simp_all add: undo_log_def undo_one_def on_table_none insert_op_def delete_op_def update_op_def delta_op_def)
    then show ?thesis using skipped_step [OF ok c None] by blast
  next
    case (Some f)
    note fr = mgr_okD(1) [OF ok Some] and fk = fits_known [OF Some]
    show ?thesis
    proof (cases r)
      case (DeltaLog d)
      have "undo_val r = map_option (apply_old_ranges (delta_ranges d))" by (simp add: DeltaLog fun_eq_iff)
      then show ?thesis
        using patch_step [OF ok Some c, of "apply_old_ranges (delta_ranges d)"] fit c fk length_apply_ranges(2)
        by (simp add: DeltaLog undo_log_def undo_one_def delta_op_def)
    next
      case (InsertLog d)
      have "\<exists>m'. on_table tab (then_touch (apply_delete rid)) m = Inr m' \<and> mgr_step m (on_cell (shape m) r (undo_val r) (tab_rows m)) m'"
        by (rule touch_step [OF ok Some c]) (use apply_delete_ok [OF fr] fit c fk in \<open>simp add: InsertLog\<close>)
      then show ?thesis using c by (simp add: InsertLog undo_log_def undo_one_def insert_op_def)
    next
      case (DeleteLog d)
      have "\<exists>m'. on_table tab (then_touch (apply_restore rid (delete_value d))) m = Inr m'
          \<and> mgr_step m (on_cell (shape m) r (undo_val r) (tab_rows m)) m'"
        by (rule touch_step [OF ok Some c]) (use apply_restore_ok [OF fr] fit c fk in \<open>simp add: DeleteLog\<close>)
      then show ?thesis using c by (simp add: DeleteLog undo_log_def undo_one_def delete_op_def)
    next
      case (UpdateLog d)
      have "\<exists>m'. on_table tab (then_touch (apply_update rid (old_value d))) m = Inr m'
          \<and> mgr_step m (on_cell (shape m) r (undo_val r) (tab_rows m)) m'"
        by (rule touch_step [OF ok Some c]) (use apply_update_ok [OF fr] fit c fk in \<open>simp add: UpdateLog\<close>)
      then show ?thesis using c by (simp add: UpdateLog undo_log_def undo_one_def update_op_def)
    qed (use c in simp)
  qed
qed

section \<open>A pass over the records\<close>

text \<open>A step that returns on every record of a kind and changes the tables by a function of the record; then so does a pass.\<close>

locale row_pass =
  fixes step :: "'b \<Rightarrow> rec_mgr \<Rightarrow> rec_error + rec_mgr"
    and effect :: "(bytes \<Rightarrow> (int \<times> int) option) \<Rightarrow> txn_id_t set \<Rightarrow> 'b \<Rightarrow> (bytes \<times> Rid \<Rightarrow> bytes option) \<Rightarrow> bytes \<times> Rid \<Rightarrow> bytes option"
    and fits :: "(bytes \<Rightarrow> (int \<times> int) option) \<Rightarrow> 'b \<Rightarrow> bool"
  assumes step_ok: "mgr_ok m \<Longrightarrow> fits (shape m) x \<Longrightarrow>
    \<exists>m'. step x m = Inr m' \<and> mgr_step m (effect (shape m) (committed m) x (tab_rows m)) m'"
begin

lemma pass_ok:
  assumes "mgr_ok m" and "list_all (fits (shape m)) xs"
  shows "\<exists>m'. each step xs m = Inr m' \<and> mgr_step m (fold (effect (shape m) (committed m)) xs (tab_rows m)) m'"
  using assms
proof (induction xs arbitrary: m)
  case (Cons x xs)
  obtain m1 where m1: "step x m = Inr m1" "mgr_step m (effect (shape m) (committed m) x (tab_rows m)) m1"
    using step_ok [of m x] Cons.prems by auto
  then obtain m' where m': "each step xs m1 = Inr m'" "mgr_step m1 (fold (effect (shape m1) (committed m1)) xs (tab_rows m1)) m'"
    using Cons.IH [of m1] Cons.prems(2) by (auto simp: mgr_step_def)
  then show ?case using m1 by (auto simp: mgr_step_def)
qed (simp add: mgr_step_refl)

end

definition redo_effect :: "(bytes \<Rightarrow> (int \<times> int) option) \<Rightarrow> txn_id_t set \<Rightarrow> any_log \<Rightarrow> (bytes \<times> Rid \<Rightarrow> bytes option) \<Rightarrow> bytes \<times> Rid \<Rightarrow> bytes option" where
  "redo_effect sh C r = on_cell sh r (redo_step C r)"

definition undo_effect :: "(bytes \<Rightarrow> (int \<times> int) option) \<Rightarrow> txn_id_t set \<Rightarrow> any_log \<Rightarrow> (bytes \<times> Rid \<Rightarrow> bytes option) \<Rightarrow> bytes \<times> Rid \<Rightarrow> bytes option" where
  "undo_effect sh C r = on_cell sh r (undo_val r)"

lemma tid_hdr_image: "hdr_fits h \<Longrightarrow> le_dec_s (rd OFFSET_LOG_TID 8 (hdr_image h @ rest)) = log_tid h"
  by (simp add: hdr_image_def rd_def log_offsets codec_simps hdr_fits_def)

lemmas tid_hdr_only = tid_hdr_image [of _ "[]", simplified]

lemma tid_image: "fits_any r \<Longrightarrow> le_dec_s (rd OFFSET_LOG_TID 8 (image_any r)) = tid_any r"
  by (cases r) (auto simp: tid_hdr_image tid_hdr_only insert_image_def delete_image_def update_image_def delta_image_def
      hdr_only_fits_def insert_fits_def delete_fits_def update_fits_def delta_fits_def)

lemma deserialize_image: "fits_any r \<Longrightarrow> deserialize_any (image_any r) = Some r"
  using deserialize_any_image [of r "[]"] by simp

lemma on_cell_id: "on_cell sh r (\<lambda>v. v) A = A"
  by (simp add: on_cell_def split: option.split)

interpretation redo_rows: row_pass "\<lambda>r. redo_one (image_any r)" redo_effect "\<lambda>sh r. fits_any r \<and> fits_tables sh r"
proof
  fix m x assume ok: "mgr_ok m" and fit: "fits_any x \<and> fits_tables (shape m) x"
  show "\<exists>m'. redo_one (image_any x) m = Inr m' \<and> mgr_step m (redo_effect (shape m) (committed m) x (tab_rows m)) m'"
  proof (cases "tid_any x \<in> committed m")
    case True
    then show ?thesis
      using redo_log_ok [OF ok, of x] fit by (simp add: redo_one_def tid_image deserialize_image redo_effect_def redo_step_def [abs_def])
  next
    case False
    then show ?thesis
      using mgr_step_refl [OF ok] fit by (simp add: redo_one_def tid_image redo_effect_def redo_step_def [abs_def] on_cell_id)
  qed
qed

interpretation undo_rows: row_pass undo_log undo_effect fits_tables
  by unfold_locales (simp add: undo_log_ok undo_effect_def)

section \<open>What analysis finds\<close>

text \<open>The same bookkeeping on the records themselves.\<close>

fun note_pending :: "any_log \<Rightarrow> (txn_id_t \<times> any_log list) list \<Rightarrow> (txn_id_t \<times> any_log list) list" where
  "note_pending (HdrLog h) u = (if log_type h = log_type_code Commit then filter (\<lambda>e. fst e \<noteq> log_tid h) u else u)"
| "note_pending r u = push_op (tid_any r) r u"

definition undo_logs :: "any_log list \<Rightarrow> any_log list" where
  "undo_logs rs = concat (map (\<lambda>(t, ls). rev ls) (fold note_pending rs []))"

definition committed_tids :: "any_log list \<Rightarrow> txn_id_t set" where
  "committed_tids rs = {log_tid h | h. HdrLog h \<in> set rs \<and> log_type h = log_type_code Commit}"

definition held :: "(txn_id_t \<times> 'a list) list \<Rightarrow> (txn_id_t \<times> 'a) set" where
  "held u = {(t, x). \<exists>ls. (t, ls) \<in> set u \<and> x \<in> set ls}"

lemma held_push: "held (push_op t x u) = insert (t, x) (held u)"
  by (induction t x u rule: push_op.induct) (auto simp: held_def)

lemma held_filter: "held (filter (\<lambda>e. fst e \<noteq> t) u) = {e \<in> held u. fst e \<noteq> t}"
  by (auto simp: held_def)

lemma pending_held:
  "(\<forall>(t, r) \<in> held (fold note_pending rs []). r \<in> set rs \<and> cell_of r \<noteq> None)
   \<and> (\<forall>r \<in> set rs. cell_of r \<noteq> None \<longrightarrow> tid_any r \<notin> committed_tids rs \<longrightarrow> (tid_any r, r) \<in> held (fold note_pending rs []))"
proof (induction rs rule: rev_induct)
  case Nil
  show ?case by (simp add: held_def)
next
  case (snoc r rs)
  show ?case
  proof (cases r)
    case (HdrLog h)
    then show ?thesis using snoc by (auto simp: held_push held_filter committed_tids_def split: if_splits)
  qed (use snoc in \<open>auto simp: held_push held_filter committed_tids_def\<close>)
qed

lemma undo_logs_set:
  "set (undo_logs rs) \<subseteq> set rs" "r \<in> set (undo_logs rs) \<Longrightarrow> cell_of r \<noteq> None"
  "r \<in> set rs \<Longrightarrow> cell_of r \<noteq> None \<Longrightarrow> tid_any r \<notin> committed_tids rs \<Longrightarrow> r \<in> set (undo_logs rs)"
proof -
  have u: "set (undo_logs rs) = snd ` held (fold note_pending rs [])" by (force simp: undo_logs_def held_def)
  show "set (undo_logs rs) \<subseteq> set rs" "r \<in> set (undo_logs rs) \<Longrightarrow> cell_of r \<noteq> None"
    using pending_held [of rs] unfolding u by auto
  show "r \<in> set rs \<Longrightarrow> cell_of r \<noteq> None \<Longrightarrow> tid_any r \<notin> committed_tids rs \<Longrightarrow> r \<in> set (undo_logs rs)"
    using pending_held [of rs] unfolding u by force
qed

text \<open>The entries of \<open>uncommitted\<close> are the operations of these records.\<close>

definition ops_of :: "(txn_id_t \<times> any_log list) list \<Rightarrow> (txn_id_t \<times> PendingOp list) list" where
  "ops_of u = map (\<lambda>(t, ls). (t, map (\<lambda>r. the (op_of r)) ls)) u"

lemma ops_of_push: "ops_of (push_op t r u) = push_op t (the (op_of r)) (ops_of u)"
  by (induction t r u rule: push_op.induct) (simp_all add: ops_of_def)

lemma ops_of_filter: "ops_of (filter (\<lambda>e. fst e \<noteq> t) u) = filter (\<lambda>e. fst e \<noteq> t) (ops_of u)"
  by (induction u) (auto simp: ops_of_def)

lemma note_log_ops:
  assumes "uncommitted m = ops_of u"
  shows "note_log r m = m\<lparr>committed := committed m \<union> committed_tids [r], uncommitted := ops_of (note_pending r u)\<rparr>"
proof (cases r)
  case (HdrLog h)
  have "committed_tids [r] = (if log_type h = log_type_code Commit then {log_tid h} else {})" by (auto simp: committed_tids_def HdrLog)
  then show ?thesis using assms by (simp add: HdrLog ops_of_filter)
qed (use assms in \<open>simp_all add: push_pending_def ops_of_push committed_tids_def\<close>)

lemma handle_all:
  assumes "list_all fits_any rs" and "uncommitted m = ops_of u"
  shows "each handle_rec (map image_any rs) m
    = Inr (m\<lparr>committed := committed m \<union> committed_tids rs, uncommitted := ops_of (fold note_pending rs u)\<rparr>)"
  using assms
proof (induction rs arbitrary: m u)
  case Nil
  then show ?case by (simp add: committed_tids_def)
next
  case (Cons r rs)
  have c: "committed_tids (r # rs) = committed_tids [r] \<union> committed_tids rs" by (auto simp: committed_tids_def)
  let ?m = "m\<lparr>committed := committed m \<union> committed_tids [r], uncommitted := ops_of (note_pending r u)\<rparr>"
  have "handle_rec (image_any r) m = Inr ?m"
    using Cons.prems by (simp add: handle_rec_def deserialize_image note_log_ops)
  then show ?case using Cons.IH [of ?m "note_pending r u"] Cons.prems(1) c by (simp add: Un_assoc)
qed

lemma each_undo_ops:
  assumes "\<And>r. r \<in> set ls \<Longrightarrow> cell_of r \<noteq> None"
  shows "each undo_one (map (\<lambda>r. the (op_of r)) ls) m = each undo_log ls m"
  using assms
proof (induction ls arbitrary: m)
  case (Cons r ls)
  have "cell_of r \<noteq> None" by (rule Cons.prems) simp
  then have "undo_log r m = undo_one (the (op_of r)) m" by (cases r) (simp_all add: undo_log_def)
  moreover have "each undo_one (map (\<lambda>r. the (op_of r)) ls) = each undo_log ls"
    by (intro ext Cons.IH) (use Cons.prems in simp)
  ultimately show ?case by simp
qed simp

lemma undo_list_ops: "undo_list (ops_of (fold note_pending rs [])) = map (\<lambda>r. the (op_of r)) (undo_logs rs)"
  by (simp add: undo_list_def ops_of_def undo_logs_def map_concat comp_def rev_map case_prod_beta)

lemma undo_pass_ok:
  assumes "mgr_ok m" and "uncommitted m = ops_of (fold note_pending rs [])" and "list_all (fits_tables (shape m)) rs"
  shows "\<exists>m'. undo_pass m = Inr m' \<and> mgr_ok m' \<and> tab_rows m' = fold (undo_effect (shape m) {}) (undo_logs rs) (tab_rows m)
    \<and> shape m' = shape m \<and> start_offset m' = start_offset m \<and> use_batch m' = use_batch m \<and> committed m' = committed m"
proof -
  have "list_all (fits_tables (shape m)) (undo_logs rs)" using assms(3) undo_logs_set(1) [of rs] by (auto simp: list_all_iff)
  then obtain m' where m': "each undo_log (undo_logs rs) m = Inr m'"
      "mgr_step m (fold (undo_effect (shape m) (committed m)) (undo_logs rs) (tab_rows m)) m'"
    using undo_rows.pass_ok [OF assms(1)] by blast
  have "each undo_one (undo_list (uncommitted m)) m = Inr m'"
    unfolding assms(2) undo_list_ops using each_undo_ops [OF undo_logs_set(2)] m'(1) by simp
  moreover have "undo_effect (shape m) (committed m) = undo_effect (shape m) {}" by (intro ext) (simp add: undo_effect_def)
  ultimately show ?thesis
    using m'(2) by (simp add: undo_pass_def mgr_step_def)
qed

section \<open>Recovery\<close>

lemma each_map: "each f (map g xs) a = each (\<lambda>x. f (g x)) xs a"
  by (induction xs arbitrary: a) (auto intro!: arg_cong2 [of _ _ _ _ and_then])

text \<open>
  A disk after a crash: the log holds the batches \<open>bs\<close> from the position \<open>p\<close> that the restart file names (or from the
  start), and then \<open>q\<close>, which does not begin with a valid batch: preallocated zeros or the torn part of a batch. The reader is as constructed.
\<close>

definition crashed :: "log_reader \<Rightarrow> bytes \<Rightarrow> any_log list list \<Rightarrow> bytes \<Rightarrow> bool" where
  "crashed r p bs q \<longleftrightarrow> log_ready (rc_disk r) \<and> log_content (rc_disk r) = p @ batch_frames bs @ q
     \<and> int (length (log_content (rc_disk r))) < 2 ^ 31 \<and> rdbuf_start r = 0 \<and> rdbuf_len r = 0 \<and> rdbuf_cap r < 2 ^ 31
     \<and> restart_offset (rc_disk r) (int (length (log_content (rc_disk r)))) = int (length p) \<and> bs \<noteq> [] \<and> batches_fit bs
     \<and> batch_at (log_content (rc_disk r)) (int (length (log_content (rc_disk r)))) (int (length (p @ batch_frames bs))) = None"

lemma get_log_size:
  assumes "log_ready d" and "int (length (log_content d)) < 2 ^ 31"
  shows "get_file_size d LOG_FILE_NAME = int (length (log_content d))"
  using assms i32_id [of "int (length (log_content d))"]
  by (auto simp: get_file_size_def i32_def log_ready_def log_content_def is_file_def split: option.splits)

lemma probe_frames:
  assumes "reader_ok r" and "log_content (rc_disk r) = p @ batch_frames bs @ q" and "bs \<noteq> []"
    and "log_end r = int (length (log_content (rc_disk r)))"
  shows "\<exists>r'. probe_batch (int (length p)) r = Inr (True, r') \<and> same_log r r'"
proof -
  let ?c = "log_content (rc_disk r)" and ?W = "int WAL_BATCH_HDR_SIZE"
  obtain b bs' where "bs = b # bs'" using assms(3) by (cases bs) auto
  then have f: "batch_frames bs @ q = le_enc 4 WAL_BATCH_MAGIC @ drop 4 (batch_frames bs @ q)"
    by (simp add: batch_frames_def batch_frame_def batch_header_def)
  have len: "length p + WAL_BATCH_HDR_SIZE \<le> length ?c" unfolding assms(2) using \<open>bs = b # bs'\<close> by (simp add: batch_frames_def)
  obtain r' where r': "ensure_bytes (int (length p)) ?W r = Inr (Some (rd (length p) WAL_BATCH_HDR_SIZE ?c), r')" "same_log r r'"
    using ensure_bytes_ok [OF assms(1), of "int (length p)" ?W] assms(4) len by (auto simp: WAL_BATCH_HDR_SIZE_def)
  have "rd 0 4 (rd (length p) WAL_BATCH_HDR_SIZE ?c) = rd (length p) 4 ?c" by (simp add: rd_rd WAL_BATCH_HDR_SIZE_def)
  also have "\<dots> = le_enc 4 WAL_BATCH_MAGIC" unfolding assms(2) by (subst f) (simp add: rd_def)
  finally have "le_dec_u (rd 0 4 (rd (length p) WAL_BATCH_HDR_SIZE ?c)) = WAL_BATCH_MAGIC"
    by (simp add: codec_simps in_u_def WAL_BATCH_MAGIC_def)
  then show ?thesis using r' assms(4) len by (simp add: probe_batch_def)
qed

lemma batches_fit_all: "batches_fit bs \<Longrightarrow> list_all fits_any (concat bs)"
  by (auto simp: batches_fit_def list_all_iff)

lemma analyze_ok:
  assumes "crashed r p bs q"
  shows "\<exists>r'. analyze r m = Inr (r', m\<lparr>committed := committed_tids (concat bs), uncommitted := ops_of (fold note_pending (concat bs) []),
      touched := False, start_offset := int (length p), use_batch := True\<rparr>)
    \<and> reader_ok r' \<and> log_content (rc_disk r') = p @ batch_frames bs @ q \<and> log_end r' = int (length (p @ batch_frames bs))"
proof -
  let ?c = "log_content (rc_disk r)" and ?e = "int (length (log_content (rc_disk r)))"
  have a: "log_ready (rc_disk r)" "?c = p @ batch_frames bs @ q" "?e < 2 ^ 31" "rdbuf_start r = 0" "rdbuf_len r = 0" "rdbuf_cap r < 2 ^ 31"
      "restart_offset (rc_disk r) ?e = int (length p)" "bs \<noteq> []" "batches_fit bs"
      "batch_at ?c ?e (int (length (p @ batch_frames bs))) = None"
    using assms unfolding crashed_def by blast+
  let ?r = "r\<lparr>log_end := ?e\<rparr>"
  have rok: "reader_ok ?r" using a(1,3-6) by (simp add: reader_ok_def)
  obtain r1 where r1: "probe_batch (int (length p)) ?r = Inr (True, r1)" "same_log ?r r1"
    using probe_frames [OF rok, of p bs q] a(2,8) by auto
  note s1 = same_logD [OF r1(2)]
  let ?m0 = "m\<lparr>committed := {}, uncommitted := [], touched := False, start_offset := int (length p), use_batch := True\<rparr>"
  let ?m1 = "m\<lparr>committed := committed_tids (concat bs), uncommitted := ops_of (fold note_pending (concat bs) []),
      touched := False, start_offset := int (length p), use_batch := True\<rparr>"
  have "each handle_rec (map image_any (concat bs)) ?m0 = Inr ?m1"
    using handle_all [OF batches_fit_all [OF a(9)], of ?m0 "[]"] by (simp add: ops_of_def)
  then obtain r2 where r2: "scan_batches handle_rec (int (length p)) r1 ?m0 = Inr (int (length (p @ batch_frames bs)), r2, ?m1)" "same_log r1 r2"
    using scan_batches_frames [of r1 p bs q handle_rec ?m0 ?m1] s1 a(2,9,10) by auto
  note s2 = same_logD [OF r2(2)]
  have e: "int (length (p @ batch_frames bs)) \<le> ?e" using a(2) by simp
  have size: "get_file_size (rc_disk r) LOG_FILE_NAME = ?e" by (rule get_log_size [OF a(1,3)])
  have isf: "is_file (rc_disk r) LOG_FILE_NAME" using a(1) by (simp add: log_ready_def)
  have "analyze r m = Inr (r2\<lparr>log_end := int (length (p @ batch_frames bs))\<rparr>, ?m1)"
    using r1(1) r2(1) a(7) by (simp add: analyze_def Let_def isf size)
  then show ?thesis using s1 s2 a(2) e reader_ok_set_end [of r2 "int (length (p @ batch_frames bs))"] by auto
qed

lemma fold_redo_none: "fold (redo_effect sh {}) rs A = A"
  by (induction rs arbitrary: A) (simp_all add: redo_effect_def redo_step_def [abs_def] on_cell_id)

lemma recover_ok:
  assumes cr: "crashed r p bs q" and ok: "mgr_ok m" and fit: "list_all (fits_tables (shape m)) (concat bs)"
  shows "\<exists>r' m'. recover r m = Inr (r', m') \<and> log_end r' = int (length (p @ batch_frames bs)) \<and> mgr_ok m' \<and> shape m' = shape m
    \<and> tab_rows m' = fold (redo_effect (shape m) (committed_tids (concat bs))) (concat bs)
        (fold (undo_effect (shape m) {}) (undo_logs (concat bs)) (tab_rows m))"
proof -
  let ?m1 = "m\<lparr>committed := committed_tids (concat bs), uncommitted := ops_of (fold note_pending (concat bs) []),
      touched := False, start_offset := int (length p), use_batch := True\<rparr>"
  obtain r1 where r1: "analyze r m = Inr (r1, ?m1)" "reader_ok r1" "log_content (rc_disk r1) = p @ batch_frames bs @ q"
      "log_end r1 = int (length (p @ batch_frames bs))"
    using analyze_ok [OF cr] by blast
  have bf: "batches_fit bs" using cr by (simp add: crashed_def)
  obtain m2 where m2: "undo_pass ?m1 = Inr m2" "mgr_ok m2" "shape m2 = shape m" "committed m2 = committed_tids (concat bs)"
      "tab_rows m2 = fold (undo_effect (shape m) {}) (undo_logs (concat bs)) (tab_rows m)" "start_offset m2 = int (length p)" "use_batch m2"
    using undo_pass_ok [of ?m1 "concat bs"] ok fit by auto
  show ?thesis
  proof (cases "committed m2 = {}")
    case True
    then have "recover r m = Inr (r1, m2)" using r1(1) m2(1) by (simp add: recover_def redo_def)
    then show ?thesis using r1(4) m2 True by (auto simp: fold_redo_none)
  next
    case False
    have "list_all (\<lambda>r. fits_any r \<and> fits_tables (shape m2) r) (concat bs)"
      using batches_fit_all [OF bf] fit m2(3) by (auto simp: list_all_iff)
    then obtain m3 where m3: "each (\<lambda>r. redo_one (image_any r)) (concat bs) m2 = Inr m3"
        "mgr_step m2 (fold (redo_effect (shape m2) (committed m2)) (concat bs) (tab_rows m2)) m3"
      using redo_rows.pass_ok [OF m2(2)] by blast
    have none: "batch_at (log_content (rc_disk r1)) (log_end r1) (int (length (p @ batch_frames bs))) = None"
      by (simp add: batch_at_def r1(4) Let_def WAL_BATCH_HDR_SIZE_def)
    obtain r3 where r3: "scan_batches redo_one (int (length p)) r1 m2 = Inr (int (length (p @ batch_frames bs)), r3, m3)" "same_log r1 r3"
      using scan_batches_frames [OF r1(2,3) bf _ none, of redo_one m2 m3] m3(1) r1(4) by (auto simp: each_map)
    have "recover r m = Inr (r3, m3)" using r1(1) m2(1,6,7) r3(1) False by (simp add: recover_def redo_def)
    then show ?thesis using m3(2) m2(3-5) same_logD [OF r3(2)] r1(4) by (auto simp: mgr_step_def)
  qed
qed

text \<open>The part of a pass that concerns one row.\<close>

definition row_logs :: "bytes \<times> Rid \<Rightarrow> any_log list \<Rightarrow> any_log list" where
  "row_logs c rs = filter (\<lambda>r. cell_of r = Some c) rs"

lemma fold_on_cell:
  assumes "sh (fst c) \<noteq> None"
  shows "fold (\<lambda>r. on_cell sh r (g r)) rs A c = fold g (row_logs c rs) (A c)"
proof (induction rs arbitrary: A)
  case (Cons r rs)
  then show ?case using assms by (cases "cell_of r") (auto simp: on_cell_def row_logs_def)
qed (simp add: row_logs_def)

lemma recovered_row:
  assumes "sh (fst c) \<noteq> None" and "chained (committed_tids rs) v (row_logs c rs)" and "A c \<in> seen (committed_tids rs) v (row_logs c rs)"
  shows "fold (redo_effect sh (committed_tids rs)) rs (fold (undo_effect sh {}) (undo_logs rs) A) c
    = committed_value (committed_tids rs) (row_logs c rs) v"
proof -
  have "fold (redo_effect sh (committed_tids rs)) rs (fold (undo_effect sh {}) (undo_logs rs) A) c
      = committed_value (committed_tids rs) (row_logs c rs) (fold undo_val (row_logs c (undo_logs rs)) (A c))"
    unfolding redo_effect_def undo_effect_def committed_value_def using assms(1) by (simp add: fold_on_cell)
  also have "\<dots> = committed_value (committed_tids rs) (row_logs c rs) v"
    by (rule recovered_value [OF assms(2,3)]) (use undo_logs_set(1,3) in \<open>auto simp: row_logs_def\<close>)
  finally show ?thesis .
qed

section \<open>An example\<close>

text \<open>A table with one row, updated by a committed transaction and then deleted by one that did not commit.\<close>

definition crash_rid :: Rid where
  "crash_rid = \<lparr>page_no = 1, slot_no = 0\<rparr>"

definition crash_logs :: "any_log list" where
  "crash_logs = [UpdateLog (new_UpdateLogRecord 5 [1, 2, 3, 4, 5, 6, 7, 8] [9, 9, 9, 9, 9, 9, 9, 9] crash_rid [116]),
     HdrLog (CommitLogRecord 5), DeleteLog (new_DeleteLogRecord 6 [9, 9, 9, 9, 9, 9, 9, 9] crash_rid [116])]"

definition crash_mgr :: rec_mgr where
  "crash_mgr = \<lparr>fhs = [[116] \<mapsto> ex_file], rc_pool = bpm_new 2 ex_disk, start_offset = 0, use_batch = False,
     committed = {}, uncommitted = [], touched = False\<rparr>"

definition crash_reader :: "any_log list \<Rightarrow> log_reader" where
  "crash_reader rs = \<lparr>rc_disk = disk_new [(LOG_FILE_NAME, batch_frames [rs])], rdbuf = [], rdbuf_cap = 0, rdbuf_start = 0,
     rdbuf_len = 0, log_end = 0\<rparr>"

lemma crash_logs_fit: "list_all fits_any crash_logs"
  by (simp add: crash_logs_def crash_rid_def new_UpdateLogRecord_def new_DeleteLogRecord_def CommitLogRecord_def header_of_def
      hdr_only_fits_def update_fits_def delete_fits_def hdr_fits_def rid_fits_def in_s_def in_u_def INVALID_LSN_def log_offsets)

lemma crash_content: "log_content (rc_disk (crash_reader rs)) = batch_frames [rs]" "log_ready (rc_disk (crash_reader rs))"
  by (simp_all add: crash_reader_def log_content_def log_ready_def disk_inv_def disk_new_def is_file_def)

lemma images_length: "list_all fits_any rs \<Longrightarrow> int (length (images rs)) = (\<Sum>r\<leftarrow>rs. tot_len_any r)"
  unfolding images_def by (induction rs) (simp_all add: any_log.len_image)

lemma crash_length: "length (batch_frames [crash_logs]) = 154"
proof -
  have "(\<Sum>r\<leftarrow>crash_logs. tot_len_any r) = 142"
    by (simp add: crash_logs_def new_UpdateLogRecord_def new_DeleteLogRecord_def CommitLogRecord_def header_of_def log_offsets)
  then show ?thesis using images_length [OF crash_logs_fit] by (simp add: WAL_BATCH_HDR_SIZE_def)
qed

lemma crash_crashed:
  assumes "list_all fits_any rs" and "rs \<noteq> []" and "length (batch_frames [rs]) < 2 ^ 31"
  shows "crashed (crash_reader rs) [] [rs] []"
proof -
  have "restart_offset (rc_disk (crash_reader rs)) e = 0" for e
    by (simp add: restart_offset_def crash_reader_def disk_new_def RESTART_FILE_def LOG_FILE_NAME_def)
  moreover have "batches_fit [rs]" using assms(1,2) by (simp add: batches_fit_def)
  moreover have "batch_at c e e = None" for c e by (simp add: batch_at_def Let_def WAL_BATCH_HDR_SIZE_def)
  ultimately show ?thesis
    unfolding crashed_def crash_content(1) using crash_content(2) assms(3) by (simp add: crash_reader_def)
qed

lemma crash_logs_crashed: "crashed (crash_reader crash_logs) [] [crash_logs] []"
  by (rule crash_crashed [OF crash_logs_fit]) (simp_all only: crash_length, simp_all add: crash_logs_def)

lemma crash_mgr_ok: "mgr_ok crash_mgr" "shape crash_mgr [116] = Some (8, records_per_page 8)" "shape crash_mgr tab \<noteq> None \<Longrightarrow> tab = [116]"
    "tab_rows crash_mgr ([116], crash_rid) = Some [1, 2, 3, 4, 5, 6, 7, 8]"
proof -
  have l: "lookup (bpm_new 2 ex_disk) q = None" for q by (simp add: lookup_def bpm_new_def)
  have "0 \<in> set (free_frames (shards (bpm_new 2 ex_disk) 0))" by (simp add: bpm_new_def BPM_NSHARDS_def)
  then have "has_frame (bpm_new 2 ex_disk)" unfolding has_frame_def by (intro exI [of _ 0]) (auto simp: BPM_NSHARDS_def)
  then have "file_ready ex_file (bpm_new 2 ex_disk)"
    using ex_file_inv(1) [of 2] l by (simp add: file_ready_def idle_def pins_def) (simp add: ex_file_def)
  then show "mgr_ok crash_mgr" by (auto simp: mgr_ok_def crash_mgr_def split: if_splits)
  show "shape crash_mgr [116] = Some (8, records_per_page 8)" by (simp add: shape_def crash_mgr_def ex_file_def ex_hdr_def new_file_hdr_def)
  show "shape crash_mgr tab \<noteq> None \<Longrightarrow> tab = [116]" by (auto simp: shape_def crash_mgr_def split: if_splits)
  show "tab_rows crash_mgr ([116], crash_rid) = Some [1, 2, 3, 4, 5, 6, 7, 8]"
    using ex_file_inv(2) [of 2] by (simp add: tab_rows_def crash_mgr_def crash_rid_def)
qed

lemma crash_tables_fit: "list_all (fits_tables (shape crash_mgr)) crash_logs"
proof -
  have "0 < records_per_page 8" by (simp add: records_per_page_def BITMAP_WIDTH_def PAGE_SIZE_def sizeof_RmFileHdr_def)
  then show ?thesis
    using crash_mgr_ok(2) by (simp add: crash_logs_def crash_rid_def new_UpdateLogRecord_def new_DeleteLogRecord_def fits_cell_def fits_row_def)
qed

lemma crash_committed: "committed_tids crash_logs = {5}"
  by (auto simp: committed_tids_def crash_logs_def CommitLogRecord_def header_of_def)

lemma crash_other_rows: "c \<noteq> ([116], crash_rid) \<Longrightarrow> row_logs c crash_logs = []"
  by (auto simp: row_logs_def crash_logs_def new_UpdateLogRecord_def new_DeleteLogRecord_def)

text \<open>A transaction that updates the row twice, both records built from the row in the table, as under versioning.\<close>

definition stale_delta :: "bytes \<Rightarrow> any_log" where
  "stale_delta x = DeltaLog (new_UpdateDeltaLogRecord 5 [1, 2, 3, 4, 5, 6, 7, 8] x 8 crash_rid [116])"

definition stale_logs :: "any_log list" where
  "stale_logs = [stale_delta [0, 3, 3, 4, 5, 6, 7, 8], stale_delta [1, 3, 3, 4, 5, 6, 7, 8], HdrLog (CommitLogRecord 5)]"

lemma stale_deltas:
  "new_UpdateDeltaLogRecord 5 [1, 2, 3, 4, 5, 6, 7, 8] [0, 3, 3, 4, 5, 6, 7, 8] 8 crash_rid [116] =
     \<lparr>log_type = 7, lsn = -1, log_tot_len = 43, log_tid = 5, prev_lsn = -1, delta_rid = crash_rid, delta_tab = [116],
      delta_ranges = [(\<lparr>r_off = 0, r_len = 2\<rparr>, [1, 2], [0, 3])]\<rparr>"
  "new_UpdateDeltaLogRecord 5 [1, 2, 3, 4, 5, 6, 7, 8] [1, 3, 3, 4, 5, 6, 7, 8] 8 crash_rid [116] =
     \<lparr>log_type = 7, lsn = -1, log_tot_len = 41, log_tid = 5, prev_lsn = -1, delta_rid = crash_rid, delta_tab = [116],
      delta_ranges = [(\<lparr>r_off = 1, r_len = 1\<rparr>, [2], [3])]\<rparr>"
  by code_simp+

lemma stale_logs_fit: "list_all fits_any stale_logs" "list_all (fits_tables (shape crash_mgr)) stale_logs"
proof -
  show "list_all fits_any stale_logs"
    unfolding stale_logs_def stale_delta_def stale_deltas
    by (simp add: crash_rid_def CommitLogRecord_def header_of_def hdr_only_fits_def delta_fits_def delta_payload_def
        hdr_fits_def rid_fits_def in_s_def in_u_def INVALID_LSN_def log_offsets MAX_RANGES_def)
  have "0 < records_per_page 8" by (simp add: records_per_page_def BITMAP_WIDTH_def PAGE_SIZE_def sizeof_RmFileHdr_def)
  then show "list_all (fits_tables (shape crash_mgr)) stale_logs"
    unfolding stale_logs_def stale_delta_def stale_deltas using crash_mgr_ok(2) by (simp add: crash_rid_def fits_cell_def)
qed

lemma stale_crashed: "crashed (crash_reader stale_logs) [] [stale_logs] []"
proof (rule crash_crashed [OF stale_logs_fit(1)])
  have "(\<Sum>r\<leftarrow>stale_logs. tot_len_any r) = 108"
    by (simp add: stale_logs_def stale_delta_def stale_deltas CommitLogRecord_def header_of_def log_offsets)
  then show "length (batch_frames [stale_logs]) < 2 ^ 31" using images_length [OF stale_logs_fit(1)] by (simp add: WAL_BATCH_HDR_SIZE_def)
qed (simp add: stale_logs_def)

section \<open>Properties\<close>






end
