(* ===== verification/Index_Node.thy ===== *)
theory Index_Node
  imports Row_Values "HOL-Library.List_Lexorder"
begin

text \<open>
  The nodes of a B+ tree index: \<^verbatim>\<open>IxFileHdr\<close> and \<^verbatim>\<open>IxPageHdr\<close> of \<^verbatim>\<open>src/src/index/ix_defs.h\<close>, the key comparison and
  \<^verbatim>\<open>IxNodeHandle\<close> of \<^verbatim>\<open>src/src/index/ix_index_handle.*\<close>. The two arrays of a node, keys and record ids, are one list of pairs as long
  as \<^verbatim>\<open>num_key\<close>; reading a slot past it is \<open>StaleSlot\<close>, writing past the space of the page \<open>Overrun\<close>. Keys are compared through
  their value, a list of integers in lexicographic order, and the binary searches find the first position of a sorted node.
\<close>

section \<open>Headers\<close>

definition IX_NO_PAGE :: int where
  "IX_NO_PAGE = -1"

definition IX_FILE_HDR_PAGE :: int where
  "IX_FILE_HDR_PAGE = 0"

definition IX_LEAF_HEADER_PAGE :: int where
  "IX_LEAF_HEADER_PAGE = 1"

definition IX_INIT_ROOT_PAGE :: int where
  "IX_INIT_ROOT_PAGE = 2"

definition IX_INIT_NUM_PAGES :: int where
  "IX_INIT_NUM_PAGES = 3"

definition IX_MAX_COL_LEN :: nat where
  "IX_MAX_COL_LEN = 512"

record IxFileHdr =
  ix_first_free :: int
  ix_num_pages :: int
  root_page :: int
  col_num :: int
  col_types :: "ColType list"
  col_lens :: "nat list"
  ix_tot_key :: nat
  btree_order :: nat
  keys_size :: nat
  first_leaf :: int
  last_leaf :: int
  hdr_tot_len :: int

record ix_node =
  nd_next_free :: int
  nd_parent :: int
  nd_leaf :: bool
  nd_prev :: int
  nd_next :: int
  nd_ents :: "(bytes \<times> Rid) list"

datatype ix_error = Thrown db_error | StaleSlot | Overrun | Endless

definition update_tot_len :: "IxFileHdr \<Rightarrow> IxFileHdr" where
  "update_tot_len h = h\<lparr>hdr_tot_len := 4 * 4 + 4 * 6 + (4 * col_num h + 4 * col_num h)\<rparr>"

fun coltype_num :: "ColType \<Rightarrow> int" where
  "coltype_num TYPE_INT = 0"
| "coltype_num TYPE_FLOAT = 1"
| "coltype_num TYPE_STRING = 2"

definition num_coltype :: "int \<Rightarrow> ColType" where
  "num_coltype x = (if x = 0 then TYPE_INT else if x = 1 then TYPE_FLOAT else TYPE_STRING)"

text \<open>The arrays are read through \<^verbatim>\<open>col_num_\<close>; a vector that is shorter is read past its end.\<close>

definition serialize_hdr :: "IxFileHdr \<Rightarrow> ix_error + bytes" where
  "serialize_hdr h =
     (let n = nat (col_num h)
      in if length (col_types h) < n \<or> length (col_lens h) < n then Inl StaleSlot
         else let bs = le_enc 4 (hdr_tot_len h) @ le_enc 4 (ix_first_free h) @ le_enc 4 (ix_num_pages h) @ le_enc 4 (root_page h)
                     @ le_enc 4 (col_num h) @ concat (map (le_enc 4 \<circ> coltype_num) (take n (col_types h)))
                     @ concat (map (le_enc 4 \<circ> int) (take n (col_lens h)))
                     @ le_enc 4 (int (ix_tot_key h)) @ le_enc 4 (int (btree_order h)) @ le_enc 4 (int (keys_size h))
                     @ le_enc 4 (first_leaf h) @ le_enc 4 (last_leaf h)
              in if int (length bs) = hdr_tot_len h then Inr bs else Inl (Thrown AssertionFailure))"

definition ints_at :: "nat \<Rightarrow> nat \<Rightarrow> bytes \<Rightarrow> int list" where
  "ints_at off n d = map (\<lambda>i. le_dec_s (rd (off + 4 * i) 4 d)) [0..<n]"

definition deserialize_hdr :: "bytes \<Rightarrow> ix_error + IxFileHdr" where
  "deserialize_hdr d =
     (let n = nat (le_dec_s (rd 16 4 d)); e = 20 + 8 * n
      in if int (e + 20) \<noteq> le_dec_s (rd 0 4 d) then Inl (Thrown AssertionFailure)
         else Inr \<lparr>ix_first_free = le_dec_s (rd 4 4 d), ix_num_pages = le_dec_s (rd 8 4 d), root_page = le_dec_s (rd 12 4 d),
           col_num = le_dec_s (rd 16 4 d), col_types = map num_coltype (ints_at 20 n d), col_lens = map nat (ints_at (20 + 4 * n) n d),
           ix_tot_key = nat (le_dec_s (rd e 4 d)), btree_order = nat (le_dec_s (rd (e + 4) 4 d)), keys_size = nat (le_dec_s (rd (e + 8) 4 d)),
           first_leaf = le_dec_s (rd (e + 12) 4 d), last_leaf = le_dec_s (rd (e + 16) 4 d), hdr_tot_len = le_dec_s (rd 0 4 d)\<rparr>)"

section \<open>Keys\<close>

fun ix_compare_col :: "ColType \<Rightarrow> nat \<Rightarrow> bytes \<Rightarrow> bytes \<Rightarrow> int" where
  "ix_compare_col TYPE_INT len a b =
     (let ia = sint (i32_at 0 a); ib = sint (i32_at 0 b) in if ia < ib then -1 else if ib < ia then 1 else 0)"
| "ix_compare_col TYPE_FLOAT len a b =
     (let fa = i32_at 0 a; fb = i32_at 0 b in if f_lt fa fb then -1 else if f_lt fb fa then 1 else 0)"
| "ix_compare_col TYPE_STRING len a b = memcmp len a b"

fun ix_compare_cols :: "ColType list \<Rightarrow> nat list \<Rightarrow> bytes \<Rightarrow> bytes \<Rightarrow> int" where
  "ix_compare_cols (t # ts) (l # ls) a b =
     (let res = ix_compare_col t l a b in if res \<noteq> 0 then res else ix_compare_cols ts ls (drop l a) (drop l b))"
| "ix_compare_cols _ _ a b = 0"

definition ix_compare :: "IxFileHdr \<Rightarrow> bytes \<Rightarrow> bytes \<Rightarrow> int" where
  "ix_compare h a b = ix_compare_cols (col_types h) (col_lens h) a b"

section \<open>Operations on a node\<close>

definition get_size :: "ix_node \<Rightarrow> nat" where
  "get_size n = length (nd_ents n)"

definition get_max_size :: "IxFileHdr \<Rightarrow> nat" where
  "get_max_size h = btree_order h + 1"

definition get_min_size :: "IxFileHdr \<Rightarrow> nat" where
  "get_min_size h = get_max_size h div 2"

definition get_key :: "ix_node \<Rightarrow> nat \<Rightarrow> bytes" where
  "get_key n i = fst (nd_ents n ! i)"

definition key_slot :: "ix_node \<Rightarrow> nat \<Rightarrow> ix_error + bytes" where
  "key_slot n i = (if i < get_size n then Inr (get_key n i) else Inl StaleSlot)"

definition value_at :: "ix_node \<Rightarrow> nat \<Rightarrow> ix_error + int" where
  "value_at n i = (if i < get_size n then Inr (page_no (snd (nd_ents n ! i))) else Inl StaleSlot)"

function lower_loop :: "IxFileHdr \<Rightarrow> ix_node \<Rightarrow> bytes \<Rightarrow> nat \<Rightarrow> nat \<Rightarrow> nat" where
  "lower_loop h n target l r =
     (if l < r
      then let mid = (l + r) div 2
           in if 0 \<le> ix_compare h (get_key n mid) target then lower_loop h n target l mid else lower_loop h n target (mid + 1) r
      else l)"
  by pat_completeness auto
termination
  by (relation "measure (\<lambda>(h, n, t, l, r). r - l)") auto

function upper_loop :: "IxFileHdr \<Rightarrow> ix_node \<Rightarrow> bytes \<Rightarrow> nat \<Rightarrow> nat \<Rightarrow> nat" where
  "upper_loop h n target l r =
     (if l < r
      then let mid = (l + r) div 2
           in if 0 < ix_compare h (get_key n mid) target then upper_loop h n target l mid else upper_loop h n target (mid + 1) r
      else l)"
  by pat_completeness auto
termination
  by (relation "measure (\<lambda>(h, n, t, l, r). r - l)") auto

declare lower_loop.simps [simp del] upper_loop.simps [simp del]

definition node_lower_bound :: "IxFileHdr \<Rightarrow> ix_node \<Rightarrow> bytes \<Rightarrow> nat" where
  "node_lower_bound h n target = lower_loop h n target 0 (get_size n)"

definition node_upper_bound :: "IxFileHdr \<Rightarrow> ix_node \<Rightarrow> bytes \<Rightarrow> nat" where
  "node_upper_bound h n target = upper_loop h n target 1 (get_size n)"

definition leaf_lookup :: "IxFileHdr \<Rightarrow> ix_node \<Rightarrow> bytes \<Rightarrow> Rid option" where
  "leaf_lookup h n key =
     (let idx = node_lower_bound h n key
      in if get_size n \<le> idx then None
         else if ix_compare h (get_key n idx) key \<noteq> 0 then None
         else Some (snd (nd_ents n ! idx)))"

definition internal_lookup :: "IxFileHdr \<Rightarrow> ix_node \<Rightarrow> bytes \<Rightarrow> ix_error + int" where
  "internal_lookup h n key = value_at n (node_upper_bound h n key - 1)"

definition insert_pairs :: "IxFileHdr \<Rightarrow> nat \<Rightarrow> (bytes \<times> Rid) list \<Rightarrow> ix_node \<Rightarrow> ix_error + ix_node" where
  "insert_pairs h pos es n =
     (if \<not> pos \<le> get_size n then Inl (Thrown AssertionFailure)
      else if btree_order h + 1 < get_size n + length es then Inl Overrun
      else Inr (n\<lparr>nd_ents := take pos (nd_ents n) @ es @ drop pos (nd_ents n)\<rparr>))"

definition node_insert :: "IxFileHdr \<Rightarrow> bytes \<Rightarrow> Rid \<Rightarrow> ix_node \<Rightarrow> ix_error + ix_node" where
  "node_insert h key v n =
     (let pos = node_lower_bound h n key
      in if pos < get_size n \<and> ix_compare h (get_key n pos) key = 0 then Inr n
         else insert_pairs h pos [(key, v)] n)"

definition erase_pair :: "nat \<Rightarrow> ix_node \<Rightarrow> ix_error + ix_node" where
  "erase_pair pos n =
     (if \<not> pos < get_size n then Inl (Thrown AssertionFailure)
      else Inr (n\<lparr>nd_ents := take pos (nd_ents n) @ drop (pos + 1) (nd_ents n)\<rparr>))"

definition node_remove :: "IxFileHdr \<Rightarrow> bytes \<Rightarrow> ix_node \<Rightarrow> ix_error + ix_node" where
  "node_remove h key n =
     (let pos = node_lower_bound h n key
      in if get_size n \<le> pos then Inr n
         else if ix_compare h (get_key n pos) key \<noteq> 0 then Inr n
         else erase_pair pos n)"

fun child_pos :: "int \<Rightarrow> (bytes \<times> Rid) list \<Rightarrow> nat" where
  "child_pos c [] = 0"
| "child_pos c (e # es) = (if page_no (snd e) = c then 0 else Suc (child_pos c es))"

definition find_child :: "ix_node \<Rightarrow> int \<Rightarrow> ix_error + nat" where
  "find_child n c =
     (let rid_idx = child_pos c (nd_ents n) in if rid_idx < get_size n then Inr rid_idx else Inl (Thrown AssertionFailure))"

definition set_key :: "nat \<Rightarrow> bytes \<Rightarrow> ix_node \<Rightarrow> ix_node" where
  "set_key i k n = n\<lparr>nd_ents := (nd_ents n)[i := (k, snd (nd_ents n ! i))]\<rparr>"

section \<open>The value of a key\<close>

fun fv_int :: "fval \<Rightarrow> int" where
  "fv_int NaN = 0"
| "fv_int (Infinite s) = (if s then - (2 ^ 300) else 2 ^ 300)"
| "fv_int (Finite s m) = f_int s m"

fun col_val :: "ColType \<Rightarrow> nat \<Rightarrow> bytes \<Rightarrow> int list" where
  "col_val TYPE_INT len a = [sint (i32_at 0 a)]"
| "col_val TYPE_FLOAT len a = [fv_int (f_dec (i32_at 0 a))]"
| "col_val TYPE_STRING len a = map uint (take len a)"

fun cols_val :: "ColType list \<Rightarrow> nat list \<Rightarrow> bytes \<Rightarrow> int list" where
  "cols_val (t # ts) (l # ls) a = col_val t l a @ cols_val ts ls (drop l a)"
| "cols_val _ _ a = []"

definition key_val :: "IxFileHdr \<Rightarrow> bytes \<Rightarrow> int list" where
  "key_val h a = cols_val (col_types h) (col_lens h) a"

text \<open>Keys as the executors build them: as long as the columns together, and no float that is not a number.\<close>

fun cols_ok :: "ColType list \<Rightarrow> nat list \<Rightarrow> bytes \<Rightarrow> bool" where
  "cols_ok (t # ts) (l # ls) a \<longleftrightarrow> l \<le> length a \<and> (t = TYPE_FLOAT \<longrightarrow> f_dec (i32_at 0 a) \<noteq> NaN) \<and> cols_ok ts ls (drop l a)"
| "cols_ok _ _ a \<longleftrightarrow> True"

definition key_ok :: "IxFileHdr \<Rightarrow> bytes \<Rightarrow> bool" where
  "key_ok h a \<longleftrightarrow> length a = ix_tot_key h \<and> cols_ok (col_types h) (col_lens h) a"

lemma f_dec_bound:
  assumes "f_dec w = Finite s m"
  shows "int m < 2 ^ 300"
proof -
  let ?e = "unat (drop_bit 23 w AND 0xff)" and ?m = "unat (w AND 0x7fffff)"
  have "w AND 0x7fffff \<le> 0x7fffff" by (rule word_and_le1)
  then have m: "?m < 2 ^ 23" by (simp add: word_le_nat_alt)
  have "drop_bit 23 w AND 0xff \<le> (0xff :: 32 word)" by (rule word_and_le1)
  then have e: "?e \<le> 255" by (simp add: word_le_nat_alt)
  have "m \<le> (2 ^ 23 + ?m) * 2 ^ (?e - 1)"
    using assms by (auto simp: f_dec_def Let_def split: if_splits)
  also have "\<dots> < 2 ^ 24 * 2 ^ 255"
  proof (rule mult_less_le_imp_less)
    show "(2::nat) ^ (?e - 1) \<le> 2 ^ 255" by (rule power_increasing) (use e in auto)
  qed (use m in simp_all)
  finally have "m < 2 ^ 279" by simp
  then have "int m < 2 ^ 279" by (metis of_nat_less_iff of_nat_numeral of_nat_power)
  also have "\<dots> < 2 ^ 300" by simp
  finally show ?thesis .
qed

lemma f_lt_val:
  assumes "f_dec a \<noteq> NaN" and "f_dec b \<noteq> NaN"
  shows "f_lt a b \<longleftrightarrow> fv_int (f_dec a) < fv_int (f_dec b)"
  using assms f_dec_bound [of a] f_dec_bound [of b] unfolding f_lt_def
  by (cases "f_dec a"; cases "f_dec b") (auto simp: f_int_def)

lemma lex_append:
  fixes x y :: "'a::linorder list"
  assumes "length x = length y"
  shows "x @ u < y @ v \<longleftrightarrow> x < y \<or> x = y \<and> u < v"
  using assms by (induction x y rule: list_induct2) auto

lemma memcmp_val:
  assumes "len \<le> length a" and "len \<le> length b"
  shows "memcmp len a b = (if map uint (take len a) < map uint (take len b) then -1
    else if map uint (take len b) < map uint (take len a) then 1 else 0)"
  using assms
proof (induction len a b rule: memcmp.induct)
  case (1 n a as b bs)
  then show ?case by (auto simp: word_less_def)
qed auto

lemma ix_compare_col_val:
  assumes "l \<le> length a" and "l \<le> length b" and "t = TYPE_FLOAT \<longrightarrow> f_dec (i32_at 0 a) \<noteq> NaN \<and> f_dec (i32_at 0 b) \<noteq> NaN"
  shows "ix_compare_col t l a b = (if col_val t l a < col_val t l b then -1 else if col_val t l b < col_val t l a then 1 else 0)"
  using assms by (cases t) (simp_all add: Let_def f_lt_val memcmp_val)

lemma ix_compare_cols_val:
  assumes "cols_ok ts ls a" and "cols_ok ts ls b"
  shows "ix_compare_cols ts ls a b = (if cols_val ts ls a < cols_val ts ls b then -1 else if cols_val ts ls b < cols_val ts ls a then 1 else 0)"
  using assms
proof (induction ts ls a b rule: ix_compare_cols.induct)
  case (1 t ts l ls a b)
  have c: "ix_compare_col t l a b = (if col_val t l a < col_val t l b then -1 else if col_val t l b < col_val t l a then 1 else 0)"
    using "1.prems" by (intro ix_compare_col_val) simp_all
  have len: "length (col_val t l a) = length (col_val t l b)" using "1.prems" by (cases t) simp_all
  show ?case
  proof (cases "col_val t l a = col_val t l b")
    case True
    then have "ix_compare_cols (t # ts) (l # ls) a b = ix_compare_cols ts ls (drop l a) (drop l b)" using c by simp
    then show ?thesis using 1 True c by (simp add: lex_append [OF refl])
  next
    case False
    then show ?thesis using c by (auto simp: lex_append [OF len] lex_append [OF len [symmetric]])
  qed
qed auto

lemma ix_compare_val:
  assumes "key_ok h a" and "key_ok h b"
  shows "ix_compare h a b < 0 \<longleftrightarrow> key_val h a < key_val h b" "ix_compare h a b = 0 \<longleftrightarrow> key_val h a = key_val h b"
    "0 < ix_compare h a b \<longleftrightarrow> key_val h b < key_val h a" "0 \<le> ix_compare h a b \<longleftrightarrow> key_val h b \<le> key_val h a"
  using ix_compare_cols_val [of "col_types h" "col_lens h" a b] assms
  by (auto simp: ix_compare_def key_ok_def key_val_def)

section \<open>Searching\<close>

text \<open>The values of the keys of a node, and a node whose keys are keys of the index in ascending order.\<close>

definition vals :: "IxFileHdr \<Rightarrow> (bytes \<times> Rid) list \<Rightarrow> int list list" where
  "vals h es = map (key_val h \<circ> fst) es"

definition keys_ok :: "IxFileHdr \<Rightarrow> (bytes \<times> Rid) list \<Rightarrow> bool" where
  "keys_ok h es \<longleftrightarrow> list_all (key_ok h \<circ> fst) es \<and> sorted_wrt (<) (vals h es)"

lemma keys_okD:
  assumes "keys_ok h es" and "i < length es"
  shows "key_ok h (fst (es ! i))"
  using assms by (auto simp: keys_ok_def list_all_length)

lemma keys_ok_less: "keys_ok h es \<Longrightarrow> i < j \<Longrightarrow> j < length es \<Longrightarrow> key_val h (fst (es ! i)) < key_val h (fst (es ! j))"
  by (auto simp: keys_ok_def vals_def sorted_wrt_iff_nth_less)

lemma lower_loop_spec:
  assumes "keys_ok h (nd_ents n)" and "key_ok h t" and "l \<le> r" and "r \<le> get_size n"
    and "\<And>i. i < l \<Longrightarrow> key_val h (get_key n i) < key_val h t" and "\<And>i. r \<le> i \<Longrightarrow> i < get_size n \<Longrightarrow> key_val h t \<le> key_val h (get_key n i)"
  shows "lower_loop h n t l r \<le> get_size n \<and> (\<forall>i < lower_loop h n t l r. key_val h (get_key n i) < key_val h t)
    \<and> (\<forall>i. lower_loop h n t l r \<le> i \<longrightarrow> i < get_size n \<longrightarrow> key_val h t \<le> key_val h (get_key n i))"
  using assms
proof (induction h n t l r rule: lower_loop.induct)
  case (1 h n t l r)
  show ?case
  proof (cases "l < r")
    case True
    let ?m = "(l + r) div 2"
    have m: "?m < get_size n" "?m < r" "l \<le> ?m" using True "1.prems"(4) by auto
    have ok: "key_ok h (get_key n ?m)" using keys_okD [OF "1.prems"(1)] m(1) by (simp add: get_key_def get_size_def)
    show ?thesis
    proof (cases "0 \<le> ix_compare h (get_key n ?m) t")
      case c: True
      then have le: "key_val h t \<le> key_val h (get_key n ?m)" using ix_compare_val(4) [OF ok "1.prems"(2)] by simp
      have "key_val h t \<le> key_val h (get_key n i)" if "?m \<le> i" "i < get_size n" for i
        using le keys_ok_less [OF "1.prems"(1), of ?m i] that by (cases "i = ?m") (auto simp: get_key_def get_size_def)
      then show ?thesis
        using "1.IH"(1) [OF True refl c "1.prems"(1,2) m(3) _ "1.prems"(5)] m(1) True c by (subst (1 2 3) lower_loop.simps) (simp add: Let_def)
    next
      case c: False
      then have lt: "key_val h (get_key n ?m) < key_val h t" using ix_compare_val(1) [OF ok "1.prems"(2)] by simp
      have "key_val h (get_key n i) < key_val h t" if "i < ?m + 1" for i
        using lt keys_ok_less [OF "1.prems"(1), of i ?m] that m(1) by (cases "i = ?m") (auto simp: get_key_def get_size_def)
      then show ?thesis
        using "1.IH"(2) [OF True refl c "1.prems"(1,2) _ "1.prems"(4) _ "1.prems"(6)] m(2) True c by (subst (1 2 3) lower_loop.simps) (simp add: Let_def)
    qed
  next
    case False
    then show ?thesis using "1.prems" by (subst (1 2 3) lower_loop.simps) simp
  qed
qed

lemma node_lower_bound_split:
  assumes "keys_ok h (nd_ents n)" and "key_ok h t"
  defines "p \<equiv> node_lower_bound h n t"
  shows "p \<le> get_size n" "\<forall>e \<in> set (take p (nd_ents n)). key_val h (fst e) < key_val h t"
    "\<forall>e \<in> set (drop p (nd_ents n)). key_val h t \<le> key_val h (fst e)"
proof -
  note s = lower_loop_spec [OF assms(1,2), of 0 "get_size n", simplified, folded node_lower_bound_def p_def]
  show le: "p \<le> get_size n" using s by blast
  show "\<forall>e \<in> set (take p (nd_ents n)). key_val h (fst e) < key_val h t"
    using s by (fastforce simp: in_set_conv_nth get_key_def)
  show "\<forall>e \<in> set (drop p (nd_ents n)). key_val h t \<le> key_val h (fst e)"
  proof
    fix e assume "e \<in> set (drop p (nd_ents n))"
    then obtain i where "i < length (nd_ents n) - p" "e = nd_ents n ! (p + i)" using le by (auto simp: in_set_conv_nth get_size_def)
    then have "p + i < get_size n" "e = nd_ents n ! (p + i)" by (simp_all add: get_size_def)
    then show "key_val h t \<le> key_val h (fst e)" using s by (metis get_key_def le_add1)
  qed
qed

lemma upper_loop_spec:
  assumes "keys_ok h (nd_ents n)" and "key_ok h t" and "l \<le> r" and "r \<le> get_size n" and "1 \<le> l"
    and "\<And>i. 1 \<le> i \<Longrightarrow> i < l \<Longrightarrow> key_val h (get_key n i) \<le> key_val h t" and "\<And>i. r \<le> i \<Longrightarrow> i < get_size n \<Longrightarrow> key_val h t < key_val h (get_key n i)"
  shows "1 \<le> upper_loop h n t l r \<and> upper_loop h n t l r \<le> get_size n
    \<and> (\<forall>i. 1 \<le> i \<longrightarrow> i < upper_loop h n t l r \<longrightarrow> key_val h (get_key n i) \<le> key_val h t)
    \<and> (\<forall>i. upper_loop h n t l r \<le> i \<longrightarrow> i < get_size n \<longrightarrow> key_val h t < key_val h (get_key n i))"
  using assms
proof (induction h n t l r rule: upper_loop.induct)
  case (1 h n t l r)
  show ?case
  proof (cases "l < r")
    case True
    let ?m = "(l + r) div 2"
    have m: "?m < get_size n" "?m < r" "l \<le> ?m" using True "1.prems"(4) by auto
    have ok: "key_ok h (get_key n ?m)" using keys_okD [OF "1.prems"(1)] m(1) by (simp add: get_key_def get_size_def)
    show ?thesis
    proof (cases "0 < ix_compare h (get_key n ?m) t")
      case c: True
      then have lt: "key_val h t < key_val h (get_key n ?m)" using ix_compare_val(3) [OF ok "1.prems"(2)] by simp
      have "key_val h t < key_val h (get_key n i)" if "?m \<le> i" "i < get_size n" for i
        using lt keys_ok_less [OF "1.prems"(1), of ?m i] that by (cases "i = ?m") (auto simp: get_key_def get_size_def)
      then show ?thesis
        using "1.IH"(1) [OF True refl c "1.prems"(1,2) m(3) _ "1.prems"(5,6)] m(1) True c by (subst (1 2 3 4) upper_loop.simps) (simp add: Let_def)
    next
      case c: False
      then have le: "key_val h (get_key n ?m) \<le> key_val h t" using ix_compare_val(3) [OF ok "1.prems"(2)] by simp
      have "key_val h (get_key n i) \<le> key_val h t" if "i < ?m + 1" for i
        using le keys_ok_less [OF "1.prems"(1), of i ?m] that m(1) by (cases "i = ?m") (auto simp: get_key_def get_size_def)
      then show ?thesis
        using "1.IH"(2) [OF True refl c "1.prems"(1,2) _ "1.prems"(4) _ _ "1.prems"(7)] m(2) True c by (subst (1 2 3 4) upper_loop.simps) (simp add: Let_def)
    qed
  next
    case False
    then show ?thesis using "1.prems" by (subst (1 2 3 4) upper_loop.simps) simp
  qed
qed

text \<open>In an inner node the search gives the last child that can hold the key.\<close>

lemma node_upper_bound_pick:
  assumes "keys_ok h (nd_ents n)" and "key_ok h t" and "nd_ents n \<noteq> []"
  obtains i where "internal_lookup h n t = Inr (page_no (snd (nd_ents n ! i)))" "i < length (nd_ents n)"
    "i = 0 \<or> key_val h (fst (nd_ents n ! i)) \<le> key_val h t" "Suc i < length (nd_ents n) \<Longrightarrow> key_val h t < key_val h (fst (nd_ents n ! Suc i))"
proof
  let ?u = "node_upper_bound h n t"
  have "1 \<le> get_size n" using assms(3) by (cases "nd_ents n") (simp_all add: get_size_def)
  then have s: "1 \<le> ?u" "?u \<le> get_size n" "\<And>i. 1 \<le> i \<Longrightarrow> i < ?u \<Longrightarrow> key_val h (get_key n i) \<le> key_val h t"
      "\<And>i. ?u \<le> i \<Longrightarrow> i < get_size n \<Longrightarrow> key_val h t < key_val h (get_key n i)"
    using upper_loop_spec [OF assms(1,2), of 1 "get_size n", folded node_upper_bound_def] by auto
  show "internal_lookup h n t = Inr (page_no (snd (nd_ents n ! (?u - 1))))" "?u - 1 < length (nd_ents n)"
    using s(1,2) by (auto simp: internal_lookup_def value_at_def get_size_def)
  show "?u - 1 = 0 \<or> key_val h (fst (nd_ents n ! (?u - 1))) \<le> key_val h t"
    using s(3) [of "?u - 1"] s(1) by (cases "?u - 1") (auto simp: get_key_def)
  show "key_val h t < key_val h (fst (nd_ents n ! Suc (?u - 1)))" if "Suc (?u - 1) < length (nd_ents n)"
    using s(4) [of ?u] s(1) that by (simp add: get_key_def get_size_def)
qed

section \<open>Nodes as sorted lists\<close>

definition ent_find :: "IxFileHdr \<Rightarrow> bytes \<Rightarrow> (bytes \<times> Rid) list \<Rightarrow> Rid option" where
  "ent_find h k es = map_of (map (\<lambda>(a, r). (key_val h a, r)) es) (key_val h k)"

definition ent_insert :: "IxFileHdr \<Rightarrow> bytes \<Rightarrow> Rid \<Rightarrow> (bytes \<times> Rid) list \<Rightarrow> (bytes \<times> Rid) list" where
  "ent_insert h k v es =
     (if key_val h k \<in> set (vals h es) then es
      else filter (\<lambda>e. key_val h (fst e) < key_val h k) es @ (k, v) # filter (\<lambda>e. key_val h k < key_val h (fst e)) es)"

definition ent_delete :: "IxFileHdr \<Rightarrow> bytes \<Rightarrow> (bytes \<times> Rid) list \<Rightarrow> (bytes \<times> Rid) list" where
  "ent_delete h k es = filter (\<lambda>e. key_val h (fst e) \<noteq> key_val h k) es"

lemma keys_ok_append:
  "keys_ok h (xs @ ys) \<longleftrightarrow> keys_ok h xs \<and> keys_ok h ys \<and> (\<forall>x \<in> set xs. \<forall>y \<in> set ys. key_val h (fst x) < key_val h (fst y))"
  by (auto simp: keys_ok_def vals_def sorted_wrt_append)

lemma keys_ok_Cons:
  "keys_ok h (x # ys) \<longleftrightarrow> key_ok h (fst x) \<and> keys_ok h ys \<and> (\<forall>y \<in> set ys. key_val h (fst x) < key_val h (fst y))"
  by (auto simp: keys_ok_def vals_def)

lemma keys_ok_Nil [simp]: "keys_ok h []"
  by (simp add: keys_ok_def vals_def)

text \<open>A sorted list cut at a key.\<close>

lemma cut_at:
  assumes "keys_ok h es" and "key_ok h k" and "es = xs @ ys"
    and "\<forall>e \<in> set xs. key_val h (fst e) < key_val h k" and "\<forall>e \<in> set ys. key_val h k \<le> key_val h (fst e)"
  obtains (hit) e zs where "ys = e # zs" "key_val h (fst e) = key_val h k" "key_val h k \<in> set (vals h es)" "ent_find h k es = Some (snd e)"
      "ent_delete h k es = xs @ zs"
    | (miss) "\<forall>e \<in> set ys. key_val h k < key_val h (fst e)" "key_val h k \<notin> set (vals h es)" "ent_find h k es = None"
      "ent_insert h k v es = xs @ (k, v) # ys" "ent_delete h k es = es"
proof (cases "\<exists>e zs. ys = e # zs \<and> key_val h (fst e) = key_val h k")
  case True
  then obtain e zs where y: "ys = e # zs" "key_val h (fst e) = key_val h k" by blast
  have z: "\<forall>z \<in> set zs. key_val h k < key_val h (fst z)" using assms(1,3) y by (auto simp: keys_ok_append keys_ok_Cons)
  have "key_val h k \<in> set (vals h es)" using y assms(3) by (simp add: vals_def)
  moreover have "map_of (map (\<lambda>(a, r). (key_val h a, r)) xs) (key_val h k) = None"
    using assms(4) by (force simp: map_of_eq_None_iff)
  then have "ent_find h k es = Some (snd e)"
    using y assms(3) by (cases e) (simp add: ent_find_def map_add_def)
  moreover have "ent_delete h k es = xs @ zs"
    using assms(3,4) y z by (auto simp: ent_delete_def filter_id_conv less_le)
  ultimately show ?thesis using hit y by blast
next
  case False
  have m: "\<forall>e \<in> set ys. key_val h k < key_val h (fst e)"
  proof (cases ys)
    case (Cons e zs)
    then have "key_val h k < key_val h (fst e)" using False assms(5) by (auto simp: less_le)
    then show ?thesis using Cons assms(1,3) by (auto simp: keys_ok_append keys_ok_Cons)
  qed simp
  then have n: "key_val h k \<notin> set (vals h es)" using assms(3,4) by (auto simp: vals_def)
  have "ent_find h k es = None" using n by (force simp: ent_find_def map_of_eq_None_iff vals_def)
  moreover have "filter (\<lambda>e. key_val h (fst e) < key_val h k) es = xs" "filter (\<lambda>e. key_val h k < key_val h (fst e)) es = ys"
    using assms(3,4) m by (auto simp: filter_id_conv filter_empty_conv)
  then have "ent_insert h k v es = xs @ (k, v) # ys" using n by (simp add: ent_insert_def)
  moreover have "ent_delete h k es = es" using n by (force simp: ent_delete_def filter_id_conv vals_def)
  ultimately show ?thesis using miss m n by blast
qed

text \<open>What the search of a key in a sorted node finds.\<close>

lemma node_search:
  assumes "keys_ok h (nd_ents n)" and "key_ok h k"
  obtains (hit) xs e zs where "nd_ents n = xs @ e # zs" "node_lower_bound h n k = length xs" "ix_compare h (fst e) k = 0"
      "key_val h k \<in> set (vals h (nd_ents n))" "ent_find h k (nd_ents n) = Some (snd e)" "ent_delete h k (nd_ents n) = xs @ zs"
    | (miss) xs ys where "nd_ents n = xs @ ys" "node_lower_bound h n k = length xs" "ys \<noteq> [] \<Longrightarrow> ix_compare h (fst (hd ys)) k \<noteq> 0"
      "key_val h k \<notin> set (vals h (nd_ents n))" "ent_find h k (nd_ents n) = None" "ent_insert h k v (nd_ents n) = xs @ (k, v) # ys"
      "ent_delete h k (nd_ents n) = nd_ents n"
proof -
  note s = node_lower_bound_split [OF assms]
  let ?p = "node_lower_bound h n k"
  have ok: "key_ok h (fst e)" if "e \<in> set (nd_ents n)" for e using assms(1) that by (auto simp: keys_ok_def list_all_iff)
  have l: "length (take ?p (nd_ents n)) = ?p" using s(1) by (simp add: get_size_def)
  have c: "nd_ents n = take ?p (nd_ents n) @ drop ?p (nd_ents n)" by simp
  show ?thesis
  proof (cases rule: cut_at [OF assms c s(2,3), where v = v, case_names hit miss])
    case (hit e zs)
    have "ix_compare h (fst e) k = 0" using ix_compare_val(2) [OF ok assms(2)] hit(1,2) by (metis c in_set_conv_decomp)
    then show ?thesis using that(1) [of "take ?p (nd_ents n)" e zs] hit l c by metis
  next
    case miss
    have "ix_compare h (fst (hd (drop ?p (nd_ents n)))) k \<noteq> 0" if "drop ?p (nd_ents n) \<noteq> []"
    proof -
      have i: "hd (drop ?p (nd_ents n)) \<in> set (drop ?p (nd_ents n))" using that by (rule hd_in_set)
      then have "hd (drop ?p (nd_ents n)) \<in> set (nd_ents n)" by (rule in_set_dropD)
      then show ?thesis using ix_compare_val(2) [OF ok assms(2)] miss(1) i by (metis less_irrefl)
    qed
    then show ?thesis using that(2) [OF c l [symmetric]] miss by blast
  qed
qed

lemma leaf_lookup_find:
  assumes "keys_ok h (nd_ents n)" and "key_ok h k"
  shows "leaf_lookup h n k = ent_find h k (nd_ents n)"
proof (cases rule: node_search [OF assms, where v = undefined, case_names hit miss])
  case (hit xs e zs)
  then show ?thesis by (simp add: leaf_lookup_def get_size_def get_key_def)
next
  case (miss xs ys)
  then show ?thesis by (cases ys) (simp_all add: leaf_lookup_def get_size_def get_key_def)
qed

lemma node_insert_list:
  assumes "keys_ok h (nd_ents n)" and "key_ok h k" and "get_size n \<le> btree_order h"
  shows "node_insert h k v n = Inr (n\<lparr>nd_ents := ent_insert h k v (nd_ents n)\<rparr>)"
proof (cases rule: node_search [OF assms(1,2), where v = v, case_names hit miss])
  case (hit xs e zs)
  then show ?thesis by (simp add: node_insert_def get_size_def get_key_def ent_insert_def)
next
  case (miss xs ys)
  then show ?thesis using assms(3)
    by (cases ys) (simp_all add: node_insert_def get_size_def get_key_def insert_pairs_def)
qed

lemma node_remove_list:
  assumes "keys_ok h (nd_ents n)" and "key_ok h k"
  shows "node_remove h k n = Inr (n\<lparr>nd_ents := ent_delete h k (nd_ents n)\<rparr>)"
proof (cases rule: node_search [OF assms, where v = undefined, case_names hit miss])
  case (hit xs e zs)
  then show ?thesis by (simp add: node_remove_def get_size_def get_key_def erase_pair_def)
next
  case (miss xs ys)
  then show ?thesis by (cases ys) (simp_all add: node_remove_def get_size_def get_key_def)
qed

section \<open>The sorted list as a map\<close>

lemma keys_ok_insert:
  assumes "keys_ok h es" and "key_ok h k"
  shows "keys_ok h (ent_insert h k v es)"
proof (cases "key_val h k \<in> set (vals h es)")
  case False
  have "keys_ok h (filter P es)" for P
    using assms(1) by (auto simp: keys_ok_def vals_def list_all_iff sorted_wrt_map intro: sorted_wrt_filter)
  then show ?thesis using assms False by (auto simp: ent_insert_def keys_ok_append keys_ok_Cons)
qed (simp add: ent_insert_def assms)

lemma keys_ok_delete: "keys_ok h es \<Longrightarrow> keys_ok h (ent_delete h k es)"
  by (auto simp: keys_ok_def vals_def list_all_iff sorted_wrt_map ent_delete_def intro: sorted_wrt_filter)

text \<open>The contents of an index: record ids by the value of the key.\<close>

definition ent_map :: "IxFileHdr \<Rightarrow> (bytes \<times> Rid) list \<Rightarrow> int list \<rightharpoonup> Rid" where
  "ent_map h es = map_of (map (\<lambda>(a, r). (key_val h a, r)) es)"

lemma ent_find_map: "ent_find h k es = ent_map h es (key_val h k)"
  by (simp add: ent_find_def ent_map_def)

lemma dom_ent_map: "dom (ent_map h es) = set (vals h es)"
  by (force simp: ent_map_def dom_map_of_conv_image_fst vals_def)

lemma ent_map_filter: "ent_map h (filter (\<lambda>e. P (key_val h (fst e))) es) x = (if P x then ent_map h es x else None)"
  by (induction es) (auto simp: ent_map_def)

lemma ent_map_delete: "ent_map h (ent_delete h k es) = (ent_map h es)(key_val h k := None)"
  by (auto simp: ent_delete_def ent_map_filter [where P = "\<lambda>x. x \<noteq> key_val h k"])

lemma ent_map_append: "ent_map h (xs @ ys) = ent_map h ys ++ ent_map h xs"
  by (simp add: ent_map_def)

lemma ent_map_insert:
  "ent_map h (ent_insert h k v es) = (if key_val h k \<in> dom (ent_map h es) then ent_map h es else (ent_map h es)(key_val h k \<mapsto> v))"
proof (cases "key_val h k \<in> set (vals h es)")
  case False
  then have n: "ent_map h es (key_val h k) = None" using dom_ent_map [of h es] by auto
  have "ent_map h (ent_insert h k v es) x = ((ent_map h es)(key_val h k \<mapsto> v)) x" for x
  proof -
    have c: "ent_map h ((k, v) # zs) = (ent_map h zs)(key_val h k \<mapsto> v)" for zs by (simp add: ent_map_def)
    consider "x < key_val h k" | "x = key_val h k" | "key_val h k < x" by (rule linorder_cases)
    then show ?thesis
      using False n by cases (auto simp: ent_insert_def ent_map_append c map_add_def
        ent_map_filter [where P = "\<lambda>x. x < key_val h k"] ent_map_filter [where P = "\<lambda>x. key_val h k < x"] split: option.split)
  qed
  then show ?thesis using False by (auto simp: dom_ent_map)
qed (auto simp: ent_insert_def dom_ent_map)

end
