(* ===== verification/Index_Tree.thy ===== *)
theory Index_Tree
  imports Index_Node "HOL-Library.Multiset"
begin

text \<open>
  The operations of \<^verbatim>\<open>IxIndexHandle\<close> and \<^verbatim>\<open>IxScan\<close>, \<^verbatim>\<open>src/src/index/ix_index_handle.cpp\<close> and \<^verbatim>\<open>ix_scan.cpp\<close>. The pages of the index file are
  a function from page numbers to nodes, which is what the buffer pool gives its clients: a page holds what was last stored in it. The
  state has the pins of the index as a multiset of page numbers and the number of frames its pages can occupy; a page that is not
  pinned needs a frame, and \<^verbatim>\<open>fetch_node\<close> and \<^verbatim>\<open>create_node\<close> throw when there is none. A handle of a node is its page number. All methods hold
  \<^verbatim>\<open>root_latch_\<close> from entry to return, writers exclusively, so each is one step.

  Loops along parent, child and leaf pointers get fuel, \<open>Endless\<close> being the outcome when it runs out; the callers give as much as the file has
  pages, and a tree cannot be deeper than that. \<^verbatim>\<open>maintain_parent\<close> reads a node it has just unpinned: the model reads the page, which is what the
  frame holds as long as the pool has another frame to evict.
\<close>

section \<open>State\<close>

record ixh =
  ix_hdr :: IxFileHdr
  ix_pages :: "int \<Rightarrow> ix_node"
  ix_next_page :: int
  ix_pins :: "int multiset"
  ix_frames :: nat
  cached_leaf_no :: int
  pinned_leaf_no :: int
  pinned_leaf_page :: "int option"

abbreviation node :: "ixh \<Rightarrow> int \<Rightarrow> ix_node" where
  "node s p \<equiv> ix_pages s p"

definition upd_node :: "int \<Rightarrow> (ix_node \<Rightarrow> ix_node) \<Rightarrow> ixh \<Rightarrow> ixh" where
  "upd_node p f s = s\<lparr>ix_pages := (ix_pages s)(p := f (node s p))\<rparr>"

definition try_node :: "int \<Rightarrow> (ix_node \<Rightarrow> ix_error + ix_node) \<Rightarrow> ixh \<Rightarrow> ix_error + ixh" where
  "try_node p f s = and_then (f (node s p)) (\<lambda>n. Inr (upd_node p (\<lambda>_. n) s))"

definition set_ix_hdr :: "(IxFileHdr \<Rightarrow> IxFileHdr) \<Rightarrow> ixh \<Rightarrow> ixh" where
  "set_ix_hdr f s = s\<lparr>ix_hdr := f (ix_hdr s)\<rparr>"

section \<open>The buffer pool as the index uses it\<close>

definition has_room :: "int \<Rightarrow> ixh \<Rightarrow> bool" where
  "has_room p s \<longleftrightarrow> p \<in># ix_pins s \<or> card (set_mset (ix_pins s)) < ix_frames s"

definition ix_unpin :: "int \<Rightarrow> ixh \<Rightarrow> ixh" where
  "ix_unpin p s = s\<lparr>ix_pins := ix_pins s - {#p#}\<rparr>"

text \<open>\<^verbatim>\<open>delete_page\<close> writes an unpinned page to the file and frees its frame; what the page holds stays.\<close>

definition ix_delete_page :: "int \<Rightarrow> ixh \<Rightarrow> bool \<times> ixh" where
  "ix_delete_page p s = (p \<notin># ix_pins s, s)"

definition fetch_node :: "int \<Rightarrow> ixh \<Rightarrow> ix_error + ixh" where
  "fetch_node p s =
     (if p \<le> IX_NO_PAGE \<or> ix_num_pages (ix_hdr s) \<le> p then Inl (Thrown (InternalError ''IxIndexHandle::fetch_node: invalid page''))
      else if \<not> has_room p s then Inl (Thrown (InternalError ''IxIndexHandle::fetch_node: buffer pool full for page''))
      else Inr (s\<lparr>ix_pins := add_mset p (ix_pins s)\<rparr>))"

text \<open>A new page is all zeros.\<close>

definition blank_node :: ix_node where
  "blank_node = \<lparr>nd_next_free = 0, nd_parent = 0, nd_leaf = False, nd_prev = 0, nd_next = 0, nd_ents = []\<rparr>"

definition create_node :: "ixh \<Rightarrow> ix_error + int \<times> ixh" where
  "create_node s =
     (let s = set_ix_hdr (\<lambda>h. h\<lparr>ix_num_pages := ix_num_pages h + 1\<rparr>) s; p = ix_next_page s; s = s\<lparr>ix_next_page := p + 1\<rparr>
      in if \<not> has_room p s then Inl (Thrown (InternalError ''IxIndexHandle::create_node: buffer pool full''))
         else Inr (p, upd_node p (\<lambda>_. blank_node) (s\<lparr>ix_pins := add_mset p (ix_pins s)\<rparr>)))"

definition release_pinned_leaf :: "ixh \<Rightarrow> ixh" where
  "release_pinned_leaf s =
     (case pinned_leaf_page s of
        None \<Rightarrow> s
      | Some p \<Rightarrow> (ix_unpin p s)\<lparr>pinned_leaf_page := None, pinned_leaf_no := IX_NO_PAGE\<rparr>)"

definition ix_fuel :: "ixh \<Rightarrow> nat" where
  "ix_fuel s = nat (ix_num_pages (ix_hdr s))"

section \<open>Searching\<close>

primrec descend :: "nat \<Rightarrow> bool \<Rightarrow> bytes \<Rightarrow> int \<Rightarrow> ixh \<Rightarrow> ix_error + int \<times> ixh" where
  "descend 0 find_first key p s = Inl Endless"
| "descend (Suc k) find_first key p s =
     (if nd_leaf (node s p) then Inr (p, s)
      else and_then (if find_first then value_at (node s p) 0 else internal_lookup (ix_hdr s) (node s p) key) (\<lambda>c.
        and_then (fetch_node c (ix_unpin p s)) (\<lambda>s. descend k find_first key c s)))"

definition find_leaf_page :: "bytes \<Rightarrow> bool \<Rightarrow> ixh \<Rightarrow> ix_error + int \<times> ixh" where
  "find_leaf_page key find_first s =
     and_then (fetch_node (root_page (ix_hdr s)) s) (\<lambda>s. descend (ix_fuel s) find_first key (root_page (ix_hdr s)) s)"

definition get_value :: "bytes \<Rightarrow> ixh \<Rightarrow> ix_error + Rid option \<times> ixh" where
  "get_value key s =
     and_then (find_leaf_page key False s) (\<lambda>(leaf, s).
       Inr (leaf_lookup (ix_hdr s) (node s leaf) key, ix_unpin leaf s))"

section \<open>Insertion\<close>

definition maintain_child :: "int \<Rightarrow> nat \<Rightarrow> ixh \<Rightarrow> ix_error + ixh" where
  "maintain_child p i s =
     (if nd_leaf (node s p) then Inr s
      else and_then (value_at (node s p) i) (\<lambda>c.
        and_then (fetch_node c s) (\<lambda>s.
          Inr (ix_unpin c (upd_node c (\<lambda>n. n\<lparr>nd_parent := p\<rparr>) s)))))"

fun maintain_children :: "int \<Rightarrow> nat list \<Rightarrow> ixh \<Rightarrow> ix_error + ixh" where
  "maintain_children p [] s = Inr s"
| "maintain_children p (i # is) s = and_then (maintain_child p i s) (\<lambda>s. maintain_children p is s)"

primrec maintain_parent :: "nat \<Rightarrow> int \<Rightarrow> ixh \<Rightarrow> ix_error + ixh" where
  "maintain_parent 0 p s = Inl Endless"
| "maintain_parent (Suc k) p s =
     (let q = nd_parent (node s p)
      in if q = IX_NO_PAGE then Inr s
         else and_then (fetch_node q s) (\<lambda>s.
           and_then (find_child (node s q) p) (\<lambda>rank.
           and_then (key_slot (node s p) 0) (\<lambda>child_first_key.
             if get_key (node s q) rank = child_first_key then Inr (ix_unpin q s)
             else maintain_parent k q (ix_unpin q (upd_node q (set_key rank child_first_key) s))))))"

definition split_links :: "int \<Rightarrow> int \<Rightarrow> ixh \<Rightarrow> ix_error + ixh" where
  "split_links p q s =
     (let old_next = nd_next (node s p);
          s = upd_node q (\<lambda>n. n\<lparr>nd_next := old_next, nd_prev := p\<rparr>) s;
          s = upd_node p (\<lambda>n. n\<lparr>nd_next := q\<rparr>) s
      in and_then
           (if IX_NO_PAGE < old_next
            then and_then (fetch_node old_next s) (\<lambda>s. Inr (ix_unpin old_next (upd_node old_next (\<lambda>n. n\<lparr>nd_prev := q\<rparr>) s)))
            else Inr s) (\<lambda>s.
         Inr (if p = last_leaf (ix_hdr s) then set_ix_hdr (\<lambda>h. h\<lparr>last_leaf := q\<rparr>) s else s)))"

definition split :: "int \<Rightarrow> ixh \<Rightarrow> ix_error + int \<times> ixh" where
  "split p s =
     and_then (create_node s) (\<lambda>(q, s).
       let s = upd_node q (\<lambda>n. n\<lparr>nd_leaf := nd_leaf (node s p), nd_parent := nd_parent (node s p), nd_ents := [], nd_next_free := IX_NO_PAGE\<rparr>) s;
           split_pos = get_size (node s p) div 2
       in and_then (try_node q (insert_pairs (ix_hdr s) 0 (drop split_pos (nd_ents (node s p)))) s) (\<lambda>s.
            let s = upd_node p (\<lambda>n. n\<lparr>nd_ents := take split_pos (nd_ents n)\<rparr>) s
            in and_then (if nd_leaf (node s p) then split_links p q s else maintain_children q [0..<get_size (node s q)] s) (\<lambda>s. Inr (q, s))))"

definition child_rid :: "int \<Rightarrow> Rid" where
  "child_rid p = \<lparr>page_no = p, slot_no = -1\<rparr>"

primrec insert_into_parent :: "nat \<Rightarrow> int \<Rightarrow> bytes \<Rightarrow> int \<Rightarrow> ixh \<Rightarrow> ix_error + ixh" where
  "insert_into_parent 0 old key new s = Inl Endless"
| "insert_into_parent (Suc k) old key new s =
     (if nd_parent (node s old) = INVALID_PAGE_ID
      then and_then (create_node s) (\<lambda>(r, s).
        let s = upd_node r (\<lambda>n. n\<lparr>nd_leaf := False, nd_parent := IX_NO_PAGE, nd_ents := [], nd_next_free := IX_NO_PAGE\<rparr>) s
        in and_then (key_slot (node s old) 0) (\<lambda>old_key.
           and_then (try_node r (insert_pairs (ix_hdr s) 0 [(old_key, child_rid old)]) s) (\<lambda>s.
           and_then (try_node r (insert_pairs (ix_hdr s) 1 [(key, child_rid new)]) s) (\<lambda>s.
             let s = upd_node old (\<lambda>n. n\<lparr>nd_parent := r\<rparr>) s;
                 s = upd_node new (\<lambda>n. n\<lparr>nd_parent := r\<rparr>) s;
                 s = set_ix_hdr (\<lambda>h. h\<lparr>root_page := r\<rparr>) s
             in Inr (ix_unpin r s)))))
      else
        let q = nd_parent (node s old)
        in and_then (fetch_node q s) (\<lambda>s.
           and_then (find_child (node s q) old) (\<lambda>old_idx.
           and_then (try_node q (insert_pairs (ix_hdr s) (old_idx + 1) [(key, child_rid new)]) s) (\<lambda>s.
             let s = upd_node new (\<lambda>n. n\<lparr>nd_parent := q\<rparr>) s
             in and_then
                  (if get_max_size (ix_hdr s) \<le> get_size (node s q)
                   then and_then (split q s) (\<lambda>(q2, s).
                        and_then (key_slot (node s q2) 0) (\<lambda>up_key.
                        and_then (insert_into_parent k q up_key q2 s) (\<lambda>s. Inr (ix_unpin q2 s))))
                   else Inr s) (\<lambda>s. Inr (ix_unpin q s))))))"

text \<open>The leaf of the fast path: the cached last leaf, when the key is not below its first key.\<close>

definition leaf_takes :: "bytes \<Rightarrow> int \<Rightarrow> ixh \<Rightarrow> bool" where
  "leaf_takes key c s \<longleftrightarrow> nd_leaf (node s c) \<and> 0 < get_size (node s c) \<and> 0 \<le> ix_compare (ix_hdr s) key (get_key (node s c) 0)"

definition cached_leaf :: "bytes \<Rightarrow> ixh \<Rightarrow> ix_error + (int \<times> bool) option \<times> ixh" where
  "cached_leaf key s =
     (let c = cached_leaf_no s
      in if c \<noteq> IX_NO_PAGE \<and> c = last_leaf (ix_hdr s)
         then case pinned_leaf_page s of
                Some p \<Rightarrow>
                  if pinned_leaf_no s = c
                  then Inr (if leaf_takes key p s then Some (p, True) else None, s)
                  else and_then (fetch_node c s) (\<lambda>s. Inr (if leaf_takes key c s then (Some (c, False), s) else (None, ix_unpin c s)))
              | None \<Rightarrow> and_then (fetch_node c s) (\<lambda>s. Inr (if leaf_takes key c s then (Some (c, False), s) else (None, ix_unpin c s)))
         else Inr (None, s))"

definition target_leaf :: "bytes \<Rightarrow> ixh \<Rightarrow> ix_error + (int \<times> bool) \<times> ixh" where
  "target_leaf key s =
     and_then (cached_leaf key s) (\<lambda>(hit, s).
       case hit of
         Some x \<Rightarrow> Inr (x, s)
       | None \<Rightarrow> and_then (find_leaf_page key False s) (\<lambda>(p, s). Inr ((p, False), s)))"

text \<open>The end of an insertion: a full leaf is split, otherwise the leaf is remembered together with its pin.\<close>

definition settle_leaf :: "int \<Rightarrow> bool \<Rightarrow> ixh \<Rightarrow> ix_error + int \<times> ixh" where
  "settle_leaf leaf owned s =
     (if get_max_size (ix_hdr s) \<le> get_size (node s leaf)
      then
        let s = (if owned then s\<lparr>pinned_leaf_no := IX_NO_PAGE, pinned_leaf_page := None\<rparr> else s)
        in and_then (split leaf s) (\<lambda>(new_leaf, s).
           and_then (key_slot (node s new_leaf) 0) (\<lambda>up_key.
           and_then (insert_into_parent (ix_fuel s) leaf up_key new_leaf s) (\<lambda>s.
             let s = ix_unpin new_leaf s; s = s\<lparr>cached_leaf_no := last_leaf (ix_hdr s)\<rparr>
             in Inr (leaf, ix_unpin leaf s))))
      else
        let s = s\<lparr>cached_leaf_no := leaf\<rparr>
        in Inr (leaf, if owned then s else (release_pinned_leaf s)\<lparr>pinned_leaf_no := leaf, pinned_leaf_page := Some leaf\<rparr>))"

definition insert_entry :: "bytes \<Rightarrow> Rid \<Rightarrow> ixh \<Rightarrow> ix_error + int \<times> ixh" where
  "insert_entry key v s =
     and_then (target_leaf key s) (\<lambda>((leaf, owned), s).
       let old_size = get_size (node s leaf)
       in and_then (try_node leaf (node_insert (ix_hdr s) key v) s) (\<lambda>s.
          if get_size (node s leaf) = old_size then Inr (leaf, if owned then s else ix_unpin leaf s)
          else and_then (key_slot (node s leaf) 0) (\<lambda>k0.
               and_then (if k0 = key then maintain_parent (ix_fuel s) leaf s else Inr s) (\<lambda>s. settle_leaf leaf owned s))))"

section \<open>Deletion\<close>

definition adjust_root :: "int \<Rightarrow> ixh \<Rightarrow> ix_error + bool \<times> ixh" where
  "adjust_root p s =
     (if \<not> nd_leaf (node s p) \<and> get_size (node s p) = 1
      then and_then (value_at (node s p) 0) (\<lambda>c.
        and_then (fetch_node c s) (\<lambda>s.
          let s = upd_node c (\<lambda>n. n\<lparr>nd_parent := IX_NO_PAGE\<rparr>) s;
              s = set_ix_hdr (\<lambda>h. h\<lparr>root_page := c\<rparr>) s;
              s = ix_unpin c s;
              s = ix_unpin p s
          in Inr (True, snd (ix_delete_page p s))))
      else Inr (False, s))"

definition put_key :: "int \<Rightarrow> nat \<Rightarrow> bytes \<Rightarrow> ixh \<Rightarrow> ix_error + ixh" where
  "put_key p i k s = (if i < get_size (node s p) then Inr (upd_node p (set_key i k) s) else Inl StaleSlot)"

definition ent_slot :: "ix_node \<Rightarrow> nat \<Rightarrow> ix_error + bytes \<times> Rid" where
  "ent_slot n i = (if i < get_size n then Inr (nd_ents n ! i) else Inl StaleSlot)"

definition redistribute :: "int \<Rightarrow> int \<Rightarrow> int \<Rightarrow> nat \<Rightarrow> ixh \<Rightarrow> ix_error + ixh" where
  "redistribute nb p q index s =
     (if index = 0
      then
        let node_size = get_size (node s p)
        in and_then (ent_slot (node s nb) 0) (\<lambda>e.
           and_then (try_node p (insert_pairs (ix_hdr s) node_size [e]) s) (\<lambda>s.
           and_then (if nd_leaf (node s p) then Inr s else maintain_child p node_size s) (\<lambda>s.
           and_then (try_node nb (erase_pair 0) s) (\<lambda>s.
           and_then (key_slot (node s nb) 0) (\<lambda>k. put_key q 1 k s)))))
      else
        let neighbor_size = get_size (node s nb)
        in and_then (ent_slot (node s nb) (neighbor_size - 1)) (\<lambda>e.
           and_then (try_node p (insert_pairs (ix_hdr s) 0 [e]) s) (\<lambda>s.
           and_then (if nd_leaf (node s p) then Inr s else maintain_child p 0 s) (\<lambda>s.
           and_then (try_node nb (erase_pair (neighbor_size - 1)) s) (\<lambda>s.
           and_then (key_slot (node s p) 0) (\<lambda>k. put_key q index k s))))))"

definition merge_links :: "int \<Rightarrow> int \<Rightarrow> ixh \<Rightarrow> ix_error + ixh" where
  "merge_links left right s =
     (let right_next = nd_next (node s right);
          s = upd_node left (\<lambda>n. n\<lparr>nd_next := right_next\<rparr>) s
      in and_then (fetch_node right_next s) (\<lambda>s.
           let s = ix_unpin right_next (upd_node right_next (\<lambda>n. n\<lparr>nd_prev := left\<rparr>) s)
           in Inr (if right = last_leaf (ix_hdr s) then set_ix_hdr (\<lambda>h. h\<lparr>last_leaf := left\<rparr>) s else s)))"

text \<open>\<^verbatim>\<open>coalesce\<close> and \<^verbatim>\<open>coalesce_or_redistribute\<close> call each other; the first gets the second as an argument.\<close>

definition coalesce :: "(int \<Rightarrow> ixh \<Rightarrow> ix_error + bool \<times> ixh) \<Rightarrow> int \<Rightarrow> int \<Rightarrow> int \<Rightarrow> nat \<Rightarrow> ixh \<Rightarrow> ix_error + bool \<times> ixh" where
  "coalesce adjust nb p q index s =
     (let (left, right, index) = (if index = 0 then (p, nb, 1) else (nb, p, index));
          left_size = get_size (node s left); right_size = get_size (node s right)
      in and_then (if 0 < right_size then try_node left (insert_pairs (ix_hdr s) left_size (nd_ents (node s right))) s else Inr s) (\<lambda>s.
         and_then (if nd_leaf (node s left) then Inr s else maintain_children left [left_size..<left_size + right_size] s) (\<lambda>s.
         and_then (if nd_leaf (node s right) then merge_links left right s else Inr s) (\<lambda>s.
         and_then (try_node q (erase_pair index) s) (\<lambda>s.
           adjust q (snd (ix_delete_page right (ix_unpin right s))))))))"

primrec coalesce_or_redistribute :: "nat \<Rightarrow> int \<Rightarrow> ixh \<Rightarrow> ix_error + bool \<times> ixh" where
  "coalesce_or_redistribute 0 p s = Inl Endless"
| "coalesce_or_redistribute (Suc k) p s =
     (if nd_parent (node s p) = INVALID_PAGE_ID then adjust_root p s
      else if get_min_size (ix_hdr s) \<le> get_size (node s p) then Inr (False, s)
      else
        let q = nd_parent (node s p)
        in and_then (fetch_node q s) (\<lambda>s.
           and_then (find_child (node s q) p) (\<lambda>idx.
           and_then (value_at (node s q) (if idx = 0 then 1 else idx - 1)) (\<lambda>c.
           and_then (fetch_node c s) (\<lambda>s.
             if 2 * get_min_size (ix_hdr s) \<le> get_size (node s p) + get_size (node s c)
             then and_then (redistribute c p q idx s) (\<lambda>s. Inr (False, ix_unpin q (ix_unpin c s)))
             else and_then (coalesce (coalesce_or_redistribute k) c p q idx s) (\<lambda>(parent_died, s).
               let s = (if parent_died then s else ix_unpin q s)
               in Inr (if idx = 0 then (False, s) else (True, ix_unpin c s))))))))"

definition delete_entry :: "bytes \<Rightarrow> ixh \<Rightarrow> ix_error + bool \<times> ixh" where
  "delete_entry key s =
     (let s = release_pinned_leaf (s\<lparr>cached_leaf_no := IX_NO_PAGE\<rparr>)
      in and_then (find_leaf_page key False s) (\<lambda>(leaf, s).
         let old_size = get_size (node s leaf)
         in and_then (try_node leaf (node_remove (ix_hdr s) key) s) (\<lambda>s.
            let new_size = get_size (node s leaf)
            in if new_size = old_size then Inr (False, ix_unpin leaf s)
               else and_then (if 0 < new_size then maintain_parent (ix_fuel s) leaf s else Inr s) (\<lambda>s.
                    and_then (coalesce_or_redistribute (ix_fuel s) leaf s) (\<lambda>(node_deleted, s).
                      Inr (True, if node_deleted then s else ix_unpin leaf s))))))"

text \<open>Two operations that nothing calls.\<close>

definition remove_and_return_only_child :: "ix_node \<Rightarrow> ix_error + int \<times> ix_node" where
  "remove_and_return_only_child n =
     (if get_size n \<noteq> 1 then Inl (Thrown AssertionFailure)
      else and_then (value_at n 0) (\<lambda>c. and_then (erase_pair 0 n) (\<lambda>n.
        if get_size n \<noteq> 0 then Inl (Thrown AssertionFailure) else Inr (c, n))))"

definition erase_leaf :: "int \<Rightarrow> ixh \<Rightarrow> ix_error + ixh" where
  "erase_leaf p s =
     (if \<not> nd_leaf (node s p) then Inl (Thrown AssertionFailure)
      else
        let prev_no = nd_prev (node s p); next_no = nd_next (node s p)
        in and_then
             (if IX_NO_PAGE < prev_no
              then and_then (fetch_node prev_no s) (\<lambda>s. Inr (ix_unpin prev_no (upd_node prev_no (\<lambda>n. n\<lparr>nd_next := next_no\<rparr>) s)))
              else Inr s) (\<lambda>s.
           if IX_NO_PAGE < next_no
           then and_then (fetch_node next_no s) (\<lambda>s. Inr (ix_unpin next_no (upd_node next_no (\<lambda>n. n\<lparr>nd_prev := prev_no\<rparr>) s)))
           else Inr s))"

section \<open>Positions\<close>

record Iid =
  iid_page :: int
  iid_slot :: int

text \<open>The position of a slot of a leaf, or the start of the next leaf when the slot is past the end of one that is not the last.\<close>

definition leaf_iid :: "ixh \<Rightarrow> int \<Rightarrow> nat \<Rightarrow> Iid" where
  "leaf_iid s leaf slot =
     (if slot < get_size (node s leaf) then \<lparr>iid_page = leaf, iid_slot = int slot\<rparr>
      else if leaf = last_leaf (ix_hdr s) then \<lparr>iid_page = leaf, iid_slot = int slot\<rparr>
      else \<lparr>iid_page = nd_next (node s leaf), iid_slot = 0\<rparr>)"

definition ix_lower_bound :: "bytes \<Rightarrow> ixh \<Rightarrow> ix_error + Iid \<times> ixh" where
  "ix_lower_bound key s =
     and_then (find_leaf_page key False s) (\<lambda>(leaf, s).
       Inr (leaf_iid s leaf (node_lower_bound (ix_hdr s) (node s leaf) key), ix_unpin leaf s))"

definition ix_upper_bound :: "bytes \<Rightarrow> ixh \<Rightarrow> ix_error + Iid \<times> ixh" where
  "ix_upper_bound key s =
     and_then (find_leaf_page key False s) (\<lambda>(leaf, s).
       let slot = node_lower_bound (ix_hdr s) (node s leaf) key;
           slot = (if slot < get_size (node s leaf) \<and> ix_compare (ix_hdr s) (get_key (node s leaf) slot) key = 0 then slot + 1 else slot)
       in Inr (leaf_iid s leaf slot, ix_unpin leaf s))"

definition leaf_end :: "ixh \<Rightarrow> ix_error + Iid \<times> ixh" where
  "leaf_end s =
     (let p = last_leaf (ix_hdr s)
      in and_then (fetch_node p s) (\<lambda>s. Inr (\<lparr>iid_page = p, iid_slot = int (get_size (node s p))\<rparr>, ix_unpin p s)))"

definition leaf_begin :: "ixh \<Rightarrow> Iid" where
  "leaf_begin s = \<lparr>iid_page = first_leaf (ix_hdr s), iid_slot = 0\<rparr>"

definition ix_get_rid :: "Iid \<Rightarrow> ixh \<Rightarrow> ix_error + Rid \<times> ixh" where
  "ix_get_rid i s =
     and_then (fetch_node (iid_page i) s) (\<lambda>s.
       if int (get_size (node s (iid_page i))) \<le> iid_slot i then Inl (Thrown IndexEntryNotFoundError)
       else if iid_slot i < 0 then Inl StaleSlot
       else Inr (snd (nd_ents (node s (iid_page i)) ! nat (iid_slot i)), ix_unpin (iid_page i) s))"

section \<open>Scans\<close>

record IxScan =
  sc_iid :: Iid
  sc_end :: Iid
  sc_node :: "int option"
  sc_page :: int
  sc_size :: int

definition ix_scan_new :: "Iid \<Rightarrow> Iid \<Rightarrow> IxScan" where
  "ix_scan_new lower upper = \<lparr>sc_iid = lower, sc_end = upper, sc_node = None, sc_page = -1, sc_size = 0\<rparr>"

definition sc_release :: "IxScan \<Rightarrow> ixh \<Rightarrow> IxScan \<times> ixh" where
  "sc_release c s =
     (case sc_node c of
        None \<Rightarrow> (c, s)
      | Some p \<Rightarrow> (c\<lparr>sc_node := None, sc_page := -1\<rparr>, ix_unpin p s))"

definition page_no_valid :: "int \<Rightarrow> ixh \<Rightarrow> bool" where
  "page_no_valid p s \<longleftrightarrow> IX_NO_PAGE < p \<and> p \<noteq> IX_LEAF_HEADER_PAGE \<and> p < ix_num_pages (ix_hdr s)"

definition sc_ensure :: "int \<Rightarrow> IxScan \<Rightarrow> ixh \<Rightarrow> ix_error + IxScan \<times> ixh" where
  "sc_ensure p c s =
     (if \<not> page_no_valid p s then Inr (sc_release (c\<lparr>sc_iid := sc_end c\<rparr>) s)
      else and_then
        (if p \<noteq> sc_page c
         then let (c, s) = sc_release c s
              in and_then (fetch_node p s) (\<lambda>s. Inr (c\<lparr>sc_node := Some p, sc_page := p\<rparr>, s))
         else Inr (c, s)) (\<lambda>(c, s).
        case sc_node c of
          None \<Rightarrow> Inl StaleSlot
        | Some p \<Rightarrow> Inr (c\<lparr>sc_size := int (get_size (node s p))\<rparr>, s)))"

definition sc_advance :: "IxScan \<Rightarrow> ixh \<Rightarrow> IxScan \<times> ixh" where
  "sc_advance c s =
     (let next_pg = (case sc_node c of None \<Rightarrow> IX_NO_PAGE | Some p \<Rightarrow> nd_next (node s p));
          (c, s) = sc_release c s
      in if \<not> page_no_valid next_pg s then (c\<lparr>sc_iid := sc_end c\<rparr>, s)
         else (c\<lparr>sc_iid := \<lparr>iid_page = next_pg, iid_slot = 0\<rparr>\<rparr>, s))"

primrec normalize_position :: "nat \<Rightarrow> IxScan \<Rightarrow> ixh \<Rightarrow> ix_error + IxScan \<times> ixh" where
  "normalize_position 0 c s = Inl Endless"
| "normalize_position (Suc k) c s =
     (if sc_iid c = sc_end c then Inr (c, s)
      else if \<not> page_no_valid (iid_page (sc_iid c)) s then Inr (sc_release (c\<lparr>sc_iid := sc_end c\<rparr>) s)
      else and_then (sc_ensure (iid_page (sc_iid c)) c s) (\<lambda>(c, s).
        if sc_iid c = sc_end c then Inr (c, s)
        else if iid_slot (sc_iid c) < sc_size c then Inr (c, s)
        else case sc_advance c s of (c, s) \<Rightarrow> normalize_position k c s))"

definition ix_scan_next :: "IxScan \<Rightarrow> ixh \<Rightarrow> ix_error + IxScan \<times> ixh" where
  "ix_scan_next c s =
     and_then (normalize_position (ix_fuel s) c s) (\<lambda>(c, s).
       if sc_iid c = sc_end c then Inr (c, s)
       else
         let c = c\<lparr>sc_iid := (sc_iid c)\<lparr>iid_slot := iid_slot (sc_iid c) + 1\<rparr>\<rparr>
         in and_then (sc_ensure (iid_page (sc_iid c)) c s) (\<lambda>(c, s).
              if sc_iid c = sc_end c then Inr (c, s)
              else if sc_size c \<le> iid_slot (sc_iid c) then Inr (sc_advance c s)
              else Inr (c, s)))"

definition ix_scan_is_end :: "IxScan \<Rightarrow> ixh \<Rightarrow> ix_error + bool \<times> IxScan \<times> ixh" where
  "ix_scan_is_end c s = and_then (normalize_position (ix_fuel s) c s) (\<lambda>(c, s). Inr (sc_iid c = sc_end c, c, s))"

definition ix_scan_rid :: "IxScan \<Rightarrow> ixh \<Rightarrow> ix_error + Rid \<times> IxScan \<times> ixh" where
  "ix_scan_rid c s =
     (let none = \<lparr>page_no = -1, slot_no = -1\<rparr>
      in and_then (normalize_position (ix_fuel s) c s) (\<lambda>(c, s).
         if sc_iid c = sc_end c then Inr (none, c, s)
         else and_then (sc_ensure (iid_page (sc_iid c)) c s) (\<lambda>(c, s).
           if sc_iid c = sc_end c \<or> iid_slot (sc_iid c) < 0 \<or> sc_size c \<le> iid_slot (sc_iid c) then Inr (none, c, s)
           else case sc_node c of
                  None \<Rightarrow> Inl StaleSlot
                | Some p \<Rightarrow> Inr (snd (nd_ents (node s p) ! nat (iid_slot (sc_iid c))), c, s))))"

end
