(* ===== verification/Index_Levels.thy ===== *)
theory Index_Levels
  imports Index_Tree
begin

text \<open>
  The shape of the tree. A tree is the list of its levels, from the leaves up to the root, each a list of page numbers from left to
  right: the entries of the nodes of one level, one after the other, are the pages of the level below with their first keys. All statements
  about paths, siblings and separators become statements about such lists, and an operation in the middle of its work is a state in which
  one level is known to the levels above without its newest node, or with an old first key.
\<close>

section \<open>Levels\<close>

definition ents :: "(int \<Rightarrow> ix_node) \<Rightarrow> int \<Rightarrow> (bytes \<times> Rid) list" where
  "ents g p = nd_ents (g p)"

definition first_key :: "(int \<Rightarrow> ix_node) \<Rightarrow> int \<Rightarrow> bytes" where
  "first_key g p = fst (hd (ents g p))"

definition to_child :: "bytes \<times> Rid \<Rightarrow> bytes \<times> int" where
  "to_child e = (fst e, page_no (snd e))"

definition link :: "(int \<Rightarrow> ix_node) \<Rightarrow> int list \<Rightarrow> int list \<Rightarrow> bool" where
  "link g L M \<longleftrightarrow> map to_child (concat (map (ents g) M)) = map (\<lambda>c. (first_key g c, c)) L
     \<and> (\<forall>m \<in> set M. \<not> nd_leaf (g m) \<and> (\<forall>e \<in> set (ents g m). nd_parent (g (page_no (snd e))) = m))"

fun stacked :: "(int \<Rightarrow> ix_node) \<Rightarrow> int list \<Rightarrow> int list list \<Rightarrow> bool" where
  "stacked g L [] \<longleftrightarrow> (\<exists>r. L = [r] \<and> nd_parent (g r) = IX_NO_PAGE)"
| "stacked g L (M # Ms) \<longleftrightarrow> link g L M \<and> stacked g M Ms"

fun wide :: "IxFileHdr \<Rightarrow> (int \<Rightarrow> ix_node) \<Rightarrow> int list list \<Rightarrow> bool" where
  "wide h g [] \<longleftrightarrow> True"
| "wide h g (M # Ms) \<longleftrightarrow> (\<forall>m \<in> set M. (if Ms = [] then 2 else get_min_size h) \<le> length (ents g m) \<and> length (ents g m) \<le> btree_order h)
     \<and> wide h g Ms"

lemma ents_upd [simp]: "ents (g(p := n)) q = (if q = p then nd_ents n else ents g q)"
  by (simp add: ents_def)

lemma first_key_upd [simp]: "first_key (g(p := n)) q = (if q = p then fst (hd (nd_ents n)) else first_key g q)"
  by (simp add: first_key_def)

lemma to_child_simps [simp]: "fst (to_child e) = fst e" "snd (to_child e) = page_no (snd e)"
  by (simp_all add: to_child_def)

lemma linkD:
  assumes "link g L M"
  shows "map to_child (concat (map (ents g) M)) = map (\<lambda>c. (first_key g c, c)) L" "m \<in> set M \<Longrightarrow> \<not> nd_leaf (g m)"
    "m \<in> set M \<Longrightarrow> e \<in> set (ents g m) \<Longrightarrow> nd_parent (g (page_no (snd e))) = m"
  using assms by (auto simp: link_def)

lemma link_pages:
  assumes "link g L M"
  shows "concat (map (\<lambda>m. map (\<lambda>e. page_no (snd e)) (ents g m)) M) = L"
  using arg_cong [OF linkD(1) [OF assms], of "map snd"] by (simp add: map_concat comp_def)

lemma link_kid:
  assumes "link g L M" and "m \<in> set M" and "e \<in> set (ents g m)"
  shows "page_no (snd e) \<in> set L"
  unfolding link_pages [OF assms(1), symmetric] using assms(2,3) by auto

lemma link_kids_distinct:
  assumes "link g L M" and "distinct L" and "m \<in> set M"
  shows "distinct (map (\<lambda>e. page_no (snd e)) (ents g m))"
proof -
  obtain ms1 ms2 where M: "M = ms1 @ m # ms2" using assms(3) by (auto dest: split_list)
  have "distinct (concat (map (\<lambda>m. map (\<lambda>e. page_no (snd e)) (ents g m)) M))" unfolding link_pages [OF assms(1)] by (rule assms(2))
  then show ?thesis unfolding M by simp
qed

lemma link_cong:
  assumes "link g L M" and "\<And>m. m \<in> set M \<Longrightarrow> ents g' m = ents g m \<and> nd_leaf (g' m) = nd_leaf (g m)"
    and "\<And>c. c \<in> set L \<Longrightarrow> first_key g' c = first_key g c \<and> nd_parent (g' c) = nd_parent (g c)"
  shows "link g' L M"
proof -
  have e: "map (ents g') M = map (ents g) M" using assms(2) by simp
  have f: "map (\<lambda>c. (first_key g' c, c)) L = map (\<lambda>c. (first_key g c, c)) L" using assms(3) by simp
  have "nd_parent (g' (page_no (snd x))) = m" if "m \<in> set M" "x \<in> set (ents g' m)" for m x
  proof -
    have x: "x \<in> set (ents g m)" using that assms(2) by simp
    then have "page_no (snd x) \<in> set L" using link_pages [OF assms(1)] that(1) by force
    then show ?thesis using assms(3) linkD(3) [OF assms(1) that(1) x] by simp
  qed
  moreover have "\<not> nd_leaf (g' m)" if "m \<in> set M" for m using that assms(2) linkD(2) [OF assms(1)] by simp
  ultimately show ?thesis using linkD(1) [OF assms(1)] by (simp add: link_def e f)
qed

lemma link_eq: "link g L M \<Longrightarrow> (\<And>x. x \<in> set L \<union> set M \<Longrightarrow> g' x = g x) \<Longrightarrow> link g' L M"
  by (erule link_cong) (simp_all add: ents_def first_key_def)

lemma stacked_cong:
  assumes "stacked g L Ls" and "\<And>m. m \<in> set (concat Ls) \<Longrightarrow> ents g' m = ents g m \<and> nd_leaf (g' m) = nd_leaf (g m) \<and> nd_parent (g' m) = nd_parent (g m)"
    and "\<And>c. c \<in> set L \<Longrightarrow> first_key g' c = first_key g c \<and> nd_parent (g' c) = nd_parent (g c)"
  shows "stacked g' L Ls"
  using assms
proof (induction Ls arbitrary: L)
  case (Cons M Ms)
  have "link g' L M" by (rule link_cong [of g]) (use Cons.prems in \<open>auto\<close>)
  moreover have "stacked g' M Ms"
    by (rule Cons.IH) (use Cons.prems in \<open>auto simp: first_key_def\<close>)
  ultimately show ?case by simp
qed auto

lemma stacked_eq:
  assumes "stacked g L Ls" and "\<And>m. m \<in> set L \<union> set (concat Ls) \<Longrightarrow> g' m = g m"
  shows "stacked g' L Ls"
  by (rule stacked_cong [OF assms(1)]) (use assms(2) in \<open>auto simp: ents_def first_key_def\<close>)

lemma wide_cong:
  assumes "wide h g Ls" and "\<And>m. m \<in> set (concat Ls) \<Longrightarrow> length (ents g' m) = length (ents g m)"
  shows "wide h g' Ls"
  using assms by (induction Ls) auto

lemma wide_hdr: "btree_order h = btree_order h' \<Longrightarrow> wide h g Ls = wide h' g Ls"
  by (induction Ls) (simp_all add: get_min_size_def get_max_size_def)

lemma stacked_nth:
  assumes "stacked g L Ls" and "i < length Ls"
  shows "link g ((L # Ls) ! i) ((L # Ls) ! Suc i)"
  using assms by (induction Ls arbitrary: L i) (auto simp: nth_Cons split: nat.split)

lemma stacked_top:
  assumes "stacked g L Ls"
  shows "\<exists>r. last (L # Ls) = [r] \<and> nd_parent (g r) = IX_NO_PAGE"
  using assms by (induction Ls arbitrary: L) auto

text \<open>The place of a page in the level above.\<close>

lemma distinct_mid:
  assumes "distinct (xs @ p # ys)" and "xs @ p # ys = as @ p # bs"
  shows "xs = as" "ys = bs"
  using assms by (auto simp: append_eq_append_conv2 append_eq_Cons_conv Cons_eq_append_conv)

lemma link_locate:
  assumes l: "link g (xs @ p # ys) M" and d: "distinct (xs @ p # ys)"
  obtains ms1 ms2 e1 r e2 where "M = ms1 @ nd_parent (g p) # ms2" "ents g (nd_parent (g p)) = e1 @ (first_key g p, r) # e2" "page_no r = p"
    "map to_child (concat (map (ents g) ms1) @ e1) = map (\<lambda>c. (first_key g c, c)) xs"
    "map to_child (e2 @ concat (map (ents g) ms2)) = map (\<lambda>c. (first_key g c, c)) ys" "p \<notin> (page_no \<circ> snd) ` set e1"
proof -
  have "p \<in> set (concat (map (\<lambda>m. map (\<lambda>e. page_no (snd e)) (ents g m)) M))" using link_pages [OF l] by simp
  then obtain m e where m: "m \<in> set M" "e \<in> set (ents g m)" "page_no (snd e) = p" by auto
  have mp: "m = nd_parent (g p)" using linkD(3) [OF l m(1,2)] m(3) by simp
  obtain ms1 ms2 where M: "M = ms1 @ m # ms2" using m(1) by (auto dest: split_list)
  obtain e1 e2 where E: "ents g m = e1 @ e # e2" using m(2) by (auto dest: split_list)
  let ?f = "\<lambda>c. (first_key g c, c)"
  have eq: "map to_child (concat (map (ents g) ms1) @ e1) @ to_child e # map to_child (e2 @ concat (map (ents g) ms2)) = map ?f (xs @ p # ys)"
    using linkD(1) [OF l] by (simp add: M E)
  have snds: "map snd (map ?f zs) = zs" for zs by (simp add: comp_def)
  have "xs @ p # ys = map snd (map to_child (concat (map (ents g) ms1) @ e1)) @ p # map snd (map to_child (e2 @ concat (map (ents g) ms2)))"
    using arg_cong [OF eq, of "map snd"] m(3) by (simp add: comp_def)
  note dm = distinct_mid [OF d this]
  have len: "length (map to_child (concat (map (ents g) ms1) @ e1)) = length (map ?f xs)"
    using arg_cong [OF dm(1), of length] by simp
  have parts: "map to_child (concat (map (ents g) ms1) @ e1) = map ?f xs" "to_child e = ?f p"
      "map to_child (e2 @ concat (map (ents g) ms2)) = map ?f ys"
    using append_eq_append_conv [THEN iffD1, OF disjI1 [OF len], of "to_child e # _" "map ?f (p # ys)"] eq
    by (simp_all only: map_append list.map list.inject append_Cons)
  have e: "e = (first_key g p, snd e)" using parts(2) by (cases e) (simp add: to_child_def)
  have "p \<notin> set xs" using d by simp
  then have "p \<notin> (page_no \<circ> snd) ` set e1" using dm(1) by (auto simp: comp_def)
  then show ?thesis using that [of ms1 ms2 e1 "snd e" e2] M E mp m(3) parts(1,3) e by metis
qed

lemma child_pos_append: "c \<notin> (page_no \<circ> snd) ` set es \<Longrightarrow> page_no (snd e) = c \<Longrightarrow> child_pos c (es @ e # fs) = length es"
  by (induction es) auto

lemma find_child_at:
  assumes "nd_ents n = e1 @ e # e2" and "page_no (snd e) = c" and "c \<notin> (page_no \<circ> snd) ` set e1"
  shows "find_child n c = Inr (length e1)"
  using assms by (simp add: find_child_def child_pos_append get_size_def)

section \<open>Keys of the levels\<close>

lemma keys_ok_fst:
  assumes "map fst es = map fst fs"
  shows "keys_ok h es = keys_ok h fs"
proof -
  have "keys_ok h es \<longleftrightarrow> list_all (key_ok h) (map fst es) \<and> sorted_wrt (<) (map (key_val h) (map fst es))" for es
    by (simp add: keys_ok_def vals_def list_all_iff comp_def)
  then show ?thesis unfolding assms by (simp only: assms)
qed

lemma keys_ok_heads:
  assumes "keys_ok h (concat ess)" and "\<forall>es \<in> set ess. es \<noteq> []"
  shows "keys_ok h (map hd ess)"
  using assms
proof (induction ess)
  case (Cons es ess)
  obtain e fs where es: "es = e # fs" using Cons.prems(2) by (cases es) auto
  have "hd x \<in> set (concat ess)" if "x \<in> set ess" for x using Cons.prems(2) that by force
  moreover have "keys_ok h (map hd ess)" using Cons by (simp add: keys_ok_append)
  ultimately show ?case using Cons.prems(1) by (auto simp: es keys_ok_Cons keys_ok_append)
qed simp

lemma link_keys:
  assumes "link g L M" and "keys_ok h (concat (map (ents g) L))" and "\<forall>p \<in> set L. ents g p \<noteq> []"
  shows "keys_ok h (concat (map (ents g) M))"
proof -
  have "keys_ok h (map (\<lambda>c. hd (ents g c)) L)"
    using keys_ok_heads [OF assms(2)] assms(3) by (simp add: comp_def)
  moreover have "map fst (concat (map (ents g) M)) = map fst (map (\<lambda>c. hd (ents g c)) L)"
    using arg_cong [OF linkD(1) [OF assms(1)], of "map fst"] by (simp add: comp_def first_key_def)
  ultimately show ?thesis using keys_ok_fst by blast
qed

definition filled :: "(int \<Rightarrow> ix_node) \<Rightarrow> int list \<Rightarrow> int list list \<Rightarrow> bool" where
  "filled g L Ls \<longleftrightarrow> (Ls \<noteq> [] \<longrightarrow> (\<forall>p \<in> set L. ents g p \<noteq> []))"

lemma wide_filled: "wide h g (M # Ms) \<Longrightarrow> 3 \<le> btree_order h \<Longrightarrow> m \<in> set M \<Longrightarrow> 2 \<le> length (ents g m)"
  by (auto simp: get_min_size_def get_max_size_def split: if_splits)

lemma wide_nonempty: "wide h g (M # Ms) \<Longrightarrow> 3 \<le> btree_order h \<Longrightarrow> m \<in> set M \<Longrightarrow> ents g m \<noteq> []"
  using wide_filled [of h g M Ms m] by fastforce

lemma level_keys:
  assumes "stacked g L Ls" and "wide h g Ls" and "3 \<le> btree_order h" and "filled g L Ls" and "keys_ok h (concat (map (ents g) L))"
    and "i \<le> length Ls"
  shows "keys_ok h (concat (map (ents g) ((L # Ls) ! i)))"
  using assms
proof (induction Ls arbitrary: L i)
  case (Cons M Ms)
  have k: "keys_ok h (concat (map (ents g) M))"
    using link_keys [of g L M h] Cons.prems by (simp add: filled_def)
  have "filled g M Ms" using wide_nonempty [OF Cons.prems(2,3)] by (simp add: filled_def)
  then show ?case using Cons k by (cases i) auto
qed simp

section \<open>Descent\<close>

text \<open>The node of a level that can hold a key.\<close>

definition located :: "IxFileHdr \<Rightarrow> (int \<Rightarrow> ix_node) \<Rightarrow> bytes \<Rightarrow> int list \<Rightarrow> int list \<Rightarrow> int \<Rightarrow> int list \<Rightarrow> bool" where
  "located h g k L xs p ys \<longleftrightarrow> L = xs @ p # ys \<and> (xs \<noteq> [] \<longrightarrow> key_val h (first_key g p) \<le> key_val h k)
     \<and> (ys \<noteq> [] \<longrightarrow> key_val h k < key_val h (first_key g (hd ys)))"

lemma keys_ok_node: "keys_ok h (concat (map (ents g) (xs @ p # ys))) \<Longrightarrow> keys_ok h (ents g p)"
  by (simp add: keys_ok_append)

lemma located_child:
  assumes l: "link g L M" and at: "located h g k M ms1 m ms2" and k: "key_ok h k"
    and ko: "keys_ok h (concat (map (ents g) M))" and ne: "\<forall>m \<in> set M. ents g m \<noteq> []"
  obtains c xs ys where "internal_lookup h (g m) k = Inr c" "located h g k L xs c ys"
proof -
  have M: "M = ms1 @ m # ms2" using at by (simp add: located_def)
  have kn: "keys_ok h (nd_ents (g m))" using keys_ok_node [of h g ms1 m ms2] ko by (simp add: M ents_def)
  have nn: "nd_ents (g m) \<noteq> []" using ne M by (simp add: ents_def)
  obtain i where i: "internal_lookup h (g m) k = Inr (page_no (snd (ents g m ! i)))" "i < length (ents g m)"
      "i = 0 \<or> key_val h (fst (ents g m ! i)) \<le> key_val h k" "Suc i < length (ents g m) \<Longrightarrow> key_val h k < key_val h (fst (ents g m ! Suc i))"
    using node_upper_bound_pick [OF kn k nn] unfolding ents_def by metis
  let ?e = "ents g m ! i" and ?E = "concat (map (ents g) M)" and ?f = "\<lambda>c. (first_key g c, c)"
  let ?a = "concat (map (ents g) ms1) @ take i (ents g m)" and ?b = "drop (Suc i) (ents g m) @ concat (map (ents g) ms2)"
  have E: "?E = ?a @ ?e # ?b" using id_take_nth_drop [OF i(2)] by (simp add: M)
  let ?pg = "\<lambda>e. page_no (snd e)"
  have L: "L = map ?pg ?a @ ?pg ?e # map ?pg ?b"
    using arg_cong [OF linkD(1) [OF l], of "map snd"] unfolding E by (simp add: comp_def)
  have eq: "map to_child ?E = map ?f L" by (rule linkD(1) [OF l])
  have fk: "fst e = first_key g (?pg e)" if "e \<in> set ?E" for e
  proof -
    have "to_child e \<in> set (map to_child ?E)" using that unfolding set_map by (rule imageI)
    then show ?thesis unfolding eq by (auto simp: to_child_def)
  qed
  have lo: "key_val h (first_key g (?pg ?e)) \<le> key_val h k" if "?a \<noteq> []"
  proof (cases "i = 0")
    case True
    then have "ms1 \<noteq> []" using that by auto
    then have "key_val h (first_key g m) \<le> key_val h k" using at by (simp add: located_def)
    moreover have "first_key g m = fst ?e" using True i(2) by (simp add: first_key_def hd_conv_nth)
    ultimately show ?thesis using fk [of ?e] E by simp
  qed (use i(3) fk [of ?e] E in simp)
  have hi: "key_val h k < key_val h (first_key g (?pg (hd ?b)))" if b: "?b \<noteq> []"
  proof (cases "Suc i < length (ents g m)")
    case True
    then have hb: "hd ?b = ents g m ! Suc i" by (simp add: hd_drop_conv_nth)
    have "hd ?b \<in> set ?b" using b by (rule hd_in_set)
    then have "hd ?b \<in> set ?E" unfolding E by simp
    then show ?thesis using fk [of "hd ?b"] i(4) [OF True] hb by simp
  next
    case False
    then have b2: "?b = concat (map (ents g) ms2)" by simp
    then obtain q qs where ms2: "ms2 = q # qs" using b by (cases ms2) auto
    have q: "ents g q \<noteq> []" using ne M ms2 by simp
    have hb: "hd ?b = hd (ents g q)" using b2 ms2 q by simp
    have "hd ?b \<in> set ?E" using hb q M ms2 by simp
    then have "first_key g (?pg (hd ?b)) = first_key g q" using fk [of "hd ?b"] hb by (simp add: first_key_def)
    moreover have "key_val h k < key_val h (first_key g q)" using at ms2 by (simp add: located_def)
    ultimately show ?thesis by simp
  qed
  have "located h g k L (map ?pg ?a) (?pg ?e) (map ?pg ?b)"
    unfolding located_def
  proof (intro conjI impI)
    show "L = map ?pg ?a @ ?pg ?e # map ?pg ?b" by (rule L)
    show "key_val h (first_key g (?pg ?e)) \<le> key_val h k" if "map ?pg ?a \<noteq> []"
      by (rule lo) (use that in \<open>simp only: map_is_Nil_conv not_False_eq_True\<close>)
    show "key_val h k < key_val h (first_key g (hd (map ?pg ?b)))" if b: "map ?pg ?b \<noteq> []"
      unfolding hd_map [OF b [unfolded map_is_Nil_conv]] by (rule hi [OF b [unfolded map_is_Nil_conv]])
  qed
  then show ?thesis using that i(1) by blast
qed

section \<open>States\<close>

definition shaped :: "ixh \<Rightarrow> int list \<Rightarrow> int list list \<Rightarrow> bool" where
  "shaped s L Ls \<longleftrightarrow> stacked (ix_pages s) L Ls \<and> distinct (L @ concat Ls) \<and> (\<forall>p \<in> set (L @ concat Ls). 2 \<le> p \<and> p < ix_next_page s)
     \<and> ix_num_pages (ix_hdr s) = ix_next_page s \<and> last (L # Ls) = [root_page (ix_hdr s)]"

lemma shapedD:
  assumes "shaped s L Ls"
  shows "stacked (ix_pages s) L Ls" "distinct (L @ concat Ls)" "ix_num_pages (ix_hdr s) = ix_next_page s" "last (L # Ls) = [root_page (ix_hdr s)]"
    "p \<in> set L \<Longrightarrow> 2 \<le> p" "p \<in> set L \<Longrightarrow> p < ix_next_page s" "M \<in> set Ls \<Longrightarrow> p \<in> set M \<Longrightarrow> 2 \<le> p" "M \<in> set Ls \<Longrightarrow> p \<in> set M \<Longrightarrow> p < ix_next_page s"
  using assms by (auto simp: shaped_def)

lemma stacked_nonempty:
  assumes "stacked g L Ls" and "wide h g Ls" and "3 \<le> btree_order h"
  shows "L \<noteq> [] \<and> [] \<notin> set Ls"
  using assms
proof (induction Ls arbitrary: L)
  case (Cons M Ms)
  have M: "M \<noteq> [] \<and> [] \<notin> set Ms" using Cons.IH [of M] Cons.prems by simp
  then obtain m where m: "m \<in> set M" by (cases M) auto
  have "ents g m \<noteq> []" by (rule wide_nonempty [OF Cons.prems(2,3) m])
  then have "concat (map (ents g) M) \<noteq> []" using m by auto
  then have "L \<noteq> []" using linkD(1) [of g L M] Cons.prems(1) by fastforce
  then show ?case using M by auto
qed auto

lemma length_concat_nonempty: "[] \<notin> set Ls \<Longrightarrow> length Ls \<le> length (concat Ls)"
proof (induction Ls)
  case (Cons M Ms)
  then show ?case by (cases M) auto
qed simp

lemma shaped_depth:
  assumes "shaped s L Ls" and "wide h (ix_pages s) Ls" and "3 \<le> btree_order h"
  shows "Suc (Suc (length Ls)) \<le> ix_fuel s"
proof -
  note ne = stacked_nonempty [OF shapedD(1) [OF assms(1)] assms(2,3)]
  have "Suc (length Ls) \<le> length (L @ concat Ls)"
    using length_concat_nonempty [of Ls] ne by (cases L) auto
  also have "\<dots> = card (set (L @ concat Ls))" using shapedD(2) [OF assms(1)] by (simp only: distinct_card)
  also have "\<dots> \<le> card {2..<ix_next_page s}"
    by (rule card_mono) (use assms(1) in \<open>auto simp: shaped_def\<close>)
  finally show ?thesis using shapedD(3) [OF assms(1)] by (simp add: ix_fuel_def)
qed

lemma card_set_mset: "card (set_mset A) \<le> size A"
  by (induction A) (auto simp: card_insert_if)

lemma has_room: "size (ix_pins s) < ix_frames s \<Longrightarrow> has_room p s"
proof -
  assume "size (ix_pins s) < ix_frames s"
  then have "card (set_mset (ix_pins s)) < ix_frames s" using card_set_mset [of "ix_pins s"] by simp
  then show ?thesis by (simp add: has_room_def)
qed

lemma fetch_ok:
  assumes "0 \<le> p" and "p < ix_num_pages (ix_hdr s)" and "size (ix_pins s) < ix_frames s"
  shows "fetch_node p s = Inr (s\<lparr>ix_pins := add_mset p (ix_pins s)\<rparr>)"
  using assms has_room [OF assms(3), of p] by (simp add: fetch_node_def IX_NO_PAGE_def)

text \<open>What a search needs: a tree whose leaves are leaves and whose keys ascend.\<close>

definition searchable :: "ixh \<Rightarrow> int list \<Rightarrow> int list list \<Rightarrow> bool" where
  "searchable s L Ls \<longleftrightarrow> shaped s L Ls \<and> wide (ix_hdr s) (ix_pages s) Ls \<and> 3 \<le> btree_order (ix_hdr s) \<and> filled (ix_pages s) L Ls
     \<and> keys_ok (ix_hdr s) (concat (map (ents (ix_pages s)) L)) \<and> (\<forall>p \<in> set L. nd_leaf (node s p))"

lemma searchableD:
  assumes "searchable s L Ls"
  shows "shaped s L Ls" "wide (ix_hdr s) (ix_pages s) Ls" "3 \<le> btree_order (ix_hdr s)" "filled (ix_pages s) L Ls"
    "keys_ok (ix_hdr s) (concat (map (ents (ix_pages s)) L))" "p \<in> set L \<Longrightarrow> nd_leaf (node s p)"
  using assms by (auto simp: searchable_def)

lemma descend_ok:
  assumes t: "searchable s L Ls" and k: "key_ok (ix_hdr s) key"
    and "i \<le> length Ls" and "located (ix_hdr s) (ix_pages s) key ((L # Ls) ! i) xs m ys" and "m \<in># P" and "size P \<le> ix_frames s" and "i < n"
  shows "\<exists>xs p ys. located (ix_hdr s) (ix_pages s) key L xs p ys
    \<and> descend n False key m (s\<lparr>ix_pins := P\<rparr>) = Inr (p, s\<lparr>ix_pins := add_mset p (P - {#m#})\<rparr>)"
  using assms(3-)
proof (induction i arbitrary: xs m ys n P)
  case 0
  have "nd_leaf (node s m)" using searchableD(6) [OF t] 0 by (simp add: located_def)
  then show ?case using 0 by (cases n) (auto simp: insert_DiffM)
next
  case (Suc i)
  note td = searchableD [OF t] and sd = shapedD [OF searchableD(1) [OF t]]
  let ?M = "(L # Ls) ! Suc i" and ?K = "(L # Ls) ! i"
  have l: "link (ix_pages s) ?K ?M" using stacked_nth [OF sd(1)] Suc.prems(1) by simp
  have M: "?M \<in> set Ls" using Suc.prems(1) by simp
  have m: "m \<in> set ?M" using Suc.prems(2) by (simp add: located_def)
  have w: "\<forall>m \<in> set ?M. ents (ix_pages s) m \<noteq> []"
  proof -
    have "\<forall>m \<in> set X. ents (ix_pages s) m \<noteq> []" if "wide (ix_hdr s) (ix_pages s) Ns" "X \<in> set Ns" for X Ns
      using that
    proof (induction Ns)
      case (Cons N Ns)
      then show ?case using wide_nonempty [OF Cons.prems(1) td(3)] by auto
    qed simp
    then show ?thesis using td(2) M by blast
  qed
  have ko: "keys_ok (ix_hdr s) (concat (map (ents (ix_pages s)) ?M))"
    by (rule level_keys [OF sd(1) td(2-5) Suc.prems(1)])
  obtain c us vs where c: "internal_lookup (ix_hdr s) (node s m) key = Inr c" "located (ix_hdr s) (ix_pages s) key ?K us c vs"
    using located_child [OF l Suc.prems(2) k ko w] by blast
  have cK: "c \<in> set ?K" using c(2) by (simp add: located_def)
  have cr: "2 \<le> c \<and> c < ix_next_page s"
  proof (cases i)
    case 0
    then show ?thesis using cK sd(5,6) by simp
  next
    case (Suc j)
    then have "?K \<in> set Ls" using Suc.prems(1) by simp
    then show ?thesis using cK sd(7,8) by blast
  qed
  obtain n' where n: "n = Suc n'" "i < n'" using Suc.prems(5) by (cases n) auto
  let ?P = "add_mset c (P - {#m#})"
  have "0 < size P" using Suc.prems(3) by (auto simp: nonempty_has_size [symmetric])
  then have sz: "size (P - {#m#}) < ix_frames s" using Suc.prems(3,4) by (simp add: size_Diff_singleton)
  have f: "fetch_node c (ix_unpin m (s\<lparr>ix_pins := P\<rparr>)) = Inr (s\<lparr>ix_pins := ?P\<rparr>)"
    using fetch_ok [of c "s\<lparr>ix_pins := P - {#m#}\<rparr>"] cr sd(3) sz by (simp add: ix_unpin_def)
  have "\<exists>xs p ys. located (ix_hdr s) (ix_pages s) key L xs p ys
      \<and> descend n' False key c (s\<lparr>ix_pins := ?P\<rparr>) = Inr (p, s\<lparr>ix_pins := add_mset p (?P - {#c#})\<rparr>)"
    by (rule Suc.IH [OF _ c(2)]) (use Suc.prems(1) sz n(2) in simp_all)
  then show ?case using c(1) f linkD(2) [OF l m] by (simp add: n(1))
qed

lemma find_leaf_ok:
  assumes t: "searchable s L Ls" and k: "key_ok (ix_hdr s) key" and sz: "size (ix_pins s) < ix_frames s"
  obtains xs p ys where "located (ix_hdr s) (ix_pages s) key L xs p ys" "find_leaf_page key False s = Inr (p, s\<lparr>ix_pins := add_mset p (ix_pins s)\<rparr>)"
proof -
  note td = searchableD [OF t] and sd = shapedD [OF searchableD(1) [OF t]]
  let ?r = "root_page (ix_hdr s)" and ?P = "add_mset (root_page (ix_hdr s)) (ix_pins s)"
  have top: "(L # Ls) ! length Ls = [?r]" using sd(4) by (simp add: last_conv_nth split: if_splits)
  have r: "2 \<le> ?r \<and> ?r < ix_next_page s"
  proof (cases "Ls = []")
    case True
    then show ?thesis using sd(4,5,6) by simp
  next
    case False
    then have "last Ls \<in> set Ls" by (rule last_in_set)
    moreover have "?r \<in> set (last Ls)" using sd(4) False by simp
    ultimately show ?thesis using sd(7,8) by blast
  qed
  have l: "located (ix_hdr s) (ix_pages s) key ((L # Ls) ! length Ls) [] ?r []" using top by (simp add: located_def)
  obtain xs p ys where d: "located (ix_hdr s) (ix_pages s) key L xs p ys"
      "descend (ix_fuel s) False key ?r (s\<lparr>ix_pins := ?P\<rparr>) = Inr (p, s\<lparr>ix_pins := add_mset p (?P - {#?r#})\<rparr>)"
    using descend_ok [OF t k le_refl l, of ?P "ix_fuel s"] sz shaped_depth [OF td(1-3)] by auto
  have "find_leaf_page key False s = Inr (p, s\<lparr>ix_pins := add_mset p (ix_pins s)\<rparr>)"
    using d(2) fetch_ok [of ?r s] r sd(3) sz by (simp add: find_leaf_page_def ix_fuel_def)
  then show ?thesis using that d(1) by blast
qed

section \<open>The leaf of a key\<close>

lemma located_split:
  assumes at: "located h g k L xs p ys" and ko: "keys_ok h (concat (map (ents g) L))" and f: "filled g L Ls" and one: "Ls = [] \<Longrightarrow> L = [r]"
  shows "\<forall>e \<in> set (concat (map (ents g) xs)). key_val h (fst e) < key_val h k"
    "\<forall>e \<in> set (concat (map (ents g) ys)). key_val h k < key_val h (fst e)"
proof -
  have L: "L = xs @ p # ys" using at by (simp add: located_def)
  have ne: "ents g q \<noteq> []" if "xs \<noteq> [] \<or> ys \<noteq> []" "q \<in> set L" for q
  proof -
    have "Ls \<noteq> []" using one that L by (auto simp: append_eq_Cons_conv)
    then show ?thesis using f that by (simp add: filled_def)
  qed
  show "\<forall>e \<in> set (concat (map (ents g) xs)). key_val h (fst e) < key_val h k"
  proof
    fix e assume e: "e \<in> set (concat (map (ents g) xs))"
    then have x: "xs \<noteq> []" by auto
    then have "hd (ents g p) \<in> set (ents g p)" using ne L by simp
    then have "key_val h (fst e) < key_val h (first_key g p)" using ko e by (auto simp: L keys_ok_append first_key_def)
    then show "key_val h (fst e) < key_val h k" using at x by (auto simp: located_def)
  qed
  show "\<forall>e \<in> set (concat (map (ents g) ys)). key_val h k < key_val h (fst e)"
  proof
    fix e assume e: "e \<in> set (concat (map (ents g) ys))"
    then obtain q qs where q: "ys = q # qs" by (cases ys) auto
    then have "ents g q \<noteq> []" using ne L by simp
    then obtain a as where a: "ents g q = a # as" by (cases "ents g q") auto
    have "key_val h (fst a) \<le> key_val h (fst e)"
    proof (cases "e = a")
      case False
      then have "e \<in> set (as @ concat (map (ents g) qs))" using e q a by auto
      moreover have "keys_ok h (a # as @ concat (map (ents g) qs))" using ko by (simp add: L q a keys_ok_append)
      ultimately show ?thesis unfolding keys_ok_Cons by (auto intro: less_imp_le)
    qed simp
    moreover have "key_val h k < key_val h (fst a)" using at q a by (simp add: located_def first_key_def)
    ultimately show "key_val h k < key_val h (fst e)" by simp
  qed
qed

lemma ent_ops_mid:
  assumes "\<forall>e \<in> set as. key_val h (fst e) < key_val h k" and "\<forall>e \<in> set bs. key_val h k < key_val h (fst e)"
  shows "ent_find h k (as @ es @ bs) = ent_find h k es" "ent_insert h k v (as @ es @ bs) = as @ ent_insert h k v es @ bs"
    "ent_delete h k (as @ es @ bs) = as @ ent_delete h k es @ bs"
proof -
  have n: "key_val h k \<notin> set (vals h as)" "key_val h k \<notin> set (vals h bs)" using assms by (auto simp: vals_def)
  then have "ent_map h as (key_val h k) = None" "ent_map h bs (key_val h k) = None"
    using dom_ent_map [of h as] dom_ent_map [of h bs] by auto
  then show "ent_find h k (as @ es @ bs) = ent_find h k es"
    by (simp add: ent_find_map ent_map_append map_add_def split: option.split)
  have v: "vals h (as @ es @ bs) = vals h as @ vals h es @ vals h bs" by (simp add: vals_def)
  have "filter (\<lambda>e. key_val h (fst e) < key_val h k) as = as" "filter (\<lambda>e. key_val h (fst e) < key_val h k) bs = []"
      "filter (\<lambda>e. key_val h k < key_val h (fst e)) bs = bs" "filter (\<lambda>e. key_val h k < key_val h (fst e)) as = []"
    using assms by (auto simp: filter_id_conv filter_empty_conv)
  then show "ent_insert h k v (as @ es @ bs) = as @ ent_insert h k v es @ bs"
    using n by (simp add: ent_insert_def v)
  have "filter (\<lambda>e. key_val h (fst e) \<noteq> key_val h k) as = as" "filter (\<lambda>e. key_val h (fst e) \<noteq> key_val h k) bs = bs"
    using assms by (auto simp: filter_id_conv)
  then show "ent_delete h k (as @ es @ bs) = as @ ent_delete h k es @ bs" by (simp add: ent_delete_def)
qed

text \<open>A search, and what it says about the whole index.\<close>

lemma stacked_single: "stacked g L Ls \<Longrightarrow> Ls = [] \<Longrightarrow> L = [hd L]"
  by auto

lemma search_ok:
  assumes t: "searchable s L Ls" and k: "key_ok (ix_hdr s) key" and sz: "size (ix_pins s) < ix_frames s"
  obtains xs p ys where "L = xs @ p # ys" "find_leaf_page key False s = Inr (p, s\<lparr>ix_pins := add_mset p (ix_pins s)\<rparr>)"
    "\<forall>e \<in> set (concat (map (ents (ix_pages s)) xs)). key_val (ix_hdr s) (fst e) < key_val (ix_hdr s) key"
    "\<forall>e \<in> set (concat (map (ents (ix_pages s)) ys)). key_val (ix_hdr s) key < key_val (ix_hdr s) (fst e)"
proof -
  obtain xs p ys where p: "located (ix_hdr s) (ix_pages s) key L xs p ys" "find_leaf_page key False s = Inr (p, s\<lparr>ix_pins := add_mset p (ix_pins s)\<rparr>)"
    by (rule find_leaf_ok [OF assms])
  note sp = located_split [OF p(1) searchableD(5,4) [OF t] stacked_single [OF shapedD(1) [OF searchableD(1) [OF t]]]]
  show ?thesis by (rule that [OF _ p(2) sp]) (use p(1) in \<open>simp add: located_def\<close>)
qed

lemma get_value_ok:
  assumes t: "searchable s L Ls" and k: "key_ok (ix_hdr s) key" and sz: "size (ix_pins s) < ix_frames s"
  shows "get_value key s = Inr (ent_find (ix_hdr s) key (concat (map (ents (ix_pages s)) L)), s)"
proof -
  obtain xs p ys where p: "L = xs @ p # ys" "find_leaf_page key False s = Inr (p, s\<lparr>ix_pins := add_mset p (ix_pins s)\<rparr>)"
      "\<forall>e \<in> set (concat (map (ents (ix_pages s)) xs)). key_val (ix_hdr s) (fst e) < key_val (ix_hdr s) key"
      "\<forall>e \<in> set (concat (map (ents (ix_pages s)) ys)). key_val (ix_hdr s) key < key_val (ix_hdr s) (fst e)"
    by (rule search_ok [OF assms])
  have ko: "keys_ok (ix_hdr s) (nd_ents (node s p))"
    using keys_ok_node [of "ix_hdr s" "ix_pages s" xs p ys] searchableD(5) [OF t] p(1) by (simp add: ents_def)
  have "ent_find (ix_hdr s) key (concat (map (ents (ix_pages s)) L)) = ent_find (ix_hdr s) key (nd_ents (node s p))"
    using ent_ops_mid(1) [OF p(3,4), of "ents (ix_pages s) p"] p(1) by (simp add: ents_def)
  then show ?thesis using p(2) leaf_lookup_find [OF ko k] by (simp add: get_value_def ix_unpin_def)
qed

end
