(* ===== verification/Index_Insert.thy ===== *)
theory Index_Insert
  imports Index_Levels
begin

text \<open>
  Insertion into the tree: \<^verbatim>\<open>maintain_parent\<close> repairs the separators after the first key of a leaf changed, \<^verbatim>\<open>split\<close> adds a right neighbour to a full
  node, and \<^verbatim>\<open>insert_into_parent\<close> makes it known to the levels above, splitting them in turn and growing a new root.
\<close>

section \<open>Separators\<close>

definition rekeyed :: "(int \<Rightarrow> ix_node) \<Rightarrow> (int \<Rightarrow> ix_node) \<Rightarrow> int set \<Rightarrow> bool" where
  "rekeyed g g' S \<longleftrightarrow> (\<forall>m. m \<notin> S \<longrightarrow> g' m = g m)
     \<and> (\<forall>m. (g' m)\<lparr>nd_ents := []\<rparr> = (g m)\<lparr>nd_ents := []\<rparr> \<and> map snd (nd_ents (g' m)) = map snd (nd_ents (g m)))"

lemma rekeyed_refl: "rekeyed g g S"
  by (simp add: rekeyed_def)

lemma rekeyed_trans: "rekeyed g g' S \<Longrightarrow> rekeyed g' g'' S \<Longrightarrow> rekeyed g g'' S"
  by (simp add: rekeyed_def)

lemma rekeyed_mono: "rekeyed g g' S \<Longrightarrow> S \<subseteq> T \<Longrightarrow> rekeyed g g' T"
  unfolding rekeyed_def by blast

lemma rekeyed_set_key: "p \<in> S \<Longrightarrow> i < length (nd_ents (g p)) \<Longrightarrow> rekeyed g (g(p := set_key i k (g p))) S"
  using list_update_id [of "map snd (nd_ents (g p))" i] by (auto simp: rekeyed_def set_key_def map_update)

lemma rekeyedD:
  assumes "rekeyed g g' S"
  shows "m \<notin> S \<Longrightarrow> g' m = g m" "nd_leaf (g' m) = nd_leaf (g m)" "nd_parent (g' m) = nd_parent (g m)" "nd_prev (g' m) = nd_prev (g m)"
    "nd_next (g' m) = nd_next (g m)" "length (ents g' m) = length (ents g m)"
proof -
  have e: "(g' m)\<lparr>nd_ents := []\<rparr> = (g m)\<lparr>nd_ents := []\<rparr>" "map snd (nd_ents (g' m)) = map snd (nd_ents (g m))"
    using assms by (simp_all add: rekeyed_def)
  show "m \<notin> S \<Longrightarrow> g' m = g m" using assms by (simp add: rekeyed_def)
  show "nd_leaf (g' m) = nd_leaf (g m)" "nd_parent (g' m) = nd_parent (g m)" "nd_prev (g' m) = nd_prev (g m)" "nd_next (g' m) = nd_next (g m)"
    using arg_cong [OF e(1), of nd_leaf] arg_cong [OF e(1), of nd_parent] arg_cong [OF e(1), of nd_prev] arg_cong [OF e(1), of nd_next] by simp_all
  show "length (ents g' m) = length (ents g m)" using arg_cong [OF e(2), of length] by (simp add: ents_def)
qed

lemma link_mid:
  assumes "ents g q = e1 @ em @ e2" and "map to_child (concat (map (ents g) ms1) @ e1) = map (\<lambda>c. (first_key g c, c)) xs"
    and "map to_child em = map (\<lambda>c. (first_key g c, c)) zs" and "map to_child (e2 @ concat (map (ents g) ms2)) = map (\<lambda>c. (first_key g c, c)) ys"
    and "\<And>m. m \<in> set (ms1 @ q # ms2) \<Longrightarrow> \<not> nd_leaf (g m)"
    and "\<And>m e. m \<in> set (ms1 @ q # ms2) \<Longrightarrow> e \<in> set (ents g m) \<Longrightarrow> nd_parent (g (page_no (snd e))) = m"
  shows "link g (xs @ zs @ ys) (ms1 @ q # ms2)"
proof -
  have "map to_child (concat (map (ents g) (ms1 @ q # ms2)))
      = map to_child (concat (map (ents g) ms1) @ e1) @ map to_child em @ map to_child (e2 @ concat (map (ents g) ms2))"
    using assms(1) by simp
  also have "\<dots> = map (\<lambda>c. (first_key g c, c)) (xs @ zs @ ys)"
    by (simp only: assms(2-4) map_append [of "\<lambda>c. (first_key g c, c)"])
  finally show ?thesis unfolding link_def using assms(5,6) by blast
qed

lemma firsts_cong: "(\<And>x. x \<in> set xs \<Longrightarrow> first_key g' x = first_key g x) \<Longrightarrow> map (\<lambda>c. (first_key g' c, c)) xs = map (\<lambda>c. (first_key g c, c)) xs"
  by simp

lemma ents_cong: "(\<And>x. x \<in> set xs \<Longrightarrow> ents g' x = ents g x) \<Longrightarrow> concat (map (ents g') xs) = concat (map (ents g) xs)"
  by (metis map_eq_conv)

lemma maintain_parent_ok:
  assumes "stacked ((ix_pages s)(c := (node s c)\<lparr>nd_ents := es\<rparr>)) (xs @ c # ys) Xs" and "distinct ((xs @ c # ys) @ concat Xs)"
    and "\<And>p. p \<in> set ((xs @ c # ys) @ concat Xs) \<Longrightarrow> 2 \<le> p \<and> p < ix_num_pages (ix_hdr s)"
    and "nd_ents (node s c) \<noteq> []" and "size (ix_pins s) < ix_frames s" and "length Xs < n"
  shows "\<exists>g'. maintain_parent n c s = Inr (s\<lparr>ix_pages := g'\<rparr>) \<and> stacked g' (xs @ c # ys) Xs \<and> rekeyed (ix_pages s) g' (set (concat Xs))"
  using assms
proof (induction Xs arbitrary: s c es xs ys n)
  case Nil
  obtain n' where n: "n = Suc n'" using Nil.prems(6) by (cases n) auto
  have x: "xs @ c # ys = [c]" "nd_parent (node s c) = IX_NO_PAGE" using Nil.prems(1) by (auto simp: append_eq_Cons_conv)
  have "maintain_parent n c s = Inr (s\<lparr>ix_pages := ix_pages s\<rparr>)" using x by (simp add: n)
  moreover have "stacked (ix_pages s) (xs @ c # ys) []" using x by simp
  ultimately show ?case using rekeyed_refl by blast
next
  case (Cons M Ms)
  let ?g = "ix_pages s" and ?X = "xs @ c # ys"
  let ?old = "?g(c := (?g c)\<lparr>nd_ents := es\<rparr>)" and ?q = "nd_parent (node s c)"
  obtain n' where n: "n = Suc n'" "length Ms < n'" using Cons.prems(6) by (cases n) auto
  have l0: "link ?old ?X M" and s0: "stacked ?old M Ms" using Cons.prems(1) unfolding stacked.simps by blast+
  have dX: "distinct ?X" using Cons.prems(2) by (simp only: distinct_append)
  have p0: "nd_parent (?old c) = ?q" by simp
  obtain ms1 ms2 e1 r e2 where M: "M = ms1 @ ?q # ms2" and E0: "ents ?old ?q = e1 @ (first_key ?old c, r) # e2" and r: "page_no r = c"
      and ex: "map to_child (concat (map (ents ?old) ms1) @ e1) = map (\<lambda>c. (first_key ?old c, c)) xs"
      and ey: "map to_child (e2 @ concat (map (ents ?old) ms2)) = map (\<lambda>c. (first_key ?old c, c)) ys"
      and ne: "c \<notin> (page_no \<circ> snd) ` set e1"
    using link_locate [OF l0 dX] unfolding p0 by blast
  have cM: "c \<notin> set M" "c \<notin> set (concat Ms)" "?q \<noteq> c" "?q \<notin> set ?X" using Cons.prems(2) M by auto
  have XM: "x \<notin> set M \<and> x \<notin> set (concat Ms)" if "x \<in> set ?X" for x using Cons.prems(2) that by auto
  have qM: "?q \<notin> set (concat Ms)" "?q \<notin> set ms1" "?q \<notin> set ms2" using Cons.prems(2) M by auto
  have E: "nd_ents (?g ?q) = e1 @ (fst (hd es), r) # e2" using E0 cM(3) by (simp add: ents_def first_key_def)
  have qr: "2 \<le> ?q \<and> ?q < ix_num_pages (ix_hdr s)" using Cons.prems(3) [of ?q] M by simp
  let ?s1 = "s\<lparr>ix_pins := add_mset ?q (ix_pins s)\<rparr>"
  have f: "fetch_node ?q s = Inr ?s1" by (rule fetch_ok) (use qr Cons.prems(5) in simp_all)
  have fc: "find_child (node s ?q) c = Inr (length e1)" using find_child_at [OF E, of c] ne r by simp
  have ks: "key_slot (node s c) 0 = Inr (first_key ?g c)"
    using Cons.prems(4) by (simp add: key_slot_def get_size_def get_key_def first_key_def ents_def hd_conv_nth)
  have gk: "get_key (node s ?q) (length e1) = fst (hd es)" using E by (simp add: get_key_def)
  have sg: "stacked ?g M Ms" by (rule stacked_eq [OF s0]) (use cM in auto)
  show ?case
  proof (cases "fst (hd es) = first_key ?g c")
    case True
    have "maintain_parent n c s = Inr (s\<lparr>ix_pages := ?g\<rparr>)"
      using qr f fc ks gk True by (simp add: n(1) Let_def IX_NO_PAGE_def ix_unpin_def)
    moreover have "stacked ?g ?X (M # Ms)"
      by (rule stacked_cong [OF Cons.prems(1)]) (use cM True in \<open>auto simp: ents_def first_key_def\<close>)
    ultimately show ?thesis using rekeyed_refl by blast
  next
    case False
    let ?k = "first_key ?g c" and ?g1 = "?g(?q := set_key (length e1) (first_key ?g c) (?g ?q))"
    let ?s2 = "s\<lparr>ix_pages := ?g1\<rparr>"
    have E1: "ents ?g1 ?q = e1 @ (?k, r) # e2" using E by (simp add: set_key_def)
    have undone: "?g1(?q := (?g1 ?q)\<lparr>nd_ents := nd_ents (?g ?q)\<rparr>) = ?g" by (auto simp: set_key_def)
    have run: "maintain_parent n c s = maintain_parent n' ?q ?s2"
      using qr f fc ks gk False by (simp add: n(1) Let_def IX_NO_PAGE_def ix_unpin_def upd_node_def)
    have "\<exists>g'. maintain_parent n' ?q ?s2 = Inr (?s2\<lparr>ix_pages := g'\<rparr>) \<and> stacked g' (ms1 @ ?q # ms2) Ms \<and> rekeyed (ix_pages ?s2) g' (set (concat Ms))"
    proof (rule Cons.IH)
      show "stacked ((ix_pages ?s2)(?q := (node ?s2 ?q)\<lparr>nd_ents := nd_ents (?g ?q)\<rparr>)) (ms1 @ ?q # ms2) Ms"
        using sg undone by (simp add: M [symmetric])
      show "distinct ((ms1 @ ?q # ms2) @ concat Ms)" using Cons.prems(2) M by simp
      show "2 \<le> p \<and> p < ix_num_pages (ix_hdr ?s2)" if "p \<in> set ((ms1 @ ?q # ms2) @ concat Ms)" for p
        using Cons.prems(3) [of p] that M by auto
      show "nd_ents (node ?s2 ?q) \<noteq> []" using E1 by (simp add: ents_def)
    qed (use Cons.prems(5) n(2) in simp_all)
    then obtain g' where g': "maintain_parent n' ?q ?s2 = Inr (s\<lparr>ix_pages := g'\<rparr>)" "stacked g' M Ms" "rekeyed ?g1 g' (set (concat Ms))"
      by (auto simp: M [symmetric])
    have keep: "g' x = ?g1 x" if "x \<notin> set (concat Ms)" for x using g'(3) that by (simp add: rekeyed_def)
    have l1: "link ?g1 (xs @ [c] @ ys) (ms1 @ ?q # ms2)"
    proof (rule link_mid)
      show "ents ?g1 ?q = e1 @ [(?k, r)] @ e2" using E1 by simp
      have fx: "first_key ?g1 x = first_key ?old x" if "x \<in> set xs \<union> set ys" for x
        using that dX cM(4) by (auto simp: set_key_def)
      have em: "ents ?g1 m = ents ?old m" if "m \<in> set ms1 \<union> set ms2" for m using that qM cM(1) M by auto
      show "map to_child (concat (map (ents ?g1) ms1) @ e1) = map (\<lambda>c. (first_key ?g1 c, c)) xs"
        using ex em fx by (simp add: ents_cong [of ms1 ?g1 ?old] firsts_cong [of xs ?g1 ?old])
      show "map to_child (e2 @ concat (map (ents ?g1) ms2)) = map (\<lambda>c. (first_key ?g1 c, c)) ys"
        using ey em fx by (simp add: ents_cong [of ms2 ?g1 ?old] firsts_cong [of ys ?g1 ?old])
      show "map to_child [(?k, r)] = map (\<lambda>c. (first_key ?g1 c, c)) [c]" using r cM(3) by (simp add: to_child_def)
      show "\<not> nd_leaf (?g1 m)" if "m \<in> set (ms1 @ ?q # ms2)" for m
        using linkD(2) [OF l0, of m] that M cM(1) by (auto simp: set_key_def split: if_splits)
      show "nd_parent (?g1 (page_no (snd e))) = m" if m: "m \<in> set (ms1 @ ?q # ms2)" and e: "e \<in> set (ents ?g1 m)" for m e
      proof -
        have "snd ` set (ents ?g1 m) = snd ` set (ents ?old m)"
        proof (cases "m = ?q")
          case True
          show ?thesis unfolding True E0 E1 by simp
        next
          case False
          then show ?thesis using em [of m] m by (simp del: ents_upd)
        qed
        then have "snd e \<in> snd ` set (ents ?old m)" using imageI [OF e, of snd] by (simp only:)
        then obtain e' where e': "snd e = snd e'" "e' \<in> set (ents ?old m)" by (rule imageE)
        have "nd_parent (?old (page_no (snd e))) = m" using linkD(3) [OF l0 _ e'(2)] m M e'(1) by simp
        then show ?thesis by (auto simp: set_key_def split: if_splits)
      qed
    qed
    have MM: "x \<notin> set (concat Ms)" if "x \<in> set M" for x using Cons.prems(2) that by auto
    have "link ?g1 ?X M" using l1 by (simp only: M [symmetric] append_Cons append_Nil)
    then have "link g' ?X M" by (rule link_eq) (use keep XM MM in blast)
    then have "stacked g' ?X (M # Ms)" using g'(2) by simp
    moreover have "rekeyed ?g g' (set (concat (M # Ms)))"
    proof (rule rekeyed_trans)
      show "rekeyed ?g ?g1 (set (concat (M # Ms)))" by (rule rekeyed_set_key) (use M E in simp_all)
      show "rekeyed ?g1 g' (set (concat (M # Ms)))" by (rule rekeyed_mono [OF g'(3)]) auto
    qed
    moreover have "maintain_parent n c s = Inr (s\<lparr>ix_pages := g'\<rparr>)" unfolding run by (rule g'(1))
    ultimately show ?thesis by blast
  qed
qed

section \<open>Splitting\<close>

definition reparent :: "int \<Rightarrow> int set \<Rightarrow> (int \<Rightarrow> ix_node) \<Rightarrow> int \<Rightarrow> ix_node" where
  "reparent p S g = (\<lambda>x. if x \<in> S then (g x)\<lparr>nd_parent := p\<rparr> else g x)"

lemma reparent_sel [simp]:
  "ents (reparent p S g) x = ents g x" "first_key (reparent p S g) x = first_key g x" "nd_leaf (reparent p S g x) = nd_leaf (g x)"
  "nd_ents (reparent p S g x) = nd_ents (g x)" "nd_prev (reparent p S g x) = nd_prev (g x)" "nd_next (reparent p S g x) = nd_next (g x)"
  "nd_parent (reparent p S g x) = (if x \<in> S then p else nd_parent (g x))"
  by (simp_all add: reparent_def ents_def first_key_def)

lemma reparent_out: "x \<notin> S \<Longrightarrow> reparent p S g x = g x"
  by (simp add: reparent_def)

lemma reparent_reparent: "reparent p S (reparent p T g) = reparent p (S \<union> T) g"
  by (auto simp: reparent_def fun_eq_iff)

definition kid_at :: "ix_node \<Rightarrow> nat \<Rightarrow> int" where
  "kid_at n i = page_no (snd (nd_ents n ! i))"

lemma maintain_child_ok:
  assumes "\<not> nd_leaf (node s p)" and "i < length (nd_ents (node s p))" and "0 \<le> kid_at (node s p) i" and "kid_at (node s p) i < ix_num_pages (ix_hdr s)"
    and "size (ix_pins s) < ix_frames s"
  shows "maintain_child p i s = Inr (s\<lparr>ix_pages := reparent p {kid_at (node s p) i} (ix_pages s)\<rparr>)"
proof -
  let ?c = "kid_at (node s p) i"
  have "value_at (node s p) i = Inr ?c" using assms(2) by (simp add: value_at_def get_size_def kid_at_def)
  moreover have "fetch_node ?c s = Inr (s\<lparr>ix_pins := add_mset ?c (ix_pins s)\<rparr>)" by (rule fetch_ok) (use assms in simp_all)
  moreover have "(ix_pages s)(?c := (node s ?c)\<lparr>nd_parent := p\<rparr>) = reparent p {?c} (ix_pages s)"
    by (auto simp: reparent_def fun_eq_iff)
  ultimately show ?thesis using assms(1) by (simp add: maintain_child_def ix_unpin_def upd_node_def)
qed

lemma maintain_children_ok:
  assumes "\<not> nd_leaf (node s p)" and "\<And>i. i \<in> set is \<Longrightarrow> i < length (nd_ents (node s p))"
    and "\<And>i. i \<in> set is \<Longrightarrow> 0 \<le> kid_at (node s p) i \<and> kid_at (node s p) i < ix_num_pages (ix_hdr s)"
    and "size (ix_pins s) < ix_frames s"
  shows "maintain_children p is s = Inr (s\<lparr>ix_pages := reparent p (kid_at (node s p) ` set is) (ix_pages s)\<rparr>)"
  using assms
proof (induction "is" arbitrary: s)
  case Nil
  then show ?case by (simp add: reparent_def)
next
  case (Cons i "is")
  let ?s = "s\<lparr>ix_pages := reparent p {kid_at (node s p) i} (ix_pages s)\<rparr>"
  have k: "kid_at (node ?s p) = kid_at (node s p)" by (simp add: kid_at_def fun_eq_iff)
  have "maintain_child p i s = Inr ?s" by (rule maintain_child_ok) (use Cons.prems in auto)
  moreover have "maintain_children p is ?s = Inr (?s\<lparr>ix_pages := reparent p (kid_at (node ?s p) ` set is) (ix_pages ?s)\<rparr>)"
    by (rule Cons.IH) (use Cons.prems in \<open>auto simp: kid_at_def\<close>)
  ultimately show ?case unfolding k by (simp add: reparent_reparent)
qed

text \<open>The pages a split leaves: \<open>p\<close> keeps the left half, the new page \<open>q\<close> gets the right one.\<close>

definition right_half :: "ix_node \<Rightarrow> (bytes \<times> Rid) list" where
  "right_half n = drop (length (nd_ents n) div 2) (nd_ents n)"

definition left_half :: "ix_node \<Rightarrow> (bytes \<times> Rid) list" where
  "left_half n = take (length (nd_ents n) div 2) (nd_ents n)"

lemma halves: "nd_ents n = left_half n @ right_half n"
  by (simp add: left_half_def right_half_def)

definition halved :: "int \<Rightarrow> int \<Rightarrow> (int \<Rightarrow> ix_node) \<Rightarrow> int \<Rightarrow> ix_node" where
  "halved p q g = g(q := blank_node\<lparr>nd_next_free := IX_NO_PAGE, nd_parent := nd_parent (g p), nd_leaf := nd_leaf (g p), nd_ents := right_half (g p)\<rparr>,
     p := (g p)\<lparr>nd_ents := left_half (g p)\<rparr>)"

definition more_pages :: "ixh \<Rightarrow> ixh" where
  "more_pages s = s\<lparr>ix_hdr := (ix_hdr s)\<lparr>ix_num_pages := ix_num_pages (ix_hdr s) + 1\<rparr>, ix_next_page := ix_next_page s + 1\<rparr>"

lemma create_node_ok:
  assumes "size (ix_pins s) < ix_frames s"
  shows "create_node s = Inr (ix_next_page s, (more_pages s)\<lparr>ix_pins := add_mset (ix_next_page s) (ix_pins s),
    ix_pages := (ix_pages s)(ix_next_page s := blank_node)\<rparr>)"
proof -
  have "has_room (ix_next_page s) (more_pages s)" by (rule has_room) (use assms in \<open>simp add: more_pages_def\<close>)
  then show ?thesis by (simp add: create_node_def Let_def set_ix_hdr_def more_pages_def upd_node_def has_room_def)
qed

lemma split_start:
  assumes "size (ix_pins s) < ix_frames s" and "length (nd_ents (node s p)) \<le> btree_order (ix_hdr s) + 1" and "p \<noteq> ix_next_page s"
  shows "split p s =
    (let q = ix_next_page s; s = (more_pages s)\<lparr>ix_pins := add_mset q (ix_pins s), ix_pages := halved p q (ix_pages s)\<rparr>
     in and_then (if nd_leaf (node s p) then split_links p q s else maintain_children q [0..<get_size (node s q)] s) (\<lambda>s. Inr (q, s)))"
proof -
  have "(ix_pages s)(ix_next_page s := n, p := (node s p)\<lparr>nd_ents := es\<rparr>) = (ix_pages s)(p := (node s p)\<lparr>nd_ents := es\<rparr>, ix_next_page s := n)" for n es
    using assms(3) by (simp add: fun_upd_twist)
  moreover have "\<not> Suc (btree_order (ix_hdr s)) < length (nd_ents (node s p)) - length (nd_ents (node s p)) div 2" using assms(2) by simp
  ultimately show ?thesis using assms(3) create_node_ok [OF assms(1)]
    by (simp add: split_def Let_def upd_node_def try_node_def insert_pairs_def get_size_def more_pages_def halved_def right_half_def left_half_def
      blank_node_def)
qed

lemma split_inner_ok:
  assumes "\<not> nd_leaf (node s p)" and "size (ix_pins s) + 1 < ix_frames s" and "length (nd_ents (node s p)) \<le> btree_order (ix_hdr s) + 1"
    and "p \<noteq> ix_next_page s" and "\<And>e. e \<in> set (nd_ents (node s p)) \<Longrightarrow> 0 \<le> page_no (snd e) \<and> page_no (snd e) < ix_num_pages (ix_hdr s)"
  shows "split p s = Inr (ix_next_page s, (more_pages s)\<lparr>ix_pins := add_mset (ix_next_page s) (ix_pins s),
      ix_pages := reparent (ix_next_page s) ((page_no \<circ> snd) ` set (right_half (node s p))) (halved p (ix_next_page s) (ix_pages s))\<rparr>)"
proof -
  let ?q = "ix_next_page s"
  let ?s = "(more_pages s)\<lparr>ix_pins := add_mset ?q (ix_pins s), ix_pages := halved p ?q (ix_pages s)\<rparr>"
  have E: "nd_ents (node ?s ?q) = right_half (node s p)" using assms(4) by (simp add: halved_def)
  have K: "kid_at (node ?s ?q) ` set [0..<length (nd_ents (node ?s ?q))] = (page_no \<circ> snd) ` set (right_half (node s p))"
    unfolding E [symmetric] by (force simp: kid_at_def in_set_conv_nth image_iff)
  have kr: "0 \<le> kid_at (node ?s ?q) i \<and> kid_at (node ?s ?q) i < ix_num_pages (ix_hdr ?s)" if "i \<in> set [0..<length (nd_ents (node ?s ?q))]" for i
  proof -
    have "nd_ents (node ?s ?q) ! i \<in> set (right_half (node s p))" unfolding E [symmetric] using that by (simp add: nth_mem)
    then have "nd_ents (node ?s ?q) ! i \<in> set (nd_ents (node s p))" unfolding right_half_def by (rule in_set_dropD)
    then show ?thesis using assms(5) by (fastforce simp: kid_at_def more_pages_def)
  qed
  have "maintain_children ?q [0..<length (nd_ents (node ?s ?q))] ?s
      = Inr (?s\<lparr>ix_pages := reparent ?q (kid_at (node ?s ?q) ` set [0..<length (nd_ents (node ?s ?q))]) (ix_pages ?s)\<rparr>)"
    by (rule maintain_children_ok) (use assms(1,2,4) kr in \<open>simp_all add: more_pages_def halved_def\<close>)
  then show ?thesis using assms(1,4) unfolding K
    by (subst split_start) (use assms in \<open>simp_all add: Let_def halved_def get_size_def more_pages_def\<close>)
qed

lemma link_split:
  assumes l: "link g K (ms1 @ m # ms2)" and d: "distinct K" "distinct (ms1 @ m # ms2)" and km: "set K \<inter> set (ms1 @ m # ms2) = {}"
    and q: "q \<notin> set K" "q \<notin> set (ms1 @ m # ms2)"
  shows "link (reparent q ((page_no \<circ> snd) ` set (right_half (g m))) (halved m q g)) K (ms1 @ m # q # ms2)"
    (is "link ?g K _")
proof -
  define g' where "g' = ?g"
  let ?S = "(page_no \<circ> snd) ` set (right_half (g m))"
  have mq: "m \<noteq> q" using q(2) by auto
  have em: "ents g' m = left_half (g m)" "ents g' q = right_half (g m)" using mq by (simp_all add: g'_def halved_def)
  have eo: "ents g' x = ents g x" if "x \<noteq> m" "x \<noteq> q" for x using that by (simp add: g'_def halved_def)
  have neq: "x \<noteq> m" "x \<noteq> q" if "x \<in> set ms1 \<union> set ms2" for x using that d(2) q(2) by auto
  have o: "map (ents g') ms1 = map (ents g) ms1" "map (ents g') ms2 = map (ents g) ms2"
    by (rule map_cong [OF refl], rule eo; use neq in blast)+
  have "concat (map (ents g') (ms1 @ m # q # ms2)) = concat (map (ents g) (ms1 @ m # ms2))"
    using halves [of "g m"] by (simp add: em o) (simp add: ents_def)
  moreover have "first_key g' c = first_key g c" if "c \<in> set K" for c
  proof -
    have "c \<noteq> m" "c \<noteq> q" using that km q(1) by auto
    then show ?thesis using eo [of c] by (simp add: first_key_def)
  qed
  ultimately have keys: "map to_child (concat (map (ents g') (ms1 @ m # q # ms2))) = map (\<lambda>c. (first_key g' c, c)) K"
    using linkD(1) [OF l] firsts_cong [of K g' g] by simp
  have leaf: "\<not> nd_leaf (g' x)" if "x \<in> set (ms1 @ m # q # ms2)" for x
    using linkD(2) [OF l] that by (auto simp: g'_def halved_def)
  have dk: "distinct (map (\<lambda>e. page_no (snd e)) (left_half (g m) @ right_half (g m)))"
    using link_kids_distinct [OF l d(1), of m] halves [of "g m"] by (simp add: ents_def)
  have par: "nd_parent (g' (page_no (snd e))) = x" if x: "x \<in> set (ms1 @ m # q # ms2)" and e: "e \<in> set (ents g' x)" for x e
  proof (cases "x = q")
    case True
    then show ?thesis using e em(2) by (simp add: g'_def)
  next
    case False
    then have xM: "x \<in> set (ms1 @ m # ms2)" using x by auto
    have eg: "e \<in> set (ents g x)" using e em(1) eo [OF _ False] halves [of "g m"] by (cases "x = m") (auto simp: ents_def)
    note px = linkD(3) [OF l xM eg]
    have c: "page_no (snd e) \<noteq> m" "page_no (snd e) \<noteq> q" using link_kid [OF l xM eg] km q(1) by auto
    have "page_no (snd e) \<notin> ?S"
    proof
      assume "page_no (snd e) \<in> ?S"
      then obtain e' where e': "e' \<in> set (right_half (g m))" "page_no (snd e') = page_no (snd e)" by auto
      then have "e' \<in> set (ents g m)" using halves [of "g m"] by (simp add: ents_def)
      then have xm: "x = m" using linkD(3) [OF l, of m e'] px e'(2) by simp
      then have "e \<in> set (left_half (g m))" using e em(1) by simp
      then show False using dk e' by (auto simp: image_iff)
    qed
    then show ?thesis using px c by (simp add: g'_def halved_def)
  qed
  have "link g' K (ms1 @ m # q # ms2)" unfolding link_def using keys leaf par by blast
  then show ?thesis by (simp only: g'_def)
qed

lemma link_add:
  assumes l: "link g (xs @ p # ys) (ms1 @ m # ms2)" and d: "distinct (xs @ p # q # ys)" "distinct (ms1 @ m # ms2)"
    and km: "set (xs @ p # q # ys) \<inter> set (ms1 @ m # ms2) = {}"
    and E: "ents g m = e1 @ (first_key g p, r) # e2" "page_no r = p"
    and ex: "map to_child (concat (map (ents g) ms1) @ e1) = map (\<lambda>c. (first_key g c, c)) xs"
    and ey: "map to_child (e2 @ concat (map (ents g) ms2)) = map (\<lambda>c. (first_key g c, c)) ys"
  shows "link (g(m := (g m)\<lparr>nd_ents := e1 @ (first_key g p, r) # (first_key g q, child_rid q) # e2\<rparr>, q := (g q)\<lparr>nd_parent := m\<rparr>))
    (xs @ [p, q] @ ys) (ms1 @ m # ms2)"
    (is "link ?g _ _")
proof (rule link_mid)
  have mq: "m \<noteq> q" using km by auto
  show "ents ?g m = e1 @ [(first_key g p, r), (first_key g q, child_rid q)] @ e2" using mq by simp
  have fx: "first_key ?g x = first_key g x" if "x \<in> set (xs @ p # q # ys)" for x
    using that km by (auto simp: first_key_def ents_def)
  have eo: "ents ?g x = ents g x" if "x \<in> set ms1 \<union> set ms2" for x using that d(2) by (auto simp: ents_def)
  show "map to_child (concat (map (ents ?g) ms1) @ e1) = map (\<lambda>c. (first_key ?g c, c)) xs"
    using ex ents_cong [of ms1 ?g g] firsts_cong [of xs ?g g] eo fx by (simp del: ents_upd first_key_upd)
  show "map to_child (e2 @ concat (map (ents ?g) ms2)) = map (\<lambda>c. (first_key ?g c, c)) ys"
    using ey ents_cong [of ms2 ?g g] firsts_cong [of ys ?g g] eo fx by (simp del: ents_upd first_key_upd)
  show "map to_child [(first_key g p, r), (first_key g q, child_rid q)] = map (\<lambda>c. (first_key ?g c, c)) [p, q]"
    using fx E(2) by (simp add: to_child_def child_rid_def del: first_key_upd)
  show "\<not> nd_leaf (?g x)" if "x \<in> set (ms1 @ m # ms2)" for x
    using linkD(2) [OF l that] linkD(2) [OF l, of m] mq that km by auto
  show "nd_parent (?g (page_no (snd e))) = x" if x: "x \<in> set (ms1 @ m # ms2)" and e: "e \<in> set (ents ?g x)" for x e
  proof (cases "e = (first_key g q, child_rid q) \<and> x = m")
    case True
    then show ?thesis by (simp add: child_rid_def)
  next
    case False
    have xq: "x \<noteq> q" using x km by auto
    have eg: "e \<in> set (ents g x)"
    proof (cases "x = m")
      case True
      then show ?thesis using e False mq E(1) by auto
    next
      case xm: False
      then show ?thesis using e eo [of x] x by (simp del: ents_upd)
    qed
    note k = link_kid [OF l x eg]
    have "page_no (snd e) \<noteq> m" "page_no (snd e) \<noteq> q" using k km d(1) by auto
    then show ?thesis using linkD(3) [OF l x eg] by simp
  qed
qed

section \<open>The levels above a split\<close>

definition grew :: "ixh \<Rightarrow> ixh \<Rightarrow> bool" where
  "grew s s' \<longleftrightarrow> ix_next_page s \<le> ix_next_page s'
     \<and> s' = s\<lparr>ix_hdr := (ix_hdr s)\<lparr>ix_num_pages := ix_next_page s', root_page := root_page (ix_hdr s')\<rparr>, ix_next_page := ix_next_page s',
           ix_pages := ix_pages s'\<rparr>"

text \<open>What an operation on the levels \<open>Xs\<close> over the level \<open>X\<close> leaves alone: of the pages of \<open>X\<close> and below only the parent may change, and only in \<open>X\<close>.\<close>

definition spares :: "ixh \<Rightarrow> int list \<Rightarrow> int list list \<Rightarrow> ixh \<Rightarrow> bool" where
  "spares s X Xs s' \<longleftrightarrow> (\<forall>x. x \<notin> set (concat Xs) \<longrightarrow> x < ix_next_page s \<longrightarrow> (node s' x)\<lparr>nd_parent := 0\<rparr> = (node s x)\<lparr>nd_parent := 0\<rparr>)
     \<and> (\<forall>x. x \<notin> set X \<longrightarrow> x \<notin> set (concat Xs) \<longrightarrow> x < ix_next_page s \<longrightarrow> node s' x = node s x)"

lemma sparesI:
  assumes "\<And>x. x \<notin> set (concat Xs) \<Longrightarrow> x < ix_next_page s \<Longrightarrow> (node s' x)\<lparr>nd_parent := 0\<rparr> = (node s x)\<lparr>nd_parent := 0\<rparr>"
    and "\<And>x. x \<notin> set (concat Xs) \<Longrightarrow> x < ix_next_page s \<Longrightarrow> x \<notin> set X \<Longrightarrow> node s' x = node s x"
  shows "spares s X Xs s'"
  using assms by (simp add: spares_def)

lemma sparesD:
  assumes "spares s X Xs s'" and "x \<notin> set (concat Xs)" and "x < ix_next_page s"
  shows "ents (ix_pages s') x = ents (ix_pages s) x" "first_key (ix_pages s') x = first_key (ix_pages s) x"
    "nd_leaf (node s' x) = nd_leaf (node s x)" "nd_prev (node s' x) = nd_prev (node s x)" "nd_next (node s' x) = nd_next (node s x)"
    "x \<notin> set X \<Longrightarrow> node s' x = node s x"
proof -
  have e: "(node s' x)\<lparr>nd_parent := 0\<rparr> = (node s x)\<lparr>nd_parent := 0\<rparr>" using assms by (simp add: spares_def)
  show "ents (ix_pages s') x = ents (ix_pages s) x" "first_key (ix_pages s') x = first_key (ix_pages s) x"
      "nd_leaf (node s' x) = nd_leaf (node s x)" "nd_prev (node s' x) = nd_prev (node s x)" "nd_next (node s' x) = nd_next (node s x)"
    using arg_cong [OF e, of nd_ents] arg_cong [OF e, of nd_leaf] arg_cong [OF e, of nd_prev] arg_cong [OF e, of nd_next]
    by (simp_all add: ents_def first_key_def)
  show "x \<notin> set X \<Longrightarrow> node s' x = node s x" using assms by (simp add: spares_def)
qed

definition topped :: "ixh \<Rightarrow> int list \<Rightarrow> int list list \<Rightarrow> ixh \<Rightarrow> int list list \<Rightarrow> bool" where
  "topped s X Xs s' Xs' \<longleftrightarrow> stacked (ix_pages s') X Xs' \<and> Xs' \<noteq> [] \<and> wide (ix_hdr s) (ix_pages s') Xs' \<and> last Xs' = [root_page (ix_hdr s')]
     \<and> distinct (concat Xs') \<and> set (concat Xs') \<subseteq> set (concat Xs) \<union> {ix_next_page s..<ix_next_page s'}"

lemma new_root_ok:
  assumes "nd_parent (node s p) = IX_NO_PAGE" and "p \<noteq> q" and "p < ix_next_page s" and "q < ix_next_page s"
    and "ix_num_pages (ix_hdr s) = ix_next_page s" and "3 \<le> btree_order (ix_hdr s)" and "nd_ents (node s p) \<noteq> []" and "size (ix_pins s) < ix_frames s"
  shows "\<exists>s'. insert_into_parent (Suc n) p (first_key (ix_pages s) q) q s = Inr s' \<and> grew s s' \<and> topped s [p, q] [] s' [[ix_next_page s]]
    \<and> spares s [p, q] [] s'"
proof -
  let ?r = "ix_next_page s" and ?g = "ix_pages s"
  let ?n = "blank_node\<lparr>nd_next_free := IX_NO_PAGE, nd_parent := IX_NO_PAGE, nd_ents := [(first_key ?g p, child_rid p), (first_key ?g q, child_rid q)]\<rparr>"
  let ?h = "?g(?r := ?n, p := (?g p)\<lparr>nd_parent := ?r\<rparr>, q := (?g q)\<lparr>nd_parent := ?r\<rparr>)"
  let ?s = "s\<lparr>ix_hdr := (ix_hdr s)\<lparr>ix_num_pages := ?r + 1, root_page := ?r\<rparr>, ix_next_page := ?r + 1, ix_pages := ?h\<rparr>"
  have ne: "p \<noteq> ?r" "q \<noteq> ?r" using assms(3,4) by auto
  have ks: "key_slot (?g p) 0 = Inr (first_key ?g p)"
    using assms(7) by (simp add: key_slot_def get_size_def get_key_def first_key_def ents_def hd_conv_nth)
  have "insert_into_parent (Suc n) p (first_key ?g q) q s = Inr ?s"
    using assms(1,2,5,6) ne ks create_node_ok [OF assms(8)]
    by (simp add: INVALID_PAGE_ID_def IX_NO_PAGE_def Let_def upd_node_def try_node_def insert_pairs_def get_size_def set_ix_hdr_def ix_unpin_def
      more_pages_def blank_node_def)
  moreover have "grew s ?s" by (simp add: grew_def)
  moreover have "link ?h [p, q] [?r]"
    using assms(2) ne by (auto simp: link_def to_child_def child_rid_def blank_node_def first_key_def ents_def)
  then have "topped s [p, q] [] ?s [[?r]]"
    using assms(2,6) ne by (simp add: topped_def blank_node_def)
  moreover have "spares s [p, q] [] ?s" by (simp add: spares_def)
  ultimately show ?thesis by blast
qed

text \<open>The parent gets the entry of the new node.\<close>

lemma add_child_ok:
  assumes st: "stacked (ix_pages s) (xs @ p # ys) (M # Ms)" and d: "distinct ((xs @ p # q # ys) @ concat (M # Ms))"
    and rng: "\<And>x. x \<in> set ((xs @ p # q # ys) @ concat (M # Ms)) \<Longrightarrow> 2 \<le> x \<and> x < ix_next_page s" and num: "ix_num_pages (ix_hdr s) = ix_next_page s"
    and w: "wide (ix_hdr s) (ix_pages s) (M # Ms)" and pins: "size (ix_pins s) < ix_frames s"
  obtains m ms1 ms2 k g where "nd_parent (node s p) = m" "m \<noteq> IX_NO_PAGE" "fetch_node m s = Inr (s\<lparr>ix_pins := add_mset m (ix_pins s)\<rparr>)"
    "find_child (node s m) p = Inr k" "insert_pairs (ix_hdr s) (k + 1) [(first_key (ix_pages s) q, child_rid q)] (node s m) = Inr (g m)"
    "upd_node q (\<lambda>n. n\<lparr>nd_parent := m\<rparr>) (upd_node m (\<lambda>_. g m) (s\<lparr>ix_pins := add_mset m (ix_pins s)\<rparr>)) = s\<lparr>ix_pins := add_mset m (ix_pins s), ix_pages := g\<rparr>"
    "M = ms1 @ m # ms2" "link g (xs @ [p, q] @ ys) M" "stacked g M Ms" "length (nd_ents (g m)) = Suc (length (nd_ents (node s m)))"
    "\<And>x. x \<noteq> m \<Longrightarrow> x \<noteq> q \<Longrightarrow> g x = node s x" "(g q)\<lparr>nd_parent := 0\<rparr> = (node s q)\<lparr>nd_parent := 0\<rparr>"
proof -
  let ?g = "ix_pages s" and ?m = "nd_parent (node s p)"
  have l: "link ?g (xs @ p # ys) M" and up: "stacked ?g M Ms" using st by simp_all
  have dX: "distinct (xs @ p # ys)" using d by auto
  obtain ms1 ms2 e1 r e2 where M: "M = ms1 @ ?m # ms2" and E: "ents ?g ?m = e1 @ (first_key ?g p, r) # e2" "page_no r = p"
      and ex: "map to_child (concat (map (ents ?g) ms1) @ e1) = map (\<lambda>c. (first_key ?g c, c)) xs"
      and ey: "map to_child (e2 @ concat (map (ents ?g) ms2)) = map (\<lambda>c. (first_key ?g c, c)) ys"
      and ne: "p \<notin> (page_no \<circ> snd) ` set e1"
    by (rule link_locate [OF l dX])
  have mr: "2 \<le> ?m \<and> ?m < ix_next_page s" using rng [of ?m] M by simp
  have mq: "?m \<noteq> q" and mu: "?m \<notin> set (concat Ms)" and qu: "q \<notin> set M" "q \<notin> set (concat Ms)" using d M by auto
  let ?n = "(?g ?m)\<lparr>nd_ents := e1 @ (first_key ?g p, r) # (first_key ?g q, child_rid q) # e2\<rparr>"
  define g where "g = ?g(?m := ?n, q := (?g q)\<lparr>nd_parent := ?m\<rparr>)"
  have gm: "g ?m = ?n" using mq by (simp add: g_def)
  have len: "length (nd_ents (?g ?m)) \<le> btree_order (ix_hdr s)" using w M by (simp add: ents_def)
  have "insert_pairs (ix_hdr s) (length e1 + 1) [(first_key ?g q, child_rid q)] (?g ?m) = Inr (g ?m)"
    using E len unfolding gm by (simp add: insert_pairs_def get_size_def ents_def)
  moreover have "upd_node q (\<lambda>n. n\<lparr>nd_parent := ?m\<rparr>) (upd_node ?m (\<lambda>_. g ?m) (s\<lparr>ix_pins := add_mset ?m (ix_pins s)\<rparr>))
      = s\<lparr>ix_pins := add_mset ?m (ix_pins s), ix_pages := g\<rparr>"
    using mq unfolding gm by (simp add: upd_node_def g_def)
  moreover have "link g (xs @ [p, q] @ ys) M"
    unfolding g_def M by (rule link_add [OF l [unfolded M] _ _ _ E ex ey]) (use d M in auto)
  moreover have "stacked g M Ms"
  proof (rule stacked_cong [OF up])
    show "ents g x = ents ?g x \<and> nd_leaf (g x) = nd_leaf (?g x) \<and> nd_parent (g x) = nd_parent (?g x)" if "x \<in> set (concat Ms)" for x
      using that mu qu(2) by (auto simp: g_def ents_def)
    show "first_key g x = first_key ?g x \<and> nd_parent (g x) = nd_parent (?g x)" if "x \<in> set M" for x
      using that qu(1) mq E(1) by (cases e1) (auto simp: g_def first_key_def ents_def)
  qed
  moreover have "length (nd_ents (g ?m)) = Suc (length (nd_ents (?g ?m)))" using E(1) unfolding gm by (simp add: ents_def)
  moreover have "find_child (?g ?m) p = Inr (length e1)" using find_child_at [of "?g ?m" e1 "(first_key ?g p, r)" e2 p] E ne by (simp add: ents_def)
  moreover have "fetch_node ?m s = Inr (s\<lparr>ix_pins := add_mset ?m (ix_pins s)\<rparr>)" by (rule fetch_ok) (use mr num pins in simp_all)
  moreover have "g x = ?g x" if "x \<noteq> ?m" "x \<noteq> q" for x using that by (simp add: g_def)
  moreover have "(g q)\<lparr>nd_parent := 0\<rparr> = (?g q)\<lparr>nd_parent := 0\<rparr>" by (simp add: g_def)
  moreover have "?m \<noteq> IX_NO_PAGE" using mr by (simp add: IX_NO_PAGE_def)
  ultimately show ?thesis using that [of ?m "length e1" g ms1 ms2] M by blast
qed

lemma insert_into_parent_fits:
  assumes st: "stacked (ix_pages s) (xs @ p # ys) (M # Ms)" and d: "distinct ((xs @ p # q # ys) @ concat (M # Ms))"
    and w: "wide (ix_hdr s) (ix_pages s) (M # Ms)" and top: "last (M # Ms) = [root_page (ix_hdr s)]" and num: "ix_num_pages (ix_hdr s) = ix_next_page s"
    and g: "link g (xs @ [p, q] @ ys) M" "stacked g M Ms" "\<And>x. x \<noteq> m \<Longrightarrow> x \<noteq> q \<Longrightarrow> g x = node s x" "(g q)\<lparr>nd_parent := 0\<rparr> = (node s q)\<lparr>nd_parent := 0\<rparr>"
    and m: "m \<in> set M" "length (nd_ents (g m)) = Suc (length (nd_ents (node s m)))" "length (nd_ents (g m)) \<le> btree_order (ix_hdr s)"
  shows "grew s (s\<lparr>ix_pages := g\<rparr>) \<and> topped s (xs @ [p, q] @ ys) (M # Ms) (s\<lparr>ix_pages := g\<rparr>) (M # Ms) \<and> spares s (xs @ [p, q] @ ys) (M # Ms) (s\<lparr>ix_pages := g\<rparr>)"
proof -
  have o: "ents g x = ents (ix_pages s) x" if "x \<in> set (concat (M # Ms))" "x \<noteq> m" for x
  proof -
    have "x \<noteq> q" using d that(1) by auto
    then show ?thesis using g(3) [OF that(2)] by (simp add: ents_def)
  qed
  have "wide (ix_hdr s) g (M # Ms)"
  proof -
    have mu: "m \<notin> set (concat Ms)" using d m(1) by auto
    have "wide (ix_hdr s) g Ms"
    proof (rule wide_cong)
      show "wide (ix_hdr s) (ix_pages s) Ms" using w by simp
      show "length (ents g x) = length (ents (ix_pages s) x)" if "x \<in> set (concat Ms)" for x
        using o [of x] that mu by (cases "x = m") auto
    qed
    moreover have "(if Ms = [] then 2 else get_min_size (ix_hdr s)) \<le> length (ents g x) \<and> length (ents g x) \<le> btree_order (ix_hdr s)" if "x \<in> set M" for x
    proof (cases "x = m")
      case True
      then show ?thesis using w m by (auto simp: ents_def)
    next
      case False
      then show ?thesis using w o [of x] that by simp
    qed
    ultimately show ?thesis by simp
  qed
  moreover have "distinct (concat (M # Ms))" using d by (simp only: distinct_append)
  ultimately have "topped s (xs @ [p, q] @ ys) (M # Ms) (s\<lparr>ix_pages := g\<rparr>) (M # Ms)"
    using g(1,2) top by (simp add: topped_def)
  moreover have "spares s (xs @ [p, q] @ ys) (M # Ms) (s\<lparr>ix_pages := g\<rparr>)"
  proof (rule sparesI)
    fix x assume x: "x \<notin> set (concat (M # Ms))"
    then have "x \<noteq> m" using m(1) by auto
    then have o: "x \<noteq> q \<Longrightarrow> g x = node s x" by (rule g(3))
    have n: "ix_pages (s\<lparr>ix_pages := g\<rparr>) = g" by simp
    show "(node (s\<lparr>ix_pages := g\<rparr>) x)\<lparr>nd_parent := 0\<rparr> = (node s x)\<lparr>nd_parent := 0\<rparr>"
      unfolding n by (cases "x = q") (simp_all only: g(4) o not_False_eq_True)
    assume "x \<notin> set (xs @ [p, q] @ ys)"
    then show "node (s\<lparr>ix_pages := g\<rparr>) x = node s x" unfolding n by (intro o) auto
  qed
  moreover have "grew s (s\<lparr>ix_pages := g\<rparr>)" using num by (simp add: grew_def)
  ultimately show ?thesis by blast
qed

text \<open>A full parent is split; the levels above still know its left half only.\<close>

lemma inner_split_ok:
  assumes l: "link (ix_pages s) X (ms1 @ m # ms2)" and up: "stacked (ix_pages s) (ms1 @ m # ms2) Ms" and d: "distinct (X @ concat ((ms1 @ m # ms2) # Ms))"
    and rng: "\<And>x. x \<in> set (X @ concat ((ms1 @ m # ms2) # Ms)) \<Longrightarrow> 2 \<le> x \<and> x < ix_next_page s" and num: "ix_num_pages (ix_hdr s) = ix_next_page s"
    and full: "length (nd_ents (node s m)) = btree_order (ix_hdr s) + 1" and o: "3 \<le> btree_order (ix_hdr s)"
    and pins: "size (ix_pins s) + 1 < ix_frames s"
  obtains g where "split m s = Inr (ix_next_page s, (more_pages s)\<lparr>ix_pins := add_mset (ix_next_page s) (ix_pins s), ix_pages := g\<rparr>)"
    "link g X (ms1 @ m # ix_next_page s # ms2)" "stacked g (ms1 @ m # ms2) Ms"
    "length (ents g m) = get_min_size (ix_hdr s)" "get_min_size (ix_hdr s) \<le> length (ents g (ix_next_page s))" "length (ents g (ix_next_page s)) \<le> btree_order (ix_hdr s)"
    "\<And>x. x \<noteq> m \<Longrightarrow> x \<noteq> ix_next_page s \<Longrightarrow> (g x)\<lparr>nd_parent := 0\<rparr> = (node s x)\<lparr>nd_parent := 0\<rparr>"
    "\<And>x. x \<noteq> m \<Longrightarrow> x \<noteq> ix_next_page s \<Longrightarrow> x \<notin> set X \<Longrightarrow> g x = node s x"
proof -
  let ?q = "ix_next_page s" and ?g = "ix_pages s" and ?M = "ms1 @ m # ms2"
  let ?S = "(page_no \<circ> snd) ` set (right_half (?g m))"
  define g where "g = reparent ?q ?S (halved m ?q ?g)"
  have mM: "m \<in> set ?M" by simp
  have qn: "?q \<notin> set X" "?q \<notin> set ?M" "?q \<notin> set (concat Ms)" using rng [of ?q] by auto
  have mq: "m \<noteq> ?q" using qn(2) by auto
  have SX: "x \<in> set X" if xS: "x \<in> ?S" for x
  proof -
    obtain e where e: "e \<in> set (right_half (?g m))" "x = page_no (snd e)" using xS by auto
    then have "e \<in> set (ents ?g m)" using halves [of "?g m"] by (simp add: ents_def)
    then show ?thesis using link_kid [OF l mM] e(2) by blast
  qed
  have kr: "0 \<le> page_no (snd e) \<and> page_no (snd e) < ix_num_pages (ix_hdr s)" if "e \<in> set (nd_ents (?g m))" for e
  proof -
    have "page_no (snd e) \<in> set X" using link_kid [OF l mM, of e] that by (simp add: ents_def)
    then show ?thesis using rng [of "page_no (snd e)"] num by simp
  qed
  have "split m s = Inr (?q, (more_pages s)\<lparr>ix_pins := add_mset ?q (ix_pins s), ix_pages := g\<rparr>)"
    unfolding g_def by (rule split_inner_ok) (use linkD(2) [OF l mM] pins full mq kr in simp_all)
  moreover have "link g X (ms1 @ m # ?q # ms2)"
    unfolding g_def by (rule link_split [OF l]) (use d qn in auto)
  moreover have out: "g x = ?g x" if "x \<noteq> m" "x \<noteq> ?q" "x \<notin> set X" for x
    using that SX [of x] by (auto simp: g_def reparent_def halved_def)
  have lm: "ents g m = left_half (?g m)" "ents g ?q = right_half (?g m)" using mq by (simp_all add: g_def halved_def)
  have par: "nd_parent (g m) = nd_parent (?g m)" using SX [of m] d mq by (auto simp: g_def halved_def)
  have nl: "left_half (?g m) \<noteq> []" using full o by (auto simp: left_half_def)
  then have fm: "first_key g m = first_key ?g m" using halves [of "?g m"] by (simp add: first_key_def lm) (simp add: ents_def)
  moreover have "stacked g ?M Ms"
  proof (rule stacked_cong [OF up])
    show "ents g x = ents ?g x \<and> nd_leaf (g x) = nd_leaf (?g x) \<and> nd_parent (g x) = nd_parent (?g x)" if x: "x \<in> set (concat Ms)" for x
    proof -
      have "x \<noteq> m" "x \<noteq> ?q" "x \<notin> set X" using x d qn(3) by auto
      then show ?thesis using out by (simp add: ents_def)
    qed
    show "first_key g x = first_key ?g x \<and> nd_parent (g x) = nd_parent (?g x)" if x: "x \<in> set ?M" for x
    proof (cases "x = m")
      case True
      then show ?thesis using fm par by simp
    next
      case False
      have "x \<noteq> ?q" "x \<notin> set X" using x d qn(2) by auto
      then show ?thesis using out [OF False] by (simp add: ents_def first_key_def)
    qed
  qed
  moreover have "length (ents g m) = get_min_size (ix_hdr s)" "get_min_size (ix_hdr s) \<le> length (ents g ?q)" "length (ents g ?q) \<le> btree_order (ix_hdr s)"
    using full o unfolding lm by (auto simp: left_half_def right_half_def get_min_size_def get_max_size_def)
  moreover have "(g x)\<lparr>nd_parent := 0\<rparr> = (?g x)\<lparr>nd_parent := 0\<rparr>" if "x \<noteq> m" "x \<noteq> ?q" for x
    using that by (simp add: g_def reparent_def halved_def)
  ultimately show ?thesis using that [of g] out by blast
qed

lemma grewD:
  assumes "grew s s'"
  shows "ix_next_page s \<le> ix_next_page s'" "ix_num_pages (ix_hdr s') = ix_next_page s'" "ix_pins s' = ix_pins s" "ix_frames s' = ix_frames s"
    "cached_leaf_no s' = cached_leaf_no s" "pinned_leaf_no s' = pinned_leaf_no s" "pinned_leaf_page s' = pinned_leaf_page s"
    "col_types (ix_hdr s') = col_types (ix_hdr s)" "col_lens (ix_hdr s') = col_lens (ix_hdr s)" "ix_tot_key (ix_hdr s') = ix_tot_key (ix_hdr s)"
    "btree_order (ix_hdr s') = btree_order (ix_hdr s)" "first_leaf (ix_hdr s') = first_leaf (ix_hdr s)" "last_leaf (ix_hdr s') = last_leaf (ix_hdr s)"
proof -
  have e: "s' = s\<lparr>ix_hdr := (ix_hdr s)\<lparr>ix_num_pages := ix_next_page s', root_page := root_page (ix_hdr s')\<rparr>, ix_next_page := ix_next_page s',
      ix_pages := ix_pages s'\<rparr>" using assms by (simp add: grew_def)
  show "ix_next_page s \<le> ix_next_page s'" using assms by (simp add: grew_def)
  show "ix_num_pages (ix_hdr s') = ix_next_page s'" "ix_pins s' = ix_pins s" "ix_frames s' = ix_frames s"
    "cached_leaf_no s' = cached_leaf_no s" "pinned_leaf_no s' = pinned_leaf_no s" "pinned_leaf_page s' = pinned_leaf_page s"
    "col_types (ix_hdr s') = col_types (ix_hdr s)" "col_lens (ix_hdr s') = col_lens (ix_hdr s)" "ix_tot_key (ix_hdr s') = ix_tot_key (ix_hdr s)"
    "btree_order (ix_hdr s') = btree_order (ix_hdr s)" "first_leaf (ix_hdr s') = first_leaf (ix_hdr s)" "last_leaf (ix_hdr s') = last_leaf (ix_hdr s)"
    by (subst e, simp)+
qed

lemma grew_lift:
  assumes "grew ((more_pages s)\<lparr>ix_pins := P, ix_pages := g\<rparr>) t" and "t' = t\<lparr>ix_pins := ix_pins s\<rparr>"
  shows "grew s t'"
proof -
  let ?s = "(more_pages s)\<lparr>ix_pins := P, ix_pages := g\<rparr>"
  have "ix_next_page s \<le> ix_next_page t" using grewD(1) [OF assms(1)] by (simp add: more_pages_def)
  moreover obtain N R G where n: "N = ix_next_page t" "R = root_page (ix_hdr t)" "G = ix_pages t" by blast
  have "t = ?s\<lparr>ix_hdr := (ix_hdr ?s)\<lparr>ix_num_pages := N, root_page := R\<rparr>, ix_next_page := N, ix_pages := G\<rparr>"
    using assms(1) by (simp only: grew_def n)
  then have "t\<lparr>ix_pins := ix_pins s\<rparr> = s\<lparr>ix_hdr := (ix_hdr s)\<lparr>ix_num_pages := N, root_page := R\<rparr>, ix_next_page := N, ix_pages := G\<rparr>"
    by (simp add: more_pages_def)
  ultimately show ?thesis unfolding assms(2) by (simp add: grew_def n)
qed

lemma toppedD:
  assumes "topped s X Xs s' Xs'"
  shows "stacked (ix_pages s') X Xs'" "Xs' \<noteq> []" "wide (ix_hdr s) (ix_pages s') Xs'" "last Xs' = [root_page (ix_hdr s')]" "distinct (concat Xs')"
    "x \<in> set (concat Xs') \<Longrightarrow> x \<in> set (concat Xs) \<or> ix_next_page s \<le> x \<and> x < ix_next_page s'"
  using assms by (auto simp: topped_def)

text \<open>From the levels above the split parent to those above its children.\<close>

lemma topped_step:
  assumes l: "link (ix_pages t) X M'" and d: "distinct (X @ concat (M # Ms))" and M: "M = ms1 @ m # ms2" "M' = ms1 @ m # ix_next_page s # ms2"
    and rng: "\<And>x. x \<in> set (X @ concat (M # Ms)) \<Longrightarrow> x < ix_next_page s" and t: "ix_next_page t = ix_next_page s + 1" "btree_order (ix_hdr t) = btree_order (ix_hdr s)"
    and w: "wide (ix_hdr s) (ix_pages s) (M # Ms)" and single: "Ms = [] \<Longrightarrow> ms1 @ ms2 = []"
    and half: "length (ents (ix_pages t) m) = get_min_size (ix_hdr s)" "3 \<le> btree_order (ix_hdr s)"
      "get_min_size (ix_hdr s) \<le> length (ents (ix_pages t) (ix_next_page s))" "length (ents (ix_pages t) (ix_next_page s)) \<le> btree_order (ix_hdr s)"
    and same: "\<And>x. x \<in> set (ms1 @ ms2) \<Longrightarrow> ents (ix_pages t) x = ents (ix_pages s) x"
    and up: "topped t M' Ms u Us" "spares t M' Ms u" "grew t u"
    and v: "ix_pages v = ix_pages u" "root_page (ix_hdr v) = root_page (ix_hdr u)" "ix_next_page v = ix_next_page u"
  shows "topped s X (M # Ms) v (M' # Us)"
proof -
  let ?q = "ix_next_page s"
  have qn: "?q \<notin> set X" "?q \<notin> set (concat (M # Ms))" using rng [of ?q] by auto
  have M': "x \<notin> set (concat Ms) \<and> x < ix_next_page t" if "x \<in> set M'" for x
    using that d M qn(2) rng [of x] t(1) by auto
  have X: "x \<notin> set (concat Ms) \<and> x < ix_next_page t \<and> x \<notin> set M'" if "x \<in> set X" for x
  proof -
    have "x \<noteq> ?q" "x \<notin> set M" "x \<notin> set (concat Ms)" using that d qn(1) by auto
    moreover have "x < ix_next_page t" using rng [of x] that t(1) by simp
    ultimately show ?thesis using M by auto
  qed
  have link: "link (ix_pages u) X M'"
  proof (rule link_cong [OF l])
    show "ents (ix_pages u) x = ents (ix_pages t) x \<and> nd_leaf (node u x) = nd_leaf (node t x)" if "x \<in> set M'" for x
      using sparesD(1,3) [OF up(2), of x] M' [OF that] by blast
    show "first_key (ix_pages u) x = first_key (ix_pages t) x \<and> nd_parent (node u x) = nd_parent (node t x)" if "x \<in> set X" for x
      using sparesD(2,6) [OF up(2), of x] X [OF that] by simp
  qed
  have wid: "get_min_size (ix_hdr s) \<le> length (ents (ix_pages u) x) \<and> length (ents (ix_pages u) x) \<le> btree_order (ix_hdr s)" if x: "x \<in> set M'" for x
  proof -
    have e: "ents (ix_pages u) x = ents (ix_pages t) x" using sparesD(1) [OF up(2), of x] M' [OF x] by blast
    consider "x = m" | "x = ?q" | "x \<in> set (ms1 @ ms2)" using x M by auto
    then show ?thesis
    proof cases
      case 1
      then show ?thesis unfolding e using half by (simp add: get_min_size_def get_max_size_def)
    next
      case 2
      then show ?thesis unfolding e using half by simp
    next
      case 3
      then have "Ms \<noteq> []" "x \<in> set M" using single M by auto
      then show ?thesis unfolding e using same [OF 3] w by simp
    qed
  qed
  have h: "wide (ix_hdr s) (ix_pages u) Us"
    using toppedD(3) [OF up(1)] wide_hdr [OF t(2)] by simp
  have dM: "distinct M'" using d M qn(2) by auto
  have sub: "x \<in> set (concat Ms) \<or> ?q < x \<and> x < ix_next_page u" if "x \<in> set (concat Us)" for x
    using toppedD(6) [OF up(1) that] t(1) by auto
  have "x \<notin> set (concat Us)" if "x \<in> set M'" for x
    using sub [of x] M' [OF that] t(1) by auto
  then have dis: "distinct (concat (M' # Us))" using dM toppedD(5) [OF up(1)] by auto
  have "set (concat (M' # Us)) \<subseteq> set (concat (M # Ms)) \<union> {?q..<ix_next_page v}"
  proof
    fix x assume "x \<in> set (concat (M' # Us))"
    then consider "x \<in> set M'" | "x \<in> set (concat Us)" by auto
    then show "x \<in> set (concat (M # Ms)) \<union> {?q..<ix_next_page v}"
    proof cases
      case 1
      then show ?thesis using M grewD(1) [OF up(3)] t(1) v(3) by auto
    next
      case 2
      then show ?thesis using sub [OF 2] v(3) by auto
    qed
  qed
  then show ?thesis
    unfolding topped_def v(1,2) using link toppedD(1,2,4) [OF up(1)] wid h dis v(3) by simp
qed

lemma insert_into_parent_ok:
  assumes "stacked (ix_pages s) (xs @ p # ys) Xs" and "distinct ((xs @ p # q # ys) @ concat Xs)"
    and "\<And>x. x \<in> set ((xs @ p # q # ys) @ concat Xs) \<Longrightarrow> 2 \<le> x \<and> x < ix_next_page s" and "ix_num_pages (ix_hdr s) = ix_next_page s"
    and "Xs \<noteq> [] \<Longrightarrow> last Xs = [root_page (ix_hdr s)]" and "wide (ix_hdr s) (ix_pages s) Xs" and "3 \<le> btree_order (ix_hdr s)"
    and "nd_ents (node s p) \<noteq> []" and "size (ix_pins s) + 2 * length Xs < ix_frames s" and "length Xs < n"
  shows "\<exists>s' Xs'. insert_into_parent n p (first_key (ix_pages s) q) q s = Inr s' \<and> grew s s' \<and> topped s (xs @ [p, q] @ ys) Xs s' Xs'
    \<and> spares s (xs @ [p, q] @ ys) Xs s'"
  using assms
proof (induction Xs arbitrary: s xs p q ys n)
  case Nil
  obtain n' where n: "n = Suc n'" using Nil.prems(10) by (cases n) auto
  have x: "xs = []" "ys = []" "nd_parent (node s p) = IX_NO_PAGE" using Nil.prems(1) by (auto simp: append_eq_Cons_conv)
  have "p \<noteq> q" "p < ix_next_page s" "q < ix_next_page s" using Nil.prems(2) Nil.prems(3) [of p] Nil.prems(3) [of q] by auto
  moreover have "size (ix_pins s) < ix_frames s" using Nil.prems(9) by simp
  ultimately obtain s' where "insert_into_parent (Suc n') p (first_key (ix_pages s) q) q s = Inr s'" "grew s s'" "topped s [p, q] [] s' [[ix_next_page s]]"
      "spares s [p, q] [] s'"
    using new_root_ok [OF x(3) _ _ _ Nil.prems(4,7,8), of q n'] by auto
  then show ?case unfolding n x(1,2) by (intro exI conjI) simp_all
next
  case (Cons M Ms)
  note pr = Cons.prems
  obtain n' where n: "n = Suc n'" "length Ms < n'" using pr(10) by (cases n) auto
  have sz: "size (ix_pins s) < ix_frames s" using pr(9) by simp
  obtain m ms1 ms2 k g where m: "nd_parent (node s p) = m" "m \<noteq> IX_NO_PAGE" "fetch_node m s = Inr (s\<lparr>ix_pins := add_mset m (ix_pins s)\<rparr>)"
      "find_child (node s m) p = Inr k" "insert_pairs (ix_hdr s) (k + 1) [(first_key (ix_pages s) q, child_rid q)] (node s m) = Inr (g m)"
      "upd_node q (\<lambda>n. n\<lparr>nd_parent := m\<rparr>) (upd_node m (\<lambda>_. g m) (s\<lparr>ix_pins := add_mset m (ix_pins s)\<rparr>)) = s\<lparr>ix_pins := add_mset m (ix_pins s), ix_pages := g\<rparr>"
      and M: "M = ms1 @ m # ms2" and g: "link g (xs @ [p, q] @ ys) M" "stacked g M Ms" "length (nd_ents (g m)) = Suc (length (nd_ents (node s m)))"
      "\<And>x. x \<noteq> m \<Longrightarrow> x \<noteq> q \<Longrightarrow> g x = node s x" "(g q)\<lparr>nd_parent := 0\<rparr> = (node s q)\<lparr>nd_parent := 0\<rparr>"
    by (rule add_child_ok [OF pr(1-4,6) sz], assumption, rule that; assumption)
  let ?s1 = "s\<lparr>ix_pins := add_mset m (ix_pins s), ix_pages := g\<rparr>" and ?X = "xs @ [p, q] @ ys"
  have run: "insert_into_parent n p (first_key (ix_pages s) q) q s =
      and_then (if get_max_size (ix_hdr s) \<le> length (nd_ents (g m))
                then and_then (split m ?s1) (\<lambda>(q2, s). and_then (key_slot (node s q2) 0) (\<lambda>up_key.
                     and_then (insert_into_parent n' m up_key q2 s) (\<lambda>s. Inr (ix_unpin q2 s)))) else Inr ?s1) (\<lambda>s. Inr (ix_unpin m s))"
    using m by (simp add: n(1) INVALID_PAGE_ID_def IX_NO_PAGE_def Let_def try_node_def get_size_def)
  have len: "length (nd_ents (node s m)) \<le> btree_order (ix_hdr s)" using pr(6) M by (simp add: ents_def)
  have dX: "distinct (?X @ concat (M # Ms))" using pr(2) by simp
  have mM: "m \<in> set M" using M by simp
  show ?case
  proof (cases "length (nd_ents (g m)) \<le> btree_order (ix_hdr s)")
    case True
    have "insert_into_parent n p (first_key (ix_pages s) q) q s = Inr (s\<lparr>ix_pages := g\<rparr>)"
      unfolding run using True by (simp add: get_max_size_def ix_unpin_def)
    moreover have "last (M # Ms) = [root_page (ix_hdr s)]" using pr(5) by simp
    note insert_into_parent_fits [OF pr(1,2,6) this pr(4) g(1,2,4,5) mM g(3) True]
    ultimately show ?thesis by blast
  next
    case False
    let ?q = "ix_next_page s"
    define s1 where "s1 = ?s1"
    have s1: "ix_pages s1 = g" "ix_next_page s1 = ?q" "ix_hdr s1 = ix_hdr s" "ix_pins s1 = add_mset m (ix_pins s)" "ix_frames s1 = ix_frames s"
      by (simp_all add: s1_def)
    have l: "link (ix_pages s1) ?X (ms1 @ m # ms2)" "stacked (ix_pages s1) (ms1 @ m # ms2) Ms" using g(1,2) M s1 by simp_all
    have d1: "distinct (?X @ concat ((ms1 @ m # ms2) # Ms))" using dX M by simp
    have r1: "2 \<le> x \<and> x < ix_next_page s1" if "x \<in> set (?X @ concat ((ms1 @ m # ms2) # Ms))" for x using pr(3) [of x] that M s1 by auto
    have f1: "length (nd_ents (node s1 m)) = btree_order (ix_hdr s1) + 1" using False g(3) len s1 by simp
    have p1: "size (ix_pins s1) + 1 < ix_frames s1" using pr(9) s1 by simp
    have n1: "ix_num_pages (ix_hdr s1) = ix_next_page s1" "3 \<le> btree_order (ix_hdr s1)" using pr(4,7) s1 by simp_all
    obtain g2 where raw: "split m s1 = Inr (ix_next_page s1, (more_pages s1)\<lparr>ix_pins := add_mset (ix_next_page s1) (ix_pins s1), ix_pages := g2\<rparr>)"
        "link g2 ?X (ms1 @ m # ix_next_page s1 # ms2)" and l2: "stacked g2 (ms1 @ m # ms2) Ms"
        and rh: "length (ents g2 m) = get_min_size (ix_hdr s1)" "get_min_size (ix_hdr s1) \<le> length (ents g2 (ix_next_page s1))"
          "length (ents g2 (ix_next_page s1)) \<le> btree_order (ix_hdr s1)"
        and ro: "\<And>x. x \<noteq> m \<Longrightarrow> x \<noteq> ix_next_page s1 \<Longrightarrow> (g2 x)\<lparr>nd_parent := 0\<rparr> = (node s1 x)\<lparr>nd_parent := 0\<rparr>"
          "\<And>x. x \<noteq> m \<Longrightarrow> x \<noteq> ix_next_page s1 \<Longrightarrow> x \<notin> set ?X \<Longrightarrow> g2 x = node s1 x"
      by (rule inner_split_ok [OF l d1 r1 n1(1) f1 n1(2) p1], assumption, rule that; assumption)
    note sp = raw(1) [unfolded s1] and l3 = raw(2) [unfolded s1] and h2 = rh [unfolded s1] and o2 = ro [unfolded s1]
    define t where "t = (more_pages s1)\<lparr>ix_pins := add_mset ?q (add_mset m (ix_pins s)), ix_pages := g2\<rparr>"
    have t: "ix_pages t = g2" "ix_next_page t = ?q + 1" "ix_num_pages (ix_hdr t) = ?q + 1" "btree_order (ix_hdr t) = btree_order (ix_hdr s)"
        "ix_pins t = add_mset ?q (add_mset m (ix_pins s))" "ix_frames t = ix_frames s" "root_page (ix_hdr t) = root_page (ix_hdr s)"
      using pr(4) s1 by (simp_all add: t_def more_pages_def)
    have qn: "?q \<notin> set ?X" "?q \<notin> set (concat (M # Ms))" using pr(3) [of ?q] by auto
    have wm: "wide (ix_hdr t) g2 Ms"
    proof -
      have "wide (ix_hdr t) (ix_pages s) Ms" using pr(6) wide_hdr [OF t(4)] by simp
      then show ?thesis
      proof (rule wide_cong)
        fix x assume x: "x \<in> set (concat Ms)"
        have n: "x \<noteq> m" "x \<noteq> ?q" "x \<notin> set ?X" "x \<noteq> q" using x dX M qn by auto
        show "length (ents g2 x) = length (ents (ix_pages s) x)" using o2(2) [OF n(1-3)] g(4) [OF n(1,4)] by (simp add: ents_def)
      qed
    qed
    have "\<exists>s' Xs'. insert_into_parent n' m (first_key (ix_pages t) ?q) ?q t = Inr s' \<and> grew t s' \<and> topped t (ms1 @ [m, ?q] @ ms2) Ms s' Xs'
        \<and> spares t (ms1 @ [m, ?q] @ ms2) Ms s'"
    proof (rule Cons.IH)
      show "stacked (ix_pages t) (ms1 @ m # ms2) Ms" using l2 t(1) by simp
      show "distinct ((ms1 @ m # ?q # ms2) @ concat Ms)" using dX M qn(2) by auto
      show "2 \<le> x \<and> x < ix_next_page t" if "x \<in> set ((ms1 @ m # ?q # ms2) @ concat Ms)" for x
      proof (cases "x = ?q")
        case True
        then show ?thesis using pr(3) [of p] t(2) by simp
      next
        case False
        then have "x \<in> set ((xs @ p # q # ys) @ concat (M # Ms))" using that M by auto
        then show ?thesis using pr(3) [of x] t(2) by linarith
      qed
      show "nd_ents (node t m) \<noteq> []" using h2(1) pr(7) t(1) by (auto simp: ents_def get_min_size_def get_max_size_def)
      show "last Ms = [root_page (ix_hdr t)]" if "Ms \<noteq> []" using pr(5) that t(7) by simp
    qed (use t wm pr(7,9) n(2) in simp_all)
    then obtain u Us where u: "insert_into_parent n' m (first_key g2 ?q) ?q t = Inr u" "grew t u" "topped t (ms1 @ [m, ?q] @ ms2) Ms u Us"
        "spares t (ms1 @ [m, ?q] @ ms2) Ms u"
      using t(1) by auto
    let ?v = "u\<lparr>ix_pins := ix_pins s\<rparr>"
    have ks: "key_slot (node t ?q) 0 = Inr (first_key g2 ?q)"
      using h2(2) pr(7) t(1) by (auto simp: key_slot_def get_size_def get_key_def first_key_def ents_def get_min_size_def get_max_size_def hd_conv_nth)
    have "insert_into_parent n p (first_key (ix_pages s) q) q s = Inr ?v"
      unfolding run s1_def [symmetric] sp t_def [symmetric] using s1 f1 ks u(1) grewD(3) [OF u(2)] t(5) by (simp add: get_max_size_def ix_unpin_def)
    moreover have "grew s ?v"
    proof (rule grew_lift)
      show "grew ((more_pages s)\<lparr>ix_pins := ix_pins t, ix_pages := g2\<rparr>) u"
        using u(2) t(5) unfolding t_def by (simp add: more_pages_def s1_def)
    qed simp
    moreover have "topped s ?X (M # Ms) ?v ((ms1 @ m # ?q # ms2) # Us)"
    proof (rule topped_step [where t = t and u = u])
      show "link (ix_pages t) ?X (ms1 @ m # ?q # ms2)" using l3 t(1) by simp
      show "x < ix_next_page s" if "x \<in> set (?X @ concat (M # Ms))" for x using pr(3) [of x] that by auto
      show "ms1 @ ms2 = []" if "Ms = []" using that g(2) M by (auto simp: append_eq_Cons_conv)
      show "ents (ix_pages t) x = ents (ix_pages s) x" if x: "x \<in> set (ms1 @ ms2)" for x
      proof -
        have n: "x \<noteq> m" "x \<noteq> ?q" "x \<notin> set ?X" "x \<noteq> q" using x dX M qn by auto
        show ?thesis using o2(2) [OF n(1-3)] g(4) [OF n(1,4)] t(1) by (simp add: ents_def)
      qed
    qed (use dX M t h2 pr(6,7) u in \<open>simp_all\<close>)
    moreover have "spares s ?X (M # Ms) ?v"
    proof (rule sparesI)
      fix x assume x: "x \<notin> set (concat (M # Ms))" "x < ix_next_page s"
      have n: "x \<noteq> m" "x \<noteq> ?q" using x M by auto
      have ux: "node u x = g2 x"
        using sparesD(6) [OF u(4), of x] x M n t(1,2) by auto
      have gx: "(g x)\<lparr>nd_parent := 0\<rparr> = (node s x)\<lparr>nd_parent := 0\<rparr>" using g(4) [OF n(1)] g(5) by (cases "x = q") simp_all
      show "(node ?v x)\<lparr>nd_parent := 0\<rparr> = (node s x)\<lparr>nd_parent := 0\<rparr>" using ux o2(1) [OF n] gx by simp
      show "node ?v x = node s x" if "x \<notin> set ?X"
        using ux o2(2) [OF n that] g(4) [OF n(1)] that by simp
    qed
    ultimately show ?thesis by blast
  qed
qed

section \<open>Leaves\<close>

text \<open>The ring of leaves: \<^verbatim>\<open>next_leaf\<close> and \<^verbatim>\<open>prev_leaf\<close> link the leaves from left to right, through the header page at both ends.\<close>

fun ring :: "(int \<Rightarrow> int) \<Rightarrow> (int \<Rightarrow> int) \<Rightarrow> int list \<Rightarrow> bool" where
  "ring nx pv (a # b # xs) \<longleftrightarrow> nx a = b \<and> pv b = a \<and> ring nx pv (b # xs)"
| "ring nx pv _ \<longleftrightarrow> True"

lemma ring_append: "ring nx pv (xs @ a # ys) \<longleftrightarrow> ring nx pv (xs @ [a]) \<and> ring nx pv (a # ys)"
  by (induction nx pv xs rule: ring.induct) (cases ys, auto)+

lemma ring_cong:
  assumes "\<And>x. x \<in> set (butlast xs) \<Longrightarrow> nx' x = nx x" and "\<And>x. x \<in> set (tl xs) \<Longrightarrow> pv' x = pv x"
  shows "ring nx' pv' xs = ring nx pv xs"
  using assms by (induction nx pv xs rule: ring.induct) auto

definition leaf_ring :: "(int \<Rightarrow> ix_node) \<Rightarrow> int list \<Rightarrow> bool" where
  "leaf_ring g L \<longleftrightarrow> ring (\<lambda>x. nd_next (g x)) (\<lambda>x. nd_prev (g x)) (IX_LEAF_HEADER_PAGE # L @ [IX_LEAF_HEADER_PAGE])"

lemma leaf_ring_cong:
  assumes "\<And>x. x \<in> insert IX_LEAF_HEADER_PAGE (set L) \<Longrightarrow> nd_next (g' x) = nd_next (g x) \<and> nd_prev (g' x) = nd_prev (g x)"
  shows "leaf_ring g' L = leaf_ring g L"
  unfolding leaf_ring_def by (rule ring_cong) (use assms in \<open>auto simp: butlast_append\<close>)

lemma leaf_ring_next:
  assumes "leaf_ring g (xs @ p # ys)"
  shows "nd_next (g p) = hd (ys @ [IX_LEAF_HEADER_PAGE])"
  using assms ring_append [of _ _ "IX_LEAF_HEADER_PAGE # xs" p "ys @ [IX_LEAF_HEADER_PAGE]"] unfolding leaf_ring_def
  by (cases ys) auto

text \<open>A new leaf between a leaf and the next one.\<close>

lemma leaf_ring_insert:
  assumes r: "leaf_ring g (xs @ p # ys)" and d: "distinct (IX_LEAF_HEADER_PAGE # xs @ p # q # ys)" and z: "z = nd_next (g p)"
    and n: "nd_next (g' p) = q" "nd_next (g' q) = z" "nd_prev (g' q) = p" "nd_prev (g' z) = q"
    and same: "\<And>x. x \<noteq> p \<Longrightarrow> x \<noteq> q \<Longrightarrow> nd_next (g' x) = nd_next (g x)" "\<And>x. x \<noteq> z \<Longrightarrow> x \<noteq> q \<Longrightarrow> nd_prev (g' x) = nd_prev (g x)"
  shows "leaf_ring g' (xs @ p # q # ys)"
proof -
  let ?H = IX_LEAF_HEADER_PAGE
  let ?nx = "\<lambda>x. nd_next (g x)" and ?pv = "\<lambda>x. nd_prev (g x)" and ?nx' = "\<lambda>x. nd_next (g' x)" and ?pv' = "\<lambda>x. nd_prev (g' x)"
  obtain zs where zs: "ys @ [?H] = z # zs" using leaf_ring_next [OF r] z by (cases ys) auto
  have a: "ring ?nx ?pv (?H # xs @ [p])" and b: "ring ?nx ?pv (p # z # zs)"
    using r ring_append [of ?nx ?pv "?H # xs" p "z # zs"] unfolding leaf_ring_def by (simp_all add: zs)
  have o_ne: "z \<noteq> q" "z \<notin> set (xs @ [p])" using zs d by (cases ys; auto)+
  have nx: "nd_next (g' x) = nd_next (g x)" if "x \<in> set (?H # xs @ ys)" for x
  proof (rule same(1))
    show "x \<noteq> p" "x \<noteq> q" using that d by auto
  qed
  have pv: "nd_prev (g' x) = nd_prev (g x)" if "x \<in> set (xs @ [p]) \<union> set zs" for x
  proof (rule same(2))
    have "z \<notin> set zs" "q \<notin> set zs" using zs d by (cases ys; auto)+
    then show "x \<noteq> z" "x \<noteq> q" using that o_ne d by auto
  qed
  have "ring ?nx' ?pv' (?H # xs @ [p]) = ring ?nx ?pv (?H # xs @ [p])"
    by (rule ring_cong; rule nx pv) (auto simp: butlast_append split: if_splits)
  with a have "ring ?nx' ?pv' (?H # xs @ [p])" by simp
  moreover have "ring ?nx' ?pv' (z # zs)"
  proof -
    have y: "butlast (z # zs) = ys" using zs by (metis butlast_snoc)
    have "ring ?nx' ?pv' (z # zs) = ring ?nx ?pv (z # zs)"
      by (rule ring_cong; rule nx pv) (use y in auto)
    then show ?thesis using b by simp
  qed
  ultimately have "ring ?nx' ?pv' ((?H # xs) @ p # q # z # zs)"
    using n ring_append [of ?nx' ?pv' "?H # xs" p "q # z # zs"] by simp
  then show ?thesis unfolding leaf_ring_def by (simp add: zs)
qed

lemma split_leaf_ok:
  assumes "nd_leaf (node s p)" and "size (ix_pins s) + 1 < ix_frames s" and "length (nd_ents (node s p)) \<le> btree_order (ix_hdr s) + 1"
    and "p < ix_next_page s" and "ix_num_pages (ix_hdr s) = ix_next_page s" and "z = nd_next (node s p)" and "0 \<le> z" and "z < ix_next_page s" and "z \<noteq> p"
  defines "q \<equiv> ix_next_page s" and "h \<equiv> halved p (ix_next_page s) (ix_pages s)"
  shows "split p s = Inr (q, (more_pages s)\<lparr>ix_pins := add_mset q (ix_pins s),
      ix_pages := h(q := (h q)\<lparr>nd_next := z, nd_prev := p\<rparr>, p := (h p)\<lparr>nd_next := q\<rparr>, z := (h z)\<lparr>nd_prev := q\<rparr>),
      ix_hdr := (ix_hdr s)\<lparr>ix_num_pages := q + 1, last_leaf := if p = last_leaf (ix_hdr s) then q else last_leaf (ix_hdr s)\<rparr>\<rparr>)"
proof -
  let ?s = "(more_pages s)\<lparr>ix_pins := add_mset q (ix_pins s), ix_pages := h\<rparr>"
  have ne: "p \<noteq> q" "z \<noteq> q" using assms(4,8) by (auto simp: q_def)
  have hp: "nd_leaf (h p)" "nd_next (h p) = z" using assms(1,6) ne by (simp_all add: h_def q_def halved_def)
  let ?s3 = "?s\<lparr>ix_pages := h(q := (h q)\<lparr>nd_next := z, nd_prev := p\<rparr>, p := (h p)\<lparr>nd_next := q\<rparr>)\<rparr>"
  have "fetch_node z ?s3 = Inr (?s3\<lparr>ix_pins := add_mset z (add_mset q (ix_pins s))\<rparr>)"
    using fetch_ok [of z ?s3] assms(2,5,7,8) by (simp add: more_pages_def)
  then have "split_links p q ?s = Inr ((more_pages s)\<lparr>ix_pins := add_mset q (ix_pins s),
      ix_pages := h(q := (h q)\<lparr>nd_next := z, nd_prev := p\<rparr>, p := (h p)\<lparr>nd_next := q\<rparr>, z := (h z)\<lparr>nd_prev := q\<rparr>),
      ix_hdr := (ix_hdr s)\<lparr>ix_num_pages := q + 1, last_leaf := if p = last_leaf (ix_hdr s) then q else last_leaf (ix_hdr s)\<rparr>\<rparr>)"
    using hp ne assms(5,7,9) by (simp add: split_links_def Let_def upd_node_def ix_unpin_def more_pages_def set_ix_hdr_def IX_NO_PAGE_def q_def)
  moreover have "split p s = and_then (split_links p q ?s) (\<lambda>s. Inr (q, s))"
    using split_start [of s p] assms(2-4) hp by (simp add: Let_def h_def q_def)
  ultimately show ?thesis by simp
qed

end
