(* ===== verification/Index_Entry.thy ===== *)
theory Index_Entry
  imports Index_Insert
begin

text \<open>
  The invariant of an open index and the insertion of an entry: the leaf is found from the root or taken from the cache of the last
  insertion, the separators above it are repaired, and a full leaf is split. The list of all entries in the leaves is the contents of the index.
\<close>

section \<open>The invariant\<close>

definition entries :: "ixh \<Rightarrow> int list \<Rightarrow> (bytes \<times> Rid) list" where
  "entries s L = concat (map (ents (ix_pages s)) L)"

definition tree_core :: "ixh \<Rightarrow> int list \<Rightarrow> int list list \<Rightarrow> bool" where
  "tree_core s L Ls \<longleftrightarrow> shaped s L Ls \<and> wide (ix_hdr s) (ix_pages s) Ls \<and> 3 \<le> btree_order (ix_hdr s) \<and> keys_ok (ix_hdr s) (entries s L)
     \<and> (\<forall>p \<in> set L. nd_leaf (node s p)) \<and> leaf_ring (ix_pages s) L \<and> last_leaf (ix_hdr s) = last L \<and> first_leaf (ix_hdr s) = hd L"

definition leaf_size_ok :: "IxFileHdr \<Rightarrow> int list list \<Rightarrow> nat \<Rightarrow> bool" where
  "leaf_size_ok h Ls n \<longleftrightarrow> (if Ls = [] then 0 else get_min_size h) \<le> n \<and> n \<le> btree_order h"

definition tree :: "ixh \<Rightarrow> int list \<Rightarrow> int list list \<Rightarrow> bool" where
  "tree s L Ls \<longleftrightarrow> tree_core s L Ls \<and> (\<forall>p \<in> set L. leaf_size_ok (ix_hdr s) Ls (length (nd_ents (node s p))))"

text \<open>The cached leaf and the pin an insertion keeps; \<open>B\<close> are the pins of others.\<close>

definition caches :: "int multiset \<Rightarrow> ixh \<Rightarrow> int list \<Rightarrow> bool" where
  "caches B s L \<longleftrightarrow> (cached_leaf_no s = IX_NO_PAGE \<or> cached_leaf_no s \<in> set L)
     \<and> (case pinned_leaf_page s of None \<Rightarrow> ix_pins s = B | Some p \<Rightarrow> p \<in> set L \<and> pinned_leaf_no s = p \<and> ix_pins s = add_mset p B)"

lemma tree_coreD:
  assumes "tree_core s L Ls"
  shows "shaped s L Ls" "wide (ix_hdr s) (ix_pages s) Ls" "3 \<le> btree_order (ix_hdr s)" "keys_ok (ix_hdr s) (entries s L)"
    "p \<in> set L \<Longrightarrow> nd_leaf (node s p)" "leaf_ring (ix_pages s) L" "last_leaf (ix_hdr s) = last L" "first_leaf (ix_hdr s) = hd L"
  using assms by (auto simp: tree_core_def)

lemma treeD:
  assumes "tree s L Ls"
  shows "shaped s L Ls" "wide (ix_hdr s) (ix_pages s) Ls" "3 \<le> btree_order (ix_hdr s)" "keys_ok (ix_hdr s) (entries s L)"
    "p \<in> set L \<Longrightarrow> nd_leaf (node s p)" "p \<in> set L \<Longrightarrow> Ls \<noteq> [] \<Longrightarrow> get_min_size (ix_hdr s) \<le> length (nd_ents (node s p))"
    "p \<in> set L \<Longrightarrow> length (nd_ents (node s p)) \<le> btree_order (ix_hdr s)"
    "leaf_ring (ix_pages s) L" "last_leaf (ix_hdr s) = last L" "first_leaf (ix_hdr s) = hd L"
  using assms by (auto simp: tree_def tree_core_def leaf_size_ok_def)

lemma min_size_pos: "3 \<le> btree_order h \<Longrightarrow> 2 \<le> get_min_size h"
  by (simp add: get_min_size_def get_max_size_def)

lemma tree_filled: "tree s L Ls \<Longrightarrow> filled (ix_pages s) L Ls"
  using treeD(6) [of s L Ls] min_size_pos [OF treeD(3)] unfolding filled_def ents_def by fastforce

lemma tree_searchable: "tree s L Ls \<Longrightarrow> searchable s L Ls"
  using treeD [of s L Ls] tree_filled by (simp add: searchable_def entries_def)

lemma tree_nonempty: "tree s L Ls \<Longrightarrow> L \<noteq> []"
  using stacked_nonempty [OF shapedD(1) [OF treeD(1)] treeD(2,3)] by blast

text \<open>Headers of the same file.\<close>

definition same_keys :: "IxFileHdr \<Rightarrow> IxFileHdr \<Rightarrow> bool" where
  "same_keys h h' \<longleftrightarrow> col_types h' = col_types h \<and> col_lens h' = col_lens h \<and> ix_tot_key h' = ix_tot_key h \<and> btree_order h' = btree_order h"

lemma same_keysD:
  assumes "same_keys h h'"
  shows "key_ok h' = key_ok h" "key_val h' = key_val h" "keys_ok h' = keys_ok h" "btree_order h' = btree_order h" "wide h' = wide h"
    "get_min_size h' = get_min_size h" "ent_insert h' = ent_insert h" "ent_delete h' = ent_delete h" "ent_find h' = ent_find h" "ent_map h' = ent_map h"
proof -
  have s: "key_ok h' = key_ok h" "key_val h' = key_val h" "btree_order h' = btree_order h"
    using assms by (simp_all add: same_keys_def fun_eq_iff key_ok_def key_val_def)
  show "key_ok h' = key_ok h" "key_val h' = key_val h" "btree_order h' = btree_order h" by (fact s)+
  show "keys_ok h' = keys_ok h" "ent_insert h' = ent_insert h" "ent_delete h' = ent_delete h" "ent_find h' = ent_find h" "ent_map h' = ent_map h"
    by (simp_all add: fun_eq_iff keys_ok_def vals_def ent_insert_def ent_delete_def ent_find_def ent_map_def s)
  show "wide h' = wide h" using wide_hdr [OF s(3)] by (simp add: fun_eq_iff)
  show "get_min_size h' = get_min_size h" by (simp add: get_min_size_def get_max_size_def s)
qed

lemma same_keys_refl [simp]: "same_keys h h"
  by (simp add: same_keys_def)

section \<open>A changed leaf\<close>

lemma rekey_ok:
  assumes t: "tree s L Ls" and L: "L = xs @ p # ys" and ne: "es \<noteq> []" and sz: "size P < ix_frames s"
  obtains g where "maintain_parent (ix_fuel s) p (s\<lparr>ix_pins := P, ix_pages := (ix_pages s)(p := (node s p)\<lparr>nd_ents := es\<rparr>)\<rparr>)
      = Inr (s\<lparr>ix_pins := P, ix_pages := g\<rparr>)"
    "stacked g L Ls" "rekeyed ((ix_pages s)(p := (node s p)\<lparr>nd_ents := es\<rparr>)) g (set (concat Ls))"
proof -
  note sd = shapedD [OF treeD(1) [OF t]]
  let ?s = "s\<lparr>ix_pins := P, ix_pages := (ix_pages s)(p := (node s p)\<lparr>nd_ents := es\<rparr>)\<rparr>"
  have undo: "(ix_pages ?s)(p := (node ?s p)\<lparr>nd_ents := nd_ents (node s p)\<rparr>) = ix_pages s" by auto
  have "\<exists>g. maintain_parent (ix_fuel s) p ?s = Inr (?s\<lparr>ix_pages := g\<rparr>) \<and> stacked g (xs @ p # ys) Ls \<and> rekeyed (ix_pages ?s) g (set (concat Ls))"
  proof (rule maintain_parent_ok)
    show "stacked ((ix_pages ?s)(p := (node ?s p)\<lparr>nd_ents := nd_ents (node s p)\<rparr>)) (xs @ p # ys) Ls" unfolding undo L [symmetric] by (rule sd(1))
    show "distinct ((xs @ p # ys) @ concat Ls)" unfolding L [symmetric] by (rule sd(2))
    show "2 \<le> x \<and> x < ix_num_pages (ix_hdr ?s)" if "x \<in> set ((xs @ p # ys) @ concat Ls)" for x
      using treeD(1) [OF t] that by (auto simp: shaped_def L)
    show "length Ls < ix_fuel s" using shaped_depth [OF treeD(1-3) [OF t]] by simp
  qed (use ne sz in simp_all)
  then show ?thesis using that unfolding L by auto
qed

text \<open>The same leaf pages after the separators have changed.\<close>

lemma rekeyed_leaves:
  assumes r: "rekeyed ((ix_pages s)(p := (node s p)\<lparr>nd_ents := es\<rparr>)) g (set (concat Ls))" and d: "distinct (L @ concat Ls)" and L: "L = xs @ p # ys"
  shows "g p = (node s p)\<lparr>nd_ents := es\<rparr>" "x \<in> set L \<Longrightarrow> x \<noteq> p \<Longrightarrow> g x = node s x" "nd_leaf (g x) = nd_leaf (node s x)"
    "nd_prev (g x) = nd_prev (node s x)" "nd_next (g x) = nd_next (node s x)" "nd_parent (g x) = nd_parent (node s x)"
    "x \<noteq> p \<Longrightarrow> length (ents g x) = length (ents (ix_pages s) x)"
    "concat (map (ents g) L) = concat (map (ents (ix_pages s)) xs) @ es @ concat (map (ents (ix_pages s)) ys)"
proof -
  have o: "x \<notin> set (concat Ls)" if "x \<in> set L" for x using d that by auto
  show gp: "g p = (node s p)\<lparr>nd_ents := es\<rparr>" using rekeyedD(1) [OF r o, of p] L by simp
  show gx: "x \<in> set L \<Longrightarrow> x \<noteq> p \<Longrightarrow> g x = node s x" for x using rekeyedD(1) [OF r o, of x] by simp
  show "nd_leaf (g x) = nd_leaf (node s x)" "nd_prev (g x) = nd_prev (node s x)" "nd_next (g x) = nd_next (node s x)"
      "nd_parent (g x) = nd_parent (node s x)" "x \<noteq> p \<Longrightarrow> length (ents g x) = length (ents (ix_pages s) x)"
    using rekeyedD(2-6) [OF r, of x] by (auto split: if_splits)
  have c: "concat (map (ents g) zs) = concat (map (ents (ix_pages s)) zs)" if z: "\<And>x. x \<in> set zs \<Longrightarrow> x \<in> set L \<and> x \<noteq> p" for zs
  proof (rule ents_cong)
    show "ents g x = ents (ix_pages s) x" if "x \<in> set zs" for x using gx [of x] z [OF that] by (simp add: ents_def)
  qed
  have "concat (map (ents g) xs) = concat (map (ents (ix_pages s)) xs)" "concat (map (ents g) ys) = concat (map (ents (ix_pages s)) ys)"
    by (rule c, use d L in auto)+
  then show "concat (map (ents g) L) = concat (map (ents (ix_pages s)) xs) @ es @ concat (map (ents (ix_pages s)) ys)"
    using L gp by (simp add: ents_def)
qed

section \<open>Insertion\<close>

lemma caches_pins:
  assumes "caches B s L"
  shows "size (ix_pins s) \<le> size B + 1" "pinned_leaf_page s = Some p \<Longrightarrow> p \<in> set L \<and> pinned_leaf_no s = p \<and> ix_pins s = add_mset p B"
    "cached_leaf_no s = IX_NO_PAGE \<or> cached_leaf_no s \<in> set L"
  using assms by (auto simp: caches_def split: option.splits)

text \<open>The leaf of the fast path is the one a search from the root finds.\<close>

lemma leaf_takes_split:
  assumes t: "tree s L Ls" and k: "key_ok (ix_hdr s) key" and tk: "leaf_takes key (last L) s'" and s': "ix_pages s' = ix_pages s" "ix_hdr s' = ix_hdr s"
  shows "\<forall>e \<in> set (concat (map (ents (ix_pages s)) (butlast L))). key_val (ix_hdr s) (fst e) < key_val (ix_hdr s) key"
proof -
  let ?p = "last L" and ?h = "ix_hdr s"
  have L: "L = butlast L @ [?p]" using tree_nonempty [OF t] by simp
  have ne: "nd_ents (node s ?p) \<noteq> []" using tk s' by (auto simp: leaf_takes_def get_size_def)
  have ko: "keys_ok ?h (ents (ix_pages s) ?p)"
    using keys_ok_node [of ?h "ix_pages s" "butlast L" ?p "[]"] treeD(4) [OF t] L by (simp add: entries_def)
  have k0: "get_key (node s ?p) 0 = first_key (ix_pages s) ?p" using ne by (simp add: get_key_def first_key_def ents_def hd_conv_nth)
  have "key_ok ?h (first_key (ix_pages s) ?p)" using keys_okD [OF ko, of 0] ne by (simp add: first_key_def ents_def hd_conv_nth)
  then have "key_val ?h (first_key (ix_pages s) ?p) \<le> key_val ?h key"
    using tk s' k0 ix_compare_val(4) [OF k] by (simp add: leaf_takes_def)
  then have at: "located ?h (ix_pages s) key L (butlast L) ?p []" using L by (simp add: located_def)
  show ?thesis
    by (rule located_split(1) [OF at _ tree_filled [OF t] stacked_single [OF shapedD(1) [OF treeD(1) [OF t]]]])
      (use treeD(4) [OF t] in \<open>simp add: entries_def\<close>)
qed

lemma cached_leaf_ok:
  assumes t: "tree s L Ls" and c: "caches B s L" and sz: "size (ix_pins s) < ix_frames s"
  obtains (miss) "cached_leaf key s = Inr (None, s)"
    | (hit) owned where "cached_leaf key s = Inr (Some (last L, owned), s\<lparr>ix_pins := if owned then ix_pins s else add_mset (last L) (ix_pins s)\<rparr>)"
      "owned \<Longrightarrow> pinned_leaf_page s = Some (last L)"
      "leaf_takes key (last L) (s\<lparr>ix_pins := if owned then ix_pins s else add_mset (last L) (ix_pins s)\<rparr>)"
proof (cases "cached_leaf_no s \<noteq> IX_NO_PAGE \<and> cached_leaf_no s = last_leaf (ix_hdr s)")
  case False
  then show ?thesis using miss by (auto simp: cached_leaf_def)
next
  case True
  let ?c = "last L"
  have cc: "cached_leaf_no s = ?c" "last_leaf (ix_hdr s) = ?c" "?c \<noteq> IX_NO_PAGE" using True treeD(9) [OF t] by simp_all
  have "?c \<in> set L" using tree_nonempty [OF t] by simp
  then have "2 \<le> ?c" "?c < ix_num_pages (ix_hdr s)" using shapedD(3,5,6) [OF treeD(1) [OF t]] by simp_all
  then have f: "fetch_node ?c s = Inr (s\<lparr>ix_pins := add_mset ?c (ix_pins s)\<rparr>)" by (intro fetch_ok) (use sz in simp_all)
  show ?thesis
  proof (cases "\<exists>p. pinned_leaf_page s = Some p \<and> pinned_leaf_no s = ?c")
    case True
    then have p: "pinned_leaf_page s = Some ?c" "pinned_leaf_no s = ?c" using caches_pins(2) [OF c] by auto
    show ?thesis
    proof (cases "leaf_takes key ?c s")
      case True
      then show ?thesis using hit [of True] p cc by (simp add: cached_leaf_def)
    next
      case False
      then show ?thesis using miss p cc by (simp add: cached_leaf_def)
    qed
  next
    case False
    let ?s = "s\<lparr>ix_pins := add_mset ?c (ix_pins s)\<rparr>"
    have run: "cached_leaf key s = Inr (if leaf_takes key ?c ?s then (Some (?c, False), ?s) else (None, ix_unpin ?c ?s))"
      using False cc f by (auto simp: cached_leaf_def Let_def split: option.split)
    show ?thesis
    proof (cases "leaf_takes key ?c ?s")
      case True
      then show ?thesis using hit [of False] run by simp
    next
      case False
      then show ?thesis using miss run by (simp add: ix_unpin_def)
    qed
  qed
qed

lemma target_leaf_ok:
  assumes t: "tree s L Ls" and c: "caches B s L" and k: "key_ok (ix_hdr s) key" and sz: "size B + 1 < ix_frames s"
  obtains xs p ys owned where "L = xs @ p # ys" "owned \<Longrightarrow> pinned_leaf_page s = Some p"
    "target_leaf key s = Inr ((p, owned), s\<lparr>ix_pins := if owned then ix_pins s else add_mset p (ix_pins s)\<rparr>)"
    "\<forall>e \<in> set (concat (map (ents (ix_pages s)) xs)). key_val (ix_hdr s) (fst e) < key_val (ix_hdr s) key"
    "\<forall>e \<in> set (concat (map (ents (ix_pages s)) ys)). key_val (ix_hdr s) key < key_val (ix_hdr s) (fst e)"
proof -
  have z: "size (ix_pins s) < ix_frames s" using caches_pins(1) [OF c] sz by simp
  show ?thesis
  proof (cases rule: cached_leaf_ok [OF t c z, where key = key, case_names miss hit])
    case miss
    obtain xs p ys where p: "L = xs @ p # ys" "find_leaf_page key False s = Inr (p, s\<lparr>ix_pins := add_mset p (ix_pins s)\<rparr>)"
        "\<forall>e \<in> set (concat (map (ents (ix_pages s)) xs)). key_val (ix_hdr s) (fst e) < key_val (ix_hdr s) key"
        "\<forall>e \<in> set (concat (map (ents (ix_pages s)) ys)). key_val (ix_hdr s) key < key_val (ix_hdr s) (fst e)"
      by (rule search_ok [OF tree_searchable [OF t] k z])
    show ?thesis by (rule that [of xs p ys False]) (use p miss in \<open>simp_all add: target_leaf_def\<close>)
  next
    case (hit owned)
    have L: "L = butlast L @ last L # []" using tree_nonempty [OF t] by simp
    have "\<forall>e \<in> set (concat (map (ents (ix_pages s)) (butlast L))). key_val (ix_hdr s) (fst e) < key_val (ix_hdr s) key"
      by (rule leaf_takes_split [OF t k hit(3)]) simp_all
    then show ?thesis using that [of "butlast L" "last L" "[]" owned] L hit(1,2) by (simp add: target_leaf_def)
  qed
qed

lemma tree_core_leaf:
  assumes t: "tree s L Ls" and L: "L = xs @ p # ys" and st: "stacked g L Ls"
    and r: "rekeyed ((ix_pages s)(p := (node s p)\<lparr>nd_ents := es\<rparr>)) g (set (concat Ls))"
    and ko: "keys_ok (ix_hdr s) (concat (map (ents (ix_pages s)) xs) @ es @ concat (map (ents (ix_pages s)) ys))"
  shows "tree_core (s\<lparr>ix_pins := P, ix_pages := g\<rparr>) L Ls"
    "entries (s\<lparr>ix_pins := P, ix_pages := g\<rparr>) L = concat (map (ents (ix_pages s)) xs) @ es @ concat (map (ents (ix_pages s)) ys)"
    "nd_ents (g p) = es" "x \<in> set L \<Longrightarrow> x \<noteq> p \<Longrightarrow> nd_ents (g x) = nd_ents (node s x)"
proof -
  note td = treeD [OF t] and sd = shapedD [OF treeD(1) [OF t]]
  note rl = rekeyed_leaves [OF r sd(2) L]
  show e: "entries (s\<lparr>ix_pins := P, ix_pages := g\<rparr>) L = concat (map (ents (ix_pages s)) xs) @ es @ concat (map (ents (ix_pages s)) ys)"
    using rl(8) by (simp add: entries_def)
  show "nd_ents (g p) = es" "x \<in> set L \<Longrightarrow> x \<noteq> p \<Longrightarrow> nd_ents (g x) = nd_ents (node s x)" using rl(1,2) by simp_all
  have "length (ents g x) = length (ents (ix_pages s) x)" if "x \<in> set (concat Ls)" for x
  proof -
    have "x \<noteq> p" using sd(2) that L by auto
    then show ?thesis by (rule rl(7))
  qed
  then have "wide (ix_hdr s) g Ls" by (rule wide_cong [OF td(2)])
  moreover have "shaped (s\<lparr>ix_pins := P, ix_pages := g\<rparr>) L Ls" using td(1) st by (simp add: shaped_def)
  moreover have "leaf_ring g L" using td(8) leaf_ring_cong [of L g "ix_pages s"] rl(4,5) by simp
  ultimately show "tree_core (s\<lparr>ix_pins := P, ix_pages := g\<rparr>) L Ls"
    using td(3,5,9,10) rl(3) ko e by (simp add: tree_core_def)
qed

lemma stacked_same_first:
  assumes t: "tree s L Ls" and L: "L = xs @ p # ys" and f: "fst (hd es) = first_key (ix_pages s) p"
  shows "stacked ((ix_pages s)(p := (node s p)\<lparr>nd_ents := es\<rparr>)) L Ls"
proof (rule stacked_cong [OF shapedD(1) [OF treeD(1) [OF t]]])
  have "p \<notin> set (concat Ls)" using shapedD(2) [OF treeD(1) [OF t]] L by auto
  then show "ents ((ix_pages s)(p := (node s p)\<lparr>nd_ents := es\<rparr>)) m = ents (ix_pages s) m
      \<and> nd_leaf (((ix_pages s)(p := (node s p)\<lparr>nd_ents := es\<rparr>)) m) = nd_leaf (node s m)
      \<and> nd_parent (((ix_pages s)(p := (node s p)\<lparr>nd_ents := es\<rparr>)) m) = nd_parent (node s m)" if "m \<in> set (concat Ls)" for m
    using that by auto
qed (use f in auto)

text \<open>The end of an insertion into a leaf with room.\<close>

lemma settle_fits_ok:
  assumes c: "caches B s L" and p: "p \<in> set L" and o: "owned \<Longrightarrow> pinned_leaf_page s = Some p" and len: "length (nd_ents (g p)) \<le> btree_order (ix_hdr s)"
  defines "s' \<equiv> s\<lparr>ix_pins := if owned then ix_pins s else add_mset p (ix_pins s), ix_pages := g\<rparr>"
  obtains t where "settle_leaf p owned s' = Inr (p, t)" "caches B t L" "ix_hdr t = ix_hdr s" "ix_pages t = g" "ix_next_page t = ix_next_page s"
    "ix_frames t = ix_frames s"
proof (cases owned)
  case True
  have "settle_leaf p owned s' = Inr (p, s\<lparr>ix_pages := g, cached_leaf_no := p\<rparr>)"
    using True len by (simp add: settle_leaf_def s'_def get_max_size_def get_size_def)
  moreover have "caches B (s\<lparr>ix_pages := g, cached_leaf_no := p\<rparr>) L" using c p by (auto simp: caches_def split: option.splits)
  ultimately show ?thesis using that by simp
next
  case False
  let ?t = "s\<lparr>ix_pages := g, cached_leaf_no := p, ix_pins := add_mset p B, pinned_leaf_no := p, pinned_leaf_page := Some p\<rparr>"
  have "settle_leaf p owned s' = Inr (p, ?t)"
    using False len c by (auto simp: settle_leaf_def s'_def get_max_size_def get_size_def release_pinned_leaf_def ix_unpin_def caches_def split: option.splits)
  moreover have "caches B ?t L" using p by (simp add: caches_def)
  ultimately show ?thesis using that by simp
qed

text \<open>The end of an insertion into a full leaf.\<close>

lemma leaf_split_state:
  assumes c: "tree_core s L Ls" and L: "L = xs @ p # ys" and full: "length (nd_ents (node s p)) = btree_order (ix_hdr s) + 1"
    and pins: "size (ix_pins s) + 1 < ix_frames s"
  defines "q \<equiv> ix_next_page s"
  obtains t where "split p s = Inr (q, t)" "ix_pins t = add_mset q (ix_pins s)" "ix_frames t = ix_frames s" "ix_next_page t = q + 1"
    "ix_num_pages (ix_hdr t) = q + 1" "same_keys (ix_hdr s) (ix_hdr t)" "root_page (ix_hdr t) = root_page (ix_hdr s)"
    "first_leaf (ix_hdr t) = first_leaf (ix_hdr s)" "last_leaf (ix_hdr t) = last (xs @ p # q # ys)"
    "cached_leaf_no t = cached_leaf_no s" "pinned_leaf_no t = pinned_leaf_no s" "pinned_leaf_page t = pinned_leaf_page s"
    "ents (ix_pages t) p = left_half (node s p)" "ents (ix_pages t) q = right_half (node s p)" "\<And>x. x \<noteq> p \<Longrightarrow> x \<noteq> q \<Longrightarrow> ents (ix_pages t) x = ents (ix_pages s) x"
    "\<And>x. x \<noteq> q \<Longrightarrow> nd_leaf (node t x) = nd_leaf (node s x) \<and> nd_parent (node t x) = nd_parent (node s x)" "nd_leaf (node t q)"
    "leaf_ring (ix_pages t) (xs @ p # q # ys)"
proof -
  note cd = tree_coreD [OF c] and sd = shapedD [OF tree_coreD(1) [OF c]]
  let ?H = IX_LEAF_HEADER_PAGE
  define z where "z = nd_next (node s p)"
  define h where "h = halved p q (ix_pages s)"
  define g where "g = h(q := (h q)\<lparr>nd_next := z, nd_prev := p\<rparr>, p := (h p)\<lparr>nd_next := q\<rparr>, z := (h z)\<lparr>nd_prev := q\<rparr>)"
  define t where "t = (more_pages s)\<lparr>ix_pins := add_mset q (ix_pins s), ix_pages := g,
      ix_hdr := (ix_hdr s)\<lparr>ix_num_pages := q + 1, last_leaf := if p = last_leaf (ix_hdr s) then q else last_leaf (ix_hdr s)\<rparr>\<rparr>"
  have pL: "p \<in> set L" using L by simp
  have pr: "2 \<le> p" "p < q" using sd(5,6) [OF pL] by (simp_all add: q_def)
  have z: "z = hd (ys @ [?H])" using leaf_ring_next [of "ix_pages s" xs p ys] cd(6) L by (simp add: z_def)
  have zr: "1 \<le> z" "z < q" "z \<noteq> p"
  proof -
    have "1 \<le> z \<and> z < q \<and> z \<noteq> p"
    proof (cases ys)
      case Nil
      then show ?thesis using z pr by (simp add: IX_LEAF_HEADER_PAGE_def)
    next
      case (Cons y ys')
      then show ?thesis using z sd(2) sd(5,6) [of y] L by (simp add: q_def)
    qed
    then show "1 \<le> z" "z < q" "z \<noteq> p" by simp_all
  qed
  have ne: "p \<noteq> q" "z \<noteq> q" using pr zr by simp_all
  have "split p s = Inr (q, t)"
    unfolding t_def g_def h_def q_def
    by (rule split_leaf_ok) (use cd(5) [OF pL] pins full pr zr sd(3) z_def q_def in simp_all)
  moreover have "ix_pins t = add_mset q (ix_pins s)" "ix_frames t = ix_frames s" "ix_next_page t = q + 1"
      "ix_num_pages (ix_hdr t) = q + 1" "same_keys (ix_hdr s) (ix_hdr t)" "root_page (ix_hdr t) = root_page (ix_hdr s)"
      "first_leaf (ix_hdr t) = first_leaf (ix_hdr s)" "cached_leaf_no t = cached_leaf_no s" "pinned_leaf_no t = pinned_leaf_no s"
      "pinned_leaf_page t = pinned_leaf_page s" "ix_pages t = g"
    by (simp_all add: t_def more_pages_def q_def same_keys_def)
  moreover have "last_leaf (ix_hdr t) = last (xs @ p # q # ys)"
  proof -
    have "p = last L \<longleftrightarrow> ys = []" using sd(2) L by auto
    then show ?thesis using cd(7) L by (auto simp: t_def)
  qed
  moreover have "ents g p = left_half (node s p)" "ents g q = right_half (node s p)" "\<And>x. x \<noteq> p \<Longrightarrow> x \<noteq> q \<Longrightarrow> ents g x = ents (ix_pages s) x"
    using ne zr(3) by (auto simp: g_def h_def halved_def ents_def)
  moreover have "nd_leaf (g x) = nd_leaf (node s x) \<and> nd_parent (g x) = nd_parent (node s x)" if "x \<noteq> q" for x
    using that ne zr(3) by (auto simp: g_def h_def halved_def)
  moreover have "nd_leaf (g q)" using cd(5) [OF pL] ne by (simp add: g_def h_def halved_def)
  moreover have "leaf_ring g (xs @ p # q # ys)"
  proof (rule leaf_ring_insert [OF cd(6) [unfolded L], where z = z])
    have "?H \<notin> set L" "q \<notin> set L" using sd(5,6) by (fastforce simp: IX_LEAF_HEADER_PAGE_def q_def)+
    moreover have "?H \<noteq> q" using pr by (simp add: IX_LEAF_HEADER_PAGE_def)
    ultimately show "distinct (?H # xs @ p # q # ys)" using sd(2) L by auto
  qed (use ne zr(3) in \<open>simp_all add: g_def h_def halved_def z_def blank_node_def\<close>)
  ultimately show ?thesis using that [of t] by simp
qed

lemma leaf_split_ok:
  assumes c: "tree_core s L Ls" and L: "L = xs @ p # ys" and full: "length (nd_ents (node s p)) = btree_order (ix_hdr s) + 1"
    and sizes: "\<And>x. x \<in> set L \<Longrightarrow> x \<noteq> p \<Longrightarrow> leaf_size_ok (ix_hdr s) Ls (length (nd_ents (node s x)))"
    and pins: "size (ix_pins s) + 2 * length Ls + 1 < ix_frames s"
  defines "q \<equiv> ix_next_page s"
  obtains t u Us where "split p s = Inr (q, t)" "key_slot (node t q) 0 = Inr (first_key (ix_pages t) q)"
    "insert_into_parent (ix_fuel t) p (first_key (ix_pages t) q) q t = Inr u" "tree u (xs @ p # q # ys) Us" "entries u (xs @ p # q # ys) = entries s L"
    "same_keys (ix_hdr s) (ix_hdr u)" "ix_pins u = add_mset q (ix_pins s)" "ix_frames u = ix_frames s" "cached_leaf_no u = cached_leaf_no s"
    "pinned_leaf_no u = pinned_leaf_no s" "pinned_leaf_page u = pinned_leaf_page s"
proof -
  note cd = tree_coreD [OF c] and sd = shapedD [OF tree_coreD(1) [OF c]]
  let ?L = "xs @ p # q # ys"
  have pins1: "size (ix_pins s) + 1 < ix_frames s" using pins by simp
  obtain t where t: "split p s = Inr (q, t)" "ix_pins t = add_mset q (ix_pins s)" "ix_frames t = ix_frames s" "ix_next_page t = q + 1"
      "ix_num_pages (ix_hdr t) = q + 1" "same_keys (ix_hdr s) (ix_hdr t)" "root_page (ix_hdr t) = root_page (ix_hdr s)"
      "first_leaf (ix_hdr t) = first_leaf (ix_hdr s)" "last_leaf (ix_hdr t) = last ?L"
      "cached_leaf_no t = cached_leaf_no s" "pinned_leaf_no t = pinned_leaf_no s" "pinned_leaf_page t = pinned_leaf_page s"
      and te: "ents (ix_pages t) p = left_half (node s p)" "ents (ix_pages t) q = right_half (node s p)" "\<And>x. x \<noteq> p \<Longrightarrow> x \<noteq> q \<Longrightarrow> ents (ix_pages t) x = ents (ix_pages s) x"
      and tl: "\<And>x. x \<noteq> q \<Longrightarrow> nd_leaf (node t x) = nd_leaf (node s x) \<and> nd_parent (node t x) = nd_parent (node s x)" "nd_leaf (node t q)"
      and tr: "leaf_ring (ix_pages t) ?L"
    using leaf_split_state [OF c L full pins1, folded q_def] by metis
  note sk = same_keysD [OF t(6)]
  have hs: "length (left_half (node s p)) = get_min_size (ix_hdr s)" "get_min_size (ix_hdr s) \<le> length (right_half (node s p))"
      "length (right_half (node s p)) \<le> btree_order (ix_hdr s)" "2 \<le> get_min_size (ix_hdr s)"
    using full cd(3) by (auto simp: left_half_def right_half_def get_min_size_def get_max_size_def)
  have all: "x < q \<and> 2 \<le> x" if "x \<in> set (L @ concat Ls)" for x using tree_coreD(1) [OF c] that by (auto simp: shaped_def q_def)
  have qn: "q \<notin> set L" "q \<notin> set (concat Ls)" using all [of q] by auto
  have pu: "p \<notin> set (concat Ls)" using sd(2) L by auto
  have st: "stacked (ix_pages t) (xs @ p # ys) Ls"
  proof (rule stacked_cong [OF sd(1) [unfolded L]])
    show "ents (ix_pages t) m = ents (ix_pages s) m \<and> nd_leaf (node t m) = nd_leaf (node s m) \<and> nd_parent (node t m) = nd_parent (node s m)"
      if "m \<in> set (concat Ls)" for m
      using te(3) [of m] tl(1) [of m] that pu qn(2) by metis
    have lf: "left_half (node s p) \<noteq> []" using hs by auto
    have "first_key (ix_pages t) p = first_key (ix_pages s) p"
      unfolding first_key_def te(1) using halves [of "node s p"] lf by (simp add: ents_def)
    moreover have "x \<noteq> q" if "x \<in> set (xs @ p # ys)" for x using that qn(1) L by auto
    ultimately show "first_key (ix_pages t) x = first_key (ix_pages s) x \<and> nd_parent (node t x) = nd_parent (node s x)" if "x \<in> set (xs @ p # ys)" for x
      using te(3) [of x] tl(1) [of x] that by (cases "x = p") (auto simp: first_key_def)
  qed
  have dL: "distinct (?L @ concat Ls)" using sd(2) L qn by auto
  have "\<exists>u Us. insert_into_parent (ix_fuel t) p (first_key (ix_pages t) q) q t = Inr u \<and> grew t u \<and> topped t (xs @ [p, q] @ ys) Ls u Us
      \<and> spares t (xs @ [p, q] @ ys) Ls u"
  proof (rule insert_into_parent_ok [OF st dL])
    show "2 \<le> x \<and> x < ix_next_page t" if "x \<in> set (?L @ concat Ls)" for x
    proof (cases "x = q")
      case True
      then show ?thesis using all [of p] L t(4) by simp
    next
      case False
      then show ?thesis using all [of x] that L t(4) by auto
    qed
    show "last Ls = [root_page (ix_hdr t)]" if "Ls \<noteq> []" using sd(4) that t(7) by simp
    have "wide (ix_hdr s) (ix_pages t) Ls"
      by (rule wide_cong [OF cd(2)]) (use te(3) pu qn(2) in metis)
    then show "wide (ix_hdr t) (ix_pages t) Ls" using sk(5) by simp
    show "nd_ents (node t p) \<noteq> []" using te(1) hs by (auto simp: ents_def)
    show "length Ls < ix_fuel t" using shaped_depth [OF cd(1-3)] t(5) sd(3) by (simp add: ix_fuel_def q_def)
  qed (use t sk cd(3) pins in simp_all)
  then obtain u Us where u: "insert_into_parent (ix_fuel t) p (first_key (ix_pages t) q) q t = Inr u" "grew t u" "topped t ?L Ls u Us" "spares t ?L Ls u"
    by auto
  note gd = grewD [OF u(2)] and tp = toppedD [OF u(3)]
  have sku: "same_keys (ix_hdr s) (ix_hdr u)" using t(6) gd(8-11) by (simp add: same_keys_def)
  note skd = same_keysD [OF sku]
  have out: "x \<notin> set (concat Ls)" "x < ix_next_page t" if "x \<in> set ?L" for x
    using that dL all [of x] L t(4) by auto
  have eu: "ents (ix_pages u) x = ents (ix_pages t) x" if "x \<in> set ?L" for x using sparesD(1) [OF u(4) out [OF that]] .
  have ent: "entries u ?L = entries s L"
  proof -
    have "concat (map (ents (ix_pages u)) ?L) = concat (map (ents (ix_pages t)) ?L)" by (rule ents_cong) (rule eu)
    moreover have "concat (map (ents (ix_pages t)) xs) = concat (map (ents (ix_pages s)) xs)" "concat (map (ents (ix_pages t)) ys) = concat (map (ents (ix_pages s)) ys)"
      by (rule ents_cong, rule te(3), use dL in auto)+
    ultimately show ?thesis unfolding entries_def L using halves [of "node s p"] by (simp add: te) (simp add: ents_def)
  qed
  have "shaped u ?L Us"
    unfolding shaped_def
  proof (intro conjI ballI)
    show "stacked (ix_pages u) ?L Us" by (rule tp(1))
    have "x \<notin> set ?L" if "x \<in> set (concat Us)" for x
    proof
      assume "x \<in> set ?L"
      then show False using tp(6) [OF that] out [of x] by linarith
    qed
    then show "distinct (?L @ concat Us)" using dL tp(5) by auto
    show "2 \<le> x" "x < ix_next_page u" if "x \<in> set (?L @ concat Us)" for x
    proof -
      have q2: "2 \<le> q" using all [of p] L by simp
      have "2 \<le> x \<and> x < ix_next_page u"
      proof (cases "x \<in> set ?L")
        case True
        then show ?thesis using all [of x] q2 L gd(1) t(4) by auto
      next
        case False
        then have "x \<in> set (concat Us)" using that by simp
        from tp(6) [OF this] show ?thesis
        proof
          assume "x \<in> set (concat Ls)"
          then have "x < q \<and> 2 \<le> x" by (intro all) simp
          then show ?thesis using gd(1) t(4) by simp
        qed (use q2 t(4) in auto)
      qed
      then show "2 \<le> x" "x < ix_next_page u" by simp_all
    qed
    show "ix_num_pages (ix_hdr u) = ix_next_page u" by (rule gd(2))
    show "last (?L # Us) = [root_page (ix_hdr u)]" using tp(2,4) by simp
  qed
  moreover have "wide (ix_hdr u) (ix_pages u) Us" using tp(3) sk(5) skd(5) by simp
  moreover have "keys_ok (ix_hdr u) (entries u ?L)" using cd(4) ent skd(3) by simp
  moreover have "nd_leaf (node u x)" if "x \<in> set ?L" for x
    using sparesD(3) [OF u(4) out [OF that]] tl that cd(5) [of x] L by (cases "x = q") auto
  moreover have "leaf_ring (ix_pages u) ?L"
  proof -
    have h: "IX_LEAF_HEADER_PAGE \<notin> set (concat Ls)" "IX_LEAF_HEADER_PAGE < ix_next_page t"
      using all [of IX_LEAF_HEADER_PAGE] all [of p] L t(4) by (auto simp: IX_LEAF_HEADER_PAGE_def)
    show ?thesis using tr leaf_ring_cong [of ?L "ix_pages u" "ix_pages t"] sparesD(4,5) [OF u(4)] out h by blast
  qed
  moreover have "hd ?L = hd L" using L by (cases xs) simp_all
  ultimately have core: "tree_core u ?L Us"
    using cd(3,8) skd(4) gd(12,13) t(8,9) unfolding tree_core_def by simp
  have "leaf_size_ok (ix_hdr u) Us (length (nd_ents (node u x)))" if x: "x \<in> set ?L" for x
  proof -
    have e: "nd_ents (node u x) = ents (ix_pages t) x" using eu [OF x] by (simp add: ents_def)
    consider "x = p" | "x = q" | "x \<in> set L" "x \<noteq> p" "x \<noteq> q" using x L by auto
    then show ?thesis
    proof cases
      case 1
      show ?thesis unfolding e using te(1) 1 hs tp(2) skd(4) cd(3) by (simp add: leaf_size_ok_def get_min_size_def get_max_size_def)
    next
      case 2
      show ?thesis unfolding e using te(2) 2 hs tp(2) skd(4) cd(3) by (simp add: leaf_size_ok_def get_min_size_def get_max_size_def)
    next
      case 3
      have "Ls \<noteq> []" using stacked_single [OF sd(1)] 3 L by (auto simp: append_eq_Cons_conv)
      then show ?thesis using sizes [OF 3(1,2)] te(3) [OF 3(2,3)] tp(2) skd by (simp add: e leaf_size_ok_def) (simp add: ents_def)
    qed
  qed
  then have "tree u ?L Us" using core by (simp add: tree_def)
  moreover have "key_slot (node t q) 0 = Inr (first_key (ix_pages t) q)"
    using te(2) hs by (auto simp: key_slot_def get_size_def get_key_def first_key_def ents_def hd_conv_nth)
  ultimately show ?thesis using that [of t u Us] t u(1) ent sku gd by simp
qed

section \<open>\<^verbatim>\<open>insert_entry\<close>\<close>

text \<open>Everything but the pins, the caches and the frames.\<close>

lemma tree_cong: "ix_hdr t = ix_hdr s \<Longrightarrow> ix_pages t = ix_pages s \<Longrightarrow> ix_next_page t = ix_next_page s \<Longrightarrow> tree t L Ls = tree s L Ls"
  by (simp add: tree_def tree_core_def shaped_def entries_def)

lemma entries_cong: "ix_pages t = ix_pages s \<Longrightarrow> entries t L = entries s L"
  by (simp add: entries_def)

lemma ent_insert_first:
  assumes "keys_ok h es" and "key_ok h k" and "key_val h k \<notin> set (vals h es)"
  obtains "length (ent_insert h k v es) = length es + 1" "fst (hd (ent_insert h k v es)) = k \<or> es \<noteq> [] \<and> hd (ent_insert h k v es) = hd es"
proof -
  let ?n = "\<lparr>nd_next_free = 0, nd_parent = 0, nd_leaf = True, nd_prev = 0, nd_next = 0, nd_ents = es\<rparr>"
  have ko: "keys_ok h (nd_ents ?n)" using assms(1) by simp
  show ?thesis
  proof (cases rule: node_search [OF ko assms(2), where v = v, case_names hit miss])
    case (miss xs ys)
    then show ?thesis using that by (cases xs) auto
  qed (use assms(3) in simp)
qed

definition updated :: "int multiset \<Rightarrow> ixh \<Rightarrow> (bytes \<times> Rid) list \<Rightarrow> ixh \<Rightarrow> int list \<Rightarrow> int list list \<Rightarrow> bool" where
  "updated B s es t M Ms \<longleftrightarrow> tree t M Ms \<and> caches B t M \<and> entries t M = es \<and> same_keys (ix_hdr s) (ix_hdr t) \<and> ix_frames t = ix_frames s"

text \<open>The leaf \<open>p\<close> holds \<open>es\<close> and the separators above it have been repaired.\<close>

lemma settle_leaf_ok:
  assumes t: "tree s L Ls" and c: "caches B s L" and L: "L = xs @ p # ys" and own: "owned \<Longrightarrow> pinned_leaf_page s = Some p"
    and sz: "size B + 2 * length Ls + 3 < ix_frames s" and st: "stacked g L Ls"
    and r: "rekeyed ((ix_pages s)(p := (node s p)\<lparr>nd_ents := es\<rparr>)) g (set (concat Ls))"
    and ko: "keys_ok (ix_hdr s) (concat (map (ents (ix_pages s)) xs) @ es @ concat (map (ents (ix_pages s)) ys))"
    and len: "length es = length (nd_ents (node s p)) + 1"
  defines "s' \<equiv> s\<lparr>ix_pins := if owned then ix_pins s else add_mset p (ix_pins s), ix_pages := g\<rparr>"
  obtains u M Ms where "settle_leaf p owned s' = Inr (p, u)"
    "updated B s (concat (map (ents (ix_pages s)) xs) @ es @ concat (map (ents (ix_pages s)) ys)) u M Ms"
proof (cases "length es \<le> btree_order (ix_hdr s)")
  note cl = tree_core_leaf [OF t L st r ko]
  have p: "p \<in> set L" using L by simp
  case True
  have fit: "length (nd_ents (g p)) \<le> btree_order (ix_hdr s)" using True cl(3) by simp
  obtain u where u: "settle_leaf p owned s' = Inr (p, u)" "caches B u L" "ix_hdr u = ix_hdr s" "ix_pages u = g" "ix_next_page u = ix_next_page s"
      "ix_frames u = ix_frames s"
    unfolding s'_def by (rule settle_fits_ok [where g = g, OF c p own fit])
  have "leaf_size_ok (ix_hdr s) Ls (length (nd_ents (g x)))" if "x \<in> set L" for x
  proof (cases "x = p")
    case True
    then show ?thesis using fit cl(3) len treeD(6) [OF t p] by (auto simp: leaf_size_ok_def)
  next
    case False
    then show ?thesis using cl(4) [OF that False] t that by (simp add: tree_def)
  qed
  then have "tree s' L Ls" using cl(1) by (simp add: tree_def s'_def)
  then have "tree u L Ls" using tree_cong [of u s'] u(3-5) by (simp add: s'_def)
  moreover have "entries u L = concat (map (ents (ix_pages s)) xs) @ es @ concat (map (ents (ix_pages s)) ys)"
    using cl(2) entries_cong [of u s' L] u(4) by (simp add: s'_def)
  ultimately show ?thesis using that [OF u(1), of L Ls] u by (simp add: updated_def)
next
  note cl = tree_core_leaf [OF t L st r ko]
  have p: "p \<in> set L" using L by simp
  case False
  define z where "z = (if owned then s'\<lparr>pinned_leaf_no := IX_NO_PAGE, pinned_leaf_page := None\<rparr> else s')"
  have zs: "ix_hdr z = ix_hdr s" "ix_pages z = g" "ix_next_page z = ix_next_page s" "ix_frames z = ix_frames s"
      "ix_pins z = (if owned then ix_pins s else add_mset p (ix_pins s))" "pinned_leaf_page z = (if owned then None else pinned_leaf_page s)"
      "pinned_leaf_no z = (if owned then IX_NO_PAGE else pinned_leaf_no s)"
    by (simp_all add: z_def s'_def)
  have "tree_core s' L Ls" using cl(1) by (simp add: s'_def)
  then have core: "tree_core z L Ls" by (auto simp: z_def tree_core_def shaped_def entries_def)
  have full: "length (nd_ents (node z p)) = btree_order (ix_hdr z) + 1"
    using False cl(3) len treeD(7) [OF t p] zs by simp
  have sizes: "leaf_size_ok (ix_hdr z) Ls (length (nd_ents (node z x)))" if "x \<in> set L" "x \<noteq> p" for x
    using cl(4) [OF that] t that zs by (simp add: tree_def)
  have pins: "size (ix_pins z) + 2 * length Ls + 1 < ix_frames z" using caches_pins(1) [OF c] sz zs by simp
  define q where "q = ix_next_page z"
  let ?M = "xs @ p # q # ys"
  obtain w u Ms where u: "split p z = Inr (q, w)" "key_slot (node w q) 0 = Inr (first_key (ix_pages w) q)"
      "insert_into_parent (ix_fuel w) p (first_key (ix_pages w) q) q w = Inr u" "tree u ?M Ms" "entries u ?M = entries z L"
      "same_keys (ix_hdr z) (ix_hdr u)" "ix_pins u = add_mset q (ix_pins z)" "ix_frames u = ix_frames z" "cached_leaf_no u = cached_leaf_no z"
      "pinned_leaf_no u = pinned_leaf_no z" "pinned_leaf_page u = pinned_leaf_page z"
    unfolding q_def by (rule leaf_split_ok [OF core L full sizes pins]; assumption)
  let ?u = "ix_unpin p ((ix_unpin q u)\<lparr>cached_leaf_no := last_leaf (ix_hdr u)\<rparr>)"
  have "\<not> get_size (node s' p) < get_max_size (ix_hdr s')"
    using full zs by (simp add: s'_def get_size_def get_max_size_def)
  then have "settle_leaf p owned s' = Inr (p, ?u)"
    unfolding settle_leaf_def z_def [symmetric] by (simp add: Let_def u(1-3) ix_unpin_def)
  moreover have "tree ?u ?M Ms" using u(4) tree_cong [of ?u u] by (simp add: ix_unpin_def)
  moreover have "entries ?u ?M = concat (map (ents (ix_pages s)) xs) @ es @ concat (map (ents (ix_pages s)) ys)"
    using cl(2) zs u(5) by (simp add: entries_def ix_unpin_def)
  moreover have "caches B ?u ?M"
  proof -
    have "cached_leaf_no ?u \<in> set ?M" using treeD(9) [OF u(4)] by (simp add: ix_unpin_def)
    moreover have "set L \<subseteq> set ?M" using L by auto
    ultimately show ?thesis
      using c own zs u(7,10,11) by (cases owned) (auto simp: caches_def ix_unpin_def split: option.splits)
  qed
  ultimately show ?thesis using that [of ?u ?M Ms] u(6,8) zs by (simp add: updated_def ix_unpin_def)
qed

lemma insert_entry_ok:
  assumes t: "tree s L Ls" and c: "caches B s L" and k: "key_ok (ix_hdr s) key" and sz: "size B + 2 * length Ls + 3 < ix_frames s"
  obtains p u M Ms where "insert_entry key v s = Inr (p, u)" "updated B s (ent_insert (ix_hdr s) key v (entries s L)) u M Ms"
proof -
  have sz1: "size B + 1 < ix_frames s" using sz by simp
  obtain xs p ys owned where L: "L = xs @ p # ys" and own: "owned \<Longrightarrow> pinned_leaf_page s = Some p"
      and run: "target_leaf key s = Inr ((p, owned), s\<lparr>ix_pins := if owned then ix_pins s else add_mset p (ix_pins s)\<rparr>)"
      and lo: "\<forall>e \<in> set (concat (map (ents (ix_pages s)) xs)). key_val (ix_hdr s) (fst e) < key_val (ix_hdr s) key"
      and hi: "\<forall>e \<in> set (concat (map (ents (ix_pages s)) ys)). key_val (ix_hdr s) key < key_val (ix_hdr s) (fst e)"
    by (rule target_leaf_ok [OF t c k sz1]) blast
  let ?h = "ix_hdr s" and ?es = "nd_ents (node s p)"
  define P where "P = (if owned then ix_pins s else add_mset p (ix_pins s))"
  define es where "es = ent_insert ?h key v ?es"
  define g where "g = (ix_pages s)(p := (node s p)\<lparr>nd_ents := es\<rparr>)"
  have p: "p \<in> set L" using L by simp
  have ko: "keys_ok ?h ?es"
    using keys_ok_node [of ?h "ix_pages s" xs p ys] treeD(4) [OF t] L by (simp add: ents_def entries_def)
  have all: "ent_insert ?h key v (entries s L) = concat (map (ents (ix_pages s)) xs) @ es @ concat (map (ents (ix_pages s)) ys)"
    using ent_ops_mid(2) [OF lo hi, of v ?es] L by (simp add: entries_def ents_def es_def)
  have ins: "try_node p (node_insert ?h key v) (s\<lparr>ix_pins := P\<rparr>) = Inr (s\<lparr>ix_pins := P, ix_pages := g\<rparr>)"
    using node_insert_list [OF ko k, of v] treeD(7) [OF t p] by (simp add: try_node_def upd_node_def get_size_def g_def es_def)
  show ?thesis
  proof (cases "key_val ?h key \<in> set (vals ?h ?es)")
    case True
    then have "es = ?es" by (simp add: es_def ent_insert_def)
    then have "g = ix_pages s" by (simp add: g_def)
    then have "insert_entry key v s = Inr (p, s)"
      using run ins by (simp add: insert_entry_def P_def Let_def ix_unpin_def)
    moreover have "entries s L = ent_insert ?h key v (entries s L)" using all \<open>es = ?es\<close> L by (simp add: entries_def ents_def)
    ultimately show ?thesis using that [of p s L Ls] t c by (simp add: updated_def)
  next
    case False
    then have f: "length es = length ?es + 1" "fst (hd es) = key \<or> ?es \<noteq> [] \<and> hd es = hd ?es"
      using ent_insert_first [OF ko k False, of v] by (simp_all add: es_def) metis+
    have ne: "es \<noteq> []" using f(1) by auto
    have szP: "size P < ix_frames s" using caches_pins(1) [OF c] sz by (simp add: P_def)
    have slot: "key_slot (node (s\<lparr>ix_pins := P, ix_pages := g\<rparr>) p) 0 = Inr (fst (hd es))"
      using ne by (simp add: key_slot_def get_size_def get_key_def g_def hd_conv_nth)
    have body: "insert_entry key v s = and_then (if fst (hd es) = key then maintain_parent (ix_fuel s) p (s\<lparr>ix_pins := P, ix_pages := g\<rparr>)
        else Inr (s\<lparr>ix_pins := P, ix_pages := g\<rparr>)) (settle_leaf p owned)"
      using run ins slot f(1) by (simp add: insert_entry_def P_def Let_def get_size_def g_def ix_fuel_def)
    obtain g' where g': "insert_entry key v s = settle_leaf p owned (s\<lparr>ix_pins := P, ix_pages := g'\<rparr>)" "stacked g' L Ls"
        "rekeyed g g' (set (concat Ls))"
    proof (cases "fst (hd es) = key")
      case True
      obtain g' where "maintain_parent (ix_fuel s) p (s\<lparr>ix_pins := P, ix_pages := g\<rparr>) = Inr (s\<lparr>ix_pins := P, ix_pages := g'\<rparr>)"
          "stacked g' L Ls" "rekeyed g g' (set (concat Ls))"
        unfolding g_def by (rule rekey_ok [OF t L ne szP])
      then show ?thesis using that True body by simp
    next
      case False
      then have "fst (hd es) = first_key (ix_pages s) p" using f(2) by (simp add: first_key_def ents_def)
      then have "stacked g L Ls" unfolding g_def by (rule stacked_same_first [OF t L])
      then show ?thesis using that [OF _ _ rekeyed_refl] body False by simp
    qed
    have kos: "keys_ok ?h (concat (map (ents (ix_pages s)) xs) @ es @ concat (map (ents (ix_pages s)) ys))"
      using keys_ok_insert [OF treeD(4) [OF t] k, of v] all by simp
    obtain u M Ms where "settle_leaf p owned (s\<lparr>ix_pins := P, ix_pages := g'\<rparr>) = Inr (p, u)" "updated B s (ent_insert ?h key v (entries s L)) u M Ms"
      unfolding P_def all by (rule settle_leaf_ok [OF t c L own sz g'(2) g'(3) [unfolded g_def] kos f(1)])
    then show ?thesis using that g'(1) by simp
  qed
qed

end
