(* ===== verification/Index_Delete.thy ===== *)
theory Index_Delete
  imports Index_Entry
begin

text \<open>
  Deletion. A node that has become too small takes an entry of a sibling, or is merged with it; then the parent has one entry less and is
  treated in the same way, up to the root, which gives way to its only child. The proof goes along the list of levels: between two steps one node of one
  level may be too small, everything else is as the invariant of the tree says.
\<close>

section \<open>Replacing neighbours\<close>

text \<open>The nodes \<open>zs\<close> of the upper level become \<open>zs'\<close>, with the same entries in the same order.\<close>

lemma link_regroup:
  assumes l: "link g K (xs @ zs @ ys)" and same: "concat (map (ents g') zs') = concat (map (ents g) zs)"
    and eo: "\<And>m. m \<in> set (xs @ ys) \<Longrightarrow> ents g' m = ents g m \<and> nd_leaf (g' m) = nd_leaf (g m)" and lf: "\<And>m. m \<in> set zs' \<Longrightarrow> \<not> nd_leaf (g' m)"
    and f: "\<And>c. c \<in> set K \<Longrightarrow> first_key g' c = first_key g c"
    and po: "\<And>m e. m \<in> set (xs @ ys) \<Longrightarrow> e \<in> set (ents g m) \<Longrightarrow> nd_parent (g' (page_no (snd e))) = nd_parent (g (page_no (snd e)))"
    and pz: "\<And>m e. m \<in> set zs' \<Longrightarrow> e \<in> set (ents g' m) \<Longrightarrow> nd_parent (g' (page_no (snd e))) = m"
  shows "link g' K (xs @ zs' @ ys)"
proof -
  have "concat (map (ents g') (xs @ zs' @ ys)) = concat (map (ents g) (xs @ zs @ ys))"
    using same ents_cong [of xs g' g] ents_cong [of ys g' g] eo by simp
  moreover have "map (\<lambda>c. (first_key g' c, c)) K = map (\<lambda>c. (first_key g c, c)) K" by (rule firsts_cong) (rule f)
  ultimately have keys: "map to_child (concat (map (ents g') (xs @ zs' @ ys))) = map (\<lambda>c. (first_key g' c, c)) K"
    using linkD(1) [OF l] by simp
  have "\<not> nd_leaf (g' m)" if "m \<in> set (xs @ zs' @ ys)" for m
  proof (cases "m \<in> set zs'")
    case False
    then have "m \<in> set (xs @ ys)" using that by auto
    then show ?thesis using eo linkD(2) [OF l, of m] by auto
  qed (rule lf)
  moreover have "nd_parent (g' (page_no (snd e))) = m" if "m \<in> set (xs @ zs' @ ys)" "e \<in> set (ents g' m)" for m e
  proof (cases "m \<in> set zs'")
    case False
    then have m: "m \<in> set (xs @ ys)" using that(1) by auto
    then have "e \<in> set (ents g m)" using eo that(2) by simp
    then show ?thesis using po [OF m] linkD(3) [OF l, of m e] m by auto
  qed (rule pz, use that in auto)
  ultimately show ?thesis unfolding link_def using keys by blast
qed

lemma to_child_kid: "map to_child es = map (\<lambda>c. (first_key g c, c)) xs \<Longrightarrow> e \<in> set es \<Longrightarrow> page_no (snd e) \<in> set xs"
proof (induction es arbitrary: xs)
  case (Cons a es)
  then show ?case by (cases xs) (auto simp: to_child_def)
qed simp

text \<open>The nodes \<open>zs\<close> of the lower level become \<open>zs'\<close>; they are the children \<open>em\<close> of one node.\<close>

lemma link_replace:
  assumes l: "link g (xs @ zs @ ys) (ms1 @ q # ms2)"
    and ex: "map to_child (concat (map (ents g) ms1) @ e1) = map (\<lambda>c. (first_key g c, c)) xs"
    and ey: "map to_child (e2 @ concat (map (ents g) ms2)) = map (\<lambda>c. (first_key g c, c)) ys" and E: "ents g q = e1 @ em @ e2"
    and q: "ents g' q = e1 @ em' @ e2" and em: "map to_child em' = map (\<lambda>c. (first_key g' c, c)) zs'"
    and mo: "\<And>m. m \<in> set (ms1 @ ms2) \<Longrightarrow> ents g' m = ents g m" and lf: "\<And>m. m \<in> set (ms1 @ q # ms2) \<Longrightarrow> nd_leaf (g' m) = nd_leaf (g m)"
    and xo: "\<And>c. c \<in> set (xs @ ys) \<Longrightarrow> first_key g' c = first_key g c \<and> nd_parent (g' c) = nd_parent (g c)"
    and zp: "\<And>c. c \<in> set zs' \<Longrightarrow> nd_parent (g' c) = q" and qn: "q \<notin> set (ms1 @ ms2)" and d: "distinct (xs @ zs @ ys)"
  shows "link g' (xs @ zs' @ ys) (ms1 @ q # ms2)"
proof (rule link_mid [OF q _ em])
  show "map to_child (concat (map (ents g') ms1) @ e1) = map (\<lambda>c. (first_key g' c, c)) xs"
    using ex ents_cong [of ms1 g' g] firsts_cong [of xs g' g] mo xo by simp
  show "map to_child (e2 @ concat (map (ents g') ms2)) = map (\<lambda>c. (first_key g' c, c)) ys"
    using ey ents_cong [of ms2 g' g] firsts_cong [of ys g' g] mo xo by simp
  show "\<not> nd_leaf (g' m)" if "m \<in> set (ms1 @ q # ms2)" for m using lf linkD(2) [OF l] that by simp
  have outer: "page_no (snd e) \<in> set (xs @ ys)" if "e \<in> set (concat (map (ents g) ms1) @ e1) \<union> set (e2 @ concat (map (ents g) ms2))" for e
    using to_child_kid [OF ex, of e] to_child_kid [OF ey, of e] that by (metis UnE set_append UnI1 UnI2)
  show "nd_parent (g' (page_no (snd e))) = m" if m: "m \<in> set (ms1 @ q # ms2)" and e: "e \<in> set (ents g' m)" for m e
  proof (cases "m = q \<and> e \<in> set em'")
    case True
    have "page_no (snd e) \<in> set zs'" using to_child_kid [OF em] True by simp
    then show ?thesis using zp True by simp
  next
    case False
    have eg: "e \<in> set (ents g m)" "e \<in> set (concat (map (ents g) ms1) @ e1) \<union> set (e2 @ concat (map (ents g) ms2))"
      using False m e q E mo by (cases "m = q"; force)+
    then show ?thesis using xo [OF outer [OF eg(2)]] linkD(3) [OF l m eg(1)] by simp
  qed
qed

text \<open>A page and the neighbour that \<^verbatim>\<open>coalesce_or_redistribute\<close> picks, in the order of the level.\<close>

definition ordered :: "nat \<Rightarrow> int \<Rightarrow> int \<Rightarrow> nat \<Rightarrow> int \<Rightarrow> int \<Rightarrow> bool" where
  "ordered k p c n l r \<longleftrightarrow> k = 0 \<and> l = p \<and> r = c \<and> n = 0 \<or> k = Suc n \<and> l = c \<and> r = p"

definition siblings where
  "siblings g k p c q l r as bs ms1 ms2 e1 e2 rl rr \<longleftrightarrow> q = nd_parent (g p) \<and> nd_parent (g c) = q \<and> find_child (g q) p = Inr k
     \<and> value_at (g q) (if k = 0 then 1 else k - 1) = Inr c \<and> ordered k p c (length e1) l r
     \<and> ents g q = e1 @ [(first_key g l, rl), (first_key g r, rr)] @ e2 \<and> page_no rl = l \<and> page_no rr = r
     \<and> map to_child (concat (map (ents g) ms1) @ e1) = map (\<lambda>c. (first_key g c, c)) as
     \<and> map to_child (e2 @ concat (map (ents g) ms2)) = map (\<lambda>c. (first_key g c, c)) bs"

lemma siblingsD:
  assumes "siblings g k p c q l r as bs ms1 ms2 e1 e2 rl rr"
  shows "nd_parent (g p) = q" "nd_parent (g c) = q" "find_child (g q) p = Inr k" "value_at (g q) (if k = 0 then 1 else k - 1) = Inr c"
    "ordered k p c (length e1) l r" "ents g q = e1 @ [(first_key g l, rl), (first_key g r, rr)] @ e2" "page_no rl = l" "page_no rr = r"
    "map to_child (concat (map (ents g) ms1) @ e1) = map (\<lambda>c. (first_key g c, c)) as"
    "map to_child (e2 @ concat (map (ents g) ms2)) = map (\<lambda>c. (first_key g c, c)) bs" "nd_parent (g l) = q" "nd_parent (g r) = q"
  using assms unfolding siblings_def ordered_def by auto

lemma link_sibling:
  assumes l: "link g (xs @ p # ys) M" and d: "distinct (xs @ p # ys)" and two: "\<And>m. m \<in> set M \<Longrightarrow> 2 \<le> length (ents g m)"
  obtains k c q l r as bs ms1 ms2 e1 e2 rl rr where "siblings g k p c q l r as bs ms1 ms2 e1 e2 rl rr" "M = ms1 @ q # ms2" "xs @ p # ys = as @ [l, r] @ bs"
proof -
  let ?q = "nd_parent (g p)" and ?f = "\<lambda>c. (first_key g c, c)"
  obtain ms1 ms2 e1 r e2 where M: "M = ms1 @ ?q # ms2" and E: "ents g ?q = e1 @ (first_key g p, r) # e2" "page_no r = p"
      and ex: "map to_child (concat (map (ents g) ms1) @ e1) = map ?f xs" and ey: "map to_child (e2 @ concat (map (ents g) ms2)) = map ?f ys"
      and ne: "p \<notin> (page_no \<circ> snd) ` set e1"
    by (rule link_locate [OF l d])
  have fc: "find_child (g ?q) p = Inr (length e1)" by (rule find_child_at [OF E(1) [unfolded ents_def] _ ne]) (simp add: E(2))
  have qM: "?q \<in> set M" using M by simp
  have par: "nd_parent (g (page_no (snd e))) = ?q" if "e \<in> set e1 \<union> set e2" for e using linkD(3) [OF l qM, of e] E that by auto
  show ?thesis
  proof (cases e1 rule: rev_cases)
    case Nil
    then obtain e e3 where e2: "e2 = e # e3" using two [OF qM] E by (cases e2) auto
    obtain y ys' where y: "ys = y # ys'" "to_child e = ?f y" using ey e2 by (cases ys) auto
    have yy: "fst e = first_key g y" "page_no (snd e) = y" using y(2) by (simp_all add: to_child_def)
    have "value_at (g ?q) 1 = Inr y" using E Nil e2 yy by (simp add: value_at_def get_size_def ents_def)
    moreover have "e = (first_key g y, snd e)" using yy(1) by (metis prod.collapse)
    ultimately show ?thesis
      using that [of 0 y ?q p y xs ys' ms1 ms2 "[]" e3 r "snd e"] M fc Nil e2 y E ex ey par [of e] yy by (simp add: siblings_def ordered_def)
  next
    case (snoc e0 e)
    obtain xs' x where x: "xs = xs' @ [x]" "to_child e = ?f x" "map to_child (concat (map (ents g) ms1) @ e0) = map ?f xs'"
      using ex snoc by (cases xs rule: rev_cases) auto
    have xx: "fst e = first_key g x" "page_no (snd e) = x" using x(2) by (simp_all add: to_child_def)
    have "value_at (g ?q) (length e0) = Inr x" using E snoc xx by (simp add: value_at_def get_size_def ents_def nth_append)
    moreover have "e = (first_key g x, snd e)" using xx(1) by (metis prod.collapse)
    ultimately show ?thesis
      using that [of "Suc (length e0)" x ?q x p xs' ys ms1 ms2 e0 e2 "snd e" r] M fc snoc x E ey par [of e] xx by (simp add: siblings_def ordered_def)
  qed
qed

section \<open>Taking an entry of a neighbour\<close>

text \<open>The pages after the entries of two neighbours and their parent have changed and some children got the parent \<open>d\<close>.\<close>

definition moved :: "int \<Rightarrow> int \<Rightarrow> int \<Rightarrow> (bytes \<times> Rid) list \<Rightarrow> (bytes \<times> Rid) list \<Rightarrow> (bytes \<times> Rid) list \<Rightarrow> int \<Rightarrow> int set \<Rightarrow> (int \<Rightarrow> ix_node) \<Rightarrow> int \<Rightarrow> ix_node" where
  "moved l r q el er eq d S g = reparent d S (g(l := (g l)\<lparr>nd_ents := el\<rparr>, r := (g r)\<lparr>nd_ents := er\<rparr>, q := (g q)\<lparr>nd_ents := eq\<rparr>))"

lemma moved_sel:
  assumes "l \<noteq> r" and "q \<noteq> l" and "q \<noteq> r"
  shows "ents (moved l r q el er eq d S g) x = (if x = l then el else if x = r then er else if x = q then eq else ents g x)"
    "first_key (moved l r q el er eq d S g) x = fst (hd (if x = l then el else if x = r then er else if x = q then eq else ents g x))"
    "nd_leaf (moved l r q el er eq d S g x) = nd_leaf (g x)" "nd_prev (moved l r q el er eq d S g x) = nd_prev (g x)"
    "nd_next (moved l r q el er eq d S g x) = nd_next (g x)" "nd_parent (moved l r q el er eq d S g x) = (if x \<in> S then d else nd_parent (g x))"
  using assms by (auto simp: moved_def first_key_def)

definition kids :: "ix_node \<Rightarrow> (bytes \<times> Rid) list \<Rightarrow> int set" where
  "kids n es = (if nd_leaf n then {} else (\<lambda>e. page_no (snd e)) ` set es)"

lemma reparent_none [simp]: "reparent p {} g = g"
  by (simp add: reparent_def)

lemma redistribute_first:
  assumes ne: "l \<noteq> r" "q \<noteq> l" "q \<noteq> r" and E: "nd_ents (node s l) = el" "nd_ents (node s r) = e # er" "nd_ents (node s q) = [(kl, rl), (kr, rr)] @ e2"
    and sz: "length el \<le> btree_order (ix_hdr s)" "er \<noteq> []" and pins: "size (ix_pins s) < ix_frames s"
    and kid: "\<And>x. x \<in> kids (node s l) [e] \<Longrightarrow> x \<notin> {l, r, q} \<and> 0 \<le> x \<and> x < ix_num_pages (ix_hdr s)"
  shows "redistribute r l q 0 s = Inr (s\<lparr>ix_pages := moved l r q (el @ [e]) er ([(kl, rl), (fst (hd er), rr)] @ e2) l (kids (node s l) [e]) (ix_pages s)\<rparr>)"
proof -
  let ?s = "s\<lparr>ix_pages := (ix_pages s)(l := (node s l)\<lparr>nd_ents := el @ [e]\<rparr>)\<rparr>" and ?S = "kids (node s l) [e]"
  define g where "g = reparent l ?S (ix_pages ?s)"
  have mc: "(if nd_leaf (node ?s l) then Inr ?s else maintain_child l (length el) ?s) = Inr (s\<lparr>ix_pages := g\<rparr>)"
  proof (cases "nd_leaf (node s l)")
    case True
    then show ?thesis by (simp add: kids_def g_def)
  next
    case False
    then show ?thesis using maintain_child_ok [of ?s l "length el"] kid pins by (simp add: kid_at_def kids_def g_def)
  qed
  have gs: "g r = node s r" "g q = node s q" using kid ne by (auto simp: g_def reparent_def)
  have g: "g(r := (node s r)\<lparr>nd_ents := er\<rparr>, q := (node s q)\<lparr>nd_ents := [(kl, rl), (fst (hd er), rr)] @ e2\<rparr>)
      = moved l r q (el @ [e]) er ([(kl, rl), (fst (hd er), rr)] @ e2) l ?S (ix_pages s)"
    using ne kid by (auto simp: g_def moved_def reparent_def fun_eq_iff)
  show ?thesis unfolding g [symmetric]
    using mc E sz ne gs
    by (simp add: redistribute_def ent_slot_def try_node_def insert_pairs_def upd_node_def erase_pair_def key_slot_def put_key_def get_size_def
      get_key_def set_key_def hd_conv_nth)
qed

lemma redistribute_last:
  assumes ne: "l \<noteq> r" "q \<noteq> l" "q \<noteq> r" and E: "nd_ents (node s l) = el @ [e]" "nd_ents (node s r) = er" "nd_ents (node s q) = e1 @ [(kl, rl), (kr, rr)] @ e2"
    and sz: "length er \<le> btree_order (ix_hdr s)" and pins: "size (ix_pins s) < ix_frames s"
    and kid: "\<And>x. x \<in> kids (node s r) [e] \<Longrightarrow> x \<notin> {l, r, q} \<and> 0 \<le> x \<and> x < ix_num_pages (ix_hdr s)"
  shows "redistribute l r q (Suc (length e1)) s
    = Inr (s\<lparr>ix_pages := moved l r q el (e # er) (e1 @ [(kl, rl), (fst e, rr)] @ e2) r (kids (node s r) [e]) (ix_pages s)\<rparr>)"
proof -
  let ?s = "s\<lparr>ix_pages := (ix_pages s)(r := (node s r)\<lparr>nd_ents := e # er\<rparr>)\<rparr>" and ?S = "kids (node s r) [e]"
  define g where "g = reparent r ?S (ix_pages ?s)"
  have mc: "(if nd_leaf (node ?s r) then Inr ?s else maintain_child r 0 ?s) = Inr (s\<lparr>ix_pages := g\<rparr>)"
  proof (cases "nd_leaf (node s r)")
    case True
    then show ?thesis by (simp add: kids_def g_def)
  next
    case False
    then show ?thesis using maintain_child_ok [of ?s r 0] kid pins by (simp add: kid_at_def kids_def g_def)
  qed
  have gs: "g l = node s l" "g q = node s q" "nd_ents (g r) = e # er" using kid ne by (auto simp: g_def reparent_def)
  have g: "g(l := (node s l)\<lparr>nd_ents := el\<rparr>, q := (node s q)\<lparr>nd_ents := e1 @ [(kl, rl), (fst e, rr)] @ e2\<rparr>)
      = moved l r q el (e # er) (e1 @ [(kl, rl), (fst e, rr)] @ e2) r ?S (ix_pages s)"
    using ne kid by (auto simp: g_def moved_def reparent_def fun_eq_iff)
  show ?thesis unfolding g [symmetric]
    using mc E sz ne gs
    by (simp add: redistribute_def ent_slot_def try_node_def insert_pairs_def upd_node_def erase_pair_def key_slot_def put_key_def get_size_def
      get_key_def set_key_def nth_append list_update_append)
qed

section \<open>Merging two neighbours\<close>

lemma and_then_assoc: "and_then (and_then r f) h = and_then r (\<lambda>x. and_then (f x) h)"
  by (cases r) simp_all

lemma pages_pins: "s\<lparr>ix_pages := g, ix_pins := P\<rparr> = s\<lparr>ix_pins := P, ix_pages := g\<rparr>"
  by simp

lemma hdr_order: "s\<lparr>ix_hdr := h, ix_pages := g\<rparr> = s\<lparr>ix_pages := g, ix_hdr := h\<rparr>" "s\<lparr>ix_hdr := h, ix_pins := P\<rparr> = s\<lparr>ix_pins := P, ix_hdr := h\<rparr>"
  by simp_all

definition absorb :: "int \<Rightarrow> (bytes \<times> Rid) list \<Rightarrow> ixh \<Rightarrow> ix_error + ixh" where
  "absorb l er s = and_then (if er \<noteq> [] then try_node l (insert_pairs (ix_hdr s) (get_size (node s l)) er) s else Inr s) (\<lambda>t.
     if nd_leaf (node t l) then Inr t else maintain_children l [get_size (node s l)..<get_size (node s l) + length er] t)"

lemma coalesce_start:
  assumes "ordered k p c n l r"
  shows "coalesce adjust c p q k s =
    and_then (absorb l (nd_ents (node s r)) s) (\<lambda>s.
    and_then (if nd_leaf (node s r) then merge_links l r s else Inr s) (\<lambda>s.
    and_then (try_node q (erase_pair (Suc n)) s) (\<lambda>s. adjust q (ix_unpin r s))))"
  using assms unfolding ordered_def
  by (elim disjE conjE) (simp_all only: coalesce_def absorb_def ix_delete_page_def get_size_def and_then_assoc Let_def prod.case if_True if_False
    simp_thms nat.simps snd_conv One_nat_def length_greater_0_conv)

lemma absorb_ok:
  assumes E: "nd_ents (node s l) = el" and sz: "length el + length er \<le> btree_order (ix_hdr s) + 1" and pins: "size (ix_pins s) < ix_frames s"
    and kid: "\<And>x. x \<in> kids (node s l) er \<Longrightarrow> 0 \<le> x \<and> x < ix_num_pages (ix_hdr s)"
  shows "absorb l er s = Inr (s\<lparr>ix_pages := reparent l (kids (node s l) er) ((ix_pages s)(l := (node s l)\<lparr>nd_ents := el @ er\<rparr>))\<rparr>)"
proof -
  let ?s = "s\<lparr>ix_pages := (ix_pages s)(l := (node s l)\<lparr>nd_ents := el @ er\<rparr>)\<rparr>" and ?I = "[length el..<length el + length er]"
  have "(if er \<noteq> [] then try_node l (insert_pairs (ix_hdr s) (get_size (node s l)) er) s else Inr s) = Inr ?s"
    using E sz by (auto simp: try_node_def insert_pairs_def get_size_def upd_node_def)
  moreover have "maintain_children l ?I ?s = Inr (?s\<lparr>ix_pages := reparent l (kids (node s l) er) (ix_pages ?s)\<rparr>)" if lf: "\<not> nd_leaf (node s l)"
  proof -
    have ki: "kid_at (node ?s l) i = page_no (snd (er ! (i - length el)))" if "i \<in> set ?I" for i
      using that by (simp add: kid_at_def nth_append)
    have "kid_at (node ?s l) ` set ?I = (\<lambda>i. page_no (snd (er ! (i - length el)))) ` set ?I" using ki by (rule image_cong [OF refl])
    also have "\<dots> = (\<lambda>e. page_no (snd e)) ` set er"
    proof -
      have "(\<lambda>i. er ! (i - length el)) ` set ?I = set er"
      proof (intro set_eqI iffI)
        fix e assume "e \<in> set er"
        then obtain j where "j < length er" "er ! j = e" by (auto simp: in_set_conv_nth)
        then have "length el + j \<in> set ?I \<and> e = er ! (length el + j - length el)" by simp
        then show "e \<in> (\<lambda>i. er ! (i - length el)) ` set ?I" by blast
      next
        fix e assume "e \<in> (\<lambda>i. er ! (i - length el)) ` set ?I"
        then show "e \<in> set er" by (auto intro!: nth_mem)
      qed
      then show ?thesis by (metis image_image)
    qed
    finally have K: "kid_at (node ?s l) ` set ?I = kids (node s l) er" using lf by (simp add: kids_def)
    have "0 \<le> kid_at (node ?s l) i \<and> kid_at (node ?s l) i < ix_num_pages (ix_hdr ?s)" if "i \<in> set ?I" for i
      using kid K that by force
    then show ?thesis unfolding K [symmetric] by (intro maintain_children_ok) (use lf pins in simp_all)
  qed
  ultimately show ?thesis using E by (cases "nd_leaf (node s l)") (simp_all add: absorb_def get_size_def kids_def)
qed

lemma coalesce_inner:
  assumes side: "ordered k p c (length e1) l r" and ne: "l \<noteq> r" "q \<noteq> l" "q \<noteq> r" and lf: "\<not> nd_leaf (node s l)" "\<not> nd_leaf (node s r)"
    and E: "nd_ents (node s l) = el" "nd_ents (node s r) = er" "nd_ents (node s q) = e1 @ [(kl, rl), (kr, rr)] @ e2"
    and sz: "length el + length er \<le> btree_order (ix_hdr s) + 1" and pins: "size (ix_pins s) < ix_frames s"
    and kid: "\<And>x. x \<in> kids (node s l) er \<Longrightarrow> x \<notin> {l, r, q} \<and> 0 \<le> x \<and> x < ix_num_pages (ix_hdr s)"
  shows "coalesce adjust c p q k s
    = adjust q (s\<lparr>ix_pins := ix_pins s - {#r#}, ix_pages := moved l r q (el @ er) er (e1 @ [(kl, rl)] @ e2) l (kids (node s l) er) (ix_pages s)\<rparr>)"
proof -
  let ?S = "kids (node s l) er"
  define g where "g = reparent l ?S ((ix_pages s)(l := (node s l)\<lparr>nd_ents := el @ er\<rparr>))"
  have a: "absorb l (nd_ents (node s r)) s = Inr (s\<lparr>ix_pages := g\<rparr>)"
    unfolding g_def E(2) by (rule absorb_ok [OF E(1) sz pins]) (use kid in simp)
  have gs: "g r = node s r" "g q = node s q" using kid ne by (auto simp: g_def reparent_def)
  have g: "g(q := (node s q)\<lparr>nd_ents := e1 @ [(kl, rl)] @ e2\<rparr>) = moved l r q (el @ er) er (e1 @ [(kl, rl)] @ e2) l ?S (ix_pages s)"
    using ne kid E(2) by (auto simp: g_def moved_def reparent_def fun_eq_iff)
  show ?thesis unfolding g [symmetric] coalesce_start [OF side]
    using a E lf ne gs by (simp add: try_node_def upd_node_def erase_pair_def get_size_def ix_unpin_def pages_pins)
qed

text \<open>The pages and the header after two leaves have been merged.\<close>

definition unlinked :: "int \<Rightarrow> int \<Rightarrow> (int \<Rightarrow> ix_node) \<Rightarrow> int \<Rightarrow> ix_node" where
  "unlinked l z g = g(l := (g l)\<lparr>nd_next := z\<rparr>, z := (g z)\<lparr>nd_prev := l\<rparr>)"

lemma coalesce_leaf:
  assumes side: "ordered k p c (length e1) l r" and ne: "l \<noteq> r" "q \<noteq> l" "q \<noteq> r" and lf: "nd_leaf (node s l)" "nd_leaf (node s r)"
    and E: "nd_ents (node s l) = el" "nd_ents (node s r) = er" "nd_ents (node s q) = e1 @ [(kl, rl), (kr, rr)] @ e2"
    and sz: "length el + length er \<le> btree_order (ix_hdr s) + 1" and pins: "size (ix_pins s) < ix_frames s"
    and z: "z = nd_next (node s r)" "z \<notin> {l, r, q}" "0 \<le> z" "z < ix_num_pages (ix_hdr s)"
  shows "coalesce adjust c p q k s = adjust q (s\<lparr>ix_pins := ix_pins s - {#r#},
      ix_pages := unlinked l z (moved l r q (el @ er) er (e1 @ [(kl, rl)] @ e2) l {} (ix_pages s)),
      ix_hdr := (ix_hdr s)\<lparr>last_leaf := if r = last_leaf (ix_hdr s) then l else last_leaf (ix_hdr s)\<rparr>\<rparr>)"
proof -
  define g where "g = (ix_pages s)(l := (node s l)\<lparr>nd_ents := el @ er\<rparr>)"
  have a: "absorb l (nd_ents (node s r)) s = Inr (s\<lparr>ix_pages := g\<rparr>)"
    using absorb_ok [OF E(1) sz pins] lf(1) by (simp add: g_def kids_def E(2))
  define h where "h = g(l := (g l)\<lparr>nd_next := z\<rparr>, z := (g z)\<lparr>nd_prev := l\<rparr>)"
  have gs: "g r = node s r" "g q = node s q" "h r = node s r" "h q = node s q" "g z = node s z" using ne z by (simp_all add: g_def h_def)
  have f: "fetch_node z (s\<lparr>ix_pages := x\<rparr>) = Inr (s\<lparr>ix_pins := add_mset z (ix_pins s), ix_pages := x\<rparr>)" for x
    using fetch_ok [of z "s\<lparr>ix_pages := x\<rparr>"] z pins by (simp add: pages_pins)
  have zr: "nd_next (g r) = z" "z \<noteq> l" using gs z by simp_all
  have "merge_links l r (s\<lparr>ix_pages := g\<rparr>)
      = Inr (s\<lparr>ix_pages := h, ix_hdr := (ix_hdr s)\<lparr>last_leaf := if r = last_leaf (ix_hdr s) then l else last_leaf (ix_hdr s)\<rparr>\<rparr>)"
    using f by (simp add: zr merge_links_def Let_def upd_node_def ix_unpin_def set_ix_hdr_def h_def)
  moreover have "h(q := (node s q)\<lparr>nd_ents := e1 @ [(kl, rl)] @ e2\<rparr>) = unlinked l z (moved l r q (el @ er) er (e1 @ [(kl, rl)] @ e2) l {} (ix_pages s))"
    using ne z E(2) by (auto simp: h_def g_def unlinked_def moved_def fun_eq_iff)
  ultimately show ?thesis unfolding coalesce_start [OF side]
    using a E lf ne gs by (simp add: try_node_def upd_node_def erase_pair_def get_size_def ix_unpin_def pages_pins hdr_order)
qed

section \<open>The levels around two neighbours\<close>

lemma moved_up:
  assumes l: "link g (as @ [l, r] @ bs) (ms1 @ q # ms2)" and up: "stacked g (ms1 @ q # ms2) Ms"
    and d: "distinct ((as @ [l, r] @ bs) @ concat ((ms1 @ q # ms2) # Ms))"
    and E: "ents g q = e1 @ em @ e2" "em \<noteq> []"
    and ex: "map to_child (concat (map (ents g) ms1) @ e1) = map (\<lambda>c. (first_key g c, c)) as"
    and ey: "map to_child (e2 @ concat (map (ents g) ms2)) = map (\<lambda>c. (first_key g c, c)) bs"
    and par: "nd_parent (g l) = q" "nd_parent (g r) = q" and S: "S \<inter> (set (as @ [l, r] @ bs) \<union> set (concat ((ms1 @ q # ms2) # Ms))) = {}"
    and em: "map to_child em' = map (\<lambda>c. (first_key g' c, c)) zs" "set zs \<subseteq> {l, r}" "em' \<noteq> []" "fst (hd em') = fst (hd em)"
    and g': "g' = moved l r q el er (e1 @ em' @ e2) dd S g"
  shows "link g' (as @ zs @ bs) (ms1 @ q # ms2)" "stacked g' (ms1 @ q # ms2) Ms"
proof -
  have ne: "l \<noteq> r" "q \<noteq> l" "q \<noteq> r" using d by auto
  note sel = moved_sel [OF ne, of el er "e1 @ em' @ e2" dd S g, folded g']
  have out: "x \<noteq> l \<and> x \<noteq> r \<and> x \<noteq> q \<and> x \<notin> S" if "x \<in> set (as @ bs) \<union> set (ms1 @ ms2) \<union> set (concat Ms)" for x
    using that d S by auto
  have par': "nd_parent (g' x) = nd_parent (g x)" if "x \<in> set (as @ [l, r] @ bs) \<union> set (concat ((ms1 @ q # ms2) # Ms))" for x
    using S that by (auto simp: sel)
  have same: "ents g' x = ents g x" "first_key g' x = first_key g x" if "x \<in> set (as @ bs) \<union> set (ms1 @ ms2) \<union> set (concat Ms)" for x
    using out [OF that] by (simp_all add: sel first_key_def)
  have fq: "first_key g' q = first_key g q" using ne em(3,4) E by (cases e1) (simp_all add: sel first_key_def)
  show "link g' (as @ zs @ bs) (ms1 @ q # ms2)"
  proof (rule link_replace [OF l ex ey E(1)])
    show "ents g' q = e1 @ em' @ e2" using ne by (simp add: sel)
    show "map to_child em' = map (\<lambda>c. (first_key g' c, c)) zs" by (fact em(1))
    show "ents g' m = ents g m" if "m \<in> set (ms1 @ ms2)" for m by (rule same(1)) (use that in simp)
    show "first_key g' c = first_key g c \<and> nd_parent (g' c) = nd_parent (g c)" if "c \<in> set (as @ bs)" for c
      using same(2) [of c] par' [of c] that by auto
    show "nd_parent (g' c) = q" if "c \<in> set zs" for c using par' [of c] par em(2) that by auto
  qed (use d in \<open>auto simp: sel\<close>)
  show "stacked g' (ms1 @ q # ms2) Ms"
  proof (rule stacked_cong [OF up])
    show "ents g' m = ents g m \<and> nd_leaf (g' m) = nd_leaf (g m) \<and> nd_parent (g' m) = nd_parent (g m)" if "m \<in> set (concat Ms)" for m
      using same(1) [of m] par' [of m] that by (simp add: sel)
    show "first_key g' c = first_key g c \<and> nd_parent (g' c) = nd_parent (g c)" if "c \<in> set (ms1 @ q # ms2)" for c
      using same(2) [of c] par' [of c] fq that by auto
  qed
qed

lemma moved_down:
  assumes l: "link g K (as @ [l, r] @ bs)" and ne: "l \<noteq> r" "q \<noteq> l" "q \<noteq> r" and d: "distinct K" "distinct (as @ [l, r] @ bs)" "q \<notin> set (as @ bs)"
    and km: "set K \<inter> set (as @ [l, r] @ bs) = {}" "q \<notin> set K"
    and S: "S \<subseteq> (\<lambda>e. page_no (snd e)) ` set (ents g l @ ents g r)" and g': "g' = moved l r q el er eq dd S g"
    and zs: "set zs \<subseteq> {l, r}" "concat (map (ents g') zs) = ents g l @ ents g r"
    and par: "\<And>m e. m \<in> set zs \<Longrightarrow> e \<in> set (ents g' m) \<Longrightarrow> (if page_no (snd e) \<in> S then dd else nd_parent (g (page_no (snd e)))) = m"
  shows "link g' K (as @ zs @ bs)"
proof (rule link_regroup [OF l])
  note sel = moved_sel [OF ne, of el er eq dd S g, folded g']
  show "concat (map (ents g') zs) = concat (map (ents g) [l, r])" using zs(2) by simp
  show "ents g' m = ents g m \<and> nd_leaf (g' m) = nd_leaf (g m)" if "m \<in> set (as @ bs)" for m
    using that d by (auto simp: sel)
  show "\<not> nd_leaf (g' m)" if "m \<in> set zs" for m using linkD(2) [OF l, of m] zs(1) that by (auto simp: sel)
  show "first_key g' c = first_key g c" if "c \<in> set K" for c
  proof -
    have "c \<noteq> l" "c \<noteq> r" "c \<noteq> q" using that km by auto
    then show ?thesis by (simp add: sel first_key_def)
  qed
  show "nd_parent (g' (page_no (snd e))) = m" if "m \<in> set zs" "e \<in> set (ents g' m)" for m e using par [OF that] by (simp add: sel)
  show "nd_parent (g' (page_no (snd e))) = nd_parent (g (page_no (snd e)))" if m: "m \<in> set (as @ bs)" and e: "e \<in> set (ents g m)" for m e
  proof -
    have mM: "m \<in> set (as @ [l, r] @ bs)" using m by auto
    have "page_no (snd e) \<notin> S"
    proof
      assume "page_no (snd e) \<in> S"
      then have "page_no (snd e) \<in> (\<lambda>e. page_no (snd e)) ` set (ents g l @ ents g r)" using S by blast
      then obtain e' where e': "page_no (snd e) = page_no (snd e')" "e' \<in> set (ents g l @ ents g r)" by (rule imageE)
      then obtain x where x: "x \<in> {l, r}" "e' \<in> set (ents g x)" "page_no (snd e') = page_no (snd e)"
        by (metis UnE insertI1 insertI2 set_append)
      then have "nd_parent (g (page_no (snd e'))) = x" using linkD(3) [OF l, of x e'] by auto
      then have "m = x" using linkD(3) [OF l mM e] x(3) by simp
      then show False using x(1) m d(2) by auto
    qed
    then show ?thesis by (simp add: sel)
  qed
qed

section \<open>Inner levels\<close>

lemma cor_step:
  assumes q: "nd_parent (node s p) = q" "2 \<le> q" "q < ix_num_pages (ix_hdr s)" and small: "length (ents (ix_pages s) p) < get_min_size (ix_hdr s)"
    and k: "find_child (node s q) p = Inr k" "value_at (node s q) (if k = 0 then 1 else k - 1) = Inr c" "0 \<le> c" "c < ix_num_pages (ix_hdr s)"
    and pins: "size (ix_pins s) + 1 < ix_frames s"
  shows "coalesce_or_redistribute (Suc n) p s =
    (let t = s\<lparr>ix_pins := add_mset c (add_mset q (ix_pins s))\<rparr>
     in if 2 * get_min_size (ix_hdr s) \<le> length (ents (ix_pages s) p) + length (ents (ix_pages s) c)
        then and_then (redistribute c p q k t) (\<lambda>s. Inr (False, ix_unpin q (ix_unpin c s)))
        else and_then (coalesce (coalesce_or_redistribute n) c p q k t) (\<lambda>(parent_died, s).
          let s = (if parent_died then s else ix_unpin q s) in Inr (if k = 0 then (False, s) else (True, ix_unpin c s))))"
proof -
  have "fetch_node q s = Inr (s\<lparr>ix_pins := add_mset q (ix_pins s)\<rparr>)" by (rule fetch_ok) (use q pins in simp_all)
  moreover have "fetch_node c (s\<lparr>ix_pins := add_mset q (ix_pins s)\<rparr>) = Inr (s\<lparr>ix_pins := add_mset c (add_mset q (ix_pins s))\<rparr>)"
    using fetch_ok [of c "s\<lparr>ix_pins := add_mset q (ix_pins s)\<rparr>"] k(3,4) pins by simp
  ultimately show ?thesis using q small k(1,2) by (simp add: Let_def get_size_def ents_def INVALID_PAGE_ID_def)
qed

text \<open>A tree of which one inner node may be too small, above the level \<open>K\<close>.\<close>

definition loose :: "ixh \<Rightarrow> int list \<Rightarrow> int list \<Rightarrow> int \<Rightarrow> int list \<Rightarrow> int list list \<Rightarrow> bool" where
  "loose s K xs q ys Ms \<longleftrightarrow> stacked (ix_pages s) K ((xs @ q # ys) # Ms) \<and> distinct (K @ concat ((xs @ q # ys) # Ms))
     \<and> (\<forall>x \<in> set (K @ concat ((xs @ q # ys) # Ms)). 2 \<le> x \<and> x < ix_next_page s) \<and> ix_num_pages (ix_hdr s) = ix_next_page s
     \<and> last ((xs @ q # ys) # Ms) = [root_page (ix_hdr s)] \<and> wide (ix_hdr s) (ix_pages s) Ms \<and> 3 \<le> btree_order (ix_hdr s)
     \<and> (\<forall>m \<in> set (xs @ ys). get_min_size (ix_hdr s) \<le> length (ents (ix_pages s) m) \<and> length (ents (ix_pages s) m) \<le> btree_order (ix_hdr s))
     \<and> (if Ms = [] then 1 else get_min_size (ix_hdr s) - 1) \<le> length (ents (ix_pages s) q) \<and> length (ents (ix_pages s) q) \<le> btree_order (ix_hdr s)"

definition pruned :: "ixh \<Rightarrow> int \<Rightarrow> bool \<Rightarrow> ixh \<Rightarrow> bool" where
  "pruned s q died t \<longleftrightarrow> t = s\<lparr>ix_pins := if died then ix_pins s - {#q#} else ix_pins s, ix_pages := ix_pages t,
     ix_hdr := (ix_hdr s)\<lparr>root_page := root_page (ix_hdr t)\<rparr>\<rparr>"

definition settled :: "ixh \<Rightarrow> int list \<Rightarrow> int list list \<Rightarrow> ixh \<Rightarrow> int list list \<Rightarrow> bool" where
  "settled s K Xs t Ys \<longleftrightarrow> stacked (ix_pages t) K Ys \<and> wide (ix_hdr s) (ix_pages t) Ys \<and> last (K # Ys) = [root_page (ix_hdr t)]
     \<and> distinct (concat Ys) \<and> set (concat Ys) \<subseteq> set (concat Xs) \<and> spares s K Xs t"

lemma looseD:
  assumes "loose s K xs q ys Ms"
  shows "link (ix_pages s) K (xs @ q # ys)" "stacked (ix_pages s) (xs @ q # ys) Ms" "distinct (K @ concat ((xs @ q # ys) # Ms))"
    "x \<in> set (K @ concat ((xs @ q # ys) # Ms)) \<Longrightarrow> 2 \<le> x \<and> x < ix_next_page s" "ix_num_pages (ix_hdr s) = ix_next_page s"
    "last ((xs @ q # ys) # Ms) = [root_page (ix_hdr s)]" "wide (ix_hdr s) (ix_pages s) Ms" "3 \<le> btree_order (ix_hdr s)"
    "m \<in> set (xs @ ys) \<Longrightarrow> get_min_size (ix_hdr s) \<le> length (ents (ix_pages s) m) \<and> length (ents (ix_pages s) m) \<le> btree_order (ix_hdr s)"
    "(if Ms = [] then 1 else get_min_size (ix_hdr s) - 1) \<le> length (ents (ix_pages s) q)" "length (ents (ix_pages s) q) \<le> btree_order (ix_hdr s)"
  using assms unfolding loose_def by (auto simp del: concat.simps)

lemma spares_refl: "spares s X Xs s"
  by (simp add: spares_def)

lemma inner_fine:
  assumes l: "loose s K xs q ys Ms" and big: "(if Ms = [] then 2 else get_min_size (ix_hdr s)) \<le> length (ents (ix_pages s) q)"
  shows "coalesce_or_redistribute (Suc n) q s = Inr (False, s) \<and> pruned s q False s \<and> settled s K ((xs @ q # ys) # Ms) s ((xs @ q # ys) # Ms)"
proof -
  note ld = looseD [OF l]
  have "coalesce_or_redistribute (Suc n) q s = Inr (False, s)"
  proof (cases Ms)
    case Nil
    then have "nd_parent (node s q) = IX_NO_PAGE" using ld(2) by (auto simp: append_eq_Cons_conv)
    then show ?thesis using big Nil by (simp add: adjust_root_def get_size_def ents_def INVALID_PAGE_ID_def IX_NO_PAGE_def)
  next
    case (Cons M Ns)
    have dx: "distinct (xs @ q # ys)" using ld(3) by auto
    have lx: "link (ix_pages s) (xs @ q # ys) M" using ld(2) Cons by simp
    have "nd_parent (node s q) \<in> set M" by (rule link_locate [OF lx dx]) simp
    then have "2 \<le> nd_parent (node s q)" using ld(4) [of "nd_parent (node s q)"] Cons by simp
    then show ?thesis using big Cons by (simp add: get_size_def ents_def INVALID_PAGE_ID_def)
  qed
  moreover have "wide (ix_hdr s) (ix_pages s) ((xs @ q # ys) # Ms)"
  proof -
    have "xs @ ys = []" if "Ms = []" using ld(2) that by (auto simp: append_eq_Cons_conv)
    then show ?thesis using ld(7,9,11) big by (cases "Ms = []") auto
  qed
  ultimately show ?thesis using ld(1-3,6) spares_refl by (simp add: pruned_def settled_def)
qed

lemma inner_top:
  assumes l: "loose s K xs q ys []" and pins: "size (ix_pins s) < ix_frames s"
  shows "\<exists>died t Ys. coalesce_or_redistribute (Suc n) q s = Inr (died, t) \<and> pruned s q died t \<and> settled s K [xs @ q # ys] t Ys"
proof (cases "2 \<le> length (ents (ix_pages s) q)")
  case True
  then show ?thesis using inner_fine [OF l, of n] by auto
next
  case False
  note ld = looseD [OF l]
  have M: "xs = []" "ys = []" "nd_parent (node s q) = IX_NO_PAGE" using ld(2) by (auto simp: append_eq_Cons_conv)
  obtain e where e: "nd_ents (node s q) = [e]" using False ld(10) by (cases "nd_ents (node s q)"; cases "tl (nd_ents (node s q))") (auto simp: ents_def)
  let ?c = "page_no (snd e)"
  have K: "K = [?c]" using link_pages [OF ld(1)] M e by (simp add: ents_def)
  have c: "2 \<le> ?c" "?c < ix_next_page s" "?c \<noteq> q" using ld(4) [of ?c] ld(3) K by auto
  let ?t = "s\<lparr>ix_pins := ix_pins s - {#q#}, ix_pages := (ix_pages s)(?c := (node s ?c)\<lparr>nd_parent := IX_NO_PAGE\<rparr>), ix_hdr := (ix_hdr s)\<lparr>root_page := ?c\<rparr>\<rparr>"
  have "fetch_node ?c s = Inr (s\<lparr>ix_pins := add_mset ?c (ix_pins s)\<rparr>)" by (rule fetch_ok) (use c ld(5) pins in simp_all)
  then have "adjust_root q s = Inr (True, ?t)"
    using linkD(2) [OF ld(1), of q] e by (simp add: adjust_root_def get_size_def value_at_def upd_node_def set_ix_hdr_def ix_unpin_def ix_delete_page_def Let_def
      pages_pins hdr_order)
  then have "coalesce_or_redistribute (Suc n) q s = Inr (True, ?t)" using M(3) by (simp add: INVALID_PAGE_ID_def IX_NO_PAGE_def)
  moreover have "spares s K [xs @ q # ys] ?t" using K c by (intro sparesI) auto
  then have "settled s K [xs @ q # ys] ?t []" using K by (simp add: settled_def)
  ultimately show ?thesis by (intro exI [of _ True] exI [of _ ?t] exI [of _ "[]"]) (simp add: pruned_def)
qed

lemma redistribute_ok:
  assumes sib: "siblings (ix_pages s) k p c q l r as bs ms1 ms2 e1 e2 rl rr"
    and st: "link (ix_pages s) (as @ [l, r] @ bs) (ms1 @ q # ms2)" "stacked (ix_pages s) (ms1 @ q # ms2) Ms"
    and d: "distinct ((as @ [l, r] @ bs) @ concat ((ms1 @ q # ms2) # Ms))" and lf: "nd_leaf (node s r) = nd_leaf (node s l)"
    and sz: "ents (ix_pages s) p \<noteq> []" "length (ents (ix_pages s) p) \<le> btree_order (ix_hdr s)" "2 \<le> length (ents (ix_pages s) c)"
    and pins: "size (ix_pins s) < ix_frames s"
    and kid: "\<And>x. x \<in> kids (node s l) (ents (ix_pages s) l @ ents (ix_pages s) r) \<Longrightarrow>
        x \<notin> set (as @ [l, r] @ bs) \<union> set (concat ((ms1 @ q # ms2) # Ms)) \<and> 0 \<le> x \<and> x < ix_num_pages (ix_hdr s)"
  obtains e el er dd S g where "redistribute c p q k s = Inr (s\<lparr>ix_pages := g\<rparr>)"
    "g = moved l r q el er (e1 @ [(first_key (ix_pages s) l, rl), (fst (hd er), rr)] @ e2) dd S (ix_pages s)" "el @ er = ents (ix_pages s) l @ ents (ix_pages s) r"
    "link g (as @ [l, r] @ bs) (ms1 @ q # ms2)" "stacked g (ms1 @ q # ms2) Ms" "S = kids (node s l) [e]"
    "k = 0 \<and> ents (ix_pages s) r = e # er \<and> el = ents (ix_pages s) l @ [e] \<and> dd = l
      \<or> k \<noteq> 0 \<and> ents (ix_pages s) l = el @ [e] \<and> er = e # ents (ix_pages s) r \<and> dd = r"
proof -
  note sd = siblingsD [OF sib] and goal = that
  have ne: "l \<noteq> r" "q \<noteq> l" "q \<noteq> r" using d by auto
  have up: thesis
    if run: "redistribute c p q k s = Inr (s\<lparr>ix_pages := moved l r q el er (e1 @ [(first_key (ix_pages s) l, rl), (fst (hd er), rr)] @ e2) dd (kids (node s l) [e]) (ix_pages s)\<rparr>)"
      and alt: "k = 0 \<and> ents (ix_pages s) r = e # er \<and> el = ents (ix_pages s) l @ [e] \<and> dd = l
        \<or> k \<noteq> 0 \<and> ents (ix_pages s) l = el @ [e] \<and> er = e # ents (ix_pages s) r \<and> dd = r" and h: "el \<noteq> []" "hd el = hd (ents (ix_pages s) l)" for e el er dd
  proof -
    define g where "g = moved l r q el er (e1 @ [(first_key (ix_pages s) l, rl), (fst (hd er), rr)] @ e2) dd (kids (node s l) [e]) (ix_pages s)"
    have "x \<in> kids (node s l) (ents (ix_pages s) l @ ents (ix_pages s) r)" if "x \<in> kids (node s l) [e]" for x
      using that alt by (auto simp: kids_def split: if_splits)
    then have S: "kids (node s l) [e] \<inter> (set (as @ [l, r] @ bs) \<union> set (concat ((ms1 @ q # ms2) # Ms))) = {}" using kid by blast
    have em: "map to_child [(first_key (ix_pages s) l, rl), (fst (hd er), rr)] = map (\<lambda>c. (first_key g c, c)) [l, r]"
      using ne h sd(7,8) by (simp add: g_def moved_sel to_child_def first_key_def)
    have mu: "link g (as @ [l, r] @ bs) (ms1 @ q # ms2)" "stacked g (ms1 @ q # ms2) Ms"
      by (rule moved_up [OF st d sd(6) _ sd(9-12) S em _ _ _ g_def], simp_all)+
    show thesis by (rule goal [OF run [folded g_def] g_def _ mu refl alt]) (use alt in \<open>auto\<close>)
  qed
  show thesis
    using sd(5) unfolding ordered_def
  proof (elim disjE conjE)
    assume c: "k = 0" "l = p" "r = c" "length e1 = 0"
    obtain e er where er: "ents (ix_pages s) r = e # er" "er \<noteq> []" using sz(3) c by (cases "ents (ix_pages s) r"; cases "tl (ents (ix_pages s) r)") auto
    have kd: "x \<notin> {l, r, q} \<and> 0 \<le> x \<and> x < ix_num_pages (ix_hdr s)" if "x \<in> kids (node s l) [e]" for x
      using kid [of x] er that by (auto simp: kids_def split: if_splits)
    have "redistribute c p q k s = Inr (s\<lparr>ix_pages := moved l r q (ents (ix_pages s) l @ [e]) er (e1 @ [(first_key (ix_pages s) l, rl), (fst (hd er), rr)] @ e2) l (kids (node s l) [e]) (ix_pages s)\<rparr>)"
      using redistribute_first [OF ne, of s "ents (ix_pages s) l" e er "first_key (ix_pages s) l" rl "first_key (ix_pages s) r" rr e2] er sz(2) sd(6) c pins kd
      by (simp add: ents_def)
    then show thesis by (rule up) (use c er sz(1) in auto)
  next
    assume c: "k = Suc (length e1)" "l = c" "r = p"
    obtain el e where el: "ents (ix_pages s) l = el @ [e]" "el \<noteq> []" using sz(3) c by (cases "ents (ix_pages s) l" rule: rev_cases) (auto simp: Suc_le_eq)
    have kd: "x \<notin> {l, r, q} \<and> 0 \<le> x \<and> x < ix_num_pages (ix_hdr s)" if "x \<in> kids (node s r) [e]" for x
      using kid [of x] el that lf by (auto simp: kids_def split: if_splits)
    have kk: "kids (node s r) [e] = kids (node s l) [e]" using lf by (simp add: kids_def)
    have "redistribute c p q k s = Inr (s\<lparr>ix_pages := moved l r q el (e # ents (ix_pages s) r) (e1 @ [(first_key (ix_pages s) l, rl), (fst (hd (e # ents (ix_pages s) r)), rr)] @ e2) r (kids (node s l) [e]) (ix_pages s)\<rparr>)"
      using redistribute_last [OF ne, of s el e "ents (ix_pages s) r" e1 "first_key (ix_pages s) l" rl "first_key (ix_pages s) r" rr e2] el sz(2) sd(6) c pins kd kk
      by (simp add: ents_def)
    then show thesis by (rule up) (use c el sz(1) in auto)
  qed
qed

text \<open>What a step that moves entries between two neighbours leaves alone.\<close>

lemma moved_spares:
  assumes "t = s\<lparr>ix_pins := P, ix_pages := moved l r q el er eq dd S (ix_pages s)\<rparr>" and "{l, r, q} \<subseteq> set (concat Xs)" and "S \<subseteq> set K"
  shows "spares s K Xs t"
proof (rule sparesI)
  fix x assume x: "x \<notin> set (concat Xs)"
  then have n: "x \<noteq> l" "x \<noteq> r" "x \<noteq> q" using assms(2) by blast+
  then show "(node t x)\<lparr>nd_parent := 0\<rparr> = (node s x)\<lparr>nd_parent := 0\<rparr>" by (simp add: assms(1) moved_def reparent_def)
  assume "x \<notin> set K"
  then have "x \<notin> S" using assms(3) by blast
  then show "node t x = node s x" using n by (simp add: assms(1) moved_def reparent_def)
qed

text \<open>The neighbours of a node of an inner level, and their children.\<close>

lemma loose_siblings:
  assumes l: "loose s K xs p ys (M # Ms)"
  obtains k c q l r as bs ms1 ms2 e1 e2 rl rr where "siblings (ix_pages s) k p c q l r as bs ms1 ms2 e1 e2 rl rr" "M = ms1 @ q # ms2" "xs @ p # ys = as @ [l, r] @ bs"
    "c \<in> set (xs @ ys)" "\<And>x. x \<in> kids (node s l) (ents (ix_pages s) l @ ents (ix_pages s) r) \<Longrightarrow>
        x \<in> set K \<and> x \<notin> set (as @ [l, r] @ bs) \<union> set (concat ((ms1 @ q # ms2) # Ms)) \<and> 0 \<le> x \<and> x < ix_num_pages (ix_hdr s)"
    "\<not> nd_leaf (node s l)" "\<not> nd_leaf (node s r)" "2 \<le> q" "q < ix_num_pages (ix_hdr s)" "0 \<le> c" "c < ix_num_pages (ix_hdr s)"
proof -
  note ld = looseD [OF l]
  have lx: "link (ix_pages s) (xs @ p # ys) M" and dx: "distinct (xs @ p # ys)" using ld(2,3) by auto
  obtain k c q l r as bs ms1 ms2 e1 e2 rl rr where sb: "siblings (ix_pages s) k p c q l r as bs ms1 ms2 e1 e2 rl rr"
      and M: "M = ms1 @ q # ms2" and X: "xs @ p # ys = as @ [l, r] @ bs"
    by (rule link_sibling [OF lx dx wide_filled [OF ld(7,8)]])
  have lr: "{l, r} = {p, c}" "l \<noteq> r" using siblingsD(5) [OF sb] dx X by (auto simp: ordered_def)
  then have cX: "c \<in> set (xs @ p # ys)" "c \<noteq> p" unfolding X by auto
  have kid: "x \<in> set K \<and> x \<notin> set (as @ [l, r] @ bs) \<union> set (concat ((ms1 @ q # ms2) # Ms)) \<and> 0 \<le> x \<and> x < ix_num_pages (ix_hdr s)"
    if x: "x \<in> kids (node s l) (ents (ix_pages s) l @ ents (ix_pages s) r)" for x
  proof -
    obtain m e where "m \<in> {l, r}" "e \<in> set (ents (ix_pages s) m)" "x = page_no (snd e)" using x by (auto simp: kids_def split: if_splits)
    then have xK: "x \<in> set K" using link_kid [OF ld(1), of m e] X by auto
    then have "x \<notin> set (concat ((xs @ p # ys) # M # Ms))" using ld(3) by auto
    moreover have "2 \<le> x \<and> x < ix_next_page s" using ld(4) [of x] xK by simp
    ultimately show ?thesis using xK ld(5) X M by auto
  qed
  have "\<not> nd_leaf (node s l)" "\<not> nd_leaf (node s r)" using linkD(2) [OF ld(1)] X by auto
  moreover have "2 \<le> q \<and> q < ix_next_page s" by (rule ld(4)) (simp add: M)
  moreover have "2 \<le> c \<and> c < ix_next_page s" by (rule ld(4)) (use cX in auto)
  ultimately show ?thesis using that [OF sb M X _ kid] cX ld(5) by auto
qed

lemma moved_wide:
  assumes w: "wide h g (M # Ms)" and ne: "l \<noteq> r" "q \<noteq> l" "q \<noteq> r" and d: "l \<notin> set (concat (M # Ms))" "r \<notin> set (concat (M # Ms))"
    and eq: "length eq = length (ents g q)"
  shows "wide h (moved l r q el er eq dd S g) (M # Ms)"
proof (rule wide_cong [OF w])
  fix m assume "m \<in> set (concat (M # Ms))"
  then have "m \<noteq> l" "m \<noteq> r" using d by blast+
  then show "length (ents (moved l r q el er eq dd S g) m) = length (ents g m)" using eq by (simp add: moved_sel [OF ne])
qed

lemma inner_redistribute:
  assumes l: "loose s K xs p ys (M # Ms)" and sb: "siblings (ix_pages s) k p c q l r as bs ms1 ms2 e1 e2 rl rr" and M: "M = ms1 @ q # ms2"
    and X: "xs @ p # ys = as @ [l, r] @ bs" and c: "c \<in> set (xs @ ys)" and lf: "\<not> nd_leaf (node s l)" "\<not> nd_leaf (node s r)"
    and kid: "\<And>x. x \<in> kids (node s l) (ents (ix_pages s) l @ ents (ix_pages s) r) \<Longrightarrow>
        x \<in> set K \<and> x \<notin> set (as @ [l, r] @ bs) \<union> set (concat ((ms1 @ q # ms2) # Ms)) \<and> 0 \<le> x \<and> x < ix_num_pages (ix_hdr s)"
    and small: "length (ents (ix_pages s) p) < get_min_size (ix_hdr s)"
    and enough: "2 * get_min_size (ix_hdr s) \<le> length (ents (ix_pages s) p) + length (ents (ix_pages s) c)" and pins: "size (ix_pins s) < ix_frames s"
  obtains g where "redistribute c p q k s = Inr (s\<lparr>ix_pages := g\<rparr>)"
    "settled s K ((xs @ p # ys) # M # Ms) (s\<lparr>ix_pages := g\<rparr>) ((xs @ p # ys) # M # Ms)"
proof -
  note ld = looseD [OF l] and sd = siblingsD [OF sb]
  let ?X = "as @ [l, r] @ bs"
  have d: "distinct (?X @ concat ((ms1 @ q # ms2) # Ms))" "distinct K" "set K \<inter> (set ?X \<union> set (concat (M # Ms))) = {}"
    using ld(3) unfolding X [symmetric] M [symmetric] by auto
  have ne: "l \<noteq> r" "q \<noteq> l" "q \<noteq> r" using d(1) by auto
  have ms: "2 \<le> get_min_size (ix_hdr s)" by (rule min_size_pos [OF ld(8)])
  have p: "get_min_size (ix_hdr s) - 1 \<le> length (ents (ix_pages s) p)" using ld(10) by simp
  have lnk: "link (ix_pages s) ?X (ms1 @ q # ms2)" "stacked (ix_pages s) (ms1 @ q # ms2) Ms" using ld(2) X M by simp_all
  have cl: "get_min_size (ix_hdr s) < length (ents (ix_pages s) c)" using small enough by simp
  have p0: "ents (ix_pages s) p \<noteq> []" using p ms by auto
  have lfe: "nd_leaf (node s r) = nd_leaf (node s l)" using lf by simp
  have c2: "2 \<le> length (ents (ix_pages s) c)" using cl ms by simp
  have kid': "x \<notin> set ?X \<union> set (concat ((ms1 @ q # ms2) # Ms)) \<and> 0 \<le> x \<and> x < ix_num_pages (ix_hdr s)"
    if "x \<in> kids (node s l) (ents (ix_pages s) l @ ents (ix_pages s) r)" for x using kid [OF that] by blast
  obtain e el er dd S g where run: "redistribute c p q k s = Inr (s\<lparr>ix_pages := g\<rparr>)"
      and g: "g = moved l r q el er (e1 @ [(first_key (ix_pages s) l, rl), (fst (hd er), rr)] @ e2) dd S (ix_pages s)"
      and all: "el @ er = ents (ix_pages s) l @ ents (ix_pages s) r" and up: "link g ?X (ms1 @ q # ms2)" "stacked g (ms1 @ q # ms2) Ms"
      and S: "S = kids (node s l) [e]" and alt: "k = 0 \<and> ents (ix_pages s) r = e # er \<and> el = ents (ix_pages s) l @ [e] \<and> dd = l
        \<or> k \<noteq> 0 \<and> ents (ix_pages s) l = el @ [e] \<and> er = e # ents (ix_pages s) r \<and> dd = r"
    by (rule redistribute_ok [OF sb lnk d(1) lfe p0 ld(11) c2 pins kid'])
  note sel = moved_sel [OF ne, of el er "e1 @ [(first_key (ix_pages s) l, rl), (fst (hd er), rr)] @ e2" dd S "ix_pages s", folded g]
  have lX: "link (ix_pages s) K ?X" using ld(1) X by simp
  have Sk: "S \<subseteq> (\<lambda>e. page_no (snd e)) ` set (ents (ix_pages s) l @ ents (ix_pages s) r)" using S alt lf by (auto simp: kids_def)
  have dk: "distinct (map (\<lambda>e. page_no (snd e)) (ents (ix_pages s) m))" if "m \<in> {l, r}" for m
    by (rule link_kids_distinct [OF lX d(2)]) (use that in auto)
  have par: "(if page_no (snd f) \<in> S then dd else nd_parent (node s (page_no (snd f)))) = m" if m: "m \<in> set [l, r]" and f: "f \<in> set (ents g m)" for m f
  proof -
    have pl: "nd_parent (node s (page_no (snd f))) = x" if "f \<in> set (ents (ix_pages s) x)" "x \<in> {l, r}" for x
      using linkD(3) [OF lX, of x f] that by auto
    have S1: "S = {page_no (snd e)}" using S lf by (simp add: kids_def)
    show ?thesis
      using alt
    proof (elim disjE conjE)
      assume a: "k = 0" "ents (ix_pages s) r = e # er" "el = ents (ix_pages s) l @ [e]" "dd = l"
      show ?thesis
      proof (cases "m = l")
        case True
        then show ?thesis using f a pl [of l] S1 by (auto simp: sel)
      next
        case False
        then have fr: "m = r" "f \<in> set er" using m f ne by (auto simp: sel)
        then have "page_no (snd f) \<in> (\<lambda>e. page_no (snd e)) ` set er" by blast
        moreover have "page_no (snd e) \<notin> (\<lambda>e. page_no (snd e)) ` set er" using dk [of r] a(2) by simp
        ultimately have "page_no (snd f) \<noteq> page_no (snd e)" by metis
        then show ?thesis using a fr pl [of r] S1 by simp
      qed
    next
      assume a: "k \<noteq> 0" "ents (ix_pages s) l = el @ [e]" "er = e # ents (ix_pages s) r" "dd = r"
      show ?thesis
      proof (cases "m = r")
        case True
        then show ?thesis using f a pl [of r] S1 ne by (auto simp: sel)
      next
        case False
        then have fl: "m = l" "f \<in> set el" using m f ne by (auto simp: sel)
        then have "page_no (snd f) \<in> (\<lambda>e. page_no (snd e)) ` set el" by blast
        moreover have "page_no (snd e) \<notin> (\<lambda>e. page_no (snd e)) ` set el" using dk [of l] a(2) by simp
        ultimately have "page_no (snd f) \<noteq> page_no (snd e)" by metis
        then show ?thesis using a fl pl [of l] S1 by simp
      qed
    qed
  qed
  have qn: "q \<notin> set (as @ bs)" "q \<notin> set K" "distinct ?X" "set K \<inter> set ?X = {}" using d M by auto
  have "link g K (as @ [l, r] @ bs)"
    by (rule moved_down [OF lX ne d(2) qn(3,1,4,2) Sk g _ _ par]) (use all ne in \<open>auto simp: sel\<close>)
  then have "stacked g K ((xs @ p # ys) # M # Ms)" using up X M by simp
  moreover have "wide (ix_hdr s) g ((xs @ p # ys) # M # Ms)"
  proof -
    have "wide (ix_hdr s) g (M # Ms)" unfolding g by (rule moved_wide [OF ld(7) ne]) (use d(1) M sd(6) in auto)
    moreover have "get_min_size (ix_hdr s) \<le> length (ents g m) \<and> length (ents g m) \<le> btree_order (ix_hdr s)" if "m \<in> set (xs @ p # ys)" for m
    proof (cases "m \<in> {l, r}")
      case True
      have "length (ents g p) = length (ents (ix_pages s) p) + 1" "length (ents g c) + 1 = length (ents (ix_pages s) c)" "{l, r} = {p, c}"
        using alt sd(5) ne by (auto simp: sel ordered_def)
      then show ?thesis using True p small cl ld(9) [OF c] ld(11) by (auto simp: get_min_size_def get_max_size_def)
    next
      case False
      have "m \<in> set ?X" using that unfolding X .
      then have "m \<noteq> q" using qn(1) ne False by auto
      moreover have "m \<noteq> p" using False sd(5) by (auto simp: ordered_def)
      ultimately have "m \<in> set (xs @ ys)" "ents g m = ents (ix_pages s) m" using that False by (auto simp: sel)
      then show ?thesis using ld(9) [of m] by simp
    qed
    ultimately show ?thesis by simp
  qed
  moreover have "spares s K ((xs @ p # ys) # M # Ms) (s\<lparr>ix_pages := g\<rparr>)"
  proof (rule moved_spares [where P = "ix_pins s"])
    show "S \<subseteq> set K" using Sk link_kid [OF lX] by fastforce
    show "{l, r, q} \<subseteq> set (concat ((xs @ p # ys) # M # Ms))" using X M by auto
  qed (simp add: g)
  ultimately have "settled s K ((xs @ p # ys) # M # Ms) (s\<lparr>ix_pages := g\<rparr>) ((xs @ p # ys) # M # Ms)"
    using ld(3,6) by (simp add: settled_def)
  with run show thesis by (rule that)
qed

text \<open>After two neighbours have been merged, their parent may be too small.\<close>

lemma merged_loose:
  assumes sb: "siblings (ix_pages s) k p c q l r as bs ms1 ms2 e1 e2 rl rr"
    and st: "link (ix_pages s) (as @ [l, r] @ bs) (ms1 @ q # ms2)" "stacked (ix_pages s) (ms1 @ q # ms2) Ms"
    and d: "distinct ((as @ [l, r] @ bs) @ concat ((ms1 @ q # ms2) # Ms))"
    and rng: "\<And>x. x \<in> set ((as @ [l, r] @ bs) @ concat ((ms1 @ q # ms2) # Ms)) \<Longrightarrow> 2 \<le> x \<and> x < ix_next_page s" and num: "ix_num_pages (ix_hdr s) = ix_next_page s"
    and top: "last ((ms1 @ q # ms2) # Ms) = [root_page (ix_hdr s)]" and w: "wide (ix_hdr s) (ix_pages s) ((ms1 @ q # ms2) # Ms)" and o: "3 \<le> btree_order (ix_hdr s)"
    and el: "ents (ix_pages s) l \<noteq> []" and S: "S \<inter> (set (as @ [l, r] @ bs) \<union> set (concat ((ms1 @ q # ms2) # Ms))) = {}"
    and g: "g = moved l r q (ents (ix_pages s) l @ er) er (e1 @ [(first_key (ix_pages s) l, rl)] @ e2) l S (ix_pages s)"
    and t: "ix_pages t = g'" "ix_next_page t = ix_next_page s" "ix_num_pages (ix_hdr t) = ix_num_pages (ix_hdr s)" "root_page (ix_hdr t) = root_page (ix_hdr s)"
      "btree_order (ix_hdr t) = btree_order (ix_hdr s)"
    and g': "\<And>x. nd_ents (g' x) = nd_ents (g x) \<and> nd_leaf (g' x) = nd_leaf (g x) \<and> nd_parent (g' x) = nd_parent (g x)"
  shows "loose t (as @ [l] @ bs) ms1 q ms2 Ms"
proof -
  note sd = siblingsD [OF sb]
  let ?M = "ms1 @ q # ms2"
  have ne: "l \<noteq> r" "q \<noteq> l" "q \<noteq> r" using d by auto
  note sel = moved_sel [OF ne, of "ents (ix_pages s) l @ er" er "e1 @ [(first_key (ix_pages s) l, rl)] @ e2" l S "ix_pages s", folded g]
  have em: "map to_child [(first_key (ix_pages s) l, rl)] = map (\<lambda>c. (first_key g c, c)) [l]"
    using sd(7) el by (simp add: sel to_child_def first_key_def)
  have up: "link g (as @ [l] @ bs) ?M" "stacked g ?M Ms"
    by (rule moved_up [OF st d sd(6) _ sd(9-12) S em _ _ _ g], simp_all)+
  have eg: "ents g' x = ents g x" "first_key g' x = first_key g x" for x using g' [of x] by (simp_all add: ents_def first_key_def)
  have "link g' (as @ [l] @ bs) ?M" by (rule link_cong [OF up(1)]) (use g' eg in simp_all)
  moreover have "stacked g' ?M Ms" by (rule stacked_cong [OF up(2)]) (use g' eg in simp_all)
  moreover have "distinct ((as @ [l] @ bs) @ concat (?M # Ms))" using d by auto
  moreover have "2 \<le> x \<and> x < ix_next_page t" if "x \<in> set ((as @ [l] @ bs) @ concat (?M # Ms))" for x
    using rng [of x] that t(2) by auto
  moreover have "get_min_size (ix_hdr t) = get_min_size (ix_hdr s)" using t(5) by (simp add: get_min_size_def get_max_size_def)
  moreover have same: "ents g' m = ents (ix_pages s) m" if "m \<in> set (ms1 @ ms2) \<union> set (concat Ms)" for m
  proof -
    have "m \<noteq> l" "m \<noteq> r" "m \<noteq> q" using that d by auto
    then show ?thesis by (simp add: eg sel)
  qed
  moreover have "wide (ix_hdr t) g' Ms" unfolding wide_hdr [OF t(5)]
    by (rule wide_cong [where g = "ix_pages s"]) (use w same in auto)
  moreover have "Ms \<noteq> [] \<or> ms1 @ ms2 = []" using st(2) by (cases Ms) (auto simp: append_eq_Cons_conv)
  moreover have "get_min_size (ix_hdr s) \<le> length (ents g' m) \<and> length (ents g' m) \<le> btree_order (ix_hdr s)" if "m \<in> set (ms1 @ ms2)" for m
    using w that same [of m] \<open>Ms \<noteq> [] \<or> ms1 @ ms2 = []\<close> by auto
  moreover have "length (ents g' q) + 1 = length (ents (ix_pages s) q)" using ne sd(6) by (simp add: eg sel)
  moreover have "(if Ms = [] then 2 else get_min_size (ix_hdr s)) \<le> length (ents (ix_pages s) q)" "length (ents (ix_pages s) q) \<le> btree_order (ix_hdr s)"
    using w by auto
  ultimately show ?thesis using t num top o unfolding loose_def by (auto split: if_splits)
qed

lemma settledD:
  assumes "settled s K Xs t Ys"
  shows "stacked (ix_pages t) K Ys" "wide (ix_hdr s) (ix_pages t) Ys" "last (K # Ys) = [root_page (ix_hdr t)]" "distinct (concat Ys)"
    "set (concat Ys) \<subseteq> set (concat Xs)" "spares s K Xs t"
  using assms by (simp_all add: settled_def)

lemma prunedD:
  assumes "pruned s q died t"
  shows "ix_pins t = (if died then ix_pins s - {#q#} else ix_pins s)" "ix_next_page t = ix_next_page s" "ix_frames t = ix_frames s"
    "cached_leaf_no t = cached_leaf_no s" "pinned_leaf_no t = pinned_leaf_no s" "pinned_leaf_page t = pinned_leaf_page s"
    "ix_hdr t = (ix_hdr s)\<lparr>root_page := root_page (ix_hdr t)\<rparr>"
proof -
  note c = assms [unfolded pruned_def]
  show "ix_pins t = (if died then ix_pins s - {#q#} else ix_pins s)" "ix_next_page t = ix_next_page s" "ix_frames t = ix_frames s"
    "cached_leaf_no t = cached_leaf_no s" "pinned_leaf_no t = pinned_leaf_no s" "pinned_leaf_page t = pinned_leaf_page s"
    "ix_hdr t = (ix_hdr s)\<lparr>root_page := root_page (ix_hdr t)\<rparr>"
    by (subst c, simp)+
qed

lemma pruned_pages: "pruned (s\<lparr>ix_pins := P, ix_pages := g\<rparr>) q died u = pruned (s\<lparr>ix_pins := P\<rparr>) q died u"
  by (cases died) (simp_all add: pruned_def)

lemma pruned_over:
  assumes "pruned w q died u" and "v = u\<lparr>ix_pins := if dead then ix_pins s - {#p#} else ix_pins s\<rparr>" and "w\<lparr>ix_pins := ix_pins s\<rparr> = s"
  shows "pruned s p dead v"
proof -
  let ?P = "if dead then ix_pins s - {#p#} else ix_pins s"
  have "v = w\<lparr>ix_pins := ?P, ix_pages := ix_pages u, ix_hdr := (ix_hdr w)\<lparr>root_page := root_page (ix_hdr u)\<rparr>\<rparr>"
    unfolding assms(2) by (subst assms(1) [unfolded pruned_def]) simp
  also have "\<dots> = s\<lparr>ix_pins := ?P, ix_pages := ix_pages u, ix_hdr := (ix_hdr s)\<lparr>root_page := root_page (ix_hdr u)\<rparr>\<rparr>"
    by (subst (3 4) assms(3) [symmetric]) simp
  finally show ?thesis by (simp add: pruned_def assms(2))
qed

lemma inner_coalesce:
  assumes l: "loose s K xs p ys (M # Ms)" and sb: "siblings (ix_pages s) k p c q l r as bs ms1 ms2 e1 e2 rl rr" and M: "M = ms1 @ q # ms2"
    and X: "xs @ p # ys = as @ [l, r] @ bs" and c: "c \<in> set (xs @ ys)" and lf: "\<not> nd_leaf (node s l)" "\<not> nd_leaf (node s r)"
    and kid: "\<And>x. x \<in> kids (node s l) (ents (ix_pages s) l @ ents (ix_pages s) r) \<Longrightarrow>
        x \<in> set K \<and> x \<notin> set (as @ [l, r] @ bs) \<union> set (concat ((ms1 @ q # ms2) # Ms)) \<and> 0 \<le> x \<and> x < ix_num_pages (ix_hdr s)"
    and few: "length (ents (ix_pages s) p) + length (ents (ix_pages s) c) < 2 * get_min_size (ix_hdr s)" and pins: "size (ix_pins s) < ix_frames s"
    and IH: "\<And>t K. loose t K ms1 q ms2 Ms \<Longrightarrow> ix_frames t = ix_frames s \<Longrightarrow> size (ix_pins t) \<le> size (ix_pins s) \<Longrightarrow>
      \<exists>died u Ys. coalesce_or_redistribute n q t = Inr (died, u) \<and> pruned t q died u \<and> settled t K ((ms1 @ q # ms2) # Ms) u Ys"
  shows "\<exists>died u Ys. coalesce (coalesce_or_redistribute n) c p q k s = Inr (died, u) \<and> pruned (s\<lparr>ix_pins := ix_pins s - {#r#}\<rparr>) q died u
    \<and> settled s K ((xs @ p # ys) # M # Ms) u Ys"
proof -
  note ld = looseD [OF l] and sd = siblingsD [OF sb]
  let ?X = "as @ [l, r] @ bs" and ?X1 = "as @ [l] @ bs"
  let ?el = "ents (ix_pages s) l" and ?er = "ents (ix_pages s) r" and ?S = "kids (node s l) (ents (ix_pages s) r)"
  have d: "distinct (?X @ concat ((ms1 @ q # ms2) # Ms))" "distinct K" "set K \<inter> (set ?X \<union> set (concat (M # Ms))) = {}"
    using ld(3) unfolding X [symmetric] M [symmetric] by auto
  have ne: "l \<noteq> r" "q \<noteq> l" "q \<noteq> r" using d(1) by auto
  have lrp: "{l, r} = {p, c}" using sd(5) by (auto simp: ordered_def)
  have both: "length ?el + length ?er = length (ents (ix_pages s) p) + length (ents (ix_pages s) c)" using sd(5) by (auto simp: ordered_def)
  have ms: "2 \<le> get_min_size (ix_hdr s)" "2 * get_min_size (ix_hdr s) \<le> btree_order (ix_hdr s) + 1"
    using min_size_pos [OF ld(8)] by (simp_all add: get_min_size_def get_max_size_def)
  have lnk: "link (ix_pages s) ?X (ms1 @ q # ms2)" "stacked (ix_pages s) (ms1 @ q # ms2) Ms" "link (ix_pages s) K ?X" using ld(1,2) X M by simp_all
  have Sk: "x \<in> set K \<and> x \<notin> set ?X \<union> set (concat ((ms1 @ q # ms2) # Ms)) \<and> 0 \<le> x \<and> x < ix_num_pages (ix_hdr s)" if "x \<in> ?S" for x
    by (rule kid) (use that in \<open>auto simp: kids_def split: if_splits\<close>)
  have Se: "?S \<subseteq> (\<lambda>e. page_no (snd e)) ` set (?el @ ?er)" using lf by (auto simp: kids_def)
  define g where "g = moved l r q (?el @ ?er) ?er (e1 @ [(first_key (ix_pages s) l, rl)] @ e2) l ?S (ix_pages s)"
  note sel = moved_sel [OF ne, of "?el @ ?er" ?er "e1 @ [(first_key (ix_pages s) l, rl)] @ e2" l ?S "ix_pages s", folded g_def]
  define t where "t = s\<lparr>ix_pins := ix_pins s - {#r#}, ix_pages := g\<rparr>"
  have run: "coalesce (coalesce_or_redistribute n) c p q k s = coalesce_or_redistribute n q t"
    unfolding t_def g_def
    by (rule coalesce_inner [OF sd(5) ne lf _ _ sd(6) [unfolded ents_def]]) (use few both ms Sk pins in \<open>auto simp: ents_def\<close>)
  have "get_min_size (ix_hdr s) - 1 \<le> length ?el" using lrp ld(9) [OF c] ld(10) by (auto simp: doubleton_eq_iff)
  then have el: "?el \<noteq> []" using ms by auto
  have lt: "loose t ?X1 ms1 q ms2 Ms"
    by (rule merged_loose [OF sb lnk(1,2) d(1) _ ld(5) _ _ ld(8) el _ g_def, where g' = g])
      (use ld(4,6,7) M X Sk in \<open>auto simp: t_def\<close>)
  have qn: "q \<notin> set (as @ bs)" "q \<notin> set K" "distinct ?X" "set K \<inter> set ?X = {}" using d M by auto
  have par: "(if page_no (snd e) \<in> ?S then l else nd_parent (node s (page_no (snd e)))) = m" if m: "m \<in> set [l]" and e: "e \<in> set (ents g m)" for m e
  proof (cases "page_no (snd e) \<in> ?S")
    case False
    then have "e \<notin> set ?er" using lf by (auto simp: kids_def)
    then have "e \<in> set ?el" using m e by (auto simp: sel)
    then show ?thesis using False m linkD(3) [OF lnk(3), of l e] by simp
  qed (use m in simp)
  have low: "link g K ?X1"
    by (rule moved_down [OF lnk(3) ne d(2) qn(3,1,4,2) Se g_def _ _ par]) (auto simp: sel)
  have szt: "ix_frames t = ix_frames s" "size (ix_pins t) \<le> size (ix_pins s)"
    by (simp_all add: t_def size_mset_mono diff_subset_eq_self)
  obtain died u Ys where u: "coalesce_or_redistribute n q t = Inr (died, u)" "pruned t q died u" "settled t ?X1 ((ms1 @ q # ms2) # Ms) u Ys"
    using IH [OF lt szt] by blast
  note st = settledD [OF u(3)]
  have X1: "x \<notin> set (concat ((ms1 @ q # ms2) # Ms))" "x < ix_next_page t" if "x \<in> set ?X1 \<union> set K" for x
    using d(1,3) ld(4) [of x] that X M by (auto simp: t_def)
  have pt: "ix_pages t = g" by (simp add: t_def)
  have eu: "ents (ix_pages u) x = ents g x" "nd_leaf (node u x) = nd_leaf (g x)" if "x \<in> set ?X1" for x
    using sparesD(1,3) [OF st(6) X1 [OF UnI1 [OF that]]] by (simp_all only: pt)
  have "link (ix_pages u) K ?X1"
  proof (rule link_cong [OF low])
    show "ents (ix_pages u) m = ents g m \<and> nd_leaf (node u m) = nd_leaf (g m)" if "m \<in> set ?X1" for m using eu [OF that] by simp
    show "first_key (ix_pages u) x = first_key g x \<and> nd_parent (node u x) = nd_parent (g x)" if x: "x \<in> set K" for x
    proof -
      have "x \<notin> set ?X1" using x qn(4) by auto
      then have "node u x = g x" unfolding pt [symmetric] by (rule sparesD(6) [OF st(6) X1 [OF UnI2 [OF x]]])
      then show ?thesis by (simp add: first_key_def ents_def)
    qed
  qed
  moreover have "wide (ix_hdr s) (ix_pages u) (?X1 # Ys)"
  proof -
    have "get_min_size (ix_hdr s) \<le> length (ents g m) \<and> length (ents g m) \<le> btree_order (ix_hdr s)" if "m \<in> set ?X1" for m
    proof (cases "m = l")
      case True
      then show ?thesis using both few ms ld(9) [OF c] by (simp add: sel)
    next
      case False
      have mX: "m \<in> set ?X" "m \<noteq> r" using that d(1) by auto
      then have "m \<noteq> q" using qn(1) ne by auto
      moreover have "m \<noteq> p" using False mX lrp by blast
      moreover have "m \<in> set (xs @ p # ys)" unfolding X by (rule mX)
      ultimately have "m \<in> set (xs @ ys)" "ents g m = ents (ix_pages s) m" using False mX by (auto simp: sel)
      then show ?thesis using ld(9) [of m] by simp
    qed
    then show ?thesis using st(2) eu ms(1) by (fastforce simp: t_def)
  qed
  moreover have "distinct (concat (?X1 # Ys))"
  proof -
    have "set ?X1 \<inter> set (concat Ys) = {}" using st(5) X1(1) by blast
    then show ?thesis using st(4) qn(3) by auto
  qed
  moreover have "set (concat (?X1 # Ys)) \<subseteq> set (concat ((xs @ p # ys) # M # Ms))" using st(5) X M by auto
  moreover have "spares s K ((xs @ p # ys) # M # Ms) u"
  proof -
    have s1: "spares s K ((xs @ p # ys) # M # Ms) t"
      by (rule moved_spares [where P = "ix_pins s - {#r#}"]) (use Sk X M in \<open>auto simp: t_def g_def\<close>)
    have out: "node u x = node t x" if "x \<notin> set (concat ((xs @ p # ys) # M # Ms))" "x < ix_next_page s" for x
    proof (rule sparesD(6) [OF st(6)])
      show "x \<notin> set ?X1" using that(1) X by auto
    qed (use that M in \<open>auto simp: t_def\<close>)
    show ?thesis by (rule sparesI) (use s1 out in \<open>auto simp: spares_def\<close>)
  qed
  ultimately have "settled s K ((xs @ p # ys) # M # Ms) u (?X1 # Ys)" using st(1,3) by (simp add: settled_def)
  moreover have "pruned (s\<lparr>ix_pins := ix_pins s - {#r#}\<rparr>) q died u" using u(2) unfolding t_def pruned_pages .
  ultimately show ?thesis using run u(1) by auto
qed

lemma loose_pins: "loose (s\<lparr>ix_pins := P\<rparr>) = loose s" "settled (s\<lparr>ix_pins := P\<rparr>) = settled s"
  by (simp_all add: fun_eq_iff loose_def settled_def spares_def)

lemma settled_pins: "settled s K Xs (t\<lparr>ix_pins := P\<rparr>) Ys = settled s K Xs t Ys"
  by (simp add: settled_def spares_def)

lemma inner_ok:
  assumes "loose s K xs p ys Ms" and "size (ix_pins s) + 2 * length Ms < ix_frames s" and "length Ms < n"
  shows "\<exists>died t Ys. coalesce_or_redistribute n p s = Inr (died, t) \<and> pruned s p died t \<and> settled s K ((xs @ p # ys) # Ms) t Ys"
  using assms
proof (induction Ms arbitrary: s K xs p ys n)
  case Nil
  then show ?case using inner_top [of s K xs p ys] by (cases n) auto
next
  case (Cons M Ms)
  note l = Cons.prems(1)
  obtain m where n: "n = Suc m" "length Ms < m" using Cons.prems(3) by (cases n) auto
  show ?case
  proof (cases "get_min_size (ix_hdr s) \<le> length (ents (ix_pages s) p)")
    case True
    then show ?thesis using inner_fine [OF l, of m] n(1) by auto
  next
    case False
    obtain k c q l r as bs ms1 ms2 e1 e2 rl rr where sb: "siblings (ix_pages s) k p c q l r as bs ms1 ms2 e1 e2 rl rr" and M: "M = ms1 @ q # ms2"
        and X: "xs @ p # ys = as @ [l, r] @ bs" and cX: "c \<in> set (xs @ ys)"
        and kid: "\<And>x. x \<in> kids (node s l) (ents (ix_pages s) l @ ents (ix_pages s) r) \<Longrightarrow>
          x \<in> set K \<and> x \<notin> set (as @ [l, r] @ bs) \<union> set (concat ((ms1 @ q # ms2) # Ms)) \<and> 0 \<le> x \<and> x < ix_num_pages (ix_hdr s)"
        and lf: "\<not> nd_leaf (node s l)" "\<not> nd_leaf (node s r)" and q: "2 \<le> q" "q < ix_num_pages (ix_hdr s)" and c: "0 \<le> c" "c < ix_num_pages (ix_hdr s)"
      by (rule loose_siblings [OF l]) blast
    note sd = siblingsD [OF sb]
    let ?P = "add_mset c (add_mset q (ix_pins s))"
    define t where "t = s\<lparr>ix_pins := ?P\<rparr>"
    have small: "length (ents (ix_pages s) p) < get_min_size (ix_hdr s)" using False by simp
    have pins: "size (ix_pins s) + 1 < ix_frames s" "size (ix_pins t) < ix_frames t" using Cons.prems(2) by (simp_all add: t_def)
    note step = cor_step [OF sd(1) q small sd(3,4) c pins(1), of m, folded n(1) t_def]
    have lt: "loose t K xs p ys (M # Ms)" and sbt: "siblings (ix_pages t) k p c q l r as bs ms1 ms2 e1 e2 rl rr"
      using l sb by (simp_all add: t_def loose_pins)
    have tl: "\<not> nd_leaf (node t l)" "\<not> nd_leaf (node t r)" using lf by (simp_all add: t_def)
    have kt: "x \<in> set K \<and> x \<notin> set (as @ [l, r] @ bs) \<union> set (concat ((ms1 @ q # ms2) # Ms)) \<and> 0 \<le> x \<and> x < ix_num_pages (ix_hdr t)"
      if "x \<in> kids (node t l) (ents (ix_pages t) l @ ents (ix_pages t) r)" for x using kid [of x] that by (simp add: t_def)
    show ?thesis
    proof (cases "2 * get_min_size (ix_hdr s) \<le> length (ents (ix_pages s) p) + length (ents (ix_pages s) c)")
      case True
      have smt: "length (ents (ix_pages t) p) < get_min_size (ix_hdr t)"
          "2 * get_min_size (ix_hdr t) \<le> length (ents (ix_pages t) p) + length (ents (ix_pages t) c)" using small True by (simp_all add: t_def)
      obtain g where g: "redistribute c p q k t = Inr (t\<lparr>ix_pages := g\<rparr>)"
          "settled t K ((xs @ p # ys) # M # Ms) (t\<lparr>ix_pages := g\<rparr>) ((xs @ p # ys) # M # Ms)"
        by (rule inner_redistribute [OF lt sbt M X cX tl kt smt pins(2)])
      have "coalesce_or_redistribute n p s = Inr (False, s\<lparr>ix_pages := g\<rparr>)"
        using True g(1) by (simp add: step ix_unpin_def t_def pages_pins)
      moreover have "settled s K ((xs @ p # ys) # M # Ms) (s\<lparr>ix_pages := g\<rparr>) ((xs @ p # ys) # M # Ms)"
        using g(2) settled_pins [of s K "(xs @ p # ys) # M # Ms" ?P "s\<lparr>ix_pages := g\<rparr>"] by (simp add: t_def loose_pins pages_pins)
      ultimately show ?thesis by (auto simp: pruned_def)
    next
      case False
      have few: "length (ents (ix_pages t) p) + length (ents (ix_pages t) c) < 2 * get_min_size (ix_hdr t)" using False by (simp add: t_def)
      have IH: "\<exists>died u Ys. coalesce_or_redistribute m q w = Inr (died, u) \<and> pruned w q died u \<and> settled w J ((ms1 @ q # ms2) # Ms) u Ys"
        if "loose w J ms1 q ms2 Ms" "ix_frames w = ix_frames t" "size (ix_pins w) \<le> size (ix_pins t)" for w J
        by (rule Cons.IH [OF that(1) _ n(2)]) (use that(2,3) Cons.prems(2) in \<open>simp add: t_def\<close>)
      obtain died u Ys where u: "coalesce (coalesce_or_redistribute m) c p q k t = Inr (died, u)" "pruned (t\<lparr>ix_pins := ix_pins t - {#r#}\<rparr>) q died u"
          "settled t K ((xs @ p # ys) # M # Ms) u Ys"
        using inner_coalesce [OF lt sbt M X cX tl kt few pins(2) IH] by blast
      define v where "v = u\<lparr>ix_pins := if k = 0 then ix_pins s else ix_pins s - {#p#}\<rparr>"
      have "ix_pins u = (if died then ?P - {#r#} - {#q#} else ?P - {#r#})" using prunedD(1) [OF u(2)] by (simp add: t_def)
      then have "coalesce_or_redistribute n p s = Inr (k \<noteq> 0, v)"
        using False u(1) sd(5) by (auto simp: step v_def ix_unpin_def ordered_def)
      moreover have "pruned s p (k \<noteq> 0) v" by (rule pruned_over [OF u(2)]) (simp add: v_def, simp add: t_def)
      moreover have "settled s K ((xs @ p # ys) # M # Ms) v Ys" using u(3) by (simp add: v_def t_def loose_pins settled_pins)
      ultimately show ?thesis by blast
    qed
  qed
qed

section \<open>Leaves\<close>

lemma leaf_ring_remove:
  assumes r: "leaf_ring g (xs @ p # q # ys)" and d: "distinct (IX_LEAF_HEADER_PAGE # xs @ p # q # ys)" and z: "z = nd_next (g q)"
    and n: "nd_next (g' p) = z" "nd_prev (g' z) = p"
    and same: "\<And>x. x \<noteq> p \<Longrightarrow> nd_next (g' x) = nd_next (g x)" "\<And>x. x \<noteq> z \<Longrightarrow> nd_prev (g' x) = nd_prev (g x)"
  shows "leaf_ring g' (xs @ p # ys)"
proof -
  let ?H = IX_LEAF_HEADER_PAGE
  let ?nx = "\<lambda>x. nd_next (g x)" and ?pv = "\<lambda>x. nd_prev (g x)" and ?nx' = "\<lambda>x. nd_next (g' x)" and ?pv' = "\<lambda>x. nd_prev (g' x)"
  obtain zs where zs: "ys @ [?H] = z # zs" using leaf_ring_next [of g "xs @ [p]" q ys] r z by (cases ys) auto
  have a: "ring ?nx ?pv (?H # xs @ [p])" and b: "ring ?nx ?pv (p # q # z # zs)"
    using r ring_append [of ?nx ?pv "?H # xs" p "q # z # zs"] unfolding leaf_ring_def by (simp_all add: zs)
  have o_ne: "z \<notin> set (xs @ [p])" "z \<notin> set zs" using zs d by (cases ys; auto)+
  have nx: "nd_next (g' x) = nd_next (g x)" if "x \<in> set (?H # xs @ ys)" for x by (rule same(1)) (use that d in auto)
  have pv: "nd_prev (g' x) = nd_prev (g x)" if "x \<in> set (xs @ [p]) \<union> set zs" for x by (rule same(2)) (use that o_ne in auto)
  have "ring ?nx' ?pv' (?H # xs @ [p]) = ring ?nx ?pv (?H # xs @ [p])"
    by (rule ring_cong; rule nx pv) (auto simp: butlast_append split: if_splits)
  with a have "ring ?nx' ?pv' (?H # xs @ [p])" by simp
  moreover have "ring ?nx' ?pv' (z # zs)"
  proof -
    have y: "butlast (z # zs) = ys" using zs by (metis butlast_snoc)
    have "ring ?nx' ?pv' (z # zs) = ring ?nx ?pv (z # zs)" by (rule ring_cong; rule nx pv) (use y in auto)
    then show ?thesis using b by simp
  qed
  ultimately have "ring ?nx' ?pv' ((?H # xs) @ p # z # zs)"
    using n ring_append [of ?nx' ?pv' "?H # xs" p "z # zs"] by simp
  then show ?thesis unfolding leaf_ring_def by (simp add: zs)
qed

text \<open>A tree of which one leaf may be too small.\<close>

definition slack :: "ixh \<Rightarrow> int list \<Rightarrow> int list list \<Rightarrow> int \<Rightarrow> bool" where
  "slack s L Ls p \<longleftrightarrow> tree_core s L Ls \<and> (\<forall>x \<in> set L. x \<noteq> p \<longrightarrow> leaf_size_ok (ix_hdr s) Ls (length (nd_ents (node s x))))
     \<and> (Ls \<noteq> [] \<longrightarrow> get_min_size (ix_hdr s) - 1 \<le> length (nd_ents (node s p))) \<and> length (nd_ents (node s p)) \<le> btree_order (ix_hdr s)"

lemma slackD:
  assumes "slack s L Ls p"
  shows "tree_core s L Ls" "x \<in> set L \<Longrightarrow> x \<noteq> p \<Longrightarrow> leaf_size_ok (ix_hdr s) Ls (length (ents (ix_pages s) x))"
    "Ls \<noteq> [] \<Longrightarrow> get_min_size (ix_hdr s) - 1 \<le> length (ents (ix_pages s) p)" "length (ents (ix_pages s) p) \<le> btree_order (ix_hdr s)"
  using assms by (auto simp: slack_def ents_def)

lemma slack_siblings:
  assumes l: "slack s L (M # Ms) p" and p: "p \<in> set L"
  obtains k c q l r as bs ms1 ms2 e1 e2 rl rr where "siblings (ix_pages s) k p c q l r as bs ms1 ms2 e1 e2 rl rr" "M = ms1 @ q # ms2" "L = as @ [l, r] @ bs"
    "c \<in> set L" "c \<noteq> p" "nd_leaf (node s l)" "nd_leaf (node s r)" "2 \<le> q" "q < ix_num_pages (ix_hdr s)" "0 \<le> c" "c < ix_num_pages (ix_hdr s)"
proof -
  note cd = tree_coreD [OF slackD(1) [OF l]] and sd = shapedD [OF tree_coreD(1) [OF slackD(1) [OF l]]]
  obtain xs ys where L: "L = xs @ p # ys" using p by (auto dest: split_list)
  have lx: "link (ix_pages s) (xs @ p # ys) M" and dx: "distinct (xs @ p # ys)" using sd(1,2) L by auto
  obtain k c q l r as bs ms1 ms2 e1 e2 rl rr where sb: "siblings (ix_pages s) k p c q l r as bs ms1 ms2 e1 e2 rl rr"
      and M: "M = ms1 @ q # ms2" and X: "xs @ p # ys = as @ [l, r] @ bs"
    by (rule link_sibling [OF lx dx wide_filled [OF cd(2,3)]])
  have "{l, r} = {p, c}" "l \<noteq> r" using siblingsD(5) [OF sb] dx X by (auto simp: ordered_def)
  then have cX: "c \<in> set L" "c \<noteq> p" unfolding L X by auto
  have "nd_leaf (node s l)" "nd_leaf (node s r)" using cd(5) L X by auto
  moreover have "2 \<le> q" "q < ix_next_page s" using sd(7,8) [of M q] M by simp_all
  moreover have "2 \<le> c" "c < ix_next_page s" using sd(5,6) cX(1) by simp_all
  ultimately show ?thesis using that [OF sb M] L X cX sd(3) by auto
qed

lemma leaf_redistribute:
  assumes sl: "slack s L (M # Ms) p" and sb: "siblings (ix_pages s) k p c q l r as bs ms1 ms2 e1 e2 rl rr" and M: "M = ms1 @ q # ms2"
    and L: "L = as @ [l, r] @ bs" and c: "c \<in> set L" "c \<noteq> p" and lf: "nd_leaf (node s l)" "nd_leaf (node s r)"
    and small: "length (ents (ix_pages s) p) < get_min_size (ix_hdr s)"
    and enough: "2 * get_min_size (ix_hdr s) \<le> length (ents (ix_pages s) p) + length (ents (ix_pages s) c)" and pins: "size (ix_pins s) < ix_frames s"
  obtains g where "redistribute c p q k s = Inr (s\<lparr>ix_pages := g\<rparr>)" "tree (s\<lparr>ix_pages := g\<rparr>) L (M # Ms)" "entries (s\<lparr>ix_pages := g\<rparr>) L = entries s L"
proof -
  note kd = slackD [OF sl] and cd = tree_coreD [OF slackD(1) [OF sl]] and sd = shapedD [OF tree_coreD(1) [OF slackD(1) [OF sl]]] and bd = siblingsD [OF sb]
  have d: "distinct ((as @ [l, r] @ bs) @ concat ((ms1 @ q # ms2) # Ms))" using sd(2) L M by simp
  have ne: "l \<noteq> r" "q \<noteq> l" "q \<noteq> r" using d by auto
  have ms: "2 \<le> get_min_size (ix_hdr s)" by (rule min_size_pos [OF cd(3)])
  have lnk: "link (ix_pages s) (as @ [l, r] @ bs) (ms1 @ q # ms2)" "stacked (ix_pages s) (ms1 @ q # ms2) Ms" using sd(1) L M by simp_all
  have pl: "get_min_size (ix_hdr s) - 1 \<le> length (ents (ix_pages s) p)" using kd(3) by simp
  have cl: "get_min_size (ix_hdr s) < length (ents (ix_pages s) c)" "length (ents (ix_pages s) c) \<le> btree_order (ix_hdr s)"
    using small enough kd(2) [OF c] by (simp_all add: leaf_size_ok_def)
  have p0: "ents (ix_pages s) p \<noteq> []" and c2: "2 \<le> length (ents (ix_pages s) c)" using pl cl ms by auto
  have k0: "kids (node s l) es = {}" for es using lf by (simp add: kids_def)
  obtain e el er dd S g where run: "redistribute c p q k s = Inr (s\<lparr>ix_pages := g\<rparr>)"
      and g: "g = moved l r q el er (e1 @ [(first_key (ix_pages s) l, rl), (fst (hd er), rr)] @ e2) dd S (ix_pages s)"
      and all: "el @ er = ents (ix_pages s) l @ ents (ix_pages s) r" and up: "link g (as @ [l, r] @ bs) (ms1 @ q # ms2)" "stacked g (ms1 @ q # ms2) Ms"
      and S: "S = kids (node s l) [e]" and alt: "k = 0 \<and> ents (ix_pages s) r = e # er \<and> el = ents (ix_pages s) l @ [e] \<and> dd = l
        \<or> k \<noteq> 0 \<and> ents (ix_pages s) l = el @ [e] \<and> er = e # ents (ix_pages s) r \<and> dd = r"
    by (rule redistribute_ok [OF sb lnk d _ p0 kd(4) c2 pins]) (use lf k0 in simp_all)
  note sel = moved_sel [OF ne, of el er "e1 @ [(first_key (ix_pages s) l, rl), (fst (hd er), rr)] @ e2" dd S "ix_pages s", folded g]
  have other: "ents g x = ents (ix_pages s) x" if "x \<in> set (as @ bs)" for x
  proof -
    have "x \<noteq> l" "x \<noteq> r" "x \<noteq> q" using that d by auto
    then show ?thesis by (simp add: sel)
  qed
  have ent: "entries (s\<lparr>ix_pages := g\<rparr>) L = entries s L"
    using all other ents_cong [of as g "ix_pages s"] ents_cong [of bs g "ix_pages s"] ne by (simp add: entries_def L sel(1) [of l] sel(1) [of r])
  have "stacked g L (M # Ms)" using up L M by simp
  then have "shaped (s\<lparr>ix_pages := g\<rparr>) L (M # Ms)" using cd(1) unfolding shaped_def by simp
  moreover have "wide (ix_hdr s) g (M # Ms)" unfolding g by (rule moved_wide [OF cd(2) ne]) (use d M bd(6) in auto)
  moreover have "leaf_ring g L" using cd(6) leaf_ring_cong [of L g "ix_pages s"] by (simp add: sel)
  ultimately have core: "tree_core (s\<lparr>ix_pages := g\<rparr>) L (M # Ms)" using cd(3-5,7,8) ent by (simp add: tree_core_def sel)
  have "leaf_size_ok (ix_hdr s) (M # Ms) (length (ents g x))" if x: "x \<in> set L" for x
  proof (cases "x \<in> {l, r}")
    case True
    have "length (ents g p) = length (ents (ix_pages s) p) + 1" "length (ents g c) + 1 = length (ents (ix_pages s) c)" "{l, r} = {p, c}"
      using alt bd(5) ne by (auto simp: sel ordered_def)
    then show ?thesis using True pl small cl by (auto simp: leaf_size_ok_def get_min_size_def get_max_size_def)
  next
    case False
    then have xa: "x \<in> set (as @ bs)" "x \<noteq> p" using x L bd(5) by (auto simp: ordered_def)
    then show ?thesis using kd(2) [OF x xa(2)] other [OF xa(1)] by simp
  qed
  then have "tree (s\<lparr>ix_pages := g\<rparr>) L (M # Ms)" using core by (simp add: tree_def ents_def)
  then show ?thesis using that run ent by blast
qed

text \<open>What the two operations leave of the state around the tree.\<close>

definition around :: "ixh \<Rightarrow> int multiset \<Rightarrow> ixh \<Rightarrow> bool" where
  "around s P t \<longleftrightarrow> same_keys (ix_hdr s) (ix_hdr t) \<and> ix_pins t = P \<and> ix_frames t = ix_frames s \<and> cached_leaf_no t = cached_leaf_no s
     \<and> pinned_leaf_no t = pinned_leaf_no s \<and> pinned_leaf_page t = pinned_leaf_page s"

lemma unlinked_sel [simp]:
  "nd_ents (unlinked l z g x) = nd_ents (g x)" "nd_leaf (unlinked l z g x) = nd_leaf (g x)" "nd_parent (unlinked l z g x) = nd_parent (g x)"
  "ents (unlinked l z g) x = ents g x"
  by (simp_all add: unlinked_def ents_def)

lemma unlinked_links:
  assumes "l \<noteq> z"
  shows "nd_next (unlinked l z g x) = (if x = l then z else nd_next (g x))" "nd_prev (unlinked l z g x) = (if x = z then l else nd_prev (g x))"
  using assms by (auto simp: unlinked_def)

text \<open>The leaves after a merge, once the levels above have settled.\<close>

lemma leaf_settled:
  assumes cd: "tree_core s L (M # Ms)" and L: "L = as @ [l, r] @ bs" and ring: "leaf_ring (ix_pages t) (as @ [l] @ bs)"
    and ent: "concat (map (ents (ix_pages t)) (as @ [l] @ bs)) = entries s L" and lf: "\<And>x. nd_leaf (node t x) = nd_leaf (node s x)"
    and t: "ix_hdr t = (ix_hdr s)\<lparr>last_leaf := if r = last_leaf (ix_hdr s) then l else last_leaf (ix_hdr s)\<rparr>" "ix_next_page t = ix_next_page s"
    and sizes: "\<And>x. x \<in> set (as @ [l] @ bs) \<Longrightarrow> get_min_size (ix_hdr s) \<le> length (ents (ix_pages t) x) \<and> length (ents (ix_pages t) x) \<le> btree_order (ix_hdr s)"
    and u: "pruned t q died u" "settled t (as @ [l] @ bs) (M # Ms) u Ys"
  shows "tree u (as @ [l] @ bs) Ys" "entries u (as @ [l] @ bs) = entries s L" "same_keys (ix_hdr s) (ix_hdr u)"
proof -
  note cc = tree_coreD [OF cd] and sd = shapedD [OF tree_coreD(1) [OF cd]] and st = settledD [OF u(2)] and pd = prunedD [OF u(1)]
  let ?L = "as @ [l] @ bs"
  have out: "x \<notin> set (concat (M # Ms))" "x < ix_next_page t" if "x \<in> set ?L" for x
  proof -
    have "x \<in> set L" using that L by auto
    then show "x \<notin> set (concat (M # Ms))" "x < ix_next_page t" using sd(2) sd(6) [of x] t(2) by auto
  qed
  note sp = sparesD [OF st(6) out]
  have hu: "ix_hdr u = (ix_hdr s)\<lparr>last_leaf := if r = last_leaf (ix_hdr s) then l else last_leaf (ix_hdr s), root_page := root_page (ix_hdr u)\<rparr>"
    using pd(7) t(1) by simp
  show sk: "same_keys (ix_hdr s) (ix_hdr u)" by (subst hu) (simp add: same_keys_def)
  note skd = same_keysD [OF sk]
  have eu: "concat (map (ents (ix_pages u)) ?L) = concat (map (ents (ix_pages t)) ?L)" by (rule ents_cong) (rule sp(1))
  then show ent': "entries u ?L = entries s L" using ent by (simp add: entries_def)
  have "shaped u ?L Ys"
    unfolding shaped_def
  proof (intro conjI ballI)
    have dl: "distinct ?L" using sd(2) L by auto
    have "set ?L \<inter> set (concat Ys) = {}" using st(5) out(1) by blast
    then show "distinct (?L @ concat Ys)" using st(4) dl by (simp only: distinct_append)
    have "x \<in> set (L @ concat (M # Ms))" if "x \<in> set (?L @ concat Ys)" for x using that st(5) L by auto
    then show "2 \<le> x" "x < ix_next_page u" if "x \<in> set (?L @ concat Ys)" for x
      using that cc(1) t(2) pd(2) unfolding shaped_def by (metis (no_types, lifting))+
    show "ix_num_pages (ix_hdr u) = ix_next_page u" using sd(3) pd(2) t(2) by (subst hu) simp
  qed (use st in simp_all)
  moreover have "wide (ix_hdr u) (ix_pages u) Ys" using st(2) t(1) skd(4) wide_hdr [of "ix_hdr t" "ix_hdr u"] by simp
  moreover have "leaf_ring (ix_pages u) ?L"
  proof -
    have h: "IX_LEAF_HEADER_PAGE \<notin> set (concat (M # Ms))" "IX_LEAF_HEADER_PAGE < ix_next_page t"
      using sd(7) sd(5,6) [of l] L t(2) by (fastforce simp: IX_LEAF_HEADER_PAGE_def)+
    show ?thesis using ring leaf_ring_cong [of ?L "ix_pages u" "ix_pages t"] sparesD(4,5) [OF st(6)] out h by blast
  qed
  moreover have "last_leaf (ix_hdr u) = last ?L" "first_leaf (ix_hdr u) = hd ?L"
  proof -
    have "r = last L \<longleftrightarrow> bs = []" using sd(2) L by (auto simp: last_append split: if_splits)
    then show "last_leaf (ix_hdr u) = last ?L" using cc(7) L by (subst hu) (auto simp: last_append)
    show "first_leaf (ix_hdr u) = hd ?L" using cc(8) L by (subst hu) (cases as; simp)
  qed
  moreover have "nd_leaf (node u x)" if "x \<in> set ?L" for x using sp(3) [OF that that] lf cc(5) [of x] that L by auto
  moreover have "leaf_size_ok (ix_hdr u) Ys (length (nd_ents (node u x)))" if "x \<in> set ?L" for x
    using sp(1) [OF that that] sizes [OF that] skd(4,6) by (simp add: leaf_size_ok_def ents_def)
  ultimately show "tree u ?L Ys" using cc(3,4) ent' skd(3,4) by (simp add: tree_def tree_core_def)
qed

lemma leaf_coalesce:
  assumes sl: "slack s L (M # Ms) p" and sb: "siblings (ix_pages s) k p c q l r as bs ms1 ms2 e1 e2 rl rr" and M: "M = ms1 @ q # ms2"
    and L: "L = as @ [l, r] @ bs" and c: "c \<in> set L" "c \<noteq> p" and lf: "nd_leaf (node s l)" "nd_leaf (node s r)"
    and few: "length (ents (ix_pages s) p) + length (ents (ix_pages s) c) < 2 * get_min_size (ix_hdr s)"
    and pins: "size (ix_pins s) + 2 * length Ms < ix_frames s" and n: "length Ms < n"
  obtains died u Ys where "coalesce (coalesce_or_redistribute n) c p q k s = Inr (died, u)" "tree u (as @ [l] @ bs) Ys"
    "entries u (as @ [l] @ bs) = entries s L" "around s (if died then ix_pins s - {#r#} - {#q#} else ix_pins s - {#r#}) u"
proof -
  note kd = slackD [OF sl] and cd = tree_coreD [OF slackD(1) [OF sl]] and sd = shapedD [OF tree_coreD(1) [OF slackD(1) [OF sl]]] and bd = siblingsD [OF sb]
  let ?X = "as @ [l, r] @ bs" and ?el = "ents (ix_pages s) l" and ?er = "ents (ix_pages s) r" and ?H = IX_LEAF_HEADER_PAGE
  have d: "distinct (?X @ concat ((ms1 @ q # ms2) # Ms))" using sd(2) L M by simp
  have ne: "l \<noteq> r" "q \<noteq> l" "q \<noteq> r" using d by auto
  have ms: "2 \<le> get_min_size (ix_hdr s)" "2 * get_min_size (ix_hdr s) \<le> btree_order (ix_hdr s) + 1"
    using min_size_pos [OF cd(3)] by (simp_all add: get_min_size_def get_max_size_def)
  have lnk: "link (ix_pages s) ?X (ms1 @ q # ms2)" "stacked (ix_pages s) (ms1 @ q # ms2) Ms" using sd(1) L M by simp_all
  have both: "length ?el + length ?er = length (ents (ix_pages s) p) + length (ents (ix_pages s) c)" using bd(5) by (auto simp: ordered_def)
  have cl: "get_min_size (ix_hdr s) \<le> length (ents (ix_pages s) c)" using kd(2) [OF c] by (simp add: leaf_size_ok_def)
  have "get_min_size (ix_hdr s) - 1 \<le> length ?el" using bd(5) cl kd(3) by (auto simp: ordered_def)
  then have el: "?el \<noteq> []" using ms by auto
  have all: "2 \<le> x \<and> x < ix_next_page s" if "x \<in> set (?X @ concat ((ms1 @ q # ms2) # Ms))" for x
    using cd(1) that L M unfolding shaped_def by auto
  define z where "z = nd_next (node s r)"
  have z: "z = hd (bs @ [?H])" using leaf_ring_next [of "ix_pages s" "as @ [l]" r bs] cd(6) L by (simp add: z_def)
  have zr: "z \<notin> {l, r, q}" "0 \<le> z" "z < ix_num_pages (ix_hdr s)"
  proof -
    have "z \<notin> {l, r, q} \<and> 0 \<le> z \<and> z < ix_num_pages (ix_hdr s)"
    proof (cases bs)
      case Nil
      then have "z = 1" using z by (simp add: IX_LEAF_HEADER_PAGE_def)
      then show ?thesis using all [of l] all [of r] all [of q] sd(3) by auto
    next
      case (Cons b bs')
      then have "z = b" using z by simp
      then show ?thesis using Cons all [of b] d sd(3) by auto
    qed
    then show "z \<notin> {l, r, q}" "0 \<le> z" "z < ix_num_pages (ix_hdr s)" by simp_all
  qed
  define g where "g = moved l r q (?el @ ?er) ?er (e1 @ [(first_key (ix_pages s) l, rl)] @ e2) l {} (ix_pages s)"
  note sel = moved_sel [OF ne, of "?el @ ?er" ?er "e1 @ [(first_key (ix_pages s) l, rl)] @ e2" l "{}" "ix_pages s", folded g_def]
  define t where "t = s\<lparr>ix_pins := ix_pins s - {#r#}, ix_pages := unlinked l z g,
      ix_hdr := (ix_hdr s)\<lparr>last_leaf := if r = last_leaf (ix_hdr s) then l else last_leaf (ix_hdr s)\<rparr>\<rparr>"
  have pins1: "size (ix_pins s) < ix_frames s" using pins by simp
  have run: "coalesce (coalesce_or_redistribute n) c p q k s = coalesce_or_redistribute n q t"
    unfolding t_def g_def ents_def
    by (rule coalesce_leaf [OF bd(5) ne lf refl refl bd(6) [unfolded ents_def] _ pins1 z_def zr]) (use few both ms in \<open>simp add: ents_def\<close>)
  have lt: "loose t (as @ [l] @ bs) ms1 q ms2 Ms"
    by (rule merged_loose [OF sb lnk d all sd(3) _ _ cd(3) el _ g_def, where g' = "unlinked l z g"])
      (use sd(4) cd(2) M in \<open>auto simp: t_def\<close>)
  have "size (ix_pins t) \<le> size (ix_pins s)" by (simp add: t_def size_mset_mono diff_subset_eq_self)
  then have "size (ix_pins t) + 2 * length Ms < ix_frames t" using pins by (simp add: t_def)
  from inner_ok [OF lt this n] obtain died u Ys where u: "coalesce_or_redistribute n q t = Inr (died, u)" "pruned t q died u"
      "settled t (as @ [l] @ bs) ((ms1 @ q # ms2) # Ms) u Ys" by blast
  have other: "ents g x = ents (ix_pages s) x" if "x \<in> set (as @ bs)" for x
  proof -
    have "x \<noteq> l" "x \<noteq> r" "x \<noteq> q" using that d by auto
    then show ?thesis by (simp add: sel)
  qed
  have ring: "leaf_ring (ix_pages t) (as @ [l] @ bs)"
    unfolding append_Cons append_Nil
  proof (rule leaf_ring_remove [where g = "ix_pages s" and q = r and z = z])
    show "distinct (?H # as @ l # r # bs)" using d all [of ?H] by (auto simp: IX_LEAF_HEADER_PAGE_def)
  qed (use cd(6) L zr in \<open>simp_all add: t_def z_def [symmetric] unlinked_links sel\<close>)
  have ent: "concat (map (ents (ix_pages t)) (as @ [l] @ bs)) = entries s L"
    using other ents_cong [of as g "ix_pages s"] ents_cong [of bs g "ix_pages s"] ne
    by (simp add: t_def entries_def L ents_cong [of _ "unlinked l z g" g]) (simp add: sel(1) [of l])
  have sizes: "get_min_size (ix_hdr s) \<le> length (ents (ix_pages t) x) \<and> length (ents (ix_pages t) x) \<le> btree_order (ix_hdr s)"
    if x: "x \<in> set (as @ [l] @ bs)" for x
  proof (cases "x = l")
    case True
    then show ?thesis using both few cl ms by (simp add: t_def sel)
  next
    case False
    then have xa: "x \<in> set (as @ bs)" "x \<in> set L" using x L by auto
    have "x \<noteq> p" using False xa(1) bd(5) d by (auto simp: ordered_def)
    then show ?thesis using kd(2) [OF xa(2)] other [OF xa(1)] by (simp add: t_def leaf_size_ok_def)
  qed
  have lft: "nd_leaf (node t x) = nd_leaf (node s x)" for x by (simp add: t_def sel)
  have th: "ix_hdr t = (ix_hdr s)\<lparr>last_leaf := if r = last_leaf (ix_hdr s) then l else last_leaf (ix_hdr s)\<rparr>" "ix_next_page t = ix_next_page s"
    by (simp_all add: t_def)
  note tr = leaf_settled [OF kd(1) L ring ent lft th sizes u(2) u(3) [folded M]]
  show ?thesis by (rule that [OF _ tr(1,2)]) (use run u(1) tr(3) prunedD(1-6) [OF u(2)] in \<open>auto simp: around_def t_def\<close>)
qed

lemma leaf_ok:
  assumes sl: "slack s L Ls p" and p: "p \<in> set L" and pins: "size (ix_pins s) + 2 * length Ls < ix_frames s" and n: "length Ls < n"
  obtains died t M Ms where "coalesce_or_redistribute n p s = Inr (died, t)" "tree t M Ms" "entries t M = entries s L"
    "around s (if died then ix_pins s - {#p#} else ix_pins s) t"
proof (cases Ls)
  note kd = slackD [OF sl] and cd = tree_coreD [OF slackD(1) [OF sl]] and sd = shapedD [OF tree_coreD(1) [OF slackD(1) [OF sl]]]
  case Nil
  then have "nd_parent (node s p) = IX_NO_PAGE" "L = [p]" using sd(1) p by auto
  then have "coalesce_or_redistribute n p s = Inr (False, s)"
    using cd(5) [OF p] n by (cases n) (simp_all add: adjust_root_def INVALID_PAGE_ID_def IX_NO_PAGE_def)
  moreover have "tree s L []" using kd(1,4) \<open>L = [p]\<close> Nil by (simp add: tree_def leaf_size_ok_def ents_def)
  ultimately show ?thesis using that [of False s L "[]"] by (simp add: around_def)
next
  note kd = slackD [OF sl] and cd = tree_coreD [OF slackD(1) [OF sl]] and sd = shapedD [OF tree_coreD(1) [OF slackD(1) [OF sl]]]
  case (Cons M Ms)
  obtain m where m: "n = Suc m" "length Ms < m" using n Cons by (cases n) auto
  obtain k c q l r as bs ms1 ms2 e1 e2 rl rr where sb: "siblings (ix_pages s) k p c q l r as bs ms1 ms2 e1 e2 rl rr" and M: "M = ms1 @ q # ms2"
      and L: "L = as @ [l, r] @ bs" and c: "c \<in> set L" "c \<noteq> p" and lf: "nd_leaf (node s l)" "nd_leaf (node s r)"
      and q: "2 \<le> q" "q < ix_num_pages (ix_hdr s)" and c0: "0 \<le> c" "c < ix_num_pages (ix_hdr s)"
    by (rule slack_siblings [OF sl [unfolded Cons] p])
  note bd = siblingsD [OF sb]
  show ?thesis
  proof (cases "get_min_size (ix_hdr s) \<le> length (ents (ix_pages s) p)")
    case True
    have "coalesce_or_redistribute n p s = Inr (False, s)"
      using True q(1) bd(1) m(1) by (simp add: get_size_def ents_def INVALID_PAGE_ID_def)
    moreover have "leaf_size_ok (ix_hdr s) Ls (length (nd_ents (node s x)))" if "x \<in> set L" for x
      using kd(2) [OF that] kd(4) True by (cases "x = p") (simp_all add: leaf_size_ok_def ents_def)
    then have "tree s L Ls" using kd(1) by (simp add: tree_def)
    ultimately show ?thesis using that [of False s L Ls] by (simp add: around_def)
  next
    case False
    let ?P = "add_mset c (add_mset q (ix_pins s))"
    define t where "t = s\<lparr>ix_pins := ?P\<rparr>"
    have small: "length (ents (ix_pages s) p) < get_min_size (ix_hdr s)" using False by simp
    have pins1: "size (ix_pins s) + 1 < ix_frames s" "size (ix_pins t) < ix_frames t" "size (ix_pins t) + 2 * length Ms < ix_frames t"
      using pins Cons by (simp_all add: t_def)
    note step = cor_step [OF bd(1) q small bd(3,4) c0 pins1(1), of m, folded m(1) t_def]
    have slt: "slack t L (M # Ms) p"
      using sl Cons by (simp add: t_def slack_def tree_core_def shaped_def entries_def)
    have sbt: "siblings (ix_pages t) k p c q l r as bs ms1 ms2 e1 e2 rl rr" and lft: "nd_leaf (node t l)" "nd_leaf (node t r)"
      using sb lf by (simp_all add: t_def)
    show ?thesis
    proof (cases "2 * get_min_size (ix_hdr s) \<le> length (ents (ix_pages s) p) + length (ents (ix_pages s) c)")
      case True
      have smt: "length (ents (ix_pages t) p) < get_min_size (ix_hdr t)"
          "2 * get_min_size (ix_hdr t) \<le> length (ents (ix_pages t) p) + length (ents (ix_pages t) c)" using small True by (simp_all add: t_def)
      obtain g where g: "redistribute c p q k t = Inr (t\<lparr>ix_pages := g\<rparr>)" "tree (t\<lparr>ix_pages := g\<rparr>) L (M # Ms)" "entries (t\<lparr>ix_pages := g\<rparr>) L = entries t L"
        by (rule leaf_redistribute [OF slt sbt M L c lft smt pins1(2)])
      have "coalesce_or_redistribute n p s = Inr (False, s\<lparr>ix_pages := g\<rparr>)"
        using True g(1) by (simp add: step ix_unpin_def t_def pages_pins)
      moreover have "tree (s\<lparr>ix_pages := g\<rparr>) L (M # Ms)" using g(2) tree_cong [of "t\<lparr>ix_pages := g\<rparr>" "s\<lparr>ix_pages := g\<rparr>"] by (simp add: t_def)
      moreover have "entries (s\<lparr>ix_pages := g\<rparr>) L = entries s L" using g(3) by (simp add: entries_def t_def)
      ultimately show ?thesis using that [of False "s\<lparr>ix_pages := g\<rparr>" L "M # Ms"] by (simp add: around_def)
    next
      case False
      have few: "length (ents (ix_pages t) p) + length (ents (ix_pages t) c) < 2 * get_min_size (ix_hdr t)" using False by (simp add: t_def)
      obtain died u Ys where u: "coalesce (coalesce_or_redistribute m) c p q k t = Inr (died, u)" "tree u (as @ [l] @ bs) Ys"
          "entries u (as @ [l] @ bs) = entries t L" "around t (if died then ix_pins t - {#r#} - {#q#} else ix_pins t - {#r#}) u"
        by (rule leaf_coalesce [OF slt sbt M L c lft few pins1(3) m(2)])
      define v where "v = u\<lparr>ix_pins := if k = 0 then ix_pins s else ix_pins s - {#p#}\<rparr>"
      have "ix_pins u = (if died then ?P - {#r#} - {#q#} else ?P - {#r#})" using u(4) by (simp add: around_def t_def)
      then have "coalesce_or_redistribute n p s = Inr (k \<noteq> 0, v)"
        using False u(1) bd(5) by (auto simp: step v_def ix_unpin_def ordered_def)
      moreover have "tree v (as @ [l] @ bs) Ys" using u(2) tree_cong [of v u] by (simp add: v_def)
      moreover have "entries v (as @ [l] @ bs) = entries s L" using u(3) by (simp add: v_def t_def entries_def)
      moreover have "around s (if k \<noteq> 0 then ix_pins s - {#p#} else ix_pins s) v" using u(4) by (simp add: around_def v_def t_def)
      ultimately show ?thesis by (rule that)
    qed
  qed
qed

section \<open>\<^verbatim>\<open>delete_entry\<close>\<close>

lemma ent_delete_length:
  assumes "keys_ok h es" and "key_ok h k"
  shows "length (ent_delete h k es) = (if key_val h k \<in> set (vals h es) then length es - 1 else length es)"
    "key_val h k \<in> set (vals h es) \<Longrightarrow> es \<noteq> []"
proof -
  let ?n = "\<lparr>nd_next_free = 0, nd_parent = 0, nd_leaf = True, nd_prev = 0, nd_next = 0, nd_ents = es\<rparr>"
  have ko: "keys_ok h (nd_ents ?n)" using assms(1) by simp
  show "length (ent_delete h k es) = (if key_val h k \<in> set (vals h es) then length es - 1 else length es)"
    by (cases rule: node_search [OF ko assms(2), where v = undefined, case_names hit miss]) auto
  show "key_val h k \<in> set (vals h es) \<Longrightarrow> es \<noteq> []" by (auto simp: vals_def)
qed

lemma vals_other:
  assumes "\<And>e. e \<in> set zs \<Longrightarrow> key_val h (fst e) \<noteq> k"
  shows "k \<notin> set (vals h zs)"
proof
  assume "k \<in> set (vals h zs)"
  then obtain e where "e \<in> set zs" "k = (key_val h \<circ> fst) e" unfolding vals_def set_map by (elim imageE)
  then show False using assms [of e] by simp
qed

text \<open>The leaf after the removal of an entry, with the separators above it repaired.\<close>

lemma removed_ok:
  assumes t: "tree s L Ls" and L: "L = xs @ p # ys" and len: "length es + 1 = length (nd_ents (node s p))" and sz: "size P < ix_frames s"
    and ko: "keys_ok (ix_hdr s) (concat (map (ents (ix_pages s)) xs) @ es @ concat (map (ents (ix_pages s)) ys))"
  defines "w \<equiv> s\<lparr>ix_pins := P, ix_pages := (ix_pages s)(p := (node s p)\<lparr>nd_ents := es\<rparr>)\<rparr>"
  obtains g where "(if 0 < length es then maintain_parent (ix_fuel s) p w else Inr w) = Inr (s\<lparr>ix_pins := P, ix_pages := g\<rparr>)"
    "slack (s\<lparr>ix_pins := P, ix_pages := g\<rparr>) L Ls p"
    "entries (s\<lparr>ix_pins := P, ix_pages := g\<rparr>) L = concat (map (ents (ix_pages s)) xs) @ es @ concat (map (ents (ix_pages s)) ys)"
proof -
  have p: "p \<in> set L" using L by simp
  obtain g where g: "(if 0 < length es then maintain_parent (ix_fuel s) p w else Inr w) = Inr (s\<lparr>ix_pins := P, ix_pages := g\<rparr>)" "stacked g L Ls"
      "rekeyed ((ix_pages s)(p := (node s p)\<lparr>nd_ents := es\<rparr>)) g (set (concat Ls))"
  proof (cases "es = []")
    case False
    show ?thesis by (rule rekey_ok [OF t L False sz]) (rule that, use False in \<open>simp_all add: w_def\<close>)
  next
    case True
    then have "Ls = []" using treeD(6) [OF t p] min_size_pos [OF treeD(3) [OF t]] len by auto
    then have "stacked ((ix_pages s)(p := (node s p)\<lparr>nd_ents := es\<rparr>)) L Ls" using shapedD(1) [OF treeD(1) [OF t]] by auto
    then show ?thesis using that [OF _ _ rekeyed_refl] True by (simp add: w_def)
  qed
  note cl = tree_core_leaf [OF t L g(2,3) ko]
  have "slack (s\<lparr>ix_pins := P, ix_pages := g\<rparr>) L Ls p"
    using cl(1,3,4) t p treeD(6,7) [OF t p] len by (auto simp: slack_def tree_def)
  then show ?thesis by (rule that [OF g(1) _ cl(2)])
qed

lemma delete_entry_ok:
  assumes t: "tree s L Ls" and c: "caches B s L" and k: "key_ok (ix_hdr s) key" and sz: "size B + 2 * length Ls + 1 < ix_frames s"
  obtains u M Ms where "delete_entry key s = Inr (key_val (ix_hdr s) key \<in> set (vals (ix_hdr s) (entries s L)), u)"
    "updated B s (ent_delete (ix_hdr s) key (entries s L)) u M Ms"
proof -
  let ?h = "ix_hdr s"
  define w where "w = release_pinned_leaf (s\<lparr>cached_leaf_no := IX_NO_PAGE\<rparr>)"
  have w: "ix_hdr w = ?h" "ix_pages w = ix_pages s" "ix_next_page w = ix_next_page s" "ix_frames w = ix_frames s" "ix_pins w = B"
      "cached_leaf_no w = IX_NO_PAGE" "pinned_leaf_page w = None"
    using c by (auto simp: w_def release_pinned_leaf_def ix_unpin_def caches_def split: option.splits)
  have tw: "tree w L Ls" using t tree_cong [of w s] w by simp
  have ew: "entries w L = entries s L" using w(2) by (rule entries_cong)
  have szw: "size (ix_pins w) < ix_frames w" and kw: "key_ok (ix_hdr w) key" using w sz k by simp_all
  obtain xs p ys where L: "L = xs @ p # ys" and find: "find_leaf_page key False w = Inr (p, w\<lparr>ix_pins := add_mset p (ix_pins w)\<rparr>)"
      and lo: "\<forall>e \<in> set (concat (map (ents (ix_pages w)) xs)). key_val (ix_hdr w) (fst e) < key_val (ix_hdr w) key"
      and hi: "\<forall>e \<in> set (concat (map (ents (ix_pages w)) ys)). key_val (ix_hdr w) key < key_val (ix_hdr w) (fst e)"
    by (rule search_ok [OF tree_searchable [OF tw] kw szw])
  let ?es = "nd_ents (node w p)" and ?P = "add_mset p B" and ?hit = "key_val ?h key \<in> set (vals ?h (entries s L))"
  define es where "es = ent_delete ?h key ?es"
  have p: "p \<in> set L" using L by simp
  have ko: "keys_ok ?h ?es"
    using keys_ok_node [of ?h "ix_pages w" xs p ys] treeD(4) [OF tw] L w by (simp add: ents_def entries_def)
  have all: "ent_delete ?h key (entries s L) = concat (map (ents (ix_pages w)) xs) @ es @ concat (map (ents (ix_pages w)) ys)"
    using ent_ops_mid(3) [OF lo hi, of ?es] L w ew [symmetric] by (simp add: entries_def ents_def es_def)
  have hit: "?hit \<longleftrightarrow> key_val ?h key \<in> set (vals ?h ?es)"
  proof -
    have "entries s L = concat (map (ents (ix_pages w)) xs) @ ?es @ concat (map (ents (ix_pages w)) ys)"
      unfolding entries_def L w(2) by (simp add: ents_def)
    moreover have "key_val ?h key \<notin> set (vals ?h (concat (map (ents (ix_pages w)) xs)))" "key_val ?h key \<notin> set (vals ?h (concat (map (ents (ix_pages w)) ys)))"
      using lo hi w(1) by (intro vals_other; metis less_irrefl)+
    ultimately show ?thesis by (simp add: vals_def)
  qed
  let ?w = "w\<lparr>ix_pins := ?P, ix_pages := (ix_pages w)(p := (node w p)\<lparr>nd_ents := es\<rparr>)\<rparr>"
  have rem: "try_node p (node_remove (ix_hdr w) key) (w\<lparr>ix_pins := ?P\<rparr>) = Inr ?w"
    using node_remove_list [OF ko k] w(1) by (simp add: try_node_def upd_node_def es_def)
  note len = ent_delete_length [OF ko k, folded es_def hit]
  have body: "delete_entry key s = (if \<not> ?hit then Inr (False, ix_unpin p ?w)
      else and_then (if 0 < length es then maintain_parent (ix_fuel w) p ?w else Inr ?w) (\<lambda>s.
           and_then (coalesce_or_redistribute (ix_fuel s) p s) (\<lambda>(node_deleted, s). Inr (True, if node_deleted then s else ix_unpin p s))))"
    unfolding delete_entry_def w_def [symmetric]
    using find rem len by (auto simp: w(5) Let_def get_size_def ix_fuel_def)
  show ?thesis
  proof (cases ?hit)
    case False
    then have "es = ?es" using hit by (force simp: es_def ent_delete_def vals_def filter_id_conv)
    then have "ix_unpin p ?w = w" by (simp add: ix_unpin_def w(5) [symmetric])
    then have "delete_entry key s = Inr (?hit, w)" using body False by simp
    moreover have "updated B s (ent_delete ?h key (entries s L)) w L Ls"
      using tw w ew all \<open>es = ?es\<close> L by (simp add: updated_def caches_def) (simp add: entries_def ents_def)
    ultimately show ?thesis by (rule that)
  next
    case True
    have le: "length es + 1 = length (nd_ents (node w p))" using len True hit by (cases ?es) auto
    have kos: "keys_ok (ix_hdr w) (concat (map (ents (ix_pages w)) xs) @ es @ concat (map (ents (ix_pages w)) ys))"
      using keys_ok_delete [OF treeD(4) [OF t], of key] all w(1) by simp
    have szP: "size ?P < ix_frames w" using sz w(4) by simp
    obtain g where g: "(if 0 < length es then maintain_parent (ix_fuel w) p ?w else Inr ?w) = Inr (w\<lparr>ix_pins := ?P, ix_pages := g\<rparr>)"
        "slack (w\<lparr>ix_pins := ?P, ix_pages := g\<rparr>) L Ls p"
        "entries (w\<lparr>ix_pins := ?P, ix_pages := g\<rparr>) L = concat (map (ents (ix_pages w)) xs) @ es @ concat (map (ents (ix_pages w)) ys)"
      by (rule removed_ok [OF tw L le szP kos])
    define v where "v = w\<lparr>ix_pins := ?P, ix_pages := g\<rparr>"
    have pv: "size (ix_pins v) + 2 * length Ls < ix_frames v" using sz w(4) by (simp add: v_def)
    have fv: "length Ls < ix_fuel v" using shaped_depth [OF treeD(1-3) [OF tw]] by (simp add: v_def ix_fuel_def)
    obtain died u M Ms where u: "coalesce_or_redistribute (ix_fuel v) p v = Inr (died, u)" "tree u M Ms" "entries u M = entries v L"
        "around v (if died then ix_pins v - {#p#} else ix_pins v) u"
      by (rule leaf_ok [OF g(2) [folded v_def] p pv fv])
    define x where "x = (if died then u else ix_unpin p u)"
    have "delete_entry key s = Inr (?hit, x)" using body True g(1) u(1) by (simp add: v_def [symmetric] x_def)
    moreover have "updated B s (ent_delete ?h key (entries s L)) x M Ms"
    proof -
      have "ix_pins x = B" "cached_leaf_no x = IX_NO_PAGE" "pinned_leaf_page x = None" "ix_frames x = ix_frames s" "same_keys ?h (ix_hdr x)"
        using u(4) w by (auto simp: x_def around_def v_def ix_unpin_def)
      moreover have "tree x M Ms" using u(2) tree_cong [of x u] by (simp add: x_def ix_unpin_def)
      moreover have "entries x M = ent_delete ?h key (entries s L)" using u(3) g(3) all entries_cong [of x u M] by (simp add: x_def ix_unpin_def v_def)
      ultimately show ?thesis by (simp add: updated_def caches_def)
    qed
    ultimately show ?thesis by (rule that)
  qed
qed

end
