(* ===== verification/Index_Map.thy ===== *)
theory Index_Map
  imports Index_Delete
begin

text \<open>
  An index as a map from key values to record ids: \<^verbatim>\<open>IxManager::create_index\<close>, opening and flushing an index file, the depth of the tree, and the
  refinement of every sequence of \<^verbatim>\<open>insert_entry\<close>, \<^verbatim>\<open>delete_entry\<close> and \<^verbatim>\<open>get_value\<close> calls. A file is the bytes of its header page and its nodes.
\<close>

section \<open>Files\<close>

definition get_index_name_str :: "string \<Rightarrow> string list \<Rightarrow> string" where
  "get_index_name_str filename index_cols = foldl (\<lambda>index_name c. index_name @ ''_'' @ c) filename index_cols @ ''.idx''"

text \<open>The name of an index file does not determine its columns.\<close>

lemma index_name_ambiguous: "get_index_name_str ''t'' [''a'', ''b''] = get_index_name_str ''t'' [''a_b'']"
  by (simp add: get_index_name_str_def)

record ix_file =
  if_hdr :: bytes
  if_pages :: "int \<Rightarrow> ix_node"

definition header_page :: ix_node where
  "header_page = \<lparr>nd_next_free = IX_NO_PAGE, nd_parent = IX_NO_PAGE, nd_leaf = True, nd_prev = IX_INIT_ROOT_PAGE, nd_next = IX_INIT_ROOT_PAGE, nd_ents = []\<rparr>"

definition root_node :: ix_node where
  "root_node = \<lparr>nd_next_free = IX_NO_PAGE, nd_parent = IX_NO_PAGE, nd_leaf = True, nd_prev = IX_LEAF_HEADER_PAGE, nd_next = IX_LEAF_HEADER_PAGE, nd_ents = []\<rparr>"

definition IX_PAGE_HDR_SIZE :: nat where
  "IX_PAGE_HDR_SIZE = 24"

definition RID_SIZE :: nat where
  "RID_SIZE = 8"

text \<open>The header \<^verbatim>\<open>create_index\<close> makes for a list of columns.\<close>

definition ix_new_hdr :: "(ColType \<times> nat) list \<Rightarrow> ix_error + IxFileHdr" where
  "ix_new_hdr cols =
     (let len = sum_list (map snd cols);
          order = (PAGE_SIZE - IX_PAGE_HDR_SIZE) div (len + RID_SIZE) - 1
      in if IX_MAX_COL_LEN < len then Inl (Thrown (InvalidColLengthError (int len)))
         else if \<not> 2 < order then Inl (Thrown AssertionFailure)
         else Inr (update_tot_len \<lparr>ix_first_free = IX_NO_PAGE, ix_num_pages = IX_INIT_NUM_PAGES, root_page = IX_INIT_ROOT_PAGE, col_num = int (length cols),
           col_types = map fst cols, col_lens = map snd cols, ix_tot_key = len, btree_order = order, keys_size = (order + 1) * len,
           first_leaf = IX_INIT_ROOT_PAGE, last_leaf = IX_INIT_ROOT_PAGE, hdr_tot_len = 0\<rparr>))"

text \<open>The file, and the number of pages it leaves in \<^verbatim>\<open>fd2pageno_\<close>.\<close>

definition create_index :: "(ColType \<times> nat) list \<Rightarrow> ix_error + ix_file \<times> int" where
  "create_index cols =
     and_then (ix_new_hdr cols) (\<lambda>h.
     and_then (serialize_hdr h) (\<lambda>d.
       Inr (\<lparr>if_hdr = d, if_pages = (\<lambda>_. blank_node)(IX_LEAF_HEADER_PAGE := header_page, IX_INIT_ROOT_PAGE := root_node)\<rparr>, IX_INIT_NUM_PAGES - 1)))"

text \<open>The constructor of \<^verbatim>\<open>IxIndexHandle\<close>; \<open>pageno\<close> is what \<^verbatim>\<open>fd2pageno_\<close> holds for the file.\<close>

definition ix_open :: "ix_file \<Rightarrow> int \<Rightarrow> int multiset \<Rightarrow> nat \<Rightarrow> ix_error + ixh" where
  "ix_open f pageno P frames =
     and_then (deserialize_hdr (if_hdr f)) (\<lambda>h.
       Inr \<lparr>ix_hdr = h, ix_pages = if_pages f, ix_next_page = pageno + 1, ix_pins = P, ix_frames = frames, cached_leaf_no = IX_NO_PAGE,
         pinned_leaf_no = IX_NO_PAGE, pinned_leaf_page = None\<rparr>)"

definition flush_index :: "ixh \<Rightarrow> ix_error + ix_file" where
  "flush_index s = and_then (serialize_hdr (ix_hdr s)) (\<lambda>d. Inr \<lparr>if_hdr = d, if_pages = ix_pages s\<rparr>)"

section \<open>The header and its image\<close>

definition ix_hdr_fits :: "IxFileHdr \<Rightarrow> bool" where
  "ix_hdr_fits h \<longleftrightarrow> int (length (col_types h)) = col_num h \<and> int (length (col_lens h)) = col_num h \<and> hdr_tot_len h = 40 + 8 * col_num h
     \<and> list_all (in_s 4) [hdr_tot_len h, ix_first_free h, ix_num_pages h, root_page h, col_num h] \<and> list_all (in_s 4 \<circ> int) (col_lens h)
     \<and> list_all (in_s 4) [int (ix_tot_key h), int (btree_order h), int (keys_size h), first_leaf h, last_leaf h]"

definition ix_hdr_ints :: "IxFileHdr \<Rightarrow> int list" where
  "ix_hdr_ints h = [hdr_tot_len h, ix_first_free h, ix_num_pages h, root_page h, col_num h] @ map coltype_num (col_types h) @ map int (col_lens h)
     @ [int (ix_tot_key h), int (btree_order h), int (keys_size h), first_leaf h, last_leaf h]"

lemma rd_int:
  assumes "i < length xs" and "in_s 4 (xs ! i)"
  shows "le_dec_s (rd (4 * i) 4 (concat (map (le_enc 4) xs) @ rest)) = xs ! i"
proof -
  have xs: "xs = take i xs @ xs ! i # drop (Suc i) xs" using assms(1) by (rule id_take_nth_drop)
  have "length (concat (map (le_enc 4) (take i xs))) = 4 * i" using assms(1) by (simp add: length_concat comp_def sum_list_triv)
  then have "rd (4 * i) 4 (concat (map (le_enc 4) xs) @ rest) = le_enc 4 (xs ! i)" by (subst xs) (simp add: rd_def)
  then show ?thesis using assms(2) by (simp add: codec_simps)
qed

lemma coltype_num_inv [simp]: "num_coltype (coltype_num t) = t" "in_s 4 (coltype_num t)"
  by (cases t; simp add: num_coltype_def in_s_def)+

lemma serialize_hdr_image: "ix_hdr_fits h \<Longrightarrow> serialize_hdr h = Inr (concat (map (le_enc 4) (ix_hdr_ints h)))"
  by (auto simp: ix_hdr_fits_def serialize_hdr_def ix_hdr_ints_def Let_def length_concat comp_def sum_list_triv)

lemma serialize_hdr_roundtrip:
  assumes f: "ix_hdr_fits h"
  shows "deserialize_hdr (concat (map (le_enc 4) (ix_hdr_ints h)) @ rest) = Inr h"
proof -
  define n where "n = length (col_types h)"
  define xs where "xs = ix_hdr_ints h"
  define d where "d = concat (map (le_enc 4) xs) @ rest"
  have n: "col_num h = int n" "length (col_lens h) = n" "hdr_tot_len h = 40 + 8 * int n" using f by (auto simp: ix_hdr_fits_def n_def)
  have len: "length xs = 10 + 2 * n" by (simp add: xs_def ix_hdr_ints_def n n_def)
  have all: "list_all (in_s 4) xs" using f by (auto simp: xs_def ix_hdr_ints_def ix_hdr_fits_def list_all_iff)
  have at: "le_dec_s (rd (4 * i) 4 d) = xs ! i" if "i < 10 + 2 * n" for i
    unfolding d_def by (rule rd_int) (use that len all in \<open>auto simp: list_all_length\<close>)
  have ct: "xs ! (5 + i) = coltype_num (col_types h ! i)" "xs ! (5 + n + i) = int (col_lens h ! i)" if "i < n" for i
    using that by (auto simp: xs_def ix_hdr_ints_def nth_append n n_def [symmetric])
  have last5: "xs ! (5 + 2 * n + j) = [int (ix_tot_key h), int (btree_order h), int (keys_size h), first_leaf h, last_leaf h] ! j" if "j < 5" for j
  proof -
    have "xs = ([hdr_tot_len h, ix_first_free h, ix_num_pages h, root_page h, col_num h] @ map coltype_num (col_types h) @ map int (col_lens h))
        @ [int (ix_tot_key h), int (btree_order h), int (keys_size h), first_leaf h, last_leaf h]"
      by (simp add: xs_def ix_hdr_ints_def)
    moreover have "length ([hdr_tot_len h, ix_first_free h, ix_num_pages h, root_page h, col_num h] @ map coltype_num (col_types h) @ map int (col_lens h)) = 5 + 2 * n"
      by (simp add: n n_def)
    ultimately show ?thesis by (metis nth_append_length_plus)
  qed
  have heads: "le_dec_s (rd 0 4 d) = hdr_tot_len h" "le_dec_s (rd 4 4 d) = ix_first_free h" "le_dec_s (rd 8 4 d) = ix_num_pages h"
      "le_dec_s (rd 12 4 d) = root_page h" "le_dec_s (rd 16 4 d) = col_num h"
    using at [of 0] at [of 1] at [of 2] at [of 3] at [of 4] by (simp_all add: xs_def ix_hdr_ints_def)
  have tails: "le_dec_s (rd (20 + 8 * n + 4 * j) 4 d) = [int (ix_tot_key h), int (btree_order h), int (keys_size h), first_leaf h, last_leaf h] ! j" if "j < 5" for j
    using at [of "5 + 2 * n + j"] last5 [OF that] that by (simp add: algebra_simps)
  have "map num_coltype (ints_at 20 n d) = col_types h"
    using at [of "5 + _"] ct(1) by (intro nth_equalityI) (simp_all add: ints_at_def n_def [symmetric] algebra_simps)
  moreover have "map nat (ints_at (20 + 4 * n) n d) = col_lens h"
    using at [of "5 + n + _"] ct(2) by (intro nth_equalityI) (simp_all add: ints_at_def n algebra_simps)
  ultimately show ?thesis
    using tails [of 0] tails [of 1] tails [of 2] tails [of 3] tails [of 4] heads n
    by (simp add: deserialize_hdr_def Let_def d_def [symmetric] xs_def [symmetric] algebra_simps)
qed

text \<open>
  C38: The file header of an index survives a restart: for a header whose fields fit their types \<^verbatim>\<open>serialize\<close> succeeds, its assertion on the length holds, and
  \<^verbatim>\<open>deserialize\<close> gives the header back from a page that starts with these bytes, whatever follows them.
\<close>

theorem file_hdr_roundtrip:
  assumes "ix_hdr_fits h"
  shows "\<exists>d. serialize_hdr h = Inr d \<and> int (length d) = hdr_tot_len h \<and> deserialize_hdr (d @ rest) = Inr h"
proof -
  have "int (length (concat (map (le_enc 4) (ix_hdr_ints h)))) = hdr_tot_len h"
    using assms by (auto simp: ix_hdr_fits_def ix_hdr_ints_def length_concat comp_def sum_list_triv)
  then show ?thesis using serialize_hdr_image [OF assms] serialize_hdr_roundtrip [OF assms] by auto
qed

theorem file_hdr_roundtrip_witness:
  "\<exists>d. serialize_hdr \<lparr>ix_first_free = -1, ix_num_pages = 3, root_page = 2, col_num = 1, col_types = [TYPE_INT], col_lens = [4], ix_tot_key = 4,
      btree_order = 338, keys_size = 1356, first_leaf = 2, last_leaf = 2, hdr_tot_len = 48\<rparr> = Inr d \<and> int (length d) = 48
    \<and> deserialize_hdr (d @ [0, 0]) = Inr \<lparr>ix_first_free = -1, ix_num_pages = 3, root_page = 2, col_num = 1, col_types = [TYPE_INT], col_lens = [4], ix_tot_key = 4,
      btree_order = 338, keys_size = 1356, first_leaf = 2, last_leaf = 2, hdr_tot_len = 48\<rparr>"
  using file_hdr_roundtrip [where h = "\<lparr>ix_first_free = -1, ix_num_pages = 3, root_page = 2, col_num = 1, col_types = [TYPE_INT], col_lens = [4], ix_tot_key = 4,
      btree_order = 338, keys_size = 1356, first_leaf = 2, last_leaf = 2, hdr_tot_len = 48\<rparr>" and rest = "[0, 0]"]
  by (simp add: ix_hdr_fits_def in_s_def)

section \<open>A new index\<close>

lemma order_bounds:
  assumes "len \<le> IX_MAX_COL_LEN"
  defines "n \<equiv> (PAGE_SIZE - IX_PAGE_HDR_SIZE) div (len + RID_SIZE) - 1"
  shows "6 \<le> n" "IX_PAGE_HDR_SIZE + (len + RID_SIZE) * (n + 1) \<le> PAGE_SIZE" "n + 1 \<le> 509"
proof -
  have c: "PAGE_SIZE - IX_PAGE_HDR_SIZE = 4072" "RID_SIZE = 8" "IX_PAGE_HDR_SIZE = 24" "PAGE_SIZE = 4096" "len \<le> 512"
    using assms(1) by (simp_all add: PAGE_SIZE_def IX_PAGE_HDR_SIZE_def RID_SIZE_def IX_MAX_COL_LEN_def)
  have "4072 div 520 \<le> 4072 div (len + 8)" by (rule div_le_mono2) (use c in simp_all)
  then have s: "7 \<le> 4072 div (len + 8)" by simp
  have "4072 div (len + 8) \<le> 4072 div 8" by (rule div_le_mono2) simp_all
  then show "6 \<le> n" "n + 1 \<le> 509" using s by (simp_all add: n_def c)
  have "(len + 8) * (4072 div (len + 8)) \<le> 4072" by simp
  moreover have "n + 1 = 4072 div (len + 8)" using s by (simp add: n_def c)
  ultimately show "IX_PAGE_HDR_SIZE + (len + RID_SIZE) * (n + 1) \<le> PAGE_SIZE" by (simp add: c)
qed

text \<open>
  C37: The assertion on the order never fails: for columns of at most \<^verbatim>\<open>IX_MAX_COL_LEN\<close> bytes together \<^verbatim>\<open>create_index\<close> makes a header whose nodes hold
  at least six entries, and the page header, the keys and the record ids of a node with the reserved slot fit into a page.
  Longer keys are refused with \<^verbatim>\<open>InvalidColLengthError\<close>.
\<close>

theorem ix_new_hdr_layout:
  "case ix_new_hdr cols of
     Inl e \<Rightarrow> IX_MAX_COL_LEN < sum_list (map snd cols) \<and> e = Thrown (InvalidColLengthError (int (sum_list (map snd cols))))
   | Inr h \<Rightarrow> ix_tot_key h = sum_list (map snd cols) \<and> 6 \<le> btree_order h \<and> keys_size h = (btree_order h + 1) * ix_tot_key h
       \<and> IX_PAGE_HDR_SIZE + keys_size h + RID_SIZE * (btree_order h + 1) \<le> PAGE_SIZE"
proof (cases "IX_MAX_COL_LEN < sum_list (map snd cols)")
  case True
  then show ?thesis by (simp add: ix_new_hdr_def)
next
  case False
  then have "sum_list (map snd cols) \<le> IX_MAX_COL_LEN" by simp
  note b = order_bounds [OF this]
  show ?thesis using False b(1,2) by (simp add: ix_new_hdr_def Let_def update_tot_len_def algebra_simps)
qed

definition ix_hdr_of :: "(ColType \<times> nat) list \<Rightarrow> IxFileHdr" where
  "ix_hdr_of cols = (case ix_new_hdr cols of Inr h \<Rightarrow> h)"

lemma ix_new_hdr_ok:
  assumes "sum_list (map snd cols) \<le> IX_MAX_COL_LEN"
  shows "ix_new_hdr cols = Inr (ix_hdr_of cols)" "col_types (ix_hdr_of cols) = map fst cols" "col_lens (ix_hdr_of cols) = map snd cols"
    "ix_tot_key (ix_hdr_of cols) = sum_list (map snd cols)" "6 \<le> btree_order (ix_hdr_of cols)" "root_page (ix_hdr_of cols) = IX_INIT_ROOT_PAGE"
    "ix_num_pages (ix_hdr_of cols) = IX_INIT_NUM_PAGES" "first_leaf (ix_hdr_of cols) = IX_INIT_ROOT_PAGE" "last_leaf (ix_hdr_of cols) = IX_INIT_ROOT_PAGE"
    "length cols \<le> 507 \<Longrightarrow> ix_hdr_fits (ix_hdr_of cols)"
proof -
  note b = order_bounds [OF assms]
  have h: "ix_new_hdr cols = Inr (update_tot_len \<lparr>ix_first_free = IX_NO_PAGE, ix_num_pages = IX_INIT_NUM_PAGES, root_page = IX_INIT_ROOT_PAGE, col_num = int (length cols),
      col_types = map fst cols, col_lens = map snd cols, ix_tot_key = sum_list (map snd cols),
      btree_order = (PAGE_SIZE - IX_PAGE_HDR_SIZE) div (sum_list (map snd cols) + RID_SIZE) - 1,
      keys_size = ((PAGE_SIZE - IX_PAGE_HDR_SIZE) div (sum_list (map snd cols) + RID_SIZE) - 1 + 1) * sum_list (map snd cols),
      first_leaf = IX_INIT_ROOT_PAGE, last_leaf = IX_INIT_ROOT_PAGE, hdr_tot_len = 0\<rparr>)"
    using assms b(1) by (simp add: ix_new_hdr_def Let_def)
  then show "ix_new_hdr cols = Inr (ix_hdr_of cols)" by (simp add: ix_hdr_of_def)
  show "col_types (ix_hdr_of cols) = map fst cols" "col_lens (ix_hdr_of cols) = map snd cols" "ix_tot_key (ix_hdr_of cols) = sum_list (map snd cols)"
    "root_page (ix_hdr_of cols) = IX_INIT_ROOT_PAGE" "ix_num_pages (ix_hdr_of cols) = IX_INIT_NUM_PAGES" "first_leaf (ix_hdr_of cols) = IX_INIT_ROOT_PAGE"
    "last_leaf (ix_hdr_of cols) = IX_INIT_ROOT_PAGE"
    unfolding ix_hdr_of_def h by (simp_all add: update_tot_len_def)
  show o: "6 \<le> btree_order (ix_hdr_of cols)" using b(1) unfolding ix_hdr_of_def h by (simp add: update_tot_len_def)
  show "ix_hdr_fits (ix_hdr_of cols)" if n: "length cols \<le> 507"
  proof -
    let ?k = "sum_list (map snd cols)" and ?o = "(PAGE_SIZE - IX_PAGE_HDR_SIZE) div (sum_list (map snd cols) + RID_SIZE) - 1"
    have k: "?k \<le> 512" "?o + 1 \<le> 509" using assms b(3) by (simp_all add: IX_MAX_COL_LEN_def)
    then have "(?o + 1) * ?k \<le> 509 * 512" by (intro mult_le_mono)
    then have m: "(?o + 1) * ?k \<le> 260608" by simp
    have s: "in_s 4 (int x)" if "x \<le> 260608" for x using that by (simp add: in_s_def)
    have "list_all (in_s 4 \<circ> int) (map snd cols)"
      unfolding list_all_iff comp_def
    proof
      fix x assume "x \<in> set (map snd cols)"
      then have "x \<le> ?k" by (rule member_le_sum_list) simp
      then show "in_s 4 (int x)" using k by (intro s) simp
    qed
    moreover have "in_s 4 (int ((?o + 1) * ?k))" using m by (rule s)
    moreover have "in_s 4 (int ?k)" "in_s 4 (int ?o)" by (intro s; use k in simp)+
    moreover have "in_s 4 (40 + 8 * int (length cols))" "in_s 4 (int (length cols))" using n by (simp_all add: in_s_def)
    ultimately show ?thesis
      unfolding ix_hdr_fits_def ix_hdr_of_def h
      by (simp add: update_tot_len_def IX_NO_PAGE_def IX_INIT_NUM_PAGES_def IX_INIT_ROOT_PAGE_def) (simp add: in_s_def)
  qed
qed

lemma new_index_ok:
  assumes "sum_list (map snd cols) \<le> IX_MAX_COL_LEN" and "length cols \<le> 507"
  obtains f n s where "create_index cols = Inr (f, n)" "ix_open f n B frames = Inr s" "tree s [IX_INIT_ROOT_PAGE] []" "caches B s [IX_INIT_ROOT_PAGE]"
    "entries s [IX_INIT_ROOT_PAGE] = []" "ix_hdr s = ix_hdr_of cols" "ix_frames s = frames"
proof -
  note h = ix_new_hdr_ok [OF assms(1)]
  let ?d = "concat (map (le_enc 4) (ix_hdr_ints (ix_hdr_of cols)))" and ?g = "(\<lambda>_. blank_node)(IX_LEAF_HEADER_PAGE := header_page, IX_INIT_ROOT_PAGE := root_node)"
  let ?s = "\<lparr>ix_hdr = ix_hdr_of cols, ix_pages = ?g, ix_next_page = 3, ix_pins = B, ix_frames = frames, cached_leaf_no = IX_NO_PAGE, pinned_leaf_no = IX_NO_PAGE,
    pinned_leaf_page = None\<rparr>"
  note fits = h(10) [OF assms(2)]
  have "create_index cols = Inr (\<lparr>if_hdr = ?d, if_pages = ?g\<rparr>, IX_INIT_NUM_PAGES - 1)"
    using serialize_hdr_image [OF fits] by (simp add: create_index_def h(1))
  moreover have "ix_open \<lparr>if_hdr = ?d, if_pages = ?g\<rparr> (IX_INIT_NUM_PAGES - 1) B frames = Inr ?s"
    using serialize_hdr_roundtrip [OF fits, of "[]"] by (simp add: ix_open_def IX_INIT_NUM_PAGES_def)
  moreover have "tree ?s [IX_INIT_ROOT_PAGE] []"
    using h by (simp add: tree_def tree_core_def shaped_def entries_def leaf_size_ok_def leaf_ring_def ents_def root_node_def header_page_def
      IX_INIT_ROOT_PAGE_def IX_LEAF_HEADER_PAGE_def IX_INIT_NUM_PAGES_def)
  moreover have "entries ?s [IX_INIT_ROOT_PAGE] = []" by (simp add: entries_def ents_def root_node_def)
  ultimately show ?thesis using that by (simp add: caches_def)
qed

text \<open>
  C39: An index that is flushed and opened again in a new process, where \<^verbatim>\<open>fd2pageno_\<close> of the file is zero, loses its leaf list: the first node the
  handle creates is the page of the header of that list, which becomes an empty node. The comment in the constructor says that pages are allocated from
  \<^verbatim>\<open>num_pages\<close> on.
\<close>

theorem reopen_reuses_header_page:
  assumes "flush_index s = Inr f" and "ix_open f 0 P frames = Inr t" and "size P < frames"
  shows "ix_pages t = ix_pages s \<and> (\<exists>u. create_node t = Inr (IX_LEAF_HEADER_PAGE, u) \<and> node u IX_LEAF_HEADER_PAGE = blank_node)"
proof -
  have t: "ix_next_page t = IX_LEAF_HEADER_PAGE" "ix_pins t = P" "ix_frames t = frames" "ix_pages t = ix_pages s"
    using assms(1,2) by (auto simp: flush_index_def ix_open_def and_then_Inr_iff IX_LEAF_HEADER_PAGE_def)
  have "size (ix_pins t) < ix_frames t" using t assms(3) by simp
  from create_node_ok [OF this] show ?thesis using t by simp
qed

theorem reopen_reuses_header_page_witness:
  "\<exists>s f t u. flush_index s = Inr f \<and> ix_open f 0 {#} 8 = Inr t \<and> nd_next (node t IX_LEAF_HEADER_PAGE) = IX_INIT_ROOT_PAGE
    \<and> create_node t = Inr (IX_LEAF_HEADER_PAGE, u) \<and> node u IX_LEAF_HEADER_PAGE = blank_node"
proof -
  let ?cols = "[(TYPE_INT, 4)]"
  have c: "sum_list (map snd ?cols) \<le> IX_MAX_COL_LEN" by (simp add: IX_MAX_COL_LEN_def)
  have fits: "ix_hdr_fits (ix_hdr_of ?cols)" by (rule ix_new_hdr_ok(10) [OF c]) simp
  let ?g = "(\<lambda>_. blank_node)(IX_LEAF_HEADER_PAGE := header_page, IX_INIT_ROOT_PAGE := root_node)"
  let ?s = "\<lparr>ix_hdr = ix_hdr_of ?cols, ix_pages = ?g, ix_next_page = 3, ix_pins = {#}, ix_frames = 8, cached_leaf_no = IX_NO_PAGE,
    pinned_leaf_no = IX_NO_PAGE, pinned_leaf_page = None\<rparr>"
  let ?t = "?s\<lparr>ix_next_page := 1\<rparr>"
  let ?f = "\<lparr>if_hdr = concat (map (le_enc 4) (ix_hdr_ints (ix_hdr_of ?cols))), if_pages = ?g\<rparr>"
  have f: "flush_index ?s = Inr ?f" by (simp add: flush_index_def serialize_hdr_image [OF fits])
  have t: "ix_open ?f 0 {#} 8 = Inr ?t" using serialize_hdr_roundtrip [OF fits, of "[]"] by (simp add: ix_open_def)
  have h: "nd_next (node ?t IX_LEAF_HEADER_PAGE) = IX_INIT_ROOT_PAGE" by (simp add: header_page_def IX_LEAF_HEADER_PAGE_def IX_INIT_ROOT_PAGE_def)
  have "size ({#} :: int multiset) < 8" by simp
  from reopen_reuses_header_page [OF f t this]
  obtain u where u: "create_node ?t = Inr (IX_LEAF_HEADER_PAGE, u)" "node u IX_LEAF_HEADER_PAGE = blank_node" by blast
  show ?thesis by (rule exI [of _ ?s], rule exI [of _ ?f], rule exI [of _ ?t], rule exI [of _ u]) (intro conjI f t h u)
qed

section \<open>The depth of the tree\<close>

lemma level_length:
  assumes "link g L M" and "\<And>m. m \<in> set M \<Longrightarrow> 2 \<le> length (ents g m)"
  shows "2 * length M \<le> length L"
proof -
  have "length L = sum_list (map (\<lambda>m. length (ents g m)) M)"
    unfolding link_pages [OF assms(1), symmetric] by (simp add: length_concat comp_def)
  moreover have "2 * length M \<le> sum_list (map (\<lambda>m. length (ents g m)) M)" using assms(2) by (induction M) fastforce+
  ultimately show ?thesis by simp
qed

lemma levels_length:
  assumes "stacked g L Ls" and "wide h g Ls" and "3 \<le> btree_order h"
  shows "2 ^ length Ls \<le> length L"
  using assms
proof (induction Ls arbitrary: L)
  case (Cons M Ms)
  have "2 * length M \<le> length L" by (rule level_length) (use Cons.prems wide_filled [of h g M Ms] in auto)
  then show ?case using Cons by fastforce
qed auto

text \<open>A tree with inner levels has at least two entries in each leaf, so its depth is the logarithm of the number of entries.\<close>

lemma tree_depth:
  assumes "tree s L Ls" and "length (entries s L) < 2 ^ n"
  shows "Ls = [] \<or> length Ls + 1 < n"
proof (cases "Ls = []")
  case False
  have "2 \<le> length (ents (ix_pages s) p)" if "p \<in> set L" for p
    using treeD(6) [OF assms(1) that False] min_size_pos [OF treeD(3) [OF assms(1)]] by (simp add: ents_def)
  then have "2 * length L \<le> sum_list (map (\<lambda>p. length (ents (ix_pages s) p)) L)" by (induction L) fastforce+
  then have "2 * length L \<le> length (entries s L)" by (simp add: entries_def length_concat comp_def)
  moreover have "2 ^ length Ls \<le> length L" by (rule levels_length [OF shapedD(1) [OF treeD(1) [OF assms(1)]] treeD(2,3) [OF assms(1)]])
  ultimately have "2 ^ (length Ls + 1) < (2 :: nat) ^ n" using assms(2) by simp
  then show ?thesis by (simp only: power_strict_increasing_iff one_less_numeral_iff num.simps simp_thms semiring_norm)
qed simp

section \<open>A store of values by key\<close>

datatype ix_op = IxInsert bytes Rid | IxDelete bytes | IxGet bytes
datatype ix_out = Inserted | Deleted bool | Got "Rid option"

text \<open>A sequence of calls, with the operations as arguments.\<close>

fun runs :: "(bytes \<Rightarrow> 's \<Rightarrow> 'e + Rid option \<times> 's) \<Rightarrow> (bytes \<Rightarrow> Rid \<Rightarrow> 's \<Rightarrow> 'e + int \<times> 's) \<Rightarrow> (bytes \<Rightarrow> 's \<Rightarrow> 'e + bool \<times> 's)
    \<Rightarrow> ix_op list \<Rightarrow> 's \<Rightarrow> 'e + ix_out list \<times> 's" where
  "runs get ins del [] s = Inr ([], s)"
| "runs get ins del (IxInsert k v # ops) s =
     and_then (ins k v s) (\<lambda>(_, s). and_then (runs get ins del ops s) (\<lambda>(outs, s). Inr (Inserted # outs, s)))"
| "runs get ins del (IxDelete k # ops) s =
     and_then (del k s) (\<lambda>(b, s). and_then (runs get ins del ops s) (\<lambda>(outs, s). Inr (Deleted b # outs, s)))"
| "runs get ins del (IxGet k # ops) s =
     and_then (get k s) (\<lambda>(r, s). and_then (runs get ins del ops s) (\<lambda>(outs, s). Inr (Got r # outs, s)))"

fun op_key :: "ix_op \<Rightarrow> bytes" where
  "op_key (IxInsert k v) = k"
| "op_key (IxDelete k) = k"
| "op_key (IxGet k) = k"

text \<open>What the calls do to a map: an insertion of a key that is there changes nothing.\<close>

fun map_op :: "(bytes \<Rightarrow> 'k) \<Rightarrow> ix_op \<Rightarrow> ('k \<rightharpoonup> Rid) \<Rightarrow> ix_out \<times> ('k \<rightharpoonup> Rid)" where
  "map_op kv (IxInsert k v) m = (Inserted, if kv k \<in> dom m then m else m(kv k \<mapsto> v))"
| "map_op kv (IxDelete k) m = (Deleted (kv k \<in> dom m), m(kv k := None))"
| "map_op kv (IxGet k) m = (Got (m (kv k)), m)"

fun map_ops :: "(bytes \<Rightarrow> 'k) \<Rightarrow> ix_op list \<Rightarrow> ('k \<rightharpoonup> Rid) \<Rightarrow> ix_out list \<times> ('k \<rightharpoonup> Rid)" where
  "map_ops kv [] m = ([], m)"
| "map_ops kv (x # ops) m = (let (out, m) = map_op kv x m; (outs, m) = map_ops kv ops m in (out # outs, m))"

text \<open>\<open>holds n s m\<close>: the state \<open>s\<close> represents the map \<open>m\<close> and has resources for \<open>n\<close> more calls.\<close>

locale keyed_store =
  fixes get :: "bytes \<Rightarrow> 's \<Rightarrow> 'e + Rid option \<times> 's" and ins :: "bytes \<Rightarrow> Rid \<Rightarrow> 's \<Rightarrow> 'e + int \<times> 's" and del :: "bytes \<Rightarrow> 's \<Rightarrow> 'e + bool \<times> 's"
    and kv :: "bytes \<Rightarrow> 'k" and good :: "bytes \<Rightarrow> bool" and holds :: "nat \<Rightarrow> 's \<Rightarrow> ('k \<rightharpoonup> Rid) \<Rightarrow> bool"
  assumes get_law: "holds (Suc n) s m \<Longrightarrow> good k \<Longrightarrow> \<exists>t. get k s = Inr (m (kv k), t) \<and> holds n t m"
    and ins_law: "holds (Suc n) s m \<Longrightarrow> good k \<Longrightarrow> \<exists>p t. ins k v s = Inr (p, t) \<and> holds n t (if kv k \<in> dom m then m else m(kv k \<mapsto> v))"
    and del_law: "holds (Suc n) s m \<Longrightarrow> good k \<Longrightarrow> \<exists>t. del k s = Inr (kv k \<in> dom m, t) \<and> holds n t (m(kv k := None))"
begin

lemma runs_map:
  assumes "holds (length ops + n) s m" and "\<And>x. x \<in> set ops \<Longrightarrow> good (op_key x)"
  shows "\<exists>t. runs get ins del ops s = Inr (fst (map_ops kv ops m), t) \<and> holds n t (snd (map_ops kv ops m))"
  using assms
proof (induction ops arbitrary: s m)
  case (Cons x ops)
  have h: "holds (Suc (length ops + n)) s m" and g: "good (op_key x)" using Cons.prems by simp_all
  have step: "\<exists>t. runs get ins del (x # ops) s = and_then (runs get ins del ops t) (\<lambda>(outs, s). Inr (fst (map_op kv x m) # outs, s))
      \<and> holds (length ops + n) t (snd (map_op kv x m))"
  proof (cases x)
    case (IxInsert k v)
    then obtain p t where "ins k v s = Inr (p, t)" "holds (length ops + n) t (if kv k \<in> dom m then m else m(kv k \<mapsto> v))"
      using ins_law [OF h, of k v] g by auto
    then show ?thesis using IxInsert by (intro exI [of _ t]) simp
  next
    case (IxDelete k)
    then show ?thesis using del_law [OF h, of k] g by auto
  next
    case (IxGet k)
    then show ?thesis using get_law [OF h, of k] g by auto
  qed
  then obtain t where t: "runs get ins del (x # ops) s = and_then (runs get ins del ops t) (\<lambda>(outs, s). Inr (fst (map_op kv x m) # outs, s))"
      "holds (length ops + n) t (snd (map_op kv x m))" by blast
  from Cons.IH [OF t(2)] Cons.prems(2) obtain u where "runs get ins del ops t = Inr (fst (map_ops kv ops (snd (map_op kv x m))), u)"
      "holds n u (snd (map_ops kv ops (snd (map_op kv x m))))" by auto
  then show ?case using t(1) by (simp add: case_prod_beta Let_def)
qed simp

end

section \<open>The index is such a store\<close>

definition ix_holds :: "IxFileHdr \<Rightarrow> int multiset \<Rightarrow> nat \<Rightarrow> nat \<Rightarrow> ixh \<Rightarrow> (int list \<rightharpoonup> Rid) \<Rightarrow> bool" where
  "ix_holds h B d n s m \<longleftrightarrow> (\<exists>L Ls. tree s L Ls \<and> caches B s L \<and> same_keys h (ix_hdr s) \<and> ent_map h (entries s L) = m
     \<and> length (entries s L) + n < 2 ^ d \<and> size B + 2 * d + 3 < ix_frames s)"

lemma ix_holdsE:
  assumes "ix_holds h B d n s m"
  obtains L Ls where "tree s L Ls" "caches B s L" "key_val (ix_hdr s) = key_val h" "key_ok (ix_hdr s) = key_ok h" "same_keys h (ix_hdr s)"
    "ent_map h (entries s L) = m" "length (entries s L) + n < 2 ^ d" "size B + 2 * length Ls + 3 < ix_frames s" "size B + 2 * d + 3 < ix_frames s"
proof -
  obtain L Ls where t: "tree s L Ls" "caches B s L" "same_keys h (ix_hdr s)" "ent_map h (entries s L) = m"
      "length (entries s L) + n < 2 ^ d" "size B + 2 * d + 3 < ix_frames s"
    using assms by (auto simp: ix_holds_def)
  have "Ls = [] \<or> length Ls + 1 < d" by (rule tree_depth [OF t(1)]) (use t(5) in simp)
  then have "size B + 2 * length Ls + 3 < ix_frames s" using t(6) by auto
  then show ?thesis using that t same_keysD(1,2) [OF t(3)] by blast
qed

lemma ix_holds_updated:
  assumes "updated B s es t M Ms" and "same_keys h (ix_hdr s)" and "ent_map h es = m" and "length es + n < 2 ^ d" and "size B + 2 * d + 3 < ix_frames s"
  shows "ix_holds h B d n t m"
proof -
  have "same_keys h (ix_hdr t)" using assms(1,2) by (simp add: updated_def same_keys_def)
  then show ?thesis using assms unfolding ix_holds_def updated_def by auto
qed

lemma ent_lengths: "length (ent_insert h k v es) \<le> length es + 1" "length (ent_delete h k es) \<le> length es"
proof -
  have "length (filter (\<lambda>e. key_val h (fst e) < key_val h k) es) + length (filter (\<lambda>e. key_val h k < key_val h (fst e)) es) \<le> length es"
    by (induction es) auto
  then show "length (ent_insert h k v es) \<le> length es + 1" by (simp add: ent_insert_def)
qed (simp add: ent_delete_def)

interpretation bt: keyed_store get_value insert_entry delete_entry "key_val h" "key_ok h" "ix_holds h B d" for h B d
proof
  fix n s m k v
  assume hd: "ix_holds h B d (Suc n) s m" and k: "key_ok h k"
  obtain L Ls where t: "tree s L Ls" "caches B s L" and kk: "key_val (ix_hdr s) = key_val h" "key_ok (ix_hdr s) = key_ok h" "same_keys h (ix_hdr s)"
      and m: "ent_map h (entries s L) = m" and len: "length (entries s L) + Suc n < 2 ^ d" and sz: "size B + 2 * length Ls + 3 < ix_frames s"
        "size B + 2 * d + 3 < ix_frames s"
    by (rule ix_holdsE [OF hd])
  have ks: "key_ok (ix_hdr s) k" using k kk by simp
  have em: "ent_map (ix_hdr s) = ent_map h" "ent_insert (ix_hdr s) = ent_insert h" "ent_delete (ix_hdr s) = ent_delete h" "ent_find (ix_hdr s) = ent_find h"
    using same_keysD(7-10) [OF kk(3)] by simp_all
  have pins: "size (ix_pins s) < ix_frames s" using caches_pins(1) [OF t(2)] sz by simp
  show "\<exists>t. get_value k s = Inr (m (key_val h k), t) \<and> ix_holds h B d n t m"
  proof (intro exI conjI)
    show "get_value k s = Inr (m (key_val h k), s)"
      using get_value_ok [OF tree_searchable [OF t(1)] ks pins] m em by (simp add: entries_def [symmetric] ent_find_map)
    show "ix_holds h B d n s m" using t kk m len sz by (auto simp: ix_holds_def)
  qed
  show "\<exists>p t. insert_entry k v s = Inr (p, t) \<and> ix_holds h B d n t (if key_val h k \<in> dom m then m else m(key_val h k \<mapsto> v))"
  proof -
    obtain p u M Ms where u: "insert_entry k v s = Inr (p, u)" "updated B s (ent_insert (ix_hdr s) k v (entries s L)) u M Ms"
      by (rule insert_entry_ok [OF t ks sz(1)])
    have "ix_holds h B d n u (if key_val h k \<in> dom m then m else m(key_val h k \<mapsto> v))"
    proof (rule ix_holds_updated [OF u(2) kk(3) _ _ sz(2)])
      show "ent_map h (ent_insert (ix_hdr s) k v (entries s L)) = (if key_val h k \<in> dom m then m else m(key_val h k \<mapsto> v))"
        using ent_map_insert [of h k v "entries s L"] m em by simp
      show "length (ent_insert (ix_hdr s) k v (entries s L)) + n < 2 ^ d"
        using ent_lengths(1) [of h k v "entries s L"] len em by simp
    qed
    with u(1) show ?thesis by blast
  qed
  show "\<exists>t. delete_entry k s = Inr (key_val h k \<in> dom m, t) \<and> ix_holds h B d n t (m(key_val h k := None))"
  proof -
    have sd: "size B + 2 * length Ls + 1 < ix_frames s" using sz by simp
    obtain u M Ms where u: "delete_entry k s = Inr (key_val (ix_hdr s) k \<in> set (vals (ix_hdr s) (entries s L)), u)"
        "updated B s (ent_delete (ix_hdr s) k (entries s L)) u M Ms"
      by (rule delete_entry_ok [OF t ks sd])
    have "ix_holds h B d n u (m(key_val h k := None))"
    proof (rule ix_holds_updated [OF u(2) kk(3) _ _ sz(2)])
      show "ent_map h (ent_delete (ix_hdr s) k (entries s L)) = m(key_val h k := None)"
        using ent_map_delete [of h k "entries s L"] m em by simp
      show "length (ent_delete (ix_hdr s) k (entries s L)) + n < 2 ^ d"
        using ent_lengths(2) [of h k "entries s L"] len em by simp
    qed
    moreover have "key_val (ix_hdr s) k \<in> set (vals (ix_hdr s) (entries s L)) \<longleftrightarrow> key_val h k \<in> dom m"
      using dom_ent_map [of "ix_hdr s" "entries s L"] m em kk by simp
    ultimately show ?thesis using u(1) by auto
  qed
qed

lemma new_index_holds:
  assumes "sum_list (map snd cols) \<le> IX_MAX_COL_LEN" and "length cols \<le> 507" and "length ops < 2 ^ d" and "size B + 2 * d + 3 < frames"
  obtains f n s where "create_index cols = Inr (f, n)" "ix_open f n B frames = Inr s" "ix_holds (ix_hdr_of cols) B d (length ops + 0) s Map.empty"
proof -
  obtain f n s where s: "create_index cols = Inr (f, n)" "ix_open f n B frames = Inr s" "tree s [IX_INIT_ROOT_PAGE] []" "caches B s [IX_INIT_ROOT_PAGE]"
      "entries s [IX_INIT_ROOT_PAGE] = []" "ix_hdr s = ix_hdr_of cols" "ix_frames s = frames"
    by (rule new_index_ok [OF assms(1,2)])
  have "ix_holds (ix_hdr_of cols) B d (length ops + 0) s Map.empty"
    using s assms(3,4) unfolding ix_holds_def
    by (intro exI [of _ "[IX_INIT_ROOT_PAGE]"] exI [of _ "[]"]) (simp add: ent_map_def)
  then show ?thesis using that s(1,2) by blast
qed

text \<open>
  C4: A new index refines a map from key values to record ids. Every sequence of \<^verbatim>\<open>insert_entry\<close>, \<^verbatim>\<open>delete_entry\<close> and \<^verbatim>\<open>get_value\<close>
  calls on a freshly created and opened index returns, with the results the map gives: no exception, no failed assertion, no stale slot and no endless
  loop, whatever splits, borrowings and merges the calls cause. A key that is present is not inserted again. The index never keeps more than one
  page pinned between calls. With \<open>d\<close> the logarithm of the number of calls, the pool needs \<open>2 * d + 4\<close> frames beside the pins of others.
\<close>

theorem index_refines_map:
  assumes "sum_list (map snd cols) \<le> IX_MAX_COL_LEN" and "length cols \<le> 507"
    and "\<And>x. x \<in> set ops \<Longrightarrow> key_ok (ix_hdr_of cols) (op_key x)" and "length ops < 2 ^ d" and "size B + 2 * d + 3 < frames"
  shows "\<exists>f n s t. create_index cols = Inr (f, n) \<and> ix_open f n B frames = Inr s
    \<and> runs get_value insert_entry delete_entry ops s = Inr (fst (map_ops (key_val (ix_hdr_of cols)) ops Map.empty), t) \<and> size (ix_pins t) \<le> size B + 1"
proof -
  obtain f n s where s: "create_index cols = Inr (f, n)" "ix_open f n B frames = Inr s" "ix_holds (ix_hdr_of cols) B d (length ops + 0) s Map.empty"
    by (rule new_index_holds [OF assms(1,2,4,5)])
  from bt.runs_map [OF s(3) assms(3)]
  obtain t where t: "runs get_value insert_entry delete_entry ops s = Inr (fst (map_ops (key_val (ix_hdr_of cols)) ops Map.empty), t)"
      "ix_holds (ix_hdr_of cols) B d 0 t (snd (map_ops (key_val (ix_hdr_of cols)) ops Map.empty))" by auto
  from t(2) have "size (ix_pins t) \<le> size B + 1" by (rule ix_holdsE) (rule caches_pins(1))
  then show ?thesis using s(1,2) t(1) by blast
qed

theorem index_refines_map_witness:
  "\<exists>f n s t. create_index [(TYPE_STRING, 2)] = Inr (f, n) \<and> ix_open f n {#} 16 = Inr s
    \<and> runs get_value insert_entry delete_entry [IxInsert [1, 2] \<lparr>page_no = 1, slot_no = 4\<rparr>, IxGet [1, 2], IxDelete [1, 2], IxGet [1, 2]] s
      = Inr ([Inserted, Got (Some \<lparr>page_no = 1, slot_no = 4\<rparr>), Deleted True, Got None], t) \<and> size (ix_pins t) \<le> 1"
proof -
  let ?cols = "[(TYPE_STRING, 2)]" and ?ops = "[IxInsert [1, 2] \<lparr>page_no = 1, slot_no = 4\<rparr>, IxGet [1, 2], IxDelete [1, 2], IxGet [1, 2]]"
  have c: "sum_list (map snd ?cols) \<le> IX_MAX_COL_LEN" by (simp add: IX_MAX_COL_LEN_def)
  have k: "key_ok (ix_hdr_of ?cols) (op_key x)" if "x \<in> set ?ops" for x
    using that ix_new_hdr_ok(2-4) [OF c] by (auto simp: key_ok_def)
  have "fst (map_ops (key_val (ix_hdr_of ?cols)) ?ops Map.empty) = [Inserted, Got (Some \<lparr>page_no = 1, slot_no = 4\<rparr>), Deleted True, Got None]"
    by simp
  then show ?thesis using index_refines_map [where cols = ?cols and ops = ?ops and d = 3 and B = "{#}" and frames = 16, OF c _ k] by simp
qed

end
