(* ===== verification/Index_Scan.thy ===== *)
theory Index_Scan
  imports Index_Map
begin

text \<open>
  Range scans: \<^verbatim>\<open>IxIndexHandle::lower_bound\<close>, \<^verbatim>\<open>upper_bound\<close> and \<^verbatim>\<open>IxScan\<close>. A position is a leaf and a slot; positions that the index gives out
  correspond to places in the list of all entries, and a scan moves along this list.
\<close>

section \<open>Positions\<close>

definition pos_at :: "ixh \<Rightarrow> int list \<Rightarrow> nat \<Rightarrow> Iid \<Rightarrow> bool" where
  "pos_at s L n i \<longleftrightarrow> (\<exists>xs p ys k. L = xs @ p # ys \<and> n = length (concat (map (ents (ix_pages s)) xs)) + k \<and> i = \<lparr>iid_page = p, iid_slot = int k\<rparr>
     \<and> (k < length (ents (ix_pages s) p) \<or> ys = [] \<and> k = length (ents (ix_pages s) p)))"

lemma pos_atE:
  assumes "pos_at s L n i"
  obtains xs p ys k where "L = xs @ p # ys" "n = length (concat (map (ents (ix_pages s)) xs)) + k" "i = \<lparr>iid_page = p, iid_slot = int k\<rparr>"
    "k < length (ents (ix_pages s) p) \<or> ys = [] \<and> k = length (ents (ix_pages s) p)"
  using assms unfolding pos_at_def by blast

lemma pos_atI:
  assumes "L = xs @ p # ys" and "k < length (ents (ix_pages s) p) \<or> ys = [] \<and> k = length (ents (ix_pages s) p)"
  shows "pos_at s L (length (concat (map (ents (ix_pages s)) xs)) + k) \<lparr>iid_page = p, iid_slot = int k\<rparr>"
  using assms unfolding pos_at_def by blast

lemma pos_at_le: "pos_at s L n i \<Longrightarrow> n \<le> length (entries s L)"
  by (auto simp: pos_at_def entries_def)

lemma pos_at_same:
  assumes "distinct L" and "pos_at s L n \<lparr>iid_page = p, iid_slot = int k\<rparr>" and "L = xs @ p # ys"
  shows "n = length (concat (map (ents (ix_pages s)) xs)) + k" "k < length (ents (ix_pages s) p) \<or> ys = [] \<and> k = length (ents (ix_pages s) p)"
proof -
  obtain xs' ys' where c: "L = xs' @ p # ys'" "n = length (concat (map (ents (ix_pages s)) xs')) + k"
      "k < length (ents (ix_pages s) p) \<or> ys' = [] \<and> k = length (ents (ix_pages s) p)"
    using assms(2) by (auto simp: pos_at_def)
  have dl: "distinct (xs @ p # ys)" and e: "xs @ p # ys = xs' @ p # ys'" using assms(1) unfolding assms(3) [symmetric] c(1) [symmetric] by auto
  have "xs = xs'" "ys = ys'" by (rule distinct_mid [OF dl e])+
  then show "n = length (concat (map (ents (ix_pages s)) xs)) + k" "k < length (ents (ix_pages s) p) \<or> ys = [] \<and> k = length (ents (ix_pages s) p)"
    using c(2,3) by simp_all
qed

lemma pos_at_before:
  assumes "xs @ p # ys = (xs @ p # zs) @ p' # ys'" and "k < length (ents g p) \<or> ys = [] \<and> k = length (ents g p)"
  shows "length (concat (map (ents g) xs)) + k < length (concat (map (ents g) (xs @ p # zs))) + k'"
  using assms by auto

lemma pos_at_inj:
  assumes "distinct L" and "pos_at s L n i" and "pos_at s L m j"
  shows "i = j \<longleftrightarrow> n = m"
proof
  assume ij: "i = j"
  obtain xs p ys k where a: "L = xs @ p # ys" "i = \<lparr>iid_page = p, iid_slot = int k\<rparr>" using assms(2) by (rule pos_atE)
  show "n = m" using pos_at_same(1) [OF assms(1) assms(2) [unfolded a(2)] a(1)] pos_at_same(1) [OF assms(1) assms(3) [folded ij, unfolded a(2)] a(1)] by simp
next
  assume nm: "n = m"
  obtain xs p ys k where a: "L = xs @ p # ys" "n = length (concat (map (ents (ix_pages s)) xs)) + k" "i = \<lparr>iid_page = p, iid_slot = int k\<rparr>"
      "k < length (ents (ix_pages s) p) \<or> ys = [] \<and> k = length (ents (ix_pages s) p)" using assms(2) by (rule pos_atE)
  obtain xs' p' ys' k' where b: "L = xs' @ p' # ys'" "m = length (concat (map (ents (ix_pages s)) xs')) + k'" "j = \<lparr>iid_page = p', iid_slot = int k'\<rparr>"
      "k' < length (ents (ix_pages s) p') \<or> ys' = [] \<and> k' = length (ents (ix_pages s) p')" using assms(3) by (rule pos_atE)
  from a(1) b(1) consider "xs = xs' \<and> p = p'" | zs where "xs' = xs @ p # zs" | zs where "xs = xs' @ p' # zs"
    by (auto simp: append_eq_append_conv2 Cons_eq_append_conv append_eq_Cons_conv)
  then show "i = j"
  proof cases
    case 1
    then show ?thesis using a b nm by simp
  next
    case 2
    then show ?thesis using pos_at_before [of xs p ys zs p' ys' k "ix_pages s" k'] a b nm by simp
  next
    case 3
    then show ?thesis using pos_at_before [of xs' p' ys' zs p ys k' "ix_pages s" k] a b nm by simp
  qed
qed

lemma tree_two_leaves: "tree s L Ls \<Longrightarrow> L = xs @ p # q # ys \<Longrightarrow> x \<in> set L \<Longrightarrow> ents (ix_pages s) x \<noteq> []"
  using tree_filled [of s L Ls] stacked_single [OF shapedD(1) [OF treeD(1)], of s L Ls] by (auto simp: filled_def append_eq_Cons_conv)

lemma leaf_iid_pos:
  assumes t: "tree s L Ls" and L: "L = xs @ p # ys" and k: "k \<le> length (ents (ix_pages s) p)"
  shows "pos_at s L (length (concat (map (ents (ix_pages s)) xs)) + k) (leaf_iid s p k)"
proof -
  have d: "distinct L" using shapedD(2) [OF treeD(1) [OF t]] by simp
  have last: "p = last_leaf (ix_hdr s) \<longleftrightarrow> ys = []" using treeD(9) [OF t] L d by auto
  show ?thesis
  proof (cases "k < length (ents (ix_pages s) p) \<or> ys = []")
    case True
    then have "leaf_iid s p k = \<lparr>iid_page = p, iid_slot = int k\<rparr>" using last by (auto simp: leaf_iid_def get_size_def ents_def)
    moreover have "k < length (ents (ix_pages s) p) \<or> ys = [] \<and> k = length (ents (ix_pages s) p)" using True k by auto
    ultimately show ?thesis using pos_atI [OF L, of k s] by simp
  next
    case False
    then obtain q zs where q: "ys = q # zs" by (cases ys) auto
    have "nd_next (node s p) = q" using leaf_ring_next [of "ix_pages s" xs p ys] treeD(8) [OF t] L q by simp
    then have "leaf_iid s p k = \<lparr>iid_page = q, iid_slot = int 0\<rparr>" using False last by (auto simp: leaf_iid_def get_size_def ents_def)
    moreover have "ents (ix_pages s) q \<noteq> []" using tree_two_leaves [OF t, of xs p q zs q] L q by simp
    moreover have "L = (xs @ [p]) @ q # zs" using L q by simp
    ultimately show ?thesis using pos_atI [of L "xs @ [p]" q zs 0 s] False k by simp
  qed
qed

section \<open>Bounds\<close>

lemma filter_below:
  fixes v :: "'a \<Rightarrow> 'b :: linorder"
  shows "\<forall>e \<in> set as. v e < k \<Longrightarrow> filter (\<lambda>e. v e \<le> k) as = as" "\<forall>e \<in> set as. v e < k \<Longrightarrow> filter (\<lambda>e. v e < k) as = as"
    "\<forall>e \<in> set as. k < v e \<Longrightarrow> filter (\<lambda>e. v e \<le> k) as = []" "\<forall>e \<in> set as. k \<le> v e \<Longrightarrow> filter (\<lambda>e. v e < k) as = []"
  by (induction as) (auto simp: not_le not_less)

lemma bounds_ok:
  assumes t: "tree s L Ls" and k: "key_ok (ix_hdr s) key" and sz: "size (ix_pins s) < ix_frames s"
  obtains a b where "ix_lower_bound key s = Inr (a, s)" "pos_at s L (length (filter (\<lambda>e. key_val (ix_hdr s) (fst e) < key_val (ix_hdr s) key) (entries s L))) a"
    "ix_upper_bound key s = Inr (b, s)" "pos_at s L (length (filter (\<lambda>e. key_val (ix_hdr s) (fst e) \<le> key_val (ix_hdr s) key) (entries s L))) b"
proof -
  let ?h = "ix_hdr s" and ?v = "\<lambda>e. key_val (ix_hdr s) (fst e)" and ?k = "key_val (ix_hdr s) key"
  obtain xs p ys where L: "L = xs @ p # ys" and find: "find_leaf_page key False s = Inr (p, s\<lparr>ix_pins := add_mset p (ix_pins s)\<rparr>)"
      and lo: "\<forall>e \<in> set (concat (map (ents (ix_pages s)) xs)). ?v e < ?k" and hi: "\<forall>e \<in> set (concat (map (ents (ix_pages s)) ys)). ?k < ?v e"
    by (rule search_ok [OF tree_searchable [OF t] k sz])
  let ?es = "nd_ents (node s p)" and ?X = "concat (map (ents (ix_pages s)) xs)" and ?Y = "concat (map (ents (ix_pages s)) ys)"
  have ko: "keys_ok ?h ?es" using keys_ok_node [of ?h "ix_pages s" xs p ys] treeD(4) [OF t] L by (simp add: ents_def entries_def)
  have all: "entries s L = ?X @ ?es @ ?Y" by (simp add: entries_def L ents_def)
  have eq: "ix_unpin p (s\<lparr>ix_pins := add_mset p (ix_pins s)\<rparr>) = s" "leaf_iid (s\<lparr>ix_pins := add_mset p (ix_pins s)\<rparr>) = leaf_iid s"
    by (simp_all add: ix_unpin_def leaf_iid_def fun_eq_iff)
  obtain as bs up where ab: "?es = as @ bs" "node_lower_bound ?h (node s p) key = length as" "\<forall>e \<in> set as. ?v e < ?k" "\<forall>e \<in> set bs. ?k \<le> ?v e"
      and up: "up = (if length as < get_size (node s p) \<and> ix_compare ?h (get_key (node s p) (length as)) key = 0 then length as + 1 else length as)"
      "filter (\<lambda>e. ?v e \<le> ?k) ?es = take up ?es" "up \<le> length ?es"
  proof (cases rule: node_search [OF ko k, where v = undefined, case_names hit miss])
    case (hit as e zs)
    then have kz: "keys_ok ?h (as @ e # zs)" "?v e = ?k" using ko k ix_compare_val(2) [of ?h "fst e" key] by (auto simp: keys_ok_append keys_ok_Cons)
    then have "\<forall>x \<in> set as. ?v x < ?k" "\<forall>x \<in> set (e # zs). ?k \<le> ?v x" "\<forall>x \<in> set zs. ?k < ?v x" by (auto simp: keys_ok_append keys_ok_Cons)
    moreover from this have "filter (\<lambda>e. ?v e \<le> ?k) (as @ e # zs) = as @ [e]" using filter_below(1) [of as ?v ?k] filter_below(3) [of zs ?k ?v] kz(2) by simp
    ultimately show ?thesis using that [of as "e # zs"] hit by (simp add: get_size_def get_key_def)
  next
    case (miss as bs)
    note s = node_lower_bound_split [OF ko k]
    have "as = take (length as) ?es" "bs = drop (length as) ?es" using miss by simp_all
    then have c: "\<forall>x \<in> set as. ?v x < ?k" "\<forall>x \<in> set bs. ?k \<le> ?v x" using s(2,3) miss(2) by simp_all
    have "?k \<notin> set (vals ?h bs)" using miss by (auto simp: vals_def)
    moreover have "?v x \<in> set (vals ?h bs)" if "x \<in> set bs" for x using that by (simp add: vals_def)
    ultimately have "\<forall>x \<in> set bs. ?k < ?v x" using c(2) by (metis le_neq_trans)
    then have "filter (\<lambda>e. ?v e \<le> ?k) (as @ bs) = as" using filter_below(1) [of as ?v ?k] filter_below(3) [of bs ?k ?v] c(1) by simp
    then show ?thesis using that [of as bs] miss c by (cases bs) (simp_all add: get_size_def get_key_def)
  qed
  have "length (filter (\<lambda>e. ?v e < ?k) (entries s L)) = length ?X + length as"
  proof -
    have "\<forall>e \<in> set ?Y. ?k \<le> ?v e" using hi by (auto intro: less_imp_le)
    then show ?thesis using filter_below(2) [of ?X ?v ?k] filter_below(2) [of as ?v ?k] filter_below(4) [of bs ?k ?v] filter_below(4) [of ?Y ?k ?v] ab lo
      unfolding all ab(1) filter_append by (simp only: length_append list.size add_0_right)
  qed
  moreover have "length (filter (\<lambda>e. ?v e \<le> ?k) (entries s L)) = length ?X + up"
  proof -
    have "filter (\<lambda>e. ?v e \<le> ?k) ?X = ?X" "filter (\<lambda>e. ?v e \<le> ?k) ?Y = []" using filter_below(1) [of ?X ?v ?k] filter_below(3) [of ?Y ?k ?v] lo hi by simp_all
    then show ?thesis using up(2,3) unfolding all by simp
  qed
  moreover have "ix_lower_bound key s = Inr (leaf_iid s p (length as), s)" using find ab(2) eq by (simp add: ix_lower_bound_def)
  moreover have "ix_upper_bound key s = Inr (leaf_iid s p up, s)" using find ab(2) eq up(1) by (simp add: ix_upper_bound_def Let_def)
  ultimately show ?thesis using that leaf_iid_pos [OF t L, of "length as"] leaf_iid_pos [OF t L, of up] ab(1) up(3) by (simp add: ents_def)
qed

section \<open>Steps of a scan\<close>

text \<open>The scan \<open>c\<close> in the state \<open>t\<close>, which is \<open>s\<close> with at most the pin of the scan added to the pins \<open>B\<close>.\<close>

definition scanning :: "ixh \<Rightarrow> int multiset \<Rightarrow> IxScan \<Rightarrow> ixh \<Rightarrow> bool" where
  "scanning s B c t \<longleftrightarrow> (sc_node c = None \<and> sc_page c = -1 \<and> t = s\<lparr>ix_pins := B\<rparr>)
     \<or> (\<exists>p. 2 \<le> p \<and> sc_node c = Some p \<and> sc_page c = p \<and> t = s\<lparr>ix_pins := add_mset p B\<rparr>)"

definition on_leaf :: "ixh \<Rightarrow> int \<Rightarrow> IxScan \<Rightarrow> IxScan" where
  "on_leaf s p c = c\<lparr>sc_node := Some p, sc_page := p, sc_size := int (length (ents (ix_pages s) p))\<rparr>"

lemma on_leaf_sel [simp]:
  "sc_iid (on_leaf s p c) = sc_iid c" "sc_end (on_leaf s p c) = sc_end c" "sc_node (on_leaf s p c) = Some p" "sc_page (on_leaf s p c) = p"
  "sc_size (on_leaf s p c) = int (length (ents (ix_pages s) p))"
  by (simp_all add: on_leaf_def)

lemma scanning_on_leaf: "2 \<le> p \<Longrightarrow> scanning s B (on_leaf s p c) (s\<lparr>ix_pins := add_mset p B\<rparr>)"
  by (auto simp: scanning_def)

lemma ensure_ok:
  assumes sc: "scanning s B c t" and p: "2 \<le> p" "p < ix_num_pages (ix_hdr s)" and sz: "size B < ix_frames s"
  shows "page_no_valid p t" "sc_ensure p c t = Inr (on_leaf s p c, s\<lparr>ix_pins := add_mset p B\<rparr>)"
proof -
  have num: "ix_hdr t = ix_hdr s" using sc by (auto simp: scanning_def)
  then show v: "page_no_valid p t" using p by (simp add: page_no_valid_def IX_NO_PAGE_def IX_LEAF_HEADER_PAGE_def)
  have f: "fetch_node p (s\<lparr>ix_pins := B\<rparr>) = Inr (s\<lparr>ix_pins := add_mset p B\<rparr>)"
    using fetch_ok [of p "s\<lparr>ix_pins := B\<rparr>"] p sz by simp
  show "sc_ensure p c t = Inr (on_leaf s p c, s\<lparr>ix_pins := add_mset p B\<rparr>)"
    using sc unfolding scanning_def
  proof (elim disjE conjE exE)
    assume c: "sc_node c = None" "sc_page c = -1" "t = s\<lparr>ix_pins := B\<rparr>"
    then show ?thesis using v f p by (simp add: sc_ensure_def sc_release_def on_leaf_def get_size_def ents_def)
  next
    fix q assume c: "2 \<le> q" "sc_node c = Some q" "sc_page c = q" "t = s\<lparr>ix_pins := add_mset q B\<rparr>"
    show ?thesis
    proof (cases "q = p")
      case True
      have "on_leaf s p c = c\<lparr>sc_size := int (length (ents (ix_pages s) p))\<rparr>" using c True by (cases c) (simp add: on_leaf_def)
      then show ?thesis using v c True by (simp add: sc_ensure_def get_size_def ents_def)
    next
      case False
      then show ?thesis using v f c by (simp add: sc_ensure_def sc_release_def ix_unpin_def on_leaf_def get_size_def ents_def)
    qed
  qed
qed

lemma normalize_end: "0 < k \<Longrightarrow> sc_iid c = sc_end c \<Longrightarrow> normalize_position k c t = Inr (c, t)"
  by (cases k) simp_all

lemma normalize_ok:
  assumes sc: "scanning s B c t" and p: "2 \<le> p" "p < ix_num_pages (ix_hdr s)" and sz: "size B < ix_frames s" and k: "0 < k"
    and i: "sc_iid c = \<lparr>iid_page = p, iid_slot = int j\<rparr>" "sc_iid c \<noteq> sc_end c" "j < length (ents (ix_pages s) p)"
  shows "normalize_position k c t = Inr (on_leaf s p c, s\<lparr>ix_pins := add_mset p B\<rparr>)"
  using ensure_ok [OF sc p sz] k i by (cases k) simp_all

lemma scan_fuel: "tree s L Ls \<Longrightarrow> 0 < ix_fuel (s\<lparr>ix_pins := P\<rparr>)"
  using shaped_depth [OF treeD(1-3)] by (simp add: ix_fuel_def) fastforce

lemma scanning_fuel: "tree s L Ls \<Longrightarrow> scanning s B c t \<Longrightarrow> 0 < ix_fuel t"
  by (auto simp: scanning_def scan_fuel)

text \<open>A scan between two places of the list of entries.\<close>

lemma scan_step:
  assumes t: "tree s L Ls" and sc: "scanning s B c u" and sz: "size B < ix_frames s"
    and a: "pos_at s L n (sc_iid c)" and b: "pos_at s L m (sc_end c)" and nm: "n < m"
  obtains c' u' where "ix_scan_is_end c u = Inr (False, c', u')" "ix_scan_rid c' u' = Inr (snd (entries s L ! n), c', u')"
    "scanning s B c' u'" "sc_iid c' = sc_iid c" "sc_end c' = sc_end c"
proof -
  have d: "distinct L" using shapedD(2) [OF treeD(1) [OF t]] by simp
  obtain xs p ys k where i: "L = xs @ p # ys" "n = length (concat (map (ents (ix_pages s)) xs)) + k" "sc_iid c = \<lparr>iid_page = p, iid_slot = int k\<rparr>"
      "k < length (ents (ix_pages s) p) \<or> ys = [] \<and> k = length (ents (ix_pages s) p)" using a by (rule pos_atE)
  have "n < length (entries s L)" using nm pos_at_le [OF b] by simp
  then have k: "k < length (ents (ix_pages s) p)" using i by (auto simp: entries_def)
  have ne: "sc_iid c \<noteq> sc_end c" using pos_at_inj [OF d a b] nm by simp
  have p: "2 \<le> p" "p < ix_num_pages (ix_hdr s)" using shapedD(3,5,6) [OF treeD(1) [OF t]] i(1) by simp_all
  let ?u = "s\<lparr>ix_pins := add_mset p B\<rparr>"
  note sp = scanning_on_leaf [OF p(1), of s B c]
  have "normalize_position (ix_fuel u) c u = Inr (on_leaf s p c, ?u)"
    by (rule normalize_ok [OF sc p sz scanning_fuel [OF t sc] i(3) ne k])
  then have e: "ix_scan_is_end c u = Inr (False, on_leaf s p c, ?u)" using ne by (simp add: ix_scan_is_end_def)
  have "normalize_position (ix_fuel ?u) (on_leaf s p c) ?u = Inr (on_leaf s p (on_leaf s p c), ?u)"
    by (rule normalize_ok [OF sp p sz scanning_fuel [OF t sp] _ _ k]) (use i(3) ne in simp_all)
  moreover have idem: "on_leaf s p (on_leaf s p c) = on_leaf s p c" by (simp add: on_leaf_def)
  moreover have "entries s L ! n = nd_ents (node s p) ! k" using i k by (simp add: entries_def nth_append ents_def)
  ultimately have r: "ix_scan_rid (on_leaf s p c) ?u = Inr (snd (entries s L ! n), on_leaf s p c, ?u)"
    using ensure_ok(2) [OF sp p sz] ne i(3) k by (simp add: ix_scan_rid_def Let_def)
  show ?thesis using that [OF e r sp] by simp
qed

lemma scan_advance:
  assumes t: "tree s L Ls" and sc: "scanning s B c u" and sz: "size B < ix_frames s"
    and a: "pos_at s L n (sc_iid c)" and b: "pos_at s L m (sc_end c)" and nm: "n < m"
  obtains c' u' where "ix_scan_next c u = Inr (c', u')" "scanning s B c' u'" "pos_at s L (Suc n) (sc_iid c')" "sc_end c' = sc_end c"
proof -
  have d: "distinct L" using shapedD(2) [OF treeD(1) [OF t]] by simp
  obtain xs p ys k where i: "L = xs @ p # ys" "n = length (concat (map (ents (ix_pages s)) xs)) + k" "sc_iid c = \<lparr>iid_page = p, iid_slot = int k\<rparr>"
      "k < length (ents (ix_pages s) p) \<or> ys = [] \<and> k = length (ents (ix_pages s) p)" using a by (rule pos_atE)
  have tot: "n < length (entries s L)" "m \<le> length (entries s L)" using nm pos_at_le [OF b] by simp_all
  then have k: "k < length (ents (ix_pages s) p)" using i by (auto simp: entries_def)
  have ne: "sc_iid c \<noteq> sc_end c" using pos_at_inj [OF d a b] nm by simp
  have p: "2 \<le> p" "p < ix_num_pages (ix_hdr s)" using shapedD(3,5,6) [OF treeD(1) [OF t]] i(1) by simp_all
  let ?u = "s\<lparr>ix_pins := add_mset p B\<rparr>" and ?i = "\<lparr>iid_page = p, iid_slot = int (Suc k)\<rparr>"
  define c1 where "c1 = (on_leaf s p c)\<lparr>sc_iid := ?i\<rparr>"
  have sp: "scanning s B c1 ?u" using p(1) by (auto simp: scanning_def c1_def)
  have c1: "sc_iid (on_leaf s p c1) = ?i" "sc_end (on_leaf s p c1) = sc_end c" "on_leaf s p c1 = c1" by (simp_all add: c1_def on_leaf_def)
  have norm: "normalize_position (ix_fuel u) c u = Inr (on_leaf s p c, ?u)"
    by (rule normalize_ok [OF sc p sz scanning_fuel [OF t sc] i(3) ne k])
  have run: "ix_scan_next c u = Inr (if ?i = sc_end c then (c1, ?u) else if length (ents (ix_pages s) p) \<le> Suc k then sc_advance c1 ?u else (c1, ?u))"
  proof -
    have "(on_leaf s p c)\<lparr>sc_iid := \<lparr>iid_page = p, iid_slot = int k + 1\<rparr>\<rparr> = c1" by (simp add: c1_def algebra_simps)
    moreover have "sc_size c1 = int (length (ents (ix_pages s) p))" by (simp add: c1_def)
    ultimately show ?thesis
      using norm ne ensure_ok(2) [OF sp p sz] c1 by (auto simp: ix_scan_next_def Let_def i(3))
  qed
  show ?thesis
  proof (cases "Suc k < length (ents (ix_pages s) p) \<or> ys = []")
    case True
    then have "Suc k < length (ents (ix_pages s) p) \<or> ys = [] \<and> Suc k = length (ents (ix_pages s) p)" using k by auto
    then have at: "pos_at s L (Suc n) ?i" using pos_atI [OF i(1), of "Suc k" s] i(2) by simp
    moreover have "ix_scan_next c u = Inr (c1, ?u)"
    proof (cases "Suc k < length (ents (ix_pages s) p)")
      case False
      then have "m = Suc n" using True k tot nm i(1,2) by (auto simp: entries_def)
      then have "?i = sc_end c" using pos_at_inj [OF d at b] by simp
      then show ?thesis using run by simp
    qed (use run in simp)
    ultimately show ?thesis using that [OF _ sp] c1 by simp
  next
    case False
    then obtain q zs where q: "ys = q # zs" by (cases ys) auto
    have full: "Suc k = length (ents (ix_pages s) p)" using False k by simp
    have "?i \<noteq> sc_end c"
    proof
      assume "?i = sc_end c"
      then have "pos_at s L m ?i" using b by simp
      from pos_at_same(2) [OF d this i(1)] show False using False by simp
    qed
    then have run': "ix_scan_next c u = Inr (sc_advance c1 ?u)" using run full by simp
    have "nd_next (node s p) = q" using leaf_ring_next [of "ix_pages s" xs p ys] treeD(8) [OF t] i(1) q by simp
    moreover have "page_no_valid q (s\<lparr>ix_pins := B\<rparr>)"
      using shapedD(3) [OF treeD(1) [OF t]] shapedD(5,6) [OF treeD(1) [OF t], of q] i(1) q by (simp add: page_no_valid_def IX_NO_PAGE_def IX_LEAF_HEADER_PAGE_def)
    ultimately have adv: "sc_advance c1 ?u = (c1\<lparr>sc_node := None, sc_page := -1, sc_iid := \<lparr>iid_page = q, iid_slot = 0\<rparr>\<rparr>, s\<lparr>ix_pins := B\<rparr>)"
      by (simp add: sc_advance_def sc_release_def c1_def ix_unpin_def)
    have "ents (ix_pages s) q \<noteq> []" using tree_two_leaves [OF t, of xs p q zs q] i(1) q by simp
    moreover have "L = (xs @ [p]) @ q # zs" using i(1) q by simp
    moreover have "Suc n = length (concat (map (ents (ix_pages s)) (xs @ [p])))" using i(2) full by simp
    ultimately have "pos_at s L (Suc n) \<lparr>iid_page = q, iid_slot = 0\<rparr>" using pos_atI [of L "xs @ [p]" q zs 0 s] by simp
    then show ?thesis using that [OF run' [unfolded adv]] c1(2) by (simp add: scanning_def c1_def)
  qed
qed

section \<open>A whole scan\<close>

text \<open>The loop of the executors: as long as the scan is not at its end, take the record id and go on.\<close>

primrec scan_all :: "nat \<Rightarrow> IxScan \<Rightarrow> ixh \<Rightarrow> ix_error + Rid list \<times> IxScan \<times> ixh" where
  "scan_all 0 c s = Inl Endless"
| "scan_all (Suc k) c s =
     and_then (ix_scan_is_end c s) (\<lambda>(e, c, s).
       if e then Inr ([], c, s)
       else and_then (ix_scan_rid c s) (\<lambda>(r, c, s).
            and_then (ix_scan_next c s) (\<lambda>(c, s).
            and_then (scan_all k c s) (\<lambda>(rs, c, s). Inr (r # rs, c, s)))))"

lemma scan_all_ok:
  assumes t: "tree s L Ls" and sz: "size B < ix_frames s"
    and "scanning s B c u" and "pos_at s L n (sc_iid c)" and "pos_at s L m (sc_end c)" and "n \<le> m" and "m - n < k"
  shows "\<exists>c' u'. scan_all k c u = Inr (map snd (take (m - n) (drop n (entries s L))), c', u') \<and> scanning s B c' u'"
  using assms(3-)
proof (induction k arbitrary: c u n)
  case (Suc k)
  have d: "distinct L" using shapedD(2) [OF treeD(1) [OF t]] by simp
  show ?case
  proof (cases "n = m")
    case True
    then have e: "sc_iid c = sc_end c" using pos_at_inj [OF d Suc.prems(2,3)] by simp
    have "ix_scan_is_end c u = Inr (True, c, u)" using normalize_end [OF scanning_fuel [OF t Suc.prems(1)] e] e by (simp add: ix_scan_is_end_def)
    then show ?thesis using True Suc.prems(1) by simp
  next
    case False
    then have nm: "n < m" using Suc.prems(4) by simp
    obtain c1 u1 where s1: "ix_scan_is_end c u = Inr (False, c1, u1)" "ix_scan_rid c1 u1 = Inr (snd (entries s L ! n), c1, u1)"
        "scanning s B c1 u1" "sc_iid c1 = sc_iid c" "sc_end c1 = sc_end c"
      by (rule scan_step [OF t Suc.prems(1) sz Suc.prems(2,3) nm])
    have a: "pos_at s L n (sc_iid c1)" "pos_at s L m (sc_end c1)" using s1(4,5) Suc.prems(2,3) by simp_all
    obtain c2 u2 where s2: "ix_scan_next c1 u1 = Inr (c2, u2)" "scanning s B c2 u2" "pos_at s L (Suc n) (sc_iid c2)" "sc_end c2 = sc_end c1"
      by (rule scan_advance [OF t s1(3) sz a nm])
    have lt: "m - Suc n < k" using nm Suc.prems(5) by simp
    from Suc.IH [OF s2(2,3)] obtain c3 u3 where s3: "scan_all k c2 u2 = Inr (map snd (take (m - Suc n) (drop (Suc n) (entries s L))), c3, u3)" "scanning s B c3 u3"
      using s2(4) a(2) nm lt by auto
    have "n < length (entries s L)" using nm pos_at_le [OF Suc.prems(3)] by simp
    then have "take (m - n) (drop n (entries s L)) = entries s L ! n # take (m - Suc n) (drop (Suc n) (entries s L))"
      using nm by (simp add: Cons_nth_drop_Suc [symmetric] Suc_diff_Suc [symmetric] del: Suc_diff_Suc)
    then show ?thesis using s1(1,2) s2(1) s3 by simp
  qed
qed simp

lemma filter_mono_length: "(\<And>x. P x \<Longrightarrow> Q x) \<Longrightarrow> length (filter P xs) \<le> length (filter Q xs)"
  by (induction xs) auto

lemma filter_range:
  assumes "sorted_wrt (<) (map v es)" and "lo \<le> (hi :: 'k :: linorder)"
  shows "take (length (filter (\<lambda>e. v e \<le> hi) es) - length (filter (\<lambda>e. v e < lo) es)) (drop (length (filter (\<lambda>e. v e < lo) es)) es)
    = filter (\<lambda>e. lo \<le> v e \<and> v e \<le> hi) es"
  using assms(1)
proof (induction es)
  case (Cons e es)
  have less: "\<forall>x \<in> set es. v e < v x" using Cons.prems by simp
  have mono: "length (filter (\<lambda>e. v e < lo) es) \<le> length (filter (\<lambda>e. v e \<le> hi) es)" by (rule filter_mono_length) (use assms(2) in auto)
  consider "v e < lo" | "lo \<le> v e" "v e \<le> hi" | "hi < v e" by (metis not_le)
  then show ?case
  proof cases
    case 1
    then show ?thesis using Cons assms(2) by auto
  next
    case 2
    then have "\<forall>x \<in> set es. lo \<le> v x" using less by auto
    then have z: "filter (\<lambda>e. v e < lo) es = []" by (auto simp: filter_empty_conv not_less)
    then show ?thesis using 2 Cons by (simp add: not_less)
  next
    case 3
    then have "\<forall>x \<in> set es. hi < v x" using less by auto
    then have "filter (\<lambda>e. v e \<le> hi) es = []" "filter (\<lambda>e. lo \<le> v e \<and> v e \<le> hi) es = []" by (auto simp: filter_empty_conv not_le)
    then show ?thesis using 3 by (simp add: not_le [symmetric])
  qed
qed simp

lemma ent_map_member:
  assumes "sorted_wrt (<) (map (\<lambda>e. key_val h (fst e)) es)" and "e \<in> set es"
  shows "ent_map h es (key_val h (fst e)) = Some (snd e)"
proof -
  have "distinct (map fst (map (\<lambda>(a, r). (key_val h a, r)) es))"
    using assms(1) strict_sorted_iff [of "map (\<lambda>e. key_val h (fst e)) es"] by (simp add: comp_def case_prod_beta strict_sorted_iff)
  then show ?thesis unfolding ent_map_def by (rule map_of_is_SomeI) (use assms(2) in force)
qed

text \<open>A range scan finds the entries with keys in the range, in the order of the keys.\<close>

lemma range_scan_ok:
  assumes t: "tree s L Ls" and lo: "key_ok (ix_hdr s) lo" and hi: "key_ok (ix_hdr s) hi" and le: "key_val (ix_hdr s) lo \<le> key_val (ix_hdr s) hi"
    and sz: "size (ix_pins s) < ix_frames s" and k: "length (entries s L) < k"
  obtains a b c u where "ix_lower_bound lo s = Inr (a, s)" "ix_upper_bound hi s = Inr (b, s)"
    "scan_all k (ix_scan_new a b) s
      = Inr (map snd (filter (\<lambda>e. key_val (ix_hdr s) lo \<le> key_val (ix_hdr s) (fst e) \<and> key_val (ix_hdr s) (fst e) \<le> key_val (ix_hdr s) hi) (entries s L)), c, u)"
proof -
  let ?v = "\<lambda>e. key_val (ix_hdr s) (fst e)" and ?lo = "key_val (ix_hdr s) lo" and ?hi = "key_val (ix_hdr s) hi"
  let ?n = "length (filter (\<lambda>e. ?v e < ?lo) (entries s L))" and ?m = "length (filter (\<lambda>e. ?v e \<le> ?hi) (entries s L))"
  obtain a where a: "ix_lower_bound lo s = Inr (a, s)" "pos_at s L ?n a" by (rule bounds_ok [OF t lo sz])
  obtain b where b: "ix_upper_bound hi s = Inr (b, s)" "pos_at s L ?m b" by (rule bounds_ok [OF t hi sz])
  have sc: "scanning s (ix_pins s) (ix_scan_new a b) s" by (simp add: scanning_def ix_scan_new_def)
  have nm: "?n \<le> ?m" by (rule filter_mono_length) (use le in auto)
  have "?m \<le> length (entries s L)" by (rule length_filter_le)
  then have "?m - ?n < k" using k by linarith
  from scan_all_ok [OF t sz sc _ _ nm this] a(2) b(2)
  obtain c u where "scan_all k (ix_scan_new a b) s = Inr (map snd (take (?m - ?n) (drop ?n (entries s L))), c, u)" by (auto simp: ix_scan_new_def)
  moreover have "sorted_wrt (<) (map ?v (entries s L))" using treeD(4) [OF t] by (simp add: keys_ok_def vals_def comp_def)
  ultimately show ?thesis using that [OF a(1) b(1)] filter_range [of ?v "entries s L", OF _ le] by simp
qed

text \<open>
  C15: A range scan returns exactly the entries of the range in the order of their keys. After any sequence of insertions, deletions and searches on
  a new index, \<^verbatim>\<open>lower_bound\<close> and \<^verbatim>\<open>upper_bound\<close> return, and the loop over \<^verbatim>\<open>IxScan\<close> between the two positions ends
  with the record ids that the map of the index has for the key values from \<open>lo\<close> to \<open>hi\<close>, smallest key first.
\<close>

theorem range_scan_exact:
  assumes "sum_list (map snd cols) \<le> IX_MAX_COL_LEN" and "length cols \<le> 507"
    and "\<And>x. x \<in> set ops \<Longrightarrow> key_ok (ix_hdr_of cols) (op_key x)" and "length ops < 2 ^ d" and "size B + 2 * d + 3 < frames"
    and "key_ok (ix_hdr_of cols) lo" and "key_ok (ix_hdr_of cols) hi" and "key_val (ix_hdr_of cols) lo \<le> key_val (ix_hdr_of cols) hi"
  shows "\<exists>f n s outs t a b rs c u ks. create_index cols = Inr (f, n) \<and> ix_open f n B frames = Inr s
    \<and> runs get_value insert_entry delete_entry ops s = Inr (outs, t) \<and> ix_lower_bound lo t = Inr (a, t) \<and> ix_upper_bound hi t = Inr (b, t)
    \<and> scan_all (2 ^ d) (ix_scan_new a b) t = Inr (rs, c, u) \<and> sorted_wrt (<) ks
    \<and> set ks = {x \<in> dom (snd (map_ops (key_val (ix_hdr_of cols)) ops Map.empty)). key_val (ix_hdr_of cols) lo \<le> x \<and> x \<le> key_val (ix_hdr_of cols) hi}
    \<and> map Some rs = map (snd (map_ops (key_val (ix_hdr_of cols)) ops Map.empty)) ks"
proof -
  let ?h = "ix_hdr_of cols"
  let ?m = "snd (map_ops (key_val ?h) ops Map.empty)"
  obtain f n s where s: "create_index cols = Inr (f, n)" "ix_open f n B frames = Inr s" "ix_holds ?h B d (length ops + 0) s Map.empty"
    by (rule new_index_holds [OF assms(1,2,4,5)])
  from bt.runs_map [OF s(3) assms(3)]
  obtain outs t where t: "runs get_value insert_entry delete_entry ops s = Inr (outs, t)" "ix_holds ?h B d 0 t ?m" by blast
  obtain L Ls where tr: "tree t L Ls" "caches B t L" and kv: "key_val (ix_hdr t) = key_val ?h" "key_ok (ix_hdr t) = key_ok ?h"
      and m: "ent_map ?h (entries t L) = ?m" and len: "length (entries t L) + 0 < 2 ^ d" and sz: "size B + 2 * length Ls + 3 < ix_frames t"
    using t(2) by (rule ix_holdsE)
  have pins: "size (ix_pins t) < ix_frames t" using caches_pins(1) [OF tr(2)] sz by simp
  let ?in = "\<lambda>e. key_val ?h lo \<le> key_val ?h (fst e) \<and> key_val ?h (fst e) \<le> key_val ?h hi"
  obtain a b c u where sc: "ix_lower_bound lo t = Inr (a, t)" "ix_upper_bound hi t = Inr (b, t)"
      "scan_all (2 ^ d) (ix_scan_new a b) t = Inr (map snd (filter ?in (entries t L)), c, u)"
    by (rule range_scan_ok [OF tr(1), of lo hi "2 ^ d", unfolded kv, OF assms(6-8) pins]) (use len in auto)
  have so: "sorted_wrt (<) (map (\<lambda>e. key_val ?h (fst e)) (entries t L))" using treeD(4) [OF tr(1)] kv by (simp add: keys_ok_def vals_def comp_def)
  let ?ks = "map (\<lambda>e. key_val ?h (fst e)) (filter ?in (entries t L))"
  have "sorted_wrt (<) ?ks" using so by (simp add: sorted_wrt_map sorted_wrt_filter)
  moreover have "set ?ks = {x \<in> dom ?m. key_val ?h lo \<le> x \<and> x \<le> key_val ?h hi}"
    unfolding m [symmetric] dom_ent_map by (auto simp: vals_def)
  moreover have "map Some (map snd (filter ?in (entries t L))) = map ?m ?ks"
    unfolding m [symmetric] by (simp add: ent_map_member [OF so])
  ultimately show ?thesis using s(1,2) t(1) sc by blast
qed

theorem range_scan_exact_witness:
  "\<exists>f n s outs t a b rs c u ks. create_index [(TYPE_STRING, 2)] = Inr (f, n) \<and> ix_open f n {#} 16 = Inr s
    \<and> runs get_value insert_entry delete_entry [IxInsert [7, 7] \<lparr>page_no = 1, slot_no = 4\<rparr>, IxInsert [1, 2] \<lparr>page_no = 1, slot_no = 5\<rparr>] s = Inr (outs, t)
    \<and> ix_lower_bound [1, 0] t = Inr (a, t) \<and> ix_upper_bound [8, 0] t = Inr (b, t) \<and> scan_all 8 (ix_scan_new a b) t = Inr (rs, c, u)
    \<and> sorted_wrt (<) ks \<and> set ks = {[1, 2 :: int], [7, 7]}
    \<and> map Some rs = map ([[7, 7] \<mapsto> \<lparr>page_no = 1, slot_no = 4\<rparr>, [1, 2] \<mapsto> \<lparr>page_no = 1, slot_no = 5\<rparr>]) ks"
proof -
  let ?cols = "[(TYPE_STRING, 2)]" and ?ops = "[IxInsert [7, 7] \<lparr>page_no = 1, slot_no = 4\<rparr>, IxInsert [1, 2] \<lparr>page_no = 1, slot_no = 5\<rparr>]"
  have c: "sum_list (map snd ?cols) \<le> IX_MAX_COL_LEN" by (simp add: IX_MAX_COL_LEN_def)
  note h = ix_new_hdr_ok(2-4) [OF c]
  have kv: "key_val (ix_hdr_of ?cols) [x, y] = [uint x, uint y]" for x y using h by (simp add: key_val_def)
  have ok: "key_ok (ix_hdr_of ?cols) [x, y]" for x y using h by (simp add: key_ok_def)
  have k: "key_ok (ix_hdr_of ?cols) (op_key x)" if "x \<in> set ?ops" for x using that ok by auto
  have m: "snd (map_ops (key_val (ix_hdr_of ?cols)) ?ops Map.empty) = [[7, 7] \<mapsto> \<lparr>page_no = 1, slot_no = 4\<rparr>, [1, 2] \<mapsto> \<lparr>page_no = 1, slot_no = 5\<rparr>]"
    by (simp add: kv)
  have "{x \<in> dom [[7, 7] \<mapsto> \<lparr>page_no = 1, slot_no = 4\<rparr>, [1, 2] \<mapsto> \<lparr>page_no = 1, slot_no = 5\<rparr>]. [1, 0] \<le> x \<and> x \<le> [8, 0 :: int]} = {[1, 2], [7, 7]}" by auto
  then show ?thesis
    using range_scan_exact [where cols = ?cols and ops = ?ops and d = 3 and B = "{#}" and frames = 16 and lo = "[1, 0]" and hi = "[8, 0]", OF c _ k _ _ ok ok]
    by (simp add: m kv)
qed

end
