(* ===== verification/Spec2Isabelle.thy ===== *)
theory Spec2Isabelle
  imports Bitmap Lru_Replacer Wire_Protocol Lock_Manager Disk_Manager Log_Codec Log_Manager Pool_Client Record_Store Snapshot_Isolation Log_Recovery Recovery_Values Index_Scan
begin

text \<open>
  Verification of the storage and transaction layers of the CSCDB database server, the C++ sources under \<^verbatim>\<open>src/src/\<close>.

  \<^bold>\<open>The program.\<close> A server process accepts SQL over a binary protocol, plans and executes it, and keeps tables in
  fixed-size record slots of paged files. From bottom to top: the disk manager reads and writes pages, files and the log;
  the buffer pool caches pages in frames that a least-recently-used replacer evicts, and writes the log before any page; record files
  divide pages into slots with a bitmap; indexes are B+ trees of paged nodes; the log manager collects redo and undo records of all threads in two
  buffers and writes them in checksummed batches; the lock manager gives row locks and finds deadlocks; the transaction manager
  keeps version chains for snapshot isolation and read-write dependencies for serializability; after a crash the recovery manager
  reads the log from the last checkpoint, undoes the operations of unfinished transactions and repeats those of committed ones.

  \<^bold>\<open>Theories and sources.\<close>
  \<^item> \<^verbatim>\<open>Prelude\<close>: machine types, the exceptions of \<^verbatim>\<open>errors.h\<close> as values of \<open>db_error\<close> in a sum, little-endian images of integers,
    reading and writing regions of byte strings (collections \<open>codec_simps\<close>, \<open>region_simps\<close>).
  \<^item> \<^verbatim>\<open>Bitmap\<close>: \<^verbatim>\<open>record/bitmap.h\<close>. \<^verbatim>\<open>Lru_Replacer\<close>: \<^verbatim>\<open>replacer/\<close>. \<^verbatim>\<open>Wire_Protocol\<close>: \<^verbatim>\<open>common/wire_protocol.h\<close>, sockets being lists of
    outcomes of single system calls.
  \<^item> \<^verbatim>\<open>Lock_Manager\<close>: \<^verbatim>\<open>transaction/concurrency/lock_manager.*\<close>; a lock request is cut at its mutex and condition-variable operations,
    and a step relation interleaves all transactions.
  \<^item> \<^verbatim>\<open>Disk_Manager\<close>: \<^verbatim>\<open>storage/disk_manager.*\<close> over a model of the POSIX file calls. \<^verbatim>\<open>Log_Codec\<close>: the record classes and checksum of
    \<^verbatim>\<open>recovery/log_manager.h\<close>. \<^verbatim>\<open>Log_Manager\<close>: \<^verbatim>\<open>recovery/log_manager.cpp\<close>, threads as interleaved atomic steps.
  \<^item> \<^verbatim>\<open>Buffer_Pool\<close>, \<^verbatim>\<open>Pool_Client\<close>: \<^verbatim>\<open>storage/buffer_pool_manager.*\<close>, \<^verbatim>\<open>storage/page.h\<close>; the second holds the contract \<open>page_store\<close>.
  \<^item> \<^verbatim>\<open>Record_File\<close>, \<^verbatim>\<open>Record_Store\<close>: \<^verbatim>\<open>record/rm_*\<close> on the bytes of pooled pages, proved over \<open>page_store\<close>.
  \<^item> \<^verbatim>\<open>Row_Values\<close>: columns and values in rows, 32-bit integers and IEEE single precision floats, the update functions at the top of
    \<^verbatim>\<open>transaction/transaction_manager.cpp\<close>. \<^verbatim>\<open>Txn_State\<close>: the fields of \<^verbatim>\<open>transaction.h\<close> and \<^verbatim>\<open>transaction_manager.h\<close>.
  \<^item> \<^verbatim>\<open>Ssi\<close>: the serializable checks \<^verbatim>\<open>ser_*\<close>. \<^verbatim>\<open>Mvcc\<close>: version chains, commit and rollback. Both are \<^verbatim>\<open>transaction_manager.cpp\<close>.
  \<^item> \<^verbatim>\<open>Mvcc_Core\<close>, \<^verbatim>\<open>Mvcc_Snapshot\<close>, \<^verbatim>\<open>Snapshot_Isolation\<close>: the part of that state that decides visibility, its invariant, and
    runs of interleaved transactions.
  \<^item> \<^verbatim>\<open>Recovery_Scan\<close>, \<^verbatim>\<open>Recovery_Tables\<close>, \<^verbatim>\<open>Log_Recovery\<close>: \<^verbatim>\<open>recovery/log_recovery.*\<close>: reading the log through the rolling buffer, the
    operations on table files, and the passes \<^verbatim>\<open>analyze\<close>, \<^verbatim>\<open>undo_pass\<close> and \<^verbatim>\<open>redo\<close>. \<^verbatim>\<open>Recovery_Values\<close>: the same passes on the value of one row.
  \<^item> \<^verbatim>\<open>Index_Node\<close>, \<^verbatim>\<open>Index_Tree\<close>: \<^verbatim>\<open>index/ix_defs.h\<close>, \<^verbatim>\<open>index/ix_index_handle.*\<close> and \<^verbatim>\<open>index/ix_scan.*\<close>: file header, key comparison, operations on a node, and the
    operations on the tree with their fetches and pins. \<^verbatim>\<open>Index_Levels\<close>, \<^verbatim>\<open>Index_Insert\<close>, \<^verbatim>\<open>Index_Entry\<close>, \<^verbatim>\<open>Index_Delete\<close>: the tree as a list of levels, its
    invariant, and what search, split, insertion, borrowing, merge and deletion do to it. \<^verbatim>\<open>Index_Map\<close>: \<^verbatim>\<open>index/ix_manager.h\<close>, and the index as a map.
    \<^verbatim>\<open>Index_Scan\<close>: positions and range scans.

  \<^bold>\<open>State and operations.\<close> A class is a record with its fields, a method a function from its arguments and the state to its result
  and the new state; an exception is a value \<open>Inl e\<close>. Code that holds one mutex from entry to return is one step; where the code gives
  up a latch, the operation is several definitions, and a relation or a composed definition puts them together. Integers that can wrap are
  words, positions that cannot are natural numbers.

  \<^bold>\<open>What is proved.\<close>
  \<^item> Refinement: any disciplined sequence of buffer pool calls behaves as a store of pages, any sequence of record file
    operations as a map from record ids to rows, any call sequence of the replacer as a queue, any sequence of index calls as a map from
    key values to record ids, whose range scans give the keys in order.
  \<^item> Durability: no page is written before the log that describes it; what a committer waits for is a durable prefix of
    framed batches; the waiting ends; every record class reads back; one damaged byte is noticed. Recovery returns, reads exactly the whole
    batches, and gives every row its last committed value. Its hypotheses are those of a crash: \<open>crashed\<close> says that the log from the restart offset
    is whole batches followed by bytes that are no batch, \<open>chained\<close> that each record's old image is the committed row before it, \<open>seen\<close> that the
    row on disk is one it had on the way.
  \<^item> Isolation: a row lock has one owner in every interleaving; the deadlock search is exact for the edges it sees; a running transaction reads the same
    rows whatever versioned transactions do besides it; the indexes and edges of the serializable checks are exact.
  \<^item> Behaviour of single operations on every branch, error paths, and bounds of the page layout.
  \<^item> Defects: theorems that show a reachable state or a general situation in which the code does not do what its comments say.

  \<^bold>\<open>Interfaces.\<close> Locales state what one component promises another, and are interpreted on the model's own definitions:
  \<open>slot_set\<close> (bitmap), \<open>replacer\<close> (LRU), \<open>wire_codec\<close> and \<open>log_codec\<close> (encoders), \<open>log_device\<close> (log file), \<open>page_store\<close> (buffer pool),
  \<open>keyed_store\<close> (index).

  \<^bold>\<open>Bounds.\<close> Loops are structural recursions or have termination proofs. Where a thread loops on an environment (socket reads, the log worker)
  the environment is a list or the theorem gives the number of steps that is enough. Loops along the pointers of an index get as much fuel as the
  file has pages, which the depth of a tree and the length of its leaf list never reach; the theorems say that the operations return.

  \<^bold>\<open>Not modelled.\<close> The generated lexer and parser, the server's socket and thread management, result formatting, the shell commands
  for directories, statistics output; the undo-log declarations in \<^verbatim>\<open>transaction_manager.h\<close> that have no code. The method \<^verbatim>\<open>undo\<close> of the recovery manager, which
  rebuilds indexes and writes a checkpoint. In \<open>Snapshot_Isolation\<close> writes on the path
  \<open>uses_si_fast_path\<close>, which change the table file in place, are outside the step relation, and a commit is one step.
\<close>

end
